(* ===== verification/Prelude.thy ===== *)
theory Prelude
  imports Main "HOL-Library.Word" "HOL-Library.Code_Target_Nat"
begin

text \<open>
  Shared vocabulary of the development: byte strings, results that may fail, big-endian numbers and the
  two interfaces the components meet.

  A \<open>Uint8Array\<close> of the TypeScript sources is a list of 8-bit words, a thrown error is the \<open>Inl\<close> side of a sum and
  \<open>bindE\<close> is the propagation of a throw through the statements after it. A JavaScript \<open>number\<close> that only ever holds
  byte counts, and a \<open>bigint\<close> that is never negative, is a \<open>nat\<close>.
\<close>

section \<open>Bytes and results\<close>

type_synonym byte = "8 word"
type_synonym bytes = "byte list"

named_theorems results "rules that take a successful or failed result apart"

fun bindE :: "'e + 'a \<Rightarrow> ('a \<Rightarrow> 'e + 'b) \<Rightarrow> 'e + 'b" where
  "bindE (Inl e) f = Inl e"
| "bindE (Inr x) f = f x"

text \<open>\<open>guardE e c m\<close> is \<open>if (c) throw e;\<close> followed by \<open>m\<close>.\<close>

definition guardE :: "bool \<Rightarrow> 'e \<Rightarrow> 'e + 'a \<Rightarrow> 'e + 'a" where
  "guardE c e m = (if c then Inl e else m)"

text \<open>\<open>mapErr f m\<close> is \<open>try { m } catch (e) { throw f(e); }\<close>.\<close>

fun mapErr :: "('e \<Rightarrow> 'f) \<Rightarrow> 'e + 'a \<Rightarrow> 'f + 'a" where
  "mapErr f (Inl e) = Inl (f e)"
| "mapErr f (Inr x) = Inr x"

fun okOpt :: "'e + 'a \<Rightarrow> 'a option" where
  "okOpt (Inl e) = None"
| "okOpt (Inr x) = Some x"

fun mapE :: "('a \<Rightarrow> 'e + 'b) \<Rightarrow> 'a list \<Rightarrow> 'e + 'b list" where
  "mapE f [] = Inr []"
| "mapE f (x # xs) = bindE (f x) (\<lambda>y. bindE (mapE f xs) (\<lambda>ys. Inr (y # ys)))"

lemma bindE_cong [fundef_cong]:
  assumes "m = m'" and "\<And>x. m' = Inr x \<Longrightarrow> f x = g x"
  shows "bindE m f = bindE m' g"
  using assms by (cases m') auto

lemma guardE_cong [fundef_cong]:
  assumes "c = c'" and "e = e'" and "\<not> c' \<Longrightarrow> m = m'"
  shows "guardE c e m = guardE c' e' m'"
  using assms by (simp add: guardE_def)

lemma mapE_cong [fundef_cong]:
  assumes "xs = ys" and "\<And>x. x \<in> set ys \<Longrightarrow> f x = g x"
  shows "mapE f xs = mapE g ys"
  using assms(2) unfolding assms(1) by (induction ys) auto

lemma bindE_Inr_iff [results]: "bindE m f = Inr y \<longleftrightarrow> (\<exists>x. m = Inr x \<and> f x = Inr y)"
  by (cases m) auto

lemma bindE_Inl_iff [results]: "bindE m f = Inl e \<longleftrightarrow> m = Inl e \<or> (\<exists>x. m = Inr x \<and> f x = Inl e)"
  by (cases m) auto

lemma guardE_Inr_iff [results]: "guardE c e m = Inr y \<longleftrightarrow> \<not> c \<and> m = Inr y"
  by (simp add: guardE_def)

lemma guardE_simps [simp]: "guardE True e m = Inl e" "guardE False e m = m"
  by (simp_all add: guardE_def)

lemma mapErr_Inr_iff [results]: "mapErr f m = Inr y \<longleftrightarrow> m = Inr y"
  by (cases m) auto

lemma mapErr_Inl_iff [results]: "mapErr f m = Inl e \<longleftrightarrow> (\<exists>d. m = Inl d \<and> e = f d)"
  by (cases m) auto

lemma okOpt_Some_iff [simp]: "okOpt m = Some x \<longleftrightarrow> m = Inr x"
  by (cases m) auto

lemma okOpt_None_iff [simp]: "okOpt m = None \<longleftrightarrow> (\<exists>e. m = Inl e)"
  by (cases m) auto

lemma mapE_Inr_length: "mapE f xs = Inr ys \<Longrightarrow> length ys = length xs"
  by (induction xs arbitrary: ys) (auto simp: results)

lemma mapE_Inr_iff: "mapE f xs = Inr ys \<longleftrightarrow> list_all2 (\<lambda>x y. f x = Inr y) xs ys"
  by (induction xs arbitrary: ys) (auto simp: results list_all2_Cons1)

section \<open>Big-endian numbers\<close>

text \<open>The loop \<open>n = (n << 8n) | BigInt(x)\<close> over a byte string; the low eight bits of \<open>n << 8\<close> are zero, so the or is a sum.\<close>

definition be_nat :: "bytes \<Rightarrow> nat" where
  "be_nat b = foldl (\<lambda>n x. n * 256 + unat x) 0 b"

lemma unat_byte_less [simp]: "unat (x :: byte) < 256"
  using unsigned_less [of x] by simp

lemma unat_byte_le [simp]: "unat (x :: byte) \<le> 255"
  using unat_byte_less [of x] by linarith

lemma be_step_is_or:
  fixes n :: nat
  shows "or (push_bit 8 n) (unat (x :: byte)) = n * 256 + unat x"
proof -
  have "take_bit 8 (unat x) = unat x" by (simp add: take_bit_nat_eq_self)
  then have "\<not> bit (push_bit 8 n) k \<or> \<not> bit (unat x) k" for k
    by (metis bit_push_bit_iff bit_take_bit_iff not_le)
  then have "push_bit 8 n + unat x = or (push_bit 8 n) (unat x)"
    by (intro disjunctive_add) blast
  then show ?thesis by (simp add: push_bit_eq_mult)
qed

lemma foldl_be: "foldl (\<lambda>n x. n * 256 + unat x) a (b :: bytes) = a * 256 ^ length b + be_nat b"
proof (induction b arbitrary: a)
  case Nil
  then show ?case by (simp add: be_nat_def)
next
  case (Cons x b)
  from Cons [of "a * 256 + unat x"] Cons [of "unat x"] show ?case
    by (simp add: be_nat_def algebra_simps)
qed

lemma be_nat_Nil [simp]: "be_nat [] = 0"
  by (simp add: be_nat_def)

lemma be_nat_Cons: "be_nat (x # b) = unat x * 256 ^ length b + be_nat b"
  using foldl_be [of "unat x" b] by (simp add: be_nat_def)

lemma be_nat_single [simp]: "be_nat [x] = unat x"
  by (simp add: be_nat_Cons)

lemma be_nat_snoc: "be_nat (b @ [x]) = be_nat b * 256 + unat x"
  by (simp add: be_nat_def)

lemma be_nat_less: "be_nat b < 256 ^ length b"
proof (induction b)
  case (Cons x b)
  have "unat x * 256 ^ length b + be_nat b < (unat x + 1) * 256 ^ length b"
    using Cons by simp
  also have "\<dots> \<le> 256 * 256 ^ length b"
    using unat_byte_less [of x] by (intro mult_right_mono) linarith+
  finally show ?case by (simp add: be_nat_Cons)
qed simp

lemma be_nat_ge: "b \<noteq> [] \<Longrightarrow> hd b \<noteq> 0 \<Longrightarrow> 256 ^ (length b - 1) \<le> be_nat b"
proof (cases b)
  case (Cons x c)
  assume "hd b \<noteq> 0"
  with Cons have "1 \<le> unat x" by (simp add: unat_gt_0 Suc_leI)
  then have "256 ^ length c \<le> unat x * 256 ^ length c" by simp
  then have "256 ^ length c \<le> be_nat (x # c)" unfolding be_nat_Cons by linarith
  with Cons show ?thesis by simp
qed simp

lemma be_nat_inj:
  assumes "length a = length b" and "be_nat a = be_nat b"
  shows "a = b"
  using assms
proof (induction a b rule: list_induct2)
  case (Cons x a y b)
  have lt: "be_nat a < 256 ^ length b" "be_nat b < 256 ^ length b"
    using be_nat_less [of a] be_nat_less [of b] Cons.hyps by simp_all
  from Cons.prems have eq: "unat x * 256 ^ length b + be_nat a = unat y * 256 ^ length b + be_nat b"
    using Cons.hyps by (simp add: be_nat_Cons)
  then have "(unat x * 256 ^ length b + be_nat a) div 256 ^ length b
      = (unat y * 256 ^ length b + be_nat b) div 256 ^ length b" by simp
  with lt have "unat x = unat y" by simp
  with eq Cons.IH show ?case by (simp add: unsigned_word_eqI)
qed simp

text \<open>The shortest big-endian byte string of a number, the reference every canonical reader is compared with.\<close>

function min_be :: "nat \<Rightarrow> bytes" where
  "min_be n = (if n = 0 then [] else min_be (n div 256) @ [of_nat (n mod 256)])"
  by pat_completeness auto
termination
  by (relation "measure id") auto

declare min_be.simps [simp del]

lemma min_be_0 [simp]: "min_be 0 = []"
  by (subst min_be.simps) simp

lemma unat_of_nat_byte [simp]: "unat (of_nat n :: byte) = n mod 256"
  by (simp add: unat_of_nat)

lemma unat_numeral_add_of_nat [simp]: "unat (numeral k + of_nat n :: byte) = (numeral k + n) mod 256"
proof -
  have "(numeral k + of_nat n :: byte) = of_nat (numeral k + n)" by simp
  then show ?thesis by (simp only: unat_of_nat_byte)
qed

lemma be_nat_min_be [simp]: "be_nat (min_be n) = n"
proof (induction n rule: min_be.induct)
  case (1 n)
  then show ?case by (subst min_be.simps) (auto simp: be_nat_snoc)
qed

lemma hd_min_be: "n \<noteq> 0 \<Longrightarrow> min_be n \<noteq> [] \<and> hd (min_be n) \<noteq> 0"
proof (induction n rule: min_be.induct)
  case (1 n)
  show ?case
  proof (cases "n div 256 = 0")
    case True
    then have "n < 256" by (simp add: div_eq_0_iff)
    then have "unat (of_nat (n mod 256) :: byte) \<noteq> 0" using "1.prems" by simp
    then have "(of_nat (n mod 256) :: byte) \<noteq> 0" by (metis unsigned_0)
    with True "1.prems" show ?thesis by (subst min_be.simps, subst (2) min_be.simps) simp
  next
    case False
    with 1 show ?thesis by (subst min_be.simps, subst (2) min_be.simps) simp
  qed
qed

lemma be_nat_lower_length:
  assumes "a \<noteq> []" "hd a \<noteq> 0" "b \<noteq> []" "hd b \<noteq> 0" "be_nat a = be_nat b"
  shows "length a \<le> length b"
proof (rule ccontr)
  assume "\<not> ?thesis"
  then have "(256::nat) ^ length b \<le> 256 ^ (length a - 1)"
    by (intro power_increasing) auto
  also have "\<dots> \<le> be_nat a" using assms by (intro be_nat_ge)
  also have "\<dots> < 256 ^ length b" using be_nat_less [of b] assms by simp
  finally show False by simp
qed

lemma min_be_be_nat: "b = [] \<or> hd b \<noteq> 0 \<Longrightarrow> min_be (be_nat b) = b"
proof (cases "b = []")
  case False
  assume "b = [] \<or> hd b \<noteq> 0"
  with False have hd: "hd b \<noteq> 0" by simp
  have "be_nat b \<noteq> 0" using be_nat_ge [OF False hd] by (metis not_one_le_zero one_le_power le_zero_eq numeral_le_one_iff semiring_norm(69) linear one_le_numeral)
  note m = hd_min_be [OF this]
  have "length (min_be (be_nat b)) = length b"
    using be_nat_lower_length [of "min_be (be_nat b)" b] be_nat_lower_length [of b "min_be (be_nat b)"] m hd False
    by simp
  then show ?thesis by (rule be_nat_inj) simp
qed simp

lemma length_min_be_le: "n < 256 ^ k \<Longrightarrow> length (min_be n) \<le> k"
proof (rule ccontr)
  assume n: "n < 256 ^ k" and "\<not> length (min_be n) \<le> k"
  then have k: "k \<le> length (min_be n) - 1" and ne: "min_be n \<noteq> []" by auto
  then have "n \<noteq> 0" by (cases "n = 0") auto
  then have "256 ^ (length (min_be n) - 1) \<le> n" using be_nat_ge [of "min_be n"] hd_min_be by simp
  moreover have "(256::nat) ^ k \<le> 256 ^ (length (min_be n) - 1)" using k by (intro power_increasing) auto
  ultimately show False using n by (meson le_less_trans not_less order.trans)
qed

section \<open>The interface of a self-delimiting reader\<close>

text \<open>
  The RLP reader, the DER reader and the varint reader of the sources share one contract: from the front of a buffer
  they take one item, say which bytes it spans (\<open>raw\<close>) and hand back the rest, and they look at nothing past
  the item. \<open>parses\<close> is the loop every caller writes around such a reader
  (\<open>while (rest.length > 0) { t = read(rest); out.push(t); rest = t.rest }\<close>), as a relation between the buffer and the items.
\<close>

fun parses :: "(bytes \<Rightarrow> 'i option) \<Rightarrow> ('i \<Rightarrow> bytes) \<Rightarrow> bytes \<Rightarrow> 'i list \<Rightarrow> bool" where
  "parses rd rst b [] \<longleftrightarrow> b = []"
| "parses rd rst b (it # its) \<longleftrightarrow> b \<noteq> [] \<and> rd b = Some it \<and> parses rd rst (rst it) its"

locale prefix_reader =
  fixes rd :: "bytes \<Rightarrow> 'i option" and raw :: "'i \<Rightarrow> bytes" and rst :: "'i \<Rightarrow> bytes"
  assumes raw_rst: "rd b = Some it \<Longrightarrow> raw it @ rst it = b"
    and raw_nonempty: "rd b = Some it \<Longrightarrow> raw it \<noteq> []"
    and read_local: "rd b = Some it \<Longrightarrow> \<exists>jt. rd (raw it @ s) = Some jt \<and> raw jt = raw it \<and> rst jt = s"
begin

lemma rst_shorter: "rd b = Some it \<Longrightarrow> length (rst it) < length b"
  using raw_rst raw_nonempty by (metis length_append length_greater_0_conv less_add_same_cancel2)

lemma parses_concat: "parses rd rst b its \<Longrightarrow> concat (map raw its) = b"
  by (induction its arbitrary: b) (auto simp: raw_rst)

lemma parses_unique: "parses rd rst b its \<Longrightarrow> parses rd rst b jts \<Longrightarrow> its = jts"
proof (induction its arbitrary: b jts)
  case Nil
  then show ?case by (cases jts) auto
next
  case (Cons it its)
  then show ?case by (cases jts) auto
qed

lemma parses_length: "parses rd rst b its \<Longrightarrow> length its \<le> length b"
proof (induction its arbitrary: b)
  case (Cons it its)
  then have "length its \<le> length (rst it)" and "length (rst it) < length b"
    by (auto intro: rst_shorter)
  then show ?case by simp
qed simp

text \<open>Cutting a concatenation of encodings back into its parts.\<close>

lemma parses_map_raw:
  assumes "\<And>r. r \<in> set rs \<Longrightarrow> \<exists>it. rd r = Some it \<and> raw it = r"
  shows "\<exists>its. parses rd rst (concat rs) its \<and> map raw its = rs"
  using assms
proof (induction rs)
  case (Cons r rs)
  have "\<exists>its. parses rd rst (concat rs) its \<and> map raw its = rs"
    by (rule Cons.IH, rule Cons.prems, rule list.set_intros(2))
  then obtain its where its: "parses rd rst (concat rs) its" "map raw its = rs" by blast
  obtain it where it: "rd r = Some it" "raw it = r"
    using Cons.prems [of r, OF list.set_intros(1)] by blast
  obtain jt where jt: "rd (raw it @ concat rs) = Some jt" "raw jt = raw it" "rst jt = concat rs"
    using read_local [OF it(1)] by blast
  have "raw it @ concat rs \<noteq> []" using raw_nonempty [OF it(1)] by simp
  then have "parses rd rst (raw it @ concat rs) (jt # its)"
    by (simp only: parses.simps(2) jt its(1) not_False_eq_True simp_thms)
  moreover have "map raw (jt # its) = r # rs"
    unfolding list.map jt(2) it(2) its(2) ..
  ultimately have "parses rd rst (concat (r # rs)) (jt # its) \<and> map raw (jt # its) = r # rs"
    by (simp only: it(2) concat.simps simp_thms)
  then show ?case by (rule exI)
next
  case Nil
  show ?case by (rule exI [of _ "[]"]) simp
qed

lemma raw_prefix_free:
  assumes "rd b = Some it" and "rd c = Some jt" and "raw it @ s = raw jt @ t"
  shows "raw it = raw jt \<and> s = t"
proof -
  obtain a where a: "rd (raw it @ s) = Some a" "raw a = raw it" "rst a = s"
    using read_local [OF assms(1)] by blast
  obtain b where b: "rd (raw jt @ t) = Some b" "raw b = raw jt" "rst b = t"
    using read_local [OF assms(2)] by blast
  have "a = b" using a(1) b(1) unfolding assms(3) by simp
  then show ?thesis using a b by simp
qed

end

section \<open>The interfaces of a component that is driven by a sequence of operations\<close>

text \<open>
  \<open>simulation\<close>: every operation of the concrete state is matched by one of the abstract state, so every run is.
  \<open>guarded_machine\<close>: an operation may refuse; what it accepts keeps the invariant, so every accepted run does.
\<close>

locale simulation =
  fixes cstep :: "'s \<Rightarrow> 'e \<Rightarrow> 's" and astep :: "'a \<Rightarrow> 'e \<Rightarrow> 'a" and rel :: "'s \<Rightarrow> 'a \<Rightarrow> bool"
  assumes step_rel: "rel s a \<Longrightarrow> rel (cstep s e) (astep a e)"
begin

lemma run_rel: "rel s a \<Longrightarrow> rel (foldl cstep s es) (foldl astep a es)"
  by (induction es arbitrary: s a) (simp_all add: step_rel)

end

fun runE :: "('s \<Rightarrow> 'e \<Rightarrow> 'x + 's) \<Rightarrow> 's \<Rightarrow> 'e list \<Rightarrow> 'x + 's" where
  "runE step s [] = Inr s"
| "runE step s (e # es) = bindE (step s e) (\<lambda>s'. runE step s' es)"

locale guarded_machine =
  fixes step :: "'s \<Rightarrow> 'e \<Rightarrow> 'x + 's" and inv :: "'s \<Rightarrow> bool"
  assumes step_inv: "inv s \<Longrightarrow> step s e = Inr s' \<Longrightarrow> inv s'"
begin

lemma run_inv: "inv s \<Longrightarrow> runE step s es = Inr s' \<Longrightarrow> inv s'"
  by (induction es arbitrary: s) (auto simp: results intro: step_inv)

end

lemma runE_append: "runE step s (xs @ ys) = bindE (runE step s xs) (\<lambda>s'. runE step s' ys)"
proof (induction xs arbitrary: s)
  case (Cons x xs)
  then show ?case by (cases "step s x") simp_all
qed simp

end
