(* ===== verification/Rlp.thy ===== *)
theory Rlp
  imports Prelude
begin

text \<open>
  The RLP reader of \<open>packages/verify/src/s6/rlp.ts\<close>: \<open>split\<close> takes one item off a buffer, \<open>listItems\<close> and
  \<open>countValues\<close> loop it over a list's content, and the typed readers (\<open>bytesOf\<close>, \<open>fixedOf\<close>, \<open>uintOf\<close>,
  \<open>structItems\<close>) refuse what go-ethereum refuses. Each \<open>fail(...)\<close> is a constructor of \<open>rlp_error\<close>. A size of more than
  53 bits is rounded by the JavaScript number it is held in; any such size exceeds every buffer, so the refusal does not change.
\<close>

section \<open>Reading one item\<close>

datatype rlp_error =
    UnexpectedEOF
  | NonCanonicalSize
  | ValueTooLarge
  | ExpectedStringOrByte
  | ExpectedList
  | MoreThanOneValue
  | ExpectedInputList
  | ExpectedInputString
  | InputStringTooLong
  | InputStringTooShort
  | NonCanonicalInteger
  | IntegerOverflow
  | TooFewElements
  | TooManyElements

datatype kind = KByte | KString | KList

record item =
  it_kind :: kind
  it_content :: bytes
  it_rest :: bytes
  it_raw :: bytes

definition readSize :: "bytes \<Rightarrow> nat \<Rightarrow> rlp_error + nat" where
  "readSize b slen =
     (if slen > length b then Inl UnexpectedEOF
      else let s = foldl (\<lambda>s x. s * 256 + unat x) 0 (take slen b)
           in if s < 56 \<or> (b \<noteq> [] \<and> b ! 0 = 0) then Inl NonCanonicalSize else Inr s)"

text \<open>The kind, the tag length and the size read from the first byte (the if-chain of \<open>split\<close>).\<close>

definition readKind :: "bytes \<Rightarrow> rlp_error + kind \<times> nat \<times> nat" where
  "readKind buf =
     (let b = buf ! 0 in
      if b < 0x80 then Inr (KByte, 0, 1)
      else if b < 0xb8 then
        (let size = unat b - 0x80 in
         if size = 1 \<and> length buf > 1 \<and> buf ! 1 < 128 then Inl NonCanonicalSize
         else Inr (KString, 1, size))
      else if b < 0xc0 then
        bindE (readSize (drop 1 buf) (unat b - 0xb7)) (\<lambda>size. Inr (KString, unat b - 0xb7 + 1, size))
      else if b < 0xf8 then Inr (KList, 1, unat b - 0xc0)
      else
        bindE (readSize (drop 1 buf) (unat b - 0xf7)) (\<lambda>size. Inr (KList, unat b - 0xf7 + 1, size)))"

definition split :: "bytes \<Rightarrow> rlp_error + item" where
  "split buf =
     (if length buf = 0 then Inl UnexpectedEOF
      else bindE (readKind buf) (\<lambda>(k, tag, size).
        if int size > int (length buf) - int tag then Inl ValueTooLarge
        else Inr \<lparr>it_kind = k, it_content = take size (drop tag buf), it_rest = drop (tag + size) buf,
                  it_raw = take (tag + size) buf\<rparr>))"

definition splitString :: "bytes \<Rightarrow> rlp_error + item" where
  "splitString buf = bindE (split buf) (\<lambda>it. if it_kind it = KList then Inl ExpectedStringOrByte else Inr it)"

definition splitList :: "bytes \<Rightarrow> rlp_error + item" where
  "splitList buf = bindE (split buf) (\<lambda>it. if it_kind it \<noteq> KList then Inl ExpectedList else Inr it)"

section \<open>What an accepted item looks like\<close>

text \<open>The one canonical head of a payload of \<open>n\<close> bytes: the reference the reader is compared with.\<close>

definition rlp_head :: "nat \<Rightarrow> nat \<Rightarrow> bytes" where
  "rlp_head base n =
     (if n < 56 then [of_nat (base + n)]
      else of_nat (base + 55 + length (min_be n)) # min_be n)"

definition rlp_string :: "bytes \<Rightarrow> bytes" where
  "rlp_string c = (if length c = 1 \<and> hd c < 0x80 then c else rlp_head 0x80 (length c) @ c)"

definition rlp_list :: "bytes \<Rightarrow> bytes" where
  "rlp_list c = rlp_head 0xc0 (length c) @ c"

definition rlp_of :: "kind \<Rightarrow> bytes \<Rightarrow> bytes" where
  "rlp_of k c = (if k = KList then rlp_list c else rlp_string c)"

lemma readSize_Inr:
  "readSize b n = Inr s \<longleftrightarrow> n \<le> length b \<and> s = be_nat (take n b) \<and> 56 \<le> s \<and> (b = [] \<or> hd b \<noteq> 0)"
  by (cases b) (auto simp: readSize_def be_nat_def Let_def)

lemma readSize_min_be:
  assumes "readSize b n = Inr s"
  shows "take n b = min_be s" and "length (min_be s) = n"
proof -
  have n: "n \<le> length b" "s = be_nat (take n b)" "56 \<le> s" "b = [] \<or> hd b \<noteq> 0"
    using assms by (auto simp: readSize_Inr)
  then have "take n b \<noteq> []" by (cases "take n b = []") auto
  with n have "hd (take n b) \<noteq> 0" by (cases b) (auto split: nat.splits simp: take_Cons')
  with n show "take n b = min_be s" using min_be_be_nat [of "take n b"] by simp
  with n show "length (min_be s) = n" by (metis length_take min.absorb2)
qed


lemma byte_of_nat: "unat (b :: byte) = n \<Longrightarrow> b = of_nat n"
  by (rule unsigned_word_eqI [where 'a = nat]) auto

lemma rlp_head_long:
  assumes "readSize t l = Inr s"
  shows "rlp_head base s = of_nat (base + 55 + l) # take l t" and "s < 256 ^ l" and "l \<le> length t"
proof -
  have s: "l \<le> length t" "s = be_nat (take l t)" "56 \<le> s"
    using assms by (auto simp: readSize_Inr)
  show "rlp_head base s = of_nat (base + 55 + l) # take l t"
    using readSize_min_be [OF assms] s(3) by (simp add: rlp_head_def)
  show "s < 256 ^ l" using be_nat_less [of "take l t"] s by simp
  show "l \<le> length t" by (rule s(1))
qed

definition kind_ok :: "kind \<Rightarrow> bytes \<Rightarrow> bool" where
  "kind_ok k c = (k = KList \<or> (k = KByte) = (length c = 1 \<and> hd c < 0x80))"

lemma readKind_cases:
  assumes "readKind (b # t) = Inr (k, tag, sz)"
  obtains (Byte) "k = KByte" "tag = 0" "sz = 1" "b < 0x80"
  | (String) "k = KString" "take tag (b # t) = rlp_head 0x80 sz" "tag = length (rlp_head 0x80 sz)" "tag \<le> length (b # t)"
      "sz = 1 \<Longrightarrow> t \<noteq> [] \<Longrightarrow> \<not> hd t < 0x80" "sz < 256 ^ 8"
  | (List) "k = KList" "take tag (b # t) = rlp_head 0xc0 sz" "tag = length (rlp_head 0xc0 sz)" "tag \<le> length (b # t)" "sz < 256 ^ 8"
proof -
  have p8: "256 ^ l \<le> (256::nat) ^ 8" if "l \<le> 8" for l using that by (intro power_increasing) auto
  consider "b < 0x80" | "\<not> b < 0x80" "b < 0xb8" | "\<not> b < 0xb8" "b < 0xc0" | "\<not> b < 0xc0" "b < 0xf8" | "\<not> b < 0xf8"
    by blast
  then show thesis
  proof cases
    case 1
    with assms show thesis by (intro Byte) (auto simp: readKind_def)
  next
    case 2
    then have n: "0x80 \<le> unat b" "unat b - 0x80 < 56" "unat b = 0x80 + (unat b - 0x80)"
      by (simp_all add: word_less_nat_alt)
    from assms 2 have r: "k = KString" "tag = 1" "sz = unat b - 0x80" "sz = 1 \<Longrightarrow> t \<noteq> [] \<Longrightarrow> \<not> hd t < 0x80"
      by (auto simp: readKind_def Let_def hd_conv_nth split: if_splits)
    have "b = of_nat (0x80 + sz)" by (rule byte_of_nat) (use n r in simp)
    with r n show thesis by (intro String) (auto simp: rlp_head_def)
  next
    case 3
    define l where "l = unat b - 0xb7"
    from 3 have l: "unat b = 0xb7 + l" "l \<le> 8" by (simp_all add: word_less_nat_alt l_def)
    from assms 3 have "\<not> b < 0x80" by (auto simp: word_less_nat_alt)
    with assms 3 have r: "k = KString" "tag = l + 1" "readSize t l = Inr sz"
      by (auto simp: readKind_def results l_def)
    have "b = of_nat (0x80 + 55 + l)" by (rule byte_of_nat) (use l in simp)
    with r rlp_head_long(1) [OF r(3), of "0x80"] rlp_head_long(2,3) [OF r(3)] p8 [OF l(2)] show thesis
      by (intro String) (auto simp: readSize_Inr)
  next
    case 4
    then have n: "0xc0 \<le> unat b" "unat b - 0xc0 < 56" "\<not> b < 0x80" "\<not> b < 0xb8"
      by (simp_all add: word_less_nat_alt)
    from assms 4 n have r: "k = KList" "tag = 1" "sz = unat b - 0xc0"
      by (auto simp: readKind_def)
    have "b = of_nat (0xc0 + sz)" by (rule byte_of_nat) (use n r in simp)
    with r n show thesis by (intro List) (auto simp: rlp_head_def)
  next
    case 5
    define l where "l = unat b - 0xf7"
    have n: "248 \<le> unat b" using 5 by (simp add: word_less_nat_alt)
    then have l: "unat b = 0xf7 + l" "l \<le> 8"
      using unat_byte_le [of b] unfolding l_def by linarith+
    have "\<not> b < 0x80" "\<not> b < 0xb8" "\<not> b < 0xc0" using n by (simp_all add: word_less_nat_alt)
    with assms 5 have r: "k = KList" "tag = l + 1" "readSize t l = Inr sz"
      by (auto simp: readKind_def results l_def)
    have "b = of_nat (0xc0 + 55 + l)" by (rule byte_of_nat) (use l in simp)
    with r rlp_head_long(1) [OF r(3), of "0xc0"] rlp_head_long(2,3) [OF r(3)] p8 [OF l(2)] show thesis
      by (intro List) auto
  qed
qed

lemma split_Inr:
  assumes "split buf = Inr it"
  shows "it_raw it @ it_rest it = buf" and "it_raw it = rlp_of (it_kind it) (it_content it)"
    and "kind_ok (it_kind it) (it_content it)" and "length (it_content it) < 256 ^ 8"
proof -
  obtain k tag sz where k: "readKind buf = Inr (k, tag, sz)" "tag + sz \<le> length buf" "buf \<noteq> []"
    and it: "it = \<lparr>it_kind = k, it_content = take sz (drop tag buf), it_rest = drop (tag + sz) buf, it_raw = take (tag + sz) buf\<rparr>"
    using assms by (auto simp: split_def results split: prod.splits if_splits)
  show "it_raw it @ it_rest it = buf" by (simp add: it)
  obtain b t where buf: "buf = b # t" using k(3) by (cases buf) auto
  have len: "length (it_content it) = sz" using k(2) by (simp add: it)
  have raw: "it_raw it = take tag buf @ it_content it" by (simp add: it take_add)
  have "it_raw it = rlp_of (it_kind it) (it_content it) \<and> kind_ok (it_kind it) (it_content it) \<and> sz < 256 ^ 8"
    using k(1) unfolding buf
  proof (cases rule: readKind_cases)
    case Byte
    then show ?thesis by (simp add: it buf rlp_of_def rlp_string_def kind_ok_def)
  next
    case String
    have "\<not> (length (it_content it) = 1 \<and> hd (it_content it) < 0x80)"
    proof
      assume "length (it_content it) = 1 \<and> hd (it_content it) < 0x80"
      with len have one: "sz = 1" "hd (it_content it) < 0x80" by auto
      with String have "tag = 1" by (simp add: rlp_head_def)
      with one k(2) buf have "t \<noteq> []" "hd t < 0x80" by (auto simp: it take_Suc)
      with String(5) one show False by blast
    qed
    with String len raw show ?thesis
      by (auto simp: it buf rlp_of_def rlp_string_def kind_ok_def)
  next
    case List
    with len raw show ?thesis by (simp add: it buf rlp_of_def rlp_list_def kind_ok_def)
  qed
  with len show "it_raw it = rlp_of (it_kind it) (it_content it)" and "kind_ok (it_kind it) (it_content it)"
    and "length (it_content it) < 256 ^ 8" by auto
qed


text \<open>The other direction: what the reference writes is read back, whatever follows it.\<close>

lemma readSize_min_be_app:
  assumes "56 \<le> n"
  shows "readSize (min_be n @ s) (length (min_be n)) = Inr n"
  using hd_min_be [of n] assms by (auto simp: readSize_Inr hd_append)

lemma readKind_head:
  assumes "56 \<le> n" and "n < 256 ^ 8"
  shows "readKind (rlp_head 0x80 n @ s) = Inr (KString, length (rlp_head 0x80 n), n)"
    and "readKind (rlp_head 0xc0 n @ s) = Inr (KList, length (rlp_head 0xc0 n), n)"
proof -
  define l where "l = length (min_be n)"
  have l: "1 \<le> l" "l \<le> 8"
    using hd_min_be [of n] assms length_min_be_le [of n 8] by (auto simp: l_def Suc_le_eq)
  have sz: "readSize (min_be n @ s) l = Inr n"
    using readSize_min_be_app assms(1) by (simp add: l_def)
  define b1 b2 :: byte where "b1 = of_nat (0xb7 + l)" and "b2 = of_nat (0xf7 + l)"
  have b1: "unat b1 = 0xb7 + l" "\<not> b1 < 0x80" "\<not> b1 < 0xb8" "b1 < 0xc0"
    using l by (simp_all add: b1_def word_less_nat_alt)
  have b2: "unat b2 = 0xf7 + l" "\<not> b2 < 0x80" "\<not> b2 < 0xb8" "\<not> b2 < 0xc0" "\<not> b2 < 0xf8"
    using l by (simp_all add: b2_def word_less_nat_alt)
  have h: "rlp_head 0x80 n = b1 # min_be n" "rlp_head 0xc0 n = b2 # min_be n"
    using assms by (simp_all add: rlp_head_def b1_def b2_def l_def)
  show "readKind (rlp_head 0x80 n @ s) = Inr (KString, length (rlp_head 0x80 n), n)"
    unfolding h using b1 sz by (simp add: readKind_def l_def)
  show "readKind (rlp_head 0xc0 n @ s) = Inr (KList, length (rlp_head 0xc0 n), n)"
    unfolding h using b2 sz by (simp add: readKind_def l_def)
qed

lemma readKind_short:
  assumes "n < 56"
  shows "(n = 1 \<longrightarrow> s = [] \<or> \<not> hd s < 0x80) \<Longrightarrow> readKind (rlp_head 0x80 n @ s) = Inr (KString, 1, n)"
    and "readKind (rlp_head 0xc0 n @ s) = Inr (KList, 1, n)"
proof -
  define b1 b2 :: byte where "b1 = of_nat (0x80 + n)" and "b2 = of_nat (0xc0 + n)"
  have b1: "unat b1 = 0x80 + n" "\<not> b1 < 0x80" "b1 < 0xb8"
    using assms by (simp_all add: b1_def word_less_nat_alt)
  have b2: "unat b2 = 0xc0 + n" "\<not> b2 < 0x80" "\<not> b2 < 0xb8" "\<not> b2 < 0xc0" "b2 < 0xf8"
    using assms by (simp_all add: b2_def word_less_nat_alt)
  have h: "rlp_head 0x80 n = [b1]" "rlp_head 0xc0 n = [b2]"
    using assms by (simp_all add: rlp_head_def b1_def b2_def)
  show "readKind (rlp_head 0x80 n @ s) = Inr (KString, 1, n)" if "n = 1 \<longrightarrow> s = [] \<or> \<not> hd s < 0x80"
    unfolding h using b1 that by (auto simp: readKind_def Let_def hd_conv_nth)
  show "readKind (rlp_head 0xc0 n @ s) = Inr (KList, 1, n)"
    unfolding h using b2 by (simp add: readKind_def)
qed

lemma split_from_kind:
  assumes "readKind (h @ c @ s) = Inr (k, length h, length c)" and "h @ c \<noteq> []"
  shows "split (h @ c @ s) = Inr \<lparr>it_kind = k, it_content = c, it_rest = s, it_raw = h @ c\<rparr>"
  using assms by (auto simp: split_def)

lemma length_rlp_head_short: "n < 56 \<Longrightarrow> length (rlp_head base n) = 1"
  by (simp add: rlp_head_def)

lemma rlp_head_nonempty [simp]: "rlp_head base n \<noteq> []"
  by (simp add: rlp_head_def)

lemma split_rlp_of:
  assumes "kind_ok k c" and "length c < 256 ^ 8"
  shows "split (rlp_of k c @ s) = Inr \<lparr>it_kind = k, it_content = c, it_rest = s, it_raw = rlp_of k c\<rparr>"
proof (cases "k = KByte")
  case True
  with assms have "length c = 1" "hd c < 0x80" by (auto simp: kind_ok_def)
  then obtain x where c: "c = [x]" "x < 0x80" by (auto simp: length_Suc_conv)
  have "readKind ([] @ c @ s) = Inr (KByte, length ([]::bytes), length c)"
    using c by (simp add: readKind_def)
  from split_from_kind [OF this] c True show ?thesis
    by (simp add: rlp_of_def rlp_string_def)
next
  case False
  define h where "h = rlp_head (if k = KList then 0xc0 else 0x80) (length c)"
  have raw: "rlp_of k c = h @ c"
    using False assms(1) by (cases k) (auto simp: h_def rlp_of_def rlp_list_def rlp_string_def kind_ok_def)
  have "readKind (h @ c @ s) = Inr (k, length h, length c)"
  proof (cases "length c < 56")
    case True
    have ne: "k = KString \<Longrightarrow> length c = 1 \<Longrightarrow> \<not> hd (c @ s) < 0x80"
      using assms(1) by (cases c) (auto simp: kind_ok_def)
    show ?thesis
      using readKind_short(1) [OF True, of "c @ s"] readKind_short(2) [OF True, of "c @ s"] ne False True
      by (cases k) (auto simp: h_def length_rlp_head_short)
  next
    case long: False
    then show ?thesis
      using readKind_head [of "length c" "c @ s"] assms(2) False by (cases k) (auto simp: h_def)
  qed
  from split_from_kind [OF this] raw show ?thesis by (simp add: h_def)
qed

lemma split_iff:
  "split buf = Inr it \<longleftrightarrow>
     kind_ok (it_kind it) (it_content it) \<and> length (it_content it) < 256 ^ 8 \<and>
     it_raw it = rlp_of (it_kind it) (it_content it) \<and> buf = it_raw it @ it_rest it"
  (is "_ \<longleftrightarrow> ?r")
proof
  assume "split buf = Inr it"
  from split_Inr [OF this] show ?r by simp
next
  assume ?r
  then show "split buf = Inr it"
    using split_rlp_of [of "it_kind it" "it_content it" "it_rest it"] by (cases it) auto
qed

lemma rlp_of_nonempty: "kind_ok k c \<Longrightarrow> rlp_of k c \<noteq> []"
  by (auto simp: rlp_of_def rlp_list_def rlp_string_def)

interpretation rlp_reader: prefix_reader "\<lambda>b. okOpt (split b)" it_raw it_rest
proof
  fix b s and it :: item
  assume *: "okOpt (split b) = Some it"
  then show "it_raw it @ it_rest it = b" and "it_raw it \<noteq> []"
    using rlp_of_nonempty by (auto simp: split_iff)
  have "split (it_raw it @ s) = Inr (it\<lparr>it_rest := s\<rparr>)"
    using * by (simp add: split_iff)
  then show "\<exists>jt. okOpt (split (it_raw it @ s)) = Some jt \<and> it_raw jt = it_raw it \<and> it_rest jt = s"
    by auto
qed

lemma split_rest_shorter: "split b = Inr it \<Longrightarrow> length (it_rest it) < length b"
  by (rule rlp_reader.rst_shorter) simp


section \<open>Loops over a list's content\<close>

function countValues :: "bytes \<Rightarrow> rlp_error + nat" where
  "countValues b =
     (if length b > 0 then bindE (split b) (\<lambda>it. bindE (countValues (it_rest it)) (\<lambda>n. Inr (n + 1)))
      else Inr 0)"
  by pat_completeness auto
termination
  by (relation "measure length") (auto dest: split_rest_shorter)

function listItems :: "bytes \<Rightarrow> rlp_error + item list" where
  "listItems b =
     (if length b > 0 then bindE (split b) (\<lambda>it. bindE (listItems (it_rest it)) (\<lambda>out. Inr (it # out)))
      else Inr [])"
  by pat_completeness auto
termination
  by (relation "measure length") (auto dest: split_rest_shorter)

declare countValues.simps [simp del] listItems.simps [simp del]

lemma loops_Nil [simp]: "countValues [] = Inr 0" "listItems [] = Inr []"
  by (simp_all add: countValues.simps listItems.simps)

definition decodeList :: "bytes \<Rightarrow> rlp_error + item list" where
  "decodeList buf =
     bindE (split buf) (\<lambda>it.
       if length (it_rest it) > 0 then Inl MoreThanOneValue
       else if it_kind it \<noteq> KList then Inl ExpectedInputList
       else listItems (it_content it))"

section \<open>Typed readers\<close>

definition bytesOf :: "item \<Rightarrow> rlp_error + bytes" where
  "bytesOf it = (if it_kind it = KList then Inl ExpectedInputString else Inr (it_content it))"

definition fixedOf :: "item \<Rightarrow> nat \<Rightarrow> rlp_error + bytes" where
  "fixedOf it n =
     (if it_kind it = KList then Inl ExpectedInputString
      else if it_kind it = KByte then
        (if n \<noteq> 1 then Inl (if n = 0 then InputStringTooLong else InputStringTooShort) else Inr (it_content it))
      else if length (it_content it) > n then Inl InputStringTooLong
      else if length (it_content it) < n then Inl InputStringTooShort
      else Inr (it_content it))"

text \<open>\<open>maxBytes = None\<close> is the default \<open>Infinity\<close>.\<close>

definition uintOf :: "item \<Rightarrow> nat option \<Rightarrow> rlp_error + nat" where
  "uintOf it maxBytes =
     (if it_kind it = KList then Inl ExpectedInputString
      else let c = it_content it in
        if it_kind it = KByte then
          (if c ! 0 = 0 then Inl NonCanonicalInteger else Inr (unat (c ! 0)))
        else if (case maxBytes of None \<Rightarrow> False | Some m \<Rightarrow> length c > m) then Inl IntegerOverflow
        else if length c > 0 \<and> c ! 0 = 0 then Inl NonCanonicalInteger
        else Inr (be_nat c))"

definition structItems :: "bytes \<Rightarrow> nat \<Rightarrow> nat \<Rightarrow> rlp_error + item list" where
  "structItems buf required optional =
     bindE (decodeList buf) (\<lambda>items.
       if length items < required then Inl TooFewElements
       else if length items > required + optional then Inl TooManyElements
       else Inr items)"

section \<open>The loops are the reader's \<open>parses\<close> relation\<close>

lemma listItems_parses: "listItems b = Inr its \<longleftrightarrow> parses (\<lambda>b. okOpt (split b)) it_rest b its"
proof (induction b arbitrary: its rule: listItems.induct)
  case (1 b)
  show ?case
  proof (cases "split b")
    case (Inl e)
    then show ?thesis by (cases its) (auto simp: listItems.simps [of b])
  next
    case (Inr it)
    then have "b \<noteq> []" by (auto simp: split_def)
    with Inr 1 show ?thesis
      by (cases its) (auto simp: listItems.simps [of b] results)
  qed
qed

lemma countValues_listItems:
  "countValues b = (case listItems b of Inl e \<Rightarrow> Inl e | Inr its \<Rightarrow> Inr (length its))"
proof (induction b rule: countValues.induct)
  case (1 b)
  then show ?case
    by (cases "split b"; cases "b = []")
      (auto simp: countValues.simps [of b] listItems.simps [of b] split: sum.splits)
qed

lemma listItems_concat: "listItems b = Inr its \<Longrightarrow> concat (map it_raw its) = b"
  using rlp_reader.parses_concat listItems_parses by blast

lemma uintOf_None_iff:
  assumes "kind_ok (it_kind it) (it_content it)"
  shows "uintOf it None = Inr n \<longleftrightarrow> it_kind it \<noteq> KList \<and> it_content it = min_be n"
proof (cases "it_kind it = KByte")
  case True
  with assms obtain x where c: "it_content it = [x]" by (auto simp: kind_ok_def length_Suc_conv)
  have "x \<noteq> 0 \<and> unat x = n \<longleftrightarrow> [x] = min_be n"
    using min_be_be_nat [of "[x]"] hd_min_be [of n] be_nat_min_be [of n] by (metis be_nat_single list.sel(1) list.simps(3) min_be_0)
  with True c show ?thesis by (cases "x = 0") (auto simp: uintOf_def)
next
  case False
  have "(it_content it = [] \<or> hd (it_content it) \<noteq> 0) \<and> be_nat (it_content it) = n \<longleftrightarrow> it_content it = min_be n"
    using min_be_be_nat [of "it_content it"] hd_min_be [of n] by (cases "n = 0") auto
  with False show ?thesis by (auto simp: uintOf_def Let_def hd_conv_nth)
qed

section \<open>Properties\<close>

text \<open>
  The reader accepts exactly the canonical encodings: \<open>split\<close> returns an item precisely when the buffer begins with the one
  canonical encoding of that item's payload (under 2^64 bytes), and the rest is what follows it. Every other buffer is refused.
\<close>

theorem split_exact:
  "split buf = Inr it \<longleftrightarrow>
     kind_ok (it_kind it) (it_content it) \<and> length (it_content it) < 256 ^ 8 \<and>
     it_raw it = rlp_of (it_kind it) (it_content it) \<and> buf = it_raw it @ it_rest it"
  by (rule split_iff)

text \<open>
  A list of canonical encodings, wrapped as an RLP list, decodes to exactly those items in order and nothing else decodes to them.
\<close>

theorem decodeList_roundtrip:
  "decodeList buf = Inr its \<longleftrightarrow>
     (\<exists>c. buf = rlp_list c \<and> length c < 256 ^ 8 \<and> parses (\<lambda>b. okOpt (split b)) it_rest c its)"
proof -
  have "split buf = Inr it \<and> it_rest it = [] \<and> it_kind it = KList \<longleftrightarrow>
      it = \<lparr>it_kind = KList, it_content = it_content it, it_rest = [], it_raw = buf\<rparr> \<and>
      buf = rlp_list (it_content it) \<and> length (it_content it) < 256 ^ 8" for it
    by (cases it) (auto simp: split_iff kind_ok_def rlp_of_def)
  then have "(\<exists>it. split buf = Inr it \<and> it_rest it = [] \<and> it_kind it = KList \<and> listItems (it_content it) = Inr its) \<longleftrightarrow>
      (\<exists>c. buf = rlp_list c \<and> length c < 256 ^ 8 \<and> listItems c = Inr its)"
    by (metis item.select_convs(2))
  then show ?thesis
    by (auto simp: decodeList_def results listItems_parses split: if_splits)
qed

text \<open>
  An integer field is read from its minimal big-endian bytes and from nothing else: the reader of an accepted item returns \<open>n\<close>
  exactly when the item is not a list and its payload is the shortest encoding of \<open>n\<close>.
\<close>

theorem uintOf_minimal:
  assumes "split buf = Inr it"
  shows "uintOf it None = Inr n \<longleftrightarrow> it_kind it \<noteq> KList \<and> it_content it = min_be n"
  using assms by (intro uintOf_None_iff) (simp add: split_iff)

theorem uintOf_minimal_witness:
  "split [0x82, 0x01, 0x00] = Inr \<lparr>it_kind = KString, it_content = [1, 0], it_rest = [], it_raw = [0x82, 1, 0]\<rparr>
   \<and> uintOf \<lparr>it_kind = KString, it_content = [1, 0], it_rest = [], it_raw = [0x82, 1, 0]\<rparr> None = Inr 256"
proof -
  have s: "split [0x82, 0x01, 0x00] = Inr \<lparr>it_kind = KString, it_content = [1, 0], it_rest = [], it_raw = [0x82, 1, 0]\<rparr>"
    by (simp add: split_def readKind_def)
  moreover have "min_be 256 = [1, 0]"
    by (subst min_be.simps, subst min_be.simps) simp
  ultimately show ?thesis using uintOf_minimal [OF s, of 256] by simp
qed

end
