(* ===== verification/Mpt.thy ===== *)
theory Mpt
  imports Rlp
begin

unbundle bit_operations_syntax

text \<open>
  The Merkle-Patricia proof verifier of \<open>packages/verify/src/s6/mpt.ts\<close>: hex-prefix keys, the node decoder, the proof
  database and the walk, and the account and slot readers on top. The hash \<open>keccak_256\<close> of the package
  \<open>@noble/hashes\<close> is the parameter \<open>H\<close>. A verification that does not return is \<open>None\<close>, a thrown error \<open>Some (Inl e)\<close>.
\<close>

section \<open>Nodes\<close>

text \<open>\<open>Empty\<close> is the \<open>undefined\<close> member of the source's union.\<close>

datatype node =
    Empty
  | Short "nat list" node
  | Full "node list"
  | HashNode bytes
  | ValueNode bytes

datatype mpt_error =
    NodeRlp rlp_error
  | NodeEOF
  | InvalidElementCount nat
  | OversizedEmbedded nat
  | InvalidRefSize nat
  | EmptyProofNode
  | NodeMissing nat bytes
  | BadNode nat mpt_error
  | NoAccountProof
  | AccountDoesNotDecode rlp_error
  | BadCodeHashLength nat
  | EmptyRootWithNodes nat
  | NoStorageProof
  | LeafDoesNotDecode rlp_error
  | LeafMoreThanOneValue
  | LeafNotTrimmed
  | AbsentAccountWithStorage

section \<open>Hex-prefix keys\<close>

text \<open>\<open>hexKey\<close>: the nibbles \<open>x >> 4\<close> and \<open>x & 15\<close> of every byte (\<open>nibble_bits\<close>) and the terminator 16.\<close>

definition hexKey :: "bytes \<Rightarrow> nat list" where
  "hexKey b = concat (map (\<lambda>x. [unat x div 16, unat x mod 16]) b) @ [16]"

lemma nibble_bits:
  fixes x :: byte
  shows "unat x div 16 = unat (drop_bit 4 x)" and "unat x mod 16 = unat (x AND 15)"
proof -
  have "unat (drop_bit 4 x) = drop_bit 4 (unat x)" by (rule unat_drop_bit_eq)
  then show "unat x div 16 = unat (drop_bit 4 x)" by (simp only: drop_bit_eq_div) simp
  have "x AND 15 = take_bit 4 x" using take_bit_eq_mask [of 4 x] by (simp add: mask_eq_exp_minus_1)
  then have "unat (x AND 15) = take_bit 4 (unat x)" by (simp only: unsigned_take_bit_eq)
  then show "unat x mod 16 = unat (x AND 15)" by (simp only: take_bit_eq_mod) simp
qed

definition compactToHex :: "bytes \<Rightarrow> nat list" where
  "compactToHex compact =
     (if length compact = 0 then []
      else let base = hexKey compact;
               base = (if base ! 0 < 2 then take (length base - 1) base else base);
               chop = 2 - (base ! 0 AND 1)
           in drop chop base)"

section \<open>The node decoder\<close>

lemma splitList_content_shorter: "splitList b = Inr it \<Longrightarrow> length (it_content it) < length b"
  by (auto simp: splitList_def results split_iff rlp_of_def rlp_list_def split: if_splits)

lemma splitString_rest_shorter: "splitString b = Inr it \<Longrightarrow> length (it_rest it) < length b"
  by (auto simp: splitString_def results split: if_splits dest: split_rest_shorter)

text \<open>
  \<open>decodeNode\<close>, \<open>decodeShort\<close>, \<open>decodeFull\<close> and \<open>decodeRef\<close> call each other on ever shorter buffers;
  \<open>decodeChildren\<close> is the loop of \<open>decodeFull\<close> over the sixteen references. The rest \<open>decodeRef\<close> returns is the rest of the item
  it split off; the loop takes it from that split, which is what makes the recursion visibly shrink
  (\<open>decodeChildren_Suc\<close> below is the loop as the source writes it).
\<close>

function decodeNode :: "bytes \<Rightarrow> mpt_error + node"
  and decodeShort :: "bytes \<Rightarrow> mpt_error + node"
  and decodeChildren :: "nat \<Rightarrow> bytes \<Rightarrow> mpt_error + node list \<times> bytes"
  and decodeRef :: "bytes \<Rightarrow> mpt_error + node \<times> bytes"
where
  "decodeNode buf =
     (if length buf = 0 then Inl NodeEOF
      else bindE (mapErr NodeRlp (splitList buf)) (\<lambda>l.
           bindE (mapErr NodeRlp (countValues (it_content l))) (\<lambda>c.
             if c = 2 then decodeShort (it_content l)
             else if c = 17 then
               bindE (decodeChildren 16 (it_content l)) (\<lambda>(cs, b).
               bindE (mapErr NodeRlp (splitString b)) (\<lambda>v.
                 Inr (Full (cs @ [if length (it_content v) > 0 then ValueNode (it_content v) else Empty]))))
             else Inl (InvalidElementCount c))))"
| "decodeShort elems =
     bindE (mapErr NodeRlp (splitString elems)) (\<lambda>k.
       let key = compactToHex (it_content k) in
       if length key > 0 \<and> key ! (length key - 1) = 16 then
         bindE (mapErr NodeRlp (splitString (it_rest k))) (\<lambda>v. Inr (Short key (ValueNode (it_content v))))
       else bindE (decodeRef (it_rest k)) (\<lambda>(n, _). Inr (Short key n)))"
| "decodeChildren 0 b = Inr ([], b)"
| "decodeChildren (Suc n) b =
     bindE (mapErr NodeRlp (split b)) (\<lambda>it.
     bindE (decodeRef b) (\<lambda>(nd, _).
     bindE (decodeChildren n (it_rest it)) (\<lambda>(cs, b'). Inr (nd # cs, b'))))"
| "decodeRef buf =
     bindE (mapErr NodeRlp (split buf)) (\<lambda>it.
       if it_kind it = KList then
         (if length (it_raw it) \<ge> 32 then Inl (OversizedEmbedded (length (it_raw it)))
          else bindE (decodeNode buf) (\<lambda>n. Inr (n, it_rest it)))
       else if it_kind it = KString \<and> length (it_content it) = 0 then Inr (Empty, it_rest it)
       else if it_kind it = KString \<and> length (it_content it) = 32 then Inr (HashNode (it_content it), it_rest it)
       else Inl (InvalidRefSize (length (it_content it))))"
  by pat_completeness auto
termination
  by (relation "measure (\<lambda>x. case x of
        Inl (Inl buf) \<Rightarrow> 3 * length buf
      | Inl (Inr elems) \<Rightarrow> 3 * length elems + 2
      | Inr (Inl (n, b)) \<Rightarrow> 3 * length b + 2
      | Inr (Inr buf) \<Rightarrow> 3 * length buf + 1)")
    (auto simp: results dest!: splitList_content_shorter splitString_rest_shorter split_rest_shorter)

declare decodeNode.simps [simp del] decodeShort.simps [simp del] decodeChildren.simps(2) [simp del] decodeRef.simps [simp del]

text \<open>The body of \<open>decodeFull\<close>, as the decoder calls it.\<close>

definition decodeFull :: "bytes \<Rightarrow> mpt_error + node" where
  "decodeFull elems =
     bindE (decodeChildren 16 elems) (\<lambda>(cs, b).
     bindE (mapErr NodeRlp (splitString b)) (\<lambda>v.
       Inr (Full (cs @ [if length (it_content v) > 0 then ValueNode (it_content v) else Empty]))))"

lemma decodeNode_eq:
  "decodeNode buf =
     (if length buf = 0 then Inl NodeEOF
      else bindE (mapErr NodeRlp (splitList buf)) (\<lambda>l.
           bindE (mapErr NodeRlp (countValues (it_content l))) (\<lambda>c.
             if c = 2 then decodeShort (it_content l)
             else if c = 17 then decodeFull (it_content l)
             else Inl (InvalidElementCount c))))"
  by (simp add: decodeNode.simps decodeFull_def cong: if_cong)

lemma decodeRef_rest: "decodeRef b = Inr (n, r) \<Longrightarrow> \<exists>it. split b = Inr it \<and> r = it_rest it"
  by (subst (asm) decodeRef.simps) (auto simp: results split: if_splits)

lemma decodeChildren_Suc:
  "decodeChildren (Suc n) b =
     bindE (decodeRef b) (\<lambda>(nd, r). bindE (decodeChildren n r) (\<lambda>(cs, b'). Inr (nd # cs, b')))"
proof (cases "decodeRef b")
  case (Inl e)
  then show ?thesis
    by (cases "split b") (auto simp: decodeChildren.simps(2) decodeRef.simps [of b])
next
  case (Inr p)
  then obtain nd r where p: "p = (nd, r)" by force
  with Inr decodeRef_rest [of b nd r] show ?thesis
    by (auto simp: decodeChildren.simps(2))
qed

section \<open>The proof database\<close>

text \<open>
  \<open>ProofDb\<close> keys every node by its own hash, a later node with the same hash replacing an earlier one; the source's map is
  keyed by the hex spelling of the hash, which is injective.
\<close>

fun addNodes :: "(bytes \<Rightarrow> bytes) \<Rightarrow> bool \<Rightarrow> bytes list \<Rightarrow> (bytes \<rightharpoonup> bytes) \<Rightarrow> mpt_error + (bytes \<rightharpoonup> bytes)" where
  "addNodes H skipEmpty [] db = Inr db"
| "addNodes H skipEmpty (n # ns) db =
     (if length n = 0 then (if skipEmpty then addNodes H skipEmpty ns db else Inl EmptyProofNode)
      else addNodes H skipEmpty ns (db(H n \<mapsto> n)))"

definition proofDb :: "(bytes \<Rightarrow> bytes) \<Rightarrow> bytes list \<Rightarrow> bool \<Rightarrow> mpt_error + (bytes \<rightharpoonup> bytes)" where
  "proofDb H nodes skipEmpty = addNodes H skipEmpty nodes Map.empty"

text \<open>
  \<open>ProofNodes\<close>: the node list with \<open>hasEmpty\<close>; \<open>reader()\<close> is the database over every non-empty node (built once in the source,
  a pure function of the list), \<open>strict()\<close> refuses a list that holds an empty node.
\<close>

record proof_nodes =
  pn_nodes :: "bytes list"
  hasEmpty :: bool

definition newProofNodes :: "bytes list \<Rightarrow> proof_nodes" where
  "newProofNodes nodes = \<lparr>pn_nodes = nodes, hasEmpty = list_ex (\<lambda>n. length n = 0) nodes\<rparr>"

definition reader :: "(bytes \<Rightarrow> bytes) \<Rightarrow> proof_nodes \<Rightarrow> mpt_error + (bytes \<rightharpoonup> bytes)" where
  "reader H s = proofDb H (pn_nodes s) True"

definition strict :: "(bytes \<Rightarrow> bytes) \<Rightarrow> proof_nodes \<Rightarrow> mpt_error + (bytes \<rightharpoonup> bytes)" where
  "strict H s = (if hasEmpty s then Inl EmptyProofNode else reader H s)"

section \<open>The walk\<close>

text \<open>The inner loop of \<open>verifyProofIn\<close> ends at a proven absence, at a value, or at a hash still to be looked up with the rest of the key.\<close>

datatype walk = Absent | Found bytes | Next bytes "nat list"

function getN :: "node \<Rightarrow> nat list \<Rightarrow> walk" where
  "getN Empty k = Absent"
| "getN (Short key val) k =
     (if length k < length key \<or> take (length key) k \<noteq> key then Absent
      else getN val (drop (length key) k))"
| "getN (Full children) k =
     (if k \<noteq> [] \<and> hd k < length children then getN (children ! hd k) (tl k) else Absent)"
| "getN (HashNode h) k = Next h k"
| "getN (ValueNode v) k = Found v"
  by pat_completeness auto
termination
  by (relation "measure (\<lambda>(n, k). size n)") (auto simp: less_Suc_eq_le dest!: nth_mem intro: size_list_estimation')

partial_function (option) verifyLoop ::
  "(bytes \<Rightarrow> bytes option) \<Rightarrow> nat \<Rightarrow> bytes \<Rightarrow> nat list \<Rightarrow> (mpt_error + bytes option) option"
where
  "verifyLoop db i want k =
     (case db want of
        None \<Rightarrow> Some (Inl (NodeMissing i want))
      | Some buf \<Rightarrow>
          (case decodeNode buf of
             Inl e \<Rightarrow> Some (Inl (BadNode i e))
           | Inr n \<Rightarrow>
               (case getN n k of
                  Absent \<Rightarrow> Some (Inr None)
                | Found v \<Rightarrow> Some (Inr (Some v))
                | Next h k' \<Rightarrow> verifyLoop db (i + 1) h k')))"

declare verifyLoop.simps [code]

definition verifyProofIn :: "(bytes \<Rightarrow> bytes option) \<Rightarrow> bytes \<Rightarrow> bytes \<Rightarrow> (mpt_error + bytes option) option" where
  "verifyProofIn db root key = verifyLoop db 0 root (hexKey key)"

definition verifyProof ::
  "(bytes \<Rightarrow> bytes) \<Rightarrow> bytes \<Rightarrow> bytes \<Rightarrow> bytes list \<Rightarrow> (mpt_error + bytes option) option" where
  "verifyProof H root key nodes =
     (case proofDb H nodes False of Inl e \<Rightarrow> Some (Inl e) | Inr db \<Rightarrow> verifyProofIn db root key)"


section \<open>Accounts and slots\<close>

definition EMPTY_ROOT :: bytes where
  "EMPTY_ROOT = [0x56, 0xe8, 0x1f, 0x17, 0x1b, 0xcc, 0x55, 0xa6, 0xff, 0x83, 0x45, 0xe6, 0x92, 0xc0, 0xf8, 0x6e,
                 0x5b, 0x48, 0xe0, 0x1b, 0x99, 0x6c, 0xad, 0xc0, 0x01, 0x62, 0x2f, 0xb5, 0xe3, 0x63, 0xb4, 0x21]"

definition ZERO32 :: bytes where
  "ZERO32 = replicate 32 0"

record account_state =
  exists_in :: bool
  storageRoot :: bytes
  codeHash :: bytes

text \<open>The decoding of a proven account leaf (the \<open>try\<close> block of \<open>verifyAccountIn\<close> and the check after it).\<close>

definition decodeAccount :: "bytes \<Rightarrow> mpt_error + account_state" where
  "decodeAccount enc =
     bindE (mapErr AccountDoesNotDecode
       (bindE (structItems enc 4 0) (\<lambda>it.
        bindE (uintOf (it ! 0) (Some 8)) (\<lambda>_.
        bindE (uintOf (it ! 1) None) (\<lambda>_.
        bindE (fixedOf (it ! 2) 32) (\<lambda>root.
        bindE (bytesOf (it ! 3)) (\<lambda>ch. Inr (root, ch))))))))
     (\<lambda>(root, ch).
       if length ch \<noteq> 32 then Inl (BadCodeHashLength (length ch))
       else Inr \<lparr>exists_in = True, storageRoot = root, codeHash = ch\<rparr>)"

definition verifyAccountIn ::
  "(bytes \<Rightarrow> bytes) \<Rightarrow> proof_nodes \<Rightarrow> bytes \<Rightarrow> bytes \<Rightarrow> (mpt_error + account_state) option" where
  "verifyAccountIn H s stateRoot account =
     (if length (pn_nodes s) = 0 then Some (Inl NoAccountProof)
      else case strict H s of
        Inl e \<Rightarrow> Some (Inl e)
      | Inr db \<Rightarrow>
          (case verifyProofIn db stateRoot (H account) of
             None \<Rightarrow> None
           | Some (Inl e) \<Rightarrow> Some (Inl e)
           | Some (Inr None) \<Rightarrow> Some (Inr \<lparr>exists_in = False, storageRoot = EMPTY_ROOT, codeHash = ZERO32\<rparr>)
           | Some (Inr (Some enc)) \<Rightarrow> Some (decodeAccount enc)))"

definition verifyAccount ::
  "(bytes \<Rightarrow> bytes) \<Rightarrow> bytes \<Rightarrow> bytes \<Rightarrow> bytes list \<Rightarrow> (mpt_error + account_state) option" where
  "verifyAccount H stateRoot account proof = verifyAccountIn H (newProofNodes proof) stateRoot account"

definition decodeSlot :: "bytes \<Rightarrow> mpt_error + bytes" where
  "decodeSlot enc =
     bindE (mapErr LeafDoesNotDecode (split enc)) (\<lambda>it.
       if length (it_rest it) > 0 then Inl LeafMoreThanOneValue
       else bindE (mapErr LeafDoesNotDecode (bytesOf it)) (\<lambda>trimmed.
         if length trimmed > 32 \<or> (length trimmed > 0 \<and> trimmed ! 0 = 0) then Inl LeafNotTrimmed
         else Inr (replicate (32 - length trimmed) 0 @ trimmed)))"

definition verifySlotIn ::
  "(bytes \<Rightarrow> bytes) \<Rightarrow> proof_nodes \<Rightarrow> bytes \<Rightarrow> bytes \<Rightarrow> (mpt_error + bytes) option" where
  "verifySlotIn H s root slot =
     (let proof = pn_nodes s in
      if root = EMPTY_ROOT then
        (if length proof = 0 then Some (Inr ZERO32)
         else if length proof = 1 \<and> length (proof ! 0) = 1 \<and> (proof ! 0) ! 0 = 0x80 then Some (Inr ZERO32)
         else Some (Inl (EmptyRootWithNodes (length proof))))
      else if length proof = 0 then Some (Inl NoStorageProof)
      else case strict H s of
        Inl e \<Rightarrow> Some (Inl e)
      | Inr db \<Rightarrow>
          (case verifyProofIn db root (H slot) of
             None \<Rightarrow> None
           | Some (Inl e) \<Rightarrow> Some (Inl e)
           | Some (Inr None) \<Rightarrow> Some (Inr ZERO32)
           | Some (Inr (Some enc)) \<Rightarrow> Some (decodeSlot enc)))"

definition verifySlot ::
  "(bytes \<Rightarrow> bytes) \<Rightarrow> bytes \<Rightarrow> bytes \<Rightarrow> bytes list \<Rightarrow> (mpt_error + bytes) option" where
  "verifySlot H root slot proof = verifySlotIn H (newProofNodes proof) root slot"

definition verifyStorage ::
  "(bytes \<Rightarrow> bytes) \<Rightarrow> bytes \<Rightarrow> bytes \<Rightarrow> bytes list \<Rightarrow> bytes \<Rightarrow> bytes list \<Rightarrow>
     (mpt_error + account_state \<times> bytes) option" where
  "verifyStorage H stateRoot account accountProof slot storageProof =
     (case verifyAccount H stateRoot account accountProof of
        None \<Rightarrow> None
      | Some (Inl e) \<Rightarrow> Some (Inl e)
      | Some (Inr acc) \<Rightarrow>
          if \<not> exists_in acc then
            (if length storageProof \<noteq> 0 then Some (Inl AbsentAccountWithStorage) else Some (Inr (acc, ZERO32)))
          else (case verifySlot H (storageRoot acc) slot storageProof of
                  None \<Rightarrow> None
                | Some (Inl e) \<Rightarrow> Some (Inl e)
                | Some (Inr v) \<Rightarrow> Some (Inr (acc, v))))"

section \<open>The database finds a node only under its own hash\<close>

lemma addNodes_lookup:
  assumes "addNodes H sk ns db = Inr db'" and "db' h = Some n"
  shows "db h = Some n \<or> (n \<in> set ns \<and> H n = h)"
  using assms
proof (induction ns arbitrary: db)
  case (Cons m ns)
  then show ?case by (fastforce split: if_splits)
qed simp

lemma addNodes_keeps:
  assumes "addNodes H sk ns db = Inr db'" and "db h \<noteq> None \<or> (\<exists>n \<in> set ns. n \<noteq> [] \<and> H n = h)"
  shows "db' h \<noteq> None"
  using assms
proof (induction ns arbitrary: db)
  case (Cons m ns)
  show ?case
  proof (cases "m = []")
    case True
    from True Cons.prems have a: "addNodes H sk ns db = Inr db'" by (auto split: if_splits)
    from True Cons.prems have b: "db h \<noteq> None \<or> (\<exists>n \<in> set ns. n \<noteq> [] \<and> H n = h)" by auto
    from Cons.IH [OF a b] show ?thesis .
  next
    case False
    from False Cons.prems have a: "addNodes H sk ns (db(H m \<mapsto> m)) = Inr db'" by auto
    from False Cons.prems have b: "(db(H m \<mapsto> m)) h \<noteq> None \<or> (\<exists>n \<in> set ns. n \<noteq> [] \<and> H n = h)" by auto
    from Cons.IH [OF a b] show ?thesis .
  qed
qed auto

lemma addNodes_skip: "\<exists>db'. addNodes H True ns db = Inr db'"
  by (induction ns arbitrary: db) auto

lemma addNodes_strict: "addNodes H False ns db = Inr db' \<Longrightarrow> [] \<notin> set ns \<and> addNodes H True ns db = Inr db'"
  by (induction ns arbitrary: db) (auto split: if_splits)

text \<open>The map a successful construction yields; a reader that skips empty nodes never fails.\<close>

definition dbOf :: "(bytes \<Rightarrow> bytes) \<Rightarrow> bytes list \<Rightarrow> bytes \<rightharpoonup> bytes" where
  "dbOf H nodes = (case proofDb H nodes True of Inr db \<Rightarrow> db | Inl _ \<Rightarrow> Map.empty)"

lemma proofDb_dbOf: "proofDb H nodes sk = Inr db \<Longrightarrow> db = dbOf H nodes"
  using addNodes_strict addNodes_skip by (cases sk) (auto simp: dbOf_def proofDb_def split: sum.splits)

lemma reader_dbOf: "reader H s = Inr (dbOf H (pn_nodes s))"
  using addNodes_skip [of H "pn_nodes s" Map.empty] by (auto simp: reader_def dbOf_def proofDb_def)

lemma dbOf_lookup: "dbOf H nodes h = Some n \<Longrightarrow> n \<in> set nodes \<and> H n = h"
  using addNodes_skip [of H nodes Map.empty] addNodes_lookup [of H True nodes Map.empty]
  by (auto simp: dbOf_def proofDb_def)


section \<open>What the walk finds\<close>

text \<open>Hex keys: nibbles, and the terminator 16 at the very end only.\<close>

definition tkey :: "nat list \<Rightarrow> bool" where
  "tkey k \<longleftrightarrow> (\<exists>ns. k = ns @ [16] \<and> 16 \<notin> set ns)"

lemma tkey_Nil [simp]: "\<not> tkey []"
  by (simp add: tkey_def)

lemma tkey_drop: "tkey (key @ k) \<Longrightarrow> 16 \<notin> set key \<Longrightarrow> tkey k"
proof -
  assume t: "tkey (key @ k)" and n: "16 \<notin> set key"
  have "k \<noteq> []"
  proof
    assume "k = []"
    with t obtain ns where "key = ns @ [16]" by (auto simp: tkey_def)
    with n show False by simp
  qed
  then obtain ns x where "k = ns @ [x]" by (cases k rule: rev_cases) auto
  with t show ?thesis by (auto simp: tkey_def)
qed

lemma tkey_end: "tkey (key @ k) \<Longrightarrow> 16 \<in> set key \<Longrightarrow> k = []"
  by (cases k rule: rev_cases) (auto simp: tkey_def)

lemma tkey_hexKey: "tkey (hexKey b)"
proof -
  have "unat (x :: byte) div 16 < 16" for x
    using unat_byte_less [of x] by (simp add: less_mult_imp_div_less del: unat_byte_less)
  then have "unat (x :: byte) div 16 \<noteq> 16" for x by (metis less_irrefl)
  then have "16 \<notin> set (concat (map (\<lambda>x. [unat x div 16, unat x mod 16]) b))"
    by (induction b) auto
  then show ?thesis by (auto simp: tkey_def hexKey_def)
qed

lemma compactToHex_16:
  "16 \<in> set (compactToHex c) \<Longrightarrow> last (compactToHex c) = 16"
proof -
  assume i: "16 \<in> set (compactToHex c)"
  then have c: "c \<noteq> []" by (auto simp: compactToHex_def)
  obtain ns where h: "hexKey c = ns @ [16]" "16 \<notin> set ns"
    using tkey_hexKey [of c] by (auto simp: tkey_def)
  define chop where "chop = 2 - (hexKey c ! 0 AND 1)"
  have "\<not> hexKey c ! 0 < 2"
  proof
    assume "hexKey c ! 0 < 2"
    then have "compactToHex c = drop (2 - ((take (length (hexKey c) - 1) (hexKey c)) ! 0 AND 1)) ns"
      using c h by (simp add: compactToHex_def Let_def)
    with i h(2) show False by (metis in_set_dropD)
  qed
  then have e: "compactToHex c = drop chop (ns @ [16])"
    using c h by (simp add: compactToHex_def Let_def chop_def)
  with i have "chop < length (ns @ [16])" by (metis drop_all equals0D list.set(1) not_less)
  with e show "last (compactToHex c) = 16" by (simp only: last_drop last_snoc)
qed

text \<open>Decoded nodes hold values only where a key ends.\<close>

inductive wfN :: "node \<Rightarrow> bool" where
  wf_empty: "wfN Empty"
| wf_hash: "wfN (HashNode h)"
| wf_leaf: "16 \<in> set key \<Longrightarrow> wfN (Short key (ValueNode v))"
| wf_ext: "16 \<notin> set key \<Longrightarrow> wfN n \<Longrightarrow> wfN (Short key n)"
| wf_full: "\<forall>n \<in> set cs. wfN n \<Longrightarrow> length cs = 16 \<Longrightarrow> t = Empty \<or> t = ValueNode v \<Longrightarrow> wfN (Full (cs @ [t]))"

lemma decode_wfN:
  "\<forall>n. decodeNode buf = Inr n \<longrightarrow> wfN n"
  "\<forall>n. decodeShort elems = Inr n \<longrightarrow> wfN n"
  "\<forall>cs b'. decodeChildren m b = Inr (cs, b') \<longrightarrow> length cs = m \<and> (\<forall>n \<in> set cs. wfN n)"
  "\<forall>n r. decodeRef buf' = Inr (n, r) \<longrightarrow> wfN n"
proof (induction buf and elems and m b and buf'
    rule: decodeNode_decodeShort_decodeChildren_decodeRef.induct)
  case (1 buf)
  show ?case
  proof (intro allI impI)
    fix n
    assume d: "decodeNode buf = Inr n"
    then obtain l c where l: "splitList buf = Inr l" "countValues (it_content l) = Inr c" and ne: "length buf \<noteq> 0"
      by (subst (asm) decodeNode.simps) (auto simp: results split: if_splits)
    note ih = "1.IH" [OF ne, of l c]
    show "wfN n"
    proof (cases "c = 2")
      case True
      with d l ne have "decodeShort (it_content l) = Inr n" by (simp add: decodeNode.simps [of buf])
      with ih(1) l True show ?thesis by simp
    next
      case False
      with d l ne have c: "c = 17" by (auto simp: decodeNode.simps [of buf] split: if_splits)
      with d l ne obtain cs b and v :: item where cs: "decodeChildren 16 (it_content l) = Inr (cs, b)"
        and n: "n = Full (cs @ [if length (it_content v) > 0 then ValueNode (it_content v) else Empty])"
        by (auto simp: decodeNode.simps [of buf] results)
      from ih(2) l c cs have "length cs = 16 \<and> (\<forall>n \<in> set cs. wfN n)" by (simp add: results)
      then show ?thesis unfolding n
        by (intro wf_full [where v = "it_content v"]) auto
    qed
  qed
next
  case (2 elems)
  show ?case
  proof (intro allI impI)
    fix n
    assume d: "decodeShort elems = Inr n"
    then obtain k where k: "splitString elems = Inr k"
      by (subst (asm) decodeShort.simps) (auto simp: results)
    define key where "key = compactToHex (it_content k)"
    have l: "16 \<in> set key \<longleftrightarrow> length key > 0 \<and> key ! (length key - 1) = 16"
    proof (cases "key = []")
      case False
      have "16 \<in> set key \<longleftrightarrow> last key = 16"
        using compactToHex_16 [of "it_content k", folded key_def] last_in_set [OF False] by auto
      with False show ?thesis by (simp add: last_conv_nth)
    qed simp
    show "wfN n"
    proof (cases "16 \<in> set key")
      case True
      with d k l obtain v where "n = Short key (ValueNode v)"
        by (auto simp: decodeShort.simps [of elems] results key_def [symmetric] Let_def)
      with True show ?thesis by (auto intro: wf_leaf)
    next
      case False
      with d k l obtain m r where m: "n = Short key m" "decodeRef (it_rest k) = Inr (m, r)"
        by (auto simp: decodeShort.simps [of elems] results key_def [symmetric] Let_def)
      with "2.IH" [of k key] k l False have "wfN m" by (simp add: results key_def)
      with m False show ?thesis by (auto intro: wf_ext)
    qed
  qed
next
  case (3 b)
  then show ?case by simp
next
  case (4 m b)
  show ?case
  proof (intro allI impI)
    fix cs b'
    assume d: "decodeChildren (Suc m) b = Inr (cs, b')"
    then obtain it nd r cs' where it: "split b = Inr it" "decodeRef b = Inr (nd, r)"
      "decodeChildren m (it_rest it) = Inr (cs', b')" "cs = nd # cs'"
      by (auto simp: decodeChildren.simps(2) results)
    with "4.IH" show "length cs = Suc m \<and> (\<forall>n \<in> set cs. wfN n)" by (auto simp: results)
  qed
next
  case (5 buf)
  show ?case
  proof (intro allI impI)
    fix n r
    assume "decodeRef buf = Inr (n, r)"
    with "5.IH" show "wfN n"
      unfolding decodeRef.simps [of buf] by (auto simp: results intro: wfN.intros split: if_splits)
  qed
qed


text \<open>
  The trie a set of nodes proves, stated without the walk: \<open>trie_entry db n k v\<close> says that the (partly known) trie below node
  \<open>n\<close> stores \<open>v\<close> at exactly the path \<open>k\<close>, hash references being resolved through \<open>db\<close>.
\<close>

inductive trie_entry :: "(bytes \<Rightarrow> bytes option) \<Rightarrow> node \<Rightarrow> nat list \<Rightarrow> bytes \<Rightarrow> bool" for db where
  entry_value: "trie_entry db (ValueNode v) [] v"
| entry_short: "trie_entry db n k v \<Longrightarrow> trie_entry db (Short key n) (key @ k) v"
| entry_full: "i < length cs \<Longrightarrow> trie_entry db (cs ! i) k v \<Longrightarrow> trie_entry db (Full cs) (i # k) v"
| entry_hash: "db h = Some buf \<Longrightarrow> decodeNode buf = Inr n \<Longrightarrow> trie_entry db n k v \<Longrightarrow> trie_entry db (HashNode h) k v"

lemma getN_found:
  "getN n k = Found v \<Longrightarrow> wfN n \<Longrightarrow> tkey k \<Longrightarrow> trie_entry db n k v"
proof (induction n k rule: getN.induct)
  case (2 key val k)
  then have k: "k = key @ drop (length key) k" "getN val (drop (length key) k) = Found v"
    by (auto split: if_splits) (metis append_take_drop_id)
  from "2.prems"(2) show ?case
  proof (cases rule: wfN.cases)
    case wf_leaf
    with k "2.prems"(3) have "drop (length key) k = []" by (metis tkey_end)
    with k wf_leaf show ?thesis by (metis entry_short entry_value getN.simps(5) walk.inject(1) append_Nil2)
  next
    case wf_ext
    with k "2.prems"(3) have "tkey (drop (length key) k)" by (metis tkey_drop)
    with "2.IH" "2.prems" k wf_ext have "trie_entry db val (drop (length key) k) v" by (auto split: if_splits)
    from entry_short [OF this, of key] k(1) show ?thesis by simp
  qed
next
  case (3 children k)
  then have k: "k \<noteq> []" "hd k < length children" "getN (children ! hd k) (tl k) = Found v"
    by (auto split: if_splits)
  from "3.prems"(2) obtain cs t u where c: "children = cs @ [t]" "\<forall>n \<in> set cs. wfN n" "length cs = 16"
      "t = Empty \<or> t = ValueNode u"
    by (auto elim: wfN.cases)
  have "trie_entry db (children ! hd k) (tl k) v"
  proof (cases "hd k = 16")
    case True
    with c k have "t = ValueNode v" "children ! hd k = t" by (auto simp: nth_append)
    moreover have "tl k = []" using tkey_end [of "[hd k]" "tl k"] "3.prems"(3) k(1) True by (cases k) simp_all
    ultimately show ?thesis by (simp add: entry_value)
  next
    case False
    with c k have "wfN (children ! hd k)" by (auto simp: nth_append less_Suc_eq)
    moreover have "tkey (tl k)" using tkey_drop [of "[hd k]" "tl k"] "3.prems"(3) k(1) False by auto
    ultimately show ?thesis using "3.IH" k by blast
  qed
  from entry_full [OF k(2) this] k(1) show ?case by simp
qed (auto elim: wfN.cases)

lemma getN_next:
  "getN n k = Next h k' \<Longrightarrow> wfN n \<Longrightarrow> tkey k \<Longrightarrow>
     tkey k' \<and> (\<forall>v. trie_entry db (HashNode h) k' v \<longrightarrow> trie_entry db n k v)"
proof (induction n k rule: getN.induct)
  case (2 key val k)
  then have k: "k = key @ drop (length key) k" "getN val (drop (length key) k) = Next h k'"
    by (auto split: if_splits) (metis append_take_drop_id)
  from "2.prems"(2) show ?case
  proof (cases rule: wfN.cases)
    case wf_leaf
    with k show ?thesis by simp
  next
    case wf_ext
    with k "2.prems"(3) have "tkey (drop (length key) k)" by (metis tkey_drop)
    with "2.IH" "2.prems" k wf_ext have "tkey k' \<and> (\<forall>v. trie_entry db (HashNode h) k' v \<longrightarrow> trie_entry db val (drop (length key) k) v)"
      by (auto split: if_splits)
    with k(1) show ?thesis by (metis entry_short)
  qed
next
  case (3 children k)
  then have k: "k \<noteq> []" "hd k < length children" "getN (children ! hd k) (tl k) = Next h k'"
    by (auto split: if_splits)
  from "3.prems"(2) obtain cs t u where c: "children = cs @ [t]" "\<forall>n \<in> set cs. wfN n" "length cs = 16"
      "t = Empty \<or> t = ValueNode u"
    by (auto elim: wfN.cases)
  from c k have ne: "hd k \<noteq> 16" by (auto simp: nth_append)
  with c k have "wfN (children ! hd k)" by (auto simp: nth_append less_Suc_eq)
  moreover have "tkey (tl k)" using tkey_drop [of "[hd k]" "tl k"] "3.prems"(3) k(1) ne by auto
  ultimately have "tkey k' \<and> (\<forall>v. trie_entry db (HashNode h) k' v \<longrightarrow> trie_entry db (children ! hd k) (tl k) v)"
    using "3.IH" k by blast
  with entry_full [OF k(2), of db "tl k"] k(1) show ?case by auto
qed (auto elim: wfN.cases)

lemma verifyLoop_sound:
  assumes "verifyLoop db i want k = Some r"
  shows "tkey k \<longrightarrow> (\<forall>v. r = Inr (Some v) \<longrightarrow> trie_entry db (HashNode want) k v)"
proof (rule verifyLoop.raw_induct
    [where P = "\<lambda>db i want k r. tkey k \<longrightarrow> (\<forall>v. r = Inr (Some v) \<longrightarrow> trie_entry db (HashNode want) k v)", OF _ assms])
  fix f db i want k r
  assume IH: "\<And>db i want k r. f db i want k = Some r \<Longrightarrow>
      tkey k \<longrightarrow> (\<forall>v. r = Inr (Some v) \<longrightarrow> trie_entry db (HashNode want) k v)"
    and eq: "(case db want of None \<Rightarrow> Some (Inl (NodeMissing i want))
      | Some buf \<Rightarrow> (case decodeNode buf of Inl e \<Rightarrow> Some (Inl (BadNode i e))
         | Inr n \<Rightarrow> (case getN n k of Absent \<Rightarrow> Some (Inr None) | Found v \<Rightarrow> Some (Inr (Some v))
              | Next h k' \<Rightarrow> f db (i + 1) h k'))) = Some r"
  show "tkey k \<longrightarrow> (\<forall>v. r = Inr (Some v) \<longrightarrow> trie_entry db (HashNode want) k v)"
  proof (intro impI allI)
    fix v
    assume t: "tkey k" and r: "r = Inr (Some v)"
    from eq r obtain buf n where n: "db want = Some buf" "decodeNode buf = Inr n"
      by (auto split: option.splits sum.splits)
    then have wf: "wfN n" using decode_wfN(1) by blast
    have "trie_entry db n k v"
    proof (cases "getN n k")
      case (Found w)
      with eq r n have "getN n k = Found v" by simp
      then show ?thesis using wf t by (rule getN_found)
    next
      case (Next h k')
      with eq n have "f db (i + 1) h k' = Some r" by simp
      with IH r getN_next [OF Next wf t, of db] show ?thesis by blast
    qed (use eq r n in simp)
    with n show "trie_entry db (HashNode want) k v" by (rule entry_hash)
  qed
qed

lemma verifyLoop_complete:
  "trie_entry db n k v \<Longrightarrow>
     (case getN n k of Found w \<Rightarrow> w = v | Absent \<Rightarrow> False
      | Next h k' \<Rightarrow> (\<forall>i. verifyLoop db i h k' = Some (Inr (Some v))))"
proof (induction rule: trie_entry.induct)
  case (entry_hash h buf n k v)
  then have "verifyLoop db i h k = Some (Inr (Some v))" for i
    by (subst verifyLoop.simps) (auto split: walk.splits)
  then show ?case by simp
qed auto


section \<open>Two readings cannot disagree\<close>

text \<open>
  The \<open>ProofReader\<close> interface of the source: what \<open>get\<close> returns is a node whose hash is the one asked for. Against any such
  reader, and without a hash collision between the nodes the two readers serve, two walks from one root along one key agree.
\<close>

locale proof_reader =
  fixes H :: "bytes \<Rightarrow> bytes" and get :: "bytes \<Rightarrow> bytes option"
  assumes get_hash: "get h = Some n \<Longrightarrow> H n = h"
begin

lemma walks_agree:
  assumes "\<And>h n. get' h = Some n \<Longrightarrow> H n = h" and "inj_on H (ran get \<union> ran get')"
    and "verifyLoop get i want k = Some (Inr a)" and "verifyLoop get' j want k = Some (Inr b)"
  shows "a = b"
proof -
  have same: "m = n" if "get h = Some m" "get' h = Some n" for h m n
    using that assms(1) [of h n] get_hash [of h m] assms(2) by (auto simp: inj_on_def ran_def)
  have "(\<forall>h m. db h = Some m \<longrightarrow> get h = Some m) \<and> r = Inr a \<longrightarrow>
          (\<forall>j. verifyLoop get' j want k = Some (Inr b) \<longrightarrow> a = b)"
    if "verifyLoop db i want k = Some r" for db i want k r
  proof (rule verifyLoop.raw_induct
      [where P = "\<lambda>db i want k r. (\<forall>h m. db h = Some m \<longrightarrow> get h = Some m) \<and> r = Inr a \<longrightarrow>
          (\<forall>j. verifyLoop get' j want k = Some (Inr b) \<longrightarrow> a = b)", OF _ that])
    fix f db i want k r
    assume IH: "\<And>db i want k r. f db i want k = Some r \<Longrightarrow>
        (\<forall>h m. db h = Some m \<longrightarrow> get h = Some m) \<and> r = Inr a \<longrightarrow>
          (\<forall>j. verifyLoop get' j want k = Some (Inr b) \<longrightarrow> a = b)"
      and eq: "(case db want of None \<Rightarrow> Some (Inl (NodeMissing i want))
        | Some buf \<Rightarrow> (case decodeNode buf of Inl e \<Rightarrow> Some (Inl (BadNode i e))
           | Inr n \<Rightarrow> (case getN n k of Absent \<Rightarrow> Some (Inr None) | Found v \<Rightarrow> Some (Inr (Some v))
                | Next h k' \<Rightarrow> f db (i + 1) h k'))) = Some r"
    show "(\<forall>h m. db h = Some m \<longrightarrow> get h = Some m) \<and> r = Inr a \<longrightarrow>
          (\<forall>j. verifyLoop get' j want k = Some (Inr b) \<longrightarrow> a = b)"
    proof (intro impI allI, elim conjE)
      fix j
      assume sub: "\<forall>h m. db h = Some m \<longrightarrow> get h = Some m" and r: "r = Inr a"
        and v': "verifyLoop get' j want k = Some (Inr b)"
      from eq r obtain buf n where n: "db want = Some buf" "decodeNode buf = Inr n"
        by (auto split: option.splits sum.splits)
      from v' obtain buf' where b': "get' want = Some buf'"
        by (subst (asm) verifyLoop.simps) (auto split: option.splits)
      with same sub n have "buf' = buf" by metis
      with b' have g': "get' want = Some buf" by simp
      show "a = b"
      proof (cases "getN n k")
        case (Next h k')
        with eq n have "f db (i + 1) h k' = Some r" by simp
        moreover from v' g' n Next have "verifyLoop get' (j + 1) h k' = Some (Inr b)"
          by (subst (asm) verifyLoop.simps) simp
        ultimately show ?thesis using IH sub r by blast
      qed (use eq r n v' g' in \<open>simp_all add: verifyLoop.simps [of get' j]\<close>)
    qed
  qed
  then show ?thesis using assms(3,4) by blast
qed

end

interpretation proof_db: proof_reader H "dbOf H nodes" for H nodes
  by unfold_locales (simp add: dbOf_lookup)

lemma ran_dbOf: "ran (dbOf H nodes) \<subseteq> set nodes"
  using dbOf_lookup by (fastforce simp: ran_def)

section \<open>Termination\<close>

text \<open>The hashes a node refers to.\<close>

primrec hashes :: "node \<Rightarrow> bytes set" where
  "hashes Empty = {}"
| "hashes (Short key n) = hashes n"
| "hashes (Full cs) = \<Union> (set (map hashes cs))"
| "hashes (HashNode h) = {h}"
| "hashes (ValueNode v) = {}"

lemma getN_hashes: "getN n k = Next h k' \<Longrightarrow> h \<in> hashes n"
proof (induction n k rule: getN.induct)
  case (3 children k)
  then have "hd k < length children" "h \<in> hashes (children ! hd k)" by (auto split: if_splits)
  then show ?case by (auto intro!: bexI [of _ "children ! hd k"])
qed (auto split: if_splits)

lemma verifyLoop_returns:
  fixes rank :: "bytes \<Rightarrow> nat"
  assumes "\<And>h buf n h' buf'. get h = Some buf \<Longrightarrow> decodeNode buf = Inr n \<Longrightarrow> h' \<in> hashes n \<Longrightarrow>
      get h' = Some buf' \<Longrightarrow> rank h' < rank h"
  shows "\<exists>r. verifyLoop get i want k = Some r"
proof (induction "rank want" arbitrary: i want k rule: less_induct)
  case less
  show ?case
  proof (cases "get want")
    case (Some buf)
    show ?thesis
    proof (cases "decodeNode buf")
      case (Inr n)
      show ?thesis
      proof (cases "getN n k")
        case (Next h k')
        have "\<exists>r. verifyLoop get (i + 1) h k' = Some r"
        proof (cases "get h")
          case None
          then show ?thesis by (subst verifyLoop.simps) simp
        next
          case (Some buf')
          with assms [OF \<open>get want = Some buf\<close> Inr getN_hashes [OF Next]] less show ?thesis by blast
        qed
        with Some Inr Next show ?thesis by (subst verifyLoop.simps) simp
      qed (use Some Inr in \<open>simp_all add: verifyLoop.simps [of get i]\<close>)
    qed (use Some in \<open>simp add: verifyLoop.simps [of get i]\<close>)
  qed (simp add: verifyLoop.simps [of get i])
qed


section \<open>The slot reader\<close>

definition pad32 :: "nat \<Rightarrow> bytes" where
  "pad32 n = replicate (32 - length (min_be n)) 0 @ min_be n"

lemma be_nat_zeros: "be_nat (replicate m 0 @ b) = be_nat b"
  by (induction m) (simp_all add: be_nat_Cons)

lemma pad32: "n < 256 ^ 32 \<Longrightarrow> length (pad32 n) = 32" "be_nat (pad32 n) = n"
  using length_min_be_le [of n 32] by (simp_all add: pad32_def be_nat_zeros)

lemma decodeSlot_exact:
  "decodeSlot enc = Inr v \<longleftrightarrow> (\<exists>n < 256 ^ 32. enc = rlp_string (min_be n) \<and> v = pad32 n)"
proof
  assume "decodeSlot enc = Inr v"
  then obtain it where it: "split enc = Inr it" "it_rest it = []" "it_kind it \<noteq> KList" "length (it_content it) \<le> 32"
      "it_content it = [] \<or> it_content it ! 0 \<noteq> 0" "v = replicate (32 - length (it_content it)) 0 @ it_content it"
    by (auto simp: decodeSlot_def results bytesOf_def split: if_splits)
  then have hd: "it_content it = [] \<or> hd (it_content it) \<noteq> 0" by (auto simp: hd_conv_nth)
  define n where "n = be_nat (it_content it)"
  have m: "min_be n = it_content it" unfolding n_def by (rule min_be_be_nat [OF hd])
  have "n < 256 ^ length (it_content it)" unfolding n_def by (rule be_nat_less)
  also have "\<dots> \<le> 256 ^ 32" using it(4) by (intro power_increasing) auto
  finally have "n < 256 ^ 32" .
  moreover have "enc = rlp_string (min_be n)" using it(1,2,3) m by (simp add: split_iff rlp_of_def)
  ultimately show "\<exists>n < 256 ^ 32. enc = rlp_string (min_be n) \<and> v = pad32 n" using it(6) m by (auto simp: pad32_def)
next
  assume "\<exists>n < 256 ^ 32. enc = rlp_string (min_be n) \<and> v = pad32 n"
  then obtain n where n: "n < 256 ^ 32" "enc = rlp_string (min_be n)" "v = pad32 n" by blast
  define c where "c = min_be n"
  have len: "length c \<le> 32" unfolding c_def by (rule length_min_be_le [OF n(1)])
  have hd: "c = [] \<or> hd c \<noteq> 0" using hd_min_be [of n] by (cases "n = 0") (auto simp: c_def)
  define k where "k = (if length c = 1 \<and> hd c < 0x80 then KByte else KString)"
  have "kind_ok k c" "rlp_of k c = rlp_string c" by (auto simp: k_def kind_ok_def rlp_of_def)
  with split_rlp_of [of k c "[]"] len
  have "split enc = Inr \<lparr>it_kind = k, it_content = c, it_rest = [], it_raw = enc\<rparr>" by (simp add: n(2) c_def)
  moreover have "k \<noteq> KList" by (simp add: k_def)
  ultimately show "decodeSlot enc = Inr v"
    using len hd n(3) by (auto simp: decodeSlot_def bytesOf_def pad32_def c_def hd_conv_nth)
qed

lemma verifyProof_cases:
  "verifyProof H root key nodes =
     (if [] \<in> set nodes then Some (Inl EmptyProofNode) else verifyProofIn (dbOf H nodes) root key)"
proof (cases "[] \<in> set nodes")
  case True
  have "addNodes H False nodes db = Inl EmptyProofNode" for db
    using True by (induction nodes arbitrary: db) auto
  with True show ?thesis by (simp add: verifyProof_def proofDb_def)
next
  case False
  have "\<exists>db'. addNodes H False nodes db = Inr db'" for db
    using False by (induction nodes arbitrary: db) auto
  then obtain db where "proofDb H nodes False = Inr db" by (auto simp: proofDb_def)
  with False proofDb_dbOf [of H nodes False db] show ?thesis by (simp add: verifyProof_def)
qed

lemma strict_newProofNodes:
  "strict H (newProofNodes nodes) = (if [] \<in> set nodes then Inl EmptyProofNode else Inr (dbOf H nodes))"
  by (auto simp: strict_def newProofNodes_def reader_dbOf list_ex_iff)

lemma verifyProofIn_Some_iff:
  "verifyProofIn db root key = Some (Inr (Some v)) \<longleftrightarrow> trie_entry db (HashNode root) (hexKey key) v"
proof
  assume "verifyProofIn db root key = Some (Inr (Some v))"
  with verifyLoop_sound tkey_hexKey show "trie_entry db (HashNode root) (hexKey key) v"
    unfolding verifyProofIn_def by blast
next
  assume "trie_entry db (HashNode root) (hexKey key) v"
  from verifyLoop_complete [OF this] show "verifyProofIn db root key = Some (Inr (Some v))"
    by (simp add: verifyProofIn_def)
qed

lemma proofs_agree:
  assumes "inj_on H (set ns1 \<union> set ns2)"
    and "verifyProof H root key ns1 = Some (Inr a)" and "verifyProof H root key ns2 = Some (Inr b)"
  shows "a = b"
proof (rule proof_db.walks_agree)
  show "inj_on H (ran (dbOf H ns1) \<union> ran (dbOf H ns2))"
    using assms(1) by (rule inj_on_subset) (use ran_dbOf in blast)
  show "verifyLoop (dbOf H ns1) 0 root (hexKey key) = Some (Inr a)"
    using assms(2) by (simp add: verifyProof_cases verifyProofIn_def split: if_splits)
  show "verifyLoop (dbOf H ns2) 0 root (hexKey key) = Some (Inr b)"
    using assms(3) by (simp add: verifyProof_cases verifyProofIn_def split: if_splits)
qed (simp add: dbOf_lookup)

section \<open>Properties\<close>

text \<open>
  C26. The verifier returns a value exactly when the proof's nodes, resolved by their hashes from the root, spell out a trie that stores
  that value at exactly the queried key (and no node is empty): the walk is a refinement of the declarative trie.
\<close>

theorem verifyProof_exact:
  "verifyProof H root key nodes = Some (Inr (Some v)) \<longleftrightarrow>
     [] \<notin> set nodes \<and> trie_entry (dbOf H nodes) (HashNode root) (hexKey key) v"
  by (simp add: verifyProof_cases verifyProofIn_Some_iff)

text \<open>
  Two proofs cannot disagree: if the hash does not collide on the nodes of the two proofs, two successful verifications of one key
  under one root give the same answer - the same value, or absence both times.
\<close>

theorem verifyProof_unique:
  assumes "inj_on H (set ns1 \<union> set ns2)"
    and "verifyProof H root key ns1 = Some (Inr a)" and "verifyProof H root key ns2 = Some (Inr b)"
  shows "a = b"
using assms by (rule proofs_agree)

theorem verifyProof_unique_witness:
  "(Some [5] :: bytes option) = Some [5] \<and>
   verifyProof (\<lambda>b. if b = [0xC4, 0x82, 0x20, 0x12, 0x05] then [7] else b) [7] [0x12]
     [[0xC4, 0x82, 0x20, 0x12, 0x05]] = Some (Inr (Some [5]))"
proof -
  let ?H = "\<lambda>b::bytes. if b = [0xC4, 0x82, 0x20, 0x12, 0x05] then [7] else b"
  let ?n = "[0xC4, 0x82, 0x20, 0x12, 0x05] :: bytes"
  have i: "inj_on ?H (set [?n] \<union> set [?n, [0x80]])" by (auto simp: inj_on_def)
  have a: "verifyProof ?H [7] [0x12] [?n] = Some (Inr (Some [5]))" by code_simp
  have b: "verifyProof ?H [7] [0x12] [?n, [0x80]] = Some (Inr (Some [5]))" by code_simp
  show ?thesis using verifyProof_unique [OF i a b] a by simp
qed

text \<open>
  C27. The verification returns: if no node of the proof refers back to a node that leads to it (the references between the proof's
  nodes are ranked, as they are for a hash whose outputs cannot be planned), the loop ends with an answer or an error for every root and key.
\<close>

theorem verifyProof_returns:
  fixes rank :: "bytes \<Rightarrow> nat"
  assumes "\<And>buf n h buf'. buf \<in> set nodes \<Longrightarrow> decodeNode buf = Inr n \<Longrightarrow> h \<in> hashes n \<Longrightarrow>
      buf' \<in> set nodes \<Longrightarrow> H buf' = h \<Longrightarrow> rank h < rank (H buf)"
  shows "\<exists>r. verifyProof H root key nodes = Some r"
proof -
  have "\<exists>r. verifyLoop (dbOf H nodes) 0 root (hexKey key) = Some r"
    by (rule verifyLoop_returns [of _ rank]) (use assms dbOf_lookup in blast)
  then show ?thesis by (simp add: verifyProof_cases verifyProofIn_def)
qed

theorem verifyProof_returns_witness:
  "\<exists>r. verifyProof (\<lambda>b. b) [0xC4, 0x82, 0x20, 0x12, 0x05] [0x12] [[0xC4, 0x82, 0x20, 0x12, 0x05]] = Some r"
proof (rule verifyProof_returns [where rank = "\<lambda>_. 0"])
  fix buf :: bytes and n h and buf' :: bytes
  assume "buf \<in> set [[0xC4, 0x82, 0x20, 0x12, 0x05]]" "decodeNode buf = Inr n" "h \<in> hashes n"
  moreover have "decodeNode [0xC4, 0x82, 0x20, 0x12, 0x05] = Inr (Short [1, 2, 16] (ValueNode [5]))" by code_simp
  ultimately show "0 < (0::nat)" by auto
qed

text \<open>
  The value of a storage slot: if the proof shows the slot's leaf to be the canonical encoding of a number below 2^256, the reader
  returns that number as exactly 32 big-endian bytes.
\<close>

theorem verifySlot_value:
  assumes "root \<noteq> EMPTY_ROOT" and "[] \<notin> set proof" and "n < 256 ^ 32"
    and "trie_entry (dbOf H proof) (HashNode root) (hexKey (H slot)) (rlp_string (min_be n))"
  shows "\<exists>v. verifySlot H root slot proof = Some (Inr v) \<and> length v = 32 \<and> be_nat v = n"
proof -
  have ne: "proof \<noteq> []"
    using assms(4) by (cases rule: trie_entry.cases) (auto dest: dbOf_lookup)
  have "verifyProofIn (dbOf H proof) root (H slot) = Some (Inr (Some (rlp_string (min_be n))))"
    using assms(4) by (simp add: verifyProofIn_Some_iff)
  moreover have "decodeSlot (rlp_string (min_be n)) = Inr (pad32 n)"
    using assms(3) decodeSlot_exact by blast
  moreover have "pn_nodes (newProofNodes proof) = proof" by (simp add: newProofNodes_def)
  ultimately have "verifySlot H root slot proof = Some (Inr (pad32 n))"
    using assms(1,2) ne by (simp add: verifySlot_def verifySlotIn_def strict_newProofNodes)
  with pad32 [of n] assms(3) show ?thesis by auto
qed

theorem verifySlot_value_witness:
  "\<exists>v. verifySlot (\<lambda>b. if b = [0xC4, 0x82, 0x20, 0x12, 0x05] then [7] else b) [7] [0x12]
     [[0xC4, 0x82, 0x20, 0x12, 0x05]] = Some (Inr v) \<and> length v = 32 \<and> be_nat v = 5"
proof (rule verifySlot_value)
  let ?H = "\<lambda>b::bytes. if b = [0xC4, 0x82, 0x20, 0x12, 0x05] then [7] else b"
  have m: "min_be 5 = [5]" by (subst min_be.simps) simp
  have "verifyProof ?H [7] [0x12] [[0xC4, 0x82, 0x20, 0x12, 0x05]] = Some (Inr (Some [5]))" by code_simp
  then have "verifyProofIn (dbOf ?H [[0xC4, 0x82, 0x20, 0x12, 0x05]]) [7] [0x12] = Some (Inr (Some [5]))"
    by (simp add: verifyProof_cases)
  then show "trie_entry (dbOf ?H [[0xC4, 0x82, 0x20, 0x12, 0x05]]) (HashNode [7]) (hexKey (?H [0x12])) (rlp_string (min_be 5))"
    by (simp add: m rlp_string_def verifyProofIn_Some_iff)
qed (simp_all add: EMPTY_ROOT_def)

end
