(* ===== verification/Der.thy ===== *)
theory Der
  imports Prelude
begin

unbundle bit_operations_syntax

text \<open>
  The ASN.1 readers of \<open>packages/verify/src/sigtypes/der.ts\<close>: \<open>readTlv\<close> (one DER element), the strict and the lax ECDSA
  signature readers, and the two public-key readers. \<open>undefined\<close> is \<open>None\<close>. A \<open>bigint\<close> the code only builds from
  unsigned bytes is a \<open>nat\<close>; \<open>signedInteger\<close>, which can be negative, is an \<open>int\<close>.
\<close>

section \<open>One element\<close>

record tlv =
  t_tag :: byte
  t_body :: bytes
  t_rest :: bytes

text \<open>The length octets: the length and the size of the header, in the short and in the long form.\<close>

definition readLength :: "bytes \<Rightarrow> (nat \<times> nat) option" where
  "readLength s =
     (let lenByte = s ! 1 in
      if lenByte AND 0x80 = 0 then Some (unat lenByte, 2)
      else
        let lenLen = unat (lenByte AND 0x7f) in
        if lenLen = 0 \<or> lenLen > 4 \<or> length s < 2 + lenLen then None
        else
          let len = foldl (\<lambda>len x. len * 256 + unat x) 0 (take lenLen (drop 2 s)) in
          if len < 128 then None
          else if len div 2 ^ ((lenLen - 1) * 8) = 0 then None
          else Some (len, 2 + lenLen))"

definition readTlv :: "bytes \<Rightarrow> tlv option" where
  "readTlv s =
     (if length s < 2 then None
      else if (s ! 0) AND 0x1f = 0x1f then None
      else case readLength s of
        None \<Rightarrow> None
      | Some (len, header) \<Rightarrow>
          if header + len > length s then None
          else Some \<lparr>t_tag = s ! 0, t_body = take len (drop header s), t_rest = drop (header + len) s\<rparr>)"

definition SEQUENCE :: byte where "SEQUENCE = 0x30"
definition INTEGER :: byte where "INTEGER = 0x02"
definition OID :: byte where "OID = 0x06"
definition BITSTRING :: byte where "BITSTRING = 0x03"

section \<open>Integers\<close>

definition toBig :: "bytes \<Rightarrow> nat" where
  "toBig b = foldl (\<lambda>n x. n * 256 + unat x) 0 b"

definition minimalInteger :: "bytes \<Rightarrow> bool" where
  "minimalInteger b =
     (if length b = 0 then False
      else if length b = 1 then True
      else if b ! 0 = 0 \<and> (b ! 1) AND 0x80 = 0 then False
      else if b ! 0 = 0xff \<and> (b ! 1) AND 0x80 = 0x80 then False
      else True)"

text \<open>Only called after \<open>minimalInteger\<close>, so \<open>b[0]\<close> is there.\<close>

definition signedInteger :: "bytes \<Rightarrow> int" where
  "signedInteger b =
     (let n = int (toBig b) in if (b ! 0) AND 0x80 \<noteq> 0 then n - 2 ^ (8 * length b) else n)"

section \<open>ECDSA signatures\<close>

definition strictEcdsaSignature :: "bytes \<Rightarrow> (nat \<times> nat) option" where
  "strictEcdsaSignature sig =
     (case readTlv sig of
        None \<Rightarrow> None
      | Some sq \<Rightarrow>
        if t_tag sq \<noteq> SEQUENCE \<or> length (t_rest sq) \<noteq> 0 then None
        else (case readTlv (t_body sq) of
          None \<Rightarrow> None
        | Some r \<Rightarrow>
          if t_tag r \<noteq> INTEGER \<or> \<not> minimalInteger (t_body r) \<or> (t_body r ! 0) AND 0x80 \<noteq> 0 then None
          else (case readTlv (t_rest r) of
            None \<Rightarrow> None
          | Some s \<Rightarrow>
            if t_tag s \<noteq> INTEGER \<or> \<not> minimalInteger (t_body s) \<or> (t_body s ! 0) AND 0x80 \<noteq> 0 \<or>
               length (t_rest s) \<noteq> 0 then None
            else Some (toBig (t_body r), toBig (t_body s)))))"

text \<open>\<open>dropZero\<close>: one leading zero byte of an integer of more than one byte is dropped.\<close>

definition dropZero :: "bytes \<Rightarrow> bytes" where
  "dropZero b = (if b ! 0 = 0 \<and> length b > 1 then drop 1 b else b)"

definition laxSecp256k1Signature :: "bytes \<Rightarrow> (nat \<times> nat) option" where
  "laxSecp256k1Signature sig =
     (if length sig < 8 then None
      else if sig ! 0 \<noteq> 0x30 then None
      else let totalLen = unat (sig ! 1) in
      if length sig < totalLen + 2 then None
      else if sig ! 2 \<noteq> 0x02 then None
      else let rLen = unat (sig ! 3) in
      if 4 + rLen > length sig then None
      else let rBytes = take rLen (drop 4 sig) in
      if length rBytes = 0 then None
      else let r = toBig (dropZero rBytes); idx = 4 + rLen in
      if idx \<ge> length sig \<or> sig ! idx \<noteq> 0x02 then None
      else if idx + 1 \<ge> length sig then None
      else let sLen = unat (sig ! (idx + 1)); idx = idx + 2 in
      if idx + sLen > length sig then None
      else let sBytes = take sLen (drop idx sig) in
      if length sBytes = 0 then None
      else Some (r, toBig (dropZero sBytes)))"

section \<open>What an accepted element looks like\<close>

definition der_len :: "nat \<Rightarrow> bytes" where
  "der_len n = (if n < 128 then [of_nat n] else of_nat (128 + length (min_be n)) # min_be n)"

definition der_tlv :: "byte \<Rightarrow> bytes \<Rightarrow> bytes" where
  "der_tlv t c = t # der_len (length c) @ c"

definition der_raw :: "tlv \<Rightarrow> bytes" where
  "der_raw t = der_tlv (t_tag t) (t_body t)"

lemma toBig_be_nat: "toBig = be_nat"
  by (rule ext) (simp add: toBig_def be_nat_def)

lemma and_128: "(x :: byte) AND 0x80 = 0 \<longleftrightarrow> unat x < 128"
proof -
  have "x AND 0x80 = 0 \<longleftrightarrow> \<not> bit x 7"
    using and_exp_eq_0_iff_not_bit [of x 7] by simp
  also have "\<dots> \<longleftrightarrow> \<not> bit (unat x) 7" by (simp add: bit_unsigned_iff)
  also have "\<dots> \<longleftrightarrow> even (unat x div 128)" by (simp add: bit_iff_odd)
  also have "\<dots> \<longleftrightarrow> unat x < 128"
  proof -
    have "unat x div 128 < 2" using unat_byte_less [of x] by (simp add: less_mult_imp_div_less del: unat_byte_less)
    then show ?thesis by (cases "unat x div 128 = 0") (auto simp: div_eq_0_iff)
  qed
  finally show ?thesis .
qed

lemma and_127: "unat ((x :: byte) AND 0x7f) = unat x mod 128"
proof -
  have "x AND 0x7f = take_bit 7 x" using take_bit_eq_mask [of 7 x] by (simp add: mask_eq_exp_minus_1)
  then have "unat (x AND 0x7f) = take_bit 7 (unat x)" by (simp only: unsigned_take_bit_eq)
  then show ?thesis by (simp only: take_bit_eq_mod) simp
qed

lemma be_nat_lead:
  assumes "b \<noteq> []"
  shows "be_nat b div 2 ^ ((length b - 1) * 8) = 0 \<longleftrightarrow> hd b = 0"
proof -
  obtain x c where b: "b = x # c" using assms by (cases b) auto
  have p: "(2::nat) ^ (length c * 8) = 256 ^ length c"
    by (simp add: power_mult mult.commute [of _ 8])
  have "be_nat b div 256 ^ length c = unat x"
    using be_nat_less [of c] by (simp add: b be_nat_Cons)
  then show ?thesis by (simp add: b p unat_eq_0)
qed

lemma readLength_Some:
  assumes "readLength (t # y # s) = Some (len, header)"
  shows "header \<le> length (t # y # s) \<and> take (header - 1) (y # s) = der_len len \<and> len < 256 ^ 4 \<and> header = 1 + length (der_len len)"
proof (cases "y AND 0x80 = 0")
  case True
  with assms have "len = unat y" "header = 2" "unat y < 128" by (auto simp: readLength_def and_128)
  moreover have "[of_nat (unat y)] = [y]" by (simp add: unsigned_word_eqI)
  ultimately show ?thesis by (simp add: der_len_def)
next
  case False
  define l where "l = unat (y AND 0x7f)"
  have "128 \<le> n \<Longrightarrow> n < 256 \<Longrightarrow> n = 128 + n mod 128" for n :: nat
    by (subst le_mod_geq) auto
  from this [of "unat y"] False have y: "unat y = 128 + l"
    unfolding l_def and_127 and_128 using unat_byte_less [of y] by linarith
  from assms False have l: "l \<noteq> 0" "l \<le> 4" "l \<le> length s" "len = be_nat (take l s)" "128 \<le> len" "header = 2 + l"
      "len div 2 ^ ((l - 1) * 8) \<noteq> 0"
    by (auto simp: readLength_def Let_def be_nat_def l_def split: if_splits)
  define b where "b = take l s"
  have b: "length b = l" "b \<noteq> []" using l by (auto simp: b_def)
  with l have "hd b \<noteq> 0" using be_nat_lead [of b] by (simp add: b_def [symmetric])
  with b l have m: "min_be len = b" using min_be_be_nat [of b] by (simp add: b_def)
  have "len < 256 ^ l" using be_nat_less [of b] b l by (simp add: b_def)
  also have "\<dots> \<le> 256 ^ 4" using l by (intro power_increasing) auto
  finally have "len < 256 ^ 4" .
  moreover have "of_nat (128 + l) = y" by (rule unsigned_word_eqI [where 'a = nat]) (use y l in simp)
  ultimately show ?thesis using l m b by (simp add: der_len_def b_def)
qed


lemma readLength_der_len:
  assumes "n < 256 ^ 4"
  shows "readLength (t # der_len n @ s) = Some (n, 1 + length (der_len n))"
proof (cases "n < 128")
  case True
  then have "unat (of_nat n :: byte) = n" by simp
  with True show ?thesis by (simp add: readLength_def der_len_def and_128)
next
  case False
  define l where "l = length (min_be n)"
  define y :: byte where "y = of_nat (128 + l)"
  have l: "1 \<le> l" "l \<le> 4"
    using False hd_min_be [of n] length_min_be_le [of n 4] assms by (auto simp: l_def Suc_le_eq)
  then have y: "unat y = 128 + l" "y AND 0x80 \<noteq> 0" "unat (y AND 0x7f) = l"
    by (simp_all add: y_def and_128 and_127)
  have "be_nat (min_be n) div 2 ^ ((l - 1) * 8) \<noteq> 0"
    using be_nat_lead [of "min_be n"] hd_min_be [of n] False by (simp add: l_def)
  then have "n div 2 ^ ((l - 1) * 8) \<noteq> 0" by simp
  moreover have "foldl (\<lambda>len x. len * 256 + unat x) 0 (take l (min_be n @ s)) = n"
    using be_nat_min_be [of n] by (simp add: l_def be_nat_def)
  ultimately have "readLength (t # y # min_be n @ s) = Some (n, 2 + l)"
    using y l False by (simp add: readLength_def Let_def) (simp add: l_def)
  with False show ?thesis by (simp add: der_len_def y_def l_def)
qed

lemma readTlv_iff:
  "readTlv s = Some t \<longleftrightarrow>
     (t_tag t) AND 0x1f \<noteq> 0x1f \<and> length (t_body t) < 256 ^ 4 \<and> s = der_raw t @ t_rest t" (is "_ \<longleftrightarrow> ?r")
proof
  assume rd: "readTlv s = Some t"
  then obtain a y s' where s: "s = a # y # s'"
    by (cases s; cases "tl s") (auto simp: readTlv_def split: if_splits)
  from rd obtain len h where l: "readLength s = Some (len, h)" "h + len \<le> length s" "a AND 0x1f \<noteq> 0x1f"
      and t: "t = \<lparr>t_tag = a, t_body = take len (drop h s), t_rest = drop (h + len) s\<rparr>"
    by (auto simp: readTlv_def s split: if_splits option.splits prod.splits)
  from readLength_Some l(1) s have h: "take (h - 1) (y # s') = der_len len" "len < 256 ^ 4" "h = 1 + length (der_len len)"
    by blast+
  have "take h s = a # der_len len" using h by (simp add: s take_Cons')
  moreover have "s = take h s @ take len (drop h s) @ drop (h + len) s"
    by (metis append_take_drop_id drop_drop add.commute)
  moreover have "length (take len (drop h s)) = len" using l(2) by simp
  ultimately show ?r using l h by (simp add: t der_raw_def der_tlv_def)
next
  assume r: ?r
  then have rl: "readLength s = Some (length (t_body t), 1 + length (der_len (length (t_body t))))"
    by (simp add: der_raw_def der_tlv_def readLength_der_len)
  have "length (der_len n) \<noteq> 0" for n by (simp add: der_len_def)
  then have "1 \<le> length (der_len (length (t_body t)))" by (metis One_nat_def Suc_leI neq0_conv)
  moreover from r have "length s = 1 + length (der_len (length (t_body t))) + length (t_body t) + length (t_rest t)"
    by (simp add: der_raw_def der_tlv_def)
  ultimately have "\<not> length s < 2" by linarith
  with r rl show "readTlv s = Some t"
    by (cases t) (auto simp: readTlv_def der_raw_def der_tlv_def)
qed

interpretation der_reader: prefix_reader readTlv der_raw t_rest
proof
  fix b s and it :: tlv
  assume *: "readTlv b = Some it"
  then show "der_raw it @ t_rest it = b" and "der_raw it \<noteq> []"
    by (auto simp: readTlv_iff der_raw_def der_tlv_def)
  have "readTlv (der_raw it @ s) = Some (it\<lparr>t_rest := s\<rparr>)"
    using * by (simp add: readTlv_iff der_raw_def)
  then show "\<exists>jt. readTlv (der_raw it @ s) = Some jt \<and> der_raw jt = der_raw it \<and> t_rest jt = s"
    by (auto simp: der_raw_def)
qed

section \<open>Public keys\<close>

function elements :: "bytes \<Rightarrow> tlv list option" where
  "elements rest =
     (if length rest > 0 then
        (case readTlv rest of
           None \<Rightarrow> None
         | Some t \<Rightarrow> (case elements (t_rest t) of None \<Rightarrow> None | Some out \<Rightarrow> Some (t # out)))
      else Some [])"
  by pat_completeness auto
termination
  by (relation "measure length") (auto dest: der_reader.rst_shorter)

declare elements.simps [simp del]

lemma elements_Nil [simp]: "elements [] = Some []"
  by (simp add: elements.simps)

lemma elements_parses: "elements b = Some its \<longleftrightarrow> parses readTlv t_rest b its"
proof (induction b arbitrary: its rule: elements.induct)
  case (1 b)
  show ?case
  proof (cases "b = []")
    case False
    show ?thesis
    proof (cases "readTlv b")
      case None
      with False show ?thesis by (cases its) (auto simp: elements.simps [of b])
    next
      case (Some t)
      with 1 False have "elements (t_rest t) = Some jts \<longleftrightarrow> parses readTlv t_rest (t_rest t) jts" for jts by simp
      with Some False show ?thesis
        by (cases its) (auto simp: elements.simps [of b] split: option.splits dest: der_reader.parses_unique)
    qed
  qed (cases its; simp)
qed

datatype ec_curve = P224 | P256 | P384 | P521

definition CURVE_OIDS :: "bytes \<Rightarrow> ec_curve option" where
  "CURVE_OIDS b =
     (if b = [0x2b, 0x81, 0x04, 0x00, 0x21] then Some P224
      else if b = [0x2a, 0x86, 0x48, 0xce, 0x3d, 0x03, 0x01, 0x07] then Some P256
      else if b = [0x2b, 0x81, 0x04, 0x00, 0x22] then Some P384
      else if b = [0x2b, 0x81, 0x04, 0x00, 0x23] then Some P521
      else None)"

definition OID_EC_PUBLIC_KEY :: bytes where
  "OID_EC_PUBLIC_KEY = [0x2a, 0x86, 0x48, 0xce, 0x3d, 0x02, 0x01]"

definition bitStringBytes :: "bytes \<Rightarrow> bytes option" where
  "bitStringBytes b =
     (if length b = 0 then None
      else
        let padding = unat (b ! 0); data = drop 1 b in
        if padding > 7 \<or> (length data = 0 \<and> padding > 0) then None
        else if length data > 0 \<and> (data ! (length data - 1)) AND (2 ^ padding - 1) \<noteq> 0 then None
        else
          let bitLength = length data * 8 - padding; shift = 8 - bitLength mod 8 in
          if shift = 8 \<or> length data = 0 then Some data
          else Some (map (\<lambda>i. if i = 0 then drop_bit shift (data ! 0)
                              else push_bit (8 - shift) (data ! (i - 1)) OR drop_bit shift (data ! i))
                     [0..<length data]))"

definition parseSpkiEcdsa :: "bytes \<Rightarrow> (ec_curve \<times> bytes) option" where
  "parseSpkiEcdsa der =
     (case readTlv der of
        None \<Rightarrow> None
      | Some outer \<Rightarrow>
        if t_tag outer \<noteq> SEQUENCE \<or> length (t_rest outer) \<noteq> 0 then None
        else (case elements (t_body outer) of
          None \<Rightarrow> None
        | Some parts \<Rightarrow>
          if length parts < 2 then None
          else let alg = parts ! 0 in
          if t_tag alg \<noteq> SEQUENCE then None
          else (case elements (t_body alg) of
            None \<Rightarrow> None
          | Some algParts \<Rightarrow>
            if length algParts < 1 then None
            else let oid = algParts ! 0 in
            if t_tag oid \<noteq> OID \<or> t_body oid \<noteq> OID_EC_PUBLIC_KEY then None
            else if length algParts < 2 \<or> t_tag (algParts ! 1) \<noteq> OID then None
            else (case CURVE_OIDS (t_body (algParts ! 1)) of
              None \<Rightarrow> None
            | Some curve \<Rightarrow>
              let bits = parts ! 1 in
              if t_tag bits \<noteq> BITSTRING then None
              else (case bitStringBytes (t_body bits) of
                None \<Rightarrow> None
              | Some point \<Rightarrow> Some (curve, point))))))"

definition parsePkcs1Rsa :: "bytes \<Rightarrow> (int \<times> int) option" where
  "parsePkcs1Rsa der =
     (case readTlv der of
        None \<Rightarrow> None
      | Some outer \<Rightarrow>
        if t_tag outer \<noteq> SEQUENCE \<or> length (t_rest outer) \<noteq> 0 then None
        else (case elements (t_body outer) of
          None \<Rightarrow> None
        | Some parts \<Rightarrow>
          if length parts < 2 then None
          else let nT = parts ! 0; eT = parts ! 1 in
          if t_tag nT \<noteq> INTEGER \<or> t_tag eT \<noteq> INTEGER then None
          else if \<not> minimalInteger (t_body nT) \<or> \<not> minimalInteger (t_body eT) then None
          else let n = signedInteger (t_body nT) in
          if n \<le> 0 then None
          else if length (t_body eT) > 8 then None
          else let e = signedInteger (t_body eT) in
          if e \<le> 0 \<or> e > 0x7fffffff then None
          else Some (n, e)))"


section \<open>Canonical integers\<close>

definition der_uint :: "nat \<Rightarrow> bytes" where
  "der_uint n =
     (if n = 0 then [0] else if 128 \<le> unat (hd (min_be n)) then 0 # min_be n else min_be n)"

definition der_sig :: "nat \<Rightarrow> nat \<Rightarrow> bytes" where
  "der_sig r s = der_tlv SEQUENCE (der_tlv INTEGER (der_uint r) @ der_tlv INTEGER (der_uint s))"

lemma be_nat_zero_Cons: "be_nat (0 # b) = be_nat b"
  by (simp add: be_nat_Cons)

lemma be_nat_der_uint: "be_nat (der_uint n) = n"
  by (simp add: der_uint_def be_nat_zero_Cons)

lemma der_uint_minimal: "minimalInteger (der_uint n) \<and> (der_uint n ! 0) AND 0x80 = 0"
proof (cases "n = 0")
  case False
  obtain x c where m: "min_be n = x # c" "x \<noteq> 0" using hd_min_be [OF False] by (cases "min_be n") auto
  have "unat x < 128 \<Longrightarrow> x \<noteq> 0xff" by auto
  with False m show ?thesis
    by (cases c) (auto simp: der_uint_def minimalInteger_def and_128 not_le)
qed (simp add: der_uint_def minimalInteger_def)

lemma minimal_unsigned:
  assumes "minimalInteger b" and "(b ! 0) AND 0x80 = 0"
  shows "b = der_uint (be_nat b)"
proof -
  obtain x c where b: "b = x # c" using assms(1) by (cases b) (auto simp: minimalInteger_def)
  with assms have x: "unat x < 128" by (simp add: and_128)
  show ?thesis
  proof (cases "x = 0")
    case False
    with b have "min_be (be_nat b) = b" by (intro min_be_be_nat) simp
    moreover from this False b have "be_nat b \<noteq> 0" by (metis min_be_0 list.discI)
    ultimately show ?thesis using b x by (simp add: der_uint_def)
  next
    case zero: True
    show ?thesis
    proof (cases c)
      case Nil
      with b zero show ?thesis by (simp add: der_uint_def)
    next
      case (Cons y d)
      with assms(1) b zero have y: "128 \<le> unat y" by (auto simp: minimalInteger_def and_128 split: if_splits)
      then have "y \<noteq> 0" by auto
      with Cons have "min_be (be_nat c) = c" by (intro min_be_be_nat) simp
      moreover from this Cons have "be_nat c \<noteq> 0" by (metis min_be_0 list.discI)
      ultimately show ?thesis using b zero Cons y by (simp add: der_uint_def be_nat_zero_Cons)
    qed
  qed
qed

lemma strict_iff:
  "strictEcdsaSignature sig = Some (r, s) \<longleftrightarrow>
     sig = der_sig r s \<and> length (der_tlv INTEGER (der_uint r) @ der_tlv INTEGER (der_uint s)) < 256 ^ 4" (is "_ \<longleftrightarrow> ?r")
proof
  assume "strictEcdsaSignature sig = Some (r, s)"
  then obtain q a b where q: "readTlv sig = Some q" "t_tag q = SEQUENCE" "t_rest q = []"
    and a: "readTlv (t_body q) = Some a" "t_tag a = INTEGER" "minimalInteger (t_body a)" "(t_body a ! 0) AND 0x80 = 0"
    and b: "readTlv (t_rest a) = Some b" "t_tag b = INTEGER" "minimalInteger (t_body b)" "(t_body b ! 0) AND 0x80 = 0" "t_rest b = []"
    and rs: "r = be_nat (t_body a)" "s = be_nat (t_body b)"
    by (auto simp: strictEcdsaSignature_def toBig_be_nat split: option.splits if_splits)
  have "t_body a = der_uint r" "t_body b = der_uint s"
    using minimal_unsigned a(3,4) b(3,4) rs by auto
  with q a b show ?r by (auto simp: readTlv_iff der_raw_def der_sig_def)
next
  let ?a = "der_tlv INTEGER (der_uint r)" and ?b = "der_tlv INTEGER (der_uint s)"
  assume r: ?r
  then have l: "length (der_uint r) < 256 ^ 4" "length (der_uint s) < 256 ^ 4" by (auto simp: der_tlv_def)
  have "readTlv sig = Some \<lparr>t_tag = SEQUENCE, t_body = ?a @ ?b, t_rest = []\<rparr>"
    using r by (simp add: readTlv_iff der_raw_def der_sig_def SEQUENCE_def)
  moreover have "readTlv (?a @ ?b) = Some \<lparr>t_tag = INTEGER, t_body = der_uint r, t_rest = ?b\<rparr>"
    using l by (simp add: readTlv_iff der_raw_def INTEGER_def)
  moreover have "readTlv ?b = Some \<lparr>t_tag = INTEGER, t_body = der_uint s, t_rest = []\<rparr>"
    using l by (simp add: readTlv_iff der_raw_def INTEGER_def)
  ultimately show "strictEcdsaSignature sig = Some (r, s)"
    using der_uint_minimal [of r] der_uint_minimal [of s]
    by (simp add: strictEcdsaSignature_def toBig_be_nat be_nat_der_uint)
qed

lemma be_nat_dropZero: "b \<noteq> [] \<Longrightarrow> be_nat (dropZero b) = be_nat b"
  by (cases b) (auto simp: dropZero_def be_nat_zero_Cons)

lemma lax_form:
  assumes "a \<noteq> []" "b \<noteq> []" "length a < 256" "length b < 256" "unat n \<le> 4 + length a + length b + length x"
  shows "laxSecp256k1Signature ([0x30, n, 2, of_nat (length a)] @ a @ [2, of_nat (length b)] @ b @ x) = Some (be_nat a, be_nat b)"
proof -
  let ?sig = "48 # n # 2 # of_nat (length a) # a @ 2 # of_nat (length b) # b @ x"
  have "0 < length a" "0 < length b" using assms(1,2) by auto
  then have "\<not> length a + (length b + length x) < 2" by linarith
  moreover have "drop (6 + length a) ?sig = b @ x" by (simp add: numeral_eq_Suc)
  ultimately show ?thesis using assms
    by (simp add: laxSecp256k1Signature_def Let_def nth_append toBig_be_nat be_nat_dropZero)
qed

lemma length_der_len: "128 \<le> n \<Longrightarrow> 2 \<le> length (der_len n)"
  using hd_min_be [of n] by (simp add: der_len_def Suc_le_eq)

lemma der_sig_short:
  assumes "length (der_sig r s) \<le> 129"
  shows "\<exists>n. der_sig r s = [0x30, n, 2, of_nat (length (der_uint r))] @ der_uint r @
      [2, of_nat (length (der_uint s))] @ der_uint s
    \<and> unat n = 4 + length (der_uint r) + length (der_uint s) \<and> unat n < 128"
proof -
  let ?c = "der_tlv INTEGER (der_uint r) @ der_tlv INTEGER (der_uint s)"
  have c: "length ?c < 128"
  proof (rule ccontr)
    assume "\<not> length ?c < 128"
    then have "length (der_len (length ?c)) \<ge> 2" by (intro length_der_len) simp
    with \<open>\<not> length ?c < 128\<close> have "length (der_sig r s) \<ge> 131" unfolding der_sig_def der_tlv_def [of SEQUENCE] by simp
    with assms show False by simp
  qed
  then have l: "length (der_uint r) < 128" "length (der_uint s) < 128" by (auto simp: der_tlv_def)
  then have e: "der_tlv INTEGER (der_uint r) = 2 # of_nat (length (der_uint r)) # der_uint r"
      "der_tlv INTEGER (der_uint s) = 2 # of_nat (length (der_uint s)) # der_uint s"
    by (simp_all add: der_tlv_def der_len_def INTEGER_def)
  with c have n: "length ?c = 4 + length (der_uint r) + length (der_uint s)" by simp
  have "der_sig r s = 0x30 # of_nat (length ?c) # ?c"
    unfolding der_sig_def der_tlv_def [of SEQUENCE] using c by (simp add: der_len_def SEQUENCE_def)
  moreover have "unat (of_nat (length ?c) :: byte) = length ?c"
    unfolding unat_of_nat_byte using c by simp
  ultimately show ?thesis using e n c by (intro exI [of _ "of_nat (length ?c)"]) simp
qed

lemma der_uint_nonempty [simp]: "der_uint n \<noteq> []"
  using hd_min_be [of n] by (simp add: der_uint_def)

section \<open>Properties\<close>

text \<open>
  The element reader accepts exactly the DER encodings with a single-byte tag: \<open>readTlv\<close> returns an element precisely when the
  input begins with that tag, the shortest length octets (a content below 2^32 bytes) and the content.
\<close>

theorem readTlv_exact:
  "readTlv s = Some t \<longleftrightarrow>
     (t_tag t) AND 0x1f \<noteq> 0x1f \<and> length (t_body t) < 256 ^ 4 \<and> s = der_raw t @ t_rest t"
  by (rule readTlv_iff)

text \<open>
  C33. The strict signature reader has no malleability: the pair (r, s) has exactly one byte string that it accepts, the canonical
  SEQUENCE of the two minimal non-negative INTEGERs.
\<close>

theorem strict_unique_encoding:
  "strictEcdsaSignature sig = Some (r, s) \<longleftrightarrow>
     sig = der_sig r s \<and> length (der_tlv INTEGER (der_uint r) @ der_tlv INTEGER (der_uint s)) < 256 ^ 4"
  by (rule strict_iff)

text \<open>
  The lax reader extends the strict one: every signature of at most 129 bytes (the short-form lengths, which cover every curve the
  verifier supports) that the strict reader accepts is read by the lax reader as the same (r, s), whatever bytes are appended to it.
\<close>

theorem lax_extends_strict:
  assumes "strictEcdsaSignature sig = Some (r, s)" and "length sig \<le> 129"
  shows "laxSecp256k1Signature (sig @ junk) = Some (r, s)"
proof -
  from assms(1) have sig: "sig = der_sig r s" by (simp add: strict_iff)
  with assms(2) der_sig_short obtain n where n: "sig = [0x30, n, 2, of_nat (length (der_uint r))] @ der_uint r @
      [2, of_nat (length (der_uint s))] @ der_uint s" "unat n = 4 + length (der_uint r) + length (der_uint s)" "unat n < 128"
    by blast
  have "laxSecp256k1Signature ([0x30, n, 2, of_nat (length (der_uint r))] @ der_uint r @
      [2, of_nat (length (der_uint s))] @ der_uint s @ junk) = Some (be_nat (der_uint r), be_nat (der_uint s))"
    by (rule lax_form) (use n in simp_all)
  then show ?thesis by (simp add: n(1) be_nat_der_uint)
qed

theorem lax_extends_strict_witness:
  "strictEcdsaSignature [0x30, 6, 2, 1, 5, 2, 1, 7] = Some (5, 7) \<and>
   laxSecp256k1Signature ([0x30, 6, 2, 1, 5, 2, 1, 7] @ [0xff]) = Some (5, 7)"
proof -
  have s: "strictEcdsaSignature [0x30, 6, 2, 1, 5, 2, 1, 7] = Some (5, 7)" by code_simp
  show ?thesis using s lax_extends_strict [OF s, of "[0xff]"] by simp
qed

text \<open>
  An accepted RSA key is in range: the modulus is positive and the exponent lies between 1 and 2^31 - 1, and nothing follows the key.
\<close>

theorem parsePkcs1Rsa_bounds:
  assumes "parsePkcs1Rsa der = Some (n, e)"
  shows "0 < n \<and> 0 < e \<and> e < 2 ^ 31 \<and> (\<exists>body. der = der_tlv SEQUENCE body)"
  using assms by (auto simp: parsePkcs1Rsa_def Let_def readTlv_iff der_raw_def split: option.splits if_splits)

theorem parsePkcs1Rsa_bounds_witness:
  "(0::int) < 33 \<and> (0::int) < 3 \<and> (3::int) < 2 ^ 31 \<and> (\<exists>body. [0x30, 6, 2, 1, 33, 2, 1, 3] = der_tlv SEQUENCE body)"
proof -
  have "parsePkcs1Rsa [0x30, 6, 2, 1, 33, 2, 1, 3] = Some (33, 3)" by code_simp
  from parsePkcs1Rsa_bounds [OF this] show ?thesis .
qed

end
