(* ===== verification/Hex.thy ===== *)
theory Hex
  imports Prelude
begin

text \<open>
  Parsed JSON and the hexadecimal readers and writers of \<open>packages/verify/src/proof-v2/bytes.ts\<close>. The label a message
  carries is not modelled: an error says what was wrong, not where. A string is a list of characters; the readers here accept
  only ASCII, so a string with any other character is refused by both.
\<close>

section \<open>Values handed to the verifier\<close>

text \<open>
  \<open>JInt\<close> is a whole number, \<open>JFrac\<close> any other number (no code modelled here looks at its value). The importer marks a receipt it could
  not decode with the symbol-keyed member \<open>UNDECODABLE\<close>, which no JSON text can spell. The importer keeps the exact value of a member above
  2^53 beside the object, in a table keyed by the object (\<open>exactUints\<close> of \<open>s3/nodejson.ts\<close>); here it is a member \<open>Exact name\<close>.
\<close>

datatype jkey = Key string | UNDECODABLE | Exact string

datatype json =
    JUndefined
  | JNull
  | JBool bool
  | JInt int
  | JFrac
  | JStr string
  | JArr "json list"
  | JObj "(jkey \<times> json) list"

text \<open>\<open>x.name\<close> on a value that is neither null nor undefined; on those two JavaScript throws a \<open>TypeError\<close>.\<close>

fun member :: "jkey \<Rightarrow> json \<Rightarrow> json" where
  "member k (JObj ms) = (case map_of ms k of None \<Rightarrow> JUndefined | Some v \<Rightarrow> v)"
| "member k _ = JUndefined"

fun nullish :: "json \<Rightarrow> bool" where
  "nullish JUndefined = True"
| "nullish JNull = True"
| "nullish _ = False"

text \<open>\<open>!j || typeof j !== 'object'\<close> is \<open>\<not> isObject j\<close>.\<close>

fun isObject :: "json \<Rightarrow> bool" where
  "isObject (JArr _) = True"
| "isObject (JObj _) = True"
| "isObject _ = False"

text \<open>\<open>!j\<close> for the values a document holds (zero and the empty string are falsy too).\<close>

fun falsy :: "json \<Rightarrow> bool" where
  "falsy JUndefined = True"
| "falsy JNull = True"
| "falsy (JBool b) = (\<not> b)"
| "falsy (JInt n) = (n = 0)"
| "falsy (JStr s) = (s = [])"
| "falsy _ = False"

datatype verify_error =
    NotHexString
  | InvalidHex
  | WrongLength nat nat
  | PendingNotList
  | NotReceipt
  | ReceiptOutOfOrder
  | EntriesNotList
  | CountNotWhole
  | RootProofMissing
  | RootProofIncomplete
  | InvalidRootProof
  | JsTypeError

section \<open>Hexadecimal\<close>

definition lowerChar :: "char \<Rightarrow> char" where
  "lowerChar c = (let n = (of_char c :: nat) in if 65 \<le> n \<and> n \<le> 90 then char_of (n + 32) else c)"

definition hexVal :: "char \<Rightarrow> nat option" where
  "hexVal c =
     (let n = (of_char c :: nat) in
      if 48 \<le> n \<and> n \<le> 57 then Some (n - 48)
      else if 97 \<le> n \<and> n \<le> 102 then Some (n - 87)
      else None)"

definition hexDigit :: "nat \<Rightarrow> char" where
  "hexDigit n = char_of (if n < 10 then 48 + n else 87 + n)"

text \<open>\<open>fromHex\<close>: an even number of lower-case hex digits as bytes (the test on the string and \<open>Buffer.from(t, 'hex')\<close>).\<close>

fun fromHex :: "string \<Rightarrow> bytes option" where
  "fromHex [] = Some []"
| "fromHex [c] = None"
| "fromHex (c # d # s) =
     (case (hexVal c, hexVal d, fromHex s) of
        (Some x, Some y, Some b) \<Rightarrow> Some (of_nat (x * 16 + y) # b)
      | _ \<Rightarrow> None)"

definition strip0x :: "string \<Rightarrow> string" where
  "strip0x t = (if take 2 t = ''0x'' then drop 2 t else t)"

fun hexBytes :: "json \<Rightarrow> nat option \<Rightarrow> verify_error + bytes" where
  "hexBytes (JStr s) len =
     (case fromHex (strip0x (map lowerChar s)) of
        None \<Rightarrow> Inl InvalidHex
      | Some b \<Rightarrow>
          (case len of
             None \<Rightarrow> Inr b
           | Some n \<Rightarrow> if length b \<noteq> n then Inl (WrongLength (length b) n) else Inr b))"
| "hexBytes _ len = Inl NotHexString"

text \<open>\<open>goHexStrict\<close>: no prefix is stripped.\<close>

fun goHexStrict :: "json \<Rightarrow> nat option \<Rightarrow> verify_error + bytes" where
  "goHexStrict (JStr s) len =
     (case fromHex (map lowerChar s) of
        None \<Rightarrow> Inl InvalidHex
      | Some b \<Rightarrow>
          (case len of
             None \<Rightarrow> Inr b
           | Some n \<Rightarrow> if length b \<noteq> n then Inl (WrongLength (length b) n) else Inr b))"
| "goHexStrict _ len = Inl NotHexString"

definition toHex :: "bytes \<Rightarrow> string" where
  "toHex b = concat (map (\<lambda>x. [hexDigit (unat x div 16), hexDigit (unat x mod 16)]) b)"

text \<open>\<open>equal\<close>, which is false when either side is undefined.\<close>

fun equalB :: "bytes option \<Rightarrow> bytes option \<Rightarrow> bool" where
  "equalB (Some a) (Some b) = (length a = length b \<and> list_all2 (=) a b)"
| "equalB _ _ = False"

lemma equalB_iff [simp]: "equalB (Some a) (Some b) \<longleftrightarrow> a = b"
  by (simp add: list.rel_eq) (metis)

declare equalB.simps(1) [simp del]

section \<open>Variable-length integers\<close>

function uvarint :: "int \<Rightarrow> bytes" where
  "uvarint x = (if x \<ge> 0x80 then of_int (x mod 0x80 + 0x80) # uvarint (x div 0x80) else [of_int x])"
  by pat_completeness auto
termination
  by (relation "measure nat") auto

declare uvarint.simps [simp del]

section \<open>Round trips\<close>

lemma hexDigit_code: "n < 16 \<Longrightarrow> (of_char (hexDigit n) :: nat) = (if n < 10 then 48 + n else 87 + n)"
  by (simp add: hexDigit_def)

lemma hexVal_hexDigit [simp]: "n < 16 \<Longrightarrow> hexVal (hexDigit n) = Some n"
  by (simp add: hexVal_def hexDigit_code)

lemma lowerChar_hexDigit [simp]: "n < 16 \<Longrightarrow> lowerChar (hexDigit n) = hexDigit n"
  by (simp add: lowerChar_def hexDigit_code Let_def)

lemma nibble_less: "unat (x :: byte) div 16 < 16"
  using unat_byte_less [of x] by (simp add: less_mult_imp_div_less del: unat_byte_less)

lemma map_lower_toHex [simp]: "map lowerChar (toHex b) = toHex b"
  by (induction b) (simp_all add: toHex_def nibble_less)

lemma fromHex_toHex [simp]: "fromHex (toHex b) = Some b"
proof (induction b)
  case (Cons x b)
  have "of_nat (unat x div 16 * 16 + unat x mod 16) = x"
    by (simp only: div_mult_mod_eq) (rule unsigned_word_eqI [where 'a = nat], simp)
  with Cons show ?case by (simp add: toHex_def nibble_less)
qed (simp add: toHex_def)

lemma toHex_inj: "toHex a = toHex b \<longleftrightarrow> a = b"
  by (metis fromHex_toHex option.inject)

lemma strip0x_toHex [simp]: "strip0x (toHex b) = toHex b"
proof (cases b)
  case (Cons x c)
  have "hexDigit n \<noteq> CHR ''x''" if "n < 16" for n
  proof
    assume "hexDigit n = CHR ''x''"
    then have "(of_char (hexDigit n) :: nat) = 120" by simp
    with hexDigit_code [OF that] that show False by (auto split: if_splits)
  qed
  then show ?thesis by (auto simp: Cons toHex_def strip0x_def)
qed (simp add: toHex_def strip0x_def)

text \<open>
  Hex round trip: what \<open>toHex\<close> writes, both readers read back - with or without the right expected length, and the tolerant reader
  with a \<open>0x\<close> in front of it too, which the strict reader refuses.
\<close>

theorem hex_roundtrip:
  "hexBytes (JStr (toHex b)) None = Inr b \<and> hexBytes (JStr (toHex b)) (Some (length b)) = Inr b \<and>
   goHexStrict (JStr (toHex b)) None = Inr b \<and> hexBytes (JStr (''0x'' @ toHex b)) None = Inr b \<and>
   goHexStrict (JStr (''0x'' @ toHex b)) None = Inl InvalidHex"
proof -
  have low: "lowerChar (CHR ''0'') = CHR ''0''" "lowerChar (CHR ''x'') = CHR ''x''" "hexVal (CHR ''x'') = None"
    by (simp_all add: lowerChar_def hexVal_def Let_def)
  show ?thesis
    by (simp add: low strip0x_def [of "CHR ''0'' # _"] split: option.splits)
qed

end
