(* ===== verification/Merkle.thy ===== *)
theory Merkle
  imports Hex
begin

text \<open>
  The Merkle accumulator, receipts and root proofs of \<open>packages/verify/src/proof-v2/bytes.ts\<close>. \<open>sha256\<close> is the one of
  \<open>node:crypto\<close>, the parameter \<open>H\<close>; \<open>sha256(a, b)\<close> is \<open>H (a @ b)\<close>. The count of a state is a whole JavaScript number,
  an \<open>int\<close> here (exact below 2^53).
\<close>

section \<open>The accumulator\<close>

record merkle_state =
  pending :: "bytes option list"
  count :: int

text \<open>The loop of \<open>addEntry\<close>: the first free slot takes the hash, every full slot before it is combined and freed.\<close>

fun carry :: "(bytes \<Rightarrow> bytes) \<Rightarrow> bytes option list \<Rightarrow> bytes \<Rightarrow> bytes option list" where
  "carry H [] hash = []"
| "carry H (None # ps) hash = Some hash # ps"
| "carry H (Some v # ps) hash = None # carry H ps (H (v @ hash))"

definition addEntry :: "(bytes \<Rightarrow> bytes) \<Rightarrow> merkle_state \<Rightarrow> bytes \<Rightarrow> merkle_state" where
  "addEntry H s h =
     (let p = (if length (pending s) = 0 \<or> last (pending s) \<noteq> None then pending s @ [None] else pending s)
      in \<lparr>pending = carry H p h, count = count s + 1\<rparr>)"

definition anchorStep :: "(bytes \<Rightarrow> bytes) \<Rightarrow> bytes option \<Rightarrow> bytes option \<Rightarrow> bytes option" where
  "anchorStep H anchor v =
     (case anchor of
        None \<Rightarrow> v
      | Some a \<Rightarrow> (case v of None \<Rightarrow> Some a | Some x \<Rightarrow> Some (H (x @ a))))"

lemma anchorStep_simps [simp]:
  "anchorStep H None v = v" "anchorStep H (Some a) None = Some a" "anchorStep H (Some a) (Some x) = Some (H (x @ a))"
  by (simp_all add: anchorStep_def)

definition anchor :: "(bytes \<Rightarrow> bytes) \<Rightarrow> merkle_state \<Rightarrow> bytes option" where
  "anchor H s = (if count s = 0 then None else foldl (anchorStep H) None (pending s))"

definition newMerkleState :: merkle_state where
  "newMerkleState = \<lparr>pending = [], count = 0\<rparr>"

definition merkleHashList :: "(bytes \<Rightarrow> bytes) \<Rightarrow> bytes list \<Rightarrow> bytes" where
  "merkleHashList H leaves =
     (if length leaves = 0 then replicate 32 0
      else case anchor H (foldl (addEntry H) newMerkleState leaves) of None \<Rightarrow> replicate 32 0 | Some a \<Rightarrow> a)"

section \<open>Receipts\<close>

record receipt_entry =
  re_hash :: bytes
  re_right :: bool

record receipt =
  rc_start :: bytes
  rc_anchor :: bytes
  rc_entries :: "receipt_entry list"

definition applyEntry :: "(bytes \<Rightarrow> bytes) \<Rightarrow> receipt_entry \<Rightarrow> bytes \<Rightarrow> bytes" where
  "applyEntry H e h = (if re_right e then H (h @ re_hash e) else H (re_hash e @ h))"

definition foldReceipt :: "(bytes \<Rightarrow> bytes) \<Rightarrow> bytes \<Rightarrow> receipt_entry list \<Rightarrow> bytes" where
  "foldReceipt H h es = foldl (\<lambda>h e. applyEntry H e h) h es"

definition receiptValid :: "(bytes \<Rightarrow> bytes) \<Rightarrow> receipt \<Rightarrow> bool" where
  "receiptValid H r \<longleftrightarrow> foldReceipt H (rc_start r) (rc_entries r) = rc_anchor r"

text \<open>The loop of \<open>receiptPrefixTo\<close>: the value after \<open>i\<close> steps is compared first, then the step is taken.\<close>

fun prefixLoop :: "(bytes \<Rightarrow> bytes) \<Rightarrow> receipt \<Rightarrow> bytes \<Rightarrow> bytes \<Rightarrow> nat \<Rightarrow> receipt_entry list \<Rightarrow> receipt option" where
  "prefixLoop H r val h i [] =
     (if h = val then Some \<lparr>rc_start = rc_start r, rc_anchor = h, rc_entries = take i (rc_entries r)\<rparr> else None)"
| "prefixLoop H r val h i (e # es) =
     (if h = val then Some \<lparr>rc_start = rc_start r, rc_anchor = h, rc_entries = take i (rc_entries r)\<rparr>
      else prefixLoop H r val (applyEntry H e h) (i + 1) es)"

definition receiptPrefixTo :: "(bytes \<Rightarrow> bytes) \<Rightarrow> receipt \<Rightarrow> bytes \<Rightarrow> receipt option" where
  "receiptPrefixTo H r val = prefixLoop H r val (rc_start r) 0 (rc_entries r)"

section \<open>Reading them from JSON\<close>

definition pendingEntry :: "json \<Rightarrow> verify_error + bytes option" where
  "pendingEntry p = (if p = JNull then Inr None else bindE (hexBytes p (Some 32)) (\<lambda>b. Inr (Some b)))"

definition merkleStateFromJSON :: "json \<Rightarrow> int \<Rightarrow> verify_error + merkle_state" where
  "merkleStateFromJSON p n =
     (if p = JUndefined \<or> p = JNull then Inr \<lparr>pending = [], count = n\<rparr>
      else case p of
        JArr ps \<Rightarrow> bindE (mapE pendingEntry ps) (\<lambda>qs. Inr \<lparr>pending = qs, count = n\<rparr>)
      | _ \<Rightarrow> Inl PendingNotList)"

fun merkleCount :: "json \<Rightarrow> verify_error + int" where
  "merkleCount JUndefined = Inr 0"
| "merkleCount JNull = Inr 0"
| "merkleCount (JInt n) = Inr n"
| "merkleCount _ = Inl CountNotWhole"

definition receiptEntryFromJSON :: "json \<Rightarrow> verify_error + receipt_entry" where
  "receiptEntryFromJSON e =
     (if nullish e then Inl JsTypeError
      else bindE (hexBytes (member (Key ''hash'') e) None) (\<lambda>h.
             Inr \<lparr>re_hash = h, re_right = (member (Key ''right'') e = JBool True)\<rparr>))"

definition receiptFromJSON :: "json \<Rightarrow> verify_error + receipt" where
  "receiptFromJSON j =
     (if \<not> isObject j then Inl NotReceipt
      else if \<not> falsy (member UNDECODABLE j) then Inl ReceiptOutOfOrder
      else
        let entries = (if nullish (member (Key ''entries'') j) then JArr [] else member (Key ''entries'') j) in
        case entries of
          JArr es \<Rightarrow>
            bindE (hexBytes (member (Key ''start'') j) None) (\<lambda>s.
            bindE (hexBytes (member (Key ''anchor'') j) None) (\<lambda>a.
            bindE (mapE receiptEntryFromJSON es) (\<lambda>xs.
              Inr \<lparr>rc_start = s, rc_anchor = a, rc_entries = xs\<rparr>)))
        | _ \<Rightarrow> Inl EntriesNotList)"

section \<open>Root proofs\<close>

text \<open>The loop over the elements: every element is read and added, the last one is kept.\<close>

fun addElements ::
  "(bytes \<Rightarrow> bytes) \<Rightarrow> merkle_state \<Rightarrow> bytes option \<Rightarrow> json list \<Rightarrow> verify_error + merkle_state \<times> bytes option" where
  "addElements H work lst [] = Inr (work, lst)"
| "addElements H work lst (e # es) =
     bindE (hexBytes e None) (\<lambda>b.
       if length b \<noteq> 32 then Inl InvalidRootProof else addElements H (addEntry H work b) (Some b) es)"

definition validateReceiptList :: "(bytes \<Rightarrow> bytes) \<Rightarrow> json \<Rightarrow> merkle_state \<Rightarrow> verify_error + bytes" where
  "validateReceiptList H rl state =
     (case member (Key ''elements'') rl of
        JArr es \<Rightarrow>
          if length es = 0 then Inl InvalidRootProof
          else
            bindE (addElements H state None es) (\<lambda>(work, lst).
            bindE (receiptFromJSON (member (Key ''receipt'') rl)) (\<lambda>receipt.
              case anchor H work of
                None \<Rightarrow> Inl InvalidRootProof
              | Some a \<Rightarrow>
                  if \<not> equalB lst (Some (rc_start receipt)) \<or> rc_anchor receipt \<noteq> a \<or> \<not> receiptValid H receipt
                  then Inl InvalidRootProof
                  else if nullish (member (Key ''continuedReceipt'') rl) then Inr a
                  else bindE (receiptFromJSON (member (Key ''continuedReceipt'') rl)) (\<lambda>c.
                         if a \<noteq> rc_start c \<or> \<not> receiptValid H c then Inl InvalidRootProof else Inr a)))
      | _ \<Rightarrow> Inl InvalidRootProof)"

text \<open>\<open>receiptListParts\<close>: where the proof starts, where its receipt ends (empty when it does not decode), and the judgement itself.\<close>

record list_parts =
  lp_start :: bytes
  lp_anchor :: bytes
  lp_validate :: "verify_error + bytes"

definition receiptListParts :: "(bytes \<Rightarrow> bytes) \<Rightarrow> json \<Rightarrow> verify_error + list_parts" where
  "receiptListParts H j =
     (if \<not> isObject j then Inl RootProofMissing
      else
        let ms = member (Key ''merkleState'') j in
        if falsy ms \<or> falsy (member (Key ''receipt'') j) then Inl RootProofIncomplete
        else
          bindE (merkleCount (member (Key ''count'') ms)) (\<lambda>n.
          bindE (merkleStateFromJSON (member (Key ''pending'') ms) n) (\<lambda>state.
            Inr \<lparr>lp_start = (case anchor H state of None \<Rightarrow> [] | Some a \<Rightarrow> a),
                 lp_anchor = (case receiptFromJSON (member (Key ''receipt'') j) of Inl _ \<Rightarrow> [] | Inr r \<Rightarrow> rc_anchor r),
                 lp_validate = validateReceiptList H j state\<rparr>)))"

definition receiptListValid :: "(bytes \<Rightarrow> bytes) \<Rightarrow> json \<Rightarrow> verify_error + bytes \<times> bytes \<times> bytes" where
  "receiptListValid H j =
     bindE (receiptListParts H j) (\<lambda>p. bindE (lp_validate p) (\<lambda>e. Inr (lp_start p, lp_anchor p, e)))"

section \<open>The reference: the root of a list of leaves\<close>

text \<open>The largest power of two below \<open>n\<close> (for two leaves or more), where the tree over \<open>n\<close> leaves is cut.\<close>

fun pow2_below :: "nat \<Rightarrow> nat" where
  "pow2_below n = (if n \<le> 2 then 1 else 2 * pow2_below ((n + 1) div 2))"

declare pow2_below.simps [simp del]

lemma pow2_below: "2 \<le> n \<Longrightarrow> \<exists>k. pow2_below n = 2 ^ k \<and> 2 ^ k < n \<and> n \<le> 2 * 2 ^ k"
proof (induction n rule: pow2_below.induct)
  case (1 n)
  show ?case
  proof (cases "n \<le> 2")
    case True
    with 1 show ?thesis by (intro exI [of _ 0]) (simp add: pow2_below.simps)
  next
    case False
    then have "2 \<le> (n + 1) div 2" by simp
    from "1.IH" [OF False this] obtain k
      where "pow2_below ((n + 1) div 2) = 2 ^ k" "2 ^ k < (n + 1) div 2" "(n + 1) div 2 \<le> 2 * 2 ^ k" by blast
    with False show ?thesis by (intro exI [of _ "Suc k"]) (simp add: pow2_below.simps [of n], linarith)
  qed
qed

lemma pow2_below_eq:
  assumes "2 ^ k < n" and "n \<le> 2 * 2 ^ k"
  shows "pow2_below n = 2 ^ k"
proof -
  have "1 \<le> (2::nat) ^ k" by simp
  with assms have "2 \<le> n" by linarith
  then obtain j where j: "pow2_below n = 2 ^ j" "2 ^ j < n" "n \<le> 2 * 2 ^ j" using pow2_below by blast
  have "(2::nat) ^ j < 2 ^ Suc k" "(2::nat) ^ k < 2 ^ Suc j" using assms j by simp_all
  then have "j < Suc k" "k < Suc j" by (simp_all only: power_strict_increasing_iff one_less_numeral_iff semiring_norm)
  with j show ?thesis by simp
qed

function mth :: "(bytes \<Rightarrow> bytes) \<Rightarrow> bytes list \<Rightarrow> bytes" where
  "mth H xs =
     (if length xs < 2 then (case xs of [] \<Rightarrow> replicate 32 0 | x # _ \<Rightarrow> x)
      else H (mth H (take (pow2_below (length xs)) xs) @ mth H (drop (pow2_below (length xs)) xs)))"
  by pat_completeness auto
termination
proof (relation "measure (\<lambda>(H, xs). length xs)")
  fix H and xs :: "bytes list"
  assume "\<not> length xs < 2"
  then obtain k where k: "pow2_below (length xs) = 2 ^ k" "2 ^ k < length xs" using pow2_below [of "length xs"] by auto
  then have "length xs - 2 ^ k < length xs" by (intro diff_less) auto
  with k show "((H, take (pow2_below (length xs)) xs), H, xs) \<in> measure (\<lambda>(H, xs). length xs)"
    and "((H, drop (pow2_below (length xs)) xs), H, xs) \<in> measure (\<lambda>(H, xs). length xs)" by simp_all
qed simp

declare mth.simps [simp del]

lemma mth_single [simp]: "mth H [x] = x"
  by (simp add: mth.simps)

lemma mth_append:
  assumes "length a = 2 ^ k" and "b \<noteq> []" and "length b \<le> 2 ^ k"
  shows "mth H (a @ b) = H (mth H a @ mth H b)"
proof -
  have "0 < length b" using assms(2) by simp
  then have "pow2_below (length (a @ b)) = 2 ^ k" using assms by (intro pow2_below_eq) simp_all
  moreover have "1 \<le> (2::nat) ^ k" by simp
  with \<open>0 < length b\<close> have "\<not> 2 ^ k + length b < 2" by linarith
  then have "\<not> length (a @ b) < 2" using assms(1) by simp
  ultimately show ?thesis using assms(1) by (subst mth.simps) simp
qed


section \<open>The accumulator computes the reference\<close>

text \<open>
  \<open>repr H k ps xs\<close>: the slots \<open>ps\<close> from level \<open>k\<close> on hold, from the last leaves to the first, the roots of perfect trees of
  \<open>2 ^ k\<close>, \<open>2 ^ (k + 1)\<close>, ... leaves, which together are the leaves \<open>xs\<close>.
\<close>

fun repr :: "(bytes \<Rightarrow> bytes) \<Rightarrow> nat \<Rightarrow> bytes option list \<Rightarrow> bytes list \<Rightarrow> bool" where
  "repr H k [] xs \<longleftrightarrow> xs = []"
| "repr H k (None # ps) xs \<longleftrightarrow> repr H (Suc k) ps xs"
| "repr H k (Some v # ps) xs \<longleftrightarrow>
     (\<exists>ys zs. xs = ys @ zs \<and> length zs = 2 ^ k \<and> v = mth H zs \<and> repr H (Suc k) ps ys)"

lemma carry_repr:
  assumes "repr H k ps xs" and "None \<in> set ps" and "length zs = 2 ^ k" and "h = mth H zs"
  shows "repr H k (carry H ps h) (xs @ zs)"
  using assms
proof (induction H ps h arbitrary: k xs zs rule: carry.induct)
  case (3 H v ps h)
  then obtain ys ws where ys: "xs = ys @ ws" "length ws = 2 ^ k" "v = mth H ws" "repr H (Suc k) ps ys" by auto
  have "zs \<noteq> []" using "3.prems"(3) by auto
  then have "mth H (ws @ zs) = H (v @ h)" using ys "3.prems" by (simp add: mth_append)
  with "3.IH" [of "Suc k" ys "ws @ zs"] ys "3.prems" show ?case by simp
qed auto

lemma repr_None: "repr H k (ps @ [None]) xs = repr H k ps xs"
  by (induction H k ps xs rule: repr.induct) auto

lemma anchor_foldl_Some:
  "repr H k ps xs \<Longrightarrow> zs \<noteq> [] \<Longrightarrow> length zs \<le> 2 ^ k \<Longrightarrow>
     foldl (anchorStep H) (Some (mth H zs)) ps = Some (mth H (xs @ zs))"
proof (induction H k ps xs arbitrary: zs rule: repr.induct)
  case (2 H k ps xs)
  then have "length zs \<le> 2 ^ Suc k" by simp
  with 2 show ?case by simp
next
  case (3 H k v ps xs)
  then obtain ys ws where ys: "xs = ys @ ws" "length ws = 2 ^ k" "v = mth H ws" "repr H (Suc k) ps ys" by auto
  have "mth H (ws @ zs) = H (v @ mth H zs)" using ys "3.prems" by (simp add: mth_append)
  with "3.IH" [of ys "ws @ zs"] ys "3.prems" show ?case by simp
qed simp

lemma anchor_foldl_None:
  "repr H k ps xs \<Longrightarrow> foldl (anchorStep H) None ps = (if xs = [] then None else Some (mth H xs))"
proof (induction H k ps xs rule: repr.induct)
  case (3 H k v ps xs)
  then obtain ys ws where ys: "xs = ys @ ws" "length ws = 2 ^ k" "v = mth H ws" "repr H (Suc k) ps ys" by auto
  then have "ws \<noteq> []" by auto
  with ys anchor_foldl_Some [OF ys(4), of ws] show ?case by simp
qed simp_all

definition represents :: "(bytes \<Rightarrow> bytes) \<Rightarrow> merkle_state \<Rightarrow> bytes list \<Rightarrow> bool" where
  "represents H s xs \<longleftrightarrow> repr H 0 (pending s) xs \<and> count s = int (length xs)"

lemma addEntry_represents: "represents H s xs \<Longrightarrow> represents H (addEntry H s h) (xs @ [h])"
  by (auto simp: represents_def addEntry_def Let_def repr_None intro!: carry_repr dest: last_in_set split: if_splits)

interpretation accumulator: simulation "addEntry H" "\<lambda>xs h. xs @ [h]" "represents H" for H
  by unfold_locales (rule addEntry_represents)

lemma foldl_snoc: "foldl (\<lambda>xs h. xs @ [h]) a bs = a @ bs"
  by (induction bs arbitrary: a) simp_all

lemma accumulate_represents: "represents H s xs \<Longrightarrow> represents H (foldl (addEntry H) s hs) (xs @ hs)"
  using accumulator.run_rel [of H s xs hs] by (simp add: foldl_snoc)

lemma new_represents: "represents H newMerkleState []"
  by (simp add: represents_def newMerkleState_def)

lemma anchor_represents: "represents H s xs \<Longrightarrow> anchor H s = (if xs = [] then None else Some (mth H xs))"
  by (auto simp: represents_def anchor_def anchor_foldl_None)


section \<open>What a receipt hashes\<close>

definition stepInput :: "receipt_entry \<Rightarrow> bytes \<Rightarrow> bytes" where
  "stepInput e h = (if re_right e then h @ re_hash e else re_hash e @ h)"

fun hashed :: "(bytes \<Rightarrow> bytes) \<Rightarrow> bytes \<Rightarrow> receipt_entry list \<Rightarrow> bytes list" where
  "hashed H h [] = []"
| "hashed H h (e # es) = stepInput e h # hashed H (applyEntry H e h) es"

lemma applyEntry_stepInput: "applyEntry H e h = H (stepInput e h)"
  by (simp add: applyEntry_def stepInput_def)

lemma stepInput_inj:
  assumes "stepInput e h = stepInput f k" and "re_right e = re_right f" and "length h = length k"
  shows "h = k \<and> re_hash e = re_hash f"
  using assms by (auto simp: stepInput_def split: if_splits)

lemma foldReceipt_simps [simp]:
  "foldReceipt H h [] = h" "foldReceipt H h (e # es) = foldReceipt H (applyEntry H e h) es"
  by (simp_all add: foldReceipt_def)

lemma foldReceipt_append: "foldReceipt H h (es @ fs) = foldReceipt H (foldReceipt H h es) fs"
  by (simp add: foldReceipt_def)

lemma hashed_append: "hashed H h (a @ b) = hashed H h a @ hashed H (foldReceipt H h a) b"
  by (induction a arbitrary: h) simp_all

lemma fold_binding:
  assumes "\<And>x. length (H x) = 32" and "inj_on H (set (hashed H h es) \<union> set (hashed H k fs))"
    and "map re_right es = map re_right fs" and "length h = 32" and "length k = 32"
    and "foldReceipt H h es = foldReceipt H k fs"
  shows "h = k \<and> map re_hash es = map re_hash fs"
  using assms(2-6)
proof (induction es arbitrary: h k fs)
  case (Cons e es)
  then obtain f gs where fs: "fs = f # gs" "re_right e = re_right f" "map re_right es = map re_right gs" by (cases fs) auto
  have ih: "applyEntry H e h = applyEntry H f k \<and> map re_hash es = map re_hash gs"
  proof (rule Cons.IH)
    show "inj_on H (set (hashed H (applyEntry H e h) es) \<union> set (hashed H (applyEntry H f k) gs))"
      using Cons.prems(1) by (rule inj_on_subset) (auto simp: fs)
    show "map re_right es = map re_right gs" by (rule fs(3))
    show "length (applyEntry H e h) = 32" "length (applyEntry H f k) = 32"
      unfolding applyEntry_stepInput by (rule assms(1))+
    show "foldReceipt H (applyEntry H e h) es = foldReceipt H (applyEntry H f k) gs"
      using Cons.prems(5) by (simp add: fs)
  qed
  have "stepInput e h = stepInput f k"
    by (rule inj_onD [OF Cons.prems(1)])
      (use conjunct1 [OF ih] in \<open>simp_all only: applyEntry_stepInput fs hashed.simps list.set Un_iff insert_iff simp_thms\<close>)
  then have "h = k \<and> re_hash e = re_hash f"
    by (rule stepInput_inj) (simp_all only: fs Cons.prems)
  with ih show ?case by (simp add: fs)
qed simp

section \<open>Root proofs are sound\<close>

lemma addElements_Inr:
  assumes "addElements H work lst es = Inr (work', lst')"
  shows "\<exists>bs. mapE (\<lambda>e. hexBytes e None) es = Inr bs \<and> (\<forall>b \<in> set bs. length b = 32) \<and>
           work' = foldl (addEntry H) work bs \<and> lst' = (if bs = [] then lst else Some (last bs))"
  using assms
proof (induction es arbitrary: work lst)
  case (Cons e es)
  then obtain b where b: "hexBytes e None = Inr b" "length b = 32"
      "addElements H (addEntry H work b) (Some b) es = Inr (work', lst')"
    by (auto simp: results split: if_splits)
  from Cons.IH [OF b(3)] obtain bs where "mapE (\<lambda>e. hexBytes e None) es = Inr bs" "\<forall>b \<in> set bs. length b = 32"
      "work' = foldl (addEntry H) (addEntry H work b) bs" "lst' = (if bs = [] then Some b else Some (last bs))" by blast
  with b show ?case by (intro exI [of _ "b # bs"]) simp
qed simp

section \<open>Prefixes\<close>

lemma prefixLoop_spec:
  "i + length es = length (rc_entries r) \<Longrightarrow> drop i (rc_entries r) = es \<Longrightarrow>
   h = foldReceipt H (rc_start r) (take i (rc_entries r)) \<Longrightarrow>
   prefixLoop H r val h i es = Some p \<longleftrightarrow>
     (\<exists>j \<ge> i. j \<le> length (rc_entries r) \<and> foldReceipt H (rc_start r) (take j (rc_entries r)) = val \<and>
        (\<forall>m. i \<le> m \<and> m < j \<longrightarrow> foldReceipt H (rc_start r) (take m (rc_entries r)) \<noteq> val) \<and>
        p = \<lparr>rc_start = rc_start r, rc_anchor = val, rc_entries = take j (rc_entries r)\<rparr>)"
proof (induction H r val h i es rule: prefixLoop.induct)
  case (1 H r val h i)
  then have "i = length (rc_entries r)" by simp
  with 1 show ?case by (auto intro!: exI [of _ i])
next
  case (2 H r val h i e es)
  have e: "e = rc_entries r ! i" "i < length (rc_entries r)"
    using 2(3) by (metis drop_eq_Nil list.discI linorder_not_le nth_via_drop)+
  then have step: "applyEntry H e h = foldReceipt H (rc_start r) (take (i + 1) (rc_entries r))"
    using 2(4) by (simp add: take_Suc_conv_app_nth foldReceipt_def)
  have d: "drop (i + 1) (rc_entries r) = es" using 2(3) by (metis add.commute drop_drop list.sel(3) drop_Suc plus_1_eq_Suc tl_drop)
  show ?case
  proof (cases "h = val")
    case True
    then show ?thesis using e(2) 2(4) by (auto intro!: exI [of _ i]) (metis le_neq_implies_less le_refl)+
  next
    case False
    with 2(1) [OF False _ d step] 2(2) have "prefixLoop H r val h i (e # es) = Some p \<longleftrightarrow>
      (\<exists>j \<ge> i + 1. j \<le> length (rc_entries r) \<and> foldReceipt H (rc_start r) (take j (rc_entries r)) = val \<and>
        (\<forall>m. i + 1 \<le> m \<and> m < j \<longrightarrow> foldReceipt H (rc_start r) (take m (rc_entries r)) \<noteq> val) \<and>
        p = \<lparr>rc_start = rc_start r, rc_anchor = val, rc_entries = take j (rc_entries r)\<rparr>)" by simp
    also have "\<dots> \<longleftrightarrow> (\<exists>j \<ge> i. j \<le> length (rc_entries r) \<and> foldReceipt H (rc_start r) (take j (rc_entries r)) = val \<and>
        (\<forall>m. i \<le> m \<and> m < j \<longrightarrow> foldReceipt H (rc_start r) (take m (rc_entries r)) \<noteq> val) \<and>
        p = \<lparr>rc_start = rc_start r, rc_anchor = val, rc_entries = take j (rc_entries r)\<rparr>)"
      using False 2(4) by (metis Suc_eq_plus1 Suc_leD Suc_leI le_neq_implies_less)
    finally show ?thesis .
  qed
qed

section \<open>Properties\<close>

text \<open>
  C32. The accumulator is the Merkle tree: adding any leaves to an empty state and taking its anchor gives the root of the tree over
  them that is cut at the largest power of two below the number of leaves (32 zero bytes for no leaf).
\<close>

theorem merkleHashList_is_tree_root: "merkleHashList H leaves = mth H leaves"
proof (cases "leaves = []")
  case True
  then show ?thesis by (simp add: merkleHashList_def mth.simps)
next
  case False
  have "represents H (foldl (addEntry H) newMerkleState leaves) leaves"
    using accumulate_represents [OF new_represents, of H leaves] by simp
  from anchor_represents [OF this] False show ?thesis by (simp add: merkleHashList_def)
qed

text \<open>
  A valid receipt binds its start to its anchor: two receipts with the same anchor and the same sides start at the same hash and pass
  the same siblings, unless the hash collides on what the two receipts hash.
\<close>

theorem receipt_binds_start:
  assumes "receiptValid H r1" and "receiptValid H r2" and "rc_anchor r1 = rc_anchor r2"
    and "map re_right (rc_entries r1) = map re_right (rc_entries r2)"
    and "length (rc_start r1) = 32" and "length (rc_start r2) = 32" and "\<And>x. length (H x) = 32"
    and "inj_on H (set (hashed H (rc_start r1) (rc_entries r1)) \<union> set (hashed H (rc_start r2) (rc_entries r2)))"
  shows "rc_start r1 = rc_start r2 \<and> map re_hash (rc_entries r1) = map re_hash (rc_entries r2)"
  using assms by (intro fold_binding [of H]) (simp_all add: receiptValid_def)

theorem receipt_binds_start_witness:
  "rc_start \<lparr>rc_start = replicate 32 1, rc_anchor = replicate 32 9, rc_entries = [\<lparr>re_hash = [2], re_right = True\<rparr>]\<rparr> = replicate 32 1
   \<and> map re_hash [\<lparr>re_hash = [2], re_right = True\<rparr>] = [[2]]"
proof -
  let ?H = "\<lambda>x :: bytes. replicate 32 (9 :: byte)"
  let ?r = "\<lparr>rc_start = replicate 32 1, rc_anchor = replicate 32 9, rc_entries = [\<lparr>re_hash = [2], re_right = True\<rparr>]\<rparr> :: receipt"
  have v: "receiptValid ?H ?r" by (simp add: receiptValid_def applyEntry_def)
  have "rc_start ?r = rc_start ?r \<and> map re_hash (rc_entries ?r) = map re_hash (rc_entries ?r)"
    by (rule receipt_binds_start [OF v v]) (simp_all add: inj_on_def)
  then show ?thesis by simp
qed

text \<open>
  A prefix of a receipt is found exactly where the value occurs: \<open>receiptPrefixTo\<close> returns the steps up to the first intermediate
  value equal to the one asked for, as a valid receipt ending there, and nothing when no intermediate value is it.
\<close>

theorem receiptPrefixTo_first:
  "receiptPrefixTo H r val = Some p \<longleftrightarrow>
     (\<exists>j \<le> length (rc_entries r).
        foldReceipt H (rc_start r) (take j (rc_entries r)) = val \<and>
        (\<forall>m < j. foldReceipt H (rc_start r) (take m (rc_entries r)) \<noteq> val) \<and>
        p = \<lparr>rc_start = rc_start r, rc_anchor = val, rc_entries = take j (rc_entries r)\<rparr> \<and> receiptValid H p)"
proof -
  have "foldReceipt H (rc_start r) (take j (rc_entries r)) = val \<Longrightarrow>
      receiptValid H \<lparr>rc_start = rc_start r, rc_anchor = val, rc_entries = take j (rc_entries r)\<rparr>" for j
    by (simp add: receiptValid_def)
  moreover have "prefixLoop H r val (rc_start r) 0 (rc_entries r) = Some p \<longleftrightarrow>
     (\<exists>j \<ge> 0. j \<le> length (rc_entries r) \<and> foldReceipt H (rc_start r) (take j (rc_entries r)) = val \<and>
        (\<forall>m. 0 \<le> m \<and> m < j \<longrightarrow> foldReceipt H (rc_start r) (take m (rc_entries r)) \<noteq> val) \<and>
        p = \<lparr>rc_start = rc_start r, rc_anchor = val, rc_entries = take j (rc_entries r)\<rparr>)"
    by (rule prefixLoop_spec) simp_all
  ultimately show ?thesis unfolding receiptPrefixTo_def by auto
qed

theorem receiptPrefixTo_first_witness:
  "receiptPrefixTo (\<lambda>x. x) \<lparr>rc_start = [1], rc_anchor = [], rc_entries = [\<lparr>re_hash = [2], re_right = True\<rparr>]\<rparr> [1, 2]
   = Some \<lparr>rc_start = [1], rc_anchor = [1, 2], rc_entries = [\<lparr>re_hash = [2], re_right = True\<rparr>]\<rparr>"
  unfolding receiptPrefixTo_first
  by (intro exI [of _ 1]) (simp add: receiptValid_def applyEntry_def)

text \<open>
  A root proof that validates is sound: if its Merkle state is that of some leaves, the end it returns is the root of the tree over
  those leaves followed by the proof's elements, the elements are 32-byte hashes, and its receipt leads from the last element to that root.
\<close>

theorem validateReceiptList_sound:
  assumes "represents H state xs" and "validateReceiptList H rl state = Inr a"
  shows "\<exists>es bs r. member (Key ''elements'') rl = JArr es \<and> mapE (\<lambda>e. hexBytes e None) es = Inr bs \<and> bs \<noteq> [] \<and>
           (\<forall>b \<in> set bs. length b = 32) \<and> a = mth H (xs @ bs) \<and>
           receiptFromJSON (member (Key ''receipt'') rl) = Inr r \<and> rc_start r = last bs \<and> foldReceipt H (last bs) (rc_entries r) = a"
proof -
  from assms(2) obtain es where es: "member (Key ''elements'') rl = JArr es" "es \<noteq> []"
    by (auto simp: validateReceiptList_def split: json.splits if_splits)
  with assms(2) obtain work lst r where w: "addElements H state None es = Inr (work, lst)"
    and r: "receiptFromJSON (member (Key ''receipt'') rl) = Inr r"
    and a: "anchor H work = Some a" "equalB lst (Some (rc_start r))" "rc_anchor r = a" "receiptValid H r"
    by (auto simp: validateReceiptList_def results split: option.splits if_splits)
  from addElements_Inr [OF w] obtain bs where bs: "mapE (\<lambda>e. hexBytes e None) es = Inr bs" "\<forall>b \<in> set bs. length b = 32"
      "work = foldl (addEntry H) state bs" "lst = (if bs = [] then None else Some (last bs))" by blast
  have ne: "bs \<noteq> []" using mapE_Inr_length [OF bs(1)] es(2) by auto
  have "represents H work (xs @ bs)" unfolding bs(3) by (rule accumulate_represents [OF assms(1)])
  from anchor_represents [OF this] a(1) ne have "a = mth H (xs @ bs)" by simp
  moreover have "rc_start r = last bs" using a(2) bs(4) ne by simp
  ultimately show ?thesis using es bs ne r a by (auto simp: receiptValid_def)
qed

theorem validateReceiptList_sound_witness:
  "\<exists>es bs r. member (Key ''elements'') (JObj [(Key ''elements'', JArr [JStr (toHex (replicate 32 7))]),
       (Key ''receipt'', JObj [(Key ''start'', JStr (toHex (replicate 32 7))), (Key ''anchor'', JStr (toHex (replicate 32 7)))])])
     = JArr es \<and> mapE (\<lambda>e. hexBytes e None) es = Inr bs \<and> bs \<noteq> [] \<and>
     (\<forall>b \<in> set bs. length b = 32) \<and> replicate 32 7 = mth (\<lambda>x. x) ([] @ bs) \<and>
     receiptFromJSON (member (Key ''receipt'') (JObj [(Key ''elements'', JArr [JStr (toHex (replicate 32 7))]),
       (Key ''receipt'', JObj [(Key ''start'', JStr (toHex (replicate 32 7))), (Key ''anchor'', JStr (toHex (replicate 32 7)))])])) = Inr r \<and>
     rc_start r = last bs \<and> foldReceipt (\<lambda>x. x) (last bs) (rc_entries r) = replicate 32 7"
proof (rule validateReceiptList_sound [OF new_represents])
  have h: "hexBytes (JStr (toHex b)) None = Inr b" for b by simp
  show "validateReceiptList (\<lambda>x. x) (JObj [(Key ''elements'', JArr [JStr (toHex (replicate 32 7))]),
       (Key ''receipt'', JObj [(Key ''start'', JStr (toHex (replicate 32 7))), (Key ''anchor'', JStr (toHex (replicate 32 7)))])])
     newMerkleState = Inr (replicate 32 7)"
    by (simp add: validateReceiptList_def receiptFromJSON_def h addEntry_def newMerkleState_def anchor_def receiptValid_def
        del: hexBytes.simps)
qed

end
