(* ===== verification/Text.thy ===== *)
theory Text
  imports Hex
begin

text \<open>
  Strings as the JavaScript and Go standard libraries handle them: decimal numerals, white space, case. A string is its UTF-8 bytes, a
  list of 8-bit characters. Case mapping is modelled on the ASCII letters; the other letters keep their bytes, so names with
  cased letters outside ASCII are outside the model.
\<close>

section \<open>Decimal numerals\<close>

function decNat :: "nat \<Rightarrow> string" where
  "decNat n = (if n < 10 then [hexDigit n] else decNat (n div 10) @ [hexDigit (n mod 10)])"
  by pat_completeness auto
termination
  by (relation "measure id") auto

declare decNat.simps [simp del]

definition isDigit :: "char \<Rightarrow> bool" where
  "isDigit c = (48 \<le> (of_char c :: nat) \<and> (of_char c :: nat) \<le> 57)"

text \<open>\<open>Number(s)\<close> and \<open>BigInt(s)\<close> of decimal digits.\<close>

definition decValue :: "string \<Rightarrow> nat" where
  "decValue s = foldl (\<lambda>n c. n * 10 + ((of_char c :: nat) - 48)) 0 s"

lemma decValue_decNat [simp]: "decValue (decNat n) = n"
proof (induction n rule: decNat.induct)
  case (1 n)
  show ?case
  proof (cases "n < 10")
    case True
    then show ?thesis by (subst decNat.simps) (simp add: decValue_def hexDigit_code)
  next
    case False
    have "n mod 10 < 10" by simp
    then have "(of_char (hexDigit (n mod 10)) :: nat) = 48 + n mod 10" by (simp add: hexDigit_def)
    with 1 False show ?thesis by (subst decNat.simps) (simp add: decValue_def)
  qed
qed

lemma decNat_digits: "list_all isDigit (decNat n) \<and> decNat n \<noteq> []"
proof (induction n rule: decNat.induct)
  case (1 n)
  have d: "isDigit (hexDigit k)" if "k < 10" for k using that by (simp add: isDigit_def hexDigit_code)
  show ?case
  proof (cases "n < 10")
    case True
    then show ?thesis by (subst (1 2) decNat.simps) (simp add: d)
  next
    case False
    then show ?thesis using 1 d [of "n mod 10"] by (subst (1 2) decNat.simps) simp
  qed
qed

definition decInt :: "int \<Rightarrow> string" where
  "decInt n = (if n < 0 then ''-'' @ decNat (nat (- n)) else decNat (nat n))"

lemma decNat_inj: "decNat a = decNat b \<longleftrightarrow> a = b"
  by (metis decValue_decNat)

lemma decNat_no_minus: "decNat n \<noteq> CHR ''-'' # s"
proof
  assume "decNat n = CHR ''-'' # s"
  then have "isDigit CHR ''-''" using decNat_digits [of n] by simp
  then show False by (simp add: isDigit_def)
qed

lemma decInt_inj: "decInt a = decInt b \<longleftrightarrow> a = b"
  using decNat_no_minus [symmetric] decNat_no_minus by (auto simp: decInt_def decNat_inj)

section \<open>Joining\<close>

definition joinWith :: "string \<Rightarrow> string list \<Rightarrow> string" where
  "joinWith sep ss = (case ss of [] \<Rightarrow> [] | s # r \<Rightarrow> s @ concat (map (\<lambda>x. sep @ x) r))"

text \<open>\<open>s.split(c)\<close> for a one-character separator.\<close>

fun splitOn :: "char \<Rightarrow> string \<Rightarrow> string list" where
  "splitOn d [] = [[]]"
| "splitOn d (c # s) = (if c = d then [] # splitOn d s else (c # hd (splitOn d s)) # tl (splitOn d s))"

lemma splitOn_nonempty [simp]: "splitOn d s \<noteq> []"
  by (cases s) simp_all

lemma splitOn_no: "d \<notin> set s \<Longrightarrow> splitOn d s = [s]"
  by (induction s) auto

lemma splitOn_append: "d \<notin> set s \<Longrightarrow> splitOn d (s @ d # r) = s # splitOn d r"
  by (induction s) auto

lemma joinWith_Cons: "ss \<noteq> [] \<Longrightarrow> joinWith sep (s # ss) = s @ sep @ joinWith sep ss"
  by (cases ss) (simp_all add: joinWith_def)

section \<open>White space\<close>

text \<open>\<open>spacePrefix ws s\<close> is the number of bytes of the white-space character \<open>s\<close> starts with, \<open>spaceSuffix\<close> of the one it ends with.\<close>

definition spacePrefix :: "string list \<Rightarrow> string \<Rightarrow> nat" where
  "spacePrefix ws s = (case find (\<lambda>w. take (length w) s = w) ws of None \<Rightarrow> 0 | Some w \<Rightarrow> length w)"

function trimStartOf :: "string list \<Rightarrow> string \<Rightarrow> string" where
  "trimStartOf ws s = (if s \<noteq> [] \<and> spacePrefix ws s > 0 then trimStartOf ws (drop (spacePrefix ws s) s) else s)"
  by pat_completeness auto
termination
  by (relation "measure (length \<circ> snd)") auto

definition spaceSuffix :: "string list \<Rightarrow> string \<Rightarrow> nat" where
  "spaceSuffix ws s =
     (case find (\<lambda>w. length w \<le> length s \<and> drop (length s - length w) s = w) ws of None \<Rightarrow> 0 | Some w \<Rightarrow> length w)"

function trimEndOf :: "string list \<Rightarrow> string \<Rightarrow> string" where
  "trimEndOf ws s = (if s \<noteq> [] \<and> spaceSuffix ws s > 0 then trimEndOf ws (take (length s - spaceSuffix ws s) s) else s)"
  by pat_completeness auto
termination
  by (relation "measure (length \<circ> snd)") auto

declare trimStartOf.simps [simp del] trimEndOf.simps [simp del]

text \<open>The white space Unicode has, without U+0085 and U+FEFF, each character as its UTF-8 bytes.\<close>

definition commonSpaces :: "string list" where
  "commonSpaces = [
     [CHR 0x09], [CHR 0x0a], [CHR 0x0b], [CHR 0x0c],
     [CHR 0x0d], [CHR 0x20], [CHR 0xc2, CHR 0xa0], [CHR 0xe1, CHR 0x9a, CHR 0x80],
     [CHR 0xe2, CHR 0x80, CHR 0x80], [CHR 0xe2, CHR 0x80, CHR 0x81], [CHR 0xe2, CHR 0x80, CHR 0x82], [CHR 0xe2, CHR 0x80, CHR 0x83],
     [CHR 0xe2, CHR 0x80, CHR 0x84], [CHR 0xe2, CHR 0x80, CHR 0x85], [CHR 0xe2, CHR 0x80, CHR 0x86], [CHR 0xe2, CHR 0x80, CHR 0x87],
     [CHR 0xe2, CHR 0x80, CHR 0x88], [CHR 0xe2, CHR 0x80, CHR 0x89], [CHR 0xe2, CHR 0x80, CHR 0x8a], [CHR 0xe2, CHR 0x80, CHR 0xa8],
     [CHR 0xe2, CHR 0x80, CHR 0xa9], [CHR 0xe2, CHR 0x80, CHR 0xaf], [CHR 0xe2, CHR 0x81, CHR 0x9f], [CHR 0xe3, CHR 0x80, CHR 0x80]]"

text \<open>What \<open>trim()\<close> and a regular expression's white-space class know, and what \<open>isGoSpace\<close> lists.\<close>

definition jsSpaces :: "string list" where
  "jsSpaces = commonSpaces @ [[CHR 0xef, CHR 0xbb, CHR 0xbf]]"

definition goSpaces :: "string list" where
  "goSpaces = commonSpaces @ [[CHR 0xc2, CHR 0x85]]"

definition trim :: "string \<Rightarrow> string" where
  "trim s = trimEndOf jsSpaces (trimStartOf jsSpaces s)"

definition goTrimSpace :: "string \<Rightarrow> string" where
  "goTrimSpace s = trimEndOf goSpaces (trimStartOf goSpaces s)"

text \<open>A text with a visible ASCII character at both ends needs no trimming (which saves evaluation the search).\<close>

definition inked :: "char \<Rightarrow> bool" where
  "inked c = (33 \<le> (of_char c :: nat) \<and> (of_char c :: nat) \<le> 126)"

lemma goSpaces_blank: "list_all (\<lambda>w. w \<noteq> [] \<and> \<not> inked (hd w) \<and> \<not> inked (last w)) goSpaces"
  by code_simp

lemma goTrimSpace_inked:
  assumes "s \<noteq> []" "inked (hd s)" "inked (last s)"
  shows "goTrimSpace s = s"
proof -
  have "take (length w) s \<noteq> w" "drop (length s - length w) s \<noteq> w" if "w \<in> set goSpaces" for w
  proof -
    have w: "w \<noteq> []" "\<not> inked (hd w)" "\<not> inked (last w)" using goSpaces_blank that by (auto simp: list_all_iff)
    then have "hd (take (length w) s) = hd s" by simp
    then show "take (length w) s \<noteq> w" using w(2) assms(2) by metis
    show "drop (length s - length w) s \<noteq> w"
    proof
      assume d: "drop (length s - length w) s = w"
      then have "length s - length w < length s" using w(1) by (metis drop_all not_less)
      then have "last w = last s" using d by (metis last_drop)
      then show False using w(3) assms(3) by simp
    qed
  qed
  then have "spacePrefix goSpaces s = 0" "spaceSuffix goSpaces s = 0"
    unfolding spacePrefix_def spaceSuffix_def by (auto split: option.splits simp: find_Some_iff2 find_Some_iff)
  then show ?thesis by (simp add: goTrimSpace_def trimStartOf.simps [of _ s] trimEndOf.simps [of _ s])
qed

lemma goTrimSpace_code [code]:
  "goTrimSpace s = (if s \<noteq> [] \<and> inked (hd s) \<and> inked (last s) then s else trimEndOf goSpaces (trimStartOf goSpaces s))"
  using goTrimSpace_inked by (simp add: goTrimSpace_def)

section \<open>Case\<close>

definition goLower :: "string \<Rightarrow> string" where
  "goLower s = map lowerChar s"

lemma lowerChar_idem [simp]: "lowerChar (lowerChar c) = lowerChar c"
  by (simp add: lowerChar_def Let_def)

lemma goLower_idem [simp]: "goLower (goLower s) = goLower s"
  by (simp add: goLower_def)

lemma goLower_append [simp]: "goLower (s @ t) = goLower s @ goLower t"
  by (simp add: goLower_def)

text \<open>\<open>goEqualFold\<close>: equal lengths, and character by character equal or equal in lower case.\<close>

definition goEqualFold :: "string \<Rightarrow> string \<Rightarrow> bool" where
  "goEqualFold a b = list_all2 (\<lambda>x y. x = y \<or> lowerChar x = lowerChar y) a b"

lemma goEqualFold_iff: "goEqualFold a b \<longleftrightarrow> goLower a = goLower b"
proof -
  have "(\<lambda>x y. x = y \<or> lowerChar x = lowerChar y) = (\<lambda>x y. lowerChar x = lowerChar y)" by (intro ext) auto
  then have "goEqualFold a b = list_all2 (\<lambda>x y. lowerChar x = lowerChar y) a b" by (simp add: goEqualFold_def)
  also have "\<dots> = list_all2 (=) (map lowerChar a) (map lowerChar b)" by (simp add: list_all2_map1 list_all2_map2)
  finally show ?thesis by (simp add: goLower_def list.rel_eq)
qed

section \<open>The order of strings\<close>

text \<open>
  \<open>a < b\<close> on strings and \<open>bytes.Compare\<close>: lexicographic on the characters. (JavaScript compares UTF-16 units, Go bytes; on
  the text of URLs in lower case the two agree unless both surrogates and characters above U+D7FF occur.)
\<close>

fun lexCompare :: "('a \<Rightarrow> nat) \<Rightarrow> 'a list \<Rightarrow> 'a list \<Rightarrow> int" where
  "lexCompare f [] [] = 0"
| "lexCompare f [] (y # ys) = - 1"
| "lexCompare f (x # xs) [] = 1"
| "lexCompare f (x # xs) (y # ys) = (if f x < f y then - 1 else if f x > f y then 1 else lexCompare f xs ys)"

lemma lexCompare_eq: "(\<And>x y. f x = f y \<Longrightarrow> x = y) \<Longrightarrow> lexCompare f xs ys = 0 \<longleftrightarrow> xs = ys"
  by (induction f xs ys rule: lexCompare.induct) (auto split: if_splits)

lemma lexCompare_refl [simp]: "lexCompare f xs xs = 0"
  by (induction xs) simp_all

lemma lexCompare_range: "lexCompare f xs ys \<in> {- 1, 0, 1}"
  by (induction f xs ys rule: lexCompare.induct) auto

lemma lexCompare_swap: "lexCompare f ys xs = - lexCompare f xs ys"
  by (induction f xs ys rule: lexCompare.induct) auto

lemma lexCompare_trans: "lexCompare f xs ys \<le> 0 \<Longrightarrow> lexCompare f ys zs \<le> 0 \<Longrightarrow>
    lexCompare f xs zs \<le> 0 \<and> (lexCompare f xs ys < 0 \<or> lexCompare f ys zs < 0 \<longrightarrow> lexCompare f xs zs < 0)"
proof (induction f xs ys arbitrary: zs rule: lexCompare.induct)
  case (1 f)
  then show ?case by (cases zs) simp_all
next
  case (2 f y ys)
  then show ?case by (cases zs) simp_all
next
  case (4 f x xs y ys)
  show ?case
  proof (cases zs)
    case Nil
    then show ?thesis using "4.prems" by simp
  next
    case (Cons z zs')
    have "f x \<le> f y" "f y \<le> f z" using "4.prems" Cons by (simp_all split: if_splits)
    then consider "f x < f z" | "f x = f y" "f y = f z" by linarith
    then show ?thesis
    proof cases
      case 2
      then show ?thesis using "4.IH" [of zs'] "4.prems" Cons by simp
    qed (simp add: Cons)
  qed
qed simp

end
