(* ===== verification/Abi.thy ===== *)
theory Abi
  imports Text
begin

text \<open>
  The Solidity ABI encoder of \<open>packages/verify/src/abi.ts\<close>: the type parser, the signature parser, the head-tail encoder and
  \<open>encodeCall\<close>. \<open>keccak256\<close> of the package \<open>@noble/hashes\<close> is the parameter \<open>K\<close>. A string is its UTF-8 bytes,
  so \<open>TextEncoder\<close> is the identity on it.
\<close>

section \<open>JavaScript values and the conversions the encoder applies to them\<close>

text \<open>
  A number carries its value when it is whole and the spelling \<open>String(v)\<close> gives it; \<open>VObj\<close> is any other object.
\<close>

datatype jsval =
    VUndef
  | VNull
  | VBool bool
  | VNum "int option" string
  | VBig int
  | VStr string
  | VArr "jsval list"
  | VObj

text \<open>\<open>String(v)\<close>; an array joins its elements with commas, null and undefined elements being empty.\<close>

fun jsToString :: "jsval \<Rightarrow> string" where
  "jsToString VUndef = ''undefined''"
| "jsToString VNull = ''null''"
| "jsToString (VBool b) = (if b then ''true'' else ''false'')"
| "jsToString (VNum v s) = s"
| "jsToString (VBig n) = decInt n"
| "jsToString (VStr s) = s"
| "jsToString (VArr vs) =
     joinWith '','' (map (\<lambda>v. if v = VUndef \<or> v = VNull then [] else jsToString v) vs)"
| "jsToString VObj = ''[object Object]''"

definition digitsValue :: "nat \<Rightarrow> string \<Rightarrow> nat option" where
  "digitsValue base s =
     (if s \<noteq> [] \<and> list_all (\<lambda>c. case hexVal (lowerChar c) of None \<Rightarrow> False | Some d \<Rightarrow> d < base) s
      then Some (foldl (\<lambda>n c. n * base + the (hexVal (lowerChar c))) 0 s) else None)"

text \<open>\<open>BigInt(s)\<close> of a string: trimmed; empty is zero; a radix prefix without a sign, or a signed decimal. \<open>None\<close> is the throw.\<close>

definition parseBigInt :: "string \<Rightarrow> int option" where
  "parseBigInt s =
     (let t = trim s in
      if t = [] then Some 0
      else if take 2 t = ''0x'' \<or> take 2 t = ''0X'' then map_option int (digitsValue 16 (drop 2 t))
      else if take 2 t = ''0o'' \<or> take 2 t = ''0O'' then map_option int (digitsValue 8 (drop 2 t))
      else if take 2 t = ''0b'' \<or> take 2 t = ''0B'' then map_option int (digitsValue 2 (drop 2 t))
      else if take 1 t = ''-'' then map_option (\<lambda>n. - int n) (digitsValue 10 (drop 1 t))
      else if take 1 t = ''+'' then map_option int (digitsValue 10 (drop 1 t))
      else map_option int (digitsValue 10 t))"

text \<open>\<open>BigInt(v)\<close>: a whole number or bigint is itself, a boolean 0 or 1, an array or object goes through its string.\<close>

fun toBigInt :: "jsval \<Rightarrow> int option" where
  "toBigInt VUndef = None"
| "toBigInt VNull = None"
| "toBigInt (VBool b) = Some (if b then 1 else 0)"
| "toBigInt (VNum v s) = v"
| "toBigInt (VBig n) = Some n"
| "toBigInt v = parseBigInt (jsToString v)"

section \<open>Types\<close>

datatype abi_type =
    TUint nat
  | TInt nat
  | TAddress
  | TBool
  | TBytes
  | TString
  | TBytesN nat
  | TArray abi_type "nat option"

datatype abi_error =
    InvalidIntegerType string
  | TypeUnsupported string
  | NotASignature string
  | TupleUnsupported
  | NotAnInteger
  | DoesNotFit int
  | NotAnArray
  | WrongElementCount nat nat
  | WrongArgumentCount nat nat
  | AbiHex verify_error

fun dynamic :: "abi_type \<Rightarrow> bool" where
  "dynamic TBytes = True"
| "dynamic TString = True"
| "dynamic (TArray t None) = True"
| "dynamic (TArray t (Some n)) = dynamic t"
| "dynamic _ = False"

text \<open>\<open>/^(.*)\[(\d*)\]$/\<close>: the part before the last bracket and the digits inside it. A dot does not match a line terminator.\<close>

definition lineTerminator :: "string \<Rightarrow> bool" where
  "lineTerminator s = (\<exists>i < length s. s ! i = CHR 0x0A \<or> s ! i = CHR 0x0D \<or>
     take 3 (drop i s) = [CHR 0xe2, CHR 0x80, CHR 0xa8] \<or> take 3 (drop i s) = [CHR 0xe2, CHR 0x80, CHR 0xa9])"

definition splitArray :: "string \<Rightarrow> (string \<times> string) option" where
  "splitArray s =
     (if s = [] \<or> last s \<noteq> CHR '']'' then None
      else
        let r = rev (butlast s); ds = rev (takeWhile isDigit r); r' = dropWhile isDigit r in
        if r' = [] \<or> hd r' \<noteq> CHR ''['' then None
        else if lineTerminator (rev (tl r')) then None
        else Some (rev (tl r'), ds))"

lemma splitArray_shorter: "splitArray s = Some (a, d) \<Longrightarrow> length a < length s"
proof -
  assume "splitArray s = Some (a, d)"
  then have "s \<noteq> []" "length a \<le> length (dropWhile isDigit (rev (butlast s)))"
    by (auto simp: splitArray_def Let_def split: if_splits)
  moreover have "length (dropWhile isDigit (rev (butlast s))) \<le> length s - 1"
    using length_dropWhile_le [of isDigit "rev (butlast s)"] by simp
  moreover have "0 < length s" using \<open>s \<noteq> []\<close> by simp
  ultimately show ?thesis by linarith
qed

function parseType :: "string \<Rightarrow> abi_error + abi_type" where
  "parseType s =
     (case splitArray s of
        Some (a, d) \<Rightarrow> bindE (parseType a) (\<lambda>t. Inr (TArray t (if d = [] then None else Some (decValue d))))
      | None \<Rightarrow>
          if s = ''address'' then Inr TAddress
          else if s = ''bool'' then Inr TBool
          else if s = ''bytes'' then Inr TBytes
          else if s = ''string'' then Inr TString
          else if (take 4 s = ''uint'' \<and> list_all isDigit (drop 4 s)) \<or> (take 3 s = ''int'' \<and> list_all isDigit (drop 3 s)) then
            (let ds = (if take 4 s = ''uint'' then drop 4 s else drop 3 s);
                 bits = (if ds = [] then 256 else decValue ds)
             in if bits < 8 \<or> bits > 256 \<or> bits mod 8 \<noteq> 0 then Inl (InvalidIntegerType s)
                else Inr (if take 4 s = ''uint'' then TUint bits else TInt bits))
          else if take 5 s = ''bytes'' \<and> drop 5 s \<noteq> [] \<and> list_all isDigit (drop 5 s) \<and>
                  decValue (drop 5 s) \<ge> 1 \<and> decValue (drop 5 s) \<le> 32 then Inr (TBytesN (decValue (drop 5 s)))
          else Inl (TypeUnsupported s))"
  by pat_completeness auto
termination
  by (relation "measure length") (auto dest: splitArray_shorter)

declare parseType.simps [simp del]

section \<open>Signatures\<close>

definition nameStart :: "char \<Rightarrow> bool" where
  "nameStart c = (let n = (of_char c :: nat) in (65 \<le> n \<and> n \<le> 90) \<or> (97 \<le> n \<and> n \<le> 122) \<or> c = CHR ''_'' \<or> c = CHR ''$'')"

definition nameChar :: "char \<Rightarrow> bool" where
  "nameChar c = (nameStart c \<or> isDigit c)"

fun splitComma :: "string \<Rightarrow> string list" where
  "splitComma [] = [[]]"
| "splitComma (c # s) =
     (if c = CHR '','' then [] # splitComma s
      else case splitComma s of [] \<Rightarrow> [[c]] | w # ws \<Rightarrow> (c # w) # ws)"

text \<open>
  \<open>parseSignature\<close>: optional space, a name, optional space, an opening bracket, anything up to the last closing bracket, optional space.
\<close>

definition parseSignature :: "string \<Rightarrow> abi_error + string \<times> string list" where
  "parseSignature sig =
     (let t = trim sig;
          name = takeWhile nameChar t;
          r = trimStartOf jsSpaces (dropWhile nameChar t) in
      if name = [] \<or> \<not> nameStart (hd name) \<or> r = [] \<or> hd r \<noteq> CHR ''('' \<or> tl r = [] \<or> last r \<noteq> CHR '')'' \<or>
         lineTerminator (butlast (tl r)) then Inl (NotASignature sig)
      else
        let inner = butlast (tl r) in
        if CHR ''('' \<in> set inner then Inl TupleUnsupported
        else Inr (name, if trim inner = [] then [] else map trim (splitComma inner)))"

section \<open>Encoding\<close>

fun be_fixed :: "nat \<Rightarrow> nat \<Rightarrow> bytes" where
  "be_fixed 0 n = []"
| "be_fixed (Suc k) n = be_fixed k (n div 256) @ [of_nat (n mod 256)]"

definition word :: "int \<Rightarrow> bytes" where
  "word n = be_fixed 32 (nat (n mod 2 ^ 256))"

definition pad :: "bytes \<Rightarrow> bytes" where
  "pad b = b @ replicate ((length b + 31) div 32 * 32 - length b) 0"

definition utf8 :: "string \<Rightarrow> bytes" where
  "utf8 s = map (\<lambda>c. of_nat (of_char c)) s"

definition encInt :: "int \<Rightarrow> int \<Rightarrow> jsval \<Rightarrow> abi_error + bytes" where
  "encInt lo hi v =
     (case toBigInt v of
        None \<Rightarrow> Inl NotAnInteger
      | Some n \<Rightarrow> if n < lo \<or> n > hi then Inl (DoesNotFit n) else Inr (word n))"

definition hexArg :: "string \<Rightarrow> nat option \<Rightarrow> abi_error + bytes" where
  "hexArg s n = mapErr AbiHex (hexBytes (JStr s) n)"

definition bytesArg :: "jsval \<Rightarrow> abi_error + bytes" where
  "bytesArg v =
     (case v of
        VStr s \<Rightarrow> if take 2 s = ''0x'' \<or> take 2 s = ''0X'' then hexArg s None else Inr (utf8 s)
      | _ \<Rightarrow> Inr (utf8 (jsToString v)))"

text \<open>
  The second half of \<open>encodeTuple\<close>, over the encoded members with whether each is dynamic: the heads in order, a dynamic member's head
  being the offset of its tail, and then the tails.
\<close>

definition headSize :: "(bool \<times> bytes) list \<Rightarrow> nat" where
  "headSize xs = foldl (\<lambda>a (d, e). a + (if d then 32 else length e)) 0 xs"

fun headsOut :: "nat \<Rightarrow> (bool \<times> bytes) list \<Rightarrow> bytes" where
  "headsOut off [] = []"
| "headsOut off ((d, e) # xs) =
     (if d then word (int off) @ headsOut (off + length e) xs else e @ headsOut off xs)"

fun tailsOut :: "(bool \<times> bytes) list \<Rightarrow> bytes" where
  "tailsOut [] = []"
| "tailsOut ((d, e) # xs) = (if d then e else []) @ tailsOut xs"

definition assemble :: "(bool \<times> bytes) list \<Rightarrow> bytes" where
  "assemble xs = headsOut (headSize xs) xs @ tailsOut xs"

text \<open>\<open>enc\<close>; the array case is \<open>encodeTuple(v.map(() => t.of), v)\<close> written out.\<close>

primrec enc :: "abi_type \<Rightarrow> jsval \<Rightarrow> abi_error + bytes" where
  "enc (TUint bits) v = encInt 0 (2 ^ bits - 1) v"
| "enc (TInt bits) v = encInt (- (2 ^ (bits - 1))) (2 ^ (bits - 1) - 1) v"
| "enc TAddress v = bindE (hexArg (jsToString v) (Some 20)) (\<lambda>b. Inr (replicate 12 0 @ b))"
| "enc TBool v = Inr (word (if v = VBool True \<or> v = VStr ''true'' then 1 else 0))"
| "enc (TBytesN n) v = bindE (hexArg (jsToString v) (Some n)) (\<lambda>b. Inr (b @ replicate (32 - length b) 0))"
| "enc TBytes v = bindE (bytesArg v) (\<lambda>b. Inr (word (int (length b)) @ pad b))"
| "enc TString v = (let b = utf8 (jsToString v) in Inr (word (int (length b)) @ pad b))"
| "enc (TArray t len) v =
     (case v of
        VArr vs \<Rightarrow>
          (if (case len of None \<Rightarrow> False | Some n \<Rightarrow> length vs \<noteq> n)
           then Inl (WrongElementCount (case len of None \<Rightarrow> 0 | Some n \<Rightarrow> n) (length vs))
           else bindE (mapE (enc t) vs) (\<lambda>es.
             let body = assemble (map (\<lambda>e. (dynamic t, e)) es) in
             Inr (if len = None then word (int (length vs)) @ body else body)))
      | _ \<Rightarrow> Inl NotAnArray)"

definition encodeTuple :: "abi_type list \<Rightarrow> jsval list \<Rightarrow> abi_error + bytes" where
  "encodeTuple types values =
     bindE (mapE (\<lambda>(t, v). enc t v) (zip types values)) (\<lambda>es. Inr (assemble (zip (map dynamic types) es)))"

definition encodeCall :: "(bytes \<Rightarrow> bytes) \<Rightarrow> string \<Rightarrow> jsval list \<Rightarrow> abi_error + string" where
  "encodeCall K functionSignature args =
     bindE (parseSignature functionSignature) (\<lambda>(name, types).
       if length types \<noteq> length args then Inl (WrongArgumentCount (length types) (length args))
       else
         let sel = take 4 (K (utf8 (name @ ''('' @ joinWith '','' types @ '')''))) in
         bindE (mapE parseType types) (\<lambda>ts.
         bindE (encodeTuple ts args) (\<lambda>b. Inr (''0x'' @ toHex (sel @ b)))))"

section \<open>A reference decoder\<close>

text \<open>
  What a contract reads: \<open>dec t b\<close> takes a value of type \<open>t\<close> from the front of \<open>b\<close>; a member of a tuple is read at its
  place in the head, a dynamic one through the offset found there. \<open>mean t v\<close> is what the caller's argument says.
\<close>

datatype meaning = MInt int | MBytes bytes | MList "meaning list"

fun staticSize :: "abi_type \<Rightarrow> nat" where
  "staticSize (TArray t (Some n)) = n * staticSize t"
| "staticSize t = 32"

definition slot :: "abi_type \<Rightarrow> nat" where
  "slot t = (if dynamic t then 32 else staticSize t)"

definition memberAt :: "bool \<Rightarrow> (bytes \<Rightarrow> meaning) \<Rightarrow> nat \<Rightarrow> bytes \<Rightarrow> meaning" where
  "memberAt d f pos b = f (drop (if d then be_nat (take 32 (drop pos b)) else pos) b)"

definition signed256 :: "nat \<Rightarrow> int" where
  "signed256 n = (if n < 2 ^ 255 then int n else int n - 2 ^ 256)"

primrec dec :: "abi_type \<Rightarrow> bytes \<Rightarrow> meaning" where
  "dec (TUint k) b = MInt (int (be_nat (take 32 b)))"
| "dec (TInt k) b = MInt (signed256 (be_nat (take 32 b)))"
| "dec TAddress b = MBytes (take 20 (drop 12 b))"
| "dec TBool b = MInt (int (be_nat (take 32 b)))"
| "dec TBytes b = MBytes (take (be_nat (take 32 b)) (drop 32 b))"
| "dec TString b = MBytes (take (be_nat (take 32 b)) (drop 32 b))"
| "dec (TBytesN n) b = MBytes (take n b)"
| "dec (TArray t len) b =
     (let n = (case len of None \<Rightarrow> be_nat (take 32 b) | Some k \<Rightarrow> k);
          body = (if len = None then drop 32 b else b)
      in MList (map (\<lambda>i. memberAt (dynamic t) (dec t) (i * slot t) body) [0..<n]))"

fun decTuple :: "abi_type list \<Rightarrow> nat \<Rightarrow> bytes \<Rightarrow> meaning list" where
  "decTuple [] pos b = []"
| "decTuple (t # ts) pos b = memberAt (dynamic t) (dec t) pos b # decTuple ts (pos + slot t) b"

definition okBytes :: "'e + bytes \<Rightarrow> bytes" where
  "okBytes r = (case r of Inl _ \<Rightarrow> [] | Inr b \<Rightarrow> b)"

primrec mean :: "abi_type \<Rightarrow> jsval \<Rightarrow> meaning" where
  "mean (TUint k) v = MInt (the (toBigInt v))"
| "mean (TInt k) v = MInt (the (toBigInt v))"
| "mean TAddress v = MBytes (okBytes (hexArg (jsToString v) (Some 20)))"
| "mean TBool v = MInt (if v = VBool True \<or> v = VStr ''true'' then 1 else 0)"
| "mean TBytes v = MBytes (okBytes (bytesArg v))"
| "mean TString v = MBytes (utf8 (jsToString v))"
| "mean (TBytesN n) v = MBytes (okBytes (hexArg (jsToString v) (Some n)))"
| "mean (TArray t len) v = (case v of VArr vs \<Rightarrow> MList (map (mean t) vs) | _ \<Rightarrow> MList [])"

fun wfType :: "abi_type \<Rightarrow> bool" where
  "wfType (TUint k) = (1 \<le> k \<and> k \<le> 256)"
| "wfType (TInt k) = (1 \<le> k \<and> k \<le> 256)"
| "wfType (TBytesN n) = (1 \<le> n \<and> n \<le> 32)"
| "wfType (TArray t _) = wfType t"
| "wfType _ = True"

section \<open>The layout of a tuple\<close>

lemma length_be_fixed [simp]: "length (be_fixed k n) = k"
  by (induction k arbitrary: n) simp_all

lemma be_nat_be_fixed: "be_nat (be_fixed k n) = n mod 256 ^ k"
proof (induction k arbitrary: n)
  case (Suc k)
  have "n mod 256 ^ Suc k = n div 256 mod 256 ^ k * 256 + n mod 256"
    using mod_mult2_eq [of n 256 "256 ^ k"] by simp
  with Suc show ?case by (simp only: be_fixed.simps be_nat_snoc unat_of_nat_byte mod_mod_trivial)
qed simp

lemma length_word [simp]: "length (word n) = 32"
  by (simp add: word_def)

lemma be_nat_word: "be_nat (word n) = nat (n mod 2 ^ 256)"
proof -
  have "nat (n mod 2 ^ 256) < 2 ^ 256" by (simp add: nat_less_iff)
  then show ?thesis by (simp add: word_def be_nat_be_fixed)
qed

lemma be_nat_word_nat: "n < 2 ^ 256 \<Longrightarrow> be_nat (word (int n)) = n"
  by (simp add: be_nat_word)

lemma headSize_Nil [simp]: "headSize [] = 0"
  by (simp add: headSize_def)

lemma foldl_headSize: "foldl (\<lambda>a (d, e). a + (if d then 32 else length e)) k xs = k + headSize xs"
proof (induction xs arbitrary: k)
  case (Cons x xs)
  obtain d e where x: "x = (d, e)" by (cases x)
  from Cons [of "k + (if d then 32 else length e)"] Cons [of "if d then 32 else length e"]
  show ?case by (simp add: x headSize_def)
qed simp

lemma headSize_Cons [simp]: "headSize ((d, e) # xs) = (if d then 32 else length e) + headSize xs"
  by (simp add: headSize_def) (simp add: foldl_headSize headSize_def [symmetric])

lemma headSize_append [simp]: "headSize (xs @ ys) = headSize xs + headSize ys"
  by (induction xs) auto

lemma length_headsOut [simp]: "length (headsOut off xs) = headSize xs"
  by (induction off xs rule: headsOut.induct) auto

lemma headsOut_append: "headsOut off (xs @ ys) = headsOut off xs @ headsOut (off + length (tailsOut xs)) ys"
  by (induction off xs rule: headsOut.induct) (auto simp: add.assoc)

lemma tailsOut_append [simp]: "tailsOut (xs @ ys) = tailsOut xs @ tailsOut ys"
  by (induction xs rule: tailsOut.induct) auto

lemma assemble_static:
  "\<exists>junk'. drop (headSize xs) (assemble (xs @ (False, e) # ys) @ junk) = e @ junk'"
  by (simp add: assemble_def headsOut_append)

lemma assemble_dynamic:
  assumes A_def: "A = assemble (xs @ (True, e) # ys)"
  shows "\<exists>off r r'. drop (headSize xs) (A @ junk) = word (int off) @ r \<and> drop off (A @ junk) = e @ r' \<and> off \<le> length A"
proof -
  let ?off = "headSize (xs @ (True, e) # ys) + length (tailsOut xs)"
  have "drop ?off (A @ junk) = drop (length (tailsOut xs)) (tailsOut xs @ e @ tailsOut ys @ junk)"
    by (simp add: A_def assemble_def)
  then have "drop ?off (A @ junk) = e @ (tailsOut ys @ junk)" by simp
  moreover have "\<exists>r. drop (headSize xs) (A @ junk) = word (int ?off) @ r"
    by (simp add: A_def assemble_def headsOut_append)
  moreover have "?off \<le> length A" by (simp add: A_def assemble_def)
  ultimately show ?thesis by blast
qed

text \<open>One member: if its own encoding decodes with anything behind it, so does the member in its place.\<close>

lemma memberAt_assemble:
  assumes f: "\<And>r. f (e @ r) = m" and small: "length (assemble (xs @ (d, e) # ys)) < 2 ^ 256"
  shows "memberAt d f (headSize xs) (assemble (xs @ (d, e) # ys) @ junk) = m"
proof (cases d)
  case False
  then show ?thesis using assemble_static [of xs e ys junk] f by (auto simp: memberAt_def)
next
  case True
  let ?A = "assemble (xs @ (d, e) # ys)"
  obtain off r r' where *: "drop (headSize xs) (?A @ junk) = word (int off) @ r" "drop off (?A @ junk) = e @ r'" "off \<le> length ?A"
    using assemble_dynamic [of ?A xs e ys junk] True by auto
  have "be_nat (take 32 (drop (headSize xs) (?A @ junk))) = off"
    using *(3) small by (simp only: *(1) take_append length_word) (simp add: be_nat_word_nat)
  then show ?thesis using True *(2) f by (simp add: memberAt_def)
qed

lemma headSize_uniform:
  "(\<And>e. e \<in> set es \<Longrightarrow> \<not> d \<Longrightarrow> length e = k) \<Longrightarrow> headSize (map (Pair d) es) = length es * (if d then 32 else k)"
  by (induction es) auto

lemma members_assemble:
  assumes f: "\<And>i r. i < length es \<Longrightarrow> f (es ! i @ r) = ms ! i" and len: "length ms = length es"
    and k: "\<And>e. e \<in> set es \<Longrightarrow> \<not> d \<Longrightarrow> length e = k"
    and small: "length (assemble (map (Pair d) es)) < 2 ^ 256"
  shows "map (\<lambda>i. memberAt d f (i * (if d then 32 else k)) (assemble (map (Pair d) es) @ junk)) [0..<length es] = ms"
proof (rule nth_equalityI)
  fix i assume "i < length (map (\<lambda>i. memberAt d f (i * (if d then 32 else k)) (assemble (map (Pair d) es) @ junk)) [0..<length es])"
  then have i: "i < length es" by simp
  let ?xs = "map (Pair d) (take i es)" and ?ys = "map (Pair d) (drop (Suc i) es)"
  have split: "map (Pair d) es = ?xs @ (d, es ! i) # ?ys"
    using arg_cong [OF id_take_nth_drop [OF i], of "map (Pair d)"] by simp
  have "headSize ?xs = length (take i es) * (if d then 32 else k)"
    by (rule headSize_uniform) (auto dest: in_set_takeD k)
  then have hs: "headSize ?xs = i * (if d then 32 else k)" using i by simp
  have "memberAt d f (headSize ?xs) (assemble (?xs @ (d, es ! i) # ?ys) @ junk) = ms ! i"
    by (rule memberAt_assemble) (use f [OF i] small split in auto)
  then show "map (\<lambda>i. memberAt d f (i * (if d then 32 else k)) (assemble (map (Pair d) es) @ junk)) [0..<length es] ! i = ms ! i"
    using i by (simp only: hs split [symmetric]) simp
qed (simp add: len)

section \<open>Every type decodes to what was encoded\<close>

lemma hexArg_length: "hexArg s (Some n) = Inr b \<Longrightarrow> length b = n"
  by (auto simp: hexArg_def results split: option.splits if_splits)

lemma length_pad: "32 dvd length (pad b) \<and> length b \<le> length (pad b)"
proof -
  have "length b \<le> (length b + 31) div 32 * 32"
    using mult_div_mod_eq [of 32 "length b + 31"] mod_less_divisor [of 32 "length b + 31"] by linarith
  then show ?thesis by (simp add: pad_def)
qed

lemma take_pad: "take (length b) (pad b @ r) = b"
  by (simp add: pad_def)

lemma static_length: "enc t v = Inr e \<Longrightarrow> \<not> dynamic t \<Longrightarrow> wfType t \<Longrightarrow> length e = staticSize t"
proof (induction t arbitrary: v e)
  case (TArray t len)
  then obtain n vs es where *: "len = Some n" "v = VArr vs" "length vs = n" "mapE (enc t) vs = Inr es"
      "e = assemble (map (Pair (dynamic t)) es)" "\<not> dynamic t" "wfType t"
    by (cases len) (auto simp: results split: jsval.splits if_splits)
  have "length x = staticSize t" if x: "x \<in> set es" for x
  proof -
    obtain w where "enc t w = Inr x" using *(4) x by (auto simp: mapE_Inr_iff list_all2_conv_all_nth in_set_conv_nth)
    then show ?thesis using *(6,7) by (rule TArray.IH)
  qed
  then have "headSize (map (Pair False) es) = length es * staticSize t"
    using headSize_uniform [of es False "staticSize t"] by simp
  moreover have "tailsOut (map (Pair False) es) = []" by (induction es) auto
  ultimately show ?case using * mapE_Inr_length [OF *(4)] by (simp add: assemble_def)
qed (auto simp: results encInt_def split: option.splits if_splits dest: hexArg_length)

lemma nat_less_2_256: "k \<le> 256 \<Longrightarrow> n \<le> 2 ^ k - 1 \<Longrightarrow> n < (2 :: int) ^ 256"
proof -
  assume "k \<le> 256" "n \<le> 2 ^ k - 1"
  moreover have "(2 :: int) ^ k \<le> 2 ^ 256" using \<open>k \<le> 256\<close> by (intro power_increasing) auto
  ultimately show ?thesis by linarith
qed

lemma signed_word: "- (2 ^ 255) \<le> n \<Longrightarrow> n < 2 ^ 255 \<Longrightarrow> signed256 (nat (n mod 2 ^ 256)) = n"
proof (cases "n < 0")
  case True
  assume a: "- (2 ^ 255) \<le> n" "n < 2 ^ 255"
  have "(n + 2 ^ 256) mod 2 ^ 256 = n + 2 ^ 256" by (rule mod_pos_pos_trivial) (use True a in auto)
  then have "n mod 2 ^ 256 = n + 2 ^ 256" by simp
  with True a show ?thesis by (simp add: signed256_def nat_less_iff)
qed (simp add: signed256_def nat_less_iff)

lemma signed_range: "1 \<le> k \<Longrightarrow> k \<le> 256 \<Longrightarrow> (2 :: int) ^ (k - 1) \<le> 2 ^ 255"
  by (rule power_increasing) auto

lemma toBigInt_enc: "encInt lo hi v = Inr e \<Longrightarrow> \<exists>n. toBigInt v = Some n \<and> lo \<le> n \<and> n \<le> hi \<and> e = word n"
  by (auto simp: encInt_def split: option.splits if_splits)

lemma enc_scalar:
  assumes "enc t v = Inr e" "wfType t" "\<forall>s k. t \<noteq> TArray s k" "length e < 2 ^ 256"
  shows "dec t (e @ r) = mean t v"
proof (cases t)
  case (TUint k)
  with assms obtain n where n: "toBigInt v = Some n" "0 \<le> n" "n \<le> 2 ^ k - 1" "e = word n"
    by (auto dest: toBigInt_enc)
  moreover have "n < 2 ^ 256" using n(3) assms(2) TUint by (intro nat_less_2_256 [of k]) auto
  ultimately show ?thesis by (simp add: TUint be_nat_word)
next
  case (TInt k)
  with assms obtain n where n: "toBigInt v = Some n" "- (2 ^ (k - 1)) \<le> n" "n \<le> 2 ^ (k - 1) - 1" "e = word n"
    by (auto dest: toBigInt_enc)
  moreover have "(2 :: int) ^ (k - 1) \<le> 2 ^ 255" using assms(2) TInt by (intro signed_range) auto
  ultimately have "signed256 (nat (n mod 2 ^ 256)) = n" by (intro signed_word) linarith+
  with n show ?thesis by (simp add: TInt be_nat_word)
next
  case TBytes
  with assms obtain b where b: "bytesArg v = Inr b" "e = word (int (length b)) @ pad b" by (auto simp: results)
  with assms(4) have "length b < 2 ^ 256" using length_pad [of b] by simp
  with b show ?thesis by (simp add: TBytes okBytes_def be_nat_word_nat pad_def)
next
  case TString
  with assms have e: "e = word (int (length (utf8 (jsToString v)))) @ pad (utf8 (jsToString v))" by (simp add: Let_def)
  with assms(4) have "length (utf8 (jsToString v)) < 2 ^ 256" using length_pad [of "utf8 (jsToString v)"] by simp
  with e show ?thesis by (simp add: TString be_nat_word_nat pad_def)
next
  case TAddress
  with assms obtain b where b: "hexArg (jsToString v) (Some 20) = Inr b" "e = replicate 12 0 @ b" by (auto simp: results)
  with hexArg_length [OF b(1)] show ?thesis by (simp add: TAddress okBytes_def)
next
  case (TBytesN n)
  with assms obtain b where b: "hexArg (jsToString v) (Some n) = Inr b" "e = b @ replicate (32 - length b) 0" by (auto simp: results)
  with hexArg_length [OF b(1)] show ?thesis by (simp add: TBytesN okBytes_def)
qed (use assms in \<open>auto simp: be_nat_word\<close>)

text \<open>A JavaScript array has fewer than 2^32 elements.\<close>

fun arraysOk :: "jsval \<Rightarrow> bool" where
  "arraysOk (VArr vs) = (length vs < 2 ^ 32 \<and> list_all arraysOk vs)"
| "arraysOk _ = True"

lemma enc_decodes:
  "enc t v = Inr e \<Longrightarrow> wfType t \<Longrightarrow> length e < 2 ^ 256 \<Longrightarrow> arraysOk v \<Longrightarrow> dec t (e @ r) = mean t v"
proof (induction t arbitrary: v e r)
  case (TArray t len)
  then obtain vs es where *: "v = VArr vs" "mapE (enc t) vs = Inr es" "wfType t" "(case len of None \<Rightarrow> True | Some n \<Rightarrow> length vs = n)"
      "e = (if len = None then word (int (length vs)) else []) @ assemble (map (Pair (dynamic t)) es)"
    by (auto simp: results split: jsval.splits if_splits option.splits)
  let ?A = "assemble (map (Pair (dynamic t)) es)"
  have small: "length ?A < 2 ^ 256" using *(5) TArray.prems(3) by simp
  have l: "length es = length vs" by (rule mapE_Inr_length [OF *(2)])
  have len: "i < length es \<Longrightarrow> length (es ! i) \<le> length ?A" for i
  proof -
    assume i: "i < length es"
    have "map (Pair (dynamic t)) es = map (Pair (dynamic t)) (take i es) @ (dynamic t, es ! i) # map (Pair (dynamic t)) (drop (Suc i) es)"
      using arg_cong [OF id_take_nth_drop [OF i], of "map (Pair (dynamic t))"] by simp
    then show ?thesis by (cases "dynamic t") (simp_all add: assemble_def)
  qed
  have enc_i: "i < length es \<Longrightarrow> enc t (vs ! i) = Inr (es ! i)" for i
    using *(2) by (simp add: mapE_Inr_iff list_all2_conv_all_nth)
  have body: "map (\<lambda>i. memberAt (dynamic t) (dec t) (i * slot t) (?A @ r)) [0..<length es] = map (mean t) vs"
    unfolding slot_def
  proof (rule members_assemble)
    fix i r assume i: "i < length es"
    show "dec t (es ! i @ r) = map (mean t) vs ! i"
      using TArray.IH [OF enc_i [OF i] *(3), of r] len [OF i] small i l TArray.prems(4) *(1) by (simp add: list_all_length)
  qed (use small l in \<open>auto simp: in_set_conv_nth intro!: static_length [OF enc_i _ *(3)]\<close>)
  have "length vs < 2 ^ 256" using TArray.prems(4) *(1) by simp
  then have n: "be_nat (word (int (length vs))) = length vs" by (rule be_nat_word_nat)
  show ?case
  proof (cases len)
    case (Some k)
    with * l body show ?thesis by simp
  next
    case None
    with * l body n show ?thesis by simp
  qed
qed (rule enc_scalar; simp)+

section \<open>Calldata\<close>

lemma decTuple_assemble:
  assumes "length ts = length vs" "mapE (\<lambda>(t, v). enc t v) (zip ts vs) = Inr es" "list_all wfType ts" "list_all arraysOk vs"
    and "length (assemble (pre @ zip (map dynamic ts) es)) < 2 ^ 256"
  shows "decTuple ts (headSize pre) (assemble (pre @ zip (map dynamic ts) es) @ r) = map2 mean ts vs"
  using assms
proof (induction ts vs arbitrary: pre es rule: list_induct2)
  case (Cons t ts v vs)
  from Cons.prems obtain e es' where e: "enc t v = Inr e" "mapE (\<lambda>(t, v). enc t v) (zip ts vs) = Inr es'" "es = e # es'"
    by (auto simp: results)
  let ?ys = "zip (map dynamic ts) es'"
  have small: "length (assemble (pre @ (dynamic t, e) # ?ys)) < 2 ^ 256" using Cons.prems(4) e(3) by simp
  have "length e \<le> length (assemble (pre @ (dynamic t, e) # ?ys))"
    by (cases "dynamic t") (simp_all add: assemble_def)
  then have "dec t (e @ r') = mean t v" for r'
    using enc_decodes [OF e(1)] Cons.prems(2,3) small by simp
  then have "memberAt (dynamic t) (dec t) (headSize pre) (assemble (pre @ (dynamic t, e) # ?ys) @ r) = mean t v"
    using small by (rule memberAt_assemble)
  moreover have "headSize (pre @ [(dynamic t, e)]) = headSize pre + slot t"
    using static_length [OF e(1)] Cons.prems(2) by (simp add: slot_def)
  ultimately show ?case
    using Cons.IH [of es' "pre @ [(dynamic t, e)]"] e Cons.prems(2,3) small by simp
qed simp

lemma encodeTuple_decodes:
  assumes "encodeTuple ts vs = Inr b" "length ts = length vs" "list_all wfType ts" "list_all arraysOk vs" "length b < 2 ^ 256"
  shows "decTuple ts 0 (b @ r) = map2 mean ts vs"
proof -
  obtain es where es: "mapE (\<lambda>(t, v). enc t v) (zip ts vs) = Inr es" "b = assemble (zip (map dynamic ts) es)"
    using assms(1) by (auto simp: encodeTuple_def results)
  show ?thesis using decTuple_assemble [OF assms(2) es(1) assms(3,4), of "[]" r] es(2) assms(5) by simp
qed

lemma parseType_wf: "parseType s = Inr t \<Longrightarrow> wfType t"
proof (induction s arbitrary: t rule: parseType.induct)
  case (1 s)
  show ?case
  proof (cases "splitArray s")
    case None
    with "1.prems" show ?thesis
      by (subst (asm) parseType.simps) (auto simp: Let_def split: if_splits)
  next
    case (Some p)
    obtain a d where p: "p = (a, d)" by (cases p)
    with Some "1.prems" obtain u where "parseType a = Inr u" "\<exists>n. t = TArray u n"
      by (subst (asm) parseType.simps) (auto simp: results)
    with "1.IH" [OF Some p [symmetric]] show ?thesis by auto
  qed
qed

lemma mapE_parseType_wf: "mapE parseType ss = Inr ts \<Longrightarrow> list_all wfType ts"
  by (induction ss arbitrary: ts) (auto simp: results dest: parseType_wf)

lemma length_toHex [simp]: "length (toHex b) = 2 * length b"
  by (induction b) (simp_all add: toHex_def)

lemma encodeCall_parts:
  assumes "encodeCall K sig args = Inr s"
  obtains name types ts body where "parseSignature sig = Inr (name, types)" "mapE parseType types = Inr ts"
    "length args = length ts" "s = ''0x'' @ toHex (take 4 (K (utf8 (name @ ''('' @ joinWith '','' types @ '')''))) @ body)"
    "encodeTuple ts args = Inr body" "list_all wfType ts"
proof -
  from assms obtain name types ts body where *: "parseSignature sig = Inr (name, types)" "mapE parseType types = Inr ts"
    "length args = length types" "s = ''0x'' @ toHex (take 4 (K (utf8 (name @ ''('' @ joinWith '','' types @ '')''))) @ body)"
    "encodeTuple ts args = Inr body"
    by (auto simp: encodeCall_def results Let_def split: prod.splits if_splits)
  with mapE_Inr_length [OF *(2)] mapE_parseType_wf [OF *(2)] that show thesis by metis
qed

text \<open>
  C36. Calldata means what the caller wrote: when \<open>encodeCall\<close> answers, and the array arguments and the text are of representable length, the text is a
  four-byte selector followed by a body that a contract - reading each member through the head and its offsets - decodes to exactly the values of the
  arguments, whatever the nesting of arrays, strings and byte strings. The selector is that of the name and the types as the caller spelled them,
  trimmed; a type spelled otherwise than canonically (\<open>uint\<close>, \<open>uint08\<close>) is read as the type it means, but hashed as spelled.
\<close>

theorem encodeCall_decodes:
  assumes "encodeCall K sig args = Inr s" and "list_all arraysOk args" and "length s < 2 ^ 256"
  shows "\<exists>name types ts body. parseSignature sig = Inr (name, types) \<and> mapE parseType types = Inr ts \<and> length ts = length args \<and>
    s = ''0x'' @ toHex (take 4 (K (utf8 (name @ ''('' @ joinWith '','' types @ '')''))) @ body) \<and>
    decTuple ts 0 body = map2 mean ts args"
proof -
  obtain name types ts body where *: "parseSignature sig = Inr (name, types)" "mapE parseType types = Inr ts"
    "length args = length ts" "s = ''0x'' @ toHex (take 4 (K (utf8 (name @ ''('' @ joinWith '','' types @ '')''))) @ body)"
    "encodeTuple ts args = Inr body" "list_all wfType ts"
    using assms(1) by (rule encodeCall_parts)
  have "length body \<le> length s" using *(4) by simp
  then have "length body < 2 ^ 256" using assms(3) by (rule le_less_trans)
  from encodeTuple_decodes [OF *(5) *(3) [symmetric] *(6) assms(2) this, of "[]"] * show ?thesis by auto
qed

text \<open>A type under another name: the selector is that of the spelling, \<open>f(uint)\<close>, not of the signature a contract has, \<open>f(uint256)\<close>.\<close>

lemma alias_selector:
  "parseType ''uint'' = parseType ''uint256''"
  "encodeCall K ''f(uint)'' [VStr ''1''] = Inr (''0x'' @ toHex (take 4 (K (utf8 ''f(uint)'')) @ word 1))"
  "encodeCall K ''f(uint256)'' [VStr ''1''] = Inr (''0x'' @ toHex (take 4 (K (utf8 ''f(uint256)'')) @ word 1))"
proof -
  have p: "parseSignature ''f(uint)'' = Inr (''f'', [''uint''])" "parseSignature ''f(uint256)'' = Inr (''f'', [''uint256''])"
    "parseType ''uint'' = Inr (TUint 256)" "parseType ''uint256'' = Inr (TUint 256)"
    "encodeTuple [TUint 256] [VStr ''1''] = Inr (word 1)" "joinWith '','' [''uint''] = ''uint''" "joinWith '','' [''uint256''] = ''uint256''"
    by code_simp+
  show "parseType ''uint'' = parseType ''uint256''" by (simp only: p)
  show "encodeCall K ''f(uint)'' [VStr ''1''] = Inr (''0x'' @ toHex (take 4 (K (utf8 ''f(uint)'')) @ word 1))"
    "encodeCall K ''f(uint256)'' [VStr ''1''] = Inr (''0x'' @ toHex (take 4 (K (utf8 ''f(uint256)'')) @ word 1))"
    by (simp_all add: encodeCall_def p)
qed

text \<open>
  No two readings of one calldata: if two argument lists give the same calldata for the same signature, the arguments mean the
  same values, type by type. A gateway that returns the expected calldata for signing cannot have changed an argument.
\<close>

theorem encodeCall_injective:
  assumes "encodeCall K sig args = Inr s" "encodeCall K sig args' = Inr s" "list_all arraysOk args" "list_all arraysOk args'"
    and "length s < 2 ^ 256"
  shows "\<exists>name types ts. parseSignature sig = Inr (name, types) \<and> mapE parseType types = Inr ts \<and> map2 mean ts args = map2 mean ts args'"
proof -
  obtain name types ts body where a: "parseSignature sig = Inr (name, types)" "mapE parseType types = Inr ts"
    "length args = length ts" "s = ''0x'' @ toHex (take 4 (K (utf8 (name @ ''('' @ joinWith '','' types @ '')''))) @ body)"
    "encodeTuple ts args = Inr body" "list_all wfType ts"
    using assms(1) by (rule encodeCall_parts)
  obtain name' types' ts' body' where b: "parseSignature sig = Inr (name', types')" "mapE parseType types' = Inr ts'"
    "length args' = length ts'" "s = ''0x'' @ toHex (take 4 (K (utf8 (name' @ ''('' @ joinWith '','' types' @ '')''))) @ body')"
    "encodeTuple ts' args' = Inr body'" "list_all wfType ts'"
    using assms(2) by (rule encodeCall_parts)
  have eq: "types' = types" "ts' = ts" "name' = name" using a(1,2) b(1,2) by simp_all
  then have "body' = body" using a(4) b(4) by (auto simp: toHex_inj)
  have "length body < 2 ^ 256" by (rule le_less_trans [OF _ assms(5)]) (simp add: a(4))
  with encodeTuple_decodes [OF a(5) a(3) [symmetric] a(6) assms(3), of "[]"]
    encodeTuple_decodes [OF b(5) b(3) [symmetric] b(6) assms(4), of "[]"] eq \<open>body' = body\<close>
  have "map2 mean ts args = map2 mean ts args'" by simp
  with a(1,2) show ?thesis by blast
qed

text \<open>A call with a dynamic argument, on which both properties apply; the hash is the message padded to 32 bytes.\<close>

definition demoHash :: "bytes \<Rightarrow> bytes" where
  "demoHash b = take 32 (b @ replicate 32 0)"

definition demoBody :: "bytes" where
  "demoBody = replicate 31 0 @ [32] @ replicate 31 0 @ [1] @ replicate 31 0 @ [1]"

lemma demo_parse: "parseSignature ''f(uint8[])'' = Inr (''f'', [''uint8[]''])"
  by code_simp

lemma demo_types: "parseType ''uint8[]'' = Inr (TArray (TUint 8) None)"
  by code_simp

lemma demo_number: "encodeTuple [TArray (TUint 8) None] [VArr [VNum (Some 1) ''1'']] = Inr demoBody"
  by code_simp

lemma demo_bool: "encodeTuple [TArray (TUint 8) None] [VArr [VBool True]] = Inr demoBody"
  by code_simp

definition demoCall :: "string" where
  "demoCall = ''0x'' @ toHex (take 4 (demoHash (utf8 ''f(uint8[])'')) @ demoBody)"

lemma demo_facts:
  "encodeCall demoHash ''f(uint8[])'' [VArr [VNum (Some 1) ''1'']] = Inr demoCall"
  "encodeCall demoHash ''f(uint8[])'' [VArr [VBool True]] = Inr demoCall"
  by (simp_all add: encodeCall_def demo_parse demo_types demo_number demo_bool demoCall_def joinWith_def)

lemma demo_length: "length demoCall < 2 ^ 256"
  by (simp add: demoCall_def demoHash_def demoBody_def utf8_def)

theorem encodeCall_decodes_witness:
  "\<exists>name types ts body. parseSignature ''f(uint8[])'' = Inr (name, types) \<and> mapE parseType types = Inr ts \<and>
    length ts = length [VArr [VNum (Some 1) ''1'']] \<and>
    demoCall = ''0x'' @ toHex (take 4 (demoHash (utf8 (name @ ''('' @ joinWith '','' types @ '')''))) @ body) \<and>
    decTuple ts 0 body = map2 mean ts [VArr [VNum (Some 1) ''1'']]"
  by (rule encodeCall_decodes [OF demo_facts(1) _ demo_length]) simp

theorem encodeCall_injective_witness:
  "\<exists>name types ts. parseSignature ''f(uint8[])'' = Inr (name, types) \<and> mapE parseType types = Inr ts \<and>
    map2 mean ts [VArr [VNum (Some 1) ''1'']] = map2 mean ts [VArr [VBool True]]"
  by (rule encodeCall_injective [OF demo_facts(1,2) _ _ demo_length]) simp_all

end
