(* ===== verification/GoUrl.thy ===== *)
theory GoUrl
  imports Hex
begin

text \<open>
  Accumulate's URL parser and writer of \<open>packages/verify/src/sigtypes/gourl.ts\<close>: the parts of Go's \<open>net/url\<close> that \<open>Parse\<close> uses, and
  Accumulate's own \<open>Parse\<close> and \<open>String\<close> on top. The strings of that file are binary strings, one JavaScript character per byte, so
  they are lists of 8-bit characters here. \<open>None\<close> is the \<open>undefined\<close> the code returns where Go returns an error.
\<close>

section \<open>Text\<close>

definition code :: "char \<Rightarrow> nat" where
  "code c = of_char c"

definition binaryString :: "bytes \<Rightarrow> string" where
  "binaryString b = map (\<lambda>x. char_of (unat x)) b"

definition binaryBytes :: "string \<Rightarrow> bytes" where
  "binaryBytes s = map (\<lambda>c. of_nat (code c)) s"

text \<open>
  \<open>goText\<close>: the code points Go reads from a byte string, U+FFFD for every byte of an invalid sequence. \<open>sequence c\<close> is the number of
  continuation bytes, the least value that needs them, and the bits of the first byte; \<open>continuation\<close> folds the bytes that follow.
\<close>

definition sequence :: "nat \<Rightarrow> (nat \<times> nat \<times> nat) option" where
  "sequence c =
     (if 0xc2 \<le> c \<and> c \<le> 0xdf then Some (1, 0x80, c mod 0x20)
      else if 0xe0 \<le> c \<and> c \<le> 0xef then Some (2, 0x800, c mod 0x10)
      else if 0xf0 \<le> c \<and> c \<le> 0xf4 then Some (3, 0x10000, c mod 0x08)
      else None)"

fun continuation :: "nat \<Rightarrow> nat \<Rightarrow> string \<Rightarrow> nat option" where
  "continuation cp 0 s = Some cp"
| "continuation cp (Suc k) [] = None"
| "continuation cp (Suc k) (c # s) = (if code c div 64 = 2 then continuation (cp * 64 + code c mod 64) k s else None)"

definition runeAt :: "char \<Rightarrow> string \<Rightarrow> (nat \<times> nat) option" where
  "runeAt c s =
     (case sequence (code c) of
        None \<Rightarrow> None
      | Some (need, lo, bits) \<Rightarrow>
          (case continuation bits need s of
             None \<Rightarrow> None
           | Some cp \<Rightarrow> if cp < lo \<or> cp > 0x10ffff \<or> (0xd800 \<le> cp \<and> cp \<le> 0xdfff) then None else Some (cp, need)))"

function goText :: "string \<Rightarrow> nat list" where
  "goText [] = []"
| "goText (c # s) =
     (if code c < 0x80 then code c # goText s
      else case runeAt c s of
             None \<Rightarrow> 0xfffd # goText s
           | Some (cp, need) \<Rightarrow> cp # goText (drop need s))"
  by pat_completeness auto
termination
  by (relation "measure length") auto

section \<open>Escaping (net/url)\<close>

datatype mode = Host | Zone | Path | PathSegment | UserPassword | QueryComponent | Fragment

definition isAlnum :: "char \<Rightarrow> bool" where
  "isAlnum ch = (let c = code ch in (0x61 \<le> c \<and> c \<le> 0x7a) \<or> (0x41 \<le> c \<and> c \<le> 0x5a) \<or> (0x30 \<le> c \<and> c \<le> 0x39))"

definition ishex :: "char \<Rightarrow> bool" where
  "ishex ch = (let c = code ch in (0x30 \<le> c \<and> c \<le> 0x39) \<or> (0x61 \<le> c \<and> c \<le> 0x66) \<or> (0x41 \<le> c \<and> c \<le> 0x46))"

text \<open>\<open>unhex\<close> of a hex digit; setting bit \<open>0x20\<close> takes an upper-case letter to its lower case.\<close>

definition unhex :: "char \<Rightarrow> nat" where
  "unhex ch = (let c = code ch in if c \<le> 0x39 then c - 0x30 else (if c < 0x60 then c + 0x20 else c) - 0x61 + 10)"

definition shouldEscape :: "char \<Rightarrow> mode \<Rightarrow> bool" where
  "shouldEscape ch mode =
     (if isAlnum ch then False
      else if (mode = Host \<or> mode = Zone) \<and> ch \<in> set (''!$&'' @ [CHR 0x27] @ ''()*+,;=:[]<>'' @ [CHR 0x22]) then False
      else if ch \<in> set ''-_.~'' then False
      else if ch \<in> set ''$&+,/:;=?@'' \<and> mode = Path then ch = CHR ''?''
      else if ch \<in> set ''$&+,/:;=?@'' \<and> mode = PathSegment then ch = CHR ''/'' \<or> ch = CHR '';'' \<or> ch = CHR '','' \<or> ch = CHR ''?''
      else if ch \<in> set ''$&+,/:;=?@'' \<and> mode = UserPassword then ch = CHR ''@'' \<or> ch = CHR ''/'' \<or> ch = CHR ''?'' \<or> ch = CHR '':''
      else if ch \<in> set ''$&+,/:;=?@'' \<and> mode = QueryComponent then True
      else if ch \<in> set ''$&+,/:;=?@'' \<and> mode = Fragment then False
      else if mode = Fragment \<and> ch \<in> set ''!()*'' then False
      else True)"

text \<open>The two loops of \<open>unescape\<close>: the check of every escape and character, then the decoding.\<close>

fun unescapeOk :: "mode \<Rightarrow> string \<Rightarrow> bool" where
  "unescapeOk mode [] = True"
| "unescapeOk mode (c # s) =
     (if c = CHR 0x25 then
        (case s of
           a # b # r \<Rightarrow>
             ishex a \<and> ishex b \<and>
             \<not> (mode = Host \<and> unhex a < 8 \<and> [a, b] \<noteq> ''25'') \<and>
             \<not> (mode = Zone \<and> [a, b] \<noteq> ''25'' \<and> unhex a * 16 + unhex b \<noteq> 0x20 \<and> shouldEscape (char_of (unhex a * 16 + unhex b)) Host) \<and>
             unescapeOk mode r
         | _ \<Rightarrow> False)
      else \<not> ((mode = Host \<or> mode = Zone) \<and> code c < 0x80 \<and> shouldEscape c mode) \<and> unescapeOk mode s)"

fun unescapeText :: "string \<Rightarrow> string" where
  "unescapeText (c # a # b # s) =
     (if c = CHR 0x25 then char_of (unhex a * 16 + unhex b) # unescapeText s else c # unescapeText (a # b # s))"
| "unescapeText s = s"

definition unescape :: "string \<Rightarrow> mode \<Rightarrow> string option" where
  "unescape s mode =
     (if \<not> unescapeOk mode s then None
      else if CHR 0x25 \<notin> set s then Some s
      else Some (unescapeText s))"

definition upperHex :: "nat \<Rightarrow> char" where
  "upperHex n = char_of (if n < 10 then 48 + n else 55 + n)"

definition escape :: "string \<Rightarrow> mode \<Rightarrow> string" where
  "escape s mode =
     concat (map (\<lambda>c. if shouldEscape c mode then [CHR 0x25, upperHex (code c div 16), upperHex (code c mod 16)] else [c]) s)"

definition validOptionalPort :: "string \<Rightarrow> bool" where
  "validOptionalPort port =
     (case port of [] \<Rightarrow> True | p # ds \<Rightarrow> p = CHR '':'' \<and> list_all (\<lambda>c. 0x30 \<le> code c \<and> code c \<le> 0x39) ds)"

definition validUserinfo :: "string \<Rightarrow> bool" where
  "validUserinfo s =
     list_all (\<lambda>c. isAlnum c \<or> c \<in> set (''-._:~!$&'' @ [CHR 0x27] @ ''()*+,;=%@'')) s"

section \<open>Splitting at a character\<close>

text \<open>
  \<open>cut c s\<close> splits at \<open>s.indexOf(c)\<close>, \<open>cutLast c s\<close> at \<open>s.lastIndexOf(c)\<close>: what is before, and what is after when there is one.
  \<open>cutSub p s\<close> is the part before \<open>s.indexOf(p)\<close> and the rest from there on.
\<close>

definition cut :: "char \<Rightarrow> string \<Rightarrow> string \<times> string option" where
  "cut c s = (takeWhile (\<lambda>x. x \<noteq> c) s, case dropWhile (\<lambda>x. x \<noteq> c) s of [] \<Rightarrow> None | _ # r \<Rightarrow> Some r)"

definition cutLast :: "char \<Rightarrow> string \<Rightarrow> (string \<times> string) option" where
  "cutLast c s =
     (case dropWhile (\<lambda>x. x \<noteq> c) (rev s) of [] \<Rightarrow> None | _ # r \<Rightarrow> Some (rev r, rev (takeWhile (\<lambda>x. x \<noteq> c) (rev s))))"

fun cutSub :: "string \<Rightarrow> string \<Rightarrow> (string \<times> string) option" where
  "cutSub p s =
     (if take (length p) s = p then Some ([], s)
      else case s of [] \<Rightarrow> None | c # r \<Rightarrow> map_option (\<lambda>(a, b). (c # a, b)) (cutSub p r))"

declare cutSub.simps [simp del]

section \<open>Parsing (net/url)\<close>

definition parseHost :: "string \<Rightarrow> string option" where
  "parseHost host =
     (if take 1 host = ''['' then
        (case cutLast (CHR '']'') host of
           None \<Rightarrow> None
         | Some (inside, port) \<Rightarrow>
             if \<not> validOptionalPort port then None
             else (case cutSub ''%25'' inside of
                     Some (h1, zone) \<Rightarrow>
                       (case (unescape h1 Host, unescape zone Zone, unescape (CHR '']'' # port) Host) of
                          (Some a, Some b, Some c) \<Rightarrow> Some (a @ b @ c)
                        | _ \<Rightarrow> None)
                   | None \<Rightarrow> unescape host Host))
      else
        (case cutLast (CHR '':'') host of
           None \<Rightarrow> unescape host Host
         | Some (_, port) \<Rightarrow> if \<not> validOptionalPort (CHR '':'' # port) then None else unescape host Host))"

record net_url =
  nu_scheme :: string
  nu_host :: string
  nu_user :: string
  nu_path :: string
  nu_query :: string
  nu_fragment :: string

definition emptyUrl :: "net_url" where
  "emptyUrl = \<lparr> nu_scheme = [], nu_host = [], nu_user = [], nu_path = [], nu_query = [], nu_fragment = [] \<rparr>"

text \<open>
  The labelled loop \<open>scheme\<close>: \<open>pre\<close> are the characters passed so far and \<open>whole\<close> the string it runs over. \<open>None\<close> is the missing
  protocol scheme; a string without a scheme is its own rest.
\<close>

fun getScheme :: "string \<Rightarrow> string \<Rightarrow> string \<Rightarrow> (string \<times> string) option" where
  "getScheme whole pre [] = Some ([], whole)"
| "getScheme whole pre (ch # s) =
     (let c = code ch in
      if (0x61 \<le> c \<and> c \<le> 0x7a) \<or> (0x41 \<le> c \<and> c \<le> 0x5a) then getScheme whole (pre @ [ch]) s
      else if (0x30 \<le> c \<and> c \<le> 0x39) \<or> c = 0x2b \<or> c = 0x2d \<or> c = 0x2e then
        (if pre = [] then Some ([], whole) else getScheme whole (pre @ [ch]) s)
      else if c = 0x3a then (if pre = [] then None else Some (map lowerChar pre, s))
      else Some ([], whole))"

definition splitQuery :: "string \<Rightarrow> string \<times> string" where
  "splitQuery rest =
     (if rest \<noteq> [] \<and> last rest = CHR ''?'' \<and> length (filter (\<lambda>c. c = CHR ''?'') rest) = 1 then (butlast rest, [])
      else (case cut (CHR ''?'') rest of (a, None) \<Rightarrow> (a, []) | (a, Some q) \<Rightarrow> (a, q)))"

definition parseUser :: "string \<Rightarrow> string option" where
  "parseUser userinfo =
     (if \<not> validUserinfo userinfo then None
      else case cut (CHR '':'') userinfo of
             (n, None) \<Rightarrow> unescape n UserPassword
           | (n, Some p) \<Rightarrow>
               (case (unescape n UserPassword, unescape p UserPassword) of
                  (Some name, Some pass) \<Rightarrow> Some (if pass = [] then name else name @ CHR '':'' # pass)
                | _ \<Rightarrow> None))"

definition parseAuthority :: "string \<Rightarrow> (string \<times> string) option" where
  "parseAuthority authority =
     (case cutLast (CHR ''@'') authority of
        None \<Rightarrow> map_option (Pair []) (parseHost authority)
      | Some (ui, h) \<Rightarrow>
          (case parseHost h of
             None \<Rightarrow> None
           | Some host \<Rightarrow> map_option (\<lambda>user. (user, host)) (parseUser ui)))"

definition parsePath :: "net_url \<Rightarrow> string \<Rightarrow> net_url option" where
  "parsePath url rest = map_option (\<lambda>p. url\<lparr> nu_path := p \<rparr>) (unescape rest Path)"

definition parse :: "string \<Rightarrow> net_url option" where
  "parse rawUrl =
     (if list_ex (\<lambda>c. code c < 0x20 \<or> code c = 0x7f) rawUrl then None
      else if rawUrl = ''*'' then Some (emptyUrl\<lparr> nu_path := ''*'' \<rparr>)
      else
        (case getScheme rawUrl [] rawUrl of
           None \<Rightarrow> None
         | Some (scheme, rest0) \<Rightarrow>
             (let (rest, query) = splitQuery rest0;
                  url = emptyUrl\<lparr> nu_scheme := scheme, nu_query := query \<rparr> in
              if take 1 rest \<noteq> ''/'' \<and> scheme \<noteq> [] then Some url
              else if take 1 rest \<noteq> ''/'' \<and> CHR '':'' \<in> set (fst (cut (CHR ''/'') rest)) then None
              else if (scheme \<noteq> [] \<or> take 3 rest \<noteq> ''///'') \<and> take 2 rest = ''//'' then
                (let (authority, tail) = cut (CHR ''/'') (drop 2 rest) in
                 (case parseAuthority authority of
                    None \<Rightarrow> None
                  | Some (user, host) \<Rightarrow>
                      parsePath (url\<lparr> nu_user := user, nu_host := host \<rparr>)
                        (case tail of None \<Rightarrow> [] | Some t \<Rightarrow> CHR ''/'' # t)))
              else parsePath url rest)))"

definition netUrlParse :: "string \<Rightarrow> net_url option" where
  "netUrlParse rawUrl =
     (let (u, fr) = cut (CHR ''#'') rawUrl; frag = (case fr of None \<Rightarrow> [] | Some f \<Rightarrow> f) in
      (case parse u of
         None \<Rightarrow> None
       | Some url \<Rightarrow>
           if frag \<noteq> [] then map_option (\<lambda>f. url\<lparr> nu_fragment := f \<rparr>) (unescape frag Fragment) else Some url))"

section \<open>Accumulate's Parse and String\<close>

record acc_parts =
  ap_userInfo :: string
  ap_authority :: string
  ap_path :: string
  ap_query :: string
  ap_fragment :: string

definition accParse :: "string \<Rightarrow> acc_parts option" where
  "accParse s =
     (let u0 = netUrlParse s;
          u = (case u0 of Some v \<Rightarrow> if nu_scheme v = [] then netUrlParse (''acc://'' @ s) else Some v | None \<Rightarrow> None) in
      (case u of
         None \<Rightarrow> None
       | Some v \<Rightarrow>
           if nu_scheme v \<noteq> ''acc'' then None
           else if nu_host v = [] \<or> hd (nu_host v) = CHR '':'' then None
           else Some \<lparr> ap_userInfo = nu_user v, ap_authority = nu_host v, ap_path = nu_path v, ap_query = nu_query v,
                       ap_fragment = nu_fragment v \<rparr>))"

definition trimSlashes :: "string \<Rightarrow> string" where
  "trimSlashes s = rev (dropWhile (\<lambda>c. c = CHR ''/'') (rev (dropWhile (\<lambda>c. c = CHR ''/'') s)))"

definition normalizePath :: "string \<Rightarrow> string" where
  "normalizePath s = (let t = trimSlashes s in if t = [] then [] else CHR ''/'' # t)"

text \<open>The loop over the segments of a path that starts with a slash.\<close>

function formatSegments :: "string \<Rightarrow> string" where
  "formatSegments [] = []"
| "formatSegments (x # p) =
     CHR ''/'' # escape (takeWhile (\<lambda>c. c \<noteq> CHR ''/'') p) PathSegment @ formatSegments (dropWhile (\<lambda>c. c \<noteq> CHR ''/'') p)"
  by pat_completeness auto
termination
  by (relation "measure length") (auto simp: le_imp_less_Suc length_dropWhile_le)

definition accFormat :: "acc_parts \<Rightarrow> string option \<Rightarrow> string" where
  "accFormat u txid =
     ''acc://'' @
     (case txid of
        Some t \<Rightarrow> t @ ''@''
      | None \<Rightarrow> if ap_userInfo u \<noteq> [] then ap_userInfo u @ ''@'' else []) @
     ap_authority u @ formatSegments (normalizePath (ap_path u)) @
     (if ap_query u \<noteq> [] then CHR ''?'' # ap_query u else []) @
     (if ap_fragment u \<noteq> [] then CHR ''#'' # ap_fragment u else [])"

definition canonicalAccUrl :: "string \<Rightarrow> string option" where
  "canonicalAccUrl s = map_option (\<lambda>u. accFormat u None) (accParse s)"

definition canonicalAccTxId :: "string \<Rightarrow> string option" where
  "canonicalAccTxId s =
     (case accParse s of
        None \<Rightarrow> None
      | Some u \<Rightarrow>
          if ap_userInfo u = [] then None
          else if \<not> (list_all ishex (ap_userInfo u) \<and> even (length (ap_userInfo u))) \<or> length (ap_userInfo u) \<noteq> 64 then None
          else Some (accFormat (u\<lparr> ap_userInfo := [] \<rparr>) (Some (map lowerChar (ap_userInfo u)))))"

section \<open>Escaping round trip\<close>

lemma code_char_of: "n < 256 \<Longrightarrow> code (char_of n) = n"
  by (simp add: code_def)

lemma code_less [simp]: "code c < 256"
  by (simp add: code_def)

lemma char_of_code [simp]: "char_of (code c) = c"
  by (simp add: code_def)

lemma code_upperHex: "n < 16 \<Longrightarrow> code (upperHex n) = (if n < 10 then 48 + n else 55 + n)"
  by (simp add: upperHex_def code_char_of)

lemma ishex_upperHex: "n < 16 \<Longrightarrow> ishex (upperHex n)"
  by (simp add: ishex_def code_upperHex Let_def)

lemma unhex_upperHex: "n < 16 \<Longrightarrow> unhex (upperHex n) = n"
  by (simp add: unhex_def code_upperHex Let_def)

lemma nibbles: "code c div 16 < 16" "code c mod 16 < 16" "code c div 16 * 16 + code c mod 16 = code c"
  using code_less [of c] by (simp_all add: less_mult_imp_div_less del: code_less)

lemma percent_escaped: "mode \<noteq> Fragment \<Longrightarrow> shouldEscape (CHR 0x25) mode"
  by (cases mode) (simp_all add: shouldEscape_def isAlnum_def code_def)

lemma escape_Cons: "escape (c # s) mode = escape [c] mode @ escape s mode"
  by (simp add: escape_def)

lemma escape_Nil [simp]: "escape [] mode = []"
  by (simp add: escape_def)

lemma unescapeText_plain: "c \<noteq> CHR 0x25 \<Longrightarrow> unescapeText (c # s) = c # unescapeText s"
  by (cases "c # s" rule: unescapeText.cases) auto

text \<open>Escaping for a segment and reading as a path are inverse, wherever the text ends up.\<close>

lemma unescapeOk_escape_append: "unescapeOk Path (escape s PathSegment @ r) = unescapeOk Path r"
proof (induction s)
  case (Cons c s)
  show ?case
  proof (cases "shouldEscape c PathSegment")
    case True
    with Cons show ?thesis
      by (simp add: escape_Cons [of c s] escape_def [of "[c]"] ishex_upperHex nibbles)
  next
    case False
    then have "c \<noteq> CHR 0x25" using percent_escaped [of PathSegment] by auto
    with False Cons show ?thesis
      by (simp add: escape_Cons [of c s] escape_def [of "[c]"])
  qed
qed simp

lemma unescapeText_escape_append: "unescapeText (escape s PathSegment @ r) = s @ unescapeText r"
proof (induction s)
  case (Cons c s)
  show ?case
  proof (cases "shouldEscape c PathSegment")
    case True
    with Cons show ?thesis
      by (simp add: escape_Cons [of c s] escape_def [of "[c]"] unhex_upperHex nibbles)
  next
    case False
    then have "c \<noteq> CHR 0x25" using percent_escaped [of PathSegment] by auto
    with False Cons show ?thesis
      by (simp add: escape_Cons [of c s] escape_def [of "[c]"] unescapeText_plain)
  qed
qed simp

lemma unescapeText_no_percent: "CHR 0x25 \<notin> set s \<Longrightarrow> unescapeText s = s"
  by (induction s) (auto simp: unescapeText_plain)

lemma unescape_eq: "unescape s mode = (if unescapeOk mode s then Some (unescapeText s) else None)"
  by (auto simp: unescape_def unescapeText_no_percent)

fun slashed :: "string \<Rightarrow> bool" where
  "slashed [] = True"
| "slashed (c # p) = (c = CHR ''/'')"

lemma slashed_dropWhile: "slashed (dropWhile (\<lambda>c. c \<noteq> CHR ''/'') p)"
proof (induction p)
  case (Cons c p)
  then show ?case by (cases "c = CHR ''/''") simp_all
qed simp

lemma slash_plain: "unescapeOk Path (CHR ''/'' # s) = unescapeOk Path s" "unescapeText (CHR ''/'' # s) = CHR ''/'' # unescapeText s"
  by (simp_all add: unescapeText_plain)

lemma unescape_formatSegments: "slashed p \<Longrightarrow> unescape (formatSegments p) Path = Some p"
  unfolding unescape_eq
proof (induction p rule: formatSegments.induct)
  case (2 x p)
  have ih: "unescapeOk Path (formatSegments (dropWhile (\<lambda>c. c \<noteq> CHR ''/'') p))"
    "unescapeText (formatSegments (dropWhile (\<lambda>c. c \<noteq> CHR ''/'') p)) = dropWhile (\<lambda>c. c \<noteq> CHR ''/'') p"
    using 2 slashed_dropWhile [of p] by (simp_all split: if_splits)
  show ?case using 2(2)
    by (simp add: slash_plain unescapeOk_escape_append unescapeText_escape_append ih del: unescapeOk.simps)
qed simp

section \<open>The writer's text read back\<close>

text \<open>The characters the writer puts in a path: none of them ends a path, starts another component or is a control character.\<close>

definition inPath :: "char \<Rightarrow> bool" where
  "inPath c \<longleftrightarrow> c \<noteq> CHR ''?'' \<and> c \<noteq> CHR ''#'' \<and> \<not> code c < 0x20 \<and> code c \<noteq> 0x7f"

definition marks :: "string" where
  "marks = ''-_.~'' @ ''$&+,/:;=?@''"

lemma marks_code: "list_all (\<lambda>c. 0x20 \<le> code c \<and> code c \<noteq> 0x7f) marks"
  by code_simp

lemma unmarked_escaped: "\<not> isAlnum c \<Longrightarrow> c \<notin> set marks \<Longrightarrow> shouldEscape c PathSegment"
  unfolding shouldEscape_def marks_def set_append by (simp del: list.set)

lemma control_escaped: "code c < 0x20 \<or> code c = 0x7f \<Longrightarrow> shouldEscape c PathSegment"
proof (rule unmarked_escaped)
  assume c: "code c < 0x20 \<or> code c = 0x7f"
  then show "\<not> isAlnum c" unfolding isAlnum_def Let_def by linarith
  show "c \<notin> set marks"
  proof
    assume "c \<in> set marks"
    with marks_code have "0x20 \<le> code c \<and> code c \<noteq> 0x7f" unfolding list_all_iff by (rule bspec)
    with c show False by linarith
  qed
qed

lemma unescaped_inPath: "\<not> shouldEscape c PathSegment \<Longrightarrow> inPath c"
proof -
  assume c: "\<not> shouldEscape c PathSegment"
  have "shouldEscape (CHR ''?'') PathSegment" "shouldEscape (CHR ''#'') PathSegment"
    by (simp_all add: shouldEscape_def isAlnum_def code_def)
  with c have "c \<noteq> CHR ''?''" "c \<noteq> CHR ''#''" by metis+
  with c control_escaped [of c] show ?thesis by (auto simp: inPath_def)
qed

lemma upperHex_inPath: "n < 16 \<Longrightarrow> inPath (upperHex n)"
proof -
  assume n: "n < 16"
  then have "code (upperHex n) \<ge> 48 \<and> code (upperHex n) \<le> 70 \<and> code (upperHex n) \<noteq> 63" by (auto simp: code_upperHex)
  moreover have "code (CHR ''?'') = 63" "code (CHR ''#'') = 35" by (simp_all add: code_def)
  ultimately show ?thesis unfolding inPath_def by auto
qed

lemma escape_inPath: "list_all inPath (escape s PathSegment)"
proof (induction s)
  case (Cons c s)
  have "inPath (CHR 0x25)" by (simp add: inPath_def code_def)
  with Cons show ?case
    by (auto simp: escape_Cons [of c s] escape_def [of "[c]"] upperHex_inPath nibbles unescaped_inPath)
qed simp

lemma formatSegments_inPath: "list_all inPath (formatSegments p)"
proof (induction p rule: formatSegments.induct)
  case (2 x p)
  moreover have "inPath (CHR ''/'')" by (simp add: inPath_def code_def)
  ultimately show ?case using escape_inPath by simp
qed simp

lemma formatSegments_slashed: "slashed (formatSegments p)"
  by (cases p) simp_all

lemma slashed_normalizePath: "slashed (normalizePath s)"
  by (simp add: normalizePath_def Let_def)

lemma cut_none: "c \<notin> set a \<Longrightarrow> cut c a = (a, None)"
proof -
  assume "c \<notin> set a"
  then have "\<forall>x\<in>set a. x \<noteq> c" by blast
  then have "takeWhile (\<lambda>x. x \<noteq> c) a = a" "dropWhile (\<lambda>x. x \<noteq> c) a = []"
    unfolding takeWhile_eq_all_conv dropWhile_eq_Nil_conv by blast+
  then show ?thesis by (simp add: cut_def del: dropWhile_eq_Nil_conv takeWhile_eq_all_conv)
qed

lemma cut_some: "c \<notin> set a \<Longrightarrow> cut c (a @ c # r) = (a, Some r)"
proof -
  assume c: "c \<notin> set a"
  have "takeWhile (\<lambda>x. x \<noteq> c) (a @ c # r) = a" using c by (induction a) auto
  moreover have "dropWhile (\<lambda>x. x \<noteq> c) (a @ c # r) = c # r" using c by (induction a) auto
  ultimately show ?thesis by (simp add: cut_def)
qed

lemma cutLast_none: "c \<notin> set a \<Longrightarrow> cutLast c a = None"
proof -
  assume "c \<notin> set a"
  then have "dropWhile (\<lambda>x. x \<noteq> c) (rev a) = []" unfolding dropWhile_eq_Nil_conv set_rev by blast
  then show ?thesis by (simp add: cutLast_def del: dropWhile_eq_Nil_conv)
qed

lemma unescapeOk_fragment: "CHR 0x25 \<notin> set f \<Longrightarrow> unescapeOk Fragment f"
  by (induction f) auto

lemma splitQuery_none: "CHR ''?'' \<notin> set r \<Longrightarrow> splitQuery r = (r, [])"
  by (cases "r = []") (auto simp: splitQuery_def cut_none dest: last_in_set)

lemma splitQuery_some: "CHR ''?'' \<notin> set r \<Longrightarrow> q \<noteq> [] \<Longrightarrow> splitQuery (r @ CHR ''?'' # q) = (r, q)"
proof -
  assume r: "CHR ''?'' \<notin> set r" and q: "q \<noteq> []"
  let ?f = "filter (\<lambda>c. c = CHR ''?'')"
  have "?f r = []" using r by (auto simp: filter_empty_conv)
  moreover have "?f q \<noteq> []" if "last q = CHR ''?''"
    using that last_in_set [OF q] by (auto simp: filter_empty_conv)
  ultimately show ?thesis using q by (auto simp: splitQuery_def cut_some [OF r])
qed

lemma getScheme_acc: "getScheme (''acc:'' @ r) [] (''acc:'' @ r) = Some (''acc'', r)"
  by (simp add: code_def Let_def lowerChar_def)

definition plainHost :: "string \<Rightarrow> bool" where
  "plainHost h \<longleftrightarrow> h \<noteq> [] \<and> hd h \<noteq> CHR '':'' \<and> parseHost h = Some h \<and>
     list_all (\<lambda>c. c \<noteq> CHR ''/'' \<and> c \<noteq> CHR ''@'' \<and> inPath c) h"

definition plainQuery :: "string \<Rightarrow> bool" where
  "plainQuery q \<longleftrightarrow> list_all (\<lambda>c. c \<noteq> CHR ''#'' \<and> \<not> code c < 0x20 \<and> code c \<noteq> 0x7f) q"

lemma inPathD: "list_all inPath s \<Longrightarrow> CHR ''?'' \<notin> set s \<and> CHR ''#'' \<notin> set s \<and> \<not> list_ex (\<lambda>c. code c < 0x20 \<or> code c = 0x7f) s"
  by (induction s) (auto simp: inPath_def)

lemma plainHostD:
  assumes "plainHost h"
  shows "list_all inPath h" "CHR ''/'' \<notin> set h" "CHR ''@'' \<notin> set h" "parseHost h = Some h"
  using assms by (auto simp: plainHost_def list_all_iff)

lemma plainQueryD: "plainQuery q \<Longrightarrow> \<not> list_ex (\<lambda>c. code c < 0x20 \<or> code c = 0x7f) q"
  unfolding plainQuery_def by (induction q) simp_all

lemma code_question: "code (CHR ''?'') = 63"
  by (simp add: code_def)

text \<open>\<open>netUrlParse\<close> on the writer's form, component by component.\<close>

lemma parse_writer:
  assumes h: "plainHost h" and p: "slashed p" and q: "plainQuery q"
  shows "parse (''acc://'' @ h @ formatSegments p @ (if q \<noteq> [] then CHR ''?'' # q else [])) =
    Some \<lparr> nu_scheme = ''acc'', nu_host = h, nu_user = [], nu_path = p, nu_query = q, nu_fragment = [] \<rparr>"
proof -
  let ?F = "formatSegments p" and ?Q = "if q \<noteq> [] then CHR ''?'' # q else []"
  let ?rest = "''//'' @ h @ ?F"
  note hd = plainHostD [OF h] and F = formatSegments_inPath [of p]
  have pre: "list_all inPath ''acc://''" by (simp add: inPath_def code_def)
  have "\<not> list_ex (\<lambda>c. code c < 0x20 \<or> code c = 0x7f) ?Q"
    using plainQueryD [OF q] by (cases "q = []") (simp_all add: code_question)
  then have ctl: "\<not> list_ex (\<lambda>c. code c < 0x20 \<or> code c = 0x7f) (''acc://'' @ h @ ?F @ ?Q)"
    using inPathD [OF pre] inPathD [OF hd(1)] inPathD [OF F] by (simp only: list_ex_append simp_thms)
  have r: "CHR ''?'' \<notin> set ?rest" using inPathD [OF hd(1)] inPathD [OF F] by simp
  have split: "splitQuery (?rest @ ?Q) = (?rest, q)"
    using splitQuery_none [OF r] splitQuery_some [OF r, of q] by (cases "q = []") simp_all
  have cut: "cut (CHR ''/'') (h @ ?F) = (h, if ?F = [] then None else Some (tl ?F))"
  proof (cases ?F)
    case (Cons c s)
    then have "c = CHR ''/''" using formatSegments_slashed [of p] by simp
    then show ?thesis using Cons cut_some [OF hd(2), of s] by simp
  qed (simp add: cut_none hd(2))
  have tail: "(case (if ?F = [] then None else Some (tl ?F)) of None \<Rightarrow> [] | Some t \<Rightarrow> CHR ''/'' # t) = ?F"
    using formatSegments_slashed [of p] by (cases ?F) simp_all
  have sch: "getScheme (''acc://'' @ h @ ?F @ ?Q) [] (''acc://'' @ h @ ?F @ ?Q) = Some (''acc'', ?rest @ ?Q)"
    using getScheme_acc [of "''//'' @ h @ ?F @ ?Q"] by simp
  have auth: "parseAuthority h = Some ([], h)" by (simp add: parseAuthority_def cutLast_none hd)
  show ?thesis
    unfolding parse_def if_not_P [OF ctl] sch option.case prod.case split Let_def
    using cut tail auth unescape_formatSegments [OF p]
    by (simp add: parsePath_def emptyUrl_def)
qed

lemma trimSlashes_idem: "trimSlashes (trimSlashes s) = trimSlashes s"
proof -
  have lead: "dropWhile (\<lambda>c. c = CHR ''/'') (trimSlashes s) = trimSlashes s"
  proof (cases "trimSlashes s")
    case (Cons c r)
    let ?d = "dropWhile (\<lambda>c. c = CHR ''/'') s"
    obtain u where "?d = trimSlashes s @ u"
      unfolding trimSlashes_def using takeWhile_dropWhile_id [of "\<lambda>c. c = CHR ''/''" "rev ?d"] by (metis rev_append rev_rev_ident)
    then have "hd ?d = c" "?d \<noteq> []" using Cons by simp_all
    then have "c \<noteq> CHR ''/''" using hd_dropWhile [of "\<lambda>c. c = CHR ''/''" s] by simp
    then show ?thesis using Cons by simp
  qed simp
  have "dropWhile (\<lambda>c. c = CHR ''/'') (rev (trimSlashes s)) = rev (trimSlashes s)"
    by (simp add: trimSlashes_def)
  then show ?thesis unfolding trimSlashes_def [of "trimSlashes s"] lead by simp
qed

lemma normalizePath_idem: "normalizePath (normalizePath s) = normalizePath s"
proof -
  have "trimSlashes (CHR ''/'' # t) = trimSlashes t" for t by (simp add: trimSlashes_def)
  moreover have "trimSlashes [] = []" by (simp add: trimSlashes_def)
  ultimately show ?thesis by (auto simp: normalizePath_def Let_def trimSlashes_idem)
qed

lemma writer_fixpoint:
  assumes "ap_userInfo u = []" and "plainHost (ap_authority u)" and "plainQuery (ap_query u)" and "CHR 0x25 \<notin> set (ap_fragment u)"
  shows "accParse (accFormat u None) = Some (u\<lparr> ap_path := normalizePath (ap_path u) \<rparr>) \<and>
    canonicalAccUrl (accFormat u None) = Some (accFormat u None)"
proof -
  let ?h = "ap_authority u" and ?q = "ap_query u" and ?f = "ap_fragment u" and ?p = "normalizePath (ap_path u)"
  let ?Q = "if ?q \<noteq> [] then CHR ''?'' # ?q else []"
  let ?B = "''acc://'' @ ?h @ formatSegments ?p @ ?Q"
  have "CHR ''#'' \<notin> set ?B"
    using inPathD [OF plainHostD(1) [OF assms(2)]] inPathD [OF formatSegments_inPath [of ?p]] assms(3)
    by (auto simp: plainQuery_def list_all_iff)
  note c = cut_none [OF this] cut_some [OF this, of ?f]
  have uf: "unescape ?f Fragment = Some ?f"
    using assms(4) by (simp add: unescape_def unescapeOk_fragment)
  have fmt: "accFormat u None = ?B @ (if ?f \<noteq> [] then CHR ''#'' # ?f else [])"
    by (simp add: accFormat_def assms(1))
  have "netUrlParse (accFormat u None) =
      Some \<lparr> nu_scheme = ''acc'', nu_host = ?h, nu_user = [], nu_path = ?p, nu_query = ?q, nu_fragment = ?f \<rparr>"
    unfolding fmt netUrlParse_def using c uf parse_writer [OF assms(2) slashed_normalizePath assms(3), of "ap_path u"]
    by (cases "?f = []") (simp_all del: append.simps append_assoc)
  then have "accParse (accFormat u None) = Some (u\<lparr> ap_path := ?p \<rparr>)"
    using assms(1,2) by (simp add: accParse_def Let_def plainHost_def)
  moreover have "accFormat (u\<lparr> ap_path := ?p \<rparr>) None = accFormat u None"
    by (simp add: accFormat_def normalizePath_idem)
  ultimately show ?thesis by (simp add: canonicalAccUrl_def)
qed


definition demoUrl :: "acc_parts" where
  "demoUrl = \<lparr> ap_userInfo = [], ap_authority = ''a.acme:80'', ap_path = ''//x y/%'', ap_query = ''k?'', ap_fragment = ''f'' \<rparr>"


section \<open>UTF-8\<close>

definition scalar :: "nat \<Rightarrow> bool" where
  "scalar cp \<longleftrightarrow> cp \<le> 0x10ffff \<and> \<not> (0xd800 \<le> cp \<and> cp \<le> 0xdfff)"

definition utf8Of :: "nat \<Rightarrow> string" where
  "utf8Of cp = map char_of
     (if cp < 0x80 then [cp]
      else if cp < 0x800 then [0xc0 + cp div 64, 0x80 + cp mod 64]
      else if cp < 0x10000 then [0xe0 + cp div 64 div 64, 0x80 + cp div 64 mod 64, 0x80 + cp mod 64]
      else [0xf0 + cp div 64 div 64 div 64, 0x80 + cp div 64 div 64 mod 64, 0x80 + cp div 64 mod 64, 0x80 + cp mod 64])"

lemma mod_split: "(a :: nat) < m \<Longrightarrow> (m * k + a) mod m = a \<and> (m * k + a) div m = k"
  by simp

lemma continuation_step:
  assumes "b < 64"
  shows "continuation acc (Suc k) (char_of (0x80 + b) # s) = continuation (acc * 64 + b) k s"
proof -
  have "code (char_of (0x80 + b)) = 0x80 + b" using assms by (intro code_char_of) simp
  moreover have "(0x80 + b) div 64 = 2" "(0x80 + b) mod 64 = b" using mod_split [of b 64 2] assms by simp_all
  ultimately show ?thesis by (simp only: continuation.simps if_True simp_thms)
qed

lemma sequence_lead:
  "2 \<le> a \<Longrightarrow> a < 32 \<Longrightarrow> sequence (0xc0 + a) = Some (1, 0x80, a)"
  "a < 16 \<Longrightarrow> sequence (0xe0 + a) = Some (2, 0x800, a)"
  "a \<le> 4 \<Longrightarrow> sequence (0xf0 + a) = Some (3, 0x10000, a)"
proof -
  assume a: "2 \<le> a" "a < 32"
  then have "(0xc0 + a) mod 0x20 = a" using mod_split [of a "0x20" 6] by simp
  with a show "sequence (0xc0 + a) = Some (1, 0x80, a)" by (simp add: sequence_def)
next
  assume a: "a < 16"
  then have "(0xe0 + a) mod 0x10 = a" using mod_split [of a "0x10" 14] by simp
  with a show "sequence (0xe0 + a) = Some (2, 0x800, a)" by (simp add: sequence_def)
next
  assume a: "a \<le> 4"
  then have "(0xf0 + a) mod 0x08 = a" using mod_split [of a 8 30] by simp
  with a show "sequence (0xf0 + a) = Some (3, 0x10000, a)" by (simp add: sequence_def)
qed

lemma runeAt_lead:
  assumes "sequence a = Some (k, lo, x)" "a < 256" "continuation x k s = Some cp" "scalar cp" "lo \<le> cp"
  shows "runeAt (char_of a) s = Some (cp, k)"
  using assms by (auto simp: runeAt_def code_char_of scalar_def)

lemma goText_lead: "runeAt c s = Some (cp, k) \<Longrightarrow> 0x80 \<le> code c \<Longrightarrow> goText (c # s) = cp # goText (drop k s)"
  by simp

lemma goText_utf8Of: "scalar cp \<Longrightarrow> goText (utf8Of cp @ s) = cp # goText s"
proof -
  assume cp: "scalar cp"
  define b where "b = cp mod 64"
  define q where "q = cp div 64"
  define c where "c = q mod 64"
  define r where "r = q div 64"
  define d where "d = r mod 64"
  define t where "t = r div 64"
  have eq: "cp = q * 64 + b" "q = r * 64 + c" "r = t * 64 + d" "b < 64" "c < 64" "d < 64"
    by (simp_all add: b_def q_def c_def r_def d_def t_def)
  have le: "cp \<le> 0x10ffff" using cp by (simp add: scalar_def)
  consider "cp < 0x80" | "0x80 \<le> cp" "cp < 0x800" | "0x800 \<le> cp" "cp < 0x10000" | "0x10000 \<le> cp" by linarith
  then show ?thesis
  proof cases
    case 1
    then show ?thesis by (simp add: utf8Of_def code_char_of)
  next
    case 2
    then have q: "2 \<le> q" "q < 32" using eq by linarith+
    have "runeAt (char_of (0xc0 + q)) (char_of (0x80 + b) # s) = Some (cp, 1)"
    proof (rule runeAt_lead [OF sequence_lead(1) [OF q] _ _ cp 2(1)])
      show "continuation q 1 (char_of (0x80 + b) # s) = Some cp"
        unfolding One_nat_def continuation_step [OF eq(4)] by (simp add: eq(1))
    qed (use q in simp)
    moreover have "0x80 \<le> code (char_of (0xc0 + q))" using q by (simp add: code_char_of)
    moreover have "utf8Of cp = [char_of (0xc0 + q), char_of (0x80 + b)]" using 2 by (simp add: utf8Of_def b_def q_def)
    ultimately show ?thesis by (simp del: goText.simps add: goText_lead)
  next
    case 3
    then have r: "r < 16" using eq by linarith
    have "runeAt (char_of (0xe0 + r)) (char_of (0x80 + c) # char_of (0x80 + b) # s) = Some (cp, 2)"
    proof (rule runeAt_lead [OF sequence_lead(2) [OF r] _ _ cp 3(1)])
      show "continuation r 2 (char_of (0x80 + c) # char_of (0x80 + b) # s) = Some cp"
        unfolding numeral_2_eq_2 continuation_step [OF eq(4)] continuation_step [OF eq(5)] by (simp add: eq(1,2))
    qed (use r in simp)
    moreover have "0x80 \<le> code (char_of (0xe0 + r))" using r by (simp add: code_char_of)
    moreover have "utf8Of cp = [char_of (0xe0 + r), char_of (0x80 + c), char_of (0x80 + b)]"
      using 3 by (simp add: utf8Of_def b_def q_def c_def r_def)
    ultimately show ?thesis by (simp del: goText.simps add: goText_lead)
  next
    case 4
    then have t: "t \<le> 4" using eq le by linarith
    have "runeAt (char_of (0xf0 + t)) (char_of (0x80 + d) # char_of (0x80 + c) # char_of (0x80 + b) # s) = Some (cp, 3)"
    proof (rule runeAt_lead [OF sequence_lead(3) [OF t] _ _ cp 4])
      show "continuation t 3 (char_of (0x80 + d) # char_of (0x80 + c) # char_of (0x80 + b) # s) = Some cp"
        unfolding numeral_3_eq_3 continuation_step [OF eq(4)] continuation_step [OF eq(5)] continuation_step [OF eq(6)]
        by (simp add: eq(1-3))
    qed (use t in simp)
    moreover have "0x80 \<le> code (char_of (0xf0 + t))" using t by (simp add: code_char_of)
    moreover have "utf8Of cp = [char_of (0xf0 + t), char_of (0x80 + d), char_of (0x80 + c), char_of (0x80 + b)]"
      using 4 by (simp add: utf8Of_def b_def q_def c_def r_def d_def t_def)
    ultimately show ?thesis by (simp del: goText.simps add: goText_lead)
  qed
qed

text \<open>
  \<open>goText\<close> reads every valid UTF-8 string back: the encoding of any sequence of code points (surrogates excluded) decodes to exactly
  that sequence, with no replacement character put in.
\<close>

theorem goText_utf8: "list_all scalar cps \<Longrightarrow> goText (concat (map utf8Of cps)) = cps"
  by (induction cps) (simp_all add: goText_utf8Of)

theorem goText_utf8_witness: "goText (concat (map utf8Of [0x41, 0xe9, 0x20ac, 0x1f600])) = [0x41, 0xe9, 0x20ac, 0x1f600]"
  by (rule goText_utf8) (simp add: scalar_def)

end
