(* ===== verification/AccUrl.thy ===== *)
theory AccUrl
  imports GoUrl Text
begin

text \<open>
  Accumulate's URL as a value and the protocol helpers over it: \<open>packages/verify/src/s3/acc.ts\<close>. A JavaScript string is its UTF-8
  bytes, so \<open>toBinary\<close> is the identity and \<open>AccUrl.parse\<close> is \<open>AccUrl.fromBinary\<close>; \<open>sha256\<close> (Node's crypto) is the parameter \<open>H\<close>.
\<close>

section \<open>TextDecoder\<close>

text \<open>
  The decoder of the Encoding standard, on bytes: a valid sequence is kept, and every maximal invalid one becomes U+FFFD. A byte order mark
  in front is dropped.
\<close>

definition leadByte :: "nat \<Rightarrow> (nat \<times> nat \<times> nat) option" where
  "leadByte c =
     (if 0xc2 \<le> c \<and> c \<le> 0xdf then Some (1, 0x80, 0xbf)
      else if c = 0xe0 then Some (2, 0xa0, 0xbf)
      else if c = 0xed then Some (2, 0x80, 0x9f)
      else if 0xe1 \<le> c \<and> c \<le> 0xef then Some (2, 0x80, 0xbf)
      else if c = 0xf0 then Some (3, 0x90, 0xbf)
      else if c = 0xf4 then Some (3, 0x80, 0x8f)
      else if 0xf1 \<le> c \<and> c \<le> 0xf3 then Some (3, 0x80, 0xbf)
      else None)"

fun contTaken :: "nat \<Rightarrow> nat \<Rightarrow> nat \<Rightarrow> string \<Rightarrow> nat" where
  "contTaken lo hi k [] = 0"
| "contTaken lo hi k (c # s) =
     (if 0 < k \<and> lo \<le> code c \<and> code c \<le> hi then Suc (contTaken 0x80 0xbf (k - 1) s) else 0)"

function decodeBytes :: "string \<Rightarrow> string" where
  "decodeBytes [] = []"
| "decodeBytes (c # s) =
     (if code c < 0x80 then c # decodeBytes s
      else case leadByte (code c) of
             None \<Rightarrow> [CHR 0xef, CHR 0xbf, CHR 0xbd] @ decodeBytes s
           | Some (k, lo, hi) \<Rightarrow>
               (let n = contTaken lo hi k s in
                if n = k then c # take k s @ decodeBytes (drop k s)
                else [CHR 0xef, CHR 0xbf, CHR 0xbd] @ decodeBytes (drop n s)))"
  by pat_completeness auto
termination
  by (relation "measure length") auto

definition textDecode :: "string \<Rightarrow> string" where
  "textDecode s = decodeBytes (if take 3 s = [CHR 0xef, CHR 0xbb, CHR 0xbf] then drop 3 s else s)"

fun unescapeBytes :: "string \<Rightarrow> string" where
  "unescapeBytes (c # a # b # s) =
     (if c = CHR 0x25 \<and> ishex a \<and> ishex b then char_of (unhex a * 16 + unhex b) # unescapeBytes s
      else c # unescapeBytes (a # b # s))"
| "unescapeBytes s = s"

definition unescapePath :: "string \<Rightarrow> string" where
  "unescapePath escaped = textDecode (unescapeBytes escaped)"

section \<open>url.URL\<close>

record acc_url =
  au_authority :: string
  au_path :: string
  au_userInfo :: string
  au_query :: string
  au_fragment :: string

definition mkUrl :: "string \<Rightarrow> string \<Rightarrow> string \<Rightarrow> acc_url" where
  "mkUrl authority path userInfo =
     \<lparr> au_authority = authority, au_path = path, au_userInfo = userInfo, au_query = [], au_fragment = [] \<rparr>"

definition optText :: "string option \<Rightarrow> string" where
  "optText t = (case t of None \<Rightarrow> [] | Some s \<Rightarrow> s)"

text \<open>\<open>AccUrl.fromBinary\<close>, which takes the writer's form apart again.\<close>

definition fromBinary :: "string \<Rightarrow> acc_url option" where
  "fromBinary bin =
     (case canonicalAccUrl bin of
        None \<Rightarrow> None
      | Some canon \<Rightarrow>
          (let (rest1, frag) = cut (CHR ''#'') (drop 6 (textDecode canon));
               (rest2, query) = cut (CHR ''?'') rest1;
               head = fst (cut (CHR ''/'') rest2);
               (userInfo, rest3) = (case cutLast (CHR ''@'') head of None \<Rightarrow> ([], rest2) | Some (ui, _) \<Rightarrow> (ui, drop (length ui + 1) rest2));
               (authority, tail) = cut (CHR ''/'') rest3;
               path = (case tail of None \<Rightarrow> [] | Some t \<Rightarrow> joinWith ''/'' (map unescapePath (splitOn (CHR ''/'') (CHR ''/'' # t))))
           in Some \<lparr> au_authority = authority, au_path = path, au_userInfo = userInfo, au_query = optText query,
                     au_fragment = optText frag \<rparr>))"

definition pathKeep :: "char \<Rightarrow> bool" where
  "pathKeep c \<longleftrightarrow> isAlnum c \<or> c \<in> set ''-_.~'' \<or> c \<in> set ''$&+=:@''"

definition pathEscape :: "string \<Rightarrow> string" where
  "pathEscape seg = concat (map (\<lambda>c. if pathKeep c then [c] else [CHR 0x25, upperHex (code c div 16), upperHex (code c mod 16)]) seg)"

text \<open>\<open>toString\<close>\<close>

definition urlString :: "acc_url \<Rightarrow> string" where
  "urlString u =
     ''acc://'' @ (if au_userInfo u \<noteq> [] then au_userInfo u @ ''@'' else []) @ au_authority u @
     (let trimmed = trimSlashes (au_path u) in
      if trimmed \<noteq> [] then concat (map (\<lambda>seg. CHR ''/'' # pathEscape seg) (splitOn (CHR ''/'') trimmed)) else []) @
     (if au_query u \<noteq> [] then CHR ''?'' # au_query u else []) @
     (if au_fragment u \<noteq> [] then CHR ''#'' # au_fragment u else [])"

text \<open>\<open>get key()\<close>\<close>

definition urlKey :: "acc_url \<Rightarrow> string" where
  "urlKey u = goLower (urlString u)"

text \<open>\<open>equal\<close> with a URL, and with the null or undefined the callers pass for an absent one.\<close>

definition urlEqual :: "acc_url \<Rightarrow> acc_url \<Rightarrow> bool" where
  "urlEqual u v = goEqualFold (urlString u) (urlString v)"

definition rootIdentity :: "acc_url \<Rightarrow> acc_url" where
  "rootIdentity u = mkUrl (au_authority u) [] (au_userInfo u)"

definition isRootIdentity :: "acc_url \<Rightarrow> bool" where
  "isRootIdentity u = (au_path u = [] \<or> au_path u = ''/'')"

definition urlParent :: "acc_url \<Rightarrow> acc_url \<times> bool" where
  "urlParent u =
     (let p = (if au_path u \<noteq> [] \<and> last (au_path u) = CHR ''/'' then butlast (au_path u) else au_path u) in
      if p = [] then (mkUrl (au_authority u) p (au_userInfo u), False)
      else (mkUrl (au_authority u) (case cutLast (CHR ''/'') p of None \<Rightarrow> [] | Some (a, _) \<Rightarrow> a) (au_userInfo u), True))"

text \<open>\<open>identity\<close>\<close>

definition urlIdentity :: "acc_url \<Rightarrow> acc_url" where
  "urlIdentity u = fst (urlParent u)"

definition parentOf :: "acc_url \<Rightarrow> acc_url \<Rightarrow> bool" where
  "parentOf u v = (let (p, ok) = urlParent v in ok \<and> urlEqual u p)"

text \<open>\<open>path.Clean\<close>'s loop over the segments, with the segments kept so far.\<close>

fun cleanSegments :: "bool \<Rightarrow> string list \<Rightarrow> string list \<Rightarrow> string list" where
  "cleanSegments rooted out [] = out"
| "cleanSegments rooted out (seg # segs) =
     (if seg = [] \<or> seg = ''.'' then cleanSegments rooted out segs
      else if seg = ''..'' then
        (if out \<noteq> [] \<and> last out \<noteq> ''..'' then cleanSegments rooted (butlast out) segs
         else if \<not> rooted then cleanSegments rooted (out @ [''..'']) segs
         else cleanSegments rooted out segs)
      else cleanSegments rooted (out @ [seg]) segs)"

definition pathJoin :: "string list \<Rightarrow> string" where
  "pathJoin elems =
     (let joined = joinWith ''/'' (filter (\<lambda>e. e \<noteq> []) elems) in
      if joined = [] then []
      else
        let rooted = (take 1 joined = ''/'');
            body = joinWith ''/'' (cleanSegments rooted [] (splitOn (CHR ''/'') joined)) in
        if rooted then CHR ''/'' # body else if body = [] then ''.'' else body)"

definition joinPath :: "acc_url \<Rightarrow> string list \<Rightarrow> acc_url" where
  "joinPath u segments =
     (if segments = [] then u
      else u\<lparr> au_path := pathJoin ((if au_path u = [] then ''/'' else au_path u) # segments) \<rparr>)"

definition hostname :: "acc_url \<Rightarrow> string" where
  "hostname u = fst (cut (CHR '':'') (au_authority u))"

definition identityAccountId :: "(bytes \<Rightarrow> bytes) \<Rightarrow> acc_url \<Rightarrow> bytes" where
  "identityAccountId H u = H (binaryBytes (goLower (hostname u)))"

text \<open>\<open>routing\<close>\<close>

definition routingNumber :: "(bytes \<Rightarrow> bytes) \<Rightarrow> acc_url \<Rightarrow> nat" where
  "routingNumber H u = be_nat (take 8 (identityAccountId H u))"

section \<open>Protocol helpers\<close>

definition TLD :: "string" where
  "TLD = ''.acme''"

definition BVN_PREFIX :: "string" where
  "BVN_PREFIX = ''bvn-''"

definition DIRECTORY :: "string" where
  "DIRECTORY = ''Directory''"

definition dnUrl :: "acc_url" where
  "dnUrl = mkUrl (''dn'' @ TLD) [] []"

definition partitionUrl :: "string \<Rightarrow> acc_url" where
  "partitionUrl part = (if goEqualFold part DIRECTORY then dnUrl else mkUrl (BVN_PREFIX @ part @ TLD) [] [])"

definition isDnUrl :: "acc_url \<Rightarrow> bool" where
  "isDnUrl u = urlEqual dnUrl (rootIdentity u)"

definition parsePartitionUrl :: "acc_url \<Rightarrow> string option" where
  "parsePartitionUrl u =
     (if isDnUrl u then Some DIRECTORY
      else
        let a = au_authority u in
        if take (length BVN_PREFIX) a \<noteq> BVN_PREFIX \<or> \<not> (length TLD \<le> length a \<and> drop (length a - length TLD) a = TLD) then None
        else if length a < length BVN_PREFIX + length TLD then None
        else Some (drop (length BVN_PREFIX) (take (length a - length TLD) a)))"

definition isUnknown :: "acc_url \<Rightarrow> bool" where
  "isUnknown u = (goEqualFold (au_authority u) ''unknown'' \<or> goEqualFold (au_authority u) (''unknown'' @ TLD))"

definition formatKeyPageUrl :: "acc_url \<Rightarrow> nat \<Rightarrow> acc_url" where
  "formatKeyPageUrl book pageIndex = joinPath book [decNat (pageIndex + 1)]"

definition parseKeyPageUrl :: "acc_url \<Rightarrow> (acc_url \<times> nat) option" where
  "parseKeyPageUrl page =
     (case cutLast (CHR ''/'') (au_path page) of
        None \<Rightarrow> None
      | Some (_, tail) \<Rightarrow>
          (let digits = (if take 1 tail = ''+'' then drop 1 tail else tail) in
           if digits = [] \<or> \<not> list_all isDigit digits then None
           else if decValue digits > 0xffff then None
           else Some (urlIdentity page, decValue digits)))"

definition hexDecode :: "string \<Rightarrow> bytes option" where
  "hexDecode s = fromHex (map lowerChar s)"

definition parseLiteAddress :: "(bytes \<Rightarrow> bytes) \<Rightarrow> acc_url \<Rightarrow> bytes option" where
  "parseLiteAddress H u =
     (case hexDecode (hostname u) of
        None \<Rightarrow> None
      | Some b \<Rightarrow>
          if length b \<le> 4 then None
          else
            let i = length b - 4;
                hexValue = take (length (au_authority u) - 8) (au_authority u);
                sum = H (binaryBytes hexValue) in
            if drop i b \<noteq> drop (length sum - 4) sum then None else Some (take i b))"

definition parseLiteIdentity :: "(bytes \<Rightarrow> bytes) \<Rightarrow> acc_url \<Rightarrow> bytes option" where
  "parseLiteIdentity H u =
     (if au_path u \<noteq> [] \<and> au_path u \<noteq> ''/'' then None
      else case parseLiteAddress H u of None \<Rightarrow> None | Some b \<Rightarrow> if length b = 20 then Some b else None)"

definition parseLiteTokenAddress :: "(bytes \<Rightarrow> bytes) \<Rightarrow> acc_url \<Rightarrow> bytes option" where
  "parseLiteTokenAddress H u =
     (if au_path u = [] \<or> length (au_path u) = 1 then None
      else case parseLiteAddress H u of None \<Rightarrow> None | Some b \<Rightarrow> if length b = 20 then Some (take 20 b) else None)"

definition payerOf :: "(bytes \<Rightarrow> bytes) \<Rightarrow> acc_url \<Rightarrow> acc_url" where
  "payerOf H signer =
     (if parseLiteIdentity H signer = None \<and> parseLiteTokenAddress H signer \<noteq> None then rootIdentity signer else signer)"

section \<open>Paths and their segments\<close>

lemma joinWith_single [simp]: "joinWith sep [s] = s"
  by (simp add: joinWith_def)

lemma joinWith_slashes: "CHR ''/'' # joinWith ''/'' (s # ss) = concat (map ((#) (CHR ''/'')) (s # ss))"
proof -
  have "(@) ''/'' = (#) (CHR ''/'')" by (rule ext) simp
  then show ?thesis by (simp add: joinWith_def)
qed

lemma splitOn_segments:
  "list_all (\<lambda>s. CHR ''/'' \<notin> set s) ss \<Longrightarrow> splitOn (CHR ''/'') (a @ concat (map ((#) (CHR ''/'')) ss)) =
     (hd (splitOn (CHR ''/'') a)) # ss \<or> CHR ''/'' \<in> set a"
proof (induction ss arbitrary: a)
  case Nil
  then show ?case by (cases "CHR ''/'' \<in> set a") (simp_all add: splitOn_no)
next
  case (Cons s ss)
  show ?case
  proof (cases "CHR ''/'' \<in> set a")
    case False
    have "splitOn (CHR ''/'') (s @ concat (map ((#) (CHR ''/'')) ss)) = s # ss"
      using Cons.IH [of s] Cons.prems by (auto simp: splitOn_no)
    then show ?thesis using False by (simp add: splitOn_append splitOn_no)
  qed simp
qed

lemma split_segments:
  "list_all (\<lambda>s. CHR ''/'' \<notin> set s) ss \<Longrightarrow> splitOn (CHR ''/'') (concat (map ((#) (CHR ''/'')) ss)) = [] # ss"
  using splitOn_segments [of ss "[]"] by simp

lemma joinWith_splitOn: "joinWith [d] (splitOn d s) = s"
proof (induction s)
  case (Cons c s)
  obtain w ws where w: "splitOn d s = w # ws" by (cases "splitOn d s") auto
  with Cons show ?case by (cases ws) (auto simp: joinWith_def)
qed (simp add: joinWith_def)

lemma splitOn_clean: "x \<in> set (splitOn d s) \<Longrightarrow> d \<notin> set x"
proof (induction s arbitrary: x)
  case (Cons c s)
  show ?case
  proof (cases "c = d")
    case True
    with Cons show ?thesis by auto
  next
    case False
    have *: "hd (splitOn d s) \<in> set (splitOn d s)" "set (tl (splitOn d s)) \<subseteq> set (splitOn d s)"
      by (simp, metis list.set_sel(2) splitOn_nonempty subsetI)
    from False Cons.prems have "x = c # hd (splitOn d s) \<or> x \<in> set (tl (splitOn d s))" by simp
    with * Cons.IH False show ?thesis by auto
  qed
qed simp

lemma cutLast_some: "c \<notin> set b \<Longrightarrow> cutLast c (a @ c # b) = Some (a, b)"
proof -
  assume b: "c \<notin> set b"
  have *: "takeWhile (\<lambda>x. x \<noteq> c) (r @ c # t) = r \<and> dropWhile (\<lambda>x. x \<noteq> c) (r @ c # t) = c # t" if "c \<notin> set r" for r t
    using that by (induction r) auto
  have "takeWhile (\<lambda>x. x \<noteq> c) (rev b @ c # rev a) = rev b" "dropWhile (\<lambda>x. x \<noteq> c) (rev b @ c # rev a) = c # rev a"
    using * [of "rev b" "rev a"] b by auto
  then show ?thesis by (simp add: cutLast_def)
qed

section \<open>Key page URLs\<close>

definition cleanSegment :: "string \<Rightarrow> bool" where
  "cleanSegment s \<longleftrightarrow> s \<noteq> [] \<and> s \<noteq> ''.'' \<and> s \<noteq> ''..'' \<and> CHR ''/'' \<notin> set s"

definition cleanPath :: "string \<Rightarrow> bool" where
  "cleanPath p \<longleftrightarrow> (\<exists>ss. p = concat (map ((#) (CHR ''/'')) ss) \<and> list_all cleanSegment ss)"

lemma cleanSegments_clean: "list_all cleanSegment ss \<Longrightarrow> cleanSegments r out ss = out @ ss"
  by (induction ss arbitrary: out) (auto simp: cleanSegment_def)

lemma clean_no_slash: "list_all cleanSegment ss \<Longrightarrow> list_all (\<lambda>s. CHR ''/'' \<notin> set s) ss"
  by (induction ss) (auto simp: cleanSegment_def)

lemma decNat_clean: "cleanSegment (decNat n)"
proof -
  have "list_all isDigit (decNat n)" "decNat n \<noteq> []" using decNat_digits by blast+
  moreover have "\<not> isDigit (CHR ''/'')" "\<not> isDigit (CHR ''.'')" by (simp_all add: isDigit_def)
  ultimately show ?thesis unfolding cleanSegment_def by (auto simp: list_all_iff)
qed

lemma plus_no_digit: "\<not> isDigit (CHR ''+'')"
  by (simp add: isDigit_def)

lemma joinPath_clean:
  assumes ss: "au_path u = concat (map ((#) (CHR ''/'')) ss)" "list_all cleanSegment ss" and d: "cleanSegment d"
  shows "au_path (joinPath u [d]) = concat (map ((#) (CHR ''/'')) (ss @ [d]))"
proof -
  have d0: "d \<noteq> []" and all: "list_all cleanSegment (ss @ [d])" using d ss(2) by (simp_all add: cleanSegment_def)
  show ?thesis
  proof (cases ss)
    case Nil
    have "cleanSegments True [] (splitOn (CHR ''/'') (''//'' @ d)) = [d]"
      using d by (simp add: splitOn_no cleanSegment_def)
    then show ?thesis using Nil ss d0 by (simp add: joinPath_def pathJoin_def Let_def joinWith_def)
  next
    case (Cons s ss')
    let ?j = "concat (map ((#) (CHR ''/'')) (ss @ [d]))"
    have j: "joinWith ''/'' (filter (\<lambda>e. e \<noteq> []) [au_path u, d]) = ?j" "au_path u \<noteq> []"
      using d0 Cons ss(1) by (simp_all add: joinWith_def)
    have "splitOn (CHR ''/'') ?j = [] # (ss @ [d])" by (rule split_segments [OF clean_no_slash [OF all]])
    then have "cleanSegments True [] (splitOn (CHR ''/'') ?j) = ss @ [d]"
      using cleanSegments_clean [OF all, of True "[]"] by simp
    moreover have "CHR ''/'' # joinWith ''/'' (ss @ [d]) = ?j"
      using joinWith_slashes [of s "ss' @ [d]"] Cons by simp
    moreover have "take 1 ?j = ''/''" "?j \<noteq> []" using Cons by simp_all
    ultimately show ?thesis using j by (simp add: joinPath_def pathJoin_def Let_def)
  qed
qed

text \<open>
  Key page URLs: the page number formatted behind a clean book URL is read back with its book, and the book is the page's
  parent, for every page number the protocol allows.
\<close>

theorem parseKeyPageUrl_format:
  assumes "cleanPath (au_path book)" and "n < 0xffff"
  shows "parseKeyPageUrl (formatKeyPageUrl book n) = Some (mkUrl (au_authority book) (au_path book) (au_userInfo book), n + 1) \<and>
    parentOf (mkUrl (au_authority book) (au_path book) (au_userInfo book)) (formatKeyPageUrl book n)"
proof -
  obtain ss where ss: "au_path book = concat (map ((#) (CHR ''/'')) ss)" "list_all cleanSegment ss"
    using assms(1) by (auto simp: cleanPath_def)
  let ?d = "decNat (n + 1)" and ?u = "formatKeyPageUrl book n"
  have path: "au_path ?u = au_path book @ CHR ''/'' # ?d"
    using joinPath_clean [OF ss decNat_clean] ss(1) by (simp add: formatKeyPageUrl_def)
  have rest: "au_authority ?u = au_authority book" "au_userInfo ?u = au_userInfo book"
    by (simp_all add: formatKeyPageUrl_def joinPath_def)
  have d: "CHR ''/'' \<notin> set ?d" "?d \<noteq> []" "list_all isDigit ?d"
    using decNat_clean [of "n + 1"] decNat_digits [of "n + 1"] by (simp_all add: cleanSegment_def)
  have "last ?d \<noteq> CHR ''/''" "hd ?d \<noteq> CHR ''+''"
    using d last_in_set [OF d(2)] hd_in_set [OF d(2)] plus_no_digit unfolding list_all_iff by metis+
  then have plus: "take 1 ?d \<noteq> ''+''" and lst: "last (au_path ?u) \<noteq> CHR ''/''"
    using d(2) path by (cases ?d; simp)+
  have cutl: "cutLast (CHR ''/'') (au_path ?u) = Some (au_path book, ?d)"
    unfolding path by (rule cutLast_some [OF d(1)])
  then have par: "urlParent ?u = (mkUrl (au_authority book) (au_path book) (au_userInfo book), True)"
    using lst path rest by (simp add: urlParent_def Let_def)
  then have "parseKeyPageUrl ?u = Some (mkUrl (au_authority book) (au_path book) (au_userInfo book), n + 1)"
    using cutl plus d assms(2) by (simp add: parseKeyPageUrl_def Let_def urlIdentity_def)
  moreover have "parentOf (mkUrl (au_authority book) (au_path book) (au_userInfo book)) ?u"
    by (simp add: parentOf_def par urlEqual_def goEqualFold_iff)
  ultimately show ?thesis by blast
qed

theorem parseKeyPageUrl_format_witness:
  "parseKeyPageUrl (formatKeyPageUrl (mkUrl ''a.acme'' ''/book'' []) 1) = Some (mkUrl ''a.acme'' ''/book'' [], 2) \<and>
   parentOf (mkUrl ''a.acme'' ''/book'' []) (formatKeyPageUrl (mkUrl ''a.acme'' ''/book'' []) 1)"
proof -
  have "cleanPath (au_path (mkUrl ''a.acme'' ''/book'' []))"
    unfolding cleanPath_def by (rule exI [of _ "[''book'']"]) (simp add: mkUrl_def cleanSegment_def)
  from parseKeyPageUrl_format [OF this, of 1] show ?thesis by (simp add: mkUrl_def)
qed

section \<open>The value read back from its own text\<close>

lemma pathKeep_iff: "pathKeep c \<longleftrightarrow> \<not> shouldEscape c PathSegment"
proof -
  have "set ''$&+,/:;=?@'' = set ''$&+=:@'' \<union> set '',/;?''" by auto
  then show ?thesis unfolding pathKeep_def shouldEscape_def by auto
qed

lemma pathEscape_eq: "pathEscape s = escape s PathSegment"
  unfolding pathEscape_def escape_def by (rule arg_cong [of _ _ concat], rule map_cong) (simp_all add: pathKeep_iff)

lemma formatSegments_splitOn:
  "formatSegments (x # t) = concat (map (\<lambda>seg. CHR ''/'' # escape seg PathSegment) (splitOn (CHR ''/'') t))"
proof (induction "length t" arbitrary: x t rule: less_induct)
  case less
  show ?case
  proof (cases "CHR ''/'' \<in> set t")
    case False
    then have "takeWhile (\<lambda>c. c \<noteq> CHR ''/'') t = t" "dropWhile (\<lambda>c. c \<noteq> CHR ''/'') t = []"
      by (induction t) auto
    with False show ?thesis by (simp add: splitOn_no del: dropWhile_eq_Nil_conv takeWhile_eq_all_conv)
  next
    case True
    then obtain a r where t: "t = a @ CHR ''/'' # r" "CHR ''/'' \<notin> set a" by (metis split_list_first)
    then have "takeWhile (\<lambda>c. c \<noteq> CHR ''/'') t = a" "dropWhile (\<lambda>c. c \<noteq> CHR ''/'') t = CHR ''/'' # r"
      by (induction a arbitrary: t) auto
    with less [of r "CHR ''/''"] t show ?thesis by (simp add: splitOn_append)
  qed
qed

definition ascii :: "string \<Rightarrow> bool" where
  "ascii s \<longleftrightarrow> list_all (\<lambda>c. code c < 0x80) s"

lemma decodeBytes_ascii: "ascii s \<Longrightarrow> decodeBytes s = s"
  unfolding ascii_def by (induction s) auto

lemma code_BOM: "code (CHR 0xef) = 0xef"
  by (simp add: code_def)

lemma textDecode_ascii: "ascii s \<Longrightarrow> textDecode s = s"
proof -
  assume s: "ascii s"
  have "take 3 s \<noteq> [CHR 0xef, CHR 0xbb, CHR 0xbf]" if "ascii s"
    using that code_BOM by (cases s) (auto simp: ascii_def)
  with s show ?thesis by (simp add: textDecode_def decodeBytes_ascii)
qed

lemma alnum_ascii: "isAlnum c \<Longrightarrow> code c < 0x80"
  unfolding isAlnum_def Let_def by linarith

lemma marks_ascii: "list_all (\<lambda>c. code c < 0x80) marks"
  by code_simp

lemma escape_ascii: "ascii (escape s PathSegment)"
proof (induction s)
  case (Cons c s)
  have "code (upperHex n) < 0x80" if "n < 16" for n using that by (auto simp: code_upperHex)
  moreover have "code c < 0x80" if "\<not> shouldEscape c PathSegment"
    using that unmarked_escaped [of c] alnum_ascii [of c] marks_ascii unfolding list_all_iff by blast
  moreover have "code (CHR 0x25) < 0x80" by (simp add: code_def)
  ultimately show ?case using Cons by (simp add: ascii_def escape_Cons [of c s] escape_def [of "[c]"] nibbles)
qed (simp add: ascii_def)

lemma formatSegments_ascii: "ascii (formatSegments p)"
proof (induction p rule: formatSegments.induct)
  case (2 x p)
  have "code (CHR ''/'') < 0x80" by (simp add: code_def)
  with 2 escape_ascii show ?case by (simp add: ascii_def)
qed (simp add: ascii_def)

lemma unescapeBytes_plain: "c \<noteq> CHR 0x25 \<Longrightarrow> unescapeBytes (c # s) = c # unescapeBytes s"
  by (cases "c # s" rule: unescapeBytes.cases) auto

lemma unescapeBytes_escape: "unescapeBytes (escape s PathSegment) = s"
proof (induction s)
  case (Cons c s)
  show ?case
  proof (cases "shouldEscape c PathSegment")
    case True
    with Cons show ?thesis
      by (simp add: escape_Cons [of c s] escape_def [of "[c]"] ishex_upperHex unhex_upperHex nibbles)
  next
    case False
    then have "c \<noteq> CHR 0x25" using percent_escaped [of PathSegment] by auto
    with False Cons show ?thesis
      by (simp add: escape_Cons [of c s] escape_def [of "[c]"] unescapeBytes_plain)
  qed
qed simp

lemma escape_no_slash: "CHR ''/'' \<notin> set (escape s PathSegment)"
proof (induction s)
  case (Cons c s)
  have "code (CHR ''/'') = 47" by (simp add: code_def)
  then have "code (upperHex n) \<noteq> code (CHR ''/'')" if "n < 16" for n using that by (auto simp: code_upperHex)
  then have "upperHex (code c div 16) \<noteq> CHR ''/''" "upperHex (code c mod 16) \<noteq> CHR ''/''" using nibbles [of c] by metis+
  moreover have "shouldEscape (CHR ''/'') PathSegment" by (simp add: shouldEscape_def isAlnum_def code_def)
  ultimately show ?case using Cons by (auto simp: escape_Cons [of c s] escape_def [of "[c]"])
qed simp

text \<open>A URL of an account as the verifier meets them: a host the parser keeps and a path of valid UTF-8 segments, nothing else.\<close>

definition plainUrl :: "acc_url \<Rightarrow> bool" where
  "plainUrl u \<longleftrightarrow> plainHost (au_authority u) \<and> ascii (au_authority u) \<and> au_userInfo u = [] \<and> au_query u = [] \<and> au_fragment u = [] \<and>
     normalizePath (au_path u) = au_path u \<and> list_all (\<lambda>s. textDecode s = s) (splitOn (CHR ''/'') (au_path u))"

lemma urlString_writer:
  assumes "au_userInfo u = []" "au_query u = []" "au_fragment u = []"
  shows "urlString u = ''acc://'' @ au_authority u @ formatSegments (normalizePath (au_path u))"
  using assms by (simp add: urlString_def Let_def normalizePath_def pathEscape_eq formatSegments_splitOn del: formatSegments.simps(2))

lemma path_segments:
  assumes "list_all (\<lambda>s. textDecode s = s) (splitOn (CHR ''/'') (CHR ''/'' # t))"
  shows "joinWith ''/'' (map unescapePath (splitOn (CHR ''/'') (formatSegments (CHR ''/'' # t)))) = CHR ''/'' # t"
proof -
  let ?ss = "splitOn (CHR ''/'') t"
  have f: "formatSegments (CHR ''/'' # t) = concat (map ((#) (CHR ''/'')) (map (\<lambda>s. escape s PathSegment) ?ss))"
    unfolding formatSegments_splitOn by (simp add: comp_def)
  have "list_all (\<lambda>s. CHR ''/'' \<notin> set s) (map (\<lambda>s. escape s PathSegment) ?ss)"
    by (simp add: list_all_iff escape_no_slash)
  then have "splitOn (CHR ''/'') (formatSegments (CHR ''/'' # t)) = [] # map (\<lambda>s. escape s PathSegment) ?ss"
    unfolding f by (rule split_segments)
  moreover have "map unescapePath (map (\<lambda>s. escape s PathSegment) ?ss) = ?ss"
    using assms by (auto simp: unescapePath_def unescapeBytes_escape list_all_iff map_idI)
  moreover have "unescapePath [] = []" by (simp add: unescapePath_def textDecode_def)
  ultimately show ?thesis
    by (simp only: list.map joinWith_Cons [OF splitOn_nonempty] joinWith_splitOn) simp
qed

lemma slashed_writer: "slashed p \<Longrightarrow> formatSegments p = [] \<longleftrightarrow> p = []"
  by (cases p) simp_all

lemma urlString_parsed:
  assumes "plainUrl u"
  shows "fromBinary (urlString u) = Some u"
proof -
  let ?h = "au_authority u" and ?F = "formatSegments (au_path u)"
  have h: "plainHost ?h" and asc: "ascii ?h" and e: "au_userInfo u = []" "au_query u = []" "au_fragment u = []"
    and np: "normalizePath (au_path u) = au_path u" and segs: "list_all (\<lambda>s. textDecode s = s) (splitOn (CHR ''/'') (au_path u))"
    using assms by (simp_all add: plainUrl_def)
  let ?p = "\<lparr> ap_userInfo = [], ap_authority = ?h, ap_path = au_path u, ap_query = [], ap_fragment = [] \<rparr>"
  have str: "urlString u = ''acc://'' @ ?h @ ?F" using urlString_writer [OF e] np by simp
  have "accFormat ?p None = urlString u" by (simp add: accFormat_def np str)
  with writer_fixpoint [of ?p] h have canon: "canonicalAccUrl (urlString u) = Some (urlString u)"
    by (simp add: plainQuery_def)
  have "ascii ''acc://''" by code_simp
  then have "ascii (urlString u)" using asc formatSegments_ascii by (simp add: str ascii_def)
  then have rest: "drop 6 (textDecode (urlString u)) = ?h @ ?F" by (simp add: textDecode_ascii str)
  note hd = plainHostD [OF h] and F = formatSegments_inPath [of "au_path u"]
  have no: "CHR ''#'' \<notin> set (?h @ ?F)" "CHR ''?'' \<notin> set (?h @ ?F)" using inPathD [OF hd(1)] inPathD [OF F] by simp_all
  have cutp: "cut (CHR ''/'') (?h @ ?F) = (?h, if au_path u = [] then None else Some (tl ?F))"
  proof (cases "au_path u")
    case (Cons c p)
    then have "?F = CHR ''/'' # tl ?F" by simp
    then show ?thesis using Cons cut_some [OF hd(2), of "tl ?F"] by simp
  qed (simp add: cut_none hd(2))
  have path: "(case if au_path u = [] then None else Some (tl ?F) of None \<Rightarrow> []
      | Some t \<Rightarrow> joinWith ''/'' (map unescapePath (splitOn (CHR ''/'') (CHR ''/'' # t)))) = au_path u"
  proof (cases "au_path u")
    case (Cons c p)
    have "slashed (au_path u)" using slashed_normalizePath [of "au_path u"] np by simp
    then have c: "au_path u = CHR ''/'' # p" using Cons by simp
    then have "CHR ''/'' # tl ?F = ?F" by simp
    then show ?thesis using path_segments [of p] segs c by (simp del: formatSegments.simps splitOn.simps)
  qed simp
  show ?thesis
    unfolding fromBinary_def canon option.case rest cut_none [OF no(1)] cut_none [OF no(2)] Let_def prod.case cutp fst_conv
      cutLast_none [OF hd(3)] path
    using e by (simp add: optText_def)
qed

text \<open>
  An account URL is read back from its own text: for a URL with a plain host and a path of valid UTF-8 segments - spaces, percent
  signs, any byte of a valid character - parsing what \<open>toString\<close> writes gives the same URL, so two such URLs with one text are
  one URL, and the case-folded \<open>key\<close> they are indexed by separates them exactly as \<open>equal\<close> does.
\<close>

theorem url_text_roundtrip:
  assumes "plainUrl u" and "plainUrl v"
  shows "fromBinary (urlString u) = Some u \<and> (urlString u = urlString v \<longleftrightarrow> u = v) \<and> (urlEqual u v \<longleftrightarrow> urlKey u = urlKey v)"
proof (intro conjI)
  show r: "fromBinary (urlString u) = Some u" by (rule urlString_parsed [OF assms(1)])
  show "urlString u = urlString v \<longleftrightarrow> u = v"
  proof
    assume "urlString u = urlString v"
    then have "Some u = Some v" using r urlString_parsed [OF assms(2)] by (simp only:)
    then show "u = v" by (rule option.inject [THEN iffD1])
  qed (rule arg_cong)
  show "urlEqual u v \<longleftrightarrow> urlKey u = urlKey v" by (simp only: urlEqual_def urlKey_def goEqualFold_iff)
qed

lemma plain_demo: "plainUrl (mkUrl ''a.acme'' ''/b c'' [])" "plainUrl (mkUrl ''a.acme'' ''/1%'' [])"
  by code_simp+

theorem url_text_roundtrip_witness:
  "fromBinary (urlString (mkUrl ''a.acme'' ''/b c'' [])) = Some (mkUrl ''a.acme'' ''/b c'' []) \<and>
   (urlString (mkUrl ''a.acme'' ''/b c'' []) = urlString (mkUrl ''a.acme'' ''/1%'' []) \<longleftrightarrow>
      mkUrl ''a.acme'' ''/b c'' [] = mkUrl ''a.acme'' ''/1%'' []) \<and>
   (urlEqual (mkUrl ''a.acme'' ''/b c'' []) (mkUrl ''a.acme'' ''/1%'' []) \<longleftrightarrow>
      urlKey (mkUrl ''a.acme'' ''/b c'' []) = urlKey (mkUrl ''a.acme'' ''/1%'' []))"
  by (rule url_text_roundtrip [OF plain_demo])

section \<open>Partitions\<close>

lemma bvn_not_dn: "\<not> isDnUrl (mkUrl (BVN_PREFIX @ p @ TLD) [] [])"
proof
  assume "isDnUrl (mkUrl (BVN_PREFIX @ p @ TLD) [] [])"
  then have "goLower (urlString dnUrl) = goLower (urlString (mkUrl (BVN_PREFIX @ p @ TLD) [] []))"
    by (simp add: isDnUrl_def urlEqual_def goEqualFold_iff rootIdentity_def mkUrl_def)
  moreover have "urlString dnUrl = ''acc://d'' @ ''n.acme''" by code_simp
  moreover have "urlString (mkUrl (BVN_PREFIX @ p @ TLD) [] []) = ''acc://b'' @ ''vn-'' @ p @ TLD"
    by (simp add: urlString_def mkUrl_def BVN_PREFIX_def trimSlashes_def)
  ultimately have "goLower ''acc://d'' @ goLower ''n.acme'' = goLower ''acc://b'' @ goLower (''vn-'' @ p @ TLD)"
    by (simp only: goLower_append)
  then have "goLower ''acc://d'' = goLower ''acc://b''" by (simp add: goLower_def)
  moreover have "goLower ''acc://d'' \<noteq> goLower ''acc://b''" by code_simp
  ultimately show False by simp
qed

lemma dn_is_dn: "isDnUrl dnUrl"
  by (simp add: isDnUrl_def urlEqual_def goEqualFold_iff dnUrl_def rootIdentity_def mkUrl_def)

text \<open>
  Partition names survive their URL: \<open>parsePartitionUrl\<close> reads from \<open>partitionUrl\<close> the very name it was made from, in its own
  spelling, and the Directory under any spelling as \<open>Directory\<close>.
\<close>

theorem parsePartitionUrl_partitionUrl:
  "parsePartitionUrl (partitionUrl p) = Some (if goEqualFold p DIRECTORY then DIRECTORY else p)"
proof (cases "goEqualFold p DIRECTORY")
  case False
  let ?a = "BVN_PREFIX @ p @ TLD"
  have "take (length BVN_PREFIX) ?a = BVN_PREFIX" by simp
  moreover have "length TLD \<le> length ?a" "drop (length ?a - length TLD) ?a = TLD" "\<not> length ?a < length BVN_PREFIX + length TLD"
    by simp_all
  moreover have "drop (length BVN_PREFIX) (take (length ?a - length TLD) ?a) = p" by simp
  moreover have "au_authority (mkUrl ?a [] []) = ?a" by (simp add: mkUrl_def)
  ultimately show ?thesis using False bvn_not_dn [of p]
    by (simp only: partitionUrl_def parsePartitionUrl_def Let_def if_False simp_thms)
qed (simp add: partitionUrl_def parsePartitionUrl_def dn_is_dn)

end
