(* ===== verification/Model.thy ===== *)
theory Model
  imports AccUrl
begin

text \<open>
  The protocol objects of evidence 2.1: \<open>packages/verify/src/s3/model.ts\<close>. A decoded wire object is a \<open>wire_node\<close>; over it the
  accounts, transactions and signatures are read, and the key page with the operations that change it is a record. What the SDK
  package \<open>accumulate-sdk-opendlt\<close> supplies is a parameter: the numbers of the transaction types (\<open>T\<close>), and the hash functions of
  the signature-type verifier (\<open>metadataHash\<close>, \<open>initiatorHash\<close>).
\<close>

section \<open>Decoded wire objects\<close>

datatype wvalue =
    WBig int
  | WBool bool
  | WText string
  | WBytes bytes
  | WTime int
  | WDuration int int
  | WOpaque bytes
  | WNull
  | WNode wire_node
  | WList "wvalue list"
and wire_node = Node (cls: string) (nodeFields: "(string \<times> wvalue) list") (extra: bytes) (isEmpty: bool)

definition fieldOf :: "wire_node \<Rightarrow> string \<Rightarrow> wvalue option" where
  "fieldOf n name = map_of (nodeFields n) name"

definition nodeOf :: "wire_node \<Rightarrow> string \<Rightarrow> wire_node option" where
  "nodeOf n name = (case fieldOf n name of Some (WNode m) \<Rightarrow> Some m | _ \<Rightarrow> None)"

fun nodesIn :: "wvalue list \<Rightarrow> wire_node list" where
  "nodesIn [] = []"
| "nodesIn (WNode m # vs) = m # nodesIn vs"
| "nodesIn (v # vs) = nodesIn vs"

definition nodesOf :: "wire_node \<Rightarrow> string \<Rightarrow> wire_node list" where
  "nodesOf n name = (case fieldOf n name of Some (WList vs) \<Rightarrow> nodesIn vs | _ \<Rightarrow> [])"

definition bigOf :: "wire_node \<Rightarrow> string \<Rightarrow> int" where
  "bigOf n name = (case fieldOf n name of Some (WBig i) \<Rightarrow> i | _ \<Rightarrow> 0)"

definition bytesOf :: "wire_node \<Rightarrow> string \<Rightarrow> bytes" where
  "bytesOf n name = (case fieldOf n name of Some (WBytes b) \<Rightarrow> b | _ \<Rightarrow> [])"

definition boolOf :: "wire_node \<Rightarrow> string \<Rightarrow> bool" where
  "boolOf n name = (fieldOf n name = Some (WBool True))"

definition urlOf :: "wire_node \<Rightarrow> string \<Rightarrow> acc_url option" where
  "urlOf n name = (case fieldOf n name of Some (WText s) \<Rightarrow> if s = [] then None else fromBinary s | _ \<Rightarrow> None)"

fun urlsIn :: "wvalue list \<Rightarrow> acc_url list" where
  "urlsIn [] = []"
| "urlsIn (WText s # vs) =
     (case (if s = [] then None else fromBinary s) of None \<Rightarrow> urlsIn vs | Some u \<Rightarrow> u # urlsIn vs)"
| "urlsIn (v # vs) = urlsIn vs"

definition urlsOf :: "wire_node \<Rightarrow> string \<Rightarrow> acc_url list" where
  "urlsOf n name = (case fieldOf n name of Some (WList vs) \<Rightarrow> urlsIn vs | _ \<Rightarrow> [])"

text \<open>A nested object is smaller than the object it is in: the measure of the recursive readers below.\<close>

lemma field_size: "fieldOf n name = Some v \<Longrightarrow> size v < size n"
proof -
  assume "fieldOf n name = Some v"
  then have "(name, v) \<in> set (nodeFields n)" by (auto simp: fieldOf_def dest: map_of_SomeD)
  then have "size v < size_list (size_prod (\<lambda>x. 0) size) (nodeFields n)" for size :: "wvalue \<Rightarrow> nat"
    by (intro size_list_estimation [OF _ less_add_one [of "size v", THEN less_le_trans]]) auto
  then show ?thesis by (cases n) (simp add: less_Suc_eq_le trans_less_add1 less_imp_le)
qed

lemma nodeOf_size [termination_simp]: "nodeOf n name = Some m \<Longrightarrow> size m < size n"
proof -
  assume "nodeOf n name = Some m"
  then have "fieldOf n name = Some (WNode m)" by (auto simp: nodeOf_def split: option.splits wvalue.splits)
  from field_size [OF this] show ?thesis by simp
qed

lemma nodesIn_size: "m \<in> set (nodesIn vs) \<Longrightarrow> size m < size_list size vs"
  by (induction vs rule: nodesIn.induct) (auto simp: less_Suc_eq_le trans_le_add2)

lemma nodesOf_size [termination_simp]: "m \<in> set (nodesOf n name) \<Longrightarrow> size m < size n"
proof -
  assume "m \<in> set (nodesOf n name)"
  then obtain vs where "fieldOf n name = Some (WList vs)" "m \<in> set (nodesIn vs)"
    by (cases "fieldOf n name"; cases "the (fieldOf n name)") (auto simp: nodesOf_def)
  from field_size [OF this(1)] nodesIn_size [OF this(2)] show ?thesis by simp
qed

section \<open>Enumerations\<close>

record tx_types =
  UpdateKeyPage :: int
  UpdateAccountAuth :: int

text \<open>\<open>VoteType\<close>\<close>

definition Accept :: "int" where "Accept = 0"
definition Reject :: "int" where "Reject = 1"
definition Abstain :: "int" where "Abstain = 2"
definition Suggest :: "int" where "Suggest = 3"

definition voteName :: "int \<Rightarrow> string" where
  "voteName v =
     (if v = 0 then ''accept'' else if v = 1 then ''reject'' else if v = 2 then ''abstain'' else if v = 3 then ''suggest''
      else ''VoteType:'' @ (if v < 0 then ''-'' @ decNat (nat (- v)) else decNat (nat v)))"

definition requireAuthorization :: "tx_types \<Rightarrow> int \<Rightarrow> bool" where
  "requireAuthorization T t = (t = UpdateAccountAuth T)"

definition allowedTransactionBit :: "tx_types \<Rightarrow> int \<Rightarrow> nat option" where
  "allowedTransactionBit T t =
     (if t = UpdateKeyPage T then Some 1 else if t = UpdateAccountAuth T then Some 2 else None)"

section \<open>Accounts\<close>

definition isFullAccount :: "wire_node \<Rightarrow> bool" where
  "isFullAccount a = (cls a \<in> set [''ADI'', ''DataAccount'', ''KeyBook'', ''TokenAccount'', ''TokenIssuer''])"

definition authoritiesOf :: "wire_node \<Rightarrow> (acc_url \<times> bool) list" where
  "authoritiesOf a =
     concat (map (\<lambda>e. case urlOf e ''url'' of None \<Rightarrow> [] | Some u \<Rightarrow> [(u, boolOf e ''disabled'')]) (nodesOf a ''authorities''))"

text \<open>\<open>accountUrl\<close>; \<open>None\<close> is the thrown \<open>WireError\<close>.\<close>

definition accountUrl :: "wire_node \<Rightarrow> acc_url option" where
  "accountUrl a = urlOf a ''url''"

section \<open>Key pages\<close>

record key_spec =
  ks_hash :: bytes
  ks_lastUsed :: int
  ks_delegate :: "acc_url option"

record key_page =
  kp_url :: acc_url
  kp_version :: int
  kp_accept :: int
  kp_reject :: int
  kp_response :: int
  kp_block :: int
  kp_keys :: "key_spec list"
  kp_blacklist :: "int option"

text \<open>\<open>new KeyPage(url, version, acceptThreshold)\<close> with the defaults of the other members\<close>

definition newKeyPage :: "acc_url \<Rightarrow> int \<Rightarrow> int \<Rightarrow> key_page" where
  "newKeyPage url version accept =
     \<lparr> kp_url = url, kp_version = version, kp_accept = accept, kp_reject = 0, kp_response = 0, kp_block = 0, kp_keys = [],
       kp_blacklist = None \<rparr>"

text \<open>\<open>KeyPage.from\<close>\<close>

definition keyPageFrom :: "wire_node \<Rightarrow> key_page option" where
  "keyPageFrom n =
     map_option (\<lambda>u.
       \<lparr> kp_url = u, kp_version = bigOf n ''version'', kp_accept = bigOf n ''acceptThreshold'', kp_reject = bigOf n ''rejectThreshold'',
         kp_response = bigOf n ''responseThreshold'', kp_block = bigOf n ''blockThreshold'',
         kp_keys = map (\<lambda>k. \<lparr> ks_hash = bytesOf k ''publicKeyHash'', ks_lastUsed = bigOf k ''lastUsedOn'', ks_delegate = urlOf k ''delegate'' \<rparr>)
                     (nodesOf n ''keys''),
         kp_blacklist = (case fieldOf n ''transactionBlacklist'' of Some (WBig b) \<Rightarrow> Some b | _ \<Rightarrow> None) \<rparr>)
     (accountUrl n)"

definition signatureThreshold :: "key_page \<Rightarrow> int" where
  "signatureThreshold p = (if kp_accept p = 0 then 1 else kp_accept p)"

text \<open>\<open>search\<close>: the binary search loop, and the test of the position it ends at.\<close>

function searchLoop :: "('a \<Rightarrow> int) \<Rightarrow> 'a list \<Rightarrow> nat \<Rightarrow> nat \<Rightarrow> nat" where
  "searchLoop cmp l lo hi =
     (if lo < hi then
        let m = (lo + hi) div 2 in
        if cmp (l ! m) \<ge> 0 then searchLoop cmp l lo m else searchLoop cmp l (m + 1) hi
      else lo)"
  by pat_completeness auto
termination
  by (relation "measure (\<lambda>(cmp, l, lo, hi). hi - lo)") auto

declare searchLoop.simps [simp del]

definition search :: "'a list \<Rightarrow> ('a \<Rightarrow> int) \<Rightarrow> nat \<times> bool" where
  "search l cmp =
     (let lo = searchLoop cmp l 0 (length l) in
      if lo \<ge> length l then (lo, False) else (lo, cmp (l ! lo) = 0))"

definition compareBytes :: "bytes \<Rightarrow> bytes \<Rightarrow> int" where
  "compareBytes a b = lexCompare unat a b"

definition compareUrls :: "acc_url \<Rightarrow> acc_url \<Rightarrow> int" where
  "compareUrls a b = lexCompare code (urlKey a) (urlKey b)"

definition entryByKeyHash :: "key_page \<Rightarrow> bytes \<Rightarrow> (nat \<times> key_spec) option" where
  "entryByKeyHash p keyHash =
     (let (i, found) = search (kp_keys p) (\<lambda>k. compareBytes (ks_hash k) keyHash) in
      if found then Some (i, kp_keys p ! i) else None)"

definition parseKeyPageOwner :: "acc_url \<Rightarrow> acc_url option" where
  "parseKeyPageOwner owner =
     (case cutLast (CHR ''/'') (au_path owner) of
        None \<Rightarrow> None
      | Some (_, tail) \<Rightarrow>
          if tail = [] \<or> \<not> list_all isDigit tail \<or> decValue tail > 0xffff then None else Some (urlIdentity owner))"

fun delegateFrom :: "acc_url \<Rightarrow> nat \<Rightarrow> key_spec list \<Rightarrow> (nat \<times> key_spec) option" where
  "delegateFrom target i [] = None"
| "delegateFrom target i (k # ks) =
     (case ks_delegate k of
        Some d \<Rightarrow> if urlEqual target d then Some (i, k) else delegateFrom target (i + 1) ks
      | None \<Rightarrow> delegateFrom target (i + 1) ks)"

definition entryByDelegate :: "key_page \<Rightarrow> acc_url \<Rightarrow> (nat \<times> key_spec) option" where
  "entryByDelegate p owner =
     (let target = (case parseKeyPageOwner owner of None \<Rightarrow> owner | Some b \<Rightarrow> b) in delegateFrom target 0 (kp_keys p))"

text \<open>The comparison of \<open>addKeySpec\<close>: the entry \<open>l\<close> of the page against the new entry \<open>k\<close>.\<close>

definition compareSpecs :: "key_spec \<Rightarrow> key_spec \<Rightarrow> int" where
  "compareSpecs k l =
     (let v = compareBytes (ks_hash l) (ks_hash k) in
      if v \<noteq> 0 then v
      else (case ks_delegate l of
              None \<Rightarrow> - 1
            | Some dl \<Rightarrow> (case ks_delegate k of None \<Rightarrow> 1 | Some dk \<Rightarrow> compareUrls dl dk)))"

definition addKeySpec :: "key_page \<Rightarrow> key_spec \<Rightarrow> key_page" where
  "addKeySpec p k =
     (let (i, found) = search (kp_keys p) (compareSpecs k) in
      p\<lparr> kp_keys := (if found then (kp_keys p)[i := k] else take i (kp_keys p) @ k # drop i (kp_keys p)) \<rparr>)"

definition removeKeySpecAt :: "key_page \<Rightarrow> nat \<Rightarrow> key_page" where
  "removeKeySpecAt p i = p\<lparr> kp_keys := take i (kp_keys p) @ drop (i + 1) (kp_keys p) \<rparr>"

definition isBlacklisted :: "key_page \<Rightarrow> nat \<Rightarrow> bool" where
  "isBlacklisted p n = (case kp_blacklist p of None \<Rightarrow> False | Some b \<Rightarrow> bit b n)"

section \<open>Transactions\<close>

definition headerOf :: "wire_node \<Rightarrow> wire_node option" where
  "headerOf txn = nodeOf txn ''header''"

definition bodyOf :: "wire_node \<Rightarrow> wire_node option" where
  "bodyOf txn = nodeOf txn ''body''"

definition principalOf :: "wire_node \<Rightarrow> acc_url option" where
  "principalOf txn = Option.bind (headerOf txn) (\<lambda>h. urlOf h ''principal'')"

definition bodyType :: "wire_node \<Rightarrow> int" where
  "bodyType txn = (case bodyOf txn of None \<Rightarrow> 0 | Some b \<Rightarrow> bigOf b ''type'')"

definition headerInitiator :: "wire_node \<Rightarrow> bytes" where
  "headerInitiator txn = (case headerOf txn of None \<Rightarrow> replicate 32 0 | Some h \<Rightarrow> bytesOf h ''initiator'')"

definition holdUntilOf :: "wire_node \<Rightarrow> int" where
  "holdUntilOf txn =
     (case Option.bind (headerOf txn) (\<lambda>h. nodeOf h ''holdUntil'') of None \<Rightarrow> 0 | Some hu \<Rightarrow> bigOf hu ''minorBlock'')"

definition delegateOf :: "wire_node option \<Rightarrow> acc_url option" where
  "delegateOf entry = Option.bind entry (\<lambda>e. urlOf e ''delegate'')"

fun optList :: "'a option \<Rightarrow> 'a list" where
  "optList None = []"
| "optList (Some x) = [x]"

definition additionalAuthorities :: "wire_node \<Rightarrow> acc_url list" where
  "additionalAuthorities txn =
     (case bodyOf txn of
        None \<Rightarrow> []
      | Some body \<Rightarrow>
          if cls body \<in> set [''CreateIdentity'', ''CreateTokenAccount'', ''CreateDataAccount'', ''CreateToken'', ''CreateKeyBook'']
          then urlsOf body ''authorities''
          else if cls body = ''UpdateKeyPage'' then
            concat (map (\<lambda>op.
              if cls op = ''AddKeyOperation'' then optList (delegateOf (nodeOf op ''entry''))
              else if cls op = ''UpdateKeyOperation'' then optList (delegateOf (nodeOf op ''newEntry''))
              else []) (nodesOf body ''operation''))
          else if cls body = ''UpdateAccountAuth'' then
            concat (map (\<lambda>op.
              if cls op = ''AddAccountAuthorityOperation'' then optList (urlOf op ''authority'') else []) (nodesOf body ''operations''))
          else [])"

definition headerAuthorities :: "wire_node \<Rightarrow> acc_url list" where
  "headerAuthorities txn = (case headerOf txn of None \<Rightarrow> [] | Some h \<Rightarrow> urlsOf h ''authorities'')"

section \<open>Signatures\<close>

definition authoritySigner :: "wire_node \<Rightarrow> acc_url option" where
  "authoritySigner sig =
     (case urlsOf sig ''delegator'' of
        d # _ \<Rightarrow> Some d
      | [] \<Rightarrow> (case fieldOf sig ''txID'' of
                Some (WText s) \<Rightarrow> if s = [] then None else map_option (\<lambda>u. mkUrl (au_authority u) (au_path u) []) (fromBinary s)
              | _ \<Rightarrow> None))"

function signerOf :: "wire_node \<Rightarrow> acc_url option" where
  "signerOf sig =
     (if cls sig = ''DelegatedSignature'' then (case nodeOf sig ''signature'' of None \<Rightarrow> None | Some inner \<Rightarrow> signerOf inner)
      else if cls sig = ''AuthoritySignature'' then authoritySigner sig
      else urlOf sig ''signer'')"
  by pat_completeness auto
termination
  by (relation "measure size") (auto simp: nodeOf_size)

definition signerVersionOf :: "wire_node \<Rightarrow> int" where
  "signerVersionOf sig = bigOf sig ''signerVersion''"

function voteOf :: "wire_node \<Rightarrow> int" where
  "voteOf sig =
     (if cls sig = ''DelegatedSignature'' then (case nodeOf sig ''signature'' of None \<Rightarrow> 0 | Some inner \<Rightarrow> voteOf inner)
      else bigOf sig ''vote'')"
  by pat_completeness auto
termination
  by (relation "measure size") (auto simp: nodeOf_size)

function delegatorPages :: "wire_node \<Rightarrow> acc_url list" where
  "delegatorPages sig =
     (if cls sig = ''DelegatedSignature'' then
        optList (urlOf sig ''delegator'') @ (case nodeOf sig ''signature'' of None \<Rightarrow> [] | Some inner \<Rightarrow> delegatorPages inner)
      else [])"
  by pat_completeness auto
termination
  by (relation "measure size") (auto simp: nodeOf_size)

function unwrapSignature :: "(acc_url \<Rightarrow> string) \<Rightarrow> wire_node \<Rightarrow> wire_node \<times> string list" where
  "unwrapSignature norm sig =
     (if cls sig = ''DelegatedSignature'' then
        (let d = (case urlOf sig ''delegator'' of None \<Rightarrow> [] | Some u \<Rightarrow> norm u) in
         (case nodeOf sig ''signature'' of
            None \<Rightarrow> (sig, [d])
          | Some inner \<Rightarrow> (let (s, path) = unwrapSignature norm inner in (s, d # path))))
      else (sig, []))"
  by pat_completeness auto
termination
  by (relation "measure (size \<circ> snd)") (auto simp: nodeOf_size)

declare signerOf.simps [simp del] voteOf.simps [simp del] delegatorPages.simps [simp del] unwrapSignature.simps [simp del]

definition userSignatures :: "string list" where
  "userSignatures =
     [''LegacyED25519Signature'', ''ED25519Signature'', ''RCD1Signature'', ''BTCSignature'', ''BTCLegacySignature'', ''ETHSignature'',
      ''RsaSha256Signature'', ''EcdsaSha256Signature'', ''TypedDataSignature'', ''DelegatedSignature'', ''SignatureSet'', ''RemoteSignature'']"

definition setField :: "string \<Rightarrow> wvalue \<Rightarrow> (string \<times> wvalue) list \<Rightarrow> (string \<times> wvalue) list" where
  "setField k v fs = (if k \<in> fst ` set fs then map (\<lambda>(a, b). if a = k then (a, v) else (a, b)) fs else fs @ [(k, v)])"

function unpackSignature :: "wire_node \<Rightarrow> wire_node list" where
  "unpackSignature sig =
     (if cls sig = ''SignatureSet'' then concat (map unpackSignature (nodesOf sig ''signatures''))
      else if cls sig = ''RemoteSignature'' then (case nodeOf sig ''signature'' of None \<Rightarrow> [] | Some inner \<Rightarrow> unpackSignature inner)
      else if cls sig = ''DelegatedSignature'' then
        (case nodeOf sig ''signature'' of
           None \<Rightarrow> []
         | Some inner \<Rightarrow>
             map (\<lambda>s. Node (cls sig) (setField ''signature'' (WNode s) (nodeFields sig)) (extra sig) (isEmpty sig)) (unpackSignature inner))
      else [sig])"
  by pat_completeness auto
termination
  by (relation "measure size") (auto simp: nodeOf_size nodesOf_size)

declare unpackSignature.simps [simp del]

fun anyInitiates :: "(wire_node \<Rightarrow> bytes) \<Rightarrow> (wire_node \<Rightarrow> bytes option) \<Rightarrow> bytes \<Rightarrow> wire_node list \<Rightarrow> bool" where
  "anyInitiates metadataHash initiatorHash initiator [] = False"
| "anyInitiates metadataHash initiatorHash initiator (s # ss) =
     (if initiator = metadataHash s then True
      else if cls s \<notin> set userSignatures then anyInitiates metadataHash initiatorHash initiator ss
      else (case initiatorHash s of
              None \<Rightarrow> False
            | Some h \<Rightarrow> if initiator = h then True else anyInitiates metadataHash initiatorHash initiator ss))"

definition signatureDidInitiate :: "(wire_node \<Rightarrow> bytes) \<Rightarrow> (wire_node \<Rightarrow> bytes option) \<Rightarrow> wire_node \<Rightarrow> bytes \<Rightarrow> bool" where
  "signatureDidInitiate metadataHash initiatorHash sig initiator =
     anyInitiates metadataHash initiatorHash initiator (unpackSignature sig)"

section \<open>Binary search\<close>

definition upward :: "('a \<Rightarrow> int) \<Rightarrow> 'a list \<Rightarrow> bool" where
  "upward cmp l \<longleftrightarrow> (\<forall>i j. i < j \<longrightarrow> j < length l \<longrightarrow> cmp (l ! i) \<ge> 0 \<longrightarrow> cmp (l ! j) \<ge> 0)"

lemma searchLoop_spec:
  assumes "upward cmp l" "lo \<le> hi" "hi \<le> length l" "\<And>i. i < lo \<Longrightarrow> cmp (l ! i) < 0"
    "\<And>i. hi \<le> i \<Longrightarrow> i < length l \<Longrightarrow> cmp (l ! i) \<ge> 0"
  shows "searchLoop cmp l lo hi \<le> length l \<and> (\<forall>i < searchLoop cmp l lo hi. cmp (l ! i) < 0) \<and>
    (\<forall>i. searchLoop cmp l lo hi \<le> i \<longrightarrow> i < length l \<longrightarrow> cmp (l ! i) \<ge> 0)"
  using assms
proof (induction cmp l lo hi rule: searchLoop.induct)
  case (1 cmp l lo hi)
  let ?m = "(lo + hi) div 2"
  show ?case
  proof (cases "lo < hi")
    case False
    then show ?thesis using "1.prems" by (subst (1 2 3) searchLoop.simps) auto
  next
    case True
    then have m: "lo \<le> ?m" "?m < hi" "?m < length l" using "1.prems"(3) by auto
    show ?thesis
    proof (cases "cmp (l ! ?m) \<ge> 0")
      case up: True
      have "cmp (l ! i) \<ge> 0" if "?m \<le> i" "i < length l" for i
        using "1.prems"(1) up that unfolding upward_def by (metis le_neq_implies_less)
      then have *: "\<And>i. ?m \<le> i \<Longrightarrow> i < length l \<Longrightarrow> cmp (l ! i) \<ge> 0" .
      have eq: "searchLoop cmp l lo hi = searchLoop cmp l lo ?m"
        by (subst searchLoop.simps) (simp only: True up if_True Let_def)
      show ?thesis unfolding eq
        by (rule "1.IH"(1) [OF True refl up "1.prems"(1) m(1) less_imp_le [OF m(3)] "1.prems"(4) *])
    next
      case down: False
      have "cmp (l ! i) < 0" if "i < ?m + 1" for i
      proof (rule ccontr)
        assume "\<not> cmp (l ! i) < 0"
        then have i: "cmp (l ! i) \<ge> 0" by simp
        with down have "i \<noteq> ?m" by metis
        then have "i < ?m" using that by linarith
        then have "cmp (l ! ?m) \<ge> 0" using "1.prems"(1) m(3) i unfolding upward_def by metis
        with down show False by simp
      qed
      then have *: "\<And>i. i < ?m + 1 \<Longrightarrow> cmp (l ! i) < 0" .
      have eq: "searchLoop cmp l lo hi = searchLoop cmp l (?m + 1) hi"
        by (subst searchLoop.simps) (simp only: True down if_True if_False Let_def)
      have le: "?m + 1 \<le> hi" using m(2) by simp
      show ?thesis unfolding eq
        by (rule "1.IH"(2) [OF True refl down "1.prems"(1) le "1.prems"(3) * "1.prems"(5)])
    qed
  qed
qed

lemma search_spec:
  assumes "upward cmp l" "search l cmp = (i, found)"
  shows "i \<le> length l" "\<And>j. j < i \<Longrightarrow> cmp (l ! j) < 0" "\<And>j. i \<le> j \<Longrightarrow> j < length l \<Longrightarrow> cmp (l ! j) \<ge> 0"
    "found \<longleftrightarrow> i < length l \<and> cmp (l ! i) = 0"
proof -
  have i: "i = searchLoop cmp l 0 (length l)" "found \<longleftrightarrow> i < length l \<and> cmp (l ! i) = 0"
    using assms(2) by (auto simp: search_def Let_def split: if_splits)
  have "i \<le> length l \<and> (\<forall>j < i. cmp (l ! j) < 0) \<and> (\<forall>j. i \<le> j \<longrightarrow> j < length l \<longrightarrow> cmp (l ! j) \<ge> 0)"
    unfolding i(1) by (rule searchLoop_spec [OF assms(1)]) simp_all
  then show "i \<le> length l" "\<And>j. j < i \<Longrightarrow> cmp (l ! j) < 0" "\<And>j. i \<le> j \<Longrightarrow> j < length l \<Longrightarrow> cmp (l ! j) \<ge> 0"
    by blast+
  show "found \<longleftrightarrow> i < length l \<and> cmp (l ! i) = 0" by (rule i(2))
qed

section \<open>The order of the entries of a page\<close>

text \<open>
  \<open>before l k\<close>: \<open>l\<close> comes before \<open>k\<close> on a page: by key hash, an entry without a delegate before one with, and by the delegate's key.
\<close>

definition before :: "key_spec \<Rightarrow> key_spec \<Rightarrow> bool" where
  "before l k \<longleftrightarrow> compareSpecs k l < 0"

definition orderedKeys :: "key_spec list \<Rightarrow> bool" where
  "orderedKeys ks \<longleftrightarrow> sorted_wrt before ks"

lemma compareBytes_eq: "compareBytes a b = 0 \<longleftrightarrow> a = b"
  unfolding compareBytes_def by (rule lexCompare_eq) (rule unsigned_word_eqI [where 'a = nat])

lemma code_eq: "code x = code y \<Longrightarrow> x = y"
  by (metis char_of_code)

lemma compareUrls_eq: "compareUrls a b = 0 \<longleftrightarrow> urlKey a = urlKey b"
  unfolding compareUrls_def by (rule lexCompare_eq) (rule code_eq)

lemma before_iff:
  "before l k \<longleftrightarrow> compareBytes (ks_hash l) (ks_hash k) < 0 \<or>
     ks_hash l = ks_hash k \<and>
       (ks_delegate l = None \<or> (\<exists>x y. ks_delegate l = Some x \<and> ks_delegate k = Some y \<and> compareUrls x y < 0))"
proof -
  have "compareBytes (ks_hash l) (ks_hash k) = 0 \<longleftrightarrow> ks_hash l = ks_hash k" by (rule compareBytes_eq)
  then show ?thesis
    by (cases "compareBytes (ks_hash l) (ks_hash k) = 0"; cases "ks_delegate l"; cases "ks_delegate k")
      (auto simp: before_def compareSpecs_def Let_def)
qed

lemma compareSpecs_zero:
  "compareSpecs k l = 0 \<longleftrightarrow> ks_hash l = ks_hash k \<and> (\<exists>x y. ks_delegate l = Some x \<and> ks_delegate k = Some y \<and> urlKey x = urlKey y)"
  by (auto simp: compareSpecs_def Let_def compareBytes_eq compareUrls_eq split: option.splits)

lemma compareBytes_trans: "compareBytes a b < 0 \<Longrightarrow> compareBytes b c < 0 \<Longrightarrow> compareBytes a c < 0"
  unfolding compareBytes_def using lexCompare_trans [of unat a b c] by auto

lemma compareUrls_trans: "compareUrls a b < 0 \<Longrightarrow> compareUrls b c < 0 \<Longrightarrow> compareUrls a c < 0"
  unfolding compareUrls_def using lexCompare_trans [of code "urlKey a" "urlKey b" "urlKey c"] by auto

lemma before_trans: "before l m \<Longrightarrow> before m k \<Longrightarrow> before l k"
  unfolding before_iff using compareBytes_trans compareUrls_trans by (elim disjE conjE exE) (auto 0 3)

lemma before_total: "\<not> before l k \<Longrightarrow> compareSpecs k l \<noteq> 0 \<Longrightarrow> before k l"
proof -
  assume n: "\<not> before l k" "compareSpecs k l \<noteq> 0"
  have sw: "compareBytes (ks_hash k) (ks_hash l) = - compareBytes (ks_hash l) (ks_hash k)"
    "compareUrls x y = - compareUrls y x" for x y
    unfolding compareBytes_def compareUrls_def by (rule lexCompare_swap)+
  show ?thesis
  proof (cases "ks_hash l = ks_hash k")
    case False
    then have "compareBytes (ks_hash l) (ks_hash k) > 0" using n(1) compareBytes_eq [of "ks_hash l" "ks_hash k"]
      unfolding before_iff by linarith
    then show ?thesis unfolding before_iff using sw(1) by simp
  next
    case True
    then obtain x where x: "ks_delegate l = Some x" using n(1) unfolding before_iff by (cases "ks_delegate l") auto
    show ?thesis
    proof (cases "ks_delegate k")
      case (Some y)
      have "compareUrls x y \<noteq> 0" using n(2) True x Some compareSpecs_zero compareUrls_eq by auto
      moreover have "\<not> compareUrls x y < 0" using n(1) True x Some unfolding before_iff by auto
      ultimately have "compareUrls y x < 0" using sw(2) [of y x] by linarith
      then show ?thesis unfolding before_iff using True x Some by auto
    qed (simp add: before_iff True)
  qed
qed

lemma before_cong:
  assumes "compareSpecs k b = 0"
  shows "before l b \<longleftrightarrow> before l k" "before b r \<longleftrightarrow> before k r"
  using assms unfolding compareSpecs_zero before_iff compareUrls_def by auto

lemma upward_compareSpecs: "orderedKeys ks \<Longrightarrow> upward (compareSpecs k) ks"
  unfolding upward_def orderedKeys_def sorted_wrt_iff_nth_less
  using before_trans unfolding before_def by (metis not_less)

text \<open>What adding an entry does: the page stays in order, and either gains the entry or has an equal one replaced.\<close>

lemma addKeySpec_cases:
  assumes "orderedKeys (kp_keys p)"
  obtains (insert) a b where "kp_keys p = a @ b" "addKeySpec p k = p\<lparr> kp_keys := a @ k # b \<rparr>" "orderedKeys (a @ k # b)"
      "\<forall>l \<in> set (a @ b). compareSpecs k l \<noteq> 0"
  | (replace) a l b where "kp_keys p = a @ l # b" "addKeySpec p k = p\<lparr> kp_keys := a @ k # b \<rparr>" "orderedKeys (a @ k # b)"
      "compareSpecs k l = 0"
proof -
  let ?ks = "kp_keys p"
  obtain i found where s: "search ?ks (compareSpecs k) = (i, found)" by (cases "search ?ks (compareSpecs k)")
  note sp = search_spec [OF upward_compareSpecs [OF assms] s]
  have ord: "sorted_wrt before (take i ?ks @ drop i ?ks)" using assms by (simp add: orderedKeys_def)
  have below: "before l k" if "l \<in> set (take i ?ks)" for l
    using that sp(1,2) by (auto simp: in_set_conv_nth before_def)
  show thesis
  proof (cases found)
    case True
    then have i: "i < length ?ks" "compareSpecs k (?ks ! i) = 0" using sp(4) by simp_all
    have ks: "?ks = take i ?ks @ ?ks ! i # drop (Suc i) ?ks" by (rule id_take_nth_drop [OF i(1)])
    then have o: "sorted_wrt before (take i ?ks @ ?ks ! i # drop (Suc i) ?ks)" using assms by (simp add: orderedKeys_def)
    have "orderedKeys (take i ?ks @ k # drop (Suc i) ?ks)"
      using o below unfolding orderedKeys_def sorted_wrt_append by (auto simp: before_cong [OF i(2)])
    moreover have "addKeySpec p k = p\<lparr> kp_keys := take i ?ks @ k # drop (Suc i) ?ks \<rparr>"
      using s True i(1) by (simp add: addKeySpec_def upd_conv_take_nth_drop)
    ultimately show thesis using ks i(2) by (intro replace) auto
  next
    case False
    have above: "before k l" if "l \<in> set (drop i ?ks)" for l
    proof -
      from that obtain j where j: "l = ?ks ! (i + j)" "i + j < length ?ks" by (auto simp: in_set_conv_nth)
      then have "i < length ?ks" by simp
      then have first: "before k (?ks ! i)" using False sp(3,4) by (intro before_total) (auto simp: before_def not_less)
      show ?thesis
      proof (cases j)
        case (Suc j')
        then have "before (?ks ! i) (?ks ! (i + j))" using assms j unfolding orderedKeys_def sorted_wrt_iff_nth_less by auto
        with first show ?thesis unfolding j(1) by (rule before_trans)
      qed (use first j in simp)
    qed
    have ne: "compareSpecs k l \<noteq> 0" if l: "l \<in> set (take i ?ks @ drop i ?ks)" for l
    proof
      assume z: "compareSpecs k l = 0"
      from l have "before l k \<or> before k l" using below above unfolding set_append Un_iff by blast
      then have "before k k" using before_cong [OF z] by auto
      then show False using z unfolding before_iff compareSpecs_zero by (auto simp: compareBytes_def compareUrls_def)
    qed
    have "orderedKeys (take i ?ks @ k # drop i ?ks)"
      using ord below above before_trans unfolding orderedKeys_def sorted_wrt_append by auto
    moreover have "addKeySpec p k = p\<lparr> kp_keys := take i ?ks @ k # drop i ?ks \<rparr>"
      using s False by (simp add: addKeySpec_def)
    moreover have "?ks = take i ?ks @ drop i ?ks" by simp
    moreover have "\<forall>l \<in> set (take i ?ks @ drop i ?ks). compareSpecs k l \<noteq> 0" using ne by (rule ballI)
    ultimately show thesis by (intro insert [of "take i ?ks" "drop i ?ks"])
  qed
qed

lemma before_hash: "before l k \<Longrightarrow> compareBytes (ks_hash l) (ks_hash k) \<le> 0"
  unfolding before_iff by (auto simp: compareBytes_def)

lemma upward_hash: "orderedKeys ks \<Longrightarrow> upward (\<lambda>k. compareBytes (ks_hash k) h) ks"
proof -
  assume o: "orderedKeys ks"
  have "compareBytes (ks_hash l) h \<le> 0 \<and> (compareBytes (ks_hash k) h < 0 \<longrightarrow> compareBytes (ks_hash l) h < 0)"
    if "before l k" "compareBytes (ks_hash k) h \<le> 0" for l k
    using lexCompare_trans [of unat "ks_hash l" "ks_hash k" h] before_hash [OF that(1)] that(2) unfolding compareBytes_def by blast
  then show ?thesis
    using o unfolding upward_def orderedKeys_def sorted_wrt_iff_nth_less by (metis less_imp_le not_less)
qed

lemma entryByKeyHash_spec:
  assumes "orderedKeys (kp_keys p)"
  shows "entryByKeyHash p h = None \<longleftrightarrow> (\<forall>k \<in> set (kp_keys p). ks_hash k \<noteq> h)"
    and "entryByKeyHash p h = Some (i, k) \<Longrightarrow>
      i < length (kp_keys p) \<and> k = kp_keys p ! i \<and> ks_hash k = h \<and> (\<forall>j < i. ks_hash (kp_keys p ! j) \<noteq> h)"
proof -
  let ?ks = "kp_keys p" and ?c = "\<lambda>k. compareBytes (ks_hash k) h"
  obtain i0 found where s: "search ?ks ?c = (i0, found)" by (cases "search ?ks ?c")
  note sp = search_spec [OF upward_hash [OF assms] s]
  have e: "entryByKeyHash p h = (if found then Some (i0, ?ks ! i0) else None)"
    by (simp add: entryByKeyHash_def s)
  have early: "ks_hash (?ks ! j) \<noteq> h" if "j < i0" for j using sp(2) [OF that] compareBytes_eq [of h h] by auto
  have none: "ks_hash k \<noteq> h" if nf: "\<not> found" and k: "k \<in> set ?ks" for k
  proof
    assume h: "ks_hash k = h"
    obtain j where j: "j < length ?ks" "k = ?ks ! j" using k by (auto simp: in_set_conv_nth)
    have zero: "?c (?ks ! j) = 0" using h j compareBytes_eq by simp
    then have "i0 \<le> j" using early j h by (metis not_less)
    then have i0: "i0 < length ?ks" using j by simp
    have "?c (?ks ! i0) \<ge> 0" using sp(3) [OF le_refl i0] .
    moreover have "?c (?ks ! i0) \<noteq> 0" using sp(4) nf i0 by simp
    ultimately have pos: "?c (?ks ! i0) > 0" by simp
    then have "i0 \<noteq> j" using zero by auto
    then have "before (?ks ! i0) (?ks ! j)" using assms \<open>i0 \<le> j\<close> j unfolding orderedKeys_def sorted_wrt_iff_nth_less by auto
    from before_hash [OF this] have "?c (?ks ! i0) \<le> 0" using h j by simp
    with pos show False by simp
  qed
  have at: "found \<Longrightarrow> i0 < length ?ks \<and> ks_hash (?ks ! i0) = h" using sp(4) compareBytes_eq by simp
  show "entryByKeyHash p h = None \<longleftrightarrow> (\<forall>k \<in> set ?ks. ks_hash k \<noteq> h)"
    using e none at by (cases found) auto
  show "entryByKeyHash p h = Some (i, k) \<Longrightarrow>
      i < length ?ks \<and> k = ?ks ! i \<and> ks_hash k = h \<and> (\<forall>j < i. ks_hash (?ks ! j) \<noteq> h)"
    using e at early by (auto split: if_splits)
qed

text \<open>
  The binary search by key hash is exact on a page in order: it finds an entry exactly when some entry has that hash, what it finds is
  the first such entry at its true position, and adding any entry puts it on the page, keeps the page in order and loses no
  entry but one the new entry equals in hash and delegate.
\<close>

theorem keyPage_search_exact:
  assumes "orderedKeys (kp_keys p)"
  shows "(entryByKeyHash p h = None \<longleftrightarrow> h \<notin> ks_hash ` set (kp_keys p)) \<and>
    (case entryByKeyHash p h of None \<Rightarrow> True
     | Some (i, k) \<Rightarrow> i < length (kp_keys p) \<and> kp_keys p ! i = k \<and> ks_hash k = h \<and> h \<notin> ks_hash ` set (take i (kp_keys p))) \<and>
    orderedKeys (kp_keys (addKeySpec p k)) \<and> k \<in> set (kp_keys (addKeySpec p k)) \<and>
    {l \<in> set (kp_keys p). compareSpecs k l \<noteq> 0} \<subseteq> set (kp_keys (addKeySpec p k))"
proof (intro conjI)
  show "entryByKeyHash p h = None \<longleftrightarrow> h \<notin> ks_hash ` set (kp_keys p)"
    using entryByKeyHash_spec(1) [OF assms, of h] by auto
  show "case entryByKeyHash p h of None \<Rightarrow> True
     | Some (i, k) \<Rightarrow> i < length (kp_keys p) \<and> kp_keys p ! i = k \<and> ks_hash k = h \<and> h \<notin> ks_hash ` set (take i (kp_keys p))"
  proof (cases "entryByKeyHash p h")
    case (Some r)
    obtain i k where r: "r = (i, k)" by (cases r)
    note e = entryByKeyHash_spec(2) [OF assms Some [unfolded r]]
    have "h \<notin> ks_hash ` set (take i (kp_keys p))"
    proof
      assume "h \<in> ks_hash ` set (take i (kp_keys p))"
      then obtain j where "j < i" "h = ks_hash (kp_keys p ! j)" by (auto simp: in_set_conv_nth)
      moreover have "\<forall>j < i. ks_hash (kp_keys p ! j) \<noteq> h" using e by (elim conjE)
      ultimately show False by metis
    qed
    moreover have "i < length (kp_keys p)" "kp_keys p ! i = k" "ks_hash k = h" using e by (elim conjE; simp only:)+
    ultimately show ?thesis by (simp only: Some r option.case prod.case simp_thms)
  qed simp
  show "orderedKeys (kp_keys (addKeySpec p k))" "k \<in> set (kp_keys (addKeySpec p k))"
    "{l \<in> set (kp_keys p). compareSpecs k l \<noteq> 0} \<subseteq> set (kp_keys (addKeySpec p k))"
    by (rule addKeySpec_cases [OF assms, of k]; auto)+
qed

definition demoKey :: "byte \<Rightarrow> key_spec" where
  "demoKey b = \<lparr> ks_hash = [b], ks_lastUsed = 0, ks_delegate = None \<rparr>"

definition demoPage :: "key_page" where
  "demoPage = (newKeyPage (mkUrl ''a.acme'' ''/book/1'' []) 1 1)\<lparr> kp_keys := [demoKey 2, demoKey 5] \<rparr>"

theorem keyPage_search_exact_witness:
  "orderedKeys (kp_keys (addKeySpec demoPage (demoKey 3))) \<and> demoKey 3 \<in> set (kp_keys (addKeySpec demoPage (demoKey 3))) \<and>
   (entryByKeyHash demoPage [5] = None \<longleftrightarrow> [5] \<notin> ks_hash ` set (kp_keys demoPage))"
proof -
  have "orderedKeys (kp_keys demoPage)" unfolding orderedKeys_def before_def by code_simp
  from keyPage_search_exact [OF this, of "[5]" "demoKey 3"] show ?thesis by blast
qed

end
