(* ===== verification/Replay.thy ===== *)
theory Replay
  imports Model "HOL-Library.Multiset"
begin

text \<open>
  The replay of a key page's history: the first half of \<open>packages/verify/src/s3/govvote.ts\<close> (replay, genesis, initiator). A page is
  changed by the transactions of its main chain, applied as the executor applied them; whatever cannot be applied so is a refusal, an
  error constructor per message of the source. \<open>T\<close> are the SDK's transaction type numbers, \<open>H\<close> is SHA-256.
\<close>

section \<open>Spellings\<close>

text \<open>\<open>canonicalAccSpelling\<close> of \<open>proof-v2/govroot-v3.ts\<close>, which \<open>govvote.ts\<close> calls \<open>normalizeAccURL\<close>.\<close>

definition canonicalAccSpelling :: "string \<Rightarrow> string" where
  "canonicalAccSpelling u =
     (let out = goLower (goTrimSpace u) in
      if out \<noteq> [] \<and> last out = CHR ''/'' then butlast out else out)"

definition bookOfPage :: "string \<Rightarrow> string" where
  "bookOfPage page =
     (case cutLast (CHR ''/'') (canonicalAccSpelling page) of
        None \<Rightarrow> []
      | Some (book, _) \<Rightarrow> book)"

section \<open>Operations on a page\<close>

datatype op_error =
    EmptyEntryAdded
  | EmptyEntryRemoved
  | OldEntryEmpty
  | NewEntryEmpty
  | SelfDelegation
  | DuplicateEntry
  | RemovedNotFound
  | UpdatedNotFound
  | NotAKeyPage
  | LastKeyOfFirstPage
  | ZeroSignatures
  | TooManySignatures int nat
  | TooManyRejections int nat
  | TooManyResponses int nat
  | TypeNotAllowable int
  | InvalidOperation string
  | KeyHashMissing
  | KeyHashTooLong

record key_spec_params =
  pa_keyHash :: bytes
  pa_delegate :: "acc_url option"

definition paramsOf :: "wire_node option \<Rightarrow> key_spec_params" where
  "paramsOf n = \<lparr> pa_keyHash = (case n of None \<Rightarrow> [] | Some m \<Rightarrow> bytesOf m ''keyHash''), pa_delegate = delegateOf n \<rparr>"

definition isEmptyParams :: "key_spec_params \<Rightarrow> bool" where
  "isEmptyParams k = (pa_keyHash k = [] \<and> pa_delegate k = None)"

definition findKeyPageEntry :: "key_page \<Rightarrow> key_spec_params \<Rightarrow> (nat \<times> key_spec) option" where
  "findKeyPageEntry page s =
     (let hit = (if pa_keyHash s \<noteq> [] then entryByKeyHash page (pa_keyHash s) else None) in
      case (hit, pa_delegate s) of
        (None, Some d) \<Rightarrow> entryByDelegate page d
      | _ \<Rightarrow> hit)"

definition requireKeyHash :: "bytes \<Rightarrow> op_error + unit" where
  "requireKeyHash h =
     (if h = [] then Inl KeyHashMissing else if length h > 32 then Inl KeyHashTooLong else Inr ())"

definition replayUpdateKey :: "key_page \<Rightarrow> key_spec_params \<Rightarrow> key_spec_params \<Rightarrow> bool \<Rightarrow> op_error + key_page" where
  "replayUpdateKey page old new preserveDelegate =
     (case findKeyPageEntry page old of
        None \<Rightarrow> Inl UpdatedNotFound
      | Some (i, spec) \<Rightarrow>
          if (case findKeyPageEntry page new of None \<Rightarrow> False | Some (j, _) \<Rightarrow> i \<noteq> j) then Inl DuplicateEntry
          else
            let entry = spec\<lparr> ks_hash := pa_keyHash new,
                  ks_delegate := (if pa_delegate new \<noteq> None \<or> \<not> preserveDelegate then pa_delegate new else ks_delegate spec) \<rparr> in
            Inr (addKeySpec (removeKeySpecAt page i) entry))"

definition setThreshold :: "key_page \<Rightarrow> int \<Rightarrow> op_error + key_page" where
  "setThreshold page m =
     (if m \<le> int (length (kp_keys page)) \<and> m > 0 then Inr (page\<lparr> kp_accept := m \<rparr>)
      else if m = 0 then Inl ZeroSignatures
      else Inl (TooManySignatures m (length (kp_keys page))))"

definition lowerTo :: "int \<Rightarrow> int \<Rightarrow> int" where
  "lowerTo n t = (if t > n then n else t)"

fun bigsIn :: "wvalue list \<Rightarrow> int list" where
  "bigsIn [] = []"
| "bigsIn (WBig i # vs) = i # bigsIn vs"
| "bigsIn (v # vs) = bigsIn vs"

definition enumList :: "wire_node \<Rightarrow> string \<Rightarrow> int list" where
  "enumList n name = (case fieldOf n name of Some (WList vs) \<Rightarrow> bigsIn vs | _ \<Rightarrow> [])"

text \<open>The case \<open>RemoveKeyOperation\<close> after the entry is known.\<close>

definition removeEntry :: "key_page \<Rightarrow> nat \<Rightarrow> op_error + key_page" where
  "removeEntry page i =
     (case parseKeyPageUrl (kp_url page) of
        None \<Rightarrow> Inl NotAKeyPage
      | Some (_, index) \<Rightarrow>
          if length (kp_keys page) = 1 \<and> index = 1 then Inl LastKeyOfFirstPage
          else
            let page' = removeKeySpecAt page i; n = int (length (kp_keys page')) in
            Inr (page'\<lparr> kp_accept := lowerTo n (kp_accept page'), kp_reject := lowerTo n (kp_reject page'),
                        kp_response := lowerTo n (kp_response page') \<rparr>))"

definition updateBlacklist :: "tx_types \<Rightarrow> key_page \<Rightarrow> int list \<Rightarrow> int list \<Rightarrow> op_error + key_page" where
  "updateBlacklist T page allow deny =
     (case find (\<lambda>t. allowedTransactionBit T t = None) (allow @ deny) of
        Some t \<Rightarrow> Inl (TypeNotAllowable t)
      | None \<Rightarrow>
          (let bl0 = (case kp_blacklist page of None \<Rightarrow> 0 | Some b \<Rightarrow> b);
               bl1 = foldl (\<lambda>bl t. and bl (not (push_bit (the (allowedTransactionBit T t)) 1))) bl0 allow;
               bl2 = foldl (\<lambda>bl t. or bl (push_bit (the (allowedTransactionBit T t)) 1)) bl1 deny
           in Inr (page\<lparr> kp_blacklist := (if bl2 = 0 then None else Some bl2) \<rparr>)))"

definition selfDelegates :: "key_spec_params \<Rightarrow> acc_url \<Rightarrow> bool" where
  "selfDelegates e princ = (case pa_delegate e of None \<Rightarrow> False | Some d \<Rightarrow> parentOf d princ)"

definition applyKeyPageOperation :: "tx_types \<Rightarrow> acc_url \<Rightarrow> key_page \<Rightarrow> wire_node \<Rightarrow> op_error + key_page" where
  "applyKeyPageOperation T princ page op =
     (if cls op = ''AddKeyOperation'' then
        (let entry = paramsOf (nodeOf op ''entry'') in
         if isEmptyParams entry then Inl EmptyEntryAdded
         else if selfDelegates entry princ then Inl SelfDelegation
         else if findKeyPageEntry page entry \<noteq> None then Inl DuplicateEntry
         else Inr (addKeySpec page \<lparr> ks_hash = pa_keyHash entry, ks_lastUsed = 0, ks_delegate = pa_delegate entry \<rparr>))
      else if cls op = ''RemoveKeyOperation'' then
        (let entry = paramsOf (nodeOf op ''entry'') in
         if isEmptyParams entry then Inl EmptyEntryRemoved
         else (case findKeyPageEntry page entry of
                 None \<Rightarrow> Inl RemovedNotFound
               | Some (i, _) \<Rightarrow> removeEntry page i))
      else if cls op = ''UpdateKeyOperation'' then
        (let oldE = paramsOf (nodeOf op ''oldEntry''); newE = paramsOf (nodeOf op ''newEntry'') in
         if isEmptyParams oldE then Inl OldEntryEmpty
         else if isEmptyParams newE then Inl NewEntryEmpty
         else if selfDelegates newE princ then Inl SelfDelegation
         else replayUpdateKey page oldE newE False)
      else if cls op = ''SetThresholdKeyPageOperation'' then
        (let t = bigOf op ''threshold'' in if t = 0 then Inl ZeroSignatures else setThreshold page t)
      else if cls op = ''SetRejectThresholdKeyPageOperation'' then
        (let t = bigOf op ''threshold'' in
         if t \<ge> int (length (kp_keys page)) then Inl (TooManyRejections t (length (kp_keys page))) else Inr (page\<lparr> kp_reject := t \<rparr>))
      else if cls op = ''SetResponseThresholdKeyPageOperation'' then
        (let t = bigOf op ''threshold'' in
         if t \<ge> int (length (kp_keys page)) then Inl (TooManyResponses t (length (kp_keys page))) else Inr (page\<lparr> kp_response := t \<rparr>))
      else if cls op = ''UpdateAllowedKeyPageOperation'' then
        updateBlacklist T page (enumList op ''allow'') (enumList op ''deny'')
      else Inl (InvalidOperation (cls op)))"

section \<open>Events and the replay\<close>

record initiator =
  in_payer :: acc_url
  in_keyHash :: "bytes option"

record replay_event =
  ev_hash :: string
  ev_block :: int
  ev_txn :: wire_node
  ev_initiator :: "initiator option"

datatype effect = NoEffect | Authority

datatype replay_error =
    NoTransaction
  | WrongPrincipal
  | Divergence "nat option" op_error
  | InitiatorUnknown
  | InitiatingKeyUnknown
  | InitiatorForeign
  | Untaught string

fun applyOperations :: "tx_types \<Rightarrow> acc_url \<Rightarrow> nat \<Rightarrow> key_page \<Rightarrow> wire_node list \<Rightarrow> replay_error + key_page" where
  "applyOperations T princ i page [] = Inr page"
| "applyOperations T princ i page (op # ops) =
     bindE (mapErr (Divergence (Some i)) (applyKeyPageOperation T princ page op))
       (\<lambda>page'. applyOperations T princ (i + 1) page' ops)"

text \<open>The end of an \<open>UpdateKeyPage\<close>: the version goes up by one and the last-used marks are cleared.\<close>

definition committed :: "key_page \<Rightarrow> key_page" where
  "committed next = next\<lparr> kp_version := kp_version next + 1, kp_keys := map (\<lambda>k. k\<lparr> ks_lastUsed := 0 \<rparr>) (kp_keys next) \<rparr>"

text \<open>Which entry an \<open>UpdateKey\<close> transaction rotates.\<close>

definition rotatedEntry :: "key_page \<Rightarrow> initiator \<Rightarrow> replay_error + key_spec_params" where
  "rotatedEntry page ini =
     (case entryByDelegate page (in_payer ini) of
        Some (i, _) \<Rightarrow> Inr \<lparr> pa_keyHash = [], pa_delegate = ks_delegate (kp_keys page ! i) \<rparr>
      | None \<Rightarrow>
          if urlEqual (in_payer ini) (kp_url page) then
            (case in_keyHash ini of
               None \<Rightarrow> Inl InitiatingKeyUnknown
             | Some h \<Rightarrow> if h = [] then Inl InitiatingKeyUnknown else Inr \<lparr> pa_keyHash = h, pa_delegate = None \<rparr>)
          else Inl InitiatorForeign)"

definition applyEvent :: "tx_types \<Rightarrow> key_page \<Rightarrow> replay_event \<Rightarrow> replay_error + effect \<times> key_page" where
  "applyEvent T page ev =
     (case (bodyOf (ev_txn ev), principalOf (ev_txn ev)) of
        (Some body, Some princ) \<Rightarrow>
          if \<not> urlEqual princ (kp_url page) then Inl WrongPrincipal
          else if cls body = ''UpdateKeyPage'' then
            bindE (applyOperations T princ 0 page (nodesOf body ''operation'')) (\<lambda>next.
              Inr (Authority, committed next))
          else if cls body = ''UpdateKey'' then
            (case ev_initiator ev of
               None \<Rightarrow> Inl InitiatorUnknown
             | Some ini \<Rightarrow>
                 (let newKeyHash = bytesOf body ''newKeyHash'' in
                  bindE (mapErr (Divergence None) (requireKeyHash newKeyHash)) (\<lambda>_.
                  bindE (rotatedEntry page ini) (\<lambda>old.
                  bindE (mapErr (Divergence None)
                          (replayUpdateKey page old \<lparr> pa_keyHash = newKeyHash, pa_delegate = None \<rparr> True)) (\<lambda>next.
                  Inr (Authority, next))))))
          else if cls body = ''SyntheticDepositCredits'' \<or> cls body = ''BurnCredits'' then Inr (NoEffect, page)
          else Inl (Untaught (cls body))
      | _ \<Rightarrow> Inl NoTransaction)"

record page_state =
  st_block :: int
  st_page :: key_page
  st_event :: int

fun replayFrom :: "tx_types \<Rightarrow> nat \<Rightarrow> key_page \<Rightarrow> replay_event list \<Rightarrow> replay_error + page_state list \<times> key_page" where
  "replayFrom T i page [] = Inr ([], page)"
| "replayFrom T i page (ev # evs) =
     bindE (applyEvent T page ev) (\<lambda>(effect, page').
       bindE (replayFrom T (i + 1) page' evs) (\<lambda>(states, head).
         Inr ((if effect = Authority then [\<lparr> st_block = ev_block ev, st_page = page', st_event = int i \<rparr>] else []) @ states, head)))"

definition replay :: "tx_types \<Rightarrow> key_page \<Rightarrow> int \<Rightarrow> replay_event list \<Rightarrow> replay_error + page_state list \<times> key_page" where
  "replay T genesis genesisBlock events =
     bindE (replayFrom T 0 genesis events) (\<lambda>(states, head).
       Inr (\<lparr> st_block = genesisBlock, st_page = genesis, st_event = - 1 \<rparr> # states, head))"

text \<open>\<open>States.candidatesDuring\<close> and \<open>States.ofVersion\<close>\<close>

fun candidatesLoop :: "int \<Rightarrow> key_page option \<Rightarrow> key_page list \<Rightarrow> page_state list \<Rightarrow> key_page option \<times> key_page list" where
  "candidatesLoop block entering out [] = (entering, out)"
| "candidatesLoop block entering out (st # sts) =
     (if st_block st < block then candidatesLoop block (Some (st_page st)) out sts
      else if st_block st = block then candidatesLoop block entering (out @ [st_page st]) sts
      else candidatesLoop block entering out sts)"

definition candidatesDuring :: "page_state list \<Rightarrow> int \<Rightarrow> key_page list" where
  "candidatesDuring sts block = (let (entering, out) = candidatesLoop block None [] sts in optList entering @ out)"

definition ofVersion :: "page_state list \<Rightarrow> int \<Rightarrow> key_page option" where
  "ofVersion sts v = map_option st_page (find (\<lambda>st. kp_version (st_page st) = v) sts)"

section \<open>Genesis\<close>

datatype genesis_error =
    NoGenesis
  | InvalidPageUrl
  | CreatesNoSuchPage
  | NoKeyBookUrl
  | CreatesOtherPage
  | NoKeyHash
  | NotTheBook
  | OnlyPageOne
  | NotOnTheBook
  | NoKeys
  | EmptyKeySpec
  | NotACreation string
  | BadAccount

fun addSpecs :: "key_page \<Rightarrow> wire_node list \<Rightarrow> genesis_error + key_page" where
  "addSpecs kp [] = Inr kp"
| "addSpecs kp (k # ks) =
     (let kh = bytesOf k ''keyHash''; d = urlOf k ''delegate'' in
      if kh = [] \<and> d = None then Inl EmptyKeySpec
      else addSpecs (addKeySpec kp \<lparr> ks_hash = kh, ks_lastUsed = 0, ks_delegate = d \<rparr>) ks)"

fun createdPage :: "string \<Rightarrow> wire_node list \<Rightarrow> genesis_error + key_page" where
  "createdPage want [] = Inl CreatesNoSuchPage"
| "createdPage want (a # as) =
     (if cls a = ''KeyPage'' then
        (case urlOf a ''url'' of
           Some u \<Rightarrow>
             if canonicalAccSpelling (urlString u) = want
             then (case keyPageFrom a of None \<Rightarrow> Inl BadAccount | Some p \<Rightarrow> Inr p)
             else createdPage want as
         | None \<Rightarrow> createdPage want as)
      else createdPage want as)"

definition endsWithOne :: "string \<Rightarrow> bool" where
  "endsWithOne want = (length want \<ge> 2 \<and> drop (length want - 2) want = ''/1'')"

definition genesisPage :: "string \<Rightarrow> wire_node \<Rightarrow> genesis_error + key_page" where
  "genesisPage page txn =
     (case bodyOf txn of
        None \<Rightarrow> Inl NoGenesis
      | Some body \<Rightarrow>
          (let want = canonicalAccSpelling page; book = bookOfPage want in
           (case fromBinary want of
              None \<Rightarrow> Inl InvalidPageUrl
            | Some pageUrl \<Rightarrow>
                if cls body = ''SyntheticCreateIdentity'' then createdPage want (nodesOf body ''accounts'')
                else if cls body = ''CreateIdentity'' then
                  (case urlOf body ''keyBookUrl'' of
                     None \<Rightarrow> Inl NoKeyBookUrl
                   | Some kb \<Rightarrow>
                       if canonicalAccSpelling (urlString kb) \<noteq> book \<or> \<not> endsWithOne want then Inl CreatesOtherPage
                       else if bytesOf body ''keyHash'' = [] then Inl NoKeyHash
                       else Inr (addKeySpec (newKeyPage pageUrl 1 1)
                              \<lparr> ks_hash = bytesOf body ''keyHash'', ks_lastUsed = 0, ks_delegate = None \<rparr>))
                else if cls body = ''CreateKeyBook'' then
                  (if (case urlOf body ''url'' of None \<Rightarrow> True | Some u \<Rightarrow> canonicalAccSpelling (urlString u) \<noteq> book) then Inl NotTheBook
                   else if \<not> endsWithOne want then Inl OnlyPageOne
                   else if bytesOf body ''publicKeyHash'' = [] then Inl NoKeyHash
                   else Inr (addKeySpec (newKeyPage pageUrl 1 0)
                          \<lparr> ks_hash = bytesOf body ''publicKeyHash'', ks_lastUsed = 0, ks_delegate = None \<rparr>))
                else if cls body = ''CreateKeyPage'' then
                  (if (case principalOf txn of None \<Rightarrow> True | Some p \<Rightarrow> canonicalAccSpelling (urlString p) \<noteq> book) then Inl NotOnTheBook
                   else if nodesOf body ''keys'' = [] then Inl NoKeys
                   else addSpecs (newKeyPage pageUrl 1 1) (nodesOf body ''keys''))
                else Inl (NotACreation (cls body)))))"

section \<open>The initiator of a transaction\<close>

datatype initiator_error = NotTheInitiator | NoSigner

definition keyClasses :: "string list" where
  "keyClasses =
     [''LegacyED25519Signature'', ''ED25519Signature'', ''RCD1Signature'', ''BTCSignature'', ''BTCLegacySignature'', ''ETHSignature'',
      ''RsaSha256Signature'', ''EcdsaSha256Signature'', ''TypedDataSignature'']"

definition initiatorOf :: "(bytes \<Rightarrow> bytes) \<Rightarrow> (wire_node \<Rightarrow> bytes) \<Rightarrow> (string \<Rightarrow> bytes \<Rightarrow> bytes option) \<Rightarrow>
    wire_node \<Rightarrow> wire_node \<Rightarrow> initiator_error + initiator" where
  "initiatorOf H metadataHash publicKeyHash txn sig =
     (let f = (case headerOf txn of None \<Rightarrow> replicate 32 0 | Some h \<Rightarrow> bytesOf h ''initiator'') in
      if metadataHash sig \<noteq> (if length f = 32 then f else replicate 32 0) then Inl NotTheInitiator
      else (case signerOf sig of
              None \<Rightarrow> Inl NoSigner
            | Some signer \<Rightarrow>
                Inr \<lparr> in_payer = payerOf H signer,
                      in_keyHash = (if cls sig \<in> set keyClasses then publicKeyHash (cls sig) (bytesOf sig ''publicKey'') else None) \<rparr>))"

section \<open>Every operation keeps the page in order\<close>

definition pageOrdered :: "key_page \<Rightarrow> bool" where
  "pageOrdered p \<longleftrightarrow> orderedKeys (kp_keys p)"

named_theorems ordered "fallible operations that keep a page in order"

lemma addKeySpec_pageOrdered [simp]: "pageOrdered p \<Longrightarrow> pageOrdered (addKeySpec p k)"
  unfolding pageOrdered_def by (erule addKeySpec_cases [of p k]) simp_all

lemma removeKeySpecAt_pageOrdered [simp]: "pageOrdered p \<Longrightarrow> pageOrdered (removeKeySpecAt p i)"
proof -
  assume "pageOrdered p"
  then have "sorted_wrt before (take i (kp_keys p) @ drop i (kp_keys p))" by (simp only: pageOrdered_def orderedKeys_def append_take_drop_id)
  moreover have "set (drop (Suc i) (kp_keys p)) \<subseteq> set (drop i (kp_keys p))" by (rule set_drop_subset_set_drop) simp
  moreover have "sorted_wrt before (drop (Suc i) (kp_keys p))"
    using \<open>pageOrdered p\<close> by (simp add: pageOrdered_def orderedKeys_def sorted_wrt_drop)
  ultimately show ?thesis unfolding pageOrdered_def orderedKeys_def removeKeySpecAt_def sorted_wrt_append by (simp add: sorted_wrt_append) blast
qed

lemma pageOrdered_update [simp]:
  "pageOrdered (p\<lparr> kp_version := v \<rparr>) = pageOrdered p" "pageOrdered (p\<lparr> kp_accept := a \<rparr>) = pageOrdered p"
  "pageOrdered (p\<lparr> kp_reject := r \<rparr>) = pageOrdered p" "pageOrdered (p\<lparr> kp_response := s \<rparr>) = pageOrdered p"
  "pageOrdered (p\<lparr> kp_blacklist := b \<rparr>) = pageOrdered p"
  by (simp_all add: pageOrdered_def)

lemma before_lastUsed [simp]: "before (l\<lparr> ks_lastUsed := a \<rparr>) (k\<lparr> ks_lastUsed := b \<rparr>) = before l k"
  by (simp add: before_iff)

lemma replayUpdateKey_pageOrdered [ordered]: "replayUpdateKey p old new d = Inr p' \<Longrightarrow> pageOrdered p \<Longrightarrow> pageOrdered p'"
  by (auto simp: replayUpdateKey_def Let_def split: option.splits if_splits)

lemma removeEntry_pageOrdered [ordered]: "removeEntry p i = Inr p' \<Longrightarrow> pageOrdered p \<Longrightarrow> pageOrdered p'"
  by (auto simp: removeEntry_def Let_def split: option.splits if_splits)

lemma setThreshold_pageOrdered [ordered]: "setThreshold p m = Inr p' \<Longrightarrow> pageOrdered p \<Longrightarrow> pageOrdered p'"
  by (auto simp: setThreshold_def split: if_splits)

lemma updateBlacklist_pageOrdered [ordered]: "updateBlacklist T p a d = Inr p' \<Longrightarrow> pageOrdered p \<Longrightarrow> pageOrdered p'"
  by (auto simp: updateBlacklist_def Let_def split: option.splits)

lemma applyKeyPageOperation_pageOrdered [ordered]:
  "applyKeyPageOperation T princ p op = Inr p' \<Longrightarrow> pageOrdered p \<Longrightarrow> pageOrdered p'"
  unfolding applyKeyPageOperation_def Let_def by (auto split: if_splits option.splits intro: ordered)

lemma applyOperations_pageOrdered [ordered]:
  "applyOperations T princ i p ops = Inr p' \<Longrightarrow> pageOrdered p \<Longrightarrow> pageOrdered p'"
  by (induction ops arbitrary: i p) (auto simp: results intro: ordered)

lemma applyEvent_cases:
  assumes "applyEvent T p ev = Inr (e, p')"
  obtains (page) q princ ops where "applyOperations T princ 0 p ops = Inr q" "e = Authority" "p' = committed q"
  | (rotate) old h where "h \<noteq> []" "replayUpdateKey p old \<lparr> pa_keyHash = h, pa_delegate = None \<rparr> True = Inr p'" "e = Authority"
  | (credit) "e = NoEffect" "p' = p"
proof -
  from assms obtain body princ where b: "bodyOf (ev_txn ev) = Some body" "principalOf (ev_txn ev) = Some princ"
    by (auto simp: applyEvent_def split: option.splits)
  note a = assms [unfolded applyEvent_def b option.case prod.case]
  show thesis
  proof (cases "cls body = ''UpdateKeyPage''")
    case True
    with a show thesis by (auto simp: results split: if_splits intro: page)
  next
    case False
    show thesis
    proof (cases "cls body = ''UpdateKey''")
      case True
      with a show thesis by (auto simp: results Let_def requireKeyHash_def split: option.splits if_splits intro: rotate)
    next
      case other: False
      with a False show thesis by (auto split: if_splits intro: credit)
    qed
  qed
qed

lemma committed_pageOrdered [simp]: "pageOrdered (committed q) = pageOrdered q"
  by (simp add: committed_def pageOrdered_def orderedKeys_def sorted_wrt_map)

lemma applyEvent_pageOrdered [ordered]: "applyEvent T p ev = Inr (e, p') \<Longrightarrow> pageOrdered p \<Longrightarrow> pageOrdered p'"
  by (erule applyEvent_cases) (auto intro: ordered)

text \<open>The page as a machine that accepts or refuses each event.\<close>

definition stepPage :: "tx_types \<Rightarrow> key_page \<Rightarrow> replay_event \<Rightarrow> replay_error + key_page" where
  "stepPage T p ev = bindE (applyEvent T p ev) (\<lambda>(e, p'). Inr p')"

interpretation page_machine: guarded_machine "stepPage T" pageOrdered for T
  by unfold_locales (auto simp: stepPage_def results intro: ordered)

lemma replayFrom_head: "replayFrom T i p evs = Inr (sts, head) \<Longrightarrow> runE (stepPage T) p evs = Inr head"
proof (induction evs arbitrary: i p sts)
  case (Cons ev evs)
  then obtain e p' sts' where "applyEvent T p ev = Inr (e, p')" "replayFrom T (i + 1) p' evs = Inr (sts', head)"
    by (auto simp: results)
  with Cons.IH show ?case by (simp add: stepPage_def)
qed simp

text \<open>The states a replay lists are the pages after the authority events, each reached by a prefix of the events.\<close>

lemma replayFrom_states:
  "replayFrom T i p evs = Inr (sts, head) \<Longrightarrow> st \<in> set sts \<Longrightarrow>
     \<exists>n < length evs. runE (stepPage T) p (take (Suc n) evs) = Inr (st_page st) \<and> st_block st = ev_block (evs ! n) \<and> st_event st = int (i + n)"
proof (induction evs arbitrary: i p sts)
  case (Cons ev evs)
  then obtain e p' sts' where s: "applyEvent T p ev = Inr (e, p')" "replayFrom T (i + 1) p' evs = Inr (sts', head)"
    "sts = (if e = Authority then [\<lparr> st_block = ev_block ev, st_page = p', st_event = int i \<rparr>] else []) @ sts'"
    by (auto simp: results)
  have step: "stepPage T p ev = Inr p'" by (simp add: stepPage_def s(1))
  show ?case
  proof (cases "st \<in> set sts'")
    case True
    from Cons.IH [OF s(2) this] obtain n where "n < length evs" "runE (stepPage T) p' (take (Suc n) evs) = Inr (st_page st)"
      "st_block st = ev_block (evs ! n)" "st_event st = int (i + 1 + n)" by blast
    then show ?thesis using step by (intro exI [of _ "Suc n"]) simp
  next
    case False
    then have "st = \<lparr> st_block = ev_block ev, st_page = p', st_event = int i \<rparr>" using Cons.prems(2) s(3) by (auto split: if_splits)
    then show ?thesis using step by (intro exI [of _ 0]) simp
  qed
qed simp

lemma replay_parts:
  assumes "replay T genesis b evs = Inr (sts, head)"
  obtains sts' where "replayFrom T 0 genesis evs = Inr (sts', head)" "sts = \<lparr> st_block = b, st_page = genesis, st_event = - 1 \<rparr> # sts'"
  using assms by (auto simp: replay_def results)

lemma replay_ordered:
  assumes "replay T genesis b evs = Inr (sts, head)" "pageOrdered genesis"
  shows "pageOrdered head \<and> (\<forall>st \<in> set sts. pageOrdered (st_page st))"
proof -
  obtain sts' where s: "replayFrom T 0 genesis evs = Inr (sts', head)" "sts = \<lparr> st_block = b, st_page = genesis, st_event = - 1 \<rparr> # sts'"
    using assms(1) by (rule replay_parts)
  have "pageOrdered (st_page st)" if "st \<in> set sts'" for st
    using replayFrom_states [OF s(1) that] page_machine.run_inv [OF assms(2)] by blast
  then show ?thesis using page_machine.run_inv [OF assms(2) replayFrom_head [OF s(1)]] s(2) assms(2) by auto
qed

lemma ordered_Nil: "pageOrdered (newKeyPage u v a)"
  by (simp add: pageOrdered_def orderedKeys_def newKeyPage_def)

lemma addSpecs_ordered: "addSpecs kp ks = Inr p \<Longrightarrow> pageOrdered kp \<Longrightarrow> pageOrdered p"
  by (induction kp ks rule: addSpecs.induct) (auto simp: Let_def split: if_splits)

section \<open>What one version of a page fixes\<close>

lemma delegateFrom_at: "delegateFrom t i ks = Some (j, k) \<Longrightarrow> i \<le> j \<and> j - i < length ks \<and> k = ks ! (j - i) \<and> ks_delegate k \<noteq> None"
proof (induction t i ks rule: delegateFrom.induct)
  case (2 t i l ks)
  show ?case
  proof (cases "\<exists>d. ks_delegate l = Some d \<and> urlEqual t d")
    case True
    with "2.prems" show ?thesis by auto
  next
    case False
    then have "delegateFrom t (i + 1) ks = Some (j, k)" using "2.prems" by (auto split: option.splits if_splits)
    then have at: "i + 1 \<le> j \<and> j - (i + 1) < length ks \<and> k = ks ! (j - (i + 1)) \<and> ks_delegate k \<noteq> None"
      using "2.IH" False by (cases "ks_delegate l") auto
    then have "i + 1 \<le> j" by (rule conjunct1)
    then have "j - i = Suc (j - (i + 1))" by linarith
    with at show ?thesis by auto
  qed
qed simp

lemma entryByKeyHash_at: "entryByKeyHash p h = Some (i, k) \<Longrightarrow> i < length (kp_keys p) \<and> k = kp_keys p ! i"
  by (auto simp: entryByKeyHash_def search_def Let_def split: if_splits)

lemma entryByDelegate_at: "entryByDelegate p d = Some (i, k) \<Longrightarrow> i < length (kp_keys p) \<and> k = kp_keys p ! i"
  by (auto simp: entryByDelegate_def Let_def dest!: delegateFrom_at)

lemma findKeyPageEntry_at: "findKeyPageEntry p s = Some (i, k) \<Longrightarrow> i < length (kp_keys p) \<and> k = kp_keys p ! i"
  by (auto simp: findKeyPageEntry_def Let_def split: option.splits if_splits dest: entryByKeyHash_at entryByDelegate_at)

definition sameRule :: "key_page \<Rightarrow> key_page \<Rightarrow> bool" where
  "sameRule a b \<longleftrightarrow> kp_url a = kp_url b \<and> kp_version a = kp_version b \<and> kp_accept a = kp_accept b \<and> kp_reject a = kp_reject b \<and>
     kp_response a = kp_response b \<and> kp_block a = kp_block b \<and> kp_blacklist a = kp_blacklist b \<and>
     mset (map ks_delegate (kp_keys a)) = mset (map ks_delegate (kp_keys b))"

lemma sameRule_refl [simp]: "sameRule a a"
  by (simp add: sameRule_def)

lemma sameRule_trans: "sameRule a b \<Longrightarrow> sameRule b c \<Longrightarrow> sameRule a c"
  by (simp add: sameRule_def)

lemma sameRule_keys: "sameRule a b \<Longrightarrow> length (kp_keys a) = length (kp_keys b)"
  unfolding sameRule_def by (metis length_map size_mset)

lemma removeKeySpecAt_split: "i < length (kp_keys p) \<Longrightarrow>
    kp_keys p = take i (kp_keys p) @ kp_keys p ! i # drop (Suc i) (kp_keys p) \<and>
    kp_keys (removeKeySpecAt p i) = take i (kp_keys p) @ drop (Suc i) (kp_keys p)"
  using id_take_nth_drop [of i "kp_keys p"] by (simp add: removeKeySpecAt_def)

text \<open>
  Rotating a key never replaces another entry: an entry with the new hash can only be the rotated one, and two entries with one hash and
  one delegate cannot both be on a page in order.
\<close>

lemma rotated_absent:
  assumes p: "pageOrdered p" and i: "i < length (kp_keys p)"
    and n: "findKeyPageEntry p \<lparr> pa_keyHash = h, pa_delegate = None \<rparr> = None \<or>
      (\<exists>k. findKeyPageEntry p \<lparr> pa_keyHash = h, pa_delegate = None \<rparr> = Some (i, k))" and h: "h \<noteq> []"
    and l: "l \<in> set (kp_keys (removeKeySpecAt p i))"
  shows "compareSpecs ((kp_keys p ! i)\<lparr> ks_hash := h \<rparr>) l \<noteq> 0"
proof
  let ?ks = "kp_keys p"
  assume "compareSpecs ((?ks ! i)\<lparr> ks_hash := h \<rparr>) l = 0"
  then obtain x y where z: "ks_hash l = h" "ks_delegate l = Some x" "ks_delegate (?ks ! i) = Some y" "urlKey x = urlKey y"
    unfolding compareSpecs_zero by auto
  have o: "orderedKeys ?ks" using p by (simp add: pageOrdered_def)
  have "l \<in> set (take i ?ks) \<union> set (drop (Suc i) ?ks)" using l removeKeySpecAt_split [OF i] by simp
  then have lp: "l \<in> set ?ks" by (auto dest: in_set_takeD in_set_dropD)
  have "entryByKeyHash p h \<noteq> None" using entryByKeyHash_spec(1) [OF o, of h] lp z(1) by auto
  then obtain k where "entryByKeyHash p h = Some (i, k)" using n h by (auto simp: findKeyPageEntry_def split: option.splits)
  from entryByKeyHash_spec(2) [OF o this] have at: "ks_hash (?ks ! i) = h" by auto
  have "\<not> before l (?ks ! i)" "\<not> before (?ks ! i) l"
    using z at unfolding before_iff by (auto simp: compareBytes_def compareUrls_def)
  moreover have "before l (?ks ! i) \<or> before (?ks ! i) l"
  proof -
    have "sorted_wrt before (take i ?ks @ ?ks ! i # drop (Suc i) ?ks)"
      using o removeKeySpecAt_split [OF i] unfolding orderedKeys_def by metis
    then show ?thesis using \<open>l \<in> set (take i ?ks) \<union> set (drop (Suc i) ?ks)\<close> unfolding sorted_wrt_append by auto
  qed
  ultimately show False by blast
qed

lemma rotate_sameRule:
  assumes r: "replayUpdateKey p old \<lparr> pa_keyHash = h, pa_delegate = None \<rparr> True = Inr p'" and h: "h \<noteq> []" and p: "pageOrdered p"
  shows "sameRule p p'"
proof -
  let ?new = "\<lparr> pa_keyHash = h, pa_delegate = None \<rparr> :: key_spec_params"
  obtain i spec where o: "findKeyPageEntry p old = Some (i, spec)"
    and n: "findKeyPageEntry p ?new = None \<or> (\<exists>k. findKeyPageEntry p ?new = Some (i, k))"
    and p': "p' = addKeySpec (removeKeySpecAt p i) (spec\<lparr> ks_hash := h \<rparr>)"
    using r by (auto simp: replayUpdateKey_def Let_def split: option.splits if_splits)
  note at = findKeyPageEntry_at [OF o]
  note sp = removeKeySpecAt_split [OF conjunct1 [OF at]]
  have ord: "orderedKeys (kp_keys (removeKeySpecAt p i))" using removeKeySpecAt_pageOrdered [OF p, of i] by (simp add: pageOrdered_def)
  show ?thesis
  proof (rule addKeySpec_cases [OF ord, of "spec\<lparr> ks_hash := h \<rparr>"])
    fix a b
    assume ab: "kp_keys (removeKeySpecAt p i) = a @ b"
      "addKeySpec (removeKeySpecAt p i) (spec\<lparr> ks_hash := h \<rparr>) = (removeKeySpecAt p i)\<lparr> kp_keys := a @ spec\<lparr> ks_hash := h \<rparr> # b \<rparr>"
    have "mset (map ks_delegate (kp_keys p)) = mset (map ks_delegate (spec # kp_keys (removeKeySpecAt p i)))"
      using sp at by (metis (no_types, lifting) map_append list.simps(9) mset.simps(2) mset_append union_mset_add_mset_right)
    also have "\<dots> = mset (map ks_delegate (kp_keys p'))" using ab p' by simp
    finally show "sameRule p p'" using ab(2) p' by (simp add: sameRule_def removeKeySpecAt_def)
  next
    fix a l b
    assume "kp_keys (removeKeySpecAt p i) = a @ l # b" "compareSpecs (spec\<lparr> ks_hash := h \<rparr>) l = 0"
    moreover from this have "l \<in> set (kp_keys (removeKeySpecAt p i))" by simp
    ultimately show "sameRule p p'" using rotated_absent [OF p conjunct1 [OF at] n h] at by blast
  qed
qed

section \<open>Versions\<close>

lemma addKeySpec_version [simp]: "kp_version (addKeySpec p k) = kp_version p"
  by (simp add: addKeySpec_def split: prod.splits)

lemma removeKeySpecAt_version [simp]: "kp_version (removeKeySpecAt p i) = kp_version p"
  by (simp add: removeKeySpecAt_def)

lemma applyKeyPageOperation_version: "applyKeyPageOperation T princ p op = Inr p' \<Longrightarrow> kp_version p' = kp_version p"
  unfolding applyKeyPageOperation_def Let_def
  by (auto simp: replayUpdateKey_def removeEntry_def setThreshold_def updateBlacklist_def Let_def split: if_splits option.splits)

lemma applyOperations_version: "applyOperations T princ i p ops = Inr p' \<Longrightarrow> kp_version p' = kp_version p"
  by (induction ops arbitrary: i p) (auto simp: results dest!: applyKeyPageOperation_version)

text \<open>One event either moves the page to the next version or keeps everything its vote is decided by.\<close>

definition advances :: "key_page \<Rightarrow> key_page \<Rightarrow> bool" where
  "advances a b \<longleftrightarrow> kp_version a < kp_version b \<or> sameRule a b"

lemma advances_trans: "advances a b \<Longrightarrow> advances b c \<Longrightarrow> advances a c"
  unfolding advances_def sameRule_def by auto

lemma applyEvent_advances: "applyEvent T p ev = Inr (e, p') \<Longrightarrow> pageOrdered p \<Longrightarrow> advances p p'"
  by (erule applyEvent_cases)
    (auto simp: advances_def committed_def applyOperations_version intro: rotate_sameRule)

lemma replayFrom_advances:
  "replayFrom T i p evs = Inr (sts, head) \<Longrightarrow> pageOrdered p \<Longrightarrow>
     sorted_wrt advances (map st_page sts) \<and> (\<forall>st \<in> set sts. advances p (st_page st) \<and> advances (st_page st) head) \<and> advances p head"
proof (induction evs arbitrary: i p sts)
  case (Cons ev evs)
  then obtain e p' sts' where s: "applyEvent T p ev = Inr (e, p')" "replayFrom T (i + 1) p' evs = Inr (sts', head)"
    "sts = (if e = Authority then [\<lparr> st_block = ev_block ev, st_page = p', st_event = int i \<rparr>] else []) @ sts'"
    by (auto simp: results)
  have a: "advances p p'" by (rule applyEvent_advances [OF s(1) Cons.prems(2)])
  have "pageOrdered p'" by (rule applyEvent_pageOrdered [OF s(1) Cons.prems(2)])
  from Cons.IH [OF s(2) this] show ?case using a s(3) advances_trans [OF a] by auto
qed (simp add: advances_def)

lemma replay_advances:
  assumes "replay T genesis b evs = Inr (sts, head)" "pageOrdered genesis"
  shows "sorted_wrt advances (map st_page sts) \<and> (\<forall>st \<in> set sts. advances (st_page st) head)"
proof -
  obtain sts' where s: "replayFrom T 0 genesis evs = Inr (sts', head)" "sts = \<lparr> st_block = b, st_page = genesis, st_event = - 1 \<rparr> # sts'"
    using assms(1) by (rule replay_parts)
  from replayFrom_advances [OF s(1) assms(2)] show ?thesis using s(2) by simp
qed

section \<open>Properties of the replay\<close>

lemma genesis_ordered:
  assumes "genesisPage page txn = Inr p" "\<forall>body. bodyOf txn = Some body \<longrightarrow> cls body \<noteq> ''SyntheticCreateIdentity''"
  shows "pageOrdered p"
proof -
  obtain body where b: "bodyOf txn = Some body" using assms(1) by (auto simp: genesisPage_def split: option.splits)
  then have "cls body \<noteq> ''SyntheticCreateIdentity''" using assms(2) by blast
  with assms(1) b show ?thesis
    by (auto simp: genesisPage_def Let_def ordered_Nil split: option.splits if_splits intro: addSpecs_ordered [OF _ ordered_Nil])
qed

text \<open>
  C28. A page replayed from the genesis its own identity, book or page transaction created is in order in every state it passes through: at
  genesis, after every event, and at the head - so the key searches the vote relies on are exact in each of them.
\<close>

theorem replay_keeps_order:
  assumes "genesisPage page txn = Inr genesis" and "\<forall>body. bodyOf txn = Some body \<longrightarrow> cls body \<noteq> ''SyntheticCreateIdentity''"
    and "replay T genesis b evs = Inr (sts, head)"
  shows "(\<forall>st \<in> set sts. orderedKeys (kp_keys (st_page st))) \<and> orderedKeys (kp_keys head)"
  using replay_ordered [OF assms(3) genesis_ordered [OF assms(1,2)]] by (simp add: pageOrdered_def)

text \<open>
  Versions order a page's history: in a replay from a page in order, of any two states the later one has a greater version, or has the
  same version and then the same thresholds, the same blacklist, the same number of entries and the same delegates. So the state
  \<open>ofVersion\<close> picks for a version decides like every state of that version, as the vote model assumes.
\<close>

theorem replay_version_fixes_rule:
  assumes "replay T genesis b evs = Inr (sts, head)" and "pageOrdered genesis"
    and "i < j" and "j < length sts"
  shows "kp_version (st_page (sts ! i)) < kp_version (st_page (sts ! j)) \<or>
    (sameRule (st_page (sts ! i)) (st_page (sts ! j)) \<and> length (kp_keys (st_page (sts ! i))) = length (kp_keys (st_page (sts ! j))))"
proof -
  have "advances (st_page (sts ! i)) (st_page (sts ! j))"
    using replay_advances [OF assms(1,2)] assms(3,4) by (auto simp: sorted_wrt_iff_nth_less)
  then show ?thesis unfolding advances_def using sameRule_keys by blast
qed

lemma candidatesLoop_spec:
  "candidatesLoop b e out sts =
     ((case rev (filter (\<lambda>st. st_block st < b) sts) of [] \<Rightarrow> e | st # _ \<Rightarrow> Some (st_page st)),
      out @ map st_page (filter (\<lambda>st. st_block st = b) sts))"
  by (induction b e out sts rule: candidatesLoop.induct) (auto split: list.splits)

text \<open>
  \<open>candidatesDuring\<close> is exact: for a history whose blocks do not go back, its answers for a block are the last state the page had
  entered before the block and every state a change within the block produced, in order, and nothing else; it is empty exactly
  when the page did not exist by then. Every answer is a state the replay reached.
\<close>

theorem candidatesDuring_exact:
  assumes "sorted_wrt (\<lambda>s t. st_block s \<le> st_block t) sts"
  shows "candidatesDuring sts b =
      (case rev (filter (\<lambda>st. st_block st < b) sts) of [] \<Rightarrow> [] | st # _ \<Rightarrow> [st_page st]) @
      map st_page (filter (\<lambda>st. st_block st = b) sts) \<and>
    (candidatesDuring sts b = [] \<longleftrightarrow> (\<forall>st \<in> set sts. b < st_block st)) \<and>
    (\<exists>n m. candidatesDuring sts b = map st_page (take m (drop n sts)))"
proof (intro conjI)
  show eq: "candidatesDuring sts b =
      (case rev (filter (\<lambda>st. st_block st < b) sts) of [] \<Rightarrow> [] | st # _ \<Rightarrow> [st_page st]) @
      map st_page (filter (\<lambda>st. st_block st = b) sts)"
    by (simp add: candidatesDuring_def candidatesLoop_spec split: list.splits)
  show "candidatesDuring sts b = [] \<longleftrightarrow> (\<forall>st \<in> set sts. b < st_block st)"
  proof -
    have "candidatesDuring sts b = [] \<longleftrightarrow> filter (\<lambda>st. st_block st < b) sts = [] \<and> filter (\<lambda>st. st_block st = b) sts = []"
      unfolding eq by (cases "filter (\<lambda>st. st_block st < b) sts" rule: rev_cases) simp_all
    also have "\<dots> \<longleftrightarrow> (\<forall>st \<in> set sts. \<not> st_block st < b \<and> st_block st \<noteq> b)" unfolding filter_empty_conv by blast
    also have "\<dots> \<longleftrightarrow> (\<forall>st \<in> set sts. b < st_block st)" by (intro ball_cong refl) linarith
    finally show ?thesis .
  qed
  let ?lt = "filter (\<lambda>st. st_block st < b) sts" and ?eq = "filter (\<lambda>st. st_block st = b) sts"
    and ?gt = "filter (\<lambda>st. b < st_block st) sts"
  have parts: "sts = ?lt @ ?eq @ ?gt" using assms
  proof (induction sts)
    case (Cons s sts)
    have later: "\<forall>t \<in> set sts. st_block s \<le> st_block t" using Cons.prems by simp
    have ih: "sts = filter (\<lambda>st. st_block st < b) sts @ filter (\<lambda>st. st_block st = b) sts @ filter (\<lambda>st. b < st_block st) sts"
      using Cons by simp
    consider "st_block s < b" | "st_block s = b" | "b < st_block s" by linarith
    then show ?case
    proof cases
      case 1
      then show ?thesis using ih by simp
    next
      case 2
      then have "filter (\<lambda>st. st_block st < b) sts = []" using later by (auto simp: filter_empty_conv)
      then show ?thesis using ih 2 by simp
    next
      case 3
      then have "filter (\<lambda>st. st_block st < b) sts = []" "filter (\<lambda>st. st_block st = b) sts = []"
        using later by (auto simp: filter_empty_conv)
      then show ?thesis using ih 3 by simp
    qed
  qed simp
  show "\<exists>n m. candidatesDuring sts b = map st_page (take m (drop n sts))"
  proof (cases "?lt" rule: rev_cases)
    case Nil
    then have "take (length ?eq) (drop 0 sts) = ?eq" using parts by (metis append_Nil append_eq_conv_conj drop_0)
    then show ?thesis unfolding eq Nil by (intro exI [of _ 0] exI [of _ "length ?eq"]) simp
  next
    case (snoc xs x)
    have "drop (length xs) sts = x # ?eq @ ?gt" using parts unfolding snoc by (metis append.assoc append_Cons append_Nil append_eq_conv_conj)
    then have "take (Suc (length ?eq)) (drop (length xs) sts) = x # ?eq" by simp
    then show ?thesis unfolding eq snoc by (intro exI [of _ "length xs"] exI [of _ "Suc (length ?eq)"]) simp
  qed
qed

text \<open>
  Removing a key: the operation never empties the first page of a book, the entry that goes is the one found, the rest keep
  their order, and no threshold is left above the number of keys that remain.
\<close>

theorem removeEntry_safe:
  assumes "removeEntry p i = Inr p'" and "i < length (kp_keys p)"
  shows "kp_keys p' = take i (kp_keys p) @ drop (Suc i) (kp_keys p) \<and> length (kp_keys p') = length (kp_keys p) - 1 \<and>
    kp_accept p' \<le> int (length (kp_keys p')) \<and> kp_reject p' \<le> int (length (kp_keys p')) \<and> kp_response p' \<le> int (length (kp_keys p')) \<and>
    (kp_keys p' = [] \<longrightarrow> (\<forall>book. parseKeyPageUrl (kp_url p) \<noteq> Some (book, 1)))"
proof -
  obtain book index where u: "parseKeyPageUrl (kp_url p) = Some (book, index)" "\<not> (length (kp_keys p) = 1 \<and> index = 1)"
    and p': "p' = (let q = removeKeySpecAt p i; n = int (length (kp_keys q)) in
        q\<lparr> kp_accept := lowerTo n (kp_accept q), kp_reject := lowerTo n (kp_reject q), kp_response := lowerTo n (kp_response q) \<rparr>)"
    using assms(1) by (auto simp: removeEntry_def Let_def split: option.splits if_splits)
  have keys: "kp_keys p' = take i (kp_keys p) @ drop (Suc i) (kp_keys p)" by (simp add: p' removeKeySpecAt_def Let_def)
  then have len: "length (kp_keys p') = length (kp_keys p) - 1" using assms(2) by simp
  have "lowerTo n t \<le> n" for n t by (simp add: lowerTo_def)
  then have "kp_accept p' \<le> int (length (kp_keys p'))" "kp_reject p' \<le> int (length (kp_keys p'))"
    "kp_response p' \<le> int (length (kp_keys p'))" unfolding p' Let_def by simp_all
  moreover have "\<forall>book. parseKeyPageUrl (kp_url p) \<noteq> Some (book, 1)" if "kp_keys p' = []"
  proof -
    have "length (kp_keys p) = 1" using that assms(2) len by simp
    then show ?thesis using u by simp
  qed
  ultimately show ?thesis using keys len by blast
qed

section \<open>A history on which the properties apply\<close>

definition demoT :: "tx_types" where
  "demoT = \<lparr> UpdateKeyPage = 15, UpdateAccountAuth = 21 \<rparr>"

definition demoTxn :: "string \<Rightarrow> wire_node \<Rightarrow> wire_node" where
  "demoTxn princ body =
     Node ''Transaction'' [(''header'', WNode (Node ''TransactionHeader'' [(''principal'', WText princ)] [] False)), (''body'', WNode body)] [] False"

definition demoCreate :: "wire_node" where
  "demoCreate = demoTxn ''a'' (Node ''CreateIdentity'' [(''keyBookUrl'', WText ''a/b''), (''keyHash'', WBytes [1])] [] False)"

definition demoAdd :: "wire_node" where
  "demoAdd = demoTxn ''a/b/1'' (Node ''UpdateKeyPage'' [(''operation'', WList [WNode (Node ''AddKeyOperation''
     [(''entry'', WNode (Node ''KeySpecParams'' [(''keyHash'', WBytes [2])] [] False))] [] False)])] [] False)"

definition demoRotate :: "wire_node" where
  "demoRotate = demoTxn ''a/b/1'' (Node ''UpdateKey'' [(''newKeyHash'', WBytes [3])] [] False)"

definition demoEvents :: "replay_event list" where
  "demoEvents =
     [\<lparr> ev_hash = ''e1'', ev_block = 7, ev_txn = demoAdd, ev_initiator = None \<rparr>,
      \<lparr> ev_hash = ''e2'', ev_block = 9, ev_txn = demoRotate,
        ev_initiator = Some \<lparr> in_payer = mkUrl ''a'' ''/b/1'' [], in_keyHash = Some [1] \<rparr> \<rparr>]"

definition demoGenesis :: "key_page" where
  "demoGenesis = (newKeyPage (mkUrl ''a'' ''/b/1'' []) 1 1)\<lparr> kp_keys := [demoKey 1] \<rparr>"

definition demoStates :: "page_state list \<times> key_page" where
  "demoStates = (case replay demoT demoGenesis 5 demoEvents of Inr r \<Rightarrow> r | Inl _ \<Rightarrow> ([], demoGenesis))"

lemma demo_genesis: "genesisPage ''acc://a/b/1'' demoCreate = Inr demoGenesis"
  by code_simp

lemma demo_replay: "replay demoT demoGenesis 5 demoEvents = Inr (fst demoStates, snd demoStates)"
  by code_simp

lemma demo_lengths: "length (fst demoStates) = 3"
  by code_simp

theorem replay_keeps_order_witness:
  "list_all (\<lambda>st. orderedKeys (kp_keys (st_page st))) (fst demoStates) \<and> orderedKeys (kp_keys (snd demoStates))"
  unfolding list_all_iff
  by (rule replay_keeps_order [OF demo_genesis _ demo_replay]) (simp add: bodyOf_def nodeOf_def fieldOf_def demoCreate_def demoTxn_def)

theorem replay_version_fixes_rule_witness:
  "kp_version (st_page (fst demoStates ! 1)) < kp_version (st_page (fst demoStates ! 2)) \<or>
   (sameRule (st_page (fst demoStates ! 1)) (st_page (fst demoStates ! 2)) \<and>
    length (kp_keys (st_page (fst demoStates ! 1))) = length (kp_keys (st_page (fst demoStates ! 2))))"
proof (rule replay_version_fixes_rule [OF demo_replay])
  show "pageOrdered demoGenesis" by (simp add: pageOrdered_def orderedKeys_def demoGenesis_def)
qed (simp_all add: demo_lengths)

theorem candidatesDuring_exact_witness:
  "candidatesDuring (fst demoStates) 7 =
      (case rev (filter (\<lambda>st. st_block st < 7) (fst demoStates)) of [] \<Rightarrow> [] | st # _ \<Rightarrow> [st_page st]) @
      map st_page (filter (\<lambda>st. st_block st = 7) (fst demoStates)) \<and>
    (candidatesDuring (fst demoStates) 7 = [] \<longleftrightarrow> list_all (\<lambda>st. 7 < st_block st) (fst demoStates)) \<and>
    (\<exists>n m. candidatesDuring (fst demoStates) 7 = map st_page (take m (drop n (fst demoStates))))"
  unfolding list_all_iff by (rule candidatesDuring_exact) code_simp

definition demoRemoved :: "key_page" where
  "demoRemoved = (case removeEntry (addKeySpec demoGenesis (demoKey 2)) 0 of Inr p \<Rightarrow> p | Inl _ \<Rightarrow> demoGenesis)"

lemma demo_removed: "removeEntry (addKeySpec demoGenesis (demoKey 2)) 0 = Inr demoRemoved" "0 < length (kp_keys (addKeySpec demoGenesis (demoKey 2)))"
  by code_simp+

theorem removeEntry_safe_witness:
  "kp_keys demoRemoved = take 0 (kp_keys (addKeySpec demoGenesis (demoKey 2))) @ drop (Suc 0) (kp_keys (addKeySpec demoGenesis (demoKey 2))) \<and>
    length (kp_keys demoRemoved) = length (kp_keys (addKeySpec demoGenesis (demoKey 2))) - 1 \<and>
    kp_accept demoRemoved \<le> int (length (kp_keys demoRemoved)) \<and> kp_reject demoRemoved \<le> int (length (kp_keys demoRemoved)) \<and>
    kp_response demoRemoved \<le> int (length (kp_keys demoRemoved))"
  using removeEntry_safe [OF demo_removed] by blast

end
