(* ===== verification/VoteRules.thy ===== *)
theory VoteRules
  imports Replay
begin

text \<open>
  The rules of the vote model: the facts and the tallies of the second part of \<open>packages/verify/src/s3/govvote.ts\<close>. What the chain
  recorded (signatures on a page, delegated votes that arrived on a page, votes of authorities) are records; the two maps from an
  entry of a page to its contribution are association lists in insertion order, as JavaScript's are.
\<close>

section \<open>Facts\<close>

record sig_fact =
  sg_id :: string
  sg_signer :: string
  sg_path :: "string list"
  sg_version :: int
  sg_keyHash :: string
  sg_vote :: int
  sg_block :: int
  sg_partition :: "string option"

record arrival_fact =
  ar_id :: string
  ar_page :: string
  ar_authority :: string
  ar_path :: "string list"
  ar_block :: int
  ar_origin :: string
  ar_vote :: int

record recorded_vote =
  rv_id :: string
  rv_authority :: string
  rv_origin :: string
  rv_vote :: int
  rv_block :: "int option"
  rv_releasedAt :: int

record facts =
  fa_txType :: int
  fa_sigs :: "sig_fact list"
  fa_arrivals :: "arrival_fact list"
  fa_votes :: "recorded_vote list"
  fa_holdUntil :: int

record contribution =
  co_entry :: string
  co_vote :: int
  co_by :: string
  co_block :: int
  co_ambiguous :: bool

record book_record =
  br_id :: string
  br_origin :: string
  br_vote :: int
  br_releasedAt :: int

text \<open>\<open>DELEGATION_DEPTH_LIMIT\<close> (\<open>s3/acc.ts\<close>)\<close>

definition DELEGATION_DEPTH_LIMIT :: nat where
  "DELEGATION_DEPTH_LIMIT = 20"

section \<open>Errors\<close>

text \<open>
  \<open>VoteUnevaluable\<close>, one constructor per message, with the page or book it names first; then the two plain errors of
  \<open>evaluate\<close>. \<open>OutOfFuel\<close> is no error of the code: it is the answer of the model when the fuel of the mutual recursion is used up.
\<close>

datatype vote_error =
    HistoryNotReplayed string
  | ArrivedBeforePage string string int
  | VersionNotReached string int
  | DelegateDidNotVote string string
  | SameBlockConflict string string int
  | StateUndetermined string
  | VersionNotHeld string string int int
  | NotAKeyHash string string
  | KeyNotHeld string string int int
  | BadAuthorityUrl string string
  | NoDelegateEntry string string int int
  | UnrecordedVote string string
  | ForeignOrigin string string
  | RecordDisagrees string string
  | LowerPageDecided string string
  | EarlierPageDecided string string
  | NoOrigin string string
  | SeveralRecords string
  | DelegationTooDeep string
  | NoAuthoritySet string
  | AllAuthoritiesDisabled string
  | OutOfFuel

section \<open>Helpers\<close>

definition pathEqual :: "string list \<Rightarrow> string list \<Rightarrow> bool" where
  "pathEqual a b = list_all2 (\<lambda>x y. canonicalAccSpelling x = canonicalAccSpelling y) a b"

definition pageIndex :: "string \<Rightarrow> int" where
  "pageIndex page =
     (let tail = (case cutLast (CHR ''/'') page of None \<Rightarrow> page | Some (_, t) \<Rightarrow> t) in
      if tail \<noteq> [] \<and> list_all isDigit tail \<and> decValue tail \<le> 0xffffffffffffffff then int (decValue tail) else 0xffffffffffffffff)"

definition statesOfVersion :: "key_page list \<Rightarrow> int \<Rightarrow> key_page list" where
  "statesOfVersion states v = filter (\<lambda>s. kp_version s = v) states"

definition blacklisted :: "tx_types \<Rightarrow> key_page \<Rightarrow> int \<Rightarrow> bool" where
  "blacklisted T p typ = (case allowedTransactionBit T typ of None \<Rightarrow> False | Some n \<Rightarrow> isBlacklisted p n)"

definition decodeHash :: "string \<Rightarrow> bytes option" where
  "decodeHash s =
     (let t = strip0x (goLower s) in
      if length t mod 2 \<noteq> 0 \<or> \<not> list_all (\<lambda>c. hexVal c \<noteq> None) t \<or> length t = 0 \<or> length t > 64 then None
      else fromHex t)"

text \<open>\<open>decideVote\<close>: the tallies of the source's \<open>votes\<close> map are counts over the entries' contributions.\<close>

definition countVotes :: "int \<Rightarrow> contribution list \<Rightarrow> int" where
  "countVotes v cs = int (length (filter (\<lambda>c. co_vote c = v) cs))"

definition decideVote :: "key_page \<Rightarrow> contribution list \<Rightarrow> int \<times> bool" where
  "decideVote page cs =
     (let all = int (length cs);
          tAccept = signatureThreshold page;
          tReject = (if kp_reject page = 0 then tAccept else kp_reject page);
          accepts = countVotes Accept cs;
          rejects = countVotes Reject cs;
          undecided = int (length (kp_keys page)) - all in
      if all < kp_response page then (0, False)
      else if accepts \<ge> tAccept then (Accept, True)
      else if rejects \<ge> tReject then (Reject, True)
      else if \<not> accepts + undecided \<ge> tAccept \<and> \<not> rejects + undecided \<ge> tReject then (Abstain, True)
      else (0, False))"

text \<open>\<open>Map.prototype.set\<close>: a key that is present keeps its place.\<close>

fun upsert :: "'k \<Rightarrow> 'v \<Rightarrow> ('k \<times> 'v) list \<Rightarrow> ('k \<times> 'v) list" where
  "upsert k v [] = [(k, v)]"
| "upsert k v ((j, w) # m) = (if j = k then (k, v) # m else (j, w) # upsert k v m)"

definition keeps :: "contribution option \<Rightarrow> contribution \<Rightarrow> bool" where
  "keeps prev c =
     (case prev of
        None \<Rightarrow> False
      | Some p \<Rightarrow> co_block p > co_block c \<or> (co_block p = co_block c \<and> lexCompare code (co_by p) (co_by c) < 0))"

fun tallyLoop :: "bool \<Rightarrow> (string \<times> contribution) list \<Rightarrow> contribution list \<Rightarrow> (string \<times> contribution) list" where
  "tallyLoop amb out [] = out"
| "tallyLoop amb out (c # cs) =
     (if (co_ambiguous c \<and> \<not> amb) \<or> keeps (map_of out (co_entry c)) c then tallyLoop amb out cs
      else tallyLoop amb (upsert (co_entry c) c out) cs)"

definition tally :: "contribution list \<Rightarrow> bool \<Rightarrow> (string \<times> contribution) list" where
  "tally contribs includeAmbiguous = tallyLoop includeAmbiguous [] contribs"

text \<open>\<open>sameBlockConflict\<close>; its map is keyed by the entry and the block.\<close>

fun conflictLoop :: "string \<Rightarrow> (string \<times> int \<Rightarrow> contribution option) \<Rightarrow> contribution list \<Rightarrow> vote_error + unit" where
  "conflictLoop page seen [] = Inr ()"
| "conflictLoop page seen (c # cs) =
     (case seen (co_entry c, co_block c) of
        Some p \<Rightarrow> if co_vote p \<noteq> co_vote c then Inl (SameBlockConflict page (co_entry c) (co_block c))
                   else conflictLoop page (seen((co_entry c, co_block c) \<mapsto> c)) cs
      | None \<Rightarrow> conflictLoop page (seen((co_entry c, co_block c) \<mapsto> c)) cs)"

definition sameBlockConflict :: "string \<Rightarrow> contribution list \<Rightarrow> vote_error + unit" where
  "sameBlockConflict page contribs = conflictLoop page Map.empty contribs"

definition recordBlocks :: "sig_fact list \<Rightarrow> arrival_fact list \<Rightarrow> int list" where
  "recordBlocks direct arrived = sort (remdups (map sg_block direct @ map ar_block arrived))"

fun insertEntry :: "contribution \<Rightarrow> contribution list \<Rightarrow> contribution list" where
  "insertEntry c [] = [c]"
| "insertEntry c (d # ds) = (if lexCompare code (co_entry c) (co_entry d) \<le> 0 then c # d # ds else d # insertEntry c ds)"

definition sortedEntries :: "(string \<times> contribution) list \<Rightarrow> contribution list" where
  "sortedEntries m = foldr insertEntry (map snd m) []"

section \<open>What the rules guarantee\<close>

lemma map_of_upsert: "map_of (upsert k v m) = (map_of m)(k \<mapsto> v)"
  by (induction k v m rule: upsert.induct) auto

lemma keys_upsert: "map fst (upsert k v m) = (if k \<in> set (map fst m) then map fst m else map fst m @ [k])"
  by (induction k v m rule: upsert.induct) auto

text \<open>The contribution \<open>c\<close> outlives \<open>d\<close>: a later block, or the same block and a name that is not greater.\<close>

definition outlives :: "contribution \<Rightarrow> contribution \<Rightarrow> bool" where
  "outlives c d = (co_block d < co_block c \<or> (co_block c = co_block d \<and> lexCompare code (co_by c) (co_by d) \<le> 0))"

lemma outlives_refl: "outlives c c"
  by (simp add: outlives_def)

lemma outlives_trans: "outlives a b \<Longrightarrow> outlives b c \<Longrightarrow> outlives a c"
  unfolding outlives_def using lexCompare_trans [of code "co_by a" "co_by b" "co_by c"] by auto

lemma keeps_outlives: "keeps (Some p) c \<Longrightarrow> outlives p c"
  by (auto simp: keeps_def outlives_def)

lemma not_keeps_outlives: "\<not> keeps (Some p) c \<Longrightarrow> outlives c p"
  using lexCompare_swap [of code "co_by c" "co_by p"] by (auto simp: keeps_def outlives_def)

definition counts :: "bool \<Rightarrow> contribution \<Rightarrow> bool" where
  "counts amb c = (co_ambiguous c \<longrightarrow> amb)"

definition tallied :: "bool \<Rightarrow> contribution list \<Rightarrow> (string \<times> contribution) list \<Rightarrow> bool" where
  "tallied amb cs out =
     (distinct (map fst out) \<and>
      set (map fst out) = co_entry ` {c \<in> set cs. counts amb c} \<and>
      (\<forall>e c. map_of out e = Some c \<longrightarrow> c \<in> set cs \<and> counts amb c \<and> co_entry c = e \<and>
        (\<forall>d \<in> set cs. counts amb d \<and> co_entry d = e \<longrightarrow> outlives c d)))"

lemma tallied_skip:
  assumes "tallied amb cs out" and "\<not> counts amb c \<or> keeps (map_of out (co_entry c)) c"
  shows "tallied amb (cs @ [c]) out"
proof (cases "counts amb c")
  case False
  then have "{x \<in> set (cs @ [c]). counts amb x} = {x \<in> set cs. counts amb x}" by auto
  then show ?thesis using assms(1) False unfolding tallied_def by auto
next
  case True
  then obtain p where p: "map_of out (co_entry c) = Some p" "keeps (Some p) c"
    using assms(2) by (cases "map_of out (co_entry c)") (auto simp: keeps_def)
  have "co_entry c \<in> set (map fst out)" using p(1) map_of_SomeD by force
  then have "co_entry c \<in> co_entry ` {x \<in> set cs. counts amb x}" using assms(1) unfolding tallied_def by simp
  then have keys: "co_entry ` {x \<in> set (cs @ [c]). counts amb x} = co_entry ` {x \<in> set cs. counts amb x}" by auto
  show ?thesis unfolding tallied_def keys
  proof (intro conjI allI impI)
    fix e q assume q: "map_of out e = Some q"
    then show "q \<in> set (cs @ [c])" "counts amb q" "co_entry q = e" using assms(1) unfolding tallied_def by auto
    have "\<forall>d \<in> set cs. counts amb d \<and> co_entry d = e \<longrightarrow> outlives q d" using assms(1) q unfolding tallied_def by blast
    moreover have "outlives q c" if "co_entry c = e" using that q p keeps_outlives by auto
    ultimately show "\<forall>d \<in> set (cs @ [c]). counts amb d \<and> co_entry d = e \<longrightarrow> outlives q d" by auto
  qed (use assms(1) in \<open>auto simp: tallied_def\<close>)
qed

lemma tallied_set:
  assumes "tallied amb cs out" and "counts amb c" and "\<not> keeps (map_of out (co_entry c)) c"
  shows "tallied amb (cs @ [c]) (upsert (co_entry c) c out)"
  unfolding tallied_def
proof (intro conjI allI impI)
  have "{x \<in> set (cs @ [c]). counts amb x} = insert c {x \<in> set cs. counts amb x}" using assms(2) by auto
  then show "set (map fst (upsert (co_entry c) c out)) = co_entry ` {x \<in> set (cs @ [c]). counts amb x}"
    using assms(1) unfolding tallied_def keys_upsert by auto
  show "distinct (map fst (upsert (co_entry c) c out))" using assms(1) unfolding tallied_def keys_upsert by auto
  fix e q assume q: "map_of (upsert (co_entry c) c out) e = Some q"
  then show "q \<in> set (cs @ [c])" "counts amb q" "co_entry q = e"
    using assms(1,2) unfolding tallied_def map_of_upsert by (auto split: if_splits)
  show "\<forall>d \<in> set (cs @ [c]). counts amb d \<and> co_entry d = e \<longrightarrow> outlives q d"
  proof (cases "e = co_entry c")
    case False
    then show ?thesis using assms(1) q unfolding tallied_def map_of_upsert by auto
  next
    case True
    then have "q = c" using q unfolding map_of_upsert by simp
    have "outlives c d" if d: "d \<in> set cs" "counts amb d" "co_entry d = e" for d
    proof (cases "map_of out e")
      case None
      then have "e \<notin> set (map fst out)" by (simp add: map_of_eq_None_iff)
      then show ?thesis using assms(1) d unfolding tallied_def by auto
    next
      case (Some p)
      then have "outlives p d" using assms(1) d unfolding tallied_def by blast
      moreover have "outlives c p" using assms(3) Some True not_keeps_outlives by simp
      ultimately show ?thesis using outlives_trans by blast
    qed
    then show ?thesis using \<open>q = c\<close> outlives_refl by auto
  qed
qed

lemma tallyLoop_tallied: "tallied amb cs out \<Longrightarrow> tallied amb (cs @ ds) (tallyLoop amb out ds)"
proof (induction ds arbitrary: cs out)
  case (Cons d ds)
  show ?case
  proof (cases "\<not> counts amb d \<or> keeps (map_of out (co_entry d)) d")
    case True
    then have "tallyLoop amb out (d # ds) = tallyLoop amb out ds" by (auto simp: counts_def)
    then show ?thesis using Cons.IH [OF tallied_skip [OF Cons.prems True]] by simp
  next
    case False
    then have "tallyLoop amb out (d # ds) = tallyLoop amb (upsert (co_entry d) d out) ds" by (auto simp: counts_def)
    then show ?thesis using Cons.IH [OF tallied_set [OF Cons.prems]] False by simp
  qed
qed simp

lemma tally_tallied: "tallied amb cs (tally cs amb)"
  using tallyLoop_tallied [of amb "[]" "[]" cs] by (simp add: tally_def tallied_def)

text \<open>
  The tally counts every entry of a page once, by its last word: each entry that contributed has exactly one contribution counted,
  recorded in no earlier block than any other of that entry, and within one block the one with the least name. With the ambiguous
  contributions left out, only definite ones are counted and compared.
\<close>

theorem tally_latest:
  "distinct (map fst (tally cs amb)) \<and>
   set (map fst (tally cs amb)) = co_entry ` {c \<in> set cs. co_ambiguous c \<longrightarrow> amb} \<and>
   (\<forall>e c. map_of (tally cs amb) e = Some c \<longrightarrow>
      c \<in> set cs \<and> (co_ambiguous c \<longrightarrow> amb) \<and> co_entry c = e \<and>
      (\<forall>d \<in> set cs. (co_ambiguous d \<longrightarrow> amb) \<and> co_entry d = e \<longrightarrow>
         co_block d < co_block c \<or> (co_block c = co_block d \<and> lexCompare code (co_by c) (co_by d) \<le> 0)))"
  by (rule tally_tallied [of amb cs, unfolded tallied_def counts_def outlives_def])

lemma countVotes_mset: "countVotes v cs = int (size (filter_mset (\<lambda>c. co_vote c = v) (mset cs)))"
  unfolding countVotes_def by (metis mset_filter size_mset)

lemma countVotes_mono: "mset ds \<subseteq># mset cs \<Longrightarrow> countVotes v ds \<le> countVotes v cs"
  unfolding countVotes_mset by (simp add: size_mset_mono multiset_filter_mono)

lemma countVotes_rest:
  assumes "mset ds \<subseteq># mset cs"
  shows "countVotes v cs + int (length ds) \<le> countVotes v ds + int (length cs)"
proof -
  obtain R where R: "mset cs = mset ds + R" using assms by (metis subset_mset.le_iff_add)
  have "countVotes v cs = countVotes v ds + int (size (filter_mset (\<lambda>c. co_vote c = v) R))"
    unfolding countVotes_mset R by simp
  moreover have "int (length cs) = int (length ds) + int (size R)" using arg_cong [OF R, of size] by simp
  moreover have "size (filter_mset (\<lambda>c. co_vote c = v) R) \<le> size R" by (rule size_mset_mono) simp
  ultimately show ?thesis by linarith
qed

lemma votes_distinct [simp]: "Accept \<noteq> Reject" "Reject \<noteq> Accept" "Accept \<noteq> Abstain" "Abstain \<noteq> Accept" "Reject \<noteq> Abstain" "Abstain \<noteq> Reject"
  by (simp_all add: Accept_def Reject_def Abstain_def)

lemma countVotes_two: "v \<noteq> w \<Longrightarrow> countVotes v cs + countVotes w cs \<le> int (length cs)"
  unfolding countVotes_def by (induction cs) auto

text \<open>The outcomes of \<open>decideVote\<close>, each with the exact condition.\<close>

definition rejectThresholdOf :: "key_page \<Rightarrow> int" where
  "rejectThresholdOf p = (if kp_reject p = 0 then signatureThreshold p else kp_reject p)"

lemma decideVote_alt:
  "decideVote p cs =
     (if int (length cs) < kp_response p then (0, False)
      else if signatureThreshold p \<le> countVotes Accept cs then (Accept, True)
      else if rejectThresholdOf p \<le> countVotes Reject cs then (Reject, True)
      else if countVotes Accept cs + (int (length (kp_keys p)) - int (length cs)) < signatureThreshold p \<and>
              countVotes Reject cs + (int (length (kp_keys p)) - int (length cs)) < rejectThresholdOf p then (Abstain, True)
      else (0, False))"
  unfolding decideVote_def rejectThresholdOf_def Let_def not_le by (rule refl)

lemma decideVote_cases:
  obtains (early) "int (length cs) < kp_response p" "decideVote p cs = (0, False)"
  | (accept) "kp_response p \<le> int (length cs)" "signatureThreshold p \<le> countVotes Accept cs" "decideVote p cs = (Accept, True)"
  | (reject) "kp_response p \<le> int (length cs)" "countVotes Accept cs < signatureThreshold p" "rejectThresholdOf p \<le> countVotes Reject cs"
      "decideVote p cs = (Reject, True)"
  | (abstain) "kp_response p \<le> int (length cs)" "countVotes Accept cs < signatureThreshold p" "countVotes Reject cs < rejectThresholdOf p"
      "countVotes Accept cs + (int (length (kp_keys p)) - int (length cs)) < signatureThreshold p"
      "countVotes Reject cs + (int (length (kp_keys p)) - int (length cs)) < rejectThresholdOf p" "decideVote p cs = (Abstain, True)"
  | (pending) "kp_response p \<le> int (length cs)" "countVotes Accept cs < signatureThreshold p" "countVotes Reject cs < rejectThresholdOf p"
      "signatureThreshold p \<le> countVotes Accept cs + (int (length (kp_keys p)) - int (length cs)) \<or>
       rejectThresholdOf p \<le> countVotes Reject cs + (int (length (kp_keys p)) - int (length cs))" "decideVote p cs = (0, False)"
proof -
  let ?n = "int (length (kp_keys p)) - int (length cs)"
  consider "int (length cs) < kp_response p"
    | "kp_response p \<le> int (length cs)" "signatureThreshold p \<le> countVotes Accept cs"
    | "kp_response p \<le> int (length cs)" "countVotes Accept cs < signatureThreshold p" "rejectThresholdOf p \<le> countVotes Reject cs"
    | "kp_response p \<le> int (length cs)" "countVotes Accept cs < signatureThreshold p" "countVotes Reject cs < rejectThresholdOf p"
      "countVotes Accept cs + ?n < signatureThreshold p" "countVotes Reject cs + ?n < rejectThresholdOf p"
    | "kp_response p \<le> int (length cs)" "countVotes Accept cs < signatureThreshold p" "countVotes Reject cs < rejectThresholdOf p"
      "signatureThreshold p \<le> countVotes Accept cs + ?n \<or> rejectThresholdOf p \<le> countVotes Reject cs + ?n"
    by linarith
  then show ?thesis
  proof cases
    case 1 then show ?thesis by (intro early) (simp_all add: decideVote_alt)
  next
    case 2 then show ?thesis by (intro accept) (simp_all add: decideVote_alt)
  next
    case 3 then show ?thesis by (intro reject) (simp_all add: decideVote_alt)
  next
    case 4 then show ?thesis by (intro abstain) (simp_all add: decideVote_alt)
  next
    case 5 then show ?thesis by (intro pending) (auto simp: decideVote_alt)
  qed
qed

lemma decideVote_accept_iff:
  "decideVote p cs = (Accept, True) \<longleftrightarrow> kp_response p \<le> int (length cs) \<and> signatureThreshold p \<le> countVotes Accept cs"
  by (cases rule: decideVote_cases [of cs p]) auto

lemma decideVote_reject_iff:
  "decideVote p cs = (Reject, True) \<longleftrightarrow>
     kp_response p \<le> int (length cs) \<and> countVotes Accept cs < signatureThreshold p \<and> rejectThresholdOf p \<le> countVotes Reject cs"
  by (cases rule: decideVote_cases [of cs p]) auto

lemma decideVote_append_le:
  "countVotes v (cs @ others) \<le> countVotes v cs + int (length others)"
  unfolding countVotes_def by simp

text \<open>
  C4. What a page's vote means. Accept is voted exactly when enough entries responded and the accept threshold is met; reject exactly
  when enough responded, accept is not met and the reject threshold is. Abstain is voted only when the remaining keys, however they
  vote, can meet neither threshold any others; and a page with enough responses that does not vote can still reach accept or reject.
\<close>

theorem decideVote_exact:
  "(decideVote p cs = (Accept, True) \<longleftrightarrow> kp_response p \<le> int (length cs) \<and> signatureThreshold p \<le> countVotes Accept cs) \<and>
   (decideVote p cs = (Reject, True) \<longleftrightarrow>
      kp_response p \<le> int (length cs) \<and> countVotes Accept cs < signatureThreshold p \<and> rejectThresholdOf p \<le> countVotes Reject cs) \<and>
   (decideVote p cs = (Abstain, True) \<longrightarrow>
      (\<forall>others. length (cs @ others) \<le> length (kp_keys p) \<longrightarrow>
         countVotes Accept (cs @ others) < signatureThreshold p \<and> countVotes Reject (cs @ others) < rejectThresholdOf p)) \<and>
   (\<not> snd (decideVote p cs) \<and> kp_response p \<le> int (length cs) \<and> length cs \<le> length (kp_keys p) \<longrightarrow>
      (\<exists>others. length (cs @ others) \<le> length (kp_keys p) \<and> decideVote p (cs @ others) \<in> {(Accept, True), (Reject, True)}))"
proof (intro conjI impI allI)
  show "decideVote p cs = (Accept, True) \<longleftrightarrow> kp_response p \<le> int (length cs) \<and> signatureThreshold p \<le> countVotes Accept cs"
    by (rule decideVote_accept_iff)
  show "decideVote p cs = (Reject, True) \<longleftrightarrow>
      kp_response p \<le> int (length cs) \<and> countVotes Accept cs < signatureThreshold p \<and> rejectThresholdOf p \<le> countVotes Reject cs"
    by (rule decideVote_reject_iff)
next
  fix others assume v: "decideVote p cs = (Abstain, True)" and l: "length (cs @ others) \<le> length (kp_keys p)"
  have bound: "countVotes x (cs @ others) \<le> countVotes x cs + (int (length (kp_keys p)) - int (length cs))" for x
    using decideVote_append_le [of x cs others] l by simp
  show "countVotes Accept (cs @ others) < signatureThreshold p" "countVotes Reject (cs @ others) < rejectThresholdOf p"
    using v bound [of Accept] bound [of Reject] by (cases rule: decideVote_cases [of cs p]; simp)+
next
  assume a: "\<not> snd (decideVote p cs) \<and> kp_response p \<le> int (length cs) \<and> length cs \<le> length (kp_keys p)"
  define n where "n = length (kp_keys p) - length cs"
  have n: "int n = int (length (kp_keys p)) - int (length cs)" "length cs + n = length (kp_keys p)" using a unfolding n_def by auto
  define fill where "fill v = replicate n \<lparr> co_entry = [], co_vote = v, co_by = [], co_block = 0, co_ambiguous = False \<rparr>" for v
  have f: "length (fill v) = n" "countVotes v (fill v) = int n" "v \<noteq> w \<Longrightarrow> countVotes w (fill v) = 0" for v w
    unfolding fill_def countVotes_def by simp_all
  have app: "countVotes v (cs @ fill w) = countVotes v cs + countVotes v (fill w)" for v w unfolding countVotes_def by simp
  have low: "countVotes Accept cs < signatureThreshold p" using a by (cases rule: decideVote_cases [of cs p]) auto
  have "signatureThreshold p \<le> countVotes Accept cs + int n \<or> rejectThresholdOf p \<le> countVotes Reject cs + int n"
    using a unfolding n(1) by (cases rule: decideVote_cases [of cs p]) auto
  then show "\<exists>others. length (cs @ others) \<le> length (kp_keys p) \<and> decideVote p (cs @ others) \<in> {(Accept, True), (Reject, True)}"
  proof
    assume "signatureThreshold p \<le> countVotes Accept cs + int n"
    then have "decideVote p (cs @ fill Accept) = (Accept, True)" using a by (simp add: decideVote_accept_iff app f)
    then show ?thesis using f(1) n(2) by (intro exI [of _ "fill Accept"]) simp
  next
    assume "rejectThresholdOf p \<le> countVotes Reject cs + int n"
    then have "decideVote p (cs @ fill Reject) = (Reject, True)" using a low by (simp add: decideVote_reject_iff app f)
    then show ?thesis using f(1) n(2) by (intro exI [of _ "fill Reject"]) simp
  qed
qed

text \<open>
  Ambiguity that does not matter: if a page decides the same on the fewest contributions and on the most, it decides the same on
  everything between them, so which state each ambiguous message saw does not change the vote.
\<close>

theorem decideVote_between:
  assumes "mset few \<subseteq># mset some" and "mset some \<subseteq># mset all" and "decideVote p few = decideVote p all"
  shows "decideVote p some = decideVote p all"
proof -
  note lower = countVotes_mono [OF assms(1)] and upper = countVotes_mono [OF assms(2)]
  note left = countVotes_rest [OF assms(1)] and right = countVotes_rest [OF assms(2)]
  have len: "length few \<le> length some" "length some \<le> length all" using assms(1,2) size_mset_mono by fastforce+
  show ?thesis
  proof (cases rule: decideVote_cases [of all p])
    case early
    then show ?thesis using len by (simp add: decideVote_def)
  next
    case accept
    then have "decideVote p few = (Accept, True)" using assms(3) by simp
    then have "decideVote p some = (Accept, True)"
      unfolding decideVote_accept_iff using lower [of Accept] len by linarith
    then show ?thesis using accept by simp
  next
    case reject
    then have "decideVote p few = (Reject, True)" using assms(3) by simp
    then have "decideVote p some = (Reject, True)"
      unfolding decideVote_reject_iff using lower [of Reject] upper [of Accept] reject len by linarith
    then show ?thesis using reject by simp
  next
    case abstain
    then have "decideVote p few = (Abstain, True)" using assms(3) by simp
    then show ?thesis
      by (cases rule: decideVote_cases [of few p]; cases rule: decideVote_cases [of some p]; cases rule: decideVote_cases [of all p])
        (use abstain lower [of Accept] lower [of Reject] upper [of Accept] upper [of Reject] left [of Accept] left [of Reject] len in \<open>simp_all\<close>)
  next
    case pending
    then show ?thesis
      by (cases rule: decideVote_cases [of some p])
        (use pending upper [of Accept] upper [of Reject] right [of Accept] right [of Reject] len in \<open>simp_all\<close>)
  qed
qed

section \<open>Concrete tallies\<close>

definition say :: "string \<Rightarrow> int \<Rightarrow> int \<Rightarrow> bool \<Rightarrow> contribution" where
  "say e v b amb = \<lparr> co_entry = e, co_vote = v, co_by = e, co_block = b, co_ambiguous = amb \<rparr>"

definition pairPage :: "key_page" where
  "pairPage = (newKeyPage (mkUrl ''a'' ''/b/1'' []) 1 1)\<lparr> kp_accept := 2, kp_keys := [demoKey 1, demoKey 2] \<rparr>"

theorem decideVote_exact_witness:
  "decideVote pairPage [say ''k1'' 0 1 False, say ''k3'' 1 2 False] = (Abstain, True) \<and>
   countVotes Accept ([say ''k1'' 0 1 False, say ''k3'' 1 2 False] @ []) < signatureThreshold pairPage \<and>
   (\<exists>others. length ([say ''k1'' 0 1 False] @ others) \<le> length (kp_keys pairPage) \<and>
      decideVote pairPage ([say ''k1'' 0 1 False] @ others) \<in> {(Accept, True), (Reject, True)})"
proof (intro conjI)
  show v: "decideVote pairPage [say ''k1'' 0 1 False, say ''k3'' 1 2 False] = (Abstain, True)" by code_simp
  have "length ([say ''k1'' 0 1 False, say ''k3'' 1 2 False] @ []) \<le> length (kp_keys pairPage)" by code_simp
  then show "countVotes Accept ([say ''k1'' 0 1 False, say ''k3'' 1 2 False] @ []) < signatureThreshold pairPage"
    using decideVote_exact [of pairPage "[say ''k1'' 0 1 False, say ''k3'' 1 2 False]"] v by blast
  have "\<not> snd (decideVote pairPage [say ''k1'' 0 1 False])" "kp_response pairPage \<le> int (length [say ''k1'' 0 1 False])"
    "length [say ''k1'' 0 1 False] \<le> length (kp_keys pairPage)" by code_simp+
  then show "\<exists>others. length ([say ''k1'' 0 1 False] @ others) \<le> length (kp_keys pairPage) \<and>
      decideVote pairPage ([say ''k1'' 0 1 False] @ others) \<in> {(Accept, True), (Reject, True)}"
    using decideVote_exact [of pairPage "[say ''k1'' 0 1 False]"] by blast
qed

text \<open>Of two votes of one key the later one is counted.\<close>

theorem tally_latest_witness:
  "map_of (tally [say ''k1'' 0 1 False, say ''k1'' 1 2 True] True) ''k1'' = Some (say ''k1'' 1 2 True) \<and>
   co_entry (say ''k1'' 1 2 True) = ''k1'' \<and> distinct (map fst (tally [say ''k1'' 0 1 False, say ''k1'' 1 2 True] True))"
proof -
  have "map_of (tally [say ''k1'' 0 1 False, say ''k1'' 1 2 True] True) ''k1'' = Some (say ''k1'' 1 2 True)" by code_simp
  then show ?thesis using tally_latest [of "[say ''k1'' 0 1 False, say ''k1'' 1 2 True]" True] by blast
qed

theorem decideVote_between_witness:
  "decideVote pairPage [say ''k1'' 0 1 False, say ''k2'' 0 2 False] =
   decideVote pairPage [say ''k1'' 0 1 False, say ''k2'' 0 2 False, say ''k3'' 1 2 True]"
  by (rule decideVote_between [of "[say ''k1'' 0 1 False, say ''k2'' 0 2 False]"]) code_simp+

text \<open>
  The agreement \<open>decideThrough\<close> asks for is on the tallies, and there it is not enough: an ambiguous contribution that replaces a
  definite one of the same entry can change the vote in a reading between the two that agree. Here the key \<open>k1\<close> accepts, and in the
  next block it rejects and \<open>k2\<close>, rotated in for it in that block, accepts beside \<open>k3\<close>; with all and with none of the ambiguous
  messages the page accepts, with \<open>k1\<close>'s rejection alone it abstains.
\<close>

lemma agreement_not_enough:
  "decideVote pairPage (map snd (tally [say ''k1'' 0 1 False, say ''k1'' 1 2 True, say ''k2'' 0 2 True, say ''k3'' 0 2 False] True)) = (Accept, True)"
  "decideVote pairPage (map snd (tally [say ''k1'' 0 1 False, say ''k1'' 1 2 True, say ''k2'' 0 2 True, say ''k3'' 0 2 False] False)) = (Accept, True)"
  "decideVote pairPage (map snd (tally [say ''k1'' 0 1 False, say ''k1'' 1 2 True, say ''k3'' 0 2 False] True)) = (Abstain, True)"
  by code_simp+

end
