(* ===== verification/Vote.thy ===== *)
theory Vote
  imports VoteRules
begin

text \<open>
  The vote model of \<open>packages/verify/src/s3/govvote.ts\<close>: \<open>PageEvaluation\<close>, \<open>VoteModel\<close> and \<open>evaluate\<close>. The two classes' mutable
  state is passed explicitly: the memos \<open>pages\<close> and \<open>books\<close> of the model, and \<open>holding\<close>/\<open>cands\<close> of one page's evaluation (one map, as
  they are always set together). A page's history is a replay's states; \<open>src\<close> gives them, or the message of the error \<open>timeline\<close> threw.
  Once a \<open>VoteUnevaluable\<close> is thrown nothing of the state is read again, so an error carries none.

  \<open>bookVote\<close> and \<open>pageVote\<close> call each other along delegation paths; \<open>nx\<close> is the book vote a page asks for one level deeper, and
  \<open>bookVote\<close> ties the knot by recursion on its first argument.
\<close>

section \<open>Votes\<close>

datatype exclusion =
    Superseded int int
  | OtherVersion int
  | AfterDecision int int

record counted_entry =
  ce_entry :: string
  ce_vote :: string
  ce_by :: string
  ce_block :: int

datatype page_vote =
  PageVote (pv_page: string) (pv_path: "string list") (pv_voted: bool) (pv_vote: string) (pv_version: int)
    (pv_threshold: int) (pv_rejectThreshold: int) (pv_responseThreshold: int) (pv_decidedAt: int)
    (pv_counted: "counted_entry list") (pv_excluded: "(string \<times> exclusion) list") (pv_delegates: "book_vote list") (pv_voteType: int)
and book_vote =
  BookVote (bv_book: string) (bv_voted: bool) (bv_vote: string) (bv_by: string) (bv_pages: "page_vote list") (bv_voteType: int)

record page_decision =
  pd_through :: int
  pd_version :: int
  pd_state :: key_page
  pd_counted :: "(string \<times> contribution) list"
  pd_excluded :: "(string \<times> exclusion) list"
  pd_delegates :: "book_vote list"
  pd_voted :: bool
  pd_vote :: int

record vote_state =
  vs_pages :: "string \<Rightarrow> page_vote option"
  vs_books :: "string \<Rightarrow> book_vote option"

type_synonym held = "string \<Rightarrow> (nat \<times> nat) option"
type_synonym book_voter = "string \<Rightarrow> string list \<Rightarrow> nat \<Rightarrow> vote_state \<Rightarrow> vote_error + book_vote \<times> vote_state"

text \<open>What a \<open>PageEvaluation\<close> is constructed with.\<close>

record page_eval =
  pe_T :: tx_types
  pe_facts :: facts
  pe_page :: string
  pe_path :: "string list"
  pe_depth :: nat
  pe_tl :: "page_state list"
  pe_direct :: "sig_fact list"
  pe_arrived :: "arrival_fact list"

section \<open>A page's evaluation\<close>

definition memoKey :: "string \<Rightarrow> int \<Rightarrow> string" where
  "memoKey i v = i @ CHR ''|'' # decInt v"

text \<open>How many of the states \<open>cands\<close> allow the transaction and hold what \<open>has\<close> tests for.\<close>

definition holdingStates :: "page_eval \<Rightarrow> (key_page \<Rightarrow> bool) \<Rightarrow> key_page list \<Rightarrow> nat" where
  "holdingStates E has cands = length (filter (\<lambda>c. \<not> blacklisted (pe_T E) c (fa_txType (pe_facts E)) \<and> has c) cands)"

definition keyHolding :: "page_eval \<Rightarrow> sig_fact \<Rightarrow> int \<Rightarrow> held \<Rightarrow> vote_error + (nat \<times> nat) \<times> held" where
  "keyHolding E s v h =
     (case h (memoKey (sg_id s) v) of
        Some r \<Rightarrow> Inr (r, h)
      | None \<Rightarrow>
          let cands = statesOfVersion (candidatesDuring (pe_tl E) (sg_block s)) v in
          if length cands = 0 then Inl (VersionNotHeld (pe_page E) (sg_id s) (sg_block s) v)
          else (case decodeHash (sg_keyHash s) of
                  None \<Rightarrow> Inl (NotAKeyHash (pe_page E) (sg_id s))
                | Some kh \<Rightarrow>
                    let n = holdingStates E (\<lambda>c. entryByKeyHash c kh \<noteq> None) cands in
                    if n = 0 then Inl (KeyNotHeld (pe_page E) (sg_id s) v (sg_block s))
                    else Inr ((n, length cands), h(memoKey (sg_id s) v \<mapsto> (n, length cands)))))"

definition delegateHolding :: "page_eval \<Rightarrow> arrival_fact \<Rightarrow> int \<Rightarrow> held \<Rightarrow> vote_error + (nat \<times> nat) \<times> held" where
  "delegateHolding E a v h =
     (case h (memoKey (ar_id a) v) of
        Some r \<Rightarrow> Inr (r, h)
      | None \<Rightarrow>
          (case fromBinary (ar_authority a) of
             None \<Rightarrow> Inl (BadAuthorityUrl (pe_page E) (ar_id a))
           | Some authority \<Rightarrow>
               let cands = statesOfVersion (candidatesDuring (pe_tl E) (ar_block a)) v;
                   n = holdingStates E (\<lambda>c. entryByDelegate c authority \<noteq> None) cands in
               if n = 0 then Inl (NoDelegateEntry (pe_page E) (ar_authority a) (ar_block a) v)
               else Inr ((n, length cands), h(memoKey (ar_id a) v \<mapsto> (n, length cands)))))"

text \<open>The version a prefix of the records stands at, and the versions the page was at when each delegated vote arrived.\<close>

fun maxVersion :: "int \<Rightarrow> int list \<Rightarrow> int" where
  "maxVersion v [] = v"
| "maxVersion v (w # ws) = maxVersion (if w > v then w else v) ws"

fun arrivalVersions :: "page_eval \<Rightarrow> bool \<Rightarrow> int \<Rightarrow> arrival_fact list \<Rightarrow> vote_error + int \<times> int list list" where
  "arrivalVersions E noDirect v [] = Inr (v, [])"
| "arrivalVersions E noDirect v (a # as) =
     (let vs = remdups (map kp_version (candidatesDuring (pe_tl E) (ar_block a))) in
      if vs = [] then Inl (ArrivedBeforePage (pe_page E) (ar_id a) (ar_block a))
      else bindE (arrivalVersions E noDirect (if noDirect then maxVersion v vs else v) as) (\<lambda>(v', vss). Inr (v', vs # vss)))"

fun directContribs :: "page_eval \<Rightarrow> int \<Rightarrow> sig_fact list \<Rightarrow> held \<Rightarrow>
    vote_error + (contribution list \<times> (string \<times> exclusion) list) \<times> held" where
  "directContribs E v [] h = Inr (([], []), h)"
| "directContribs E v (s # ss) h =
     (if sg_version s < v then
        bindE (directContribs E v ss h) (\<lambda>((cs, ex), h'). Inr ((cs, (sg_id s, Superseded (sg_version s) v) # ex), h'))
      else
        bindE (keyHolding E s v h) (\<lambda>((n, cands), h1).
        bindE (directContribs E v ss h1) (\<lambda>((cs, ex), h'). Inr
          ((\<lparr> co_entry = ''key:'' @ goLower (sg_keyHash s), co_vote = sg_vote s, co_by = sg_id s, co_block = sg_block s,
              co_ambiguous = n < cands \<rparr> # cs, ex), h'))))"

fun arrivedContribs :: "book_voter \<Rightarrow> page_eval \<Rightarrow> int \<Rightarrow> (arrival_fact \<times> int list) list \<Rightarrow> held \<Rightarrow> vote_state \<Rightarrow>
    vote_error + (contribution list \<times> (string \<times> exclusion) list \<times> book_vote list) \<times> held \<times> vote_state" where
  "arrivedContribs nx E v [] h st = Inr (([], [], []), h, st)"
| "arrivedContribs nx E v ((a, vs) # as) h st =
     (if v \<notin> set vs then
        bindE (arrivedContribs nx E v as h st) (\<lambda>((cs, ex, ds), r). Inr ((cs, (ar_id a, OtherVersion v) # ex, ds), r))
      else
        bindE (delegateHolding E a v h) (\<lambda>((n, cands), h1).
        bindE (nx (ar_authority a) (pe_path E @ [pe_page E]) (pe_depth E + 1) st) (\<lambda>(dv, st1).
        if \<not> bv_voted dv then Inl (DelegateDidNotVote (pe_page E) (ar_authority a))
        else bindE (arrivedContribs nx E v as h1 st1) (\<lambda>((cs, ex, ds), r). Inr
          ((\<lparr> co_entry = ''delegate:'' @ canonicalAccSpelling (ar_authority a), co_vote = bv_voteType dv, co_by = ar_id a,
              co_block = ar_block a, co_ambiguous = n < cands \<rparr> # cs, ex, dv # ds), r)))))"

text \<open>The end of \<open>decideThrough\<close>: the decision with every ambiguous contribution counted and with none, which have to agree.\<close>

definition decision :: "page_eval \<Rightarrow> int \<Rightarrow> int \<Rightarrow> key_page \<Rightarrow> contribution list \<Rightarrow> (string \<times> exclusion) list \<Rightarrow> book_vote list \<Rightarrow>
    vote_error + page_decision" where
  "decision E b v state contribs excluded delegates =
     (let all = tally contribs True;
          definite = tally contribs False;
          withAll = decideVote state (map snd all);
          withNone = decideVote state (map snd definite) in
      if snd withAll \<noteq> snd withNone \<or> (snd withAll \<and> fst withAll \<noteq> fst withNone) then Inl (StateUndetermined (pe_page E))
      else Inr \<lparr> pd_through = b, pd_version = v, pd_state = state, pd_counted = all, pd_excluded = excluded, pd_delegates = delegates,
                 pd_voted = snd withAll, pd_vote = fst withAll \<rparr>)"

definition decideThrough :: "book_voter \<Rightarrow> page_eval \<Rightarrow> int \<Rightarrow> held \<Rightarrow> vote_state \<Rightarrow> vote_error + page_decision \<times> held \<times> vote_state" where
  "decideThrough nx E b h st =
     (let direct = filter (\<lambda>s. sg_block s \<le> b) (pe_direct E);
          arrived = filter (\<lambda>a. ar_block a \<le> b) (pe_arrived E) in
      bindE (arrivalVersions E (direct = []) (maxVersion 0 (map sg_version direct)) arrived) (\<lambda>(v, vss).
      case ofVersion (pe_tl E) v of
        None \<Rightarrow> Inl (VersionNotReached (pe_page E) v)
      | Some state \<Rightarrow>
          bindE (directContribs E v direct h) (\<lambda>((cs1, ex1), h1).
          bindE (arrivedContribs nx E v (zip arrived vss) h1 st) (\<lambda>((cs2, ex2, ds), h2, st2).
          bindE (sameBlockConflict (pe_page E) (cs1 @ cs2)) (\<lambda>_.
          bindE (decision E b v state (cs1 @ cs2) (ex1 @ ex2) ds) (\<lambda>d. Inr (d, h2, st2)))))))"

text \<open>The walk over the blocks of the records: the first block that decides, or the last one.\<close>

fun decideWalk :: "book_voter \<Rightarrow> page_eval \<Rightarrow> page_decision option \<Rightarrow> int list \<Rightarrow> held \<Rightarrow> vote_state \<Rightarrow>
    vote_error + page_decision option \<times> vote_state" where
  "decideWalk nx E d [] h st = Inr (d, st)"
| "decideWalk nx E d (b # bs) h st =
     bindE (decideThrough nx E b h st) (\<lambda>(d', h', st').
       if pd_voted d' then Inr (Some d', st') else decideWalk nx E (Some d') bs h' st')"

section \<open>The model\<close>

definition directOf :: "facts \<Rightarrow> string \<Rightarrow> string list \<Rightarrow> sig_fact list" where
  "directOf F page path = filter (\<lambda>s. sg_signer s = page \<and> pathEqual (sg_path s) path) (fa_sigs F)"

definition arrivedOf :: "facts \<Rightarrow> string \<Rightarrow> string list \<Rightarrow> arrival_fact list" where
  "arrivedOf F page path = filter (\<lambda>a. ar_page a = page \<and> pathEqual (ar_path a) path) (fa_arrivals F)"

definition timelineOf :: "(string \<Rightarrow> 'm + page_state list) \<Rightarrow> string \<Rightarrow> vote_error + page_state list" where
  "timelineOf src page = mapErr (\<lambda>_. HistoryNotReplayed page) (src page)"

definition voteKey :: "string \<Rightarrow> string list \<Rightarrow> string" where
  "voteKey name path = name @ CHR ''|'' # joinWith '','' path"

definition pageDecidedBefore :: "book_voter \<Rightarrow> tx_types \<Rightarrow> facts \<Rightarrow> (string \<Rightarrow> 'm + page_state list) \<Rightarrow> string \<Rightarrow> string list \<Rightarrow>
    nat \<Rightarrow> int \<Rightarrow> vote_state \<Rightarrow> vote_error + (bool \<times> int) \<times> vote_state" where
  "pageDecidedBefore nx T F src page path depth b st =
     (let direct = filter (\<lambda>s. sg_block s < b) (directOf F page path);
          arrived = filter (\<lambda>a. ar_block a < b) (arrivedOf F page path) in
      if direct = [] \<and> arrived = [] then Inr ((False, 0), st)
      else bindE (timelineOf src page) (\<lambda>tl.
        bindE (decideWalk nx \<lparr> pe_T = T, pe_facts = F, pe_page = page, pe_path = path, pe_depth = depth, pe_tl = tl,
                               pe_direct = direct, pe_arrived = arrived \<rparr> None (recordBlocks direct arrived) Map.empty st) (\<lambda>(d, st').
          case d of
            Some d' \<Rightarrow> if pd_voted d' then Inr ((True, pd_through d'), st') else Inr ((False, 0), st')
          | None \<Rightarrow> Inr ((False, 0), st'))))"

definition pageVoteOf :: "string \<Rightarrow> string list \<Rightarrow> sig_fact list \<Rightarrow> arrival_fact list \<Rightarrow> page_decision \<Rightarrow> page_vote" where
  "pageVoteOf page path direct arrived d =
     PageVote page path (pd_voted d) (if pd_voted d then voteName (pd_vote d) else []) (pd_version d)
       (signatureThreshold (pd_state d)) (kp_reject (pd_state d)) (kp_response (pd_state d))
       (if pd_voted d then pd_through d else 0)
       (map (\<lambda>c. \<lparr> ce_entry = co_entry c, ce_vote = voteName (co_vote c), ce_by = co_by c, ce_block = co_block c \<rparr>)
         (sortedEntries (pd_counted d)))
       (pd_excluded d @
         (if pd_voted d then
            map (\<lambda>s. (sg_id s, AfterDecision (sg_block s) (pd_through d))) (filter (\<lambda>s. sg_block s > pd_through d) direct) @
            map (\<lambda>a. (ar_id a, AfterDecision (ar_block a) (pd_through d))) (filter (\<lambda>a. ar_block a > pd_through d) arrived)
          else []))
       (pd_delegates d) (if pd_voted d then pd_vote d else 0)"

text \<open>
  \<open>pageVote\<close>. The walk over the blocks of a page with records makes at least one decision, so the \<open>d!\<close> of the source is a decision
  (the \<open>None\<close> below answers with the vote of a page without records, as the walk over no block would).
\<close>

definition emptyPageVote :: "string \<Rightarrow> string list \<Rightarrow> page_vote" where
  "emptyPageVote page path = PageVote page path False [] 0 0 0 0 0 [] [] [] 0"

definition storePage :: "string \<Rightarrow> page_vote \<Rightarrow> vote_state \<Rightarrow> vote_state" where
  "storePage k pv st = st\<lparr> vs_pages := (vs_pages st)(k \<mapsto> pv) \<rparr>"

definition pageVote :: "book_voter \<Rightarrow> tx_types \<Rightarrow> facts \<Rightarrow> (string \<Rightarrow> 'm + page_state list) \<Rightarrow> string \<Rightarrow> string list \<Rightarrow>
    nat \<Rightarrow> vote_state \<Rightarrow> vote_error + page_vote \<times> vote_state" where
  "pageVote nx T F src pageIn path depth st =
     (let page = canonicalAccSpelling pageIn; k = voteKey page path in
      case vs_pages st k of
        Some hit \<Rightarrow> Inr (hit, st)
      | None \<Rightarrow>
          if depth > DELEGATION_DEPTH_LIMIT then Inl (DelegationTooDeep page)
          else
            let direct = directOf F page path; arrived = arrivedOf F page path in
            if direct = [] \<and> arrived = [] then Inr (emptyPageVote page path, storePage k (emptyPageVote page path) st)
            else bindE (timelineOf src page) (\<lambda>tl.
              bindE (decideWalk nx \<lparr> pe_T = T, pe_facts = F, pe_page = page, pe_path = path, pe_depth = depth, pe_tl = tl,
                                     pe_direct = direct, pe_arrived = arrived \<rparr> None (recordBlocks direct arrived) Map.empty st) (\<lambda>(d, st').
                let pv = (case d of Some d' \<Rightarrow> pageVoteOf page path direct arrived d' | None \<Rightarrow> emptyPageVote page path) in
                Inr (pv, storePage k pv st'))))"

text \<open>\<open>recordedBookVote\<close>\<close>

fun arrivalRecords :: "string \<Rightarrow> string \<Rightarrow> string list \<Rightarrow> arrival_fact list \<Rightarrow> vote_error + book_record list" where
  "arrivalRecords book at beyond [] = Inr []"
| "arrivalRecords book at beyond (a # as) =
     (if canonicalAccSpelling (ar_authority a) = book \<and> ar_page a = at \<and> pathEqual (ar_path a) beyond then
        (if ar_origin a = [] then Inl (NoOrigin at book)
         else bindE (arrivalRecords book at beyond as) (\<lambda>rs. Inr
           (\<lparr> br_id = ar_id a, br_origin = canonicalAccSpelling (ar_origin a), br_vote = ar_vote a, br_releasedAt = 0 \<rparr> # rs)))
      else arrivalRecords book at beyond as)"

definition voteRecords :: "string \<Rightarrow> recorded_vote list \<Rightarrow> book_record list" where
  "voteRecords book vs =
     map (\<lambda>v. \<lparr> br_id = rv_id v, br_origin = canonicalAccSpelling (rv_origin v), br_vote = rv_vote v, br_releasedAt = rv_releasedAt v \<rparr>)
       (filter (\<lambda>v. canonicalAccSpelling (rv_authority v) = book) vs)"

definition recordedBookVote :: "facts \<Rightarrow> string \<Rightarrow> string list \<Rightarrow> vote_error + book_record option" where
  "recordedBookVote F book path =
     bindE (if path = [] then Inr (voteRecords book (fa_votes F)) else arrivalRecords book (last path) (butlast path) (fa_arrivals F)) (\<lambda>recs.
       case recs of
         [] \<Rightarrow> Inr None
       | r # rs \<Rightarrow> if list_all (\<lambda>q. br_origin q = br_origin r \<and> br_vote q = br_vote r) rs then Inr (Some r) else Inl (SeveralRecords book))"

text \<open>The pages a fact names, without repetition and in the order of their numbers.\<close>

definition firstOnly :: "string list \<Rightarrow> string list" where
  "firstOnly xs = rev (remdups (rev xs))"

definition pagesOf :: "facts \<Rightarrow> string \<Rightarrow> string list \<Rightarrow> string list" where
  "pagesOf F book path =
     sort_key pageIndex (firstOnly
       (map sg_signer (filter (\<lambda>s. bookOfPage (sg_signer s) = book \<and> pathEqual (sg_path s) path) (fa_sigs F)) @
        map ar_page (filter (\<lambda>a. bookOfPage (ar_page a) = book \<and> pathEqual (ar_path a) path) (fa_arrivals F))))"

fun unrecordedPages :: "book_voter \<Rightarrow> tx_types \<Rightarrow> facts \<Rightarrow> (string \<Rightarrow> 'm + page_state list) \<Rightarrow> string \<Rightarrow> string list \<Rightarrow> nat \<Rightarrow>
    string list \<Rightarrow> vote_state \<Rightarrow> vote_error + page_vote list \<times> vote_state" where
  "unrecordedPages nx T F src book path depth [] st = Inr ([], st)"
| "unrecordedPages nx T F src book path depth (p # ps) st =
     bindE (pageVote nx T F src p path depth st) (\<lambda>(pv, st1).
       if pv_voted pv then Inl (UnrecordedVote p book)
       else bindE (unrecordedPages nx T F src book path depth ps st1) (\<lambda>(pvs, st2). Inr (pv # pvs, st2)))"

fun otherPages :: "book_voter \<Rightarrow> tx_types \<Rightarrow> facts \<Rightarrow> (string \<Rightarrow> 'm + page_state list) \<Rightarrow> book_record \<Rightarrow> int \<Rightarrow> string list \<Rightarrow> nat \<Rightarrow>
    string list \<Rightarrow> vote_state \<Rightarrow> vote_error + vote_state" where
  "otherPages nx T F src rec at path depth [] st = Inr st"
| "otherPages nx T F src rec at path depth (p # ps) st =
     (if p = br_origin rec then otherPages nx T F src rec at path depth ps st
      else if fa_holdUntil F \<noteq> 0 \<and> br_releasedAt rec > 0 then
        bindE (pageDecidedBefore nx T F src p path depth (br_releasedAt rec) st) (\<lambda>((decided, _), st1).
          if decided \<and> pageIndex p < pageIndex (br_origin rec) then Inl (LowerPageDecided p (br_origin rec))
          else otherPages nx T F src rec at path depth ps st1)
      else
        bindE (pageDecidedBefore nx T F src p path depth at st) (\<lambda>((decided, _), st1).
          if decided then Inl (EarlierPageDecided p (br_origin rec))
          else otherPages nx T F src rec at path depth ps st1))"

definition storeBook :: "string \<Rightarrow> book_vote \<Rightarrow> vote_state \<Rightarrow> vote_state" where
  "storeBook k bv st = st\<lparr> vs_books := (vs_books st)(k \<mapsto> bv) \<rparr>"

definition bookVoteWith :: "book_voter \<Rightarrow> tx_types \<Rightarrow> facts \<Rightarrow> (string \<Rightarrow> 'm + page_state list) \<Rightarrow> book_voter" where
  "bookVoteWith nx T F src bookIn path depth st =
     (let book = canonicalAccSpelling bookIn; k = voteKey book path in
      case vs_books st k of
        Some hit \<Rightarrow> Inr (hit, st)
      | None \<Rightarrow>
          bindE (recordedBookVote F book path) (\<lambda>r.
          case r of
            None \<Rightarrow>
              bindE (unrecordedPages nx T F src book path depth (pagesOf F book path) st) (\<lambda>(pvs, st1).
                let bv = BookVote book False [] [] pvs 0 in Inr (bv, storeBook k bv st1))
          | Some rec \<Rightarrow>
              if bookOfPage (br_origin rec) \<noteq> book then Inl (ForeignOrigin (br_origin rec) book)
              else
                bindE (pageVote nx T F src (br_origin rec) path depth st) (\<lambda>(pv, st1).
                if \<not> pv_voted pv \<or> pv_voteType pv \<noteq> br_vote rec then Inl (RecordDisagrees (br_origin rec) book)
                else bindE (otherPages nx T F src rec (pv_decidedAt pv) path depth (pagesOf F book path) st1) (\<lambda>st2.
                  let bv = BookVote book True (pv_vote pv) (br_origin rec) [pv] (pv_voteType pv) in
                  Inr (bv, storeBook k bv st2)))))"

fun bookVote :: "nat \<Rightarrow> tx_types \<Rightarrow> facts \<Rightarrow> (string \<Rightarrow> 'm + page_state list) \<Rightarrow> book_voter" where
  "bookVote n T F src = bookVoteWith (if 0 < n then bookVote (n - 1) T F src else (\<lambda>_ _ _ _. Inl OutOfFuel)) T F src"

declare bookVote.simps [simp del]

lemma bookVote_code [code]:
  "bookVote n T F src bookIn path depth st =
     bookVoteWith (if 0 < n then bookVote (n - 1) T F src else (\<lambda>_ _ _ _. Inl OutOfFuel)) T F src bookIn path depth st"
  by (simp add: bookVote.simps [of n])

section \<open>The authority vote on a transaction\<close>

record account_authority =
  aa_url :: string
  aa_disabled :: bool

record authority_vote =
  av_authority :: string
  av_disabled :: bool
  av_extra :: bool
  av_vote :: book_vote

record account_vote =
  ac_account :: string
  ac_authorities :: "authority_vote list"
  ac_satisfied :: bool

text \<open>The body of \<open>require\<close> for each authority in turn: the ones seen, the votes so far, and whether all of them accept.\<close>

fun requireAll :: "book_voter \<Rightarrow> string list \<Rightarrow> (account_authority \<times> bool) list \<Rightarrow> vote_state \<Rightarrow>
    vote_error + (authority_vote list \<times> bool) \<times> vote_state" where
  "requireAll vote seen [] st = Inr (([], True), st)"
| "requireAll vote seen ((a, isExtra) # as) st =
     (let u = canonicalAccSpelling (aa_url a) in
      if u \<in> set seen then requireAll vote seen as st
      else bindE (vote u [] 0 st) (\<lambda>(bv, st1).
        bindE (requireAll vote (u # seen) as st1) (\<lambda>((avs, ok), st2). Inr
          ((\<lparr> av_authority = u, av_disabled = aa_disabled a, av_extra = isExtra, av_vote = bv \<rparr> # avs,
            bv_voted bv \<and> bv_voteType bv = Accept \<and> ok), st2))))"

definition requiredAuthorities :: "account_authority list \<Rightarrow> string list \<Rightarrow> bool \<Rightarrow> (account_authority \<times> bool) list" where
  "requiredAuthorities authorities extras ignoreDisabled =
     map (\<lambda>a. (a, False)) (filter (\<lambda>a. \<not> (aa_disabled a \<and> \<not> ignoreDisabled)) authorities) @
     map (\<lambda>e. (\<lparr> aa_url = e, aa_disabled = False \<rparr>, True)) extras"

definition evaluateWith :: "nat \<Rightarrow> tx_types \<Rightarrow> facts \<Rightarrow> (string \<Rightarrow> 'm + page_state list) \<Rightarrow> string \<Rightarrow> account_authority list \<Rightarrow>
    string list \<Rightarrow> bool \<Rightarrow> vote_error + account_vote" where
  "evaluateWith n T F src account authorities extras ignoreDisabled =
     (if length authorities = 0 then Inl (NoAuthoritySet (canonicalAccSpelling account))
      else bindE (requireAll (bookVote n T F src) [] (requiredAuthorities authorities extras ignoreDisabled)
                   \<lparr> vs_pages = Map.empty, vs_books = Map.empty \<rparr>) (\<lambda>((avs, ok), _).
        if avs = [] then Inl (AllAuthoritiesDisabled (canonicalAccSpelling account))
        else Inr \<lparr> ac_account = canonicalAccSpelling account, ac_authorities = avs, ac_satisfied = ok \<rparr>))"

text \<open>A book's vote at depth 20 asks for none deeper than 21, where \<open>pageVote\<close> refuses: 21 levels below the first are enough.\<close>

definition evaluate :: "tx_types \<Rightarrow> facts \<Rightarrow> (string \<Rightarrow> 'm + page_state list) \<Rightarrow> string \<Rightarrow> account_authority list \<Rightarrow> string list \<Rightarrow> bool \<Rightarrow>
    vote_error + account_vote" where
  "evaluate = evaluateWith (DELEGATION_DEPTH_LIMIT + 1)"

end
