(* ===== verification/VoteRef.thy ===== *)
theory VoteRef
  imports Vote
begin

text \<open>
  The reference of the vote model of \<open>packages/verify/src/s3/govvote.ts\<close>: the vote of a book as a function of the facts alone, with no memo and
  no state that is passed on. A page's records are taken block by block, each record says what it contributes by itself, and the first block whose
  contributions decide is the page's decision. The theorem is that \<open>evaluate\<close>, with its three memos, computes this function.
\<close>

section \<open>A page's records\<close>

text \<open>How many of the page's states of a version allow the transaction and have what was asked for, and how many there are.\<close>

definition keyStanding :: "page_eval \<Rightarrow> int \<Rightarrow> sig_fact \<Rightarrow> vote_error + nat \<times> nat" where
  "keyStanding E v s =
     (let cands = statesOfVersion (candidatesDuring (pe_tl E) (sg_block s)) v in
      if cands = [] then Inl (VersionNotHeld (pe_page E) (sg_id s) (sg_block s) v)
      else (case decodeHash (sg_keyHash s) of
              None \<Rightarrow> Inl (NotAKeyHash (pe_page E) (sg_id s))
            | Some kh \<Rightarrow>
                let n = holdingStates E (\<lambda>c. entryByKeyHash c kh \<noteq> None) cands in
                if n = 0 then Inl (KeyNotHeld (pe_page E) (sg_id s) v (sg_block s)) else Inr (n, length cands)))"

definition delegateStanding :: "page_eval \<Rightarrow> int \<Rightarrow> arrival_fact \<Rightarrow> vote_error + nat \<times> nat" where
  "delegateStanding E v a =
     (case fromBinary (ar_authority a) of
        None \<Rightarrow> Inl (BadAuthorityUrl (pe_page E) (ar_id a))
      | Some u \<Rightarrow>
          let cands = statesOfVersion (candidatesDuring (pe_tl E) (ar_block a)) v;
              n = holdingStates E (\<lambda>c. entryByDelegate c u \<noteq> None) cands in
          if n = 0 then Inl (NoDelegateEntry (pe_page E) (ar_authority a) (ar_block a) v) else Inr (n, length cands))"

text \<open>What a signature contributes to its page at a version, and what an arrived vote of a delegate does.\<close>

definition keyVote :: "page_eval \<Rightarrow> int \<Rightarrow> sig_fact \<Rightarrow> vote_error + contribution" where
  "keyVote E v s =
     bindE (keyStanding E v s) (\<lambda>(n, k). Inr
       \<lparr> co_entry = ''key:'' @ goLower (sg_keyHash s), co_vote = sg_vote s, co_by = sg_id s, co_block = sg_block s, co_ambiguous = n < k \<rparr>)"

type_synonym ref_voter = "string \<Rightarrow> string list \<Rightarrow> vote_error + book_vote"

definition delegateVote :: "ref_voter \<Rightarrow> page_eval \<Rightarrow> int \<Rightarrow> arrival_fact \<Rightarrow> vote_error + contribution \<times> book_vote" where
  "delegateVote nx E v a =
     bindE (delegateStanding E v a) (\<lambda>(n, k).
     bindE (nx (ar_authority a) (pe_path E @ [pe_page E])) (\<lambda>dv.
       if bv_voted dv then Inr
         (\<lparr> co_entry = ''delegate:'' @ canonicalAccSpelling (ar_authority a), co_vote = bv_voteType dv, co_by = ar_id a, co_block = ar_block a,
            co_ambiguous = n < k \<rparr>, dv)
       else Inl (DelegateDidNotVote (pe_page E) (ar_authority a))))"

text \<open>The versions the page had in the block a delegate's vote arrived in, and the version the records up to a block stand at.\<close>

definition arrivedAt :: "page_eval \<Rightarrow> arrival_fact \<Rightarrow> vote_error + int list" where
  "arrivedAt E a =
     (let vs = remdups (map kp_version (candidatesDuring (pe_tl E) (ar_block a))) in
      if vs = [] then Inl (ArrivedBeforePage (pe_page E) (ar_id a) (ar_block a)) else Inr vs)"

definition standsAt :: "sig_fact list \<Rightarrow> int list list \<Rightarrow> int" where
  "standsAt direct vss = maxVersion 0 (if direct = [] then concat vss else map sg_version direct)"

text \<open>The signatures up to a block that are not superseded contribute; of the delegates' votes, those that arrived while the page had the version.\<close>

definition directVotes :: "page_eval \<Rightarrow> int \<Rightarrow> sig_fact list \<Rightarrow> vote_error + contribution list \<times> (string \<times> exclusion) list" where
  "directVotes E v ss =
     bindE (mapE (keyVote E v) (filter (\<lambda>s. v \<le> sg_version s) ss)) (\<lambda>cs.
       Inr (cs, map (\<lambda>s. (sg_id s, Superseded (sg_version s) v)) (filter (\<lambda>s. sg_version s < v) ss)))"

definition arrivedVotes :: "ref_voter \<Rightarrow> page_eval \<Rightarrow> int \<Rightarrow> (arrival_fact \<times> int list) list \<Rightarrow>
    vote_error + contribution list \<times> (string \<times> exclusion) list \<times> book_vote list" where
  "arrivedVotes nx E v as =
     bindE (mapE (\<lambda>(a, _). delegateVote nx E v a) (filter (\<lambda>(_, vs). v \<in> set vs) as)) (\<lambda>cds.
       Inr (map fst cds, map (\<lambda>(a, _). (ar_id a, OtherVersion v)) (filter (\<lambda>(_, vs). v \<notin> set vs) as), map snd cds))"

definition decideAt :: "ref_voter \<Rightarrow> page_eval \<Rightarrow> int \<Rightarrow> vote_error + page_decision" where
  "decideAt nx E b =
     (let direct = filter (\<lambda>s. sg_block s \<le> b) (pe_direct E);
          arrived = filter (\<lambda>a. ar_block a \<le> b) (pe_arrived E) in
      bindE (mapE (arrivedAt E) arrived) (\<lambda>vss.
      let v = standsAt direct vss in
      case ofVersion (pe_tl E) v of
        None \<Rightarrow> Inl (VersionNotReached (pe_page E) v)
      | Some state \<Rightarrow>
          bindE (directVotes E v direct) (\<lambda>(cs1, ex1).
          bindE (arrivedVotes nx E v (zip arrived vss)) (\<lambda>(cs2, ex2, ds).
          bindE (sameBlockConflict (pe_page E) (cs1 @ cs2)) (\<lambda>_.
            decision E b v state (cs1 @ cs2) (ex1 @ ex2) ds)))))"

text \<open>The first block that decides, or the last one.\<close>

fun firstDecision :: "ref_voter \<Rightarrow> page_eval \<Rightarrow> page_decision option \<Rightarrow> int list \<Rightarrow> vote_error + page_decision option" where
  "firstDecision nx E d [] = Inr d"
| "firstDecision nx E d (b # bs) =
     bindE (decideAt nx E b) (\<lambda>d'. if pd_voted d' then Inr (Some d') else firstDecision nx E (Some d') bs)"

section \<open>Pages and books\<close>

definition refPage :: "ref_voter \<Rightarrow> tx_types \<Rightarrow> facts \<Rightarrow> (string \<Rightarrow> 'm + page_state list) \<Rightarrow> string \<Rightarrow> string list \<Rightarrow> vote_error + page_vote" where
  "refPage nx T F src page path =
     (let direct = directOf F page path; arrived = arrivedOf F page path in
      if DELEGATION_DEPTH_LIMIT < length path then Inl (DelegationTooDeep page)
      else if direct = [] \<and> arrived = [] then Inr (emptyPageVote page path)
      else bindE (timelineOf src page) (\<lambda>tl.
           bindE (firstDecision nx \<lparr> pe_T = T, pe_facts = F, pe_page = page, pe_path = path, pe_depth = length path, pe_tl = tl,
                                    pe_direct = direct, pe_arrived = arrived \<rparr> None (recordBlocks direct arrived)) (\<lambda>d.
             Inr (case d of Some d' \<Rightarrow> pageVoteOf page path direct arrived d' | None \<Rightarrow> emptyPageVote page path))))"

text \<open>Whether the records of a page before a block decided, and in which block.\<close>

definition refBefore :: "ref_voter \<Rightarrow> tx_types \<Rightarrow> facts \<Rightarrow> (string \<Rightarrow> 'm + page_state list) \<Rightarrow> string \<Rightarrow> string list \<Rightarrow> int \<Rightarrow>
    vote_error + bool \<times> int" where
  "refBefore nx T F src page path b =
     (let direct = filter (\<lambda>s. sg_block s < b) (directOf F page path);
          arrived = filter (\<lambda>a. ar_block a < b) (arrivedOf F page path) in
      if direct = [] \<and> arrived = [] then Inr (False, 0)
      else bindE (timelineOf src page) (\<lambda>tl.
           bindE (firstDecision nx \<lparr> pe_T = T, pe_facts = F, pe_page = page, pe_path = path, pe_depth = length path, pe_tl = tl,
                                    pe_direct = direct, pe_arrived = arrived \<rparr> None (recordBlocks direct arrived)) (\<lambda>d.
             Inr (case d of Some d' \<Rightarrow> if pd_voted d' then (True, pd_through d') else (False, 0) | None \<Rightarrow> (False, 0)))))"

text \<open>No other page of a book may have decided before its recorded vote (a held vote: no lower page before its release).\<close>

definition refOther :: "ref_voter \<Rightarrow> tx_types \<Rightarrow> facts \<Rightarrow> (string \<Rightarrow> 'm + page_state list) \<Rightarrow> book_record \<Rightarrow> int \<Rightarrow> string list \<Rightarrow> string \<Rightarrow>
    vote_error + unit" where
  "refOther nx T F src rec at path p =
     (if fa_holdUntil F \<noteq> 0 \<and> br_releasedAt rec > 0 then
        bindE (refBefore nx T F src p path (br_releasedAt rec)) (\<lambda>(decided, _).
          if decided \<and> pageIndex p < pageIndex (br_origin rec) then Inl (LowerPageDecided p (br_origin rec)) else Inr ())
      else
        bindE (refBefore nx T F src p path at) (\<lambda>(decided, _).
          if decided then Inl (EarlierPageDecided p (br_origin rec)) else Inr ()))"

definition refBookWith :: "ref_voter \<Rightarrow> tx_types \<Rightarrow> facts \<Rightarrow> (string \<Rightarrow> 'm + page_state list) \<Rightarrow> ref_voter" where
  "refBookWith nx T F src bookIn path =
     (let book = canonicalAccSpelling bookIn in
      bindE (recordedBookVote F book path) (\<lambda>r.
      case r of
        None \<Rightarrow>
          bindE (mapE (\<lambda>p. bindE (refPage nx T F src p path) (\<lambda>pv. if pv_voted pv then Inl (UnrecordedVote p book) else Inr pv))
                  (pagesOf F book path)) (\<lambda>pvs.
            Inr (BookVote book False [] [] pvs 0))
      | Some rec \<Rightarrow>
          if bookOfPage (br_origin rec) \<noteq> book then Inl (ForeignOrigin (br_origin rec) book)
          else
            bindE (refPage nx T F src (br_origin rec) path) (\<lambda>pv.
            if \<not> pv_voted pv \<or> pv_voteType pv \<noteq> br_vote rec then Inl (RecordDisagrees (br_origin rec) book)
            else bindE (mapE (refOther nx T F src rec (pv_decidedAt pv) path) (filter (\<lambda>p. p \<noteq> br_origin rec) (pagesOf F book path))) (\<lambda>_.
              Inr (BookVote book True (pv_vote pv) (br_origin rec) [pv] (pv_voteType pv))))))"

fun refBook :: "nat \<Rightarrow> tx_types \<Rightarrow> facts \<Rightarrow> (string \<Rightarrow> 'm + page_state list) \<Rightarrow> ref_voter" where
  "refBook n T F src = refBookWith (if 0 < n then refBook (n - 1) T F src else (\<lambda>_ _. Inl OutOfFuel)) T F src"

declare refBook.simps [simp del]

definition refVoter :: "nat \<Rightarrow> tx_types \<Rightarrow> facts \<Rightarrow> (string \<Rightarrow> 'm + page_state list) \<Rightarrow> ref_voter" where
  "refVoter n T F src = (if 0 < n then refBook (n - 1) T F src else (\<lambda>_ _. Inl OutOfFuel))"

lemma refBook_eq: "refBook n T F src = refBookWith (refVoter n T F src) T F src"
  unfolding refVoter_def by (rule refBook.simps)

section \<open>The authority vote\<close>

text \<open>The first occurrence of each value of \<open>f\<close> that is not among \<open>seen\<close>.\<close>

fun firstOf :: "('a \<Rightarrow> 'b) \<Rightarrow> 'b list \<Rightarrow> 'a list \<Rightarrow> 'a list" where
  "firstOf f seen [] = []"
| "firstOf f seen (x # xs) = (if f x \<in> set seen then firstOf f seen xs else x # firstOf f (f x # seen) xs)"

definition authorityURL :: "account_authority \<times> bool \<Rightarrow> string" where
  "authorityURL ax = canonicalAccSpelling (aa_url (fst ax))"

definition authorityVoteOf :: "account_authority \<times> bool \<Rightarrow> book_vote \<Rightarrow> authority_vote" where
  "authorityVoteOf ax bv = \<lparr> av_authority = authorityURL ax, av_disabled = aa_disabled (fst ax), av_extra = snd ax, av_vote = bv \<rparr>"

definition acceptsVote :: "authority_vote \<Rightarrow> bool" where
  "acceptsVote av \<longleftrightarrow> bv_voted (av_vote av) \<and> bv_voteType (av_vote av) = Accept"

definition refRequire :: "ref_voter \<Rightarrow> string list \<Rightarrow> (account_authority \<times> bool) list \<Rightarrow> vote_error + authority_vote list" where
  "refRequire vote seen as =
     mapE (\<lambda>ax. bindE (vote (authorityURL ax) []) (\<lambda>bv. Inr (authorityVoteOf ax bv))) (firstOf authorityURL seen as)"

definition refEvaluate :: "tx_types \<Rightarrow> facts \<Rightarrow> (string \<Rightarrow> 'm + page_state list) \<Rightarrow> string \<Rightarrow> account_authority list \<Rightarrow>
    string list \<Rightarrow> bool \<Rightarrow> vote_error + account_vote" where
  "refEvaluate T F src account authorities extras ignoreDisabled =
     (if authorities = [] then Inl (NoAuthoritySet (canonicalAccSpelling account))
      else bindE (refRequire (refBook (DELEGATION_DEPTH_LIMIT + 1) T F src) [] (requiredAuthorities authorities extras ignoreDisabled)) (\<lambda>avs.
        if avs = [] then Inl (AllAuthoritiesDisabled (canonicalAccSpelling account))
        else Inr \<lparr> ac_account = canonicalAccSpelling account, ac_authorities = avs, ac_satisfied = list_all acceptsVote avs \<rparr>))"

section \<open>Names\<close>

text \<open>A name in the spelling the model compares, without the two characters its memo keys are built with.\<close>

definition plainName :: "string \<Rightarrow> bool" where
  "plainName s = (s \<noteq> [] \<and> list_all (\<lambda>c. c \<noteq> CHR ''|'' \<and> c \<noteq> CHR '','') s \<and> canonicalAccSpelling s = s)"

definition wfFacts :: "facts \<Rightarrow> bool" where
  "wfFacts F =
     (distinct (map sg_id (fa_sigs F) @ map ar_id (fa_arrivals F)) \<and>
      list_all (\<lambda>s. plainName (sg_signer s)) (fa_sigs F) \<and>
      list_all (\<lambda>a. plainName (ar_page a) \<and> plainName (canonicalAccSpelling (ar_authority a)) \<and>
        (ar_origin a \<noteq> [] \<longrightarrow> plainName (canonicalAccSpelling (ar_origin a)))) (fa_arrivals F) \<and>
      list_all (\<lambda>v. plainName (canonicalAccSpelling (rv_origin v))) (fa_votes F))"

lemma cut_at:
  "list_all (\<lambda>c. c \<noteq> d) x \<Longrightarrow> list_all (\<lambda>c. c \<noteq> d) y \<Longrightarrow> x @ d # r = y @ d # s \<longleftrightarrow> x = y \<and> r = s"
proof (induction x arbitrary: y)
  case Nil
  then show ?case by (cases y) auto
next
  case (Cons c x)
  then show ?case by (cases y) auto
qed

lemma splitOn_joinWith: "xs \<noteq> [] \<Longrightarrow> list_all (list_all (\<lambda>c. c \<noteq> d)) xs \<Longrightarrow> splitOn d (joinWith [d] xs) = xs"
proof (induction xs)
  case (Cons x xs)
  have x: "d \<notin> set x" using Cons.prems(2) by (auto simp: list_all_iff)
  show ?case
  proof (cases "xs = []")
    case True
    then show ?thesis using splitOn_no [OF x] by (simp add: joinWith_def)
  next
    case False
    then show ?thesis using Cons splitOn_append [OF x] by (simp add: joinWith_Cons)
  qed
qed simp

lemma plain_no [simp]: "plainName s \<Longrightarrow> list_all (\<lambda>c. c \<noteq> CHR ''|'') s" "plainName s \<Longrightarrow> list_all (\<lambda>c. c \<noteq> CHR '','') s"
  by (auto simp: plainName_def list_all_iff)

lemma plain_canon [simp]: "plainName s \<Longrightarrow> canonicalAccSpelling s = s"
  by (simp add: plainName_def)

lemma joinWith_comma_inj:
  assumes "list_all plainName p" "list_all plainName q"
  shows "joinWith '','' p = joinWith '','' q \<longleftrightarrow> p = q"
proof -
  have free: "list_all (list_all (\<lambda>c. c \<noteq> CHR '','')) p" "list_all (list_all (\<lambda>c. c \<noteq> CHR '','')) q"
    using assms by (auto simp: list_all_iff plainName_def)
  have empty: "joinWith '','' r = [] \<longleftrightarrow> r = []" if "list_all plainName r" for r
    using that by (cases r) (auto simp: joinWith_def plainName_def)
  show ?thesis
  proof (cases "p = [] \<or> q = []")
    case True
    then show ?thesis using empty [OF assms(1)] empty [OF assms(2)] by (metis joinWith_def list.simps(4))
  next
    case False
    then show ?thesis using splitOn_joinWith [OF _ free(1)] splitOn_joinWith [OF _ free(2)] by metis
  qed
qed

lemma voteKey_inj:
  assumes "plainName x" "plainName y" "list_all plainName p" "list_all plainName q"
  shows "voteKey x p = voteKey y q \<longleftrightarrow> x = y \<and> p = q"
  using cut_at [of "CHR ''|''" x y] joinWith_comma_inj assms unfolding voteKey_def by simp

lemma decInt_no_bar: "list_all (\<lambda>c. c \<noteq> CHR ''|'') (decInt v)"
proof -
  have "list_all (\<lambda>c. c \<noteq> CHR ''|'') (decNat n)" for n
    using decNat_digits [of n] by (auto simp: list_all_iff isDigit_def)
  then show ?thesis by (simp add: decInt_def)
qed

lemma memoKey_inj: "memoKey i v = memoKey j w \<longleftrightarrow> i = j \<and> v = w"
proof -
  have "rev (memoKey i v) = rev (decInt v) @ CHR ''|'' # rev i" for i v by (simp add: memoKey_def)
  then have "memoKey i v = memoKey j w \<longleftrightarrow> rev (decInt v) @ CHR ''|'' # rev i = rev (decInt w) @ CHR ''|'' # rev j" by (metis rev_is_rev_conv)
  also have "\<dots> \<longleftrightarrow> rev (decInt v) = rev (decInt w) \<and> rev i = rev j"
    using decInt_no_bar by (intro cut_at) (simp_all add: list_all_iff)
  finally show ?thesis by (auto simp: decInt_inj)
qed

lemma fact_ids:
  assumes "wfFacts F"
  shows "\<And>s t. s \<in> set (fa_sigs F) \<Longrightarrow> t \<in> set (fa_sigs F) \<Longrightarrow> sg_id s = sg_id t \<Longrightarrow> s = t"
    and "\<And>a b. a \<in> set (fa_arrivals F) \<Longrightarrow> b \<in> set (fa_arrivals F) \<Longrightarrow> ar_id a = ar_id b \<Longrightarrow> a = b"
    and "\<And>s a. s \<in> set (fa_sigs F) \<Longrightarrow> a \<in> set (fa_arrivals F) \<Longrightarrow> sg_id s \<noteq> ar_id a"
  using assms unfolding wfFacts_def by (auto simp: distinct_map inj_on_def)


section \<open>Runs with a state\<close>

text \<open>A run with a state answers what a result says - the same error, or the same value in a state that is as \<open>P\<close> says.\<close>

definition sim :: "('s \<Rightarrow> bool) \<Rightarrow> 'e + 'a \<Rightarrow> 'e + 'a \<times> 's \<Rightarrow> bool" where
  "sim P r m = (case m of Inl e \<Rightarrow> r = Inl e | Inr (x, s) \<Rightarrow> r = Inr x \<and> P s)"

lemma sim_simps [simp]: "sim P r (Inl e) \<longleftrightarrow> r = Inl e" "sim P r (Inr (x, s)) \<longleftrightarrow> r = Inr x \<and> P s"
  by (simp_all add: sim_def)

lemma sim_bind: "sim Q r m \<Longrightarrow> (\<And>x s. r = Inr x \<Longrightarrow> Q s \<Longrightarrow> sim P (g x) (f (x, s))) \<Longrightarrow> sim P (bindE r g) (bindE m f)"
  by (cases m; cases "projr m") simp_all

lemma sim_pure: "(\<And>x. r = Inr x \<Longrightarrow> sim P (g x) (f x)) \<Longrightarrow> sim P (bindE r g) (bindE r f)"
  by (cases r) auto

lemma sim_last: "P s \<Longrightarrow> sim P m (bindE m (\<lambda>x. Inr (x, s)))"
  by (cases m) simp_all

lemma sim_if: "(c \<Longrightarrow> sim P r m) \<Longrightarrow> (\<not> c \<Longrightarrow> sim P s n) \<Longrightarrow> sim P (if c then r else s) (if c then m else n)"
  by simp

lemma bindE_bind: "bindE (bindE m f) g = bindE m (\<lambda>x. bindE (f x) g)"
  by (cases m) simp_all

section \<open>The memos of a page\<close>

text \<open>A memo of a page's evaluation holds what the facts give.\<close>

definition okHeld :: "page_eval \<Rightarrow> held \<Rightarrow> bool" where
  "okHeld E h =
     (\<forall>v r. (\<forall>s \<in> set (fa_sigs (pe_facts E)). h (memoKey (sg_id s) v) = Some r \<longrightarrow> keyStanding E v s = Inr r) \<and>
            (\<forall>a \<in> set (fa_arrivals (pe_facts E)). h (memoKey (ar_id a) v) = Some r \<longrightarrow> delegateStanding E v a = Inr r))"

lemma okHeld_empty [simp]: "okHeld E Map.empty"
  by (simp add: okHeld_def)

lemma okHeld_sig:
  assumes "wfFacts (pe_facts E)" "okHeld E h" "s \<in> set (fa_sigs (pe_facts E))" "keyStanding E v s = Inr r"
  shows "okHeld E (h(memoKey (sg_id s) v \<mapsto> r))"
  using assms(2,4) fact_ids(1) [OF assms(1,3)] fact_ids(3) [OF assms(1,3)]
  unfolding okHeld_def by (auto simp: memoKey_inj split: if_splits) metis+

lemma okHeld_arrival:
  assumes "wfFacts (pe_facts E)" "okHeld E h" "a \<in> set (fa_arrivals (pe_facts E))" "delegateStanding E v a = Inr r"
  shows "okHeld E (h(memoKey (ar_id a) v \<mapsto> r))"
  using assms(2,4) fact_ids(2) [OF assms(1,3)] fact_ids(3) [OF assms(1) _ assms(3)]
  unfolding okHeld_def by (auto simp: memoKey_inj split: if_splits) metis+

lemma keyHolding_sim:
  assumes "wfFacts (pe_facts E)" "okHeld E h" "s \<in> set (fa_sigs (pe_facts E))"
  shows "sim (okHeld E) (keyStanding E v s) (keyHolding E s v h)"
proof (cases "h (memoKey (sg_id s) v)")
  case (Some r)
  then show ?thesis using assms(2,3) by (cases r) (simp add: keyHolding_def okHeld_def)
next
  case None
  show ?thesis
    using okHeld_sig [OF assms] unfolding keyHolding_def keyStanding_def None Let_def by (auto split: option.splits)
qed

lemma delegateHolding_sim:
  assumes "wfFacts (pe_facts E)" "okHeld E h" "a \<in> set (fa_arrivals (pe_facts E))"
  shows "sim (okHeld E) (delegateStanding E v a) (delegateHolding E a v h)"
proof (cases "h (memoKey (ar_id a) v)")
  case (Some r)
  then show ?thesis using assms(2,3) by (cases r) (simp add: delegateHolding_def okHeld_def)
next
  case None
  show ?thesis
    using okHeld_arrival [OF assms] unfolding delegateHolding_def delegateStanding_def None Let_def by (auto split: option.splits)
qed

lemma directVotes_Nil: "directVotes E v [] = Inr ([], [])"
  by (simp add: directVotes_def)

lemma directVotes_Cons:
  "directVotes E v (s # ss) =
     (if sg_version s < v then bindE (directVotes E v ss) (\<lambda>(cs, ex). Inr (cs, (sg_id s, Superseded (sg_version s) v) # ex))
      else bindE (keyVote E v s) (\<lambda>c. bindE (directVotes E v ss) (\<lambda>(cs, ex). Inr (c # cs, ex))))"
  by (simp add: directVotes_def bindE_bind)

lemma directContribs_sim:
  assumes "wfFacts (pe_facts E)"
  shows "set ss \<subseteq> set (fa_sigs (pe_facts E)) \<Longrightarrow> okHeld E h \<Longrightarrow> sim (okHeld E) (directVotes E v ss) (directContribs E v ss h)"
proof (induction ss arbitrary: h)
  case (Cons s ss)
  have s: "s \<in> set (fa_sigs (pe_facts E))" and ss: "set ss \<subseteq> set (fa_sigs (pe_facts E))" using Cons.prems(1) by simp_all
  show ?case
  proof (cases "sg_version s < v")
    case True
    show ?thesis unfolding directVotes_Cons directContribs.simps if_P [OF True]
      by (rule sim_bind [OF Cons.IH [OF ss Cons.prems(2)]]) auto
  next
    case False
    show ?thesis unfolding directVotes_Cons directContribs.simps if_not_P [OF False] keyVote_def bindE_bind
      by (rule sim_bind [OF keyHolding_sim [OF assms Cons.prems(2) s]])
        (auto intro!: sim_bind [OF Cons.IH [OF ss]])
  qed
qed (simp add: directVotes_Nil)

section \<open>The memos of the model\<close>

definition okState :: "tx_types \<Rightarrow> facts \<Rightarrow> (string \<Rightarrow> 'm + page_state list) \<Rightarrow> vote_state \<Rightarrow> bool" where
  "okState T F src st =
     ((\<forall>page path pv. plainName page \<longrightarrow> list_all plainName path \<longrightarrow> vs_pages st (voteKey page path) = Some pv \<longrightarrow>
         refPage (refVoter (DELEGATION_DEPTH_LIMIT + 1 - length path) T F src) T F src page path = Inr pv) \<and>
      (\<forall>book path bv. plainName book \<longrightarrow> list_all plainName path \<longrightarrow> vs_books st (voteKey book path) = Some bv \<longrightarrow>
         refBook (DELEGATION_DEPTH_LIMIT + 1 - length path) T F src book path = Inr bv))"

lemma okState_empty [simp]: "okState T F src \<lparr> vs_pages = Map.empty, vs_books = Map.empty \<rparr>"
  by (simp add: okState_def)

lemma okState_storePage:
  assumes "okState T F src st" "plainName page" "list_all plainName path"
    and "refPage (refVoter (DELEGATION_DEPTH_LIMIT + 1 - length path) T F src) T F src page path = Inr pv"
  shows "okState T F src (storePage (voteKey page path) pv st)"
  using assms unfolding okState_def storePage_def by (auto simp: voteKey_inj)

lemma okState_storeBook:
  assumes "okState T F src st" "plainName book" "list_all plainName path"
    and "refBook (DELEGATION_DEPTH_LIMIT + 1 - length path) T F src book path = Inr bv"
  shows "okState T F src (storeBook (voteKey book path) bv st)"
  using assms unfolding okState_def storeBook_def by (auto simp: voteKey_inj)

text \<open>The book votes a page at depth \<open>d - 1\<close> asks for, in the model and in the reference.\<close>

definition agree :: "tx_types \<Rightarrow> facts \<Rightarrow> (string \<Rightarrow> 'm + page_state list) \<Rightarrow> nat \<Rightarrow> ref_voter \<Rightarrow> book_voter \<Rightarrow> bool" where
  "agree T F src d nxr nx =
     (\<forall>book path st. plainName (canonicalAccSpelling book) \<longrightarrow> list_all plainName path \<longrightarrow> length path = d \<longrightarrow> okState T F src st \<longrightarrow>
        sim (okState T F src) (nxr book path) (nx book path d st))"

lemma agreeD:
  "agree T F src d nxr nx \<Longrightarrow> plainName (canonicalAccSpelling book) \<Longrightarrow> list_all plainName path \<Longrightarrow> length path = d \<Longrightarrow> okState T F src st \<Longrightarrow>
     sim (okState T F src) (nxr book path) (nx book path d st)"
  by (simp add: agree_def)

text \<open>An evaluation of one page of the model.\<close>

definition okEval :: "tx_types \<Rightarrow> facts \<Rightarrow> (string \<Rightarrow> 'm + page_state list) \<Rightarrow> page_eval \<Rightarrow> bool" where
  "okEval T F src E =
     (pe_T E = T \<and> pe_facts E = F \<and> plainName (pe_page E) \<and> list_all plainName (pe_path E) \<and> length (pe_path E) = pe_depth E \<and>
      set (pe_direct E) \<subseteq> set (fa_sigs F) \<and> set (pe_arrived E) \<subseteq> set (fa_arrivals F))"

lemma arrival_plain: "wfFacts F \<Longrightarrow> a \<in> set (fa_arrivals F) \<Longrightarrow> plainName (canonicalAccSpelling (ar_authority a))"
  by (auto simp: wfFacts_def list_all_iff)

lemma arrivedVotes_Nil: "arrivedVotes nx E v [] = Inr ([], [], [])"
  by (simp add: arrivedVotes_def)

lemma arrivedVotes_Cons:
  "arrivedVotes nx E v ((a, vs) # as) =
     (if v \<notin> set vs then bindE (arrivedVotes nx E v as) (\<lambda>(cs, ex, ds). Inr (cs, (ar_id a, OtherVersion v) # ex, ds))
      else bindE (delegateVote nx E v a) (\<lambda>(c, dv). bindE (arrivedVotes nx E v as) (\<lambda>(cs, ex, ds). Inr (c # cs, ex, dv # ds))))"
  by (cases "delegateVote nx E v a") (simp_all add: arrivedVotes_def bindE_bind split_beta)

lemma arrivedContribs_sim:
  assumes wf: "wfFacts F" and E: "okEval T F src E" and nx: "agree T F src (pe_depth E + 1) nxr nx"
  shows "fst ` set as \<subseteq> set (fa_arrivals F) \<Longrightarrow> okHeld E h \<Longrightarrow> okState T F src st \<Longrightarrow>
    sim (\<lambda>(h', st'). okHeld E h' \<and> okState T F src st') (arrivedVotes nxr E v as) (arrivedContribs nx E v as h st)"
proof (induction as arbitrary: h st)
  case (Cons avs as)
  obtain a vs where avs: "avs = (a, vs)" by force
  have a: "a \<in> set (fa_arrivals F)" and as: "fst ` set as \<subseteq> set (fa_arrivals F)" using Cons.prems(1) avs by simp_all
  have F: "pe_facts E = F" and path: "list_all plainName (pe_path E @ [pe_page E])" "length (pe_path E @ [pe_page E]) = pe_depth E + 1"
    using E by (simp_all add: okEval_def)
  show ?case
  proof (cases "v \<in> set vs")
    case False
    then show ?thesis unfolding avs arrivedVotes_Cons arrivedContribs.simps
      using sim_bind [OF Cons.IH [OF as Cons.prems(2,3)]] by (auto intro!: sim_bind [OF Cons.IH [OF as Cons.prems(2,3)]])
  next
    case True
    have standing: "sim (okHeld E) (delegateStanding E v a) (delegateHolding E a v h)"
      by (rule delegateHolding_sim) (use wf F Cons.prems(2) a in simp_all)
    have asked: "okState T F src st' \<Longrightarrow>
        sim (okState T F src) (nxr (ar_authority a) (pe_path E @ [pe_page E])) (nx (ar_authority a) (pe_path E @ [pe_page E]) (pe_depth E + 1) st')" for st'
      by (rule agreeD [OF nx arrival_plain [OF wf a] path])
    show ?thesis unfolding avs arrivedVotes_Cons arrivedContribs.simps delegateVote_def bindE_bind
      using True Cons.prems(3)
      by (auto simp: bindE_bind intro!: sim_bind [OF standing] sim_bind [OF asked [simplified]] sim_bind [OF Cons.IH [OF as]])
  qed
qed (simp add: arrivedVotes_Nil)

lemma maxVersion_append: "maxVersion v (xs @ ys) = maxVersion (maxVersion v xs) ys"
  by (induction v xs rule: maxVersion.induct) simp_all

lemma arrivalVersions_eq:
  "arrivalVersions E noDirect v as =
     bindE (mapE (arrivedAt E) as) (\<lambda>vss. Inr (if noDirect then maxVersion v (concat vss) else v, vss))"
  by (induction as arbitrary: v) (simp_all add: arrivedAt_def Let_def bindE_bind maxVersion_append)

lemma decideThrough_sim:
  assumes wf: "wfFacts F" and E: "okEval T F src E" and nx: "agree T F src (pe_depth E + 1) nxr nx"
    and st: "okHeld E h" "okState T F src st"
  shows "sim (\<lambda>(h', st'). okHeld E h' \<and> okState T F src st') (decideAt nxr E b) (decideThrough nx E b h st)"
proof -
  let ?direct = "filter (\<lambda>s. sg_block s \<le> b) (pe_direct E)" and ?arrived = "filter (\<lambda>a. ar_block a \<le> b) (pe_arrived E)"
  have F: "pe_facts E = F" and direct: "set ?direct \<subseteq> set (fa_sigs (pe_facts E))" and arrived: "set ?arrived \<subseteq> set (fa_arrivals F)"
    using E by (auto simp: okEval_def)
  have dc: "okHeld E h \<Longrightarrow> sim (okHeld E) (directVotes E v ?direct) (directContribs E v ?direct h)" for v h
    by (rule directContribs_sim [OF _ direct]) (simp_all add: F wf)
  have ac: "okHeld E h \<Longrightarrow> okState T F src st \<Longrightarrow>
      sim (\<lambda>(h', st'). okHeld E h' \<and> okState T F src st') (arrivedVotes nxr E v (zip ?arrived vss)) (arrivedContribs nx E v (zip ?arrived vss) h st)" for v vss h st
    by (rule arrivedContribs_sim [OF wf E nx]) (use arrived set_zip_leftD in fastforce)
  have v: "(if ?direct = [] then maxVersion (maxVersion 0 (map sg_version ?direct)) (concat vss) else maxVersion 0 (map sg_version ?direct)) = standsAt ?direct vss" for vss
    by (simp add: standsAt_def)
  show ?thesis unfolding decideThrough_def decideAt_def Let_def arrivalVersions_eq bindE_bind
  proof (rule sim_pure)
    fix vss
    show "sim (\<lambda>(h', st'). okHeld E h' \<and> okState T F src st')
        (case ofVersion (pe_tl E) (standsAt ?direct vss) of None \<Rightarrow> Inl (VersionNotReached (pe_page E) (standsAt ?direct vss))
         | Some state \<Rightarrow> bindE (directVotes E (standsAt ?direct vss) ?direct) (\<lambda>(cs1, ex1).
             bindE (arrivedVotes nxr E (standsAt ?direct vss) (zip ?arrived vss)) (\<lambda>(cs2, ex2, ds).
             bindE (sameBlockConflict (pe_page E) (cs1 @ cs2)) (\<lambda>_. decision E b (standsAt ?direct vss) state (cs1 @ cs2) (ex1 @ ex2) ds))))
        (bindE (Inr (if ?direct = [] then maxVersion (maxVersion 0 (map sg_version ?direct)) (concat vss) else maxVersion 0 (map sg_version ?direct), vss))
          (\<lambda>(v, vss). case ofVersion (pe_tl E) v of None \<Rightarrow> Inl (VersionNotReached (pe_page E) v)
           | Some state \<Rightarrow> bindE (directContribs E v ?direct h) (\<lambda>((cs1, ex1), h1).
               bindE (arrivedContribs nx E v (zip ?arrived vss) h1 st) (\<lambda>((cs2, ex2, ds), h2, st2).
               bindE (sameBlockConflict (pe_page E) (cs1 @ cs2)) (\<lambda>_. bindE (decision E b v state (cs1 @ cs2) (ex1 @ ex2) ds) (\<lambda>d. Inr (d, h2, st2)))))))"
      unfolding v
      by (auto split: option.split intro!: sim_bind [OF dc [OF st(1)]] sim_bind [OF ac] sim_pure sim_last st(2))
  qed
qed

text \<open>The same for a walk over blocks.\<close>

lemma decideWalk_sim:
  assumes wf: "wfFacts F" and E: "okEval T F src E" and nx: "agree T F src (pe_depth E + 1) nxr nx"
  shows "okHeld E h \<Longrightarrow> okState T F src st \<Longrightarrow> sim (okState T F src) (firstDecision nxr E d bs) (decideWalk nx E d bs h st)"
proof (induction bs arbitrary: d h st)
  case (Cons b bs)
  show ?case unfolding decideWalk.simps firstDecision.simps
    by (rule sim_bind [OF decideThrough_sim [OF wf E nx Cons.prems]]) (auto intro: Cons.IH)
qed simp

section \<open>Pages and books of the model\<close>

lemma okEval_intro:
  assumes "plainName page" "list_all plainName path"
    and "set direct \<subseteq> set (directOf F page path)" "set arrived \<subseteq> set (arrivedOf F page path)"
  shows "okEval T F src \<lparr> pe_T = T, pe_facts = F, pe_page = page, pe_path = path, pe_depth = length path, pe_tl = ts, pe_direct = direct, pe_arrived = arrived \<rparr>"
  using assms by (auto simp: okEval_def directOf_def arrivedOf_def)

lemma walk_sim:
  assumes wf: "wfFacts F" and names: "plainName page" "list_all plainName path"
    and facts: "set direct \<subseteq> set (directOf F page path)" "set arrived \<subseteq> set (arrivedOf F page path)"
    and nx: "agree T F src (length path + 1) nxr nx" and st: "okState T F src st"
  shows "sim (okState T F src)
    (firstDecision nxr \<lparr> pe_T = T, pe_facts = F, pe_page = page, pe_path = path, pe_depth = length path, pe_tl = ts, pe_direct = direct, pe_arrived = arrived \<rparr> None bs)
    (decideWalk nx \<lparr> pe_T = T, pe_facts = F, pe_page = page, pe_path = path, pe_depth = length path, pe_tl = ts, pe_direct = direct, pe_arrived = arrived \<rparr> None bs
      Map.empty st)"
  by (rule decideWalk_sim [OF wf okEval_intro [OF names facts]]) (simp_all add: nx [simplified] st)

lemma pageDecidedBefore_sim:
  assumes wf: "wfFacts F" and names: "plainName page" "list_all plainName path"
    and nx: "agree T F src (length path + 1) nxr nx" and st: "okState T F src st"
  shows "sim (okState T F src) (refBefore nxr T F src page path b) (pageDecidedBefore nx T F src page path (length path) b st)"
  unfolding pageDecidedBefore_def refBefore_def Let_def
proof (rule sim_if, simp add: st, rule sim_pure, rule sim_bind [OF walk_sim [OF wf names _ _ nx st]])
  fix d st' assume "okState T F src st'"
  then show "sim (okState T F src) (Inr (case d of Some d' \<Rightarrow> if pd_voted d' then (True, pd_through d') else (False, 0) | None \<Rightarrow> (False, 0)))
    (case (d, st') of (d, st') \<Rightarrow> case d of Some d' \<Rightarrow> if pd_voted d' then Inr ((True, pd_through d'), st') else Inr ((False, 0), st')
       | None \<Rightarrow> Inr ((False, 0), st'))"
    by (simp split: option.split)
qed auto

lemma pageVote_sim:
  assumes wf: "wfFacts F" and names: "plainName page" "list_all plainName path"
    and nx: "agree T F src (length path + 1) nxr nx" and r: "nxr = refVoter (DELEGATION_DEPTH_LIMIT + 1 - length path) T F src" and st: "okState T F src st"
  shows "sim (okState T F src) (refPage nxr T F src page path) (pageVote nx T F src page path (length path) st)"
proof (cases "vs_pages st (voteKey page path)")
  case (Some hit)
  then have "refPage nxr T F src page path = Inr hit" using st names unfolding okState_def r by blast
  then show ?thesis using Some st names by (simp add: pageVote_def Let_def)
next
  case None
  let ?direct = "directOf F page path" and ?arrived = "arrivedOf F page path"
  let ?E = "\<lambda>ts. \<lparr> pe_T = T, pe_facts = F, pe_page = page, pe_path = path, pe_depth = length path, pe_tl = ts, pe_direct = ?direct, pe_arrived = ?arrived \<rparr>"
  note store = okState_storePage [where T = T and F = F and src = src, OF _ names, folded r]
  have body: "refPage nxr T F src page path = r' \<Longrightarrow> sim (okState T F src) r' m \<Longrightarrow>
      sim (okState T F src) r' (bindE m (\<lambda>(pv, st'). Inr (pv, storePage (voteKey page path) pv st')))" for r' m
    by (cases m; cases "projr m") (auto intro: store)
  have code: "pageVote nx T F src page path (length path) st =
      bindE (if DELEGATION_DEPTH_LIMIT < length path then Inl (DelegationTooDeep page)
             else if ?direct = [] \<and> ?arrived = [] then Inr (emptyPageVote page path, st)
             else bindE (timelineOf src page) (\<lambda>ts. bindE (decideWalk nx (?E ts) None (recordBlocks ?direct ?arrived) Map.empty st) (\<lambda>(d, st').
               Inr (case d of Some d' \<Rightarrow> pageVoteOf page path ?direct ?arrived d' | None \<Rightarrow> emptyPageVote page path, st'))))
        (\<lambda>(pv, st'). Inr (pv, storePage (voteKey page path) pv st'))"
    by (simp add: pageVote_def Let_def plain_canon [OF names(1)] None bindE_bind case_prod_unfold)
  show ?thesis unfolding code
  proof (rule body [OF refl], unfold refPage_def Let_def, intro sim_if)
    show "sim (okState T F src)
      (bindE (timelineOf src page) (\<lambda>ts. bindE (firstDecision nxr (?E ts) None (recordBlocks ?direct ?arrived))
        (\<lambda>d. Inr (case d of Some d' \<Rightarrow> pageVoteOf page path ?direct ?arrived d' | None \<Rightarrow> emptyPageVote page path))))
      (bindE (timelineOf src page) (\<lambda>ts. bindE (decideWalk nx (?E ts) None (recordBlocks ?direct ?arrived) Map.empty st) (\<lambda>(d, st').
         Inr (case d of Some d' \<Rightarrow> pageVoteOf page path ?direct ?arrived d' | None \<Rightarrow> emptyPageVote page path, st'))))"
      by (rule sim_pure, rule sim_bind [OF walk_sim [OF wf names subset_refl subset_refl nx st]]) simp
  qed (simp_all add: st)
qed

lemma pagesOf_plain: "wfFacts F \<Longrightarrow> p \<in> set (pagesOf F book path) \<Longrightarrow> plainName p"
  by (auto simp: pagesOf_def firstOnly_def wfFacts_def list_all_iff)

lemma unrecordedPages_sim:
  assumes wf: "wfFacts F" and path: "list_all plainName path"
    and nx: "agree T F src (length path + 1) nxr nx" and r: "nxr = refVoter (DELEGATION_DEPTH_LIMIT + 1 - length path) T F src"
  shows "list_all plainName ps \<Longrightarrow> okState T F src st \<Longrightarrow>
    sim (okState T F src)
      (mapE (\<lambda>p. bindE (refPage nxr T F src p path) (\<lambda>pv. if pv_voted pv then Inl (UnrecordedVote p book) else Inr pv)) ps)
      (unrecordedPages nx T F src book path (length path) ps st)"
proof (induction ps arbitrary: st)
  case (Cons p ps)
  have p: "plainName p" and ps: "list_all plainName ps" using Cons.prems(1) by simp_all
  show ?case unfolding unrecordedPages.simps mapE.simps bindE_bind
    by (rule sim_bind [OF pageVote_sim [OF wf p path nx r Cons.prems(2)]]) (auto intro!: sim_bind [OF Cons.IH [OF ps]])
qed simp

text \<open>The other pages of a book have no answer but that they are fine.\<close>

lemma otherPages_sim:
  assumes wf: "wfFacts F" and path: "list_all plainName path" and nx: "agree T F src (length path + 1) nxr nx"
  shows "list_all plainName ps \<Longrightarrow> okState T F src st \<Longrightarrow>
    sim (okState T F src) (bindE (mapE (refOther nxr T F src rec at path) (filter (\<lambda>p. p \<noteq> br_origin rec) ps)) (\<lambda>_. Inr ()))
      (bindE (otherPages nx T F src rec at path (length path) ps st) (\<lambda>st'. Inr ((), st')))"
proof (induction ps arbitrary: st)
  case (Cons p ps)
  have p: "plainName p" and ps: "list_all plainName ps" using Cons.prems(1) by simp_all
  note before = sim_bind [OF pageDecidedBefore_sim [OF wf p path nx Cons.prems(2)]] and ih = Cons.IH [OF ps]
  show ?case
  proof (cases "p = br_origin rec")
    case False
    have rest: "okState T F src st' \<Longrightarrow> sim (okState T F src)
        (bindE (if c then Inl e else Inr ()) (\<lambda>_. bindE (mapE (refOther nxr T F src rec at path) (filter (\<lambda>p. p \<noteq> br_origin rec) ps)) (\<lambda>_. Inr ())))
        (bindE (if c then Inl e else otherPages nx T F src rec at path (length path) ps st') (\<lambda>st'. Inr ((), st')))" for c e st'
      using ih by simp
    show ?thesis
      using False by (simp add: refOther_def [of nxr T F src rec "at" path p] bindE_bind split_beta) (intro conjI impI before; use rest in \<open>simp add: split_beta\<close>)
  qed (simp add: ih Cons.prems(2))
qed simp

lemma arrivalRecords_origin:
  "arrivalRecords book at beyond as = Inr rs \<Longrightarrow> r \<in> set rs \<Longrightarrow> \<exists>a \<in> set as. ar_origin a \<noteq> [] \<and> br_origin r = canonicalAccSpelling (ar_origin a)"
  by (induction as arbitrary: rs) (auto simp: results split: if_splits)

lemma recordedBookVote_Some:
  assumes "recordedBookVote F book path = Inr (Some rec)"
  obtains recs where "rec \<in> set recs"
    "(if path = [] then Inr (voteRecords book (fa_votes F)) else arrivalRecords book (last path) (butlast path) (fa_arrivals F)) = Inr recs"
proof -
  obtain recs where recs: "(if path = [] then Inr (voteRecords book (fa_votes F)) else arrivalRecords book (last path) (butlast path) (fa_arrivals F)) = Inr recs"
    "(case recs of [] \<Rightarrow> Inr None
      | r # rs \<Rightarrow> if list_all (\<lambda>q. br_origin q = br_origin r \<and> br_vote q = br_vote r) rs then Inr (Some r) else Inl (SeveralRecords book)) = Inr (Some rec)"
    using assms unfolding recordedBookVote_def bindE_Inr_iff by blast
  have "rec \<in> set recs" using recs(2) by (cases recs) (auto split: if_splits)
  then show thesis by (rule that [OF _ recs(1)])
qed

lemma recordedBookVote_plain:
  assumes "wfFacts F" and "recordedBookVote F book path = Inr (Some rec)"
  shows "plainName (br_origin rec)"
proof -
  obtain recs where recs: "rec \<in> set recs"
    "(if path = [] then Inr (voteRecords book (fa_votes F)) else arrivalRecords book (last path) (butlast path) (fa_arrivals F)) = Inr recs"
    by (rule recordedBookVote_Some [OF assms(2)])
  show ?thesis
  proof (cases "path = []")
    case True
    then show ?thesis using recs assms(1) by (auto simp: voteRecords_def wfFacts_def list_all_iff)
  next
    case False
    then show ?thesis using recs arrivalRecords_origin assms(1) by (fastforce simp: wfFacts_def list_all_iff)
  qed
qed

lemma bookVoteWith_agree:
  assumes wf: "wfFacts F" and nx: "agree T F src (d + 1) nxr nx" and r: "nxr = refVoter (DELEGATION_DEPTH_LIMIT + 1 - d) T F src"
  shows "agree T F src d (refBookWith nxr T F src) (bookVoteWith nx T F src)"
  unfolding agree_def
proof (intro allI impI)
  fix bookIn path st
  assume book: "plainName (canonicalAccSpelling bookIn)" and path: "list_all plainName path" and d: "length path = d" and st: "okState T F src st"
  let ?book = "canonicalAccSpelling bookIn" and ?ref = "refBookWith nxr T F src bookIn path"
  note nx = nx [folded d] and r = r [folded d]
  have pages: "list_all plainName (pagesOf F ?book path)" using pagesOf_plain [OF wf] by (auto simp: list_all_iff)
  have ref: "refBook (DELEGATION_DEPTH_LIMIT + 1 - length path) T F src ?book path = ?ref"
    unfolding refBook_eq r [symmetric] by (simp add: refBookWith_def plain_canon [OF book])
  show "sim (okState T F src) ?ref (bookVoteWith nx T F src bookIn path d st)"
  proof (cases "vs_books st (voteKey ?book path)")
    case (Some hit)
    then have "refBook (DELEGATION_DEPTH_LIMIT + 1 - length path) T F src ?book path = Inr hit" using st book path unfolding okState_def by blast
    then show ?thesis unfolding ref using Some st by (simp add: bookVoteWith_def Let_def)
  next
    case None
    have body: "?ref = r' \<Longrightarrow> sim (okState T F src) r' m \<Longrightarrow>
        sim (okState T F src) r' (bindE m (\<lambda>(bv, st'). Inr (bv, storeBook (voteKey ?book path) bv st')))" for r' m
      using okState_storeBook [where T = T and F = F and src = src, OF _ book path, unfolded ref] by (cases m; cases "projr m") auto
    have code: "bookVoteWith nx T F src bookIn path d st =
        bindE (bindE (recordedBookVote F ?book path) (\<lambda>r. case r of
            None \<Rightarrow> bindE (unrecordedPages nx T F src ?book path d (pagesOf F ?book path) st) (\<lambda>(pvs, st1). Inr (BookVote ?book False [] [] pvs 0, st1))
          | Some rec \<Rightarrow>
              if bookOfPage (br_origin rec) \<noteq> ?book then Inl (ForeignOrigin (br_origin rec) ?book)
              else bindE (pageVote nx T F src (br_origin rec) path d st) (\<lambda>(pv, st1).
                if \<not> pv_voted pv \<or> pv_voteType pv \<noteq> br_vote rec then Inl (RecordDisagrees (br_origin rec) ?book)
                else bindE (bindE (otherPages nx T F src rec (pv_decidedAt pv) path d (pagesOf F ?book path) st1) (\<lambda>st2. Inr ((), st2))) (\<lambda>(_, st2).
                  Inr (BookVote ?book True (pv_vote pv) (br_origin rec) [pv] (pv_voteType pv), st2)))))
          (\<lambda>(bv, st'). Inr (bv, storeBook (voteKey ?book path) bv st'))"
      unfolding bookVoteWith_def Let_def None option.case bindE_bind
      by (intro bindE_cong refl) (auto simp: bindE_bind case_prod_unfold split: option.split intro!: bindE_cong)
    have other: "okState T F src st1 \<Longrightarrow>
        sim (okState T F src) (bindE (mapE (refOther nxr T F src rec at path) (filter (\<lambda>p. p \<noteq> br_origin rec) (pagesOf F ?book path))) (\<lambda>_. Inr bv))
          (bindE (bindE (otherPages nx T F src rec at path (length path) (pagesOf F ?book path) st1) (\<lambda>st2. Inr ((), st2))) (\<lambda>(_, st2). Inr (bv, st2)))"
      for st1 rec "at" bv
    proof -
      assume "okState T F src st1"
      from sim_bind [OF otherPages_sim [OF wf path nx pages this], where P = "okState T F src" and g = "\<lambda>_. Inr bv" and f = "\<lambda>(_, st2). Inr (bv, st2)"]
      show ?thesis by (simp add: bindE_bind)
    qed
    show ?thesis unfolding code
    proof (rule body [OF refl], unfold refBookWith_def Let_def, rule sim_pure)
      fix rr assume rr: "recordedBookVote F ?book path = Inr rr"
      show "sim (okState T F src)
        (case rr of None \<Rightarrow>
            bindE (mapE (\<lambda>p. bindE (refPage nxr T F src p path) (\<lambda>pv. if pv_voted pv then Inl (UnrecordedVote p ?book) else Inr pv))
              (pagesOf F ?book path)) (\<lambda>pvs. Inr (BookVote ?book False [] [] pvs 0))
         | Some rec \<Rightarrow>
            if bookOfPage (br_origin rec) \<noteq> ?book then Inl (ForeignOrigin (br_origin rec) ?book)
            else bindE (refPage nxr T F src (br_origin rec) path) (\<lambda>pv.
              if \<not> pv_voted pv \<or> pv_voteType pv \<noteq> br_vote rec then Inl (RecordDisagrees (br_origin rec) ?book)
              else bindE (mapE (refOther nxr T F src rec (pv_decidedAt pv) path) (filter (\<lambda>p. p \<noteq> br_origin rec) (pagesOf F ?book path))) (\<lambda>_.
                Inr (BookVote ?book True (pv_vote pv) (br_origin rec) [pv] (pv_voteType pv)))))
        (case rr of None \<Rightarrow>
            bindE (unrecordedPages nx T F src ?book path d (pagesOf F ?book path) st) (\<lambda>(pvs, st1). Inr (BookVote ?book False [] [] pvs 0, st1))
         | Some rec \<Rightarrow>
            if bookOfPage (br_origin rec) \<noteq> ?book then Inl (ForeignOrigin (br_origin rec) ?book)
            else bindE (pageVote nx T F src (br_origin rec) path d st) (\<lambda>(pv, st1).
              if \<not> pv_voted pv \<or> pv_voteType pv \<noteq> br_vote rec then Inl (RecordDisagrees (br_origin rec) ?book)
              else bindE (bindE (otherPages nx T F src rec (pv_decidedAt pv) path d (pagesOf F ?book path) st1) (\<lambda>st2. Inr ((), st2))) (\<lambda>(_, st2).
                Inr (BookVote ?book True (pv_vote pv) (br_origin rec) [pv] (pv_voteType pv), st2))))"
      proof (cases rr)
        case none: None
        show ?thesis unfolding none option.case d [symmetric]
          by (rule sim_bind [OF unrecordedPages_sim [OF wf path nx r pages st]]) simp
      next
        case (Some rec)
        have origin: "plainName (br_origin rec)" using recordedBookVote_plain [OF wf] rr Some by simp
        show ?thesis unfolding Some option.case d [symmetric]
        proof (rule sim_if, simp, rule sim_bind [OF pageVote_sim [OF wf origin path nx r st]], unfold prod.case, rule sim_if)
        qed (simp_all only: sim_simps other)
      qed
    qed
  qed
qed

lemma bookVote_agree:
  assumes "wfFacts F"
  shows "d + n = DELEGATION_DEPTH_LIMIT + 1 \<Longrightarrow> agree T F src d (refBook n T F src) (bookVote n T F src)"
proof (induction n arbitrary: d)
  case 0
  have "agree T F src (d + 1) (\<lambda>_ _. Inl OutOfFuel) (\<lambda>_ _ _ _. Inl OutOfFuel)" by (simp add: agree_def)
  then have "agree T F src d (refBookWith (\<lambda>_ _. Inl OutOfFuel) T F src) (bookVoteWith (\<lambda>_ _ _ _. Inl OutOfFuel) T F src)"
    by (rule bookVoteWith_agree [OF assms]) (use 0 in \<open>simp add: refVoter_def\<close>)
  then show ?case unfolding bookVote.simps [of 0] refBook.simps [of 0] by simp
next
  case (Suc n)
  have "agree T F src (d + 1) (refBook n T F src) (bookVote n T F src)" using Suc.IH [of "d + 1"] Suc.prems by simp
  then have "agree T F src d (refBookWith (refBook n T F src) T F src) (bookVoteWith (bookVote n T F src) T F src)"
    by (rule bookVoteWith_agree [OF assms]) (use Suc.prems in \<open>auto simp: refVoter_def add.commute intro: arg_cong [where f = "\<lambda>k. refBook k T F src"]\<close>)
  then show ?case unfolding bookVote.simps [of "Suc n"] refBook.simps [of "Suc n"] by simp
qed

section \<open>The evaluation computes the reference\<close>

definition wfNames :: "account_authority list \<Rightarrow> string list \<Rightarrow> bool" where
  "wfNames authorities extras =
     (list_all (\<lambda>a. plainName (canonicalAccSpelling (aa_url a))) authorities \<and> list_all (\<lambda>e. plainName (canonicalAccSpelling e)) extras)"

lemma requireAll_sim:
  assumes vote: "agree T F src 0 nxr nx"
  shows "list_all (\<lambda>ax. plainName (authorityURL ax)) as \<Longrightarrow> okState T F src st \<Longrightarrow>
    sim (okState T F src) (bindE (refRequire nxr seen as) (\<lambda>avs. Inr (avs, list_all acceptsVote avs))) (requireAll nx seen as st)"
proof (induction as arbitrary: seen st)
  case (Cons ax as)
  obtain a x where ax: "ax = (a, x)" by force
  let ?u = "canonicalAccSpelling (aa_url a)"
  have u: "authorityURL ax = ?u" "plainName ?u" and as: "list_all (\<lambda>ax. plainName (authorityURL ax)) as"
    using Cons.prems(1) by (simp_all add: ax authorityURL_def)
  show ?case
  proof (cases "?u \<in> set seen")
    case True
    then show ?thesis using Cons.IH [OF as Cons.prems(2)] by (simp add: refRequire_def ax u(1) [unfolded ax] Let_def)
  next
    case False
    have v: "sim (okState T F src) (nxr ?u []) (nx ?u [] 0 st)" by (rule agreeD [OF vote]) (simp_all add: u(2) Cons.prems(2))
    have cons: "refRequire nxr seen (ax # as) =
        bindE (nxr ?u []) (\<lambda>bv. bindE (refRequire nxr (?u # seen) as) (\<lambda>avs. Inr (authorityVoteOf ax bv # avs)))"
      using False by (simp add: refRequire_def u(1) bindE_bind)
    show ?thesis unfolding cons [unfolded ax] bindE_bind ax requireAll.simps Let_def if_not_P [OF False]
    proof (rule sim_bind [OF v], unfold prod.case)
      fix bv st1 assume "okState T F src st1"
      note ih = Cons.IH [OF as this, of "?u # seen"]
      show "sim (okState T F src)
        (bindE (refRequire nxr (?u # seen) as) (\<lambda>avs. bindE (Inr (authorityVoteOf (a, x) bv # avs)) (\<lambda>avs. Inr (avs, list_all acceptsVote avs))))
        (bindE (requireAll nx (?u # seen) as st1) (\<lambda>((avs, ok), st2). Inr
          ((\<lparr> av_authority = ?u, av_disabled = aa_disabled a, av_extra = x, av_vote = bv \<rparr> # avs, bv_voted bv \<and> bv_voteType bv = Accept \<and> ok), st2)))"
        using ih by (cases "requireAll nx (?u # seen) as st1"; cases "refRequire nxr (?u # seen) as")
          (auto simp: authorityVoteOf_def acceptsVote_def [of "\<lparr> av_authority = ?u, av_disabled = _, av_extra = _, av_vote = _ \<rparr>"] authorityURL_def)
    qed
  qed
qed (simp add: refRequire_def)

text \<open>
  C1. The memoised evaluation is the plain one: on facts and authorities whose names are in the canonical spelling and free of the two
  characters \<open>|\<close> and \<open>,\<close> the memo keys are built with, and whose records have names of their own, \<open>evaluate\<close> gives exactly the answer - the
  same votes, or the same error - of the reference \<open>refEvaluate\<close>, which has no memo and no state: each record's contribution is computed
  by itself, the blocks of a page are decided in order until one decides, and a book's vote depends on the facts and its delegation path only.
\<close>

theorem evaluate_is_reference:
  assumes "wfFacts F" and "wfNames authorities extras"
  shows "evaluate T F src account authorities extras ignoreDisabled = refEvaluate T F src account authorities extras ignoreDisabled"
proof -
  let ?as = "requiredAuthorities authorities extras ignoreDisabled" and ?n = "DELEGATION_DEPTH_LIMIT + 1"
  have "list_all (\<lambda>ax. plainName (authorityURL ax)) ?as"
    using assms(2) by (auto simp: requiredAuthorities_def wfNames_def authorityURL_def list_all_iff)
  have "sim (okState T F src) (bindE (refRequire (refBook ?n T F src) [] ?as) (\<lambda>avs. Inr (avs, list_all acceptsVote avs)))
      (requireAll (bookVote ?n T F src) [] ?as \<lparr> vs_pages = Map.empty, vs_books = Map.empty \<rparr>)"
    by (rule requireAll_sim [OF bookVote_agree [OF assms(1)]]) (simp_all add: \<open>list_all _ ?as\<close>)
  then show ?thesis unfolding evaluate_def evaluateWith_def refEvaluate_def
    by (cases "requireAll (bookVote ?n T F src) [] ?as \<lparr> vs_pages = Map.empty, vs_books = Map.empty \<rparr>"; cases "refRequire (refBook ?n T F src) [] ?as")
      auto
qed

section \<open>A concrete vote\<close>

definition twoPages :: "string \<Rightarrow> unit + page_state list" where
  "twoPages p =
     (let at = (\<lambda>pg. Inr [\<lparr> st_block = 1, st_page = pg, st_event = - 1 \<rparr>]) in
      if p = ''acc://a/b/1'' then
        at ((newKeyPage (mkUrl ''a'' ''/b/1'' []) 1 1)\<lparr> kp_accept := 2,
              kp_keys := [\<lparr> ks_hash = [], ks_lastUsed = 0, ks_delegate = Some (mkUrl ''d'' ''/b'' []) \<rparr>, demoKey 1] \<rparr>)
      else if p = ''acc://d/b/1'' then at ((newKeyPage (mkUrl ''d'' ''/b/1'' []) 1 1)\<lparr> kp_accept := 1, kp_keys := [demoKey 2] \<rparr>)
      else Inl ())"

definition demoFacts :: facts where
  "demoFacts =
     \<lparr> fa_txType = 9,
       fa_sigs =
         [\<lparr> sg_id = ''s1'', sg_signer = ''acc://a/b/1'', sg_path = [], sg_version = 1, sg_keyHash = ''01'', sg_vote = 0, sg_block = 5, sg_partition = None \<rparr>,
          \<lparr> sg_id = ''s2'', sg_signer = ''acc://d/b/1'', sg_path = [''acc://a/b/1''], sg_version = 1, sg_keyHash = ''02'', sg_vote = 0, sg_block = 6,
            sg_partition = None \<rparr>],
       fa_arrivals =
         [\<lparr> ar_id = ''r1'', ar_page = ''acc://a/b/1'', ar_authority = ''acc://d/b'', ar_path = [], ar_block = 7, ar_origin = ''acc://d/b/1'', ar_vote = 0 \<rparr>],
       fa_votes = [\<lparr> rv_id = ''v1'', rv_authority = ''acc://a/b'', rv_origin = ''acc://a/b/1'', rv_vote = 0, rv_block = None, rv_releasedAt = 0 \<rparr>],
       fa_holdUntil = 0 \<rparr>"

definition demoAuthorities :: "account_authority list" where
  "demoAuthorities = [\<lparr> aa_url = ''acc://a/b'', aa_disabled = False \<rparr>]"

lemma demo_evaluates:
  "case evaluate demoT demoFacts twoPages ''acc://a'' demoAuthorities [] False of Inr out \<Rightarrow> ac_satisfied out | Inl _ \<Rightarrow> False"
  by code_simp

lemma demo_wf: "wfFacts demoFacts" "wfNames demoAuthorities []"
  by code_simp+

theorem evaluate_is_reference_witness:
  "case refEvaluate demoT demoFacts twoPages ''acc://a'' demoAuthorities [] False of Inr out \<Rightarrow> ac_satisfied out | Inl _ \<Rightarrow> False"
  using demo_evaluates unfolding evaluate_is_reference [OF demo_wf] .

end
