(* ===== verification/VoteSound.thy ===== *)
theory VoteSound
  imports VoteRef
begin

text \<open>
  What a vote the model of \<open>packages/verify/src/s3/govvote.ts\<close> reports rests on. \<open>bookSays\<close>, \<open>pageSays\<close> and \<open>pageAt\<close> are the votes the facts
  justify, as inductive rules: what each record up to a block contributes, the decision the tallied contributions give, and the first block that
  decides. The theorems say that whatever \<open>evaluate\<close> answers is justified by these rules, and that it answers.
\<close>

section \<open>The votes the facts justify\<close>

text \<open>A state of the page allows the transaction and has the signature's key, or delegates to the arrived vote's authority.\<close>

definition keyHolds :: "tx_types \<Rightarrow> facts \<Rightarrow> sig_fact \<Rightarrow> key_page \<Rightarrow> bool" where
  "keyHolds T F s c \<longleftrightarrow> \<not> blacklisted T c (fa_txType F) \<and> (\<exists>kh. decodeHash (sg_keyHash s) = Some kh \<and> entryByKeyHash c kh \<noteq> None)"

definition delegateHolds :: "tx_types \<Rightarrow> facts \<Rightarrow> arrival_fact \<Rightarrow> key_page \<Rightarrow> bool" where
  "delegateHolds T F a c \<longleftrightarrow> \<not> blacklisted T c (fa_txType F) \<and> (\<exists>u. fromBinary (ar_authority a) = Some u \<and> entryByDelegate c u \<noteq> None)"

text \<open>
  What a record contributes at version \<open>v\<close> of the page: some state of that version the page had in the record's block has the key (or the
  delegate); the contribution is ambiguous when another of them has not. The vote of a delegate is given by its book, below.
\<close>

definition castKey :: "tx_types \<Rightarrow> facts \<Rightarrow> page_state list \<Rightarrow> int \<Rightarrow> sig_fact \<Rightarrow> contribution \<Rightarrow> bool" where
  "castKey T F sts v s c \<longleftrightarrow>
     (\<exists>k \<in> set (statesOfVersion (candidatesDuring sts (sg_block s)) v). keyHolds T F s k) \<and>
     c = \<lparr> co_entry = ''key:'' @ goLower (sg_keyHash s), co_vote = sg_vote s, co_by = sg_id s, co_block = sg_block s,
           co_ambiguous = (\<exists>k \<in> set (statesOfVersion (candidatesDuring sts (sg_block s)) v). \<not> keyHolds T F s k) \<rparr>"

definition castDelegate :: "tx_types \<Rightarrow> facts \<Rightarrow> page_state list \<Rightarrow> int \<Rightarrow> arrival_fact \<Rightarrow> contribution \<Rightarrow> bool" where
  "castDelegate T F sts v a c \<longleftrightarrow>
     (\<exists>k \<in> set (statesOfVersion (candidatesDuring sts (ar_block a)) v). delegateHolds T F a k) \<and>
     c = \<lparr> co_entry = ''delegate:'' @ canonicalAccSpelling (ar_authority a), co_vote = co_vote c, co_by = ar_id a, co_block = ar_block a,
           co_ambiguous = (\<exists>k \<in> set (statesOfVersion (candidatesDuring sts (ar_block a)) v). \<not> delegateHolds T F a k) \<rparr>"

text \<open>The version the records stand at: the highest a signature names, or without one the highest the page had when a delegate's vote arrived.\<close>

definition versionBy :: "page_state list \<Rightarrow> sig_fact list \<Rightarrow> arrival_fact list \<Rightarrow> int" where
  "versionBy sts direct arrived =
     maxVersion 0 (if direct = [] then concat (map (\<lambda>a. remdups (map kp_version (candidatesDuring sts (ar_block a)))) arrived) else map sg_version direct)"

definition pageBlocks :: "facts \<Rightarrow> string \<Rightarrow> string list \<Rightarrow> int list" where
  "pageBlocks F page path = recordBlocks (directOf F page path) (arrivedOf F page path)"

text \<open>
  \<open>pageAt \<dots> b vote decided\<close>: how the page stands with its records up to block \<open>b\<close> - every signature on it that names the version (or a later one)
  and every delegate's vote that arrived while the page had it contributes, nothing else does, and the latest word of each entry is counted.
  \<open>pageSays \<dots> vote b\<close>: the page decides \<open>vote\<close> in block \<open>b\<close>, the first block that decides. \<open>bookSays \<dots> vote\<close>: the book's recorded vote is what the
  page it names decides, and no other page of the book decided before it (for a held transaction: no lower page before the release).
\<close>

inductive bookSays :: "tx_types \<Rightarrow> facts \<Rightarrow> (string \<Rightarrow> 'm + page_state list) \<Rightarrow> string \<Rightarrow> string list \<Rightarrow> int \<Rightarrow> bool"
  and pageSays :: "tx_types \<Rightarrow> facts \<Rightarrow> (string \<Rightarrow> 'm + page_state list) \<Rightarrow> string \<Rightarrow> string list \<Rightarrow> int \<Rightarrow> int \<Rightarrow> bool"
  and pageAt :: "tx_types \<Rightarrow> facts \<Rightarrow> (string \<Rightarrow> 'm + page_state list) \<Rightarrow> string \<Rightarrow> string list \<Rightarrow> int \<Rightarrow> int \<Rightarrow> bool \<Rightarrow> bool"
  for T F src
where
  book: "bookSays T F src book path vote"
    if "recordedBookVote F book path = Inr (Some rec)" and "bookOfPage (br_origin rec) = book" and "vote = br_vote rec"
      and "pageSays T F src (br_origin rec) path vote b"
      and "\<forall>p \<in> set (pagesOf F book path). p \<noteq> br_origin rec \<longrightarrow>
        (fa_holdUntil F \<noteq> 0 \<and> 0 < br_releasedAt rec \<and>
           (pageIndex (br_origin rec) \<le> pageIndex p \<or> (\<forall>b' \<in> set (pageBlocks F p path). b' < br_releasedAt rec \<longrightarrow> (\<exists>w. pageAt T F src p path b' w False)))) \<or>
        (\<not> (fa_holdUntil F \<noteq> 0 \<and> 0 < br_releasedAt rec) \<and> (\<forall>b' \<in> set (pageBlocks F p path). b' < b \<longrightarrow> (\<exists>w. pageAt T F src p path b' w False)))"
| page: "pageSays T F src page path vote b"
    if "b \<in> set (pageBlocks F page path)" and "pageAt T F src page path b vote True"
      and "\<forall>b' \<in> set (pageBlocks F page path). b' < b \<longrightarrow> (\<exists>w. pageAt T F src page path b' w False)"
| at: "pageAt T F src page path b vote decided"
    if "src page = Inr sts"
      and "direct = filter (\<lambda>s. sg_block s \<le> b) (directOf F page path)" and "arrived = filter (\<lambda>a. ar_block a \<le> b) (arrivedOf F page path)"
      and "v = versionBy sts direct arrived" and "ofVersion sts v = Some state"
      and "list_all2 (castKey T F sts v) (filter (\<lambda>s. v \<le> sg_version s) direct) ks"
      and "list_all2 (\<lambda>a c. castDelegate T F sts v a c \<and> bookSays T F src (canonicalAccSpelling (ar_authority a)) (path @ [page]) (co_vote c))
        (filter (\<lambda>a. v \<in> kp_version ` set (candidatesDuring sts (ar_block a))) arrived) ds"
      and "sameBlockConflict page (ks @ ds) = Inr ()"
      and "decideVote state (map snd (tally (ks @ ds) True)) = (vote, decided)"
      and "\<exists>w. decideVote state (map snd (tally (ks @ ds) False)) = (w, decided) \<and> (decided \<longrightarrow> w = vote)"

inductive_cases bookSays_cases: "bookSays T F src book path vote"
inductive_cases pageSays_cases: "pageSays T F src page path vote b"
inductive_cases pageAt_cases: "pageAt T F src page path b vote decided"

section \<open>The reference follows the rules\<close>

lemma fewer_hold: "length (filter P xs) < length xs \<longleftrightarrow> (\<exists>x \<in> set xs. \<not> P x)"
  by (metis filter_True length_filter_less less_irrefl)

lemma some_hold: "length (filter P xs) \<noteq> 0 \<longleftrightarrow> (\<exists>x \<in> set xs. P x)"
  by (auto simp: filter_empty_conv)

lemma keyVote_cast:
  assumes "keyVote E v s = Inr c"
  shows "castKey (pe_T E) (pe_facts E) (pe_tl E) v s c"
proof -
  let ?cands = "statesOfVersion (candidatesDuring (pe_tl E) (sg_block s)) v"
  obtain kh where kh: "decodeHash (sg_keyHash s) = Some kh" and n: "holdingStates E (\<lambda>c. entryByKeyHash c kh \<noteq> None) ?cands \<noteq> 0"
    and c: "c = \<lparr> co_entry = ''key:'' @ goLower (sg_keyHash s), co_vote = sg_vote s, co_by = sg_id s, co_block = sg_block s,
      co_ambiguous = holdingStates E (\<lambda>c. entryByKeyHash c kh \<noteq> None) ?cands < length ?cands \<rparr>"
    using assms by (auto simp: keyVote_def keyStanding_def Let_def results split: if_splits option.splits)
  have "holdingStates E (\<lambda>c. entryByKeyHash c kh \<noteq> None) ?cands = length (filter (keyHolds (pe_T E) (pe_facts E) s) ?cands)"
    unfolding holdingStates_def by (intro arg_cong [where f = length] filter_cong refl) (simp add: keyHolds_def kh)
  then show ?thesis using n unfolding castKey_def c by (simp only: fewer_hold some_hold refl simp_thms)
qed

lemma delegateVote_cast:
  assumes "delegateVote nx E v a = Inr (c, dv)"
  shows "castDelegate (pe_T E) (pe_facts E) (pe_tl E) v a c \<and> nx (ar_authority a) (pe_path E @ [pe_page E]) = Inr dv \<and> bv_voted dv \<and>
    co_vote c = bv_voteType dv"
proof -
  let ?cands = "statesOfVersion (candidatesDuring (pe_tl E) (ar_block a)) v"
  obtain u where u: "fromBinary (ar_authority a) = Some u" and n: "holdingStates E (\<lambda>c. entryByDelegate c u \<noteq> None) ?cands \<noteq> 0"
    and dv: "nx (ar_authority a) (pe_path E @ [pe_page E]) = Inr dv" "bv_voted dv"
    and c: "c = \<lparr> co_entry = ''delegate:'' @ canonicalAccSpelling (ar_authority a), co_vote = bv_voteType dv, co_by = ar_id a, co_block = ar_block a,
      co_ambiguous = holdingStates E (\<lambda>c. entryByDelegate c u \<noteq> None) ?cands < length ?cands \<rparr>"
    using assms by (auto simp: delegateVote_def delegateStanding_def Let_def results split: if_splits option.splits)
  have "holdingStates E (\<lambda>c. entryByDelegate c u \<noteq> None) ?cands = length (filter (delegateHolds (pe_T E) (pe_facts E) a) ?cands)"
    unfolding holdingStates_def by (intro arg_cong [where f = length] filter_cong refl) (simp add: delegateHolds_def u)
  then show ?thesis using n dv unfolding castDelegate_def c by (simp only: fewer_hold some_hold contribution.simps refl simp_thms)
qed

lemma arrivedAt_versions:
  assumes "list_all2 (\<lambda>a vs. arrivedAt E a = Inr vs) as vss"
  shows "vss = map (\<lambda>a. remdups (map kp_version (candidatesDuring (pe_tl E) (ar_block a)))) as"
  using assms by (induction rule: list_all2_induct) (auto simp: arrivedAt_def Let_def split: if_splits)

lemma filter_zip_map: "filter (\<lambda>(_, y). P y) (zip xs (map f xs)) = map (\<lambda>x. (x, f x)) (filter (\<lambda>x. P (f x)) xs)"
  by (induction xs) auto

text \<open>What a page or book vote asked for says.\<close>

definition saysVoter :: "tx_types \<Rightarrow> facts \<Rightarrow> (string \<Rightarrow> 'm + page_state list) \<Rightarrow> ref_voter \<Rightarrow> bool" where
  "saysVoter T F src nx =
     (\<forall>book path bv. nx book path = Inr bv \<longrightarrow> bv_voted bv \<longrightarrow>
        bookSays T F src (canonicalAccSpelling book) path (bv_voteType bv) \<and> bv_vote bv = voteName (bv_voteType bv))"

text \<open>An evaluation of records of a page, whose decisions up to a block are those of all of the page's records.\<close>

definition evalOf :: "tx_types \<Rightarrow> facts \<Rightarrow> (string \<Rightarrow> 'm + page_state list) \<Rightarrow> string \<Rightarrow> string list \<Rightarrow> page_eval \<Rightarrow> int \<Rightarrow> bool" where
  "evalOf T F src page path E b =
     (pe_T E = T \<and> pe_facts E = F \<and> pe_page E = page \<and> pe_path E = path \<and> src page = Inr (pe_tl E) \<and>
      filter (\<lambda>s. sg_block s \<le> b) (pe_direct E) = filter (\<lambda>s. sg_block s \<le> b) (directOf F page path) \<and>
      filter (\<lambda>a. ar_block a \<le> b) (pe_arrived E) = filter (\<lambda>a. ar_block a \<le> b) (arrivedOf F page path))"

lemma arrivedVotes_cast:
  assumes "arrivedVotes nx E v (zip as (map f as)) = Inr (cs, ex, dvs)" and "saysVoter T F src nx"
  shows "list_all2 (\<lambda>a c. castDelegate (pe_T E) (pe_facts E) (pe_tl E) v a c \<and>
      bookSays T F src (canonicalAccSpelling (ar_authority a)) (pe_path E @ [pe_page E]) (co_vote c)) (filter (\<lambda>a. v \<in> set (f a)) as) cs"
proof -
  obtain cds where m: "mapE (\<lambda>(a, _). delegateVote nx E v a) (filter (\<lambda>(_, vs). v \<in> set vs) (zip as (map f as))) = Inr cds" and cs: "cs = map fst cds"
    using assms(1) by (auto simp: arrivedVotes_def results)
  have "list_all2 (\<lambda>a cd. delegateVote nx E v a = Inr cd) (filter (\<lambda>a. v \<in> set (f a)) as) cds"
    using m unfolding mapE_Inr_iff filter_zip_map list_all2_map1 by simp
  then show ?thesis unfolding cs list_all2_map2
  proof (rule list_all2_mono)
    fix a cd assume d: "delegateVote nx E v a = Inr cd"
    then show "castDelegate (pe_T E) (pe_facts E) (pe_tl E) v a (fst cd) \<and>
      bookSays T F src (canonicalAccSpelling (ar_authority a)) (pe_path E @ [pe_page E]) (co_vote (fst cd))"
      using delegateVote_cast [of nx E v a "fst cd" "snd cd"] assms(2) unfolding saysVoter_def by force
  qed
qed

lemma decision_Inr:
  assumes "decision E b v state cs ex ds = Inr d"
  shows "decideVote state (map snd (tally cs True)) = (pd_vote d, pd_voted d)"
    and "\<exists>w. decideVote state (map snd (tally cs False)) = (w, pd_voted d) \<and> (pd_voted d \<longrightarrow> w = pd_vote d)" and "pd_through d = b"
proof -
  obtain x p where A: "decideVote state (map snd (tally cs True)) = (x, p)" by (rule prod.exhaust)
  obtain y q where N: "decideVote state (map snd (tally cs False)) = (y, q)" by (rule prod.exhaust)
  have e: "(if p \<noteq> q \<or> (p \<and> x \<noteq> y) then Inl (StateUndetermined (pe_page E))
      else Inr \<lparr>pd_through = b, pd_version = v, pd_state = state, pd_counted = tally cs True, pd_excluded = ex, pd_delegates = ds, pd_voted = p, pd_vote = x\<rparr>) = Inr d"
    using assms unfolding decision_def Let_def A N fst_conv snd_conv .
  have c: "\<not> (p \<noteq> q \<or> (p \<and> x \<noteq> y))" using e by (rule contrapos_pn) simp
  have d: "d = \<lparr>pd_through = b, pd_version = v, pd_state = state, pd_counted = tally cs True, pd_excluded = ex, pd_delegates = ds, pd_voted = p, pd_vote = x\<rparr>"
    using e unfolding if_not_P [OF c] by simp
  show "decideVote state (map snd (tally cs True)) = (pd_vote d, pd_voted d)"
    "\<exists>w. decideVote state (map snd (tally cs False)) = (w, pd_voted d) \<and> (pd_voted d \<longrightarrow> w = pd_vote d)" "pd_through d = b"
    unfolding A N using c by (auto simp: d)
qed

lemma decideAt_says:
  assumes "decideAt nx E b = Inr d" and "evalOf T F src page path E b" and "saysVoter T F src nx"
  shows "pageAt T F src page path b (pd_vote d) (pd_voted d) \<and> pd_through d = b"
proof -
  let ?direct = "filter (\<lambda>s. sg_block s \<le> b) (directOf F page path)" and ?arrived = "filter (\<lambda>a. ar_block a \<le> b) (arrivedOf F page path)"
  let ?f = "\<lambda>a. remdups (map kp_version (candidatesDuring (pe_tl E) (ar_block a)))"
  let ?v = "versionBy (pe_tl E) ?direct ?arrived"
  have E: "pe_T E = T" "pe_facts E = F" "pe_page E = page" "pe_path E = path" "src page = Inr (pe_tl E)"
    "filter (\<lambda>s. sg_block s \<le> b) (pe_direct E) = ?direct" "filter (\<lambda>a. ar_block a \<le> b) (pe_arrived E) = ?arrived"
    using assms(2) by (simp_all add: evalOf_def)
  obtain vss where vss: "mapE (arrivedAt E) ?arrived = Inr vss"
    and rest: "(case ofVersion (pe_tl E) (standsAt ?direct vss) of None \<Rightarrow> Inl (VersionNotReached page (standsAt ?direct vss))
      | Some state \<Rightarrow> bindE (directVotes E (standsAt ?direct vss) ?direct) (\<lambda>(cs1, ex1).
          bindE (arrivedVotes nx E (standsAt ?direct vss) (zip ?arrived vss)) (\<lambda>(cs2, ex2, ds).
          bindE (sameBlockConflict page (cs1 @ cs2)) (\<lambda>_. decision E b (standsAt ?direct vss) state (cs1 @ cs2) (ex1 @ ex2) ds)))) = Inr d"
    using assms(1) unfolding decideAt_def Let_def E bindE_Inr_iff by blast
  have vssf: "vss = map ?f ?arrived" using vss unfolding mapE_Inr_iff by (rule arrivedAt_versions)
  have v: "standsAt ?direct vss = ?v" unfolding standsAt_def versionBy_def vssf by simp
  obtain state cs1 ex1 cs2 ex2 ds where state: "ofVersion (pe_tl E) ?v = Some state"
    and dv: "directVotes E ?v ?direct = Inr (cs1, ex1)" and av: "arrivedVotes nx E ?v (zip ?arrived (map ?f ?arrived)) = Inr (cs2, ex2, ds)"
    and nc: "sameBlockConflict page (cs1 @ cs2) = Inr ()" and d: "decision E b ?v state (cs1 @ cs2) (ex1 @ ex2) ds = Inr d"
    using rest unfolding v unfolding vssf by (auto simp: results split: option.splits)
  have ks: "list_all2 (castKey T F (pe_tl E) ?v) (filter (\<lambda>s. ?v \<le> sg_version s) ?direct) cs1"
  proof -
    have "list_all2 (\<lambda>s c. keyVote E ?v s = Inr c) (filter (\<lambda>s. ?v \<le> sg_version s) ?direct) cs1"
      using dv unfolding directVotes_def bindE_Inr_iff mapE_Inr_iff by blast
    then show ?thesis by (rule list_all2_mono) (use keyVote_cast [of E ?v] E(1,2) in metis)
  qed
  have as: "list_all2 (\<lambda>a c. castDelegate T F (pe_tl E) ?v a c \<and> bookSays T F src (canonicalAccSpelling (ar_authority a)) (path @ [page]) (co_vote c))
      (filter (\<lambda>a. ?v \<in> kp_version ` set (candidatesDuring (pe_tl E) (ar_block a))) ?arrived) cs2"
    using arrivedVotes_cast [OF av assms(3)] by (simp add: E)
  note t = decision_Inr [OF d]
  show ?thesis by (rule conjI [OF bookSays_pageSays_pageAt.at [OF E(5) refl refl refl state ks as nc t(1,2)] t(3)])
qed

lemma firstDecision_cases:
  assumes "firstDecision nx E d0 bs = Inr d" and "sorted bs" and "distinct bs"
  obtains (decided) d' b where "d = Some d'" "pd_voted d'" "b \<in> set bs" "decideAt nx E b = Inr d'"
      "\<forall>b' \<in> set bs. b' < b \<longrightarrow> (\<exists>e. decideAt nx E b' = Inr e \<and> \<not> pd_voted e)"
  | (undecided) "bs \<noteq> [] \<Longrightarrow> \<exists>d'. d = Some d' \<and> \<not> pd_voted d'" "bs = [] \<Longrightarrow> d = d0"
      "\<forall>b' \<in> set bs. \<exists>e. decideAt nx E b' = Inr e \<and> \<not> pd_voted e"
  using assms
proof (induction bs arbitrary: d0 thesis)
  case (Cons b bs)
  obtain e where e: "decideAt nx E b = Inr e" "(if pd_voted e then Inr (Some e) else firstDecision nx E (Some e) bs) = Inr d"
    using Cons.prems(3) by (auto simp: results)
  show ?case
  proof (cases "pd_voted e")
    case True
    then have "d = Some e" using e(2) by simp
    moreover have "\<forall>b' \<in> set (b # bs). b' < b \<longrightarrow> (\<exists>e. decideAt nx E b' = Inr e \<and> \<not> pd_voted e)" using Cons.prems(4) by auto
    ultimately show ?thesis by (intro Cons.prems(1) [OF _ True _ e(1)]) (assumption | simp)+
  next
    case False
    have bs: "firstDecision nx E (Some e) bs = Inr d" "sorted bs" "distinct bs" using e False Cons.prems(4,5) by simp_all
    show ?thesis
    proof (rule Cons.IH [OF _ _ bs])
      fix d' c assume "d = Some d'" "pd_voted d'" "c \<in> set bs" "decideAt nx E c = Inr d'"
        "\<forall>b' \<in> set bs. b' < c \<longrightarrow> (\<exists>e. decideAt nx E b' = Inr e \<and> \<not> pd_voted e)"
      then show thesis using Cons.prems(1) [of d' c] e False by auto
    next
      assume "bs \<noteq> [] \<Longrightarrow> \<exists>d'. d = Some d' \<and> \<not> pd_voted d'" "bs = [] \<Longrightarrow> d = Some e"
        "\<forall>b' \<in> set bs. \<exists>e. decideAt nx E b' = Inr e \<and> \<not> pd_voted e"
      then show thesis using Cons.prems(2) e False by (cases "bs = []") auto
    qed
  qed
qed simp

lemma recordBlocks_props: "sorted (recordBlocks d a)" "distinct (recordBlocks d a)" "set (recordBlocks d a) = sg_block ` set d \<union> ar_block ` set a"
  by (simp_all add: recordBlocks_def)

lemma refPage_says:
  assumes "refPage nx T F src page path = Inr pv" and "pv_voted pv" and "saysVoter T F src nx"
  shows "pageSays T F src page path (pv_voteType pv) (pv_decidedAt pv) \<and> pv_vote pv = voteName (pv_voteType pv)"
proof -
  let ?direct = "directOf F page path" and ?arrived = "arrivedOf F page path"
  let ?E = "\<lambda>ts. \<lparr> pe_T = T, pe_facts = F, pe_page = page, pe_path = path, pe_depth = length path, pe_tl = ts, pe_direct = ?direct, pe_arrived = ?arrived \<rparr>"
  obtain ts d where ts: "src page = Inr ts" and f: "firstDecision nx (?E ts) None (recordBlocks ?direct ?arrived) = Inr d"
    and pv: "pv = (case d of Some d' \<Rightarrow> pageVoteOf page path ?direct ?arrived d' | None \<Rightarrow> emptyPageVote page path)"
    using assms(1,2) by (auto simp: refPage_def Let_def timelineOf_def emptyPageVote_def results split: if_splits)
  have e: "evalOf T F src page path (?E ts) b" for b by (simp add: evalOf_def ts)
  note says = decideAt_says [OF _ e assms(3)]
  from f recordBlocks_props(1,2) show ?thesis
  proof (cases rule: firstDecision_cases)
    case (decided d' b)
    have "pageSays T F src page path (pd_vote d') b"
      using decided says unfolding pageBlocks_def [symmetric] by (intro bookSays_pageSays_pageAt.page) metis+
    then show ?thesis using decided(1,2) says [OF decided(4)] by (simp add: pv pageVoteOf_def)
  next
    case undecided
    then show ?thesis using assms(2)
      by (cases "recordBlocks ?direct ?arrived = []") (auto simp: pv pageVoteOf_def emptyPageVote_def)
  qed
qed

lemma refBefore_says:
  assumes "refBefore nx T F src page path lim = Inr (False, x)" and "saysVoter T F src nx"
  shows "\<forall>b \<in> set (pageBlocks F page path). b < lim \<longrightarrow> (\<exists>w. pageAt T F src page path b w False)"
proof (intro ballI impI)
  fix b assume b: "b \<in> set (pageBlocks F page path)" "b < lim"
  let ?direct = "filter (\<lambda>s. sg_block s < lim) (directOf F page path)" and ?arrived = "filter (\<lambda>a. ar_block a < lim) (arrivedOf F page path)"
  let ?E = "\<lambda>ts. \<lparr> pe_T = T, pe_facts = F, pe_page = page, pe_path = path, pe_depth = length path, pe_tl = ts, pe_direct = ?direct, pe_arrived = ?arrived \<rparr>"
  have in_blocks: "b \<in> set (recordBlocks ?direct ?arrived)" using b unfolding pageBlocks_def recordBlocks_props(3) by auto
  have nil: "recordBlocks [] [] = []" by (simp add: recordBlocks_def)
  have some: "\<not> (?direct = [] \<and> ?arrived = [])"
  proof
    assume "?direct = [] \<and> ?arrived = []"
    then have "?direct = []" "?arrived = []" by blast+
    then have "recordBlocks ?direct ?arrived = []" by (simp only: nil)
    then have "set (recordBlocks ?direct ?arrived) = {}" by (simp only: list.set)
    then show False using in_blocks by (simp only: empty_iff)
  qed
  obtain ts d where ts: "src page = Inr ts" and f: "firstDecision nx (?E ts) None (recordBlocks ?direct ?arrived) = Inr d"
    and d: "(case d of Some d' \<Rightarrow> if pd_voted d' then (True, pd_through d') else (False, 0) | None \<Rightarrow> (False, 0)) = (False, x)"
    using assms(1) unfolding refBefore_def Let_def if_not_P [OF some] bindE_Inr_iff timelineOf_def mapErr_Inr_iff by auto
  have e: "evalOf T F src page path (?E ts) b"
  proof -
    have "filter (\<lambda>s. sg_block s < lim \<and> sg_block s \<le> b) (directOf F page path) = filter (\<lambda>s. sg_block s \<le> b) (directOf F page path)"
      "filter (\<lambda>a. ar_block a < lim \<and> ar_block a \<le> b) (arrivedOf F page path) = filter (\<lambda>a. ar_block a \<le> b) (arrivedOf F page path)"
      using b(2) by (intro filter_cong refl; force)+
    then show ?thesis by (simp add: evalOf_def ts)
  qed
  from f recordBlocks_props(1,2) show "\<exists>w. pageAt T F src page path b w False"
  proof (cases rule: firstDecision_cases)
    case (decided d' b')
    then show ?thesis using d by simp
  next
    case undecided
    then obtain r where "decideAt nx (?E ts) b = Inr r" "\<not> pd_voted r" using in_blocks by blast
    then show ?thesis using decideAt_says [OF _ e assms(2)] by metis
  qed
qed

lemma mapE_mem: "mapE f xs = Inr ys \<Longrightarrow> x \<in> set xs \<Longrightarrow> \<exists>y. f x = Inr y"
  by (induction xs arbitrary: ys) (auto simp: results)

lemma refBookWith_says:
  assumes "saysVoter T F src nx"
  shows "saysVoter T F src (refBookWith nx T F src)"
  unfolding saysVoter_def
proof (intro allI impI)
  fix bookIn path bv assume r: "refBookWith nx T F src bookIn path = Inr bv" and voted: "bv_voted bv"
  let ?book = "canonicalAccSpelling bookIn"
  obtain rec pv us where rec: "recordedBookVote F ?book path = Inr (Some rec)" "bookOfPage (br_origin rec) = ?book"
    and pv: "refPage nx T F src (br_origin rec) path = Inr pv" "pv_voted pv" "pv_voteType pv = br_vote rec"
    and others: "mapE (refOther nx T F src rec (pv_decidedAt pv) path) (filter (\<lambda>p. p \<noteq> br_origin rec) (pagesOf F ?book path)) = Inr us"
    and bv: "bv = BookVote ?book True (pv_vote pv) (br_origin rec) [pv] (pv_voteType pv)"
    using r voted by (auto simp: refBookWith_def Let_def results split: option.splits if_splits)
  note says = refPage_says [OF pv(1,2) assms]
  have other: "(fa_holdUntil F \<noteq> 0 \<and> 0 < br_releasedAt rec \<and>
         (pageIndex (br_origin rec) \<le> pageIndex p \<or> (\<forall>b' \<in> set (pageBlocks F p path). b' < br_releasedAt rec \<longrightarrow> (\<exists>w. pageAt T F src p path b' w False)))) \<or>
      (\<not> (fa_holdUntil F \<noteq> 0 \<and> 0 < br_releasedAt rec) \<and> (\<forall>b' \<in> set (pageBlocks F p path). b' < pv_decidedAt pv \<longrightarrow> (\<exists>w. pageAt T F src p path b' w False)))"
    if p: "p \<in> set (pagesOf F ?book path)" "p \<noteq> br_origin rec" for p
  proof -
    have "p \<in> set (filter (\<lambda>p. p \<noteq> br_origin rec) (pagesOf F ?book path))" using p by simp
    then obtain u where u: "refOther nx T F src rec (pv_decidedAt pv) path p = Inr u"
      using mapE_mem [OF others] by blast
    show ?thesis
    proof (cases "fa_holdUntil F \<noteq> 0 \<and> 0 < br_releasedAt rec")
      case True
      then obtain c x where c: "refBefore nx T F src p path (br_releasedAt rec) = Inr (c, x)" "\<not> (c \<and> pageIndex p < pageIndex (br_origin rec))"
        using u by (auto simp: refOther_def results split: if_splits)
      show ?thesis
      proof (cases c)
        case False
        then have "refBefore nx T F src p path (br_releasedAt rec) = Inr (False, x)" using c(1) by simp
        from refBefore_says [OF this assms] show ?thesis using True by blast
      qed (use True c(2) in simp)
    next
      case False
      then obtain x where "refBefore nx T F src p path (pv_decidedAt pv) = Inr (False, x)"
        using u by (auto simp: refOther_def results split: if_splits)
      from refBefore_says [OF this assms] show ?thesis using False by blast
    qed
  qed
  then have others: "\<forall>p \<in> set (pagesOf F ?book path). p \<noteq> br_origin rec \<longrightarrow>
      (fa_holdUntil F \<noteq> 0 \<and> 0 < br_releasedAt rec \<and>
         (pageIndex (br_origin rec) \<le> pageIndex p \<or> (\<forall>b' \<in> set (pageBlocks F p path). b' < br_releasedAt rec \<longrightarrow> (\<exists>w. pageAt T F src p path b' w False)))) \<or>
      (\<not> (fa_holdUntil F \<noteq> 0 \<and> 0 < br_releasedAt rec) \<and> (\<forall>b' \<in> set (pageBlocks F p path). b' < pv_decidedAt pv \<longrightarrow> (\<exists>w. pageAt T F src p path b' w False)))"
    by blast
  have "pageSays T F src (br_origin rec) path (pv_voteType pv) (pv_decidedAt pv)" using says by blast
  from bookSays_pageSays_pageAt.book [OF rec pv(3) this others] have "bookSays T F src ?book path (pv_voteType pv)" .
  then show "bookSays T F src ?book path (bv_voteType bv) \<and> bv_vote bv = voteName (bv_voteType bv)" using says by (simp add: bv)
qed

lemma refBook_says: "saysVoter T F src (refBook n T F src)"
proof (induction n)
  case 0
  have "saysVoter T F src (\<lambda>_ _. Inl OutOfFuel)" by (simp add: saysVoter_def)
  then show ?case unfolding refBook.simps [of 0] by (simp add: refBookWith_says)
next
  case (Suc n)
  then show ?case unfolding refBook.simps [of "Suc n"] by (simp add: refBookWith_says)
qed

section \<open>The evaluation follows the rules\<close>

lemma firstOf_set: "f ` set (firstOf f seen xs) = f ` set xs - set seen"
  by (induction f seen xs rule: firstOf.induct) auto

lemma firstOf_subset: "set (firstOf f seen xs) \<subseteq> set xs"
  by (induction f seen xs rule: firstOf.induct) auto

lemma list_all2_source: "list_all2 P xs ys \<Longrightarrow> y \<in> set ys \<Longrightarrow> \<exists>x \<in> set xs. P x y"
  by (induction rule: list_all2_induct) auto

lemma refRequire_list:
  assumes "refRequire nx [] as = Inr avs"
  shows "list_all2 (\<lambda>ax av. \<exists>bv. nx (authorityURL ax) [] = Inr bv \<and> av = authorityVoteOf ax bv) (firstOf authorityURL [] as) avs"
  using assms unfolding refRequire_def mapE_Inr_iff by (rule list_all2_mono) (auto simp: results)

lemma refRequire_votes:
  assumes "refRequire (refBook n T F src) [] as = Inr avs" and "list_all (\<lambda>ax. plainName (authorityURL ax)) as"
  shows "\<forall>av \<in> set avs. bv_voted (av_vote av) \<longrightarrow>
      bookSays T F src (av_authority av) [] (bv_voteType (av_vote av)) \<and> bv_vote (av_vote av) = voteName (bv_voteType (av_vote av))"
    and "av_authority ` set avs = authorityURL ` set as"
proof -
  note l = refRequire_list [OF assms(1)]
  show "\<forall>av \<in> set avs. bv_voted (av_vote av) \<longrightarrow>
      bookSays T F src (av_authority av) [] (bv_voteType (av_vote av)) \<and> bv_vote (av_vote av) = voteName (bv_voteType (av_vote av))"
  proof (intro ballI impI)
    fix av assume av: "av \<in> set avs" "bv_voted (av_vote av)"
    obtain ax bv where ax: "ax \<in> set (firstOf authorityURL [] as)" and bv: "refBook n T F src (authorityURL ax) [] = Inr bv" "av = authorityVoteOf ax bv"
      using list_all2_source [OF l av(1)] by blast
    have "plainName (authorityURL ax)" using ax firstOf_subset assms(2) unfolding list_all_iff by fastforce
    then show "bookSays T F src (av_authority av) [] (bv_voteType (av_vote av)) \<and> bv_vote (av_vote av) = voteName (bv_voteType (av_vote av))"
      using refBook_says [of T F src n, unfolded saysVoter_def, rule_format, OF bv(1)] av(2) by (auto simp: bv(2) authorityVoteOf_def)
  qed
  have "av_authority ` set avs = authorityURL ` set (firstOf authorityURL [] as)"
    using l by (induction rule: list_all2_induct) (auto simp: authorityVoteOf_def)
  then show "av_authority ` set avs = authorityURL ` set as" by (simp add: firstOf_set)
qed

lemma required_plain:
  "wfNames authorities extras \<Longrightarrow> list_all (\<lambda>ax. plainName (authorityURL ax)) (requiredAuthorities authorities extras ign)"
  by (auto simp: requiredAuthorities_def wfNames_def authorityURL_def list_all_iff)

lemma evaluate_votes:
  assumes "evaluate T F src account authorities extras ign = Inr res" and "wfFacts F" and "wfNames authorities extras"
  shows "\<forall>av \<in> set (ac_authorities res). bv_voted (av_vote av) \<longrightarrow>
      bookSays T F src (av_authority av) [] (bv_voteType (av_vote av)) \<and> bv_vote (av_vote av) = voteName (bv_voteType (av_vote av))"
    and "av_authority ` set (ac_authorities res) = authorityURL ` set (requiredAuthorities authorities extras ign)"
    and "ac_authorities res \<noteq> []" and "ac_satisfied res = list_all acceptsVote (ac_authorities res)"
proof -
  have r: "refRequire (refBook (DELEGATION_DEPTH_LIMIT + 1) T F src) [] (requiredAuthorities authorities extras ign) = Inr (ac_authorities res)"
    and s: "ac_authorities res \<noteq> []" "ac_satisfied res = list_all acceptsVote (ac_authorities res)"
    using assms(1) unfolding evaluate_is_reference [OF assms(2,3)] refEvaluate_def by (auto simp: results split: if_splits)
  show "\<forall>av \<in> set (ac_authorities res). bv_voted (av_vote av) \<longrightarrow>
      bookSays T F src (av_authority av) [] (bv_voteType (av_vote av)) \<and> bv_vote (av_vote av) = voteName (bv_voteType (av_vote av))"
    "av_authority ` set (ac_authorities res) = authorityURL ` set (requiredAuthorities authorities extras ign)"
    by (rule refRequire_votes [OF r required_plain [OF assms(3)]])+
  show "ac_authorities res \<noteq> []" "ac_satisfied res = list_all acceptsVote (ac_authorities res)" by (rule s)+
qed


section \<open>The evaluation ends\<close>

definition nofuel :: "vote_error + 'a \<Rightarrow> bool" where
  "nofuel r \<longleftrightarrow> r \<noteq> Inl OutOfFuel"

lemma nofuel_simps [simp]: "nofuel (Inr x)" "nofuel (Inl e) \<longleftrightarrow> e \<noteq> OutOfFuel"
  by (simp_all add: nofuel_def)

lemma nofuel_bind: "nofuel m \<Longrightarrow> (\<And>x. m = Inr x \<Longrightarrow> nofuel (f x)) \<Longrightarrow> nofuel (bindE m f)"
  by (cases m) simp_all

lemma nofuel_mapE: "(\<And>x. x \<in> set xs \<Longrightarrow> nofuel (f x)) \<Longrightarrow> nofuel (mapE f xs)"
  by (induction xs) (auto intro!: nofuel_bind)

lemma nofuel_records:
  "nofuel (keyVote E v s)" "nofuel (delegateStanding E v a)" "nofuel (arrivedAt E a)" "nofuel (sameBlockConflict page cs)" "nofuel (timelineOf src page)"
  "nofuel (decision E b v state cs ex ds)"
proof -
  have "nofuel (conflictLoop page seen cs)" for seen
    by (induction cs arbitrary: seen) (auto split: option.split)
  then show "nofuel (sameBlockConflict page cs)" by (simp add: sameBlockConflict_def)
  show "nofuel (timelineOf src page)" by (cases "src page") (simp_all add: timelineOf_def)
qed (auto simp: keyVote_def keyStanding_def delegateStanding_def arrivedAt_def decision_def Let_def split: option.split intro!: nofuel_bind)

lemma decideAt_nofuel:
  assumes "\<And>book. nofuel (nx book (pe_path E @ [pe_page E]))"
  shows "nofuel (decideAt nx E b)"
  unfolding decideAt_def directVotes_def arrivedVotes_def delegateVote_def Let_def
  by (auto split: option.split intro!: nofuel_bind nofuel_mapE nofuel_records assms)

lemma firstDecision_nofuel: "(\<And>b. nofuel (decideAt nx E b)) \<Longrightarrow> nofuel (firstDecision nx E d bs)"
  by (induction bs arbitrary: d) (auto intro!: nofuel_bind)

lemma refPage_nofuel:
  assumes "length path \<le> DELEGATION_DEPTH_LIMIT \<Longrightarrow> \<forall>book. nofuel (nx book (path @ [page]))"
  shows "nofuel (refPage nx T F src page path)"
  unfolding refPage_def Let_def using assms
  by (auto intro!: nofuel_bind nofuel_records firstDecision_nofuel decideAt_nofuel)

lemma refBefore_nofuel: "(\<And>book. nofuel (nx book (path @ [page]))) \<Longrightarrow> nofuel (refBefore nx T F src page path b)"
  unfolding refBefore_def Let_def by (auto intro!: nofuel_bind nofuel_records firstDecision_nofuel decideAt_nofuel)

lemma recordedBookVote_nofuel: "nofuel (recordedBookVote F book path)"
proof -
  have "nofuel (arrivalRecords book at beyond as)" for "at" beyond as
    by (induction book "at" beyond as rule: arrivalRecords.induct) (auto intro!: nofuel_bind)
  then show ?thesis unfolding recordedBookVote_def by (auto split: list.split intro!: nofuel_bind)
qed

lemma refPage_depth: "refPage nx T F src page path = Inr pv \<Longrightarrow> length path \<le> DELEGATION_DEPTH_LIMIT"
  by (auto simp: refPage_def Let_def split: if_splits)

lemma refBookWith_nofuel:
  assumes "length path \<le> DELEGATION_DEPTH_LIMIT \<Longrightarrow> \<forall>book page. nofuel (nx book (path @ [page]))"
  shows "nofuel (refBookWith nx T F src book path)"
proof -
  have page: "nofuel (refPage nx T F src p path)" for p using assms by (intro refPage_nofuel) blast
  have other: "nofuel (refOther nx T F src rec at path p)" if "length path \<le> DELEGATION_DEPTH_LIMIT" for rec "at" p
    unfolding refOther_def using assms [OF that] by (auto intro!: nofuel_bind refBefore_nofuel)
  show ?thesis unfolding refBookWith_def Let_def
    by (auto split: option.split intro!: nofuel_bind nofuel_mapE recordedBookVote_nofuel page other refPage_depth)
qed

lemma refBook_nofuel: "DELEGATION_DEPTH_LIMIT < length path + n \<Longrightarrow> nofuel (refBook n T F src book path)"
proof (induction n arbitrary: book path)
  case 0
  then show ?case unfolding refBook.simps [of 0] by (intro refBookWith_nofuel) simp
next
  case (Suc n)
  then show ?case unfolding refBook.simps [of "Suc n"] by (intro refBookWith_nofuel) simp
qed

text \<open>
  C3. The evaluation ends: delegation is cut off at the limit before the recursion is, so on facts with plain names \<open>evaluate\<close> gives an
  answer or one of the code's errors, never the model's out of fuel.
\<close>

theorem evaluate_returns:
  assumes "wfFacts F" and "wfNames authorities extras"
  shows "evaluate T F src account authorities extras ignoreDisabled \<noteq> Inl OutOfFuel"
proof -
  have "nofuel (refEvaluate T F src account authorities extras ignoreDisabled)"
    unfolding refEvaluate_def refRequire_def by (auto intro!: nofuel_bind nofuel_mapE refBook_nofuel)
  then show ?thesis unfolding evaluate_is_reference [OF assms] nofuel_def .
qed

section \<open>Witnesses\<close>


theorem evaluate_returns_witness: "evaluate demoT demoFacts twoPages ''acc://a'' demoAuthorities [] False \<noteq> Inl OutOfFuel"
  by (rule evaluate_returns [OF demo_wf])

end
