(* ===== verification/Chains.thy ===== *)
theory Chains
  imports Merkle Text
begin

text \<open>
  The binding of an account's chains to the receipt that proves the account: \<open>packages/verify/src/s3/chains.ts\<close>. The hasher of an account
  is over four parts (state, secondary state, chains, pending), so the second sibling of a receipt from the state commits the chains. A
  count is an \<open>int\<close> (a bigint), a height the double \<open>Number\<close> makes of it; \<open>H\<close> is SHA-256.
\<close>

section \<open>Data\<close>

record chain_root =
  cr_name :: string
  cr_pending :: "string option list option"
  cr_count :: int
  cr_anchor :: string

record chained_step =
  cs_hash :: string
  cs_right :: bool

record chained_receipt =
  ch_start :: string
  ch_anchor :: string
  ch_entries :: "chained_step list"

record page_chain =
  pc_url :: string
  pc_bound :: bool
  pc_mainHeight :: int
  pc_note :: "string option"

datatype chain_error =
    EmptyHash string
  | NotSixtyFour string
  | InvalidHexIn string
  | BadPending string nat
  | CountMismatch string int int
  | AnchorMismatch string
  | TooFewSteps nat
  | HashesRequired
  | SecondaryNotSibling
  | BadChain nat chain_error
  | PendingHashLength
  | ChainsNotSibling
  | StartNot32
  | StepNot32 nat
  | NotProvenLeaf
  | ReceiptNotRecomputed
  | PageChains string chain_error
  | NoMainChain string

section \<open>Hex\<close>

text \<open>\<open>goHex\<close> (\<open>s3/gojson.ts\<close>): hex digits of either case, an even number of them.\<close>

definition goHex :: "string \<Rightarrow> bytes option" where
  "goHex s = fromHex (goLower s)"

definition mustHex32 :: "string \<Rightarrow> string \<Rightarrow> chain_error + bytes" where
  "mustHex32 s label =
     (if s = [] then Inl (EmptyHash label)
      else if length s \<noteq> 64 then Inl (NotSixtyFour label)
      else (case goHex s of None \<Rightarrow> Inl (InvalidHexIn label) | Some b \<Rightarrow> Inr b))"

definition hexBytesLoose :: "string \<Rightarrow> string \<Rightarrow> chain_error + bytes" where
  "hexBytesLoose s label =
     (case goHex (strip0x (goLower (goTrimSpace s))) of None \<Rightarrow> Inl (InvalidHexIn label) | Some b \<Rightarrow> Inr b)"

definition hexReceiptStep :: "string \<Rightarrow> bytes option" where
  "hexReceiptStep s = goHex (strip0x (goLower s))"

section \<open>A chain's own claims\<close>

text \<open>\<open>bit\<close>: a shift of a 64-bit integer by 64 or more is 0.\<close>

definition bitAt :: "nat \<Rightarrow> int" where
  "bitAt i = (if i < 64 then push_bit i 1 else 0)"

text \<open>The loop of \<open>compute\<close> at the index \<open>i\<close>.\<close>

fun computeFrom :: "(bytes \<Rightarrow> bytes) \<Rightarrow> string \<Rightarrow> nat \<Rightarrow> int \<Rightarrow> bytes option \<Rightarrow> string option list \<Rightarrow> chain_error + int \<times> bytes" where
  "computeFrom H name i n a [] = Inr (n, case a of None \<Rightarrow> replicate 32 0 | Some x \<Rightarrow> x)"
| "computeFrom H name i n a (None # ps) = computeFrom H name (i + 1) n a ps"
| "computeFrom H name i n a (Some v # ps) =
     (case hexBytesLoose v ''chain pending entry'' of
        Inl _ \<Rightarrow> Inl (BadPending name i)
      | Inr h \<Rightarrow>
          if length h \<noteq> 32 then Inl (BadPending name i)
          else computeFrom H name (i + 1) (or n (bitAt i)) (Some (case a of None \<Rightarrow> h | Some x \<Rightarrow> H (h @ x))) ps)"

definition compute :: "(bytes \<Rightarrow> bytes) \<Rightarrow> chain_root \<Rightarrow> chain_error + int \<times> bytes" where
  "compute H c = computeFrom H (cr_name c) 0 0 None (case cr_pending c of None \<Rightarrow> [] | Some ps \<Rightarrow> ps)"

text \<open>\<open>Number(n)\<close> of a natural number: the nearest double, ties to the even one.\<close>

fun bitLength :: "nat \<Rightarrow> nat" where
  "bitLength n = (if n = 0 then 0 else bitLength (n div 2) + 1)"

declare bitLength.simps [simp del]

definition toNumber :: "int \<Rightarrow> int" where
  "toNumber n =
     (let m = nat n; e = bitLength m - 53; q = m div 2 ^ e; r = m mod 2 ^ e in
      int ((if 2 * r > 2 ^ e \<or> (2 * r = 2 ^ e \<and> odd q) then q + 1 else q) * 2 ^ e))"

text \<open>The anchor as a chain restates it: a \<open>0x\<close> prefix goes before the text is lower-cased.\<close>

definition restatedAnchor :: "chain_root \<Rightarrow> string" where
  "restatedAnchor c = goLower (strip0x (cr_anchor c))"

definition deriveChain :: "(bytes \<Rightarrow> bytes) \<Rightarrow> chain_root \<Rightarrow> chain_error + int \<times> bytes" where
  "deriveChain H c =
     bindE (compute H c) (\<lambda>(n, a).
       if n \<noteq> cr_count c then Inl (CountMismatch (cr_name c) (cr_count c) n)
       else if restatedAnchor c \<noteq> [] \<and> n > 0 \<and> toHex a \<noteq> restatedAnchor c then Inl (AnchorMismatch (cr_name c))
       else Inr (toNumber n, a))"

definition mainChainHeight :: "(bytes \<Rightarrow> bytes) \<Rightarrow> chain_root list \<Rightarrow> int option" where
  "mainChainHeight H cs =
     (case find (\<lambda>c. cr_name c = ''main'') cs of
        None \<Rightarrow> None
      | Some c \<Rightarrow> (case deriveChain H c of Inl _ \<Rightarrow> None | Inr (n, _) \<Rightarrow> Some n))"

section \<open>The binding\<close>

definition chainLeaf :: "(bytes \<Rightarrow> bytes) \<Rightarrow> chain_root \<Rightarrow> chain_error + bytes" where
  "chainLeaf H c = bindE (deriveChain H c) (\<lambda>(n, a). Inr (if n = 0 then replicate 32 0 else a))"

fun chainLeaves :: "(bytes \<Rightarrow> bytes) \<Rightarrow> nat \<Rightarrow> chain_root list \<Rightarrow> chain_error + bytes list" where
  "chainLeaves H i [] = Inr []"
| "chainLeaves H i (c # cs) =
     bindE (mapErr (BadChain i) (chainLeaf H c)) (\<lambda>l. bindE (chainLeaves H (i + 1) cs) (\<lambda>ls. Inr (l # ls)))"

definition verifyChainBinding :: "(bytes \<Rightarrow> bytes) \<Rightarrow> chained_receipt \<Rightarrow> chain_root list \<Rightarrow> string \<Rightarrow> string \<Rightarrow> chain_error + unit" where
  "verifyChainBinding H r cs secondaryHash pendingHash =
     guardE (length (ch_entries r) < 2) (TooFewSteps (length (ch_entries r)))
    (guardE (secondaryHash = [] \<or> pendingHash = []) HashesRequired
    (bindE (mustHex32 secondaryHash ''secondaryHash'') (\<lambda>sec.
     guardE (goLower (cs_hash (ch_entries r ! 0)) \<noteq> toHex sec) SecondaryNotSibling
    (bindE (chainLeaves H 0 cs) (\<lambda>leaves.
     bindE (hexBytesLoose pendingHash ''pendingHash'') (\<lambda>pend.
     guardE (length pend \<noteq> 32) PendingHashLength
    (guardE (toHex (H (merkleHashList H leaves @ pend)) \<noteq> goLower (cs_hash (ch_entries r ! 1))) ChainsNotSibling
    (Inr ()))))))))"

fun recomputeFrom :: "(bytes \<Rightarrow> bytes) \<Rightarrow> nat \<Rightarrow> bytes \<Rightarrow> chained_step list \<Rightarrow> chain_error + bytes" where
  "recomputeFrom H i cur [] = Inr cur"
| "recomputeFrom H i cur (e # es) =
     (case hexReceiptStep (cs_hash e) of
        None \<Rightarrow> Inl (StepNot32 i)
      | Some h \<Rightarrow>
          if length h \<noteq> 32 then Inl (StepNot32 i)
          else recomputeFrom H (i + 1) (if cs_right e then H (cur @ h) else H (h @ cur)) es)"

definition recomputeReceipt :: "(bytes \<Rightarrow> bytes) \<Rightarrow> chained_receipt \<Rightarrow> chain_error + bytes" where
  "recomputeReceipt H r =
     (case hexReceiptStep (ch_start r) of
        None \<Rightarrow> Inl StartNot32
      | Some s \<Rightarrow> if length s \<noteq> 32 then Inl StartNot32 else recomputeFrom H 0 s (ch_entries r))"

definition verifyAccountState :: "(bytes \<Rightarrow> bytes) \<Rightarrow> bytes \<Rightarrow> chained_receipt \<Rightarrow> chain_root list \<Rightarrow> string \<Rightarrow> string \<Rightarrow>
    chain_error + bytes \<times> int option" where
  "verifyAccountState H state r cs secondaryHash pendingHash =
     bindE (mustHex32 (ch_start r) ''stateReceipt.start'') (\<lambda>start.
     guardE (H state \<noteq> start) NotProvenLeaf
    (bindE (recomputeReceipt H r) (\<lambda>got.
     bindE (mustHex32 (ch_anchor r) ''stateReceipt.anchor'') (\<lambda>claimed.
     guardE (got \<noteq> claimed) ReceiptNotRecomputed
    (bindE (verifyChainBinding H r cs secondaryHash pendingHash) (\<lambda>_.
     Inr (claimed, mainChainHeight H cs)))))))"

definition toChained :: "receipt \<Rightarrow> chained_receipt" where
  "toChained r =
     \<lparr> ch_start = toHex (rc_start r), ch_anchor = toHex (rc_anchor r),
       ch_entries = map (\<lambda>e. \<lparr> cs_hash = toHex (re_hash e), cs_right = re_right e \<rparr>) (rc_entries r) \<rparr>"

definition pageChains :: "(bytes \<Rightarrow> bytes) \<Rightarrow> string \<Rightarrow> chain_root list \<Rightarrow> string \<Rightarrow> string \<Rightarrow> receipt \<Rightarrow> chain_error + page_chain" where
  "pageChains H url cs pendingHash chainError r =
     (if length cs = 0 then
        Inr \<lparr> pc_url = url, pc_bound = False, pc_mainHeight = 0,
              pc_note = Some (if chainError \<noteq> [] then chainError else ''g1_chain_uncaptured'') \<rparr>
      else
        bindE (mapErr (PageChains url)
                (verifyChainBinding H (toChained r) cs (if length (rc_entries r) > 0 then toHex (re_hash (rc_entries r ! 0)) else []) pendingHash)) (\<lambda>_.
        case mainChainHeight H cs of
          None \<Rightarrow> Inl (NoMainChain url)
        | Some h \<Rightarrow> Inr \<lparr> pc_url = url, pc_bound = True, pc_mainHeight = h, pc_note = None \<rparr>))"

section \<open>What a merkle root hashes\<close>

function mthInputs :: "(bytes \<Rightarrow> bytes) \<Rightarrow> bytes list \<Rightarrow> bytes set" where
  "mthInputs H xs =
     (if length xs < 2 then {}
      else let k = pow2_below (length xs) in
        insert (mth H (take k xs) @ mth H (drop k xs)) (mthInputs H (take k xs) \<union> mthInputs H (drop k xs)))"
  by pat_completeness auto
termination
proof (relation "measure (\<lambda>(H, xs). length xs)", goal_cases)
  case (2 H xs k)
  then show ?case using pow2_below [of "length xs"] by auto
next
  case (3 H xs k)
  then obtain j where "k = 2 ^ j" using pow2_below [of "length xs"] by auto
  moreover have "length xs - 2 ^ j < length xs" using 3 by (intro diff_less) auto
  ultimately show ?case by simp
qed simp

declare mthInputs.simps [simp del]

lemma length_mth: "(\<And>x. length (H x) = 32) \<Longrightarrow> \<forall>x \<in> set xs. length x = 32 \<Longrightarrow> length (mth H xs) = 32"
  by (subst mth.simps) (auto split: list.splits)

lemma mth_inj:
  assumes H: "\<And>x. length (H x) = 32"
  shows "inj_on H (mthInputs H xs \<union> mthInputs H ys) \<Longrightarrow> length xs = length ys \<Longrightarrow>
    \<forall>x \<in> set xs. length x = 32 \<Longrightarrow> \<forall>x \<in> set ys. length x = 32 \<Longrightarrow> mth H xs = mth H ys \<Longrightarrow> xs = ys"
proof (induction "length xs" arbitrary: xs ys rule: less_induct)
  case less
  let ?k = "pow2_below (length xs)"
  show ?case
  proof (cases "length xs < 2")
    case True
    then show ?thesis using less.prems(2,5) by (cases xs; cases ys) (auto simp: mth.simps split: list.splits)
  next
    case False
    then obtain j where j: "?k = 2 ^ j" "2 ^ j < length xs" using pow2_below [of "length xs"] by auto
    then have k: "0 < ?k" "?k < length xs" by simp_all
    have in1: "mthInputs H xs = insert (mth H (take ?k xs) @ mth H (drop ?k xs)) (mthInputs H (take ?k xs) \<union> mthInputs H (drop ?k xs))"
      and in2: "mthInputs H ys = insert (mth H (take ?k ys) @ mth H (drop ?k ys)) (mthInputs H (take ?k ys) \<union> mthInputs H (drop ?k ys))"
      using False less.prems(2) by (simp_all add: mthInputs.simps [of H xs] mthInputs.simps [of H ys] Let_def)
    have eq: "H (mth H (take ?k xs) @ mth H (drop ?k xs)) = H (mth H (take ?k ys) @ mth H (drop ?k ys))"
      using less.prems(2,5) False by (simp add: mth.simps [of H xs] mth.simps [of H ys])
    have "mth H (take ?k xs) @ mth H (drop ?k xs) = mth H (take ?k ys) @ mth H (drop ?k ys)"
      by (rule inj_onD [OF less.prems(1) eq]) (simp_all add: in1 in2)
    moreover have "\<forall>x \<in> set (take ?k xs). length x = 32" "\<forall>x \<in> set (take ?k ys). length x = 32"
      using less.prems(3,4) by (meson in_set_takeD)+
    then have "length (mth H (take ?k xs)) = length (mth H (take ?k ys))"
      using length_mth [of H "take ?k xs", OF H] length_mth [of H "take ?k ys", OF H] by simp
    ultimately have parts: "mth H (take ?k xs) = mth H (take ?k ys)" "mth H (drop ?k xs) = mth H (drop ?k ys)" by simp_all
    have "take ?k xs = take ?k ys"
      by (rule less.hyps) (use k less.prems parts in \<open>auto simp: in1 in2 intro: inj_on_subset dest: in_set_takeD\<close>)
    moreover have "drop ?k xs = drop ?k ys"
      by (rule less.hyps) (use k less.prems parts in \<open>auto simp: in1 in2 intro: inj_on_subset dest: in_set_dropD\<close>)
    ultimately show ?thesis by (metis append_take_drop_id)
  qed
qed

section \<open>Texts of hashes\<close>

lemma goHex_toHex [simp]: "goHex (toHex b) = Some b"
  by (simp add: goHex_def goLower_def)

lemma hexBytesLoose_lower: "hexReceiptStep s = goHex (strip0x (goLower s))"
  by (simp add: hexReceiptStep_def)

lemma fromHex_strip: "fromHex t = Some b \<Longrightarrow> strip0x t = t"
proof -
  assume t: "fromHex t = Some b"
  have "take 2 t \<noteq> ''0x''"
  proof
    assume "take 2 t = ''0x''"
    then obtain r where "t = ''0x'' @ r" by (metis append_take_drop_id)
    then show False using t by (simp add: hexVal_def)
  qed
  then show ?thesis by (simp add: strip0x_def)
qed

lemma sibling_text:
  assumes "goLower s = toHex x"
  shows "hexReceiptStep s = Some x"
  using assms by (simp add: hexReceiptStep_def)

lemma mustHex32_step: "mustHex32 s l = Inr b \<Longrightarrow> hexReceiptStep s = Some b"
  by (auto simp: mustHex32_def goHex_def hexReceiptStep_def fromHex_strip split: if_splits option.splits)


section \<open>The leaves a binding commits\<close>

lemma computeFrom_length:
  assumes "\<And>x. length (H x) = 32"
  shows "computeFrom H name i n a ps = Inr (m, x) \<Longrightarrow> (\<forall>y. a = Some y \<longrightarrow> length y = 32) \<Longrightarrow> length x = 32"
proof (induction ps arbitrary: i n a)
  case Nil
  then show ?case by (auto split: option.splits)
next
  case (Cons p ps)
  show ?case
  proof (cases p)
    case None
    then show ?thesis using Cons by auto
  next
    case (Some v)
    then obtain h where h: "length h = 32"
      "computeFrom H name (i + 1) (or n (bitAt i)) (Some (case a of None \<Rightarrow> h | Some x \<Rightarrow> H (h @ x))) ps = Inr (m, x)"
      using Cons.prems(1) by (auto split: sum.splits if_splits)
    show ?thesis by (rule Cons.IH [OF h(2)]) (use h(1) assms in \<open>auto split: option.splits\<close>)
  qed
qed

lemma deriveChain_Inr:
  "deriveChain H c = Inr (n, a) \<longleftrightarrow>
     compute H c = Inr (cr_count c, a) \<and> n = toNumber (cr_count c) \<and>
     (restatedAnchor c \<noteq> [] \<and> 0 < cr_count c \<longrightarrow> toHex a = restatedAnchor c)"
  by (cases "compute H c") (auto simp: deriveChain_def split: if_splits)

lemma deriveChain_length: "(\<And>x. length (H x) = 32) \<Longrightarrow> deriveChain H c = Inr (n, a) \<Longrightarrow> length a = 32"
  unfolding deriveChain_Inr compute_def by (elim conjE) (erule (1) computeFrom_length, simp)

lemma chainLeaves_iff: "chainLeaves H i cs = Inr ls \<longleftrightarrow> list_all2 (\<lambda>c l. chainLeaf H c = Inr l) cs ls"
proof (induction cs arbitrary: i ls)
  case (Cons c cs)
  then show ?case by (auto simp: results list_all2_Cons1)
qed auto

lemma chainLeaves_length:
  assumes "\<And>x. length (H x) = 32" and "chainLeaves H i cs = Inr ls"
  shows "\<forall>l \<in> set ls. length l = 32" "length ls = length cs"
proof -
  have "chainLeaf H c = Inr l \<Longrightarrow> length l = 32" for c l
    using deriveChain_length [OF assms(1)] by (auto simp: chainLeaf_def results split: if_splits)
  then have "list_all2 (\<lambda>c l. length l = 32) cs ls" using assms(2) unfolding chainLeaves_iff by (auto elim: list_all2_mono)
  then show "\<forall>l \<in> set ls. length l = 32" by (auto simp: list_all2_conv_all_nth in_set_conv_nth)
  show "length ls = length cs" using assms(2) unfolding chainLeaves_iff by (simp add: list_all2_lengthD)
qed

text \<open>What a successful binding has established, and what it hashed.\<close>

definition bindingInputs :: "(bytes \<Rightarrow> bytes) \<Rightarrow> chain_root list \<Rightarrow> string \<Rightarrow> bytes set" where
  "bindingInputs H cs pendingHash =
     (case (chainLeaves H 0 cs, hexBytesLoose pendingHash ''pendingHash'') of
        (Inr leaves, Inr pend) \<Rightarrow> insert (mth H leaves @ pend) (mthInputs H leaves)
      | _ \<Rightarrow> {})"

lemma verifyChainBinding_Inr:
  "verifyChainBinding H r cs sec pnd = Inr () \<longleftrightarrow>
     2 \<le> length (ch_entries r) \<and> sec \<noteq> [] \<and> pnd \<noteq> [] \<and>
     (\<exists>s leaves pend. mustHex32 sec ''secondaryHash'' = Inr s \<and> goLower (cs_hash (ch_entries r ! 0)) = toHex s \<and>
        chainLeaves H 0 cs = Inr leaves \<and> hexBytesLoose pnd ''pendingHash'' = Inr pend \<and> length pend = 32 \<and>
        goLower (cs_hash (ch_entries r ! 1)) = toHex (H (mth H leaves @ pend)))"
  unfolding verifyChainBinding_def by (auto simp: results merkleHashList_is_tree_root not_less)

section \<open>Receipts in text\<close>

definition stepsOf :: "chained_receipt \<Rightarrow> receipt_entry list" where
  "stepsOf r = map (\<lambda>e. \<lparr> re_hash = the (hexReceiptStep (cs_hash e)), re_right = cs_right e \<rparr>) (ch_entries r)"

lemma recomputeFrom_fold:
  "recomputeFrom H i cur es = Inr got \<Longrightarrow>
     got = foldReceipt H cur (map (\<lambda>e. \<lparr> re_hash = the (hexReceiptStep (cs_hash e)), re_right = cs_right e \<rparr>) es)"
  by (induction es arbitrary: i cur) (auto simp: applyEntry_def split: option.splits if_splits)

lemma verifyAccountState_Inr:
  assumes "verifyAccountState H state r cs sec pnd = Inr (root, h)"
  shows "foldReceipt H (H state) (stepsOf r) = root" "verifyChainBinding H r cs sec pnd = Inr ()" "h = mainChainHeight H cs"
proof -
  from assms obtain start got where s: "mustHex32 (ch_start r) ''stateReceipt.start'' = Inr start" "H state = start"
    "recomputeReceipt H r = Inr got" "got = root" "verifyChainBinding H r cs sec pnd = Inr ()" "h = mainChainHeight H cs"
    unfolding verifyAccountState_def by (auto simp: results)
  show "verifyChainBinding H r cs sec pnd = Inr ()" "h = mainChainHeight H cs" by fact+
  have "recomputeFrom H 0 start (ch_entries r) = Inr root"
    using s(3,4) mustHex32_step [OF s(1)] by (auto simp: recomputeReceipt_def split: if_splits)
  from recomputeFrom_fold [OF this] show "foldReceipt H (H state) (stepsOf r) = root" using s(2) by (simp add: stepsOf_def)
qed

definition proofInputs :: "(bytes \<Rightarrow> bytes) \<Rightarrow> bytes \<Rightarrow> chained_receipt \<Rightarrow> chain_root list \<Rightarrow> string \<Rightarrow> bytes set" where
  "proofInputs H state r cs pnd = insert state (set (hashed H (H state) (stepsOf r)) \<union> bindingInputs H cs pnd)"

text \<open>
  C38. An account proven into a root is the account: two proofs that reach one root by the same sides prove the same state, and, for the
  same number of chains, chains with the same roots - unless the hash collides on what the two proofs hash.
\<close>

theorem account_binding:
  assumes "verifyAccountState H state r cs sec pnd = Inr (root, h)" and "verifyAccountState H state' r' cs' sec' pnd' = Inr (root, h')"
    and "map cs_right (ch_entries r) = map cs_right (ch_entries r')" and "length cs = length cs'"
    and H: "\<And>x. length (H x) = 32" and "inj_on H (proofInputs H state r cs pnd \<union> proofInputs H state' r' cs' pnd')"
  shows "state = state' \<and> chainLeaves H 0 cs = chainLeaves H 0 cs'"
proof -
  note v = verifyAccountState_Inr [OF assms(1)] and v' = verifyAccountState_Inr [OF assms(2)]
  have fold: "H state = H state' \<and> map re_hash (stepsOf r) = map re_hash (stepsOf r')"
  proof (rule fold_binding [of H, OF H])
    show "inj_on H (set (hashed H (H state) (stepsOf r)) \<union> set (hashed H (H state') (stepsOf r')))"
      by (rule inj_on_subset [OF assms(6)]) (auto simp: proofInputs_def)
    show "map re_right (stepsOf r) = map re_right (stepsOf r')" using assms(3) by (simp add: stepsOf_def comp_def)
    show "foldReceipt H (H state) (stepsOf r) = foldReceipt H (H state') (stepsOf r')" using v(1) v'(1) by simp
  qed (rule H)+
  have state: "state = state'"
    by (rule inj_onD [OF assms(6) fold [THEN conjunct1]]) (simp_all add: proofInputs_def)
  from v(2) obtain leaves pend where l: "2 \<le> length (ch_entries r)" "chainLeaves H 0 cs = Inr leaves"
    "hexBytesLoose pnd ''pendingHash'' = Inr pend" "length pend = 32" "goLower (cs_hash (ch_entries r ! 1)) = toHex (H (mth H leaves @ pend))"
    unfolding verifyChainBinding_Inr by blast
  from v'(2) obtain leaves' pend' where l': "2 \<le> length (ch_entries r')" "chainLeaves H 0 cs' = Inr leaves'"
    "hexBytesLoose pnd' ''pendingHash'' = Inr pend'" "length pend' = 32" "goLower (cs_hash (ch_entries r' ! 1)) = toHex (H (mth H leaves' @ pend'))"
    unfolding verifyChainBinding_Inr by blast
  have "re_hash (stepsOf r ! 1) = H (mth H leaves @ pend)" "re_hash (stepsOf r' ! 1) = H (mth H leaves' @ pend')"
    using sibling_text [OF l(5)] sibling_text [OF l'(5)] l(1) l'(1) by (simp_all add: stepsOf_def)
  moreover have "re_hash (stepsOf r ! 1) = re_hash (stepsOf r' ! 1)"
    using fold [THEN conjunct2] l(1) l'(1) by (metis (no_types, lifting) Suc_1 Suc_le_lessD length_map nth_map stepsOf_def)
  ultimately have eq: "H (mth H leaves @ pend) = H (mth H leaves' @ pend')" by simp
  have sub: "insert (mth H leaves @ pend) (mthInputs H leaves) \<subseteq> proofInputs H state r cs pnd"
    "insert (mth H leaves' @ pend') (mthInputs H leaves') \<subseteq> proofInputs H state' r' cs' pnd'"
    using l(2,3) l'(2,3) by (auto simp: proofInputs_def bindingInputs_def)
  have "mth H leaves @ pend = mth H leaves' @ pend'"
    by (rule inj_onD [OF assms(6) eq]) (use sub in auto)
  then have "mth H leaves = mth H leaves'" using l(4) l'(4) by simp
  then have "leaves = leaves'"
  proof (rule mth_inj [OF _ _ _ _ _ , rotated -1])
    show "\<And>x. length (H x) = 32" by (rule H)
    show "inj_on H (mthInputs H leaves \<union> mthInputs H leaves')" by (rule inj_on_subset [OF assms(6)]) (use sub in auto)
    show "length leaves = length leaves'" using chainLeaves_length(2) [OF H l(2)] chainLeaves_length(2) [OF H l'(2)] assms(4) by simp
    show "\<forall>x \<in> set leaves. length x = 32" "\<forall>x \<in> set leaves'. length x = 32"
      using chainLeaves_length(1) [OF H l(2)] chainLeaves_length(1) [OF H l'(2)] by simp_all
  qed
  then show ?thesis using state l(2) l'(2) by simp
qed

section \<open>Heights\<close>

lemma bitLength_bounds: "n < 2 ^ bitLength n \<and> (0 < n \<longrightarrow> 2 ^ (bitLength n - 1) \<le> n)"
proof (induction n rule: bitLength.induct)
  case (1 n)
  show ?case
  proof (cases "n = 0")
    case False
    then have ih: "n div 2 < 2 ^ bitLength (n div 2)" "0 < n div 2 \<longrightarrow> 2 ^ (bitLength (n div 2) - 1) \<le> n div 2" using 1 by auto
    have b: "bitLength n = Suc (bitLength (n div 2))" using False by (simp add: bitLength.simps [of n])
    have "2 ^ bitLength (n div 2) \<le> n"
    proof (cases "n div 2 = 0")
      case True
      then show ?thesis using False by (simp add: bitLength.simps)
    next
      case nz: False
      then have "bitLength (n div 2) = Suc (bitLength (n div 2) - 1)" by (simp add: bitLength.simps [of "n div 2"])
      then have "2 ^ bitLength (n div 2) = 2 * (2::nat) ^ (bitLength (n div 2) - 1)" by (metis power_Suc)
      then show ?thesis using ih(2) nz by simp
    qed
    moreover have "n < 2 * 2 ^ bitLength (n div 2)" using ih(1) by linarith
    ultimately show ?thesis using b by simp
  qed (simp add: bitLength.simps)
qed

lemma toNumber_small: "0 \<le> n \<Longrightarrow> n < 2 ^ 53 \<Longrightarrow> toNumber n = n"
proof -
  assume n: "0 \<le> n" "n < 2 ^ 53"
  have "bitLength (nat n) \<le> 53"
  proof (rule ccontr)
    assume "\<not> bitLength (nat n) \<le> 53"
    then have "(2::nat) ^ 53 \<le> 2 ^ (bitLength (nat n) - 1)" by (intro power_increasing) simp_all
    moreover have "0 < nat n" using \<open>\<not> bitLength (nat n) \<le> 53\<close> by (cases "nat n = 0") (simp_all add: bitLength.simps)
    ultimately have "2 ^ 53 \<le> nat n" using bitLength_bounds [of "nat n"] by linarith
    then show False using n nat_less_eq_zless [of n "2 ^ 53"] by simp
  qed
  then show ?thesis using n(1) by (simp add: toNumber_def Let_def)
qed

lemma toNumber_pos: "0 < n \<Longrightarrow> 0 < toNumber n"
proof -
  assume n: "0 < n"
  let ?m = "nat n" and ?e = "bitLength (nat n) - 53"
  have m: "0 < ?m" using n by simp
  have "(2::nat) ^ ?e \<le> 2 ^ (bitLength ?m - 1)" by (intro power_increasing) simp_all
  then have "2 ^ ?e \<le> ?m" using bitLength_bounds [of ?m] m by linarith
  then have "0 < ?m div 2 ^ ?e" by (simp add: div_greater_zero_iff)
  then show ?thesis by (simp add: toNumber_def Let_def)
qed

text \<open>A chain with the root \<open>a\<close>, told again as a chain of one entry.\<close>

definition retold :: "chain_root \<Rightarrow> bytes \<Rightarrow> chain_root" where
  "retold c a = c\<lparr> cr_pending := Some [Some (toHex a)], cr_count := 1 \<rparr>"

lemma hexDigit_inked: "n < 16 \<Longrightarrow> inked (hexDigit n)"
  by (auto simp: inked_def hexDigit_def)

lemma hexBytesLoose_toHex: "hexBytesLoose (toHex b) l = Inr b"
proof -
  have inked: "list_all inked (toHex b)"
    by (auto simp: toHex_def list_all_iff intro!: hexDigit_inked nibble_less)
  have "goTrimSpace (toHex b) = toHex b"
  proof (cases "toHex b = []")
    case True
    then show ?thesis by (simp add: goTrimSpace_def trimStartOf.simps trimEndOf.simps)
  next
    case False
    then show ?thesis using inked by (intro goTrimSpace_inked) (simp_all add: list_all_iff)
  qed
  then show ?thesis by (simp add: hexBytesLoose_def goLower_def)
qed

lemma deriveChain_retold:
  assumes "\<And>x. length (H x) = 32" and "deriveChain H c = Inr (n, a)" and "0 < cr_count c"
  shows "deriveChain H (retold c a) = Inr (1, a)"
proof -
  have "length a = 32" by (rule deriveChain_length [OF assms(1,2)])
  moreover have "restatedAnchor c \<noteq> [] \<longrightarrow> toHex a = restatedAnchor c" using assms(2,3) unfolding deriveChain_Inr by simp
  ultimately show ?thesis
    unfolding deriveChain_Inr
    by (simp add: retold_def compute_def restatedAnchor_def hexBytesLoose_toHex bitAt_def toNumber_small)
qed

text \<open>
  C39. A binding commits the roots of the chains and not their heights: where a chain with entries is bound, the same chain told as one of
  a single entry - its root, at the height 1 - is bound in its place by the very same receipt, and derives the same root.
\<close>

theorem height_not_bound:
  assumes "verifyChainBinding H r cs sec pnd = Inr ()" and "i < length cs" and "deriveChain H (cs ! i) = Inr (n, a)" and "0 < cr_count (cs ! i)"
    and "\<And>x. length (H x) = 32"
  shows "verifyChainBinding H r (cs[i := retold (cs ! i) a]) sec pnd = Inr () \<and> deriveChain H (retold (cs ! i) a) = Inr (1, a) \<and>
    cr_name (retold (cs ! i) a) = cr_name (cs ! i)"
proof -
  have told: "deriveChain H (retold (cs ! i) a) = Inr (1, a)" by (rule deriveChain_retold [OF assms(5,3,4)])
  have "n \<noteq> 0" using assms(3,4) toNumber_pos unfolding deriveChain_Inr by fastforce
  then have leaf: "chainLeaf H (retold (cs ! i) a) = chainLeaf H (cs ! i)" using told assms(3) by (simp add: chainLeaf_def)
  have "chainLeaves H 0 (cs[i := retold (cs ! i) a]) = Inr ls \<longleftrightarrow> chainLeaves H 0 cs = Inr ls" for ls
  proof -
    have "chainLeaf H (cs[i := retold (cs ! i) a] ! j) = chainLeaf H (cs ! j)" if "j < length cs" for j
      using leaf that by (cases "j = i") simp_all
    then show ?thesis unfolding chainLeaves_iff list_all2_conv_all_nth by auto
  qed
  then show ?thesis using assms(1) told unfolding verifyChainBinding_Inr by (simp add: retold_def)
qed

section \<open>A concrete proof\<close>

lemma length_toHex32: "length b = 32 \<Longrightarrow> length (toHex b) = 64"
proof -
  have "length (toHex b) = 2 * length b" for b by (induction b) (simp_all add: toHex_def)
  then show "length b = 32 \<Longrightarrow> length (toHex b) = 64" by simp
qed

lemma mustHex32_toHex: "length b = 32 \<Longrightarrow> mustHex32 (toHex b) l = Inr b"
  using length_toHex32 [of b] by (auto simp: mustHex32_def)

lemma goLower_toHex: "goLower (toHex b) = toHex b"
  by (simp add: goLower_def)

lemma hexReceiptStep_toHex: "hexReceiptStep (toHex b) = Some b"
  by (rule sibling_text [OF goLower_toHex])

text \<open>A toy hash with 32 bytes of output, which does not collide on what the example hashes.\<close>

definition endsHash :: "bytes \<Rightarrow> bytes" where
  "endsHash x = replicate 31 (hd x) @ [last x]"

definition filled :: "byte \<Rightarrow> bytes" where
  "filled x = replicate 32 x"

definition demoChain :: chain_root where
  "demoChain = \<lparr> cr_name = ''main'', cr_pending = Some [Some (toHex (filled 1)), Some (toHex (filled 2))], cr_count = 3, cr_anchor = [] \<rparr>"

definition demoProof :: chained_receipt where
  "demoProof =
     (let second = endsHash (endsHash (filled 2 @ filled 1) @ filled 3) in
      \<lparr> ch_start = toHex (endsHash [7]), ch_anchor = toHex (endsHash (endsHash (endsHash [7] @ filled 9) @ second)),
        ch_entries = [\<lparr> cs_hash = toHex (filled 9), cs_right = True \<rparr>, \<lparr> cs_hash = toHex second, cs_right = True \<rparr>] \<rparr>)"

lemma length_endsHash [simp]: "length (endsHash x) = 32" "length (filled b) = 32" "filled b \<noteq> []" "endsHash x \<noteq> []"
  by (simp_all add: endsHash_def filled_def)

lemma toHex_nonempty: "b \<noteq> [] \<Longrightarrow> toHex b \<noteq> []"
  by (cases b) (simp_all add: toHex_def)

lemma demo_derive: "deriveChain endsHash demoChain = Inr (3, endsHash (filled 2 @ filled 1))"
proof -
  have "or (bitAt 0) (bitAt (Suc 0)) = 3" by code_simp
  then show ?thesis unfolding deriveChain_Inr
    by (simp add: demoChain_def compute_def restatedAnchor_def strip0x_def goLower_def hexBytesLoose_toHex toNumber_small)
qed

lemma demo_leaves: "chainLeaves endsHash 0 [demoChain] = Inr [endsHash (filled 2 @ filled 1)]"
  by (simp add: chainLeaf_def demo_derive)

lemma demo_binding: "verifyChainBinding endsHash demoProof [demoChain] (toHex (filled 9)) (toHex (filled 3)) = Inr ()"
  unfolding verifyChainBinding_Inr demo_leaves
  by (simp add: demoProof_def Let_def mustHex32_toHex goLower_toHex hexBytesLoose_toHex toHex_nonempty)

lemma demo_account:
  "verifyAccountState endsHash [7] demoProof [demoChain] (toHex (filled 9)) (toHex (filled 3)) =
   Inr (endsHash (endsHash (endsHash [7] @ filled 9) @ endsHash (endsHash (filled 2 @ filled 1) @ filled 3)), Some 3)"
proof -
  have "mainChainHeight endsHash [demoChain] = Some 3" by (simp add: mainChainHeight_def demo_derive) (simp add: demoChain_def)
  then show ?thesis
    unfolding verifyAccountState_def by (simp add: demo_binding)
      (simp add: demoProof_def Let_def mustHex32_toHex recomputeReceipt_def hexReceiptStep_toHex)
qed

lemma ends: "endsHash x = endsHash y \<longleftrightarrow> hd x = hd y \<and> last x = last y"
  by (simp add: endsHash_def)

lemma hd_last [simp]: "hd (filled b) = b" "last (filled b) = b" "hd (endsHash x) = hd x" "last (endsHash x) = last x"
  by (simp_all add: filled_def endsHash_def)

lemma demo_inj: "inj_on endsHash (proofInputs endsHash [7] demoProof [demoChain] (toHex (filled 3)))"
proof -
  have "proofInputs endsHash [7] demoProof [demoChain] (toHex (filled 3)) =
    {[7], endsHash [7] @ filled 9, endsHash (endsHash [7] @ filled 9) @ endsHash (endsHash (filled 2 @ filled 1) @ filled 3),
     endsHash (filled 2 @ filled 1) @ filled 3}"
    unfolding proofInputs_def bindingInputs_def demo_leaves
    by (auto simp: demoProof_def Let_def stepsOf_def hexReceiptStep_toHex stepInput_def applyEntry_def hexBytesLoose_toHex mthInputs.simps)
  then show ?thesis by (simp add: inj_on_def ends)
qed

theorem account_binding_witness:
  "verifyAccountState endsHash [7] demoProof [demoChain] (toHex (filled 9)) (toHex (filled 3)) =
     Inr (endsHash (endsHash (endsHash [7] @ filled 9) @ endsHash (endsHash (filled 2 @ filled 1) @ filled 3)), Some 3) \<and>
   [7 :: byte] = [7] \<and> chainLeaves endsHash 0 [demoChain] = chainLeaves endsHash 0 [demoChain]"
  using account_binding [OF demo_account demo_account refl refl length_endsHash(1)] demo_inj demo_account by simp

theorem height_not_bound_witness:
  "mainChainHeight endsHash [demoChain] = Some 3 \<and>
   verifyChainBinding endsHash demoProof [retold demoChain (endsHash (filled 2 @ filled 1))] (toHex (filled 9)) (toHex (filled 3)) = Inr () \<and>
   mainChainHeight endsHash [retold demoChain (endsHash (filled 2 @ filled 1))] = Some 1"
proof -
  have "deriveChain endsHash ([demoChain] ! 0) = Inr (3, endsHash (filled 2 @ filled 1))" by (simp add: demo_derive)
  from height_not_bound [OF demo_binding _ this _ length_endsHash(1)]
  have "verifyChainBinding endsHash demoProof [retold demoChain (endsHash (filled 2 @ filled 1))] (toHex (filled 9)) (toHex (filled 3)) = Inr ()"
    "deriveChain endsHash (retold demoChain (endsHash (filled 2 @ filled 1))) = Inr (1, endsHash (filled 2 @ filled 1))"
    by (simp_all add: demoChain_def)
  then show ?thesis by (simp add: mainChainHeight_def demo_derive) (simp add: demoChain_def retold_def)
qed

end
