(* ===== verification/EthTx.thy ===== *)
theory EthTx
  imports Rlp
begin

text \<open>
  The headers and transactions of \<open>packages/verify/src/s6/replay.ts\<close>, read as go-ethereum reads them: \<open>decodeS6Header\<close>,
  \<open>decodeS6Transaction\<close> with its five envelopes and the two network forms of a blob transaction, and the canonical encoder
  \<open>rlpEncodeItem\<close> a replay header is compared with. \<open>H\<close> is keccak-256. A block number is a \<open>nat\<close> (a bigint), \<open>numberU64\<close> its low
  64 bits; the chain id of a legacy transaction is computed with the 64-bit wrap-around of the source written out.
\<close>

section \<open>Errors\<close>

text \<open>The errors of the RLP reader, and those the transaction reader adds to them.\<close>

datatype tx_error =
    TxRlp rlp_error
  | TypedTooShort
  | TypeNotSupported
  | BlobVersion nat

section \<open>Headers\<close>

record s6_header =
  parentHash :: bytes
  root :: bytes
  number :: nat
  numberU64 :: nat
  hash :: bytes

definition skipE :: "'e + 'a \<Rightarrow> 'e + unit" where
  "skipE m = bindE m (\<lambda>_. Inr ())"

text \<open>The readers of the optional fields of a header, in order.\<close>

definition headerOpt :: "(item \<Rightarrow> rlp_error + unit) list" where
  "headerOpt =
     [\<lambda>x. skipE (uintOf x None), \<lambda>x. skipE (fixedOf x 32), \<lambda>x. skipE (uintOf x (Some 8)), \<lambda>x. skipE (uintOf x (Some 8)),
      \<lambda>x. skipE (fixedOf x 32), \<lambda>x. skipE (fixedOf x 32), \<lambda>x. skipE (fixedOf x 32), \<lambda>x. skipE (uintOf x (Some 8))]"

definition decodeS6Header :: "(bytes \<Rightarrow> bytes) \<Rightarrow> bytes \<Rightarrow> rlp_error + s6_header" where
  "decodeS6Header H raw =
     bindE (structItems raw 15 8) (\<lambda>it.
     bindE (fixedOf (it ! 0) 32) (\<lambda>parent.
     bindE (fixedOf (it ! 1) 32) (\<lambda>_.
     bindE (fixedOf (it ! 2) 20) (\<lambda>_.
     bindE (fixedOf (it ! 3) 32) (\<lambda>rt.
     bindE (fixedOf (it ! 4) 32) (\<lambda>_.
     bindE (fixedOf (it ! 5) 32) (\<lambda>_.
     bindE (fixedOf (it ! 6) 256) (\<lambda>_.
     bindE (uintOf (it ! 7) None) (\<lambda>_.
     bindE (uintOf (it ! 8) None) (\<lambda>n.
     bindE (uintOf (it ! 9) (Some 8)) (\<lambda>_.
     bindE (uintOf (it ! 10) (Some 8)) (\<lambda>_.
     bindE (uintOf (it ! 11) (Some 8)) (\<lambda>_.
     bindE (bytesOf (it ! 12)) (\<lambda>_.
     bindE (fixedOf (it ! 13) 32) (\<lambda>_.
     bindE (fixedOf (it ! 14) 8) (\<lambda>_.
     bindE (mapE (\<lambda>i. (headerOpt ! (i - 15)) (it ! i)) [15..<length it]) (\<lambda>_.
     Inr \<lparr> parentHash = parent, root = rt, number = n, numberU64 = n mod 2 ^ 64, hash = H raw \<rparr>)))))))))))))))))"

section \<open>Transactions\<close>

record s6_transaction =
  tx_hash :: bytes
  tx_to :: "bytes option"
  tx_chainId :: nat
  tx_data :: bytes

definition listOf :: "item \<Rightarrow> rlp_error + item list" where
  "listOf it = (if it_kind it \<noteq> KList then Inl ExpectedInputList else listItems (it_content it))"

text \<open>A list of fixed-size strings: \<open>for (const x of listOf(it)) fixedOf(x, n)\<close>.\<close>

definition fixedList :: "item \<Rightarrow> nat \<Rightarrow> rlp_error + unit" where
  "fixedList it n = bindE (listOf it) (\<lambda>xs. skipE (mapE (\<lambda>x. fixedOf x n) xs))"

definition accessTuple :: "item \<Rightarrow> rlp_error + unit" where
  "accessTuple t =
     bindE (listOf t) (\<lambda>tuple.
     guardE (length tuple < 2) TooFewElements
    (guardE (length tuple > 2) TooManyElements
    (bindE (fixedOf (tuple ! 0) 20) (\<lambda>_. fixedList (tuple ! 1) 32))))"

definition accessList :: "item \<Rightarrow> rlp_error + unit" where
  "accessList it = bindE (listOf it) (\<lambda>ts. skipE (mapE accessTuple ts))"

definition toNil :: "item \<Rightarrow> rlp_error + bytes option" where
  "toNil it = (if it_kind it = KString \<and> length (it_content it) = 0 then Inr None else bindE (fixedOf it 20) (\<lambda>a. Inr (Some a)))"

text \<open>The loop \<open>for (const i of is) uintOf(it[i], m)\<close>.\<close>

definition uintsAt :: "item list \<Rightarrow> nat list \<Rightarrow> nat option \<Rightarrow> rlp_error + unit" where
  "uintsAt it is m = skipE (mapE (\<lambda>i. uintOf (it ! i) m) is)"

definition blobTxFields :: "bytes \<Rightarrow> rlp_error + bytes \<times> nat \<times> bytes" where
  "blobTxFields enc =
     bindE (structItems enc 14 0) (\<lambda>it.
     bindE (uintOf (it ! 0) (Some 32)) (\<lambda>chainId.
     bindE (uintOf (it ! 1) (Some 8)) (\<lambda>_.
     bindE (uintOf (it ! 2) (Some 32)) (\<lambda>_.
     bindE (uintOf (it ! 3) (Some 32)) (\<lambda>_.
     bindE (uintOf (it ! 4) (Some 8)) (\<lambda>_.
     bindE (fixedOf (it ! 5) 20) (\<lambda>to.
     bindE (uintOf (it ! 6) (Some 32)) (\<lambda>_.
     bindE (bytesOf (it ! 7)) (\<lambda>data.
     bindE (accessList (it ! 8)) (\<lambda>_.
     bindE (uintOf (it ! 9) (Some 32)) (\<lambda>_.
     bindE (fixedList (it ! 10) 32) (\<lambda>_.
     bindE (uintsAt it [11, 12, 13] (Some 32)) (\<lambda>_.
     Inr (to, chainId, data))))))))))))))"

definition BLOB_BYTES :: nat where
  "BLOB_BYTES = 131072"

definition KZG_BYTES :: nat where
  "KZG_BYTES = 48"

text \<open>The three lists of a sidecar, from the index \<open>k\<close> on.\<close>

definition sidecar :: "item list \<Rightarrow> nat \<Rightarrow> rlp_error + unit" where
  "sidecar it k =
     bindE (fixedList (it ! k) BLOB_BYTES) (\<lambda>_.
     bindE (fixedList (it ! (k + 1)) KZG_BYTES) (\<lambda>_.
     fixedList (it ! (k + 2)) KZG_BYTES))"

definition blobTx :: "(bytes \<Rightarrow> bytes) \<Rightarrow> bytes \<Rightarrow> bytes \<times> nat \<times> bytes \<Rightarrow> s6_transaction" where
  "blobTx H inner = (\<lambda>(to, chainId, data). \<lparr> tx_hash = H (3 # inner), tx_to = Some to, tx_chainId = chainId, tx_data = data \<rparr>)"

definition decodeBlobTx :: "(bytes \<Rightarrow> bytes) \<Rightarrow> bytes \<Rightarrow> tx_error + s6_transaction" where
  "decodeBlobTx H body =
     bindE (mapErr TxRlp (split body)) (\<lambda>outer.
     guardE (it_kind outer \<noteq> KList) (TxRlp ExpectedList)
    (bindE (mapErr TxRlp (split (it_content outer))) (\<lambda>first.
     if it_kind first \<noteq> KList then bindE (mapErr TxRlp (blobTxFields body)) (\<lambda>t. Inr (blobTx H body t))
     else
     bindE (mapErr TxRlp (split (it_rest first))) (\<lambda>second.
     let v1 = it_kind second \<noteq> KList in
     bindE (mapErr TxRlp (structItems body (if v1 then 5 else 4) 0)) (\<lambda>it.
     let inner = take (length (it_content outer) - length (it_rest first)) (it_content outer) in
     bindE (mapErr TxRlp (blobTxFields inner)) (\<lambda>t.
     if v1 then
       bindE (mapErr TxRlp (uintOf (it ! 1) (Some 1))) (\<lambda>version.
       bindE (mapErr TxRlp (sidecar it 2)) (\<lambda>_.
       guardE (version \<noteq> 1) (BlobVersion version) (Inr (blobTx H inner t))))
     else bindE (mapErr TxRlp (sidecar it 1)) (\<lambda>_. Inr (blobTx H inner t))))))))"

text \<open>The chain id of a legacy transaction, from \<open>v\<close>: below 2^64 by 64-bit arithmetic (\<open>v - 35\<close> wraps), above it by the bigint.\<close>

definition legacyChainId :: "nat \<Rightarrow> nat" where
  "legacyChainId v =
     (if v < 2 ^ 64 then (if v = 27 \<or> v = 28 then 0 else nat ((int v - 35) mod 2 ^ 64) div 2)
      else nat (drop_bit 1 (int v - 35)))"

definition legacyTx :: "(bytes \<Rightarrow> bytes) \<Rightarrow> bytes \<Rightarrow> rlp_error + s6_transaction" where
  "legacyTx H b =
     bindE (structItems b 9 0) (\<lambda>it.
     bindE (uintOf (it ! 0) (Some 8)) (\<lambda>_.
     bindE (uintOf (it ! 1) None) (\<lambda>_.
     bindE (uintOf (it ! 2) (Some 8)) (\<lambda>_.
     bindE (toNil (it ! 3)) (\<lambda>to.
     bindE (uintOf (it ! 4) None) (\<lambda>_.
     bindE (bytesOf (it ! 5)) (\<lambda>data.
     bindE (uintOf (it ! 6) None) (\<lambda>v.
     bindE (uintOf (it ! 7) None) (\<lambda>_.
     bindE (uintOf (it ! 8) None) (\<lambda>_.
     Inr \<lparr> tx_hash = H b, tx_to = to, tx_chainId = legacyChainId v, tx_data = data \<rparr>))))))))))"

definition accessListTx :: "(bytes \<Rightarrow> bytes) \<Rightarrow> bytes \<Rightarrow> bytes \<Rightarrow> rlp_error + s6_transaction" where
  "accessListTx H b body =
     bindE (structItems body 11 0) (\<lambda>it.
     bindE (uintOf (it ! 0) None) (\<lambda>chainId.
     bindE (uintOf (it ! 1) (Some 8)) (\<lambda>_.
     bindE (uintOf (it ! 2) None) (\<lambda>_.
     bindE (uintOf (it ! 3) (Some 8)) (\<lambda>_.
     bindE (toNil (it ! 4)) (\<lambda>to.
     bindE (uintOf (it ! 5) None) (\<lambda>_.
     bindE (bytesOf (it ! 6)) (\<lambda>data.
     bindE (accessList (it ! 7)) (\<lambda>_.
     bindE (uintsAt it [8, 9, 10] None) (\<lambda>_.
     Inr \<lparr> tx_hash = H b, tx_to = to, tx_chainId = chainId, tx_data = data \<rparr>))))))))))"

definition dynamicFeeTx :: "(bytes \<Rightarrow> bytes) \<Rightarrow> bytes \<Rightarrow> bytes \<Rightarrow> rlp_error + s6_transaction" where
  "dynamicFeeTx H b body =
     bindE (structItems body 12 0) (\<lambda>it.
     bindE (uintOf (it ! 0) None) (\<lambda>chainId.
     bindE (uintOf (it ! 1) (Some 8)) (\<lambda>_.
     bindE (uintOf (it ! 2) None) (\<lambda>_.
     bindE (uintOf (it ! 3) None) (\<lambda>_.
     bindE (uintOf (it ! 4) (Some 8)) (\<lambda>_.
     bindE (toNil (it ! 5)) (\<lambda>to.
     bindE (uintOf (it ! 6) None) (\<lambda>_.
     bindE (bytesOf (it ! 7)) (\<lambda>data.
     bindE (accessList (it ! 8)) (\<lambda>_.
     bindE (uintsAt it [9, 10, 11] None) (\<lambda>_.
     Inr \<lparr> tx_hash = H b, tx_to = to, tx_chainId = chainId, tx_data = data \<rparr>)))))))))))"

definition authorization :: "item \<Rightarrow> rlp_error + unit" where
  "authorization a =
     bindE (listOf a) (\<lambda>au.
     guardE (length au < 6) TooFewElements
    (guardE (length au > 6) TooManyElements
    (bindE (uintOf (au ! 0) (Some 32)) (\<lambda>_.
     bindE (fixedOf (au ! 1) 20) (\<lambda>_.
     bindE (uintOf (au ! 2) (Some 8)) (\<lambda>_.
     bindE (uintOf (au ! 3) (Some 1)) (\<lambda>_.
     bindE (uintOf (au ! 4) (Some 32)) (\<lambda>_.
     skipE (uintOf (au ! 5) (Some 32))))))))))"

definition setCodeTx :: "(bytes \<Rightarrow> bytes) \<Rightarrow> bytes \<Rightarrow> bytes \<Rightarrow> rlp_error + s6_transaction" where
  "setCodeTx H b body =
     bindE (structItems body 13 0) (\<lambda>it.
     bindE (uintOf (it ! 0) (Some 32)) (\<lambda>chainId.
     bindE (uintOf (it ! 1) (Some 8)) (\<lambda>_.
     bindE (uintOf (it ! 2) (Some 32)) (\<lambda>_.
     bindE (uintOf (it ! 3) (Some 32)) (\<lambda>_.
     bindE (uintOf (it ! 4) (Some 8)) (\<lambda>_.
     bindE (fixedOf (it ! 5) 20) (\<lambda>to.
     bindE (uintOf (it ! 6) (Some 32)) (\<lambda>_.
     bindE (bytesOf (it ! 7)) (\<lambda>data.
     bindE (accessList (it ! 8)) (\<lambda>_.
     bindE (bindE (listOf (it ! 9)) (mapE authorization)) (\<lambda>_.
     bindE (uintsAt it [10, 11, 12] (Some 32)) (\<lambda>_.
     Inr \<lparr> tx_hash = H b, tx_to = Some to, tx_chainId = chainId, tx_data = data \<rparr>))))))))))))"

definition decodeS6Transaction :: "(bytes \<Rightarrow> bytes) \<Rightarrow> bytes \<Rightarrow> tx_error + s6_transaction" where
  "decodeS6Transaction H b =
     (if length b > 0 \<and> b ! 0 > 0x7f then mapErr TxRlp (legacyTx H b)
      else if length b \<le> 1 then Inl TypedTooShort
      else if b ! 0 = 1 then mapErr TxRlp (accessListTx H b (drop 1 b))
      else if b ! 0 = 2 then mapErr TxRlp (dynamicFeeTx H b (drop 1 b))
      else if b ! 0 = 3 then decodeBlobTx H (drop 1 b)
      else if b ! 0 = 4 then mapErr TxRlp (setCodeTx H b (drop 1 b))
      else Inl TypeNotSupported)"

section \<open>The canonical encoder\<close>

text \<open>
  \<open>rlpEncodeItem\<close>: a list is rebuilt from the encodings of its items, a byte and a short string keep their own form. The head is the
  short one below 56 bytes and the minimal big-endian length above (\<open>min_be\<close> is the loop of the source).
\<close>

definition encodeHead :: "nat \<Rightarrow> nat \<Rightarrow> bytes" where
  "encodeHead short n =
     (if n < 56 then [of_nat (short + n)] else let len = min_be n in of_nat (short + 55 + length len) # len)"

lemma listItems_item:
  assumes "listItems c = Inr its" and "x \<in> set its"
  shows "kind_ok (it_kind x) (it_content x)" and "it_raw x = rlp_of (it_kind x) (it_content x)" and "length (it_content x) < 256 ^ 8"
proof -
  have "\<exists>b. split b = Inr x"
    using assms by (induction c arbitrary: its rule: listItems.induct)
      (subst (asm) (2) listItems.simps, fastforce simp: results split: if_splits)
  then show "kind_ok (it_kind x) (it_content x)" and "it_raw x = rlp_of (it_kind x) (it_content x)" and "length (it_content x) < 256 ^ 8"
    by (auto simp: split_iff)
qed

lemma list_item_measure:
  assumes "listItems c = Inr its" and "x \<in> set its"
  shows "2 * length (it_content x) + (if it_kind x = KList then 1 else 0) < 2 * length c + 1"
proof -
  obtain ys zs where "its = ys @ x # zs" using split_list [OF assms(2)] by blast
  then have "c = concat (map it_raw ys) @ it_raw x @ concat (map it_raw zs)"
    using listItems_concat [OF assms(1)] by simp
  then have "length (it_raw x) \<le> length c" by simp
  moreover have "length (it_content x) + (if it_kind x = KList then 1 else 0) \<le> length (it_raw x)"
    using listItems_item(1,2) [OF assms] by (auto simp: rlp_of_def rlp_list_def rlp_string_def rlp_head_def)
  ultimately show ?thesis by (auto split: if_splits)
qed

function rlpEncodeItem :: "item \<Rightarrow> rlp_error + bytes" where
  "rlpEncodeItem it =
     (if it_kind it = KByte then Inr (it_content it)
      else if it_kind it = KList then
        bindE (listItems (it_content it)) (\<lambda>xs.
        bindE (mapE rlpEncodeItem xs) (\<lambda>parts.
        let body = concat parts in Inr (encodeHead 0xc0 (length body) @ body)))
      else if length (it_content it) = 1 \<and> it_content it ! 0 < 0x80 then Inr (it_content it)
      else Inr (encodeHead 0x80 (length (it_content it)) @ it_content it))"
  by pat_completeness auto
termination
  by (relation "measure (\<lambda>it. 2 * length (it_content it) + (if it_kind it = KList then 1 else 0))")
    (auto dest: list_item_measure)

declare rlpEncodeItem.simps [simp del]

section \<open>The encoder rebuilds what the reader accepted\<close>

lemma encodeHead_rlp_head: "encodeHead base n = rlp_head base n"
  by (simp add: encodeHead_def rlp_head_def Let_def)

lemma mapE_raw:
  assumes "mapE f xs = Inr ys" and "\<And>x y. x \<in> set xs \<Longrightarrow> f x = Inr y \<Longrightarrow> y = g x"
  shows "ys = map g xs"
  using assms by (induction xs arbitrary: ys) (auto simp: results)

lemma rlpEncodeItem_raw:
  assumes "kind_ok (it_kind it) (it_content it)" and "it_raw it = rlp_of (it_kind it) (it_content it)"
  shows "rlpEncodeItem it = Inr b \<Longrightarrow> b = it_raw it"
  using assms
proof (induction it arbitrary: b rule: rlpEncodeItem.induct)
  case (1 it)
  show ?case
  proof (cases "it_kind it")
    case KList
    then obtain xs parts where xs: "listItems (it_content it) = Inr xs" "mapE rlpEncodeItem xs = Inr parts"
      and b: "b = encodeHead 0xc0 (length (concat parts)) @ concat parts"
      using "1.prems"(1) by (auto simp: rlpEncodeItem.simps [of it] results Let_def)
    have "parts = map it_raw xs"
      by (rule mapE_raw [OF xs(2)]) (auto intro: "1.IH" [OF _ KList xs(1)] listItems_item(1,2) [OF xs(1)] simp: KList)
    then have "concat parts = it_content it" using listItems_concat [OF xs(1)] by simp
    then show ?thesis using b KList "1.prems"(3) by (simp add: encodeHead_rlp_head rlp_of_def rlp_list_def)
  next
    case KByte
    then show ?thesis using "1.prems" by (simp add: rlpEncodeItem.simps [of it] rlp_of_def rlp_string_def kind_ok_def)
  next
    case KString
    then have "\<not> (length (it_content it) = 1 \<and> it_content it ! 0 < 0x80)"
      using "1.prems"(2) by (auto simp: kind_ok_def length_Suc_conv)
    then show ?thesis using "1.prems" KString
      by (auto simp: rlpEncodeItem.simps [of it] rlp_of_def rlp_string_def encodeHead_rlp_head length_Suc_conv)
  qed
qed

section \<open>What a header is\<close>

text \<open>The payload a field of a header takes: a fixed number of bytes, a number without leading zeros, or any string.\<close>

datatype shape = Exact nat | Uint "nat option" | AnyBytes

fun fits :: "shape \<Rightarrow> bytes \<Rightarrow> bool" where
  "fits (Exact n) c = (length c = n)"
| "fits (Uint m) c = ((c = [] \<or> hd c \<noteq> 0) \<and> (case m of None \<Rightarrow> True | Some k \<Rightarrow> length c \<le> k))"
| "fits AnyBytes c = True"

definition headerShape :: "shape list" where
  "headerShape =
     [Exact 32, Exact 32, Exact 20, Exact 32, Exact 32, Exact 32, Exact 256, Uint None, Uint None, Uint (Some 8), Uint (Some 8),
      Uint (Some 8), AnyBytes, Exact 32, Exact 8,
      Uint None, Exact 32, Uint (Some 8), Uint (Some 8), Exact 32, Exact 32, Exact 32, Uint (Some 8)]"

definition plain :: "item \<Rightarrow> bool" where
  "plain x \<longleftrightarrow> it_kind x \<noteq> KList \<and> kind_ok (it_kind x) (it_content x)"

lemma plain_fixedOf: "kind_ok (it_kind x) (it_content x) \<Longrightarrow> n \<noteq> 1 \<Longrightarrow>
    fixedOf x n = Inr v \<longleftrightarrow> plain x \<and> fits (Exact n) (it_content x) \<and> v = it_content x"
  by (auto simp: plain_def fixedOf_def kind_ok_def)

lemma plain_uintOf: "kind_ok (it_kind x) (it_content x) \<Longrightarrow> m \<noteq> Some 0 \<Longrightarrow>
    uintOf x m = Inr v \<longleftrightarrow> plain x \<and> fits (Uint m) (it_content x) \<and> v = be_nat (it_content x)"
  by (auto simp: plain_def uintOf_def kind_ok_def Let_def length_Suc_conv hd_conv_nth split: option.splits if_splits)

lemma plain_bytesOf: "kind_ok (it_kind x) (it_content x) \<Longrightarrow>
    bytesOf x = Inr v \<longleftrightarrow> plain x \<and> fits AnyBytes (it_content x) \<and> v = it_content x"
  by (auto simp: plain_def bytesOf_def)

lemma skipE_iff: "skipE m = Inr u \<longleftrightarrow> (\<exists>x. m = Inr x)"
  by (cases m) (auto simp: skipE_def)

lemmas plain_readers = plain_fixedOf plain_uintOf plain_bytesOf skipE_iff

lemma headerOpt_fits:
  assumes "kind_ok (it_kind x) (it_content x)" and "j < 8"
  shows "(headerOpt ! j) x = Inr u \<longleftrightarrow> plain x \<and> fits (headerShape ! (j + 15)) (it_content x)"
proof -
  from assms(2) consider "j = 0" | "j = 1" | "j = 2" | "j = 3" | "j = 4" | "j = 5" | "j = 6" | "j = 7" by linarith
  then show ?thesis using assms(1) by cases (simp_all add: headerOpt_def headerShape_def plain_readers del: fits.simps)
qed

lemma structItems_iff:
  "structItems buf n m = Inr its \<longleftrightarrow>
     n \<le> length its \<and> length its \<le> n + m \<and> (\<exists>c. buf = rlp_list c \<and> length c < 256 ^ 8 \<and> listItems c = Inr its)"
proof -
  have "decodeList buf = Inr its \<longleftrightarrow> (\<exists>c. buf = rlp_list c \<and> length c < 256 ^ 8 \<and> listItems c = Inr its)"
  proof
    assume "decodeList buf = Inr its"
    then obtain it where "split buf = Inr it" "it_rest it = []" "it_kind it = KList" "listItems (it_content it) = Inr its"
      by (auto simp: decodeList_def results split: if_splits)
    then show "\<exists>c. buf = rlp_list c \<and> length c < 256 ^ 8 \<and> listItems c = Inr its" by (auto simp: split_iff rlp_of_def)
  next
    assume "\<exists>c. buf = rlp_list c \<and> length c < 256 ^ 8 \<and> listItems c = Inr its"
    then obtain c where c: "buf = rlp_list c" "length c < 256 ^ 8" "listItems c = Inr its" by blast
    have "split buf = Inr \<lparr>it_kind = KList, it_content = c, it_rest = [], it_raw = rlp_list c\<rparr>"
      using split_rlp_of [of KList c "[]"] c(1,2) by (simp add: kind_ok_def rlp_of_def)
    then show "decodeList buf = Inr its" using c(3) by (simp add: decodeList_def)
  qed
  moreover have "structItems buf n m = Inr its \<longleftrightarrow> n \<le> length its \<and> length its \<le> n + m \<and> decodeList buf = Inr its"
    by (cases "decodeList buf") (auto simp: structItems_def)
  ultimately show ?thesis by blast
qed

lemma structItems_ok:
  assumes "structItems buf n m = Inr its" and "x \<in> set its"
  shows "kind_ok (it_kind x) (it_content x)"
  using assms listItems_item(1) by (auto simp: structItems_iff)

lemma less_15: "(\<forall>i < 15. P i) \<longleftrightarrow> P 0 \<and> P 1 \<and> P 2 \<and> P 3 \<and> P 4 \<and> P 5 \<and> P 6 \<and> P 7 \<and> P 8 \<and> P 9 \<and> P 10 \<and> P 11 \<and> P 12 \<and> P 13 \<and> P (14::nat)"
  by (simp add: numeral_eq_Suc All_less_Suc) blast

definition headerOf :: "(bytes \<Rightarrow> bytes) \<Rightarrow> bytes \<Rightarrow> bytes list \<Rightarrow> s6_header" where
  "headerOf H raw cs =
     \<lparr> parentHash = cs ! 0, root = cs ! 3, number = be_nat (cs ! 8), numberU64 = be_nat (cs ! 8) mod 2 ^ 64, hash = H raw \<rparr>"

lemma header_reads:
  assumes "structItems raw 15 8 = Inr its"
  shows "decodeS6Header H raw = Inr h \<longleftrightarrow>
    (\<forall>i < length its. plain (its ! i) \<and> fits (headerShape ! i) (it_content (its ! i))) \<and> h = headerOf H raw (map it_content its)"
proof -
  have len: "15 \<le> length its" "length its \<le> 23" using assms by (auto simp: structItems_iff)
  have ok: "kind_ok (it_kind (its ! i)) (it_content (its ! i))" if "i < length its" for i
    using structItems_ok [OF assms nth_mem [OF that]] .
  have oks: "\<forall>i < 15. kind_ok (it_kind (its ! i)) (it_content (its ! i))" using ok len by auto
  have opt: "(headerOpt ! (i - 15)) (its ! i) = Inr u \<longleftrightarrow> plain (its ! i) \<and> fits (headerShape ! i) (it_content (its ! i))"
    if "i \<in> set [15..<length its]" for i u
    using headerOpt_fits [OF ok, of i "i - 15" u] that len by auto
  have tail: "(\<exists>us. mapE (\<lambda>i. (headerOpt ! (i - 15)) (its ! i)) [15..<length its] = Inr us) \<longleftrightarrow>
      (\<forall>i < length its. 15 \<le> i \<longrightarrow> plain (its ! i) \<and> fits (headerShape ! i) (it_content (its ! i)))" (is "?l \<longleftrightarrow> ?r")
  proof
    assume ?l
    then obtain us where us: "list_all2 (\<lambda>i u. (headerOpt ! (i - 15)) (its ! i) = Inr u) [15..<length its] us" by (auto simp: mapE_Inr_iff)
    show ?r
    proof (intro allI impI)
      fix i assume i: "i < length its" "15 \<le> i"
      then have "(headerOpt ! (i - 15)) (its ! i) = Inr (us ! (i - 15))"
        using list_all2_nthD [OF us, of "i - 15"] by simp
      then show "plain (its ! i) \<and> fits (headerShape ! i) (it_content (its ! i))" using opt i by auto
    qed
  next
    assume ?r
    then have "list_all2 (\<lambda>i u. (headerOpt ! (i - 15)) (its ! i) = Inr u) [15..<length its] (replicate (length its - 15) ())"
      by (intro list_all2_all_nthI) (use opt [of "15 + i" for i] in \<open>simp_all\<close>)
    then show ?l by (auto simp: mapE_Inr_iff)
  qed
  have all: "(\<forall>i < length its. Q i) \<longleftrightarrow> (\<forall>i < 15. Q i) \<and> (\<forall>i < length its. 15 \<le> i \<longrightarrow> Q i)" for Q
    using len by (metis not_less order_less_le_trans)
  have shape: "headerShape ! 0 = Exact 32" "headerShape ! 1 = Exact 32" "headerShape ! 2 = Exact 20" "headerShape ! 3 = Exact 32"
    "headerShape ! 4 = Exact 32" "headerShape ! 5 = Exact 32" "headerShape ! 6 = Exact 256" "headerShape ! 7 = Uint None"
    "headerShape ! 8 = Uint None" "headerShape ! 9 = Uint (Some 8)" "headerShape ! 10 = Uint (Some 8)" "headerShape ! 11 = Uint (Some 8)"
    "headerShape ! 12 = AnyBytes" "headerShape ! 13 = Exact 32" "headerShape ! 14 = Exact 8"
    by (simp_all add: headerShape_def)
  have nths: "map it_content its ! 0 = it_content (its ! 0)" "map it_content its ! 3 = it_content (its ! 3)"
    "map it_content its ! 8 = it_content (its ! 8)"
    using len nth_map [of 0 its it_content] nth_map [of 3 its it_content] nth_map [of 8 its it_content] by linarith+
  have "decodeS6Header H raw = Inr h \<longleftrightarrow>
      (\<forall>i < 15. plain (its ! i) \<and> fits (headerShape ! i) (it_content (its ! i))) \<and>
      (\<exists>us. mapE (\<lambda>i. (headerOpt ! (i - 15)) (its ! i)) [15..<length its] = Inr us) \<and> h = headerOf H raw (map it_content its)"
    using oks len unfolding less_15 shape decodeS6Header_def assms
    by (auto simp: results plain_readers headerOf_def nths simp del: fits.simps)
  then show ?thesis unfolding tail by (subst all) blast
qed

lemma length_rlp_string: "length c \<le> length (rlp_string c)"
  by (simp add: rlp_string_def)

lemma listItems_strings:
  assumes "length (concat (map rlp_string cs)) < 256 ^ 8"
  shows "\<exists>its. listItems (concat (map rlp_string cs)) = Inr its \<and> map it_content its = cs \<and> (\<forall>x \<in> set its. plain x)"
  using assms
proof (induction cs)
  case Nil
  show ?case by simp
next
  case (Cons c cs)
  define k where "k = (if length c = 1 \<and> hd c < 0x80 then KByte else KString)"
  have k: "kind_ok k c" "rlp_of k c = rlp_string c" "k \<noteq> KList" by (auto simp: k_def kind_ok_def rlp_of_def)
  have "length c < 256 ^ 8" using Cons.prems length_rlp_string [of c] by simp
  then have sp: "split (concat (map rlp_string (c # cs))) =
      Inr \<lparr>it_kind = k, it_content = c, it_rest = concat (map rlp_string cs), it_raw = rlp_string c\<rparr>"
    using split_rlp_of [OF k(1)] k(2) by simp
  obtain its where its: "listItems (concat (map rlp_string cs)) = Inr its" "map it_content its = cs" "\<forall>x \<in> set its. plain x"
    using Cons.IH Cons.prems by auto
  have "concat (map rlp_string (c # cs)) \<noteq> []" using rlp_of_nonempty [OF k(1)] k(2) by simp
  then show ?case using sp its k by (subst listItems.simps) (auto simp: plain_def intro!: exI [of _ "_ # its"])
qed

lemma fits_all:
  assumes "length its \<le> length sh"
  shows "list_all2 fits (take (length its) sh) (map it_content its) \<longleftrightarrow> (\<forall>i < length its. fits (sh ! i) (it_content (its ! i)))"
  using assms by (auto simp: list_all2_conv_all_nth)

lemma length_headerShape: "length headerShape = 23"
  by (simp add: headerShape_def)

lemma header_iff:
  "decodeS6Header H raw = Inr h \<longleftrightarrow>
     (\<exists>cs. 15 \<le> length cs \<and> length cs \<le> 23 \<and> list_all2 fits (take (length cs) headerShape) cs \<and>
       length (concat (map rlp_string cs)) < 256 ^ 8 \<and> raw = rlp_list (concat (map rlp_string cs)) \<and> h = headerOf H raw cs)"
proof
  assume h: "decodeS6Header H raw = Inr h"
  then obtain its where its: "structItems raw 15 8 = Inr its" by (auto simp: decodeS6Header_def results)
  then obtain c where c: "raw = rlp_list c" "length c < 256 ^ 8" "listItems c = Inr its" and len: "15 \<le> length its" "length its \<le> 23"
    by (auto simp: structItems_iff)
  have f: "\<forall>i < length its. plain (its ! i) \<and> fits (headerShape ! i) (it_content (its ! i))" "h = headerOf H raw (map it_content its)"
    using h header_reads [OF its] by auto
  then have "\<forall>x \<in> set its. plain x" by (auto simp: in_set_conv_nth)
  then have "map it_raw its = map (rlp_string \<circ> it_content) its"
    using listItems_item(2) [OF c(3)] by (auto simp: plain_def rlp_of_def)
  then have "concat (map rlp_string (map it_content its)) = c"
    using listItems_concat [OF c(3)] by (simp only: map_map)
  then show "\<exists>cs. 15 \<le> length cs \<and> length cs \<le> 23 \<and> list_all2 fits (take (length cs) headerShape) cs \<and>
       length (concat (map rlp_string cs)) < 256 ^ 8 \<and> raw = rlp_list (concat (map rlp_string cs)) \<and> h = headerOf H raw cs"
    using c len f fits_all [of its headerShape] length_headerShape by (intro exI [of _ "map it_content its"]) auto
next
  assume "\<exists>cs. 15 \<le> length cs \<and> length cs \<le> 23 \<and> list_all2 fits (take (length cs) headerShape) cs \<and>
       length (concat (map rlp_string cs)) < 256 ^ 8 \<and> raw = rlp_list (concat (map rlp_string cs)) \<and> h = headerOf H raw cs"
  then obtain cs where cs: "15 \<le> length cs" "length cs \<le> 23" "list_all2 fits (take (length cs) headerShape) cs"
    "length (concat (map rlp_string cs)) < 256 ^ 8" "raw = rlp_list (concat (map rlp_string cs))" "h = headerOf H raw cs" by blast
  obtain its where its: "listItems (concat (map rlp_string cs)) = Inr its" "map it_content its = cs" "\<forall>x \<in> set its. plain x"
    using listItems_strings [OF cs(4)] by blast
  have len: "length its = length cs" using its(2) by auto
  have "structItems raw 15 8 = Inr its" using its cs len by (auto simp: structItems_iff)
  moreover have "\<forall>i < length its. fits (headerShape ! i) (it_content (its ! i))"
    using fits_all [of its headerShape] cs(2,3) its(2) len length_headerShape by simp
  ultimately show "decodeS6Header H raw = Inr h"
    using header_reads its cs(6) by simp
qed

text \<open>
  A header is accepted exactly when its bytes are the one canonical list of 15 to 23 strings with the payload each field takes (fixed
  lengths, numbers without leading zeros of at most the field's bytes), and what is read is the payloads at the header's positions.
\<close>

theorem decodeS6Header_exact:
  "decodeS6Header H raw = Inr h \<longleftrightarrow>
     (\<exists>cs. 15 \<le> length cs \<and> length cs \<le> 23 \<and> list_all2 fits (take (length cs) headerShape) cs \<and>
       length (concat (map rlp_string cs)) < 256 ^ 8 \<and> raw = rlp_list (concat (map rlp_string cs)) \<and> h = headerOf H raw cs)"
  by (rule header_iff)

text \<open>The canonical check of a replay header cannot fail: an accepted header is its own re-encoding.\<close>

lemma rlpEncodeItem_plain: "plain x \<Longrightarrow> it_raw x = rlp_of (it_kind x) (it_content x) \<Longrightarrow> rlpEncodeItem x = Inr (it_raw x)"
  using rlpEncodeItem_raw [of x] by (cases "rlpEncodeItem x") (auto simp: plain_def rlpEncodeItem.simps [of x] split: if_splits)

lemma header_reencodes:
  assumes "decodeS6Header H raw = Inr h"
  shows "\<exists>it. split raw = Inr it \<and> rlpEncodeItem it = Inr raw"
proof -
  obtain cs where c: "length (concat (map rlp_string cs)) < 256 ^ 8" "raw = rlp_list (concat (map rlp_string cs))"
    using assms by (auto simp: header_iff)
  obtain its where its: "listItems (concat (map rlp_string cs)) = Inr its" "\<forall>x \<in> set its. plain x"
    using listItems_strings [OF c(1)] by blast
  let ?it = "\<lparr>it_kind = KList, it_content = concat (map rlp_string cs), it_rest = [], it_raw = raw\<rparr>"
  have sp: "split raw = Inr ?it"
    using split_rlp_of [of KList "concat (map rlp_string cs)" "[]"] c by (simp add: kind_ok_def rlp_of_def)
  have "mapE rlpEncodeItem its = Inr (map it_raw its)"
    using its(2) rlpEncodeItem_plain listItems_item(2) [OF its(1)] by (auto simp: mapE_Inr_iff list_all2_conv_all_nth)
  then have "\<exists>b. rlpEncodeItem ?it = Inr b" using its(1) by (simp add: rlpEncodeItem.simps [of ?it] Let_def)
  then obtain b where b: "rlpEncodeItem ?it = Inr b" by blast
  then have "b = it_raw ?it" by (rule rlpEncodeItem_raw [rotated 2]) (simp_all add: kind_ok_def c(2) rlp_of_def)
  then show ?thesis using sp b by auto
qed

section \<open>Chain ids\<close>

text \<open>
  The chain id of a legacy transaction inverts EIP-155 for every chain id, on both sides of the 2^64 the source switches its arithmetic
  at, and is 0 for the two values of \<open>v\<close> from before EIP-155.
\<close>

theorem legacyChainId_inverts:
  "legacyChainId (35 + 2 * c) = c \<and> legacyChainId (36 + 2 * c) = c \<and> legacyChainId 27 = 0 \<and> legacyChainId 28 = 0"
proof -
  have a: "legacyChainId v = (v - 35) div 2" if "35 \<le> v" for v
  proof -
    have i: "int v - 35 = int (v - 35)" using that by simp
    show ?thesis
    proof (cases "v < 2 ^ 64")
      case True
      then have "int (v - 35) mod 2 ^ 64 = int (v - 35)" by (intro mod_pos_pos_trivial) auto
      then show ?thesis using True that unfolding legacyChainId_def i by simp
    next
      case False
      have "drop_bit 1 (int (v - 35)) = int ((v - 35) div 2)" by (simp add: drop_bit_eq_div zdiv_int)
      then show ?thesis using False unfolding legacyChainId_def i by (simp only: if_False nat_int)
    qed
  qed
  show ?thesis using a [of "35 + 2 * c"] a [of "36 + 2 * c"] by (simp add: legacyChainId_def)
qed

section \<open>The forms of a blob transaction\<close>

definition strings :: "bytes list \<Rightarrow> bytes" where
  "strings xs = rlp_list (concat (map rlp_string xs))"

text \<open>The canonical form, and its network forms with a sidecar: version 0, and version 1 with its version byte.\<close>

definition blobForm :: "bytes \<Rightarrow> bytes \<Rightarrow> bool" where
  "blobForm canon body \<longleftrightarrow>
     body = canon \<or>
     (\<exists>v blobs commitments proofs. (v = [] \<or> v = [1]) \<and> list_all (\<lambda>x. length x = 131072) blobs \<and>
        list_all (\<lambda>x. length x = 48) commitments \<and> list_all (\<lambda>x. length x = 48) proofs \<and>
        length (canon @ v @ strings blobs @ strings commitments @ strings proofs) < 256 ^ 8 \<and>
        body = rlp_list (canon @ v @ strings blobs @ strings commitments @ strings proofs))"

lemma fixedList_iff:
  assumes "length (it_content x) < 256 ^ 8" and "n \<noteq> 1"
  shows "fixedList x n = Inr u \<longleftrightarrow>
    it_kind x = KList \<and> (\<exists>xs. it_content x = concat (map rlp_string xs) \<and> list_all (\<lambda>x. length x = n) xs)" (is "?l \<longleftrightarrow> ?r")
proof
  assume ?l
  then obtain its vs where its: "it_kind x = KList" "listItems (it_content x) = Inr its" "mapE (\<lambda>x. fixedOf x n) its = Inr vs"
    by (auto simp: fixedList_def listOf_def results skipE_iff split: if_splits)
  have f: "plain y \<and> length (it_content y) = n" if y: "y \<in> set its" for y
  proof -
    obtain v where "fixedOf y n = Inr v" using its(3) y by (auto simp: mapE_Inr_iff list_all2_conv_all_nth in_set_conv_nth)
    then show ?thesis using plain_fixedOf [OF listItems_item(1) [OF its(2) y] assms(2)] by auto
  qed
  then have "map it_raw its = map (rlp_string \<circ> it_content) its"
    using listItems_item(2) [OF its(2)] by (auto simp: plain_def rlp_of_def)
  then have "it_content x = concat (map rlp_string (map it_content its))"
    using listItems_concat [OF its(2)] by (simp only: map_map)
  then show ?r using its(1) f by (intro conjI exI [of _ "map it_content its"]) (auto simp: list_all_iff)
next
  assume ?r
  then obtain xs where xs: "it_kind x = KList" "it_content x = concat (map rlp_string xs)" "list_all (\<lambda>x. length x = n) xs" by blast
  obtain its where its: "listItems (it_content x) = Inr its" "map it_content its = xs" "\<forall>x \<in> set its. plain x"
    using listItems_strings [of xs] assms(1) xs(2) by auto
  have "fixedOf y n = Inr (it_content y)" if "y \<in> set its" for y
    using plain_fixedOf [of y n "it_content y"] its that xs(3) assms(2) by (auto simp: plain_def list_all_iff)
  then have "mapE (\<lambda>x. fixedOf x n) its = Inr xs" using its(2) by (auto simp: mapE_Inr_iff list_all2_conv_all_nth)
  then show ?l using xs(1) its(1) by (simp add: fixedList_def listOf_def skipE_iff)
qed

lemma fixedList_strings:
  assumes "fixedList x n = Inr u" and "n \<noteq> 1" and "length (it_content x) < 256 ^ 8" and "it_raw x = rlp_of (it_kind x) (it_content x)"
  shows "\<exists>xs. list_all (\<lambda>x. length x = n) xs \<and> it_raw x = strings xs"
proof -
  obtain xs where "it_kind x = KList" "it_content x = concat (map rlp_string xs)" "list_all (\<lambda>x. length x = n) xs"
    using assms(1) fixedList_iff [OF assms(3,2)] by blast
  then show ?thesis using assms(4) by (intro exI [of _ xs]) (simp add: strings_def rlp_of_def)
qed

lemma sidecar_strings:
  assumes "sidecar its k = Inr u" and at: "its ! k = a" "its ! (k + 1) = b" "its ! (k + 2) = p"
    and item: "\<And>x. x \<in> {a, b, p} \<Longrightarrow> length (it_content x) < 256 ^ 8 \<and> it_raw x = rlp_of (it_kind x) (it_content x)"
  obtains blobs commitments proofs where "list_all (\<lambda>x. length x = 131072) blobs" and "list_all (\<lambda>x. length x = 48) commitments"
    and "list_all (\<lambda>x. length x = 48) proofs" and "it_raw a = strings blobs" and "it_raw b = strings commitments" and "it_raw p = strings proofs"
proof -
  obtain u v w where r: "fixedList a 131072 = Inr u" "fixedList b 48 = Inr v" "fixedList p 48 = Inr w"
    using assms(1) at by (auto simp: sidecar_def results BLOB_BYTES_def KZG_BYTES_def)
  have "\<exists>xs. list_all (\<lambda>x. length x = 131072) xs \<and> it_raw a = strings xs" "\<exists>xs. list_all (\<lambda>x. length x = 48) xs \<and> it_raw b = strings xs"
    "\<exists>xs. list_all (\<lambda>x. length x = 48) xs \<and> it_raw p = strings xs"
    using fixedList_strings [OF r(1)] fixedList_strings [OF r(2)] fixedList_strings [OF r(3)] item by simp_all
  with that show thesis by blast
qed

lemma listItems_Cons:
  "listItems b = Inr (x # its) \<longleftrightarrow> b \<noteq> [] \<and> split b = Inr x \<and> listItems (it_rest x) = Inr its"
  by (subst listItems.simps) (auto simp: results)

lemma listItems_Nil_iff: "listItems b = Inr [] \<longleftrightarrow> b = []"
  by (subst listItems.simps) (auto simp: results)

lemma split_strings:
  assumes "length (concat (map rlp_string xs)) < 256 ^ 8"
  shows "split (strings xs @ r) = Inr \<lparr>it_kind = KList, it_content = concat (map rlp_string xs), it_rest = r, it_raw = strings xs\<rparr>"
  using split_rlp_of [of KList "concat (map rlp_string xs)" r] assms by (simp add: kind_ok_def rlp_of_def strings_def)

lemma length_strings: "length (concat (map rlp_string xs)) < length (strings xs)"
  by (simp add: strings_def rlp_list_def rlp_head_def)

lemma blobTxFields_list:
  assumes "blobTxFields canon = Inr f"
  obtains d where "canon = rlp_list d" and "length d < 256 ^ 8" and "\<exists>it. split d = Inr it \<and> it_kind it \<noteq> KList"
proof -
  obtain its where its: "structItems canon 14 0 = Inr its" and u: "\<exists>n. uintOf (its ! 0) (Some 32) = Inr n"
    using assms by (auto simp: blobTxFields_def results)
  obtain d where d: "canon = rlp_list d" "length d < 256 ^ 8" "listItems d = Inr its" and len: "length its = 14"
    using its by (auto simp: structItems_iff)
  then obtain x xs where x: "its = x # xs" by (cases its) auto
  have "it_kind x \<noteq> KList" using u x by (auto simp: uintOf_def)
  moreover have "split d = Inr x" using d(3) x by (simp add: listItems_Cons)
  ultimately show thesis using that d by blast
qed

lemma decodeBlobTx_canonical:
  assumes "blobTxFields canon = Inr f"
  shows "decodeBlobTx H canon = Inr (blobTx H canon f)"
proof -
  obtain d it where d: "canon = rlp_list d" "length d < 256 ^ 8" "split d = Inr it" "it_kind it \<noteq> KList"
    using assms by (rule blobTxFields_list) blast
  have "split canon = Inr \<lparr>it_kind = KList, it_content = d, it_rest = [], it_raw = canon\<rparr>"
    using split_rlp_of [of KList d "[]"] d by (simp add: kind_ok_def rlp_of_def)
  then show ?thesis using d assms by (simp add: decodeBlobTx_def)
qed

lemma decodeBlobTx_network:
  assumes f: "blobTxFields canon = Inr f" and v: "v = [] \<or> v = [1]"
    and sizes: "list_all (\<lambda>x. length x = 131072) blobs" "list_all (\<lambda>x. length x = 48) commitments" "list_all (\<lambda>x. length x = 48) proofs"
    and small: "length (canon @ v @ strings blobs @ strings commitments @ strings proofs) < 256 ^ 8"
  shows "decodeBlobTx H (rlp_list (canon @ v @ strings blobs @ strings commitments @ strings proofs)) = Inr (blobTx H canon f)"
proof -
  let ?tail = "strings blobs @ strings commitments @ strings proofs"
  let ?c = "canon @ v @ ?tail"
  obtain d where d: "canon = rlp_list d" "length d < 256 ^ 8" using f by (rule blobTxFields_list)
  let ?first = "\<lparr>it_kind = KList, it_content = d, it_rest = v @ ?tail, it_raw = canon\<rparr>"
  have first: "split ?c = Inr ?first"
    using split_rlp_of [of KList d "v @ ?tail"] d by (simp add: kind_ok_def rlp_of_def)
  have outer: "split (rlp_list ?c) = Inr \<lparr>it_kind = KList, it_content = ?c, it_rest = [], it_raw = rlp_list ?c\<rparr>"
    using split_rlp_of [of KList ?c "[]"] small by (simp add: kind_ok_def rlp_of_def)
  have lens: "length (concat (map rlp_string blobs)) < 256 ^ 8" "length (concat (map rlp_string commitments)) < 256 ^ 8"
    "length (concat (map rlp_string proofs)) < 256 ^ 8"
    using small length_strings [of blobs] length_strings [of commitments] length_strings [of proofs] by simp_all
  let ?a = "\<lparr>it_kind = KList, it_content = concat (map rlp_string blobs), it_rest = strings commitments @ strings proofs, it_raw = strings blobs\<rparr>"
  let ?b = "\<lparr>it_kind = KList, it_content = concat (map rlp_string commitments), it_rest = strings proofs, it_raw = strings commitments\<rparr>"
  let ?p = "\<lparr>it_kind = KList, it_content = concat (map rlp_string proofs), it_rest = [], it_raw = strings proofs\<rparr>"
  have ne: "strings xs \<noteq> []" for xs using length_strings [of xs] by auto
  have tail: "listItems ?tail = Inr [?a, ?b, ?p]"
    using split_strings [OF lens(1), of "strings commitments @ strings proofs"] split_strings [OF lens(2), of "strings proofs"]
      split_strings [OF lens(3), of "[]"] ne by (simp add: listItems_Cons listItems_Nil_iff)
  have cne: "?c \<noteq> []" using ne by simp
  have side: "sidecar its k = Inr ()" if "its ! k = ?a" "its ! (k + 1) = ?b" "its ! (k + 2) = ?p" for its k
    using that sizes lens fixedList_iff [of ?a 131072 "()"] fixedList_iff [of ?b 48 "()"] fixedList_iff [of ?p 48 "()"]
    by (auto simp: sidecar_def BLOB_BYTES_def KZG_BYTES_def)
  from v show ?thesis
  proof
    assume v: "v = []"
    have "listItems ?c = Inr [?first, ?a, ?b, ?p]"
      unfolding listItems_Cons [of ?c] using first tail cne v by simp
    then have st: "structItems (rlp_list ?c) 4 0 = Inr [?first, ?a, ?b, ?p]" using small by (auto simp: structItems_iff)
    have "split ?tail = Inr ?a" using tail by (simp add: listItems_Cons)
    then show ?thesis
      using outer first st f side [of "[?first, ?a, ?b, ?p]" 1] v
      by (simp add: decodeBlobTx_def Let_def)
  next
    assume v: "v = [1]"
    let ?v = "\<lparr>it_kind = KByte, it_content = [1], it_rest = ?tail, it_raw = [1]\<rparr> :: item"
    have sv: "split (1 # ?tail) = Inr ?v"
      using split_rlp_of [of KByte "[1]" ?tail] by (simp add: kind_ok_def rlp_of_def rlp_string_def)
    then have vt: "listItems (1 # ?tail) = Inr [?v, ?a, ?b, ?p]" unfolding listItems_Cons [of "1 # ?tail"] using tail by simp
    have "listItems ?c = Inr [?first, ?v, ?a, ?b, ?p]"
      unfolding listItems_Cons [of ?c] using first vt cne v by simp
    then have st: "structItems (rlp_list ?c) 5 0 = Inr [?first, ?v, ?a, ?b, ?p]" using small by (auto simp: structItems_iff)
    have u: "uintOf ?v (Some 1) = Inr 1" by (simp add: uintOf_def)
    show ?thesis
      using outer first st f sv u side [of "[?first, ?v, ?a, ?b, ?p]" 2] v
      by (simp add: decodeBlobTx_def Let_def)
  qed
qed

lemma decodeBlobTx_forms:
  assumes "decodeBlobTx H body = Inr t"
  shows "\<exists>canon f. blobTxFields canon = Inr f \<and> t = blobTx H canon f \<and> blobForm canon body"
proof -
  obtain outer first where o: "split body = Inr outer" "it_kind outer = KList" "split (it_content outer) = Inr first"
    using assms by (auto simp: decodeBlobTx_def results)
  show ?thesis
  proof (cases "it_kind first = KList")
    case False
    then show ?thesis using assms o by (auto simp: decodeBlobTx_def results blobForm_def)
  next
    case True
    obtain second where second: "split (it_rest first) = Inr second" using assms o True by (auto simp: decodeBlobTx_def results)
    define v1 where "v1 \<longleftrightarrow> it_kind second \<noteq> KList"
    define inner where "inner = take (length (it_content outer) - length (it_rest first)) (it_content outer)"
    have raws: "it_raw first @ it_rest first = it_content outer" using o(3) by (simp add: split_iff)
    then have inner: "inner = it_raw first" unfolding inner_def by (metis append_eq_conv_conj length_append add_diff_cancel_right')
    obtain its f where its: "structItems body (if v1 then 5 else 4) 0 = Inr its" and f: "blobTxFields inner = Inr f"
      and r: "if v1 then uintOf (its ! 1) (Some 1) = Inr 1 \<and> sidecar its 2 = Inr () else sidecar its 1 = Inr ()" and t: "t = blobTx H inner f"
      using assms o second True by (auto simp: decodeBlobTx_def results Let_def v1_def inner_def split: if_splits)
    obtain c where c: "body = rlp_list c" "length c < 256 ^ 8" "listItems c = Inr its" and len: "length its = (if v1 then 5 else 4)"
      using its by (auto simp: structItems_iff split: if_splits)
    have "split body = Inr \<lparr>it_kind = KList, it_content = c, it_rest = [], it_raw = body\<rparr>"
      using split_rlp_of [of KList c "[]"] c by (simp add: kind_ok_def rlp_of_def)
    then have oc: "it_content outer = c" using o(1) by simp
    obtain xs where xs: "its = first # xs" using c(3) o(3) oc len by (cases its) (auto simp: listItems_Cons split: if_splits)
    have item: "kind_ok (it_kind x) (it_content x) \<and> length (it_content x) < 256 ^ 8 \<and> it_raw x = rlp_of (it_kind x) (it_content x)"
      if "x \<in> set its" for x using listItems_item [OF c(3) that] by blast
    have cc: "c = it_raw first @ concat (map it_raw xs)" using listItems_concat [OF c(3)] xs by simp
    show ?thesis
    proof (cases v1)
      case True
      then obtain v a b p where abp: "xs = [v, a, b, p]" using len xs by (auto simp: length_Suc_conv eval_nat_numeral)
      then have i: "its ! 1 = v" "its ! 2 = a" "its ! (2 + 1) = b" "its ! (2 + 2) = p" using xs by simp_all
      have s: "sidecar its 2 = Inr ()" and u: "uintOf v (Some 1) = Inr 1" using r True i by simp_all
      have pv: "plain v" "it_content v = min_be 1"
        using u item [of v] xs abp plain_uintOf [of v "Some 1" 1] min_be_be_nat [of "it_content v"] by auto
      then have v: "it_raw v = [1]" using item [of v] xs abp min_be.simps [of 1]
        by (auto simp: plain_def rlp_of_def rlp_string_def)
      obtain blobs commitments proofs where "list_all (\<lambda>x. length x = 131072) blobs" "list_all (\<lambda>x. length x = 48) commitments"
        "list_all (\<lambda>x. length x = 48) proofs" "it_raw a = strings blobs" "it_raw b = strings commitments" "it_raw p = strings proofs"
        by (rule sidecar_strings [OF s i(2,3,4)]) (use item xs abp in auto)
      then have "blobForm inner body"
        using cc v abp c(1,2) unfolding blobForm_def inner
        by (intro disjI2 exI [of _ "[1]"] exI [of _ blobs] exI [of _ commitments] exI [of _ proofs]) simp
      then show ?thesis using f t by blast
    next
      case False
      then obtain a b p where abp: "xs = [a, b, p]" using len xs by (auto simp: length_Suc_conv eval_nat_numeral)
      then have i: "its ! 1 = a" "its ! (1 + 1) = b" "its ! (1 + 2) = p" using xs by simp_all
      have s: "sidecar its 1 = Inr ()" using r False by simp
      obtain blobs commitments proofs where "list_all (\<lambda>x. length x = 131072) blobs" "list_all (\<lambda>x. length x = 48) commitments"
        "list_all (\<lambda>x. length x = 48) proofs" "it_raw a = strings blobs" "it_raw b = strings commitments" "it_raw p = strings proofs"
        by (rule sidecar_strings [OF s i]) (use item xs abp in auto)
      then have "blobForm inner body"
        using cc abp c(1,2) unfolding blobForm_def inner
        by (intro disjI2 exI [of _ "[]"] exI [of _ blobs] exI [of _ commitments] exI [of _ proofs]) simp
      then show ?thesis using f t by blast
    qed
  qed
qed

text \<open>
  A blob transaction is accepted exactly in its canonical form and in the two network forms that wrap the canonical form with a sidecar of
  blobs, commitments and proofs of their fixed sizes; all three decode alike, and the hash is that of the canonical form.
\<close>

theorem decodeBlobTx_exact:
  "decodeS6Transaction H (3 # body) = Inr t \<longleftrightarrow>
     (\<exists>canon f. blobTxFields canon = Inr f \<and> blobForm canon body \<and> t = blobTx H canon f)"
proof -
  have "decodeBlobTx H [] = Inl (TxRlp UnexpectedEOF)" by (simp add: decodeBlobTx_def split_def)
  then have d: "decodeS6Transaction H (3 # body) = Inr t \<longleftrightarrow> decodeBlobTx H body = Inr t"
    by (cases "body = []") (auto simp: decodeS6Transaction_def)
  show ?thesis unfolding d
  proof
    assume "decodeBlobTx H body = Inr t"
    from decodeBlobTx_forms [OF this] show "\<exists>canon f. blobTxFields canon = Inr f \<and> blobForm canon body \<and> t = blobTx H canon f" by blast
  next
    assume "\<exists>canon f. blobTxFields canon = Inr f \<and> blobForm canon body \<and> t = blobTx H canon f"
    then obtain canon f where f: "blobTxFields canon = Inr f" "blobForm canon body" "t = blobTx H canon f" by blast
    from f(2) show "decodeBlobTx H body = Inr t"
      unfolding blobForm_def f(3)
      by (elim disjE exE conjE) (simp_all only: decodeBlobTx_canonical [OF f(1)] decodeBlobTx_network [OF f(1)] simp_thms)
  qed
qed

end
