(* ===== verification/JsonX.thy ===== *)
theory JsonX
  imports GoUrl
begin

text \<open>
  The JSON parser of \<open>packages/verify/src/s3/jsonx.ts\<close>, which reads a document as Go's \<open>encoding/json\<close> does: number literals and the
  order of keys are kept, invalid UTF-8 becomes U+FFFD, and the containers that are open are held on an explicit stack with a limit on
  their number. Input is a byte string (\<open>string\<close>), and a JavaScript string the UTF-8 bytes of its characters. What remains to be read stands
  for the index \<open>i\<close> of the source. The table \<open>escaped\<close> of the source, which remembers the string values that were written with an escape,
  is a mark on the string itself.
\<close>

section \<open>Values and errors\<close>

datatype jval =
    JvNull
  | JvBool bool
  | JvStr bool string
  | JvNum string
  | JvArr "jval list"
  | JvObj "(string \<times> jval) list"

text \<open>\<open>bad(what)\<close>: the end of the input, or the character at hand with what was being read.\<close>

datatype json_error = UnexpectedEnd | InvalidCharacter char string | DuplicateKey string

fun bad :: "string \<Rightarrow> string \<Rightarrow> json_error + 'a" where
  "bad what [] = Inl UnexpectedEnd"
| "bad what (c # _) = Inl (InvalidCharacter c what)"

lemma bad_Inr [simp]: "bad what s \<noteq> Inr x"
  by (cases s) auto

section \<open>Text\<close>

definition isWs :: "char \<Rightarrow> bool" where
  "isWs c \<longleftrightarrow> code c \<in> {0x20, 0x09, 0x0a, 0x0d}"

definition ws :: "string \<Rightarrow> string" where
  "ws s = dropWhile isWs s"

text \<open>\<open>String.fromCodePoint\<close>, as the UTF-8 bytes of the code point.\<close>

definition codePoint :: "nat \<Rightarrow> string" where
  "codePoint cp = map char_of
     (if cp < 0x80 then [cp]
      else if cp < 0x800 then [0xc0 + cp div 64, 0x80 + cp mod 64]
      else if cp < 0x10000 then [0xe0 + cp div 4096, 0x80 + cp div 64 mod 64, 0x80 + cp mod 64]
      else [0xf0 + cp div 262144, 0x80 + cp div 4096 mod 64, 0x80 + cp div 64 mod 64, 0x80 + cp mod 64])"

text \<open>The sequence at the head of a byte string, by its length and code point; \<open>None\<close> where it is not valid UTF-8 (\<open>n = 0\<close>).\<close>

definition cont :: "string \<Rightarrow> nat \<Rightarrow> nat \<Rightarrow> nat \<Rightarrow> bool" where
  "cont b k lo hi \<longleftrightarrow> k < length b \<and> lo \<le> code (b ! k) \<and> code (b ! k) \<le> hi"

definition low6 :: "string \<Rightarrow> nat \<Rightarrow> nat" where
  "low6 b k = code (b ! k) mod 64"

definition sequenceAt :: "string \<Rightarrow> (nat \<times> nat) option" where
  "sequenceAt b =
     (let c = code (b ! 0) in
      if c < 0x80 then Some (1, c)
      else if 0xc2 \<le> c \<and> c \<le> 0xdf \<and> cont b 1 0x80 0xbf then Some (2, c mod 0x20 * 64 + low6 b 1)
      else if 0xe0 \<le> c \<and> c \<le> 0xef \<and> cont b 1 (if c = 0xe0 then 0xa0 else 0x80) (if c = 0xed then 0x9f else 0xbf) \<and> cont b 2 0x80 0xbf
        then Some (3, c mod 0x10 * 4096 + low6 b 1 * 64 + low6 b 2)
      else if 0xf0 \<le> c \<and> c \<le> 0xf4 \<and> cont b 1 (if c = 0xf0 then 0x90 else 0x80) (if c = 0xf4 then 0x8f else 0xbf) \<and> cont b 2 0x80 0xbf \<and>
          cont b 3 0x80 0xbf
        then Some (4, c mod 0x08 * 262144 + low6 b 1 * 4096 + low6 b 2 * 64 + low6 b 3)
      else None)"

function decodeGoUtf8 :: "string \<Rightarrow> string" where
  "decodeGoUtf8 b =
     (if b = [] then []
      else case sequenceAt b of
             None \<Rightarrow> codePoint 0xfffd @ decodeGoUtf8 (drop 1 b)
           | Some (n, cp) \<Rightarrow> codePoint cp @ decodeGoUtf8 (drop n b))"
  by pat_completeness auto
termination
  by (relation "measure length") (auto simp: sequenceAt_def Let_def split: if_splits)

declare decodeGoUtf8.simps [simp del]

section \<open>Strings\<close>

definition badHex :: "string" where
  "badHex = ''in '' @ [CHR 0x5c] @ ''u hexadecimal character escape''"

fun hexDigits :: "nat \<Rightarrow> nat \<Rightarrow> string \<Rightarrow> json_error + nat \<times> string" where
  "hexDigits 0 v s = Inr (v, s)"
| "hexDigits (Suc k) v [] = bad badHex []"
| "hexDigits (Suc k) v (c # s) =
     (if ishex c then hexDigits k (v * 16 + unhex c) s else bad badHex (c # s))"

definition hex4 :: "string \<Rightarrow> json_error + nat \<times> string" where
  "hex4 s = hexDigits 4 0 s"

lemma hexDigits_length: "hexDigits k v s = Inr (w, r) \<Longrightarrow> length s = length r + k"
  by (induction k v s rule: hexDigits.induct) (auto split: if_splits)

text \<open>The code point of a \<open>\\u\<close> escape, from just after the \<open>u\<close>: a high surrogate pairs with a low one that follows.\<close>

definition unicodeEscape :: "string \<Rightarrow> json_error + nat \<times> string" where
  "unicodeEscape s =
     bindE (hex4 s) (\<lambda>(r, rest).
       if 0xd800 \<le> r \<and> r < 0xdc00 then
         (if take 2 rest = [CHR 0x5c, CHR ''u''] then
            bindE (hex4 (drop 2 rest)) (\<lambda>(r2, rest2).
              if 0xdc00 \<le> r2 \<and> r2 < 0xe000 then Inr (0x10000 + (r - 0xd800) * 1024 + (r2 - 0xdc00), rest2)
              else Inr (0xfffd, rest))
          else Inr (0xfffd, rest))
       else if 0xdc00 \<le> r \<and> r < 0xe000 then Inr (0xfffd, rest)
       else Inr (r, rest))"

lemma unicodeEscape_shorter: "unicodeEscape s = Inr (cp, r) \<Longrightarrow> length r < length s"
  by (auto simp: unicodeEscape_def hex4_def results split: if_splits dest!: hexDigits_length)

definition simpleEscape :: "char \<Rightarrow> char option" where
  "simpleEscape e =
     map_of [(CHR 0x22, CHR 0x22), (CHR 0x5c, CHR 0x5c), (CHR ''/'', CHR ''/''), (CHR ''b'', CHR 0x08), (CHR ''f'', CHR 0x0c),
             (CHR ''n'', CHR 0x0a), (CHR ''r'', CHR 0x0d), (CHR ''t'', CHR 0x09)] e"

text \<open>The loop of \<open>str\<close>, after the opening quote: what is decoded, the raw bytes since the last escape, and whether there was one.\<close>

function strFrom :: "string \<Rightarrow> string \<Rightarrow> bool \<Rightarrow> string \<Rightarrow> json_error + string \<times> bool \<times> string" where
  "strFrom out bs esc s =
     (case s of
        [] \<Rightarrow> bad [] s
      | c # t \<Rightarrow>
          if c = CHR 0x22 then Inr (out @ decodeGoUtf8 bs, esc, t)
          else if code c < 0x20 then bad ''in string literal'' s
          else if c = CHR 0x5c then
            (case t of
               [] \<Rightarrow> bad ''in string escape code'' t
             | e # r \<Rightarrow>
                 (case simpleEscape e of
                    Some x \<Rightarrow> strFrom (out @ decodeGoUtf8 bs @ [x]) [] True r
                  | None \<Rightarrow>
                      if e = CHR ''u'' then
                        bindE (unicodeEscape r) (\<lambda>(cp, rest). strFrom (out @ decodeGoUtf8 bs @ codePoint cp) [] True rest)
                      else bad ''in string escape code'' t))
          else strFrom out (bs @ [c]) esc t)"
  by pat_completeness auto
termination
  by (relation "measure (\<lambda>(out, bs, esc, s). length s)") (auto dest: unicodeEscape_shorter)

declare strFrom.simps [simp del]

text \<open>\<open>str\<close> of the source, from just after the opening quote.\<close>

definition str :: "string \<Rightarrow> json_error + string \<times> bool \<times> string" where
  "str s = strFrom [] [] False s"

lemma strFrom_Nil [simp]: "strFrom out bs esc [] = Inl UnexpectedEnd"
  by (subst strFrom.simps) simp

lemma strFrom_Cons:
  "strFrom out bs esc (c # t) =
     (if c = CHR 0x22 then Inr (out @ decodeGoUtf8 bs, esc, t)
      else if code c < 0x20 then bad ''in string literal'' (c # t)
      else if c = CHR 0x5c then
        (case t of
           [] \<Rightarrow> bad ''in string escape code'' t
         | e # r \<Rightarrow>
             (case simpleEscape e of
                Some x \<Rightarrow> strFrom (out @ decodeGoUtf8 bs @ [x]) [] True r
              | None \<Rightarrow>
                  if e = CHR ''u'' then
                    bindE (unicodeEscape r) (\<lambda>(cp, rest). strFrom (out @ decodeGoUtf8 bs @ codePoint cp) [] True rest)
                  else bad ''in string escape code'' t))
      else strFrom out (bs @ [c]) esc t)"
  by (subst strFrom.simps) simp

lemma strFrom_shorter: "strFrom out bs esc s = Inr (v, e, r) \<Longrightarrow> length r < length s"
proof (induction "length s" arbitrary: out bs esc s rule: less_induct)
  case less
  have IH: "length r < length s" if "strFrom out' bs' esc' s' = Inr (v, e, r)" and "length s' < length s" for out' bs' esc' s'
    using less.hyps [OF that(2,1)] that(2) by simp
  show ?case
  proof (cases s)
    case Nil
    then show ?thesis using less.prems by (simp add: strFrom.simps)
  next
    case (Cons c t)
    consider "c = CHR 0x22" | "code c < 0x20" | "c = CHR 0x5c" | "c \<noteq> CHR 0x22" "\<not> code c < 0x20" "c \<noteq> CHR 0x5c" by blast
    then show ?thesis
    proof cases
      case 1
      then show ?thesis using less.prems Cons by (auto simp: strFrom_Cons)
    next
      case 2
      then show ?thesis using less.prems Cons by (auto simp: strFrom_Cons split: if_splits)
    next
      case 3
      then have "t \<noteq> []" using less.prems Cons by (auto simp: strFrom_Cons code_def)
      then obtain x u where t: "t = x # u" by (cases t) auto
      have u: "length u < length s" using Cons t by simp
      show ?thesis
      proof (cases "simpleEscape x")
        case (Some y)
        have "strFrom (out @ decodeGoUtf8 bs @ [y]) [] True u = Inr (v, e, r)"
          using less.prems Some unfolding Cons 3 t by (simp add: strFrom_Cons code_def)
        then show ?thesis using u by (rule IH)
      next
        case None
        then obtain cp rest where r: "unicodeEscape u = Inr (cp, rest)" "strFrom (out @ decodeGoUtf8 bs @ codePoint cp) [] True rest = Inr (v, e, r)"
          using less.prems unfolding Cons 3 t by (auto simp: strFrom_Cons code_def results split: if_splits)
        then show ?thesis using u unicodeEscape_shorter [OF r(1)] by (intro IH [OF r(2)]) simp
      qed
    next
      case 4
      then have "strFrom out (bs @ [c]) esc t = Inr (v, e, r)" using less.prems Cons by (simp add: strFrom_Cons)
      then show ?thesis by (rule IH) (simp add: Cons)
    qed
  qed
qed

lemma str_shorter: "str s = Inr (v, e, r) \<Longrightarrow> length r < length s"
  unfolding str_def by (rule strFrom_shorter)

section \<open>Numbers and literals\<close>

definition isNum :: "char \<Rightarrow> bool" where
  "isNum c \<longleftrightarrow> 0x30 \<le> code c \<and> code c \<le> 0x39"

definition headIs :: "(char \<Rightarrow> bool) \<Rightarrow> string \<Rightarrow> bool" where
  "headIs P s \<longleftrightarrow> s \<noteq> [] \<and> P (hd s)"

definition digits :: "string \<Rightarrow> string \<Rightarrow> json_error + string" where
  "digits what s = (if headIs isNum s then Inr (dropWhile isNum s) else bad what s)"

definition intPart :: "string \<Rightarrow> json_error + string" where
  "intPart s =
     (let s = (if headIs (\<lambda>c. c = CHR ''-'') s then tl s else s) in
      if headIs (\<lambda>c. c = CHR ''0'') s then Inr (tl s) else digits ''in numeric literal'' s)"

definition fracPart :: "string \<Rightarrow> json_error + string" where
  "fracPart s = (if headIs (\<lambda>c. c = CHR ''.'') s then digits ''after decimal point in numeric literal'' (tl s) else Inr s)"

definition expPart :: "string \<Rightarrow> json_error + string" where
  "expPart s =
     (if headIs (\<lambda>c. c = CHR ''e'' \<or> c = CHR ''E'') s then
        (let s = tl s in digits ''in exponent of numeric literal'' (if headIs (\<lambda>c. c = CHR ''+'' \<or> c = CHR ''-'') s then tl s else s))
      else Inr s)"

definition num :: "string \<Rightarrow> json_error + string \<times> string" where
  "num s =
     bindE (intPart s) (\<lambda>a. bindE (fracPart a) (\<lambda>b. bindE (expPart b) (\<lambda>r.
       Inr (take (length s - length r) s, r))))"

definition badLit :: "string \<Rightarrow> char \<Rightarrow> string" where
  "badLit word c = ''in literal '' @ word @ '' (expecting '' @ [CHR 0x22, c, CHR 0x22] @ '')''"

fun litFrom :: "string \<Rightarrow> string \<Rightarrow> string \<Rightarrow> json_error + string" where
  "litFrom word [] s = Inr s"
| "litFrom word (w # cs) s = (if headIs (\<lambda>c. c = w) s then litFrom word cs (tl s) else bad (badLit word w) s)"

definition lit :: "string \<Rightarrow> jval \<Rightarrow> string \<Rightarrow> json_error + jval \<times> string" where
  "lit word v s = bindE (litFrom word word s) (\<lambda>r. Inr (v, r))"

lemma litFrom_shorter: "litFrom word cs s = Inr r \<Longrightarrow> length s = length r + length cs"
proof (induction word cs s rule: litFrom.induct)
  case (2 word w cs s)
  then show ?case by (cases s) (auto simp: headIs_def split: if_splits)
qed simp

lemma digits_shorter: "digits what s = Inr r \<Longrightarrow> length r < length s"
  by (cases s) (auto simp: digits_def headIs_def intro: le_imp_less_Suc length_dropWhile_le split: if_splits)

lemma num_shorter:
  assumes "num s = Inr (l, r)"
  shows "length r < length s"
proof -
  obtain a b where a: "intPart s = Inr a" and b: "fracPart a = Inr b" and r: "expPart b = Inr r"
    using assms by (auto simp: num_def results)
  have "length a < length s"
    using a by (auto simp: intPart_def Let_def headIs_def dest!: digits_shorter split: if_splits)
  moreover have "length b \<le> length a"
    using b by (auto simp: fracPart_def dest!: digits_shorter split: if_splits)
  moreover have "length r \<le> length b"
    using r by (auto simp: expPart_def Let_def dest!: digits_shorter split: if_splits)
  ultimately show ?thesis by linarith
qed

section \<open>Values, with an explicit stack\<close>

text \<open>An open object with the key being read, or an open array.\<close>

datatype frame = ObjFrame "(string \<times> jval) list" string | ArrFrame "jval list"

text \<open>A key and its colon, from the opening quote on.\<close>

definition keyAt :: "string \<Rightarrow> json_error + string \<times> string" where
  "keyAt s =
     (if \<not> headIs (\<lambda>c. c = CHR 0x22) s then bad ''looking for beginning of object key string'' s
      else bindE (str (tl s)) (\<lambda>(k, _, r).
        if headIs (\<lambda>c. c = CHR '':'') (ws r) then Inr (k, tl (ws r)) else bad ''after object key'' (ws r)))"

lemma ws_length [simp]: "length (ws s) \<le> length s"
  by (simp add: ws_def length_dropWhile_le)

lemma keyAt_shorter: "keyAt s = Inr (k, r) \<Longrightarrow> length r < length s"
proof -
  assume "keyAt s = Inr (k, r)"
  then obtain v e t where s: "s \<noteq> []" "str (tl s) = Inr (v, e, t)" "r = tl (ws t)"
    by (auto simp: keyAt_def headIs_def results split: if_splits)
  then have "length t < length (tl s)" using str_shorter by blast
  then show ?thesis using s ws_length [of t] by (cases s; cases "ws t") auto
qed

text \<open>A value that needs no container: a string, a literal or a number.\<close>

definition scalar :: "string \<Rightarrow> json_error + jval \<times> string" where
  "scalar s =
     (if s = [] then bad [] s
      else let c = hd s in
        if c = CHR 0x22 then bindE (str (tl s)) (\<lambda>(v, esc, r). Inr (JvStr esc v, r))
        else if c = CHR ''t'' then lit ''true'' (JvBool True) s
        else if c = CHR ''f'' then lit ''false'' (JvBool False) s
        else if c = CHR ''n'' then lit ''null'' JvNull s
        else if c = CHR ''-'' \<or> isNum c then bindE (num s) (\<lambda>(l, r). Inr (JvNum l, r))
        else bad ''looking for beginning of value'' s)"

lemma scalar_shorter: "scalar s = Inr (v, r) \<Longrightarrow> length r < length s"
  by (cases s) (auto simp: scalar_def lit_def results Let_def dest!: str_shorter litFrom_shorter num_shorter split: if_splits)

text \<open>
  \<open>parseFrom\<close> begins a value; \<open>attach\<close> puts a complete value into the container on top of the stack and closes every container it ends
  (the two loops of \<open>parseValue\<close>). \<open>None\<close> is the limit \<open>Number.POSITIVE_INFINITY\<close>.
\<close>

definition tooDeep :: "nat option \<Rightarrow> frame list \<Rightarrow> bool" where
  "tooDeep maxDepth st = (case maxDepth of None \<Rightarrow> False | Some d \<Rightarrow> length st \<ge> d)"

lemma headIs_tl: "headIs P s \<Longrightarrow> length (tl s) < length s"
  by (auto simp: headIs_def)

lemma shorter_ws:
  "length r < length (ws s) \<Longrightarrow> length r < length s"
  "headIs P (ws s) \<Longrightarrow> length (tl (ws s)) < length s"
  "headIs P (ws s) \<Longrightarrow> length (ws (tl (ws s))) < length s"
  "headIs P (ws s) \<Longrightarrow> length r < length (ws (tl (ws s))) \<Longrightarrow> length r < length s"
  "headIs P (ws s) \<Longrightarrow> headIs Q (ws (tl (ws s))) \<Longrightarrow> length (tl (ws (tl (ws s)))) < length s"
  using ws_length [of s] ws_length [of "tl (ws s)"] headIs_tl [of P "ws s"] headIs_tl [of Q "ws (tl (ws s))"] by linarith+

function parseFrom :: "nat option \<Rightarrow> frame list \<Rightarrow> string \<Rightarrow> json_error + jval \<times> string"
  and attach :: "nat option \<Rightarrow> frame list \<Rightarrow> jval \<Rightarrow> string \<Rightarrow> json_error + jval \<times> string"
where
  "parseFrom d st s =
     (let s = ws s in
      if headIs (\<lambda>c. c = CHR ''{'') s then
        (if tooDeep d st then bad ''exceeded max depth'' s
         else let t = ws (tl s) in
           if headIs (\<lambda>c. c = CHR ''}'') t then attach d st (JvObj []) (tl t)
           else bindE (keyAt t) (\<lambda>(k, r). parseFrom d (ObjFrame [] k # st) r))
      else if headIs (\<lambda>c. c = CHR ''['') s then
        (if tooDeep d st then bad ''exceeded max depth'' s
         else let t = ws (tl s) in
           if headIs (\<lambda>c. c = CHR '']'') t then attach d st (JvArr []) (tl t)
           else parseFrom d (ArrFrame [] # st) t)
      else bindE (scalar s) (\<lambda>(v, r). attach d st v r))"
| "attach d [] v s = Inr (v, s)"
| "attach d (ObjFrame ps k # st) v s =
     (let s = ws s; ps = ps @ [(k, v)] in
      if headIs (\<lambda>c. c = CHR '','') s then bindE (keyAt (ws (tl s))) (\<lambda>(k', r). parseFrom d (ObjFrame ps k' # st) r)
      else if headIs (\<lambda>c. c = CHR ''}'') s then attach d st (JvObj ps) (tl s)
      else bad ''after object key:value pair'' s)"
| "attach d (ArrFrame vs # st) v s =
     (let s = ws s; vs = vs @ [v] in
      if headIs (\<lambda>c. c = CHR '','') s then parseFrom d (ArrFrame vs # st) (tl s)
      else if headIs (\<lambda>c. c = CHR '']'') s then attach d st (JvArr vs) (tl s)
      else bad ''after array element'' s)"
  by pat_completeness auto

termination
  by (relation "measure (\<lambda>x. case x of Inl (d, st, s) \<Rightarrow> length s | Inr (d, st, v, s) \<Rightarrow> length s)")
    (auto simp del: length_tl intro: shorter_ws dest!: keyAt_shorter scalar_shorter)

declare parseFrom.simps [simp del] attach.simps(2,3) [simp del]

definition GO_JSON_MAX_DEPTH :: nat where
  "GO_JSON_MAX_DEPTH = 10000"

definition parseGoJson :: "nat option \<Rightarrow> string \<Rightarrow> json_error + jval" where
  "parseGoJson maxDepth s =
     bindE (parseFrom maxDepth [] s) (\<lambda>(v, r). if ws r \<noteq> [] then bad ''after top-level value'' (ws r) else Inr v)"

section \<open>What a printer writes, the parser reads\<close>

text \<open>
  The reference: a compact printer. A quote, a backslash and a control character are escaped, every other byte is written as it is; a number
  is its literal. \<open>readBack\<close> is the value with its strings as Go reads them, marked where the printer escaped.
\<close>

definition special :: "char \<Rightarrow> bool" where
  "special c \<longleftrightarrow> c = CHR 0x22 \<or> c = CHR 0x5c \<or> code c < 0x20"

definition printChar :: "char \<Rightarrow> string" where
  "printChar c =
     (if c = CHR 0x22 \<or> c = CHR 0x5c then [CHR 0x5c, c]
      else if code c < 0x20 then CHR 0x5c # ''u00'' @ [hexDigit (code c div 16), hexDigit (code c mod 16)]
      else [c])"

definition printStr :: "string \<Rightarrow> string" where
  "printStr s = CHR 0x22 # concat (map printChar s) @ [CHR 0x22]"

fun sepBy :: "string list \<Rightarrow> string" where
  "sepBy [] = []"
| "sepBy [x] = x"
| "sepBy (x # xs) = x @ CHR '','' # sepBy xs"

fun printJ :: "jval \<Rightarrow> string" where
  "printJ JvNull = ''null''"
| "printJ (JvBool b) = (if b then ''true'' else ''false'')"
| "printJ (JvStr _ s) = printStr s"
| "printJ (JvNum l) = l"
| "printJ (JvArr vs) = CHR ''['' # sepBy (map printJ vs) @ [CHR '']'']"
| "printJ (JvObj ps) = CHR ''{'' # sepBy (map (\<lambda>(k, v). printStr k @ CHR '':'' # printJ v) ps) @ [CHR ''}'']"

fun readBack :: "jval \<Rightarrow> jval" where
  "readBack (JvStr _ s) = JvStr (list_ex special s) (decodeGoUtf8 s)"
| "readBack (JvArr vs) = JvArr (map readBack vs)"
| "readBack (JvObj ps) = JvObj (map (\<lambda>(k, v). (decodeGoUtf8 k, readBack v)) ps)"
| "readBack v = v"

text \<open>The containers open at once, and literals that are numbers.\<close>

fun nesting :: "jval \<Rightarrow> nat" where
  "nesting (JvArr vs) = Suc (foldr max (map nesting vs) 0)"
| "nesting (JvObj ps) = Suc (foldr max (map (\<lambda>(k, v). nesting v) ps) 0)"
| "nesting _ = 0"

definition numLit :: "string \<Rightarrow> bool" where
  "numLit l \<longleftrightarrow> num l = Inr (l, [])"

fun numbersOk :: "jval \<Rightarrow> bool" where
  "numbersOk (JvNum l) = numLit l"
| "numbersOk (JvArr vs) = list_all numbersOk vs"
| "numbersOk (JvObj ps) = list_all (\<lambda>(k, v). numbersOk v) ps"
| "numbersOk _ = True"

lemma code_simps [simp]: "code (CHR 0x22) = 34" "code (CHR 0x5c) = 92" "code (CHR ''u'') = 117"
  by (simp_all add: code_def)

lemma sequenceAt_ascii: "code c < 0x80 \<Longrightarrow> sequenceAt (c # b) = Some (1, code c)"
  by (simp add: sequenceAt_def)

lemma codePoint_ascii: "code c < 0x80 \<Longrightarrow> codePoint (code c) = [c]"
  by (simp add: codePoint_def)

lemma decodeGoUtf8_Nil [simp]: "decodeGoUtf8 [] = []"
  by (simp add: decodeGoUtf8.simps)

lemma decodeGoUtf8_ascii: "code c < 0x80 \<Longrightarrow> decodeGoUtf8 (c # b) = c # decodeGoUtf8 b"
  by (subst decodeGoUtf8.simps) (simp add: sequenceAt_ascii codePoint_ascii)

lemma cont_append:
  assumes "code c < 0x80" and "0x80 \<le> lo"
  shows "k \<le> length a \<Longrightarrow> cont (a @ c # b) k lo hi = cont a k lo hi"
  using assms by (auto simp: cont_def nth_append)

lemma cont_within: "cont a k lo hi \<Longrightarrow> Suc k \<le> length a"
  by (simp add: cont_def)

lemma sequenceAt_append:
  assumes "a \<noteq> []" and c: "code c < 0x80"
  shows "sequenceAt (a @ c # b) = sequenceAt a"
proof -
  note app = cont_append [OF c, of _ _ a b]
  have hd: "(a @ c # b) ! 0 = a ! 0" using assms(1) by (simp add: nth_append)
  have one: "cont (a @ c # b) 1 lo hi = cont a 1 lo hi" if "0x80 \<le> lo" for lo hi
    using app [OF that, of 1 hi] assms(1) by (simp add: Suc_le_eq)
  have two: "cont a 1 lo hi \<Longrightarrow> cont (a @ c # b) 2 0x80 0xbf = cont a 2 0x80 0xbf" for lo hi
    using app [of "0x80" 2] cont_within [of a 1 lo hi] by (simp add: numeral_2_eq_2)
  have three: "cont a 2 0x80 0xbf \<Longrightarrow> cont (a @ c # b) 3 0x80 0xbf = cont a 3 0x80 0xbf"
    using app [of "0x80" 3] cont_within [of a 2] by (simp add: numeral_3_eq_3 numeral_2_eq_2)
  have low: "cont a k lo hi \<Longrightarrow> low6 (a @ c # b) k = low6 a k" for k lo hi
    by (simp add: low6_def nth_append cont_def)
  have c2: "(A \<and> B \<and> cont (a @ c # b) 1 0x80 0xbf) = (A \<and> B \<and> cont a 1 0x80 0xbf)" for A B
    by (simp only: one [of "0x80" "0xbf", OF order_refl])
  have c3: "(A \<and> B \<and> cont (a @ c # b) 1 lo hi \<and> cont (a @ c # b) 2 0x80 0xbf) = (A \<and> B \<and> cont a 1 lo hi \<and> cont a 2 0x80 0xbf)"
    if "0x80 \<le> lo" for A B lo hi
    using one [OF that] two by blast
  have c4: "(A \<and> B \<and> cont (a @ c # b) 1 lo hi \<and> cont (a @ c # b) 2 0x80 0xbf \<and> cont (a @ c # b) 3 0x80 0xbf) =
      (A \<and> B \<and> cont a 1 lo hi \<and> cont a 2 0x80 0xbf \<and> cont a 3 0x80 0xbf)"
    if "0x80 \<le> lo" for A B lo hi
    using one [OF that] two three by blast
  have lo: "0x80 \<le> (if P then 0xa0 else 0x80::nat)" "0x80 \<le> (if P then 0x90 else 0x80::nat)" for P by simp_all
  show ?thesis
    unfolding sequenceAt_def hd Let_def c2 c3 [OF lo(1)] c4 [OF lo(2)]
    by (intro if_cong refl) (elim conjE, simp only: low)+
qed

lemma sequenceAt_within: "sequenceAt a = Some (n, cp) \<Longrightarrow> a \<noteq> [] \<Longrightarrow> n \<le> length a"
  by (auto simp: sequenceAt_def Let_def cont_def Suc_le_eq split: if_splits)

lemma decodeGoUtf8_append:
  assumes "code c < 0x80"
  shows "decodeGoUtf8 (a @ c # b) = decodeGoUtf8 a @ c # decodeGoUtf8 b"
proof (induction a rule: decodeGoUtf8.induct)
  case (1 a)
  show ?case
  proof (cases "a = []")
    case True
    then show ?thesis by (simp add: decodeGoUtf8_ascii assms)
  next
    case False
    show ?thesis
    proof (cases "sequenceAt a")
      case None
      moreover have "Suc 0 - length a = 0" using False by (cases a) auto
      ultimately show ?thesis using False 1(1) sequenceAt_append [OF False assms, of b]
        by (simp add: decodeGoUtf8.simps [of a] decodeGoUtf8.simps [of "a @ c # b"])
    next
      case (Some p)
      then obtain n cp where p: "sequenceAt a = Some (n, cp)" by (cases p) auto
      then show ?thesis using False 1(2) [OF False p] sequenceAt_append [OF False assms, of b] sequenceAt_within [OF p False]
        by (simp add: decodeGoUtf8.simps [of a] decodeGoUtf8.simps [of "a @ c # b"])
    qed
  qed
qed

text \<open>Strings: what \<open>strFrom\<close> makes of a printed string.\<close>

lemma hexDigit_unhex: "n < 16 \<Longrightarrow> ishex (hexDigit n) \<and> unhex (hexDigit n) = n"
proof -
  assume "n < 16"
  then have "n \<in> set [0..<16]" by simp
  moreover have "list_all (\<lambda>n. ishex (hexDigit n) \<and> unhex (hexDigit n) = n) [0..<16]" by code_simp
  ultimately show ?thesis by (auto simp: list_all_iff)
qed

lemma four: "(4::nat) = Suc (Suc (Suc (Suc 0)))"
  by simp

lemma unicodeEscape_control:
  assumes "code c < 0x20"
  shows "unicodeEscape (CHR ''0'' # CHR ''0'' # hexDigit (code c div 16) # hexDigit (code c mod 16) # r) = Inr (code c, r)"
proof -
  have zero: "ishex (CHR ''0'')" "unhex (CHR ''0'') = 0" by (simp_all add: ishex_def unhex_def code_def)
  have "code c div 16 < 16" "code c mod 16 < 16" using assms by simp_all
  then have "hex4 (CHR ''0'' # CHR ''0'' # hexDigit (code c div 16) # hexDigit (code c mod 16) # r) = Inr (code c, r)"
    using hexDigit_unhex [of "code c div 16"] hexDigit_unhex [of "code c mod 16"] zero
    unfolding hex4_def four by simp
  then show ?thesis using assms by (simp add: unicodeEscape_def)
qed

lemma special_ascii: "special c \<Longrightarrow> code c < 0x80"
  by (auto simp: special_def)

lemma strFrom_special:
  assumes "special c"
  shows "strFrom out bs esc (printChar c @ r) = strFrom (out @ decodeGoUtf8 bs @ [c]) [] True r"
proof (cases "c = CHR 0x22 \<or> c = CHR 0x5c")
  case True
  then show ?thesis by (auto simp: printChar_def strFrom_Cons simpleEscape_def)
next
  case False
  then have c: "code c < 0x20" using assms by (simp add: special_def)
  have "simpleEscape (CHR ''u'') = None" by (simp add: simpleEscape_def)
  then show ?thesis
    using False c unicodeEscape_control [OF c, of r] by (simp add: printChar_def strFrom_Cons codePoint_ascii)
qed

lemma strFrom_print:
  "strFrom out bs esc (concat (map printChar s) @ CHR 0x22 # r) = Inr (out @ decodeGoUtf8 (bs @ s), esc \<or> list_ex special s, r)"
proof (induction s arbitrary: out bs esc)
  case Nil
  then show ?case by (simp add: strFrom_Cons)
next
  case (Cons c s)
  show ?case
  proof (cases "special c")
    case True
    have "strFrom out bs esc (concat (map printChar (c # s)) @ CHR 0x22 # r) =
        strFrom (out @ decodeGoUtf8 bs @ [c]) [] True (concat (map printChar s) @ CHR 0x22 # r)"
      using strFrom_special [OF True] by simp
    then show ?thesis
      using Cons.IH True decodeGoUtf8_append [OF special_ascii [OF True], of bs s] by simp
  next
    case False
    then have "printChar c = [c]" by (simp add: special_def printChar_def)
    then have "strFrom out bs esc (concat (map printChar (c # s)) @ CHR 0x22 # r) =
        strFrom out (bs @ [c]) esc (concat (map printChar s) @ CHR 0x22 # r)"
      using False by (simp add: strFrom_Cons special_def)
    then show ?thesis using Cons.IH False by simp
  qed
qed

lemma str_print: "str (concat (map printChar s) @ CHR 0x22 # r) = Inr (decodeGoUtf8 s, list_ex special s, r)"
  using strFrom_print [of "[]" "[]" False s r] by (simp add: str_def)

text \<open>Numbers: a literal ends where a comma or a closing bracket follows.\<close>

definition ender :: "string \<Rightarrow> bool" where
  "ender r \<longleftrightarrow> r = [] \<or> hd r \<in> set '',]}''"

lemma ender_head:
  assumes "ender r"
  shows "\<not> headIs isNum r" "\<not> headIs (\<lambda>c. c = CHR ''.'') r" "\<not> headIs (\<lambda>c. c = CHR ''e'' \<or> c = CHR ''E'') r"
  using assms by (auto simp: ender_def headIs_def isNum_def code_def)

lemma headIs_append: "headIs P (s @ r) = (if s = [] then headIs P r else headIs P s)"
  by (simp add: headIs_def)

lemma digits_append:
  assumes "digits what s = Inr t" and "ender r"
  shows "digits what (s @ r) = Inr (t @ r)"
proof -
  have s: "headIs isNum s" "t = dropWhile isNum s" using assms(1) by (auto simp: digits_def split: if_splits)
  have "dropWhile isNum (s @ r) = dropWhile isNum s @ r"
    using ender_head(1) [OF assms(2)] by (induction s) (cases r; auto simp: headIs_def)+
  then show ?thesis using s by (auto simp: digits_def headIs_append headIs_def)
qed

lemma tl_append: "s \<noteq> [] \<Longrightarrow> tl (s @ r) = tl s @ r"
  by (cases s) auto

lemma digits_nonempty: "digits what s = Inr t \<Longrightarrow> s \<noteq> []"
  by (auto simp: digits_def headIs_def split: if_splits)

lemma intPart_append:
  assumes "intPart s = Inr t" and "ender r"
  shows "intPart (s @ r) = Inr (t @ r)"
proof -
  have ne: "s \<noteq> []" using assms(1) by (auto simp: intPart_def Let_def headIs_def digits_def)
  let ?s = "if headIs (\<lambda>c. c = CHR ''-'') s then tl s else s"
  have "?s \<noteq> []" using assms(1) by (auto simp: intPart_def Let_def headIs_def digits_def split: if_splits)
  then show ?thesis
    using assms ne digits_append [OF _ assms(2), of _ ?s t]
    by (auto simp: intPart_def Let_def headIs_append tl_append split: if_splits)
qed

lemma fracPart_append: "fracPart s = Inr t \<Longrightarrow> ender r \<Longrightarrow> fracPart (s @ r) = Inr (t @ r)"
  using ender_head(2) [of r] digits_append
  by (cases "s = []") (auto simp: fracPart_def headIs_append tl_append headIs_def split: if_splits)

lemma expPart_append: "expPart s = Inr t \<Longrightarrow> ender r \<Longrightarrow> expPart (s @ r) = Inr (t @ r)"
proof (cases "headIs (\<lambda>c. c = CHR ''e'' \<or> c = CHR ''E'') s")
  case True
  assume t: "expPart s = Inr t" and r: "ender r"
  let ?s = "if headIs (\<lambda>c. c = CHR ''+'' \<or> c = CHR ''-'') (tl s) then tl (tl s) else tl s"
  have d: "digits ''in exponent of numeric literal'' ?s = Inr t" using t True by (simp add: expPart_def Let_def)
  have ne: "s \<noteq> []" using True by (simp add: headIs_def)
  have "tl s \<noteq> []" using digits_nonempty [OF d] by (cases "tl s = []") (auto simp: headIs_def)
  then show ?thesis
    using True ne digits_append [OF d r] by (auto simp: expPart_def Let_def headIs_append tl_append)
next
  case False
  assume t: "expPart s = Inr t" and r: "ender r"
  then show ?thesis using False ender_head(3) [OF r] by (auto simp: expPart_def headIs_append)
qed

lemma num_append:
  assumes "numLit l" and "ender r"
  shows "num (l @ r) = Inr (l, r)"
proof -
  obtain a b where a: "intPart l = Inr a" and b: "fracPart a = Inr b" and c: "expPart b = Inr []"
    using assms(1) by (auto simp: numLit_def num_def results)
  show ?thesis
    using intPart_append [OF a assms(2)] fracPart_append [OF b assms(2)] expPart_append [OF c assms(2)] by (simp add: num_def)
qed

text \<open>Values, on any stack.\<close>

lemma ws_stop: "headIs (\<lambda>c. \<not> isWs c) s \<Longrightarrow> ws s = s"
  by (cases s) (auto simp: ws_def headIs_def)

lemma ws_cons [simp]: "\<not> isWs c \<Longrightarrow> ws (c # s) = c # s"
  by (simp add: ws_def)

lemma ws_nil [simp]: "ws [] = []"
  by (simp add: ws_def)

lemma isWs_chars [simp]:
  "\<not> isWs (CHR 0x22)" "\<not> isWs (CHR '','')" "\<not> isWs (CHR '':'')" "\<not> isWs (CHR ''['')" "\<not> isWs (CHR '']'')" "\<not> isWs (CHR ''{'')"
  "\<not> isWs (CHR ''}'')" "\<not> isWs (CHR ''t'')" "\<not> isWs (CHR ''f'')" "\<not> isWs (CHR ''n'')" "\<not> isWs (CHR ''-'')"
  by (simp_all add: isWs_def code_def)

lemma isNum_not: "isNum c \<Longrightarrow> \<not> isWs c \<and> c \<notin> set ''{[tfn\"-''" 
  by (auto simp: isNum_def isWs_def code_def)

lemma headIs_Cons [simp]: "headIs P (c # s) = P c" "\<not> headIs P []"
  by (simp_all add: headIs_def)

text \<open>The first character of a printed value: it starts no container unless the value is one, and is no white space.\<close>

lemma numLit_head: "numLit l \<Longrightarrow> \<exists>c t. l = c # t \<and> (c = CHR ''-'' \<or> isNum c)"
  by (cases l) (auto simp: numLit_def num_def results intPart_def Let_def digits_def isNum_def code_def split: if_splits)

lemma print_head: "numbersOk v \<Longrightarrow> \<exists>c t. printJ v = c # t \<and> \<not> isWs c \<and> c \<noteq> CHR '']'' \<and> c \<noteq> CHR ''}''"
  using numLit_head isNum_not by (cases v) (fastforce simp: printStr_def isNum_def code_def)+

lemma scalar_print:
  assumes "numbersOk v" and "nesting v = 0" and "ender r"
  shows "scalar (printJ v @ r) = Inr (readBack v, r)"
proof (cases v)
  case JvNull
  then show ?thesis by (simp add: scalar_def lit_def isNum_def code_def)
next
  case (JvBool b)
  then show ?thesis by (cases b) (simp_all add: scalar_def lit_def isNum_def code_def)
next
  case (JvStr e s)
  then show ?thesis using str_print [of s r] by (simp add: scalar_def printStr_def)
next
  case (JvNum l)
  then have "numLit l" using assms(1) by simp
  moreover from this obtain c t where "l = c # t" "c = CHR ''-'' \<or> isNum c" using numLit_head by blast
  ultimately show ?thesis
    using JvNum num_append [OF _ assms(3), of l] by (auto simp: scalar_def Let_def isNum_def code_def)
qed (use assms in simp_all)

lemma parse_scalar:
  assumes "numbersOk v" and "nesting v = 0" and "ender r"
  shows "parseFrom d st (printJ v @ r) = attach d st (readBack v) r"
proof -
  obtain c t where c: "printJ v = c # t" "\<not> isWs c" using print_head [OF assms(1)] by blast
  have "c \<noteq> CHR ''{'' \<and> c \<noteq> CHR ''[''"
    using c(1) assms(1,2) numLit_head by (cases v) (fastforce simp: printStr_def isNum_def code_def split: if_splits)+
  then have "parseFrom d st (printJ v @ r) = bindE (scalar (printJ v @ r)) (\<lambda>(v, r). attach d st v r)"
    using c by (subst parseFrom.simps) simp
  then show ?thesis using scalar_print [OF assms] by simp
qed

lemma keyAt_print: "keyAt (printStr k @ CHR '':'' # r) = Inr (decodeGoUtf8 k, r)"
  using str_print [of k "CHR '':'' # r"] by (simp add: keyAt_def printStr_def)

definition readsBack :: "nat option \<Rightarrow> jval \<Rightarrow> bool" where
  "readsBack d v \<longleftrightarrow>
     (\<forall>st r. numbersOk v \<longrightarrow> (case d of None \<Rightarrow> True | Some m \<Rightarrow> length st + nesting v \<le> m) \<longrightarrow> ender r \<longrightarrow>
        parseFrom d st (printJ v @ r) = attach d st (readBack v) r)"

definition fitsDepth :: "nat option \<Rightarrow> frame list \<Rightarrow> nat \<Rightarrow> bool" where
  "fitsDepth d st n = (case d of None \<Rightarrow> True | Some m \<Rightarrow> length st + n \<le> m)"

lemma parse_elements:
  assumes "vs \<noteq> []" and "\<And>v. v \<in> set vs \<Longrightarrow> readsBack d v \<and> numbersOk v \<and> fitsDepth d (ArrFrame [] # st) (nesting v)"
  shows "parseFrom d (ArrFrame acc # st) (sepBy (map printJ vs) @ CHR '']'' # r) = attach d st (JvArr (acc @ map readBack vs)) r"
  using assms
proof (induction vs arbitrary: acc)
  case (Cons v vs)
  have v: "parseFrom d (ArrFrame acc # st) (printJ v @ q) = attach d (ArrFrame acc # st) (readBack v) q" if "ender q" for q acc
    using Cons.prems(2) [of v] that by (auto simp: readsBack_def fitsDepth_def split: option.splits)
  show ?case
  proof (cases vs)
    case Nil
    then show ?thesis using v [of "CHR '']'' # r" acc] by (simp add: ender_def attach.simps)
  next
    case (Cons w ws)
    have "parseFrom d (ArrFrame acc # st) (sepBy (map printJ (v # vs)) @ CHR '']'' # r) =
        parseFrom d (ArrFrame (acc @ [readBack v]) # st) (sepBy (map printJ vs) @ CHR '']'' # r)"
      using v [of "CHR '','' # sepBy (map printJ vs) @ CHR '']'' # r" acc] Cons by (simp add: ender_def attach.simps)
    also have "\<dots> = attach d st (JvArr ((acc @ [readBack v]) @ map readBack vs)) r"
      by (rule Cons.IH) (use Cons Cons.prems(2) in auto)
    finally show ?thesis by simp
  qed
qed simp

text \<open>The members of an object after its first key.\<close>

lemma parse_members:
  assumes "\<And>k v. (k, v) \<in> set ((k0, v0) # ps) \<Longrightarrow> readsBack d v \<and> numbersOk v \<and> fitsDepth d (ArrFrame [] # st) (nesting v)"
  shows "parseFrom d (ObjFrame acc (decodeGoUtf8 k0) # st)
           (printJ v0 @ concat (map (\<lambda>(k, v). CHR '','' # printStr k @ CHR '':'' # printJ v) ps) @ CHR ''}'' # r) =
         attach d st (JvObj (acc @ map (\<lambda>(k, v). (decodeGoUtf8 k, readBack v)) ((k0, v0) # ps))) r"
  using assms
proof (induction ps arbitrary: acc k0 v0)
  case (Nil acc k0 v0)
  have "readsBack d v0 \<and> numbersOk v0 \<and> fitsDepth d (ArrFrame [] # st) (nesting v0)" by (rule Nil.prems [of k0]) simp
  then have "parseFrom d (ObjFrame acc (decodeGoUtf8 k0) # st) (printJ v0 @ CHR ''}'' # r) =
      attach d (ObjFrame acc (decodeGoUtf8 k0) # st) (readBack v0) (CHR ''}'' # r)"
    by (auto simp: readsBack_def fitsDepth_def ender_def split: option.splits)
  then show ?case by (simp add: attach.simps)
next
  case (Cons p ps acc k0 v0)
  obtain k v where p: "p = (k, v)" by force
  let ?rest = "concat (map (\<lambda>(k, v). CHR '','' # printStr k @ CHR '':'' # printJ v) ps) @ CHR ''}'' # r"
  have key: "ws (printStr k @ t) = printStr k @ t" for t by (simp add: printStr_def)
  have "readsBack d v0 \<and> numbersOk v0 \<and> fitsDepth d (ArrFrame [] # st) (nesting v0)" by (rule Cons.prems [of k0]) simp
  then have "parseFrom d (ObjFrame acc (decodeGoUtf8 k0) # st) (printJ v0 @ CHR '','' # printStr k @ CHR '':'' # printJ v @ ?rest) =
      attach d (ObjFrame acc (decodeGoUtf8 k0) # st) (readBack v0) (CHR '','' # printStr k @ CHR '':'' # printJ v @ ?rest)"
    by (auto simp: readsBack_def fitsDepth_def ender_def split: option.splits)
  also have "\<dots> = parseFrom d (ObjFrame (acc @ [(decodeGoUtf8 k0, readBack v0)]) (decodeGoUtf8 k) # st) (printJ v @ ?rest)"
    using keyAt_print [of k] by (simp add: attach.simps key)
  also have "\<dots> = attach d st (JvObj ((acc @ [(decodeGoUtf8 k0, readBack v0)]) @ map (\<lambda>(k, v). (decodeGoUtf8 k, readBack v)) ((k, v) # ps))) r"
    by (rule Cons.IH) (use Cons.prems p in auto)
  finally show ?case by (simp add: p)
qed

lemma sepBy_members:
  "sepBy (map (\<lambda>(k, v). printStr k @ CHR '':'' # printJ v) ((k0, v0) # ps)) =
     printStr k0 @ CHR '':'' # printJ v0 @ concat (map (\<lambda>(k, v). CHR '','' # printStr k @ CHR '':'' # printJ v) ps)"
  by (induction ps arbitrary: k0 v0) auto

lemma max_member: "x \<in> set xs \<Longrightarrow> (x::nat) \<le> foldr max xs 0"
  by (induction xs) auto

lemma readsBack_scalar: "nesting v = 0 \<Longrightarrow> readsBack d v"
  unfolding readsBack_def by (intro allI impI) (rule parse_scalar)

lemma readsBack_all: "readsBack d v"
proof (induction v)
  case (JvArr vs)
  show ?case unfolding readsBack_def
  proof (intro allI impI)
    fix st :: "frame list" and r
    assume ok: "numbersOk (JvArr vs)" and fits: "case d of None \<Rightarrow> True | Some m \<Rightarrow> length st + nesting (JvArr vs) \<le> m" and r: "ender r"
    have deep: "\<not> tooDeep d st" using fits by (auto simp: tooDeep_def split: option.splits)
    show "parseFrom d st (printJ (JvArr vs) @ r) = attach d st (readBack (JvArr vs)) r"
    proof (cases "vs = []")
      case True
      then show ?thesis using deep by (simp add: parseFrom.simps [of d st])
    next
      case False
      then obtain v us where vs: "vs = v # us" by (cases vs) auto
      have el: "readsBack d v \<and> numbersOk v \<and> fitsDepth d (ArrFrame [] # st) (nesting v)" if "v \<in> set vs" for v
        using that JvArr ok fits max_member [of "nesting v" "map nesting vs"]
        by (auto simp: list_all_iff fitsDepth_def split: option.splits)
      obtain c t where c: "sepBy (map printJ vs) = c # t" "\<not> isWs c" "c \<noteq> CHR '']''"
        using print_head [of v] el [of v] vs by (cases us) fastforce+
      have "parseFrom d st (printJ (JvArr vs) @ r) = parseFrom d (ArrFrame [] # st) (sepBy (map printJ vs) @ CHR '']'' # r)"
        using deep c by (simp add: parseFrom.simps [of d st])
      then show ?thesis using parse_elements [OF False el] by simp
    qed
  qed
next
  case (JvObj ps)
  show ?case unfolding readsBack_def
  proof (intro allI impI)
    fix st :: "frame list" and r
    assume ok: "numbersOk (JvObj ps)" and fits: "case d of None \<Rightarrow> True | Some m \<Rightarrow> length st + nesting (JvObj ps) \<le> m" and r: "ender r"
    have deep: "\<not> tooDeep d st" using fits by (auto simp: tooDeep_def split: option.splits)
    show "parseFrom d st (printJ (JvObj ps) @ r) = attach d st (readBack (JvObj ps)) r"
    proof (cases ps)
      case Nil
      then show ?thesis using deep by (simp add: parseFrom.simps [of d st])
    next
      case (Cons p qs)
      obtain k0 v0 where p: "p = (k0, v0)" by force
      have el: "readsBack d v \<and> numbersOk v \<and> fitsDepth d (ArrFrame [] # st) (nesting v)" if "(k, v) \<in> set ((k0, v0) # qs)" for k v
        using that JvObj ok fits max_member [of "nesting v" "map (\<lambda>(k, v). nesting v) ps"] Cons p
        by (force simp: list_all_iff fitsDepth_def split: option.splits)
      have key: "ws (printStr k @ t) = printStr k @ t" "\<not> headIs (\<lambda>c. c = CHR ''}'') (printStr k @ t)" for k t
        by (simp_all add: printStr_def)
      have "parseFrom d st (printJ (JvObj ps) @ r) =
          parseFrom d (ObjFrame [] (decodeGoUtf8 k0) # st)
            (printJ v0 @ concat (map (\<lambda>(k, v). CHR '','' # printStr k @ CHR '':'' # printJ v) qs) @ CHR ''}'' # r)"
        using deep Cons p sepBy_members [of k0 v0 qs] keyAt_print [of k0] by (simp add: parseFrom.simps [of d st] key del: sepBy.simps)
      then show ?thesis using parse_members [OF el] Cons p by simp
    qed
  qed
qed (rule readsBack_scalar, simp)+

text \<open>
  C31. What is printed is read back: a value whose numbers are literals of the grammar, printed compactly and nested no deeper than the limit,
  parses to itself with every string as Go's UTF-8 decoder reads it, and whatever its size the stack of the parser holds it.
\<close>

theorem parseGoJson_print:
  assumes "numbersOk v" and "case maxDepth of None \<Rightarrow> True | Some m \<Rightarrow> nesting v \<le> m"
  shows "parseGoJson maxDepth (printJ v) = Inr (readBack v)"
proof -
  have "parseFrom maxDepth [] (printJ v @ []) = attach maxDepth [] (readBack v) []"
    using readsBack_all [of maxDepth v] assms unfolding readsBack_def by (auto simp: ender_def split: option.splits)
  then show ?thesis by (simp add: parseGoJson_def)
qed

theorem parseGoJson_print_witness:
  "parseGoJson (Some 2) (printJ (JvObj [(''a'', JvArr [JvNum ''-10.5e+3'', JvBool True, JvNull]), (''b'', JvStr False [CHR 0x0a, CHR 0xff])])) =
     Inr (JvObj [(''a'', JvArr [JvNum ''-10.5e+3'', JvBool True, JvNull]), (''b'', JvStr True [CHR 0x0a, CHR 0xef, CHR 0xbf, CHR 0xbd])])"
proof -
  let ?v = "JvObj [(''a'', JvArr [JvNum ''-10.5e+3'', JvBool True, JvNull]), (''b'', JvStr False [CHR 0x0a, CHR 0xff])]"
  have "numbersOk ?v" by code_simp
  moreover have "case Some 2 of None \<Rightarrow> True | Some m \<Rightarrow> nesting ?v \<le> m" by simp
  ultimately have "parseGoJson (Some 2) (printJ ?v) = Inr (readBack ?v)" by (rule parseGoJson_print)
  also have "readBack ?v = JvObj [(''a'', JvArr [JvNum ''-10.5e+3'', JvBool True, JvNull]), (''b'', JvStr True [CHR 0x0a, CHR 0xef, CHR 0xbf, CHR 0xbd])]"
    by code_simp
  finally show ?thesis .
qed

end
