(* ===== verification/S6Evidence.thy ===== *)
theory S6Evidence
  imports Rlp Text JsonX
begin

text \<open>
  The replay-guard evidence of \<open>packages/verify/src/s6/replay.ts\<close> and its strict decoding: no duplicate key anywhere (an iterative walk
  with an explicit stack), the schema of the format, hex that was not written with escapes, then the readers. A refusal is the named state
  with its reason; the detail of the message is not modelled.
\<close>

section \<open>Named states and reasons\<close>

definition S6_REPLAY_DOMAIN :: string where "S6_REPLAY_DOMAIN = ''certen:s6-replay:v1''"

definition MAX_REPLAY_EVIDENCE_BYTES :: nat where "MAX_REPLAY_EVIDENCE_BYTES = 4194304"

definition S6_MAX_JSON_INTEGER :: nat where "S6_MAX_JSON_INTEGER = 2 ^ 53 - 1"

definition S6_REPLAY_UNPROVEN :: string where "S6_REPLAY_UNPROVEN = ''s6_replay_unproven''"

text \<open>\<open>S6ReplayError\<close> by state and reason; \<open>Uncaught\<close> is an \<open>RlpError\<close> that would leave the verifier without a named state.\<close>

datatype s6_error = Refused string string | Uncaught rlp_error

definition unproven :: "string \<Rightarrow> s6_error" where
  "unproven reason = Refused S6_REPLAY_UNPROVEN reason"

definition wrongType :: s6_error where "wrongType = unproven ''wrong_type''"

section \<open>The evidence\<close>

record block_ref =
  br_number :: nat
  br_hash :: bytes

record replay_slot =
  rs_key :: bytes
  rs_base :: nat
  rs_derivation :: string
  rs_slot :: bytes

record slot_proof =
  sp_accountAbsent :: bool
  sp_accountProof :: "bytes list"
  sp_storageHash :: bytes
  sp_codeHash :: bytes
  sp_storageProof :: "bytes list"
  sp_value :: bytes

record provider_failure =
  pf_host :: string
  pf_error :: string

record replay_before =
  rb_parentHeader :: bytes
  rb_proof :: slot_proof

record before_unavailable =
  bu_reason :: string
  bu_providers :: "provider_failure list option"

record replay_proof =
  rp_version :: string
  rp_chainId :: nat
  rp_generation :: string
  rp_contract :: bytes
  rp_slot :: replay_slot
  rp_settlementBlock :: block_ref
  rp_provenAt :: block_ref
  rp_headers :: "bytes list"
  rp_after :: slot_proof
  rp_before :: "replay_before option"
  rp_beforeUnavailable :: "before_unavailable option"

record named_state =
  ns_state :: string
  ns_reason :: string
  ns_chainId :: nat
  ns_txHash :: bytes
  ns_blockNumber :: nat
  ns_blockHash :: bytes
  ns_contract :: bytes
  ns_providers :: "provider_failure list option"
  ns_detail :: "string option"
  ns_before :: "replay_before option"

record replay_evidence =
  ev_version :: string
  ev_proof :: "replay_proof option"
  ev_state :: "named_state option"

section \<open>The schema\<close>

datatype fkind = KStr | KBool | KUint | KHash | KAddress | KBytes | KBytesList | KObject | KObjectList

datatype field = Field (f_key: string) (f_kind: fkind) (f_required: bool) (f_schema: "field list")

definition wireBlockRef :: "field list" where
  "wireBlockRef = [Field ''number'' KUint True [], Field ''hash'' KHash True []]"

definition wireSlot :: "field list" where
  "wireSlot = [Field ''key'' KHash True [], Field ''base'' KUint True [], Field ''derivation'' KStr True [], Field ''slot'' KHash True []]"

definition wireSlotProof :: "field list" where
  "wireSlotProof =
     [Field ''accountAbsent'' KBool False [], Field ''accountProof'' KBytesList True [], Field ''storageHash'' KHash True [],
      Field ''codeHash'' KHash True [], Field ''storageProof'' KBytesList True [], Field ''value'' KHash True []]"

definition wireProviderFailure :: "field list" where
  "wireProviderFailure = [Field ''host'' KStr True [], Field ''error'' KStr True []]"

definition wireBefore :: "field list" where
  "wireBefore = [Field ''parentHeader'' KBytes True [], Field ''proof'' KObject True wireSlotProof]"

definition wireBeforeUnavailable :: "field list" where
  "wireBeforeUnavailable = [Field ''reason'' KStr True [], Field ''providers'' KObjectList False wireProviderFailure]"

definition wireProof :: "field list" where
  "wireProof =
     [Field ''version'' KStr True [], Field ''chainId'' KUint True [], Field ''generation'' KStr True [], Field ''contract'' KAddress True [],
      Field ''slot'' KObject True wireSlot, Field ''settlementBlock'' KObject True wireBlockRef, Field ''provenAt'' KObject True wireBlockRef,
      Field ''headers'' KBytesList True [], Field ''after'' KObject True wireSlotProof, Field ''before'' KObject False wireBefore,
      Field ''beforeUnavailable'' KObject False wireBeforeUnavailable]"

definition wireNamedState :: "field list" where
  "wireNamedState =
     [Field ''state'' KStr True [], Field ''reason'' KStr True [], Field ''chainId'' KUint True [], Field ''txHash'' KHash True [],
      Field ''blockNumber'' KUint True [], Field ''blockHash'' KHash True [], Field ''contract'' KAddress True [],
      Field ''providers'' KObjectList False wireProviderFailure, Field ''detail'' KStr False [], Field ''before'' KObject False wireBefore]"

definition wireEvidence :: "field list" where
  "wireEvidence = [Field ''version'' KStr True [], Field ''proof'' KObject False wireProof, Field ''state'' KObject False wireNamedState]"

section \<open>Formats\<close>

definition uintLit :: "string \<Rightarrow> bool" where
  "uintLit s \<longleftrightarrow> s \<noteq> [] \<and> list_all isDigit s \<and> (s = ''0'' \<or> hd s \<noteq> CHR ''0'')"

definition hexText :: "string \<Rightarrow> bool" where
  "hexText s \<longleftrightarrow> take 2 s = ''0x'' \<and> list_all ishex (drop 2 s)"

definition hashText :: "string \<Rightarrow> bool" where
  "hashText s \<longleftrightarrow> hexText s \<and> length (drop 2 s) = 64"

definition addressText :: "string \<Rightarrow> bool" where
  "addressText s \<longleftrightarrow> hexText s \<and> length (drop 2 s) = 40"

definition bytesText :: "string \<Rightarrow> bool" where
  "bytesText s \<longleftrightarrow> hexText s \<and> even (length (drop 2 s))"

text \<open>A string in one of the hex formats.\<close>

definition checkText :: "(string \<Rightarrow> bool) \<Rightarrow> jval \<Rightarrow> s6_error + unit" where
  "checkText P v = (case v of JvStr _ s \<Rightarrow> if P s then Inr () else Inl wrongType | _ \<Rightarrow> Inl wrongType)"

section \<open>The schema check\<close>

lemma size_pair_found:
  assumes "find P ps = Some p"
  shows "size (snd p) < size (JvObj ps)"
proof -
  have "p \<in> set ps" using assms by (auto simp: find_Some_iff)
  then have "size (snd p) \<le> size_list (\<lambda>p. size (snd p)) ps" by (intro size_list_estimation') auto
  also have "\<dots> \<le> size_list (size_prod (\<lambda>x. 0) size) ps"
    by (rule size_list_pointwise) (simp add: size_prod_def split: prod.splits)
  finally show ?thesis by simp
qed

lemma size_member: "v \<in> set vs \<Longrightarrow> size v < size (JvArr vs)"
  by (simp add: le_imp_less_Suc size_list_estimation')

function checkValue :: "jval \<Rightarrow> field \<Rightarrow> s6_error + unit"
  and checkObject :: "jval \<Rightarrow> field list \<Rightarrow> s6_error + unit"
where
  "checkValue v fd =
     (case f_kind fd of
        KStr \<Rightarrow> (case v of JvStr _ _ \<Rightarrow> Inr () | _ \<Rightarrow> Inl wrongType)
      | KBool \<Rightarrow> (case v of JvBool _ \<Rightarrow> Inr () | _ \<Rightarrow> Inl wrongType)
      | KUint \<Rightarrow>
          (case v of
             JvNum l \<Rightarrow>
               if \<not> uintLit l then Inl wrongType
               else if decValue l > S6_MAX_JSON_INTEGER then Inl wrongType
               else Inr ()
           | _ \<Rightarrow> Inl wrongType)
      | KHash \<Rightarrow> checkText hashText v
      | KAddress \<Rightarrow> checkText addressText v
      | KBytes \<Rightarrow> checkText bytesText v
      | KBytesList \<Rightarrow>
          (case v of
             JvArr vs \<Rightarrow> bindE (mapE (\<lambda>e. checkValue e (Field [] KBytes True [])) vs) (\<lambda>_. Inr ())
           | _ \<Rightarrow> Inl wrongType)
      | KObject \<Rightarrow> checkObject v (f_schema fd)
      | KObjectList \<Rightarrow>
          (case v of
             JvArr vs \<Rightarrow> bindE (mapE (\<lambda>e. checkObject e (f_schema fd)) vs) (\<lambda>_. Inr ())
           | _ \<Rightarrow> Inl wrongType))"
| "checkObject v sch =
     (case v of
        JvObj ps \<Rightarrow>
          if list_ex (\<lambda>(k, _). \<not> list_ex (\<lambda>x. f_key x = k) sch) ps then Inl (unproven ''unknown_field'')
          else
            bindE (mapE (\<lambda>fd.
              case find (\<lambda>p. fst p = f_key fd) ps of
                None \<Rightarrow> if f_required fd then Inl (unproven ''missing_field'') else Inr ()
              | Some p \<Rightarrow> checkValue (snd p) fd) sch) (\<lambda>_. Inr ())
      | _ \<Rightarrow> Inl wrongType)"
  by pat_completeness auto

termination
  by (relation "measure (\<lambda>x. case x of Inl (v, _) \<Rightarrow> 2 * size v + 1 | Inr (v, _) \<Rightarrow> 2 * size v)")
    (auto dest: size_pair_found size_member simp del: jval.size)

declare checkValue.simps [simp del] checkObject.simps [simp del]

section \<open>Escaped hex\<close>

text \<open>\<open>noEscapedHex\<close>, which runs on a value the schema check has passed.\<close>

fun escaped :: "jval \<Rightarrow> bool" where
  "escaped (JvStr e _) = e"
| "escaped _ = False"

fun elements :: "jval \<Rightarrow> jval list" where
  "elements (JvArr vs) = vs"
| "elements _ = []"

fun pairs :: "jval \<Rightarrow> (string \<times> jval) list" where
  "pairs (JvObj ps) = ps"
| "pairs _ = []"

lemma size_elements: "e \<in> set (elements v) \<Longrightarrow> size e < size v"
  by (cases v) (auto simp del: jval.size dest: size_member)

lemma size_pairs: "find P (pairs v) = Some p \<Longrightarrow> size (snd p) < size v"
  by (cases v) (auto simp del: jval.size dest: size_pair_found)

lemma size_pairs_elements: "find P (pairs v) = Some p \<Longrightarrow> e \<in> set (elements (snd p)) \<Longrightarrow> size e < size v"
  using size_pairs size_elements order.strict_trans by blast

function noEscapedHex :: "jval \<Rightarrow> field list \<Rightarrow> s6_error + unit" where
  "noEscapedHex v sch =
     bindE (mapE (\<lambda>fd.
       case find (\<lambda>p. fst p = f_key fd) (pairs v) of
         None \<Rightarrow> Inr ()
       | Some p \<Rightarrow>
           let x = snd p in
           (case f_kind fd of
              KHash \<Rightarrow> guardE (escaped x) wrongType (Inr ())
            | KAddress \<Rightarrow> guardE (escaped x) wrongType (Inr ())
            | KBytes \<Rightarrow> guardE (escaped x) wrongType (Inr ())
            | KBytesList \<Rightarrow> guardE (list_ex escaped (elements x)) wrongType (Inr ())
            | KObject \<Rightarrow> noEscapedHex x (f_schema fd)
            | KObjectList \<Rightarrow> bindE (mapE (\<lambda>e. noEscapedHex e (f_schema fd)) (elements x)) (\<lambda>_. Inr ())
            | _ \<Rightarrow> Inr ())) sch) (\<lambda>_. Inr ())"
  by pat_completeness auto
termination
  by (relation "measure (\<lambda>(v, _). size v)") (auto dest: size_pairs size_pairs_elements)

declare noEscapedHex.simps [simp del]

section \<open>Repeated keys\<close>

text \<open>
  \<open>noDuplicateKeys\<close>: depth first in document order, with the open containers on a stack. A frame holds what is left of an array, or what is
  left of an object and the keys seen so far.
\<close>

datatype key_frame = Elems "jval list" | Members "(string \<times> jval) list" "string list"

fun openValue :: "jval \<Rightarrow> key_frame list \<Rightarrow> key_frame list" where
  "openValue (JvArr vs) st = (if length vs > 0 then Elems vs # st else st)"
| "openValue (JvObj ps) st = (if length ps > 0 then Members ps [] # st else st)"
| "openValue _ st = st"

fun frameSize :: "key_frame \<Rightarrow> nat" where
  "frameSize (Elems vs) = size_list size vs + 1"
| "frameSize (Members ps _) = size_list (size_prod (\<lambda>_. 0) size) ps + 1"

lemma openValue_size: "sum_list (map frameSize (openValue v st)) \<le> size v + sum_list (map frameSize st)"
  by (cases v) auto

function keyLoop :: "key_frame list \<Rightarrow> json_error + unit" where
  "keyLoop [] = Inr ()"
| "keyLoop (Elems [] # st) = keyLoop st"
| "keyLoop (Elems (v # vs) # st) = keyLoop (openValue v (Elems vs # st))"
| "keyLoop (Members [] seen # st) = keyLoop st"
| "keyLoop (Members ((k, v) # ps) seen # st) =
     (if k \<in> set seen then Inl (DuplicateKey k) else keyLoop (openValue v (Members ps (k # seen) # st)))"
  by pat_completeness auto
termination
proof (relation "measure (\<lambda>st. sum_list (map frameSize st))", goal_cases)
  case (3 v vs st)
  then show ?case using openValue_size [of v "Elems vs # st"] by simp
next
  case (5 k v ps seen st)
  then show ?case using openValue_size [of v "Members ps (k # seen) # st"] by simp
qed simp_all

definition noDuplicateKeys :: "jval \<Rightarrow> json_error + unit" where
  "noDuplicateKeys v = keyLoop (openValue v [])"

section \<open>Readers of a checked value\<close>

text \<open>\<open>new Map(pairs)\<close>: of a repeated key the last pair counts. The readers are applied to values of the checked type only.\<close>

definition obj :: "jval option \<Rightarrow> string \<Rightarrow> jval option" where
  "obj v = (case v of Some x \<Rightarrow> map_of (rev (pairs x)) | None \<Rightarrow> Map.empty)"

text \<open>\<open>fromHexDigits\<close>: two hex digits of either case per byte.\<close>

fun fromHexDigits :: "string \<Rightarrow> bytes" where
  "fromHexDigits (a # b # s) = of_nat (unhex a * 16 + unhex b) # fromHexDigits s"
| "fromHexDigits _ = []"

fun strOf :: "jval option \<Rightarrow> string" where
  "strOf (Some (JvStr _ s)) = s"
| "strOf _ = []"

definition hx :: "jval option \<Rightarrow> bytes" where
  "hx v = fromHexDigits (drop 2 (strOf v))"

fun numOf :: "jval option \<Rightarrow> nat" where
  "numOf (Some (JvNum l)) = decValue l"
| "numOf _ = 0"

fun boolOf :: "jval option \<Rightarrow> bool" where
  "boolOf (Some (JvBool b)) = b"
| "boolOf _ = False"

definition arrOf :: "jval option \<Rightarrow> jval list" where
  "arrOf v = (case v of Some x \<Rightarrow> elements x | None \<Rightarrow> [])"

definition hxList :: "jval option \<Rightarrow> bytes list" where
  "hxList v = map (\<lambda>e. hx (Some e)) (arrOf v)"

definition readProviders :: "jval option \<Rightarrow> provider_failure list option" where
  "readProviders v =
     (if v = None then None
      else Some (map (\<lambda>e. \<lparr> pf_host = strOf (obj (Some e) ''host''), pf_error = strOf (obj (Some e) ''error'') \<rparr>) (arrOf v)))"

definition readSlotProof :: "jval option \<Rightarrow> slot_proof" where
  "readSlotProof v =
     (let o' = obj v in
      \<lparr> sp_accountAbsent = boolOf (o' ''accountAbsent''), sp_accountProof = hxList (o' ''accountProof''),
        sp_storageHash = hx (o' ''storageHash''), sp_codeHash = hx (o' ''codeHash''), sp_storageProof = hxList (o' ''storageProof''),
        sp_value = hx (o' ''value'') \<rparr>)"

definition readBlockRef :: "jval option \<Rightarrow> block_ref" where
  "readBlockRef v = \<lparr> br_number = numOf (obj v ''number''), br_hash = hx (obj v ''hash'') \<rparr>"

definition readBefore :: "jval option \<Rightarrow> replay_before option" where
  "readBefore v =
     (if v = None then None
      else Some \<lparr> rb_parentHeader = hx (obj v ''parentHeader''), rb_proof = readSlotProof (obj v ''proof'') \<rparr>)"

definition readSlot :: "jval option \<Rightarrow> replay_slot" where
  "readSlot v =
     (let s = obj v in
      \<lparr> rs_key = hx (s ''key''), rs_base = numOf (s ''base''), rs_derivation = strOf (s ''derivation''), rs_slot = hx (s ''slot'') \<rparr>)"

definition readUnavailable :: "jval option \<Rightarrow> before_unavailable option" where
  "readUnavailable v =
     (if v = None then None
      else Some \<lparr> bu_reason = strOf (obj v ''reason''), bu_providers = readProviders (obj v ''providers'') \<rparr>)"

definition readProof :: "jval option \<Rightarrow> replay_proof" where
  "readProof v =
     (let p = obj v in
      \<lparr> rp_version = strOf (p ''version''), rp_chainId = numOf (p ''chainId''), rp_generation = strOf (p ''generation''),
        rp_contract = hx (p ''contract''), rp_slot = readSlot (p ''slot''), rp_settlementBlock = readBlockRef (p ''settlementBlock''),
        rp_provenAt = readBlockRef (p ''provenAt''), rp_headers = hxList (p ''headers''), rp_after = readSlotProof (p ''after''),
        rp_before = readBefore (p ''before''), rp_beforeUnavailable = readUnavailable (p ''beforeUnavailable'') \<rparr>)"

definition readState :: "jval option \<Rightarrow> named_state" where
  "readState v =
     (let s = obj v in
      \<lparr> ns_state = strOf (s ''state''), ns_reason = strOf (s ''reason''), ns_chainId = numOf (s ''chainId''), ns_txHash = hx (s ''txHash''),
        ns_blockNumber = numOf (s ''blockNumber''), ns_blockHash = hx (s ''blockHash''), ns_contract = hx (s ''contract''),
        ns_providers = readProviders (s ''providers''), ns_detail = map_option (\<lambda>x. strOf (Some x)) (s ''detail''),
        ns_before = readBefore (s ''before'') \<rparr>)"

definition readEvidence :: "jval \<Rightarrow> replay_evidence" where
  "readEvidence doc =
     (let top = obj (Some doc) in
      \<lparr> ev_version = strOf (top ''version''),
        ev_proof = (if top ''proof'' \<noteq> None then Some (readProof (top ''proof'')) else None),
        ev_state = (if top ''state'' \<noteq> None then Some (readState (top ''state'')) else None) \<rparr>)"

section \<open>Decoding\<close>

definition checkVersions :: "replay_evidence \<Rightarrow> s6_error + replay_evidence" where
  "checkVersions ev =
     guardE ((ev_proof ev = None) = (ev_state ev = None)) (unproven ''no_evidence_or_state'')
    (guardE (ev_version ev \<noteq> S6_REPLAY_DOMAIN) (unproven ''unknown_version'')
    (guardE (case ev_proof ev of None \<Rightarrow> False | Some p \<Rightarrow> rp_version p \<noteq> S6_REPLAY_DOMAIN) (unproven ''unknown_version'')
    (Inr ev)))"

definition decodeDocument :: "jval \<Rightarrow> s6_error + replay_evidence" where
  "decodeDocument doc =
     bindE (checkObject doc wireEvidence) (\<lambda>_.
     bindE (noEscapedHex doc wireEvidence) (\<lambda>_.
     checkVersions (readEvidence doc)))"

definition decodeReplayGuardEvidence :: "bytes \<Rightarrow> s6_error + replay_evidence" where
  "decodeReplayGuardEvidence raw =
     (if length raw > MAX_REPLAY_EVIDENCE_BYTES then Inl (unproven ''evidence_too_large'')
      else case bindE (parseGoJson None (binaryString raw)) (\<lambda>doc. bindE (noDuplicateKeys doc) (\<lambda>_. Inr doc)) of
             Inl _ \<Rightarrow> Inl (unproven ''malformed_json'')
           | Inr doc \<Rightarrow> decodeDocument doc)"

section \<open>The walk finds every repeated key\<close>

fun distinctKeys :: "jval \<Rightarrow> bool" where
  "distinctKeys (JvArr vs) = list_all distinctKeys vs"
| "distinctKeys (JvObj ps) = (distinct (map fst ps) \<and> list_all (\<lambda>(k, v). distinctKeys v) ps)"
| "distinctKeys _ = True"

fun frameOk :: "key_frame \<Rightarrow> bool" where
  "frameOk (Elems vs) = list_all distinctKeys vs"
| "frameOk (Members ps seen) = (distinct (map fst ps) \<and> set (map fst ps) \<inter> set seen = {} \<and> list_all (\<lambda>(k, v). distinctKeys v) ps)"

lemma openValue_ok: "list_all frameOk (openValue v st) \<longleftrightarrow> distinctKeys v \<and> list_all frameOk st"
  by (cases v) auto

lemma keyLoop_ok: "keyLoop st = Inr () \<longleftrightarrow> list_all frameOk st"
proof (induction st rule: keyLoop.induct)
  case (5 k v ps seen st)
  then show ?case by (auto simp: openValue_ok)
qed (auto simp: openValue_ok)

text \<open>
  The iterative walk decides exactly the recursive statement: it ends without an error precisely when no object at any depth of the
  document holds a key twice.
\<close>

theorem noDuplicateKeys_exact: "noDuplicateKeys v = Inr () \<longleftrightarrow> distinctKeys v"
  by (simp add: noDuplicateKeys_def keyLoop_ok openValue_ok)

section \<open>What a decoded evidence is\<close>

definition blockRefOk :: "block_ref \<Rightarrow> bool" where
  "blockRefOk r \<longleftrightarrow> br_number r \<le> S6_MAX_JSON_INTEGER \<and> length (br_hash r) = 32"

definition slotOk :: "replay_slot \<Rightarrow> bool" where
  "slotOk s \<longleftrightarrow> length (rs_key s) = 32 \<and> rs_base s \<le> S6_MAX_JSON_INTEGER \<and> length (rs_slot s) = 32"

definition slotProofOk :: "slot_proof \<Rightarrow> bool" where
  "slotProofOk sp \<longleftrightarrow> length (sp_storageHash sp) = 32 \<and> length (sp_codeHash sp) = 32 \<and> length (sp_value sp) = 32"

definition beforeOk :: "replay_before option \<Rightarrow> bool" where
  "beforeOk b \<longleftrightarrow> (case b of None \<Rightarrow> True | Some x \<Rightarrow> slotProofOk (rb_proof x))"

definition proofOk :: "replay_proof \<Rightarrow> bool" where
  "proofOk p \<longleftrightarrow>
     rp_version p = S6_REPLAY_DOMAIN \<and> rp_chainId p \<le> S6_MAX_JSON_INTEGER \<and> length (rp_contract p) = 20 \<and> slotOk (rp_slot p) \<and>
     blockRefOk (rp_settlementBlock p) \<and> blockRefOk (rp_provenAt p) \<and> slotProofOk (rp_after p) \<and> beforeOk (rp_before p)"

definition stateOk :: "named_state \<Rightarrow> bool" where
  "stateOk s \<longleftrightarrow>
     ns_chainId s \<le> S6_MAX_JSON_INTEGER \<and> ns_blockNumber s \<le> S6_MAX_JSON_INTEGER \<and> length (ns_txHash s) = 32 \<and>
     length (ns_blockHash s) = 32 \<and> length (ns_contract s) = 20 \<and> beforeOk (ns_before s)"

text \<open>One of the two halves, of the version of the domain.\<close>

definition evidenceOk :: "replay_evidence \<Rightarrow> bool" where
  "evidenceOk ev \<longleftrightarrow>
     ev_version ev = S6_REPLAY_DOMAIN \<and>
     (case (ev_proof ev, ev_state ev) of
        (Some p, None) \<Rightarrow> proofOk p
      | (None, Some s) \<Rightarrow> stateOk s
      | _ \<Rightarrow> False)"

lemma mapE_unit: "bindE (mapE f xs) (\<lambda>_. Inr ()) = Inr u \<longleftrightarrow> (\<forall>x \<in> set xs. \<exists>y. f x = Inr y)"
  by (induction xs) (auto simp: results)

lemma find_map_of: "find (\<lambda>p. fst p = k) ps = map_option (\<lambda>x. (k, x)) (map_of ps k)"
  by (induction ps) auto

lemma map_of_rev_distinct: "distinct (map fst ps) \<Longrightarrow> map_of (rev ps) = map_of ps"
  by (rule map_of_eqI) (auto simp: rev_map [symmetric] distinct_rev map_of_inject_set)

text \<open>A field of a checked value.\<close>

lemma checked_field:
  assumes "checkObject v sch = Inr u" and "distinctKeys v" and "fd \<in> set sch"
  shows "case obj (Some v) (f_key fd) of None \<Rightarrow> \<not> f_required fd | Some x \<Rightarrow> checkValue x fd = Inr () \<and> distinctKeys x"
proof -
  obtain ps where v: "v = JvObj ps" using assms(1) by (cases v) (auto simp: checkObject.simps)
  have d: "obj (Some v) (f_key fd) = map_of ps (f_key fd)"
    using assms(2) v by (simp add: obj_def map_of_rev_distinct)
  have f: "case map_of ps (f_key fd) of None \<Rightarrow> \<not> f_required fd | Some x \<Rightarrow> checkValue x fd = Inr ()"
    using assms(1,3) by (auto simp: v checkObject.simps [of "JvObj ps"] mapE_unit find_map_of split: if_splits option.splits)
  show ?thesis
  proof (cases "map_of ps (f_key fd)")
    case (Some x)
    then have "(f_key fd, x) \<in> set ps" by (rule map_of_SomeD)
    then have "distinctKeys x" using assms(2) v by (auto simp: list_all_iff)
    then show ?thesis using d f Some by simp
  qed (use d f in simp)
qed

lemma checked_required:
  assumes "checkObject v sch = Inr u" and "distinctKeys v" and "Field k kd True sub \<in> set sch"
  obtains x where "obj (Some v) k = Some x" and "checkValue x (Field k kd True sub) = Inr ()" and "distinctKeys x"
  using checked_field [OF assms] that by (auto split: option.splits)

lemma checked_optional:
  assumes "checkObject v sch = Inr u" and "distinctKeys v" and "Field k kd False sub \<in> set sch" and "obj (Some v) k = Some x"
  shows "checkValue x (Field k kd False sub) = Inr ()" and "distinctKeys x"
  using checked_field [OF assms(1,2,3)] assms(4) by auto

text \<open>What the readers make of a checked value of each kind.\<close>

lemma length_fromHexDigits: "length (fromHexDigits s) = length s div 2"
  by (induction s rule: fromHexDigits.induct) auto

lemma hash_length: "checkValue x (Field k KHash r sub) = Inr u \<Longrightarrow> length (hx (Some x)) = 32"
  by (cases x) (auto simp: checkValue.simps checkText_def hashText_def hx_def length_fromHexDigits split: if_splits)

lemma address_length: "checkValue x (Field k KAddress r sub) = Inr u \<Longrightarrow> length (hx (Some x)) = 20"
  by (cases x) (auto simp: checkValue.simps checkText_def addressText_def hx_def length_fromHexDigits split: if_splits)

lemma uint_bound: "checkValue x (Field k KUint r sub) = Inr u \<Longrightarrow> numOf (Some x) \<le> S6_MAX_JSON_INTEGER"
  by (cases x) (auto simp: checkValue.simps split: if_splits)

lemma object_checked: "checkValue x (Field k KObject r sub) = checkObject x sub"
  by (simp add: checkValue.simps)

lemmas kind_facts = hash_length address_length uint_bound

lemma slotProof_checked:
  assumes "checkObject v wireSlotProof = Inr u" and "distinctKeys v"
  shows "slotProofOk (readSlotProof (Some v))"
proof -
  have "Field ''storageHash'' KHash True [] \<in> set wireSlotProof" "Field ''codeHash'' KHash True [] \<in> set wireSlotProof"
    "Field ''value'' KHash True [] \<in> set wireSlotProof" by (simp_all add: wireSlotProof_def)
  from this [THEN checked_required [OF assms]] show ?thesis
    unfolding slotProofOk_def readSlotProof_def by (metis hash_length slot_proof.select_convs(3,4,6))
qed

lemma blockRef_checked:
  assumes "checkObject v wireBlockRef = Inr u" and "distinctKeys v"
  shows "blockRefOk (readBlockRef (Some v))"
proof -
  have "Field ''number'' KUint True [] \<in> set wireBlockRef" "Field ''hash'' KHash True [] \<in> set wireBlockRef"
    by (simp_all add: wireBlockRef_def)
  from this [THEN checked_required [OF assms]] show ?thesis
    unfolding blockRefOk_def readBlockRef_def by (metis kind_facts block_ref.select_convs)
qed

lemma slot_checked:
  assumes "checkObject v wireSlot = Inr u" and "distinctKeys v"
  shows "slotOk (readSlot (Some v))"
proof -
  have "Field ''key'' KHash True [] \<in> set wireSlot" "Field ''base'' KUint True [] \<in> set wireSlot" "Field ''slot'' KHash True [] \<in> set wireSlot"
    by (simp_all add: wireSlot_def)
  from this [THEN checked_required [OF assms]] show ?thesis
    unfolding slotOk_def readSlot_def Let_def by (metis kind_facts replay_slot.select_convs)
qed

lemma before_checked:
  assumes "checkObject v sch = Inr u" and "distinctKeys v" and "Field ''before'' KObject False wireBefore \<in> set sch"
  shows "beforeOk (readBefore (obj (Some v) ''before''))"
proof (cases "obj (Some v) ''before''")
  case (Some b)
  then have b: "checkObject b wireBefore = Inr ()" "distinctKeys b"
    using checked_optional [OF assms] by (simp_all add: object_checked)
  have "Field ''proof'' KObject True wireSlotProof \<in> set wireBefore" by (simp add: wireBefore_def)
  then obtain x where "obj (Some b) ''proof'' = Some x" "checkObject x wireSlotProof = Inr ()" "distinctKeys x"
    using checked_required [OF b] by (metis object_checked)
  then show ?thesis using slotProof_checked by (simp add: Some readBefore_def beforeOk_def)
qed (simp add: readBefore_def beforeOk_def)

lemma proof_checked:
  assumes "checkObject v wireProof = Inr u" and "distinctKeys v" and "rp_version (readProof (Some v)) = S6_REPLAY_DOMAIN"
  shows "proofOk (readProof (Some v))"
proof -
  have "Field ''chainId'' KUint True [] \<in> set wireProof" "Field ''contract'' KAddress True [] \<in> set wireProof"
    by (simp_all add: wireProof_def)
  from this [THEN checked_required [OF assms(1,2)]]
  have a: "numOf (obj (Some v) ''chainId'') \<le> S6_MAX_JSON_INTEGER" "length (hx (obj (Some v) ''contract'')) = 20"
    by (metis kind_facts)+
  have "Field ''slot'' KObject True wireSlot \<in> set wireProof" "Field ''settlementBlock'' KObject True wireBlockRef \<in> set wireProof"
    "Field ''provenAt'' KObject True wireBlockRef \<in> set wireProof" "Field ''after'' KObject True wireSlotProof \<in> set wireProof"
    by (simp_all add: wireProof_def)
  from this [THEN checked_required [OF assms(1,2)]]
  have "slotOk (readSlot (obj (Some v) ''slot''))" "blockRefOk (readBlockRef (obj (Some v) ''settlementBlock''))"
    "blockRefOk (readBlockRef (obj (Some v) ''provenAt''))" "slotProofOk (readSlotProof (obj (Some v) ''after''))"
    by (metis object_checked slot_checked blockRef_checked slotProof_checked)+
  moreover have "beforeOk (readBefore (obj (Some v) ''before''))"
    by (rule before_checked [OF assms(1,2)]) (simp add: wireProof_def)
  ultimately show ?thesis using a assms(3) unfolding proofOk_def by (simp add: readProof_def Let_def)
qed

lemma state_checked:
  assumes "checkObject v wireNamedState = Inr u" and "distinctKeys v"
  shows "stateOk (readState (Some v))"
proof -
  have "Field ''chainId'' KUint True [] \<in> set wireNamedState" "Field ''txHash'' KHash True [] \<in> set wireNamedState"
    "Field ''blockNumber'' KUint True [] \<in> set wireNamedState" "Field ''blockHash'' KHash True [] \<in> set wireNamedState"
    "Field ''contract'' KAddress True [] \<in> set wireNamedState"
    by (simp_all add: wireNamedState_def)
  from this [THEN checked_required [OF assms]]
  have "numOf (obj (Some v) ''chainId'') \<le> S6_MAX_JSON_INTEGER" "length (hx (obj (Some v) ''txHash'')) = 32"
    "numOf (obj (Some v) ''blockNumber'') \<le> S6_MAX_JSON_INTEGER" "length (hx (obj (Some v) ''blockHash'')) = 32"
    "length (hx (obj (Some v) ''contract'')) = 20"
    by (metis kind_facts)+
  moreover have "beforeOk (readBefore (obj (Some v) ''before''))"
    by (rule before_checked [OF assms]) (simp add: wireNamedState_def)
  ultimately show ?thesis unfolding stateOk_def by (simp add: readState_def Let_def)
qed

lemma decodeDocument_ok:
  assumes "decodeDocument doc = Inr ev" and "distinctKeys doc"
  shows "evidenceOk ev"
proof -
  have c: "checkObject doc wireEvidence = Inr ()" and v: "checkVersions (readEvidence doc) = Inr ev"
    using assms(1) by (auto simp: decodeDocument_def results)
  then have ev: "ev = readEvidence doc" "ev_version ev = S6_REPLAY_DOMAIN" "(ev_proof ev = None) \<noteq> (ev_state ev = None)"
    "\<And>p. ev_proof ev = Some p \<Longrightarrow> rp_version p = S6_REPLAY_DOMAIN"
    by (auto simp: checkVersions_def results split: option.splits)
  have pr: "proofOk p" if p: "ev_proof ev = Some p" for p
  proof -
    obtain x where x: "obj (Some doc) ''proof'' = Some x" "p = readProof (Some x)"
      using p ev(1) by (auto simp: readEvidence_def Let_def split: if_splits)
    have "Field ''proof'' KObject False wireProof \<in> set wireEvidence" by (simp add: wireEvidence_def)
    from checked_optional [OF c assms(2) this x(1)] have "checkObject x wireProof = Inr ()" "distinctKeys x"
      by (simp_all add: object_checked)
    then show ?thesis using proof_checked ev(4) [OF p] x(2) by blast
  qed
  have st: "stateOk s" if s: "ev_state ev = Some s" for s
  proof -
    obtain x where x: "obj (Some doc) ''state'' = Some x" "s = readState (Some x)"
      using s ev(1) by (auto simp: readEvidence_def Let_def split: if_splits)
    have "Field ''state'' KObject False wireNamedState \<in> set wireEvidence" by (simp add: wireEvidence_def)
    from checked_optional [OF c assms(2) this x(1)] have "checkObject x wireNamedState = Inr ()" "distinctKeys x"
      by (simp_all add: object_checked)
    then show ?thesis using state_checked x(2) by blast
  qed
  show ?thesis using ev(2,3) pr st by (auto simp: evidenceOk_def split: option.splits)
qed

text \<open>
  C30. Whatever bytes are decoded: an accepted evidence is at most 4 MiB, of the version of the format, carries exactly one of a proof and a
  named state, and every hash in it is 32 bytes, every address 20, every number at most 2^53 - 1.
\<close>

theorem decodeReplayGuardEvidence_ok:
  assumes "decodeReplayGuardEvidence raw = Inr ev"
  shows "length raw \<le> 4194304 \<and> evidenceOk ev"
proof -
  obtain doc where "parseGoJson None (binaryString raw) = Inr doc" "noDuplicateKeys doc = Inr ()" "decodeDocument doc = Inr ev"
    and "length raw \<le> 4194304"
    using assms by (auto simp: decodeReplayGuardEvidence_def MAX_REPLAY_EVIDENCE_BYTES_def results split: if_splits sum.splits)
  then show ?thesis using decodeDocument_ok by (simp add: noDuplicateKeys_def keyLoop_ok openValue_ok)
qed

section \<open>Writing an evidence\<close>

text \<open>The reference writer: the members in the order of the format, an absent optional member left out, hex in lower case.\<close>

definition encStr :: "string \<Rightarrow> jval" where "encStr s = JvStr (list_ex special s) s"

definition encHex :: "bytes \<Rightarrow> jval" where "encHex b = JvStr False (''0x'' @ toHex b)"

definition encNum :: "nat \<Rightarrow> jval" where "encNum n = JvNum (decNat n)"

definition encHexList :: "bytes list \<Rightarrow> jval" where "encHexList bs = JvArr (map encHex bs)"

definition optMember :: "string \<Rightarrow> ('a \<Rightarrow> jval) \<Rightarrow> 'a option \<Rightarrow> (string \<times> jval) list" where
  "optMember k f x = (case x of None \<Rightarrow> [] | Some y \<Rightarrow> [(k, f y)])"

definition encBlockRef :: "block_ref \<Rightarrow> jval" where
  "encBlockRef r = JvObj [(''number'', encNum (br_number r)), (''hash'', encHex (br_hash r))]"

definition encSlot :: "replay_slot \<Rightarrow> jval" where
  "encSlot s = JvObj [(''key'', encHex (rs_key s)), (''base'', encNum (rs_base s)), (''derivation'', encStr (rs_derivation s)), (''slot'', encHex (rs_slot s))]"

definition encSlotProof :: "slot_proof \<Rightarrow> jval" where
  "encSlotProof sp = JvObj
     [(''accountAbsent'', JvBool (sp_accountAbsent sp)), (''accountProof'', encHexList (sp_accountProof sp)),
      (''storageHash'', encHex (sp_storageHash sp)), (''codeHash'', encHex (sp_codeHash sp)),
      (''storageProof'', encHexList (sp_storageProof sp)), (''value'', encHex (sp_value sp))]"

definition encProviders :: "provider_failure list \<Rightarrow> jval" where
  "encProviders fs = JvArr (map (\<lambda>f. JvObj [(''host'', encStr (pf_host f)), (''error'', encStr (pf_error f))]) fs)"

definition encBefore :: "replay_before \<Rightarrow> jval" where
  "encBefore b = JvObj [(''parentHeader'', encHex (rb_parentHeader b)), (''proof'', encSlotProof (rb_proof b))]"

definition encUnavailable :: "before_unavailable \<Rightarrow> jval" where
  "encUnavailable b = JvObj ((''reason'', encStr (bu_reason b)) # optMember ''providers'' encProviders (bu_providers b))"

definition encProof :: "replay_proof \<Rightarrow> jval" where
  "encProof p = JvObj
     ([(''version'', encStr (rp_version p)), (''chainId'', encNum (rp_chainId p)), (''generation'', encStr (rp_generation p)),
       (''contract'', encHex (rp_contract p)), (''slot'', encSlot (rp_slot p)), (''settlementBlock'', encBlockRef (rp_settlementBlock p)),
       (''provenAt'', encBlockRef (rp_provenAt p)), (''headers'', encHexList (rp_headers p)), (''after'', encSlotProof (rp_after p))] @
      optMember ''before'' encBefore (rp_before p) @ optMember ''beforeUnavailable'' encUnavailable (rp_beforeUnavailable p))"

definition encState :: "named_state \<Rightarrow> jval" where
  "encState s = JvObj
     ([(''state'', encStr (ns_state s)), (''reason'', encStr (ns_reason s)), (''chainId'', encNum (ns_chainId s)),
       (''txHash'', encHex (ns_txHash s)), (''blockNumber'', encNum (ns_blockNumber s)), (''blockHash'', encHex (ns_blockHash s)),
       (''contract'', encHex (ns_contract s))] @
      optMember ''providers'' encProviders (ns_providers s) @ optMember ''detail'' encStr (ns_detail s) @
      optMember ''before'' encBefore (ns_before s))"

definition encEvidence :: "replay_evidence \<Rightarrow> jval" where
  "encEvidence ev = JvObj ((''version'', encStr (ev_version ev)) # optMember ''proof'' encProof (ev_proof ev) @ optMember ''state'' encState (ev_state ev))"

text \<open>The free texts of an evidence are valid UTF-8, as every JavaScript string is.\<close>

definition validText :: "string \<Rightarrow> bool" where
  "validText s \<longleftrightarrow> decodeGoUtf8 s = s"

definition providersText :: "provider_failure list option \<Rightarrow> bool" where
  "providersText fs \<longleftrightarrow> (case fs of None \<Rightarrow> True | Some xs \<Rightarrow> list_all (\<lambda>f. validText (pf_host f) \<and> validText (pf_error f)) xs)"

definition proofTexts :: "replay_proof \<Rightarrow> bool" where
  "proofTexts p \<longleftrightarrow>
     validText (rp_generation p) \<and> validText (rs_derivation (rp_slot p)) \<and>
     (case rp_beforeUnavailable p of None \<Rightarrow> True | Some b \<Rightarrow> validText (bu_reason b) \<and> providersText (bu_providers b))"

definition stateTexts :: "named_state \<Rightarrow> bool" where
  "stateTexts s \<longleftrightarrow>
     validText (ns_state s) \<and> validText (ns_reason s) \<and> providersText (ns_providers s) \<and>
     (case ns_detail s of None \<Rightarrow> True | Some d \<Rightarrow> validText d)"

definition textsOk :: "replay_evidence \<Rightarrow> bool" where
  "textsOk ev \<longleftrightarrow>
     (case ev_proof ev of None \<Rightarrow> True | Some p \<Rightarrow> proofTexts p) \<and> (case ev_state ev of None \<Rightarrow> True | Some s \<Rightarrow> stateTexts s)"

text \<open>What a written value has to satisfy for a field of the schema.\<close>

definition escField :: "jval \<Rightarrow> field \<Rightarrow> bool" where
  "escField x fd \<longleftrightarrow>
     (case f_kind fd of
        KHash \<Rightarrow> \<not> escaped x
      | KAddress \<Rightarrow> \<not> escaped x
      | KBytes \<Rightarrow> \<not> escaped x
      | KBytesList \<Rightarrow> \<not> list_ex escaped (elements x)
      | KObject \<Rightarrow> noEscapedHex x (f_schema fd) = Inr ()
      | KObjectList \<Rightarrow> (\<forall>e \<in> set (elements x). noEscapedHex e (f_schema fd) = Inr ())
      | _ \<Rightarrow> True)"

lemma noEscapedHex_iff:
  "noEscapedHex v sch = Inr () \<longleftrightarrow> (\<forall>fd \<in> set sch. case map_of (pairs v) (f_key fd) of None \<Rightarrow> True | Some x \<Rightarrow> escField x fd)"
proof -
  have "(\<exists>y. (case find (\<lambda>p. fst p = f_key fd) (pairs v) of None \<Rightarrow> Inr () | Some p \<Rightarrow>
           let x = snd p in
           (case f_kind fd of
              KHash \<Rightarrow> guardE (escaped x) wrongType (Inr ())
            | KAddress \<Rightarrow> guardE (escaped x) wrongType (Inr ())
            | KBytes \<Rightarrow> guardE (escaped x) wrongType (Inr ())
            | KBytesList \<Rightarrow> guardE (list_ex escaped (elements x)) wrongType (Inr ())
            | KObject \<Rightarrow> noEscapedHex x (f_schema fd)
            | KObjectList \<Rightarrow> bindE (mapE (\<lambda>e. noEscapedHex e (f_schema fd)) (elements x)) (\<lambda>_. Inr ())
            | _ \<Rightarrow> Inr ())) = Inr y) \<longleftrightarrow> (case map_of (pairs v) (f_key fd) of None \<Rightarrow> True | Some x \<Rightarrow> escField x fd)" for fd
    by (cases "f_kind fd"; cases "map_of (pairs v) (f_key fd)") (auto simp: find_map_of escField_def guardE_Inr_iff mapE_unit)
  then show ?thesis by (subst noEscapedHex.simps) (simp add: mapE_unit)
qed

definition written :: "jval \<Rightarrow> field \<Rightarrow> bool" where
  "written x fd \<longleftrightarrow> numbersOk x \<and> readBack x = x \<and> distinctKeys x \<and> checkValue x fd = Inr () \<and> escField x fd"

lemma ascii_text: "list_all (\<lambda>c. code c < 0x80) s \<Longrightarrow> decodeGoUtf8 s = s"
  by (induction s) (auto simp: decodeGoUtf8_ascii)

lemma written_object:
  assumes d: "distinct (map fst ps)" and uniq: "distinct (map f_key sch)"
    and keys: "\<And>k x. (k, x) \<in> set ps \<Longrightarrow> list_all (\<lambda>c. code c < 0x80) k \<and> (\<exists>fd \<in> set sch. f_key fd = k \<and> written x fd)"
    and req: "\<And>fd. fd \<in> set sch \<Longrightarrow> f_required fd \<Longrightarrow> f_key fd \<in> fst ` set ps"
  shows "checkObject (JvObj ps) sch = Inr ()" and "written (JvObj ps) (Field k KObject r sch)"
proof -
  have found: "written x fd" if "fd \<in> set sch" "map_of ps (f_key fd) = Some x" for fd x
  proof -
    have "(f_key fd, x) \<in> set ps" by (rule map_of_SomeD) (rule that(2))
    then obtain fd' where "fd' \<in> set sch" "f_key fd' = f_key fd" "written x fd'" using keys by blast
    then show ?thesis using uniq that(1) by (auto simp: distinct_map inj_on_def)
  qed
  have known: "\<not> list_ex (\<lambda>(k, _). \<not> list_ex (\<lambda>x. f_key x = k) sch) ps" using keys by (force simp: list_ex_iff)
  have "\<exists>y. (case map_of ps (f_key fd) of None \<Rightarrow> if f_required fd then Inl (unproven ''missing_field'') else Inr ()
      | Some x \<Rightarrow> checkValue x fd) = Inr y" if "fd \<in> set sch" for fd
  proof (cases "map_of ps (f_key fd)")
    case None
    then have "f_key fd \<notin> fst ` set ps" by (simp add: map_of_eq_None_iff)
    then show ?thesis using None req [OF that] by auto
  next
    case (Some x)
    then show ?thesis using found [OF that Some] by (simp add: written_def)
  qed
  then show c: "checkObject (JvObj ps) sch = Inr ()"
    using known unfolding checkObject.simps [of "JvObj ps"] jval.case if_not_P find_map_of case_map_option comp_def snd_conv
    by (simp add: mapE_unit)
  have e: "noEscapedHex (JvObj ps) sch = Inr ()"
    using found by (auto simp: noEscapedHex_iff written_def split: option.splits)
  have each: "numbersOk x \<and> readBack x = x \<and> distinctKeys x \<and> decodeGoUtf8 k = k" if "(k, x) \<in> set ps" for k x
    using keys [OF that] ascii_text by (auto simp: written_def)
  have "map (\<lambda>(k, v). (decodeGoUtf8 k, readBack v)) ps = ps"
    by (rule map_idI) (use each in auto)
  moreover have "numbersOk (JvObj ps)" "distinctKeys (JvObj ps)" using each d by (auto simp: list_all_iff)
  ultimately show "written (JvObj ps) (Field k KObject r sch)"
    using c e by (simp add: written_def object_checked escField_def)
qed

text \<open>Scalars and lists of hex.\<close>

lemma hexDigit_ascii: "n < 16 \<Longrightarrow> code (hexDigit n) < 0x80 \<and> \<not> special (hexDigit n)"
proof -
  assume "n < 16"
  then have "n \<in> set [0..<16]" by simp
  moreover have "list_all (\<lambda>n. code (hexDigit n) < 0x80 \<and> \<not> special (hexDigit n)) [0..<16]" by code_simp
  ultimately show ?thesis by (auto simp: list_all_iff)
qed

lemma toHex_text: "list_all ishex (toHex b)" "list_all (\<lambda>c. code c < 0x80) (toHex b)" "\<not> list_ex special (toHex b)"
  by (induction b) (auto simp: toHex_def hexDigit_unhex nibble_less hexDigit_ascii)

lemma toHex_length: "length (toHex b) = 2 * length b"
  by (induction b) (simp_all add: toHex_def)

lemma fromHexDigits_toHex [simp]: "fromHexDigits (toHex b) = b"
proof (induction b)
  case (Cons x b)
  have "of_nat (unat x div 16 * 16 + unat x mod 16) = x"
    by (simp only: div_mult_mod_eq) (rule unsigned_word_eqI [where 'a = nat], simp)
  with Cons show ?case by (simp add: toHex_def hexDigit_unhex nibble_less)
qed (simp add: toHex_def)

lemma hx_encHex [simp]: "hx (Some (encHex b)) = b"
  by (simp add: hx_def encHex_def)

lemma hexText_encHex: "hexText (''0x'' @ toHex b)"
  by (simp add: hexText_def toHex_text)

lemma encHex_back: "readBack (encHex b) = encHex b" "\<not> escaped (encHex b)" "numbersOk (encHex b)" "distinctKeys (encHex b)"
proof -
  have "list_all (\<lambda>c. code c < 0x80) (''0x'' @ toHex b)" "\<not> list_ex special (''0x'' @ toHex b)"
    using toHex_text [of b] by (simp_all add: code_def special_def)
  then show "readBack (encHex b) = encHex b" using ascii_text [of "''0x'' @ toHex b"] by (simp add: encHex_def)
qed (simp_all add: encHex_def)

lemma written_hash: "length b = 32 \<Longrightarrow> written (encHex b) (Field k KHash r sub)"
  and written_address: "length b = 20 \<Longrightarrow> written (encHex b) (Field k KAddress r sub)"
  and written_bytes: "written (encHex b) (Field k KBytes r sub)"
  using encHex_back [of b] hexText_encHex [of b]
  by (simp_all add: written_def escField_def checkValue.simps checkText_def hashText_def addressText_def bytesText_def toHex_length encHex_def)

lemma written_bytesList: "written (encHexList bs) (Field k KBytesList r sub)"
proof -
  have "checkValue (encHex b) (Field [] KBytes True []) = Inr ()" for b using written_bytes by (simp add: written_def)
  then show ?thesis
    using encHex_back by (auto simp: written_def escField_def encHexList_def checkValue.simps [of "JvArr _"] mapE_unit list_all_iff list_ex_iff comp_def)
qed

lemma hxList_encHexList [simp]: "hxList (Some (encHexList bs)) = bs"
  by (simp add: hxList_def arrOf_def encHexList_def comp_def)

lemma decNat_head: "n \<noteq> 0 \<Longrightarrow> hd (decNat n) \<noteq> CHR ''0''"
proof (induction n rule: decNat.induct)
  case (1 n)
  show ?case
  proof (cases "n < 10")
    case True
    then have "(of_char (hexDigit n) :: nat) \<noteq> 48" using 1(2) by (simp add: hexDigit_def)
    then show ?thesis using True by (subst decNat.simps) auto
  next
    case False
    then have "hd (decNat (n div 10)) \<noteq> CHR ''0''" using 1(1) by simp
    then show ?thesis using False decNat_digits [of "n div 10"] by (subst decNat.simps) (simp add: hd_append)
  qed
qed

lemma decNat_0: "decNat 0 = ''0''"
  by code_simp

lemma uintLit_decNat: "uintLit (decNat n)"
  using decNat_digits [of n] decNat_head [of n] by (cases "n = 0") (auto simp: uintLit_def decNat_0)

lemma isDigit_isNum: "isDigit c = isNum c"
  by (simp add: isDigit_def isNum_def code_def)

lemma numLit_decNat: "numLit (decNat n)"
proof -
  let ?d = "decNat n"
  have d: "list_all isNum ?d" "?d \<noteq> []" using decNat_digits [of n] by (simp_all add: isDigit_isNum list_all_iff)
  then have h: "isNum (hd ?d)" by (cases ?d) auto
  have "intPart ?d = Inr []"
  proof (cases "n = 0")
    case True
    then show ?thesis by (simp add: decNat_0 intPart_def)
  next
    case False
    have "\<not> headIs (\<lambda>c. c = CHR ''-'') ?d" using h by (auto simp: headIs_def isNum_def code_def)
    moreover have "dropWhile isNum ?d = []" using d(1) by (simp add: dropWhile_eq_Nil_conv list_all_iff)
    ultimately show ?thesis using decNat_head [OF False] d h by (simp add: intPart_def Let_def digits_def headIs_def)
  qed
  then show ?thesis by (simp add: numLit_def num_def fracPart_def expPart_def)
qed

lemma written_uint: "n \<le> S6_MAX_JSON_INTEGER \<Longrightarrow> written (encNum n) (Field k KUint r sub)"
  by (simp add: written_def escField_def encNum_def checkValue.simps uintLit_decNat numLit_decNat)

lemma numOf_encNum [simp]: "numOf (Some (encNum n)) = n"
  by (simp add: encNum_def)

lemma written_str: "validText s \<Longrightarrow> written (encStr s) (Field k KStr r sub)"
  by (simp add: written_def escField_def encStr_def checkValue.simps validText_def)

lemma strOf_encStr [simp]: "strOf (Some (encStr s)) = s"
  by (simp add: encStr_def)

lemma written_bool: "written (JvBool b) (Field k KBool r sub)"
  by (simp add: written_def escField_def checkValue.simps)

lemma written_objectList:
  assumes "\<And>x. x \<in> set xs \<Longrightarrow> written x (Field k' KObject r' sub)"
  shows "written (JvArr xs) (Field k KObjectList r sub)"
proof -
  have "numbersOk x \<and> readBack x = x \<and> distinctKeys x \<and> checkObject x sub = Inr () \<and> noEscapedHex x sub = Inr ()" if "x \<in> set xs" for x
    using assms [OF that] by (simp add: written_def object_checked escField_def)
  then show ?thesis
    by (auto simp: written_def escField_def checkValue.simps [of "JvArr _"] mapE_unit list_all_iff intro: map_idI)
qed

section \<open>What is written is decoded\<close>

text \<open>The same, with conditions that compute on concrete members and a concrete schema.\<close>

definition ascii :: "string \<Rightarrow> bool" where
  "ascii k \<longleftrightarrow> list_all (\<lambda>c. of_char c < (0x80::nat)) k"

lemma written_members:
  assumes "distinct (map fst ps)" and "distinct (map f_key sch)"
    and "list_all (\<lambda>(k, x). ascii k \<and> list_ex (\<lambda>fd. f_key fd = k \<and> written x fd) sch) ps"
    and "list_all (\<lambda>fd. f_required fd \<longrightarrow> f_key fd \<in> set (map fst ps)) sch"
  shows "written (JvObj ps) (Field k KObject r sch)"
  using assms by (intro written_object(2)) (auto simp: list_all_iff list_ex_iff ascii_def code_def image_def)

lemma written_blockRef:
  assumes "blockRefOk b"
  shows "written (encBlockRef b) (Field k KObject r wireBlockRef)"
  unfolding encBlockRef_def wireBlockRef_def
  using assms by (intro written_members) (simp_all add: blockRefOk_def ascii_def written_uint written_hash)

lemma written_slot:
  assumes "slotOk s" and "validText (rs_derivation s)"
  shows "written (encSlot s) (Field k KObject r wireSlot)"
  unfolding encSlot_def wireSlot_def
  using assms by (intro written_members) (simp_all add: slotOk_def ascii_def written_uint written_hash written_str)

lemma written_slotProof:
  assumes "slotProofOk sp"
  shows "written (encSlotProof sp) (Field k KObject r wireSlotProof)"
  unfolding encSlotProof_def wireSlotProof_def
  using assms by (intro written_members) (simp_all add: slotProofOk_def ascii_def written_bool written_hash written_bytesList)

lemma written_before:
  assumes "slotProofOk (rb_proof b)"
  shows "written (encBefore b) (Field k KObject r wireBefore)"
  unfolding encBefore_def wireBefore_def
  using assms by (intro written_members) (simp_all add: ascii_def written_bytes written_slotProof)

lemma written_providers:
  assumes "providersText (Some fs)"
  shows "written (encProviders fs) (Field k KObjectList r wireProviderFailure)"
proof -
  have "written (JvObj [(''host'', encStr (pf_host f)), (''error'', encStr (pf_error f))]) (Field [] KObject True wireProviderFailure)"
    if "f \<in> set fs" for f
    unfolding wireProviderFailure_def
    using assms that by (intro written_members) (simp_all add: ascii_def providersText_def list_all_iff written_str)
  then show ?thesis unfolding encProviders_def by (intro written_objectList) auto
qed

lemma written_unavailable:
  assumes "validText (bu_reason b)" and "providersText (bu_providers b)"
  shows "written (encUnavailable b) (Field k KObject r wireBeforeUnavailable)"
  unfolding encUnavailable_def wireBeforeUnavailable_def optMember_def
  using assms by (cases "bu_providers b"; intro written_members) (simp_all add: ascii_def written_str written_providers)

lemma validText_domain: "validText S6_REPLAY_DOMAIN"
  by (simp add: validText_def S6_REPLAY_DOMAIN_def ascii_text code_def)

lemma written_proof:
  assumes "proofOk p" and "proofTexts p"
  shows "written (encProof p) (Field k KObject r wireProof)"
  unfolding encProof_def wireProof_def optMember_def
  using assms validText_domain
  by (cases "rp_before p"; cases "rp_beforeUnavailable p"; intro written_members)
    (simp_all add: proofOk_def proofTexts_def beforeOk_def ascii_def written_str written_uint written_address written_slot written_blockRef
       written_bytesList written_slotProof written_before written_unavailable)

lemma written_state:
  assumes "stateOk s" and "stateTexts s"
  shows "written (encState s) (Field k KObject r wireNamedState)"
  unfolding encState_def wireNamedState_def optMember_def
  using assms
  by (cases "ns_before s"; cases "ns_detail s"; cases "ns_providers s"; intro written_members)
    (simp_all add: stateOk_def stateTexts_def beforeOk_def ascii_def written_str written_uint written_address written_hash written_before written_providers)

text \<open>Reading back.\<close>

lemma read_blockRef [simp]: "readBlockRef (Some (encBlockRef b)) = b"
  by (cases b) (simp add: readBlockRef_def encBlockRef_def obj_def)

lemma read_slot [simp]: "readSlot (Some (encSlot s)) = s"
  by (cases s) (simp add: readSlot_def encSlot_def obj_def)

lemma read_slotProof [simp]: "readSlotProof (Some (encSlotProof sp)) = sp"
  by (cases sp) (simp add: readSlotProof_def encSlotProof_def obj_def)

lemma read_before [simp]: "readBefore (Some (encBefore b)) = Some b"
  by (cases b) (simp add: readBefore_def encBefore_def obj_def)

lemma read_before_None [simp]: "readBefore None = None"
  by (simp add: readBefore_def)

lemma read_providers [simp]: "readProviders (Some (encProviders fs)) = Some fs" "readProviders None = None"
proof -
  have "map (\<lambda>f. \<lparr> pf_host = pf_host f, pf_error = pf_error f \<rparr>) fs = fs" by (rule map_idI) simp
  then show "readProviders (Some (encProviders fs)) = Some fs"
    by (simp add: readProviders_def encProviders_def arrOf_def obj_def comp_def)
qed (simp add: readProviders_def)

lemma read_unavailable [simp]: "readUnavailable (Some (encUnavailable b)) = Some b" "readUnavailable None = None"
proof -
  show "readUnavailable (Some (encUnavailable b)) = Some b"
    by (cases b; cases "bu_providers b") (simp_all add: readUnavailable_def encUnavailable_def obj_def optMember_def)
qed (simp add: readUnavailable_def)

lemma read_proof [simp]: "readProof (Some (encProof p)) = p"
  by (cases p; cases "rp_before p"; cases "rp_beforeUnavailable p") (simp_all add: readProof_def encProof_def obj_def optMember_def)

lemma read_state [simp]: "readState (Some (encState s)) = s"
  by (cases s; cases "ns_before s"; cases "ns_detail s"; cases "ns_providers s") (simp_all add: readState_def encState_def obj_def optMember_def)

lemma written_evidence:
  assumes "evidenceOk ev" and "textsOk ev"
  shows "written (encEvidence ev) (Field [] KObject True wireEvidence)"
  unfolding encEvidence_def wireEvidence_def optMember_def
  using assms validText_domain
  by (cases "ev_proof ev"; cases "ev_state ev"; intro written_members)
    (simp_all add: evidenceOk_def textsOk_def ascii_def written_str written_proof written_state)

lemma read_evidence: "readEvidence (encEvidence ev) = ev"
  by (cases ev; cases "ev_proof ev"; cases "ev_state ev") (simp_all add: readEvidence_def encEvidence_def obj_def optMember_def)

lemma length_binaryBytes: "length (binaryBytes s) = length s"
  by (simp add: binaryBytes_def)

lemma binaryString_binaryBytes: "binaryString (binaryBytes s) = s"
  by (induction s) (simp_all add: binaryString_def binaryBytes_def unat_of_nat)

lemma decode_written:
  assumes "evidenceOk ev" and "textsOk ev" and "length (printJ (encEvidence ev)) \<le> 4194304"
  shows "decodeReplayGuardEvidence (binaryBytes (printJ (encEvidence ev))) = Inr ev"
proof -
  let ?doc = "encEvidence ev"
  have w: "numbersOk ?doc" "readBack ?doc = ?doc" "distinctKeys ?doc" "checkObject ?doc wireEvidence = Inr ()"
    "noEscapedHex ?doc wireEvidence = Inr ()"
    using written_evidence [OF assms(1,2)] by (simp_all add: written_def object_checked escField_def)
  have "parseFrom None [] (printJ ?doc @ []) = attach None [] (readBack ?doc) []"
    using readsBack_all [of None ?doc] w(1) by (simp add: readsBack_def ender_def)
  then have "parseGoJson None (printJ ?doc) = Inr ?doc" using w(2) by (simp add: parseGoJson_def)
  moreover have "noDuplicateKeys ?doc = Inr ()" using w(3) by (simp add: noDuplicateKeys_def keyLoop_ok openValue_ok)
  moreover have "checkVersions ev = Inr ev"
    using assms(1) by (auto simp: checkVersions_def evidenceOk_def proofOk_def split: option.splits)
  then have "decodeDocument ?doc = Inr ev" using w(4,5) by (simp add: decodeDocument_def read_evidence)
  ultimately show ?thesis
    using assms(3) by (simp add: decodeReplayGuardEvidence_def binaryString_binaryBytes MAX_REPLAY_EVIDENCE_BYTES_def length_binaryBytes)
qed

text \<open>
  C29. An evidence survives its text: written as JSON - members in any text with valid UTF-8, hashes as hex, numbers as decimals - within the
  size limit, every evidence of the format decodes to exactly itself.
\<close>

theorem decodeReplayGuardEvidence_roundtrip:
  assumes "evidenceOk ev" and "textsOk ev" and "length (printJ (encEvidence ev)) \<le> 4194304"
  shows "decodeReplayGuardEvidence (binaryBytes (printJ (encEvidence ev))) = Inr ev"
  using assms by (rule decode_written)

section \<open>A concrete evidence\<close>

definition demoState :: named_state where
  "demoState =
     \<lparr> ns_state = ''s6_event_missing'', ns_reason = ''no_leaf_consumed_event'', ns_chainId = 84532, ns_txHash = replicate 32 1,
       ns_blockNumber = 42, ns_blockHash = replicate 32 2, ns_contract = replicate 20 3, ns_providers = None,
       ns_detail = Some [CHR 0x22, CHR 0x5c, CHR 0x0a], ns_before = None \<rparr>"

definition demoEvidence :: replay_evidence where
  "demoEvidence = \<lparr> ev_version = S6_REPLAY_DOMAIN, ev_proof = None, ev_state = Some demoState \<rparr>"

lemma demo_ok: "evidenceOk demoEvidence" "textsOk demoEvidence"
proof -
  show "evidenceOk demoEvidence"
    by (simp add: evidenceOk_def demoEvidence_def demoState_def stateOk_def S6_MAX_JSON_INTEGER_def beforeOk_def)
  show "textsOk demoEvidence"
    by (simp add: textsOk_def demoEvidence_def demoState_def stateTexts_def providersText_def validText_def ascii_text code_def)
qed

lemma length_printHex: "length (printJ (encHex b)) = 2 * length b + 4"
proof -
  have "concat (map printChar t) = t" if "\<not> list_ex special t" for t
    using that by (induction t) (auto simp: printChar_def special_def)
  moreover have "\<not> list_ex special (''0x'' @ toHex b)"
    using toHex_text(3) [of b] by (simp add: special_def code_def)
  ultimately have "printJ (encHex b) = CHR 0x22 # (''0x'' @ toHex b) @ [CHR 0x22]"
    unfolding encHex_def printJ.simps printStr_def by metis
  then show ?thesis by (simp add: toHex_length)
qed

lemma demo_printed_length: "length (printJ (encEvidence demoEvidence)) \<le> 4194304"
proof -
  have "decNat 84532 = ''84532''" "decNat 42 = ''42''" by code_simp+
  then have num: "printJ (encNum 84532) = ''84532''" "printJ (encNum 42) = ''42''" by (simp_all add: encNum_def)
  have str: "length (printJ (encStr [])) = 2" "length (printJ (encStr (c # s))) \<le> 6 + length (printJ (encStr s))" for c s
    by (auto simp: encStr_def printStr_def printChar_def)
  have short: "length (printJ (encStr s)) \<le> 2 + 6 * length s" for s
  proof (induction s)
    case (Cons c s)
    then show ?case using str(2) [of c s] by simp
  qed (simp add: str(1))
  have keys: "length (printStr s) \<le> 2 + 6 * length s" for s using short [of s] by (simp add: encStr_def)
  show ?thesis
    using short [of S6_REPLAY_DOMAIN] short [of "''s6_event_missing''"] short [of "''no_leaf_consumed_event''"] short [of "[CHR 0x22, CHR 0x5c, CHR 0x0a]"]
      keys [of "''version''"] keys [of "''state''"] keys [of "''reason''"] keys [of "''chainId''"] keys [of "''txHash''"]
      keys [of "''blockNumber''"] keys [of "''blockHash''"] keys [of "''contract''"] keys [of "''detail''"]
    by (simp add: encEvidence_def demoEvidence_def encState_def demoState_def optMember_def num length_printHex S6_REPLAY_DOMAIN_def)
qed

theorem decodeReplayGuardEvidence_roundtrip_witness:
  "decodeReplayGuardEvidence (binaryBytes (printJ (encEvidence demoEvidence))) = Inr demoEvidence"
  by (rule decodeReplayGuardEvidence_roundtrip [OF demo_ok demo_printed_length])

theorem decodeReplayGuardEvidence_ok_witness:
  "length (binaryBytes (printJ (encEvidence demoEvidence))) \<le> 4194304 \<and> evidenceOk demoEvidence"
  by (rule decodeReplayGuardEvidence_ok) (rule decode_written [OF demo_ok demo_printed_length])

end
