(* ===== verification/S6Verify.thy ===== *)
theory S6Verify
  imports EthTx Mpt S6Evidence
begin

text \<open>
  The verification of the replay-guard evidence of \<open>packages/verify/src/s6/replay.ts\<close> against a decoded settlement: the target and the
  pinned generation of the account, the \<open>LeafConsumed\<close> event and the slot recomputed from it, the chain of headers to the block the slot is
  proven at, the slot after and before. \<open>H\<close> is keccak-256. The Merkle-Patricia walk may not return for a hash with a planted cycle, so a
  verification is an \<open>option\<close>: \<open>None\<close> does not return, \<open>Some (Inl e)\<close> throws. A refusal is its state and reason; of the messages only those
  a check reports as established are modelled.
\<close>

section \<open>Sequencing\<close>

fun bindO :: "('e + 'a) option \<Rightarrow> ('a \<Rightarrow> ('e + 'b) option) \<Rightarrow> ('e + 'b) option" where
  "bindO None f = None"
| "bindO (Some (Inl e)) f = Some (Inl e)"
| "bindO (Some (Inr x)) f = f x"

definition guardO :: "bool \<Rightarrow> 'e \<Rightarrow> ('e + 'a) option \<Rightarrow> ('e + 'a) option" where
  "guardO c e m = (if c then Some (Inl e) else m)"

lemma bindO_Inr_iff [results]: "bindO m f = Some (Inr y) \<longleftrightarrow> (\<exists>x. m = Some (Inr x) \<and> f x = Some (Inr y))"
proof (cases m)
  case (Some r)
  then show ?thesis by (cases r) auto
qed simp

lemma guardO_Inr_iff [results]: "guardO c e m = Some (Inr y) \<longleftrightarrow> \<not> c \<and> m = Some (Inr y)"
  by (simp add: guardO_def)

section \<open>Constants\<close>

definition S6_MAX_REPLAY_HEADER_CHAIN :: nat where "S6_MAX_REPLAY_HEADER_CHAIN = 512"

definition S6_REPLAY_DERIVATION :: string where "S6_REPLAY_DERIVATION = ''keccak256(abi.encode(bytes32 key, uint256 base))''"

definition S6_PROVEN :: string where "S6_PROVEN = ''proven''"
definition S6_EVENT_MISSING :: string where "S6_EVENT_MISSING = ''s6_event_missing''"
definition S6_REPLAY_REFUTED :: string where "S6_REPLAY_REFUTED = ''s6_replay_refuted''"

text \<open>The pinned generations: the base slot of the replay guard and the selectors of the settlement calls.\<close>

record layout =
  lo_base :: nat
  lo_selectors :: "string list"

definition S6_REPLAY_LAYOUTS :: "(string \<times> layout) list" where
  "S6_REPLAY_LAYOUTS =
     [(''CertenAccountV7_3'', \<lparr> lo_base = 4, lo_selectors = [''606f2c8d'', ''329fe012''] \<rparr>),
      (''CertenAccountV7_2'', \<lparr> lo_base = 4, lo_selectors = [''57f8567d'', ''b7daa901''] \<rparr>)]"

definition S6_LEAF_CONSUMED_TOPIC :: "(bytes \<Rightarrow> bytes) \<Rightarrow> bytes" where
  "S6_LEAF_CONSUMED_TOPIC H = H (binaryBytes ''LeafConsumed(bytes32,bytes32,bytes32)'')"

definition ONE32 :: bytes where "ONE32 = replicate 31 0 @ [1]"

definition ZERO20 :: bytes where "ZERO20 = replicate 20 0"

section \<open>Hex\<close>

definition toHex0x :: "bytes \<Rightarrow> string" where
  "toHex0x b = ''0x'' @ toHex b"

text \<open>\<open>toUpperCase\<close> of an ASCII character.\<close>

definition upperChar :: "char \<Rightarrow> char" where
  "upperChar c = (if 97 \<le> code c \<and> code c \<le> 122 then char_of (code c - 32) else c)"

text \<open>EIP-55: a letter is written in upper case where the matching nibble of the hash of the lower-case text is at least 8.\<close>

definition checksumAddress :: "(bytes \<Rightarrow> bytes) \<Rightarrow> bytes \<Rightarrow> string" where
  "checksumAddress H a =
     (let lower = toHex a; h = H (binaryBytes lower) in
      ''0x'' @ map (\<lambda>i.
        let x = unat (h ! (i div 2)); nib = (if i mod 2 = 0 then x div 16 else x mod 16) in
        if nib \<ge> 8 then upperChar (lower ! i) else lower ! i) [0..<40])"

text \<open>\<open>hexutil.Decode\<close>: a \<open>0x\<close> or \<open>0X\<close> prefix and an even number of hex digits.\<close>

definition goHexDecode :: "string \<Rightarrow> bytes option" where
  "goHexDecode s =
     (if length s < 2 \<or> s ! 0 \<noteq> CHR ''0'' \<or> (s ! 1 \<noteq> CHR ''x'' \<and> s ! 1 \<noteq> CHR ''X'') then None
      else let d = drop 2 s in
        if odd (length d) \<or> \<not> list_all ishex d then None else Some (fromHexDigits d))"

section \<open>The settlement\<close>

record s6_log =
  sl_address :: string
  sl_topics :: "string list"
  sl_data :: string

record s6_settlement =
  ss_headerRlp :: string
  ss_txRlp :: string
  ss_receiptStatus :: nat
  ss_logs :: "s6_log list"

record decoded_log =
  lg_address :: bytes
  lg_topics :: "bytes list"

record decoded_settlement =
  ds_header :: s6_header
  ds_tx :: s6_transaction
  ds_executed :: bool
  ds_logs :: "decoded_log list"

definition settlementUnproven :: s6_error where "settlementUnproven = unproven ''settlement_unproven''"

definition decodeTopic :: "string \<Rightarrow> s6_error + bytes" where
  "decodeTopic t =
     (case goHexDecode t of
        None \<Rightarrow> Inl settlementUnproven
      | Some b \<Rightarrow> if length b \<noteq> 32 then Inl settlementUnproven else Inr b)"

definition decodeLog :: "s6_log \<Rightarrow> s6_error + decoded_log" where
  "decodeLog l =
     (let a = (if take 2 (sl_address l) = ''0x'' \<or> take 2 (sl_address l) = ''0X'' then drop 2 (sl_address l) else sl_address l) in
      guardE (\<not> (length a = 40 \<and> list_all ishex a)) settlementUnproven
     (bindE (mapE decodeTopic (sl_topics l)) (\<lambda>topics.
      guardE (goHexDecode (sl_data l) = None) settlementUnproven
     (Inr \<lparr> lg_address = fromHexDigits a, lg_topics = topics \<rparr>))))"

definition decodeS6Settlement :: "(bytes \<Rightarrow> bytes) \<Rightarrow> s6_settlement \<Rightarrow> s6_error + decoded_settlement" where
  "decodeS6Settlement H s =
     (case goHexDecode (ss_headerRlp s) of
        None \<Rightarrow> Inl settlementUnproven
      | Some hraw \<Rightarrow>
     bindE (mapErr (\<lambda>_. settlementUnproven) (decodeS6Header H hraw)) (\<lambda>header.
     (case goHexDecode (ss_txRlp s) of
        None \<Rightarrow> Inl settlementUnproven
      | Some traw \<Rightarrow>
     bindE (mapErr (\<lambda>_. settlementUnproven) (decodeS6Transaction H traw)) (\<lambda>tx.
     bindE (mapE decodeLog (ss_logs s)) (\<lambda>logs.
     Inr \<lparr> ds_header = header, ds_tx = tx, ds_executed = (ss_receiptStatus s = 1), ds_logs = logs \<rparr>)))))"

section \<open>Slots and headers\<close>

definition be64 :: "nat \<Rightarrow> bytes" where
  "be64 n = map (\<lambda>i. of_nat (n div 256 ^ i)) [7, 6, 5, 4, 3, 2, 1, 0]"

text \<open>\<open>replaySlotFor\<close>: the key at the start of 64 zero bytes, the base in the last eight. A key here is 32 bytes.\<close>

definition replaySlotFor :: "(bytes \<Rightarrow> bytes) \<Rightarrow> bytes \<Rightarrow> nat \<Rightarrow> bytes" where
  "replaySlotFor H key base = H (take 56 (key @ replicate (64 - length key) 0) @ be64 base)"

text \<open>The re-encoding is outside the \<open>try\<close> of the source: an error of it would not be a named state.\<close>

definition decodeReplayHeader :: "(bytes \<Rightarrow> bytes) \<Rightarrow> bytes \<Rightarrow> s6_error + s6_header" where
  "decodeReplayHeader H raw =
     bindE (mapErr (\<lambda>_. unproven ''proof_does_not_verify'') (decodeS6Header H raw)) (\<lambda>h.
     bindE (mapErr Uncaught (bindE (split raw) rlpEncodeItem)) (\<lambda>enc.
     guardE (enc \<noteq> raw) (unproven ''proof_does_not_verify'') (Inr h)))"

section \<open>Slot proofs\<close>

datatype slot_error = SlotMpt mpt_error | AbsenceMismatch | DeclaredHashes | AbsentWithHashes | DeclaredValue

record storage_result =
  sr_account :: account_state
  sr_value :: bytes

definition verifySlotProof :: "(bytes \<Rightarrow> bytes) \<Rightarrow> slot_proof \<Rightarrow> bytes \<Rightarrow> bytes \<Rightarrow> bytes \<Rightarrow> (slot_error + storage_result) option" where
  "verifySlotProof H sp stateRoot account slot =
     (case verifyStorage H stateRoot account (sp_accountProof sp) slot (sp_storageProof sp) of
        None \<Rightarrow> None
      | Some (Inl e) \<Rightarrow> Some (Inl (SlotMpt e))
      | Some (Inr (acc, v)) \<Rightarrow>
          if exists_in acc = sp_accountAbsent sp then Some (Inl AbsenceMismatch)
          else if exists_in acc \<and> (storageRoot acc \<noteq> sp_storageHash sp \<or> codeHash acc \<noteq> sp_codeHash sp) then Some (Inl DeclaredHashes)
          else if \<not> exists_in acc \<and> (sp_storageHash sp \<noteq> ZERO32 \<or> sp_codeHash sp \<noteq> ZERO32) then Some (Inl AbsentWithHashes)
          else if v \<noteq> sp_value sp then Some (Inl DeclaredValue)
          else Some (Inr \<lparr> sr_account = acc, sr_value = v \<rparr>))"

definition tryVerifySlotProof :: "(bytes \<Rightarrow> bytes) \<Rightarrow> slot_proof \<Rightarrow> bytes \<Rightarrow> bytes \<Rightarrow> bytes \<Rightarrow> (s6_error + storage_result) option" where
  "tryVerifySlotProof H sp rt account slot =
     map_option (mapErr (\<lambda>_. unproven ''proof_does_not_verify'')) (verifySlotProof H sp rt account slot)"

definition hasCode :: "(bytes \<Rightarrow> bytes) \<Rightarrow> storage_result \<Rightarrow> bool" where
  "hasCode H r \<longleftrightarrow> exists_in (sr_account r) \<and> codeHash (sr_account r) \<noteq> H [] \<and> codeHash (sr_account r) \<noteq> ZERO32"

section \<open>A proof against the settlement\<close>

text \<open>The link of a proven slot: the members of a check that are present exactly when its state is \<open>proven\<close>.\<close>

record slot_link =
  sk_chainId :: nat
  sk_contract :: bytes
  sk_generation :: string
  sk_slot :: replay_slot
  sk_settlementBlock :: block_ref
  sk_provenAt :: block_ref
  sk_codeHash :: bytes

record replay_check =
  ck_state :: string
  ck_reason :: string
  ck_beforeVerified :: bool
  ck_established :: "string list"
  ck_named :: "named_state option"
  ck_link :: "slot_link option"

text \<open>(1) The target and the pinned generation.\<close>

definition selectorOf :: "bytes \<Rightarrow> string" where
  "selectorOf data = toHex (take 4 data)"

definition checkTarget :: "replay_proof \<Rightarrow> decoded_settlement \<Rightarrow> s6_error + layout" where
  "checkTarget p s =
     guardE (rp_version p \<noteq> S6_REPLAY_DOMAIN) (unproven ''unknown_version'')
    (guardE (\<not> ds_executed s) (unproven ''settlement_not_executed'')
    (guardE (br_number (rp_settlementBlock p) \<noteq> numberU64 (ds_header s) \<or> br_hash (rp_settlementBlock p) \<noteq> hash (ds_header s))
       (unproven ''settlement_block_mismatch'')
    (case map_of S6_REPLAY_LAYOUTS (rp_generation p) of
       None \<Rightarrow> Inl (unproven ''account_generation'')
     | Some lo \<Rightarrow>
         guardE (tx_to (ds_tx s) \<noteq> Some (rp_contract p)) (unproven ''contract_mismatch'')
        (guardE (tx_chainId (ds_tx s) > 0 \<and> tx_chainId (ds_tx s) \<noteq> rp_chainId p) (unproven ''contract_mismatch'')
        (guardE (length (tx_data (ds_tx s)) < 4) (unproven ''account_generation'')
        (guardE (selectorOf (tx_data (ds_tx s)) \<notin> set (lo_selectors lo)) (unproven ''account_generation'')
        (Inr lo)))))))"

text \<open>(2) The event, and the slot recomputed from it.\<close>

definition isLeafConsumed :: "(bytes \<Rightarrow> bytes) \<Rightarrow> bytes \<Rightarrow> decoded_log \<Rightarrow> bool" where
  "isLeafConsumed H contract lg \<longleftrightarrow>
     lg_address lg = contract \<and> length (lg_topics lg) = 3 \<and> lg_topics lg ! 0 = S6_LEAF_CONSUMED_TOPIC H"

definition checkEvent :: "(bytes \<Rightarrow> bytes) \<Rightarrow> replay_proof \<Rightarrow> decoded_settlement \<Rightarrow> layout \<Rightarrow> s6_error + unit" where
  "checkEvent H p s lo =
     (case find (\<lambda>lg. isLeafConsumed H (rp_contract p) lg \<and> lg_topics lg ! 2 = rs_key (rp_slot p)) (ds_logs s) of
        None \<Rightarrow>
          (if list_ex (isLeafConsumed H (rp_contract p)) (ds_logs s) then Inl (unproven ''slot_mismatch'')
           else Inl (Refused S6_EVENT_MISSING ''no_leaf_consumed_event''))
      | Some _ \<Rightarrow>
          guardE (rs_base (rp_slot p) \<noteq> lo_base lo \<or> rs_derivation (rp_slot p) \<noteq> S6_REPLAY_DERIVATION) (unproven ''slot_mismatch'')
         (guardE (rs_slot (rp_slot p) \<noteq> replaySlotFor H (rs_key (rp_slot p)) (lo_base lo)) (unproven ''slot_mismatch'')
         (Inr ())))"

text \<open>(3) The header chain, settlement block to \<open>provenAt\<close>.\<close>

definition followHeader :: "(bytes \<Rightarrow> bytes) \<Rightarrow> s6_header \<Rightarrow> bytes \<Rightarrow> s6_error + s6_header" where
  "followHeader H at raw =
     bindE (decodeReplayHeader H raw) (\<lambda>nxt.
     guardE (parentHash nxt \<noteq> hash at \<or> numberU64 nxt \<noteq> (numberU64 at + 1) mod 2 ^ 64) (unproven ''header_chain_broken'') (Inr nxt))"

definition headerChain :: "(bytes \<Rightarrow> bytes) \<Rightarrow> replay_proof \<Rightarrow> s6_header \<Rightarrow> s6_error + s6_header" where
  "headerChain H p header =
     guardE (length (rp_headers p) > S6_MAX_REPLAY_HEADER_CHAIN) (unproven ''header_chain_too_long'')
    (bindE (runE (followHeader H) header (rp_headers p)) (\<lambda>at.
     guardE (br_number (rp_provenAt p) \<noteq> numberU64 at \<or> br_hash (rp_provenAt p) \<noteq> hash at) (unproven ''header_chain_broken'') (Inr at)))"

text \<open>(4) After: the slot is 1 at \<open>provenAt\<close>.\<close>

definition checkAfter :: "(bytes \<Rightarrow> bytes) \<Rightarrow> replay_proof \<Rightarrow> s6_header \<Rightarrow> (s6_error + storage_result) option" where
  "checkAfter H p at =
     bindO (tryVerifySlotProof H (rp_after p) (root at) (rp_contract p) (rs_slot (rp_slot p))) (\<lambda>res.
     guardO (\<not> hasCode H res) (unproven ''contract_mismatch'')
    (if sr_value res = ONE32 then Some (Inr res)
     else if sr_value res = ZERO32 then Some (Inl (Refused S6_REPLAY_REFUTED ''slot_unset_at_block''))
     else Some (Inl (unproven ''proof_does_not_verify''))))"

text \<open>(5) Before, or its disclosure. What is returned is the header of the parent where Before was verified.\<close>

definition parentOf :: "(bytes \<Rightarrow> bytes) \<Rightarrow> replay_before \<Rightarrow> s6_header \<Rightarrow> s6_error + s6_header" where
  "parentOf H b header =
     bindE (case decodeReplayHeader H (rb_parentHeader b) of
              Inl (Refused _ _) \<Rightarrow> Inl (unproven ''parent_header_unproven'')
            | r \<Rightarrow> r) (\<lambda>parent.
     guardE (hash parent \<noteq> parentHash header \<or> (numberU64 parent + 1) mod 2 ^ 64 \<noteq> numberU64 header)
       (unproven ''parent_header_unproven'') (Inr parent))"

definition checkBefore :: "(bytes \<Rightarrow> bytes) \<Rightarrow> replay_proof \<Rightarrow> s6_header \<Rightarrow> storage_result \<Rightarrow> (s6_error + s6_header option) option" where
  "checkBefore H p header afterRes =
     (case (rp_before p, rp_beforeUnavailable p) of
        (Some _, Some _) \<Rightarrow> Some (Inl (unproven ''before_neither_proven_nor_disclosed''))
      | (Some b, None) \<Rightarrow>
          bindO (Some (parentOf H b header)) (\<lambda>parent.
          bindO (tryVerifySlotProof H (rb_proof b) (root parent) (rp_contract p) (rs_slot (rp_slot p))) (\<lambda>res.
          guardO (exists_in (sr_account res) \<and> codeHash (sr_account res) \<noteq> codeHash (sr_account afterRes)) (unproven ''contract_mismatch'')
         (if sr_value res = ZERO32 then Some (Inr (Some parent))
          else if sr_value res = ONE32 then Some (Inl (Refused S6_REPLAY_REFUTED ''slot_set_at_parent''))
          else Some (Inl (unproven ''proof_does_not_verify'')))))
      | (None, Some u) \<Rightarrow>
          guardO (bu_reason u = []) (unproven ''before_neither_proven_nor_disclosed'') (Some (Inr None))
      | (None, None) \<Rightarrow> Some (Inl (unproven ''before_neither_proven_nor_disclosed'')))"

definition apostrophe :: "string" where "apostrophe = [CHR 0x27]"

definition establishedAfter :: "(bytes \<Rightarrow> bytes) \<Rightarrow> replay_proof \<Rightarrow> nat \<Rightarrow> string" where
  "establishedAfter H p n =
     ''S6: '' @ checksumAddress H (rp_contract p) @ apostrophe @ ''s replay-guard slot '' @ toHex0x (rs_slot (rp_slot p)) @ '' ('' @
     rp_generation p @ '' _consumedLeaf[leaf], leaf '' @ toHex0x (rs_key (rp_slot p)) @ '' from this receipt'' @ apostrophe @
     ''s LeafConsumed) is 1 in the state of block '' @ decNat (br_number (rp_provenAt p)) @ '' ('' @ toHex0x (br_hash (rp_provenAt p)) @ ''), '' @
     decNat (length (rp_headers p)) @ '' block(s) after the settlement block '' @ decNat n @ '', the chain of headers linked by parentHash''"

definition establishedBefore :: "s6_header \<Rightarrow> nat \<Rightarrow> string" where
  "establishedBefore parent n =
     ''S6: the same slot is 0 in the state of block '' @ decNat (numberU64 parent) @ '' ('' @ toHex0x (hash parent) @ ''), the settlement block'' @
     apostrophe @ ''s parent: the transition happened in block '' @ decNat n"

text \<open>\<open>Number(nNumber)\<close> is exact: the number equals the one the evidence holds.\<close>

definition verifyReplayProof :: "(bytes \<Rightarrow> bytes) \<Rightarrow> replay_proof \<Rightarrow> decoded_settlement \<Rightarrow> (s6_error + replay_check) option" where
  "verifyReplayProof H p s =
     bindO (Some (checkTarget p s)) (\<lambda>lo.
     bindO (Some (checkEvent H p s lo)) (\<lambda>_.
     bindO (Some (headerChain H p (ds_header s))) (\<lambda>at.
     bindO (checkAfter H p at) (\<lambda>afterRes.
     bindO (checkBefore H p (ds_header s) afterRes) (\<lambda>before.
     Some (Inr \<lparr> ck_state = S6_PROVEN, ck_reason = [], ck_beforeVerified = (before \<noteq> None),
       ck_established = establishedAfter H p (numberU64 (ds_header s)) #
         (case before of None \<Rightarrow> [] | Some parent \<Rightarrow> [establishedBefore parent (numberU64 (ds_header s))]),
       ck_named = None,
       ck_link = Some \<lparr> sk_chainId = rp_chainId p, sk_contract = rp_contract p, sk_generation = rp_generation p, sk_slot = rp_slot p,
         sk_settlementBlock = \<lparr> br_number = numberU64 (ds_header s), br_hash = hash (ds_header s) \<rparr>, sk_provenAt = rp_provenAt p,
         sk_codeHash = codeHash (sr_account afterRes) \<rparr> \<rparr>))))))"

section \<open>Named states\<close>

definition establishedRefutation :: "(bytes \<Rightarrow> bytes) \<Rightarrow> bytes \<Rightarrow> bytes \<Rightarrow> bytes \<Rightarrow> s6_header \<Rightarrow> string" where
  "establishedRefutation H contract slot leaf parent =
     ''S6 refuted: '' @ checksumAddress H contract @ apostrophe @ ''s replay-guard slot '' @ toHex0x slot @ '' (leaf '' @ toHex0x leaf @
     '') is already 1 in the state of block '' @ decNat (numberU64 parent) @ '' ('' @ toHex0x (hash parent) @ ''), the settlement block'' @
     apostrophe @ ''s parent''"

text \<open>The loop of \<open>verifyRefutation\<close> over the receipt's logs: a slot proof that does not verify is passed over.\<close>

fun refutationLoop :: "(bytes \<Rightarrow> bytes) \<Rightarrow> bytes \<Rightarrow> slot_proof \<Rightarrow> s6_header \<Rightarrow> layout \<Rightarrow> decoded_log list \<Rightarrow> (s6_error + string) option" where
  "refutationLoop H contract sp parent lo [] = Some (Inl (unproven ''proof_does_not_verify''))"
| "refutationLoop H contract sp parent lo (lg # lgs) =
     (if \<not> isLeafConsumed H contract lg then refutationLoop H contract sp parent lo lgs
      else
        let slot = replaySlotFor H (lg_topics lg ! 2) (lo_base lo) in
        (case verifySlotProof H sp (root parent) contract slot of
           None \<Rightarrow> None
         | Some (Inl _) \<Rightarrow> refutationLoop H contract sp parent lo lgs
         | Some (Inr res) \<Rightarrow>
             if sr_value res = ONE32 then Some (Inr (establishedRefutation H contract slot (lg_topics lg ! 2) parent))
             else refutationLoop H contract sp parent lo lgs))"

definition verifyRefutation :: "(bytes \<Rightarrow> bytes) \<Rightarrow> named_state \<Rightarrow> decoded_settlement \<Rightarrow> (s6_error + string) option" where
  "verifyRefutation H st s =
     (case ns_before st of
        None \<Rightarrow> Some (Inl (unproven ''proof_does_not_verify''))
      | Some b \<Rightarrow>
     bindO (Some (parentOf H b (ds_header s))) (\<lambda>parent.
     case (if length (tx_data (ds_tx s)) \<ge> 4
           then find (\<lambda>l. selectorOf (tx_data (ds_tx s)) \<in> set (lo_selectors l)) (map snd S6_REPLAY_LAYOUTS) else None) of
       None \<Rightarrow> Some (Inl (unproven ''account_generation''))
     | Some lo \<Rightarrow> refutationLoop H (ns_contract st) (rb_proof b) parent lo (ds_logs s)))"

definition verifyNamedState :: "(bytes \<Rightarrow> bytes) \<Rightarrow> named_state \<Rightarrow> decoded_settlement \<Rightarrow> (s6_error + replay_check) option" where
  "verifyNamedState H st s =
     guardO (ns_state st \<noteq> S6_REPLAY_UNPROVEN \<and> ns_state st \<noteq> S6_EVENT_MISSING \<and> ns_state st \<noteq> S6_REPLAY_REFUTED)
       (unproven ''no_evidence_or_state'')
    (guardO (ns_reason st = []) (unproven ''no_evidence_or_state'')
    (guardO (ns_txHash st \<noteq> tx_hash (ds_tx s) \<or> ns_blockHash st \<noteq> hash (ds_header s) \<or> ns_blockNumber st \<noteq> numberU64 (ds_header s))
       (unproven ''settlement_block_mismatch'')
    (guardO (tx_chainId (ds_tx s) > 0 \<and> tx_chainId (ds_tx s) \<noteq> ns_chainId st) (unproven ''contract_mismatch'')
    (guardO (\<not> (tx_to (ds_tx s) = Some (ns_contract st)) \<and>
             \<not> (ns_contract st = ZERO20 \<and> (tx_to (ds_tx s) = None \<or> ns_reason st = ''receipt_unavailable'')))
       (unproven ''contract_mismatch'')
    (let check = \<lparr> ck_state = ns_state st, ck_reason = ns_reason st, ck_beforeVerified = False, ck_established = [],
           ck_named = Some st, ck_link = None \<rparr> in
     if ns_state st = S6_REPLAY_REFUTED \<and> ns_reason st = ''slot_set_at_parent'' then
       bindO (verifyRefutation H st s) (\<lambda>m. Some (Inr (check\<lparr> ck_beforeVerified := True, ck_established := [m] \<rparr>)))
     else Some (Inr check))))))"

definition verifyReplayGuardEvidence :: "(bytes \<Rightarrow> bytes) \<Rightarrow> replay_evidence \<Rightarrow> decoded_settlement \<Rightarrow> (s6_error + replay_check) option" where
  "verifyReplayGuardEvidence H ev s =
     guardO ((ev_proof ev = None) = (ev_state ev = None)) (unproven ''no_evidence_or_state'')
    (guardO (ev_version ev \<noteq> S6_REPLAY_DOMAIN) (unproven ''unknown_version'')
    (case ev_proof ev of
       Some p \<Rightarrow> verifyReplayProof H p s
     | None \<Rightarrow> verifyNamedState H (the (ev_state ev)) s))"

section \<open>The judgement\<close>

datatype verdict_kind = Proven | Stated | RefusedVerdict

record s6_verdict =
  vd_result :: verdict_kind
  vd_state :: string
  vd_reason :: string
  vd_beforeVerified :: bool
  vd_established :: "string list"

definition judge :: "(s6_error + replay_check) option \<Rightarrow> (rlp_error + s6_verdict) option" where
  "judge r =
     (case r of
        None \<Rightarrow> None
      | Some (Inl (Uncaught e)) \<Rightarrow> Some (Inl e)
      | Some (Inl (Refused st reason)) \<Rightarrow>
          Some (Inr \<lparr> vd_result = RefusedVerdict, vd_state = st, vd_reason = reason, vd_beforeVerified = False, vd_established = [] \<rparr>)
      | Some (Inr chk) \<Rightarrow>
          Some (Inr \<lparr> vd_result = (if ck_named chk \<noteq> None then Stated else Proven), vd_state = ck_state chk, vd_reason = ck_reason chk,
            vd_beforeVerified = ck_beforeVerified chk, vd_established = ck_established chk \<rparr>))"

definition judgeS6Replay :: "(bytes \<Rightarrow> bytes) \<Rightarrow> s6_settlement \<Rightarrow> bytes \<Rightarrow> (rlp_error + s6_verdict) option" where
  "judgeS6Replay H settlement evidence =
     judge (bindO (Some (decodeS6Settlement H settlement)) (\<lambda>s.
            bindO (Some (decodeReplayGuardEvidence evidence)) (\<lambda>ev. verifyReplayGuardEvidence H ev s)))"

section \<open>Headers\<close>

lemma decodeReplayHeader_eq:
  "decodeReplayHeader H raw = (case decodeS6Header H raw of Inl _ \<Rightarrow> Inl (unproven ''proof_does_not_verify'') | Inr h \<Rightarrow> Inr h)"
proof (cases "decodeS6Header H raw")
  case (Inr h)
  then show ?thesis using header_reencodes [OF Inr] by (auto simp: decodeReplayHeader_def)
qed (simp add: decodeReplayHeader_def)

text \<open>
  The re-encoding check of a replay header refuses nothing: a header is accepted exactly when it decodes, the comparison with its
  canonical encoding always succeeds, and the encoder never throws.
\<close>

theorem decodeReplayHeader_exact:
  "decodeReplayHeader H raw = (case decodeS6Header H raw of Inl _ \<Rightarrow> Inl (unproven ''proof_does_not_verify'') | Inr h \<Rightarrow> Inr h)"
  by (rule decodeReplayHeader_eq)

text \<open>A chain of headers, each naming its predecessor by hash and number.\<close>

inductive linked :: "(bytes \<Rightarrow> bytes) \<Rightarrow> s6_header \<Rightarrow> bytes list \<Rightarrow> s6_header \<Rightarrow> bool" for H where
  linked_end: "linked H h [] h"
| linked_step: "decodeS6Header H raw = Inr n \<Longrightarrow> parentHash n = hash h \<Longrightarrow> numberU64 n = (numberU64 h + 1) mod 2 ^ 64 \<Longrightarrow>
    linked H n raws h' \<Longrightarrow> linked H h (raw # raws) h'"

inductive_simps linked_Nil_iff: "linked H h [] h'"
inductive_simps linked_Cons_iff: "linked H h (raw # raws) h'"

lemma followHeader_Inr:
  "followHeader H at raw = Inr n \<longleftrightarrow>
     decodeS6Header H raw = Inr n \<and> parentHash n = hash at \<and> numberU64 n = (numberU64 at + 1) mod 2 ^ 64"
  by (auto simp: followHeader_def results decodeReplayHeader_eq split: sum.splits)

lemma runE_linked: "runE (followHeader H) h raws = Inr h' \<longleftrightarrow> linked H h raws h'"
  by (induction raws arbitrary: h) (auto simp: linked_Nil_iff linked_Cons_iff results followHeader_Inr)

lemma headerChain_Inr:
  "headerChain H p h = Inr at \<longleftrightarrow>
     length (rp_headers p) \<le> 512 \<and> linked H h (rp_headers p) at \<and> br_number (rp_provenAt p) = numberU64 at \<and> br_hash (rp_provenAt p) = hash at"
  by (auto simp: headerChain_def results runE_linked S6_MAX_REPLAY_HEADER_CHAIN_def)

lemma parentOf_Inr:
  "parentOf H b h = Inr parent \<longleftrightarrow>
     decodeS6Header H (rb_parentHeader b) = Inr parent \<and> hash parent = parentHash h \<and> (numberU64 parent + 1) mod 2 ^ 64 = numberU64 h"
  by (auto simp: parentOf_def results decodeReplayHeader_eq unproven_def split: sum.splits)

text \<open>The number at the end of a chain is that of the start plus the number of headers, in 64 bits.\<close>

lemma linked_number: "linked H h raws h' \<Longrightarrow> numberU64 h < 2 ^ 64 \<Longrightarrow> numberU64 h' = (numberU64 h + length raws) mod 2 ^ 64"
proof (induction rule: linked.induct)
  case (linked_step raw n h raws h')
  then have "numberU64 h' = ((numberU64 h + 1) mod 2 ^ 64 + length raws) mod 2 ^ 64" by simp
  also have "\<dots> = (numberU64 h + length (raw # raws)) mod 2 ^ 64" by (simp add: mod_add_left_eq add.assoc)
  finally show ?case .
qed simp

section \<open>Slots\<close>

text \<open>The state under a root, by the trie its nodes spell out: the account of an address, and the value stored at a slot of it.\<close>

definition holdsAccount :: "(bytes \<Rightarrow> bytes) \<Rightarrow> bytes \<Rightarrow> bytes list \<Rightarrow> bytes \<Rightarrow> account_state \<Rightarrow> bool" where
  "holdsAccount H rt nodes address acc \<longleftrightarrow>
     (\<exists>enc. trie_entry (dbOf H nodes) (HashNode rt) (hexKey (H address)) enc \<and> decodeAccount enc = Inr acc)"

definition holdsSlot :: "(bytes \<Rightarrow> bytes) \<Rightarrow> bytes \<Rightarrow> bytes list \<Rightarrow> bytes \<Rightarrow> bytes \<Rightarrow> bool" where
  "holdsSlot H rt nodes slot leaf \<longleftrightarrow> trie_entry (dbOf H nodes) (HashNode rt) (hexKey (H slot)) leaf"

lemma pad32_inj: "pad32 n = pad32 m \<Longrightarrow> n = m"
  by (metis pad32(2))

lemma ONE32_pad: "ONE32 = pad32 1"
proof -
  have "min_be 1 = [1]" by (subst min_be.simps) simp
  then show ?thesis by (simp add: ONE32_def pad32_def)
qed

lemma decodeSlot_one: "decodeSlot leaf = Inr ONE32 \<longleftrightarrow> leaf = [1]"
proof -
  have "min_be 1 = [1]" by (subst min_be.simps) simp
  then have one: "rlp_string (min_be 1) = [1]" by (simp add: rlp_string_def)
  then have "decodeSlot [1] = Inr ONE32" unfolding decodeSlot_exact ONE32_pad by (intro exI [of _ 1]) simp
  moreover have "leaf = [1]" if "decodeSlot leaf = Inr ONE32"
    using that one pad32_inj [of 1] by (auto simp: decodeSlot_exact ONE32_pad)
  ultimately show ?thesis by blast
qed

lemma ONE32_not_ZERO32: "ONE32 \<noteq> ZERO32"
  by (simp add: ONE32_def ZERO32_def replicate_append_same [symmetric] numeral_eq_Suc)

lemma verifyAccount_exists:
  assumes "verifyAccount H rt address nodes = Some (Inr acc)" and "exists_in acc"
  shows "holdsAccount H rt nodes address acc"
proof -
  have "[] \<notin> set nodes" and "\<exists>enc. verifyProofIn (dbOf H nodes) rt (H address) = Some (Inr (Some enc)) \<and> decodeAccount enc = Inr acc"
    using assms by (auto simp: verifyAccount_def verifyAccountIn_def strict_newProofNodes split: if_splits option.splits sum.splits)
  then show ?thesis by (auto simp: holdsAccount_def verifyProofIn_Some_iff)
qed

lemma verifySlot_one:
  assumes "verifySlot H rt slot nodes = Some (Inr ONE32)"
  shows "holdsSlot H rt nodes slot [1]"
proof -
  have "\<exists>enc. verifyProofIn (dbOf H nodes) rt (H slot) = Some (Inr (Some enc)) \<and> decodeSlot enc = Inr ONE32"
    using assms ONE32_not_ZERO32
    by (auto simp: verifySlot_def verifySlotIn_def Let_def strict_newProofNodes split: if_splits option.splits sum.splits)
  then show ?thesis by (auto simp: holdsSlot_def verifyProofIn_Some_iff decodeSlot_one)
qed

lemma verifySlotProof_Inr:
  "verifySlotProof H sp rt address slot = Some (Inr res) \<longleftrightarrow>
     verifyStorage H rt address (sp_accountProof sp) slot (sp_storageProof sp) = Some (Inr (sr_account res, sr_value res)) \<and>
     exists_in (sr_account res) \<noteq> sp_accountAbsent sp \<and>
     (exists_in (sr_account res) \<longrightarrow> storageRoot (sr_account res) = sp_storageHash sp \<and> codeHash (sr_account res) = sp_codeHash sp) \<and>
     (\<not> exists_in (sr_account res) \<longrightarrow> sp_storageHash sp = ZERO32 \<and> sp_codeHash sp = ZERO32) \<and> sr_value res = sp_value sp"
  by (cases res) (auto simp: verifySlotProof_def split: option.splits sum.splits if_splits)

lemma tryVerifySlotProof_Inr:
  "tryVerifySlotProof H sp rt address slot = Some (Inr res) \<longleftrightarrow> verifySlotProof H sp rt address slot = Some (Inr res)"
  by (auto simp: tryVerifySlotProof_def mapErr_Inr_iff)

lemma storage_one:
  assumes "verifyStorage H rt address ns1 slot ns2 = Some (Inr (acc, ONE32))"
  shows "exists_in acc" and "holdsAccount H rt ns1 address acc" and "holdsSlot H (storageRoot acc) ns2 slot [1]"
proof -
  have a: "verifyAccount H rt address ns1 = Some (Inr acc)" "exists_in acc" "verifySlot H (storageRoot acc) slot ns2 = Some (Inr ONE32)"
    using assms ONE32_not_ZERO32 by (auto simp: verifyStorage_def split: option.splits sum.splits if_splits)
  show "exists_in acc" by (rule a(2))
  show "holdsAccount H rt ns1 address acc" by (rule verifyAccount_exists [OF a(1,2)])
  show "holdsSlot H (storageRoot acc) ns2 slot [1]" by (rule verifySlot_one [OF a(3)])
qed

end
