(* ===== verification/S6Sound.thy ===== *)
theory S6Sound
  imports S6Verify
begin

text \<open>
  What a verdict on replay-guard evidence means: a proven slot is a statement about the state the chain committed to, a proven transition
  excludes a refutation of the same settlement, the judgement never throws, and it returns where the nodes of the proofs are ranked.
\<close>

section \<open>A proven slot\<close>

lemma verifyReplayProof_Inr:
  "verifyReplayProof H p s = Some (Inr chk) \<Longrightarrow>
     \<exists>lo at res before. checkTarget p s = Inr lo \<and> checkEvent H p s lo = Inr () \<and> headerChain H p (ds_header s) = Inr at \<and>
       checkAfter H p at = Some (Inr res) \<and> checkBefore H p (ds_header s) res = Some (Inr before) \<and>
       ck_state chk = S6_PROVEN \<and> ck_named chk = None \<and> (ck_beforeVerified chk \<longleftrightarrow> before \<noteq> None)"
  unfolding verifyReplayProof_def bindO_Inr_iff by auto

lemma verifyNamedState_Inr:
  "verifyNamedState H st s = Some (Inr chk) \<Longrightarrow>
     ns_state st \<in> {S6_REPLAY_UNPROVEN, S6_EVENT_MISSING, S6_REPLAY_REFUTED} \<and> ck_state chk = ns_state st \<and> ck_reason chk = ns_reason st \<and>
     (tx_to (ds_tx s) = Some (ns_contract st) \<or>
      ns_contract st = ZERO20 \<and> (tx_to (ds_tx s) = None \<or> ns_reason st = ''receipt_unavailable'')) \<and>
     (ns_state st = S6_REPLAY_REFUTED \<and> ns_reason st = ''slot_set_at_parent'' \<longrightarrow> (\<exists>m. verifyRefutation H st s = Some (Inr m)))"
  unfolding verifyNamedState_def Let_def guardO_Inr_iff by (auto simp: bindO_Inr_iff split: if_splits)

lemma state_names: "S6_PROVEN \<notin> {S6_REPLAY_UNPROVEN, S6_EVENT_MISSING, S6_REPLAY_REFUTED}"
  by (simp add: S6_PROVEN_def S6_REPLAY_UNPROVEN_def S6_EVENT_MISSING_def S6_REPLAY_REFUTED_def)

lemma proven_proof:
  assumes "verifyReplayGuardEvidence H ev s = Some (Inr chk)" and "ck_state chk = S6_PROVEN"
  shows "\<exists>p. ev_proof ev = Some p \<and> verifyReplayProof H p s = Some (Inr chk)"
proof (cases "ev_proof ev")
  case None
  with assms(1) have "verifyNamedState H (the (ev_state ev)) s = Some (Inr chk)"
    by (simp add: verifyReplayGuardEvidence_def guardO_Inr_iff)
  from verifyNamedState_Inr [OF this] assms(2) state_names show ?thesis by auto
qed (use assms(1) in \<open>simp add: verifyReplayGuardEvidence_def guardO_Inr_iff\<close>)

lemma checkTarget_Inr:
  "checkTarget p s = Inr lo \<Longrightarrow>
     ds_executed s \<and> map_of S6_REPLAY_LAYOUTS (rp_generation p) = Some lo \<and> tx_to (ds_tx s) = Some (rp_contract p) \<and>
     4 \<le> length (tx_data (ds_tx s)) \<and> selectorOf (tx_data (ds_tx s)) \<in> set (lo_selectors lo)"
  by (auto simp: checkTarget_def results split: option.splits)

lemma checkEvent_Inr:
  assumes "checkEvent H p s lo = Inr u"
  shows "\<exists>lg \<in> set (ds_logs s). isLeafConsumed H (rp_contract p) lg \<and> lg_topics lg ! 2 = rs_key (rp_slot p)"
    and "rs_slot (rp_slot p) = replaySlotFor H (rs_key (rp_slot p)) (lo_base lo)"
proof -
  let ?P = "\<lambda>lg. isLeafConsumed H (rp_contract p) lg \<and> lg_topics lg ! 2 = rs_key (rp_slot p)"
  obtain lg where lg: "find ?P (ds_logs s) = Some lg"
    using assms by (cases "find ?P (ds_logs s)") (simp_all add: checkEvent_def split: if_splits)
  from lg have "\<exists>i < length (ds_logs s). ?P (ds_logs s ! i)" unfolding find_Some_iff by blast
  then show "\<exists>lg \<in> set (ds_logs s). ?P lg" using nth_mem by blast
  from assms lg show "rs_slot (rp_slot p) = replaySlotFor H (rs_key (rp_slot p)) (lo_base lo)"
    by (simp add: checkEvent_def results)
qed

lemma checkAfter_Inr:
  assumes "checkAfter H p at = Some (Inr res)"
  shows "verifyStorage H (root at) (rp_contract p) (sp_accountProof (rp_after p)) (rs_slot (rp_slot p)) (sp_storageProof (rp_after p)) =
      Some (Inr (sr_account res, ONE32))" and "hasCode H res"
  using assms by (auto simp: checkAfter_def results guardO_Inr_iff tryVerifySlotProof_Inr verifySlotProof_Inr split: if_splits)

text \<open>
  C5. What a proven slot says. The settlement is an executed transaction to the account, of a pinned generation that has its selector; the
  receipt holds a \<open>LeafConsumed\<close> event of the account with the key; and in the state of a block at most 512 headers after the settlement
  block, linked to it header by header, the account has code and the storage trie under its root stores 1 at the slot recomputed from
  the event's key.
\<close>

theorem proven_sound:
  assumes "verifyReplayGuardEvidence H ev s = Some (Inr chk)" and "ck_state chk = S6_PROVEN"
  shows "\<exists>p lo lg at acc. ev_proof ev = Some p \<and> ds_executed s \<and> tx_to (ds_tx s) = Some (rp_contract p) \<and>
     map_of S6_REPLAY_LAYOUTS (rp_generation p) = Some lo \<and> selectorOf (tx_data (ds_tx s)) \<in> set (lo_selectors lo) \<and>
     lg \<in> set (ds_logs s) \<and> isLeafConsumed H (rp_contract p) lg \<and>
     linked H (ds_header s) (rp_headers p) at \<and> length (rp_headers p) \<le> 512 \<and>
     holdsAccount H (root at) (sp_accountProof (rp_after p)) (rp_contract p) acc \<and> codeHash acc \<notin> {H [], ZERO32} \<and>
     holdsSlot H (storageRoot acc) (sp_storageProof (rp_after p)) (replaySlotFor H (lg_topics lg ! 2) (lo_base lo)) [1]"
proof -
  obtain p lo at res where p: "ev_proof ev = Some p" "checkTarget p s = Inr lo" "checkEvent H p s lo = Inr ()"
      "headerChain H p (ds_header s) = Inr at" "checkAfter H p at = Some (Inr res)"
    using proven_proof [OF assms] verifyReplayProof_Inr by blast
  note storage = storage_one [OF checkAfter_Inr(1) [OF p(5)]]
  obtain lg where "lg \<in> set (ds_logs s)" "isLeafConsumed H (rp_contract p) lg" "lg_topics lg ! 2 = rs_key (rp_slot p)"
    using checkEvent_Inr(1) [OF p(3)] by blast
  then show ?thesis
    using p checkTarget_Inr [OF p(2)] checkEvent_Inr(2) [OF p(3)] checkAfter_Inr(2) [OF p(5)] storage
    by (intro exI [of _ p] exI [of _ lo] exI [of _ lg] exI [of _ at] exI [of _ "sr_account res"]) (simp add: headerChain_Inr hasCode_def)
qed

section \<open>One state, one answer\<close>

lemma verifyAccount_proof:
  assumes "verifyAccount H rt a ns = Some (Inr x)"
  shows "\<exists>r. verifyProof H rt (H a) ns = Some (Inr r) \<and>
    (case r of None \<Rightarrow> x = \<lparr>exists_in = False, storageRoot = EMPTY_ROOT, codeHash = ZERO32\<rparr> | Some enc \<Rightarrow> decodeAccount enc = Inr x)"
  using assms
  by (auto simp: verifyAccount_def verifyAccountIn_def strict_newProofNodes verifyProof_cases split: if_splits option.splits sum.splits)

lemma verifySlot_proof:
  assumes "verifySlot H rt slot ns = Some (Inr v)" and "rt \<noteq> EMPTY_ROOT"
  shows "\<exists>r. verifyProof H rt (H slot) ns = Some (Inr r) \<and> (case r of None \<Rightarrow> v = ZERO32 | Some enc \<Rightarrow> decodeSlot enc = Inr v)"
  using assms
  by (auto simp: verifySlot_def verifySlotIn_def Let_def strict_newProofNodes verifyProof_cases split: if_splits option.splits sum.splits)

lemma accounts_agree:
  assumes "inj_on H (set ns1 \<union> set ns2)" and "verifyAccount H rt a ns1 = Some (Inr x)" and "verifyAccount H rt a ns2 = Some (Inr y)"
  shows "x = y"
proof -
  obtain r where r: "verifyProof H rt (H a) ns1 = Some (Inr r)"
    "case r of None \<Rightarrow> x = \<lparr>exists_in = False, storageRoot = EMPTY_ROOT, codeHash = ZERO32\<rparr> | Some enc \<Rightarrow> decodeAccount enc = Inr x"
    using verifyAccount_proof [OF assms(2)] by blast
  obtain r' where r': "verifyProof H rt (H a) ns2 = Some (Inr r')"
    "case r' of None \<Rightarrow> y = \<lparr>exists_in = False, storageRoot = EMPTY_ROOT, codeHash = ZERO32\<rparr> | Some enc \<Rightarrow> decodeAccount enc = Inr y"
    using verifyAccount_proof [OF assms(3)] by blast
  from proofs_agree [OF assms(1) r(1) r'(1)] r(2) r'(2) show ?thesis by (auto split: option.splits)
qed

lemma slots_agree:
  assumes "inj_on H (set ns1 \<union> set ns2)" and "verifySlot H rt slot ns1 = Some (Inr v)" and "verifySlot H rt slot ns2 = Some (Inr w)"
  shows "v = w"
proof (cases "rt = EMPTY_ROOT")
  case True
  with assms(2,3) show ?thesis by (auto simp: verifySlot_def verifySlotIn_def Let_def split: if_splits)
next
  case False
  obtain r where r: "verifyProof H rt (H slot) ns1 = Some (Inr r)" "case r of None \<Rightarrow> v = ZERO32 | Some enc \<Rightarrow> decodeSlot enc = Inr v"
    using verifySlot_proof [OF assms(2) False] by blast
  obtain r' where r': "verifyProof H rt (H slot) ns2 = Some (Inr r')" "case r' of None \<Rightarrow> w = ZERO32 | Some enc \<Rightarrow> decodeSlot enc = Inr w"
    using verifySlot_proof [OF assms(3) False] by blast
  from proofs_agree [OF assms(1) r(1) r'(1)] r(2) r'(2) show ?thesis by (auto split: option.splits)
qed

lemma storage_agrees:
  assumes "inj_on H (set as1 \<union> set as2)" and "inj_on H (set ns1 \<union> set ns2)"
    and "verifyStorage H rt a as1 slot ns1 = Some (Inr (x, v))" and "verifyStorage H rt a as2 slot ns2 = Some (Inr (y, w))"
  shows "v = w"
proof -
  have x: "verifyAccount H rt a as1 = Some (Inr x)" "if exists_in x then verifySlot H (storageRoot x) slot ns1 = Some (Inr v) else v = ZERO32"
    using assms(3) by (auto simp: verifyStorage_def split: option.splits sum.splits if_splits)
  have y: "verifyAccount H rt a as2 = Some (Inr y)" "if exists_in y then verifySlot H (storageRoot y) slot ns2 = Some (Inr w) else w = ZERO32"
    using assms(4) by (auto simp: verifyStorage_def split: option.splits sum.splits if_splits)
  from accounts_agree [OF assms(1) x(1) y(1)] x(2) y(2) slots_agree [OF assms(2)] show ?thesis by (auto split: if_splits)
qed

section \<open>A proven transition excludes a refutation\<close>

lemma checkBefore_Inr:
  assumes "checkBefore H p h res = Some (Inr before)" and "before \<noteq> None"
  shows "\<exists>b parent acc. rp_before p = Some b \<and> parentOf H b h = Inr parent \<and>
    verifyStorage H (root parent) (rp_contract p) (sp_accountProof (rb_proof b)) (rs_slot (rp_slot p)) (sp_storageProof (rb_proof b)) =
      Some (Inr (acc, ZERO32))"
  using assms
  by (auto simp: checkBefore_def bindO_Inr_iff guardO_Inr_iff tryVerifySlotProof_Inr verifySlotProof_Inr split: option.splits if_splits)

lemma refutationLoop_Inr:
  "refutationLoop H c sp parent lo lgs = Some (Inr m) \<Longrightarrow>
     \<exists>lg \<in> set lgs. isLeafConsumed H c lg \<and>
       (\<exists>res. verifySlotProof H sp (root parent) c (replaySlotFor H (lg_topics lg ! 2) (lo_base lo)) = Some (Inr res) \<and> sr_value res = ONE32)"
  by (induction lgs) (auto simp: Let_def split: if_splits option.splits sum.splits)

lemma find_in: "find P xs = Some x \<Longrightarrow> x \<in> set xs"
  by (auto simp: find_Some_iff)

lemma verifyRefutation_Inr:
  assumes "verifyRefutation H st s = Some (Inr m)"
  shows "\<exists>b parent lo. ns_before st = Some b \<and> parentOf H b (ds_header s) = Inr parent \<and> lo \<in> set (map snd S6_REPLAY_LAYOUTS) \<and>
    refutationLoop H (ns_contract st) (rb_proof b) parent lo (ds_logs s) = Some (Inr m)"
proof -
  obtain b where b: "ns_before st = Some b" using assms by (auto simp: verifyRefutation_def split: option.splits)
  obtain parent where p: "parentOf H b (ds_header s) = Inr parent"
    using assms b by (auto simp: verifyRefutation_def bindO_Inr_iff)
  let ?found = "if length (tx_data (ds_tx s)) \<ge> 4
    then find (\<lambda>l. selectorOf (tx_data (ds_tx s)) \<in> set (lo_selectors l)) (map snd S6_REPLAY_LAYOUTS) else None"
  obtain lo where lo: "?found = Some lo" using assms b p by (cases ?found) (simp_all add: verifyRefutation_def)
  then have "lo \<in> set (map snd S6_REPLAY_LAYOUTS)" using find_in [of _ "map snd S6_REPLAY_LAYOUTS" lo] by (simp del: set_map split: if_splits)
  moreover have "refutationLoop H (ns_contract st) (rb_proof b) parent lo (ds_logs s) = Some (Inr m)"
    using assms b p lo by (simp add: verifyRefutation_def)
  ultimately show ?thesis using b p by blast
qed

text \<open>The hashed bytes a Before shows: the parent's header and the nodes of both proofs.\<close>

definition shown :: "replay_before \<Rightarrow> bytes set" where
  "shown b = {rb_parentHeader b} \<union> set (sp_accountProof (rb_proof b)) \<union> set (sp_storageProof (rb_proof b))"

lemma layouts_base: "lo \<in> set (map snd S6_REPLAY_LAYOUTS) \<Longrightarrow> lo_base lo = 4"
  by (auto simp: S6_REPLAY_LAYOUTS_def)

lemma header_hash: "decodeS6Header H raw = Inr h \<Longrightarrow> hash h = H raw"
  by (auto simp: header_iff headerOf_def)

lemma parents_agree:
  assumes "inj_on H (shown b \<union> shown b')" and "parentOf H b h = Inr parent" and "parentOf H b' h = Inr parent'"
  shows "parent = parent'"
proof -
  have d: "decodeS6Header H (rb_parentHeader b) = Inr parent" "decodeS6Header H (rb_parentHeader b') = Inr parent'"
    and "hash parent = hash parent'" using assms(2,3) by (simp_all add: parentOf_Inr)
  then have h: "H (rb_parentHeader b) = H (rb_parentHeader b')" by (simp add: header_hash [OF d(1)] header_hash [OF d(2)])
  have "rb_parentHeader b = rb_parentHeader b'" by (rule inj_onD [OF assms(1) h]) (simp_all add: shown_def)
  with d show ?thesis by simp
qed

lemma shown_inj:
  assumes "inj_on H (shown b \<union> shown b')"
  shows "inj_on H (set (sp_accountProof (rb_proof b)) \<union> set (sp_accountProof (rb_proof b')))"
    and "inj_on H (set (sp_storageProof (rb_proof b)) \<union> set (sp_storageProof (rb_proof b')))"
  by (rule inj_on_subset [OF assms], auto simp: shown_def)+

lemma layout_base: "map_of S6_REPLAY_LAYOUTS g = Some lo \<Longrightarrow> lo_base lo = 4"
  using layouts_base [of lo] map_of_SomeD [of S6_REPLAY_LAYOUTS g lo] by force

text \<open>
  C6. A proven transition excludes a refutation: when a proof with its Before verifies against a settlement whose \<open>LeafConsumed\<close> events of the
  account all carry the proven key, and the hash does not collide on the parent header and the nodes the two evidences show, no named
  state with that Before verifies as refuted because the slot was set at the parent.
\<close>

theorem proven_excludes_refuted:
  assumes "verifyReplayGuardEvidence H ev s = Some (Inr chk)" and "ck_state chk = S6_PROVEN" and "ck_beforeVerified chk"
    and "ev_proof ev = Some p" and "rp_before p = Some b" and "ev_state ev' = Some st" and "ns_before st = Some b'"
    and "\<forall>lg \<in> set (ds_logs s). isLeafConsumed H (rp_contract p) lg \<longrightarrow> lg_topics lg ! 2 = rs_key (rp_slot p)"
    and "inj_on H (shown b \<union> shown b')"
  shows "\<not> (\<exists>chk'. verifyReplayGuardEvidence H ev' s = Some (Inr chk') \<and> ck_state chk' = S6_REPLAY_REFUTED \<and>
    ck_reason chk' = ''slot_set_at_parent'')"
proof
  assume "\<exists>chk'. verifyReplayGuardEvidence H ev' s = Some (Inr chk') \<and> ck_state chk' = S6_REPLAY_REFUTED \<and>
    ck_reason chk' = ''slot_set_at_parent''"
  then obtain chk' where v: "verifyNamedState H st s = Some (Inr chk')" and
    r: "ck_state chk' = S6_REPLAY_REFUTED" "ck_reason chk' = ''slot_set_at_parent''"
    using assms(6) by (auto simp: verifyReplayGuardEvidence_def guardO_Inr_iff split: option.splits)
  have c: "tx_to (ds_tx s) = Some (ns_contract st) \<or> tx_to (ds_tx s) = None" and "\<exists>m. verifyRefutation H st s = Some (Inr m)"
    using verifyNamedState_Inr [OF v] r by auto
  then obtain m parent' lo' where p': "parentOf H b' (ds_header s) = Inr parent'" "lo' \<in> set (map snd S6_REPLAY_LAYOUTS)"
    "refutationLoop H (ns_contract st) (rb_proof b') parent' lo' (ds_logs s) = Some (Inr m)"
    using verifyRefutation_Inr assms(7) by fastforce
  obtain lo at res before where p: "checkTarget p s = Inr lo" "checkEvent H p s lo = Inr ()"
      "checkBefore H p (ds_header s) res = Some (Inr before)" "before \<noteq> None"
    using proven_proof [OF assms(1,2)] verifyReplayProof_Inr assms(3,4) by fastforce
  obtain parent acc where b: "parentOf H b (ds_header s) = Inr parent" "verifyStorage H (root parent) (rp_contract p)
      (sp_accountProof (rb_proof b)) (rs_slot (rp_slot p)) (sp_storageProof (rb_proof b)) = Some (Inr (acc, ZERO32))"
    using checkBefore_Inr [OF p(3,4)] assms(5) by auto
  have "ns_contract st = rp_contract p" using c checkTarget_Inr [OF p(1)] by auto
  then obtain lg res' where lg: "lg \<in> set (ds_logs s)" "isLeafConsumed H (rp_contract p) lg" "sr_value res' = ONE32"
    "verifySlotProof H (rb_proof b') (root parent') (rp_contract p) (replaySlotFor H (lg_topics lg ! 2) (lo_base lo')) = Some (Inr res')"
    using refutationLoop_Inr [OF p'(3)] by auto
  have "lo_base lo = lo_base lo'"
    using layouts_base [OF p'(2)] layout_base [of "rp_generation p" lo] checkTarget_Inr [OF p(1)] by simp
  then have "verifyStorage H (root parent) (rp_contract p) (sp_accountProof (rb_proof b')) (rs_slot (rp_slot p))
      (sp_storageProof (rb_proof b')) = Some (Inr (sr_account res', ONE32))"
    using lg assms(8) checkEvent_Inr(2) [OF p(2)] parents_agree [OF assms(9) b(1) p'(1)] by (simp add: verifySlotProof_Inr)
  from storage_agrees [OF shown_inj [OF assms(9)] b(2) this] have "ZERO32 = ONE32" .
  then show False using ONE32_not_ZERO32 by simp
qed

section \<open>No error escapes\<close>

text \<open>A computation that fails only with a named state.\<close>

definition namedOnly :: "s6_error + 'a \<Rightarrow> bool" where
  "namedOnly m \<longleftrightarrow> (\<forall>e. m \<noteq> Inl (Uncaught e))"

definition namedO :: "(s6_error + 'a) option \<Rightarrow> bool" where
  "namedO m \<longleftrightarrow> (\<forall>e. m \<noteq> Some (Inl (Uncaught e)))"

named_theorems only_named

lemma named_basic [only_named]: "namedOnly (Inr x)" "namedOnly (Inl (unproven r))" "namedOnly (Inl wrongType)"
  "namedOnly (Inl settlementUnproven)" "namedOnly (Inl (Refused a r))"
  by (simp_all add: namedOnly_def unproven_def wrongType_def settlementUnproven_def)

lemma named_bindE [only_named]: "namedOnly m \<Longrightarrow> (\<And>x. namedOnly (f x)) \<Longrightarrow> namedOnly (bindE m f)"
  by (cases m) (auto simp: namedOnly_def)

lemma named_guardE [only_named]: "namedOnly (Inl e :: s6_error + 'a) \<Longrightarrow> namedOnly m \<Longrightarrow> namedOnly (guardE c e (m :: s6_error + 'a))"
  by (simp add: guardE_def)

lemma named_mapErr [only_named]: "namedOnly (mapErr (\<lambda>_. unproven r) m)" "namedOnly (mapErr (\<lambda>_. settlementUnproven) m)"
  by (cases m; simp add: namedOnly_def unproven_def settlementUnproven_def)+

lemma named_mapE [only_named]: "(\<And>x. x \<in> set xs \<Longrightarrow> namedOnly (f x)) \<Longrightarrow> namedOnly (mapE f xs)"
  by (induction xs) (auto intro!: only_named)

lemma namedO_basic [only_named]: "namedO None" "namedOnly m \<Longrightarrow> namedO (Some m)"
  by (simp_all add: namedO_def namedOnly_def)

lemma namedO_bindO [only_named]: "namedO m \<Longrightarrow> (\<And>x. namedO (f x)) \<Longrightarrow> namedO (bindO m f)"
  by (cases "(m, f)" rule: bindO.cases) (auto simp: namedO_def)

lemma namedO_guardO [only_named]: "namedOnly (Inl e :: s6_error + 'a) \<Longrightarrow> namedO m \<Longrightarrow> namedO (guardO c e (m :: (s6_error + 'a) option))"
  by (simp add: guardO_def namedO_def namedOnly_def)

lemma named_checkText: "namedOnly (checkText P v)"
  by (auto simp: checkText_def intro: only_named split: jval.split)

lemma named_check: "namedOnly (checkValue v fd)" "namedOnly (checkObject w sch)"
proof (induction v fd and w sch rule: checkValue_checkObject.induct)
  case (1 v fd)
  then show ?case
    unfolding checkValue.simps [of v fd]
    by (cases "f_kind fd") (auto intro!: only_named named_checkText split: jval.split)
next
  case (2 v sch)
  then show ?case
    unfolding checkObject.simps [of v sch]
    by (cases v) (auto intro!: only_named split: option.split)
qed

lemma named_noEscapedHex: "namedOnly (noEscapedHex v sch)"
proof (induction v sch rule: noEscapedHex.induct)
  case (1 v sch)
  then show ?case
    unfolding noEscapedHex.simps [of v sch]
    by (auto intro!: only_named simp: Let_def split: option.split fkind.split)
qed

lemma named_decodeEvidence: "namedOnly (decodeReplayGuardEvidence raw)"
  by (auto simp: decodeReplayGuardEvidence_def decodeDocument_def checkVersions_def
      intro!: only_named named_check named_noEscapedHex split: sum.split option.split)

lemma named_decodeSettlement: "namedOnly (decodeS6Settlement H s)"
  unfolding decodeS6Settlement_def decodeLog_def decodeTopic_def Let_def
  by (auto intro!: only_named split: option.split)

lemma named_decodeReplayHeader: "namedOnly (decodeReplayHeader H raw)"
  by (auto simp: decodeReplayHeader_eq intro!: only_named split: sum.split)

lemma named_parentOf: "namedOnly (parentOf H b h)"
  using named_decodeReplayHeader [of H "rb_parentHeader b"]
  by (auto simp: parentOf_def intro!: only_named split: sum.split s6_error.split)

lemma named_headerChain: "namedOnly (headerChain H p h)"
proof -
  have "namedOnly (runE (followHeader H) h raws)" for h raws
    by (induction raws arbitrary: h) (auto simp: followHeader_def intro!: only_named named_decodeReplayHeader)
  then show ?thesis by (auto simp: headerChain_def intro!: only_named)
qed

lemma named_try: "namedO (tryVerifySlotProof H sp rt a slot)"
proof (cases "verifySlotProof H sp rt a slot")
  case (Some r)
  then show ?thesis by (cases r) (simp_all add: tryVerifySlotProof_def namedO_def unproven_def)
qed (simp add: tryVerifySlotProof_def namedO_def)

lemma named_refutationLoop: "namedO (refutationLoop H c sp parent lo lgs)"
  by (induction lgs) (auto simp: Let_def intro!: only_named split: option.split sum.split)

lemma named_verifyReplayProof: "namedO (verifyReplayProof H p s)"
  unfolding verifyReplayProof_def checkTarget_def checkEvent_def checkAfter_def checkBefore_def
  by (auto intro!: only_named named_headerChain named_try named_parentOf split: option.split)

lemma named_verifyNamedState: "namedO (verifyNamedState H st s)"
  unfolding verifyNamedState_def verifyRefutation_def Let_def
  by (auto intro!: only_named named_parentOf named_refutationLoop split: option.split)

lemma named_verifyEvidence: "namedO (verifyReplayGuardEvidence H ev s)"
  unfolding verifyReplayGuardEvidence_def
  by (auto intro!: only_named named_verifyReplayProof named_verifyNamedState split: option.split)

lemma judge_named: "namedO m \<Longrightarrow> judge m \<noteq> Some (Inl e)"
  by (auto simp: judge_def namedO_def split: option.split sum.split s6_error.split)

lemma judgement_named:
  "namedO (bindO (Some (decodeS6Settlement H st)) (\<lambda>s. bindO (Some (decodeReplayGuardEvidence b)) (\<lambda>ev. verifyReplayGuardEvidence H ev s)))"
  by (intro only_named named_decodeSettlement named_decodeEvidence named_verifyEvidence)

text \<open>
  C7. The judgement never throws: whatever the bytes of the evidence and of the settlement, no \<open>RlpError\<close> leaves it; what it answers is a
  verdict.
\<close>

theorem judgeS6Replay_never_throws: "judgeS6Replay H st b \<noteq> Some (Inl e)"
  unfolding judgeS6Replay_def by (rule judge_named) (rule judgement_named)

section \<open>The judgement returns\<close>

text \<open>Nodes of which none refers back to a node that leads to it.\<close>

definition ranked :: "(bytes \<Rightarrow> bytes) \<Rightarrow> bytes list \<Rightarrow> bool" where
  "ranked H nodes \<longleftrightarrow> (\<exists>rank :: bytes \<Rightarrow> nat. \<forall>buf \<in> set nodes. \<forall>n. decodeNode buf = Inr n \<longrightarrow>
     (\<forall>buf' \<in> set nodes. H buf' \<in> hashes n \<longrightarrow> rank (H buf') < rank (H buf)))"

definition slotProofs :: "replay_evidence \<Rightarrow> slot_proof set" where
  "slotProofs ev =
     (case ev_proof ev of
        Some p \<Rightarrow> insert (rp_after p) (rb_proof ` set_option (rp_before p))
      | None \<Rightarrow> (case ev_state ev of None \<Rightarrow> {} | Some st \<Rightarrow> rb_proof ` set_option (ns_before st)))"

lemma ranked_walk:
  assumes "ranked H nodes"
  shows "verifyProofIn (dbOf H nodes) rt key \<noteq> None"
proof -
  obtain rank :: "bytes \<Rightarrow> nat" where r: "\<And>buf n buf'. buf \<in> set nodes \<Longrightarrow> decodeNode buf = Inr n \<Longrightarrow> buf' \<in> set nodes \<Longrightarrow>
      H buf' \<in> hashes n \<Longrightarrow> rank (H buf') < rank (H buf)"
    using assms unfolding ranked_def by blast
  have "\<exists>x. verifyLoop (dbOf H nodes) 0 rt (hexKey key) = Some x"
    by (rule verifyLoop_returns [of _ rank]) (use r dbOf_lookup in metis)
  then show ?thesis by (simp add: verifyProofIn_def)
qed

lemma ranked_slotProof:
  assumes "ranked H (sp_accountProof sp)" and "ranked H (sp_storageProof sp)"
  shows "verifySlotProof H sp rt a slot \<noteq> None" and "tryVerifySlotProof H sp rt a slot \<noteq> None"
proof -
  have "verifyAccount H rt a (sp_accountProof sp) \<noteq> None"
    using ranked_walk [OF assms(1), of rt "H a"]
    by (auto simp: verifyAccount_def verifyAccountIn_def strict_newProofNodes split: option.splits sum.splits)
  moreover have "verifySlot H r slot (sp_storageProof sp) \<noteq> None" for r
    using ranked_walk [OF assms(2), of r "H slot"]
    by (auto simp: verifySlot_def verifySlotIn_def Let_def strict_newProofNodes split: option.splits sum.splits)
  ultimately have "verifyStorage H rt a (sp_accountProof sp) slot (sp_storageProof sp) \<noteq> None"
    unfolding verifyStorage_def by (auto split: option.split sum.split simp del: not_None_eq)
  then show "verifySlotProof H sp rt a slot \<noteq> None"
    unfolding verifySlotProof_def by (auto split: option.split sum.split)
  then show "tryVerifySlotProof H sp rt a slot \<noteq> None" by (simp add: tryVerifySlotProof_def)
qed

lemma bindO_returns: "m \<noteq> None \<Longrightarrow> (\<And>x. m = Some (Inr x) \<Longrightarrow> f x \<noteq> None) \<Longrightarrow> bindO m f \<noteq> None"
  by (cases "(m, f)" rule: bindO.cases) auto

lemma bindO_None_iff: "bindO m f = None \<longleftrightarrow> m = None \<or> (\<exists>x. m = Some (Inr x) \<and> f x = None)"
  by (cases "(m, f)" rule: bindO.cases) auto

lemma guardO_None_iff: "guardO c e m = None \<longleftrightarrow> \<not> c \<and> m = None"
  by (simp add: guardO_def)

lemma guardO_returns: "m \<noteq> None \<Longrightarrow> guardO c e m \<noteq> None"
  by (simp add: guardO_def)

lemma refutationLoop_returns:
  "ranked H (sp_accountProof sp) \<Longrightarrow> ranked H (sp_storageProof sp) \<Longrightarrow> refutationLoop H c sp parent lo lgs \<noteq> None"
  by (induction lgs) (auto simp: Let_def split: option.split sum.split dest: ranked_slotProof(1) simp del: not_None_eq)

lemma verifyEvidence_returns:
  assumes "\<forall>sp \<in> slotProofs ev. ranked H (sp_accountProof sp) \<and> ranked H (sp_storageProof sp)"
  shows "verifyReplayGuardEvidence H ev s \<noteq> None"
proof (cases "ev_proof ev")
  case (Some p)
  then have a: "ranked H (sp_accountProof (rp_after p))" "ranked H (sp_storageProof (rp_after p))"
    and b: "\<And>b. rp_before p = Some b \<Longrightarrow> ranked H (sp_accountProof (rb_proof b)) \<and> ranked H (sp_storageProof (rb_proof b))"
    using assms by (auto simp: slotProofs_def)
  have "checkAfter H p at \<noteq> None" for at
    unfolding checkAfter_def using ranked_slotProof(2) [OF a] by (intro bindO_returns guardO_returns) auto
  moreover have "checkBefore H p h res \<noteq> None" for h res
  proof (cases "rp_before p")
    case (Some b)
    show ?thesis
    proof (cases "rp_beforeUnavailable p")
      case None
      have t: "tryVerifySlotProof H (rb_proof b) rt a slot \<noteq> None" for rt a slot
        using ranked_slotProof(2) b [OF Some] by blast
      then show ?thesis unfolding checkBefore_def Some None option.case prod.case
        by (intro bindO_returns guardO_returns) auto
    qed (use Some in \<open>simp add: checkBefore_def\<close>)
  qed (simp add: checkBefore_def guardO_def split: option.split)
  ultimately have "verifyReplayProof H p s \<noteq> None" unfolding verifyReplayProof_def by (intro bindO_returns) auto
  then show ?thesis using Some by (simp add: verifyReplayGuardEvidence_def guardO_def)
next
  case None
  show ?thesis
  proof (cases "ev_state ev")
    case (Some st)
    have "verifyRefutation H st s \<noteq> None"
    proof (cases "ns_before st")
      case (Some b)
      with None \<open>ev_state ev = Some st\<close> assms have "refutationLoop H c (rb_proof b) parent lo lgs \<noteq> None" for c parent lo lgs
        by (intro refutationLoop_returns) (auto simp: slotProofs_def)
      then show ?thesis unfolding verifyRefutation_def Some option.case
        by (intro bindO_returns) (auto split: option.split simp del: not_None_eq)
    qed (simp add: verifyRefutation_def)
    then have "verifyNamedState H st s \<noteq> None"
      unfolding verifyNamedState_def Let_def
      by (simp add: bindO_None_iff guardO_None_iff del: not_None_eq)
    then show ?thesis using None Some by (simp add: verifyReplayGuardEvidence_def guardO_def)
  qed (simp add: None verifyReplayGuardEvidence_def guardO_def)
qed

text \<open>
  C8. The judgement returns a verdict: if no node of a proof in the evidence refers back to a node that leads to it, the judgement ends, without
  an error, on every settlement.
\<close>

theorem judgeS6Replay_returns:
  assumes "\<And>ev sp. decodeReplayGuardEvidence b = Inr ev \<Longrightarrow> sp \<in> slotProofs ev \<Longrightarrow>
      ranked H (sp_accountProof sp) \<and> ranked H (sp_storageProof sp)"
  shows "\<exists>v. judgeS6Replay H st b = Some (Inr v)"
proof -
  let ?m = "bindO (Some (decodeS6Settlement H st)) (\<lambda>s. bindO (Some (decodeReplayGuardEvidence b)) (\<lambda>ev. verifyReplayGuardEvidence H ev s))"
  have "?m \<noteq> None" by (intro bindO_returns verifyEvidence_returns) (use assms in auto)
  then obtain r where r: "?m = Some r" by blast
  then show ?thesis unfolding judgeS6Replay_def r using judgement_named [of H st b]
    by (auto simp: judge_def namedO_def r split: sum.split s6_error.split)
qed

section \<open>A concrete settlement\<close>

definition demoHash :: "bytes \<Rightarrow> bytes" where
  "demoHash x = replicate 31 0 @ [of_nat (length x)]"

definition demoContract :: bytes where "demoContract = replicate 20 6"
definition demoKey :: bytes where "demoKey = replicate 32 5"

text \<open>The leaf of the slot, the leaf of the account whose storage trie it is, and a leaf of another account.\<close>

definition demoSlotLeaf :: bytes where
  "demoSlotLeaf = [0xe3, 0xa1, 0x20] @ replicate 31 0 @ [32, 1]"

definition demoAccountLeaf :: bytes where
  "demoAccountLeaf = [0xf8, 0x6a, 0xa1, 0x20] @ replicate 31 0 @ [20, 0xb8, 70, 0xf8, 68, 0x80, 0x80, 0xa0] @ replicate 31 0 @ [36, 0xa0] @ replicate 32 7"

definition demoOtherLeaf :: bytes where "demoOtherLeaf = [0xC4, 0x82, 0x20, 0x12, 0x05]"

definition demoParentFields :: "bytes list" where
  "demoParentFields =
     [replicate 32 1, replicate 32 1, replicate 20 1, replicate 31 0 @ [5], replicate 32 1, replicate 32 1, replicate 256 0, [], [1], [], [], [], [],
      replicate 32 1, replicate 8 1]"

definition demoParent :: bytes where "demoParent = rlp_list (concat (map rlp_string demoParentFields))"

definition demoSettlement :: decoded_settlement where
  "demoSettlement =
     \<lparr> ds_header = \<lparr> parentHash = demoHash demoParent, root = replicate 31 0 @ [108], number = 2, numberU64 = 2, hash = replicate 32 9 \<rparr>,
       ds_tx = \<lparr> tx_hash = replicate 32 8, tx_to = Some demoContract, tx_chainId = 1, tx_data = [0x60, 0x6f, 0x2c, 0x8d] \<rparr>,
       ds_executed = True,
       ds_logs = [\<lparr> lg_address = demoContract, lg_topics = [replicate 31 0 @ [37], replicate 32 3, demoKey] \<rparr>] \<rparr>"

definition demoBefore :: replay_before where
  "demoBefore =
     \<lparr> rb_parentHeader = demoParent,
       rb_proof = \<lparr> sp_accountAbsent = True, sp_accountProof = [demoOtherLeaf], sp_storageHash = replicate 32 0, sp_codeHash = replicate 32 0,
         sp_storageProof = [], sp_value = replicate 32 0 \<rparr> \<rparr>"

definition demoProof :: replay_proof where
  "demoProof =
     \<lparr> rp_version = S6_REPLAY_DOMAIN, rp_chainId = 1, rp_generation = ''CertenAccountV7_3'', rp_contract = demoContract,
       rp_slot = \<lparr> rs_key = demoKey, rs_base = 4, rs_derivation = S6_REPLAY_DERIVATION, rs_slot = replicate 31 0 @ [64] \<rparr>,
       rp_settlementBlock = \<lparr> br_number = 2, br_hash = replicate 32 9 \<rparr>, rp_provenAt = \<lparr> br_number = 2, br_hash = replicate 32 9 \<rparr>,
       rp_headers = [],
       rp_after = \<lparr> sp_accountAbsent = False, sp_accountProof = [demoAccountLeaf], sp_storageHash = replicate 31 0 @ [36],
         sp_codeHash = replicate 32 7, sp_storageProof = [demoSlotLeaf], sp_value = replicate 31 0 @ [1] \<rparr>,
       rp_before = Some demoBefore, rp_beforeUnavailable = None \<rparr>"

definition demoProven :: replay_evidence where
  "demoProven = \<lparr> ev_version = S6_REPLAY_DOMAIN, ev_proof = Some demoProof, ev_state = None \<rparr>"

definition demoRefuting :: replay_evidence where
  "demoRefuting =
     \<lparr> ev_version = S6_REPLAY_DOMAIN, ev_proof = None,
       ev_state = Some \<lparr> ns_state = S6_REPLAY_REFUTED, ns_reason = ''slot_set_at_parent'', ns_chainId = 1, ns_txHash = replicate 32 8,
         ns_blockNumber = 2, ns_blockHash = replicate 32 9, ns_contract = demoContract, ns_providers = None, ns_detail = None,
         ns_before = Some demoBefore \<rparr> \<rparr>"

definition demoParentHeader :: s6_header where
  "demoParentHeader = \<lparr> parentHash = replicate 32 1, root = replicate 31 0 @ [5], number = 1, numberU64 = 1, hash = demoHash demoParent \<rparr>"

lemma demo_strings: "length (concat (map rlp_string demoParentFields)) = 493"
proof -
  have "length (min_be 256) = 2" by code_simp
  then show ?thesis by (simp add: demoParentFields_def rlp_string_def rlp_head_def)
qed

lemma demo_parent: "decodeS6Header demoHash demoParent = Inr demoParentHeader"
  unfolding header_iff
  by (intro exI [of _ demoParentFields] conjI; (simp add: demo_strings)?)
    (simp_all add: demoParent_def demoParentFields_def headerShape_def headerOf_def demoParentHeader_def)

lemma demo_target: "checkTarget demoProof demoSettlement = Inr \<lparr> lo_base = 4, lo_selectors = [''606f2c8d'', ''329fe012''] \<rparr>"
  by code_simp

lemma demo_event: "checkEvent demoHash demoProof demoSettlement \<lparr> lo_base = 4, lo_selectors = [''606f2c8d'', ''329fe012''] \<rparr> = Inr ()"
  by code_simp

lemma demo_storage:
  "verifyStorage demoHash (replicate 31 0 @ [108]) demoContract [demoAccountLeaf] (replicate 31 0 @ [64]) [demoSlotLeaf] =
     Some (Inr (\<lparr> exists_in = True, storageRoot = replicate 31 0 @ [36], codeHash = replicate 32 7 \<rparr>, ONE32))"
  by code_simp

lemma demo_absent:
  "verifyStorage demoHash (replicate 31 0 @ [5]) demoContract [demoOtherLeaf] (replicate 31 0 @ [64]) [] =
     Some (Inr (\<lparr> exists_in = False, storageRoot = EMPTY_ROOT, codeHash = ZERO32 \<rparr>, ZERO32))"
  by code_simp

lemma demo_linked: "headerChain demoHash demoProof (ds_header demoSettlement) = Inr (ds_header demoSettlement)"
  by (simp add: headerChain_Inr linked_Nil_iff demoProof_def demoSettlement_def)

lemma demo_after:
  "checkAfter demoHash demoProof (ds_header demoSettlement) = Some (Inr
     \<lparr> sr_account = \<lparr> exists_in = True, storageRoot = replicate 31 0 @ [36], codeHash = replicate 32 7 \<rparr>, sr_value = ONE32 \<rparr>)"
proof -
  have "hasCode demoHash \<lparr> sr_account = \<lparr> exists_in = True, storageRoot = replicate 31 0 @ [36], codeHash = replicate 32 7 \<rparr>, sr_value = ONE32 \<rparr>"
    by code_simp
  then show ?thesis using demo_storage
    by (simp add: checkAfter_def tryVerifySlotProof_def verifySlotProof_def demoProof_def demoSettlement_def guardO_def ONE32_def)
qed

lemma demo_before:
  "checkBefore demoHash demoProof (ds_header demoSettlement) r = Some (Inr (Some demoParentHeader))"
proof -
  have "parentOf demoHash demoBefore (ds_header demoSettlement) = Inr demoParentHeader"
    using demo_parent by (simp add: parentOf_Inr demoBefore_def demoSettlement_def demoParentHeader_def)
  then show ?thesis
    using demo_absent
    by (simp add: checkBefore_def tryVerifySlotProof_def verifySlotProof_def demoProof_def demoBefore_def guardO_def demoParentHeader_def ZERO32_def)
qed

lemma demo_verifies:
  "\<exists>chk. verifyReplayGuardEvidence demoHash demoProven demoSettlement = Some (Inr chk) \<and> ck_state chk = S6_PROVEN \<and> ck_beforeVerified chk"
proof -
  have "verifyReplayGuardEvidence demoHash demoProven demoSettlement = verifyReplayProof demoHash demoProof demoSettlement"
    by (simp add: verifyReplayGuardEvidence_def guardO_def demoProven_def)
  then show ?thesis unfolding verifyReplayProof_def demo_target demo_linked bindO.simps demo_event demo_after demo_before by simp
qed

theorem proven_sound_witness:
  "\<exists>acc. holdsAccount demoHash (replicate 31 0 @ [108]) [demoAccountLeaf] demoContract acc \<and>
     holdsSlot demoHash (storageRoot acc) [demoSlotLeaf] (replaySlotFor demoHash demoKey 4) [1]"
proof -
  obtain chk where chk: "verifyReplayGuardEvidence demoHash demoProven demoSettlement = Some (Inr chk)" "ck_state chk = S6_PROVEN"
    using demo_verifies by blast
  obtain p lo lg at acc where "ev_proof demoProven = Some p" "map_of S6_REPLAY_LAYOUTS (rp_generation p) = Some lo"
    "lg \<in> set (ds_logs demoSettlement)" "linked demoHash (ds_header demoSettlement) (rp_headers p) at"
    "holdsAccount demoHash (root at) (sp_accountProof (rp_after p)) (rp_contract p) acc"
    "holdsSlot demoHash (storageRoot acc) (sp_storageProof (rp_after p)) (replaySlotFor demoHash (lg_topics lg ! 2) (lo_base lo)) [1]"
    using proven_sound [OF chk] by blast
  then show ?thesis
    by (intro exI [of _ acc]) (auto simp: demoProven_def demoProof_def demoSettlement_def S6_REPLAY_LAYOUTS_def linked_Nil_iff)
qed

lemma demo_shown_inj: "inj_on demoHash (shown demoBefore \<union> shown demoBefore)"
proof -
  have "length (min_be 493) = 2" by code_simp
  then have "length demoParent = 496" by (simp add: demoParent_def rlp_list_def rlp_head_def demo_strings)
  then have "demoHash demoParent = replicate 31 0 @ [240]" "demoHash demoOtherLeaf = replicate 31 0 @ [5]"
    by (simp_all add: demoHash_def demoOtherLeaf_def)
  then have "demoHash demoParent \<noteq> demoHash demoOtherLeaf" by simp
  then show ?thesis by (auto simp: inj_on_def shown_def demoBefore_def)
qed

theorem proven_excludes_refuted_witness:
  "\<not> (\<exists>chk. verifyReplayGuardEvidence demoHash demoRefuting demoSettlement = Some (Inr chk) \<and> ck_state chk = S6_REPLAY_REFUTED \<and>
     ck_reason chk = ''slot_set_at_parent'')"
proof -
  obtain chk where chk: "verifyReplayGuardEvidence demoHash demoProven demoSettlement = Some (Inr chk)" "ck_state chk = S6_PROVEN"
    "ck_beforeVerified chk" using demo_verifies by blast
  show ?thesis
    by (rule proven_excludes_refuted [OF chk _ _ _ _ _ demo_shown_inj, where p = demoProof and st = "the (ev_state demoRefuting)"])
      (simp_all add: demoProven_def demoProof_def demoRefuting_def demoSettlement_def)
qed

lemma demo_refuting_ok: "evidenceOk demoRefuting" "textsOk demoRefuting"
proof -
  show "evidenceOk demoRefuting"
    by (simp add: evidenceOk_def demoRefuting_def stateOk_def S6_MAX_JSON_INTEGER_def beforeOk_def slotProofOk_def demoBefore_def demoContract_def)
  show "textsOk demoRefuting"
    by (simp add: textsOk_def demoRefuting_def stateTexts_def providersText_def validText_def ascii_text code_def S6_REPLAY_REFUTED_def)
qed

lemma length_printStr: "length (printStr s) \<le> 2 + 6 * length s"
  by (induction s) (auto simp: printStr_def printChar_def)

lemma demo_refuting_length: "length (printJ (encEvidence demoRefuting)) \<le> 4194304"
proof -
  have num: "printJ (encNum (Suc 0)) = ''1''" "printJ (encNum 2) = ''2''" by code_simp+
  have "length (min_be 493) = 2" by code_simp
  then have len: "length demoParent = 496" by (simp add: demoParent_def rlp_list_def rlp_head_def demo_strings)
  note keys = length_printStr
  show ?thesis
    using keys [of S6_REPLAY_DOMAIN] keys [of S6_REPLAY_REFUTED] keys [of "''slot_set_at_parent''"]
      keys [of "''version''"] keys [of "''state''"] keys [of "''reason''"] keys [of "''chainId''"] keys [of "''txHash''"]
      keys [of "''blockNumber''"] keys [of "''blockHash''"] keys [of "''contract''"] keys [of "''before''"] keys [of "''parentHeader''"]
      keys [of "''proof''"] keys [of "''accountAbsent''"] keys [of "''accountProof''"] keys [of "''storageHash''"] keys [of "''codeHash''"]
      keys [of "''storageProof''"] keys [of "''value''"]
    by (simp add: encEvidence_def demoRefuting_def encState_def optMember_def encBefore_def encSlotProof_def encHexList_def demoBefore_def
        num len length_printHex S6_REPLAY_DOMAIN_def S6_REPLAY_REFUTED_def encStr_def demoContract_def demoOtherLeaf_def)
qed

lemma demo_ranked: "ranked demoHash [demoOtherLeaf]" "ranked demoHash []"
proof -
  have "decodeNode demoOtherLeaf = Inr (Short [1, 2, 16] (ValueNode [5]))" by code_simp
  then show "ranked demoHash [demoOtherLeaf]" by (simp add: ranked_def)
qed (simp add: ranked_def)

theorem judgeS6Replay_returns_witness:
  "\<exists>v. judgeS6Replay demoHash \<lparr> ss_headerRlp = ''0x'', ss_txRlp = ''0x'', ss_receiptStatus = 1, ss_logs = [] \<rparr>
     (binaryBytes (printJ (encEvidence demoRefuting))) = Some (Inr v)"
proof (rule judgeS6Replay_returns)
  fix ev sp
  assume "decodeReplayGuardEvidence (binaryBytes (printJ (encEvidence demoRefuting))) = Inr ev" and sp: "sp \<in> slotProofs ev"
  then have "ev = demoRefuting" using decode_written [OF demo_refuting_ok demo_refuting_length] by simp
  with sp show "ranked demoHash (sp_accountProof sp) \<and> ranked demoHash (sp_storageProof sp)"
    using demo_ranked by (simp add: slotProofs_def demoRefuting_def demoBefore_def)
qed

end
