(* ===== verification/RootIndex.thy ===== *)
theory RootIndex
  imports Merkle "HOL-Library.Word"
begin

text \<open>
  The position of a leaf in the root chain, read off the sides of a receipt (\<open>rootChainLeafIndex\<close> of \<open>packages/verify/src/s3/certify.ts\<close>),
  the window an update must lie in, the genesis link and the checkpoint lag. A named refusal is its code and fields.
\<close>

unbundle bit_operations_syntax

section \<open>The position of a leaf\<close>

definition heights :: "nat \<Rightarrow> nat list" where
  "heights n = filter (bit n) (rev [0..<64])"

text \<open>The body of \<open>rootChainLeafIndex\<close> over the peaks of the tree, on the sides of the steps: the run of left steps from the end,
  the peak it names, the width of the path within the root chain, and the offset in the peak.\<close>

definition peakAt :: "bool list \<Rightarrow> nat list \<Rightarrow> nat \<Rightarrow> bool \<Rightarrow> nat option" where
  "peakAt sides hs larger final =
     (let k = hs ! larger; width = k + larger + (if final then 0 else 1) in
      if length sides < width then None
      else let part = drop (length sides - width) sides in
        if \<not> final \<and> \<not> part ! k then None
        else Some (sum_list (map (\<lambda>j. 2 ^ (hs ! j)) [0..<larger]) + sum_list (map (\<lambda>j. if part ! j then 0 else 2 ^ j) [0..<k])))"

definition peakIndex :: "bool list \<Rightarrow> nat list \<Rightarrow> nat option" where
  "peakIndex sides hs =
     (let peaks = length hs; run = length (takeWhile Not (rev sides)); final = \<not> run < peaks - 1 in
      peakAt sides hs (if final then peaks - 1 else run) final)"

definition rootChainLeafIndex :: "receipt_entry list \<Rightarrow> nat \<Rightarrow> nat option" where
  "rootChainLeafIndex entries n =
     (if n = 0 \<or> n \<ge> 2 ^ 64 then None else peakIndex (map re_right entries) (heights n))"

section \<open>The window, the genesis link and the lag\<close>

datatype certify_state =
    LinkMissing string
  | LinkStart string
  | LinkEnd string
  | LinkInvalid string
  | UpdateReplayed bytes
  | UpdateUnproven string bytes nat
  | CheckpointStale nat nat nat

record update_window =
  uw_prev :: nat
  uw_prevKnown :: bool
  uw_this :: nat
  uw_block :: nat

definition checkWindow :: "update_window \<Rightarrow> string \<Rightarrow> bytes \<Rightarrow> receipt_entry list \<Rightarrow> certify_state + unit" where
  "checkWindow w account txHash entries =
     (let st = UpdateUnproven account txHash (uw_block w) in
      if \<not> uw_prevKnown w \<or> uw_this w = 2 ^ 64 - 1 then Inl st
      else case rootChainLeafIndex entries (uw_this w + 1) of
             None \<Rightarrow> Inl st
           | Some idx \<Rightarrow> if idx \<le> uw_prev w \<or> idx > uw_this w then Inl st else Inr ())"

definition GENESIS_LINK_INDEX :: string where "GENESIS_LINK_INDEX = ''genesis''"

definition checkGenesisLink :: "(bytes \<Rightarrow> bytes) \<Rightarrow> receipt option \<Rightarrow> bytes \<Rightarrow> bytes \<Rightarrow> certify_state + unit" where
  "checkGenesisLink H link genesisRoot certifiedRoot =
     (case link of
        None \<Rightarrow> Inl (LinkMissing GENESIS_LINK_INDEX)
      | Some l \<Rightarrow>
          if rc_start l \<noteq> genesisRoot then Inl (LinkStart GENESIS_LINK_INDEX)
          else if rc_anchor l \<noteq> certifiedRoot then Inl (LinkEnd GENESIS_LINK_INDEX)
          else if \<not> receiptValid H l then Inl (LinkInvalid GENESIS_LINK_INDEX)
          else Inr ())"

definition CHECKPOINT_LAG :: nat where "CHECKPOINT_LAG = 2"

definition checkCheckpointLag :: "string \<Rightarrow> nat \<Rightarrow> nat \<Rightarrow> certify_state + unit" where
  "checkCheckpointLag version majors newest =
     (if version = ''2.1'' \<and> majors + CHECKPOINT_LAG < newest then Inl (CheckpointStale majors newest CHECKPOINT_LAG) else Inr ())"

definition checkEvidenceCheckpointLags :: "string \<Rightarrow> nat \<Rightarrow> nat \<Rightarrow> nat \<Rightarrow> certify_state + unit" where
  "checkEvidenceCheckpointLags version majors checkMajors newest =
     bindE (checkCheckpointLag version majors newest) (\<lambda>_. checkCheckpointLag version checkMajors newest)"

section \<open>The reference: the sides of the path to a leaf\<close>

text \<open>The tree over \<open>n\<close> leaves is cut at the largest power of two below \<open>n\<close>; the path is read from the leaf to the root, a step right when
  the sibling is on the right.\<close>

function sides :: "nat \<Rightarrow> nat \<Rightarrow> bool list" where
  "sides n i =
     (if n < 2 then []
      else let k = pow2_below n in if i < k then sides k i @ [True] else sides (n - k) (i - k) @ [False])"
  by pat_completeness auto
termination
proof (relation "measure fst", goal_cases)
  case (2 n i k)
  then show ?case using pow2_below [of n] by auto
next
  case (3 n i k)
  then obtain j where "k = 2 ^ j" using pow2_below [of n] by auto
  then have "0 < k" by simp
  with 3 show ?case by auto
qed simp

declare sides.simps [simp del]

lemma sides_1: "sides 1 i = []"
  by (subst sides.simps) simp

lemma sides_cut:
  assumes "0 < m" and "m \<le> 2 ^ h"
  shows "sides (2 ^ h + m) i = (if i < 2 ^ h then sides (2 ^ h) i @ [True] else sides m (i - 2 ^ h) @ [False])"
proof -
  have "1 \<le> (2::nat) ^ h" by simp
  then have "\<not> 2 ^ h + m < 2" using assms by linarith
  moreover have "pow2_below (2 ^ h + m) = 2 ^ h" using assms by (intro pow2_below_eq) auto
  ultimately show ?thesis by (subst sides.simps) (simp add: Let_def)
qed

lemma sides_perfect: "i < 2 ^ h \<Longrightarrow> sides (2 ^ h) i = map (\<lambda>j. \<not> bit i j) [0..<h]"
proof (induction h arbitrary: i)
  case 0
  then show ?case by (simp add: sides_1 [simplified])
next
  case (Suc h)
  have c: "sides (2 ^ Suc h) i = (if i < 2 ^ h then sides (2 ^ h) i @ [True] else sides (2 ^ h) (i - 2 ^ h) @ [False])"
    using sides_cut [of "2 ^ h" h i] by (simp add: mult_2)
  show ?case
  proof (cases "i < 2 ^ h")
    case True
    then have "\<not> bit i h" by (simp add: bit_nat_def div_less)
    with True c Suc.IH [of i] show ?thesis by simp
  next
    case False
    then obtain r where r: "i = 2 ^ h + r" by (metis le_add_diff_inverse not_less)
    with Suc.prems have "r < 2 ^ h" by simp
    moreover from this have "bit i h" by (simp add: bit_nat_def r div_add_self1)
    moreover have "bit i j \<longleftrightarrow> bit r j" if "j < h" for j
    proof -
      have "2 ^ h = (2::nat) ^ j * 2 ^ (h - j)" using that by (simp flip: power_add)
      then have "i div 2 ^ j = 2 ^ (h - j) + r div 2 ^ j" by (simp add: r)
      then show ?thesis using that by (simp add: bit_nat_def)
    qed
    ultimately show ?thesis using False c Suc.IH [of r] r by simp
  qed
qed

section \<open>The algorithm finds the reference\<close>

definition treeSize :: "nat list \<Rightarrow> nat" where
  "treeSize hs = sum_list (map (\<lambda>h. 2 ^ h) hs)"

lemma treeSize_simps [simp]: "treeSize [] = 0" "treeSize (h # hs) = 2 ^ h + treeSize hs"
  by (simp_all add: treeSize_def)

lemma treeSize_less: "sorted_wrt (>) (h # hs) \<Longrightarrow> treeSize hs < 2 ^ h"
proof (induction hs arbitrary: h)
  case (Cons k hs)
  then have "treeSize hs < 2 ^ k" "k < h" by auto
  then have "treeSize (k # hs) < 2 ^ Suc k" by simp
  also have "\<dots> \<le> (2::nat) ^ h" using \<open>k < h\<close> by (intro power_increasing) auto
  finally show ?case .
qed simp

lemma treeSize_pos: "hs \<noteq> [] \<Longrightarrow> 0 < treeSize hs"
  by (cases hs) auto

lemma offset_bits:
  "sum_list (map (\<lambda>j. if part ! j then 0 else 2 ^ j) [0..<length part]) = (horner_sum of_bool 2 (map Not part) :: nat)"
proof -
  have "sum_list (map (\<lambda>j. if part ! j then 0 else 2 ^ j :: nat) [0..<length part]) = (\<Sum>j = 0..<length part. if part ! j then 0 else 2 ^ j)"
    by (simp add: interv_sum_list_conv_sum_set_nat)
  also have "\<dots> = (\<Sum>j = 0..<length part. of_bool (map Not part ! j) * 2 ^ j)"
    by (rule sum.cong) auto
  finally show ?thesis by (simp add: horner_sum_eq_sum)
qed

lemma offset_sides:
  assumes "length part = h"
  shows "horner_sum of_bool 2 (map Not part) < (2::nat) ^ h"
    and "sides (2 ^ h) (horner_sum of_bool 2 (map Not part)) = part"
proof -
  show l: "horner_sum of_bool 2 (map Not part) < (2::nat) ^ h"
    using horner_sum_of_bool_2_less [of "map Not part"] assms by simp
  show "sides (2 ^ h) (horner_sum of_bool 2 (map Not part)) = part"
    unfolding sides_perfect [OF l] by (rule nth_equalityI) (auto simp: assms bit_horner_sum_bit_iff)
qed

lemma offset_inverse: "i < 2 ^ h \<Longrightarrow> horner_sum of_bool 2 (map Not (sides (2 ^ h) i)) = i"
  by (simp add: sides_perfect comp_def horner_sum_bit_eq_take_bit take_bit_nat_eq_self)

lemma offset_last:
  assumes "k \<le> length p"
  shows "sum_list (map (\<lambda>j. if drop (length p - k) p ! j then 0 else 2 ^ j) [0..<k]) =
    (horner_sum of_bool 2 (map Not (drop (length p - k) p)) :: nat)"
  using offset_bits [of "drop (length p - k) p"] assms by simp

lemma peakIndex_one:
  "peakIndex fl [h] = (if length fl < h then None else Some (horner_sum of_bool 2 (map Not (drop (length fl - h) fl))))"
  using offset_last [of h fl] by (simp add: peakIndex_def peakAt_def Let_def)

lemma peakIndex_Nil: "hs \<noteq> [] \<Longrightarrow> peakIndex [] (h # hs) = None"
  by (simp add: peakIndex_def peakAt_def Let_def)

lemma peakIndex_right:
  assumes "hs \<noteq> []"
  shows "peakIndex (fl @ [True]) (h # hs) = (if length fl < h then None else Some (horner_sum of_bool 2 (map Not (drop (length fl - h) fl))))"
proof -
  have "sum_list (map (\<lambda>j. if (drop (length fl - h) fl @ [True]) ! j then 0 else 2 ^ j) [0..<h]) =
      sum_list (map (\<lambda>j. if drop (length fl - h) fl ! j then 0 else 2 ^ j :: nat) [0..<h])" if "h \<le> length fl"
    using that by (intro arg_cong [of _ _ sum_list] map_cong) (auto simp: nth_append)
  then show ?thesis using assms offset_last [of h fl] by (auto simp: peakIndex_def peakAt_def Let_def nth_append)
qed

lemma peakAt_left: "peakAt (fl @ [False]) (h # hs) (Suc larger) final = map_option ((+) (2 ^ h)) (peakAt fl hs larger final)"
proof -
  define k where "k = hs ! larger"
  define width where "width = k + larger + (if final then 0 else 1)"
  define part where "part = drop (length fl - width) fl"
  have base: "sum_list (map (\<lambda>j. 2 ^ ((h # hs) ! j)) [0..<Suc larger]) = 2 ^ h + sum_list (map (\<lambda>j. 2 ^ (hs ! j) :: nat) [0..<larger])"
    by (simp only: upt_conv_Cons [OF zero_less_Suc] map_Suc_upt [symmetric] list.map map_map comp_def sum_list.Cons nth_Cons_0 nth_Cons_Suc)
  have old: "peakAt fl hs larger final = (if length fl < width then None else if \<not> final \<and> \<not> part ! k then None
      else Some (sum_list (map (\<lambda>j. 2 ^ (hs ! j)) [0..<larger]) + sum_list (map (\<lambda>j. if part ! j then 0 else 2 ^ j) [0..<k])))"
    unfolding peakAt_def Let_def k_def width_def part_def by (rule refl)
  have new: "peakAt (fl @ [False]) (h # hs) (Suc larger) final =
      (if length fl < width then None
       else let part' = drop (length fl - width) fl @ [False] in if \<not> final \<and> \<not> part' ! k then None
       else Some (sum_list (map (\<lambda>j. 2 ^ ((h # hs) ! j)) [0..<Suc larger]) + sum_list (map (\<lambda>j. if part' ! j then 0 else 2 ^ j) [0..<k])))"
    unfolding peakAt_def Let_def nth_Cons_Suc k_def [symmetric] by (simp add: width_def)
  show ?thesis
  proof (cases "length fl < width")
    case False
    then have l: "length part = width" by (simp add: part_def)
    have "sum_list (map (\<lambda>j. if (part @ [False]) ! j then 0 else 2 ^ j :: nat) [0..<k]) = sum_list (map (\<lambda>j. if part ! j then 0 else 2 ^ j) [0..<k])"
      using l by (intro arg_cong [of _ _ sum_list] map_cong) (auto simp: nth_append width_def)
    moreover have "\<not> final \<Longrightarrow> (part @ [False]) ! k = part ! k" using l by (simp add: nth_append width_def)
    ultimately show ?thesis unfolding new old Let_def base part_def [symmetric] using False by auto
  qed (simp add: new old)
qed

lemma peakIndex_left:
  assumes "hs \<noteq> []"
  shows "peakIndex (fl @ [False]) (h # hs) = map_option ((+) (2 ^ h)) (peakIndex fl hs)"
proof -
  define run where "run = length (takeWhile Not (rev fl))"
  define final where "final = (\<not> run < length hs - 1)"
  define larger where "larger = (if final then length hs - 1 else run)"
  have f: "(\<not> Suc run < length (h # hs) - 1) = final" using assms by (cases hs) (auto simp: final_def)
  have l: "(if final then length (h # hs) - 1 else Suc run) = Suc larger" using assms by (simp add: larger_def)
  have r: "length (takeWhile Not (rev (fl @ [False]))) = Suc run" by (simp add: run_def)
  have "peakIndex (fl @ [False]) (h # hs) = peakAt (fl @ [False]) (h # hs) (Suc larger) final"
    unfolding peakIndex_def Let_def r f l by (rule refl)
  also have "\<dots> = map_option ((+) (2 ^ h)) (peakAt fl hs larger final)" by (rule peakAt_left)
  also have "peakAt fl hs larger final = peakIndex fl hs"
    unfolding peakIndex_def Let_def run_def [symmetric] final_def [symmetric] larger_def [symmetric] by (rule refl)
  finally show ?thesis .
qed

lemma peakIndex_iff:
  assumes "sorted_wrt (>) hs" and "hs \<noteq> []"
  shows "peakIndex fl hs = Some i \<longleftrightarrow> i < treeSize hs \<and> (\<exists>pre. fl = pre @ sides (treeSize hs) i)"
  using assms
proof (induction hs arbitrary: fl i)
  case (Cons h hs)
  have found: "(if length f < h then None else Some (horner_sum of_bool 2 (map Not (drop (length f - h) f)))) = Some i \<longleftrightarrow>
      i < 2 ^ h \<and> (\<exists>pre. f = pre @ sides (2 ^ h) i)" (is "?l \<longleftrightarrow> ?r") for f
  proof
    assume ?l
    then show ?r using offset_sides [of "drop (length f - h) f" h]
      by (auto split: if_splits intro!: exI [of _ "take (length f - h) f"])
  next
    assume ?r
    then obtain pre where p: "i < 2 ^ h" "f = pre @ sides (2 ^ h) i" by blast
    then have "length (sides (2 ^ h) i) = h" by (simp add: sides_perfect)
    with p show ?l by (simp add: offset_inverse)
  qed
  show ?case
  proof (cases "hs = []")
    case True
    then show ?thesis using found by (simp add: peakIndex_one)
  next
    case False
    have cut: "sides (treeSize (h # hs)) j = (if j < 2 ^ h then sides (2 ^ h) j @ [True] else sides (treeSize hs) (j - 2 ^ h) @ [False])" for j
      using sides_cut [of "treeSize hs" h j] treeSize_pos [OF False] treeSize_less [OF Cons.prems(1)] by simp
    show ?thesis
    proof (cases fl rule: rev_cases)
      case Nil
      then show ?thesis using False cut by (auto simp: peakIndex_Nil)
    next
      case (snoc f b)
      show ?thesis
      proof (cases b)
        case True
        then show ?thesis using snoc False cut found [of f] by (auto simp: peakIndex_right)
      next
        case False
        have "peakIndex f hs = Some j \<longleftrightarrow> j < treeSize hs \<and> (\<exists>pre. f = pre @ sides (treeSize hs) j)" for j
          using Cons.IH [of f j] Cons.prems(1) \<open>hs \<noteq> []\<close> by simp
        then show ?thesis using snoc False \<open>hs \<noteq> []\<close> cut by (auto simp: peakIndex_left) (metis add_diff_cancel_left' add_less_cancel_left le_add_diff_inverse not_less)+
      qed
    qed
  qed
qed simp

lemma treeSize_heights: "treeSize (filter (bit n) (rev [0..<m])) = take_bit m n"
  by (induction m) (simp_all add: take_bit_Suc_from_most)

lemma heights:
  assumes "0 < n" and "n < 2 ^ 64"
  shows "treeSize (heights n) = n" and "sorted_wrt (>) (heights n)" and "heights n \<noteq> []"
proof -
  show t: "treeSize (heights n) = n" using assms(2) by (simp add: heights_def treeSize_heights take_bit_nat_eq_self del: upt_rec_numeral)
  show "heights n \<noteq> []" using t assms(1) by auto
  have "sorted_wrt (>) (rev [0..<m])" for m :: nat by (simp add: sorted_wrt_rev)
  then show "sorted_wrt (>) (heights n)" unfolding heights_def by (rule sorted_wrt_filter)
qed

text \<open>
  The position read off a receipt's sides is exact: for every tree of 1 to 2^64 - 1 leaves, the answer is a leaf of the tree, and it is the
  leaf whose path to the root has exactly the sides the receipt ends in; a receipt that ends in no leaf's path has no position.
\<close>

theorem rootChainLeafIndex_exact:
  assumes "0 < n" and "n < 2 ^ 64"
  shows "rootChainLeafIndex es n = Some i \<longleftrightarrow> i < n \<and> (\<exists>pre. map re_right es = pre @ sides n i)"
  using peakIndex_iff [OF heights(2,3) [OF assms]] assms by (simp add: rootChainLeafIndex_def heights(1))

theorem rootChainLeafIndex_exact_witness:
  "rootChainLeafIndex [\<lparr> re_hash = [], re_right = True \<rparr>, \<lparr> re_hash = [], re_right = False \<rparr>, \<lparr> re_hash = [], re_right = False \<rparr>] 11 = Some 10"
  by (subst rootChainLeafIndex_exact) (simp_all add: sides.simps pow2_below.simps)

section \<open>The position is that of the leaf\<close>

text \<open>The honest path of a leaf, with the roots of the other sides.\<close>

function leafPath :: "(bytes \<Rightarrow> bytes) \<Rightarrow> bytes list \<Rightarrow> nat \<Rightarrow> receipt_entry list" where
  "leafPath H xs i =
     (if length xs < 2 then []
      else let k = pow2_below (length xs) in
        if i < k then leafPath H (take k xs) i @ [\<lparr> re_hash = mth H (drop k xs), re_right = True \<rparr>]
        else leafPath H (drop k xs) (i - k) @ [\<lparr> re_hash = mth H (take k xs), re_right = False \<rparr>])"
  by pat_completeness auto
termination
proof (relation "measure (\<lambda>(H, xs, i). length xs)", goal_cases)
  case (2 H xs i k)
  then show ?case using pow2_below [of "length xs"] by auto
next
  case (3 H xs i k)
  then obtain j where "k = 2 ^ j" "k < length xs" using pow2_below [of "length xs"] by auto
  moreover from this have "0 < k" by simp
  ultimately have "length xs - k < length xs" by (intro diff_less) auto
  then show ?case by simp
qed simp

declare leafPath.simps [simp del]

lemma leafPath:
  assumes "i < length xs"
  shows "map re_right (leafPath H xs i) = sides (length xs) i \<and> foldReceipt H (xs ! i) (leafPath H xs i) = mth H xs"
  using assms
proof (induction H xs i rule: leafPath.induct)
  case (1 H xs i)
  show ?case
  proof (cases "length xs < 2")
    case True
    with "1.prems" obtain x where "xs = [x]" "i = 0" by (cases xs) (auto simp: length_Suc_conv numeral_2_eq_2 less_Suc_eq)
    then show ?thesis by (simp add: leafPath.simps sides.simps)
  next
    case False
    define k where "k = pow2_below (length xs)"
    have k: "k < length xs" using pow2_below [of "length xs"] False by (auto simp: k_def)
    have p: "leafPath H xs i = (if i < k then leafPath H (take k xs) i @ [\<lparr> re_hash = mth H (drop k xs), re_right = True \<rparr>]
        else leafPath H (drop k xs) (i - k) @ [\<lparr> re_hash = mth H (take k xs), re_right = False \<rparr>])"
      and q: "sides (length xs) i = (if i < k then sides k i @ [True] else sides (length xs - k) (i - k) @ [False])"
      and r: "mth H xs = H (mth H (take k xs) @ mth H (drop k xs))"
      using False by (simp_all add: leafPath.simps [of H xs] sides.simps [of "length xs"] mth.simps [of H xs] k_def Let_def)
    show ?thesis
    proof (cases "i < k")
      case True
      with "1.IH"(1) [OF False k_def] k show ?thesis unfolding p q r by (simp add: foldReceipt_def applyEntry_def)
    next
      case i: False
      with "1.IH"(2) [OF False k_def] k "1.prems" show ?thesis unfolding p q r by (simp add: foldReceipt_def applyEntry_def)
    qed
  qed
qed

lemma foldReceipt_length: "(\<And>x. length (H x) = 32) \<Longrightarrow> length h = 32 \<Longrightarrow> length (foldReceipt H h es) = 32"
  by (induction es arbitrary: h) (simp_all add: applyEntry_stepInput)

lemma position_leaf:
  assumes "\<And>x. length (H x) = 32" and "length start = 32" and "\<forall>x \<in> set xs. length x = 32"
    and "rootChainLeafIndex es (length xs) = Some i" and "foldReceipt H start es = mth H xs"
    and "inj_on H (set (hashed H start es) \<union> (\<Union>i < length xs. set (hashed H (xs ! i) (leafPath H xs i))))"
  shows "\<exists>pre suf. es = pre @ suf \<and> foldReceipt H start pre = xs ! i"
proof -
  have n: "0 < length xs" "length xs < 2 ^ 64" using assms(4) by (auto simp: rootChainLeafIndex_def split: if_splits)
  obtain fl where i: "i < length xs" and "map re_right es = fl @ sides (length xs) i"
    using peakIndex_iff [OF heights(2,3) [OF n]] assms(4) n by (auto simp: rootChainLeafIndex_def heights(1))
  then obtain pre suf where es: "es = pre @ suf" and suf: "map re_right suf = sides (length xs) i"
    by (auto simp: map_eq_append_conv)
  have "foldReceipt H start pre = xs ! i \<and> map re_hash suf = map re_hash (leafPath H xs i)"
  proof (rule fold_binding)
    show "inj_on H (set (hashed H (foldReceipt H start pre) suf) \<union> set (hashed H (xs ! i) (leafPath H xs i)))"
      using assms(6) by (rule inj_on_subset) (use i in \<open>auto simp: es hashed_append\<close>)
    show "map re_right suf = map re_right (leafPath H xs i)" using suf leafPath [OF i] by simp
    show "foldReceipt H (foldReceipt H start pre) suf = foldReceipt H (xs ! i) (leafPath H xs i)"
      using assms(5) leafPath [OF i, of H] by (simp add: es foldReceipt_append)
  qed (use assms(1-3) i in \<open>simp_all add: foldReceipt_length\<close>)
  then show ?thesis using es by blast
qed

text \<open>
  An update inside its window is a new leaf of the root chain: if the window accepts a receipt that ends at the root of a root chain of \<open>this + 1\<close>
  leaves, the receipt passes through a leaf of that chain at a position above \<open>prev\<close> and at most \<open>this\<close>, unless the hash collides.
\<close>

theorem checkWindow_sound:
  assumes "checkWindow w account txHash es = Inr ()" and "foldReceipt H txHash es = mth H xs" and "length xs = uw_this w + 1"
    and "\<And>x. length (H x) = 32" and "length txHash = 32" and "\<forall>x \<in> set xs. length x = 32"
    and "inj_on H (set (hashed H txHash es) \<union> (\<Union>i < length xs. set (hashed H (xs ! i) (leafPath H xs i))))"
  shows "\<exists>i pre suf. uw_prev w < i \<and> i \<le> uw_this w \<and> es = pre @ suf \<and> foldReceipt H txHash pre = xs ! i"
proof -
  obtain i where "rootChainLeafIndex es (length xs) = Some i" "uw_prev w < i" "i \<le> uw_this w"
    using assms(1,3) by (auto simp: checkWindow_def Let_def split: if_splits option.splits)
  then show ?thesis using position_leaf [OF assms(4-6) _ assms(2,7)] by blast
qed

theorem checkWindow_sound_witness:
  "\<exists>i pre suf. 0 < i \<and> i \<le> 1 \<and> [\<lparr> re_hash = replicate 32 1, re_right = False \<rparr>] = pre @ suf \<and>
     foldReceipt (\<lambda>x. replicate 32 9) (replicate 32 2) pre = [replicate 32 1, replicate 32 2 :: bytes] ! i"
proof -
  let ?H = "\<lambda>x :: bytes. replicate 32 (9 :: byte)"
  let ?es = "[\<lparr> re_hash = replicate 32 1, re_right = False \<rparr>] :: receipt_entry list"
  let ?xs = "[replicate 32 1, replicate 32 2] :: bytes list"
  let ?w = "\<lparr> uw_prev = 0, uw_prevKnown = True, uw_this = 1, uw_block = 5 \<rparr>"
  have paths: "leafPath ?H ?xs 0 = [\<lparr> re_hash = replicate 32 2, re_right = True \<rparr>]" "leafPath ?H ?xs (Suc 0) = ?es"
    by (simp_all add: leafPath.simps pow2_below.simps)
  have w: "checkWindow ?w ''acc://dn.acme/network'' (replicate 32 2) ?es = Inr ()" by code_simp
  have "{..<length ?xs} = {0, 1}" by auto
  then have "inj_on ?H (set (hashed ?H (replicate 32 2) ?es) \<union> (\<Union>i < length ?xs. set (hashed ?H (?xs ! i) (leafPath ?H ?xs i))))"
    by (simp add: paths stepInput_def)
  from checkWindow_sound [OF w _ _ _ _ _ this] show ?thesis by (simp add: mth.simps pow2_below.simps applyEntry_def)
qed

end
