(* ===== verification/Shapes.thy ===== *)
theory Shapes
  imports RootIndex Text
begin

text \<open>
  The readers of a portable document (\<open>packages/verify/src/proof-v2/shapes.ts\<close>): the only place its JSON becomes typed values. A refusal says what
  was wrong, not where. Heights are the uint64 values the document carries; their nearest doubles, which the code keeps beside them for the report,
  are not modelled.
\<close>

datatype spine_error =
    Reader verify_error
  | Certify certify_state
  | Refused string
  | QuorumNotMet nat nat

section \<open>Values\<close>

fun isRec :: "json \<Rightarrow> bool" where
  "isRec (JObj _) = True"
| "isRec _ = False"

definition readRec :: "json \<Rightarrow> spine_error + json" where
  "readRec v = (if isRec v then Inr v else Inl (Refused ''not an object''))"

fun readList :: "json \<Rightarrow> spine_error + json list" where
  "readList (JArr vs) = Inr vs"
| "readList _ = Inl (Refused ''not a list'')"

definition optList :: "json \<Rightarrow> spine_error + json list" where
  "optList v = (if nullish v then Inr [] else readList v)"

fun readStr :: "json \<Rightarrow> spine_error + string" where
  "readStr (JStr s) = Inr s"
| "readStr _ = Inl (Refused ''missing or not a string'')"

fun readUint :: "json \<Rightarrow> spine_error + nat" where
  "readUint (JInt n) = (if 0 \<le> n \<and> n \<le> 2 ^ 53 - 1 then Inr (nat n) else Inl (Refused ''missing or not a whole non-negative number''))"
| "readUint _ = Inl (Refused ''missing or not a whole non-negative number'')"

definition optUint :: "json \<Rightarrow> spine_error + nat" where
  "optUint v = (if nullish v then Inr 0 else readUint v)"

fun exactUint :: "json \<Rightarrow> string \<Rightarrow> nat option" where
  "exactUint v name = (case member (Exact name) v of JInt n \<Rightarrow> Some (nat n) | _ \<Rightarrow> None)"

definition uintExact :: "json \<Rightarrow> string \<Rightarrow> bool \<Rightarrow> spine_error + nat" where
  "uintExact v name opt =
     (case exactUint v name of
        Some n \<Rightarrow> Inr n
      | None \<Rightarrow> if opt \<and> nullish (member (Key name) v) then Inr 0 else readUint (member (Key name) v))"

definition hex32 :: "json \<Rightarrow> spine_error + bytes" where
  "hex32 v = mapErr Reader (hexBytes v (Some 32))"

section \<open>Anchors\<close>

record anchor_message =
  am_json :: json
  am_source :: string
  am_destination :: string
  am_principal :: string
  am_body :: json
  am_bodyType :: string

definition anchorMessage :: "json \<Rightarrow> spine_error + anchor_message" where
  "anchorMessage v =
     bindE (readRec v) (\<lambda>j.
     guardE (member (Key ''type'') j \<noteq> JStr ''sequenced'') (Refused ''not a sequenced message'') (
     bindE (readRec (member (Key ''message'') j)) (\<lambda>m.
     guardE (member (Key ''type'') m \<noteq> JStr ''transaction'') (Refused ''anchor is not a transaction'') (
     bindE (readRec (member (Key ''transaction'') m)) (\<lambda>tx.
     bindE (readRec (member (Key ''body'') tx)) (\<lambda>body.
     bindE (readRec (member (Key ''header'') tx)) (\<lambda>header.
     bindE (readStr (member (Key ''source'') j)) (\<lambda>source.
     bindE (readStr (member (Key ''destination'') j)) (\<lambda>destination.
     bindE (readStr (member (Key ''principal'') header)) (\<lambda>prin.
     bindE (readStr (member (Key ''type'') body)) (\<lambda>bodyType.
       Inr \<lparr>am_json = j, am_source = source, am_destination = destination, am_principal = prin, am_body = body,
            am_bodyType = bodyType\<rparr>)))))))))))"

record anchor_body =
  ab_minorBlock :: nat
  ab_rootChain :: nat
  ab_rootChainAnchor :: bytes
  ab_stateTreeAnchor :: bytes
  ab_source :: string

definition anchorBody :: "json \<Rightarrow> spine_error + anchor_body" where
  "anchorBody body =
     bindE (uintExact body ''minorBlockIndex'' False) (\<lambda>minorBlock.
     bindE (uintExact body ''rootChainIndex'' True) (\<lambda>rootChain.
     bindE (hex32 (member (Key ''rootChainAnchor'') body)) (\<lambda>root.
     bindE (hex32 (member (Key ''stateTreeAnchor'') body)) (\<lambda>state.
       Inr \<lparr>ab_minorBlock = minorBlock, ab_rootChain = rootChain, ab_rootChainAnchor = root, ab_stateTreeAnchor = state,
            ab_source = (case member (Key ''source'') body of JStr s \<Rightarrow> s | _ \<Rightarrow> [])\<rparr>))))"

section \<open>Signatures and network updates\<close>

definition readSignatures :: "json \<Rightarrow> spine_error + json list" where
  "readSignatures v = bindE (optList v) (mapE readRec)"

record network_update =
  nu_transaction :: "json option"
  nu_receipt :: "json option"

definition truthyRec :: "json \<Rightarrow> spine_error + json option" where
  "truthyRec v = (if falsy v then Inr None else bindE (readRec v) (\<lambda>r. Inr (Some r)))"

definition networkUpdate :: "json \<Rightarrow> spine_error + network_update" where
  "networkUpdate u =
     bindE (readRec u) (\<lambda>r.
     bindE (truthyRec (member (Key ''transaction'') r)) (\<lambda>t.
     bindE (truthyRec (member (Key ''receipt'') r)) (\<lambda>c.
       Inr \<lparr>nu_transaction = t, nu_receipt = c\<rparr>)))"

definition readUpdates :: "json \<Rightarrow> spine_error + network_update list" where
  "readUpdates v = bindE (optList v) (mapE networkUpdate)"

section \<open>Records of the spine\<close>

text \<open>The parts every record has: its anchor, the signatures over it and the updates it carries.\<close>

record spine_record =
  sr_anchor :: anchor_message
  sr_signatures :: "json list"
  sr_updates :: "network_update list"

definition recordParts :: "json \<Rightarrow> spine_error + spine_record" where
  "recordParts r =
     bindE (anchorMessage (member (Key ''anchor'') r)) (\<lambda>a.
     bindE (readSignatures (member (Key ''signatures'') r)) (\<lambda>sigs.
     bindE (readUpdates (member (Key ''updates'') r)) (\<lambda>us.
       Inr \<lparr>sr_anchor = a, sr_signatures = sigs, sr_updates = us\<rparr>)))"

text \<open>\<open>majorRecord\<close> also gives the record's index and the block its index entry is for; \<open>minorRootRecord\<close> its root proof.\<close>

definition majorRecord :: "json \<Rightarrow> spine_error + nat \<times> nat \<times> spine_record" where
  "majorRecord r =
     (if \<not> isObject r \<or> falsy (member (Key ''entry'') r) \<or> falsy (member (Key ''anchor'') r)
      then Inl (Refused ''incomplete major header record'')
      else
        bindE (readUint (member (Key ''index'') r)) (\<lambda>i.
        bindE (readRec (member (Key ''entry'') r)) (\<lambda>e.
        bindE (readUint (member (Key ''blockIndex'') e)) (\<lambda>b.
        bindE (recordParts r) (\<lambda>p. Inr (i, b, p))))))"

definition minorRootRecord :: "json \<Rightarrow> spine_error + json \<times> spine_record" where
  "minorRootRecord r =
     (if \<not> isObject r \<or> falsy (member (Key ''anchor'') r) \<or> falsy (member (Key ''rootProof'') r)
      then Inl (Refused ''incomplete minor root record'')
      else bindE (recordParts r) (\<lambda>p. Inr (member (Key ''rootProof'') r, p)))"

text \<open>\<open>anchoredRecord\<close> (of \<open>spine.ts\<close>): an anchor and no root proof.\<close>

definition anchoredRecord :: "json \<Rightarrow> spine_error + spine_record" where
  "anchoredRecord r =
     (if \<not> isObject r \<or> falsy (member (Key ''anchor'') r) then Inl (Refused ''incomplete minor root record'')
      else if \<not> falsy (member (Key ''rootProof'') r) then Inl (Refused ''an anchored record carries no root proof'')
      else recordParts r)"

section \<open>The network and globals values\<close>

text \<open>As the SDK renders them (\<open>NetworkJSON\<close>, \<open>ValidatorJSON\<close>, \<open>GlobalsJSON\<close>); the numbers are read when they are used.\<close>

record partition_json =
  pj_id :: "string option"
  pj_active :: bool

record validator_json =
  vj_publicKey :: "string option"
  vj_publicKeyHash :: "string option"
  vj_partitions :: "partition_json list option"

record network_json =
  nj_version :: json
  nj_validators :: "validator_json list option"

record globals_json =
  gj_numerator :: json
  gj_denominator :: json

end
