(* ===== verification/Doubles.thy ===== *)
theory Doubles
  imports Prelude
begin

text \<open>
  The JavaScript numbers the verifier computes with beyond whole numbers: the double nearest to a product of naturals and to a quotient, as
  IEEE 754 rounds them (53 significant bits, ties to even), and \<open>Math.ceil\<close> of a quotient.
\<close>

definition MAX_SAFE_INTEGER :: nat where "MAX_SAFE_INTEGER = 2 ^ 53 - 1"

text \<open>\<open>bits n\<close> is the number of binary digits of \<open>n\<close>; \<open>roundNE p d\<close> is the whole number nearest to \<open>p / d\<close>, the even one on a tie.\<close>

fun bits :: "nat \<Rightarrow> nat" where
  "bits n = (if n = 0 then 0 else Suc (bits (n div 2)))"

declare bits.simps [simp del]

definition roundNE :: "nat \<Rightarrow> nat \<Rightarrow> nat" where
  "roundNE p d = (let q = p div d; r = p mod d in if 2 * r < d \<or> 2 * r = d \<and> even q then q else q + 1)"

definition dblNat :: "nat \<Rightarrow> nat" where
  "dblNat n = (let k = bits n in if k \<le> 53 then n else roundNE n (2 ^ (k - 53)) * 2 ^ (k - 53))"

definition ceilDiv :: "nat \<Rightarrow> nat \<Rightarrow> nat" where
  "ceilDiv p d = (p + d - 1) div d"

text \<open>\<open>Math.ceil(p / d)\<close> of two doubles that are whole numbers, \<open>d\<close> not zero. A quotient below one rounds to a double in (0, 1] unless it is zero.\<close>

definition ceilQuot :: "nat \<Rightarrow> nat \<Rightarrow> nat" where
  "ceilQuot p d =
     (if p = 0 then 0
      else if p < d then 1
      else let k = bits (p div d) in
        if k \<le> 53 then ceilDiv (roundNE (p * 2 ^ (53 - k)) d) (2 ^ (53 - k))
        else roundNE p (d * 2 ^ (k - 53)) * 2 ^ (k - 53))"

lemma bits_bounds: "n < 2 ^ bits n \<and> (0 < n \<longrightarrow> 2 ^ (bits n - 1) \<le> n)"
proof (induction n rule: bits.induct)
  case (1 n)
  show ?case
  proof (cases "n = 0")
    case False
    then have IH: "n div 2 < 2 ^ bits (n div 2)" "0 < n div 2 \<Longrightarrow> 2 ^ (bits (n div 2) - 1) \<le> n div 2" using 1 by auto
    have b: "bits n = Suc (bits (n div 2))" using False by (subst bits.simps) simp
    have "2 ^ (bits n - 1) \<le> n"
    proof (cases "n div 2 = 0")
      case True
      then have "bits (n div 2) = 0" by (subst bits.simps) simp
      then show ?thesis using b False by simp
    next
      case d: False
      then have "bits (n div 2) \<noteq> 0" by (subst bits.simps) simp
      then have "(2::nat) ^ (bits n - 1) = 2 * 2 ^ (bits (n div 2) - 1)" using b by (cases "bits (n div 2)") simp_all
      then show ?thesis using IH(2) d by simp
    qed
    moreover have "n < 2 ^ bits n" using IH(1) b by simp
    ultimately show ?thesis by blast
  qed (simp add: bits.simps)
qed

lemma bits_le: "n < 2 ^ k \<Longrightarrow> bits n \<le> k"
proof (rule ccontr)
  assume n: "n < 2 ^ k" "\<not> bits n \<le> k"
  then have "0 < n" by (cases n) (simp_all add: bits.simps)
  then have "2 ^ (bits n - 1) \<le> n" using bits_bounds [of n] by simp
  moreover have "(2::nat) ^ k \<le> 2 ^ (bits n - 1)" using n(2) by (intro power_increasing) auto
  ultimately show False using n(1) by linarith
qed

lemma dblNat_small: "n < 2 ^ 53 \<Longrightarrow> dblNat n = n"
  using bits_le [of n 53] by (simp add: dblNat_def)

lemma ceilDiv_unique: "0 < d \<Longrightarrow> c * d < p + d \<Longrightarrow> p \<le> c * d \<Longrightarrow> ceilDiv p d = c"
  unfolding ceilDiv_def by (rule div_nat_eqI) (auto simp: algebra_simps)

lemma ceilDiv_bounds: "0 < d \<Longrightarrow> p \<le> ceilDiv p d * d \<and> ceilDiv p d * d < p + d"
proof -
  assume d: "0 < d"
  have "(p + d - 1) div d * d + (p + d - 1) mod d = p + d - 1" by (rule div_mult_mod_eq)
  moreover have "(p + d - 1) mod d < d" using d by simp
  ultimately show ?thesis using d unfolding ceilDiv_def by linarith
qed

lemma ceilDiv_le: "0 < d \<Longrightarrow> ceilDiv p d \<le> c \<longleftrightarrow> p \<le> c * d"
proof -
  assume d: "0 < d"
  note b = ceilDiv_bounds [OF d, of p]
  show ?thesis
  proof
    assume "ceilDiv p d \<le> c"
    then have "ceilDiv p d * d \<le> c * d" by simp
    with b show "p \<le> c * d" by linarith
  next
    assume "p \<le> c * d"
    with b have "ceilDiv p d * d < Suc c * d" by simp
    then show "ceilDiv p d \<le> c" using d by (simp only: mult_less_cancel2) simp
  qed
qed

lemma roundNE_le: "0 < d \<Longrightarrow> p \<le> c * d \<Longrightarrow> roundNE p d \<le> c"
proof -
  assume d: "0 < d" and p: "p \<le> c * d"
  have e: "p div d * d + p mod d = p" by (rule div_mult_mod_eq)
  show ?thesis
  proof (cases "p mod d = 0")
    case True
    with e p d show ?thesis by (simp add: roundNE_def Let_def) (metis mult_le_cancel2)
  next
    case False
    with e p have "p div d * d < c * d" by linarith
    then have "p div d < c" by simp
    then show ?thesis by (simp add: roundNE_def Let_def)
  qed
qed

lemma roundNE_gt: "0 < d \<Longrightarrow> 2 * (c * d) + d < 2 * p \<Longrightarrow> c < roundNE p d"
proof -
  assume d: "0 < d" and p: "2 * (c * d) + d < 2 * p"
  have e: "p div d * d + p mod d = p" by (rule div_mult_mod_eq)
  have "c * d \<le> p" using p by linarith
  then have "c \<le> p div d" using d by (simp add: less_eq_div_iff_mult_less_eq)
  then consider "c < p div d" | "p div d = c" by linarith
  then show ?thesis
  proof cases
    case 2
    with e p have "d < 2 * (p mod d)" by auto
    with 2 show ?thesis by (simp add: roundNE_def Let_def)
  qed (simp add: roundNE_def Let_def)
qed

text \<open>Below 2^53 the rounding of the quotient never moves its ceiling.\<close>

lemma ceilQuot_exact:
  assumes "p < 2 ^ 53" and d: "0 < d"
  shows "ceilQuot p d = ceilDiv p d"
proof (cases "p < d")
  case True
  have "ceilDiv p d = (if p = 0 then 0 else 1)" using True d by (intro ceilDiv_unique) auto
  with True show ?thesis by (simp add: ceilQuot_def)
next
  case False
  define k where "k = bits (p div d)"
  define e where "e = (2::nat) ^ (53 - k)"
  define c where "c = ceilDiv p d"
  have "p div d \<le> p" by simp
  then have "p div d < 2 ^ 53" using assms(1) by linarith
  then have k: "k \<le> 53" unfolding k_def by (rule bits_le)
  have q: "0 < p div d" using False d by (simp add: div_greater_zero_iff)
  have e: "0 < e" by (simp add: e_def)
  have c: "p \<le> c * d" "c * d < p + d" using ceilDiv_bounds [OF d, of p] by (simp_all add: c_def)
  have "roundNE (p * e) d \<le> c * e" using c(1) d by (intro roundNE_le) (simp_all add: ac_simps)
  moreover have "c * e < roundNE (p * e) d + e"
  proof -
    obtain m where m: "c = Suc m" using c(1) False d by (cases c) auto
    with c(2) have "m * d < p" by simp
    have "2 ^ (k - 1) \<le> p div d" using bits_bounds [of "p div d"] q by (simp add: k_def)
    then have "2 ^ (k - 1) * d \<le> p" using d by (simp add: less_eq_div_iff_mult_less_eq)
    then have "2 ^ (k - 1) * d < 2 ^ 53" using assms(1) by linarith
    moreover have "0 < k" using q by (cases "p div d") (simp_all add: k_def bits.simps)
    then have "(2::nat) ^ 53 = 2 ^ (k - 1) * (2 * e)" using k by (simp add: e_def flip: power_add power_Suc)
    ultimately have "d < 2 * e" by (metis mult_less_cancel1)
    moreover have "(m * d + 1) * e \<le> p * e" using \<open>m * d < p\<close> by (intro mult_le_mono1) simp
    ultimately have "2 * (m * e * d) + d < 2 * (p * e)" by (simp add: algebra_simps)
    then have "m * e < roundNE (p * e) d" using d by (intro roundNE_gt) (simp_all add: ac_simps)
    then show ?thesis by (simp add: m)
  qed
  ultimately have "ceilDiv (roundNE (p * e) d) e = c" using e by (intro ceilDiv_unique) auto
  moreover have "p \<noteq> 0" using False d by auto
  ultimately show ?thesis using False k q unfolding c_def by (simp add: ceilQuot_def Let_def e_def k_def)
qed

end
