(* ===== verification/Spine.thy ===== *)
theory Spine
  imports Shapes Doubles
begin

text \<open>
  The Directory's validator-set spine (\<open>packages/verify/src/proof-v2/spine.ts\<close>): the set of validators tracked by induction from the genesis
  values, each anchor verified against it, and the network updates a record carries proven into the anchor's root before they change the set.

  The environment holds what the spine calls outside itself: SHA-256, the signature check, the hash of a decoded message or transaction, the SDK's
  acceptance of a transaction, and the decoders of the two records.
\<close>

section \<open>State\<close>

record spine_env =
  en_sha :: "bytes \<Rightarrow> bytes"
  en_sequencedHashOf :: "json \<Rightarrow> bytes option"
  en_verifySignature :: "json \<Rightarrow> bytes \<Rightarrow> spine_error + bool"
  en_transaction :: "json \<Rightarrow> spine_error + unit"
  en_transactionHashOfJson :: "json \<Rightarrow> spine_error + bytes"
  en_decodeNetworkDefinition :: "bytes \<Rightarrow> spine_error + network_json"
  en_decodeNetworkGlobals :: "bytes \<Rightarrow> spine_error + globals_json"

record spine_globals =
  sg_network :: network_json
  sg_networkRecord :: bytes
  sg_globals :: globals_json
  sg_globalsRecord :: bytes

record partition =
  pt_id :: string
  pt_active :: bool

record validator =
  va_publicKey :: string
  va_publicKeyHash :: string
  va_partitions :: "partition list"

record applied =
  ap_principal :: string
  ap_txHash :: bytes
  ap_anchorMinorBlock :: nat

record spine =
  sp_g :: spine_globals
  sp_nextMajor :: nat
  sp_lastBlock :: nat
  sp_rootChainAnchor :: bytes
  sp_stateTreeAnchor :: bytes
  sp_applied :: "applied list"
  sp_refuseReplay :: bool
  sp_rootChain :: nat
  sp_rciKnown :: bool

definition newSpine :: "spine_globals \<Rightarrow> nat \<Rightarrow> spine_error + spine" where
  "newSpine g nxt =
     (if nxt = 0 then Inl (Refused ''major blocks are 1-based'')
      else Inr \<lparr>sp_g = g, sp_nextMajor = nxt, sp_lastBlock = 0, sp_rootChainAnchor = replicate 32 0, sp_stateTreeAnchor = replicate 32 0,
                sp_applied = [], sp_refuseReplay = False, sp_rootChain = 0, sp_rciKnown = True\<rparr>)"

section \<open>URLs\<close>

text \<open>\<open>toLowerCase\<close> maps the Kelvin sign U+212A to \<open>k\<close>; it is the only other character it maps to an ASCII letter alone.\<close>

fun kelvin :: "string \<Rightarrow> string" where
  "kelvin (a # b # c # s) =
     (if (of_char a :: nat) = 0xE2 \<and> (of_char b :: nat) = 0x84 \<and> (of_char c :: nat) = 0xAA then CHR ''k'' # kelvin s else a # kelvin (b # c # s))"
| "kelvin s = s"

definition lowered :: "string \<Rightarrow> string" where
  "lowered s = map lowerChar (kelvin s)"

definition sameUrl :: "string \<Rightarrow> string \<Rightarrow> bool" where
  "sameUrl a b = (lowered a = lowered b)"

definition DN :: string where "DN = ''acc://dn.acme''"
definition DN_ANCHORS :: string where "DN_ANCHORS = ''acc://dn.acme/anchors''"
definition DN_NETWORK :: string where "DN_NETWORK = ''acc://dn.acme/network''"
definition DN_GLOBALS :: string where "DN_GLOBALS = ''acc://dn.acme/globals''"

section \<open>Validators and the threshold\<close>

definition orEmpty :: "string option \<Rightarrow> string" where
  "orEmpty s = (case s of None \<Rightarrow> [] | Some t \<Rightarrow> t)"

definition validatorOf :: "validator_json \<Rightarrow> validator" where
  "validatorOf v =
     \<lparr>va_publicKey = lowered (orEmpty (vj_publicKey v)), va_publicKeyHash = lowered (orEmpty (vj_publicKeyHash v)),
      va_partitions = (case vj_partitions v of None \<Rightarrow> [] | Some ps \<Rightarrow> map (\<lambda>p. \<lparr>pt_id = orEmpty (pj_id p), pt_active = pj_active p\<rparr>) ps)\<rparr>"

definition validatorsOf :: "spine_globals \<Rightarrow> validator list" where
  "validatorsOf g = (case nj_validators (sg_network g) of None \<Rightarrow> [] | Some vs \<Rightarrow> map validatorOf vs)"

definition activeOnDirectory :: "validator \<Rightarrow> bool" where
  "activeOnDirectory v = list_ex (\<lambda>p. pt_active p \<and> lowered (pt_id p) = ''directory'') (va_partitions v)"

definition directoryThresholdOf :: "spine_globals \<Rightarrow> spine_error + nat" where
  "directoryThresholdOf g =
     (let active = length (filter activeOnDirectory (validatorsOf g)) in
      bindE (optUint (gj_numerator (sg_globals g))) (\<lambda>num.
      bindE (optUint (gj_denominator (sg_globals g))) (\<lambda>den.
        Inr (if active = 0 \<or> den = 0 then MAX_SAFE_INTEGER else ceilQuot (dblNat (active * num)) den))))"

text \<open>\<open>verifyQuorum\<close>: a signature the check accepts carries its key as a hex string (\<open>verifySignature\<close> reads it so); the key found is the
  first active validator's. Two validators with one key hash count once.\<close>

definition signerOf :: "spine_globals \<Rightarrow> json \<Rightarrow> validator option" where
  "signerOf g sig =
     (case member (Key ''publicKey'') sig of
        JStr k \<Rightarrow> find (\<lambda>v. va_publicKey v = lowered k \<and> activeOnDirectory v) (validatorsOf g)
      | _ \<Rightarrow> None)"

fun signers :: "spine_env \<Rightarrow> spine_globals \<Rightarrow> bytes \<Rightarrow> json list \<Rightarrow> string set \<Rightarrow> spine_error + string set" where
  "signers env g h [] seen = Inr seen"
| "signers env g h (sig # sigs) seen =
     bindE (en_verifySignature env sig h) (\<lambda>ok.
     guardE (\<not> ok) (Refused ''invalid signature'') (
     case signerOf g sig of
       None \<Rightarrow> Inl (Refused ''signer is not an active directory validator'')
     | Some v \<Rightarrow> signers env g h sigs (insert (va_publicKeyHash v) seen)))"

definition verifyQuorum :: "spine_env \<Rightarrow> spine_globals \<Rightarrow> bytes \<Rightarrow> json list \<Rightarrow> spine_error + unit" where
  "verifyQuorum env g h sigs =
     bindE (signers env g h sigs {}) (\<lambda>seen.
     bindE (directoryThresholdOf g) (\<lambda>threshold.
       if card seen < threshold then Inl (QuorumNotMet (card seen) threshold) else Inr ()))"

section \<open>Directory self-anchors\<close>

definition directorySelfAnchor :: "spine_env \<Rightarrow> anchor_message \<Rightarrow> spine_error + bytes \<times> anchor_body" where
  "directorySelfAnchor env m =
     (if am_bodyType m \<noteq> ''directoryAnchor'' then Inl (Refused ''not a directory anchor'')
      else if \<not> sameUrl (am_source m) DN \<or> \<not> sameUrl (am_destination m) DN \<or> \<not> sameUrl (am_principal m) DN_ANCHORS
      then Inl (Refused ''anchor is not a directory self-anchor'')
      else case en_sequencedHashOf env (am_json m) of
             None \<Rightarrow> Inl (Refused ''the hash of the anchor message is not established'')
           | Some h \<Rightarrow> bindE (anchorBody (am_body m)) (\<lambda>b. Inr (h, b)))"

definition selfAnchorBlock :: "spine_env \<Rightarrow> json \<Rightarrow> nat option" where
  "selfAnchorBlock env m =
     (if \<not> isObject m then None
      else case bindE (anchorMessage m) (directorySelfAnchor env) of Inl _ \<Rightarrow> None | Inr (h, b) \<Rightarrow> Some (ab_minorBlock b))"

section \<open>Network updates\<close>

text \<open>What an update leaves: the values, the write when it is one to a tracked account, and the principal and hash the window is judged by.\<close>

record update_result =
  ur_g :: spine_globals
  ur_applied :: "(string \<times> bytes) option"
  ur_principal :: string
  ur_txHash :: bytes

definition orObject :: "json \<Rightarrow> json" where
  "orObject v = (if nullish v then JObj [] else v)"

definition principalOf :: "json \<Rightarrow> spine_error + string" where
  "principalOf ut = bindE (readRec (orObject (member (Key ''header'') ut))) (\<lambda>h. readStr (member (Key ''principal'') h))"

definition entryRecord :: "json \<Rightarrow> spine_error + bytes" where
  "entryRecord body =
     (let entry = member (Key ''entry'') body in
      case (if isObject entry then member (Key ''data'') entry else JUndefined) of
        JArr [d] \<Rightarrow> mapErr Reader (hexBytes d None)
      | _ \<Rightarrow> Inl (Refused ''want 1 record''))"

text \<open>The write itself: the globals replaced, or the definition when its version is above the tracked one.\<close>

definition applyWrite :: "spine_env \<Rightarrow> spine_globals \<Rightarrow> bool \<Rightarrow> bytes \<Rightarrow> spine_error + spine_globals" where
  "applyWrite env g toGlobals rec =
     (if toGlobals then
        bindE (en_decodeNetworkGlobals env rec) (\<lambda>obj. Inr (g\<lparr>sg_globals := obj, sg_globalsRecord := rec\<rparr>))
      else
        bindE (en_decodeNetworkDefinition env rec) (\<lambda>def.
        bindE (optUint (nj_version def)) (\<lambda>nxt.
        bindE (optUint (nj_version (sg_network g))) (\<lambda>current.
          Inr (if nxt \<le> current then g else g\<lparr>sg_network := def, sg_networkRecord := rec\<rparr>)))))"

definition applyProvenUpdate :: "spine_env \<Rightarrow> spine_globals \<Rightarrow> network_update \<Rightarrow> bytes \<Rightarrow> bool \<Rightarrow> spine_error + update_result" where
  "applyProvenUpdate env g u root window =
     (case (nu_transaction u, nu_receipt u) of
        (Some ut, Some rj) \<Rightarrow>
          bindE (if window then principalOf ut else Inr []) (\<lambda>early.
          bindE (en_transaction env ut) (\<lambda>_.
          bindE (en_transactionHashOfJson env ut) (\<lambda>h.
          bindE (mapErr Reader (receiptFromJSON rj)) (\<lambda>r.
          guardE (rc_start r \<noteq> h) (Refused ''network update receipt does not start at the transaction'') (
          guardE (rc_anchor r \<noteq> root) (Refused ''network update receipt does not end at the root of the anchor'') (
          guardE (\<not> receiptValid (en_sha env) r) (Refused ''invalid network update receipt'') (
          bindE (readRec (orObject (member (Key ''body'') ut))) (\<lambda>body.
          if member (Key ''type'') body \<noteq> JStr ''writeData'' then
            Inr \<lparr>ur_g = g, ur_applied = None, ur_principal = early, ur_txHash = h\<rparr>
          else
            bindE (if window then Inr early else principalOf ut) (\<lambda>prin.
            if \<not> sameUrl prin DN_NETWORK \<and> \<not> sameUrl prin DN_GLOBALS then
              Inr \<lparr>ur_g = g, ur_applied = None, ur_principal = prin, ur_txHash = h\<rparr>
            else
              bindE (entryRecord body) (\<lambda>rec.
              bindE (applyWrite env g (sameUrl prin DN_GLOBALS) rec) (\<lambda>g'.
                Inr \<lparr>ur_g = g', ur_applied = Some (prin, h), ur_principal = prin, ur_txHash = h\<rparr>)))))))))))
      | _ \<Rightarrow> Inl (Refused ''incomplete network update proof''))"

definition hasUpdate :: "applied list \<Rightarrow> bytes \<Rightarrow> bool" where
  "hasUpdate as h = list_ex (\<lambda>a. ap_txHash a = h) as"

text \<open>The updates of a record, applied in order to a candidate copy of the values. Under the 2.1 rules (\<open>refuseReplay\<close>) an update already applied is
  refused and every update must lie in the window. The receipt is read a second time for its entries, as the code does.\<close>

fun applyUpdates ::
  "spine_env \<Rightarrow> applied list \<Rightarrow> anchor_body \<Rightarrow> update_window option \<Rightarrow> network_update list \<Rightarrow> spine_globals \<Rightarrow> applied list
    \<Rightarrow> spine_error + spine_globals \<times> applied list" where
  "applyUpdates env old body win [] g acc = Inr (g, acc)"
| "applyUpdates env old body win (u # us) g acc =
     bindE (applyProvenUpdate env g u (ab_rootChainAnchor body) (win \<noteq> None)) (\<lambda>r.
     bindE (case ur_applied r of
              None \<Rightarrow> Inr acc
            | Some (prin, h) \<Rightarrow>
                if win \<noteq> None \<and> (hasUpdate old h \<or> hasUpdate acc h) then Inl (Certify (UpdateReplayed h))
                else Inr (acc @ [\<lparr>ap_principal = prin, ap_txHash = h, ap_anchorMinorBlock = ab_minorBlock body\<rparr>])) (\<lambda>acc'.
     bindE (case win of
              None \<Rightarrow> Inr ()
            | Some w \<Rightarrow>
                bindE (mapErr Reader (receiptFromJSON (case nu_receipt u of Some j \<Rightarrow> j | None \<Rightarrow> JUndefined))) (\<lambda>rc.
                  mapErr Certify (checkWindow w (ur_principal r) (ur_txHash r) (rc_entries rc)))) (\<lambda>_.
       applyUpdates env old body win us (ur_g r) acc')))"

section \<open>Advancing\<close>

definition windowOf :: "spine \<Rightarrow> anchor_body \<Rightarrow> update_window" where
  "windowOf s body = \<lparr>uw_prev = sp_rootChain s, uw_prevKnown = sp_rciKnown s, uw_this = ab_rootChain body, uw_block = ab_minorBlock body\<rparr>"

text \<open>The quorum is that of the candidate values, or of the values in force before the updates when the record carries any.\<close>

definition checkQuorums :: "spine_env \<Rightarrow> spine_globals \<Rightarrow> spine_globals \<Rightarrow> bytes \<Rightarrow> json list \<Rightarrow> bool \<Rightarrow> spine_error + unit" where
  "checkQuorums env candidate g h sigs updates =
     (case verifyQuorum env candidate h sigs of
        Inr _ \<Rightarrow> Inr ()
      | Inl e \<Rightarrow> if \<not> updates then Inl e else verifyQuorum env g h sigs)"

definition verifyAndCommit ::
  "spine_env \<Rightarrow> spine \<Rightarrow> anchor_body \<Rightarrow> bytes \<Rightarrow> json list \<Rightarrow> network_update list \<Rightarrow> bool \<Rightarrow> spine_error + spine" where
  "verifyAndCommit env s body h sigs us refuseReplay =
     bindE (applyUpdates env (sp_applied s) body (if refuseReplay then Some (windowOf s body) else None) us (sp_g s) []) (\<lambda>(candidate, as).
     bindE (checkQuorums env candidate (sp_g s) h sigs (us \<noteq> [])) (\<lambda>_.
       if ab_minorBlock body > MAX_SAFE_INTEGER \<or> ab_rootChain body > MAX_SAFE_INTEGER
       then Inl (Refused ''the signed anchor names a height above 2^53 - 1, which a report cannot state'')
       else Inr (s\<lparr>sp_g := candidate, sp_lastBlock := ab_minorBlock body, sp_rootChainAnchor := ab_rootChainAnchor body,
                  sp_stateTreeAnchor := ab_stateTreeAnchor body, sp_rootChain := ab_rootChain body, sp_rciKnown := True,
                  sp_applied := sp_applied s @ as\<rparr>)))"

text \<open>The anchor of a record: a Directory self-anchor of a later minor block.\<close>

definition laterAnchor :: "spine_env \<Rightarrow> spine \<Rightarrow> anchor_message \<Rightarrow> spine_error + bytes \<times> anchor_body" where
  "laterAnchor env s m =
     bindE (directorySelfAnchor env m) (\<lambda>(h, body).
       if ab_minorBlock body \<le> sp_lastBlock s then Inl (Refused ''anchor does not advance'') else Inr (h, body))"

definition advance :: "spine_env \<Rightarrow> spine \<Rightarrow> json \<Rightarrow> spine_error + spine" where
  "advance env s rec =
     bindE (majorRecord rec) (\<lambda>(i, b, r).
     guardE (i \<noteq> sp_nextMajor s) (Refused ''unexpected major block'') (
     guardE (b \<noteq> i) (Refused ''index entry is for another major block'') (
     bindE (laterAnchor env s (sr_anchor r)) (\<lambda>(h, body).
     bindE (verifyAndCommit env s body h (sr_signatures r) (sr_updates r) (sp_refuseReplay s)) (\<lambda>s'.
       Inr (s'\<lparr>sp_nextMajor := sp_nextMajor s' + 1\<rparr>))))))"

definition advanceEpoch :: "spine_env \<Rightarrow> spine \<Rightarrow> json \<Rightarrow> spine_error + spine" where
  "advanceEpoch env s rec =
     (if isObject rec \<and> \<not> falsy (member UNDECODABLE rec) then Inl (Refused ''fields are out of order'')
      else
        bindE (minorRootRecord rec) (\<lambda>(proof, r).
        bindE (laterAnchor env s (sr_anchor r)) (\<lambda>(h, body).
        if sp_refuseReplay s then
          bindE (mapErr Reader (receiptListParts (en_sha env) proof)) (\<lambda>p.
          guardE (lp_start p \<noteq> sp_rootChainAnchor s) (Refused ''root proof does not start at the verified root'') (
          guardE (lp_anchor p \<noteq> ab_rootChainAnchor body) (Refused ''root proof does not end at the root of the anchor'') (
          bindE (mapErr Reader (lp_validate p)) (\<lambda>_.
            verifyAndCommit env s body h (sr_signatures r) (sr_updates r) True))))
        else
          bindE (mapErr Reader (receiptListValid (en_sha env) proof)) (\<lambda>(start, anc, _).
          guardE (start \<noteq> sp_rootChainAnchor s) (Refused ''root proof does not start at the verified root'') (
          guardE (anc \<noteq> ab_rootChainAnchor body) (Refused ''root proof does not end at the root of the anchor'') (
            verifyAndCommit env s body h (sr_signatures r) (sr_updates r) False))))))"

definition advanceAnchored :: "spine_env \<Rightarrow> spine \<Rightarrow> json \<Rightarrow> receipt option \<Rightarrow> spine_error + spine" where
  "advanceAnchored env s rec lnk =
     bindE (anchoredRecord rec) (\<lambda>r.
     bindE (laterAnchor env s (sr_anchor r)) (\<lambda>(h, body).
     case lnk of
       None \<Rightarrow> Inl (Certify (LinkMissing ''0''))
     | Some l \<Rightarrow>
         if rc_start l \<noteq> sp_rootChainAnchor s then Inl (Certify (LinkStart ''0''))
         else if rc_anchor l \<noteq> ab_rootChainAnchor body then Inl (Certify (LinkEnd ''0''))
         else if \<not> receiptValid (en_sha env) l then Inl (Certify (LinkInvalid ''0''))
         else verifyAndCommit env s body h (sr_signatures r) (sr_updates r) True))"

section \<open>Counts and readings\<close>

definition networkUpdates :: "spine \<Rightarrow> nat" where
  "networkUpdates s = length (filter (\<lambda>a. ap_principal a = DN_NETWORK) (sp_applied s))"

definition globalsUpdates :: "spine \<Rightarrow> nat" where
  "globalsUpdates s = length (filter (\<lambda>a. ap_principal a = DN_GLOBALS) (sp_applied s))"

text \<open>\<open>genesisGlobals\<close>: each value must re-encode to the record. The SDK's constructors, its encoder and its rendering are parameters.\<close>

definition genesisGlobals ::
  "(json \<Rightarrow> spine_error + 'd) \<Rightarrow> ('d \<Rightarrow> spine_error + bytes) \<Rightarrow> ('d \<Rightarrow> network_json) \<Rightarrow>
   (json \<Rightarrow> spine_error + 'e) \<Rightarrow> ('e \<Rightarrow> spine_error + bytes) \<Rightarrow> ('e \<Rightarrow> globals_json) \<Rightarrow>
   json \<Rightarrow> bytes \<Rightarrow> json \<Rightarrow> bytes \<Rightarrow> spine_error + spine_globals" where
  "genesisGlobals networkDefinition encodeNetwork networkObject networkGlobals encodeGlobals globalsObject nj nrec gj grec =
     bindE (networkDefinition nj) (\<lambda>def.
     bindE (encodeNetwork def) (\<lambda>e.
     guardE (e \<noteq> nrec) (Refused ''genesis network: the JSON does not re-encode to the record'') (
     bindE (networkGlobals gj) (\<lambda>glob.
     bindE (encodeGlobals glob) (\<lambda>e.
     guardE (e \<noteq> grec) (Refused ''genesis globals: the JSON does not re-encode to the record'') (
       Inr \<lparr>sg_network = networkObject def, sg_networkRecord = nrec, sg_globals = globalsObject glob, sg_globalsRecord = grec\<rparr>))))))"

section \<open>The walk\<close>

datatype spine_op = Major json | Epoch json | Anchored json "receipt option"

fun spineStep :: "spine_env \<Rightarrow> spine \<Rightarrow> spine_op \<Rightarrow> spine_error + spine" where
  "spineStep env s (Major j) = advance env s j"
| "spineStep env s (Epoch j) = advanceEpoch env s j"
| "spineStep env s (Anchored j l) = advanceAnchored env s j l"

fun recordOf :: "spine_op \<Rightarrow> spine_error + spine_record" where
  "recordOf (Major j) = bindE (majorRecord j) (\<lambda>(_, _, r). Inr r)"
| "recordOf (Epoch j) = bindE (minorRootRecord j) (\<lambda>(_, r). Inr r)"
| "recordOf (Anchored j l) = anchoredRecord j"

text \<open>Whether the rules of evidence 2.1 hold for a step: always for an anchored one, else as the spine says.\<close>

fun strictStep :: "spine \<Rightarrow> spine_op \<Rightarrow> bool" where
  "strictStep s (Anchored _ _) = True"
| "strictStep s _ = sp_refuseReplay s"

text \<open>Every accepted step is a commit of its record's later anchor; a major step also counts the block.\<close>

lemma laterAnchor_later: "laterAnchor env s m = Inr (h, body) \<Longrightarrow> sp_lastBlock s < ab_minorBlock body"
  by (auto simp: laterAnchor_def results split: if_splits)

lemma spineStep_commit:
  assumes "spineStep env s op = Inr s'"
  obtains r h body n where "recordOf op = Inr r" and "laterAnchor env s (sr_anchor r) = Inr (h, body)"
    and "verifyAndCommit env s body h (sr_signatures r) (sr_updates r) (strictStep s op) = Inr (s'\<lparr>sp_nextMajor := n\<rparr>)"
proof (cases op)
  case (Major j)
  with assms obtain i b r h body t where
    "majorRecord j = Inr (i, b, r)" "laterAnchor env s (sr_anchor r) = Inr (h, body)"
    "verifyAndCommit env s body h (sr_signatures r) (sr_updates r) (sp_refuseReplay s) = Inr t" "s' = t\<lparr>sp_nextMajor := sp_nextMajor t + 1\<rparr>"
    by (auto simp: advance_def results)
  with Major that [of r h body "sp_nextMajor t"] show thesis by simp
next
  case (Epoch j)
  with assms obtain pf r h body where
    "minorRootRecord j = Inr (pf, r)" "laterAnchor env s (sr_anchor r) = Inr (h, body)"
    "verifyAndCommit env s body h (sr_signatures r) (sr_updates r) (sp_refuseReplay s) = Inr s'"
    by (cases "sp_refuseReplay s") (auto simp: advanceEpoch_def results split: if_splits)
  with Epoch that [of r h body "sp_nextMajor s'"] show thesis by simp
next
  case (Anchored j l)
  with assms obtain r h body where
    "anchoredRecord j = Inr r" "laterAnchor env s (sr_anchor r) = Inr (h, body)"
    "verifyAndCommit env s body h (sr_signatures r) (sr_updates r) True = Inr s'"
    by (auto simp: advanceAnchored_def results split: option.splits if_splits)
  with Anchored that [of r h body "sp_nextMajor s'"] show thesis by simp
qed

lemma verifyAndCommit_Inr:
  assumes "verifyAndCommit env s body h sigs us strict = Inr s'"
  obtains g as where
    "applyUpdates env (sp_applied s) body (if strict then Some (windowOf s body) else None) us (sp_g s) [] = Inr (g, as)"
    and "checkQuorums env g (sp_g s) h sigs (us \<noteq> []) = Inr ()"
    and "ab_minorBlock body \<le> MAX_SAFE_INTEGER" and "ab_rootChain body \<le> MAX_SAFE_INTEGER"
    and "s' = s\<lparr>sp_g := g, sp_lastBlock := ab_minorBlock body, sp_rootChainAnchor := ab_rootChainAnchor body,
          sp_stateTreeAnchor := ab_stateTreeAnchor body, sp_rootChain := ab_rootChain body, sp_rciKnown := True,
          sp_applied := sp_applied s @ as\<rparr>"
  using assms by (auto simp: verifyAndCommit_def results not_less split: if_splits)

section \<open>Quorums\<close>

text \<open>What a quorum promises: at least the threshold of validators with different key hashes, each active on the Directory, each with a
  valid signature over the hash by its key; and no signature that is invalid or by anyone else.\<close>

definition signedBy :: "spine_env \<Rightarrow> bytes \<Rightarrow> json \<Rightarrow> validator \<Rightarrow> bool" where
  "signedBy env h sig v \<longleftrightarrow>
     en_verifySignature env sig h = Inr True \<and> activeOnDirectory v \<and> (\<exists>k. member (Key ''publicKey'') sig = JStr k \<and> va_publicKey v = lowered k)"

definition quorate :: "spine_env \<Rightarrow> spine_globals \<Rightarrow> bytes \<Rightarrow> json list \<Rightarrow> bool" where
  "quorate env g h sigs \<longleftrightarrow>
     (\<forall>sig\<in>set sigs. \<exists>v\<in>set (validatorsOf g). signedBy env h sig v) \<and>
     (\<exists>n V. directoryThresholdOf g = Inr n \<and> n \<le> card V \<and> V \<subseteq> set (validatorsOf g) \<and> inj_on va_publicKeyHash V \<and>
        (\<forall>v\<in>V. \<exists>sig\<in>set sigs. signedBy env h sig v))"

lemma find_holds: "find P xs = Some x \<Longrightarrow> x \<in> set xs \<and> P x"
  by (induction xs) (auto split: if_splits)

lemma signerOf_Some:
  "signerOf g sig = Some v \<Longrightarrow> v \<in> set (validatorsOf g) \<and> activeOnDirectory v \<and>
     (\<exists>k. member (Key ''publicKey'') sig = JStr k \<and> va_publicKey v = lowered k)"
  by (cases "member (Key ''publicKey'') sig") (auto simp: signerOf_def dest: find_holds)

lemma signers_Inr:
  "signers env g h sigs seen = Inr out \<Longrightarrow>
     (\<forall>sig\<in>set sigs. \<exists>v. signerOf g sig = Some v \<and> en_verifySignature env sig h = Inr True) \<and>
     out = seen \<union> (\<lambda>sig. va_publicKeyHash (the (signerOf g sig))) ` set sigs"
proof (induction sigs arbitrary: seen)
  case (Cons sig sigs)
  then obtain v where "signerOf g sig = Some v" "en_verifySignature env sig h = Inr True"
    "signers env g h sigs (insert (va_publicKeyHash v) seen) = Inr out"
    by (auto simp: results split: option.splits)
  moreover from this(3) have "(\<forall>sig\<in>set sigs. \<exists>v. signerOf g sig = Some v \<and> en_verifySignature env sig h = Inr True) \<and>
     out = insert (va_publicKeyHash v) seen \<union> (\<lambda>sig. va_publicKeyHash (the (signerOf g sig))) ` set sigs" by (rule Cons.IH)
  ultimately show ?case by simp
qed simp

lemma verifyQuorum_quorate:
  assumes "verifyQuorum env g h sigs = Inr ()"
  shows "quorate env g h sigs"
proof -
  define hashOf where "hashOf sig = va_publicKeyHash (the (signerOf g sig))" for sig
  obtain out n where o: "signers env g h sigs {} = Inr out" "directoryThresholdOf g = Inr n" "\<not> card out < n"
    using assms by (auto simp: verifyQuorum_def results simp del: signers.simps split: if_splits)
  moreover have "out = hashOf ` set sigs" using signers_Inr [OF o(1)] by (simp add: hashOf_def)
  ultimately have n: "signers env g h sigs {} = Inr (hashOf ` set sigs)" "directoryThresholdOf g = Inr n" "n \<le> card (hashOf ` set sigs)"
    by auto
  have sig: "\<exists>v. signerOf g sig = Some v \<and> v \<in> set (validatorsOf g) \<and> signedBy env h sig v" if "sig \<in> set sigs" for sig
    using signers_Inr [OF n(1)] signerOf_Some that unfolding signedBy_def by blast
  obtain S where S: "S \<subseteq> set sigs" "inj_on hashOf S" "hashOf ` S = hashOf ` set sigs"
    using subset_image_inj [of "hashOf ` set sigs" hashOf "set sigs"] by auto
  define V where "V = (\<lambda>sig. the (signerOf g sig)) ` S"
  have "inj_on va_publicKeyHash V" using S(2) by (auto simp: V_def hashOf_def inj_on_def)
  moreover have "card (va_publicKeyHash ` V) = card (hashOf ` set sigs)" using S(3) by (simp add: V_def image_image hashOf_def)
  ultimately have "n \<le> card V" using n(3) by (simp add: card_image)
  moreover have "V \<subseteq> set (validatorsOf g)" "\<forall>v\<in>V. \<exists>sig\<in>set sigs. signedBy env h sig v"
    using S(1) sig unfolding V_def by fastforce+
  ultimately show ?thesis
    unfolding quorate_def using n(2) sig \<open>inj_on va_publicKeyHash V\<close> by blast
qed

lemma signers_complete:
  "\<forall>sig\<in>set sigs. en_verifySignature env sig h = Inr True \<and> signerOf g sig \<noteq> None \<Longrightarrow>
     signers env g h sigs seen = Inr (seen \<union> (\<lambda>sig. va_publicKeyHash (the (signerOf g sig))) ` set sigs)"
  by (induction sigs arbitrary: seen) auto

text \<open>Among validators with keys of their own, a quorum is also enough.\<close>

definition ownKeys :: "spine_globals \<Rightarrow> bool" where
  "ownKeys g \<longleftrightarrow> inj_on va_publicKey {v \<in> set (validatorsOf g). activeOnDirectory v}"

lemma find_unique: "find P xs = Some x \<Longrightarrow> y \<in> set xs \<Longrightarrow> P y \<Longrightarrow> inj_on f {z \<in> set xs. Q z} \<Longrightarrow> (\<And>z. P z \<Longrightarrow> Q z \<and> f z = c) \<Longrightarrow> x = y"
  using find_holds [of P xs x] by (auto simp: inj_on_def)

lemma signedBy_signerOf:
  assumes "ownKeys g" and "v \<in> set (validatorsOf g)" and "signedBy env h sig v"
  shows "signerOf g sig = Some v"
proof -
  obtain k where k: "member (Key ''publicKey'') sig = JStr k" "va_publicKey v = lowered k" "activeOnDirectory v"
    using assms(3) by (auto simp: signedBy_def)
  let ?P = "\<lambda>v. va_publicKey v = lowered k \<and> activeOnDirectory v"
  obtain w where w: "find ?P (validatorsOf g) = Some w"
    using assms(2) k(2,3) by (cases "find ?P (validatorsOf g)") (auto simp: find_None_iff)
  then have "w = v"
    by (rule find_unique [where f = va_publicKey and c = "lowered k" and Q = activeOnDirectory]) (use assms(1,2) k(2,3) in \<open>auto simp: ownKeys_def\<close>)
  with k(1) w show ?thesis by (simp add: signerOf_def)
qed

lemma quorate_verifies:
  assumes "quorate env g h sigs" and "ownKeys g"
  shows "verifyQuorum env g h sigs = Inr ()"
proof -
  define hashOf where "hashOf sig = va_publicKeyHash (the (signerOf g sig))" for sig
  obtain n V where q: "directoryThresholdOf g = Inr n" "n \<le> card V" "V \<subseteq> set (validatorsOf g)" "inj_on va_publicKeyHash V"
    "\<forall>v\<in>V. \<exists>sig\<in>set sigs. signedBy env h sig v" and a: "\<forall>sig\<in>set sigs. \<exists>v\<in>set (validatorsOf g). signedBy env h sig v"
    using assms(1) unfolding quorate_def by blast
  have "signers env g h sigs {} = Inr ({} \<union> hashOf ` set sigs)"
    unfolding hashOf_def
  proof (rule signers_complete, rule ballI)
    fix sig
    assume "sig \<in> set sigs"
    with a obtain v where "v \<in> set (validatorsOf g)" "signedBy env h sig v" by blast
    with signedBy_signerOf [OF assms(2) this] show "en_verifySignature env sig h = Inr True \<and> signerOf g sig \<noteq> None" by (simp add: signedBy_def)
  qed
  moreover have "va_publicKeyHash ` V \<subseteq> hashOf ` set sigs"
  proof (rule image_subsetI)
    fix v
    assume "v \<in> V"
    with q(3,5) obtain sig where s: "sig \<in> set sigs" "signedBy env h sig v" "v \<in> set (validatorsOf g)" by blast
    from signedBy_signerOf [OF assms(2) s(3,2)] have "hashOf sig = va_publicKeyHash v" by (simp add: hashOf_def)
    with s(1) show "va_publicKeyHash v \<in> hashOf ` set sigs" by force
  qed
  then have "card V \<le> card (hashOf ` set sigs)" using q(4) by (metis card_image card_mono finite_imageI finite_set)
  ultimately show ?thesis using q(1,2) by (simp add: verifyQuorum_def)
qed

lemma checkQuorums_quorate:
  "checkQuorums env c g h sigs us = Inr () \<Longrightarrow> quorate env c h sigs \<or> us \<and> quorate env g h sigs"
  by (auto simp: checkQuorums_def split: sum.splits if_splits dest: verifyQuorum_quorate)

section \<open>What an accepted update has proven\<close>

text \<open>The transaction of an update is folded into the root by a valid receipt; \<open>entries\<close> are the receipt's steps.\<close>

definition provenUpdate :: "spine_env \<Rightarrow> bytes \<Rightarrow> network_update \<Rightarrow> bytes \<Rightarrow> receipt_entry list \<Rightarrow> bool" where
  "provenUpdate env root u h entries \<longleftrightarrow>
     (\<exists>ut rj. nu_transaction u = Some ut \<and> nu_receipt u = Some rj \<and> en_transactionHashOfJson env ut = Inr h \<and>
        receiptFromJSON rj = Inr \<lparr>rc_start = h, rc_anchor = root, rc_entries = entries\<rparr> \<and>
        foldReceipt (en_sha env) h entries = root)"

definition tracked :: "string \<Rightarrow> bool" where
  "tracked prin \<longleftrightarrow> sameUrl prin DN_NETWORK \<or> sameUrl prin DN_GLOBALS"

lemma applyProvenUpdate_Inr:
  assumes "applyProvenUpdate env g u root window = Inr r"
  shows "\<exists>entries. provenUpdate env root u (ur_txHash r) entries"
    and "ur_applied r = None \<and> ur_g r = g \<or>
      ur_applied r = Some (ur_principal r, ur_txHash r) \<and> tracked (ur_principal r) \<and> (\<exists>b d. applyWrite env g b d = Inr (ur_g r))"
proof -
  obtain ut rj early h rc body where
    u: "nu_transaction u = Some ut" "nu_receipt u = Some rj" "en_transactionHashOfJson env ut = Inr h" "receiptFromJSON rj = Inr rc"
      "rc_start rc = h" "rc_anchor rc = root" "receiptValid (en_sha env) rc"
    and r: "(if member (Key ''type'') body \<noteq> JStr ''writeData''
       then Inr \<lparr>ur_g = g, ur_applied = None, ur_principal = early, ur_txHash = h\<rparr>
       else bindE (if window then Inr early else principalOf ut) (\<lambda>prin.
         if \<not> sameUrl prin DN_NETWORK \<and> \<not> sameUrl prin DN_GLOBALS
         then Inr \<lparr>ur_g = g, ur_applied = None, ur_principal = prin, ur_txHash = h\<rparr>
         else bindE (entryRecord body) (\<lambda>d. bindE (applyWrite env g (sameUrl prin DN_GLOBALS) d) (\<lambda>g'.
           Inr \<lparr>ur_g = g', ur_applied = Some (prin, h), ur_principal = prin, ur_txHash = h\<rparr>)))) = Inr r"
    using assms unfolding applyProvenUpdate_def
    by (auto simp: bindE_Inr_iff mapErr_Inr_iff guardE_Inr_iff split: option.splits)
  have h: "ur_txHash r = h" using r by (auto simp: results split: if_splits)
  have "rc = \<lparr>rc_start = h, rc_anchor = root, rc_entries = rc_entries rc\<rparr>" using u(5,6) by simp
  then have "provenUpdate env root u h (rc_entries rc)" using u unfolding provenUpdate_def receiptValid_def by auto
  with h show "\<exists>entries. provenUpdate env root u (ur_txHash r) entries" by blast
  show "ur_applied r = None \<and> ur_g r = g \<or>
      ur_applied r = Some (ur_principal r, ur_txHash r) \<and> tracked (ur_principal r) \<and> (\<exists>b d. applyWrite env g b d = Inr (ur_g r))"
    using r by (auto simp: bindE_Inr_iff tracked_def split: if_splits) blast+
qed

lemma applyUpdates_Cons_Inr:
  assumes "applyUpdates env old body win (u # us) g acc = Inr (g', as)"
  obtains r acc' where "applyProvenUpdate env g u (ab_rootChainAnchor body) (win \<noteq> None) = Inr r"
    and "ur_applied r = None \<and> acc' = acc \<or>
      (\<exists>prin h. ur_applied r = Some (prin, h) \<and> acc' = acc @ [\<lparr>ap_principal = prin, ap_txHash = h, ap_anchorMinorBlock = ab_minorBlock body\<rparr>]
         \<and> (win \<noteq> None \<longrightarrow> h \<notin> ap_txHash ` set (old @ acc)))"
    and "\<And>w rj rc. win = Some w \<Longrightarrow> nu_receipt u = Some rj \<Longrightarrow> receiptFromJSON rj = Inr rc \<Longrightarrow>
      checkWindow w (ur_principal r) (ur_txHash r) (rc_entries rc) = Inr ()"
    and "applyUpdates env old body win us (ur_g r) acc' = Inr (g', as)"
proof -
  obtain r acc' z where r: "applyProvenUpdate env g u (ab_rootChainAnchor body) (win \<noteq> None) = Inr r"
    and a: "(case ur_applied r of None \<Rightarrow> Inr acc
       | Some (prin, h) \<Rightarrow> if win \<noteq> None \<and> (hasUpdate old h \<or> hasUpdate acc h) then Inl (Certify (UpdateReplayed h))
           else Inr (acc @ [\<lparr>ap_principal = prin, ap_txHash = h, ap_anchorMinorBlock = ab_minorBlock body\<rparr>])) = Inr acc'"
    and w: "(case win of None \<Rightarrow> Inr ()
       | Some w \<Rightarrow> bindE (mapErr Reader (receiptFromJSON (case nu_receipt u of Some j \<Rightarrow> j | None \<Rightarrow> JUndefined))) (\<lambda>rc.
           mapErr Certify (checkWindow w (ur_principal r) (ur_txHash r) (rc_entries rc)))) = Inr z"
    and k: "applyUpdates env old body win us (ur_g r) acc' = Inr (g', as)"
    using assms unfolding applyUpdates.simps bindE_Inr_iff by (elim exE conjE) (erule that; assumption)
  show thesis
  proof (rule that [OF r _ _ k])
    show "ur_applied r = None \<and> acc' = acc \<or>
      (\<exists>prin h. ur_applied r = Some (prin, h) \<and> acc' = acc @ [\<lparr>ap_principal = prin, ap_txHash = h, ap_anchorMinorBlock = ab_minorBlock body\<rparr>]
         \<and> (win \<noteq> None \<longrightarrow> h \<notin> ap_txHash ` set (old @ acc)))"
      using a by (cases "ur_applied r") (auto simp: hasUpdate_def list_ex_iff split: prod.splits if_splits)
    show "checkWindow w' (ur_principal r) (ur_txHash r) (rc_entries rc) = Inr ()"
      if "win = Some w'" "nu_receipt u = Some rj" "receiptFromJSON rj = Inr rc" for w' rj rc
      using w that by (simp add: mapErr_Inr_iff)
  qed
qed

text \<open>Over the updates of a record: the writes counted are of tracked accounts and of this block, each proven into the root; under the 2.1 rules none
  repeats and every update lies in the window.\<close>

lemma applyUpdates_appends:
  "applyUpdates env old body win us g acc = Inr (g', as) \<Longrightarrow> \<exists>new. as = acc @ new \<and>
     (\<forall>a\<in>set new. tracked (ap_principal a) \<and> ap_anchorMinorBlock a = ab_minorBlock body \<and>
        (\<exists>u\<in>set us. \<exists>entries. provenUpdate env (ab_rootChainAnchor body) u (ap_txHash a) entries))"
proof (induction us arbitrary: g acc)
  case (Cons u us)
  from Cons.prems obtain r acc' where r: "applyProvenUpdate env g u (ab_rootChainAnchor body) (win \<noteq> None) = Inr r"
    and a: "ur_applied r = None \<and> acc' = acc \<or>
      (\<exists>prin h. ur_applied r = Some (prin, h) \<and> acc' = acc @ [\<lparr>ap_principal = prin, ap_txHash = h, ap_anchorMinorBlock = ab_minorBlock body\<rparr>])"
    and k: "applyUpdates env old body win us (ur_g r) acc' = Inr (g', as)"
    by (rule applyUpdates_Cons_Inr) blast
  note p = applyProvenUpdate_Inr [OF r]
  from Cons.IH [OF k] obtain new where new: "as = acc' @ new"
    "\<forall>a\<in>set new. tracked (ap_principal a) \<and> ap_anchorMinorBlock a = ab_minorBlock body \<and>
      (\<exists>u\<in>set us. \<exists>entries. provenUpdate env (ab_rootChainAnchor body) u (ap_txHash a) entries)" by blast
  from a show ?case
  proof (elim disjE exE conjE)
    assume "acc' = acc"
    with new show ?thesis by auto
  next
    fix prin h assume h: "ur_applied r = Some (prin, h)" "acc' = acc @ [\<lparr>ap_principal = prin, ap_txHash = h, ap_anchorMinorBlock = ab_minorBlock body\<rparr>]"
    then have "tracked prin" "h = ur_txHash r" using p(2) by auto
    then show ?thesis using new h p(1) by (intro exI [of _ "\<lparr>ap_principal = prin, ap_txHash = h, ap_anchorMinorBlock = ab_minorBlock body\<rparr> # new"]) auto
  qed
qed simp

lemma applyUpdates_fresh:
  "applyUpdates env old body (Some w) us g acc = Inr (g', as) \<Longrightarrow> distinct (map ap_txHash acc) \<Longrightarrow> ap_txHash ` set old \<inter> ap_txHash ` set acc = {} \<Longrightarrow>
     distinct (map ap_txHash as) \<and> ap_txHash ` set old \<inter> ap_txHash ` set as = {}"
proof (induction us arbitrary: g acc)
  case (Cons u us)
  from Cons.prems(1) show ?case
  proof (rule applyUpdates_Cons_Inr)
    fix r acc'
    assume a: "ur_applied r = None \<and> acc' = acc \<or>
      (\<exists>prin h. ur_applied r = Some (prin, h) \<and> acc' = acc @ [\<lparr>ap_principal = prin, ap_txHash = h, ap_anchorMinorBlock = ab_minorBlock body\<rparr>]
         \<and> (Some w \<noteq> None \<longrightarrow> h \<notin> ap_txHash ` set (old @ acc)))"
      and k: "applyUpdates env old body (Some w) us (ur_g r) acc' = Inr (g', as)"
    have "distinct (map ap_txHash acc') \<and> ap_txHash ` set old \<inter> ap_txHash ` set acc' = {}"
      using a Cons.prems(2,3) by (elim disjE exE conjE) (simp_all add: image_Un disjoint_iff)
    with k show ?thesis using Cons.IH by blast
  qed
qed simp

lemma applyUpdates_window:
  "applyUpdates env old body (Some w) us g acc = Inr (g', as) \<Longrightarrow> u \<in> set us \<Longrightarrow>
     \<exists>h entries prin. provenUpdate env (ab_rootChainAnchor body) u h entries \<and> checkWindow w prin h entries = Inr ()"
proof (induction us arbitrary: g acc)
  case (Cons v us)
  from Cons.prems(1) obtain r acc' where r: "applyProvenUpdate env g v (ab_rootChainAnchor body) True = Inr r"
    and w: "\<And>rj rc. nu_receipt v = Some rj \<Longrightarrow> receiptFromJSON rj = Inr rc \<Longrightarrow> checkWindow w (ur_principal r) (ur_txHash r) (rc_entries rc) = Inr ()"
    and k: "applyUpdates env old body (Some w) us (ur_g r) acc' = Inr (g', as)"
    by (rule applyUpdates_Cons_Inr) auto
  show ?case
  proof (cases "u = v")
    case True
    obtain entries where "provenUpdate env (ab_rootChainAnchor body) v (ur_txHash r) entries" using applyProvenUpdate_Inr(1) [OF r] by blast
    moreover from this obtain rj where "nu_receipt v = Some rj" "receiptFromJSON rj = Inr \<lparr>rc_start = ur_txHash r, rc_anchor = ab_rootChainAnchor body, rc_entries = entries\<rparr>"
      unfolding provenUpdate_def by blast
    moreover from w [OF this] have "checkWindow w (ur_principal r) (ur_txHash r) entries = Inr ()" by simp
    ultimately show ?thesis using True by blast
  next
    case False
    with Cons.prems(2) k Cons.IH show ?thesis by auto
  qed
qed simp

text \<open>The tracked definition only moves to a higher version.\<close>

definition newer :: "spine_globals \<Rightarrow> spine_globals \<Rightarrow> bool" where
  "newer g g' \<longleftrightarrow> sg_network g' = sg_network g \<and> sg_networkRecord g' = sg_networkRecord g \<or>
     (\<exists>v v'. optUint (nj_version (sg_network g)) = Inr v \<and> optUint (nj_version (sg_network g')) = Inr v' \<and> v < v')"

lemma newer_refl [simp]: "newer g g"
  by (simp add: newer_def)

lemma newer_trans: "newer g g' \<Longrightarrow> newer g' g'' \<Longrightarrow> newer g g''"
  by (auto simp: newer_def)

lemma applyWrite_newer: "applyWrite env g b d = Inr g' \<Longrightarrow> newer g g'"
  by (auto simp: applyWrite_def newer_def results split: if_splits)

lemma applyUpdates_newer: "applyUpdates env old body win us g acc = Inr (g', as) \<Longrightarrow> newer g g'"
proof (induction us arbitrary: g acc)
  case (Cons u us)
  from Cons.prems obtain r acc' where r: "applyProvenUpdate env g u (ab_rootChainAnchor body) (win \<noteq> None) = Inr r"
    and k: "applyUpdates env old body win us (ur_g r) acc' = Inr (g', as)"
    by (rule applyUpdates_Cons_Inr)
  have "newer g (ur_g r)" using applyProvenUpdate_Inr(2) [OF r] applyWrite_newer by auto
  with Cons.IH [OF k] show ?case by (blast intro: newer_trans)
qed simp

section \<open>The invariant of the walk\<close>

definition spineInv :: "spine \<Rightarrow> bool" where
  "spineInv s \<longleftrightarrow>
     sp_lastBlock s \<le> MAX_SAFE_INTEGER \<and> sp_rootChain s \<le> MAX_SAFE_INTEGER \<and> sp_rciKnown s \<and>
     (\<forall>a\<in>set (sp_applied s). tracked (ap_principal a) \<and> ap_anchorMinorBlock a \<le> sp_lastBlock s) \<and>
     sorted (map ap_anchorMinorBlock (sp_applied s))"

lemma spineStep_Inr:
  assumes "spineStep env s op = Inr s'"
  obtains r h body g as where "recordOf op = Inr r" and "laterAnchor env s (sr_anchor r) = Inr (h, body)"
    and "applyUpdates env (sp_applied s) body (if strictStep s op then Some (windowOf s body) else None) (sr_updates r) (sp_g s) [] = Inr (g, as)"
    and "quorate env g h (sr_signatures r) \<or> sr_updates r \<noteq> [] \<and> quorate env (sp_g s) h (sr_signatures r)"
    and "ab_minorBlock body \<le> MAX_SAFE_INTEGER" and "ab_rootChain body \<le> MAX_SAFE_INTEGER"
    and "sp_g s' = g" and "sp_lastBlock s' = ab_minorBlock body" and "sp_rootChainAnchor s' = ab_rootChainAnchor body"
    and "sp_stateTreeAnchor s' = ab_stateTreeAnchor body" and "sp_rootChain s' = ab_rootChain body" and "sp_rciKnown s'"
    and "sp_applied s' = sp_applied s @ as" and "sp_refuseReplay s' = sp_refuseReplay s"
proof -
  obtain r h body n where c: "recordOf op = Inr r" "laterAnchor env s (sr_anchor r) = Inr (h, body)"
    "verifyAndCommit env s body h (sr_signatures r) (sr_updates r) (strictStep s op) = Inr (s'\<lparr>sp_nextMajor := n\<rparr>)"
    using assms by (rule spineStep_commit)
  from c(3) show thesis
  proof (rule verifyAndCommit_Inr)
    fix g as
    assume u: "applyUpdates env (sp_applied s) body (if strictStep s op then Some (windowOf s body) else None) (sr_updates r) (sp_g s) [] = Inr (g, as)"
      and q: "checkQuorums env g (sp_g s) h (sr_signatures r) (sr_updates r \<noteq> []) = Inr ()"
      and b: "ab_minorBlock body \<le> MAX_SAFE_INTEGER" "ab_rootChain body \<le> MAX_SAFE_INTEGER"
      and e: "s'\<lparr>sp_nextMajor := n\<rparr> = s\<lparr>sp_g := g, sp_lastBlock := ab_minorBlock body, sp_rootChainAnchor := ab_rootChainAnchor body,
          sp_stateTreeAnchor := ab_stateTreeAnchor body, sp_rootChain := ab_rootChain body, sp_rciKnown := True,
          sp_applied := sp_applied s @ as\<rparr>"
    show thesis
      using that [OF c(1,2) u checkQuorums_quorate [OF q] b]
        arg_cong [OF e, of sp_g] arg_cong [OF e, of sp_lastBlock] arg_cong [OF e, of sp_rootChainAnchor] arg_cong [OF e, of sp_stateTreeAnchor]
        arg_cong [OF e, of sp_rootChain] arg_cong [OF e, of sp_rciKnown] arg_cong [OF e, of sp_applied] arg_cong [OF e, of sp_refuseReplay]
      by simp
  qed
qed

lemma spineStep_inv:
  assumes inv: "spineInv s" and step: "spineStep env s op = Inr s'"
  shows "spineInv s'"
  using step
proof (rule spineStep_Inr)
  fix r h body g as
  assume later: "laterAnchor env s (sr_anchor r) = Inr (h, body)"
    and u: "applyUpdates env (sp_applied s) body (if strictStep s op then Some (windowOf s body) else None) (sr_updates r) (sp_g s) [] = Inr (g, as)"
    and b: "ab_minorBlock body \<le> MAX_SAFE_INTEGER" "ab_rootChain body \<le> MAX_SAFE_INTEGER"
    and s': "sp_lastBlock s' = ab_minorBlock body" "sp_rootChain s' = ab_rootChain body" "sp_rciKnown s'"
      "sp_applied s' = sp_applied s @ as" "sp_refuseReplay s' = sp_refuseReplay s"
  have less: "sp_lastBlock s < ab_minorBlock body" using later by (rule laterAnchor_later)
  have new: "tracked (ap_principal a) \<and> ap_anchorMinorBlock a = ab_minorBlock body" if "a \<in> set as" for a
    using applyUpdates_appends [OF u] that by auto
  have old: "ap_anchorMinorBlock a \<le> sp_lastBlock s" if "a \<in> set (sp_applied s)" for a using inv that by (simp add: spineInv_def)
  have "sorted (map ap_anchorMinorBlock as)" using new by (simp add: sorted_wrt_map sorted_wrt_iff_nth_less)
  moreover have "ap_anchorMinorBlock a \<le> ap_anchorMinorBlock a'" if "a \<in> set (sp_applied s)" "a' \<in> set as" for a a'
    using old [OF that(1)] new [OF that(2)] less by simp
  ultimately have "sorted (map ap_anchorMinorBlock (sp_applied s @ as))" using inv by (auto simp: spineInv_def sorted_append)
  moreover have "tracked (ap_principal a) \<and> ap_anchorMinorBlock a \<le> ab_minorBlock body" if "a \<in> set (sp_applied s @ as)" for a
    using that new old less inv by (fastforce simp: spineInv_def)
  ultimately show ?thesis using b s' by (simp add: spineInv_def)
qed

interpretation walk: guarded_machine "spineStep env" spineInv for env
  by unfold_locales (rule spineStep_inv)

lemma newSpine_inv: "newSpine g n = Inr s \<Longrightarrow> spineInv s"
  by (auto simp: newSpine_def spineInv_def split: if_splits)

section \<open>Runs of the walk\<close>

lemma spineStep_later: "spineStep env s op = Inr s' \<Longrightarrow> sp_lastBlock s < sp_lastBlock s' \<and> sp_refuseReplay s' = sp_refuseReplay s"
  by (erule spineStep_Inr) (simp add: laterAnchor_later)

lemma spineRun_later:
  "runE (spineStep env) s ops = Inr s' \<Longrightarrow> sp_lastBlock s + length ops \<le> sp_lastBlock s' \<and> sp_refuseReplay s' = sp_refuseReplay s"
proof (induction ops arbitrary: s)
  case (Cons op ops)
  then obtain t where t: "spineStep env s op = Inr t" "runE (spineStep env) t ops = Inr s'" by (auto simp: results)
  with spineStep_later [OF t(1)] Cons.IH [OF t(2)] show ?case by auto
qed simp

lemma spineStep_fresh:
  assumes "spineStep env s op = Inr s'"
  shows "\<exists>as. sp_applied s' = sp_applied s @ as \<and>
    (sp_refuseReplay s \<longrightarrow> distinct (map ap_txHash as) \<and> ap_txHash ` set (sp_applied s) \<inter> ap_txHash ` set as = {})"
  using assms
proof (rule spineStep_Inr)
  fix r h body g as
  assume u: "applyUpdates env (sp_applied s) body (if strictStep s op then Some (windowOf s body) else None) (sr_updates r) (sp_g s) [] = Inr (g, as)"
    and s': "sp_applied s' = sp_applied s @ as"
  have "distinct (map ap_txHash as) \<and> ap_txHash ` set (sp_applied s) \<inter> ap_txHash ` set as = {}" if "sp_refuseReplay s"
  proof -
    have "strictStep s op" using that by (cases op) simp_all
    then have "applyUpdates env (sp_applied s) body (Some (windowOf s body)) (sr_updates r) (sp_g s) [] = Inr (g, as)" using u by simp
    from applyUpdates_fresh [OF this] show ?thesis by simp
  qed
  with s' show ?thesis by blast
qed

text \<open>The writes a run counts; under the 2.1 rules each is of a transaction of its own that was not counted before.\<close>

lemma spineRun_fresh:
  "runE (spineStep env) s ops = Inr s' \<Longrightarrow> \<exists>as. sp_applied s' = sp_applied s @ as \<and>
     (sp_refuseReplay s \<longrightarrow> distinct (map ap_txHash as) \<and> ap_txHash ` set (sp_applied s) \<inter> ap_txHash ` set as = {})"
proof (induction ops arbitrary: s)
  case (Cons op ops)
  then obtain t where t: "spineStep env s op = Inr t" "runE (spineStep env) t ops = Inr s'" by (auto simp: results)
  obtain as where as: "sp_applied t = sp_applied s @ as"
    "sp_refuseReplay s \<longrightarrow> distinct (map ap_txHash as) \<and> ap_txHash ` set (sp_applied s) \<inter> ap_txHash ` set as = {}"
    using spineStep_fresh [OF t(1)] by blast
  obtain bs where bs: "sp_applied s' = sp_applied t @ bs"
    "sp_refuseReplay s \<longrightarrow> distinct (map ap_txHash bs) \<and> ap_txHash ` set (sp_applied t) \<inter> ap_txHash ` set bs = {}"
    using Cons.IH [OF t(2)] spineStep_later [OF t(1)] by auto
  show ?case using as bs by (intro exI [of _ "as @ bs"]) (simp add: image_Un Int_Un_distrib Int_Un_distrib2 Int_commute)
qed simp

lemma spineStep_newer: "spineStep env s op = Inr s' \<Longrightarrow> newer (sp_g s) (sp_g s')"
  by (erule spineStep_Inr) (simp add: applyUpdates_newer)

lemma spineRun_newer: "runE (spineStep env) s ops = Inr s' \<Longrightarrow> newer (sp_g s) (sp_g s')"
proof (induction ops arbitrary: s)
  case (Cons op ops)
  then show ?case by (auto simp: results intro: newer_trans spineStep_newer)
qed simp

lemma advanceAnchored_link:
  assumes "advanceAnchored env s j (Some l) = Inr s'"
  shows "foldReceipt (en_sha env) (sp_rootChainAnchor s) (rc_entries l) = sp_rootChainAnchor s'"
proof -
  obtain r :: spine_record and h body where "rc_start l = sp_rootChainAnchor s" "rc_anchor l = ab_rootChainAnchor body" "receiptValid (en_sha env) l"
    and c: "verifyAndCommit env s body h (sr_signatures r) (sr_updates r) True = Inr s'"
    using assms by (auto simp: advanceAnchored_def results split: if_splits)
  moreover from c have "sp_rootChainAnchor s' = ab_rootChainAnchor body" by (rule verifyAndCommit_Inr) simp
  ultimately show ?thesis by (simp add: receiptValid_def)
qed

lemma advanceAnchored_updates:
  assumes "advanceAnchored env s j lnk = Inr s'" and "anchoredRecord j = Inr r" and "u \<in> set (sr_updates r)"
  shows "\<exists>h entries i. provenUpdate env (sp_rootChainAnchor s') u h entries \<and>
    rootChainLeafIndex entries (sp_rootChain s' + 1) = Some i \<and> sp_rootChain s < i \<and> i \<le> sp_rootChain s'"
proof -
  have "spineStep env s (Anchored j lnk) = Inr s'" using assms(1) by simp
  then show ?thesis
  proof (rule spineStep_Inr)
    fix r' h body g as
    assume "recordOf (Anchored j lnk) = Inr r'"
      and a: "applyUpdates env (sp_applied s) body (if strictStep s (Anchored j lnk) then Some (windowOf s body) else None) (sr_updates r') (sp_g s) [] = Inr (g, as)"
      and s': "sp_rootChainAnchor s' = ab_rootChainAnchor body" "sp_rootChain s' = ab_rootChain body"
    with assms(2,3) have "u \<in> set (sr_updates r')" by simp
    with applyUpdates_window [of env _ body "windowOf s body" "sr_updates r'"] a obtain h entries prin where
      p: "provenUpdate env (ab_rootChainAnchor body) u h entries" "checkWindow (windowOf s body) prin h entries = Inr ()" by fastforce
    from p(2) obtain i where "rootChainLeafIndex entries (sp_rootChain s' + 1) = Some i" "sp_rootChain s < i" "i \<le> sp_rootChain s'"
      using s' by (auto simp: checkWindow_def windowOf_def Let_def not_le split: if_splits option.splits)
    with p(1) s' show ?thesis by auto
  qed
qed

lemma anchoredRun:
  "runE (spineStep env) s (map (\<lambda>(j, l). Anchored j (Some l)) steps) = Inr s' \<Longrightarrow>
     foldReceipt (en_sha env) (sp_rootChainAnchor s) (concat (map (rc_entries \<circ> snd) steps)) = sp_rootChainAnchor s'"
proof (induction steps arbitrary: s)
  case (Cons x steps)
  obtain j l where x: "x = (j, l)" by (cases x)
  with Cons.prems obtain t where t: "advanceAnchored env s j (Some l) = Inr t"
    "runE (spineStep env) t (map (\<lambda>(j, l). Anchored j (Some l)) steps) = Inr s'" by (auto simp: results)
  with Cons.IH [OF t(2)] advanceAnchored_link [OF t(1)] x show ?case by (simp add: foldReceipt_append)
qed simp

section \<open>Properties\<close>

text \<open>
  C16. Every step the spine accepts has a quorum: its anchor is a Directory self-anchor of a later minor block, whose roots the spine takes over, and
  either the candidate values or, when the record carries updates, the values in force before them have at least the threshold of active Directory
  validators with different key hashes who validly signed the anchor's hash; no other signature is on the record.
\<close>

theorem spine_step_quorum:
  assumes "spineStep env s op = Inr s'"
  shows "\<exists>r h body. recordOf op = Inr r \<and> directorySelfAnchor env (sr_anchor r) = Inr (h, body) \<and>
    sp_lastBlock s < ab_minorBlock body \<and> sp_lastBlock s' = ab_minorBlock body \<and>
    sp_rootChainAnchor s' = ab_rootChainAnchor body \<and> sp_stateTreeAnchor s' = ab_stateTreeAnchor body \<and>
    (quorate env (sp_g s') h (sr_signatures r) \<or> sr_updates r \<noteq> [] \<and> quorate env (sp_g s) h (sr_signatures r))"
  using assms
proof (rule spineStep_Inr)
  fix r h body g as
  assume "recordOf op = Inr r" and l: "laterAnchor env s (sr_anchor r) = Inr (h, body)"
    and "quorate env g h (sr_signatures r) \<or> sr_updates r \<noteq> [] \<and> quorate env (sp_g s) h (sr_signatures r)"
    and "sp_g s' = g" "sp_lastBlock s' = ab_minorBlock body" "sp_rootChainAnchor s' = ab_rootChainAnchor body"
      "sp_stateTreeAnchor s' = ab_stateTreeAnchor body"
  moreover have "directorySelfAnchor env (sr_anchor r) = Inr (h, body)"
    using l by (auto simp: laterAnchor_def results split: if_splits)
  ultimately show ?thesis using laterAnchor_later [OF l] by blast
qed

text \<open>
  C17. The state of a walk from the genesis values, in which \<open>refuseReplay\<close> may be set between two parts of it (as \<open>portable21.ts\<close> sets it on the spine
  the base walk left). Every step of either part moves the minor block on, and no further than where the walk ends; so a walk is no longer than its last
  block. The heights fit a double exactly; the writes counted are to the network or globals account, in the order of their anchors' blocks. And the writes the
  second part counts come after those of the first; when it runs with \<open>refuseReplay\<close> set, each of them is of a transaction of its own, which the first
  part has not counted either.
\<close>

theorem spine_walk_invariant:
  assumes "newSpine g n = Inr s0" and "runE (spineStep env) s0 ops1 = Inr s1" and "runE (spineStep env) (s1\<lparr>sp_refuseReplay := strict\<rparr>) ops2 = Inr s"
  shows "(\<forall>pre op post t t'. ops2 = pre @ op # post \<and> runE (spineStep env) (s1\<lparr>sp_refuseReplay := strict\<rparr>) pre = Inr t \<and> spineStep env t op = Inr t' \<longrightarrow>
      sp_lastBlock t < sp_lastBlock t' \<and> sp_lastBlock t' \<le> sp_lastBlock s) \<and>
    (\<forall>pre op post t t'. ops1 = pre @ op # post \<and> runE (spineStep env) s0 pre = Inr t \<and> spineStep env t op = Inr t' \<longrightarrow>
      sp_lastBlock t < sp_lastBlock t' \<and> sp_lastBlock t' \<le> sp_lastBlock s1) \<and>
    length ops1 + length ops2 \<le> sp_lastBlock s \<and> sp_lastBlock s \<le> 2 ^ 53 - 1 \<and> sp_rootChain s \<le> 2 ^ 53 - 1 \<and>
    (\<forall>a\<in>set (sp_applied s). (sameUrl (ap_principal a) DN_NETWORK \<or> sameUrl (ap_principal a) DN_GLOBALS) \<and> ap_anchorMinorBlock a \<le> sp_lastBlock s) \<and>
    sorted (map ap_anchorMinorBlock (sp_applied s)) \<and>
    (\<exists>as. sp_applied s = sp_applied s1 @ as \<and>
      (strict \<longrightarrow> distinct (map ap_txHash as) \<and> ap_txHash ` set (sp_applied s1) \<inter> ap_txHash ` set as = {}))"
proof -
  have "spineInv s1" using newSpine_inv [OF assms(1)] assms(2) by (rule walk.run_inv)
  then have "spineInv (s1\<lparr>sp_refuseReplay := strict\<rparr>)" by (simp add: spineInv_def)
  from walk.run_inv [OF this assms(3)] have inv: "spineInv s" .
  have len: "length ops1 + length ops2 \<le> sp_lastBlock s" using spineRun_later [OF assms(2)] spineRun_later [OF assms(3)] by auto
  have each: "sp_lastBlock t < sp_lastBlock t' \<and> sp_lastBlock t' \<le> sp_lastBlock u'"
    if "runE (spineStep env) u (pre @ op # post) = Inr u'" "runE (spineStep env) u pre = Inr t" "spineStep env t op = Inr t'" for u u' pre op post t t'
    using that spineStep_later [OF that(3)] spineRun_later [of env t' post u'] by (auto simp: runE_append)
  have "\<exists>as. sp_applied s = sp_applied s1 @ as \<and>
      (strict \<longrightarrow> distinct (map ap_txHash as) \<and> ap_txHash ` set (sp_applied s1) \<inter> ap_txHash ` set as = {})"
    using spineRun_fresh [OF assms(3)] by simp
  moreover have "\<forall>pre op post t t'. ops2 = pre @ op # post \<and> runE (spineStep env) (s1\<lparr>sp_refuseReplay := strict\<rparr>) pre = Inr t \<and> spineStep env t op = Inr t' \<longrightarrow>
      sp_lastBlock t < sp_lastBlock t' \<and> sp_lastBlock t' \<le> sp_lastBlock s"
    "\<forall>pre op post t t'. ops1 = pre @ op # post \<and> runE (spineStep env) s0 pre = Inr t \<and> spineStep env t op = Inr t' \<longrightarrow>
      sp_lastBlock t < sp_lastBlock t' \<and> sp_lastBlock t' \<le> sp_lastBlock s1"
    using each assms(2,3) by blast+
  ultimately show ?thesis using inv len by (simp add: spineInv_def tracked_def MAX_SAFE_INTEGER_def)
qed

text \<open>
  C18. A walk of anchored steps composes: the links' steps, one after the other, fold the root the walk started at into the root it ends at; and every
  update of a step is proven into the step's root by a receipt that starts at its transaction, from a position of the root chain after the previous
  anchor's and not after its own.
\<close>

theorem anchored_walk_continuous:
  assumes "runE (spineStep env) s (map (\<lambda>(j, l). Anchored j (Some l)) steps) = Inr s1" and "advanceAnchored env s1 j lnk = Inr s2"
    and "anchoredRecord j = Inr r" and "u \<in> set (sr_updates r)"
  shows "foldReceipt (en_sha env) (sp_rootChainAnchor s) (concat (map (rc_entries \<circ> snd) steps)) = sp_rootChainAnchor s1 \<and>
    (\<exists>h entries i. provenUpdate env (sp_rootChainAnchor s2) u h entries \<and>
      rootChainLeafIndex entries (sp_rootChain s2 + 1) = Some i \<and> sp_rootChain s1 < i \<and> i \<le> sp_rootChain s2)"
  using anchoredRun [OF assms(1)] advanceAnchored_updates [OF assms(2-)] by blast

text \<open>
  The tracked definition never rolls back: over any sequence of accepted steps the network definition and its record are unchanged, or the
  definition's version has grown.
\<close>

theorem spine_versions_grow:
  assumes "runE (spineStep env) s ops = Inr s'"
  shows "sg_network (sp_g s') = sg_network (sp_g s) \<and> sg_networkRecord (sp_g s') = sg_networkRecord (sp_g s) \<or>
    (\<exists>v v'. optUint (nj_version (sg_network (sp_g s))) = Inr v \<and> optUint (nj_version (sg_network (sp_g s'))) = Inr v' \<and> v < v')"
  using spineRun_newer [OF assms] unfolding newer_def .

text \<open>
  C25. The threshold computed in doubles is exact while the number of active validators times the numerator is below 2^53: it is the least number of
  signatures whose share of the active validators reaches the fraction.
\<close>

theorem directoryThresholdOf_exact:
  assumes "active = length (filter activeOnDirectory (validatorsOf g))" and "0 < active"
    and "optUint (gj_numerator (sg_globals g)) = Inr num" and "optUint (gj_denominator (sg_globals g)) = Inr den" and "0 < den"
    and "active * num < 2 ^ 53"
  shows "\<exists>t. directoryThresholdOf g = Inr t \<and> (\<forall>n. t \<le> n \<longleftrightarrow> active * num \<le> n * den)"
  using assms by (simp add: directoryThresholdOf_def Let_def dblNat_small ceilQuot_exact ceilDiv_le)

text \<open>
  C19. An honest walk is not stuck: a well-formed record of a later Directory self-anchor, linked to the verified root, that carries no update and has a
  quorum of validators with keys of their own, is accepted, and moves the spine to its block and roots.
\<close>

theorem honest_record_accepted:
  assumes "anchoredRecord j = Inr r" and "sr_updates r = []" and "directorySelfAnchor env (sr_anchor r) = Inr (h, body)"
    and "sp_lastBlock s < ab_minorBlock body" and "ab_minorBlock body \<le> MAX_SAFE_INTEGER" and "ab_rootChain body \<le> MAX_SAFE_INTEGER"
    and "rc_start l = sp_rootChainAnchor s" and "rc_anchor l = ab_rootChainAnchor body" and "receiptValid (en_sha env) l"
    and "quorate env (sp_g s) h (sr_signatures r)" and "ownKeys (sp_g s)"
  shows "\<exists>s'. advanceAnchored env s j (Some l) = Inr s' \<and> sp_lastBlock s' = ab_minorBlock body \<and>
    sp_rootChainAnchor s' = ab_rootChainAnchor body \<and> sp_stateTreeAnchor s' = ab_stateTreeAnchor body \<and> sp_g s' = sp_g s"
  using assms quorate_verifies [OF assms(10,11)]
  by (simp add: advanceAnchored_def laterAnchor_def verifyAndCommit_def checkQuorums_def)

section \<open>A walk of two steps\<close>

text \<open>One active validator and the threshold 1/1. The hash keeps the first 32 bytes, so that a left step yields its own hash; the anchors
  are at the minor blocks 4 and 5 and the root chain indices 1 and 2, and the second carries a write of a definition of version 2.\<close>

definition demoEnv :: spine_env where
  "demoEnv = \<lparr>en_sha = take 32, en_sequencedHashOf = (\<lambda>_. Some [7]), en_verifySignature = (\<lambda>_ h. Inr (h = [7])), en_transaction = (\<lambda>_. Inr ()),
     en_transactionHashOfJson = (\<lambda>_. Inr (replicate 32 3)),
     en_decodeNetworkDefinition = (\<lambda>_. Inr \<lparr>nj_version = JInt 2, nj_validators =
       Some [\<lparr>vj_publicKey = Some ''AB'', vj_publicKeyHash = Some ''cd'', vj_partitions = Some [\<lparr>pj_id = Some ''Directory'', pj_active = True\<rparr>]\<rparr>]\<rparr>),
     en_decodeNetworkGlobals = (\<lambda>_. Inl (Refused ''none''))\<rparr>"

definition demoGlobals :: spine_globals where
  "demoGlobals = \<lparr>sg_network = \<lparr>nj_version = JInt 1, nj_validators =
       Some [\<lparr>vj_publicKey = Some ''ab'', vj_publicKeyHash = Some ''cd'', vj_partitions = Some [\<lparr>pj_id = Some ''directory'', pj_active = True\<rparr>]\<rparr>]\<rparr>,
     sg_networkRecord = [], sg_globals = \<lparr>gj_numerator = JInt 1, gj_denominator = JInt 1\<rparr>, sg_globalsRecord = []\<rparr>"

definition ones :: string where "ones = concat (replicate 32 ''01'')"

definition demoUpdate :: json where
  "demoUpdate = JObj [
     (Key ''transaction'', JObj [(Key ''header'', JObj [(Key ''principal'', JStr DN_NETWORK)]),
       (Key ''body'', JObj [(Key ''type'', JStr ''writeData''), (Key ''entry'', JObj [(Key ''data'', JArr [JStr ''aa''])])])]),
     (Key ''receipt'', JObj [(Key ''start'', JStr (concat (replicate 32 ''03''))), (Key ''anchor'', JStr ones),
       (Key ''entries'', JArr [JObj [(Key ''hash'', JStr ones)]])])]"

definition demoRecord :: "int \<Rightarrow> int \<Rightarrow> json list \<Rightarrow> json" where
  "demoRecord block rci us = JObj [
     (Key ''anchor'', JObj [(Key ''type'', JStr ''sequenced''), (Key ''source'', JStr ''acc://DN.acme''), (Key ''destination'', JStr DN),
       (Key ''message'', JObj [(Key ''type'', JStr ''transaction''), (Key ''transaction'', JObj [
         (Key ''header'', JObj [(Key ''principal'', JStr DN_ANCHORS)]),
         (Key ''body'', JObj [(Key ''type'', JStr ''directoryAnchor''), (Key ''minorBlockIndex'', JInt block), (Key ''rootChainIndex'', JInt rci),
           (Key ''rootChainAnchor'', JStr ones), (Key ''stateTreeAnchor'', JStr ones)])])])]),
     (Key ''signatures'', JArr [JObj [(Key ''publicKey'', JStr ''ab'')]]),
     (Key ''updates'', JArr us)]"

definition demoLink :: "bytes \<Rightarrow> receipt" where
  "demoLink root = \<lparr>rc_start = root, rc_anchor = replicate 32 1, rc_entries = [\<lparr>re_hash = replicate 32 1, re_right = False\<rparr>]\<rparr>"

definition demoStart :: spine where
  "demoStart = \<lparr>sp_g = demoGlobals, sp_nextMajor = 1, sp_lastBlock = 0, sp_rootChainAnchor = replicate 32 0, sp_stateTreeAnchor = replicate 32 0,
     sp_applied = [], sp_refuseReplay = True, sp_rootChain = 0, sp_rciKnown = True\<rparr>"

definition demoMid :: spine where
  "demoMid = demoStart\<lparr>sp_lastBlock := 4, sp_rootChainAnchor := replicate 32 1, sp_stateTreeAnchor := replicate 32 1, sp_rootChain := 1\<rparr>"

definition demoEnd :: spine where
  "demoEnd = demoStart\<lparr>sp_g := demoGlobals\<lparr>sg_network := \<lparr>nj_version = JInt 2, nj_validators =
       Some [\<lparr>vj_publicKey = Some ''AB'', vj_publicKeyHash = Some ''cd'', vj_partitions = Some [\<lparr>pj_id = Some ''Directory'', pj_active = True\<rparr>]\<rparr>]\<rparr>,
       sg_networkRecord := [0xaa]\<rparr>,
     sp_lastBlock := 5, sp_rootChainAnchor := replicate 32 1, sp_stateTreeAnchor := replicate 32 1, sp_rootChain := 2,
     sp_applied := [\<lparr>ap_principal = DN_NETWORK, ap_txHash = replicate 32 3, ap_anchorMinorBlock = 5\<rparr>]\<rparr>"

abbreviation "demoFirst \<equiv> demoRecord 4 1 []"
abbreviation "demoSecond \<equiv> demoRecord 5 2 [demoUpdate]"
abbreviation "demoLink1 \<equiv> demoLink (replicate 32 0)"
abbreviation "demoLink2 \<equiv> demoLink (replicate 32 1)"

definition demoParts :: spine_record where
  "demoParts = \<lparr>
    sr_anchor = \<lparr>am_json = member (Key ''anchor'') demoSecond, am_source = ''acc://DN.acme'', am_destination = DN, am_principal = DN_ANCHORS,
      am_body = JObj [(Key ''type'', JStr ''directoryAnchor''), (Key ''minorBlockIndex'', JInt 5), (Key ''rootChainIndex'', JInt 2),
           (Key ''rootChainAnchor'', JStr ones), (Key ''stateTreeAnchor'', JStr ones)], am_bodyType = ''directoryAnchor''\<rparr>,
    sr_signatures = [JObj [(Key ''publicKey'', JStr ''ab'')]],
    sr_updates = [\<lparr>nu_transaction = Some (member (Key ''transaction'') demoUpdate), nu_receipt = Some (member (Key ''receipt'') demoUpdate)\<rparr>]\<rparr>"

lemma demo_parts: "anchoredRecord demoSecond = Inr demoParts"
  by code_simp

lemma demo_first: "advanceAnchored demoEnv demoStart demoFirst (Some demoLink1) = Inr demoMid"
  by code_simp

lemma demo_second: "advanceAnchored demoEnv demoMid demoSecond (Some demoLink2) = Inr demoEnd"
  by code_simp

lemma demo_walk: "runE (spineStep demoEnv) demoStart [Anchored demoFirst (Some demoLink1), Anchored demoSecond (Some demoLink2)] = Inr demoEnd"
  by (simp add: demo_first demo_second)

theorem spine_step_quorum_witness:
  "\<exists>r h body. recordOf (Anchored demoSecond (Some demoLink2)) = Inr r \<and> directorySelfAnchor demoEnv (sr_anchor r) = Inr (h, body) \<and>
    sp_lastBlock demoEnd = ab_minorBlock body \<and>
    (quorate demoEnv (sp_g demoEnd) h (sr_signatures r) \<or> sr_updates r \<noteq> [] \<and> quorate demoEnv (sp_g demoMid) h (sr_signatures r))"
  using spine_step_quorum [of demoEnv demoMid "Anchored demoSecond (Some demoLink2)" demoEnd] demo_second by auto

theorem honest_record_accepted_witness: "\<exists>s'. advanceAnchored demoEnv demoStart demoFirst (Some demoLink1) = Inr s' \<and> sp_lastBlock s' = 4"
proof -
  define r where "r = demoParts\<lparr>sr_anchor := \<lparr>am_json = member (Key ''anchor'') demoFirst, am_source = ''acc://DN.acme'', am_destination = DN, am_principal = DN_ANCHORS,
      am_body = JObj [(Key ''type'', JStr ''directoryAnchor''), (Key ''minorBlockIndex'', JInt 4), (Key ''rootChainIndex'', JInt 1),
           (Key ''rootChainAnchor'', JStr ones), (Key ''stateTreeAnchor'', JStr ones)], am_bodyType = ''directoryAnchor''\<rparr>, sr_updates := []\<rparr>"
  define body where "body = \<lparr>ab_minorBlock = 4, ab_rootChain = 1, ab_rootChainAnchor = replicate 32 1, ab_stateTreeAnchor = replicate 32 1, ab_source = []\<rparr>"
  have p: "anchoredRecord demoFirst = Inr r" unfolding r_def by code_simp
  have a: "directorySelfAnchor demoEnv (sr_anchor r) = Inr ([7], body)" unfolding r_def body_def by code_simp
  have q: "verifyQuorum demoEnv demoGlobals [7] (sr_signatures r) = Inr ()" unfolding r_def by code_simp
  have k: "ownKeys demoGlobals" by (auto simp: ownKeys_def validatorsOf_def demoGlobals_def inj_on_def)
  have v: "receiptValid (en_sha demoEnv) demoLink1" by code_simp
  have "\<exists>s'. advanceAnchored demoEnv demoStart demoFirst (Some demoLink1) = Inr s' \<and> sp_lastBlock s' = ab_minorBlock body \<and>
    sp_rootChainAnchor s' = ab_rootChainAnchor body \<and> sp_stateTreeAnchor s' = ab_stateTreeAnchor body \<and> sp_g s' = sp_g demoStart"
    using p _ a
  proof (rule honest_record_accepted)
    show "quorate demoEnv (sp_g demoStart) [7] (sr_signatures r)" using verifyQuorum_quorate [OF q] by (simp add: demoStart_def)
  qed (use v k in \<open>simp_all add: r_def body_def demoStart_def demoLink_def MAX_SAFE_INTEGER_def\<close>)
  then show ?thesis by (auto simp: body_def)
qed

theorem spine_walk_invariant_witness: "2 \<le> sp_lastBlock demoEnd \<and> distinct (map ap_txHash (sp_applied demoEnd)) \<and> sp_applied demoEnd \<noteq> []"
proof -
  have n: "newSpine demoGlobals 1 = Inr (demoStart\<lparr>sp_refuseReplay := False\<rparr>)" by (simp add: newSpine_def demoStart_def)
  have s: "demoStart\<lparr>sp_refuseReplay := False, sp_refuseReplay := True\<rparr> = demoStart" by (simp add: demoStart_def)
  have e: "runE (spineStep demoEnv) (demoStart\<lparr>sp_refuseReplay := False\<rparr>) [] = Inr (demoStart\<lparr>sp_refuseReplay := False\<rparr>)" by simp
  have r: "runE (spineStep demoEnv) (demoStart\<lparr>sp_refuseReplay := False, sp_refuseReplay := True\<rparr>)
      [Anchored demoFirst (Some demoLink1), Anchored demoSecond (Some demoLink2)] = Inr demoEnd" using demo_walk by (simp only: s)
  note w = spine_walk_invariant [OF n e r]
  have "\<exists>as. sp_applied demoEnd = [] @ as \<and> distinct (map ap_txHash as)" using w by (auto simp: demoStart_def)
  moreover have "2 \<le> sp_lastBlock demoEnd" using w by simp
  ultimately show ?thesis by (simp add: demoEnd_def)
qed

theorem anchored_walk_continuous_witness:
  "foldReceipt (en_sha demoEnv) (replicate 32 0) (rc_entries demoLink1) = replicate 32 1 \<and>
   (\<exists>h entries i. provenUpdate demoEnv (replicate 32 1) (hd (sr_updates demoParts)) h entries \<and>
      rootChainLeafIndex entries 3 = Some i \<and> 1 < i \<and> i \<le> 2)"
  using anchored_walk_continuous [of demoEnv demoStart "[(demoFirst, demoLink1)]" demoMid demoSecond "Some demoLink2" demoEnd demoParts "hd (sr_updates demoParts)"]
    demo_first demo_second demo_parts
  by (simp add: demoStart_def demoMid_def demoEnd_def demoParts_def)

theorem spine_versions_grow_witness:
  "\<exists>v v'. optUint (nj_version (sg_network demoGlobals)) = Inr v \<and> optUint (nj_version (sg_network (sp_g demoEnd))) = Inr v' \<and> v < v'"
  using spine_versions_grow [OF demo_walk] by (auto simp: demoStart_def demoEnd_def demoGlobals_def)

theorem directoryThresholdOf_exact_witness: "\<exists>t. directoryThresholdOf demoGlobals = Inr t \<and> (\<forall>n. t \<le> n \<longleftrightarrow> 1 * 1 \<le> n * 1)"
  by (rule directoryThresholdOf_exact)
    (simp_all add: demoGlobals_def validatorsOf_def validatorOf_def activeOnDirectory_def lowered_def orEmpty_def lowerChar_def optUint_def)

end
