(* ===== verification/Wire.thy ===== *)
theory Wire
  imports RootIndex
begin

text \<open>
  Accumulate's binary reader as far as receipts and minor-root records need it (the class \<open>Rd\<close> of \<open>packages/verify/src/s3/certify.ts\<close>), and the
  readers of that file over it. A reader is the bytes left to it with its look-ahead: \<open>rd_current\<close> is the field number read ahead (0 none, 0x80 the
  empty object), \<open>rd_seen\<close> the number of fields met. The decoders of a transaction and of a signature are parameters.
\<close>

section \<open>The reader\<close>

definition EMPTY_OBJECT :: nat where "EMPTY_OBJECT = 0x80"
definition MAX_VALUE_SIZE :: nat where "MAX_VALUE_SIZE = 2 ^ 24"

record rd =
  rd_err :: bool
  rd_current :: nat
  rd_seen :: nat
  rd_left :: bytes

definition reader :: "bytes \<Rightarrow> rd" where
  "reader b = \<lparr>rd_err = False, rd_current = 0, rd_seen = 0, rd_left = b\<rparr>"

datatype uv = Uv nat | Eof | Bad

text \<open>The digits of a number from the least significant, seven bits each, at most ten. A digit is added at its place, where the bits before it are zero.\<close>

fun uvDigits :: "nat \<Rightarrow> nat \<Rightarrow> bytes \<Rightarrow> uv \<times> bytes" where
  "uvDigits i v [] = ((if i = 0 then Eof else Bad), [])"
| "uvDigits i v (c # bs) =
     (if i \<ge> 10 then (Bad, c # bs)
      else if unat c < 0x80 then (if i = 9 \<and> unat c > 1 then (Bad, bs) else (Uv (v + unat c * 2 ^ (7 * i)), bs))
      else uvDigits (i + 1) (v + unat c mod 0x80 * 2 ^ (7 * i)) bs)"

definition readUvarint :: "rd \<Rightarrow> uv \<times> rd" where
  "readUvarint r =
     (let (u, bs) = uvDigits 0 0 (rd_left r) in (u, r\<lparr>rd_left := bs, rd_err := rd_err r \<or> u = Bad\<rparr>))"

definition nextField :: "rd \<Rightarrow> bool \<times> rd" where
  "nextField r =
     (if rd_seen r = 0 \<and> rd_left r = [] then (False, r)
      else if rd_seen r = 0 \<and> unat (hd (rd_left r)) = EMPTY_OBJECT then (False, r\<lparr>rd_current := EMPTY_OBJECT\<rparr>)
      else
        case readUvarint r of
          (Uv v, r') \<Rightarrow>
            if v < 1 then (False, r'\<lparr>rd_current := EMPTY_OBJECT\<rparr>)
            else if v > 32 then (False, r'\<lparr>rd_err := True\<rparr>)
            else (True, r'\<lparr>rd_current := v, rd_seen := rd_seen r' + 1\<rparr>)
        | (_, r') \<Rightarrow> (False, r'))"

definition takeField :: "nat \<Rightarrow> rd \<Rightarrow> bool \<times> rd" where
  "takeField n r =
     (if rd_current r < n then (False, r\<lparr>rd_err := True\<rparr>)
      else if rd_current r > n then (False, r)
      else (True, r\<lparr>rd_current := 0\<rparr>))"

definition readField :: "nat \<Rightarrow> rd \<Rightarrow> bool \<times> rd" where
  "readField n r =
     (if rd_err r then (False, r)
      else if rd_current r = 0 then (case nextField r of (True, r') \<Rightarrow> takeField n r' | (False, r') \<Rightarrow> (False, r'))
      else takeField n r)"

text \<open>\<open>trailing\<close>: what follows the last known field opens with a field number above it.\<close>

definition trailing :: "nat \<Rightarrow> rd \<Rightarrow> rd" where
  "trailing lst r =
     (if rd_err r then r
      else
        let (ok, r') = (if rd_current r = 0 then nextField r else (True, r)) in
        if ok \<and> rd_current r' \<noteq> EMPTY_OBJECT \<and> rd_current r' \<le> lst then r'\<lparr>rd_err := True\<rparr> else r')"

definition readNumber :: "rd \<Rightarrow> nat option \<times> rd" where
  "readNumber r =
     (if rd_err r then (None, r)
      else case readUvarint r of (Uv v, r') \<Rightarrow> (Some v, r') | (_, r') \<Rightarrow> (None, r'\<lparr>rd_err := True\<rparr>))"

definition readUint :: "nat \<Rightarrow> rd \<Rightarrow> nat option \<times> rd" where
  "readUint n r = (case readField n r of (True, r') \<Rightarrow> readNumber r' | (False, r') \<Rightarrow> (None, r'))"

definition readInt :: "nat \<Rightarrow> rd \<Rightarrow> rd" where
  "readInt n r = (case readField n r of (True, r') \<Rightarrow> snd (readNumber r') | (False, r') \<Rightarrow> r')"

definition readBool :: "nat \<Rightarrow> rd \<Rightarrow> bool option \<times> rd" where
  "readBool n r =
     (case readUint n r of
        (Some v, r') \<Rightarrow> if v > 1 then (None, r'\<lparr>rd_err := True\<rparr>) else (Some (v = 1), r')
      | (None, r') \<Rightarrow> (None, r'))"

definition readBytes :: "nat \<Rightarrow> rd \<Rightarrow> bytes option \<times> rd" where
  "readBytes n r =
     (case readUint n r of
        (Some l, r') \<Rightarrow>
          if l = 0 then (Some [], r')
          else if length (rd_left r') < l \<or> l \<ge> MAX_VALUE_SIZE then (None, r'\<lparr>rd_err := True\<rparr>)
          else (Some (take l (rd_left r')), r'\<lparr>rd_left := drop l (rd_left r')\<rparr>)
      | (None, r') \<Rightarrow> (None, r'))"

text \<open>\<open>readValue\<close>: the bytes of the value are decoded by \<open>f\<close>, which refuses with \<open>None\<close>.\<close>

definition readValue :: "nat \<Rightarrow> (bytes \<Rightarrow> 'a option) \<Rightarrow> rd \<Rightarrow> 'a option \<times> rd" where
  "readValue n f r =
     (case readUint n r of
        (Some l, r') \<Rightarrow>
          if l > 0 \<and> length (rd_left r') < l then (None, r'\<lparr>rd_err := True\<rparr>)
          else
            let v = f (take l (rd_left r')); r'' = r'\<lparr>rd_left := drop l (rd_left r')\<rparr> in
            (v, if v = None then r''\<lparr>rd_err := True\<rparr> else r'')
      | (None, r') \<Rightarrow> (None, r'))"

section \<open>Readers always shorten what is left\<close>

lemma uvDigits_shorter: "uvDigits i v bs = (u, rest) \<Longrightarrow> length rest \<le> length bs \<and> (\<forall>x. u = Uv x \<longrightarrow> length rest < length bs)"
  by (induction i v bs rule: uvDigits.induct) (auto split: if_splits)

lemma readUvarint_shorter:
  "readUvarint r = (u, r') \<Longrightarrow> length (rd_left r') \<le> length (rd_left r) \<and> (\<forall>x. u = Uv x \<longrightarrow> length (rd_left r') < length (rd_left r))"
  using uvDigits_shorter [of 0 0 "rd_left r"] by (auto simp: readUvarint_def split: prod.splits)

lemma nextField_shorter: "nextField r = (ok, r') \<Longrightarrow> length (rd_left r') \<le> length (rd_left r)"
  using readUvarint_shorter [of r] by (auto simp: nextField_def split: if_splits prod.splits uv.splits dest: less_imp_le)

lemma readField_shorter: "readField n r = (ok, r') \<Longrightarrow> length (rd_left r') \<le> length (rd_left r)"
  using nextField_shorter [of r] by (auto simp: readField_def takeField_def split: if_splits prod.splits bool.splits)

lemma readUint_shorter:
  "readUint n r = (v, r') \<Longrightarrow> length (rd_left r') \<le> length (rd_left r) \<and> (v \<noteq> None \<longrightarrow> length (rd_left r') < length (rd_left r))"
proof -
  assume u: "readUint n r = (v, r')"
  obtain ok r1 where f: "readField n r = (ok, r1)" by fastforce
  note f' = readField_shorter [OF f]
  show ?thesis
  proof (cases ok)
    case True
    obtain x r2 where x: "readUvarint r1 = (x, r2)" by fastforce
    from readUvarint_shorter [OF x] f' u f True x show ?thesis
      by (auto simp: readUint_def readNumber_def split: if_splits uv.splits)
  qed (use u f f' in \<open>auto simp: readUint_def\<close>)
qed

lemma readValue_shorter: "readValue n f r = (Some x, r') \<Longrightarrow> length (rd_left r') < length (rd_left r)"
  using readUint_shorter [of n r] by (fastforce simp: readValue_def Let_def split: prod.splits option.splits if_splits)

lemma readBytes_shorter: "readBytes n r = (Some x, r') \<Longrightarrow> length (rd_left r') < length (rd_left r)"
  using readUint_shorter [of n r] by (fastforce simp: readBytes_def split: prod.splits option.splits if_splits)

lemma readValue_cong [fundef_cong]:
  assumes "n = n'" and "r = r'" and "\<And>b. length b < length (rd_left r') \<Longrightarrow> f b = g b"
  shows "readValue n f r = readValue n' g r'"
proof -
  have "f (take l (rd_left r1)) = g (take l (rd_left r1))" if "readUint n' r' = (Some l, r1)" for l r1
    using readUint_shorter [OF that] by (intro assms(3)) (simp add: min_def)
  then show ?thesis unfolding assms(1,2) by (auto simp: readValue_def Let_def split: prod.splits option.splits)
qed

section \<open>Receipts\<close>

function readMany :: "nat \<Rightarrow> (bytes \<Rightarrow> 'a option) \<Rightarrow> rd \<Rightarrow> 'a list \<times> rd" where
  "readMany n f r =
     (case readValue n f r of
        (Some x, r') \<Rightarrow> (let (xs, r'') = readMany n f r' in (x # xs, r''))
      | (None, r') \<Rightarrow> ([], r'))"
  by pat_completeness auto
termination
  by (relation "measure (\<lambda>(n, f, r). length (rd_left r))") (auto dest: readValue_shorter [OF sym])

declare readMany.simps [simp del]

definition orEmptyBytes :: "bytes option \<Rightarrow> bytes" where
  "orEmptyBytes b = (case b of None \<Rightarrow> [] | Some x \<Rightarrow> x)"

definition entryOf :: "bytes \<Rightarrow> receipt_entry option" where
  "entryOf b =
     (let (right, r1) = readBool 1 (reader b); (h, r2) = readBytes 2 r1 in
      if rd_err r2 then None else Some \<lparr>re_hash = orEmptyBytes h, re_right = (right = Some True)\<rparr>)"

definition readReceipt :: "rd \<Rightarrow> receipt option" where
  "readReceipt r0 =
     (let (start, r1) = readBytes 1 r0; r2 = readInt 2 r1; (_, r3) = readBytes 3 r2; r4 = readInt 4 r3;
          (anc, r5) = readBytes 5 r4; (es, r6) = readMany 6 entryOf r5 in
      if rd_err r6 then None else Some \<lparr>rc_start = orEmptyBytes start, rc_anchor = orEmptyBytes anc, rc_entries = es\<rparr>)"

definition decodeReceiptBin :: "bytes \<Rightarrow> receipt option" where
  "decodeReceiptBin b = readReceipt (reader b)"

definition receiptDecodes :: "bytes \<Rightarrow> bool" where
  "receiptDecodes b = (decodeReceiptBin b \<noteq> None)"

section \<open>Records and messages\<close>

definition accept :: "bool \<Rightarrow> unit option" where
  "accept b = (if b then Some () else None)"

definition updateDecodes :: "(bytes \<Rightarrow> bool) \<Rightarrow> bytes \<Rightarrow> bool" where
  "updateDecodes transactionDecodes b =
     (let (_, r1) = readValue 1 (\<lambda>s. accept (s = [] \<or> transactionDecodes s)) (reader b);
          (_, r2) = readValue 2 (\<lambda>s. accept (receiptDecodes s)) r1 in \<not> rd_err r2)"

record list_bins =
  lb_elements :: "bytes list"
  lb_receipt :: "bytes option"
  lb_continued :: "bytes option"

function readElements :: "rd \<Rightarrow> bytes list \<times> rd" where
  "readElements r =
     (case readBytes 2 r of
        (Some x, r') \<Rightarrow> (let (xs, r'') = readElements r' in (x # xs, r''))
      | (None, r') \<Rightarrow> ([], r'))"
  by pat_completeness auto
termination
  by (relation "measure (\<lambda>r. length (rd_left r))") (auto dest: readBytes_shorter [OF sym])

declare readElements.simps [simp del]

definition receiptListBins :: "bytes \<Rightarrow> list_bins" where
  "receiptListBins b =
     (let (_, r1) = readValue 1 (\<lambda>s. Some ()) (reader b); (els, r2) = readElements r1;
          (rc, r3) = readValue 3 Some r2; (cont, r4) = readValue 4 Some r3 in
      \<lparr>lb_elements = els, lb_receipt = rc, lb_continued = cont\<rparr>)"

definition receiptListDecodes :: "bytes \<Rightarrow> bool" where
  "receiptListDecodes b =
     (let (_, r1) = readValue 1 (\<lambda>s. Some ()) (reader b); (_, r2) = readElements r1;
          (_, r3) = readValue 3 (\<lambda>s. accept (s = [] \<or> receiptDecodes s)) r2;
          (_, r4) = readValue 4 (\<lambda>s. accept (s = [] \<or> receiptDecodes s)) r3 in \<not> rd_err r4)"

lemma readUint_reader: "readUint n (reader b) = (Some v, r) \<Longrightarrow> length (rd_left r) < length b"
  using readUint_shorter [of n "reader b" "Some v" r] by (simp add: reader_def)

text \<open>The message types the reader knows, by their numbers of the table \<open>MessageType\<close>.\<close>

definition MESSAGE_TRANSACTION :: nat where "MESSAGE_TRANSACTION = 1"
definition MESSAGE_SIGNATURE :: nat where "MESSAGE_SIGNATURE = 2"
definition MESSAGE_SEQUENCED :: nat where "MESSAGE_SEQUENCED = 5"

function messageDecodes :: "(bytes \<Rightarrow> bool) \<Rightarrow> (bytes \<Rightarrow> bool) \<Rightarrow> bytes \<Rightarrow> bool" where
  "messageDecodes td sd b =
     (case readUint 1 (reader b) of
        (None, _) \<Rightarrow> False
      | (Some ty, r) \<Rightarrow>
          if ty = MESSAGE_SEQUENCED then
            (let (_, r1) = readValue 2 (\<lambda>s. accept (messageDecodes td sd s)) r; (_, r2) = readBytes 3 r1; (_, r3) = readBytes 4 r2;
                 (_, r4) = readUint 5 r3 in \<not> rd_err r4)
          else if ty = MESSAGE_TRANSACTION then
            (let (_, r1) = readValue 2 (\<lambda>s. accept (s = [] \<or> td s)) r in \<not> rd_err r1)
          else if ty = MESSAGE_SIGNATURE then
            (let (_, r1) = readValue 2 (\<lambda>s. accept (s = [] \<or> sd s)) r; (_, r2) = readBytes 3 r1 in \<not> rd_err r2)
          else False)"
  by pat_completeness auto
termination
  by (relation "measure (\<lambda>(td, sd, b). length b)") (auto dest: readUint_reader [OF sym])

declare messageDecodes.simps [simp del]

definition recordDecodes :: "(bytes \<Rightarrow> bool) \<Rightarrow> (bytes \<Rightarrow> bool) \<Rightarrow> bytes \<Rightarrow> bool" where
  "recordDecodes td sd b =
     (let (_, r1) = readValue 1 (\<lambda>s. accept (s \<noteq> [] \<and> messageDecodes td sd s)) (reader b);
          (_, r2) = readMany 2 (\<lambda>s. accept (sd s)) r1; (_, r3) = readMany 3 (\<lambda>s. accept (updateDecodes td s)) r2;
          (_, r4) = readValue 4 (\<lambda>s. accept (receiptListDecodes s)) r3 in \<not> rd_err r4)"

definition updateBins :: "bytes \<Rightarrow> (bytes option \<times> bytes option) option" where
  "updateBins b = (let (tx, r1) = readBytes 1 (reader b); (rc, r2) = readBytes 2 r1 in if rd_err r2 then None else Some (tx, rc))"

definition recordUpdateBins :: "bytes \<Rightarrow> (bytes option \<times> bytes option) list" where
  "recordUpdateBins b =
     (let (_, r1) = readValue 1 (\<lambda>s. Some ()) (reader b); (_, r2) = readMany 2 (\<lambda>s. Some ()) r1 in fst (readMany 3 updateBins r2))"

definition recordHasRootProof :: "(bytes \<Rightarrow> bool) \<Rightarrow> bytes \<Rightarrow> bool" where
  "recordHasRootProof td b =
     (let (_, r1) = readValue 1 (\<lambda>s. Some ()) (reader b); (_, r2) = readMany 2 (\<lambda>s. Some ()) r1;
          (_, r3) = readMany 3 (\<lambda>s. accept (updateDecodes td s)) r2; (ok, r4) = readValue 4 (\<lambda>s. Some ()) r3 in
      ok \<noteq> None \<and> \<not> rd_err r4)"

section \<open>Reading what a writer wrote\<close>

text \<open>A stream of fields: the number of each (1 to 32, one byte) and its payload.\<close>

type_synonym fields = "(nat \<times> bytes) list"

definition stream :: "fields \<Rightarrow> bytes" where
  "stream fs = concat (map (\<lambda>(n, p). of_nat n # p) fs)"

lemma stream_simps [simp]: "stream [] = []" "stream ((n, p) # fs) = of_nat n # p @ stream fs"
  by (simp_all add: stream_def)

text \<open>A reader stands before the fields \<open>fs\<close>, the number of the first possibly read ahead.\<close>

definition stands :: "rd \<Rightarrow> fields \<Rightarrow> bool" where
  "stands r fs \<longleftrightarrow> \<not> rd_err r \<and> (\<forall>(n, p)\<in>set fs. 1 \<le> n \<and> n \<le> 32) \<and>
     (rd_current r = 0 \<and> rd_left r = stream fs \<or>
      (\<exists>n p gs. fs = (n, p) # gs \<and> rd_current r = n \<and> 0 < rd_seen r \<and> rd_left r = p @ stream gs))"

definition after :: "rd \<Rightarrow> bytes \<Rightarrow> bool" where
  "after r b \<longleftrightarrow> \<not> rd_err r \<and> rd_current r = 0 \<and> 0 < rd_seen r \<and> rd_left r = b"

lemma nextField_one: "1 \<le> n \<Longrightarrow> n \<le> 32 \<Longrightarrow> rd_left r = of_nat n # b \<Longrightarrow>
    nextField r = (True, r\<lparr>rd_left := b, rd_current := n, rd_seen := rd_seen r + 1\<rparr>)"
  by (simp add: nextField_def EMPTY_OBJECT_def readUvarint_def)

lemma readField_here:
  assumes "stands r ((n, p) # fs)"
  shows "\<exists>r'. readField n r = (True, r') \<and> after r' (p @ stream fs)"
proof -
  have n: "\<not> rd_err r" "1 \<le> n" "n \<le> 32" using assms by (auto simp: stands_def)
  from assms consider "rd_current r = 0" "rd_left r = of_nat n # p @ stream fs" |
    "rd_current r = n" "0 < rd_seen r" "rd_left r = p @ stream fs" by (auto simp: stands_def)
  then show ?thesis
  proof cases
    case 1
    with n show ?thesis by (auto simp: readField_def nextField_one takeField_def after_def)
  next
    case 2
    with n show ?thesis by (auto simp: readField_def takeField_def after_def)
  qed
qed

lemma readField_absent:
  assumes "stands r fs" and "\<And>k p gs. fs = (k, p) # gs \<Longrightarrow> n < k"
  shows "\<exists>r'. readField n r = (False, r') \<and> stands r' fs"
proof (cases fs)
  case Nil
  with assms have r: "\<not> rd_err r" "rd_current r = 0" "rd_left r = []" by (auto simp: stands_def)
  then have "nextField r = (False, r)" by (simp add: nextField_def readUvarint_def)
  with r Nil show ?thesis by (simp add: readField_def stands_def)
next
  case (Cons f gs)
  obtain k p where k: "f = (k, p)" by (cases f)
  with Cons assms have n: "n < k" "\<not> rd_err r" "1 \<le> k" "k \<le> 32" by (auto simp: stands_def)
  from assms(1) Cons k consider "rd_current r = 0" "rd_left r = of_nat k # p @ stream gs" |
    "rd_current r = k" "0 < rd_seen r" "rd_left r = p @ stream gs" by (auto simp: stands_def)
  then show ?thesis
  proof cases
    case 1
    with n have "readField n r = (False, r\<lparr>rd_left := p @ stream gs, rd_current := k, rd_seen := rd_seen r + 1\<rparr>)"
      using nextField_one [OF n(3,4) 1(2)] 1(1) by (simp add: readField_def takeField_def)
    with assms(1) Cons k show ?thesis by (auto simp: stands_def)
  next
    case 2
    with n have "readField n r = (False, r)" by (simp add: readField_def takeField_def)
    with assms(1) show ?thesis by simp
  qed
qed

lemma stands_reader: "\<forall>(n, p)\<in>set fs. 1 \<le> n \<and> n \<le> 32 \<Longrightarrow> stands (reader (stream fs)) fs"
  by (simp add: stands_def reader_def)

lemma byte_of_int: "0 \<le> m \<Longrightarrow> m < 256 \<Longrightarrow> unat (of_int m :: byte) = nat m"
proof -
  assume m: "0 \<le> m" "m < 256"
  then have "(of_int m :: byte) = of_nat (nat m)" by simp
  with m show ?thesis by (simp only: unat_of_nat_byte) simp
qed

lemma uvDigits_uvarint:
  "0 \<le> m \<Longrightarrow> nat m * 2 ^ (7 * i) < 2 ^ 64 \<Longrightarrow> i \<le> 9 \<Longrightarrow> uvDigits i v (uvarint m @ rest) = (Uv (v + nat m * 2 ^ (7 * i)), rest)"
proof (induction m arbitrary: i v rule: uvarint.induct)
  case (1 m)
  show ?case
  proof (cases "0x80 \<le> m")
    case False
    then have u: "uvarint m = [of_int m]" by (subst uvarint.simps) simp
    have c: "unat (of_int m :: byte) = nat m" using byte_of_int [of m] False 1(2) by simp
    have "\<not> (i = 9 \<and> 1 < nat m)" using 1(3) by auto
    with c False 1(2,4) show ?thesis by (auto simp: u)
  next
    case True
    then have u: "uvarint m = of_int (m mod 0x80 + 0x80) # uvarint (m div 0x80)" by (subst uvarint.simps) simp
    have r: "0 \<le> m mod 0x80" "m mod 0x80 < 0x80" by simp_all
    then have c: "unat (of_int (m mod 0x80 + 0x80) :: byte) = nat (m mod 0x80) + 0x80" using byte_of_int [of "m mod 0x80 + 0x80"] by (simp add: nat_add_distrib)
    have d: "nat m = nat (m div 0x80) * 0x80 + nat (m mod 0x80)" using 1(2) by (simp add: nat_div_distrib nat_mod_distrib)
    have "i \<noteq> 9" using 1(3) True by auto
    then have i: "i + 1 \<le> 9" using 1(4) by simp
    have "nat (m div 0x80) * 2 ^ (7 * (i + 1)) \<le> nat m * 2 ^ (7 * i)"
      using d by (simp add: power_add)
    then have less: "nat (m div 0x80) * 2 ^ (7 * (i + 1)) < 2 ^ 64" using 1(3) by linarith
    have "uvDigits i v (uvarint m @ rest) = uvDigits (i + 1) (v + nat (m mod 0x80) * 2 ^ (7 * i)) (uvarint (m div 0x80) @ rest)"
      using i c r by (simp add: u)
    also have "\<dots> = (Uv (v + nat (m mod 0x80) * 2 ^ (7 * i) + nat (m div 0x80) * 2 ^ (7 * (i + 1))), rest)"
      using True less i by (intro 1(1)) simp_all
    also have "v + nat (m mod 0x80) * 2 ^ (7 * i) + nat (m div 0x80) * 2 ^ (7 * (i + 1)) = v + nat m * 2 ^ (7 * i)"
      by (subst d) (simp add: power_add algebra_simps)
    finally show ?thesis .
  qed
qed

definition pUint :: "nat \<Rightarrow> bytes" where "pUint n = uvarint (int n)"
definition pBytes :: "bytes \<Rightarrow> bytes" where "pBytes b = pUint (length b) @ b"

lemma readNumber_after: "after r (pUint n @ b) \<Longrightarrow> n < 2 ^ 64 \<Longrightarrow> \<exists>r'. readNumber r = (Some n, r') \<and> after r' b"
  using uvDigits_uvarint [of "int n" 0 0 b] by (auto simp: readNumber_def readUvarint_def after_def pUint_def)

lemma stands_after: "after r (stream fs) \<Longrightarrow> \<forall>(n, p)\<in>set fs. 1 \<le> n \<and> n \<le> 32 \<Longrightarrow> stands r fs"
  by (simp add: after_def stands_def)

lemma readUint_here: "stands r ((n, pUint v) # fs) \<Longrightarrow> v < 2 ^ 64 \<Longrightarrow> \<exists>r'. readUint n r = (Some v, r') \<and> stands r' fs"
  using readField_here [of r n "pUint v" fs] readNumber_after [of _ v "stream fs"] stands_after [of _ fs]
  by (fastforce simp: readUint_def stands_def)

text \<open>The fields that follow have larger numbers.\<close>

definition above :: "nat \<Rightarrow> fields \<Rightarrow> bool" where
  "above n fs \<longleftrightarrow> (\<forall>(k, p)\<in>set fs. n < k)"

lemma readUint_absent: "stands r fs \<Longrightarrow> above n fs \<Longrightarrow> \<exists>r'. readUint n r = (None, r') \<and> stands r' fs"
  using readField_absent [of r fs n] by (fastforce simp: readUint_def above_def)

lemma readField_length: "stands r ((n, pBytes b) # fs) \<Longrightarrow> length b < 2 ^ 64 \<Longrightarrow>
    \<exists>r'. readUint n r = (Some (length b), r') \<and> after r' (b @ stream fs)"
  using readField_here [of r n "pBytes b" fs] readNumber_after [of _ "length b" "b @ stream fs"]
  by (fastforce simp: readUint_def pBytes_def)

lemma readBytes_here:
  assumes "stands r ((n, pBytes b) # fs)" and "length b < 2 ^ 24"
  shows "\<exists>r'. readBytes n r = (Some b, r') \<and> stands r' fs"
proof -
  obtain r' where "readUint n r = (Some (length b), r')" "after r' (b @ stream fs)"
    using readField_length [OF assms(1)] assms(2) by auto
  moreover from this have "stands (r'\<lparr>rd_left := stream fs\<rparr>) fs" using assms(1) by (intro stands_after) (auto simp: after_def stands_def)
  moreover from calculation have "r'\<lparr>rd_left := stream fs\<rparr> = r'" if "b = []" using that by (simp add: after_def)
  ultimately show ?thesis using assms(2) by (cases "b = []") (auto simp: readBytes_def after_def MAX_VALUE_SIZE_def)
qed

lemma readBytes_absent: "stands r fs \<Longrightarrow> above n fs \<Longrightarrow> \<exists>r'. readBytes n r = (None, r') \<and> stands r' fs"
  using readUint_absent [of r fs n] by (auto simp: readBytes_def)

lemma readValue_here:
  assumes "stands r ((n, pBytes b) # fs)" and "length b < 2 ^ 64" and "f b = Some x"
  shows "\<exists>r'. readValue n f r = (Some x, r') \<and> stands r' fs"
proof -
  obtain r' where "readUint n r = (Some (length b), r')" "after r' (b @ stream fs)"
    using readField_length [OF assms(1,2)] by auto
  moreover from this have "stands (r'\<lparr>rd_left := stream fs\<rparr>) fs" using assms(1) by (intro stands_after) (auto simp: after_def stands_def)
  ultimately show ?thesis using assms(3) by (auto simp: readValue_def after_def Let_def)
qed

lemma readValue_absent: "stands r fs \<Longrightarrow> above n fs \<Longrightarrow> \<exists>r'. readValue n f r = (None, r') \<and> stands r' fs"
  using readUint_absent [of r fs n] by (auto simp: readValue_def)

lemma readMany_here:
  "stands r (map (\<lambda>b. (n, pBytes b)) bs @ fs) \<Longrightarrow> above n fs \<Longrightarrow> \<forall>b\<in>set bs. length b < 2 ^ 64 \<Longrightarrow> list_all2 (\<lambda>b x. f b = Some x) bs xs \<Longrightarrow>
     \<exists>r'. readMany n f r = (xs, r') \<and> stands r' fs"
proof (induction bs arbitrary: r xs)
  case Nil
  then obtain r' where "readValue n f r = (None, r')" "stands r' fs" using readValue_absent [of r fs n f] by auto
  with Nil show ?case by (subst readMany.simps) simp
next
  case (Cons b bs)
  then obtain x ys where x: "xs = x # ys" "f b = Some x" "list_all2 (\<lambda>b x. f b = Some x) bs ys" by (auto simp: list_all2_Cons1)
  obtain r1 where r1: "readValue n f r = (Some x, r1)" "stands r1 (map (\<lambda>b. (n, pBytes b)) bs @ fs)"
    using readValue_here [of r n b _ f x] Cons.prems x(2) by auto
  then obtain r2 where "readMany n f r1 = (ys, r2)" "stands r2 fs" using Cons.IH [of r1 ys] Cons.prems x(3) by auto
  with r1 x(1) show ?case by (subst readMany.simps) simp
qed

section \<open>Receipts as they are written\<close>

text \<open>The generated \<open>MarshalBinary\<close>: a member is written when it is not zero, an object with no member as the byte 0x80.\<close>

definition object :: "fields \<Rightarrow> bytes" where
  "object fs = (if fs = [] then [0x80] else stream fs)"

definition optField :: "nat \<Rightarrow> bytes \<Rightarrow> fields" where
  "optField n b = (if b = [] then [] else [(n, pBytes b)])"

definition optInt :: "nat \<Rightarrow> nat \<Rightarrow> fields" where
  "optInt n v = (if v = 0 then [] else [(n, pUint v)])"

definition entryFields :: "receipt_entry \<Rightarrow> fields" where
  "entryFields e = (if re_right e then [(1, pUint 1)] else []) @ optField 2 (re_hash e)"

text \<open>The indices and the end are written too; the reader passes over them. \<open>extra\<close> is data after the known fields.\<close>

definition receiptFields :: "receipt \<Rightarrow> nat \<Rightarrow> bytes \<Rightarrow> nat \<Rightarrow> fields" where
  "receiptFields r si endb ei =
     optField 1 (rc_start r) @ optInt 2 si @ optField 3 endb @ optInt 4 ei @ optField 5 (rc_anchor r) @
     map (\<lambda>b. (6, pBytes b)) (map (object \<circ> entryFields) (rc_entries r))"

definition encodeReceipt :: "receipt \<Rightarrow> nat \<Rightarrow> bytes \<Rightarrow> nat \<Rightarrow> fields \<Rightarrow> bytes" where
  "encodeReceipt r si endb ei extra = object (receiptFields r si endb ei @ extra)"

definition shortEntry :: "receipt_entry \<Rightarrow> bool" where
  "shortEntry e \<longleftrightarrow> length (re_hash e) < 2 ^ 24 \<and> length (object (entryFields e)) < 2 ^ 64"

lemma above_simps [simp]:
  "above n []" "above n (f # fs) \<longleftrightarrow> n < fst f \<and> above n fs" "above n (fs @ gs) \<longleftrightarrow> above n fs \<and> above n gs"
  "above n (optField k b) \<longleftrightarrow> b = [] \<or> n < k" "above n (optInt k v) \<longleftrightarrow> v = 0 \<or> n < k" "above n (map (\<lambda>b. (k, pBytes b)) bs) \<longleftrightarrow> bs = [] \<or> n < k"
  by (cases bs) (auto simp: above_def optField_def optInt_def)

lemma readBytes_opt:
  "stands r (optField n b @ fs) \<Longrightarrow> above n fs \<Longrightarrow> length b < 2 ^ 24 \<Longrightarrow> \<exists>r' v. readBytes n r = (v, r') \<and> orEmptyBytes v = b \<and> stands r' fs"
  using readBytes_here [of r n b fs] readBytes_absent [of r fs n]
  by (cases "b = []") (auto simp: optField_def orEmptyBytes_def)

lemma readInt_opt: "stands r (optInt n v @ fs) \<Longrightarrow> above n fs \<Longrightarrow> v < 2 ^ 64 \<Longrightarrow> stands (readInt n r) fs"
proof -
  assume a: "stands r (optInt n v @ fs)" "above n fs" "v < 2 ^ 64"
  have i: "readInt n r = snd (readUint n r)" by (simp add: readInt_def readUint_def split: prod.splits bool.splits)
  show ?thesis
  proof (cases "v = 0")
    case True
    with a readUint_absent [of r fs n] show ?thesis by (auto simp: i optInt_def)
  next
    case False
    with a readUint_here [of r n v fs] show ?thesis by (auto simp: i optInt_def)
  qed
qed

lemma entryOf_written:
  assumes "length (re_hash e) < 2 ^ 24"
  shows "entryOf (object (entryFields e)) = Some e"
proof (cases "entryFields e = []")
  case True
  then have "e = \<lparr>re_hash = [], re_right = False\<rparr>" by (cases e) (auto simp: entryFields_def optField_def split: if_splits)
  then show ?thesis unfolding True object_def
    by (simp add: entryOf_def readBool_def readUint_def readField_def nextField_def reader_def EMPTY_OBJECT_def readBytes_def takeField_def orEmptyBytes_def)
next
  case False
  have "stands (reader (stream (entryFields e))) (entryFields e)"
    by (rule stands_reader) (auto simp: entryFields_def optField_def)
  then obtain b r1 where b: "readBool 1 (reader (stream (entryFields e))) = (b, r1)" "(b = Some True) = re_right e" "stands r1 (optField 2 (re_hash e))"
  proof (cases "re_right e")
    case True
    then show thesis using that \<open>stands _ _\<close> readUint_here [of _ 1 1 "optField 2 (re_hash e)"] by (fastforce simp: readBool_def entryFields_def)
  next
    case False
    then show thesis using that \<open>stands _ _\<close> readUint_absent [of _ "optField 2 (re_hash e)" 1] by (fastforce simp: readBool_def entryFields_def)
  qed
  obtain r2 h where "readBytes 2 r1 = (h, r2)" "orEmptyBytes h = re_hash e" "stands r2 []"
    using readBytes_opt [of r1 2 "re_hash e" "[]"] b(3) assms by auto
  with b False show ?thesis by (auto simp: entryOf_def object_def stands_def)
qed

lemma decodeReceiptBin_fields:
  assumes "length (rc_start r) < 2 ^ 24" "length (rc_anchor r) < 2 ^ 24" "length endb < 2 ^ 24" "si < 2 ^ 64" "ei < 2 ^ 64"
    and entries: "\<forall>e\<in>set (rc_entries r). shortEntry e"
    and extra: "above 6 extra" "\<forall>(n, p)\<in>set extra. 1 \<le> n \<and> n \<le> 32" and ne: "receiptFields r si endb ei @ extra \<noteq> []"
  shows "decodeReceiptBin (encodeReceipt r si endb ei extra) = Some r"
proof -
  define bs where "bs = map (object \<circ> entryFields) (rc_entries r)"
  let ?es = "map (\<lambda>b. (6, pBytes b)) bs"
  have low: "above n extra" if "n \<le> 6" for n using extra(1) that by (auto simp: above_def)
  have "\<forall>(n, p)\<in>set (receiptFields r si endb ei @ extra). 1 \<le> n \<and> n \<le> 32"
    using extra(2) by (auto simp: receiptFields_def optField_def optInt_def)
  then have "stands (reader (encodeReceipt r si endb ei extra)) (receiptFields r si endb ei @ extra)"
    unfolding encodeReceipt_def object_def if_not_P [OF ne] by (rule stands_reader)
  then have s: "stands (reader (encodeReceipt r si endb ei extra))
      (optField 1 (rc_start r) @ optInt 2 si @ optField 3 endb @ optInt 4 ei @ optField 5 (rc_anchor r) @ ?es @ extra)"
    by (simp add: receiptFields_def bs_def)
  have "above 1 (optInt 2 si @ optField 3 endb @ optInt 4 ei @ optField 5 (rc_anchor r) @ ?es @ extra)"
    using low [of 1] by simp
  from readBytes_opt [OF s this assms(1)] obtain v1 r1 where 1: "readBytes 1 (reader (encodeReceipt r si endb ei extra)) = (v1, r1)"
      "orEmptyBytes v1 = rc_start r" "stands r1 (optInt 2 si @ optField 3 endb @ optInt 4 ei @ optField 5 (rc_anchor r) @ ?es @ extra)"
    by blast
  have 2: "stands (readInt 2 r1) (optField 3 endb @ optInt 4 ei @ optField 5 (rc_anchor r) @ ?es @ extra)"
    using 1(3) by (rule readInt_opt) (use low assms(4) in auto)
  obtain v3 r3 where 3: "readBytes 3 (readInt 2 r1) = (v3, r3)" "stands r3 (optInt 4 ei @ optField 5 (rc_anchor r) @ ?es @ extra)"
    using readBytes_opt [OF 2] assms(3) low by auto
  have 4: "stands (readInt 4 r3) (optField 5 (rc_anchor r) @ ?es @ extra)"
    using 3(2) by (rule readInt_opt) (use low assms(5) in auto)
  obtain v5 r5 where 5: "readBytes 5 (readInt 4 r3) = (v5, r5)" "orEmptyBytes v5 = rc_anchor r" "stands r5 (?es @ extra)"
    using readBytes_opt [OF 4] assms(2) low by auto
  have "list_all2 (\<lambda>b x. entryOf b = Some x) bs (rc_entries r)"
    using entries by (auto simp: bs_def list_all2_conv_all_nth shortEntry_def entryOf_written)
  moreover have "\<forall>b\<in>set bs. length b < 2 ^ 64" using entries by (auto simp: bs_def shortEntry_def)
  ultimately obtain r6 where "readMany 6 entryOf r5 = (rc_entries r, r6)" "stands r6 extra"
    using readMany_here [OF 5(3) extra(1)] by blast
  with 1 3 5 show ?thesis by (simp add: decodeReceiptBin_def readReceipt_def stands_def)
qed

text \<open>
  C35. The binary receipt reader reads back what is written: a receipt's fields in order, whatever its indices and end, and whatever extra data with field
  numbers 7 to 32 follows the known fields, decode to exactly the receipt's start, anchor and entries.
\<close>

theorem decodeReceiptBin_roundtrip:
  assumes "length (rc_start r) < 2 ^ 24" "length (rc_anchor r) < 2 ^ 24" "length endb < 2 ^ 24" "si < 2 ^ 64" "ei < 2 ^ 64"
    and "\<forall>e\<in>set (rc_entries r). shortEntry e" and "\<forall>(n, p)\<in>set extra. 6 < n \<and> n \<le> 32"
  shows "decodeReceiptBin (encodeReceipt r si endb ei extra) = Some r"
proof (cases "receiptFields r si endb ei @ extra = []")
  case True
  then have "r = \<lparr>rc_start = [], rc_anchor = [], rc_entries = []\<rparr>"
    by (cases r) (auto simp: receiptFields_def optField_def optInt_def split: if_splits)
  then show ?thesis unfolding encodeReceipt_def True object_def
    by (simp add: decodeReceiptBin_def readReceipt_def readUint_def readInt_def readField_def nextField_def reader_def EMPTY_OBJECT_def readBytes_def
        takeField_def orEmptyBytes_def readMany.simps readValue_def)
next
  case False
  show ?thesis using assms(1-6) _ _ False by (rule decodeReceiptBin_fields) (use assms(7) in \<open>auto simp: above_def\<close>)
qed

theorem decodeReceiptBin_roundtrip_witness:
  "decodeReceiptBin (encodeReceipt \<lparr>rc_start = [1], rc_anchor = [2], rc_entries = [\<lparr>re_hash = [3], re_right = True\<rparr>, \<lparr>re_hash = [], re_right = False\<rparr>]\<rparr>
     300 [9] 0 [(7, [5])]) = Some \<lparr>rc_start = [1], rc_anchor = [2], rc_entries = [\<lparr>re_hash = [3], re_right = True\<rparr>, \<lparr>re_hash = [], re_right = False\<rparr>]\<rparr>"
  by (rule decodeReceiptBin_roundtrip)
    (simp_all add: shortEntry_def object_def entryFields_def optField_def pBytes_def pUint_def uvarint.simps)

end
