(* ===== verification/AbiDec.thy ===== *)
theory AbiDec
  imports Text
begin

text \<open>
  The strict ABI decoder (\<open>packages/verify/src/proof-v2/identity/abidec.ts\<close>): no padding, offset or length slack is tolerated. An error is its
  kind; the field path, the byte and the figures of its message are not modelled. A byte offset is a natural number. \<open>keccak_256\<close> of the package
  \<open>@noble/hashes\<close> is the parameter \<open>K\<close>.
\<close>

section \<open>Types and values\<close>

datatype abi_kind = Selector | Truncated | Offset | Length | Cap | Padding | Word | Trailing | Shape | DivisionByZero

datatype ty =
    TU nat
  | TA
  | TB
  | TW
  | TE nat
  | TY
  | TS
  | TD ty nat
  | TF ty nat
  | TT "(string \<times> ty) list"

datatype val = V (vw: bytes) (vb: bytes) (items: "val list")

definition noV :: val where "noV = V (replicate 32 0) [] []"

definition isZero :: "bytes \<Rightarrow> bool" where
  "isZero b = list_all (\<lambda>x. x = 0) b"

text \<open>\<open>bigOf\<close> and \<open>wordOf\<close> of \<open>identity/bytes.ts\<close>: a big-endian number, and the low 256 bits of one as a word.\<close>

definition bigOf :: "bytes \<Rightarrow> nat" where "bigOf b = be_nat b"

fun wordBytes :: "nat \<Rightarrow> nat \<Rightarrow> bytes" where
  "wordBytes 0 n = []"
| "wordBytes (Suc k) n = wordBytes k (n div 256) @ [of_nat n]"

definition wordOf :: "nat \<Rightarrow> bytes" where "wordOf n = wordBytes 32 n"

fun dynamic :: "ty \<Rightarrow> bool" where
  "dynamic TY = True"
| "dynamic TS = True"
| "dynamic (TD t c) = True"
| "dynamic (TF t n) = dynamic t"
| "dynamic (TT fs) = list_ex (\<lambda>f. dynamic (snd f)) fs"
| "dynamic _ = False"

fun headSize :: "ty \<Rightarrow> nat" where
  "headSize (TF t n) = (if dynamic t then 32 else n * headSize t)"
| "headSize (TT fs) = (if list_ex (\<lambda>f. dynamic (snd f)) fs then 32 else sum_list (map (\<lambda>f. headSize (snd f)) fs))"
| "headSize _ = 32"

section \<open>The decoder\<close>

definition wordAt :: "bytes \<Rightarrow> nat \<Rightarrow> abi_kind + bytes" where
  "wordAt buf off = (if off + 32 > length buf then Inl Truncated else Inr (take 32 (drop off buf)))"

definition lengthAt :: "bytes \<Rightarrow> nat \<Rightarrow> abi_kind + nat" where
  "lengthAt buf off =
     bindE (wordAt buf off) (\<lambda>w. if \<not> isZero (take 24 w) then Inl Length else Inr (bigOf (drop 24 w)))"

text \<open>Whether a word holds a value of a scalar type.\<close>

fun fits :: "ty \<Rightarrow> bytes \<Rightarrow> bool" where
  "fits (TU bits) w = (bits < 256 \<longrightarrow> isZero (take ((256 - bits) div 8) w))"
| "fits TA w = isZero (take 12 w)"
| "fits TB w = (isZero (take 31 w) \<and> w ! 31 \<le> 1)"
| "fits (TE mx) w = (isZero (take 31 w) \<and> unat (w ! 31) \<le> mx)"
| "fits _ w = True"

definition scalar :: "bytes \<Rightarrow> ty \<Rightarrow> nat \<Rightarrow> abi_kind + val" where
  "scalar buf t off = bindE (wordAt buf off) (\<lambda>w. if fits t w then Inr (V w [] []) else Inl Word)"

text \<open>The body of \<open>seq\<close> over the elements, with the decoder of an element as an argument: \<open>pos\<close> is the end of the previous tail,
  \<open>hp\<close> the head position.\<close>

fun seqLoop :: "bytes \<Rightarrow> (ty \<Rightarrow> nat \<Rightarrow> abi_kind + val \<times> nat) \<Rightarrow> nat \<Rightarrow> ty list \<Rightarrow> nat \<Rightarrow> nat \<Rightarrow> abi_kind + val list \<times> nat" where
  "seqLoop buf dec base [] pos hp = Inr ([], pos)"
| "seqLoop buf dec base (t # ts) pos hp =
     (if \<not> dynamic t then
        bindE (dec t hp) (\<lambda>(v, _).
        bindE (seqLoop buf dec base ts pos (hp + headSize t)) (\<lambda>(vs, e). Inr (v # vs, e)))
      else
        bindE (mapErr (\<lambda>k. if k = Length then Offset else k) (lengthAt buf hp)) (\<lambda>off.
        if off > length buf \<or> base + off \<noteq> pos then Inl Offset
        else
          bindE (dec t pos) (\<lambda>(v, pos').
          bindE (seqLoop buf dec base ts pos' (hp + 32)) (\<lambda>(vs, e). Inr (v # vs, e)))))"

definition seq :: "bytes \<Rightarrow> (ty \<Rightarrow> nat \<Rightarrow> abi_kind + val \<times> nat) \<Rightarrow> ty list \<Rightarrow> nat \<Rightarrow> abi_kind + val list \<times> nat" where
  "seq buf dec ts base =
     (let head = sum_list (map headSize ts) in
      if base + head > length buf then Inl Truncated else seqLoop buf dec base ts (base + head) base)"

lemma seqLoop_cong:
  "(\<And>t. t \<in> set ts \<Longrightarrow> f t = g t) \<Longrightarrow> seqLoop buf f base ts pos hp = seqLoop buf g base ts pos hp"
  by (induction ts arbitrary: pos hp) (auto intro!: bindE_cong split: prod.splits)

lemma seq_cong [fundef_cong]:
  "buf = buf' \<Longrightarrow> ts = ts' \<Longrightarrow> base = base' \<Longrightarrow> (\<And>t. t \<in> set ts' \<Longrightarrow> f t = g t) \<Longrightarrow> seq buf f ts base = seq buf' g ts' base'"
  unfolding seq_def using seqLoop_cong by (metis (no_types, lifting))

definition itemsOf :: "abi_kind + val list \<times> nat \<Rightarrow> abi_kind + val \<times> nat" where
  "itemsOf r = bindE r (\<lambda>(vs, e). Inr (V (replicate 32 0) [] vs, e))"

definition padded :: "nat \<Rightarrow> nat" where "padded n = (n + 31) div 32 * 32"

text \<open>Bytes and strings: the length, the content and the zero padding, all within the buffer.\<close>

definition bytesAt :: "bytes \<Rightarrow> nat \<Rightarrow> abi_kind + val \<times> nat" where
  "bytesAt buf off =
     bindE (lengthAt buf off) (\<lambda>n.
       let rem = length buf - off - 32; start = off + 32 in
       if n > rem \<or> padded n > rem then Inl Length
       else if \<not> isZero (take (padded n - n) (drop (start + n) buf)) then Inl Padding
       else Inr (V (replicate 32 0) (take n (drop start buf)) [], start + padded n))"

lemma size_field: "(f, t) \<in> set fs \<Longrightarrow> size t < Suc (size_list (size_prod (\<lambda>x. 0) size) fs)"
  by (induction fs) auto

function decode :: "bytes \<Rightarrow> ty \<Rightarrow> nat \<Rightarrow> abi_kind + val \<times> nat" where
  "decode buf t off =
     (case t of
        TD e cap \<Rightarrow>
          bindE (lengthAt buf off) (\<lambda>n.
          if cap > 0 \<and> n > cap then Inl Cap
          else if headSize e = 0 then Inl DivisionByZero
          else if n > (length buf - off - 32) div headSize e then Inl Length
          else itemsOf (seq buf (\<lambda>t off. decode buf t off) (replicate n e) (off + 32)))
      | TF e n \<Rightarrow> itemsOf (seq buf (\<lambda>t off. decode buf t off) (replicate n e) off)
      | TT fs \<Rightarrow> itemsOf (seq buf (\<lambda>t off. decode buf t off) (map snd fs) off)
      | TY \<Rightarrow> bytesAt buf off
      | TS \<Rightarrow> bytesAt buf off
      | _ \<Rightarrow> bindE (scalar buf t off) (\<lambda>v. Inr (v, off + 32)))"
  by pat_completeness auto
termination
  by (relation "measure (\<lambda>(buf, t, off). size t)") (auto simp: size_field)

declare decode.simps [simp del]

definition decodeArgs :: "bytes \<Rightarrow> (string \<times> ty) list \<Rightarrow> abi_kind + val list" where
  "decodeArgs args fields =
     bindE (seq args (decode args) (map snd fields) 0) (\<lambda>(vs, e). if e \<noteq> length args then Inl Trailing else Inr vs)"

section \<open>The reference: the encoding of a typed value\<close>

fun headsOf :: "nat \<Rightarrow> (bool \<times> bytes) list \<Rightarrow> bytes" where
  "headsOf o1 [] = []"
| "headsOf o1 ((d, b) # ps) = (if d then wordOf o1 @ headsOf (o1 + length b) ps else b @ headsOf o1 ps)"

definition tailsOf :: "(bool \<times> bytes) list \<Rightarrow> bytes" where
  "tailsOf ps = concat (map snd (filter fst ps))"

definition headLength :: "(bool \<times> bytes) list \<Rightarrow> nat" where
  "headLength ps = sum_list (map (\<lambda>p. if fst p then 32 else length (snd p)) ps)"

definition encParts :: "(bool \<times> bytes) list \<Rightarrow> bytes" where
  "encParts ps = headsOf (headLength ps) ps @ tailsOf ps"

definition plain :: "val \<Rightarrow> bool" where
  "plain v \<longleftrightarrow> vw v = replicate 32 0 \<and> vb v = []"

fun typed :: "ty \<Rightarrow> val \<Rightarrow> bool" where
  "typed (TD t cap) v = (plain v \<and> headSize t \<noteq> 0 \<and> (cap > 0 \<longrightarrow> length (items v) \<le> cap) \<and> list_all (\<lambda>x. typed t x) (items v))"
| "typed (TF t n) v = (plain v \<and> length (items v) = n \<and> list_all (\<lambda>x. typed t x) (items v))"
| "typed (TT fs) v = (plain v \<and> list_all2 (\<lambda>f x. typed (snd f) x) fs (items v))"
| "typed TY v = (vw v = replicate 32 0 \<and> items v = [])"
| "typed TS v = (vw v = replicate 32 0 \<and> items v = [])"
| "typed t v = (vb v = [] \<and> items v = [] \<and> length (vw v) = 32 \<and> fits t (vw v))"

definition encBytes :: "bytes \<Rightarrow> bytes" where
  "encBytes b = wordOf (length b) @ b @ replicate (padded (length b) - length b) 0"

function (sequential) enc :: "ty \<Rightarrow> val \<Rightarrow> bytes" where
  "enc (TD t cap) v = wordOf (length (items v)) @ encParts (map (\<lambda>x. (dynamic t, enc t x)) (items v))"
| "enc (TF t n) v = encParts (map (\<lambda>x. (dynamic t, enc t x)) (items v))"
| "enc (TT fs) v = encParts (map (\<lambda>(f, x). (dynamic (snd f), enc (snd f) x)) (zip fs (items v)))"
| "enc TY v = encBytes (vb v)"
| "enc TS v = encBytes (vb v)"
| "enc t v = vw v"
  by pat_completeness auto
termination
  by (relation "measure (\<lambda>(t, v). size t)") (auto dest!: set_zip_leftD simp: size_field)

section \<open>Slices of the buffer\<close>

definition slice :: "bytes \<Rightarrow> nat \<Rightarrow> bytes \<Rightarrow> bool" where
  "slice buf off b \<longleftrightarrow> off + length b \<le> length buf \<and> take (length b) (drop off buf) = b"

lemma slice_append: "slice buf off (a @ b) \<longleftrightarrow> slice buf off a \<and> slice buf (off + length a) b"
proof -
  have "take (length a + length b) (drop off buf) = take (length a) (drop off buf) @ take (length b) (drop (off + length a) buf)"
    by (simp add: take_add ac_simps)
  moreover have "off + length a + length b \<le> length buf \<Longrightarrow> length (take (length a) (drop off buf)) = length a" by simp
  ultimately show ?thesis unfolding slice_def by (auto simp: add.assoc)
qed

lemma slice_Nil: "slice buf off [] \<longleftrightarrow> off \<le> length buf"
  by (simp add: slice_def)

lemma slice_full: "slice buf 0 b \<and> length b = length buf \<longleftrightarrow> buf = b"
  by (auto simp: slice_def)

lemma wordAt_iff: "wordAt buf off = Inr w \<longleftrightarrow> length w = 32 \<and> slice buf off w"
  by (auto simp: wordAt_def slice_def)

lemma length_wordBytes [simp]: "length (wordBytes k n) = k"
  by (induction k arbitrary: n) simp_all

lemma be_nat_wordBytes: "be_nat (wordBytes k n) = n mod 256 ^ k"
proof (induction k arbitrary: n)
  case (Suc k)
  have "n mod (256 * 256 ^ k) = 256 * (n div 256 mod 256 ^ k) + n mod 256" by (rule mod_mult2_eq)
  with Suc show ?case by (simp add: be_nat_snoc)
qed simp

lemma length_wordOf [simp]: "length (wordOf n) = 32"
  by (simp add: wordOf_def)

lemma bigOf_wordOf: "n < 2 ^ 256 \<Longrightarrow> bigOf (wordOf n) = n"
  by (simp add: bigOf_def wordOf_def be_nat_wordBytes)

lemma isZero_iff: "isZero b \<longleftrightarrow> b = replicate (length b) 0"
  by (auto simp: isZero_def list_all_length list_eq_iff_nth_eq)

lemma be_nat_pad [simp]: "be_nat (replicate k 0 @ b) = be_nat b"
  by (induction k) (simp_all add: be_nat_Cons)

lemma word_of_length: "length w = 32 \<Longrightarrow> isZero (take 24 w) \<Longrightarrow> w = wordOf (bigOf (drop 24 w)) \<and> bigOf (drop 24 w) < 2 ^ 64"
proof -
  assume w: "length w = 32" "isZero (take 24 w)"
  then have t: "take 24 w = replicate 24 0" using isZero_iff [of "take 24 w"] by simp
  then have split: "w = replicate 24 0 @ drop 24 w" by (metis append_take_drop_id)
  have l: "length (drop 24 w) = 8" using w by simp
  have less: "be_nat (drop 24 w) < 256 ^ 8" using be_nat_less [of "drop 24 w"] l by simp
  have "be_nat w = be_nat (drop 24 w)" using split be_nat_pad by metis
  moreover have "be_nat (wordOf (be_nat (drop 24 w))) = be_nat (drop 24 w)" using less by (simp add: wordOf_def be_nat_wordBytes)
  ultimately have "w = wordOf (be_nat (drop 24 w))" using w by (intro be_nat_inj) simp_all
  with less show ?thesis by (simp add: bigOf_def)
qed

lemma wordOf_parts: "n < 2 ^ 64 \<Longrightarrow> isZero (take 24 (wordOf n)) \<and> bigOf (drop 24 (wordOf n)) = n"
proof -
  assume n: "n < 2 ^ 64"
  let ?w = "replicate 24 0 @ wordBytes 8 n"
  have "be_nat ?w = be_nat (wordOf n)" using n by (simp add: wordOf_def be_nat_wordBytes)
  then have "wordOf n = ?w" by (intro be_nat_inj) simp_all
  then show ?thesis using n by (simp add: isZero_def bigOf_def be_nat_wordBytes list_all_iff)
qed

lemma lengthAt_iff: "lengthAt buf off = Inr n \<longleftrightarrow> n < 2 ^ 64 \<and> slice buf off (wordOf n)"
proof
  assume "lengthAt buf off = Inr n"
  then obtain w where "length w = 32" "slice buf off w" "isZero (take 24 w)" "n = bigOf (drop 24 w)"
    by (auto simp: lengthAt_def results wordAt_iff split: if_splits)
  with word_of_length [of w] show "n < 2 ^ 64 \<and> slice buf off (wordOf n)" by simp
next
  assume "n < 2 ^ 64 \<and> slice buf off (wordOf n)"
  with wordOf_parts [of n] show "lengthAt buf off = Inr n"
    unfolding lengthAt_def bindE_Inr_iff wordAt_iff by (intro exI [of _ "wordOf n"]) simp
qed

section \<open>Parts\<close>

definition partOf :: "ty \<Rightarrow> val \<Rightarrow> bool \<times> bytes" where
  "partOf t v = (dynamic t, enc t v)"

definition partsOf :: "ty list \<Rightarrow> val list \<Rightarrow> (bool \<times> bytes) list" where
  "partsOf ts vs = map (\<lambda>(t, v). partOf t v) (zip ts vs)"

lemma partsOf_simps [simp]: "partsOf [] vs = []" "partsOf ts [] = []" "partsOf (t # ts) (v # vs) = partOf t v # partsOf ts vs"
  by (simp_all add: partsOf_def)

lemma enc_parts:
  "enc (TD t cap) v = wordOf (length (items v)) @ encParts (partsOf (replicate (length (items v)) t) (items v))"
  "length (items v) = n \<Longrightarrow> enc (TF t n) v = encParts (partsOf (replicate n t) (items v))"
  "enc (TT fs) v = encParts (partsOf (map snd fs) (items v))"
  by (auto simp: partsOf_def partOf_def zip_replicate1 zip_map1 split_def comp_def)

lemma length_headsOf: "length (headsOf k ps) = headLength ps"
  by (induction k ps rule: headsOf.induct) (simp_all add: headLength_def)

lemma headLength_simps [simp]: "headLength [] = 0" "headLength (p # ps) = (if fst p then 32 else length (snd p)) + headLength ps"
  by (simp_all add: headLength_def)

lemma tailsOf_simps [simp]: "tailsOf [] = []" "tailsOf (p # ps) = (if fst p then snd p else []) @ tailsOf ps"
  by (simp_all add: tailsOf_def)

lemma length_encParts: "length (encParts ps) = headLength ps + length (tailsOf ps)"
  by (simp add: encParts_def length_headsOf)

text \<open>A static value takes its head size; a dynamic one a word.\<close>

definition sized :: "ty \<Rightarrow> bool" where
  "sized t \<longleftrightarrow> (\<forall>v. typed t v \<longrightarrow> \<not> dynamic t \<longrightarrow> length (enc t v) = headSize t)"

lemma headSize_dynamic: "dynamic t \<Longrightarrow> headSize t = 32"
  by (cases t) auto

lemma partsOf_heads:
  "list_all2 typed ts vs \<Longrightarrow> (\<And>t. t \<in> set ts \<Longrightarrow> sized t) \<Longrightarrow> headLength (partsOf ts vs) = sum_list (map headSize ts)"
  by (induction ts vs rule: list_all2_induct) (simp_all add: partOf_def sized_def headSize_dynamic)

lemma tails_static: "\<forall>t\<in>set ts. \<not> dynamic t \<Longrightarrow> tailsOf (partsOf ts vs) = []"
proof (induction ts arbitrary: vs)
  case (Cons t ts)
  then show ?case by (cases vs) (simp_all add: partOf_def)
qed simp

lemma list_all2_replicate: "list_all2 P (replicate n x) ys \<longleftrightarrow> length ys = n \<and> list_all (P x) ys"
proof (induction n arbitrary: ys)
  case (Suc n)
  then show ?case by (cases ys) auto
qed auto

lemma list_all2_snd: "list_all2 (\<lambda>f. P (snd f)) fs xs \<longleftrightarrow> list_all2 P (map snd fs) xs"
  by (simp add: list_all2_map1)

lemma sized_all: "sized t"
proof (induction t)
  case (TF t n)
  show ?case unfolding sized_def
  proof (intro allI impI)
    fix v assume v: "typed (TF t n) v" "\<not> dynamic (TF t n)"
    then have a: "list_all2 typed (replicate n t) (items v)" by (simp add: list_all2_replicate)
    have "tailsOf (partsOf (replicate n t) (items v)) = []" using v by (intro tails_static) simp
    moreover have "headLength (partsOf (replicate n t) (items v)) = n * headSize t"
      using partsOf_heads [OF a] TF.IH by (simp add: sum_list_replicate)
    moreover have "length (items v) = n" using v by simp
    ultimately show "length (enc (TF t n) v) = headSize (TF t n)"
      using v(2) by (simp only: enc_parts(2) length_encParts) simp
  qed
next
  case (TT fs)
  show ?case unfolding sized_def
  proof (intro allI impI)
    fix v assume v: "typed (TT fs) v" "\<not> dynamic (TT fs)"
    then have a: "list_all2 typed (map snd fs) (items v)" by (simp add: list_all2_snd [symmetric])
    have "tailsOf (partsOf (map snd fs) (items v)) = []" using v by (intro tails_static) (auto simp: list_ex_iff)
    moreover have "sized t" if "t \<in> set (map snd fs)" for t using that TT.IH by fastforce
    with a have "headLength (partsOf (map snd fs) (items v)) = sum_list (map headSize (map snd fs))" by (rule partsOf_heads)
    ultimately show "length (enc (TT fs) v) = headSize (TT fs)"
      using v(2) by (simp only: enc_parts(3) length_encParts) (simp add: comp_def)
  qed
qed (simp_all add: sized_def)

section \<open>The decoder accepts exactly the encodings\<close>

definition decodes :: "bytes \<Rightarrow> ty \<Rightarrow> nat \<Rightarrow> val \<Rightarrow> nat \<Rightarrow> bool" where
  "decodes buf t off v e \<longleftrightarrow> typed t v \<and> slice buf off (enc t v) \<and> e = off + length (enc t v)"

lemma seqLoop_iff:
  assumes "length buf < 2 ^ 64"
    and "\<And>t off v e. t \<in> set ts \<Longrightarrow> dec t off = Inr (v, e) \<longleftrightarrow> decodes buf t off v e"
    and "base \<le> pos" and "pos \<le> length buf" and "hp + sum_list (map headSize ts) \<le> length buf"
  shows "seqLoop buf dec base ts pos hp = Inr (vs, e) \<longleftrightarrow>
    list_all2 typed ts vs \<and> slice buf hp (headsOf (pos - base) (partsOf ts vs)) \<and>
    slice buf pos (tailsOf (partsOf ts vs)) \<and> e = pos + length (tailsOf (partsOf ts vs))"
  using assms(2-)
proof (induction ts arbitrary: pos hp vs)
  case Nil
  then show ?case by (auto simp: slice_Nil)
next
  case (Cons t ts)
  have dec: "dec t off = Inr (v, e) \<longleftrightarrow> decodes buf t off v e" for off v e using Cons.prems(1) by simp
  have IH: "seqLoop buf dec base ts p h = Inr (vs, e) \<longleftrightarrow> list_all2 typed ts vs \<and> slice buf h (headsOf (p - base) (partsOf ts vs)) \<and>
      slice buf p (tailsOf (partsOf ts vs)) \<and> e = p + length (tailsOf (partsOf ts vs))"
    if "base \<le> p" "p \<le> length buf" "h + sum_list (map headSize ts) \<le> length buf" for p h vs
    using Cons.prems(1) that by (intro Cons.IH) simp_all
  show ?case
  proof (cases vs)
    case Nil
    then show ?thesis by (auto simp: bindE_Inr_iff split: prod.splits)
  next
    case vs: (Cons v ws)
    show ?thesis
    proof (cases "dynamic t")
      case False
      have "seqLoop buf dec base (t # ts) pos hp = Inr (vs, e) \<longleftrightarrow>
          typed t v \<and> slice buf hp (enc t v) \<and> seqLoop buf dec base ts pos (hp + headSize t) = Inr (ws, e)"
        using False vs by (auto simp: bindE_Inr_iff dec decodes_def)
      also have "\<dots> \<longleftrightarrow> typed t v \<and> slice buf hp (enc t v) \<and> list_all2 typed ts ws \<and>
          slice buf (hp + headSize t) (headsOf (pos - base) (partsOf ts ws)) \<and> slice buf pos (tailsOf (partsOf ts ws)) \<and>
          e = pos + length (tailsOf (partsOf ts ws))"
        using Cons.prems(2-) by (simp add: IH)
      finally show ?thesis
        using vs False sized_all [of t] by (auto simp: partOf_def slice_append sized_def)
    next
      case True
      define o1 where "o1 = pos - base"
      have h: "lengthAt buf hp = Inr o' \<and> o' \<le> length buf \<and> base + o' = pos \<longleftrightarrow> slice buf hp (wordOf o1) \<and> o' = o1" for o'
        using Cons.prems(2,3) assms(1) by (auto simp: lengthAt_iff o1_def)
      have "seqLoop buf dec base (t # ts) pos hp = Inr (vs, e) \<longleftrightarrow> slice buf hp (wordOf o1) \<and>
          (\<exists>p. decodes buf t pos v p \<and> seqLoop buf dec base ts p (hp + 32) = Inr (ws, e))"
        using True vs h by (auto simp: bindE_Inr_iff mapErr_Inr_iff dec split: if_splits) (metis not_le)+
      also have "\<dots> \<longleftrightarrow> slice buf hp (wordOf o1) \<and> decodes buf t pos v (pos + length (enc t v)) \<and>
          seqLoop buf dec base ts (pos + length (enc t v)) (hp + 32) = Inr (ws, e)"
        by (auto simp: decodes_def)
      also have "\<dots> \<longleftrightarrow> slice buf hp (wordOf o1) \<and> decodes buf t pos v (pos + length (enc t v)) \<and> list_all2 typed ts ws \<and>
          slice buf (hp + 32) (headsOf (o1 + length (enc t v)) (partsOf ts ws)) \<and> slice buf (pos + length (enc t v)) (tailsOf (partsOf ts ws)) \<and>
          e = pos + length (enc t v) + length (tailsOf (partsOf ts ws))"
      proof -
        have "base \<le> pos + length (enc t v)" "pos + length (enc t v) - base = o1 + length (enc t v)" using Cons.prems(2) by (simp_all add: o1_def)
        moreover have "decodes buf t pos v (pos + length (enc t v)) \<Longrightarrow> pos + length (enc t v) \<le> length buf" by (simp add: decodes_def slice_def)
        moreover have "hp + 32 + sum_list (map headSize ts) \<le> length buf" using Cons.prems(4) True by (simp add: headSize_dynamic)
        ultimately show ?thesis using IH [of "pos + length (enc t v)" "hp + 32" ws] by auto
      qed
      finally show ?thesis
        using vs True by (auto simp: partOf_def slice_append decodes_def o1_def)
    qed
  qed
qed

lemma seq_iff:
  assumes "length buf < 2 ^ 64" and "\<And>t off v e. t \<in> set ts \<Longrightarrow> dec t off = Inr (v, e) \<longleftrightarrow> decodes buf t off v e"
  shows "seq buf dec ts base = Inr (vs, e) \<longleftrightarrow>
    list_all2 typed ts vs \<and> slice buf base (encParts (partsOf ts vs)) \<and> e = base + length (encParts (partsOf ts vs))"
proof -
  define head where "head = sum_list (map headSize ts)"
  have l: "list_all2 typed ts vs \<Longrightarrow> headLength (partsOf ts vs) = head"
    unfolding head_def by (erule partsOf_heads) (rule sized_all)
  show ?thesis
  proof (cases "base + head \<le> length buf")
    case True
    then have "seq buf dec ts base = Inr (vs, e) \<longleftrightarrow> seqLoop buf dec base ts (base + head) base = Inr (vs, e)"
      by (simp add: seq_def head_def)
    also have "\<dots> \<longleftrightarrow> list_all2 typed ts vs \<and> slice buf base (headsOf head (partsOf ts vs)) \<and>
        slice buf (base + head) (tailsOf (partsOf ts vs)) \<and> e = base + head + length (tailsOf (partsOf ts vs))"
      using seqLoop_iff [OF assms, where base = base and pos = "base + head" and hp = base and vs = vs and e = e] True by (simp add: head_def)
    also have "\<dots> \<longleftrightarrow> list_all2 typed ts vs \<and> slice buf base (encParts (partsOf ts vs)) \<and> e = base + length (encParts (partsOf ts vs))"
      using l by (auto simp: encParts_def slice_append length_headsOf)
    finally show ?thesis .
  next
    case False
    then have "\<not> (list_all2 typed ts vs \<and> slice buf base (encParts (partsOf ts vs)))"
      using l by (auto simp: slice_def length_encParts)
    with False show ?thesis by (auto simp: seq_def head_def)
  qed
qed

lemma padded_ge: "n \<le> padded n"
  unfolding padded_def by presburger

lemma bytesAt_iff:
  assumes "length buf < 2 ^ 64"
  shows "bytesAt buf off = Inr (v, e) \<longleftrightarrow>
    vw v = replicate 32 0 \<and> items v = [] \<and> slice buf off (encBytes (vb v)) \<and> e = off + length (encBytes (vb v))"
proof (cases v)
  case (V w b its)
  have l: "length (encBytes b) = 32 + padded (length b)" using padded_ge [of "length b"] by (simp add: encBytes_def)
  have "bytesAt buf off = Inr (V w b its, e) \<longleftrightarrow> w = replicate 32 0 \<and> its = [] \<and> (\<exists>n. n < 2 ^ 64 \<and> slice buf off (wordOf n) \<and>
      padded n \<le> length buf - off - 32 \<and> isZero (take (padded n - n) (drop (off + 32 + n) buf)) \<and> b = take n (drop (off + 32) buf) \<and>
      e = off + 32 + padded n)"
  proof -
    have "n > rem \<or> padded n > rem \<longleftrightarrow> \<not> padded n \<le> rem" for n rem using padded_ge [of n] by auto
    then show ?thesis unfolding bytesAt_def bindE_Inr_iff lengthAt_iff Let_def by (auto split: if_splits)
  qed
  also have "\<dots> \<longleftrightarrow> w = replicate 32 0 \<and> its = [] \<and> slice buf off (encBytes b) \<and> e = off + length (encBytes b)"
    (is "?l \<longleftrightarrow> ?r")
  proof
    assume ?l
    then obtain n where n: "w = replicate 32 0" "its = []" "slice buf off (wordOf n)" "padded n \<le> length buf - off - 32"
      "isZero (take (padded n - n) (drop (off + 32 + n) buf))" "b = take n (drop (off + 32) buf)" "e = off + 32 + padded n" by blast
    have o: "off + 32 \<le> length buf" using n(3) by (simp add: slice_def)
    with n(4,6) padded_ge [of n] have b: "length b = n" by simp
    have z: "take (padded n - n) (drop (off + 32 + n) buf) = replicate (padded n - n) 0"
      using n(4,5) o padded_ge [of n] isZero_iff [of "take (padded n - n) (drop (off + 32 + n) buf)"] by simp
    show ?r using n b z o padded_ge [of n] l by (simp add: encBytes_def slice_append) (simp add: slice_def, linarith)
  next
    assume r: ?r
    then have s: "slice buf off (wordOf (length b))" "slice buf (off + 32) b" "slice buf (off + 32 + length b) (replicate (padded (length b) - length b) 0)"
      by (simp_all add: encBytes_def slice_append)
    have "length b < 2 ^ 64" using s(2) assms by (simp add: slice_def)
    then show ?l using r s l padded_ge [of "length b"]
      by (intro conjI exI [of _ "length b"]) (auto simp: slice_def isZero_def list_all_iff)
  qed
  finally show ?thesis using V by simp
qed

lemma itemsOf_iff: "itemsOf r = Inr (v, e) \<longleftrightarrow> plain v \<and> r = Inr (items v, e)"
  by (cases v) (auto simp: itemsOf_def plain_def bindE_Inr_iff split: prod.splits)

lemma scalar_iff:
  "bindE (scalar buf t off) (\<lambda>v. Inr (v, off + 32)) = Inr (v, e) \<longleftrightarrow>
     vb v = [] \<and> items v = [] \<and> length (vw v) = 32 \<and> fits t (vw v) \<and> slice buf off (vw v) \<and> e = off + 32"
  by (cases v) (auto simp: scalar_def bindE_Inr_iff wordAt_iff split: if_splits)

lemma guards_Inr:
  "(if a then Inl x else if b then Inl y else if c then Inl z else r) = Inr w \<longleftrightarrow> \<not> a \<and> \<not> b \<and> \<not> c \<and> r = Inr w"
  by simp

lemma replicate_heads: "sum_list (map headSize (replicate n t)) = n * headSize t"
  by (simp add: sum_list_replicate)

theorem decode_iff:
  assumes "length buf < 2 ^ 64"
  shows "decode buf t off = Inr (v, e) \<longleftrightarrow> decodes buf t off v e"
proof (induction t arbitrary: off v e)
  case (TD t cap)
  have seq: "seq buf (decode buf) (replicate n t) o1 = Inr (vs, e) \<longleftrightarrow> list_all2 typed (replicate n t) vs \<and>
      slice buf o1 (encParts (partsOf (replicate n t) vs)) \<and> e = o1 + length (encParts (partsOf (replicate n t) vs))" for n o1 vs e
    using TD.IH by (intro seq_iff [OF assms]) simp
  have "decode buf (TD t cap) off = Inr (v, e) \<longleftrightarrow> (\<exists>n. n < 2 ^ 64 \<and> slice buf off (wordOf n) \<and> (cap > 0 \<longrightarrow> n \<le> cap) \<and> headSize t \<noteq> 0 \<and>
      n \<le> (length buf - off - 32) div headSize t \<and> plain v \<and> length (items v) = n \<and> list_all (typed t) (items v) \<and>
      slice buf (off + 32) (encParts (partsOf (replicate n t) (items v))) \<and> e = off + 32 + length (encParts (partsOf (replicate n t) (items v))))"
  proof -
    have "(if cap > 0 \<and> n > cap then Inl Cap else if headSize t = 0 then Inl DivisionByZero
        else if n > (length buf - off - 32) div headSize t then Inl Length
        else itemsOf (seq buf (decode buf) (replicate n t) (off + 32))) = Inr (v, e) \<longleftrightarrow>
      (cap > 0 \<longrightarrow> n \<le> cap) \<and> headSize t \<noteq> 0 \<and> n \<le> (length buf - off - 32) div headSize t \<and> plain v \<and>
      length (items v) = n \<and> list_all (typed t) (items v) \<and> slice buf (off + 32) (encParts (partsOf (replicate n t) (items v))) \<and>
      e = off + 32 + length (encParts (partsOf (replicate n t) (items v)))" for n
      unfolding guards_Inr itemsOf_iff seq list_all2_replicate by (auto simp only: not_less)
    then show ?thesis unfolding decode.simps [of buf "TD t cap"] ty.case bindE_Inr_iff lengthAt_iff by (simp only: conj_assoc)
  qed
  also have "\<dots> \<longleftrightarrow> decodes buf (TD t cap) off v e" (is "?l \<longleftrightarrow> ?r")
  proof
    assume ?l
    then show ?r unfolding decodes_def enc_parts slice_append by (auto simp: add.assoc)
  next
    assume r: ?r
    define n where "n = length (items v)"
    have t: "plain v" "headSize t \<noteq> 0" "cap > 0 \<longrightarrow> n \<le> cap" "list_all2 typed (replicate n t) (items v)"
      using r by (simp_all add: decodes_def n_def list_all2_replicate)
    have s: "slice buf off (wordOf n)" "slice buf (off + 32) (encParts (partsOf (replicate n t) (items v)))"
      and e: "e = off + 32 + length (encParts (partsOf (replicate n t) (items v)))"
      using r unfolding decodes_def enc_parts slice_append n_def by simp_all
    have "headLength (partsOf (replicate n t) (items v)) = n * headSize t"
      using partsOf_heads [OF t(4) sized_all] by (simp only: replicate_heads)
    moreover have "off + 32 + length (encParts (partsOf (replicate n t) (items v))) \<le> length buf" using s(2) by (simp add: slice_def)
    ultimately have le: "n * headSize t \<le> length buf - off - 32" by (simp only: length_encParts)
    then have "n \<le> (length buf - off - 32) div headSize t" using t(2) by (simp add: less_eq_div_iff_mult_less_eq)
    moreover have "n < 2 ^ 64"
    proof -
      have "n \<le> n * headSize t" using t(2) by simp
      with le assms show ?thesis by linarith
    qed
    ultimately show ?l using t s e by (intro exI [of _ n]) (simp add: n_def list_all2_replicate)
  qed
  finally show ?case .
next
  case (TF t n)
  have seq: "seq buf (decode buf) (replicate n t) off = Inr (vs, e) \<longleftrightarrow> list_all2 typed (replicate n t) vs \<and>
      slice buf off (encParts (partsOf (replicate n t) vs)) \<and> e = off + length (encParts (partsOf (replicate n t) vs))" for vs e
    using TF.IH by (intro seq_iff [OF assms]) simp
  show ?case unfolding decode.simps [of buf "TF t n"] ty.case itemsOf_iff seq list_all2_replicate decodes_def
    using enc_parts(2) [of v n t] by auto
next
  case (TT fs)
  have seq: "seq buf (decode buf) (map snd fs) off = Inr (vs, e) \<longleftrightarrow> list_all2 typed (map snd fs) vs \<and>
      slice buf off (encParts (partsOf (map snd fs) vs)) \<and> e = off + length (encParts (partsOf (map snd fs) vs))" for vs e
    using TT.IH by (intro seq_iff [OF assms]) fastforce
  show ?case unfolding decode.simps [of buf "TT fs"] ty.case itemsOf_iff seq decodes_def enc_parts by (auto simp: list_all2_snd)
next
  case TY
  show ?case unfolding decode.simps [of buf TY] ty.case bytesAt_iff [OF assms] by (auto simp: decodes_def)
next
  case TS
  show ?case unfolding decode.simps [of buf TS] ty.case bytesAt_iff [OF assms] by (auto simp: decodes_def)
qed (auto simp: decode.simps scalar_iff decodes_def)

lemma decodeArgs_iff:
  assumes "length args < 2 ^ 64"
  shows "decodeArgs args fields = Inr vs \<longleftrightarrow>
    list_all2 typed (map snd fields) vs \<and> args = encParts (partsOf (map snd fields) vs)"
proof -
  have "seq args (decode args) (map snd fields) 0 = Inr (vs, e) \<longleftrightarrow> list_all2 typed (map snd fields) vs \<and>
      slice args 0 (encParts (partsOf (map snd fields) vs)) \<and> e = length (encParts (partsOf (map snd fields) vs))" for e
    using seq_iff [OF assms, where base = 0 and dec = "decode args" and ts = "map snd fields"] decode_iff [OF assms] by simp
  then show ?thesis by (auto simp: decodeArgs_def bindE_Inr_iff slice_def split: if_splits)
qed

section \<open>Settlement calls and governance event data\<close>

definition AuthorityLevelMax :: nat where "AuthorityLevelMax = 4"

record abi_limits =
  maxLegs :: nat
  maxValidators :: nat

definition defaultABILimits :: abi_limits where
  "defaultABILimits = \<lparr>maxLegs = 64, maxValidators = 64\<rparr>"

definition selector4 :: "(bytes \<Rightarrow> bytes) \<Rightarrow> string \<Rightarrow> bytes" where
  "selector4 K sig = take 4 (K (map of_char sig))"

definition adiGovTuple :: string where
  "adiGovTuple = ''(string,bytes32,bytes32[],bytes32,bytes,bytes,bytes,uint256,uint256,bytes,uint256,bytes32,uint64,uint64,uint64)''"

definition SigExecuteGovernanceDirect :: string where
  "SigExecuteGovernanceDirect = ''executeGovernanceProofDirect(address,uint256,bytes,'' @ adiGovTuple @ '')''"

definition SigBatchGovernanceDirect :: string where
  "SigBatchGovernanceDirect = ''batchExecuteGovernanceProofDirect(address[],uint256[],bytes[],'' @ adiGovTuple @ '')''"

definition adiGovType :: ty where
  "adiGovType = TT [(''adiURL'', TS), (''anchorId'', TW), (''merkleProof'', TD TW 0), (''operationID'', TW), (''keyBookProof'', TY),
     (''roleProof'', TY), (''thresholdProof'', TY), (''timestamp'', TU 256), (''expiresAt'', TU 256), (''validatorSignatures'', TY),
     (''nonce'', TU 256), (''authorityBook'', TW), (''authorityPage'', TU 64), (''notBefore'', TU 64), (''notAfter'', TU 64)]"

record leg =
  lg_target :: bytes
  lg_value :: nat
  lg_data :: bytes
  lg_selector :: bytes

record governance_proof =
  gp_authorityBook :: bytes
  gp_authorityPage :: nat

record settlement_call =
  sc_selector :: bytes
  sc_batch :: bool
  sc_legs :: "leg list"
  sc_proof :: governance_proof

text \<open>The first four bytes of the data, zero-filled.\<close>

definition legSelector :: "bytes \<Rightarrow> bytes" where
  "legSelector d = take 4 (d @ replicate 4 0)"

definition govProofOf :: "val \<Rightarrow> governance_proof" where
  "govProofOf v = \<lparr>gp_authorityBook = vw (items v ! 11), gp_authorityPage = bigOf (drop 24 (vw (items v ! 12)))\<rparr>"

definition legOf :: "val \<Rightarrow> val \<Rightarrow> val \<Rightarrow> leg" where
  "legOf t v d = \<lparr>lg_target = drop 12 (vw t), lg_value = bigOf (vw v), lg_data = vb d, lg_selector = legSelector (vb d)\<rparr>"

definition directFields :: "(string \<times> ty) list" where
  "directFields = [(''target'', TA), (''value'', TU 256), (''data'', TY), (''proof'', adiGovType)]"

definition batchFields :: "abi_limits \<Rightarrow> (string \<times> ty) list" where
  "batchFields lim = [(''targets'', TD TA (maxLegs lim)), (''values'', TD (TU 256) (maxLegs lim)), (''datas'', TD TY (maxLegs lim)), (''proof'', adiGovType)]"

definition decodeSettlementCall :: "(bytes \<Rightarrow> bytes) \<Rightarrow> abi_limits \<Rightarrow> bytes \<Rightarrow> abi_kind + settlement_call" where
  "decodeSettlementCall K lim calldata =
     (if length calldata < 4 then Inl Truncated
      else
        let sel = take 4 calldata in
        if sel = selector4 K SigExecuteGovernanceDirect then
          bindE (decodeArgs (drop 4 calldata) directFields) (\<lambda>vs.
            Inr \<lparr>sc_selector = sel, sc_batch = False, sc_legs = [legOf (vs ! 0) (vs ! 1) (vs ! 2)], sc_proof = govProofOf (vs ! 3)\<rparr>)
        else if sel = selector4 K SigBatchGovernanceDirect then
          bindE (decodeArgs (drop 4 calldata) (batchFields lim)) (\<lambda>vs.
            let n = length (items (vs ! 0)) in
            if n = 0 then Inl Shape
            else if length (items (vs ! 1)) \<noteq> n \<or> length (items (vs ! 2)) \<noteq> n then Inl Shape
            else Inr \<lparr>sc_selector = sel, sc_batch = True,
                      sc_legs = map (\<lambda>i. legOf (items (vs ! 0) ! i) (items (vs ! 1) ! i) (items (vs ! 2) ! i)) [0..<n],
                      sc_proof = govProofOf (vs ! 3)\<rparr>)
        else Inl Selector)"

definition decodeGovernanceOperationData :: "bytes \<Rightarrow> abi_kind + nat \<times> bytes \<times> nat" where
  "decodeGovernanceOperationData d =
     bindE (decodeArgs d [(''value'', TU 256), (''data'', TY), (''requiredLevel'', TE AuthorityLevelMax)]) (\<lambda>vs.
       Inr (bigOf (vw (vs ! 0)), vb (vs ! 1), unat (vw (vs ! 2) ! 31)))"

definition decodeGovernanceBatchData :: "bytes \<Rightarrow> abi_kind + nat \<times> nat" where
  "decodeGovernanceBatchData d =
     bindE (decodeArgs d [(''callCount'', TU 256), (''requiredLevel'', TE AuthorityLevelMax)]) (\<lambda>vs.
       Inr (bigOf (vw (vs ! 0)), unat (vw (vs ! 1) ! 31)))"

section \<open>Reading a call back from its legs\<close>

definition addrVal :: "bytes \<Rightarrow> val" where "addrVal a = V (replicate 12 0 @ a) [] []"
definition uintVal :: "nat \<Rightarrow> val" where "uintVal n = V (wordOf n) [] []"
definition bytesVal :: "bytes \<Rightarrow> val" where "bytesVal b = V (replicate 32 0) b []"
definition listVal :: "val list \<Rightarrow> val" where "listVal vs = V (replicate 32 0) [] vs"

definition callArgs :: "settlement_call \<Rightarrow> val \<Rightarrow> val list" where
  "callArgs call pf =
     (let ls = sc_legs call; f = (if sc_batch call then listVal else hd) in
      [f (map (addrVal \<circ> lg_target) ls), f (map (uintVal \<circ> lg_value) ls), f (map (bytesVal \<circ> lg_data) ls), pf])"

definition callFields :: "abi_limits \<Rightarrow> settlement_call \<Rightarrow> ty list" where
  "callFields lim call = map snd (if sc_batch call then batchFields lim else directFields)"

lemma typed_address: "typed TA v \<Longrightarrow> v = addrVal (drop 12 (vw v)) \<and> length (drop 12 (vw v)) = 20"
proof (cases v)
  case (V w b its)
  assume "typed TA v"
  with V have w: "length w = 32" "isZero (take 12 w)" "b = []" "its = []" by simp_all
  then have "take 12 w = replicate 12 0" using isZero_iff [of "take 12 w"] by simp
  then have "w = replicate 12 0 @ drop 12 w" by (metis append_take_drop_id)
  with w V show ?thesis by (simp add: addrVal_def)
qed

lemma typed_uint: "typed (TU 256) v \<Longrightarrow> v = uintVal (bigOf (vw v)) \<and> bigOf (vw v) < 2 ^ 256"
proof (cases v)
  case (V w b its)
  assume "typed (TU 256) v"
  with V have w: "length w = 32" "b = []" "its = []" by simp_all
  have less: "be_nat w < 256 ^ 32" using be_nat_less [of w] w by simp
  then have "be_nat (wordOf (be_nat w)) = be_nat w" by (simp add: wordOf_def be_nat_wordBytes)
  then have "wordOf (be_nat w) = w" using w by (intro be_nat_inj) simp_all
  with w V less show ?thesis by (simp add: uintVal_def bigOf_def)
qed

lemma typed_bytes: "typed TY v \<Longrightarrow> v = bytesVal (vb v)"
  by (cases v) (simp add: bytesVal_def)

lemma typed_list: "typed (TD t c) v \<Longrightarrow> v = listVal (items v) \<and> list_all (typed t) (items v) \<and> (c > 0 \<longrightarrow> length (items v) \<le> c)"
  by (cases v) (simp add: listVal_def plain_def)

lemma fields_four: "list_all2 typed [a, b, c, d] vs \<Longrightarrow> \<exists>w x y z. vs = [w, x, y, z] \<and> typed a w \<and> typed b x \<and> typed c y \<and> typed d z"
  by (auto simp: list_all2_Cons1)

lemma decodeSettlementCall_Inr:
  assumes "length calldata < 2 ^ 64" and "decodeSettlementCall K lim calldata = Inr call"
  shows "\<exists>pf. calldata = sc_selector call @ encParts (partsOf (callFields lim call) (callArgs call pf)) \<and> list_all2 typed (callFields lim call) (callArgs call pf) \<and>
    sc_selector call = selector4 K (if sc_batch call then SigBatchGovernanceDirect else SigExecuteGovernanceDirect) \<and>
    sc_proof call = govProofOf pf \<and> sc_legs call \<noteq> [] \<and> (\<not> sc_batch call \<longrightarrow> length (sc_legs call) = 1)"
proof -
  let ?sel = "take 4 calldata"
  have l: "length (drop 4 calldata) < 2 ^ 64" using assms(1) by simp
  have c: "calldata = ?sel @ drop 4 calldata" by simp
  show ?thesis
  proof (cases "?sel = selector4 K SigExecuteGovernanceDirect")
    case True
    then obtain vs where vs: "decodeArgs (drop 4 calldata) directFields = Inr vs"
      and call: "call = \<lparr>sc_selector = ?sel, sc_batch = False, sc_legs = [legOf (vs ! 0) (vs ! 1) (vs ! 2)], sc_proof = govProofOf (vs ! 3)\<rparr>"
      using assms(2) by (auto simp: decodeSettlementCall_def bindE_Inr_iff Let_def split: if_splits)
    then have t: "list_all2 typed (map snd directFields) vs" and e: "drop 4 calldata = encParts (partsOf (map snd directFields) vs)"
      using decodeArgs_iff [OF l, of directFields vs] by simp_all
    from t obtain w x y z where v: "vs = [w, x, y, z]" "typed TA w" "typed (TU 256) x" "typed TY y" "typed adiGovType z"
      using fields_four [of TA "TU 256" TY adiGovType vs] by (auto simp: directFields_def)
    have "callArgs call z = vs"
      using v typed_address [OF v(2)] typed_uint [OF v(3)] typed_bytes [OF v(4)] by (simp add: callArgs_def call legOf_def)
    then show ?thesis using t e c True v(1) call by (intro exI [of _ z]) (simp add: callFields_def)
  next
    case False
    then obtain vs where b: "?sel = selector4 K SigBatchGovernanceDirect" and vs: "decodeArgs (drop 4 calldata) (batchFields lim) = Inr vs"
      and n: "items (vs ! 0) \<noteq> []" "length (items (vs ! 1)) = length (items (vs ! 0))" "length (items (vs ! 2)) = length (items (vs ! 0))"
      and call: "call = \<lparr>sc_selector = ?sel, sc_batch = True,
        sc_legs = map (\<lambda>i. legOf (items (vs ! 0) ! i) (items (vs ! 1) ! i) (items (vs ! 2) ! i)) [0..<length (items (vs ! 0))], sc_proof = govProofOf (vs ! 3)\<rparr>"
      using assms(2) by (auto simp: decodeSettlementCall_def bindE_Inr_iff Let_def split: if_splits)
    then have t: "list_all2 typed (map snd (batchFields lim)) vs" and e: "drop 4 calldata = encParts (partsOf (map snd (batchFields lim)) vs)"
      using decodeArgs_iff [OF l, of "batchFields lim" vs] by simp_all
    from t obtain w x y z where v: "vs = [w, x, y, z]" "typed (TD TA (maxLegs lim)) w" "typed (TD (TU 256) (maxLegs lim)) x"
        "typed (TD TY (maxLegs lim)) y" "typed adiGovType z"
      using fields_four [of "TD TA (maxLegs lim)" "TD (TU 256) (maxLegs lim)" "TD TY (maxLegs lim)" adiGovType vs] by (auto simp: batchFields_def)
    note lists = typed_list [OF v(2)] typed_list [OF v(3)] typed_list [OF v(4)]
    have legs: "sc_legs call = map (\<lambda>i. legOf (items w ! i) (items x ! i) (items y ! i)) [0..<length (items w)]" and len: "length (items x) = length (items w)" "length (items y) = length (items w)"
      using call v(1) n by simp_all
    have "map (addrVal \<circ> lg_target) (sc_legs call) = items w"
      using lists(1) typed_address by (intro nth_equalityI) (simp_all add: legs legOf_def list_all_length del: typed.simps)
    moreover have "map (uintVal \<circ> lg_value) (sc_legs call) = items x"
      using lists(2) typed_uint len by (intro nth_equalityI) (simp_all add: legs legOf_def list_all_length del: typed.simps)
    moreover have "map (bytesVal \<circ> lg_data) (sc_legs call) = items y"
      using lists(3) typed_bytes len by (intro nth_equalityI) (simp_all add: legs legOf_def list_all_length del: typed.simps)
    ultimately have "callArgs call z = vs" using lists v(1) call by (simp add: callArgs_def Let_def)
    then show ?thesis using t e c b v(1) call n by (intro exI [of _ z]) (simp add: callFields_def)
  qed
qed

section \<open>Properties\<close>

text \<open>
  C34. The decoder is strict and complete: it accepts an argument block exactly when the block is the canonical encoding of values of the declared
  types, and then it returns those values; no other bytes (slack in a length, an offset, the padding or the end) are accepted.
\<close>

theorem decodeArgs_exact:
  assumes "length args < 2 ^ 64"
  shows "decodeArgs args sig = Inr vs \<longleftrightarrow>
    list_all2 typed (map snd sig) vs \<and> args = encParts (partsOf (map snd sig) vs)"
  by (rule decodeArgs_iff [OF assms])

theorem decodeArgs_exact_witness:
  "decodeArgs (wordOf 64 @ wordOf 1 @ wordOf 2 @ wordOf 7 @ wordOf 8) [(''xs'', TD (TU 256) 4), (''flag'', TB)] =
     Inr [listVal [uintVal 7, uintVal 8], uintVal 1]"
  by (subst decodeArgs_exact) (simp, code_simp)

text \<open>
  A settlement call is read without loss: the calldata is the pinned selector followed by the canonical encoding of the legs reported and of one
  governance proof, which is the proof reported; a direct call has one leg and a batch at least one, within the limit.
\<close>

theorem settlement_call_exact:
  assumes "length calldata < 2 ^ 64" and "decodeSettlementCall K lim calldata = Inr call"
  shows "\<exists>pf. calldata = selector4 K (if sc_batch call then SigBatchGovernanceDirect else SigExecuteGovernanceDirect) @
        encParts (partsOf (callFields lim call) (callArgs call pf)) \<and>
      list_all2 typed (callFields lim call) (callArgs call pf) \<and> sc_proof call = govProofOf pf \<and>
      sc_legs call \<noteq> [] \<and> (\<not> sc_batch call \<longrightarrow> length (sc_legs call) = 1) \<and>
      (sc_batch call \<and> 0 < maxLegs lim \<longrightarrow> length (sc_legs call) \<le> maxLegs lim)"
proof -
  obtain pf where pf: "calldata = sc_selector call @ encParts (partsOf (callFields lim call) (callArgs call pf))"
    "list_all2 typed (callFields lim call) (callArgs call pf)"
    "sc_selector call = selector4 K (if sc_batch call then SigBatchGovernanceDirect else SigExecuteGovernanceDirect)"
    "sc_proof call = govProofOf pf" "sc_legs call \<noteq> []" "\<not> sc_batch call \<longrightarrow> length (sc_legs call) = 1"
    using decodeSettlementCall_Inr [OF assms] by blast
  have "length (sc_legs call) \<le> maxLegs lim" if "sc_batch call" "0 < maxLegs lim"
    using pf(2) that by (simp add: callFields_def batchFields_def callArgs_def listVal_def Let_def)
  with pf show ?thesis by (intro exI [of _ pf]) simp
qed

definition demoProof :: val where
  "demoProof = listVal [bytesVal [], uintVal 0, listVal [uintVal 5], uintVal 0, bytesVal [1], bytesVal [], bytesVal [], uintVal 0, uintVal 0,
     bytesVal [], uintVal 0, uintVal 9, uintVal 3, uintVal 0, uintVal 0]"

definition demoCall :: settlement_call where
  "demoCall = \<lparr>sc_selector = map of_char ''batc'', sc_batch = True,
     sc_legs = [\<lparr>lg_target = replicate 20 1, lg_value = 6, lg_data = [1, 2, 3, 4, 5], lg_selector = [1, 2, 3, 4]\<rparr>],
     sc_proof = \<lparr>gp_authorityBook = wordOf 9, gp_authorityPage = 3\<rparr>\<rparr>"

definition demoCalldata :: bytes where
  "demoCalldata = map of_char ''batc'' @ encParts (partsOf (callFields defaultABILimits demoCall) (callArgs demoCall demoProof))"

lemma demo_typed: "list_all2 typed (callFields defaultABILimits demoCall) (callArgs demoCall demoProof)"
  by code_simp

lemma demo_call_length: "length (encParts (partsOf (callFields defaultABILimits demoCall) (callArgs demoCall demoProof))) < 2000"
  by code_simp

lemma demo_call_short: "length demoCalldata < 2 ^ 64"
  using demo_call_length by (simp add: demoCalldata_def)

lemma demo_call_args:
  "decodeArgs (encParts (partsOf (callFields defaultABILimits demoCall) (callArgs demoCall demoProof))) (batchFields defaultABILimits) =
     Inr (callArgs demoCall demoProof)"
  using demo_call_length demo_typed by (subst decodeArgs_iff) (simp_all add: callFields_def demoCall_def)

lemma demo_call: "decodeSettlementCall (take 4) defaultABILimits demoCalldata = Inr demoCall"
proof -
  have s: "take 4 demoCalldata = map of_char ''batc''" and d: "drop 4 demoCalldata = encParts (partsOf (callFields defaultABILimits demoCall) (callArgs demoCall demoProof))"
    and l: "\<not> length demoCalldata < 4"
    by (simp_all add: demoCalldata_def)
  have k: "selector4 (take 4) SigExecuteGovernanceDirect \<noteq> map of_char ''batc''" "selector4 (take 4) SigBatchGovernanceDirect = map of_char ''batc''"
    by code_simp+
  have c: "callArgs demoCall demoProof = [listVal [addrVal (replicate 20 1)], listVal [uintVal 6], listVal [bytesVal [1, 2, 3, 4, 5]], demoProof]"
    by (simp add: callArgs_def demoCall_def)
  have legs: "legOf (addrVal (replicate 20 1)) (uintVal 6) (bytesVal [1, 2, 3, 4, 5]) = hd (sc_legs demoCall)"
    by (simp add: legOf_def addrVal_def uintVal_def bytesVal_def demoCall_def legSelector_def bigOf_wordOf)
  have gp: "govProofOf demoProof = sc_proof demoCall"
    using wordOf_parts [of 3] by (simp add: govProofOf_def demoProof_def demoCall_def listVal_def uintVal_def)
  show ?thesis unfolding decodeSettlementCall_def Let_def s d demo_call_args k(2)
    using l k(1) legs gp by (simp add: c listVal_def) (simp add: demoCall_def)
qed

theorem settlement_call_exact_witness:
  "\<exists>pf. demoCalldata = selector4 (take 4) SigBatchGovernanceDirect @ encParts (partsOf (callFields defaultABILimits demoCall) (callArgs demoCall pf)) \<and>
     sc_proof demoCall = govProofOf pf"
  using settlement_call_exact [OF demo_call_short demo_call] by (auto simp: demoCall_def)

end
