(* ===== verification/AccSet.thy ===== *)
theory AccSet
  imports AbiDec "HOL-Library.List_Lexorder"
begin

text \<open>
  The Accumulate validator-set root \<open>certen:accval:v1\<close> (\<open>packages/verify/src/proof-v2/accset.ts\<close>): the set and accept threshold an anchor commits
  under an incarnation. \<open>keccak256\<close> is the parameter \<open>K\<close>. Bytes are ordered as \<open>Buffer.compare\<close> orders them, unsigned and lexicographic.
\<close>

section \<open>The root\<close>

record acc_validator =
  av_publicKey :: string
  av_activeOn :: "string list"

datatype accset_error =
    EmptySet
  | BadPublicKey nat
  | BadIncarnation verify_error
  | ZeroIncarnation
  | ZeroDenominator
  | ZeroNumerator
  | NumeratorExceeds nat nat
  | DuplicateKey bytes
  | DuplicatePartition bytes bytes

definition ACCVAL_DOMAIN :: bytes where "ACCVAL_DOMAIN = map of_char ''certen:accval:v1''"

text \<open>Big-endian numbers of a width; \<open>wordBytes\<close> keeps the low bytes, as \<open>DataView\<close> does.\<close>

definition u64be :: "nat \<Rightarrow> bytes" where "u64be n = wordBytes 8 n"
definition u32be :: "nat \<Rightarrow> bytes" where "u32be n = wordBytes 4 n"

definition nameBytes :: "bytes \<Rightarrow> bytes" where "nameBytes p = u32be (length p) @ p"

definition byteKey :: "bytes \<Rightarrow> nat list" where "byteKey b = map unat b"

text \<open>The first two neighbours that are equal.\<close>

fun adjacentEqual :: "bytes list \<Rightarrow> bytes option" where
  "adjacentEqual (a # b # bs) = (if a = b then Some b else adjacentEqual (b # bs))"
| "adjacentEqual _ = None"

definition publicKeyOf :: "nat \<times> acc_validator \<Rightarrow> accset_error + bytes \<times> string list" where
  "publicKeyOf iv =
     (let t = strip0x (map lowerChar (trim (av_publicKey (snd iv)))) in
      case fromHex t of
        Some k \<Rightarrow> if length k = 32 then Inr (k, av_activeOn (snd iv)) else Inl (BadPublicKey (fst iv))
      | None \<Rightarrow> Inl (BadPublicKey (fst iv)))"

definition validatorBytes :: "bytes \<times> string list \<Rightarrow> accset_error + bytes" where
  "validatorBytes v =
     (let names = sort_key byteKey (map (map of_char) (snd v)) in
      case adjacentEqual names of
        Some p \<Rightarrow> Inl (DuplicatePartition (take 8 (fst v)) p)
      | None \<Rightarrow> Inr (fst v @ u32be (length names) @ concat (map nameBytes names)))"

definition accumulateSetRoot :: "(bytes \<Rightarrow> bytes) \<Rightarrow> acc_validator list \<Rightarrow> nat \<Rightarrow> nat \<Rightarrow> string \<Rightarrow> accset_error + string" where
  "accumulateSetRoot K validators num den incarnation =
     (if validators = [] then Inl EmptySet
      else
        bindE (mapE publicKeyOf (zip [0..<length validators] validators)) (\<lambda>keyed.
        bindE (mapErr BadIncarnation (hexBytes (JStr incarnation) (Some 32))) (\<lambda>inc.
        if inc = replicate 32 0 then Inl ZeroIncarnation
        else if den = 0 then Inl ZeroDenominator
        else if num = 0 then Inl ZeroNumerator
        else if num > den then Inl (NumeratorExceeds num den)
        else
          let vals = sort_key (byteKey \<circ> fst) keyed in
          case adjacentEqual (map fst vals) of
            Some k \<Rightarrow> Inl (DuplicateKey (take 8 k))
          | None \<Rightarrow>
              bindE (mapE validatorBytes vals) (\<lambda>parts.
                Inr (toHex (K (ACCVAL_DOMAIN @ inc @ u64be num @ u64be den @ u32be (length vals) @ concat parts)))))))"

section \<open>What the root commits to\<close>

text \<open>Each validator's key with the set of partitions it is active on.\<close>

definition keyBytes :: "acc_validator \<Rightarrow> bytes" where
  "keyBytes v = the (fromHex (strip0x (map lowerChar (trim (av_publicKey v)))))"

definition memberships :: "acc_validator list \<Rightarrow> (bytes \<times> bytes set) set" where
  "memberships vs = (\<lambda>v. (keyBytes v, set (map (map of_char) (av_activeOn v)))) ` set vs"

text \<open>The canonical list: the keys in order, each with its partitions in order, nothing twice; its encoding.\<close>

definition canonical :: "(bytes \<times> bytes list) list \<Rightarrow> bool" where
  "canonical cs \<longleftrightarrow> sorted (map (byteKey \<circ> fst) cs) \<and> distinct (map fst cs) \<and>
     (\<forall>(k, ns)\<in>set cs. length k = 32 \<and> sorted (map byteKey ns) \<and> distinct ns)"

definition canonBytes :: "bytes \<times> bytes list \<Rightarrow> bytes" where
  "canonBytes c = fst c @ u32be (length (snd c)) @ concat (map nameBytes (snd c))"

definition preimage :: "bytes \<Rightarrow> nat \<Rightarrow> nat \<Rightarrow> (bytes \<times> bytes list) list \<Rightarrow> bytes" where
  "preimage inc num den cs = ACCVAL_DOMAIN @ inc @ u64be num @ u64be den @ u32be (length cs) @ concat (map canonBytes cs)"

lemma byteKey_inj: "byteKey a = byteKey b \<longleftrightarrow> a = b"
  unfolding byteKey_def by (rule inj_eq) (simp add: inj_on_def unsigned_word_eqI)

lemma adjacentEqual_distinct: "sorted (map byteKey xs) \<Longrightarrow> adjacentEqual xs = None \<Longrightarrow> distinct xs"
proof (induction xs rule: adjacentEqual.induct)
  case (1 a b bs)
  then have d: "distinct (b # bs)" and n: "a \<noteq> b" and ab: "byteKey a \<le> byteKey b" by (auto split: if_splits)
  have "a \<noteq> c" if "c \<in> set bs" for c
  proof
    assume "a = c"
    with that 1(2) have "byteKey b \<le> byteKey a" by auto
    with ab have "byteKey a = byteKey b" by simp
    with n show False by (simp add: byteKey_inj)
  qed
  with d n show ?case by auto
qed simp_all

lemma validatorBytes_Inr:
  assumes "validatorBytes v = Inr b"
  shows "b = canonBytes (fst v, sort_key byteKey (map (map of_char) (snd v))) \<and> distinct (sort_key byteKey (map (map of_char) (snd v)))"
  using assms adjacentEqual_distinct [of "sort_key byteKey (map (map of_char) (snd v))"]
  by (auto simp: validatorBytes_def canonBytes_def Let_def split: option.splits)

lemma publicKeyOf_Inr: "publicKeyOf iv = Inr kv \<Longrightarrow> length (fst kv) = 32 \<and> fst kv = keyBytes (snd iv) \<and> snd kv = av_activeOn (snd iv)"
  by (auto simp: publicKeyOf_def keyBytes_def Let_def split: option.splits if_splits)

lemma accumulateSetRoot_Inr:
  assumes "accumulateSetRoot K vs num den inc = Inr root"
  obtains i cs where "hexBytes (JStr inc) (Some 32) = Inr i" and "canonical cs" and "length cs = length vs"
    and "(\<lambda>(k, ns). (k, set ns)) ` set cs = memberships vs" and "root = toHex (K (preimage i num den cs))"
proof -
  obtain keyed i where keyed: "mapE publicKeyOf (zip [0..<length vs] vs) = Inr keyed" and i: "hexBytes (JStr inc) (Some 32) = Inr i"
    and d: "adjacentEqual (map fst (sort_key (byteKey \<circ> fst) keyed)) = None"
    and root: "bindE (mapE validatorBytes (sort_key (byteKey \<circ> fst) keyed)) (\<lambda>parts.
      Inr (toHex (K (ACCVAL_DOMAIN @ i @ u64be num @ u64be den @ u32be (length (sort_key (byteKey \<circ> fst) keyed)) @ concat parts)))) = Inr root"
    using assms unfolding accumulateSetRoot_def Let_def by (auto simp: bindE_Inr_iff mapErr_Inr_iff split: if_splits option.splits)
  define vals where "vals = sort_key (byteKey \<circ> fst) keyed"
  define cs where "cs = map (\<lambda>v. (fst v, sort_key byteKey (map (map of_char) (snd v)) :: bytes list)) vals"
  obtain parts where parts: "mapE validatorBytes vals = Inr parts"
    and r: "root = toHex (K (ACCVAL_DOMAIN @ i @ u64be num @ u64be den @ u32be (length vals) @ concat parts))"
    using root by (auto simp: vals_def bindE_Inr_iff)
  have k: "list_all2 (\<lambda>v kv. length (fst kv) = 32 \<and> fst kv = keyBytes v \<and> snd kv = av_activeOn v) vs keyed"
    using keyed unfolding mapE_Inr_iff list_all2_conv_all_nth by (auto dest!: publicKeyOf_Inr)
  have p: "list_all2 (\<lambda>v b. b = canonBytes (fst v, sort_key byteKey (map (map of_char) (snd v))) \<and>
      distinct (sort_key byteKey (map (map of_char) (snd v) :: bytes list))) vals parts"
    using parts unfolding mapE_Inr_iff by (rule list_all2_mono) (rule validatorBytes_Inr)
  then have "parts = map canonBytes cs" unfolding cs_def by (induction rule: list_all2_induct) auto
  moreover have "length vals = length cs" by (simp add: cs_def)
  ultimately have "root = toHex (K (preimage i num den cs))" using r by (simp add: preimage_def)
  moreover have "canonical cs"
  proof -
    have "sorted (map (byteKey \<circ> fst) cs)" by (simp add: cs_def vals_def comp_def)
    moreover have "sorted (map byteKey (map fst vals))" by (simp add: vals_def)
    then have "distinct (map fst cs)" using d adjacentEqual_distinct by (simp add: cs_def vals_def comp_def)
    moreover have "length (fst v) = 32" if "v \<in> set vals" for v
      using k that by (auto simp: vals_def list_all2_conv_all_nth in_set_conv_nth)
    moreover have "distinct (map (map of_char) (snd v) :: bytes list)" if "v \<in> set vals" for v
      using p that by (auto simp: list_all2_conv_all_nth in_set_conv_nth)
    ultimately show ?thesis by (auto simp: canonical_def cs_def)
  qed
  moreover have "(\<lambda>(k, ns). (k, set ns)) ` set cs = memberships vs"
  proof -
    have "(\<lambda>(k, ns). (k, set ns)) ` set cs = (\<lambda>v. (fst v, set (map (map of_char) (snd v)))) ` set keyed"
      by (simp add: cs_def vals_def image_image)
    also have "\<dots> = memberships vs" using k unfolding memberships_def by (induction rule: list_all2_induct) auto
    finally show ?thesis .
  qed
  moreover have "length cs = length vs" using k by (simp add: cs_def vals_def list_all2_lengthD)
  ultimately show thesis using that i by blast
qed

section \<open>The encoding is injective\<close>

lemma wordBytes_inj: "wordBytes k m = wordBytes k n \<Longrightarrow> m < 256 ^ k \<Longrightarrow> n < 256 ^ k \<Longrightarrow> m = n"
  by (metis be_nat_wordBytes mod_less)

lemma cut_equal: "m @ a = n @ b \<Longrightarrow> length m = length n \<Longrightarrow> m = n \<and> a = b"
  using append_eq_append_conv [of m n a b] by blast

lemma u32be_cut: "u32be m @ a = u32be n @ b \<Longrightarrow> m < 2 ^ 32 \<Longrightarrow> n < 2 ^ 32 \<Longrightarrow> m = n \<and> a = b"
proof -
  assume e: "u32be m @ a = u32be n @ b" and n: "m < 2 ^ 32" "n < 2 ^ 32"
  have "u32be m = u32be n \<and> a = b" using e by (rule cut_equal) (simp add: u32be_def)
  moreover have "m = n" if "u32be m = u32be n"
    using that unfolding u32be_def by (rule wordBytes_inj) (use n in simp_all)
  ultimately show ?thesis by blast
qed

lemma names_cut:
  assumes "length ms = length ns" and "\<forall>p\<in>set ms \<union> set ns. length p < 2 ^ 32"
    and "concat (map nameBytes ms) @ a = concat (map nameBytes ns) @ b"
  shows "ms = ns \<and> a = b"
  using assms
proof (induction ms ns rule: list_induct2)
  case (Cons m ms n ns)
  have "u32be (length m) @ m @ concat (map nameBytes ms) @ a = u32be (length n) @ n @ concat (map nameBytes ns) @ b"
    using Cons.prems(2) by (simp add: nameBytes_def [of m] nameBytes_def [of n])
  then have l: "length m = length n \<and> m @ concat (map nameBytes ms) @ a = n @ concat (map nameBytes ns) @ b"
    by (rule u32be_cut) (use Cons.prems(1) in auto)
  then have r: "m = n \<and> concat (map nameBytes ms) @ a = concat (map nameBytes ns) @ b" by (intro cut_equal) simp_all
  have "ms = ns \<and> a = b" using Cons.prems(1) r by (intro Cons.IH) auto
  with r show ?case by simp
qed simp

definition small :: "bytes \<times> bytes list \<Rightarrow> bool" where
  "small c \<longleftrightarrow> length (fst c) = 32 \<and> length (snd c) < 2 ^ 32 \<and> (\<forall>p\<in>set (snd c). length p < 2 ^ 32)"

lemma canonBytes_cut:
  assumes "small c" "small d" and eq: "canonBytes c @ a = canonBytes d @ b"
  shows "c = d \<and> a = b"
proof -
  let ?n = "\<lambda>c. concat (map nameBytes (snd c))"
  have "fst c @ u32be (length (snd c)) @ ?n c @ a = fst d @ u32be (length (snd d)) @ ?n d @ b" using eq by (simp add: canonBytes_def)
  then have "fst c = fst d \<and> u32be (length (snd c)) @ ?n c @ a = u32be (length (snd d)) @ ?n d @ b"
    by (rule cut_equal) (use assms(1,2) in \<open>simp add: small_def\<close>)
  then have k: "fst c = fst d" and r: "u32be (length (snd c)) @ ?n c @ a = u32be (length (snd d)) @ ?n d @ b" by simp_all
  have "length (snd c) = length (snd d) \<and> ?n c @ a = ?n d @ b" using r assms(1,2) by (intro u32be_cut) (simp_all add: small_def)
  then have "snd c = snd d \<and> a = b" using assms(1,2) by (intro names_cut) (auto simp: small_def)
  with k show ?thesis by (simp add: prod_eq_iff)
qed

lemma canon_concat: "length cs = length ds \<Longrightarrow> \<forall>c\<in>set cs \<union> set ds. small c \<Longrightarrow>
    concat (map canonBytes cs) = concat (map canonBytes ds) \<Longrightarrow> cs = ds"
proof (induction cs ds rule: list_induct2)
  case (Cons c cs d ds)
  then show ?case using canonBytes_cut [of c d "concat (map canonBytes cs)" "concat (map canonBytes ds)"] by simp
qed simp

lemma preimage_inj:
  assumes "preimage i num den cs = preimage j num' den' ds" and "length i = 32" "length j = 32"
    and "num < 2 ^ 64" "num' < 2 ^ 64" "den < 2 ^ 64" "den' < 2 ^ 64" "length cs < 2 ^ 32" "length ds < 2 ^ 32"
    and "\<forall>c\<in>set cs \<union> set ds. small c"
  shows "i = j \<and> num = num' \<and> den = den' \<and> cs = ds"
proof -
  have l: "length (u64be n) = 8" for n by (simp add: u64be_def)
  have a: "i = j" "u64be num = u64be num'" "u64be den = u64be den'"
    "u32be (length cs) @ concat (map canonBytes cs) = u32be (length ds) @ concat (map canonBytes ds)"
    using assms(1-3) by (simp_all add: preimage_def append_eq_append_conv l)
  moreover have "length cs = length ds \<and> concat (map canonBytes cs) = concat (map canonBytes ds)" using a(4) assms(8,9) by (rule u32be_cut)
  moreover have "num = num'" "den = den'" using a(2,3) assms(4-7) wordBytes_inj [of 8] by (simp_all add: u64be_def)
  ultimately show ?thesis using canon_concat assms(10) by blast
qed

lemma pair_image: "(k, S) \<in> (\<lambda>(k, ns). (k, set ns)) ` A \<longleftrightarrow> (\<exists>ns. (k, ns) \<in> A \<and> S = set ns)"
  by (auto simp: image_iff split: prod.splits)

lemma canonical_unique:
  assumes "canonical cs" "canonical ds" and "(\<lambda>(k, ns). (k, set ns)) ` set cs = (\<lambda>(k, ns). (k, set ns)) ` set ds"
  shows "cs = ds"
proof (rule map_sorted_distinct_set_unique)
  have names: "ms = ns" if "(k, ms) \<in> set cs \<union> set ds" "(k', ns) \<in> set cs \<union> set ds" "set ms = set ns" for k k' ms ns
  proof (rule map_sorted_distinct_set_unique)
    show "inj_on byteKey (set ms \<union> set ns)" by (simp add: inj_on_def byteKey_inj)
  qed (use that assms(1,2) in \<open>auto simp: canonical_def distinct_map inj_on_def byteKey_inj\<close>)
  show "set cs = set ds"
  proof (rule set_eqI)
    fix x :: "bytes \<times> bytes list"
    obtain k ms where x: "x = (k, ms)" by (cases x)
    have "(k, ms) \<in> set ds" if "(k, ms) \<in> set cs"
    proof -
      have "(k, set ms) \<in> (\<lambda>(k, ns). (k, set ns)) ` set cs" using that unfolding pair_image by blast
      then have "(k, set ms) \<in> (\<lambda>(k, ns). (k, set ns)) ` set ds" by (simp only: assms(3))
      then obtain ns where ns: "(k, ns) \<in> set ds" "set ms = set ns" unfolding pair_image by blast
      have "ms = ns" by (rule names [of k ms k ns]) (use that ns in simp_all)
      with ns show ?thesis by simp
    qed
    moreover have "(k, ms) \<in> set cs" if "(k, ms) \<in> set ds"
    proof -
      have "(k, set ms) \<in> (\<lambda>(k, ns). (k, set ns)) ` set ds" using that unfolding pair_image by blast
      then have "(k, set ms) \<in> (\<lambda>(k, ns). (k, set ns)) ` set cs" by (simp only: assms(3))
      then obtain ns where ns: "(k, ns) \<in> set cs" "set ms = set ns" unfolding pair_image by blast
      have "ms = ns" by (rule names [of k ms k ns]) (use that ns in simp_all)
      with ns show ?thesis by simp
    qed
    ultimately show "x \<in> set cs \<longleftrightarrow> x \<in> set ds" using x by blast
  qed
  have inj: "inj_on (byteKey \<circ> fst) (set cs)" using assms(1) by (auto simp: canonical_def distinct_map inj_on_def byteKey_inj)
  have injd: "inj_on (byteKey \<circ> fst) (set ds)" using assms(2) by (auto simp: canonical_def distinct_map inj_on_def byteKey_inj)
  show "inj_on (byteKey \<circ> fst) (set cs \<union> set ds)" using inj \<open>set cs = set ds\<close> by simp
  show "sorted (map (byteKey \<circ> fst) cs)" "sorted (map (byteKey \<circ> fst) ds)" using assms(1,2) by (simp_all add: canonical_def)
  show "distinct (map (byteKey \<circ> fst) cs)" "distinct (map (byteKey \<circ> fst) ds)"
    using assms(1,2) inj injd by (auto simp: canonical_def distinct_map)
qed

section \<open>Properties\<close>

definition fitting :: "acc_validator list \<Rightarrow> bool" where
  "fitting vs \<longleftrightarrow> length vs < 2 ^ 32 \<and> (\<forall>v\<in>set vs. length (av_activeOn v) < 2 ^ 32 \<and> (\<forall>p\<in>set (av_activeOn v). length p < 2 ^ 32))"

lemma canonical_small:
  assumes "canonical cs" and "(\<lambda>(k, ns). (k, set ns)) ` set cs = memberships vs" and "fitting vs" and "c \<in> set cs"
  shows "small c"
proof -
  obtain k ns where c: "c = (k, ns)" by (cases c)
  then have "(k, set ns) \<in> memberships vs" using assms(2,4) by (auto simp: image_iff)
  then obtain v where v: "v \<in> set vs" "set ns = set (map (map of_char) (av_activeOn v))" by (auto simp: memberships_def)
  have "distinct ns" "length k = 32" using assms(1,4) c by (auto simp: canonical_def)
  then have "length ns = card (set ns)" by (simp add: distinct_card)
  then have "length ns \<le> length (av_activeOn v)" using card_length [of "map (map of_char) (av_activeOn v) :: bytes list"] unfolding v(2) by simp
  moreover have "length (av_activeOn v) < 2 ^ 32" using v(1) assms(3) by (auto simp: fitting_def)
  moreover have "length p < 2 ^ 32" if "p \<in> set ns" for p using that v assms(3) by (auto simp: fitting_def)
  ultimately show ?thesis using c \<open>length k = 32\<close> unfolding small_def by auto
qed

lemma toHex_eq_iff: "toHex a = toHex b \<longleftrightarrow> a = b"
  by (metis fromHex_toHex option.inject)

text \<open>The byte string the hash function is applied to when a set is accumulated: what the accumulation is under the identity.\<close>

definition hashedSet :: "acc_validator list \<Rightarrow> nat \<Rightarrow> nat \<Rightarrow> string \<Rightarrow> bytes set" where
  "hashedSet vs num den inc = {p. accumulateSetRoot id vs num den inc = Inr (toHex p)}"

lemma accumulateSetRoot_hashes:
  assumes "accumulateSetRoot K vs num den inc = Inr root"
  shows "\<exists>p. accumulateSetRoot id vs num den inc = Inr (toHex p) \<and> root = toHex (K p)"
  using assms unfolding accumulateSetRoot_def Let_def by (auto simp: results simp del: hexBytes.simps split: if_splits option.splits)

text \<open>
  C21. The root commits to the set, and to nothing about its spelling: two accumulated sets (of less than 2^32 validators and partitions and names of less than
  2^32 bytes, with a threshold of 64-bit numbers) have the same root exactly when they have the same keys, the same set of partitions for each, the same
  threshold and the same incarnation, however they are ordered and their hex digits spelled - where the hash function does not give the two byte strings
  it is applied to the same value.
\<close>

theorem accumulateSetRoot_commits:
  assumes a: "accumulateSetRoot K vs num den inc = Inr root" and b: "accumulateSetRoot K vs' num' den' inc' = Inr root'"
    and "num < 2 ^ 64" "num' < 2 ^ 64" "den < 2 ^ 64" "den' < 2 ^ 64" and f: "fitting vs" "fitting vs'"
    and inj: "inj_on K (hashedSet vs num den inc \<union> hashedSet vs' num' den' inc')"
  shows "root = root' \<longleftrightarrow>
    num = num' \<and> den = den' \<and> hexBytes (JStr inc) (Some 32) = hexBytes (JStr inc') (Some 32) \<and> memberships vs = memberships vs'"
proof -
  obtain p q where p: "accumulateSetRoot id vs num den inc = Inr (toHex p)" "root = toHex (K p)"
    and q: "accumulateSetRoot id vs' num' den' inc' = Inr (toHex q)" "root' = toHex (K q)"
    using accumulateSetRoot_hashes [OF a] accumulateSetRoot_hashes [OF b] by blast
  obtain i cs where cs: "hexBytes (JStr inc) (Some 32) = Inr i" "canonical cs" "length cs = length vs"
    "(\<lambda>(k, ns). (k, set ns)) ` set cs = memberships vs" "toHex p = toHex (id (preimage i num den cs))"
    using p(1) by (rule accumulateSetRoot_Inr)
  obtain j ds where ds: "hexBytes (JStr inc') (Some 32) = Inr j" "canonical ds" "length ds = length vs'"
    "(\<lambda>(k, ns). (k, set ns)) ` set ds = memberships vs'" "toHex q = toHex (id (preimage j num' den' ds))"
    using q(1) by (rule accumulateSetRoot_Inr)
  have l: "length i = 32" "length j = 32" using cs(1) ds(1) by (auto split: option.splits if_splits)
  have s: "\<forall>c\<in>set cs \<union> set ds. small c" using canonical_small [OF cs(2,4) f(1)] canonical_small [OF ds(2,4) f(2)] by blast
  have n: "length cs < 2 ^ 32" "length ds < 2 ^ 32" using cs(3) ds(3) f by (simp_all add: fitting_def)
  have e: "p = preimage i num den cs" "q = preimage j num' den' ds" using cs(5) ds(5) by (simp_all add: toHex_eq_iff)
  have "root = root' \<longleftrightarrow> p = q"
    using inj_onD [OF inj, of p q] p q by (auto simp: toHex_eq_iff hashedSet_def)
  also have "\<dots> \<longleftrightarrow> num = num' \<and> den = den' \<and> i = j \<and> cs = ds"
    using preimage_inj [of i num den cs j num' den' ds] l assms(3-6) n s unfolding e by blast
  also have "\<dots> \<longleftrightarrow> num = num' \<and> den = den' \<and> i = j \<and> memberships vs = memberships vs'"
    using canonical_unique [OF cs(2) ds(2)] cs(4) ds(4) by metis
  also have "\<dots> \<longleftrightarrow> num = num' \<and> den = den' \<and> hexBytes (JStr inc) (Some 32) = hexBytes (JStr inc') (Some 32) \<and> memberships vs = memberships vs'"
    using cs(1) ds(1) by simp
  finally show ?thesis .
qed

definition demoSet :: "acc_validator list" where
  "demoSet = [\<lparr>av_publicKey = concat (replicate 32 ''0a''), av_activeOn = [''Directory'', ''BVN1'']\<rparr>, \<lparr>av_publicKey = concat (replicate 32 ''01''), av_activeOn = []\<rparr>]"

definition demoSpelled :: "acc_validator list" where
  "demoSpelled = [\<lparr>av_publicKey = concat (replicate 32 ''01''), av_activeOn = []\<rparr>, \<lparr>av_publicKey = ''0x'' @ concat (replicate 32 ''0A''), av_activeOn = [''BVN1'', ''Directory'']\<rparr>]"

definition demoIncarnation :: string where "demoIncarnation = concat (replicate 32 ''05'')"

definition demoRoot :: string where
  "demoRoot = toHex (preimage (replicate 32 5) 2 3 [(replicate 32 1, []), (replicate 32 10, [map of_char ''BVN1'', map of_char ''Directory''])])"

abbreviation "demoKeyed \<equiv> [(replicate 32 1 :: bytes, [] :: string list), (replicate 32 10, [''Directory'', ''BVN1''])]"
abbreviation "demoKeyedSpelled \<equiv> [(replicate 32 1 :: bytes, [] :: string list), (replicate 32 10, [''BVN1'', ''Directory''])]"

lemma demo_keyed:
  "\<exists>keyed. mapE publicKeyOf (zip [0..<length demoSet] demoSet) = Inr keyed \<and> sort_key (byteKey \<circ> fst) keyed = demoKeyed"
  "\<exists>keyed. mapE publicKeyOf (zip [0..<length demoSpelled] demoSpelled) = Inr keyed \<and> sort_key (byteKey \<circ> fst) keyed = demoKeyedSpelled"
  by (rule exI [of _ "rev demoKeyed"], code_simp) (rule exI [of _ demoKeyedSpelled], code_simp)

lemma demo_parts_bytes:
  "mapE validatorBytes demoKeyed = Inr (map canonBytes [(replicate 32 1, []), (replicate 32 10, [map of_char ''BVN1'', map of_char ''Directory''])])"
  "mapE validatorBytes demoKeyedSpelled = Inr (map canonBytes [(replicate 32 1, []), (replicate 32 10, [map of_char ''BVN1'', map of_char ''Directory''])])"
  by code_simp+

lemma demo_inc: "hexBytes (JStr demoIncarnation) (Some 32) = Inr (replicate 32 5)" "adjacentEqual [replicate 32 1, replicate 32 10] = None"
  "(replicate 32 5 :: bytes) \<noteq> replicate 32 0" "demoSet \<noteq> []" "demoSpelled \<noteq> []"
  by code_simp+

lemma accumulateSetRoot_eval:
  assumes "vs \<noteq> []" and "\<exists>keyed. mapE publicKeyOf (zip [0..<length vs] vs) = Inr keyed \<and> sort_key (byteKey \<circ> fst) keyed = vals"
    and "hexBytes (JStr inc) (Some 32) = Inr i" and "i \<noteq> replicate 32 0" and "0 < num" "num \<le> den" and "adjacentEqual (map fst vals) = None"
    and "mapE validatorBytes vals = Inr (map canonBytes cs)" and "length cs = length vals"
  shows "accumulateSetRoot K vs num den inc = Inr (toHex (K (preimage i num den cs)))"
  using assms by (auto simp: accumulateSetRoot_def Let_def preimage_def simp del: hexBytes.simps)

lemma demo_roots:
  "accumulateSetRoot id demoSet 2 3 demoIncarnation = Inr demoRoot" "accumulateSetRoot id demoSpelled 2 3 demoIncarnation = Inr demoRoot"
  using accumulateSetRoot_eval [OF demo_inc(4) demo_keyed(1) demo_inc(1,3) _ _ _ demo_parts_bytes(1), of 2 3 id]
    accumulateSetRoot_eval [OF demo_inc(5) demo_keyed(2) demo_inc(1,3) _ _ _ demo_parts_bytes(2), of 2 3 id] demo_inc(2)
  by (simp_all add: demoRoot_def)

theorem accumulateSetRoot_commits_witness: "memberships demoSet = memberships demoSpelled"
  using accumulateSetRoot_commits [OF demo_roots] by (simp add: fitting_def demoSet_def demoSpelled_def)

end
