(* ===== verification/Codec.thy ===== *)
theory Codec
  imports Wire Chains Model "HOL-Library.AList"
begin

text \<open>
  Accumulate's binary encoding of protocol objects, driven by field metadata (\<open>packages/verify/src/sigtypes/wire.ts\<close>): the fields of a class, the
  decoder, the writer and the Factom entry. The metadata of the SDK's classes and the generated tables of \<open>eip712-schema.ts\<close> are the argument
  \<open>env\<close> of the definitions; the classes the source describes itself are here. A \<open>WireError\<close> is a constructor of \<open>codec_error\<close>; a value of another
  kind than its field's, which the types of the source exclude, is \<open>Untyped\<close>. The members of a node are in the order they were set.
\<close>

section \<open>Metadata\<close>

datatype kind = KInt | KUint | KBool | KString | KHash | KBytes | KUrl | KTime | KDuration | KBigint | KTxid | KEnum | KUnion | KReference | KRawJson

record field_desc =
  fd_number :: nat
  fd_name :: string
  fd_kind :: kind
  fd_repeatable :: bool
  fd_keepEmpty :: bool
  fd_enum :: "(int \<Rightarrow> bool) option"

text \<open>A declared field, or an embedded struct with its own. An enumeration is given by the values it names.\<close>

datatype desc = Plain field_desc | Embedded nat "field_desc list"

datatype enum_type = SdkTransactionType | SdkEnum "int \<Rightarrow> bool"

datatype sdk_field = SdkField nat string kind bool bool "enum_type option" "sdk_field list"

record codec_env =
  ce_class :: "string \<Rightarrow> sdk_field list option option"
  ce_union :: "string \<Rightarrow> (int \<Rightarrow> string option) option"
  ce_hashAlgorithm :: "int \<Rightarrow> bool"
  ce_executorVersion :: "int \<Rightarrow> bool"
  ce_voteType :: "int \<Rightarrow> bool"
  ce_dataEntryType :: "int \<Rightarrow> bool"
  ct_schema :: "string \<Rightarrow> (string \<times> string) list option"
  ct_valueStructs :: "string \<Rightarrow> string list"
  ct_valueBigints :: "string \<Rightarrow> string list"
  ct_transactionBodies :: "(string \<times> string) list"
  ct_transactionTypes :: "int \<Rightarrow> string option"

datatype codec_error =
    BadVarint
  | WantBytes nat nat
  | TooBig nat
  | InvalidFieldNumber nat
  | FieldOutOfOrder nat nat
  | NotEnumValue string int
  | NotBoolean string int
  | UnparsedUrl string
  | NoUnion string string
  | NotMember string int
  | TypeMissing string
  | NoClass string
  | NoMetadata string
  | BadFactom string
  | Untyped string

definition transactionType :: "codec_env \<Rightarrow> int \<Rightarrow> bool" where
  "transactionType env v = (ct_transactionTypes env v \<noteq> None)"

definition fieldEnums :: "codec_env \<Rightarrow> string \<Rightarrow> string \<Rightarrow> (int \<Rightarrow> bool) option" where
  "fieldEnums env c name =
     (if (c, name) = (''HashLockOptions'', ''hashAlgorithm'') then Some (ce_hashAlgorithm env)
      else if c = ''UpdateAllowedKeyPageOperation'' \<and> (name = ''allow'' \<or> name = ''deny'') then Some (transactionType env)
      else if (c, name) = (''ActivateProtocolVersion'', ''version'') then Some (ce_executorVersion env)
      else None)"

definition fieldDesc :: "nat \<Rightarrow> string \<Rightarrow> kind \<Rightarrow> field_desc" where
  "fieldDesc n name k = \<lparr>fd_number = n, fd_name = name, fd_kind = k, fd_repeatable = False, fd_keepEmpty = False, fd_enum = None\<rparr>"

text \<open>The classes the SDK does not have: their fields and the classes of their references.\<close>

definition extraClass :: "codec_env \<Rightarrow> string \<Rightarrow> (field_desc list \<times> (string \<times> string) list) option" where
  "extraClass env c =
     (if c = ''SetLiteAccountDelegate'' then
        Some ([(fieldDesc 1 ''type'' KEnum)\<lparr>fd_keepEmpty := True, fd_enum := Some (transactionType env)\<rparr>, fieldDesc 2 ''delegate'' KUrl, fieldDesc 3 ''proof'' KReference],
          [(''proof'', ''KeyBookProof'')])
      else if c = ''KeyBookProof'' then
        Some ([fieldDesc 1 ''keyBook'' KReference, fieldDesc 2 ''receipt'' KReference], [(''keyBook'', ''KeyBook''), (''receipt'', ''merkle.Receipt'')])
      else if c = ''merkle.Receipt'' then
        Some ([fieldDesc 1 ''start'' KBytes, fieldDesc 2 ''startIndex'' KInt, fieldDesc 3 ''end'' KBytes, fieldDesc 4 ''endIndex'' KInt, fieldDesc 5 ''anchor'' KBytes,
            (fieldDesc 6 ''entries'' KReference)\<lparr>fd_repeatable := True\<rparr>], [(''entries'', ''merkle.ReceiptEntry'')])
      else if c = ''merkle.ReceiptEntry'' then Some ([fieldDesc 1 ''right'' KBool, fieldDesc 2 ''hash'' KBytes], [])
      else None)"

definition FACTOM :: string where "FACTOM = ''FactomDataEntryWrapper''"

definition factomDescs :: "codec_env \<Rightarrow> field_desc list" where
  "factomDescs env =
     [(fieldDesc 1 ''type'' KEnum)\<lparr>fd_keepEmpty := True, fd_enum := Some (ce_dataEntryType env)\<rparr>, fieldDesc 2 ''accountId'' KHash, fieldDesc 3 ''data'' KBytes,
      (fieldDesc 4 ''extIds'' KBytes)\<lparr>fd_repeatable := True\<rparr>]"

definition hasClass :: "codec_env \<Rightarrow> string \<Rightarrow> bool" where
  "hasClass env c = (c = FACTOM \<or> extraClass env c \<noteq> None \<or> ce_class env c \<noteq> None)"

fun describe :: "codec_env \<Rightarrow> string \<Rightarrow> sdk_field \<Rightarrow> field_desc" where
  "describe env c (SdkField n name k rep keep declared emb) =
     \<lparr>fd_number = n, fd_name = name, fd_kind = k, fd_repeatable = rep, fd_keepEmpty = keep,
      fd_enum = (if k \<noteq> KEnum then None
                 else case declared of
                        Some SdkTransactionType \<Rightarrow> Some (transactionType env)
                      | Some (SdkEnum p) \<Rightarrow> Some p
                      | None \<Rightarrow>
                          (case fieldEnums env c name of
                             Some p \<Rightarrow> Some p
                           | None \<Rightarrow> if name = ''vote'' then Some (ce_voteType env) else None))\<rparr>"

fun sdkNumber :: "sdk_field \<Rightarrow> nat" where
  "sdkNumber (SdkField n _ _ _ _ _ _) = n"

fun sdkDesc :: "codec_env \<Rightarrow> string \<Rightarrow> sdk_field \<Rightarrow> desc" where
  "sdkDesc env c (SdkField n name k rep keep declared emb) =
     (if emb \<noteq> [] then Embedded n (sort_key fd_number (map (describe env c) emb)) else Plain (describe env c (SdkField n name k rep keep declared emb)))"

fun descNumber :: "desc \<Rightarrow> nat" where
  "descNumber (Plain d) = fd_number d"
| "descNumber (Embedded n _) = n"

definition fieldsOf :: "codec_env \<Rightarrow> string \<Rightarrow> codec_error + desc list" where
  "fieldsOf env c =
     (if c = FACTOM then Inr (map Plain (factomDescs env))
      else case extraClass env c of
             Some (ds, _) \<Rightarrow> Inr (map Plain ds)
           | None \<Rightarrow>
               (case ce_class env c of
                  None \<Rightarrow> Inl (NoClass c)
                | Some None \<Rightarrow> Inl (NoMetadata c)
                | Some (Some fs) \<Rightarrow> Inr (sort_key descNumber (map (sdkDesc env c) fs))))"

fun flatDesc :: "desc \<Rightarrow> field_desc list" where
  "flatDesc (Plain d) = [d]"
| "flatDesc (Embedded _ ds) = ds"

definition flatten :: "desc list \<Rightarrow> field_desc list" where
  "flatten ds = concat (map flatDesc ds)"

definition flatFields :: "codec_env \<Rightarrow> string \<Rightarrow> codec_error + field_desc list" where
  "flatFields env c = bindE (fieldsOf env c) (\<lambda>ds. Inr (flatten ds))"

definition dropArray :: "string \<Rightarrow> string" where
  "dropArray s = (if 2 \<le> length s \<and> drop (length s - 2) s = ''[]'' then take (length s - 2) s else s)"

definition registryType :: "codec_env \<Rightarrow> string \<Rightarrow> string \<Rightarrow> string option" where
  "registryType env c name =
     (case (case extraClass env c of Some (_, refs) \<Rightarrow> map_of refs name | None \<Rightarrow> None) of
        Some t \<Rightarrow> Some t
      | None \<Rightarrow> (case ct_schema env c of None \<Rightarrow> None | Some def \<Rightarrow> map_option dropArray (map_of def name)))"

definition unionMember :: "codec_env \<Rightarrow> string \<Rightarrow> int \<Rightarrow> codec_error + string" where
  "unionMember env un tag =
     (case ce_union env un of
        None \<Rightarrow> Inl (NoUnion un [])
      | Some members \<Rightarrow>
          (case members (toNumber tag) of
             Some c \<Rightarrow> Inr c
           | None \<Rightarrow>
               (case (if un = ''TransactionBody'' then Option.bind (ct_transactionTypes env (toNumber tag)) (map_of (ct_transactionBodies env)) else None) of
                  Some c \<Rightarrow> if extraClass env c \<noteq> None then Inr c else Inl (NotMember un tag)
                | None \<Rightarrow> Inl (NotMember un tag))))"

section \<open>Reading\<close>

text \<open>The reader is what is left to read.\<close>

definition rdUvarint :: "bytes \<Rightarrow> codec_error + nat \<times> bytes" where
  "rdUvarint r = (case uvDigits 0 0 r of (Uv n, r') \<Rightarrow> Inr (n, r') | _ \<Rightarrow> Inl BadVarint)"

definition unzigzag :: "nat \<Rightarrow> int" where
  "unzigzag ux = (if odd ux then - int (ux div 2) - 1 else int (ux div 2))"

definition rdVarint :: "bytes \<Rightarrow> codec_error + int \<times> bytes" where
  "rdVarint r = bindE (rdUvarint r) (\<lambda>(ux, r'). Inr (unzigzag ux, r'))"

definition rdRaw :: "nat \<Rightarrow> bytes \<Rightarrow> codec_error + bytes \<times> bytes" where
  "rdRaw n r = (if n > length r then Inl (WantBytes n (length r)) else Inr (take n r, drop n r))"

definition rdBytes :: "bytes \<Rightarrow> codec_error + bytes \<times> bytes" where
  "rdBytes r = bindE (rdUvarint r) (\<lambda>(n, r'). guardE (n \<ge> 2 ^ 24) (TooBig n) (rdRaw n r'))"

definition ZERO_TIME_SECONDS :: int where "ZERO_TIME_SECONDS = - 62135596800"

definition enumChecked :: "field_desc \<Rightarrow> nat \<Rightarrow> codec_error + int" where
  "enumChecked d v =
     (case fd_enum d of
        Some names \<Rightarrow> if int v \<le> 2 ^ 53 - 1 \<and> \<not> names (int v) then Inl (NotEnumValue (fd_name d) (int v)) else Inr (int v)
      | None \<Rightarrow> Inr (int v))"

text \<open>A union: the first field is the type, which names the class. \<open>decodeObject\<close> is an argument, to be tied below.\<close>

definition decodeUnionWith :: "codec_env \<Rightarrow> (string \<Rightarrow> bytes \<Rightarrow> codec_error + wire_node) \<Rightarrow> string \<Rightarrow> bytes \<Rightarrow> codec_error + wire_node option" where
  "decodeUnionWith env dec un buf =
     (if buf = [] then Inl (TypeMissing un)
      else if buf ! 0 = 0x80 then Inr None
      else
        bindE (rdUvarint buf) (\<lambda>(field, r).
          if field = 0 then Inr None
          else if field > 32 then Inl (InvalidFieldNumber field)
          else if field \<noteq> 1 then Inl (TypeMissing un)
          else
            bindE (rdUvarint r) (\<lambda>(tag, _).
            bindE (unionMember env un (int tag)) (\<lambda>member.
            bindE (dec member buf) (\<lambda>n. Inr (Some n))))))"

definition readUrl :: "field_desc \<Rightarrow> (string \<Rightarrow> string option) \<Rightarrow> bytes \<Rightarrow> codec_error + wvalue" where
  "readUrl d canonical b =
     (let raw = binaryString b in
      if raw = [] then Inr (WText [])
      else case canonical raw of None \<Rightarrow> Inl (UnparsedUrl (fd_name d)) | Some s \<Rightarrow> Inr (WText s))"

definition readValue ::
  "codec_env \<Rightarrow> (string \<Rightarrow> bytes \<Rightarrow> codec_error + wire_node) \<Rightarrow> string \<Rightarrow> field_desc \<Rightarrow> bytes \<Rightarrow> codec_error + wvalue \<times> bytes" where
  "readValue env dec owner d r =
     (case fd_kind d of
        KUint \<Rightarrow> bindE (rdUvarint r) (\<lambda>(n, r'). Inr (WBig (int n), r'))
      | KInt \<Rightarrow> bindE (rdVarint r) (\<lambda>(i, r'). Inr (WBig i, r'))
      | KEnum \<Rightarrow> bindE (rdUvarint r) (\<lambda>(n, r'). bindE (enumChecked d n) (\<lambda>v. Inr (WBig v, r')))
      | KBool \<Rightarrow> bindE (rdUvarint r) (\<lambda>(n, r'). guardE (n > 1) (NotBoolean (fd_name d) (int n)) (Inr (WBool (n = 1), r')))
      | KString \<Rightarrow> bindE (rdBytes r) (\<lambda>(b, r'). Inr (WText (binaryString b), r'))
      | KUrl \<Rightarrow> bindE (rdBytes r) (\<lambda>(b, r'). bindE (readUrl d canonicalAccUrl b) (\<lambda>v. Inr (v, r')))
      | KTxid \<Rightarrow> bindE (rdBytes r) (\<lambda>(b, r'). bindE (readUrl d canonicalAccTxId b) (\<lambda>v. Inr (v, r')))
      | KBytes \<Rightarrow> bindE (rdBytes r) (\<lambda>(b, r'). Inr (WBytes b, r'))
      | KHash \<Rightarrow> bindE (rdRaw 32 r) (\<lambda>(b, r'). Inr (WBytes b, r'))
      | KTime \<Rightarrow> bindE (rdVarint r) (\<lambda>(i, r'). Inr (WTime i, r'))
      | KDuration \<Rightarrow> bindE (rdUvarint r) (\<lambda>(s, r'). bindE (rdUvarint r') (\<lambda>(n, r''). Inr (WDuration (int s) (int n), r'')))
      | KBigint \<Rightarrow> bindE (rdBytes r) (\<lambda>(b, r'). Inr (WBig (int (be_nat b)), r'))
      | KRawJson \<Rightarrow> bindE (rdBytes r) (\<lambda>(b, r'). Inr (WOpaque b, r'))
      | KUnion \<Rightarrow>
          (case registryType env owner (fd_name d) of
             None \<Rightarrow> Inl (NoUnion owner (fd_name d))
           | Some t \<Rightarrow>
               if t = [] then Inl (NoUnion owner (fd_name d))
               else
                 bindE (rdBytes r) (\<lambda>(b, r').
                 bindE (decodeUnionWith env dec t b) (\<lambda>n. Inr (case n of None \<Rightarrow> WNull | Some m \<Rightarrow> WNode m, r'))))
      | KReference \<Rightarrow>
          bindE (rdBytes r) (\<lambda>(b, r').
          case registryType env owner (fd_name d) of
            None \<Rightarrow> Inr (WOpaque b, r')
          | Some t \<Rightarrow>
              if t = [] \<or> \<not> hasClass env t then Inr (WOpaque b, r')
              else bindE (dec t b) (\<lambda>n. Inr (WNode n, r'))))"

section \<open>The Factom entry\<close>

definition u16 :: "nat \<Rightarrow> bytes" where
  "u16 n = [of_nat (n div 256), of_nat n]"

definition be16 :: "byte \<Rightarrow> byte \<Rightarrow> nat" where
  "be16 a b = unat a * 256 + unat b"

function parseExtIds :: "bytes \<Rightarrow> codec_error + bytes list" where
  "parseExtIds ext =
     (if ext = [] then Inr []
      else if length ext < 2 then Inl (BadFactom ''malformed extId'')
      else
        let n = be16 (ext ! 0) (ext ! 1); rest = drop 2 ext in
        if n > length rest then Inl (BadFactom ''malformed extId'')
        else bindE (parseExtIds (drop n rest)) (\<lambda>es. Inr (take n rest # es)))"
  by pat_completeness auto
termination
  by (relation "measure length") auto

declare parseExtIds.simps [simp del]

definition parseFactomEntry :: "bytes \<Rightarrow> codec_error + bytes \<times> bytes \<times> bytes list" where
  "parseFactomEntry b =
     (if length b < 1 + 32 + 2 then Inl (BadFactom ''malformed entry header'')
      else
        let total = be16 (b ! 33) (b ! 34); rest = drop 35 b in
        if total > length rest \<or> total = 1 then Inl (BadFactom ''malformed entry payload'')
        else bindE (parseExtIds (take total rest)) (\<lambda>es. Inr (take 32 (drop 1 b), drop total rest, es)))"

definition marshalFactomEntry :: "bytes \<Rightarrow> bytes \<Rightarrow> bytes list \<Rightarrow> codec_error + bytes" where
  "marshalFactomEntry accountId b extIds =
     (if accountId = [] \<or> list_all (\<lambda>x. x = 0) accountId then Inl (BadFactom ''missing ChainID'')
      else
        let ex = concat (map (\<lambda>e. u16 (length e) @ e) extIds) in
        Inr (0 # accountId @ u16 (length ex) @ ex @ b))"

definition decodeFactom :: "bytes \<Rightarrow> codec_error + wire_node" where
  "decodeFactom buf =
     (if buf \<noteq> [] \<and> buf ! 0 = 0x80 then Inr (Node FACTOM [] [] True)
      else if buf = [] then Inl (BadFactom ''a factom entry must begin with its type'')
      else
        bindE (rdUvarint buf) (\<lambda>(one, r).
        guardE (one \<noteq> 1) (BadFactom ''a factom entry must begin with its type'') (
        bindE (rdUvarint r) (\<lambda>(tag, r1).
        guardE (tag \<noteq> 1) (BadFactom ''field Type: not equal'') (
        if r1 = [] then Inr (Node FACTOM [(''type'', WBig 1)] [] False)
        else
          bindE (rdUvarint r1) (\<lambda>(field, r2).
            if field > 32 then Inl (InvalidFieldNumber field)
            else if field = 1 then Inl (FieldOutOfOrder 1 2)
            else if field = 2 then
              bindE (rdBytes r2) (\<lambda>(b, r3).
              bindE (parseFactomEntry b) (\<lambda>(account, d, es).
                Inr (Node FACTOM [(''type'', WBig 1), (''accountId'', WBytes account), (''data'', WBytes d), (''extIds'', WList (map WBytes es))] r3 False)))
            else Inr (Node FACTOM [(''type'', WBig 1)] r1 False)))))))"

section \<open>Reading fields\<close>

text \<open>A member that is the zero value is left out by the writer. A struct is the zero value when its members are; a class without fields, which the
  code refuses, is refused by the writer below.\<close>

fun isNode :: "wvalue \<Rightarrow> bool" where
  "isNode (WNode m) = True"
| "isNode v = False"

definition zeroMember :: "(wire_node \<Rightarrow> bool) \<Rightarrow> codec_env \<Rightarrow> string \<Rightarrow> field_desc \<Rightarrow> wvalue \<Rightarrow> bool" where
  "zeroMember zero env c d v =
     (case fd_kind d of
        KUint \<Rightarrow> v = WBig 0
      | KInt \<Rightarrow> v = WBig 0
      | KEnum \<Rightarrow> v = WBig 0
      | KBool \<Rightarrow> v = WBool False
      | KString \<Rightarrow> v = WText []
      | KUrl \<Rightarrow> v = WText []
      | KTxid \<Rightarrow> v = WText []
      | KBytes \<Rightarrow> v = WBytes []
      | KHash \<Rightarrow> (case v of WBytes b \<Rightarrow> list_all (\<lambda>x. x = 0) b | _ \<Rightarrow> False)
      | KTime \<Rightarrow> v = WTime ZERO_TIME_SECONDS
      | KBigint \<Rightarrow> v = WBig 0 \<and> fd_name d \<in> set (ct_valueBigints env c)
      | KReference \<Rightarrow> (case v of WNode m \<Rightarrow> fd_name d \<in> set (ct_valueStructs env c) \<and> zero m | _ \<Rightarrow> False)
      | _ \<Rightarrow> False)"

definition zeroStruct :: "(wire_node \<Rightarrow> bool) \<Rightarrow> codec_env \<Rightarrow> wire_node \<Rightarrow> bool" where
  "zeroStruct zero env n =
     (case flatFields env (cls n) of
        Inl _ \<Rightarrow> False
      | Inr ds \<Rightarrow> list_all (\<lambda>d.
          case fieldOf n (fd_name d) of
            None \<Rightarrow> True
          | Some v \<Rightarrow> if fd_repeatable d then v = WList [] else zeroMember zero env (cls n) d v) ds)"

lemma field_value_size: "fieldOf n name = Some (WNode m) \<Longrightarrow> size m < size n"
  using field_size [of n name "WNode m"] by simp

lemma zeroStruct_cong [fundef_cong]:
  assumes "n = n'" and "env = env'" and "\<And>name m. fieldOf n' name = Some (WNode m) \<Longrightarrow> z m = z' m"
  shows "zeroStruct z env n = zeroStruct z' env' n'"
proof -
  have "zeroMember z env' c d v = zeroMember z' env' c d v" if "fieldOf n' (fd_name d) = Some v" for c d v
    using assms(3) that by (auto simp: zeroMember_def split: kind.split wvalue.split)
  then show ?thesis unfolding assms(1,2) zeroStruct_def by (auto simp: list_all_iff split: sum.split option.split)
qed

function isZeroStruct :: "codec_env \<Rightarrow> wire_node \<Rightarrow> bool" where
  "isZeroStruct env n = zeroStruct (isZeroStruct env) env n"
  by pat_completeness auto
termination
  by (relation "measure (size \<circ> snd)") (auto dest: field_value_size)

declare isZeroStruct.simps [simp del]

definition equalsZero :: "codec_env \<Rightarrow> string \<Rightarrow> field_desc \<Rightarrow> wvalue \<Rightarrow> bool" where
  "equalsZero env c d v = ((fd_kind d = KBigint \<or> fd_kind d = KReference) \<and> zeroMember (isZeroStruct env) env c d v)"

text \<open>The state of \<open>readFields\<close>: what is left, the field number read but not consumed (0 for none) and what was left before it.\<close>

record field_reader =
  fr_left :: bytes
  fr_cur :: nat
  fr_curStart :: bytes
  fr_ended :: bool

definition fieldReader :: "bytes \<Rightarrow> field_reader" where
  "fieldReader b = \<lparr>fr_left = b, fr_cur = 0, fr_curStart = [], fr_ended = False\<rparr>"

definition peek :: "field_reader \<Rightarrow> codec_error + field_reader" where
  "peek st =
     (if fr_cur st \<noteq> 0 \<or> fr_ended st \<or> fr_left st = [] then Inr st
      else
        bindE (rdUvarint (fr_left st)) (\<lambda>(n, r).
        let st' = st\<lparr>fr_left := r, fr_curStart := fr_left st\<rparr> in
        if n < 1 then Inr (st'\<lparr>fr_ended := True\<rparr>)
        else if n > 32 then Inl (InvalidFieldNumber n)
        else Inr (st'\<lparr>fr_cur := n\<rparr>)))"

definition setField :: "string \<Rightarrow> wvalue \<Rightarrow> (string \<times> wvalue) list \<Rightarrow> (string \<times> wvalue) list" where
  "setField name v fs = AList.update name v fs"

definition pushField :: "string \<Rightarrow> wvalue list \<Rightarrow> (string \<times> wvalue) list \<Rightarrow> (string \<times> wvalue) list" where
  "pushField name vs fs = setField name (WList ((case map_of fs name of Some (WList old) \<Rightarrow> old | _ \<Rightarrow> []) @ vs)) fs"

lemma rdUvarint_shorter: "rdUvarint r = Inr (n, r') \<Longrightarrow> length r' < length r"
  using uvDigits_shorter [of 0 0 r] by (auto simp: rdUvarint_def split: prod.splits uv.splits)

lemma rdBytes_shorter: "rdBytes r = Inr (b, r') \<Longrightarrow> length b + length r' < length r"
  by (auto simp: rdBytes_def rdRaw_def results split: if_splits dest!: rdUvarint_shorter)

lemma readItem_shorter: "readValue env dec owner d r = Inr (v, r') \<Longrightarrow> length r' < length r"
  by (cases "fd_kind d")
    (fastforce simp: readValue_def rdVarint_def rdRaw_def results split: option.splits if_splits dest!: rdUvarint_shorter rdBytes_shorter)+

lemma peek_shorter: "peek st = Inr st' \<Longrightarrow> length (fr_left st') \<le> length (fr_left st)"
  by (auto simp: peek_def Let_def results split: if_splits dest!: rdUvarint_shorter)

text \<open>The values of a repeatable field: after each, the next number is read; the same number continues, a smaller one is out of order.\<close>

function readRepeated ::
  "codec_env \<Rightarrow> (string \<Rightarrow> bytes \<Rightarrow> codec_error + wire_node) \<Rightarrow> string \<Rightarrow> field_desc \<Rightarrow> field_reader \<Rightarrow> codec_error + wvalue list \<times> field_reader" where
  "readRepeated env dec owner d st =
     bindE (readValue env dec owner d (fr_left st)) (\<lambda>(v, r).
     bindE (peek (st\<lparr>fr_left := r, fr_cur := 0\<rparr>)) (\<lambda>st'.
       if fr_cur st' = fd_number d then bindE (readRepeated env dec owner d st') (\<lambda>(vs, st''). Inr (v # vs, st''))
       else if fr_cur st' \<noteq> 0 \<and> fr_cur st' < fd_number d then Inl (FieldOutOfOrder (fr_cur st') (fd_number d))
       else Inr ([v], st')))"
  by pat_completeness auto
termination
  by (relation "measure (\<lambda>(env, dec, owner, d, st). length (fr_left st))") (auto dest!: readItem_shorter peek_shorter)

declare readRepeated.simps [simp del]

text \<open>Whether the reader stands at the field \<open>n\<close>, after the next number is read.\<close>

definition arrive :: "nat \<Rightarrow> field_reader \<Rightarrow> codec_error + bool \<times> field_reader" where
  "arrive n st =
     bindE (peek st) (\<lambda>st'.
       if fr_cur st' \<noteq> 0 \<and> fr_cur st' < n then Inl (FieldOutOfOrder (fr_cur st') n) else Inr (fr_cur st' = n, st'))"

definition readPlain ::
  "codec_env \<Rightarrow> (string \<Rightarrow> bytes \<Rightarrow> codec_error + wire_node) \<Rightarrow> string \<Rightarrow> field_desc \<Rightarrow> field_reader \<times> (string \<times> wvalue) list \<Rightarrow>
     codec_error + field_reader \<times> (string \<times> wvalue) list" where
  "readPlain env dec owner d = (\<lambda>(st, fs).
     bindE (arrive (fd_number d) st) (\<lambda>(here, st').
       if \<not> here then Inr (st', fs)
       else if fd_repeatable d then
         bindE (readRepeated env dec owner d (st'\<lparr>fr_cur := 0\<rparr>)) (\<lambda>(vs, st''). Inr (st'', pushField (fd_name d) vs fs))
       else
         bindE (readValue env dec owner d (fr_left st')) (\<lambda>(v, r).
           Inr (st'\<lparr>fr_left := r, fr_cur := 0\<rparr>,
             if v \<noteq> WNull \<and> \<not> (fd_kind d = KBigint \<and> equalsZero env owner d v) then setField (fd_name d) v fs else fs))))"

fun readPlains ::
  "codec_env \<Rightarrow> (string \<Rightarrow> bytes \<Rightarrow> codec_error + wire_node) \<Rightarrow> string \<Rightarrow> field_desc list \<Rightarrow> field_reader \<times> (string \<times> wvalue) list \<Rightarrow>
     codec_error + field_reader \<times> (string \<times> wvalue) list" where
  "readPlains env dec owner [] st = Inr st"
| "readPlains env dec owner (d # ds) st = bindE (readPlain env dec owner d st) (readPlains env dec owner ds)"

text \<open>An embedded struct is read from its own bytes into the same members; its extra data is not kept.\<close>

fun readDescs ::
  "codec_env \<Rightarrow> (string \<Rightarrow> bytes \<Rightarrow> codec_error + wire_node) \<Rightarrow> string \<Rightarrow> desc list \<Rightarrow> field_reader \<times> (string \<times> wvalue) list \<Rightarrow>
     codec_error + field_reader \<times> (string \<times> wvalue) list" where
  "readDescs env dec owner [] st = Inr st"
| "readDescs env dec owner (Plain d # ds) st = bindE (readPlain env dec owner d st) (readDescs env dec owner ds)"
| "readDescs env dec owner (Embedded n es # ds) (st, fs) =
     bindE (arrive n st) (\<lambda>(here, st').
       if \<not> here then readDescs env dec owner ds (st', fs)
       else
         bindE (rdBytes (fr_left st')) (\<lambda>(body, r).
         bindE (if body \<noteq> [] \<and> body ! 0 = 0x80 then Inr fs
                else bindE (readPlains env dec owner es (fieldReader body, fs)) (\<lambda>(_, fs'). Inr fs')) (\<lambda>fs'.
           readDescs env dec owner ds (st'\<lparr>fr_left := r, fr_cur := 0\<rparr>, fs'))))"

definition restOf :: "field_reader \<Rightarrow> bytes" where
  "restOf st = (if fr_cur st \<noteq> 0 \<or> fr_ended st then fr_curStart st else fr_left st)"

definition readFields ::
  "codec_env \<Rightarrow> (string \<Rightarrow> bytes \<Rightarrow> codec_error + wire_node) \<Rightarrow> string \<Rightarrow> desc list \<Rightarrow> bytes \<Rightarrow> codec_error + (string \<times> wvalue) list \<times> bytes" where
  "readFields env dec owner ds buf = bindE (readDescs env dec owner ds (fieldReader buf, [])) (\<lambda>(st, fs). Inr (fs, restOf st))"

section \<open>Objects\<close>

text \<open>The nested decoder is only used on fewer bytes.\<close>

lemma readItem_cong:
  assumes "\<And>c b. length b < length r \<Longrightarrow> dec c b = dec' c b"
  shows "readValue env dec owner d r = readValue env dec' owner d r"
proof -
  have "decodeUnionWith env dec t b = decodeUnionWith env dec' t b" if "rdBytes r = Inr (b, r')" for t b r'
    using assms rdBytes_shorter [OF that] by (auto simp: decodeUnionWith_def intro!: bindE_cong split: prod.split)
  moreover have "dec t b = dec' t b" if "rdBytes r = Inr (b, r')" for t b r' using assms rdBytes_shorter [OF that] by simp
  ultimately show ?thesis
    by (auto simp: readValue_def intro!: bindE_cong split: kind.split option.split prod.split)
qed

definition agree :: "nat \<Rightarrow> (string \<Rightarrow> bytes \<Rightarrow> 'a) \<Rightarrow> (string \<Rightarrow> bytes \<Rightarrow> 'a) \<Rightarrow> bool" where
  "agree n dec dec' \<longleftrightarrow> (\<forall>c b. length b < n \<longrightarrow> dec c b = dec' c b)"

lemma readItem_agree: "agree n dec dec' \<Longrightarrow> length r \<le> n \<Longrightarrow> readValue env dec owner d r = readValue env dec' owner d r"
  by (rule readItem_cong) (simp add: agree_def)

lemma readRepeated_agree:
  "agree n dec dec' \<Longrightarrow> length (fr_left st) \<le> n \<Longrightarrow> readRepeated env dec owner d st = readRepeated env dec' owner d st"
proof (induction env dec owner d st rule: readRepeated.induct)
  case (1 env dec owner d st)
  have v: "readValue env dec owner d (fr_left st) = readValue env dec' owner d (fr_left st)" using 1(2,3) by (rule readItem_agree)
  have "readRepeated env dec owner d st' = readRepeated env dec' owner d st'"
    if "readValue env dec owner d (fr_left st) = Inr (v, r)" and "peek (st\<lparr>fr_left := r, fr_cur := 0\<rparr>) = Inr st'" and "fr_cur st' = fd_number d" for v r st'
    using 1(1) [OF that(1) refl that(2,3)] 1(2,3) readItem_shorter [OF that(1)] peek_shorter [OF that(2)] by simp
  then show ?case
    by (subst (1 2) readRepeated.simps) (auto simp: v [symmetric] intro!: bindE_cong split: prod.split)
qed

lemma arrive_shorter: "arrive n st = Inr (h, st') \<Longrightarrow> length (fr_left st') \<le> length (fr_left st)"
  by (auto simp: arrive_def results split: if_splits dest: peek_shorter)

lemma readRepeated_shorter: "readRepeated env dec owner d st = Inr (vs, st') \<Longrightarrow> length (fr_left st') \<le> length (fr_left st)"
proof (induction env dec owner d st arbitrary: vs st' rule: readRepeated.induct)
  case (1 env dec owner d st)
  from 1(2) obtain v r st1 where v: "readValue env dec owner d (fr_left st) = Inr (v, r)" "peek (st\<lparr>fr_left := r, fr_cur := 0\<rparr>) = Inr st1"
    and n: "if fr_cur st1 = fd_number d then \<exists>ws. readRepeated env dec owner d st1 = Inr (ws, st') else st' = st1"
    by (subst (asm) readRepeated.simps) (auto simp: results split: if_splits)
  show ?case using n 1(1) [OF v(1) refl v(2)] readItem_shorter [OF v(1)] peek_shorter [OF v(2)] by (fastforce split: if_splits)
qed

lemma readPlain_agree:
  "agree n dec dec' \<Longrightarrow> length (fr_left (fst s)) \<le> n \<Longrightarrow> readPlain env dec owner d s = readPlain env dec' owner d s"
  by (cases s) (auto simp: readPlain_def readItem_agree readRepeated_agree intro!: bindE_cong dest!: arrive_shorter split: prod.split)

lemma readPlain_shorter: "readPlain env dec owner d s = Inr s' \<Longrightarrow> length (fr_left (fst s')) \<le> length (fr_left (fst s))"
  by (cases s) (fastforce simp: readPlain_def results split: if_splits dest!: arrive_shorter readRepeated_shorter readItem_shorter)

lemma readPlains_agree:
  "agree n dec dec' \<Longrightarrow> length (fr_left (fst s)) \<le> n \<Longrightarrow> readPlains env dec owner ds s = readPlains env dec' owner ds s"
proof (induction ds arbitrary: s)
  case (Cons d ds)
  then show ?case using readPlain_agree [OF Cons.prems, of env owner d] by (auto intro!: bindE_cong dest!: readPlain_shorter)
qed simp

lemma readDescs_agree:
  "agree n dec dec' \<Longrightarrow> length (fr_left (fst s)) \<le> n \<Longrightarrow> readDescs env dec owner ds s = readDescs env dec' owner ds s"
proof (induction env dec owner ds s rule: readDescs.induct)
  case (2 env dec owner d ds s)
  then show ?case using readPlain_agree [OF 2(2,3), of env owner d] by (auto intro!: bindE_cong) (metis readPlain_shorter fst_conv le_trans)
next
  case (3 env dec owner m es ds st fs)
  have a: "readPlains env dec owner es (fieldReader b, fs) = readPlains env dec' owner es (fieldReader b, fs)" if "length b \<le> n" for b
    by (rule readPlains_agree [OF 3(3)]) (simp add: fieldReader_def that)
  show ?case
  proof (cases "arrive m st")
    case arr: (Inr hs)
    obtain here st1 where hs: "hs = (here, st1)" by fastforce
    note l1 = arrive_shorter [OF arr [unfolded hs]]
    show ?thesis
    proof (cases here)
      case False
      with 3(1) [OF arr hs [symmetric]] 3(3,4) l1 show ?thesis by (simp add: arr hs)
    next
      case True
      show ?thesis
      proof (cases "rdBytes (fr_left st1)")
        case rd: (Inr br)
        obtain b r where br: "br = (b, r)" by fastforce
        note l2 = rdBytes_shorter [OF rd [unfolded br]]
        have e: "readPlains env dec owner es (fieldReader b, fs) = readPlains env dec' owner es (fieldReader b, fs)"
          by (rule a) (use l1 l2 3(4) in simp)
        have t: "readDescs env dec owner ds (st1\<lparr>fr_left := r, fr_cur := 0\<rparr>, fs') = readDescs env dec' owner ds (st1\<lparr>fr_left := r, fr_cur := 0\<rparr>, fs')"
          if "(if b \<noteq> [] \<and> b ! 0 = 0x80 then Inr fs else bindE (readPlains env dec owner es (fieldReader b, fs)) (\<lambda>(_, fs'). Inr fs')) = Inr fs'" for fs'
          using 3(2) [OF arr hs [symmetric] _ rd br [symmetric] that] True 3(3,4) l1 l2 by simp
        show ?thesis unfolding readDescs.simps arr hs bindE.simps prod.case rd br e [symmetric]
          using True t by (auto intro!: bindE_cong)
      qed (use True in \<open>simp add: arr hs\<close>)
    qed
  qed simp
qed simp

lemma readFields_cong [fundef_cong]:
  assumes "env = env'" and "owner = owner'" and "ds = ds'" and "buf = buf'" and "\<And>c b. length b < length buf' \<Longrightarrow> dec c b = dec' c b"
  shows "readFields env dec owner ds buf = readFields env' dec' owner' ds' buf'"
proof -
  have "agree (length buf') dec dec'" using assms(5) by (simp add: agree_def)
  from readDescs_agree [OF this, of "(fieldReader buf', [])"] show ?thesis
    unfolding readFields_def assms(1-4) by (simp add: fieldReader_def)
qed

function decodeObject :: "codec_env \<Rightarrow> string \<Rightarrow> bytes \<Rightarrow> codec_error + wire_node" where
  "decodeObject env c buf =
     (if c = FACTOM then decodeFactom buf
      else
        bindE (fieldsOf env c) (\<lambda>ds.
          if buf \<noteq> [] \<and> buf ! 0 = 0x80 then Inr (Node c [] [] True)
          else bindE (readFields env (decodeObject env) c ds buf) (\<lambda>(fs, ex). Inr (Node c fs ex False))))"
  by pat_completeness auto
termination
  by (relation "measure (\<lambda>(env, c, buf). length buf)") auto

declare decodeObject.simps [simp del]

definition decodeUnion :: "codec_env \<Rightarrow> string \<Rightarrow> bytes \<Rightarrow> codec_error + wire_node option" where
  "decodeUnion env = decodeUnionWith env (decodeObject env)"

section \<open>Writing\<close>

definition writeUvarint :: "int \<Rightarrow> bytes" where
  "writeUvarint v = uvarint v"

definition writeVarint :: "int \<Rightarrow> bytes" where
  "writeVarint v = uvarint (if v < 0 then (- (2 * v) - 1) mod 2 ^ 64 else 2 * v)"

definition writeBytes :: "bytes \<Rightarrow> bytes" where
  "writeBytes b = writeUvarint (int (length b)) @ b"

definition isZero :: "field_desc \<Rightarrow> wvalue \<Rightarrow> bool" where
  "isZero d v =
     (\<not> fd_keepEmpty d \<and>
      (case fd_kind d of
         KUint \<Rightarrow> v = WBig 0
       | KInt \<Rightarrow> v = WBig 0
       | KEnum \<Rightarrow> v = WBig 0
       | KBool \<Rightarrow> v = WBool False
       | KString \<Rightarrow> v = WText []
       | KUrl \<Rightarrow> v = WText []
       | KTxid \<Rightarrow> v = WText []
       | KBytes \<Rightarrow> v = WBytes []
       | KHash \<Rightarrow> (case v of WBytes b \<Rightarrow> list_all (\<lambda>x. x = 0) b | _ \<Rightarrow> False)
       | KTime \<Rightarrow> v = WTime ZERO_TIME_SECONDS
       | _ \<Rightarrow> False))"

definition writeValue :: "(wire_node \<Rightarrow> codec_error + bytes) \<Rightarrow> field_desc \<Rightarrow> wvalue \<Rightarrow> codec_error + bytes" where
  "writeValue enc d v =
     (case (fd_kind d, v) of
        (KUint, WBig i) \<Rightarrow> Inr (writeUvarint i)
      | (KEnum, WBig i) \<Rightarrow> Inr (writeUvarint i)
      | (KInt, WBig i) \<Rightarrow> Inr (writeVarint i)
      | (KBool, WBool b) \<Rightarrow> Inr (writeUvarint (if b then 1 else 0))
      | (KString, WText s) \<Rightarrow> Inr (writeBytes (binaryBytes s))
      | (KUrl, WText s) \<Rightarrow> Inr (writeBytes (binaryBytes s))
      | (KTxid, WText s) \<Rightarrow> Inr (writeBytes (binaryBytes s))
      | (KBytes, WBytes b) \<Rightarrow> Inr (writeBytes b)
      | (KHash, WBytes b) \<Rightarrow> Inr b
      | (KTime, WTime i) \<Rightarrow> Inr (writeVarint i)
      | (KDuration, WDuration s n) \<Rightarrow> Inr (writeUvarint s @ writeUvarint n)
      | (KBigint, WBig i) \<Rightarrow> if i < 0 then Inl (Untyped (fd_name d)) else Inr (writeBytes (min_be (nat i)))
      | (k, WNull) \<Rightarrow> if k \<in> {KRawJson, KReference, KUnion} then Inr (writeBytes [0x80]) else Inl (Untyped (fd_name d))
      | (k, WOpaque b) \<Rightarrow> if k \<in> {KRawJson, KReference, KUnion} then Inr (writeBytes b) else Inl (Untyped (fd_name d))
      | (k, WNode m) \<Rightarrow> if k \<in> {KRawJson, KReference, KUnion} then bindE (enc m) (\<lambda>b. Inr (writeBytes b)) else Inl (Untyped (fd_name d))
      | _ \<Rightarrow> Inl (Untyped (fd_name d)))"

definition writesZero :: "string \<Rightarrow> string \<Rightarrow> bool" where
  "writesZero c name = (c = ''KeyPage'' \<and> name = ''transactionBlacklist'')"

definition left_out :: "codec_env \<Rightarrow> string \<Rightarrow> field_desc \<Rightarrow> wvalue \<Rightarrow> bool" where
  "left_out env c d v = (\<not> fd_repeatable d \<and> \<not> writesZero c (fd_name d) \<and> (isZero d v \<or> equalsZero env c d v))"

definition writeField :: "(wire_node \<Rightarrow> codec_error + bytes) \<Rightarrow> field_desc \<Rightarrow> wvalue \<Rightarrow> codec_error + bytes" where
  "writeField enc d v = bindE (writeValue enc d v) (\<lambda>b. Inr (writeUvarint (int (fd_number d)) @ b))"

fun itemsIn :: "wvalue \<Rightarrow> wvalue list" where
  "itemsIn (WList vs) = vs"
| "itemsIn v = []"

definition encodePlain ::
  "codec_env \<Rightarrow> (wire_node \<Rightarrow> codec_error + bytes) \<Rightarrow> wire_node \<Rightarrow> string set \<Rightarrow> field_desc \<Rightarrow> codec_error + bytes" where
  "encodePlain env enc n omit d =
     (if fd_name d \<in> omit then Inr []
      else case fieldOf n (fd_name d) of
             None \<Rightarrow>
               if fd_keepEmpty d \<and> \<not> fd_repeatable d then writeField enc d (if fd_kind d = KBool then WBool False else WBig 0) else Inr []
           | Some v \<Rightarrow>
               bindE (mapE (writeField enc d) (filter (\<lambda>x. \<not> left_out env (cls n) d x) (if fd_repeatable d then itemsIn v else [v]))) (\<lambda>bs.
                 Inr (concat bs)))"

definition encodePlains ::
  "codec_env \<Rightarrow> (wire_node \<Rightarrow> codec_error + bytes) \<Rightarrow> wire_node \<Rightarrow> string set \<Rightarrow> field_desc list \<Rightarrow> codec_error + bytes" where
  "encodePlains env enc n omit ds = bindE (mapE (encodePlain env enc n omit) ds) (\<lambda>bs. Inr (concat bs))"

definition orEmptyObject :: "bytes \<Rightarrow> bytes" where
  "orEmptyObject b = (if b = [] then [0x80] else b)"

fun encodeDesc ::
  "codec_env \<Rightarrow> (wire_node \<Rightarrow> codec_error + bytes) \<Rightarrow> wire_node \<Rightarrow> string set \<Rightarrow> desc \<Rightarrow> codec_error + bytes" where
  "encodeDesc env enc n omit (Plain d) = encodePlain env enc n omit d"
| "encodeDesc env enc n omit (Embedded k es) =
     bindE (encodePlains env enc n omit es) (\<lambda>sub. Inr (writeUvarint (int k) @ writeBytes (orEmptyObject sub)))"

definition encodeFields ::
  "codec_env \<Rightarrow> (wire_node \<Rightarrow> codec_error + bytes) \<Rightarrow> wire_node \<Rightarrow> string set \<Rightarrow> desc list \<Rightarrow> codec_error + bytes" where
  "encodeFields env enc n omit ds = bindE (mapE (encodeDesc env enc n omit) ds) (\<lambda>bs. Inr (concat bs))"

definition bytesField :: "wire_node \<Rightarrow> string \<Rightarrow> bytes" where
  "bytesField n name = (case fieldOf n name of Some (WBytes b) \<Rightarrow> b | _ \<Rightarrow> [])"

fun bytesIn :: "wvalue list \<Rightarrow> bytes list" where
  "bytesIn [] = []"
| "bytesIn (WBytes b # vs) = b # bytesIn vs"
| "bytesIn (v # vs) = bytesIn vs"

definition encodeFactom :: "wire_node \<Rightarrow> codec_error + bytes" where
  "encodeFactom n =
     (if fieldOf n ''accountId'' \<noteq> None \<or> fieldOf n ''data'' \<noteq> None \<or> fieldOf n ''extIds'' \<noteq> None then
        bindE (marshalFactomEntry (bytesField n ''accountId'') (bytesField n ''data'')
                (case fieldOf n ''extIds'' of Some v \<Rightarrow> bytesIn (itemsIn v) | None \<Rightarrow> [])) (\<lambda>b.
          Inr (writeUvarint 1 @ writeUvarint 1 @ writeUvarint 2 @ writeBytes b @ extra n))
      else Inr (writeUvarint 1 @ writeUvarint 1 @ extra n))"

text \<open>The nested writer is only used on the values of the node.\<close>

lemma item_size: "fieldOf n name = Some v \<Longrightarrow> WNode m \<in> set (itemsIn v) \<Longrightarrow> size m < size n"
proof -
  assume f: "fieldOf n name = Some v" and m: "WNode m \<in> set (itemsIn v)"
  from m obtain vs where v: "v = WList vs" "WNode m \<in> set vs" by (cases v) auto
  from v(2) have "size (WNode m) < Suc (size_list size vs)" by (intro le_imp_less_Suc size_list_estimation') auto
  with field_size [OF f] v(1) show ?thesis by simp
qed

lemma writeValue_cong: "(\<And>m. v = WNode m \<Longrightarrow> enc m = enc' m) \<Longrightarrow> writeValue enc d v = writeValue enc' d v"
  by (cases v) (auto simp: writeValue_def split: kind.split)

lemma writeField_cong: "(\<And>m. v = WNode m \<Longrightarrow> enc m = enc' m) \<Longrightarrow> writeField enc d v = writeField enc' d v"
  using writeValue_cong [of v enc enc' d] by (simp add: writeField_def)

lemma encodePlain_cong:
  assumes "\<And>m. size m < size n \<Longrightarrow> enc m = enc' m"
  shows "encodePlain env enc n omit d = encodePlain env enc' n omit d"
proof -
  have "writeField enc d x = writeField enc' d x" if "fieldOf n (fd_name d) = Some v" and "x \<in> set (if fd_repeatable d then itemsIn v else [v])" for v x
    by (rule writeField_cong, rule assms) (use that item_size [OF that(1)] field_value_size in \<open>auto split: if_splits\<close>)
  then have "mapE (writeField enc d) (filter P (if fd_repeatable d then itemsIn v else [v])) =
      mapE (writeField enc' d) (filter P (if fd_repeatable d then itemsIn v else [v]))" if "fieldOf n (fd_name d) = Some v" for v P
    using that by (intro mapE_cong refl) auto
  moreover have "writeField enc d (if fd_kind d = KBool then WBool False else WBig 0) = writeField enc' d (if fd_kind d = KBool then WBool False else WBig 0)"
    by (rule writeField_cong) (auto split: if_splits)
  ultimately show ?thesis by (cases "fieldOf n (fd_name d)") (simp_all only: encodePlain_def option.case)
qed

lemma encodeFields_cong [fundef_cong]:
  assumes "env = env'" and "n = n'" and "omit = omit'" and "ds = ds'" and "\<And>m. size m < size n' \<Longrightarrow> enc m = enc' m"
  shows "encodeFields env enc n omit ds = encodeFields env' enc' n' omit' ds'"
proof -
  have p: "encodePlain env' enc n' omit' d = encodePlain env' enc' n' omit' d" for d using assms(5) by (rule encodePlain_cong)
  then have "encodeDesc env' enc n' omit' d = encodeDesc env' enc' n' omit' d" for d
    by (cases d) (simp_all add: encodePlains_def cong: mapE_cong)
  then show ?thesis unfolding encodeFields_def assms(1-4) by (simp cong: mapE_cong)
qed

function encodeNode :: "codec_env \<Rightarrow> string set \<Rightarrow> wire_node \<Rightarrow> codec_error + bytes" where
  "encodeNode env omit n =
     (if cls n = FACTOM then if isEmpty n then Inr [0x80] else encodeFactom n
      else
        bindE (fieldsOf env (cls n)) (\<lambda>ds.
        bindE (encodeFields env (encodeNode env {}) n omit ds) (\<lambda>b. Inr (orEmptyObject b @ extra n))))"
  by pat_completeness auto
termination
  by (relation "measure (\<lambda>(env, omit, n). size n)") auto

declare encodeNode.simps [simp del]

end
