(* ===== verification/SetCheck.thy ===== *)
theory SetCheck
  imports AccSet Codec
begin

text \<open>
  The validator-set check of a proof (\<open>packages/verify/src/s3/setcheck.ts\<close>): the network and globals accounts proven into the certified state root,
  the set and threshold decoded from their own bytes, and what the walk must agree with. The decoders of the two records and of the routing table
  (\<open>decodeObject\<close>) and the two hash functions are parameters. Of the import of an account from its JSON, the reading of the JSON itself is a parameter: the
  account it builds, the bytes it marshals to and the bytes of its record; what the import checks of them is modelled.
\<close>

section \<open>Accounts\<close>

record check_account =
  ca_accountUrl :: string
  ca_state :: bytes
  ca_node :: wire_node
  ca_undecodable :: bool
  ca_entry :: bytes
  ca_chains :: "chain_root list"
  ca_receipt :: chained_receipt
  ca_secondaryHash :: string
  ca_pendingHash :: string

datatype set_error =
    SetRefused string
  | SetChain string chain_error
  | SetRoot accset_error
  | WindowUnaccounted string nat nat int

section \<open>Import\<close>

text \<open>The data of the entry of a data account: an array, for an Accumulate entry.\<close>

definition entryData :: "wire_node \<Rightarrow> wvalue list option" where
  "entryData n =
     (if cls n \<noteq> ''DataAccount'' then None
      else case nodeOf n ''entry'' of
             None \<Rightarrow> None
           | Some e \<Rightarrow> (case fieldOf e ''data'' of Some (WList vs) \<Rightarrow> Some vs | _ \<Rightarrow> None))"

definition oneEntry :: "wire_node \<Rightarrow> bytes option" where
  "oneEntry n = (case entryData n of Some [WBytes b] \<Rightarrow> Some b | _ \<Rightarrow> None)"

text \<open>
  \<open>importCheckAccount\<close>, after the JSON is read: \<open>built\<close> is the account it describes, \<open>state\<close> what that marshals to and \<open>record\<close> the bytes its record
  encodes to, if it does. The bytes of the state are decoded again; a state that is not the one-entry account the JSON described is imported as undecodable.
\<close>

definition importCheckAccount :: "codec_env \<Rightarrow> string \<Rightarrow> bytes \<Rightarrow> wire_node option \<Rightarrow> bytes option \<Rightarrow> chain_root list \<Rightarrow> chained_receipt \<Rightarrow> string \<Rightarrow> string \<Rightarrow>
    set_error + check_account" where
  "importCheckAccount env url state built record roots receipt second pend =
     (case built of
        None \<Rightarrow> Inl (SetRefused ''an account of no type, not a one-entry data account'')
      | Some b \<Rightarrow>
          (case oneEntry b of
             None \<Rightarrow> Inl (SetRefused ''not a one-entry data account'')
           | Some bytes \<Rightarrow>
               let decoded = (case decodeUnion env ''Account'' state of
                                Inr (Some n) \<Rightarrow> if oneEntry n = Some bytes then Some n else None
                              | _ \<Rightarrow> None) in
               (case record of
                  None \<Rightarrow> Inl (SetRefused ''record'')
                | Some written \<Rightarrow>
                    if written \<noteq> bytes then Inl (SetRefused ''the JSON does not re-encode to the bytes of the record'')
                    else Inr \<lparr>ca_accountUrl = url, ca_state = state, ca_node = (case decoded of Some n \<Rightarrow> n | None \<Rightarrow> b), ca_undecodable = (decoded = None),
                              ca_entry = bytes, ca_chains = roots, ca_receipt = receipt, ca_secondaryHash = second, ca_pendingHash = pend\<rparr>)))"

section \<open>Proofs of accounts\<close>

definition proveAccount :: "(bytes \<Rightarrow> bytes) \<Rightarrow> check_account \<Rightarrow> set_error + bytes \<times> int option" where
  "proveAccount H a =
     (if ca_undecodable a then Inl (SetRefused ''does not decode as an account'')
      else mapErr (SetChain (ca_accountUrl a))
             (verifyAccountState H (ca_state a) (ca_receipt a) (ca_chains a) (ca_secondaryHash a) (ca_pendingHash a)))"

definition mainHeightOf :: "(bytes \<Rightarrow> bytes) \<Rightarrow> check_account \<Rightarrow> int option" where
  "mainHeightOf H a = mainChainHeight H (ca_chains a)"

section \<open>The derived set\<close>

text \<open>A text field of a node as UTF-8.\<close>

definition wireText :: "wire_node \<Rightarrow> string \<Rightarrow> string" where
  "wireText n name = (case fieldOf n name of Some (WText s) \<Rightarrow> decodeBytes s | _ \<Rightarrow> [])"

definition derivedValidator :: "wire_node \<Rightarrow> set_error + acc_validator" where
  "derivedValidator v =
     (let pk = bytesOf v ''publicKey'' in
      if length pk \<noteq> 32 then Inl (SetRefused ''the public key of a validator is not 32 bytes'')
      else Inr \<lparr>av_publicKey = toHex pk,
                av_activeOn = map (\<lambda>p. wireText p ''id'') (filter (\<lambda>p. boolOf p ''active'') (nodesOf v ''partitions''))\<rparr>)"

definition decodeValidators :: "(bytes \<Rightarrow> wire_node option) \<Rightarrow> check_account \<Rightarrow> set_error + acc_validator list" where
  "decodeValidators dec a =
     (case dec (ca_entry a) of
        None \<Rightarrow> Inl (SetRefused ''network account: entry is not a NetworkDefinition'')
      | Some nd \<Rightarrow>
          let vs = nodesOf nd ''validators'' in
          if vs = [] then Inl (SetRefused ''network account: NetworkDefinition carries no validators'') else mapE derivedValidator vs)"

definition decodeAcceptThreshold :: "(bytes \<Rightarrow> wire_node option) \<Rightarrow> check_account \<Rightarrow> set_error + int \<times> int" where
  "decodeAcceptThreshold dec a =
     (case dec (ca_entry a) of
        None \<Rightarrow> Inl (SetRefused ''globals account: entry is not NetworkGlobals'')
      | Some ng \<Rightarrow>
          let tn = nodeOf ng ''validatorAcceptThreshold'';
              num = (case tn of Some t \<Rightarrow> bigOf t ''numerator'' | None \<Rightarrow> 0);
              den = (case tn of Some t \<Rightarrow> bigOf t ''denominator'' | None \<Rightarrow> 0) in
          if den = 0 then Inl (SetRefused ''globals account: zero validatorAcceptThreshold denominator'')
          else if num = 0 then Inl (SetRefused ''globals account: zero validatorAcceptThreshold numerator would admit an unsigned anchor'')
          else if num > den then Inl (SetRefused ''globals account: validatorAcceptThreshold numerator exceeds denominator'')
          else Inr (num, den))"

section \<open>The check\<close>

datatype set_verdict = Asserted | IncarnationUnknown | Verified | ForeignIncarnation

record walk_facts =
  wf_networkRecord :: bytes
  wf_globalsRecord :: bytes
  wf_networkUpdates :: nat
  wf_globalsUpdates :: nat
  wf_checkBlock :: nat

text \<open>The verdict on the two proofs, when both are present.\<close>

definition provenVerdict :: "(bytes \<Rightarrow> bytes) \<Rightarrow> check_account \<Rightarrow> check_account \<Rightarrow> string \<Rightarrow> bytes \<Rightarrow> bytes \<Rightarrow> bool \<Rightarrow> set_error + set_verdict" where
  "provenVerdict H net glob incarnation bound pinned accounted =
     bindE (proveAccount H net) (\<lambda>(nroot, nheight).
     bindE (proveAccount H glob) (\<lambda>(groot, _).
     if nroot \<noteq> groot then Inl (SetRefused ''the two accounts are proven into different BPT roots'')
     else if nroot \<noteq> bound then Inl (SetRefused ''the BPT root the set was proven into is not the one the quorum signed'')
     else case nheight of
            None \<Rightarrow> Inl (SetRefused ''no main chain in the chain set of the network account'')
          | Some h \<Rightarrow>
              if h \<noteq> 1 \<and> \<not> accounted then Inr Asserted
              else if incarnation = [] then Inr IncarnationUnknown
              else bindE (mapErr (SetChain ''incarnation'') (mustHex32 incarnation ''incarnation'')) (\<lambda>inc.
                     Inr (if inc = pinned then Verified else ForeignIncarnation))))"

text \<open>What the walk must agree with, whatever the verdict; then the set root.\<close>

definition agreeWithWalk ::
  "(bytes \<Rightarrow> bytes) \<Rightarrow> (bytes \<Rightarrow> bytes) \<Rightarrow> check_account \<Rightarrow> check_account \<Rightarrow> bytes \<Rightarrow> walk_facts \<Rightarrow> acc_validator list \<Rightarrow> int \<Rightarrow> int \<Rightarrow> set_error + string" where
  "agreeWithWalk H K net glob pinned walk derived num den =
     (if ca_entry net \<noteq> wf_networkRecord walk then Inl (SetRefused ''network: the proven record differs from the one the walk derived'')
      else if ca_entry glob \<noteq> wf_globalsRecord walk then Inl (SetRefused ''globals: the proven record differs from the one the walk derived'')
      else case mainHeightOf H net of
             None \<Rightarrow> Inl (SetRefused ''no main chain on the network account'')
           | Some h \<Rightarrow>
               if h \<noteq> 1 + int (wf_networkUpdates walk)
               then Inl (WindowUnaccounted ''network'' (wf_checkBlock walk) (1 + wf_networkUpdates walk) h)
               else case mainHeightOf H glob of
                      None \<Rightarrow> Inl (SetRefused ''no main chain on the globals account'')
                    | Some g \<Rightarrow>
                        if g \<noteq> 1 + int (wf_globalsUpdates walk)
                        then Inl (WindowUnaccounted ''globals'' (wf_checkBlock walk) (1 + wf_globalsUpdates walk) g)
                        else mapErr SetRoot (accumulateSetRoot K derived (nat num) (nat den) (toHex pinned)))"

definition accountedBy :: "(bytes \<Rightarrow> bytes) \<Rightarrow> check_account \<Rightarrow> check_account \<Rightarrow> walk_facts \<Rightarrow> bool" where
  "accountedBy H net glob walk =
     (mainHeightOf H net = Some (1 + int (wf_networkUpdates walk)) \<and> mainHeightOf H glob = Some (1 + int (wf_globalsUpdates walk)))"

definition setVerdict :: "(bytes \<Rightarrow> bytes) \<Rightarrow> check_account \<Rightarrow> check_account \<Rightarrow> string \<Rightarrow> bytes \<Rightarrow> bytes \<Rightarrow> walk_facts \<Rightarrow> set_error + set_verdict" where
  "setVerdict H net glob incarnation bound pinned walk =
     (if ch_entries (ca_receipt net) = [] \<or> ch_entries (ca_receipt glob) = [] then Inr Asserted
      else provenVerdict H net glob incarnation bound pinned (accountedBy H net glob walk))"

definition verifySetCheck ::
  "(bytes \<Rightarrow> bytes) \<Rightarrow> (bytes \<Rightarrow> bytes) \<Rightarrow> (bytes \<Rightarrow> wire_node option) \<Rightarrow> (bytes \<Rightarrow> wire_node option) \<Rightarrow>
   check_account \<Rightarrow> check_account \<Rightarrow> string \<Rightarrow> bytes \<Rightarrow> bytes \<Rightarrow> walk_facts \<Rightarrow> set_error + set_verdict \<times> string" where
  "verifySetCheck H K decNet decGlob net glob incarnation bound pinned walk =
     bindE (decodeValidators decNet net) (\<lambda>derived.
     bindE (decodeAcceptThreshold decGlob glob) (\<lambda>(num, den).
     bindE (setVerdict H net glob incarnation bound pinned walk) (\<lambda>verdict.
     bindE (agreeWithWalk H K net glob pinned walk derived num den) (\<lambda>root.
       Inr (verdict, root)))))"

section \<open>The routing table\<close>

record route =
  ro_length :: int
  ro_value :: int
  ro_partition :: string

record routing_table =
  rt_routes :: "route list"
  rt_overrides :: "(acc_url option \<times> string) list"

definition ROUTING_ACCOUNT_URL :: string where "ROUTING_ACCOUNT_URL = ''acc://dn.acme/routing''"

definition verifyRoutingProof :: "(bytes \<Rightarrow> bytes) \<Rightarrow> (bytes \<Rightarrow> wire_node option) \<Rightarrow> check_account \<Rightarrow> bytes \<Rightarrow> set_error + routing_table \<times> int" where
  "verifyRoutingProof H dec a bound =
     (if \<not> goEqualFold (ca_accountUrl a) ROUTING_ACCOUNT_URL then Inl (SetRefused ''routing proof is for another account'')
      else bindE (proveAccount H a) (\<lambda>(root, height).
        if root \<noteq> bound then Inl (SetRefused ''routing proof: the account is not proven into the certified state root'')
        else case urlOf (ca_node a) ''url'' of
               None \<Rightarrow> Inl (SetRefused ''routing proof: the proven state has no url'')
             | Some u \<Rightarrow>
                 if \<not> goEqualFold (urlString u) ROUTING_ACCOUNT_URL then Inl (SetRefused ''routing proof: the proven state is another account'')
                 else case dec (ca_entry a) of
                        None \<Rightarrow> Inl (SetRefused ''routing proof: the entry is not a routing table'')
                      | Some t \<Rightarrow>
                          let routes = map (\<lambda>x. \<lparr>ro_length = bigOf x ''length'', ro_value = bigOf x ''value'', ro_partition = wireText x ''partition''\<rparr>) (nodesOf t ''routes'') in
                          if routes = [] then Inl (SetRefused ''routing proof: the table has no routes'')
                          else case height of
                                 None \<Rightarrow> Inl (SetRefused ''routing proof: no main chain on the routing account'')
                               | Some h \<Rightarrow>
                                   Inr (\<lparr>rt_routes = routes, rt_overrides = map (\<lambda>x. (urlOf x ''account'', wireText x ''partition'')) (nodesOf t ''overrides'')\<rparr>, h)))"

section \<open>What an accepted check has established\<close>

text \<open>An account's state is folded into the root by its receipt, with its chains bound.\<close>

definition provenInto :: "(bytes \<Rightarrow> bytes) \<Rightarrow> check_account \<Rightarrow> bytes \<Rightarrow> bool" where
  "provenInto H a root \<longleftrightarrow> \<not> ca_undecodable a \<and> foldReceipt H (H (ca_state a)) (stepsOf (ca_receipt a)) = root \<and>
     verifyChainBinding H (ca_receipt a) (ca_chains a) (ca_secondaryHash a) (ca_pendingHash a) = Inr ()"

lemma proveAccount_Inr: "proveAccount H a = Inr (root, h) \<Longrightarrow> provenInto H a root \<and> h = mainHeightOf H a"
  using verifyAccountState_Inr [of H "ca_state a" "ca_receipt a" "ca_chains a" "ca_secondaryHash a" "ca_pendingHash a" root h]
  by (auto simp: proveAccount_def provenInto_def mainHeightOf_def mapErr_Inr_iff split: if_splits)

lemma provenVerdict_Inr:
  assumes "provenVerdict H net glob incarnation bound pinned acc = Inr v"
  shows "provenInto H net bound \<and> provenInto H glob bound \<and> (v = Verified \<longrightarrow> mustHex32 incarnation ''incarnation'' = Inr pinned)"
proof -
  obtain nroot nh groot gh where "proveAccount H net = Inr (nroot, nh)" "proveAccount H glob = Inr (groot, gh)" "nroot = groot" "nroot = bound"
    and v: "v = Verified \<longrightarrow> mustHex32 incarnation ''incarnation'' = Inr pinned"
    using assms by (auto simp: provenVerdict_def bindE_Inr_iff mapErr_Inr_iff split: if_splits option.splits)
  with proveAccount_Inr show ?thesis by blast
qed

lemma setVerdict_Inr:
  assumes "setVerdict H net glob incarnation bound pinned walk = Inr v"
  shows "(v \<noteq> Asserted \<longrightarrow> provenInto H net bound \<and> provenInto H glob bound) \<and>
    (v = Verified \<longrightarrow> mustHex32 incarnation ''incarnation'' = Inr pinned)"
  using assms provenVerdict_Inr [of H net glob incarnation bound pinned _ v] by (auto simp: setVerdict_def split: if_splits)

lemma agreeWithWalk_Inr:
  assumes "agreeWithWalk H K net glob pinned walk derived num den = Inr root"
  shows "ca_entry net = wf_networkRecord walk \<and> ca_entry glob = wf_globalsRecord walk \<and>
    mainHeightOf H net = Some (1 + int (wf_networkUpdates walk)) \<and> mainHeightOf H glob = Some (1 + int (wf_globalsUpdates walk)) \<and>
    accumulateSetRoot K derived (nat num) (nat den) (toHex pinned) = Inr root"
  using assms by (auto simp: agreeWithWalk_def mapErr_Inr_iff split: if_splits option.splits)

lemma verifySetCheck_Inr:
  assumes "verifySetCheck H K decNet decGlob net glob incarnation bound pinned walk = Inr (v, root)"
  shows "ca_entry net = wf_networkRecord walk \<and> ca_entry glob = wf_globalsRecord walk \<and>
    mainHeightOf H net = Some (1 + int (wf_networkUpdates walk)) \<and> mainHeightOf H glob = Some (1 + int (wf_globalsUpdates walk)) \<and>
    (\<exists>vs num den. decodeValidators decNet net = Inr vs \<and> decodeAcceptThreshold decGlob glob = Inr (num, den) \<and>
       accumulateSetRoot K vs (nat num) (nat den) (toHex pinned) = Inr root) \<and>
    (v \<noteq> Asserted \<longrightarrow> provenInto H net bound \<and> provenInto H glob bound) \<and>
    (v = Verified \<longrightarrow> mustHex32 incarnation ''incarnation'' = Inr pinned)"
proof -
  obtain vs num den where d: "decodeValidators decNet net = Inr vs" "decodeAcceptThreshold decGlob glob = Inr (num, den)"
    and v: "setVerdict H net glob incarnation bound pinned walk = Inr v" and a: "agreeWithWalk H K net glob pinned walk vs num den = Inr root"
    using assms by (auto simp: verifySetCheck_def bindE_Inr_iff)
  from d setVerdict_Inr [OF v] agreeWithWalk_Inr [OF a] show ?thesis by blast
qed

text \<open>The state of an account is a data account whose one entry is the account's record.\<close>

definition holdsEntry :: "codec_env \<Rightarrow> check_account \<Rightarrow> bool" where
  "holdsEntry env a \<longleftrightarrow> (\<exists>n. decodeUnion env ''Account'' (ca_state a) = Inr (Some n) \<and> oneEntry n = Some (ca_entry a))"

lemma importCheckAccount_holds:
  assumes "importCheckAccount env url state built record roots receipt second pend = Inr a" and "\<not> ca_undecodable a"
  shows "holdsEntry env a"
proof -
  obtain b bytes n where "built = Some b" "oneEntry b = Some bytes" "record = Some bytes" and d: "decodeUnion env ''Account'' state = Inr (Some n)"
    "oneEntry n = Some bytes" and a: "a = \<lparr>ca_accountUrl = url, ca_state = state, ca_node = n, ca_undecodable = False,
       ca_entry = bytes, ca_chains = roots, ca_receipt = receipt, ca_secondaryHash = second, ca_pendingHash = pend\<rparr>"
    using assms unfolding importCheckAccount_def Let_def by (auto split: option.splits sum.splits if_splits)
  then show ?thesis by (simp add: holdsEntry_def)
qed

section \<open>Properties\<close>

text \<open>
  C20. What a set check with the verdict verified has established, for two accounts the import accepted: each account's state, which decodes to a data
  account with one entry, is folded by its state receipt, with the roots of its chains bound, into the state root the quorum signed; that one entry is exactly
  the record the walk derived; the heights the document states for the two main chains are one more than the writes the walk counted (the heights as stated:
  a chain's root is bound, its count is not); the document's incarnation is the pinned one; and the set root is that of the validators and threshold the two
  entries encode.
\<close>

theorem verifySetCheck_verified:
  assumes "importCheckAccount env nurl nstate nbuilt nrecord nchains nreceipt nsec npend = Inr net"
    and "importCheckAccount env gurl gstate gbuilt grecord gchains greceipt gsec gpend = Inr glob"
    and "verifySetCheck H K decNet decGlob net glob incarnation bound pinned walk = Inr (Verified, root)"
  shows "provenInto H net bound \<and> provenInto H glob bound \<and>
    (\<exists>n. decodeUnion env ''Account'' (ca_state net) = Inr (Some n) \<and> oneEntry n = Some (wf_networkRecord walk)) \<and>
    (\<exists>n. decodeUnion env ''Account'' (ca_state glob) = Inr (Some n) \<and> oneEntry n = Some (wf_globalsRecord walk)) \<and>
    mainHeightOf H net = Some (1 + int (wf_networkUpdates walk)) \<and> mainHeightOf H glob = Some (1 + int (wf_globalsUpdates walk)) \<and>
    mustHex32 incarnation ''incarnation'' = Inr pinned \<and>
    (\<exists>vs num den. decodeValidators decNet net = Inr vs \<and> decodeAcceptThreshold decGlob glob = Inr (num, den) \<and>
       accumulateSetRoot K vs (nat num) (nat den) (toHex pinned) = Inr root)"
proof -
  note v = verifySetCheck_Inr [OF assms(3)]
  have p: "provenInto H net bound" "provenInto H glob bound" using v by auto
  then have "holdsEntry env net" "holdsEntry env glob"
    using importCheckAccount_holds [OF assms(1)] importCheckAccount_holds [OF assms(2)] by (auto simp: provenInto_def)
  then show ?thesis using v unfolding holdsEntry_def by auto
qed

text \<open>A set of one validator; the same account, with one entry and two writes, stands for both.\<close>

definition setCodec :: codec_env where
  "setCodec = \<lparr>ce_class = (\<lambda>c.
        if c = ''DataAccount'' then Some (Some [SdkField 1 ''type'' KUint False True None [], SdkField 2 ''url'' KString False False None [],
          SdkField 3 ''entry'' KUnion False False None []])
        else if c = ''AccumulateDataEntry'' then Some (Some [SdkField 1 ''type'' KUint False True None [], SdkField 2 ''data'' KBytes True False None []])
        else None),
     ce_union = (\<lambda>u.
        if u = ''Account'' then Some (\<lambda>t. if t = 12 then Some ''DataAccount'' else None)
        else if u = ''DataEntry'' then Some (\<lambda>t. if t = 2 then Some ''AccumulateDataEntry'' else None)
        else None),
     ce_hashAlgorithm = (\<lambda>_. True), ce_executorVersion = (\<lambda>_. True), ce_voteType = (\<lambda>_. True), ce_dataEntryType = (\<lambda>_. True),
     ct_schema = (\<lambda>c. if c = ''DataAccount'' then Some [(''entry'', ''DataEntry'')] else None),
     ct_valueStructs = (\<lambda>_. []), ct_valueBigints = (\<lambda>_. []), ct_transactionBodies = [], ct_transactionTypes = (\<lambda>_. None)\<rparr>"

definition setNode :: wire_node where
  "setNode = Node ''DataAccount'' [(''type'', WBig 12), (''url'', WText ''acc://dn.acme/network''),
     (''entry'', WNode (Node ''AccumulateDataEntry'' [(''type'', WBig 2), (''data'', WList [WBytes [8]])] [] False))] [] False"

definition setState :: bytes where
  "setState = (case encodeNode setCodec {} setNode of Inl _ \<Rightarrow> [] | Inr b \<Rightarrow> b)"

lemma set_state: "decodeUnion setCodec ''Account'' setState = Inr (Some setNode)" "oneEntry setNode = Some [8]"
  by code_simp+

definition setProof :: chained_receipt where
  "setProof =
     (let second = endsHash (endsHash (filled 2 @ filled 1) @ filled 3) in
      \<lparr> ch_start = toHex (endsHash setState), ch_anchor = toHex (endsHash (endsHash (endsHash setState @ filled 9) @ second)),
        ch_entries = [\<lparr> cs_hash = toHex (filled 9), cs_right = True \<rparr>, \<lparr> cs_hash = toHex second, cs_right = True \<rparr>] \<rparr>)"

definition demoCheckAccount :: check_account where
  "demoCheckAccount = \<lparr>ca_accountUrl = ''acc://dn.acme/network'', ca_state = setState, ca_node = setNode, ca_undecodable = False, ca_entry = [8],
     ca_chains = [demoChain], ca_receipt = setProof, ca_secondaryHash = toHex (filled 9), ca_pendingHash = toHex (filled 3)\<rparr>"

lemma demo_import:
  "importCheckAccount setCodec ''acc://dn.acme/network'' setState (Some setNode) (Some [8]) [demoChain] setProof (toHex (filled 9)) (toHex (filled 3)) =
     Inr demoCheckAccount"
  by (simp add: importCheckAccount_def set_state demoCheckAccount_def)

definition demoDecNet :: "bytes \<Rightarrow> wire_node option" where
  "demoDecNet _ = Some (Node [] [(''validators'', WList [WNode (Node [] [(''publicKey'', WBytes (filled 1))] [] False)])] [] False)"

definition demoDecGlob :: "bytes \<Rightarrow> wire_node option" where
  "demoDecGlob _ = Some (Node [] [(''validatorAcceptThreshold'', WNode (Node [] [(''numerator'', WBig 2), (''denominator'', WBig 3)] [] False))] [] False)"

definition demoFacts :: walk_facts where
  "demoFacts = \<lparr>wf_networkRecord = [8], wf_globalsRecord = [8], wf_networkUpdates = 2, wf_globalsUpdates = 2, wf_checkBlock = 4\<rparr>"

definition demoStateRoot :: bytes where
  "demoStateRoot = endsHash (endsHash (endsHash setState @ filled 9) @ endsHash (endsHash (filled 2 @ filled 1) @ filled 3))"

lemma set_account: "verifyAccountState endsHash setState setProof [demoChain] (toHex (filled 9)) (toHex (filled 3)) = Inr (demoStateRoot, Some 3)"
proof -
  have "mainChainHeight endsHash [demoChain] = Some 3" by (simp add: mainChainHeight_def demo_derive) (simp add: demoChain_def)
  moreover have "verifyChainBinding endsHash setProof [demoChain] (toHex (filled 9)) (toHex (filled 3)) = Inr ()"
    using demo_binding unfolding verifyChainBinding_def by (simp add: setProof_def demoProof_def Let_def)
  ultimately show ?thesis
    unfolding verifyAccountState_def
    by simp (simp add: setProof_def demoStateRoot_def Let_def mustHex32_toHex recomputeReceipt_def hexReceiptStep_toHex)
qed

lemma demo_one: "accumulateSetRoot id [\<lparr>av_publicKey = toHex (filled 1), av_activeOn = []\<rparr>] 2 3 (toHex (filled 5)) =
    Inr (toHex (preimage (filled 5) 2 3 [(filled 1, [])]))"
proof -
  have "accumulateSetRoot id [\<lparr>av_publicKey = toHex (filled 1), av_activeOn = []\<rparr>] 2 3 (toHex (filled 5)) =
    Inr (toHex (id (preimage (filled 5) 2 3 [(filled 1, [])])))"
  proof (rule accumulateSetRoot_eval [where vals = "[(filled 1, [])]"])
    show "\<exists>keyed. mapE publicKeyOf (zip [0..<length [\<lparr>av_publicKey = toHex (filled 1), av_activeOn = []\<rparr>]] [\<lparr>av_publicKey = toHex (filled 1), av_activeOn = []\<rparr>]) = Inr keyed \<and>
        sort_key (byteKey \<circ> fst) keyed = [(filled 1, [])]"
      by (rule exI [of _ "[(filled 1, [])]"]) code_simp
    show "mapE validatorBytes [(filled 1, [])] = Inr (map canonBytes [(filled 1, [])])" by code_simp
    show "hexBytes (JStr (toHex (filled 5))) (Some 32) = Inr (filled 5)" by code_simp
  qed (simp_all, simp add: filled_def)
  then show ?thesis by simp
qed

lemma demo_check:
  "verifySetCheck endsHash id demoDecNet demoDecGlob demoCheckAccount demoCheckAccount (toHex (filled 5)) demoStateRoot (filled 5) demoFacts =
     Inr (Verified, toHex (preimage (filled 5) 2 3 [(filled 1, [])]))"
proof -
  have h: "mainChainHeight endsHash [demoChain] = Some 3" by (simp add: mainChainHeight_def demo_derive) (simp add: demoChain_def)
  have n: "decodeValidators demoDecNet demoCheckAccount = Inr [\<lparr>av_publicKey = toHex (filled 1), av_activeOn = []\<rparr>]"
    by (simp add: decodeValidators_def demoDecNet_def nodesOf_def fieldOf_def derivedValidator_def bytesOf_def)
  have g: "decodeAcceptThreshold demoDecGlob demoCheckAccount = Inr (2, 3)"
    by (simp add: decodeAcceptThreshold_def demoDecGlob_def nodeOf_def fieldOf_def bigOf_def)
  have p: "proveAccount endsHash demoCheckAccount = Inr (demoStateRoot, Some 3)"
    by (simp add: proveAccount_def demoCheckAccount_def set_account)
  have e: "ch_entries (ca_receipt demoCheckAccount) \<noteq> []" by (simp add: demoCheckAccount_def setProof_def Let_def)
  have i: "mustHex32 (toHex (filled 5)) ''incarnation'' = Inr (filled 5)" by (simp add: mustHex32_toHex)
  have c: "mainHeightOf endsHash demoCheckAccount = Some 3" by (simp add: mainHeightOf_def demoCheckAccount_def h)
  have v: "setVerdict endsHash demoCheckAccount demoCheckAccount (toHex (filled 5)) demoStateRoot (filled 5) demoFacts = Inr Verified"
    using e by (simp add: setVerdict_def provenVerdict_def p i accountedBy_def c demoFacts_def toHex_nonempty)
  have "ca_entry demoCheckAccount = [8]" by (simp add: demoCheckAccount_def)
  then have a: "agreeWithWalk endsHash id demoCheckAccount demoCheckAccount (filled 5) demoFacts [\<lparr>av_publicKey = toHex (filled 1), av_activeOn = []\<rparr>] 2 3 =
      Inr (toHex (preimage (filled 5) 2 3 [(filled 1, [])]))"
    using demo_one by (simp add: agreeWithWalk_def c demoFacts_def)
  show ?thesis unfolding verifySetCheck_def n g by (simp add: v a)
qed

theorem verifySetCheck_verified_witness:
  "provenInto endsHash demoCheckAccount demoStateRoot \<and> (\<exists>n. decodeUnion setCodec ''Account'' setState = Inr (Some n) \<and> oneEntry n = Some [8]) \<and>
   mainHeightOf endsHash demoCheckAccount = Some 3"
  using verifySetCheck_verified [OF demo_import demo_import demo_check] by (simp add: demoFacts_def) (simp add: demoCheckAccount_def)

end
