(* ===== verification/Walk21.thy ===== *)
theory Walk21
  imports Spine Wire SetCheck
begin

text \<open>
  The walk of a portable proof of evidence 2.1 from the genesis values (\<open>packages/verify/src/s3/portable21.ts\<close>) and the partition anchors
  (\<open>packages/verify/src/s3/directory.ts\<close>). A record is its JSON with its binary form and whether its nested receipts decode. The environment of the
  spine and the decoders are parameters; so are the verifier of the pages (\<open>verify21\<close>) and the reading of the document (\<open>Import\<close>). The report
  keeps what the checks establish.
\<close>

section \<open>Partition anchors\<close>

record seq_msg =
  sm_decodes :: bool
  sm_kind :: string
  sm_txn :: "wire_node option"
  sm_txnHash :: bytes
  sm_source :: "acc_url option"
  sm_destination :: "acc_url option"

record partition_anchor =
  pa_source :: "acc_url option"
  pa_minorBlockIndex :: int
  pa_rootChainAnchor :: bytes
  pa_stateTreeAnchor :: bytes
  pa_wrapperSource :: acc_url
  pa_tx :: bytes
  pa_directory :: bool

datatype walk_error =
    Spined spine_error
  | SetChecked set_error
  | ItemWithoutEffect nat nat
  | WalkRefused string
  | PartitionMismatch string int
  | Pages string

definition ANCHOR_POOL :: string where "ANCHOR_POOL = ''anchors''"

definition hash32 :: "wire_node \<Rightarrow> string \<Rightarrow> bytes" where
  "hash32 n name = (let b = bytesOf n name in if length b = 32 then b else replicate 32 0)"

definition decodeAnchor21 :: "seq_msg \<Rightarrow> walk_error + partition_anchor" where
  "decodeAnchor21 m =
     (if \<not> sm_decodes m then Inl (WalkRefused ''partition anchor: the message does not decode'')
      else
        case (if sm_kind m = ''transaction'' then sm_txn m else None) of
          None \<Rightarrow> Inl (WalkRefused ''partition anchor is not a transaction'')
        | Some txn \<Rightarrow>
            (case bodyOf txn of
               None \<Rightarrow> Inl (WalkRefused ''partition anchor is not a transaction'')
             | Some body \<Rightarrow>
                 (case (sm_source m, sm_destination m, Model.principalOf txn) of
                    (Some src, Some dst, Some prin) \<Rightarrow>
                      if \<not> urlEqual dnUrl dst \<or> \<not> urlEqual (joinPath dnUrl [ANCHOR_POOL]) prin
                      then Inl (WalkRefused ''partition anchor is not delivered to the anchor pool of the Directory'')
                      else if cls body \<noteq> ''BlockValidatorAnchor'' \<and> cls body \<noteq> ''DirectoryAnchor''
                      then Inl (WalkRefused ''partition anchor is not a block validator or directory anchor'')
                      else Inr \<lparr>pa_source = urlOf body ''source'', pa_minorBlockIndex = toNumber (bigOf body ''minorBlockIndex''),
                                pa_rootChainAnchor = hash32 body ''rootChainAnchor'', pa_stateTreeAnchor = hash32 body ''stateTreeAnchor'',
                                pa_wrapperSource = src, pa_tx = sm_txnHash m, pa_directory = (cls body = ''DirectoryAnchor'')\<rparr>
                  | _ \<Rightarrow> Inl (WalkRefused ''partition anchor names no source, destination or principal''))))"

definition partitionOfAnchor :: "partition_anchor \<Rightarrow> walk_error + string" where
  "partitionOfAnchor a =
     (let block = pa_minorBlockIndex a in
      case pa_source a of
        None \<Rightarrow> Inl (PartitionMismatch [] block)
      | Some src \<Rightarrow>
          (case parsePartitionUrl src of
             None \<Rightarrow> Inl (PartitionMismatch [] block)
           | Some pid \<Rightarrow>
               if \<not> goEqualFold (urlString (pa_wrapperSource a)) (urlString src) then Inl (PartitionMismatch pid block)
               else if goEqualFold pid DIRECTORY \<noteq> pa_directory a then Inl (PartitionMismatch pid block)
               else Inr pid))"

section \<open>Walking the records\<close>

record run_item =
  ri_json :: json
  ri_bin :: bytes
  ri_nested :: bool

record walk_env =
  we_spine :: spine_env
  we_transactionDecodes :: "bytes \<Rightarrow> bool"
  we_signatureDecodes :: "bytes \<Rightarrow> bool"

fun reindex :: "spine_error \<Rightarrow> nat \<Rightarrow> spine_error" where
  "reindex (Certify (LinkMissing _)) i = Certify (LinkMissing (decNat i))"
| "reindex (Certify (LinkStart _)) i = Certify (LinkStart (decNat i))"
| "reindex (Certify (LinkEnd _)) i = Certify (LinkEnd (decNat i))"
| "reindex (Certify (LinkInvalid _)) i = Certify (LinkInvalid (decNat i))"
| "reindex e i = e"

fun noUpdates :: "json \<Rightarrow> bool" where
  "noUpdates (JArr us) = (us = [])"
| "noUpdates _ = True"

definition linkAt :: "receipt list \<Rightarrow> nat \<Rightarrow> receipt option" where
  "linkAt links n = (if n < length links then Some (links ! n) else None)"

text \<open>An anchored item takes the next link; one that has no effect is refused unless it is the last. \<open>k\<close> is the item's ordinal.\<close>

definition walkAnchored :: "walk_env \<Rightarrow> receipt list \<Rightarrow> run_item \<Rightarrow> bool \<Rightarrow> nat \<Rightarrow> spine \<Rightarrow> nat \<Rightarrow> walk_error + spine \<times> nat" where
  "walkAnchored env links it lst k sp used =
     (case (selfAnchorBlock (we_spine env) (member (Key ''anchor'') (ri_json it)), noUpdates (member (Key ''updates'') (ri_json it)) \<and> \<not> lst) of
        (Some block, True) \<Rightarrow> Inl (ItemWithoutEffect k block)
      | _ \<Rightarrow>
          bindE (mapErr (\<lambda>e. Spined (reindex e used)) (advanceAnchored (we_spine env) sp (ri_json it) (linkAt links used))) (\<lambda>sp'.
          if length (sp_applied sp') = length (sp_applied sp) \<and> \<not> lst then Inl (ItemWithoutEffect k (sp_lastBlock sp'))
          else Inr (sp', used + 1)))"

definition isAnchored :: "walk_env \<Rightarrow> run_item \<Rightarrow> bool" where
  "isAnchored env it =
     (member (Key ''rootProof'') (ri_json it) = JUndefined \<and> \<not> recordHasRootProof (we_transactionDecodes env) (ri_bin it))"

fun walkRuns :: "walk_env \<Rightarrow> receipt list \<Rightarrow> run_item list \<Rightarrow> nat \<Rightarrow> spine \<Rightarrow> nat \<Rightarrow> walk_error + spine \<times> nat" where
  "walkRuns env links [] k sp used = Inr (sp, used)"
| "walkRuns env links (it # its) k sp used =
     (if \<not> recordDecodes (we_transactionDecodes env) (we_signatureDecodes env) (ri_bin it) \<or> \<not> ri_nested it
      then Inl (WalkRefused ''fields are out of order'')
      else
        bindE (if isAnchored env it then walkAnchored env links it (its = []) k sp used
               else bindE (mapErr Spined (advanceEpoch (we_spine env) sp (ri_json it))) (\<lambda>sp'. Inr (sp', used))) (\<lambda>(sp', used').
          walkRuns env links its (k + 1) sp' used'))"

section \<open>From a starting point of the spine\<close>

record set_check =
  sk_majors :: nat
  sk_hops :: "run_item list"
  sk_incarnation :: string
  sk_network :: check_account
  sk_globals :: check_account

record evidence21 =
  ev_txHash :: string
  ev_receipt :: bytes
  ev_majors :: nat
  ev_certify :: "run_item list"
  ev_anchorMessage :: seq_msg
  ev_anchorReceipt :: bytes
  ev_links :: "bytes list"
  ev_genesisLink :: "bytes option"
  ev_check :: set_check

record report21 =
  rp_txHash :: bytes
  rp_certRoot :: bytes
  rp_certifiedBlock :: nat
  rp_partition :: string
  rp_anchorBlock :: int
  rp_anchorStateRoot :: bytes
  rp_anchorRoot :: bytes
  rp_setRoot :: bytes
  rp_checkBlock :: nat
  rp_validators :: nat
  rp_threshold :: nat
  rp_verdict :: set_verdict
  rp_accumulateSetRoot :: string

record check_env =
  ce_walk :: walk_env
  ce_keccak :: "bytes \<Rightarrow> bytes"
  ce_decodeNetwork :: "bytes \<Rightarrow> wire_node option"
  ce_decodeGlobals :: "bytes \<Rightarrow> wire_node option"
  ce_verify21 :: "evidence21 \<Rightarrow> report21 \<Rightarrow> walk_error + unit"

text \<open>Every link decodes before any item is judged.\<close>

fun decodeLinks :: "nat \<Rightarrow> bytes list \<Rightarrow> walk_error + receipt list" where
  "decodeLinks i [] = Inr []"
| "decodeLinks i (b # bs) =
     (case decodeReceiptBin b of
        None \<Rightarrow> Inl (Spined (Certify (LinkInvalid (decNat i))))
      | Some r \<Rightarrow> bindE (decodeLinks (i + 1) bs) (\<lambda>rs. Inr (r # rs)))"

definition decodeGenesisLink :: "bytes option \<Rightarrow> walk_error + receipt option" where
  "decodeGenesisLink b =
     (case b of
        None \<Rightarrow> Inr None
      | Some x \<Rightarrow>
          (case decodeReceiptBin x of None \<Rightarrow> Inl (Spined (Certify (LinkInvalid GENESIS_LINK_INDEX))) | Some r \<Rightarrow> Inr (Some r)))"

text \<open>The stages of \<open>verifyFrom\<close>, in its order. First the certified root: the links, the walk of the certify records and the genesis link.\<close>

definition certifyStage ::
  "check_env \<Rightarrow> evidence21 \<Rightarrow> (nat \<Rightarrow> spine option) \<Rightarrow> bytes \<Rightarrow> walk_error + spine \<times> nat \<times> receipt list \<times> receipt option" where
  "certifyStage env ev at genesisRoot =
     (case at (ev_majors ev) of
        None \<Rightarrow> Inl (WalkRefused ''evidence.majors is not a major block of the archive'')
      | Some certified \<Rightarrow>
          if ev_certify ev = [] then Inl (WalkRefused ''certify: no minor-root run'')
          else
            bindE (decodeLinks 0 (ev_links ev)) (\<lambda>links.
            bindE (decodeGenesisLink (ev_genesisLink ev)) (\<lambda>gl.
            bindE (walkRuns (ce_walk env) links (ev_certify ev) 0 (certified\<lparr>sp_refuseReplay := True\<rparr>) 0) (\<lambda>(cert, used).
            bindE (if links \<noteq> [] \<or> gl \<noteq> None
                   then mapErr (\<lambda>c. Spined (Certify c)) (checkGenesisLink (en_sha (we_spine (ce_walk env))) gl genesisRoot (sp_rootChainAnchor cert))
                   else Inr ()) (\<lambda>_.
              Inr (cert, used, links, gl))))))"

text \<open>The receipt from the transaction to the certified root.\<close>

definition txHashOf :: "string \<Rightarrow> bytes option" where
  "txHashOf s = (if length s = 64 then fromHex (map lowerChar s) else None)"

definition receiptStage :: "check_env \<Rightarrow> evidence21 \<Rightarrow> spine \<Rightarrow> walk_error + bytes \<times> receipt" where
  "receiptStage env ev cert =
     (case decodeReceiptBin (ev_receipt ev) of
        None \<Rightarrow> Inl (WalkRefused ''receipt: fields are out of order'')
      | Some r \<Rightarrow>
          (case txHashOf (ev_txHash ev) of
             None \<Rightarrow> Inl (WalkRefused ''txHash is not 32 bytes of hex'')
           | Some tx \<Rightarrow>
               if rc_start r \<noteq> tx then Inl (WalkRefused ''receipt does not start at the transaction'')
               else if rc_anchor r \<noteq> sp_rootChainAnchor cert then Inl (WalkRefused ''receipt does not end at the certified root'')
               else if \<not> receiptValid (en_sha (we_spine (ce_walk env))) r then Inl (WalkRefused ''receipt does not validate'')
               else Inr (tx, r)))"

text \<open>The partition anchor, proven into the same root and passed through by the transaction's receipt.\<close>

definition anchorStage :: "check_env \<Rightarrow> evidence21 \<Rightarrow> spine \<Rightarrow> receipt \<Rightarrow> walk_error + partition_anchor \<times> string" where
  "anchorStage env ev cert r =
     bindE (decodeAnchor21 (ev_anchorMessage ev)) (\<lambda>a.
     bindE (partitionOfAnchor a) (\<lambda>part.
     case decodeReceiptBin (ev_anchorReceipt ev) of
       None \<Rightarrow> Inl (WalkRefused ''partition anchor: receipt: fields are out of order'')
     | Some ar \<Rightarrow>
         if rc_start ar \<noteq> pa_tx a \<or> rc_anchor ar \<noteq> sp_rootChainAnchor cert \<or> \<not> receiptValid (en_sha (we_spine (ce_walk env))) ar
         then Inl (WalkRefused ''partition anchor: its receipt does not prove the anchor transaction into the certified root'')
         else if receiptPrefixTo (en_sha (we_spine (ce_walk env))) r (pa_rootChainAnchor a) = None
         then Inl (WalkRefused ''the receipt of the transaction does not pass through the anchor'')
         else if length (pa_tx a) \<noteq> 32 then Inl (WalkRefused ''partition anchor: its transaction hash is not 32 bytes'')
         else Inr (a, part)))"

text \<open>The validator set, walked to a certified block at or after the certified one and checked there.\<close>

definition setStage ::
  "check_env \<Rightarrow> evidence21 \<Rightarrow> (nat \<Rightarrow> spine option) \<Rightarrow> bytes \<Rightarrow> spine \<Rightarrow> nat \<Rightarrow> receipt list \<Rightarrow> walk_error + spine \<times> set_verdict \<times> string" where
  "setStage env ev at pin cert used links =
     bindE (if sk_hops (ev_check ev) = [] then
              if sk_majors (ev_check ev) \<noteq> ev_majors ev then Inl (WalkRefused ''set check builds on other major blocks'') else Inr cert
            else case at (sk_majors (ev_check ev)) of
                   None \<Rightarrow> Inl (WalkRefused ''check.majors is not a major block of the archive'')
                 | Some start \<Rightarrow> Inr start) (\<lambda>chk0.
     bindE (walkRuns (ce_walk env) links (sk_hops (ev_check ev)) (length (ev_certify ev)) (chk0\<lparr>sp_refuseReplay := True\<rparr>) used) (\<lambda>(chk, used').
     if used' \<noteq> length links then Inl (Spined (Certify (LinkInvalid (decNat used'))))
     else if sp_lastBlock chk < sp_lastBlock cert then Inl (WalkRefused ''the set is checked before the certified block'')
     else
       bindE (mapErr SetChecked (verifySetCheck (en_sha (we_spine (ce_walk env))) (ce_keccak env) (ce_decodeNetwork env) (ce_decodeGlobals env)
                (sk_network (ev_check ev)) (sk_globals (ev_check ev)) (sk_incarnation (ev_check ev)) (sp_stateTreeAnchor chk) pin
                \<lparr>wf_networkRecord = sg_networkRecord (sp_g chk), wf_globalsRecord = sg_globalsRecord (sp_g chk),
                 wf_networkUpdates = networkUpdates chk, wf_globalsUpdates = globalsUpdates chk, wf_checkBlock = sp_lastBlock chk\<rparr>)) (\<lambda>(v, root).
         Inr (chk, v, root))))"

definition verifyFrom :: "check_env \<Rightarrow> evidence21 \<Rightarrow> (nat \<Rightarrow> spine option) \<Rightarrow> bytes \<Rightarrow> bytes \<Rightarrow> walk_error + report21" where
  "verifyFrom env ev at pin genesisRoot =
     bindE (certifyStage env ev at genesisRoot) (\<lambda>(cert, used, links, gl).
     bindE (receiptStage env ev cert) (\<lambda>(tx, r).
     bindE (anchorStage env ev cert r) (\<lambda>(a, part).
     bindE (setStage env ev at pin cert used links) (\<lambda>(chk, verdict, root).
     bindE (mapErr Spined (directoryThresholdOf (sp_g chk))) (\<lambda>threshold.
     let rep = \<lparr>rp_txHash = tx, rp_certRoot = sp_rootChainAnchor cert, rp_certifiedBlock = sp_lastBlock cert,
                rp_partition = (case pa_source a of Some u \<Rightarrow> urlString u | None \<Rightarrow> []), rp_anchorBlock = pa_minorBlockIndex a,
                rp_anchorStateRoot = pa_stateTreeAnchor a, rp_anchorRoot = pa_rootChainAnchor a, rp_setRoot = sp_stateTreeAnchor chk,
                rp_checkBlock = sp_lastBlock chk, rp_validators = length (validatorsOf (sp_g chk)), rp_threshold = threshold,
                rp_verdict = verdict, rp_accumulateSetRoot = root\<rparr> in
     bindE (ce_verify21 env ev rep) (\<lambda>_.
       if links = [] \<and> gl = None then Inl (Spined (Certify (LinkMissing GENESIS_LINK_INDEX))) else Inr rep))))))"

section \<open>From the genesis\<close>

text \<open>The spine after each starting point, walked through the first \<open>need\<close> major records. The cache of the code keeps what this function gives.\<close>

definition spineStates :: "spine_env \<Rightarrow> spine_globals \<Rightarrow> json list \<Rightarrow> nat \<Rightarrow> nat list \<Rightarrow> spine_error + (nat \<Rightarrow> spine option)" where
  "spineStates env g records need starts =
     bindE (newSpine g 1) (\<lambda>s0.
     bindE (runE (advance env) s0 (take need records)) (\<lambda>_.
       Inr (\<lambda>n. if n \<in> set starts \<and> 1 \<le> n \<and> n \<le> need then okOpt (runE (advance env) s0 (take n records)) else None)))"

text \<open>\<open>verifyPortable21\<close> after the import: \<open>majorFromJson\<close> reads a record as Go does, \<open>incarnation\<close> is \<open>computeIncarnation\<close> of the genesis.\<close>

definition verify21FromGenesis ::
  "check_env \<Rightarrow> (json \<Rightarrow> walk_error + json) \<Rightarrow> spine_globals \<Rightarrow> bytes \<Rightarrow> bytes \<Rightarrow> bytes \<Rightarrow> json list \<Rightarrow> evidence21 \<Rightarrow> walk_error + report21" where
  "verify21FromGenesis env majorFromJson g incarnation pin genesisRoot majors ev =
     (if incarnation \<noteq> pin then Inl (WalkRefused ''incarnation evidence is not for the pinned one'')
      else
        let need = max (ev_majors ev) (sk_majors (ev_check ev)) in
        if need = 0 \<or> need > length majors then Inl (WalkRefused ''the archive does not have the major blocks the evidence builds on'')
        else
          bindE (mapE majorFromJson majors) (\<lambda>records.
          bindE (mapErr Spined (spineStates (we_spine (ce_walk env)) g records need [ev_majors ev, sk_majors (ev_check ev)])) (\<lambda>at.
            verifyFrom env ev at pin genesisRoot)))"

section \<open>What an accepted document has established\<close>

text \<open>A sequence of items is a run of the spine, item by item.\<close>

fun opOf :: "json \<Rightarrow> spine_op \<Rightarrow> bool" where
  "opOf j (Major k) = False"
| "opOf j (Epoch k) = (k = j)"
| "opOf j (Anchored k l) = (k = j)"

definition walkOps :: "run_item list \<Rightarrow> spine_op list \<Rightarrow> bool" where
  "walkOps its ops = list_all2 (\<lambda>it op. opOf (ri_json it) op) its ops"

lemma walkAnchored_Inr:
  "walkAnchored env links it lst k sp used = Inr (sp', used') \<Longrightarrow>
     advanceAnchored (we_spine env) sp (ri_json it) (linkAt links used) = Inr sp' \<and> used' = used + 1 \<and>
     (lst \<or> length (sp_applied sp') \<noteq> length (sp_applied sp))"
  by (auto simp: walkAnchored_def bindE_Inr_iff mapErr_Inr_iff split: option.splits bool.splits if_splits)

lemma walkRuns_run:
  "walkRuns env links its k sp used = Inr (sp', used') \<Longrightarrow> \<exists>ops. walkOps its ops \<and> runE (spineStep (we_spine env)) sp ops = Inr sp'"
proof (induction its arbitrary: k sp used)
  case Nil
  then show ?case by (intro exI [of _ "[]"]) (simp add: walkOps_def)
next
  case (Cons it its)
  then obtain sp1 used1 where s: "isAnchored env it \<and> walkAnchored env links it (its = []) k sp used = Inr (sp1, used1) \<or>
      \<not> isAnchored env it \<and> advanceEpoch (we_spine env) sp (ri_json it) = Inr sp1 \<and> used1 = used"
    and r: "walkRuns env links its (k + 1) sp1 used1 = Inr (sp', used')"
    by (auto simp: bindE_Inr_iff mapErr_Inr_iff split: if_splits)
  from s obtain op where o: "opOf (ri_json it) op" "spineStep (we_spine env) sp op = Inr sp1"
    using walkAnchored_Inr [of env links it "its = []" k sp used sp1 used1]
    by (metis opOf.simps(2,3) spineStep.simps(2,3))
  obtain ops where "walkOps its ops" "runE (spineStep (we_spine env)) sp1 ops = Inr sp'" using Cons.IH [OF r] by blast
  with o show ?case by (intro exI [of _ "op # ops"]) (simp add: walkOps_def bindE_Inr_iff)
qed

definition foldsInto :: "(bytes \<Rightarrow> bytes) \<Rightarrow> bytes \<Rightarrow> bytes \<Rightarrow> bool" where
  "foldsInto H x root = (\<exists>es. foldReceipt H x es = root)"

lemma receiptValid_folds: "receiptValid H r \<Longrightarrow> foldsInto H (rc_start r) (rc_anchor r)"
  by (auto simp: receiptValid_def foldsInto_def)

lemma checkGenesisLink_folds: "checkGenesisLink H l root cert = Inr () \<Longrightarrow> foldsInto H root cert"
  by (auto simp: checkGenesisLink_def split: option.splits if_splits dest: receiptValid_folds)

lemma certifyStage_Inr:
  assumes "certifyStage env ev at genesisRoot = Inr (cert, used, links, gl)"
  obtains certified ops where "at (ev_majors ev) = Some certified" and "walkOps (ev_certify ev) ops"
    and "runE (spineStep (we_spine (ce_walk env))) (certified\<lparr>sp_refuseReplay := True\<rparr>) ops = Inr cert"
    and "ev_certify ev \<noteq> []"
    and "links \<noteq> [] \<or> gl \<noteq> None \<Longrightarrow> foldsInto (en_sha (we_spine (ce_walk env))) genesisRoot (sp_rootChainAnchor cert)"
proof -
  let ?H = "en_sha (we_spine (ce_walk env))"
  obtain certified where c: "at (ev_majors ev) = Some certified" using assms by (cases "at (ev_majors ev)") (auto simp: certifyStage_def)
  from assms have n: "ev_certify ev \<noteq> []" unfolding certifyStage_def c by (auto split: if_splits)
  from assms have w: "walkRuns (ce_walk env) links (ev_certify ev) 0 (certified\<lparr>sp_refuseReplay := True\<rparr>) 0 = Inr (cert, used)"
    unfolding certifyStage_def c option.case if_not_P [OF n] by (auto simp: bindE_Inr_iff simp del: not_None_eq)
  from assms have "(if links \<noteq> [] \<or> gl \<noteq> None
      then mapErr (\<lambda>c. Spined (Certify c)) (checkGenesisLink ?H gl genesisRoot (sp_rootChainAnchor cert)) else Inr ()) = Inr ()"
    unfolding certifyStage_def c option.case if_not_P [OF n] by (auto simp: bindE_Inr_iff simp del: not_None_eq)
  then have "links \<noteq> [] \<or> gl \<noteq> None \<Longrightarrow> checkGenesisLink ?H gl genesisRoot (sp_rootChainAnchor cert) = Inr ()"
    by (simp only: if_P mapErr_Inr_iff)
  then have g: "links \<noteq> [] \<or> gl \<noteq> None \<Longrightarrow> foldsInto ?H genesisRoot (sp_rootChainAnchor cert)" using checkGenesisLink_folds by blast
  obtain ops where "walkOps (ev_certify ev) ops" "runE (spineStep (we_spine (ce_walk env))) (certified\<lparr>sp_refuseReplay := True\<rparr>) ops = Inr cert"
    using walkRuns_run [OF w] by blast
  then show thesis by (rule that [OF c _ _ n g])
qed

lemma receiptStage_Inr:
  "receiptStage env ev cert = Inr (tx, r) \<Longrightarrow>
     txHashOf (ev_txHash ev) = Some tx \<and> rc_start r = tx \<and> rc_anchor r = sp_rootChainAnchor cert \<and>
     receiptValid (en_sha (we_spine (ce_walk env))) r"
  by (auto simp: receiptStage_def split: option.splits if_splits)

lemma receiptPrefixTo_take:
  assumes "receiptPrefixTo H r val \<noteq> None"
  shows "\<exists>j. foldReceipt H (rc_start r) (take j (rc_entries r)) = val"
proof -
  have "prefixLoop H r val (rc_start r) 0 (rc_entries r) \<noteq> None" using assms by (auto simp: receiptPrefixTo_def split: option.splits)
  then obtain p where "prefixLoop H r val (rc_start r) 0 (rc_entries r) = Some p" by blast
  with prefixLoop_spec [of 0 "rc_entries r" r "rc_start r" H val p] show ?thesis by auto
qed

lemma anchorStage_Inr:
  assumes "anchorStage env ev cert r = Inr (a, part)"
  shows "decodeAnchor21 (ev_anchorMessage ev) = Inr a \<and> partitionOfAnchor a = Inr part \<and> length (pa_tx a) = 32 \<and>
    foldsInto (en_sha (we_spine (ce_walk env))) (pa_tx a) (sp_rootChainAnchor cert) \<and>
    (\<exists>j. foldReceipt (en_sha (we_spine (ce_walk env))) (rc_start r) (take j (rc_entries r)) = pa_rootChainAnchor a)"
proof -
  obtain ar where "decodeAnchor21 (ev_anchorMessage ev) = Inr a" "partitionOfAnchor a = Inr part" "length (pa_tx a) = 32"
    "rc_start ar = pa_tx a" "rc_anchor ar = sp_rootChainAnchor cert" "receiptValid (en_sha (we_spine (ce_walk env))) ar"
    "receiptPrefixTo (en_sha (we_spine (ce_walk env))) r (pa_rootChainAnchor a) \<noteq> None"
    using assms by (auto simp: anchorStage_def bindE_Inr_iff split: option.splits if_splits)
  with receiptValid_folds [of _ ar] receiptPrefixTo_take show ?thesis by metis
qed

lemma setStage_Inr:
  assumes "setStage env ev at pin cert used links = Inr (chk, v, root)"
  obtains start ops where "if sk_hops (ev_check ev) = [] then start = cert else at (sk_majors (ev_check ev)) = Some start"
    and "walkOps (sk_hops (ev_check ev)) ops" and "runE (spineStep (we_spine (ce_walk env))) (start\<lparr>sp_refuseReplay := True\<rparr>) ops = Inr chk"
    and "sp_lastBlock cert \<le> sp_lastBlock chk"
    and "verifySetCheck (en_sha (we_spine (ce_walk env))) (ce_keccak env) (ce_decodeNetwork env) (ce_decodeGlobals env)
      (sk_network (ev_check ev)) (sk_globals (ev_check ev)) (sk_incarnation (ev_check ev)) (sp_stateTreeAnchor chk) pin
      \<lparr>wf_networkRecord = sg_networkRecord (sp_g chk), wf_globalsRecord = sg_globalsRecord (sp_g chk),
       wf_networkUpdates = networkUpdates chk, wf_globalsUpdates = globalsUpdates chk, wf_checkBlock = sp_lastBlock chk\<rparr> = Inr (v, root)"
proof -
  obtain start used' where c: "if sk_hops (ev_check ev) = [] then start = cert else at (sk_majors (ev_check ev)) = Some start"
    "walkRuns (ce_walk env) links (sk_hops (ev_check ev)) (length (ev_certify ev)) (start\<lparr>sp_refuseReplay := True\<rparr>) used = Inr (chk, used')"
    "\<not> sp_lastBlock chk < sp_lastBlock cert"
    "verifySetCheck (en_sha (we_spine (ce_walk env))) (ce_keccak env) (ce_decodeNetwork env) (ce_decodeGlobals env)
      (sk_network (ev_check ev)) (sk_globals (ev_check ev)) (sk_incarnation (ev_check ev)) (sp_stateTreeAnchor chk) pin
      \<lparr>wf_networkRecord = sg_networkRecord (sp_g chk), wf_globalsRecord = sg_globalsRecord (sp_g chk),
       wf_networkUpdates = networkUpdates chk, wf_globalsUpdates = globalsUpdates chk, wf_checkBlock = sp_lastBlock chk\<rparr> = Inr (v, root)"
    using assms by (auto simp: setStage_def bindE_Inr_iff mapErr_Inr_iff split: option.splits if_splits)
  from walkRuns_run [OF c(2)] that [OF c(1)] c(3,4) show thesis by (auto simp: not_less)
qed

lemma verifyFrom_Inr:
  assumes "verifyFrom env ev at pin genesisRoot = Inr rep"
  obtains cert used links gl r a part chk where "certifyStage env ev at genesisRoot = Inr (cert, used, links, gl)"
    and "links \<noteq> [] \<or> gl \<noteq> None" and "receiptStage env ev cert = Inr (rp_txHash rep, r)" and "anchorStage env ev cert r = Inr (a, part)"
    and "setStage env ev at pin cert used links = Inr (chk, rp_verdict rep, rp_accumulateSetRoot rep)"
    and "rp_certRoot rep = sp_rootChainAnchor cert" and "rp_certifiedBlock rep = sp_lastBlock cert"
    and "rp_anchorRoot rep = pa_rootChainAnchor a" and "rp_anchorStateRoot rep = pa_stateTreeAnchor a"
    and "rp_setRoot rep = sp_stateTreeAnchor chk" and "rp_checkBlock rep = sp_lastBlock chk"
    and "directoryThresholdOf (sp_g chk) = Inr (rp_threshold rep)" and "ce_verify21 env ev rep = Inr ()"
  using assms unfolding verifyFrom_def
  by (auto simp: bindE_Inr_iff mapErr_Inr_iff Let_def split: if_splits)

lemma advance_ops: "runE (advance env) s js = runE (spineStep env) s (map Major js)"
  by (induction js arbitrary: s) (auto intro: arg_cong [where f = "bindE _"])

lemma spineStates_Inr:
  assumes "spineStates env g records need starts = Inr at" and "at n = Some s"
  shows "1 \<le> n \<and> n \<le> need \<and> (\<exists>s0. newSpine g 1 = Inr s0 \<and> runE (spineStep env) s0 (map Major (take n records)) = Inr s)"
proof -
  obtain s0 where s0: "newSpine g 1 = Inr s0"
    "at = (\<lambda>n. if n \<in> set starts \<and> 1 \<le> n \<and> n \<le> need then okOpt (runE (advance env) s0 (take n records)) else None)"
    using assms(1) by (auto simp: spineStates_def bindE_Inr_iff)
  with assms(2) have "okOpt (runE (advance env) s0 (take n records)) = Some s" "1 \<le> n \<and> n \<le> need" by (auto split: if_splits)
  then show ?thesis using s0(1) by (cases "runE (advance env) s0 (take n records)") (auto simp: advance_ops)
qed

text \<open>The last step of a run has a quorum over the root it ends at.\<close>

definition certifiedRoot :: "spine_env \<Rightarrow> spine \<Rightarrow> spine_op list \<Rightarrow> bytes \<Rightarrow> bool" where
  "certifiedRoot env s ops root \<longleftrightarrow>
     (\<exists>before after r h body. runE (spineStep env) s (butlast ops) = Inr before \<and> spineStep env before (last ops) = Inr after \<and>
        recordOf (last ops) = Inr r \<and> directorySelfAnchor env (sr_anchor r) = Inr (h, body) \<and> ab_rootChainAnchor body = root \<and>
        (quorate env (sp_g after) h (sr_signatures r) \<or> sr_updates r \<noteq> [] \<and> quorate env (sp_g before) h (sr_signatures r)))"

lemma run_certifiedRoot:
  assumes "runE (spineStep env) s ops = Inr s'" and "ops \<noteq> []"
  shows "certifiedRoot env s ops (sp_rootChainAnchor s')"
proof -
  have "runE (spineStep env) s (butlast ops @ [last ops]) = Inr s'" using assms by simp
  then obtain before where b: "runE (spineStep env) s (butlast ops) = Inr before" "spineStep env before (last ops) = Inr s'"
    unfolding runE_append by (auto simp: bindE_Inr_iff)
  from b(2) show ?thesis
  proof (rule spineStep_Inr)
    fix r h body g as
    assume r: "recordOf (last ops) = Inr r" and l: "laterAnchor env before (sr_anchor r) = Inr (h, body)"
      and q: "quorate env g h (sr_signatures r) \<or> sr_updates r \<noteq> [] \<and> quorate env (sp_g before) h (sr_signatures r)"
      and s': "sp_g s' = g" "sp_rootChainAnchor s' = ab_rootChainAnchor body"
    have "directorySelfAnchor env (sr_anchor r) = Inr (h, body)" using l by (auto simp: laterAnchor_def bindE_Inr_iff split: if_splits)
    with b r q s' show ?thesis unfolding certifiedRoot_def by metis
  qed
qed

lemma verify21FromGenesis_Inr:
  assumes "verify21FromGenesis env mj g incarnation pin genesisRoot majors ev = Inr rep"
  obtains records at where "incarnation = pin" and "mapE mj majors = Inr records"
    and "spineStates (we_spine (ce_walk env)) g records (max (ev_majors ev) (sk_majors (ev_check ev))) [ev_majors ev, sk_majors (ev_check ev)] = Inr at"
    and "verifyFrom env ev at pin genesisRoot = Inr rep"
  using assms by (auto simp: verify21FromGenesis_def Let_def bindE_Inr_iff mapErr_Inr_iff split: if_splits)

section \<open>Properties\<close>

text \<open>
  C15. What an accepted portable proof 2.1 establishes: its incarnation is the pinned one; from the genesis values the spine accepts the first major
  records, then the document's certify records under the 2.1 rules, and the root it ends at has a quorum of Directory validators; both the pinned
  genesis root and the transaction's hash are folded into that root by receipts, the transaction's through the root of the partition anchor, which is
  itself folded there; and when the set is reported verified, the network and globals accounts are proven into the state root of a block not before
  the certified one.
\<close>

theorem portable21_sound:
  assumes "verify21FromGenesis env mj g incarnation pin genesisRoot majors ev = Inr rep"
    and "H = en_sha (we_spine (ce_walk env))"
  shows "incarnation = pin \<and>
    (\<exists>records s0 certified ops. mapE mj majors = Inr records \<and> newSpine g 1 = Inr s0 \<and>
       runE (spineStep (we_spine (ce_walk env))) s0 (map Major (take (ev_majors ev) records)) = Inr certified \<and>
       walkOps (ev_certify ev) ops \<and>
       certifiedRoot (we_spine (ce_walk env)) (certified\<lparr>sp_refuseReplay := True\<rparr>) ops (rp_certRoot rep)) \<and>
    foldsInto H genesisRoot (rp_certRoot rep) \<and>
    (\<exists>(r :: receipt) a. txHashOf (ev_txHash ev) = Some (rc_start r) \<and> rp_txHash rep = rc_start r \<and>
       foldReceipt H (rc_start r) (rc_entries r) = rp_certRoot rep \<and>
       (\<exists>j. foldReceipt H (rc_start r) (take j (rc_entries r)) = rp_anchorRoot rep) \<and>
       decodeAnchor21 (ev_anchorMessage ev) = Inr a \<and> pa_rootChainAnchor a = rp_anchorRoot rep \<and> foldsInto H (pa_tx a) (rp_certRoot rep)) \<and>
    rp_certifiedBlock rep \<le> rp_checkBlock rep \<and>
    (rp_verdict rep = Verified \<longrightarrow>
       provenInto H (sk_network (ev_check ev)) (rp_setRoot rep) \<and> provenInto H (sk_globals (ev_check ev)) (rp_setRoot rep))"
proof -
  let ?env = "we_spine (ce_walk env)"
  obtain records at where i: "incarnation = pin" "mapE mj majors = Inr records"
    and at: "spineStates ?env g records (max (ev_majors ev) (sk_majors (ev_check ev))) [ev_majors ev, sk_majors (ev_check ev)] = Inr at"
    and v: "verifyFrom env ev at pin genesisRoot = Inr rep" using assms(1) by (rule verify21FromGenesis_Inr)
  from v show ?thesis
  proof (rule verifyFrom_Inr)
    fix cert used links gl r a part chk
    assume c: "certifyStage env ev at genesisRoot = Inr (cert, used, links, gl)" "links \<noteq> [] \<or> gl \<noteq> None"
      and r: "receiptStage env ev cert = Inr (rp_txHash rep, r)" and a: "anchorStage env ev cert r = Inr (a, part)"
      and s: "setStage env ev at pin cert used links = Inr (chk, rp_verdict rep, rp_accumulateSetRoot rep)"
      and rep: "rp_certRoot rep = sp_rootChainAnchor cert" "rp_certifiedBlock rep = sp_lastBlock cert" "rp_anchorRoot rep = pa_rootChainAnchor a"
        "rp_setRoot rep = sp_stateTreeAnchor chk" "rp_checkBlock rep = sp_lastBlock chk"
    obtain certified ops where w: "at (ev_majors ev) = Some certified" "walkOps (ev_certify ev) ops"
      "runE (spineStep ?env) (certified\<lparr>sp_refuseReplay := True\<rparr>) ops = Inr cert" "ev_certify ev \<noteq> []"
      and g: "foldsInto H genesisRoot (rp_certRoot rep)" using certifyStage_Inr [OF c(1)] c(2) assms(2) rep(1) by metis
    obtain s0 where s0: "newSpine g 1 = Inr s0" "runE (spineStep ?env) s0 (map Major (take (ev_majors ev) records)) = Inr certified"
      using spineStates_Inr [OF at w(1)] by blast
    have "certifiedRoot ?env (certified\<lparr>sp_refuseReplay := True\<rparr>) ops (rp_certRoot rep)"
      unfolding rep(1) using w(3) by (rule run_certifiedRoot) (use w(2,4) in \<open>auto simp: walkOps_def\<close>)
    with i(2) s0 w(2) have "\<exists>records s0 certified ops. mapE mj majors = Inr records \<and> newSpine g 1 = Inr s0 \<and>
       runE (spineStep ?env) s0 (map Major (take (ev_majors ev) records)) = Inr certified \<and> walkOps (ev_certify ev) ops \<and>
       certifiedRoot ?env (certified\<lparr>sp_refuseReplay := True\<rparr>) ops (rp_certRoot rep)" by blast
    moreover have "\<exists>(r :: receipt) a. txHashOf (ev_txHash ev) = Some (rc_start r) \<and> rp_txHash rep = rc_start r \<and>
       foldReceipt H (rc_start r) (rc_entries r) = rp_certRoot rep \<and>
       (\<exists>j. foldReceipt H (rc_start r) (take j (rc_entries r)) = rp_anchorRoot rep) \<and>
       decodeAnchor21 (ev_anchorMessage ev) = Inr a \<and> pa_rootChainAnchor a = rp_anchorRoot rep \<and> foldsInto H (pa_tx a) (rp_certRoot rep)"
      using receiptStage_Inr [OF r] anchorStage_Inr [OF a] rep(1,3) assms(2)
      by (auto simp: receiptValid_def intro!: exI [of _ r] exI [of _ a])
    moreover have "sp_lastBlock cert \<le> sp_lastBlock chk \<and> (rp_verdict rep = Verified \<longrightarrow>
        provenInto H (sk_network (ev_check ev)) (rp_setRoot rep) \<and> provenInto H (sk_globals (ev_check ev)) (rp_setRoot rep))"
      using s
    proof (rule setStage_Inr)
      assume "sp_lastBlock cert \<le> sp_lastBlock chk"
        and "verifySetCheck (en_sha ?env) (ce_keccak env) (ce_decodeNetwork env) (ce_decodeGlobals env)
          (sk_network (ev_check ev)) (sk_globals (ev_check ev)) (sk_incarnation (ev_check ev)) (sp_stateTreeAnchor chk) pin
          \<lparr>wf_networkRecord = sg_networkRecord (sp_g chk), wf_globalsRecord = sg_globalsRecord (sp_g chk),
           wf_networkUpdates = networkUpdates chk, wf_globalsUpdates = globalsUpdates chk, wf_checkBlock = sp_lastBlock chk\<rparr>
          = Inr (rp_verdict rep, rp_accumulateSetRoot rep)"
      with verifySetCheck_Inr assms(2) rep(4) show ?thesis by (metis set_verdict.distinct)
    qed
    ultimately show ?thesis using i(1) g rep(2,5) by simp
  qed
qed

section \<open>An accepted document\<close>

text \<open>The network of the theory \<open>Spine\<close> with the hash of the theory \<open>Chains\<close>: a major record at block 4, an anchored certify record at block
  5, receipts that start and end at the root of ones, and accounts whose main chains hold the genesis write alone.\<close>

definition walkSpine :: spine_env where "walkSpine = demoEnv\<lparr>en_sha := endsHash\<rparr>"

definition onesReceipt :: receipt where
  "onesReceipt = \<lparr>rc_start = replicate 32 1, rc_anchor = replicate 32 1, rc_entries = [\<lparr>re_hash = replicate 32 1, re_right = False\<rparr>]\<rparr>"

definition onesBin :: bytes where "onesBin = encodeReceipt onesReceipt 0 [] 0 []"

definition demoMajor :: json where
  "demoMajor = (case demoRecord 4 1 [] of JObj ms \<Rightarrow> JObj ((Key ''index'', JInt 1) # (Key ''entry'', JObj [(Key ''blockIndex'', JInt 1)]) # ms) | j \<Rightarrow> j)"

definition genesisChain :: chain_root where
  "genesisChain = \<lparr>cr_name = ''main'', cr_pending = Some [Some (toHex (filled 2))], cr_count = 1, cr_anchor = []\<rparr>"

definition genesisProof :: chained_receipt where
  "genesisProof =
     (let second = endsHash (filled 2 @ filled 1) in
      \<lparr>ch_start = toHex (endsHash [1]), ch_anchor = toHex (endsHash (endsHash (endsHash [1] @ filled 9) @ second)),
        ch_entries = [\<lparr>cs_hash = toHex (filled 9), cs_right = True\<rparr>, \<lparr>cs_hash = toHex second, cs_right = True\<rparr>]\<rparr>)"

definition genesisAccount :: check_account where
  "genesisAccount = \<lparr>ca_accountUrl = [], ca_state = [1], ca_node = Node [] [] [] False, ca_undecodable = False, ca_entry = [],
     ca_chains = [genesisChain], ca_receipt = genesisProof, ca_secondaryHash = toHex (filled 9), ca_pendingHash = toHex (filled 1)\<rparr>"

definition demoEvidence :: evidence21 where
  "demoEvidence = \<lparr>ev_txHash = ones, ev_receipt = onesBin, ev_majors = 1,
     ev_certify = [\<lparr>ri_json = demoRecord 5 2 [], ri_bin = [], ri_nested = True\<rparr>],
     ev_anchorMessage = \<lparr>sm_decodes = True, sm_kind = ''transaction'',
       sm_txn = Some (Node ''Transaction'' [(''header'', WNode (Node ''TransactionHeader'' [(''principal'', WText ''acc://dn.acme/anchors'')] [] False)),
         (''body'', WNode (Node ''BlockValidatorAnchor'' [(''source'', WText ''acc://bvn-one.acme''), (''minorBlockIndex'', WBig 9),
            (''rootChainAnchor'', WBytes (replicate 32 1)), (''stateTreeAnchor'', WBytes (filled 4))] [] False))] [] False),
       sm_txnHash = replicate 32 1, sm_source = Some (mkUrl ''bvn-one.acme'' [] []), sm_destination = Some dnUrl\<rparr>,
     ev_anchorReceipt = onesBin, ev_links = [onesBin], ev_genesisLink = Some onesBin,
     ev_check = \<lparr>sk_majors = 1, sk_hops = [], sk_incarnation = toHex (filled 5), sk_network = genesisAccount, sk_globals = genesisAccount\<rparr>\<rparr>"

definition demoWalkEnv :: check_env where
  "demoWalkEnv = \<lparr>ce_walk = \<lparr>we_spine = walkSpine, we_transactionDecodes = (\<lambda>_. True), we_signatureDecodes = (\<lambda>_. True)\<rparr>,
     ce_keccak = id, ce_decodeNetwork = demoDecNet, ce_decodeGlobals = demoDecGlob, ce_verify21 = (\<lambda>_ _. Inr ())\<rparr>"

definition walkedMajor :: spine where "walkedMajor = demoMid\<lparr>sp_refuseReplay := False, sp_nextMajor := 2\<rparr>"
definition walkedRun :: spine where "walkedRun = demoMid\<lparr>sp_nextMajor := 2, sp_lastBlock := 5, sp_rootChain := 2\<rparr>"

lemma onesBin_decodes: "decodeReceiptBin onesBin = Some onesReceipt"
  by code_simp

lemma demo_major: "advance walkSpine (demoStart\<lparr>sp_refuseReplay := False\<rparr>) demoMajor = Inr walkedMajor"
  by code_simp

lemma demo_new: "newSpine demoGlobals 1 = Inr (demoStart\<lparr>sp_refuseReplay := False\<rparr>)"
  by (simp add: newSpine_def demoStart_def)

lemma demo_anchored: "advanceAnchored walkSpine (walkedMajor\<lparr>sp_refuseReplay := True\<rparr>) (demoRecord 5 2 []) (Some onesReceipt) = Inr walkedRun"
  by code_simp

lemma demo_item:
  "recordDecodes (\<lambda>_. True) (\<lambda>_. True) []" "\<not> recordHasRootProof (\<lambda>_. True) []" "member (Key ''rootProof'') (demoRecord 5 2 []) = JUndefined"
  by code_simp+

lemma demo_run:
  "walkRuns (ce_walk demoWalkEnv) [onesReceipt] (ev_certify demoEvidence) 0 (walkedMajor\<lparr>sp_refuseReplay := True\<rparr>) 0 = Inr (walkedRun, 1)"
  by (simp add: demoWalkEnv_def demoEvidence_def walkAnchored_def isAnchored_def linkAt_def demo_item demo_anchored split: option.split)

lemma ones_valid: "receiptValid endsHash onesReceipt" "receiptPrefixTo endsHash onesReceipt (replicate 32 1) \<noteq> None"
    "checkGenesisLink endsHash (Some onesReceipt) (replicate 32 1) (replicate 32 1) = Inr ()" "txHashOf ones = Some (replicate 32 1)"
  by code_simp+

lemma walked_root: "sp_rootChainAnchor walkedRun = replicate 32 1" "sp_stateTreeAnchor walkedRun = replicate 32 1" "sp_lastBlock walkedRun = 5"
    "sp_g walkedRun = demoGlobals" "networkUpdates walkedRun = 0" "globalsUpdates walkedRun = 0"
  by (simp_all add: walkedRun_def demoMid_def demoStart_def networkUpdates_def globalsUpdates_def)

lemma walk_env: "en_sha (we_spine (ce_walk demoWalkEnv)) = endsHash" "we_spine (ce_walk demoWalkEnv) = walkSpine"
  by (simp_all add: demoWalkEnv_def walkSpine_def)

lemma demo_certify:
  assumes "at 1 = Some walkedMajor"
  shows "certifyStage demoWalkEnv demoEvidence at (replicate 32 1) = Inr (walkedRun, 1, [onesReceipt], Some onesReceipt)"
proof -
  have e: "ev_majors demoEvidence = 1" "ev_links demoEvidence = [onesBin]" "ev_genesisLink demoEvidence = Some onesBin" "ev_certify demoEvidence \<noteq> []"
    by (simp_all add: demoEvidence_def)
  show ?thesis
    unfolding certifyStage_def e assms option.case if_not_P [OF e(4)]
    by (simp add: decodeGenesisLink_def onesBin_decodes demo_run walk_env(1) walked_root ones_valid(3))
qed

lemma demo_receipt: "receiptStage demoWalkEnv demoEvidence walkedRun = Inr (replicate 32 1, onesReceipt)"
proof -
  have "ev_receipt demoEvidence = onesBin" "ev_txHash demoEvidence = ones" by (simp_all add: demoEvidence_def)
  moreover have "rc_start onesReceipt = replicate 32 1" "rc_anchor onesReceipt = replicate 32 1" by (simp_all add: onesReceipt_def)
  ultimately show ?thesis by (simp add: receiptStage_def onesBin_decodes walk_env(1) walked_root ones_valid)
qed

definition demoAnchor :: partition_anchor where
  "demoAnchor = \<lparr>pa_source = Some (mkUrl ''bvn-one.acme'' [] []), pa_minorBlockIndex = 9, pa_rootChainAnchor = replicate 32 1,
     pa_stateTreeAnchor = filled 4, pa_wrapperSource = mkUrl ''bvn-one.acme'' [] [], pa_tx = replicate 32 1, pa_directory = False\<rparr>"

lemma demo_urls:
  "fromBinary ''acc://bvn-one.acme'' = Some (mkUrl ''bvn-one.acme'' [] [])" "fromBinary ''acc://dn.acme/anchors'' = Some (joinPath dnUrl [ANCHOR_POOL])"
  by code_simp+

lemma demo_partition: "partitionOfAnchor demoAnchor = Inr ''one''"
  by code_simp

lemma demo_decode: "decodeAnchor21 (ev_anchorMessage demoEvidence) = Inr demoAnchor"
proof -
  have "urlEqual dnUrl dnUrl" "urlEqual (joinPath dnUrl [ANCHOR_POOL]) (joinPath dnUrl [ANCHOR_POOL])" by code_simp+
  then show ?thesis
    by (simp add: demoEvidence_def decodeAnchor21_def bodyOf_def nodeOf_def fieldOf_def Model.principalOf_def Model.headerOf_def urlOf_def demo_urls
        bigOf_def bytesOf_def hash32_def demoAnchor_def toNumber_small)
qed

lemma demo_anchorStage: "anchorStage demoWalkEnv demoEvidence walkedRun onesReceipt = Inr (demoAnchor, ''one'')"
proof -
  have "ev_anchorReceipt demoEvidence = onesBin" by (simp add: demoEvidence_def)
  moreover have "rc_start onesReceipt = replicate 32 1" "rc_anchor onesReceipt = replicate 32 1" by (simp_all add: onesReceipt_def)
  moreover have "pa_tx demoAnchor = replicate 32 1" "pa_rootChainAnchor demoAnchor = replicate 32 1" by (simp_all add: demoAnchor_def)
  ultimately show ?thesis
    by (simp add: anchorStage_def demo_decode demo_partition onesBin_decodes walk_env(1) walked_root ones_valid(1) ones_valid(2) [unfolded not_None_eq [symmetric]])
qed

lemma genesis_height: "mainChainHeight endsHash [genesisChain] = Some 1"
  by code_simp

lemma genesis_derive: "deriveChain endsHash genesisChain = Inr (1, filled 2)"
  by code_simp

lemma genesis_binding: "verifyChainBinding endsHash genesisProof [genesisChain] (toHex (filled 9)) (toHex (filled 1)) = Inr ()"
  unfolding verifyChainBinding_Inr
  by (simp add: chainLeaf_def genesis_derive genesisProof_def Let_def mustHex32_toHex goLower_toHex hexBytesLoose_toHex toHex_nonempty)

lemma genesis_account: "proveAccount endsHash genesisAccount = Inr (replicate 32 1, Some 1)"
proof -
  have "verifyAccountState endsHash [1] genesisProof [genesisChain] (toHex (filled 9)) (toHex (filled 1)) =
      Inr (endsHash (endsHash (endsHash [1] @ filled 9) @ endsHash (filled 2 @ filled 1)), Some 1)"
    unfolding verifyAccountState_def
    by (simp add: genesis_binding genesis_height) (simp add: genesisProof_def Let_def mustHex32_toHex recomputeReceipt_def hexReceiptStep_toHex)
  moreover have "endsHash (endsHash (endsHash [1] @ filled 9) @ endsHash (filled 2 @ filled 1)) = replicate 32 1" by code_simp
  ultimately show ?thesis by (simp add: proveAccount_def genesisAccount_def)
qed

definition genesisFacts :: walk_facts where
  "genesisFacts = \<lparr>wf_networkRecord = [], wf_globalsRecord = [], wf_networkUpdates = 0, wf_globalsUpdates = 0, wf_checkBlock = 5\<rparr>"

lemma genesis_check:
  "verifySetCheck endsHash id demoDecNet demoDecGlob genesisAccount genesisAccount (toHex (filled 5)) (replicate 32 1) (filled 5) genesisFacts =
     Inr (Verified, toHex (preimage (filled 5) 2 3 [(filled 1, [])]))"
proof -
  have n: "decodeValidators demoDecNet genesisAccount = Inr [\<lparr>av_publicKey = toHex (filled 1), av_activeOn = []\<rparr>]"
    by (simp add: decodeValidators_def demoDecNet_def nodesOf_def fieldOf_def derivedValidator_def bytesOf_def)
  have g: "decodeAcceptThreshold demoDecGlob genesisAccount = Inr (2, 3)"
    by (simp add: decodeAcceptThreshold_def demoDecGlob_def nodeOf_def fieldOf_def bigOf_def)
  have c: "mainHeightOf endsHash genesisAccount = Some 1" by (simp add: mainHeightOf_def genesisAccount_def genesis_height)
  have e: "ch_entries (ca_receipt genesisAccount) \<noteq> []" by (simp add: genesisAccount_def genesisProof_def Let_def)
  have v: "setVerdict endsHash genesisAccount genesisAccount (toHex (filled 5)) (replicate 32 1) (filled 5) genesisFacts = Inr Verified"
    using e by (simp add: setVerdict_def provenVerdict_def genesis_account mustHex32_toHex toHex_nonempty)
  have "ca_entry genesisAccount = []" by (simp add: genesisAccount_def)
  then have a: "agreeWithWalk endsHash id genesisAccount genesisAccount (filled 5) genesisFacts [\<lparr>av_publicKey = toHex (filled 1), av_activeOn = []\<rparr>] 2 3 =
      Inr (toHex (preimage (filled 5) 2 3 [(filled 1, [])]))"
    using demo_one by (simp add: agreeWithWalk_def c genesisFacts_def)
  show ?thesis unfolding verifySetCheck_def n g by (simp add: v a)
qed

lemma demo_setStage:
  "setStage demoWalkEnv demoEvidence at (filled 5) walkedRun 1 [onesReceipt] = Inr (walkedRun, Verified, toHex (preimage (filled 5) 2 3 [(filled 1, [])]))"
proof -
  have k: "sk_hops (ev_check demoEvidence) = []" "sk_majors (ev_check demoEvidence) = ev_majors demoEvidence"
    "sk_network (ev_check demoEvidence) = genesisAccount" "sk_globals (ev_check demoEvidence) = genesisAccount"
    "sk_incarnation (ev_check demoEvidence) = toHex (filled 5)" by (simp_all add: demoEvidence_def)
  have r: "walkedRun\<lparr>sp_refuseReplay := True\<rparr> = walkedRun" by (simp add: walkedRun_def demoMid_def demoStart_def)
  have f: "\<lparr>wf_networkRecord = sg_networkRecord demoGlobals, wf_globalsRecord = sg_globalsRecord demoGlobals,
      wf_networkUpdates = 0, wf_globalsUpdates = 0, wf_checkBlock = 5\<rparr> = genesisFacts" by (simp add: genesisFacts_def demoGlobals_def)
  have c: "ce_keccak demoWalkEnv = id" "ce_decodeNetwork demoWalkEnv = demoDecNet" "ce_decodeGlobals demoWalkEnv = demoDecGlob"
    by (simp_all add: demoWalkEnv_def)
  show ?thesis by (simp add: setStage_def k r walked_root f c walk_env(1) genesis_check)
qed

lemma demo_verified: "\<exists>rep. verify21FromGenesis demoWalkEnv Inr demoGlobals (filled 5) (filled 5) (replicate 32 1) [demoMajor] demoEvidence = Inr rep \<and>
    rp_verdict rep = Verified"
proof -
  have m: "ev_majors demoEvidence = 1" "sk_majors (ev_check demoEvidence) = 1" by (simp_all add: demoEvidence_def)
  obtain at where a: "spineStates walkSpine demoGlobals [demoMajor] 1 [1, 1] = Inr at" "at 1 = Some walkedMajor"
    by (simp add: spineStates_def demo_new [simplified] demo_major)
  have t: "directoryThresholdOf demoGlobals = Inr 1" by code_simp
  have v: "ce_verify21 demoWalkEnv ev rep = Inr ()" for ev rep by (simp add: demoWalkEnv_def)
  show ?thesis
    by (simp add: verify21FromGenesis_def m walk_env(2) a [simplified] verifyFrom_def demo_certify [of at, OF a(2)] demo_receipt demo_anchorStage demo_setStage [simplified] walked_root t v Let_def)
qed

theorem portable21_sound_witness:
  "\<exists>rep. verify21FromGenesis demoWalkEnv Inr demoGlobals (filled 5) (filled 5) (replicate 32 1) [demoMajor] demoEvidence = Inr rep \<and>
     foldsInto endsHash (replicate 32 1) (rp_certRoot rep) \<and> provenInto endsHash (sk_network (ev_check demoEvidence)) (rp_setRoot rep)"
proof -
  obtain rep where r: "verify21FromGenesis demoWalkEnv Inr demoGlobals (filled 5) (filled 5) (replicate 32 1) [demoMajor] demoEvidence = Inr rep"
    and v: "rp_verdict rep = Verified" using demo_verified by blast
  from portable21_sound [OF r walk_env(1) [symmetric]] v r show ?thesis by blast
qed

end
