(* ===== verification/CodecRound.thy ===== *)
theory CodecRound
  imports Codec
begin

text \<open>
  The round trip of the wire codec: a node that a writer can have meant (every value of its field's kind and range, zero values left out, members in
  the order of the fields, what follows them numbered above them) is written to bytes from which the decoder gives it back.
\<close>

section \<open>Numbers and byte strings\<close>

lemma rdUvarint_write: "0 \<le> v \<Longrightarrow> v < 2 ^ 64 \<Longrightarrow> rdUvarint (writeUvarint v @ r) = Inr (nat v, r)"
  using uvDigits_uvarint [of v 0 0 r] by (simp add: rdUvarint_def writeUvarint_def nat_less_iff)

lemma rdUvarint_nat: "n < 2 ^ 64 \<Longrightarrow> rdUvarint (writeUvarint (int n) @ r) = Inr (n, r)"
  using rdUvarint_write [of "int n" r] by simp

lemma unzigzag_even: "0 \<le> v \<Longrightarrow> unzigzag (nat (2 * v)) = v"
  by (simp add: unzigzag_def nat_mult_distrib)

lemma unzigzag_odd:
  assumes "v < 0"
  shows "unzigzag (nat (- (2 * v) - 1)) = v"
proof -
  define k where "k = nat (- v - 1)"
  have k: "v = - int k - 1" using assms by (simp add: k_def)
  then have "nat (- (2 * v) - 1) = 2 * k + 1" by (simp add: nat_add_distrib nat_mult_distrib)
  then show ?thesis by (simp add: unzigzag_def k)
qed

lemma rdVarint_write:
  assumes "- (2 ^ 63) \<le> v" and "v < 2 ^ 63"
  shows "rdVarint (writeVarint v @ r) = Inr (v, r)"
proof (cases "v < 0")
  case True
  then have m: "(- (2 * v) - 1) mod 2 ^ 64 = - (2 * v) - 1" using assms(1) by (intro mod_pos_pos_trivial) simp_all
  have "rdUvarint (writeUvarint (- (2 * v) - 1) @ r) = Inr (nat (- (2 * v) - 1), r)"
    using True assms(1) by (intro rdUvarint_write) simp_all
  then show ?thesis using True unfolding rdVarint_def writeVarint_def m if_P [OF True] writeUvarint_def [symmetric] by (simp add: unzigzag_odd)
next
  case False
  have "rdUvarint (writeUvarint (2 * v) @ r) = Inr (nat (2 * v), r)" using False assms(2) by (intro rdUvarint_write) simp_all
  then show ?thesis using False by (simp add: rdVarint_def writeVarint_def unzigzag_even flip: writeUvarint_def)
qed

lemma rdRaw_app: "n = length b \<Longrightarrow> rdRaw n (b @ r) = Inr (b, r)"
  by (simp add: rdRaw_def)

lemma rdBytes_write: "length b < 2 ^ 24 \<Longrightarrow> rdBytes (writeBytes b @ r) = Inr (b, r)"
  by (simp add: rdBytes_def writeBytes_def rdUvarint_nat rdRaw_app)

lemma binaryString_back: "binaryString (binaryBytes s) = s"
  by (induction s) (simp_all add: binaryString_def binaryBytes_def code_less char_of_code)

lemma length_binary: "length (binaryBytes s) = length s"
  by (simp add: binaryBytes_def)

text \<open>A field number takes one byte, which is not the mark of the empty object.\<close>

lemma writeUvarint_small: "n < 128 \<Longrightarrow> writeUvarint (int n) = [of_nat n]"
  unfolding writeUvarint_def by (subst uvarint.simps) simp

lemma number_not_empty:
  assumes "n \<le> 32"
  shows "(writeUvarint (int n) @ b) ! 0 \<noteq> 0x80"
proof
  assume "(writeUvarint (int n) @ b) ! 0 = 0x80"
  then have "(of_nat n :: byte) = 0x80" using assms by (simp add: writeUvarint_small)
  then have "unat (of_nat n :: byte) = 128" by simp
  with assms show False by (simp only: unat_of_nat_byte)
qed

section \<open>What a writer can have meant\<close>

definition shortNode :: "codec_env \<Rightarrow> wire_node \<Rightarrow> bool" where
  "shortNode env m = (case encodeNode env {} m of Inr b \<Rightarrow> length b < 2 ^ 24 | Inl _ \<Rightarrow> False)"

text \<open>The bytes of a member of a union open with a type that names its class.\<close>

definition memberOf :: "codec_env \<Rightarrow> string \<Rightarrow> wire_node \<Rightarrow> bool" where
  "memberOf env u m =
     (case encodeNode env {} m of
        Inr b \<Rightarrow> b \<noteq> [] \<and> b ! 0 \<noteq> 0x80 \<and>
          (case rdUvarint b of
             Inr (one, r) \<Rightarrow> one = 1 \<and> (case rdUvarint r of Inr (tag, _) \<Rightarrow> unionMember env u (int tag) = Inr (cls m) | Inl _ \<Rightarrow> False)
           | Inl _ \<Rightarrow> False)
      | Inl _ \<Rightarrow> False)"

definition inUnion :: "codec_env \<Rightarrow> string \<Rightarrow> field_desc \<Rightarrow> (string \<Rightarrow> bool) \<Rightarrow> bool" where
  "inUnion env owner d P = (case registryType env owner (fd_name d) of Some t \<Rightarrow> t \<noteq> [] \<and> P t | None \<Rightarrow> False)"

definition opaqueRef :: "codec_env \<Rightarrow> string \<Rightarrow> field_desc \<Rightarrow> bool" where
  "opaqueRef env owner d = (case registryType env owner (fd_name d) of Some t \<Rightarrow> t = [] \<or> \<not> hasClass env t | None \<Rightarrow> True)"

definition fits :: "(wire_node \<Rightarrow> bool) \<Rightarrow> codec_env \<Rightarrow> string \<Rightarrow> field_desc \<Rightarrow> wvalue \<Rightarrow> bool" where
  "fits ok env owner d v =
     (case (fd_kind d, v) of
        (KUint, WBig i) \<Rightarrow> 0 \<le> i \<and> i < 2 ^ 64
      | (KEnum, WBig i) \<Rightarrow> 0 \<le> i \<and> i < 2 ^ 64 \<and> enumChecked d (nat i) = Inr i
      | (KInt, WBig i) \<Rightarrow> - (2 ^ 63) \<le> i \<and> i < 2 ^ 63
      | (KBool, WBool b) \<Rightarrow> True
      | (KString, WText s) \<Rightarrow> length s < 2 ^ 24
      | (KUrl, WText s) \<Rightarrow> length s < 2 ^ 24 \<and> (s = [] \<or> canonicalAccUrl s = Some s)
      | (KTxid, WText s) \<Rightarrow> length s < 2 ^ 24 \<and> (s = [] \<or> canonicalAccTxId s = Some s)
      | (KBytes, WBytes b) \<Rightarrow> length b < 2 ^ 24
      | (KHash, WBytes b) \<Rightarrow> length b = 32
      | (KTime, WTime i) \<Rightarrow> - (2 ^ 63) \<le> i \<and> i < 2 ^ 63
      | (KDuration, WDuration s n) \<Rightarrow> 0 \<le> s \<and> s < 2 ^ 64 \<and> 0 \<le> n \<and> n < 2 ^ 64
      | (KBigint, WBig i) \<Rightarrow> 0 \<le> i \<and> length (min_be (nat i)) < 2 ^ 24
      | (KRawJson, WOpaque b) \<Rightarrow> length b < 2 ^ 24
      | (KUnion, WNull) \<Rightarrow> inUnion env owner d (\<lambda>t. True)
      | (KUnion, WNode m) \<Rightarrow> inUnion env owner d (\<lambda>t. memberOf env t m) \<and> shortNode env m \<and> ok m
      | (KReference, WOpaque b) \<Rightarrow> length b < 2 ^ 24 \<and> opaqueRef env owner d
      | (KReference, WNode m) \<Rightarrow> registryType env owner (fd_name d) = Some (cls m) \<and> \<not> opaqueRef env owner d \<and> shortNode env m \<and> ok m
      | _ \<Rightarrow> False)"

definition goodPlains :: "field_desc list \<Rightarrow> bool" where
  "goodPlains ds \<longleftrightarrow> sorted_wrt (<) (map fd_number ds) \<and> (\<forall>d\<in>set ds. 1 \<le> fd_number d \<and> fd_number d \<le> 32)"

definition goodDescs :: "desc list \<Rightarrow> bool" where
  "goodDescs ds \<longleftrightarrow> sorted_wrt (<) (map descNumber ds) \<and> (\<forall>d\<in>set ds. 1 \<le> descNumber d \<and> descNumber d \<le> 32) \<and>
     (\<forall>d\<in>set ds. case d of Plain _ \<Rightarrow> True | Embedded _ es \<Rightarrow> goodPlains es) \<and> distinct (map fd_name (flatten ds))"

definition fieldOk :: "(wire_node \<Rightarrow> bool) \<Rightarrow> codec_env \<Rightarrow> wire_node \<Rightarrow> field_desc \<Rightarrow> bool" where
  "fieldOk ok env n d =
     (case fieldOf n (fd_name d) of
        None \<Rightarrow> \<not> (fd_keepEmpty d \<and> \<not> fd_repeatable d)
      | Some v \<Rightarrow>
          if fd_repeatable d then v = WList (itemsIn v) \<and> itemsIn v \<noteq> [] \<and> list_all (fits ok env (cls n) d) (itemsIn v)
          else fits ok env (cls n) d v \<and> v \<noteq> WNull \<and> \<not> left_out env (cls n) d v \<and> \<not> (fd_kind d = KBigint \<and> equalsZero env (cls n) d v))"

text \<open>What follows the fields: nothing, zeros, or a field number above \<open>n\<close>.\<close>

definition later :: "nat \<Rightarrow> bytes \<Rightarrow> bool" where
  "later n x = (x = [] \<or> (case rdUvarint x of Inr (k, _) \<Rightarrow> k = 0 \<or> n < k \<and> k \<le> 32 | Inl _ \<Rightarrow> False))"

definition shortEmbedded :: "codec_env \<Rightarrow> wire_node \<Rightarrow> desc \<Rightarrow> bool" where
  "shortEmbedded env n d =
     (case d of
        Plain _ \<Rightarrow> True
      | Embedded _ es \<Rightarrow> (case encodePlains env (encodeNode env {}) n {} es of Inr b \<Rightarrow> length b < 2 ^ 24 | Inl _ \<Rightarrow> True))"

text \<open>An object is the empty one when nothing is written for it.\<close>

definition emptiness :: "codec_env \<Rightarrow> wire_node \<Rightarrow> desc list \<Rightarrow> bool" where
  "emptiness env n ds =
     (case encodeFields env (encodeNode env {}) n {} ds of
        Inr b \<Rightarrow> isEmpty n = (b = []) \<and> (isEmpty n \<longrightarrow> nodeFields n = [] \<and> extra n = [])
      | Inl _ \<Rightarrow> True)"

definition okWith :: "(wire_node \<Rightarrow> bool) \<Rightarrow> codec_env \<Rightarrow> wire_node \<Rightarrow> bool" where
  "okWith ok env n =
     (cls n \<noteq> FACTOM \<and>
      (case fieldsOf env (cls n) of
         Inl _ \<Rightarrow> False
       | Inr ds \<Rightarrow>
           goodDescs ds \<and> distinct (map fst (nodeFields n)) \<and>
           map fst (nodeFields n) = filter (\<lambda>x. fieldOf n x \<noteq> None) (map fd_name (flatten ds)) \<and>
           list_all (fieldOk ok env n) (flatten ds) \<and> list_all (shortEmbedded env n) ds \<and>
           (ds \<noteq> [] \<longrightarrow> later (descNumber (last ds)) (extra n)) \<and> emptiness env n ds))"

text \<open>A Factom entry: its type alone, or with an account and ext ids whose lengths fit two bytes.\<close>

definition factomExtIds :: "wire_node \<Rightarrow> bytes list" where
  "factomExtIds n = (case fieldOf n ''extIds'' of Some v \<Rightarrow> bytesIn (itemsIn v) | None \<Rightarrow> [])"

definition okFactom :: "wire_node \<Rightarrow> bool" where
  "okFactom n =
     (cls n = FACTOM \<and>
      (if isEmpty n then nodeFields n = [] \<and> extra n = []
       else if length (nodeFields n) = 1 then nodeFields n = [(''type'', WBig 1)] \<and> later 2 (extra n)
       else
         nodeFields n = [(''type'', WBig 1), (''accountId'', WBytes (bytesField n ''accountId'')), (''data'', WBytes (bytesField n ''data'')),
           (''extIds'', WList (map WBytes (factomExtIds n)))] \<and>
         length (bytesField n ''accountId'') = 32 \<and> \<not> list_all (\<lambda>x. x = 0) (bytesField n ''accountId'') \<and>
         length (concat (map (\<lambda>e. u16 (length e) @ e) (factomExtIds n))) < 2 ^ 16 \<and> length (bytesField n ''data'') < 2 ^ 23))"

lemma fits_cong: "(\<And>m. v = WNode m \<Longrightarrow> ok m = ok' m) \<Longrightarrow> fits ok env c d v = fits ok' env c d v"
  by (cases v) (auto simp: fits_def split: kind.split)

lemma okWith_cong [fundef_cong]:
  assumes "n = n'" and "env = env'" and "\<And>m. size m < size n' \<Longrightarrow> ok m = ok' m"
  shows "okWith ok env n = okWith ok' env' n'"
proof -
  have "fieldOk ok env' n' d = fieldOk ok' env' n' d" for d
  proof (cases "fieldOf n' (fd_name d)")
    case (Some v)
    have "fits ok env' (cls n') d x = fits ok' env' (cls n') d x" if "x = v \<or> x \<in> set (itemsIn v)" for x
      by (rule fits_cong, rule assms(3)) (use that Some item_size [OF Some] field_value_size in auto)
    with Some show ?thesis by (auto simp: fieldOk_def list_all_iff)
  qed (simp add: fieldOk_def)
  then have e: "fieldOk ok env' n' = fieldOk ok' env' n'" by (rule ext)
  show ?thesis unfolding assms(1,2) okWith_def e ..
qed

function okNode :: "codec_env \<Rightarrow> wire_node \<Rightarrow> bool" where
  "okNode env n = (okFactom n \<or> okWith (okNode env) env n)"
  by pat_completeness auto
termination
  by (relation "measure (size \<circ> snd)") auto

declare okNode.simps [simp del]

section \<open>Values\<close>

text \<open>A written value reads back, whatever follows it, when the nested nodes do.\<close>

definition reads :: "codec_env \<Rightarrow> wire_node \<Rightarrow> bool" where
  "reads env m \<longleftrightarrow> (\<exists>b. encodeNode env {} m = Inr b \<and> decodeObject env (cls m) b = Inr m)"

lemma readUrl_text: "length s < 2 ^ 24 \<Longrightarrow> s = [] \<or> f s = Some s \<Longrightarrow> readUrl d f (binaryBytes s) = Inr (WText s)"
  by (auto simp: readUrl_def Let_def binaryString_back)

lemma shortNode_reads:
  assumes "shortNode env m" and "reads env m"
  obtains b where "encodeNode env {} m = Inr b" and "length b < 2 ^ 24" and "decodeObject env (cls m) b = Inr m"
  using assms by (auto simp: shortNode_def reads_def)

lemma memberOf_decodes:
  assumes "memberOf env u m" and "encodeNode env {} m = Inr b" and "decodeObject env (cls m) b = Inr m"
  shows "decodeUnionWith env (decodeObject env) u b = Inr (Some m)"
proof -
  obtain r tag r' where "rdUvarint b = Inr (1, r)" "rdUvarint r = Inr (tag, r')" "unionMember env u (int tag) = Inr (cls m)" "b \<noteq> []" "b ! 0 \<noteq> 0x80"
    using assms(1,2) by (cases "rdUvarint b"; cases "rdUvarint (snd (projr (rdUvarint b)))") (auto simp: memberOf_def)
  with assms(3) show ?thesis by (simp add: decodeUnionWith_def)
qed

lemma written_value:
  assumes "fits ok env owner d v" and "\<And>m. v = WNode m \<Longrightarrow> reads env m"
  shows "\<exists>b. writeValue (encodeNode env {}) d v = Inr b \<and> (\<forall>r. readValue env (decodeObject env) owner d (b @ r) = Inr (v, r))"
proof (cases v)
  case (WNode m)
  with assms have m: "shortNode env m" "reads env m" and k: "fd_kind d = KUnion \<and> inUnion env owner d (\<lambda>t. memberOf env t m) \<or>
      fd_kind d = KReference \<and> registryType env owner (fd_name d) = Some (cls m) \<and> \<not> opaqueRef env owner d"
    by (auto simp: fits_def split: kind.splits)
  obtain b where b: "encodeNode env {} m = Inr b" "length b < 2 ^ 24" "decodeObject env (cls m) b = Inr m"
    using m by (rule shortNode_reads)
  have "readValue env (decodeObject env) owner d (writeBytes b @ r) = Inr (v, r)" for r
    using k b memberOf_decodes [OF _ b(1,3)] WNode
    by (auto simp: readValue_def rdBytes_write inUnion_def opaqueRef_def split: option.splits)
  then show ?thesis using b(1) k WNode by (auto simp: writeValue_def)
next
  case (WText s)
  with assms(1) show ?thesis
    by (auto simp: fits_def writeValue_def readValue_def rdBytes_write length_binary binaryString_back readUrl_text split: kind.splits)
next
  case WNull
  with assms(1) have "fd_kind d = KUnion" "inUnion env owner d (\<lambda>t. True)" by (auto simp: fits_def split: kind.splits)
  with WNull show ?thesis
    by (auto simp: inUnion_def writeValue_def readValue_def rdBytes_write decodeUnionWith_def split: option.splits)
next
  case (WOpaque b)
  with assms(1) show ?thesis
    by (auto simp: fits_def writeValue_def readValue_def rdBytes_write opaqueRef_def split: kind.splits option.splits)
next
  case (WDuration s n)
  with assms(1) show ?thesis by (auto simp: fits_def writeValue_def readValue_def rdUvarint_write split: kind.splits)
next
  case (WBig i)
  with assms(1) show ?thesis
    by (auto simp: fits_def writeValue_def readValue_def rdUvarint_write rdVarint_write rdBytes_write not_less split: kind.splits)
qed (use assms(1) in \<open>auto simp: fits_def writeValue_def readValue_def rdUvarint_write rdVarint_write rdBytes_write rdRaw_app split: kind.splits\<close>)

section \<open>Fields\<close>

text \<open>The reader is before the bytes \<open>x\<close>, their first field number possibly read ahead.\<close>

definition positioned :: "field_reader \<Rightarrow> bytes \<Rightarrow> bool" where
  "positioned st x \<longleftrightarrow>
     (fr_cur st = 0 \<and> \<not> fr_ended st \<and> fr_left st = x) \<or>
     (0 < fr_cur st \<and> fr_cur st \<le> 32 \<and> \<not> fr_ended st \<and> fr_curStart st = x \<and> rdUvarint x = Inr (fr_cur st, fr_left st)) \<or>
     (fr_cur st = 0 \<and> fr_ended st \<and> fr_curStart st = x \<and> (\<exists>r. rdUvarint x = Inr (0, r)))"

lemma rdUvarint_Nil [simp]: "rdUvarint [] = Inl BadVarint"
  by (simp add: rdUvarint_def)

lemma restOf_before: "positioned st x \<Longrightarrow> restOf st = x"
  by (auto simp: positioned_def restOf_def)

lemma before_start: "fr_cur st = 0 \<Longrightarrow> \<not> fr_ended st \<Longrightarrow> positioned (st\<lparr>fr_left := x\<rparr>) x"
  by (simp add: positioned_def)

lemma peek_before:
  assumes "positioned st x" and "later n x"
  shows "\<exists>st'. peek st = Inr st' \<and> positioned st' x \<and> (fr_cur st' = 0 \<or> n < fr_cur st')"
proof (cases "x = []")
  case False
  with assms(2) obtain k r where k: "rdUvarint x = Inr (k, r)" "k = 0 \<or> n < k \<and> k \<le> 32"
    by (auto simp: later_def split: sum.splits)
  with assms(1) False show ?thesis by (auto simp: positioned_def peek_def Let_def)
qed (use assms(1) in \<open>auto simp: positioned_def peek_def\<close>)

lemma later_mono: "later n x \<Longrightarrow> m \<le> n \<Longrightarrow> later m x"
  by (auto simp: later_def split: sum.splits)

lemma later_number: "m < n \<Longrightarrow> n \<le> 32 \<Longrightarrow> later m (writeUvarint (int n) @ y)"
  by (simp add: later_def rdUvarint_nat)

lemma arrive_absent:
  assumes "positioned st x" and "later n x" and "1 \<le> n"
  shows "\<exists>st'. arrive n st = Inr (False, st') \<and> positioned st' x"
  using peek_before [OF assms(1,2)] assms(3) by (auto simp: arrive_def)

lemma peek_number:
  assumes "fr_cur st = 0" and "\<not> fr_ended st" and "fr_left st = writeUvarint (int n) @ y" and "1 \<le> n" and "n \<le> 32"
  shows "peek st = Inr (st\<lparr>fr_left := y, fr_curStart := fr_left st, fr_cur := n\<rparr>)"
proof -
  have "rdUvarint (fr_left st) = Inr (n, y)" unfolding assms(3) using assms(5) by (simp add: rdUvarint_nat)
  with assms(1,2,4,5) show ?thesis by (auto simp: peek_def Let_def)
qed

lemma arrive_here:
  assumes "positioned st (writeUvarint (int n) @ y)" and "1 \<le> n" and "n \<le> 32"
  shows "\<exists>st'. arrive n st = Inr (True, st') \<and> fr_left st' = y \<and> \<not> fr_ended st'"
proof -
  have r: "rdUvarint (writeUvarint (int n) @ y) = Inr (n, y)" using assms(3) by (simp add: rdUvarint_nat)
  have "writeUvarint (int n) @ y \<noteq> []" using assms(3) by (simp add: writeUvarint_small)
  with r assms show ?thesis by (auto simp: positioned_def arrive_def peek_def Let_def)
qed

text \<open>The values of a repeatable field.\<close>

lemma written_field:
  assumes "fits ok env owner d v" and "\<And>m. v = WNode m \<Longrightarrow> reads env m"
  shows "\<exists>b. writeField (encodeNode env {}) d v = Inr (writeUvarint (int (fd_number d)) @ b) \<and>
    (\<forall>r. readValue env (decodeObject env) owner d (b @ r) = Inr (v, r))"
  using written_value [OF assms] by (auto simp: writeField_def)

lemma readRepeated_written:
  assumes "list_all2 (\<lambda>v b. \<forall>r. readValue env dec owner d (b @ r) = Inr (v, r)) vs bs" and "vs \<noteq> []"
    and "later (fd_number d) x" and "1 \<le> fd_number d" and "fd_number d \<le> 32"
    and "fr_cur st = 0" and "\<not> fr_ended st" and "writeUvarint (int (fd_number d)) @ fr_left st = concat (map (\<lambda>b. writeUvarint (int (fd_number d)) @ b) bs) @ x"
  shows "\<exists>st'. readRepeated env dec owner d st = Inr (vs, st') \<and> positioned st' x"
  using assms
proof (induction vs bs arbitrary: st rule: list_all2_induct)
  case (Cons v vs b bs)
  let ?n = "writeUvarint (int (fd_number d))"
  let ?y = "concat (map (\<lambda>b. ?n @ b) bs) @ x"
  have l: "fr_left st = b @ ?y" using Cons.prems(7) by simp
  have v: "readValue env dec owner d (fr_left st) = Inr (v, ?y)" using Cons.hyps(1) l by simp
  let ?st = "st\<lparr>fr_left := ?y, fr_cur := 0\<rparr>"
  have p: "positioned ?st ?y" using Cons.prems(6) by (simp add: positioned_def)
  show ?case
  proof (cases "vs = []")
    case True
    with Cons.hyps(2) have bs: "bs = []" by simp
    then have y: "?y = x" by simp
    with peek_before [of ?st x "fd_number d"] p Cons.prems(2) obtain st' where "peek ?st = Inr st'" "positioned st' x" "fr_cur st' = 0 \<or> fd_number d < fr_cur st'"
      by auto
    with v True Cons.prems(3) bs show ?thesis by (subst readRepeated.simps) auto
  next
    case False
    with Cons.hyps(2) obtain c cs where bs: "bs = c # cs" by (cases bs) auto
    have y: "?y = ?n @ (c @ concat (map (\<lambda>b. ?n @ b) cs) @ x)" by (simp add: bs)
    then have "peek ?st = Inr (?st\<lparr>fr_left := c @ concat (map (\<lambda>b. ?n @ b) cs) @ x, fr_curStart := ?y, fr_cur := fd_number d\<rparr>)" (is "_ = Inr ?st'")
      using peek_number [of ?st "fd_number d" "c @ concat (map (\<lambda>b. ?n @ b) cs) @ x"] Cons.prems(3,4,6) y by simp
    moreover have "readRepeated env dec owner d ?st' = readRepeated env dec owner d (?st'\<lparr>fr_cur := 0\<rparr>)"
      by (subst (1 2) readRepeated.simps) simp
    moreover obtain st2 where "readRepeated env dec owner d (?st'\<lparr>fr_cur := 0\<rparr>) = Inr (vs, st2)" "positioned st2 x"
      using Cons.IH [of "?st'\<lparr>fr_cur := 0\<rparr>"] False Cons.prems by (auto simp: bs)
    ultimately show ?thesis using v by (subst readRepeated.simps) simp
  qed
qed simp

text \<open>What is set for a field, and the bytes written for it.\<close>

definition present :: "wire_node \<Rightarrow> field_desc \<Rightarrow> (string \<times> wvalue) list" where
  "present n d = (case fieldOf n (fd_name d) of None \<Rightarrow> [] | Some v \<Rightarrow> [(fd_name d, v)])"

lemma present_names: "fst ` set (present n d) \<subseteq> {fd_name d}"
  by (auto simp: present_def split: option.splits)

definition opensWith :: "nat \<Rightarrow> bytes \<Rightarrow> bool" where
  "opensWith n b \<longleftrightarrow> b = [] \<or> (\<exists>y. b = writeUvarint (int n) @ y)"

lemma later_opens: "opensWith n b \<Longrightarrow> later m x \<Longrightarrow> m < n \<Longrightarrow> n \<le> 32 \<Longrightarrow> later m (b @ x)"
  by (auto simp: opensWith_def later_number)

lemma setField_new: "k \<notin> fst ` set fs \<Longrightarrow> setField k v fs = fs @ [(k, v)]"
  unfolding setField_def by (induction fs) auto

lemma pushField_new: "k \<notin> fst ` set fs \<Longrightarrow> pushField k vs fs = fs @ [(k, WList vs)]"
  using map_of_eq_None_iff [of fs k] by (simp add: pushField_def setField_new)

lemma fits_node: "fits ok env c d (WNode m) \<Longrightarrow> ok m"
  by (auto simp: fits_def split: kind.splits)

lemma writeFields_written:
  assumes "list_all (fits (okNode env) env owner d) vs" and "\<And>m. WNode m \<in> set vs \<Longrightarrow> okNode env m \<Longrightarrow> reads env m"
  shows "\<exists>bs. mapE (writeField (encodeNode env {}) d) vs = Inr (map (\<lambda>b. writeUvarint (int (fd_number d)) @ b) bs) \<and>
    list_all2 (\<lambda>v b. \<forall>r. readValue env (decodeObject env) owner d (b @ r) = Inr (v, r)) vs bs"
  using assms
proof (induction vs)
  case (Cons v vs)
  then obtain bs where bs: "mapE (writeField (encodeNode env {}) d) vs = Inr (map (\<lambda>b. writeUvarint (int (fd_number d)) @ b) bs)"
    "list_all2 (\<lambda>v b. \<forall>r. readValue env (decodeObject env) owner d (b @ r) = Inr (v, r)) vs bs" by auto
  obtain b where "writeField (encodeNode env {}) d v = Inr (writeUvarint (int (fd_number d)) @ b)"
    "\<forall>r. readValue env (decodeObject env) owner d (b @ r) = Inr (v, r)"
    using written_field [of "okNode env" env owner d v] Cons.prems fits_node by fastforce
  with bs show ?case by (intro exI [of _ "b # bs"]) simp
qed simp

lemma readPlain_written:
  assumes ok: "fieldOk (okNode env) env n d" and ih: "\<And>m. size m < size n \<Longrightarrow> okNode env m \<Longrightarrow> reads env m"
    and num: "1 \<le> fd_number d" "fd_number d \<le> 32"
  shows "\<exists>b. encodePlain env (encodeNode env {}) n {} d = Inr b \<and> opensWith (fd_number d) b \<and> (b = [] \<longrightarrow> present n d = []) \<and>
    (\<forall>st x fs. positioned st (b @ x) \<longrightarrow> later (fd_number d) x \<longrightarrow> fd_name d \<notin> fst ` set fs \<longrightarrow>
      (\<exists>st'. readPlain env (decodeObject env) (cls n) d (st, fs) = Inr (st', fs @ present n d) \<and> positioned st' x))"
proof (cases "fieldOf n (fd_name d)")
  case None
  with ok have "encodePlain env (encodeNode env {}) n {} d = Inr []" by (auto simp: encodePlain_def fieldOk_def)
  moreover have "\<exists>st'. readPlain env (decodeObject env) (cls n) d (st, fs) = Inr (st', fs @ present n d) \<and> positioned st' x"
    if "positioned st x" "later (fd_number d) x" for st x fs
    using arrive_absent [OF that num(1)] None by (auto simp: readPlain_def present_def)
  ultimately show ?thesis using None by (auto simp: opensWith_def present_def)
next
  case (Some v)
  let ?num = "writeUvarint (int (fd_number d))"
  define vs where "vs = (if fd_repeatable d then itemsIn v else [v])"
  have vs: "vs \<noteq> []" "list_all (fits (okNode env) env (cls n) d) vs" "filter (\<lambda>x. \<not> left_out env (cls n) d x) vs = vs"
    using ok Some by (auto simp: vs_def fieldOk_def left_out_def filter_id_conv split: if_splits)
  have "reads env m" if "WNode m \<in> set vs" "okNode env m" for m
    using that ih item_size [OF Some] field_value_size Some by (auto simp: vs_def split: if_splits)
  then obtain bs where bs: "mapE (writeField (encodeNode env {}) d) vs = Inr (map (\<lambda>b. ?num @ b) bs)"
    and rd: "list_all2 (\<lambda>v b. \<forall>r. readValue env (decodeObject env) (cls n) d (b @ r) = Inr (v, r)) vs bs"
    using writeFields_written [OF vs(2)] by blast
  let ?b = "concat (map (\<lambda>b. ?num @ b) bs)"
  have e: "encodePlain env (encodeNode env {}) n {} d = Inr ?b" using Some bs vs(3) by (simp add: encodePlain_def vs_def [symmetric])
  from vs(1) rd obtain b0 bs0 where b0: "bs = b0 # bs0" by (cases bs) auto
  have "\<exists>st'. readPlain env (decodeObject env) (cls n) d (st, fs) = Inr (st', fs @ present n d) \<and> positioned st' x"
    if p: "positioned st (?b @ x)" and l: "later (fd_number d) x" and f: "fd_name d \<notin> fst ` set fs" for st x fs
  proof -
    let ?y = "b0 @ concat (map (\<lambda>b. ?num @ b) bs0) @ x"
    from p have "positioned st (?num @ ?y)" by (simp add: b0)
    from arrive_here [OF this num] obtain st1 where st1: "arrive (fd_number d) st = Inr (True, st1)" "fr_left st1 = ?y" "\<not> fr_ended st1" by blast
    show ?thesis
    proof (cases "fd_repeatable d")
      case True
      have "\<exists>st'. readRepeated env (decodeObject env) (cls n) d (st1\<lparr>fr_cur := 0\<rparr>) = Inr (vs, st') \<and> positioned st' x"
        using rd vs(1) l num by (rule readRepeated_written) (simp_all add: st1 b0)
      moreover have "v = WList vs" using ok Some True by (simp add: fieldOk_def vs_def)
      ultimately show ?thesis using st1(1) True f Some by (auto simp: readPlain_def present_def pushField_new)
    next
      case False
      with rd have "readValue env (decodeObject env) (cls n) d (b0 @ x) = Inr (v, x)" "bs0 = []" by (auto simp: vs_def b0)
      moreover have "v \<noteq> WNull \<and> \<not> (fd_kind d = KBigint \<and> equalsZero env (cls n) d v)" using ok Some False by (simp add: fieldOk_def)
      moreover have "positioned (st1\<lparr>fr_left := x, fr_cur := 0\<rparr>) x" using st1(3) by (simp add: positioned_def)
      ultimately show ?thesis using st1(1,2) False f Some by (auto simp: readPlain_def present_def setField_new)
    qed
  qed
  moreover have "?b \<noteq> []" using num(2) by (simp add: b0 writeUvarint_small)
  ultimately show ?thesis using e by (intro exI [of _ ?b]) (auto simp: opensWith_def b0)
qed

section \<open>Lists of fields\<close>

text \<open>What the bytes of several fields promise to the reader before and behind them.\<close>

definition leads :: "(nat \<Rightarrow> bool) \<Rightarrow> bytes \<Rightarrow> bool" where
  "leads below b \<longleftrightarrow> (\<forall>m x. below m \<longrightarrow> later m x \<longrightarrow> later m (b @ x)) \<and> (b \<noteq> [] \<longrightarrow> b ! 0 \<noteq> 0x80)"

lemma leads_Nil: "leads P []"
  by (simp add: leads_def)

lemma leads_Cons:
  assumes "opensWith k b" and "k \<le> 32" and "leads P c" and "\<And>m. Q m \<Longrightarrow> m < k \<and> P m"
  shows "leads Q (b @ c)"
proof -
  have "(b @ c) ! 0 \<noteq> 0x80" if "b @ c \<noteq> []"
    using assms(1) that assms(3) number_not_empty [OF assms(2)] by (cases "b = []") (auto simp: opensWith_def leads_def)
  with assms show ?thesis by (auto simp: leads_def intro: later_opens)
qed

lemma disjoint_extend: "g \<subseteq> f \<union> {k} \<Longrightarrow> k \<notin> a \<Longrightarrow> insert k a \<inter> f = {} \<Longrightarrow> a \<inter> g = {}"
  by blast

lemma disjoint_two: "g \<subseteq> f \<union> h \<Longrightarrow> a \<inter> h = {} \<Longrightarrow> a \<inter> f = {} \<Longrightarrow> a \<inter> g = {}"
  by blast

lemma readPlains_written:
  assumes "goodPlains ds" and "list_all (fieldOk (okNode env) env n) ds" and "distinct (map fd_name ds)"
    and ih: "\<And>m. size m < size n \<Longrightarrow> okNode env m \<Longrightarrow> reads env m"
  shows "\<exists>b. encodePlains env (encodeNode env {}) n {} ds = Inr b \<and> leads (\<lambda>m. \<forall>d\<in>set ds. m < fd_number d) b \<and> (b = [] \<longrightarrow> concat (map (present n) ds) = []) \<and>
    (\<forall>st x fs. positioned st (b @ x) \<longrightarrow> (\<forall>d\<in>set ds. later (fd_number d) x) \<longrightarrow> fd_name ` set ds \<inter> fst ` set fs = {} \<longrightarrow>
      (\<exists>st'. readPlains env (decodeObject env) (cls n) ds (st, fs) = Inr (st', fs @ concat (map (present n) ds)) \<and> positioned st' x))"
  using assms(1-3)
proof (induction ds)
  case Nil
  then show ?case by (auto simp: encodePlains_def leads_Nil)
next
  case (Cons d ds)
  then have g: "goodPlains ds" "1 \<le> fd_number d" "fd_number d \<le> 32" "\<forall>e\<in>set ds. fd_number d < fd_number e" by (auto simp: goodPlains_def)
  obtain b1 where b1: "encodePlain env (encodeNode env {}) n {} d = Inr b1" "opensWith (fd_number d) b1" "b1 = [] \<longrightarrow> present n d = []"
    and r1: "\<And>st x fs. positioned st (b1 @ x) \<Longrightarrow> later (fd_number d) x \<Longrightarrow> fd_name d \<notin> fst ` set fs \<Longrightarrow>
      \<exists>st'. readPlain env (decodeObject env) (cls n) d (st, fs) = Inr (st', fs @ present n d) \<and> positioned st' x"
    using readPlain_written [of env n d] Cons.prems(2) ih g(2,3) by fastforce
  obtain b2 where b2: "encodePlains env (encodeNode env {}) n {} ds = Inr b2" "leads (\<lambda>m. \<forall>d\<in>set ds. m < fd_number d) b2"
      "b2 = [] \<longrightarrow> concat (map (present n) ds) = []"
    and r2: "\<And>st x fs. positioned st (b2 @ x) \<Longrightarrow> \<forall>d\<in>set ds. later (fd_number d) x \<Longrightarrow> fd_name ` set ds \<inter> fst ` set fs = {} \<Longrightarrow>
      \<exists>st'. readPlains env (decodeObject env) (cls n) ds (st, fs) = Inr (st', fs @ concat (map (present n) ds)) \<and> positioned st' x"
    using Cons.IH g(1) Cons.prems(2,3) by fastforce
  have e: "encodePlains env (encodeNode env {}) n {} (d # ds) = Inr (b1 @ b2)"
    using b1(1) b2(1) by (auto simp: encodePlains_def results)
  have "\<exists>st'. readPlains env (decodeObject env) (cls n) (d # ds) (st, fs) = Inr (st', fs @ concat (map (present n) (d # ds))) \<and> positioned st' x"
    if p: "positioned st ((b1 @ b2) @ x)" and l: "\<forall>e\<in>set (d # ds). later (fd_number e) x" and f: "fd_name ` set (d # ds) \<inter> fst ` set fs = {}" for st x fs
  proof -
    have "later (fd_number d) (b2 @ x)" using b2(2) g(4) l by (simp add: leads_def)
    then obtain st1 where st1: "readPlain env (decodeObject env) (cls n) d (st, fs) = Inr (st1, fs @ present n d)" "positioned st1 (b2 @ x)"
      using r1 [of st "b2 @ x" fs] p f by auto
    have "fst ` set (fs @ present n d) \<subseteq> fst ` set fs \<union> {fd_name d}" using present_names [of n d] by auto
    moreover have "fd_name d \<notin> fd_name ` set ds" "insert (fd_name d) (fd_name ` set ds) \<inter> fst ` set fs = {}" using f Cons.prems(3) by simp_all
    ultimately have "fd_name ` set ds \<inter> fst ` set (fs @ present n d) = {}" by (rule disjoint_extend)
    from r2 [OF st1(2) _ this] l obtain st2 where
      "readPlains env (decodeObject env) (cls n) ds (st1, fs @ present n d) = Inr (st2, (fs @ present n d) @ concat (map (present n) ds))" "positioned st2 x"
      by auto
    with st1(1) show ?thesis by simp
  qed
  with e b1(3) b2(3) show ?case
    using leads_Cons [OF b1(2) g(3) b2(2), of "\<lambda>m. \<forall>e\<in>set (d # ds). m < fd_number e"] by auto
qed

lemma flatten_simps [simp]: "flatten [] = []" "flatten (d # ds) = flatDesc d @ flatten ds"
  by (simp_all add: flatten_def)

lemma flat_names: "fst ` set (concat (map (present n) ds)) \<subseteq> fd_name ` set ds"
  using present_names by fastforce

text \<open>One declared field or embedded struct; then all of them.\<close>

lemma readDesc_written:
  assumes "1 \<le> descNumber d" and "descNumber d \<le> 32" and "case d of Plain _ \<Rightarrow> True | Embedded _ es \<Rightarrow> goodPlains es"
    and "list_all (fieldOk (okNode env) env n) (flatDesc d)" and "distinct (map fd_name (flatDesc d))" and "shortEmbedded env n d"
    and ih: "\<And>m. size m < size n \<Longrightarrow> okNode env m \<Longrightarrow> reads env m"
  shows "\<exists>b. encodeDesc env (encodeNode env {}) n {} d = Inr b \<and> opensWith (descNumber d) b \<and>
    (\<forall>st x fs ds. positioned st (b @ x) \<longrightarrow> later (descNumber d) x \<longrightarrow> fd_name ` set (flatDesc d) \<inter> fst ` set fs = {} \<longrightarrow>
      (\<exists>st'. readDescs env (decodeObject env) (cls n) (d # ds) (st, fs) =
         readDescs env (decodeObject env) (cls n) ds (st', fs @ concat (map (present n) (flatDesc d))) \<and> positioned st' x))"
proof (cases d)
  case (Plain p)
  with assms(1,2,4) readPlain_written [of env n p] ih obtain b where b: "encodePlain env (encodeNode env {}) n {} p = Inr b" "opensWith (fd_number p) b"
    and r: "\<And>st x fs. positioned st (b @ x) \<Longrightarrow> later (fd_number p) x \<Longrightarrow> fd_name p \<notin> fst ` set fs \<Longrightarrow>
      \<exists>st'. readPlain env (decodeObject env) (cls n) p (st, fs) = Inr (st', fs @ present n p) \<and> positioned st' x" by fastforce
  have "\<exists>st'. readDescs env (decodeObject env) (cls n) (d # ds) (st, fs) =
      readDescs env (decodeObject env) (cls n) ds (st', fs @ concat (map (present n) (flatDesc d))) \<and> positioned st' x"
    if "positioned st (b @ x)" "later (descNumber d) x" "fd_name ` set (flatDesc d) \<inter> fst ` set fs = {}" for st x fs ds
    using r [of st x fs] that Plain by auto
  with b Plain show ?thesis by (intro exI [of _ b]) auto
next
  case (Embedded k es)
  with assms readPlains_written [of es env n] obtain b where b: "encodePlains env (encodeNode env {}) n {} es = Inr b"
    "leads (\<lambda>m. \<forall>d\<in>set es. m < fd_number d) b" and none: "b = [] \<longrightarrow> concat (map (present n) es) = []"
    and r: "\<And>st x fs. positioned st (b @ x) \<Longrightarrow> \<forall>d\<in>set es. later (fd_number d) x \<Longrightarrow> fd_name ` set es \<inter> fst ` set fs = {} \<Longrightarrow>
      \<exists>st'. readPlains env (decodeObject env) (cls n) es (st, fs) = Inr (st', fs @ concat (map (present n) es)) \<and> positioned st' x" by fastforce
  let ?w = "writeUvarint (int k) @ writeBytes (orEmptyObject b)"
  have len: "length (orEmptyObject b) < 2 ^ 24" using assms(6) Embedded b(1) by (simp add: shortEmbedded_def orEmptyObject_def)
  have "\<exists>st'. readDescs env (decodeObject env) (cls n) (d # ds) (st, fs) =
      readDescs env (decodeObject env) (cls n) ds (st', fs @ concat (map (present n) (flatDesc d))) \<and> positioned st' x"
    if p: "positioned st (?w @ x)" and l: "later (descNumber d) x" and f: "fd_name ` set (flatDesc d) \<inter> fst ` set fs = {}" for st x fs ds
  proof -
    from p have "positioned st (writeUvarint (int k) @ writeBytes (orEmptyObject b) @ x)" by simp
    from arrive_here [OF this] assms(1,2) Embedded obtain st1 where
      st1: "arrive k st = Inr (True, st1)" "fr_left st1 = writeBytes (orEmptyObject b) @ x" "\<not> fr_ended st1" by auto
    have rb: "rdBytes (fr_left st1) = Inr (orEmptyObject b, x)" using rdBytes_write [OF len] st1(2) by simp
    have st2: "positioned (st1\<lparr>fr_left := x, fr_cur := 0\<rparr>) x" using st1(3) by (simp add: positioned_def)
    show ?thesis
    proof (cases "b = []")
      case True
      with none have c: "concat (map (present n) es) = []" by blast
      from True st1(1) rb st2 show ?thesis by (auto simp: Embedded orEmptyObject_def c)
    next
      case False
      then have "b ! 0 \<noteq> 0x80" "orEmptyObject b = b" using b(2) by (simp_all add: leads_def orEmptyObject_def)
      moreover have "positioned (fieldReader b) (b @ [])" by (simp add: positioned_def fieldReader_def)
      then obtain st3 where "readPlains env (decodeObject env) (cls n) es (fieldReader b, fs) = Inr (st3, fs @ concat (map (present n) es))"
        using r [of "fieldReader b" "[]" fs] f Embedded by (auto simp: later_def)
      ultimately show ?thesis using st1(1) rb st2 by (auto simp: Embedded)
    qed
  qed
  with b Embedded show ?thesis by (intro exI [of _ ?w]) (auto simp: opensWith_def)
qed

lemma readDescs_written:
  assumes "sorted_wrt (<) (map descNumber ds)" and "\<forall>d\<in>set ds. 1 \<le> descNumber d \<and> descNumber d \<le> 32"
    and "\<forall>d\<in>set ds. case d of Plain _ \<Rightarrow> True | Embedded _ es \<Rightarrow> goodPlains es" and "distinct (map fd_name (flatten ds))"
    and "list_all (fieldOk (okNode env) env n) (flatten ds)" and "list_all (shortEmbedded env n) ds"
    and ih: "\<And>m. size m < size n \<Longrightarrow> okNode env m \<Longrightarrow> reads env m"
  shows "\<exists>b. encodeFields env (encodeNode env {}) n {} ds = Inr b \<and> leads (\<lambda>m. \<forall>d\<in>set ds. m < descNumber d) b \<and>
    (\<forall>st x fs. positioned st (b @ x) \<longrightarrow> (\<forall>d\<in>set ds. later (descNumber d) x) \<longrightarrow> fd_name ` set (flatten ds) \<inter> fst ` set fs = {} \<longrightarrow>
      (\<exists>st'. readDescs env (decodeObject env) (cls n) ds (st, fs) = Inr (st', fs @ concat (map (present n) (flatten ds))) \<and> positioned st' x))"
  using assms(1-6)
proof (induction ds)
  case Nil
  then show ?case by (auto simp: encodeFields_def leads_Nil)
next
  case (Cons d ds)
  then have g: "1 \<le> descNumber d" "descNumber d \<le> 32" "\<forall>e\<in>set ds. descNumber d < descNumber e" by auto
  obtain b1 where b1: "encodeDesc env (encodeNode env {}) n {} d = Inr b1" "opensWith (descNumber d) b1"
    and r1: "\<And>st x fs ds. positioned st (b1 @ x) \<Longrightarrow> later (descNumber d) x \<Longrightarrow> fd_name ` set (flatDesc d) \<inter> fst ` set fs = {} \<Longrightarrow>
      \<exists>st'. readDescs env (decodeObject env) (cls n) (d # ds) (st, fs) =
         readDescs env (decodeObject env) (cls n) ds (st', fs @ concat (map (present n) (flatDesc d))) \<and> positioned st' x"
    using readDesc_written [of d env n] Cons.prems ih g(1,2) by fastforce
  obtain b2 where b2: "encodeFields env (encodeNode env {}) n {} ds = Inr b2" "leads (\<lambda>m. \<forall>d\<in>set ds. m < descNumber d) b2"
    and r2: "\<And>st x fs. positioned st (b2 @ x) \<Longrightarrow> \<forall>d\<in>set ds. later (descNumber d) x \<Longrightarrow> fd_name ` set (flatten ds) \<inter> fst ` set fs = {} \<Longrightarrow>
      \<exists>st'. readDescs env (decodeObject env) (cls n) ds (st, fs) = Inr (st', fs @ concat (map (present n) (flatten ds))) \<and> positioned st' x"
    using Cons.IH Cons.prems by fastforce
  have e: "encodeFields env (encodeNode env {}) n {} (d # ds) = Inr (b1 @ b2)"
    using b1(1) b2(1) by (auto simp: encodeFields_def results)
  have "\<exists>st'. readDescs env (decodeObject env) (cls n) (d # ds) (st, fs) = Inr (st', fs @ concat (map (present n) (flatten (d # ds)))) \<and> positioned st' x"
    if p: "positioned st ((b1 @ b2) @ x)" and l: "\<forall>e\<in>set (d # ds). later (descNumber e) x"
      and f: "fd_name ` set (flatten (d # ds)) \<inter> fst ` set fs = {}" for st x fs
  proof -
    let ?fs = "fs @ concat (map (present n) (flatDesc d))"
    have "later (descNumber d) (b2 @ x)" using b2(2) g(3) l by (simp add: leads_def)
    moreover have "fd_name ` set (flatDesc d) \<inter> fst ` set fs = {}" using f by auto
    ultimately obtain st1 where st1: "readDescs env (decodeObject env) (cls n) (d # ds) (st, fs) = readDescs env (decodeObject env) (cls n) ds (st1, ?fs)"
      "positioned st1 (b2 @ x)" using r1 [of st "b2 @ x" fs ds] p by auto
    have "fst ` set ?fs \<subseteq> fst ` set fs \<union> fd_name ` set (flatDesc d)" using flat_names [of n "flatDesc d"] by auto
    moreover have "fd_name ` set (flatten ds) \<inter> fd_name ` set (flatDesc d) = {}" "fd_name ` set (flatten ds) \<inter> fst ` set fs = {}"
      using f Cons.prems(4) by auto
    ultimately have "fd_name ` set (flatten ds) \<inter> fst ` set ?fs = {}" by (rule disjoint_two)
    from r2 [OF st1(2) _ this] l obtain st2 where
      "readDescs env (decodeObject env) (cls n) ds (st1, ?fs) = Inr (st2, ?fs @ concat (map (present n) (flatten ds)))" "positioned st2 x" by auto
    with st1(1) show ?thesis by simp
  qed
  with e show ?case
    using leads_Cons [OF b1(2) g(2) b2(2), of "\<lambda>m. \<forall>e\<in>set (d # ds). m < descNumber e"] by auto
qed

section \<open>Nodes\<close>

lemma node_fields:
  assumes "distinct (map fst (nodeFields n))" and "map fst (nodeFields n) = filter (\<lambda>x. fieldOf n x \<noteq> None) (map fd_name ds)"
  shows "concat (map (present n) ds) = nodeFields n"
proof -
  have "concat (map (present n) ds) = map (\<lambda>x. (x, the (fieldOf n x))) (filter (\<lambda>x. fieldOf n x \<noteq> None) (map fd_name ds))" for ds
    by (induction ds) (auto simp: present_def split: option.splits)
  also have "\<dots> ds = map (\<lambda>p. (fst p, the (fieldOf n (fst p)))) (nodeFields n)" unfolding assms(2) [symmetric] by (simp add: comp_def)
  also have "\<dots> = nodeFields n"
    by (rule map_idI) (use assms(1) in \<open>auto simp: fieldOf_def map_of_is_SomeI\<close>)
  finally show ?thesis .
qed

lemma be16_u16: "n < 2 ^ 16 \<Longrightarrow> be16 (of_nat (n div 256)) (of_nat n) = n"
  by (simp add: be16_def unat_of_nat)

lemma parseExtIds_written: "\<forall>e\<in>set es. length e < 2 ^ 16 \<Longrightarrow> parseExtIds (concat (map (\<lambda>e. u16 (length e) @ e) es)) = Inr es"
proof (induction es)
  case (Cons e es)
  then have "be16 (of_nat (length e div 256)) (of_nat (length e)) = length e" by (simp add: be16_u16)
  with Cons show ?case by (subst parseExtIds.simps) (simp add: u16_def)
qed (simp add: parseExtIds.simps)

lemma marshalled_entry:
  assumes "length a = 32" and "\<not> list_all (\<lambda>x. x = 0) a" and "length (concat (map (\<lambda>e. u16 (length e) @ e) es)) < 2 ^ 16"
  shows "\<exists>b. marshalFactomEntry a x es = Inr b \<and> parseFactomEntry b = Inr (a, x, es) \<and> length b = 35 + length (concat (map (\<lambda>e. u16 (length e) @ e) es)) + length x"
proof -
  let ?ex = "concat (map (\<lambda>e. u16 (length e) @ e) es)"
  have "length e \<le> length ?ex" if "e \<in> set es" for e
    using that by (induction es) auto
  then have p: "parseExtIds ?ex = Inr es" using assms(3) by (intro parseExtIds_written) fastforce
  have one: "length ?ex \<noteq> 1" by (cases es) (simp_all add: u16_def)
  let ?b = "0 # a @ u16 (length ?ex) @ ?ex @ x"
  have b: "?b ! 33 = of_nat (length ?ex div 256)" "?b ! 34 = of_nat (length ?ex)" "drop 35 ?b = ?ex @ x" "take 32 (drop 1 ?b) = a"
    using assms(1) by (simp_all add: nth_append u16_def)
  have t: "be16 (?b ! 33) (?b ! 34) = length ?ex" unfolding b(1,2) using assms(3) by (rule be16_u16)
  have "parseFactomEntry ?b = Inr (a, x, es)"
    unfolding parseFactomEntry_def Let_def t b(3,4) using assms(1) one p by (simp add: u16_def)
  moreover have "a \<noteq> []" using assms(1) by auto
  ultimately show ?thesis using assms(1,2) by (simp add: marshalFactomEntry_def Let_def u16_def)
qed

lemma bytesIn_map: "bytesIn (map WBytes es) = es"
  by (induction es) simp_all

lemma uv_one: "rdUvarint (writeUvarint 1 @ r) = Inr (1, r)" "rdUvarint (writeUvarint 2 @ r) = Inr (2, r)"
  using rdUvarint_nat [of 1 r] rdUvarint_nat [of 2 r] by simp_all

lemma okFactom_reads:
  assumes "okFactom n"
  shows "reads env n"
proof -
  have c: "cls n = FACTOM" using assms by (simp add: okFactom_def)
  have head: "(writeUvarint 1 @ r) ! 0 \<noteq> 0x80" "writeUvarint 1 @ r \<noteq> []" for r
    using number_not_empty [of 1 r] writeUvarint_small [of 1] by simp_all
  show ?thesis
  proof (cases "isEmpty n")
    case True
    with assms c show ?thesis by (cases n) (auto simp: okFactom_def reads_def encodeNode.simps decodeObject.simps decodeFactom_def)
  next
    case False
    show ?thesis
    proof (cases "length (nodeFields n) = 1")
      case True
      with assms False have f: "nodeFields n = [(''type'', WBig 1)]" and l: "later 2 (extra n)" by (auto simp: okFactom_def)
      have e: "encodeNode env {} n = Inr (writeUvarint 1 @ writeUvarint 1 @ extra n)"
        using c False f by (simp add: encodeNode.simps encodeFactom_def fieldOf_def)
      have "extra n = [] \<or> (\<exists>k r. rdUvarint (extra n) = Inr (k, r) \<and> (k = 0 \<or> 2 < k \<and> k \<le> 32))"
        using l by (auto simp: later_def split: sum.splits)
      then have "decodeFactom (writeUvarint 1 @ writeUvarint 1 @ extra n) = Inr (Node FACTOM [(''type'', WBig 1)] (extra n) False)"
        using head [of "writeUvarint 1 @ extra n"] by (auto simp: decodeFactom_def uv_one)
      moreover have "n = Node FACTOM [(''type'', WBig 1)] (extra n) False" using c f False by (cases n) simp
      ultimately show ?thesis using e c by (simp add: reads_def decodeObject.simps)
    next
      case long: False
      let ?a = "bytesField n ''accountId''" and ?x = "bytesField n ''data''" and ?es = "factomExtIds n"
      from assms False long have f: "nodeFields n = [(''type'', WBig 1), (''accountId'', WBytes ?a), (''data'', WBytes ?x), (''extIds'', WList (map WBytes ?es))]"
        and a: "length ?a = 32" "\<not> list_all (\<lambda>x. x = 0) ?a" "length (concat (map (\<lambda>e. u16 (length e) @ e) ?es)) < 2 ^ 16" "length ?x < 2 ^ 23"
        by (auto simp: okFactom_def)
      obtain b where b: "marshalFactomEntry ?a ?x ?es = Inr b" "parseFactomEntry b = Inr (?a, ?x, ?es)" "length b < 2 ^ 24"
        using marshalled_entry [OF a(1-3), of ?x] a(3,4) by auto
      have ff: "fieldOf n ''accountId'' \<noteq> None" by (subst fieldOf_def, subst f) simp
      have e: "encodeNode env {} n = Inr (writeUvarint 1 @ writeUvarint 1 @ writeUvarint 2 @ writeBytes b @ extra n)"
        using c False ff b(1) by (simp add: encodeNode.simps encodeFactom_def factomExtIds_def [symmetric])
      have ne: "writeUvarint 2 @ y \<noteq> []" for y using writeUvarint_small [of 2] by simp
      have "decodeFactom (writeUvarint 1 @ writeUvarint 1 @ writeUvarint 2 @ writeBytes b @ extra n) = Inr (Node FACTOM
          [(''type'', WBig 1), (''accountId'', WBytes ?a), (''data'', WBytes ?x), (''extIds'', WList (map WBytes ?es))] (extra n) False)"
        using head [of "writeUvarint 1 @ writeUvarint 2 @ writeBytes b @ extra n"] ne b(2)
        by (simp add: decodeFactom_def uv_one rdBytes_write [OF b(3)])
      moreover have "n = Node FACTOM (nodeFields n) (extra n) False" using c False by (cases n) simp
      ultimately show ?thesis using e c f unfolding reads_def by (simp add: decodeObject.simps)
    qed
  qed
qed

lemma last_largest: "sorted_wrt (<) (map (f :: 'a \<Rightarrow> nat) ds) \<Longrightarrow> d \<in> set ds \<Longrightarrow> f d \<le> f (last ds)"
  by (induction ds) (auto split: if_splits intro: less_imp_le)

lemma okNode_reads: "okNode env n \<Longrightarrow> reads env n"
proof (induction n rule: measure_induct_rule [of size])
  case (less n)
  show ?case
  proof (cases "okFactom n")
    case False
    with less.prems have "okWith (okNode env) env n" by (simp add: okNode.simps [of env n])
    then obtain ds where c: "cls n \<noteq> FACTOM" "fieldsOf env (cls n) = Inr ds" "goodDescs ds" "distinct (map fst (nodeFields n))"
      "map fst (nodeFields n) = filter (\<lambda>x. fieldOf n x \<noteq> None) (map fd_name (flatten ds))" "list_all (fieldOk (okNode env) env n) (flatten ds)"
      "list_all (shortEmbedded env n) ds" "ds \<noteq> [] \<longrightarrow> later (descNumber (last ds)) (extra n)" "emptiness env n ds"
      unfolding okWith_def by (auto split: sum.splits)
    obtain b where b: "encodeFields env (encodeNode env {}) n {} ds = Inr b" "leads (\<lambda>m. \<forall>d\<in>set ds. m < descNumber d) b"
      and r: "\<And>st x fs. positioned st (b @ x) \<Longrightarrow> \<forall>d\<in>set ds. later (descNumber d) x \<Longrightarrow> fd_name ` set (flatten ds) \<inter> fst ` set fs = {} \<Longrightarrow>
        \<exists>st'. readDescs env (decodeObject env) (cls n) ds (st, fs) = Inr (st', fs @ concat (map (present n) (flatten ds))) \<and> positioned st' x"
      using readDescs_written [of ds env n] c(3,6,7) less.IH unfolding goodDescs_def by fastforce
    have e: "encodeNode env {} n = Inr (orEmptyObject b @ extra n)" using c(1,2) b(1) by (simp add: encodeNode.simps)
    show ?thesis
    proof (cases "b = []")
      case True
      with c(9) b(1) have "isEmpty n" "nodeFields n = []" "extra n = []" by (simp_all add: emptiness_def)
      with True e c(1,2) show ?thesis by (cases n) (simp add: reads_def decodeObject.simps orEmptyObject_def)
    next
      case False
      with c(9) b(1) have ie: "\<not> isEmpty n" by (simp add: emptiness_def)
      have "ds \<noteq> []" using b(1) False by (auto simp: encodeFields_def)
      then have "descNumber d \<le> descNumber (last ds)" if "d \<in> set ds" for d
        using c(3) that unfolding goodDescs_def by (intro last_largest) simp_all
      then have l: "\<forall>d\<in>set ds. later (descNumber d) (extra n)" using c(8) \<open>ds \<noteq> []\<close> later_mono by blast
      have "positioned (fieldReader (b @ extra n)) (b @ extra n)" by (simp add: positioned_def fieldReader_def)
      from r [OF this l, of "[]"] obtain st where st: "positioned st (extra n)"
        "readDescs env (decodeObject env) (cls n) ds (fieldReader (b @ extra n), []) = Inr (st, nodeFields n)"
        using node_fields [OF c(4,5)] by auto
      have "b ! 0 \<noteq> 0x80" using b(2) False by (simp add: leads_def)
      with False have "decodeObject env (cls n) (b @ extra n) = Inr (Node (cls n) (nodeFields n) (extra n) False)"
        using c(1,2) st(2) restOf_before [OF st(1)] by (subst decodeObject.simps) (simp add: nth_append readFields_def)
      moreover have "n = Node (cls n) (nodeFields n) (extra n) False" using ie by (cases n) simp
      ultimately show ?thesis using e False by (simp add: reads_def orEmptyObject_def)
    qed
  qed (rule okFactom_reads)
qed

section \<open>Properties\<close>

text \<open>
  C22. The writer and the decoder of Accumulate's binary encoding are inverse: a node whose members have their fields' kinds and ranges, with zero values
  left out, is written to bytes from which the decoder gives back the same node, nested objects, unions, embedded structs, repeated fields, extra data
  and Factom entries included.
\<close>

theorem codec_roundtrip:
  assumes "okNode env n"
  shows "\<exists>b. encodeNode env {} n = Inr b \<and> decodeObject env (cls n) b = Inr n"
  using okNode_reads [OF assms] unfolding reads_def .

text \<open>An SDK class with an embedded struct, and a receipt in one of its fields.\<close>

definition sampleEnv :: codec_env where
  "sampleEnv = \<lparr>ce_class = (\<lambda>c. if c = ''Sample'' then Some (Some [
        SdkField 3 ''receipts'' KReference True False None [],
        SdkField 1 ''count'' KUint False False None [],
        SdkField 2 [] KBytes False False None [SdkField 1 ''memo'' KString False False None []]]) else None),
     ce_union = (\<lambda>_. None), ce_hashAlgorithm = (\<lambda>_. True), ce_executorVersion = (\<lambda>_. True), ce_voteType = (\<lambda>_. True), ce_dataEntryType = (\<lambda>_. True),
     ct_schema = (\<lambda>c. if c = ''Sample'' then Some [(''receipts'', ''merkle.Receipt[]'')] else None), ct_valueStructs = (\<lambda>_. []),
     ct_valueBigints = (\<lambda>_. []), ct_transactionBodies = [], ct_transactionTypes = (\<lambda>_. None)\<rparr>"

definition sampleNode :: wire_node where
  "sampleNode = Node ''Sample'' [(''count'', WBig 300), (''memo'', WText ''hi''), (''receipts'', WList [
     WNode (Node ''merkle.Receipt'' [(''startIndex'', WBig (- 3)), (''entries'', WList [
       WNode (Node ''merkle.ReceiptEntry'' [(''right'', WBool True), (''hash'', WBytes [1, 2])] [] False), WNode (Node ''merkle.ReceiptEntry'' [] [] True)])] [] False)])]
     [5, 7] False"

lemma sample_ok: "okNode sampleEnv sampleNode"
  by code_simp

theorem codec_roundtrip_witness: "\<exists>b. encodeNode sampleEnv {} sampleNode = Inr b \<and> decodeObject sampleEnv ''Sample'' b = Inr sampleNode"
  using codec_roundtrip [OF sample_ok] by (simp add: sampleNode_def)

end
