(* ===== verification/Gate.thy ===== *)
theory Gate
  imports Text Merkle
begin

text \<open>
  The executor-version gate: \<open>packages/verify/src/sigtypes/gate.ts\<close>. A gated signature is one the executor verified under a rule that holds only from
  an executor version on; the pinned table proves a version for the blocks after a partition's activation, and nothing before. A block of a \<open>Where\<close> is
  an \<open>int\<close> (a number or a bigint), and an absent \<open>Where\<close> is \<open>None\<close>. \<open>H\<close> is SHA-256; the name of a network is ASCII.
\<close>

section \<open>The pinned activations\<close>

definition V2Baikonur :: int where "V2Baikonur = 6"
definition V2Vandenberg :: int where "V2Vandenberg = 7"
definition V2Jiuquan :: int where "V2Jiuquan = 8"
definition V2Kourou :: int where "V2Kourou = 9"

definition versionName :: "int \<Rightarrow> string" where
  "versionName v =
     (if v = V2Baikonur then ''v2-baikonur'' else if v = V2Vandenberg then ''v2-vandenberg'' else if v = V2Jiuquan then ''v2-jiuquan''
      else if v = V2Kourou then ''v2-kourou'' else ''version '' @ decInt v)"

record activation =
  ac_version :: int
  ac_block :: int

definition KERMIT_ACTIVATIONS :: "(string \<times> activation) list" where
  "KERMIT_ACTIVATIONS =
     [(''directory'', \<lparr>ac_version = V2Kourou, ac_block = 9538105\<rparr>), (''bvn1'', \<lparr>ac_version = V2Kourou, ac_block = 12491272\<rparr>),
      (''bvn2'', \<lparr>ac_version = V2Kourou, ac_block = 12492057\<rparr>), (''bvn3'', \<lparr>ac_version = V2Kourou, ac_block = 12491127\<rparr>)]"

definition normalizePartition :: "string \<Rightarrow> string" where
  "normalizePartition p =
     (let s = goLower (goTrimSpace p) in if s = ''dn'' \<or> s = ''directory'' \<or> s = ''dn.acme'' then ''directory'' else s)"

definition activationOf :: "string \<Rightarrow> activation option" where
  "activationOf part = map_of KERMIT_ACTIVATIONS part"

definition executorFloor :: "string \<Rightarrow> int \<Rightarrow> int option" where
  "executorFloor part block =
     (case activationOf (normalizePartition part) of
        None \<Rightarrow> None
      | Some a \<Rightarrow> if block \<le> ac_block a then None else Some (ac_version a))"

section \<open>The gate\<close>

datatype eth_rule = NoRule | V2RSV | V1DER

definition requiredVersion :: "string \<Rightarrow> eth_rule \<Rightarrow> int" where
  "requiredVersion typeName rule =
     (if typeName = ''rsaSha256'' \<or> typeName = ''ecdsaSha256'' \<or> typeName = ''typedData'' then V2Vandenberg
      else if typeName = ''eth'' then (if rule = V2RSV then V2Baikonur else 0)
      else 0)"

datatype gate_error =
    ExecutorVersionUnproven string string int string int
  | ExecutorGateNotMet string string int string

definition checkExecutorGate :: "string \<Rightarrow> eth_rule \<Rightarrow> (string \<times> int) option \<Rightarrow> gate_error + unit" where
  "checkExecutorGate typeName rule loc =
     (let part = normalizePartition (case loc of None \<Rightarrow> [] | Some (p, _) \<Rightarrow> p);
          block = (case loc of None \<Rightarrow> 0 | Some (_, b) \<Rightarrow> b);
          need = requiredVersion typeName rule;
          floor = executorFloor part block
      in
        if typeName = ''eth'' \<and> rule = V1DER then
          (case floor of
             Some v \<Rightarrow> if v \<ge> V2Baikonur then Inl (ExecutorGateNotMet ''eth(der)'' part block (versionName v)) else Inr ()
           | None \<Rightarrow> Inr ())
        else if need = 0 then Inr ()
        else (case floor of
                None \<Rightarrow>
                  Inl (ExecutorVersionUnproven typeName part block (versionName need)
                        (case activationOf part of None \<Rightarrow> 0 | Some a \<Rightarrow> ac_block a))
              | Some v \<Rightarrow> if v < need then Inl (ExecutorGateNotMet typeName part block (versionName v)) else Inr ()))"

definition ethChainId :: "(bytes \<Rightarrow> bytes) \<Rightarrow> string \<Rightarrow> int" where
  "ethChainId H networkName =
     (if map lowerChar networkName = ''mainnet'' then 281
      else
        let hash = H (map of_char (map lowerChar networkName));
            n = or (push_bit 8 (uint (hash ! (length hash - 2)))) (uint (hash ! (length hash - 1)))
        in or 281 (push_bit 16 n))"

section \<open>What the gate lets through\<close>

text \<open>The partitions of the table, by any of their spellings, and the block each must be past.\<close>

definition pinnedAt :: "string \<Rightarrow> int \<Rightarrow> bool" where
  "pinnedAt part block \<longleftrightarrow> (\<exists>a. (normalizePartition part, a) \<in> set KERMIT_ACTIVATIONS \<and> ac_block a < block)"

lemma activationOf_Some: "activationOf p = Some a \<longleftrightarrow> (p, a) \<in> set KERMIT_ACTIVATIONS"
proof -
  have "distinct (map fst KERMIT_ACTIVATIONS)" by code_simp
  then show ?thesis by (simp add: activationOf_def map_of_eq_Some_iff)
qed

lemma activation_version: "activationOf p = Some a \<Longrightarrow> ac_version a = V2Kourou"
  by (auto simp: activationOf_def KERMIT_ACTIVATIONS_def split: if_splits)

lemma executorFloor_iff: "executorFloor p b = (if pinnedAt p b then Some V2Kourou else None)"
  by (force simp: executorFloor_def pinnedAt_def activationOf_Some [symmetric] activation_version not_less split: option.splits)

lemma normalize_table: "activationOf p = Some a \<Longrightarrow> normalizePartition p = p"
proof -
  assume "activationOf p = Some a"
  then have "p \<in> set (map fst KERMIT_ACTIVATIONS)" by (force simp: activationOf_Some)
  moreover have "list_all (\<lambda>p. normalizePartition p = p) (map fst KERMIT_ACTIVATIONS)" by code_simp
  ultimately show ?thesis by (auto simp: list_all_iff)
qed

lemma normalizePartition_directory: "normalizePartition ''directory'' = ''directory''"
  by code_simp

end
