(* ===== verification/Curves.thy ===== *)
theory Curves
  imports Der
begin

text \<open>
  The signature algorithms of \<open>packages/verify/src/sigtypes/curves.ts\<close>: which encodings and edge cases reach the arithmetic. The arithmetic of the
  curves is that of packages outside the repository, the parameter record \<open>curve_lib\<close>; the RSA operation is the source's own.
\<close>

section \<open>The packages\<close>

text \<open>
  \<open>cl_edPoint b\<close> is \<open>ed25519.Point.fromBytes(b, true).toBytes()\<close> and \<open>cl_secpPoint b\<close> is \<open>secp256k1.Point.fromBytes(b).toBytes(false)\<close>, \<open>None\<close>
  where they throw; \<open>cl_edEquation s r a k\<close> is the equation of the scalars \<open>s\<close>, \<open>k\<close> and the points decoded from \<open>r\<close>, \<open>a\<close>; a \<open>verify\<close> that throws
  answers \<open>false\<close>, as the source makes it.
\<close>

record curve_lib =
  cl_sha512 :: "bytes \<Rightarrow> bytes"
  cl_edOrder :: nat
  cl_edPoint :: "bytes \<Rightarrow> bytes option"
  cl_edEquation :: "nat \<Rightarrow> bytes \<Rightarrow> bytes \<Rightarrow> nat \<Rightarrow> bool"
  cl_secpP :: nat
  cl_secpN :: nat
  cl_secpPoint :: "bytes \<Rightarrow> bytes option"
  cl_secpVerify :: "bytes \<Rightarrow> bytes \<Rightarrow> bytes \<Rightarrow> bool"
  cl_ecOrder :: "ec_curve \<Rightarrow> nat"
  cl_ecVerify :: "ec_curve \<Rightarrow> bytes \<Rightarrow> bytes \<Rightarrow> bytes \<Rightarrow> bool"

section \<open>Bytes and numbers\<close>

definition toBigLE :: "bytes \<Rightarrow> nat" where
  "toBigLE b = foldl (\<lambda>n x. or (push_bit 8 n) (unat x)) 0 (rev b)"

text \<open>The loop of \<open>fixed\<close>, from the last byte to the first.\<close>

fun fixed :: "nat \<Rightarrow> nat \<Rightarrow> bytes" where
  "fixed n 0 = []"
| "fixed n (Suc len) = fixed (drop_bit 8 n) len @ [of_nat (and n 0xff)]"

section \<open>ed25519\<close>

definition ed25519Verify :: "curve_lib \<Rightarrow> bytes \<Rightarrow> bytes \<Rightarrow> bytes \<Rightarrow> bool" where
  "ed25519Verify lib publicKey message signature =
     (if length publicKey \<noteq> 32 \<or> length signature \<noteq> 64 then False
      else if and (signature ! 63) 224 \<noteq> 0 then False
      else
        let rBytes = take 32 signature; s = toBigLE (drop 32 signature) in
        if s \<ge> cl_edOrder lib then False
        else (case (cl_edPoint lib publicKey, cl_edPoint lib rBytes) of
                (Some a, Some canonical) \<Rightarrow>
                  if take 32 canonical \<noteq> rBytes then False
                  else cl_edEquation lib s rBytes publicKey (toBigLE (cl_sha512 lib (rBytes @ publicKey @ message)) mod cl_edOrder lib)
              | _ \<Rightarrow> False))"

section \<open>secp256k1\<close>

definition secp256k1Point :: "curve_lib \<Rightarrow> bytes \<Rightarrow> bytes option" where
  "secp256k1Point lib key =
     (if length key = 33 then
        (if toBig (drop 1 key) \<ge> cl_secpP lib then None else cl_secpPoint lib (or 0x02 (and (key ! 0) 1) # drop 1 key))
      else if length key = 65 \<and> key ! 0 = 0x04 then cl_secpPoint lib key
      else None)"

definition secp256k1Verify :: "curve_lib \<Rightarrow> bytes \<Rightarrow> bytes \<Rightarrow> nat \<Rightarrow> nat \<Rightarrow> bool" where
  "secp256k1Verify lib point65 hash r s =
     (if r \<le> 0 \<or> s \<le> 0 \<or> r \<ge> cl_secpN lib \<or> s \<ge> cl_secpN lib then False
      else cl_secpVerify lib (fixed r 32 @ fixed s 32) hash point65)"

definition ethVerify :: "curve_lib \<Rightarrow> bytes \<Rightarrow> bytes \<Rightarrow> bytes \<Rightarrow> bool" where
  "ethVerify lib publicKey hash signature =
     (if length signature \<noteq> 64 \<or> length hash \<noteq> 32 then False
      else case secp256k1Point lib publicKey of
             None \<Rightarrow> False
           | Some pt \<Rightarrow> secp256k1Verify lib pt hash (toBig (take 32 signature)) (toBig (drop 32 signature)))"

definition btcVerify :: "curve_lib \<Rightarrow> bytes \<Rightarrow> bytes \<Rightarrow> bytes \<Rightarrow> bool" where
  "btcVerify lib publicKey hash signature =
     (case laxSecp256k1Signature signature of
        None \<Rightarrow> False
      | Some (r, s) \<Rightarrow>
          (case secp256k1Point lib publicKey of
             None \<Rightarrow> False
           | Some pt \<Rightarrow> secp256k1Verify lib pt hash r s))"

section \<open>ECDSA over a PKIX key\<close>

definition curveBytes :: "ec_curve \<Rightarrow> nat" where
  "curveBytes c = (case c of P224 \<Rightarrow> 28 | P256 \<Rightarrow> 32 | P384 \<Rightarrow> 48 | P521 \<Rightarrow> 66)"

definition ecdsaAsn1Verify :: "curve_lib \<Rightarrow> bytes \<Rightarrow> bytes \<Rightarrow> bytes \<Rightarrow> bool" where
  "ecdsaAsn1Verify lib spki digest signature =
     (case parseSpkiEcdsa spki of
        None \<Rightarrow> False
      | Some (curve, point) \<Rightarrow>
          if length point \<noteq> 1 + 2 * curveBytes curve \<or> point ! 0 \<noteq> 0x04 then False
          else (case strictEcdsaSignature signature of
                  None \<Rightarrow> False
                | Some (r, s) \<Rightarrow>
                    let n = cl_ecOrder lib curve in
                    if r \<le> 0 \<or> s \<le> 0 \<or> r \<ge> n \<or> s \<ge> n then False
                    else cl_ecVerify lib curve (fixed r (curveBytes curve) @ fixed s (curveBytes curve)) digest point))"

section \<open>RSA\<close>

text \<open>The object identifier of SHA-256, 2.16.840.1.101.3.4.2.1, and the DER of the \<open>DigestInfo\<close> around it, up to the digest.\<close>

definition SHA256_OID :: bytes where
  "SHA256_OID = [96, 134, 72] @ [1, 101] @ [3, 4, 2, 1]"

definition SHA256_PREFIX :: bytes where
  "SHA256_PREFIX = [48, 49] @ [48, 13] @ [6, 9] @ SHA256_OID @ [5, 0] @ [4, 32]"

text \<open>\<open>modPow\<close>: the loop halves the exponent and squares the base.\<close>

fun modPowLoop :: "int \<Rightarrow> int \<Rightarrow> nat \<Rightarrow> int \<Rightarrow> int" where
  "modPowLoop result b e m =
     (if e = 0 then result
      else
        let result' = (if odd e then (result * b) mod m else result); e' = e div 2
        in modPowLoop result' (if 0 < e' then (b * b) mod m else b) e' m)"

declare modPowLoop.simps [simp del]

definition modPow :: "int \<Rightarrow> nat \<Rightarrow> int \<Rightarrow> int" where
  "modPow base e m = modPowLoop 1 (base mod m) e m"

text \<open>\<open>n.toString(2).length\<close>\<close>

fun bitCount :: "nat \<Rightarrow> nat" where
  "bitCount n = (if n < 2 then 1 else bitCount (n div 2) + 1)"

declare bitCount.simps [simp del]

definition expectedBlock :: "nat \<Rightarrow> bytes \<Rightarrow> bytes" where
  "expectedBlock k digest =
     (let tLen = length SHA256_PREFIX + length digest
      in [0, 1] @ replicate (k - tLen - 1 - 2) 0xff @ [0] @ SHA256_PREFIX @ digest)"

definition rsaPkcs1v15Sha256Verify :: "bytes \<Rightarrow> bytes \<Rightarrow> bytes \<Rightarrow> bool" where
  "rsaPkcs1v15Sha256Verify pkcs1 digest signature =
     (case parsePkcs1Rsa pkcs1 of
        None \<Rightarrow> False
      | Some (n, e) \<Rightarrow>
          if length digest \<noteq> 32 then False
          else
            let bits = bitCount (nat n); size = (bits + 7) div 8; c = toBig signature in
            if length signature \<noteq> size then False
            else if bits < 1024 \<or> even n then False
            else if e < 2 \<or> even e then False
            else if int c \<ge> n then False
            else if size < length SHA256_PREFIX + length digest + 2 + 8 + 1 then False
            else
              let em = fixed (nat (modPow (int c) (nat e) n)) size; expected = expectedBlock size digest
              in foldl (\<lambda>diff i. or diff (xor (em ! i) (expected ! i))) 0 [0..<size] = 0)"

section \<open>The RSA operation is exact\<close>

lemma modPowLoop_exact: "0 < m \<Longrightarrow> modPowLoop r b e m mod m = (r * b ^ e) mod m"
proof (induction r b e m rule: modPowLoop.induct)
  case (1 r b e m)
  show ?case
  proof (cases "e = 0")
    case False
    define q where "q = e div 2"
    have pow: "b ^ e = (b * b) ^ q * (if odd e then b else 1)"
    proof -
      have "b ^ e = b ^ (2 * q + e mod 2)" by (simp add: q_def)
      also have "\<dots> = (b * b) ^ q * b ^ (e mod 2)" by (simp only: power_add power_mult power2_eq_square)
      finally show ?thesis by (simp add: odd_iff_mod_2_eq_one)
    qed
    let ?r = "if odd e then (r * b) mod m else r"
    have r: "?r mod m = (r * (if odd e then b else 1)) mod m" by simp
    have "(?r * (if 0 < q then (b * b) mod m else b) ^ q) mod m = (?r * (b * b) ^ q) mod m"
    proof (cases "q = 0")
      case False
      have "((b * b) mod m) ^ q mod m = (b * b) ^ q mod m" by (rule power_mod)
      then have "(?r * ((b * b) mod m) ^ q) mod m = (?r * (b * b) ^ q) mod m" by (metis mod_mult_right_eq)
      with False show ?thesis by simp
    qed simp
    also have "\<dots> = (r * (if odd e then b else 1) * (b * b) ^ q) mod m" using r by (metis mod_mult_left_eq)
    also have "\<dots> = (r * b ^ e) mod m" by (simp add: pow ac_simps)
    finally have "(?r * (if 0 < q then (b * b) mod m else b) ^ q) mod m = (r * b ^ e) mod m" .
    with "1.IH" [OF False refl refl] "1.prems" show ?thesis
      by (subst modPowLoop.simps) (simp add: False Let_def q_def del: mod_mult_left_eq mod_mult_right_eq)
  qed (simp add: modPowLoop.simps)
qed

lemma modPowLoop_range: "1 < m \<Longrightarrow> 0 \<le> r \<Longrightarrow> r < m \<Longrightarrow> 0 \<le> modPowLoop r b e m \<and> modPowLoop r b e m < m"
  by (induction r b e m rule: modPowLoop.induct) (subst (1 2) modPowLoop.simps, auto simp: Let_def)

lemma modPow_exact: "1 < m \<Longrightarrow> modPow b e m = b ^ e mod m"
  using modPowLoop_exact [of m 1 "b mod m" e] modPowLoop_range [of m 1 "b mod m" e]
  by (simp add: modPow_def power_mod)

lemma diff_zero: "foldl (\<lambda>d i. or d (xor (x i) (y i))) (a :: byte) is = 0 \<longleftrightarrow> a = 0 \<and> (\<forall>i \<in> set is. x i = y i)"
proof (induction "is" arbitrary: a)
  case (Cons i "is")
  have "or a (xor (x i) (y i)) = 0 \<longleftrightarrow> a = 0 \<and> x i = y i"
    by (auto simp: bit_eq_iff bit_or_iff bit_xor_iff)
  with Cons show ?case by auto
qed simp

lemma length_fixed [simp]: "length (fixed n k) = k"
  by (induction k arbitrary: n) simp_all

lemma be_nat_fixed: "be_nat (fixed n k) = n mod 256 ^ k"
proof (induction k arbitrary: n)
  case (Suc k)
  have m: "n mod (256 * 256 ^ k) = n div 256 mod 256 ^ k * 256 + n mod 256" by (simp add: mod_mult2_eq)
  have "unat (of_nat (and n 0xff) :: byte) = n mod 256"
    by (simp add: unat_of_nat take_bit_eq_mod flip: mask_eq_exp_minus_1 take_bit_eq_mask [of 8 n, simplified mask_eq_exp_minus_1, simplified])
  with Suc show ?case by (simp add: be_nat_snoc m drop_bit_eq_div)
qed (simp add: be_nat_def)

lemma fixed_eq: "n < 256 ^ k \<Longrightarrow> length b = k \<Longrightarrow> fixed n k = b \<longleftrightarrow> n = be_nat b"
  using be_nat_inj [of "fixed n k" b] be_nat_fixed [of n k] by auto

lemma bitCount_bounds: "0 < n \<Longrightarrow> 2 ^ (bitCount n - 1) \<le> n \<and> n < 2 ^ bitCount n \<and> 1 \<le> bitCount n"
proof (induction n rule: bitCount.induct)
  case (1 n)
  show ?case
  proof (cases "n < 2")
    case False
    with 1 have ih: "2 ^ (bitCount (n div 2) - 1) \<le> n div 2" "n div 2 < 2 ^ bitCount (n div 2)" "1 \<le> bitCount (n div 2)" by auto
    then have "2 ^ bitCount (n div 2) \<le> n" by (cases "bitCount (n div 2)") auto
    with ih(2) False show ?thesis by (subst (1 2 3) bitCount.simps) auto
  qed (use "1.prems" in \<open>auto simp: bitCount.simps\<close>)
qed

lemma bitCount_less: "0 < n \<Longrightarrow> n < 256 ^ ((bitCount n + 7) div 8)"
proof -
  assume "0 < n"
  then have "n < 2 ^ bitCount n" using bitCount_bounds by blast
  also have "(2::nat) ^ bitCount n \<le> 2 ^ (8 * ((bitCount n + 7) div 8))" by (rule power_increasing) auto
  also have "\<dots> = 256 ^ ((bitCount n + 7) div 8)" by (simp add: power_mult)
  finally show ?thesis .
qed

lemma length_expected: "length digest = 32 \<Longrightarrow> 62 \<le> k \<Longrightarrow> length (expectedBlock k digest) = k"
  by (simp add: expectedBlock_def SHA256_PREFIX_def SHA256_OID_def Let_def)

section \<open>Properties\<close>

text \<open>
  C24. RSA verification accepts exactly when the digest has 32 bytes, the key is a well-formed PKCS#1 key with an odd modulus of at least 1024 bits and an
  odd exponent of at least 2, the signature has the length of the modulus and is below it, and its \<open>e\<close>-th power modulo \<open>n\<close> is the padded block of the
  digest. The square-and-multiply loop and the comparison without an early exit compute just this.
\<close>

theorem rsaVerify_exact:
  "rsaPkcs1v15Sha256Verify pkcs1 digest signature \<longleftrightarrow>
     (\<exists>n e. parsePkcs1Rsa pkcs1 = Some (n, e) \<and> length digest = 32 \<and> odd n \<and> 1024 \<le> bitCount (nat n) \<and> odd e \<and> 2 \<le> e \<and>
        length signature = (bitCount (nat n) + 7) div 8 \<and> int (be_nat signature) < n \<and>
        int (be_nat signature) ^ nat e mod n = int (be_nat (expectedBlock (length signature) digest)))"
proof -
  have main: "foldl (\<lambda>diff i. or diff (xor (fixed (nat (modPow (int c) (nat e) n)) k ! i) (expectedBlock k digest ! i))) 0 [0..<k] = 0 \<longleftrightarrow>
      int c ^ nat e mod n = int (be_nat (expectedBlock k digest))"
    if "length digest = 32" "1024 \<le> bitCount (nat n)" "k = (bitCount (nat n) + 7) div 8" for n e c k
  proof -
    have n: "1 < n"
    proof (rule ccontr)
      assume "\<not> 1 < n"
      then have "nat n < 2" by simp
      then have "bitCount (nat n) = 1" by (simp add: bitCount.simps)
      with that show False by simp
    qed
    have k: "62 \<le> k" using that by simp
    have v: "0 \<le> int c ^ nat e mod n" "int c ^ nat e mod n < n" using n by simp_all
    then have "nat (int c ^ nat e mod n) < nat n" using n by (simp add: nat_less_iff)
    also have "nat n < 256 ^ k" using bitCount_less [of "nat n"] n that(3) by simp
    finally have lt: "nat (modPow (int c) (nat e) n) < 256 ^ k" using n by (simp add: modPow_exact)
    have "fixed (nat (modPow (int c) (nat e) n)) k = expectedBlock k digest \<longleftrightarrow>
        nat (modPow (int c) (nat e) n) = be_nat (expectedBlock k digest)"
      by (rule fixed_eq [OF lt length_expected [OF that(1) k]])
    also have "\<dots> \<longleftrightarrow> int c ^ nat e mod n = int (be_nat (expectedBlock k digest))"
      using n v(1) by (auto simp: modPow_exact nat_eq_iff)
    finally show ?thesis
      by (simp add: diff_zero list_eq_iff_nth_eq length_expected [OF that(1) k] Ball_def)
  qed
  have P: "length SHA256_PREFIX = 19" by (simp add: SHA256_PREFIX_def SHA256_OID_def)
  have big: "\<not> (bitCount (nat n) + 7) div 8 < 62" if "1024 \<le> bitCount (nat n)" for n using that by simp
  show ?thesis
  proof (cases "parsePkcs1Rsa pkcs1")
    case (Some ne)
    obtain n e where ne: "ne = (n, e)" by (cases ne)
    show ?thesis
    proof (cases "length digest = 32 \<and> 1024 \<le> bitCount (nat n) \<and> length signature = (bitCount (nat n) + 7) div 8")
      case True
      with main [of n "length signature" "be_nat signature" e] big [of n] show ?thesis
        by (simp add: rsaPkcs1v15Sha256Verify_def Some ne Let_def P toBig_be_nat)
    qed (auto simp: rsaPkcs1v15Sha256Verify_def Some ne Let_def)
  qed (simp add: rsaPkcs1v15Sha256Verify_def)
qed

end
