(* ===== verification/SigVerify.thy ===== *)
theory SigVerify
  imports Gate Curves CodecRound Replay
begin

text \<open>
  The verification of a key signature: \<open>packages/verify/src/sigtypes/verify.ts\<close>, and the hash of a transaction (\<open>txhash.ts\<close>). A decoded signature is
  a \<open>wire_node\<close>; the writer of the codec, which the hashes are taken over, may refuse a node (\<open>codec_error\<close>). The hash functions, the arithmetic of the
  curves, the SDK's names of the signature types and the EIP-712 encoding (\<open>eip712.ts\<close>, \<open>None\<close> where it throws) are the parameter record \<open>sig_env\<close>.
\<close>

section \<open>The environment\<close>

record sig_env =
  se_codec :: codec_env
  se_sha :: "bytes \<Rightarrow> bytes"
  se_keccak :: "bytes \<Rightarrow> bytes"
  se_ripemd :: "bytes \<Rightarrow> bytes"
  se_curves :: curve_lib
  se_eip712 :: "wire_node \<Rightarrow> wire_node \<Rightarrow> bytes option"
  se_typeName :: "string \<Rightarrow> string"

datatype form = Metadata | MerkleInitiator | EIP712 | V1Rule

datatype sig_error =
    NotKeySignature string
  | DelegationDepthExceeded nat
  | SignatureInvalid string
  | TransactionUnavailable
  | NetworkNameUnproven
  | ChainIdMismatch int "int option"
  | EvidenceInconsistent string
  | Gated gate_error
  | Unencodable codec_error

section \<open>Transaction hashes\<close>

datatype txhash_error = NoBody | NoEntryHash string | TxUnencodable codec_error

definition WRITE_DATA_BODIES :: "string list" where
  "WRITE_DATA_BODIES = [''WriteData'', ''WriteDataTo'', ''SyntheticWriteData'', ''SystemWriteData'']"

text \<open>A list of byte strings held by a field.\<close>

definition bytesList :: "wire_node \<Rightarrow> string \<Rightarrow> bytes list" where
  "bytesList n name = (case fieldOf n name of Some (WList vs) \<Rightarrow> bytesIn vs | _ \<Rightarrow> [])"

definition factomEntryHash :: "sig_env \<Rightarrow> wire_node \<Rightarrow> txhash_error + bytes" where
  "factomEntryHash env entry =
     bindE (mapErr TxUnencodable (marshalFactomEntry (bytesOf entry ''accountId'') (bytesOf entry ''data'') (bytesList entry ''extIds''))) (\<lambda>d.
       Inr (se_sha env (cl_sha512 (se_curves env) d @ d)))"

definition dataEntryHash :: "sig_env \<Rightarrow> wire_node \<Rightarrow> txhash_error + bytes" where
  "dataEntryHash env entry =
     (let root = merkleHashList (se_sha env) (map (se_sha env) (bytesList entry ''data'')) in
      if cls entry = ''AccumulateDataEntry'' then Inr root
      else if cls entry = ''DoubleHashDataEntry'' then Inr (se_sha env root)
      else if cls entry = ''FactomDataEntryWrapper'' then factomEntryHash env entry
      else Inl (NoEntryHash (cls entry)))"

definition hashOfNode :: "sig_env \<Rightarrow> string set \<Rightarrow> wire_node \<Rightarrow> codec_error + bytes" where
  "hashOfNode env omit n = bindE (encodeNode (se_codec env) omit n) (\<lambda>b. Inr (se_sha env b))"

definition bodyHash :: "sig_env \<Rightarrow> wire_node \<Rightarrow> txhash_error + bytes" where
  "bodyHash env body =
     (if cls body \<in> set WRITE_DATA_BODIES then
        bindE (mapErr TxUnencodable (hashOfNode env {''entry''} body)) (\<lambda>withoutEntry.
        bindE (case nodeOf body ''entry'' of None \<Rightarrow> Inr (replicate 32 0) | Some e \<Rightarrow> dataEntryHash env e) (\<lambda>h.
          Inr (merkleHashList (se_sha env) [withoutEntry, h])))
      else mapErr TxUnencodable (hashOfNode env {} body))"

definition transactionHash :: "sig_env \<Rightarrow> wire_node \<Rightarrow> txhash_error + bytes" where
  "transactionHash env txn =
     (case nodeOf txn ''body'' of
        None \<Rightarrow> Inl NoBody
      | Some body \<Rightarrow>
          if cls body = ''RemoteTransaction'' then
            Inr (if length (bytesOf body ''hash'') = 32 then bytesOf body ''hash'' else replicate 32 0)
          else
            bindE (mapErr TxUnencodable (hashOfNode env {}
                    (case nodeOf txn ''header'' of Some h \<Rightarrow> h | None \<Rightarrow> Node ''TransactionHeader'' [] [] True))) (\<lambda>headerHash.
            bindE (bodyHash env body) (\<lambda>bh. Inr (se_sha env (headerHash @ bh)))))"

section \<open>Unwrapping\<close>

definition stringOf :: "wire_node \<Rightarrow> string \<Rightarrow> string" where
  "stringOf n name = (case fieldOf n name of Some (WText s) \<Rightarrow> s | _ \<Rightarrow> [])"

definition DELEGATED_CLASS :: string where "DELEGATED_CLASS = ''DelegatedSignature''"

definition DELEGATION_DEPTH :: nat where "DELEGATION_DEPTH = 20"

definition isUserSignature :: "string \<Rightarrow> bool" where
  "isUserSignature c \<longleftrightarrow> c \<in> set keyClasses \<or> c = DELEGATED_CLASS"

function unwrapFrom :: "sig_env \<Rightarrow> string list \<Rightarrow> wire_node \<Rightarrow> sig_error + wire_node \<times> string list" where
  "unwrapFrom env delegators cur =
     (if cls cur = DELEGATED_CLASS then
        (let ds = delegators @ [stringOf cur ''delegator''] in
         if length ds > DELEGATION_DEPTH then Inl (DelegationDepthExceeded (length ds))
         else (case nodeOf cur ''signature'' of None \<Rightarrow> Inl (NotKeySignature ''nil'') | Some next \<Rightarrow> unwrapFrom env ds next))
      else if cls cur \<in> set keyClasses then Inr (cur, delegators)
      else Inl (NotKeySignature (se_typeName env (cls cur))))"
  by pat_completeness auto
termination
  by (relation "measure (\<lambda>(env, ds, n). size n)") (auto simp: nodeOf_size)

declare unwrapFrom.simps [simp del]

definition unwrap :: "sig_env \<Rightarrow> wire_node \<Rightarrow> sig_error + wire_node \<times> string list" where
  "unwrap env sig = unwrapFrom env [] sig"

section \<open>Digests\<close>

definition withFields :: "wire_node \<Rightarrow> (string \<times> wvalue) list \<Rightarrow> wire_node" where
  "withFields n fs = Node (cls n) fs (extra n) (isEmpty n)"

function metadataNode :: "wire_node \<Rightarrow> wire_node" where
  "metadataNode n =
     (if cls n = DELEGATED_CLASS then
        (case nodeOf n ''signature'' of
           None \<Rightarrow> n
         | Some inner \<Rightarrow> withFields n (Model.setField ''signature'' (WNode (metadataNode inner)) (nodeFields n)))
      else withFields n (filter (\<lambda>(k, _). k \<noteq> ''signature'' \<and> k \<noteq> ''transactionHash'') (nodeFields n)))"
  by pat_completeness auto
termination
  by (relation "measure size") (auto simp: nodeOf_size)

declare metadataNode.simps [simp del]

definition metadataHash :: "sig_env \<Rightarrow> wire_node \<Rightarrow> codec_error + bytes" where
  "metadataHash env sig = hashOfNode env {} (metadataNode sig)"

function initiatorLeaves :: "sig_env \<Rightarrow> wire_node \<Rightarrow> bytes list option" where
  "initiatorLeaves env n =
     (let sha = se_sha env in
      if cls n = DELEGATED_CLASS then
        (if stringOf n ''delegator'' = [] then None
         else (case nodeOf n ''signature'' of
                 None \<Rightarrow> None
               | Some inner \<Rightarrow>
                   map_option (\<lambda>leaves. leaves @ [sha (binaryBytes (stringOf n ''delegator''))]) (initiatorLeaves env inner)))
      else if cls n = ''RsaSha256Signature'' \<or> cls n = ''EcdsaSha256Signature'' \<or> cls n \<notin> set keyClasses then None
      else if bytesOf n ''publicKey'' = [] \<or> stringOf n ''signer'' = [] \<or> bigOf n ''signerVersion'' = 0 \<or> bigOf n ''timestamp'' = 0 then None
      else Some [sha (bytesOf n ''publicKey''), sha (binaryBytes (stringOf n ''signer'')), sha (uvarint (bigOf n ''signerVersion'')),
                 sha (uvarint (bigOf n ''timestamp''))])"
  by pat_completeness auto
termination
  by (relation "measure (\<lambda>(env, n). size n)") (auto simp: nodeOf_size)

declare initiatorLeaves.simps [simp del]

definition initiatorHash :: "sig_env \<Rightarrow> wire_node \<Rightarrow> bytes option" where
  "initiatorHash env sig = map_option (merkleHashList (se_sha env)) (initiatorLeaves env sig)"

section \<open>The rules of the types\<close>

definition digestOf :: "sig_env \<Rightarrow> bytes \<Rightarrow> int option \<Rightarrow> bytes \<Rightarrow> bytes" where
  "digestOf env hash legacyTimestamp first =
     (case legacyTimestamp of None \<Rightarrow> se_sha env (first @ hash) | Some t \<Rightarrow> se_sha env (first @ uvarint t @ hash))"

definition verifyDigests ::
  "sig_env \<Rightarrow> wire_node \<Rightarrow> bool \<Rightarrow> bytes \<Rightarrow> (bytes \<Rightarrow> bool) \<Rightarrow> int option \<Rightarrow> codec_error + form option" where
  "verifyDigests env outer mk hash verify legacyTimestamp =
     bindE (metadataHash env outer) (\<lambda>m. Inr (
       if verify (digestOf env hash legacyTimestamp m) then Some Metadata
       else if \<not> mk then None
       else (case initiatorHash env outer of
               None \<Rightarrow> None
             | Some ini \<Rightarrow> if verify (digestOf env hash legacyTimestamp ini) then Some MerkleInitiator else None)))"

definition verifyBtc :: "sig_env \<Rightarrow> wire_node \<Rightarrow> bytes \<Rightarrow> bytes \<Rightarrow> bytes \<Rightarrow> codec_error + form option" where
  "verifyBtc env outer hash pub sig =
     (case laxSecp256k1Signature sig of
        None \<Rightarrow> Inr None
      | Some (r, s) \<Rightarrow>
          (case secp256k1Point (se_curves env) pub of
             None \<Rightarrow> Inr None
           | Some pt \<Rightarrow> verifyDigests env outer True hash (\<lambda>d. secp256k1Verify (se_curves env) pt d r s) None))"

definition verifyInner ::
  "sig_env \<Rightarrow> wire_node \<Rightarrow> wire_node \<Rightarrow> bytes \<Rightarrow> wire_node option \<Rightarrow> bool \<Rightarrow> codec_error + form option" where
  "verifyInner env inner outer hash txn v1 =
     (let pub = bytesOf inner ''publicKey''; sig = bytesOf inner ''signature''; lib = se_curves env; c = cls inner;
          rs = (if length sig = 65 then take 64 sig else sig) in
      if c = ''ED25519Signature'' \<or> c = ''RCD1Signature'' then
        (if length pub \<noteq> 32 \<or> length sig \<noteq> 64 then Inr None
         else verifyDigests env outer True hash (\<lambda>d. ed25519Verify lib pub d sig) None)
      else if c = ''LegacyED25519Signature'' then
        (if length pub \<noteq> 32 \<or> length sig \<noteq> 64 then Inr None
         else verifyDigests env outer True hash (\<lambda>d. ed25519Verify lib pub d sig) (Some (bigOf inner ''timestamp'')))
      else if c = ''BTCSignature'' \<or> c = ''BTCLegacySignature'' then verifyBtc env outer hash pub sig
      else if c = ''ETHSignature'' then
        (if v1 then verifyBtc env outer hash pub sig
         else verifyDigests env outer True hash (\<lambda>d. ethVerify lib pub d rs) None)
      else if c = ''RsaSha256Signature'' then
        (case parsePkcs1Rsa pub of
           None \<Rightarrow> Inr None
         | Some (n, e) \<Rightarrow>
             if (bitCount (nat n) + 7) div 8 \<noteq> length sig then Inr None
             else verifyDigests env outer False hash (\<lambda>d. rsaPkcs1v15Sha256Verify pub d sig) None)
      else if c = ''EcdsaSha256Signature'' then
        (if parseSpkiEcdsa pub = None then Inr None
         else verifyDigests env outer False hash (\<lambda>d. ecdsaAsn1Verify lib pub d sig) None)
      else if c = ''TypedDataSignature'' then
        (case Option.bind txn (\<lambda>t. se_eip712 env t outer) of
           None \<Rightarrow> Inr None
         | Some digest \<Rightarrow> Inr (if ethVerify lib pub digest rs then Some EIP712 else None))
      else Inr None)"

section \<open>Key hashes\<close>

definition ethHash :: "sig_env \<Rightarrow> bytes \<Rightarrow> bytes option" where
  "ethHash env key = map_option (\<lambda>pt. drop 12 (se_keccak env (drop 1 pt))) (secp256k1Point (se_curves env) key)"

definition publicKeyHash :: "sig_env \<Rightarrow> string \<Rightarrow> bytes \<Rightarrow> bytes option" where
  "publicKeyHash env c key =
     (let sha = se_sha env; k = take 32 key in
      if c = ''ED25519Signature'' \<or> c = ''LegacyED25519Signature'' \<or> c = ''RsaSha256Signature'' \<or> c = ''EcdsaSha256Signature'' then Some (sha key)
      else if c = ''RCD1Signature'' then Some (sha (sha (1 # k @ replicate (32 - length k) 0)))
      else if c = ''BTCSignature'' \<or> c = ''BTCLegacySignature'' then Some (se_ripemd env (sha key))
      else if c = ''ETHSignature'' \<or> c = ''TypedDataSignature'' then ethHash env key
      else None)"

section \<open>The verdict\<close>

record verify_env =
  ve_txHash :: bytes
  ve_transaction :: "wire_node option"
  ve_networkName :: string
  ve_where :: "(string \<times> int) option"

record verified =
  vd_inner :: wire_node
  vd_innerType :: string
  vd_delegators :: "nat list list"
  vd_keyHash :: bytes
  vd_form :: form
  vd_ethRule :: eth_rule

text \<open>The message of a typed-data signature is the transaction itself, which must hash to the governed one.\<close>

definition messageOf :: "sig_env \<Rightarrow> verify_env \<Rightarrow> bool \<Rightarrow> sig_error + wire_node option" where
  "messageOf env ve typed =
     (if \<not> typed then Inr None
      else (case ve_transaction ve of
              None \<Rightarrow> Inl TransactionUnavailable
            | Some t \<Rightarrow>
                (case transactionHash env t of
                   Inl _ \<Rightarrow> Inl (EvidenceInconsistent ''the supplied transaction cannot be hashed'')
                 | Inr h \<Rightarrow>
                     if h \<noteq> ve_txHash ve then Inl (EvidenceInconsistent ''the supplied transaction hashes to another hash'')
                     else Inr (Some t))))"

text \<open>The digest form and the eth rule under which the outermost signature verifies.\<close>

definition formOf :: "sig_env \<Rightarrow> verify_env \<Rightarrow> wire_node \<Rightarrow> wire_node \<Rightarrow> wire_node option \<Rightarrow> sig_error + form \<times> eth_rule" where
  "formOf env ve inner sig txn =
     bindE (mapErr Unencodable (verifyInner env inner sig (ve_txHash ve) txn False)) (\<lambda>form.
     case form of
       Some f \<Rightarrow> Inr (f, if cls inner = ''ETHSignature'' then V2RSV else NoRule)
     | None \<Rightarrow>
         if cls sig = ''ETHSignature'' then
           bindE (mapErr Unencodable (verifyInner env inner sig (ve_txHash ve) txn True)) (\<lambda>form1.
             case form1 of Some _ \<Rightarrow> Inr (V1Rule, V1DER) | None \<Rightarrow> Inl (SignatureInvalid (se_typeName env (cls inner))))
         else Inl (SignatureInvalid (se_typeName env (cls inner))))"

definition checkChainId :: "sig_env \<Rightarrow> verify_env \<Rightarrow> wire_node \<Rightarrow> bool \<Rightarrow> sig_error + unit" where
  "checkChainId env ve inner typed =
     (if \<not> typed then Inr ()
      else if trim (ve_networkName ve) = [] then Inl NetworkNameUnproven
      else
        let want = ethChainId (se_sha env) (ve_networkName ve);
            got = (case fieldOf inner ''chainID'' of Some (WBig i) \<Rightarrow> Some i | _ \<Rightarrow> None)
        in if got \<noteq> Some want then Inl (ChainIdMismatch want got) else Inr ())"

definition verifyKeySignature :: "sig_env \<Rightarrow> wire_node option \<Rightarrow> verify_env \<Rightarrow> sig_error + verified" where
  "verifyKeySignature env s ve =
     (case s of
        None \<Rightarrow> Inl (NotKeySignature ''nil'')
      | Some sig \<Rightarrow>
          if \<not> isUserSignature (cls sig) then Inl (NotKeySignature (se_typeName env (cls sig)))
          else
            bindE (unwrap env sig) (\<lambda>(inner, delegators).
            let typed = (cls inner = ''TypedDataSignature''); innerType = se_typeName env (cls inner) in
            bindE (messageOf env ve typed) (\<lambda>txn.
            bindE (formOf env ve inner sig txn) (\<lambda>(form, rule).
            bindE (checkChainId env ve inner typed) (\<lambda>_.
            bindE (mapErr Gated (checkExecutorGate innerType rule (ve_where ve))) (\<lambda>_.
            case publicKeyHash env (cls inner) (bytesOf inner ''publicKey'') of
              None \<Rightarrow> Inl (EvidenceInconsistent ''the key has no key hash'')
            | Some keyHash \<Rightarrow>
                if keyHash = [] then Inl (EvidenceInconsistent ''the key has no key hash'')
                else Inr \<lparr>vd_inner = inner, vd_innerType = innerType, vd_delegators = map goText delegators, vd_keyHash = keyHash,
                          vd_form = form, vd_ethRule = rule\<rparr>))))))"

text \<open>\<open>decodeSignature\<close>, \<open>decodeTransaction\<close> and \<open>verifySignatureBytes\<close>\<close>

definition decodeSignature :: "sig_env \<Rightarrow> bytes \<Rightarrow> codec_error + wire_node option" where
  "decodeSignature env b = decodeUnion (se_codec env) ''Signature'' b"

definition decodeTransaction :: "sig_env \<Rightarrow> bytes \<Rightarrow> codec_error + wire_node" where
  "decodeTransaction env b = decodeObject (se_codec env) ''Transaction'' b"

definition verifySignatureBytes :: "sig_env \<Rightarrow> bytes \<Rightarrow> verify_env \<Rightarrow> sig_error + verified" where
  "verifySignatureBytes env b ve = bindE (mapErr Unencodable (decodeSignature env b)) (\<lambda>s. verifyKeySignature env s ve)"

section \<open>What an accepted signature has established\<close>

text \<open>A key signature inside delegation layers, the delegators from the outermost to the innermost.\<close>

inductive wraps :: "wire_node \<Rightarrow> string list \<Rightarrow> wire_node \<Rightarrow> bool" where
  wraps_key: "cls n \<in> set keyClasses \<Longrightarrow> wraps n [] n"
| wraps_layer: "cls n = DELEGATED_CLASS \<Longrightarrow> nodeOf n ''signature'' = Some m \<Longrightarrow> wraps m ds k \<Longrightarrow> wraps n (stringOf n ''delegator'' # ds) k"

lemma delegated_no_key: "DELEGATED_CLASS \<notin> set keyClasses"
  by (simp add: DELEGATED_CLASS_def keyClasses_def)

inductive_cases wraps_layerE: "wraps n ds k"

lemma unwrapFrom_exact:
  "length pre \<le> DELEGATION_DEPTH \<Longrightarrow>
     unwrapFrom env pre n = Inr (k, ds) \<longleftrightarrow> (\<exists>es. ds = pre @ es \<and> wraps n es k \<and> length ds \<le> DELEGATION_DEPTH)"
proof (induction env pre n rule: unwrapFrom.induct)
  case (1 env pre n)
  show ?case
  proof (cases "cls n = DELEGATED_CLASS")
    case True
    then have w: "wraps n es k \<longleftrightarrow> (\<exists>m fs. nodeOf n ''signature'' = Some m \<and> es = stringOf n ''delegator'' # fs \<and> wraps m fs k)" for es
      using delegated_no_key by (subst wraps.simps) auto
    show ?thesis
    proof (cases "nodeOf n ''signature''")
      case (Some m)
      show ?thesis
      proof (cases "length pre < DELEGATION_DEPTH")
        case room: True
        with "1.IH" [OF True refl _ Some] show ?thesis by (subst unwrapFrom.simps) (auto simp: True Some w)
      qed (use True Some in \<open>subst unwrapFrom.simps, auto simp: w Let_def\<close>)
    qed (use True in \<open>subst unwrapFrom.simps, auto simp: w Let_def split: if_splits\<close>)
  next
    case False
    then have "wraps n es k \<longleftrightarrow> es = [] \<and> n = k \<and> cls n \<in> set keyClasses" for es by (subst wraps.simps) auto
    with False "1.prems" show ?thesis by (subst unwrapFrom.simps) auto
  qed
qed

lemma unwrap_exact: "unwrap env sig = Inr (k, ds) \<longleftrightarrow> wraps sig ds k \<and> length ds \<le> DELEGATION_DEPTH"
  by (simp add: unwrap_def unwrapFrom_exact)

text \<open>The algorithm of a class accepts a digest under the key and the signature of the node.\<close>

definition keyAccepts :: "sig_env \<Rightarrow> bool \<Rightarrow> wire_node \<Rightarrow> bytes \<Rightarrow> bool" where
  "keyAccepts env v1 n d =
     (let pub = bytesOf n ''publicKey''; sig = bytesOf n ''signature''; lib = se_curves env; c = cls n;
          rs = (if length sig = 65 then take 64 sig else sig) in
      if c = ''ED25519Signature'' \<or> c = ''RCD1Signature'' \<or> c = ''LegacyED25519Signature'' then ed25519Verify lib pub d sig
      else if c = ''BTCSignature'' \<or> c = ''BTCLegacySignature'' \<or> c = ''ETHSignature'' \<and> v1 then btcVerify lib pub d sig
      else if c = ''ETHSignature'' \<or> c = ''TypedDataSignature'' then ethVerify lib pub d rs
      else if c = ''RsaSha256Signature'' then rsaPkcs1v15Sha256Verify pub d sig
      else c = ''EcdsaSha256Signature'' \<and> ecdsaAsn1Verify lib pub d sig)"

text \<open>The digest of a form: over the metadata of the outermost signature or its initiator hash, or of the EIP-712 encoding.\<close>

definition legacyTime :: "wire_node \<Rightarrow> int option" where
  "legacyTime n = (if cls n = ''LegacyED25519Signature'' then Some (bigOf n ''timestamp'') else None)"

definition formDigest :: "sig_env \<Rightarrow> bytes \<Rightarrow> wire_node \<Rightarrow> wire_node \<Rightarrow> wire_node option \<Rightarrow> form \<Rightarrow> bytes \<Rightarrow> bool" where
  "formDigest env hash sig inner txn f d \<longleftrightarrow>
     (f = Metadata \<and> (\<exists>m. metadataHash env sig = Inr m \<and> d = digestOf env hash (legacyTime inner) m)) \<or>
     (f = MerkleInitiator \<and> cls inner \<notin> {''RsaSha256Signature'', ''EcdsaSha256Signature'', ''TypedDataSignature''} \<and>
        (\<exists>i. initiatorHash env sig = Some i \<and> d = digestOf env hash (legacyTime inner) i)) \<or>
     (f = EIP712 \<and> cls inner = ''TypedDataSignature'' \<and> (\<exists>t. txn = Some t \<and> se_eip712 env t sig = Some d))"

lemma verifyDigests_sound:
  assumes "verifyDigests env sig mk hash ver lt = Inr (Some f)"
  shows "\<exists>d. ver d \<and> ((f = Metadata \<and> (\<exists>m. metadataHash env sig = Inr m \<and> d = digestOf env hash lt m)) \<or>
    (f = MerkleInitiator \<and> mk \<and> (\<exists>i. initiatorHash env sig = Some i \<and> d = digestOf env hash lt i)))"
  using assms by (auto simp: verifyDigests_def results split: if_splits option.splits)

lemma verifyBtc_sound:
  assumes "verifyBtc env sig hash pub s = Inr (Some f)"
  shows "\<exists>d. btcVerify (se_curves env) pub d s \<and> ((f = Metadata \<and> (\<exists>m. metadataHash env sig = Inr m \<and> d = digestOf env hash None m)) \<or>
    (f = MerkleInitiator \<and> (\<exists>i. initiatorHash env sig = Some i \<and> d = digestOf env hash None i)))"
  using assms verifyDigests_sound by (fastforce simp: verifyBtc_def btcVerify_def split: option.splits prod.splits)

lemma verifyInner_sound:
  assumes "verifyInner env inner sig hash txn v1 = Inr (Some f)"
  shows "\<exists>d. keyAccepts env v1 inner d \<and> formDigest env hash sig inner txn f d"
proof -
  consider "cls inner \<in> {''ED25519Signature'', ''RCD1Signature'', ''LegacyED25519Signature''}"
    | "cls inner \<in> {''BTCSignature'', ''BTCLegacySignature''} \<or> cls inner = ''ETHSignature'' \<and> v1"
    | "cls inner = ''ETHSignature''" "\<not> v1" | "cls inner = ''RsaSha256Signature''" | "cls inner = ''EcdsaSha256Signature''"
    | "cls inner = ''TypedDataSignature''"
    using assms by (auto simp: verifyInner_def Let_def split: if_splits)
  then show ?thesis
  proof cases
    case 1
    with assms show ?thesis
      by (auto simp: verifyInner_def keyAccepts_def formDigest_def legacyTime_def Let_def split: if_splits dest!: verifyDigests_sound)
  next
    case 2
    with assms show ?thesis
      by (auto simp: verifyInner_def keyAccepts_def formDigest_def legacyTime_def Let_def split: if_splits dest!: verifyBtc_sound)
  next
    case 3
    with assms show ?thesis
      by (auto simp: verifyInner_def keyAccepts_def formDigest_def legacyTime_def Let_def dest!: verifyDigests_sound)
  next
    case 4
    with assms show ?thesis
      by (auto simp: verifyInner_def keyAccepts_def formDigest_def legacyTime_def Let_def split: option.splits if_splits dest!: verifyDigests_sound)
  next
    case 5
    with assms show ?thesis
      by (auto simp: verifyInner_def keyAccepts_def formDigest_def legacyTime_def Let_def split: if_splits dest!: verifyDigests_sound)
  next
    case 6
    with assms show ?thesis
      by (auto simp: verifyInner_def keyAccepts_def formDigest_def legacyTime_def Let_def split: option.splits if_splits bind_splits)
  qed
qed

definition pinnedWhere :: "(string \<times> int) option \<Rightarrow> bool" where
  "pinnedWhere loc \<longleftrightarrow> (\<exists>p b. loc = Some (p, b) \<and> pinnedAt (normalizePartition p) b)"

lemma normalize_nothing: "normalizePartition [] = []"
  by code_simp

lemma gate_exact:
  "checkExecutorGate t r loc = Inr () \<longleftrightarrow>
     (if t = ''eth'' \<and> r = V1DER then \<not> pinnedWhere loc else requiredVersion t r = 0 \<or> pinnedWhere loc)"
proof -
  have none: "\<not> pinnedAt [] 0" by (auto simp: pinnedAt_def normalize_nothing KERMIT_ACTIVATIONS_def)
  have "requiredVersion t r \<le> V2Kourou" by (simp add: requiredVersion_def V2Vandenberg_def V2Kourou_def V2Baikonur_def)
  then show ?thesis using none
    by (cases loc) (auto simp: checkExecutorGate_def Let_def executorFloor_iff pinnedWhere_def normalize_nothing V2Kourou_def V2Baikonur_def)
qed

lemma formOf_sound:
  assumes "formOf env ve inner sig txn = Inr (f, r)"
  shows "\<exists>g d. keyAccepts env (r = V1DER) inner d \<and> formDigest env (ve_txHash ve) sig inner txn g d \<and>
    (if r = V1DER then f = V1Rule \<and> cls sig = ''ETHSignature'' else f = g) \<and>
    (r = V2RSV \<longleftrightarrow> cls inner = ''ETHSignature'' \<and> r \<noteq> V1DER)"
  using assms by (auto simp: formOf_def results split: option.splits if_splits dest!: verifyInner_sound)

section \<open>Properties\<close>

text \<open>
  C12. An accepted signature is a key signature of an accepted type inside at most 20 delegation layers. The key it carries accepts, by the algorithm
  of its type, the digest of the governed transaction's hash with the metadata (or the initiator hash) of the OUTERMOST signature, or, for typed data,
  the EIP-712 digest of the very transaction whose hash was governed. A type that needs an executor version was recorded after the activation of a
  pinned partition, an eth signature in the old form was not, and the reported key hash is that of the key.
\<close>

theorem verifyKeySignature_sound:
  assumes "verifyKeySignature env (Some sig) ve = Inr v"
  shows "\<exists>ds txn g d. wraps sig ds (vd_inner v) \<and> length ds \<le> 20 \<and> vd_delegators v = map goText ds \<and>
    (if cls (vd_inner v) = ''TypedDataSignature''
     then txn = ve_transaction ve \<and> (\<exists>t. txn = Some t \<and> transactionHash env t = Inr (ve_txHash ve)) \<and>
       fieldOf (vd_inner v) ''chainID'' = Some (WBig (ethChainId (se_sha env) (ve_networkName ve)))
     else txn = None) \<and>
    keyAccepts env (vd_ethRule v = V1DER) (vd_inner v) d \<and> formDigest env (ve_txHash ve) sig (vd_inner v) txn g d \<and>
    (requiredVersion (vd_innerType v) (vd_ethRule v) \<noteq> 0 \<longrightarrow> pinnedWhere (ve_where ve)) \<and>
    (vd_innerType v = ''eth'' \<and> vd_ethRule v = V1DER \<longrightarrow> \<not> pinnedWhere (ve_where ve)) \<and>
    publicKeyHash env (cls (vd_inner v)) (bytesOf (vd_inner v) ''publicKey'') = Some (vd_keyHash v)"
proof -
  from assms obtain inner ds txn f r where
    u: "unwrap env sig = Inr (inner, ds)" and m: "messageOf env ve (cls inner = ''TypedDataSignature'') = Inr txn"
    and f: "formOf env ve inner sig txn = Inr (f, r)" and c: "checkChainId env ve inner (cls inner = ''TypedDataSignature'') = Inr ()"
    and g: "checkExecutorGate (se_typeName env (cls inner)) r (ve_where ve) = Inr ()"
    and v: "vd_inner v = inner" "vd_innerType v = se_typeName env (cls inner)" "vd_delegators v = map goText ds" "vd_ethRule v = r"
    and k: "publicKeyHash env (cls inner) (bytesOf inner ''publicKey'') = Some (vd_keyHash v)"
    by (auto simp: verifyKeySignature_def Let_def results split: if_splits option.splits)
  have "if cls inner = ''TypedDataSignature''
     then txn = ve_transaction ve \<and> (\<exists>t. txn = Some t \<and> transactionHash env t = Inr (ve_txHash ve)) \<and>
       fieldOf inner ''chainID'' = Some (WBig (ethChainId (se_sha env) (ve_networkName ve)))
     else txn = None"
    using m c by (cases "ve_transaction ve") (auto simp: messageOf_def checkChainId_def Let_def split: if_splits option.splits sum.splits wvalue.splits)
  moreover have "wraps sig ds inner" "length ds \<le> 20" using u by (auto simp: unwrap_exact DELEGATION_DEPTH_def)
  moreover obtain g d where "keyAccepts env (r = V1DER) inner d" "formDigest env (ve_txHash ve) sig inner txn g d"
    using formOf_sound [OF f] by blast
  moreover have "requiredVersion t V1DER = 0" if "t = ''eth''" for t using that by (simp add: requiredVersion_def)
  then have "(requiredVersion (se_typeName env (cls inner)) r \<noteq> 0 \<longrightarrow> pinnedWhere (ve_where ve)) \<and>
    (se_typeName env (cls inner) = ''eth'' \<and> r = V1DER \<longrightarrow> \<not> pinnedWhere (ve_where ve))"
    using g by (auto simp: gate_exact split: if_splits)
  ultimately show ?thesis unfolding v using k by blast
qed

text \<open>What the hash function is applied to when the metadata of two signatures is hashed.\<close>

definition metadataInputs :: "sig_env \<Rightarrow> wire_node \<Rightarrow> bytes set" where
  "metadataInputs env sig = {b. encodeNode (se_codec env) {} (metadataNode sig) = Inr b}"

text \<open>
  C13. A digest in metadata form binds the signature it was made for. For the digest over the metadata hash, without a legacy timestamp
  (\<open>digestOf \<dots> None\<close>): two signatures whose metadata nodes are well-formed members of the \<open>Signature\<close> union, whose metadata hashes have the same length, and
  whose digests agree, have the same metadata (type, key, signer, version, vote, timestamp and every delegation layer) and sign the same transaction hash,
  unless the hash collides on what is hashed for them. The digests over an initiator hash, and those with a legacy timestamp, are not covered.
\<close>

theorem digest_binds_metadata:
  assumes "okNode (se_codec env) (metadataNode s1)" and "okNode (se_codec env) (metadataNode s2)"
    and "memberOf (se_codec env) ''Signature'' (metadataNode s1)" and "memberOf (se_codec env) ''Signature'' (metadataNode s2)"
    and "metadataHash env s1 = Inr m1" and "metadataHash env s2 = Inr m2" and "length m1 = length m2"
    and "digestOf env h1 None m1 = digestOf env h2 None m2"
    and "inj_on (se_sha env) (insert (m1 @ h1) (insert (m2 @ h2) (metadataInputs env s1 \<union> metadataInputs env s2)))"
  shows "metadataNode s1 = metadataNode s2 \<and> h1 = h2"
proof -
  obtain b1 b2 where b: "encodeNode (se_codec env) {} (metadataNode s1) = Inr b1" "m1 = se_sha env b1"
      "encodeNode (se_codec env) {} (metadataNode s2) = Inr b2" "m2 = se_sha env b2"
    using assms(5,6) by (auto simp: metadataHash_def hashOfNode_def results)
  have "m1 @ h1 = m2 @ h2"
    using assms(8) inj_onD [OF assms(9), of "m1 @ h1" "m2 @ h2"] by (simp add: digestOf_def)
  then have m: "m1 = m2" "h1 = h2" using assms(7) by auto
  then have "b1 = b2" using b inj_onD [OF assms(9), of b1 b2] by (simp add: metadataInputs_def)
  moreover have "decodeUnionWith (se_codec env) (decodeObject (se_codec env)) ''Signature'' b1 = Inr (Some (metadataNode s1))"
    using okNode_reads [OF assms(1)] b(1) assms(3) by (intro memberOf_decodes) (auto simp: reads_def)
  moreover have "decodeUnionWith (se_codec env) (decodeObject (se_codec env)) ''Signature'' b2 = Inr (Some (metadataNode s2))"
    using okNode_reads [OF assms(2)] b(3) assms(4) by (intro memberOf_decodes) (auto simp: reads_def)
  ultimately show ?thesis using m by simp
qed

text \<open>A delegated ed25519 signature over toy packages.\<close>

definition toyHash :: "bytes \<Rightarrow> bytes" where
  "toyHash b = of_nat (length b) # replicate 31 0"

definition toyCurves :: curve_lib where
  "toyCurves = \<lparr>cl_sha512 = (\<lambda>b. toyHash b @ toyHash b), cl_edOrder = 2 ^ 252, cl_edPoint = Some, cl_edEquation = (\<lambda>s r a k. s = 0 \<and> r = a),
     cl_secpP = 2 ^ 255, cl_secpN = 2 ^ 255, cl_secpPoint = (\<lambda>_. None), cl_secpVerify = (\<lambda>_ _ _. False), cl_ecOrder = (\<lambda>_. 2),
     cl_ecVerify = (\<lambda>_ _ _ _. False)\<rparr>"

definition toyCodec :: codec_env where
  "toyCodec = \<lparr>ce_class = (\<lambda>c.
        if c = ''ED25519Signature'' then Some (Some [
          SdkField 1 ''type'' KUint False True None [], SdkField 2 ''publicKey'' KBytes False False None [],
          SdkField 3 ''signature'' KBytes False False None [], SdkField 5 ''signerVersion'' KUint False False None []])
        else if c = ''DelegatedSignature'' then Some (Some [
          SdkField 1 ''type'' KUint False True None [], SdkField 2 ''signature'' KUnion False False None [],
          SdkField 3 ''delegator'' KString False False None []])
        else None),
     ce_union = (\<lambda>u. if u = ''Signature'' then Some (\<lambda>t. if t = 2 then Some ''ED25519Signature'' else if t = 13 then Some ''DelegatedSignature'' else None) else None),
     ce_hashAlgorithm = (\<lambda>_. True), ce_executorVersion = (\<lambda>_. True), ce_voteType = (\<lambda>_. True), ce_dataEntryType = (\<lambda>_. True),
     ct_schema = (\<lambda>c. if c = ''DelegatedSignature'' then Some [(''signature'', ''Signature'')] else None),
     ct_valueStructs = (\<lambda>_. []), ct_valueBigints = (\<lambda>_. []), ct_transactionBodies = [], ct_transactionTypes = (\<lambda>_. None)\<rparr>"

definition toySigEnv :: sig_env where
  "toySigEnv = \<lparr>se_codec = toyCodec, se_sha = toyHash, se_keccak = toyHash, se_ripemd = toyHash, se_curves = toyCurves,
     se_eip712 = (\<lambda>_ _. None), se_typeName = (\<lambda>c. if c = ''ED25519Signature'' then ''ed25519'' else c)\<rparr>"

definition toyKeySig :: "bytes \<Rightarrow> wire_node" where
  "toyKeySig s = Node ''ED25519Signature'' [(''type'', WBig 2), (''publicKey'', WBytes (replicate 32 0)), (''signature'', WBytes s), (''signerVersion'', WBig 4)] [] False"

definition toySig :: "bytes \<Rightarrow> wire_node" where
  "toySig s = Node DELEGATED_CLASS [(''type'', WBig 13), (''signature'', WNode (toyKeySig s)), (''delegator'', WText ''bob'')] [] False"

definition toyVerifyEnv :: verify_env where
  "toyVerifyEnv = \<lparr>ve_txHash = replicate 32 9, ve_transaction = None, ve_networkName = [], ve_where = None\<rparr>"

definition toyVerified :: verified where
  "toyVerified = \<lparr>vd_inner = toyKeySig (replicate 64 0), vd_innerType = ''ed25519'', vd_delegators = [[98, 111, 98]],
     vd_keyHash = toyHash (replicate 32 0), vd_form = Metadata, vd_ethRule = NoRule\<rparr>"

lemma continuation_code [code]:
  "continuation cp n s =
     (if n = 0 then Some cp
      else case s of [] \<Rightarrow> None | c # s' \<Rightarrow> if code c div 64 = 2 then continuation (cp * 64 + code c mod 64) (n - 1) s' else None)"
  by (cases n; cases s) simp_all

lemma toy_verified: "verifyKeySignature toySigEnv (Some (toySig (replicate 64 0))) toyVerifyEnv = Inr toyVerified"
  by code_simp

theorem verifyKeySignature_sound_witness:
  "\<exists>ds. wraps (toySig (replicate 64 0)) ds (toyKeySig (replicate 64 0)) \<and> map goText ds = [[98, 111, 98]]"
  using verifyKeySignature_sound [OF toy_verified] by (auto simp: toyVerified_def)

lemma toy_same: "metadataNode (toySig s) = metadataNode (toySig [])"
  by (simp add: toySig_def toyKeySig_def metadataNode.simps DELEGATED_CLASS_def nodeOf_def fieldOf_def Model.setField_def withFields_def)

lemma toy_ok: "okNode toyCodec (metadataNode (toySig s)) \<and> memberOf toyCodec ''Signature'' (metadataNode (toySig s))"
  unfolding toy_same [of s] by code_simp

lemma toy_metadata: "metadataHash toySigEnv (toySig s) = Inr (47 # replicate 31 0)"
  unfolding metadataHash_def toy_same [of s] by code_simp

lemma toy_inputs: "b \<in> metadataInputs toySigEnv (toySig s) \<Longrightarrow> toyHash b = 47 # replicate 31 0"
  using toy_metadata [of s] by (simp add: metadataInputs_def metadataHash_def hashOfNode_def) (simp add: toySigEnv_def)

lemma toy_inj:
  "inj_on (se_sha toySigEnv) (insert ((47 # replicate 31 0) @ h) (insert ((47 # replicate 31 0) @ h)
     (metadataInputs toySigEnv (toySig s) \<union> metadataInputs toySigEnv (toySig t))))" if "length h = 32"
proof -
  have one: "metadataInputs toySigEnv (toySig x) = metadataInputs toySigEnv (toySig [])" for x
    by (simp add: metadataInputs_def toy_same [of x])
  have "se_sha toySigEnv ((47 # replicate 31 0) @ h) \<noteq> 47 # replicate 31 0" using that by (simp add: toySigEnv_def toyHash_def)
  moreover have "\<And>b c. b \<in> metadataInputs toySigEnv (toySig []) \<Longrightarrow> c \<in> metadataInputs toySigEnv (toySig []) \<Longrightarrow> b = c"
    by (auto simp: metadataInputs_def)
  moreover have "se_sha toySigEnv b = 47 # replicate 31 0" if "b \<in> metadataInputs toySigEnv (toySig [])" for b
    using toy_inputs [OF that] by (simp add: toySigEnv_def)
  ultimately show ?thesis unfolding one [of s] one [of t] inj_on_def by (metis Un_iff insert_iff)
qed

lemma toy_codec: "se_codec toySigEnv = toyCodec"
  by (simp add: toySigEnv_def)

theorem digest_binds_metadata_witness:
  "metadataNode (toySig [1]) = metadataNode (toySig [2]) \<and> (replicate 32 9 :: bytes) = replicate 32 9"
proof (rule digest_binds_metadata [of toySigEnv])
  show "inj_on (se_sha toySigEnv) (insert ((47 # replicate 31 0) @ replicate 32 9) (insert ((47 # replicate 31 0) @ replicate 32 9)
     (metadataInputs toySigEnv (toySig [1]) \<union> metadataInputs toySigEnv (toySig [2]))))"
    by (rule toy_inj) simp
qed (unfold toy_codec, (rule toy_metadata refl conjunct1 [OF toy_ok] conjunct2 [OF toy_ok])+)

end
