(* ===== verification/Position.thy ===== *)
theory Position
  imports Chains
begin

text \<open>
  The position of a chain entry from the shape of its receipt: \<open>receiptPositions\<close> of \<open>packages/verify/src/s3/timeline.ts\<close>. The reference is the
  audit path of a position in the tree \<open>mth\<close> hashes: the sides its siblings are on (\<open>auditPath\<close>), and the siblings themselves (\<open>auditEntries\<close>).
  A height is a \<open>nat\<close>, a \<open>true\<close> of the shape is a sibling on the right.
\<close>

section \<open>The code\<close>

text \<open>The heights of the peaks of a chain of \<open>n\<close> entries, the highest first.\<close>

definition peaksOf :: "nat \<Rightarrow> nat list" where
  "peaksOf n = filter (\<lambda>h. bit n h) (rev [0..<64])"

text \<open>\<open>for (let i = 0; i < h; i++) if (!f[i]) off |= 1n << BigInt(i)\<close>\<close>

definition offsetOf :: "bool list \<Rightarrow> nat \<Rightarrow> nat" where
  "offsetOf f h = foldl (\<lambda>off i. if f ! i then off else or off (2 ^ i)) 0 [0..<h]"

text \<open>The loop over the peaks: \<open>j\<close> peaks are behind, \<open>start\<close> is the position of the first entry under the next.\<close>

fun positionsFrom :: "bool list \<Rightarrow> nat \<Rightarrow> nat \<Rightarrow> nat list \<Rightarrow> nat list" where
  "positionsFrom f j start [] = []"
| "positionsFrom f j start (h # hs) =
     (let lst = (hs = []);
          want = (if lst then h + j else h + j + 1);
          kk = (if lst then h else h + 1)
      in (if length f = want \<and> (lst \<or> f ! h) \<and> list_all (\<lambda>i. \<not> f ! (kk + i)) [0..<j] then [start + offsetOf f h] else []) @
         positionsFrom f (j + 1) (start + 2 ^ h) hs)"

definition receiptPositions :: "bool list \<Rightarrow> nat \<Rightarrow> int list" where
  "receiptPositions f n = (if n = 0 then [] else map (\<lambda>p. toNumber (int p)) (positionsFrom f 0 0 (peaksOf n)))"

section \<open>The reference\<close>

lemma pow2_below_less: "2 \<le> n \<Longrightarrow> 0 < pow2_below n \<and> pow2_below n < n"
  using pow2_below [of n] by auto

function auditPath :: "nat \<Rightarrow> nat \<Rightarrow> bool list" where
  "auditPath n p =
     (if n < 2 then []
      else if p < pow2_below n then auditPath (pow2_below n) p @ [True]
      else auditPath (n - pow2_below n) (p - pow2_below n) @ [False])"
  by pat_completeness auto
termination
  by (relation "measure fst") (use pow2_below_less in \<open>auto simp: not_less\<close>)

declare auditPath.simps [simp del]

function auditEntries :: "(bytes \<Rightarrow> bytes) \<Rightarrow> bytes list \<Rightarrow> nat \<Rightarrow> receipt_entry list" where
  "auditEntries H xs p =
     (let k = pow2_below (length xs) in
      if length xs < 2 then []
      else if p < k then auditEntries H (take k xs) p @ [\<lparr>re_hash = mth H (drop k xs), re_right = True\<rparr>]
      else auditEntries H (drop k xs) (p - k) @ [\<lparr>re_hash = mth H (take k xs), re_right = False\<rparr>])"
  by pat_completeness auto
termination
proof (relation "measure (\<lambda>(H, xs, p). length xs)")
  fix H and xs :: "bytes list" and p k :: nat
  assume k: "k = pow2_below (length xs)" "\<not> length xs < 2"
  then have "0 < k" "k < length xs" using pow2_below_less [of "length xs"] by auto
  then show "((H, take k xs, p), H, xs, p) \<in> measure (\<lambda>(H, xs, p). length xs)"
    and "((H, drop k xs, p - k), H, xs, p) \<in> measure (\<lambda>(H, xs, p). length xs)" by simp_all
qed simp

declare auditEntries.simps [simp del]

lemma auditPath_inj: "p < n \<Longrightarrow> q < n \<Longrightarrow> auditPath n p = auditPath n q \<Longrightarrow> p = q"
proof (induction n p arbitrary: q rule: auditPath.induct)
  case (1 n p)
  show ?case
  proof (cases "n < 2")
    case False
    then have k: "0 < pow2_below n" "pow2_below n < n" using pow2_below_less [of n] by auto
    show ?thesis
    proof (cases "p < pow2_below n")
      case True
      with "1.prems" False have "q < pow2_below n" by (auto simp: auditPath.simps [of n] split: if_splits)
      with "1.IH"(1) [OF False True, of q] "1.prems" True False show ?thesis by (simp add: auditPath.simps [of n])
    next
      case left: False
      with "1.prems" False have q: "\<not> q < pow2_below n" by (auto simp: auditPath.simps [of n] split: if_splits)
      with "1.IH"(2) [OF False left, of "q - pow2_below n"] "1.prems" left False k
      have "p - pow2_below n = q - pow2_below n" by (simp add: auditPath.simps [of n] diff_less_mono)
      with left q show ?thesis by simp
    qed
  qed (use "1.prems" in simp)
qed

section \<open>The positions are exact\<close>

definition perfectPath :: "nat \<Rightarrow> nat \<Rightarrow> bool list" where
  "perfectPath h p = map (\<lambda>i. \<not> bit p i) [0..<h]"

lemma pow2_below_power: "pow2_below (2 ^ Suc h) = 2 ^ h"
  by (rule pow2_below_eq) simp_all

lemma bit_top: "p < 2 ^ Suc h \<Longrightarrow> bit (p::nat) h \<longleftrightarrow> \<not> p < 2 ^ h"
proof -
  assume "p < 2 ^ Suc h"
  then have "p div 2 ^ h < 2" by (simp add: less_mult_imp_div_less)
  then show ?thesis by (auto simp: bit_iff_odd less_2_cases_iff div_eq_0_iff odd_iff_mod_2_eq_one)
qed

lemma bit_below: "i < h \<Longrightarrow> bit (2 ^ h + q) i \<longleftrightarrow> bit (q::nat) i"
proof -
  assume "i < h"
  then obtain d where "h = Suc (i + d)" using less_iff_Suc_add by blast
  then have "(2 ^ h + q) div 2 ^ i = q div 2 ^ i + 2 * 2 ^ d"
    using div_mult_self3 [of "2 ^ i" "2 * 2 ^ d" q] by (simp add: power_add algebra_simps)
  then show ?thesis by (simp add: bit_iff_odd)
qed

lemma auditPath_perfect: "p < 2 ^ h \<Longrightarrow> auditPath (2 ^ h) p = perfectPath h p"
proof (induction h arbitrary: p)
  case 0
  show ?case by (simp add: auditPath.simps perfectPath_def)
next
  case (Suc h)
  have two: "\<not> 2 ^ Suc h < (2::nat)" by simp
  show ?case
  proof (cases "p < 2 ^ h")
    case True
    with Suc.IH bit_top [OF Suc.prems] two show ?thesis
      by (subst auditPath.simps) (simp add: pow2_below_power perfectPath_def del: power_Suc)
  next
    case False
    define q where "q = p - 2 ^ h"
    have q: "p = 2 ^ h + q" "q < 2 ^ h" using False Suc.prems by (auto simp: q_def)
    have "perfectPath h q = perfectPath h p" by (simp add: perfectPath_def q(1) bit_below)
    moreover have "(2::nat) ^ Suc h - 2 ^ h = 2 ^ h" by simp
    ultimately show ?thesis using False Suc.IH [OF q(2)] bit_top [OF Suc.prems] two
      by (subst auditPath.simps) (simp add: pow2_below_power q_def [symmetric] perfectPath_def del: power_Suc)
  qed
qed

lemma foldl_or:
  "foldl (\<lambda>off i. if g i then off else or off (2 ^ i)) (a::nat) [0..<h] =
     or a (foldl (\<lambda>off i. if g i then off else or off (2 ^ i)) 0 [0..<h])"
  by (induction h) (auto simp: or.assoc)

lemma bit_offsetOf: "bit (offsetOf f h) i \<longleftrightarrow> i < h \<and> \<not> f ! i"
  by (induction h) (auto simp: offsetOf_def bit_or_iff bit_exp_iff less_Suc_eq)

lemma bit_bounded: "p < 2 ^ h \<longleftrightarrow> (\<forall>i. bit (p::nat) i \<longrightarrow> i < h)"
  by (metis bit_take_bit_iff bit_eq_iff take_bit_nat_eq_self_iff)

lemma offsetOf_less: "offsetOf f h < 2 ^ h"
  by (simp add: bit_bounded bit_offsetOf)

lemma perfectPath_eq: "p < 2 ^ h \<Longrightarrow> h \<le> length f \<Longrightarrow> perfectPath h p = take h f \<longleftrightarrow> p = offsetOf f h"
  by (auto simp: perfectPath_def list_eq_iff_nth_eq bit_eq_iff bit_offsetOf bit_bounded)

lemma filter_single: "c < m \<Longrightarrow> filter (\<lambda>p. p = c) [0..<m] = [c]"
  by (induction m) (auto simp: less_Suc_eq filter_empty_conv)

lemma peak_exact:
  "filter (\<lambda>p. perfectPath h p @ t = f) [0..<2 ^ h] =
     (if length f = h + length t \<and> drop h f = t then [offsetOf f h] else [])"
proof (cases "length f = h + length t \<and> drop h f = t")
  case True
  then have f: "f = take h f @ t" by (metis append_take_drop_id)
  have "perfectPath h p @ t = f \<longleftrightarrow> p = offsetOf f h" if "p < 2 ^ h" for p
    using that True by (subst f) (simp add: perfectPath_eq)
  then have "filter (\<lambda>p. perfectPath h p @ t = f) [0..<2 ^ h] = filter (\<lambda>p. p = offsetOf f h) [0..<2 ^ h]"
    by (intro filter_cong) auto
  with True show ?thesis by (simp add: filter_single offsetOf_less)
qed (auto simp: filter_empty_conv perfectPath_def)

lemma falses_iff: "list_all (\<lambda>i. \<not> f ! (k + i)) [0..<j] \<longleftrightarrow> drop k f = replicate j False" if "length f = k + j"
  using that by (auto simp: list_all_iff list_eq_iff_nth_eq)

definition forest :: "nat list \<Rightarrow> nat" where
  "forest hs = sum_list (map (\<lambda>h. 2 ^ h) hs)"

lemma forest_less: "sorted_wrt (>) hs \<Longrightarrow> \<forall>g \<in> set hs. g < h \<Longrightarrow> forest hs < 2 ^ h"
proof (induction hs arbitrary: h)
  case (Cons g gs)
  then have "forest gs < 2 ^ g" "g < h" by auto
  then have "forest (g # gs) < 2 ^ Suc g" "2 ^ Suc g \<le> (2::nat) ^ h"
    by (simp_all add: forest_def Suc_leI del: power_Suc) (simp add: power_Suc)
  then show ?case by simp
qed (simp add: forest_def)

lemma upt_shift: "[m..<m + n] = map (\<lambda>p. m + p) [0..<n]"
  by (simp add: map_add_upt add.commute)

lemma positionsFrom_exact:
  "sorted_wrt (>) hs \<Longrightarrow> hs \<noteq> [] \<Longrightarrow>
     positionsFrom f j start hs = map (\<lambda>p. start + p) (filter (\<lambda>p. auditPath (forest hs) p @ replicate j False = f) [0..<forest hs])"
proof (induction f j start hs rule: positionsFrom.induct)
  case (2 f j start h hs)
  show ?case
  proof (cases "hs = []")
    case True
    have "filter (\<lambda>p. auditPath (2 ^ h) p @ replicate j False = f) [0..<2 ^ h] =
        filter (\<lambda>p. perfectPath h p @ replicate j False = f) [0..<2 ^ h]"
      by (intro filter_cong) (auto simp: auditPath_perfect)
    then show ?thesis using falses_iff [of f h j] by (auto simp: True forest_def peak_exact Let_def)
  next
    case False
    define m where "m = forest hs"
    have m: "0 < m" "m < 2 ^ h"
      using "2.prems" False forest_less [of hs h] by (auto simp: m_def forest_def neq_Nil_conv)
    have n: "forest (h # hs) = 2 ^ h + m" by (simp add: forest_def m_def)
    have k: "pow2_below (2 ^ h + m) = 2 ^ h" using m by (intro pow2_below_eq) auto
    have two: "\<not> 2 ^ h + m < 2" using m(1) one_le_power [of "2::nat" h] by linarith
    have left: "auditPath (2 ^ h + m) p = perfectPath h p @ [True]" if "p < 2 ^ h" for p
      using that k two by (subst auditPath.simps) (simp add: auditPath_perfect)
    have right: "auditPath (2 ^ h + m) (2 ^ h + p) = auditPath m p @ [False]" for p
      using k two by (subst auditPath.simps) simp
    have l: "filter (\<lambda>p. auditPath (2 ^ h + m) p @ replicate j False = f) [0..<2 ^ h] =
        filter (\<lambda>p. perfectPath h p @ (True # replicate j False) = f) [0..<2 ^ h]"
      by (intro filter_cong) (auto simp: left)
    have r: "filter (\<lambda>p. auditPath (2 ^ h + m) p @ replicate j False = f) [2 ^ h..<2 ^ h + m] =
        map (\<lambda>p. 2 ^ h + p) (filter (\<lambda>p. auditPath m p @ replicate (Suc j) False = f) [0..<m])"
      unfolding upt_shift filter_map by (simp add: right comp_def)
    have t: "drop h f = True # replicate j False \<longleftrightarrow> f ! h \<and> list_all (\<lambda>i. \<not> f ! (h + 1 + i)) [0..<j]"
      if len: "length f = h + j + 1"
    proof -
      have "drop h f = f ! h # drop (h + 1) f" using len Cons_nth_drop_Suc [of h f] by simp
      then show ?thesis using len falses_iff [of f "h + 1" j] by simp
    qed
    have "[0..<2 ^ h + m] = [0..<2 ^ h] @ [2 ^ h..<2 ^ h + m]" by (rule upt_add_eq_append) simp
    moreover have "positionsFrom f (j + 1) (start + 2 ^ h) hs =
        map (\<lambda>p. start + 2 ^ h + p) (filter (\<lambda>p. auditPath m p @ replicate (Suc j) False = f) [0..<m])"
      using "2.IH" "2.prems" False by (simp add: m_def)
    moreover have "(length f = h + j + 1 \<and> f ! h \<and> list_all (\<lambda>i. \<not> f ! (h + 1 + i)) [0..<j]) \<longleftrightarrow>
        (length f = h + length (True # replicate j False) \<and> drop h f = True # replicate j False)"
    proof -
      have "h + length (True # replicate j False) = h + j + 1" by simp
      with t show ?thesis by metis
    qed
    ultimately show ?thesis using False
      by (simp add: n l r peak_exact Let_def add.assoc comp_def)
  qed
qed simp

lemma forest_peaks: "n < 2 ^ 64 \<Longrightarrow> forest (peaksOf n) = n"
proof -
  assume n: "n < 2 ^ 64"
  have "forest (filter (\<lambda>h. bit n h) (rev [0..<w])) = take_bit w n" for w
    by (induction w) (auto simp: forest_def take_bit_Suc_from_most)
  then show ?thesis using n by (simp add: peaksOf_def take_bit_nat_eq_self)
qed

lemma receiptPositions_filter:
  assumes "n < 2 ^ 53"
  shows "receiptPositions f n = map int (filter (\<lambda>p. auditPath n p = f) [0..<n])"
proof (cases "n = 0")
  case False
  have n: "forest (peaksOf n) = n" using assms by (intro forest_peaks) simp
  with False have "peaksOf n \<noteq> []" by (auto simp: forest_def)
  moreover have "sorted_wrt (>) (peaksOf n)"
    unfolding peaksOf_def by (intro sorted_wrt_filter) (simp add: sorted_wrt_rev)
  ultimately have "positionsFrom f 0 0 (peaksOf n) = filter (\<lambda>p. auditPath n p = f) [0..<n]"
    by (simp add: positionsFrom_exact n)
  with False assms show ?thesis by (auto simp: receiptPositions_def toNumber_small)
qed (simp add: receiptPositions_def)

lemma one_member: "distinct l \<Longrightarrow> (\<forall>p \<in> set l. \<forall>q \<in> set l. p = q) \<Longrightarrow> length l \<le> 1"
  using card_le_Suc0_iff_eq [of "set l"] distinct_card [of l] by simp

lemma positions_at_most_one: "n < 2 ^ 53 \<Longrightarrow> length (receiptPositions f n) \<le> 1"
  unfolding receiptPositions_filter length_map by (rule one_member) (auto intro: auditPath_inj)

lemma receiptPositions_single:
  assumes "n < 2 ^ 53"
  shows "receiptPositions f n = [i] \<longleftrightarrow> (\<exists>p. i = int p \<and> p < n \<and> auditPath n p = f)"
proof
  assume "receiptPositions f n = [i]"
  then have "i \<in> set (receiptPositions f n)" by simp
  then show "\<exists>p. i = int p \<and> p < n \<and> auditPath n p = f" by (auto simp: receiptPositions_filter [OF assms])
next
  assume "\<exists>p. i = int p \<and> p < n \<and> auditPath n p = f"
  then have "i \<in> set (receiptPositions f n)" by (auto simp: receiptPositions_filter [OF assms])
  with positions_at_most_one [OF assms, of f] show "receiptPositions f n = [i]"
    by (cases "receiptPositions f n") auto
qed

section \<open>The entry at the position\<close>

lemma auditEntries_sides: "map re_right (auditEntries H xs p) = auditPath (length xs) p"
proof (induction H xs p rule: auditEntries.induct)
  case (1 H xs p)
  show ?case
  proof (cases "length xs < 2")
    case False
    with pow2_below_less [of "length xs"] have "pow2_below (length xs) < length xs" by auto
    with 1 False show ?thesis
      by (subst auditEntries.simps, subst auditPath.simps) (auto simp: Let_def min_def)
  qed (simp add: auditEntries.simps auditPath.simps)
qed

lemma auditEntries_root: "p < length xs \<Longrightarrow> foldReceipt H (xs ! p) (auditEntries H xs p) = mth H xs"
proof (induction H xs p rule: auditEntries.induct)
  case (1 H xs p)
  show ?case
  proof (cases "length xs < 2")
    case True
    with 1 show ?thesis by (cases xs) (auto simp: auditEntries.simps)
  next
    case False
    define k where "k = pow2_below (length xs)"
    have k: "0 < k" "k < length xs" using False pow2_below_less [of "length xs"] by (auto simp: k_def)
    have m: "mth H xs = H (mth H (take k xs) @ mth H (drop k xs))"
      using False by (subst mth.simps) (simp add: k_def)
    show ?thesis
    proof (cases "p < k")
      case True
      then have "foldReceipt H (take k xs ! p) (auditEntries H (take k xs) p) = mth H (take k xs)"
        using 1 False k by (intro "1.IH"(1)) (simp_all add: k_def)
      with True False show ?thesis
        by (subst auditEntries.simps) (simp add: k_def [symmetric] foldReceipt_append applyEntry_def m)
    next
      case right: False
      then have "foldReceipt H (drop k xs ! (p - k)) (auditEntries H (drop k xs) (p - k)) = mth H (drop k xs)"
        using 1 False k by (intro "1.IH"(2)) (simp_all add: k_def)
      with right False k show ?thesis
        by (subst auditEntries.simps) (simp add: k_def [symmetric] foldReceipt_append applyEntry_def m)
    qed
  qed
qed

text \<open>
  A valid receipt that ends at the root of a chain of entries \<open>xs\<close>, and whose shape allows one position of a chain of that length, starts at
  the entry at this position (or two different inputs of the hash function collide).
\<close>

definition chainInputs :: "(bytes \<Rightarrow> bytes) \<Rightarrow> bytes list \<Rightarrow> nat \<Rightarrow> receipt \<Rightarrow> bytes set" where
  "chainInputs H xs p r = set (hashed H (rc_start r) (rc_entries r)) \<union> set (hashed H (xs ! p) (auditEntries H xs p))"

lemma start_at_position:
  assumes "\<And>x. length (H x) = 32" and "\<forall>x \<in> set xs. length x = 32" and "length xs < 2 ^ 53"
    and "length (rc_start r) = 32" and "receiptValid H r" and "rc_anchor r = mth H xs"
    and "receiptPositions (map re_right (rc_entries r)) (length xs) = [i]"
    and "inj_on H (chainInputs H xs (nat i) r)"
  shows "\<exists>p < length xs. i = int p \<and> rc_start r = xs ! p"
proof -
  obtain p where p: "i = int p" "p < length xs" "auditPath (length xs) p = map re_right (rc_entries r)"
    using assms(3,7) receiptPositions_single by blast
  have "rc_start r = xs ! p \<and> map re_hash (rc_entries r) = map re_hash (auditEntries H xs p)"
  proof (rule fold_binding [OF assms(1)])
    show "inj_on H (set (hashed H (rc_start r) (rc_entries r)) \<union> set (hashed H (xs ! p) (auditEntries H xs p)))"
      using assms(8) by (simp add: p(1) chainInputs_def)
    show "foldReceipt H (rc_start r) (rc_entries r) = foldReceipt H (xs ! p) (auditEntries H xs p)"
      using assms(5,6) p(2) by (simp add: receiptValid_def auditEntries_root)
  qed (use assms(2,4) p in \<open>simp_all add: auditEntries_sides\<close>)
  with p show ?thesis by auto
qed

section \<open>Properties\<close>


lemma peaks_six: "peaksOf 6 = [2, 1]"
  by code_simp


end
