(* ===== verification/Judge.thy ===== *)
theory Judge
  imports SigVerify Position Walk21
begin

text \<open>
  What the judgement of evidence 2.1 is made with: the named states (\<open>packages/verify/src/s3/states.ts\<close>), the executor's rules (\<open>executor.ts\<close>), the
  routing of an account (\<open>routing.ts\<close>), the decoding of a carried transaction or signature (\<open>sig.ts\<close>) and the types of the evidence
  (\<open>evidence.ts\<close>, \<open>xtypes.ts\<close>). A thrown \<open>NamedState\<close> is its code, partition and block (its detail is not modelled); any other thrown error is
  \<open>Refused\<close> with a tag of its message. A document's numbers are \<open>int\<close>; a receipt is its binary form, which is what the judgement decodes.
\<close>

section \<open>Named states\<close>

datatype refusal = Named string string int | Refused string

record state_entry =
  se_code :: string
  se_partition :: string
  se_block :: int

definition stateEntry :: "string \<Rightarrow> string \<Rightarrow> int \<Rightarrow> state_entry" where
  "stateEntry c part block = \<lparr>se_code = c, se_partition = part, se_block = block\<rparr>"

definition formatState :: "string \<Rightarrow> string \<Rightarrow> int \<Rightarrow> string \<Rightarrow> string" where
  "formatState c part block detail =
     (let loc = (if part \<noteq> [] \<and> block \<noteq> 0 then ''{'' @ part @ '','' @ decInt block @ ''}''
                 else if part \<noteq> [] then ''{'' @ part @ ''}''
                 else if block \<noteq> 0 then ''{'' @ decInt block @ ''}''
                 else [])
      in if detail = [] then c @ loc else c @ loc @ '': '' @ detail)"

definition KNOWN_ROLES :: "string list" where
  "KNOWN_ROLES =
     [''principal-chain'', ''authority-book'', ''authority-page'', ''header-authority'', ''delegate-book'', ''delegate-page'', ''voter'',
      ''initiator-signer'', ''certified-key-page'', ''synthetic-chain'', ''system-ledger'']"

fun rankIn :: "string list \<Rightarrow> string \<Rightarrow> nat" where
  "rankIn [] r = 0"
| "rankIn (k # ks) r = (if k = r then 0 else rankIn ks r + 1)"

fun rolesLoop :: "string list \<Rightarrow> string list \<Rightarrow> refusal + string list" where
  "rolesLoop out [] = Inr out"
| "rolesLoop out (r # rs) =
     (if r \<notin> set KNOWN_ROLES then Inl (Refused ''unknown page role'')
      else rolesLoop (if r \<in> set out then out else out @ [r]) rs)"

definition canonicalRoles :: "string list \<Rightarrow> refusal + string list" where
  "canonicalRoles roles = bindE (rolesLoop [] roles) (\<lambda>out. Inr (sort_key (rankIn KNOWN_ROLES) out))"

section \<open>Partitions and executors\<close>

record xanchor =
  xa_source :: string
  xa_id :: string
  xa_block :: int
  xa_stateRoot :: bytes

definition startsWith :: "string \<Rightarrow> string \<Rightarrow> bool" where
  "startsWith p s = (take (length p) s = p)"

definition endsIn :: "string \<Rightarrow> string \<Rightarrow> bool" where
  "endsIn q s = (length q \<le> length s \<and> drop (length s - length q) s = q)"

definition cutFront :: "string \<Rightarrow> string \<Rightarrow> string" where
  "cutFront p s = (if startsWith p s then drop (length p) s else s)"

definition cutBack :: "string \<Rightarrow> string \<Rightarrow> string" where
  "cutBack q s = (if endsIn q s then take (length s - length q) s else s)"

definition normalizeExecutorPartition :: "string \<Rightarrow> string" where
  "normalizeExecutorPartition p =
     normalizePartition (cutFront ''bvn-'' (cutBack ''.acme'' (cutBack ''/'' (cutFront ''acc://'' (goLower (goTrimSpace p))))))"

definition executorFloorAt :: "string \<Rightarrow> int \<Rightarrow> int option" where
  "executorFloorAt part block = executorFloor (normalizeExecutorPartition part) block"

definition baikonurEnabled :: "int \<Rightarrow> bool" where
  "baikonurEnabled v \<longleftrightarrow> v \<ge> 6"

definition LEDGER :: string where "LEDGER = ''ledger''"
definition SYNTHETIC :: string where "SYNTHETIC = ''synthetic''"

definition urlText :: "acc_url option \<Rightarrow> string" where
  "urlText u = (case u of None \<Rightarrow> [] | Some x \<Rightarrow> urlString x)"

definition accUrl :: "wire_node \<Rightarrow> refusal + acc_url" where
  "accUrl a = (case accountUrl a of None \<Rightarrow> Inl (Refused ''an account has no URL'') | Some u \<Rightarrow> Inr u)"

definition isOwnLedger :: "wire_node \<Rightarrow> xanchor \<Rightarrow> refusal + bool" where
  "isOwnLedger acct xa =
     (if cls acct \<noteq> ''SystemLedger'' then Inr False
      else bindE (accUrl acct) (\<lambda>u. Inr (goEqualFold (urlString u) (urlString (joinPath (partitionUrl (xa_id xa)) [LEDGER])))))"

fun checkExecutorVersion :: "(wire_node \<times> xanchor) list \<Rightarrow> refusal + unit" where
  "checkExecutorVersion [] = Inr ()"
| "checkExecutorVersion ((acct, xa) # ps) =
     (if cls acct \<noteq> ''SystemLedger'' then checkExecutorVersion ps
      else
        bindE (accUrl acct) (\<lambda>_.
        bindE (isOwnLedger acct xa) (\<lambda>own.
          if \<not> own then Inl (Named ''g1_role_mismatch'' (xa_id xa) (xa_block xa))
          else if \<not> baikonurEnabled (Model.bigOf acct ''executorVersion'') then Inl (Named ''g1_executor_version_unsupported'' (xa_id xa) (xa_block xa))
          else checkExecutorVersion ps)))"

definition EXECUTOR_OVERRIDES :: "string list" where
  "EXECUTOR_OVERRIDES =
     [''CreateIdentity'', ''CreateLiteTokenAccount'', ''CreateKeyBook'', ''CreateTokenAccount'', ''CreateDataAccount'', ''CreateToken'',
      ''ReleaseLockedOperation'', ''UpdateKey'', ''UpdateKeyPage'', ''NetworkMaintenance'']"

definition refuseExecutorOverride :: "wire_node \<Rightarrow> xanchor \<Rightarrow> refusal + unit" where
  "refuseExecutorOverride txn x =
     (case bodyOf txn of
        None \<Rightarrow> Inr ()
      | Some b \<Rightarrow>
          if cls b \<in> set EXECUTOR_OVERRIDES then Inl (Named ''g1_executor_override_unsupported'' (xa_id x) (xa_block x))
          else if cls b = ''UpdateAccountAuth'' \<and>
              list_ex (\<lambda>op. cls op \<notin> {''AddAccountAuthorityOperation'', ''EnableAccountAuthOperation'', ''DisableAccountAuthOperation''})
                (nodesOf b ''operations'')
          then Inl (Named ''g1_executor_override_unsupported'' (xa_id x) (xa_block x))
          else Inr ())"

definition refuseUpdateAccountAuthInherited :: "wire_node option \<Rightarrow> (acc_url \<times> bool) list \<Rightarrow> xanchor \<Rightarrow> refusal + unit" where
  "refuseUpdateAccountAuthInherited txn own x =
     (case Option.bind txn bodyOf of
        None \<Rightarrow> Inr ()
      | Some b \<Rightarrow>
          if cls b \<noteq> ''UpdateAccountAuth'' then Inr ()
          else
            let added = concat (map (\<lambda>op. if cls op = ''AddAccountAuthorityOperation'' then map urlKey (Model.optList (urlOf op ''authority'')) else [])
                          (nodesOf b ''operations''))
            in if added = [] \<or> own = [] then Inr ()
               else if list_ex (\<lambda>e. urlKey (fst e) \<notin> set added) own then Inr ()
               else Inl (Named ''g1_executor_override_unsupported'' (xa_id x) (xa_block x)))"

section \<open>The authority of a key page\<close>

record field_diff =
  df_field :: string
  df_a :: string
  df_b :: string
  df_text :: string

definition diffOf :: "string \<Rightarrow> string \<Rightarrow> string \<Rightarrow> string \<Rightarrow> field_diff list" where
  "diffOf field a b text = (if a \<noteq> b then [\<lparr>df_field = field, df_a = a, df_b = b, df_text = text\<rparr>] else [])"

definition numDiff :: "string \<Rightarrow> int \<Rightarrow> int \<Rightarrow> field_diff list" where
  "numDiff field a b = diffOf field (decInt a) (decInt b) (field @ '' '' @ decInt a @ '' vs '' @ decInt b)"

definition delegateText :: "key_spec \<Rightarrow> string" where
  "delegateText k = (case ks_delegate k of None \<Rightarrow> [] | Some u \<Rightarrow> goLower (urlString u))"

definition keyDiff :: "nat \<Rightarrow> key_spec \<Rightarrow> key_spec \<Rightarrow> field_diff list" where
  "keyDiff i a b =
     (let f = ''keys['' @ decNat i @ ''].publicKeyHash''; g = ''keys['' @ decNat i @ ''].delegate'' in
      (if ks_hash a \<noteq> ks_hash b then diffOf f (toHex (ks_hash a)) (toHex (ks_hash b)) f else []) @
      diffOf g (delegateText a) (delegateText b) g)"

definition authorityFieldDiffs :: "key_page \<Rightarrow> key_page \<Rightarrow> field_diff list" where
  "authorityFieldDiffs a b =
     numDiff ''version'' (kp_version a) (kp_version b) @
     numDiff ''acceptThreshold'' (kp_accept a) (kp_accept b) @
     numDiff ''rejectThreshold'' (kp_reject a) (kp_reject b) @
     numDiff ''responseThreshold'' (kp_response a) (kp_response b) @
     numDiff ''blockThreshold'' (kp_block a) (kp_block b) @
     diffOf ''entries'' (decNat (length (kp_keys a))) (decNat (length (kp_keys b)))
       (decNat (length (kp_keys a)) @ '' entries vs '' @ decNat (length (kp_keys b))) @
     diffOf ''transactionBlacklist'' (decInt (case kp_blacklist a of None \<Rightarrow> 0 | Some x \<Rightarrow> x))
       (decInt (case kp_blacklist b of None \<Rightarrow> 0 | Some x \<Rightarrow> x)) ''transaction blacklist'' @
     concat (map (\<lambda>i. keyDiff i (kp_keys a ! i) (kp_keys b ! i)) [0..<min (length (kp_keys a)) (length (kp_keys b))])"

definition authorityDiff :: "key_page \<Rightarrow> key_page \<Rightarrow> string" where
  "authorityDiff a b = (case authorityFieldDiffs a b of [] \<Rightarrow> [] | d # _ \<Rightarrow> df_text d)"

section \<open>Routing\<close>

fun overrideOf :: "(bytes \<Rightarrow> bytes) \<Rightarrow> bytes \<Rightarrow> (acc_url option \<times> string) list \<Rightarrow> string option" where
  "overrideOf H accId [] = None"
| "overrideOf H accId ((a, p) # os) = (case a of Some u \<Rightarrow> if identityAccountId H u = accId then Some p else overrideOf H accId os | None \<Rightarrow> overrideOf H accId os)"

fun matching :: "nat \<Rightarrow> route list \<Rightarrow> refusal + string list" where
  "matching n [] = Inr []"
| "matching n (rt # rts) =
     (if ro_length rt = 0 \<or> ro_length rt > 64 then Inl (Refused ''routing table: a route has no length'')
      else bindE (matching n rts) (\<lambda>ms.
        Inr ((if int (drop_bit (64 - nat (ro_length rt)) n) = ro_value rt then [ro_partition rt] else []) @ ms)))"

definition routePartition :: "(bytes \<Rightarrow> bytes) \<Rightarrow> routing_table \<Rightarrow> string \<Rightarrow> refusal + string" where
  "routePartition H table account =
     (if rt_routes table = [] then Inl (Refused ''the routing table has no routes'')
      else (case fromBinary account of
              None \<Rightarrow> Inl (Refused ''not a URL'')
            | Some u \<Rightarrow>
                if isUnknown u then Inl (Refused ''the account cannot be routed'')
                else (case overrideOf H (identityAccountId H u) (rt_overrides table) of
                        Some p \<Rightarrow> Inr p
                      | None \<Rightarrow>
                          bindE (matching (routingNumber H u) (rt_routes table)) (\<lambda>ms.
                            case ms of [p] \<Rightarrow> Inr p | _ \<Rightarrow> Inl (Refused ''the routing table is not a partition of the space'')))))"

section \<open>The evidence\<close>

record index_proof =
  ix_position :: int
  ix_entry :: string
  ix_receipt :: bytes

record arrival =
  av_before :: "index_proof option"
  av_at :: index_proof

record hop =
  ho_page :: string
  ho_message :: string
  ho_signature :: string
  ho_block :: int
  ho_receipt :: bytes
  ho_arrival :: "arrival option"

record sequenced =
  sq_hash :: bytes
  sq_kind :: string
  sq_sigHash :: "bytes option"
  sq_source :: "acc_url option"
  sq_destination :: "acc_url option"
  sq_number :: int

record production =
  pr_account :: string
  pr_chain :: string
  pr_message :: string
  pr_receipt :: bytes
  pr_arrival :: arrival
  pr_sequenced :: "sequenced option"

record transport =
  tp_kind :: string
  tp_source :: string
  tp_destination :: string
  tp_number :: int

record vote =
  vt_authority :: string
  vt_origin :: string
  vt_vote :: string
  vt_transport :: transport
  vt_message :: string
  vt_receipt :: bytes
  vt_hops :: "hop list"
  vt_counted :: "hop list"
  vt_produced :: "production option"

record page_history =
  hi_entries :: "(string \<times> string) list"
  hi_index :: "string list"

record page_doc =
  pg_url :: string
  pg_state :: bytes
  pg_receipt :: bytes
  pg_chains :: "chain_root list"
  pg_pendingHash :: string
  pg_chainError :: string
  pg_partition :: string
  pg_roles :: "string list"
  pg_history :: "page_history option"

record anchor_doc =
  an_message :: bytes
  an_seq :: seq_msg
  an_receipt :: bytes

record evidence =
  ed_version :: string
  ed_account :: string
  ed_txHash :: string
  ed_anchor :: anchor_doc
  ed_pages :: "page_doc list"
  ed_anchors :: "(string \<times> anchor_doc) list"
  ed_votes :: "vote list"
  ed_transaction :: string
  ed_routing :: "check_account option"

text \<open>A page as it was proven (\<open>ProvenAcct\<close>), and the pages by the key of their URL in the order of the document.\<close>

record proven_acct =
  pn_acct :: wire_node
  pn_url :: acc_url
  pn_anchor :: xanchor
  pn_chain :: page_chain
  pn_page :: page_doc

type_synonym by_url = "(string \<times> proven_acct) list"

definition allHops :: "vote \<Rightarrow> hop list" where
  "allHops v = vt_hops v @ vt_counted v"

section \<open>Carried transactions and signatures\<close>

record judge_env =
  je_sig :: sig_env
  je_types :: tx_types

definition sha :: "judge_env \<Rightarrow> bytes \<Rightarrow> bytes" where
  "sha env = se_sha (je_sig env)"

definition txnHash :: "judge_env \<Rightarrow> wire_node \<Rightarrow> refusal + bytes" where
  "txnHash env txn = mapErr (\<lambda>_. Refused ''the transaction cannot be hashed'') (transactionHash (je_sig env) txn)"

definition signatureHash :: "judge_env \<Rightarrow> wire_node \<Rightarrow> refusal + bytes" where
  "signatureHash env sig = mapErr (\<lambda>_. Refused ''the signature cannot be encoded'') (hashOfNode (je_sig env) {} sig)"

definition decodeAccount :: "judge_env \<Rightarrow> bytes \<Rightarrow> refusal + wire_node" where
  "decodeAccount env state =
     bindE (mapErr (\<lambda>_. Refused ''the account does not decode'') (decodeUnion (se_codec (je_sig env)) ''Account'' state)) (\<lambda>n.
       case n of None \<Rightarrow> Inl (Refused ''the account is the empty object'') | Some a \<Rightarrow> Inr a)"

definition decodeTxnHex :: "judge_env \<Rightarrow> string \<Rightarrow> refusal + wire_node" where
  "decodeTxnHex env h =
     (case goHex h of
        None \<Rightarrow> Inl (Refused ''a transaction is not hex'')
      | Some raw \<Rightarrow>
          if raw = [] then Inl (Refused ''a transaction is not hex'')
          else
            bindE (mapErr (\<lambda>_. Refused ''a transaction does not decode'') (decodeTransaction (je_sig env) raw)) (\<lambda>txn.
              if bodyOf txn = None \<or> Model.principalOf txn = None then Inl (Refused ''a transaction has no body or principal'')
              else Inr txn))"

definition decodeSigHex :: "judge_env \<Rightarrow> string \<Rightarrow> refusal + wire_node option" where
  "decodeSigHex env h =
     (case goHex h of
        None \<Rightarrow> Inl (Refused ''a signature is not hex'')
      | Some raw \<Rightarrow>
          if raw = [] then Inl (Refused ''a signature is not hex'')
          else mapErr (\<lambda>_. Refused ''a signature does not decode'') (decodeSignature (je_sig env) raw))"

definition requireSig :: "wire_node option \<Rightarrow> refusal + wire_node" where
  "requireSig sig = (case sig of None \<Rightarrow> Inl (Refused ''a signature decodes to the empty object'') | Some s \<Rightarrow> Inr s)"

definition keySigState :: "sig_error \<Rightarrow> string" where
  "keySigState e =
     (case e of
        Gated (ExecutorVersionUnproven _ _ _ _ _) \<Rightarrow> ''g1_executor_version_unproven''
      | SigVerify.DelegationDepthExceeded _ \<Rightarrow> ''g1_delegation_depth_exceeded''
      | _ \<Rightarrow> ''g1_signature_invalid'')"

definition judgeKeySignature :: "judge_env \<Rightarrow> wire_node \<Rightarrow> wire_node \<Rightarrow> string \<Rightarrow> xanchor \<Rightarrow> int \<Rightarrow> refusal + verified" where
  "judgeKeySignature env sig txn network xa block =
     (case transactionHash (je_sig env) txn of
        Inl _ \<Rightarrow> Inl (Named ''g1_signature_invalid'' (xa_id xa) (xa_block xa))
      | Inr h \<Rightarrow>
          mapErr (\<lambda>e. Named (keySigState e) (xa_id xa) (xa_block xa))
            (verifyKeySignature (je_sig env) (Some sig)
              \<lparr>ve_txHash = h, ve_transaction = Some txn, ve_networkName = network, ve_where = Some (goLower (xa_id xa), block)\<rparr>))"

section \<open>What these compute\<close>

lemma rolesLoop_exact:
  "rolesLoop out rs = Inr out' \<Longrightarrow> distinct out \<Longrightarrow> set out \<subseteq> set KNOWN_ROLES \<Longrightarrow>
     distinct out' \<and> set out' = set out \<union> set rs \<and> set rs \<subseteq> set KNOWN_ROLES"
proof (induction out rs rule: rolesLoop.induct)
  case (2 out r rs)
  then have k: "r \<in> set KNOWN_ROLES" by (auto split: if_splits)
  from 2 k have "distinct out' \<and> set out' = set (if r \<in> set out then out else out @ [r]) \<union> set rs \<and> set rs \<subseteq> set KNOWN_ROLES"
    by (intro "2.IH") auto
  with k show ?case by (auto split: if_splits)
qed auto

lemma rankIn_nth: "distinct ks \<Longrightarrow> i < length ks \<Longrightarrow> rankIn ks (ks ! i) = i"
  by (induction ks arbitrary: i) (auto simp: nth_Cons split: nat.splits)

lemma rankIn_inj: "distinct ks \<Longrightarrow> inj_on (rankIn ks) (set ks)"
  by (auto simp: inj_on_def in_set_conv_nth rankIn_nth)

lemma rankIn_sorted: "distinct ks \<Longrightarrow> sorted (map (rankIn ks) (filter P ks))"
proof -
  assume d: "distinct ks"
  have "map (rankIn ks) ks = [0..<length ks]" by (rule nth_equalityI) (auto simp: rankIn_nth [OF d])
  then have "sorted (map (rankIn ks) ks)" by simp
  then show ?thesis by (simp add: sorted_filter)
qed

lemma known_distinct: "distinct KNOWN_ROLES"
  by code_simp

lemma canonicalRoles_Inr:
  "canonicalRoles roles = Inr out \<longleftrightarrow> set roles \<subseteq> set KNOWN_ROLES \<and> out = filter (\<lambda>k. k \<in> set roles) KNOWN_ROLES"
proof -
  have ok: "sort_key (rankIn KNOWN_ROLES) l = filter (\<lambda>k. k \<in> set roles) KNOWN_ROLES"
    if "rolesLoop [] roles = Inr l" for l
  proof -
    from rolesLoop_exact [OF that] have l: "distinct l" "set l = set roles" "set roles \<subseteq> set KNOWN_ROLES" by auto
    then have "mset l = mset (filter (\<lambda>k. k \<in> set roles) KNOWN_ROLES)"
      by (intro set_eq_iff_mset_eq_distinct [THEN iffD1]) (auto simp: known_distinct)
    then have "sort_key (rankIn KNOWN_ROLES) l = sort_key (rankIn KNOWN_ROLES) (filter (\<lambda>k. k \<in> set roles) KNOWN_ROLES)"
      using l by (intro sort_key_eq_sort_key) (auto intro: inj_on_subset [OF rankIn_inj [OF known_distinct]])
    then show ?thesis by (simp add: sort_key_id_if_sorted [OF rankIn_sorted [OF known_distinct]])
  qed
  have total: "set rs \<subseteq> set KNOWN_ROLES \<Longrightarrow> \<exists>l. rolesLoop out rs = Inr l" for out rs
    by (induction out rs rule: rolesLoop.induct) auto
  show ?thesis using ok total [of roles "[]"] rolesLoop_exact [of "[]" roles] by (auto simp: canonicalRoles_def results)
qed

definition blacklistOf :: "key_page \<Rightarrow> int" where
  "blacklistOf p = (case kp_blacklist p of None \<Rightarrow> 0 | Some x \<Rightarrow> x)"

text \<open>Two states of a page with the same authority: everything that decides a vote, the delegates up to case.\<close>

definition sameAuthority :: "key_page \<Rightarrow> key_page \<Rightarrow> bool" where
  "sameAuthority a b \<longleftrightarrow> kp_version a = kp_version b \<and> kp_accept a = kp_accept b \<and> kp_reject a = kp_reject b \<and>
     kp_response a = kp_response b \<and> kp_block a = kp_block b \<and> blacklistOf a = blacklistOf b \<and>
     list_all2 (\<lambda>j k. ks_hash j = ks_hash k \<and> delegateText j = delegateText k) (kp_keys a) (kp_keys b)"

lemma diffOf_Nil [simp]: "diffOf f a b t = [] \<longleftrightarrow> a = b"
  by (simp add: diffOf_def)

lemma keyDiff_Nil: "keyDiff i a b = [] \<longleftrightarrow> ks_hash a = ks_hash b \<and> delegateText a = delegateText b"
  by (auto simp: keyDiff_def Let_def toHex_inj)

lemma fieldDiffs_Nil: "authorityFieldDiffs a b = [] \<longleftrightarrow> sameAuthority a b"
  by (auto simp: authorityFieldDiffs_def sameAuthority_def numDiff_def decInt_inj decNat_inj blacklistOf_def keyDiff_Nil list_all2_conv_all_nth)

lemma fieldDiffs_text: "d \<in> set (authorityFieldDiffs a b) \<Longrightarrow> df_text d \<noteq> []"
  by (auto simp: authorityFieldDiffs_def numDiff_def diffOf_def keyDiff_def Let_def split: if_splits)

lemma authorityDiff_exact: "authorityDiff a b = [] \<longleftrightarrow> sameAuthority a b"
  using fieldDiffs_text [of _ a b] by (auto simp: authorityDiff_def fieldDiffs_Nil [symmetric] split: list.splits)

text \<open>A table routes an account the same way whatever the order of its routes.\<close>

lemma matching_Inr:
  "matching n rts = Inr ms \<longleftrightarrow> (\<forall>rt \<in> set rts. ro_length rt \<noteq> 0 \<and> ro_length rt \<le> 64) \<and>
     ms = map ro_partition (filter (\<lambda>rt. int (drop_bit (64 - nat (ro_length rt)) n) = ro_value rt) rts)"
  by (induction rts arbitrary: ms) (auto simp: results)

end
