(* ===== verification/Timeline.thy ===== *)
theory Timeline
  imports Judge Vote
begin

text \<open>
  The certified timeline of evidence 2.1: \<open>packages/verify/src/s3/timeline.ts\<close> (its \<open>receiptPositions\<close> is in the theory \<open>Position\<close>). A page's history
  is folded to its proven chains and replayed to its proven state; the block of a counted signature is derived from the page's index chain; the vote
  model is run on the result. A page the code looks up and does not find where an earlier step requires it is a \<open>TypeError\<close> there, \<open>Refused\<close> here.
\<close>

section \<open>Chains\<close>

definition chainUnbound :: "page_chain \<Rightarrow> string" where
  "chainUnbound pc =
     (let note = (case pc_note pc of None \<Rightarrow> [] | Some n \<Rightarrow> n) in
      if CHR '':'' \<in> set note \<and> startsWith ''g1_'' note then takeWhile (\<lambda>c. c \<noteq> CHR '':'') note else ''g1_chain_unbound_pending'')"

definition unboundRefusal :: "proven_acct \<Rightarrow> refusal" where
  "unboundRefusal pa = Named (chainUnbound (pn_chain pa)) (xa_id (pn_anchor pa)) (xa_block (pn_anchor pa))"

definition boundChain :: "page_doc \<Rightarrow> string \<Rightarrow> chain_root option" where
  "boundChain p name = find (\<lambda>c. cr_name c = name) (pg_chains p)"

definition nthOpt :: "'a option list \<Rightarrow> nat \<Rightarrow> 'a option" where
  "nthOpt xs i = (if i < length xs then xs ! i else None)"

text \<open>One slot of the folded state against the slot of the document (\<open>None\<close> is null or out of range).\<close>

definition slotMatches :: "bytes option \<Rightarrow> string option \<Rightarrow> bool" where
  "slotMatches a c =
     (case c of
        None \<Rightarrow> (case a of None \<Rightarrow> True | Some x \<Rightarrow> x = [])
      | Some s \<Rightarrow>
          (case goHex s of
             None \<Rightarrow> False
           | Some b \<Rightarrow> (if b = [] \<and> (case a of None \<Rightarrow> True | Some x \<Rightarrow> x = []) then True else a = Some b)))"

definition foldMatches :: "(bytes \<Rightarrow> bytes) \<Rightarrow> bytes list \<Rightarrow> chain_root \<Rightarrow> bool" where
  "foldMatches H entries c =
     (if int (length entries) \<noteq> toNumber (cr_count c) then False
      else
        let st = foldl (addEntry H) newMerkleState entries;
            cp = (case cr_pending c of None \<Rightarrow> [] | Some ps \<Rightarrow> ps);
            n = max (length (pending st)) (length cp)
        in list_all (\<lambda>i. slotMatches (nthOpt (pending st) i) (nthOpt cp i)) [0..<n])"

record index_entry =
  ie_source :: int
  ie_block :: int

definition decodeIndexEntry :: "judge_env \<Rightarrow> string \<Rightarrow> refusal + index_entry \<times> bytes" where
  "decodeIndexEntry env h =
     (case goHex h of
        None \<Rightarrow> Inl (Refused ''an index chain entry is not 32 bytes of hex'')
      | Some raw \<Rightarrow>
          if length raw \<noteq> 32 then Inl (Refused ''an index chain entry is not 32 bytes of hex'')
          else
            bindE (mapErr (\<lambda>_. Refused ''an index chain entry does not decode'') (decodeObject (se_codec (je_sig env)) ''IndexEntry'' raw)) (\<lambda>n.
              Inr (\<lparr>ie_source = toNumber (Model.bigOf n ''source''), ie_block = toNumber (Model.bigOf n ''blockIndex'')\<rparr>, raw)))"

section \<open>The history of a page\<close>

text \<open>The blocks of the entries from position \<open>j\<close> on: the first index entry from \<open>k\<close> on (the list) whose source reaches the position.\<close>

fun blocksFrom :: "index_entry list \<Rightarrow> nat \<Rightarrow> nat \<Rightarrow> int list option" where
  "blocksFrom idx j 0 = Some []"
| "blocksFrom idx j (Suc n) =
     (case dropWhile (\<lambda>e. ie_source e < int j) idx of
        [] \<Rightarrow> None
      | e # es \<Rightarrow> map_option (\<lambda>bs. ie_block e # bs) (blocksFrom (e # es) (j + 1) n))"

definition increasing :: "index_entry list \<Rightarrow> bool" where
  "increasing idx =
     list_all (\<lambda>i. \<not> (ie_source (idx ! i) \<le> ie_source (idx ! (i - 1)) \<or> ie_block (idx ! i) \<le> ie_block (idx ! (i - 1)))) [1..<length idx]"

definition historyEntry :: "judge_env \<Rightarrow> string \<times> string \<Rightarrow> refusal + wire_node \<times> bytes" where
  "historyEntry env e =
     bindE (mapErr (\<lambda>_. Refused ''a history entry does not decode'') (decodeTxnHex env (fst e))) (\<lambda>txn.
     bindE (txnHash env txn) (\<lambda>h. Inr (txn, h)))"

text \<open>\<open>initiatorOf\<close> of \<open>govvote.ts\<close> on a decoded signature, with the hashes of the signature verifier.\<close>

definition initiatorOfSig :: "judge_env \<Rightarrow> wire_node \<Rightarrow> wire_node \<Rightarrow> refusal + initiator" where
  "initiatorOfSig env txn sig =
     bindE (mapErr (\<lambda>_. Refused ''the signature cannot be encoded'') (SigVerify.metadataHash (je_sig env) sig)) (\<lambda>m.
       mapErr (\<lambda>_. Refused ''the signature is not that of the initiator'')
         (Replay.initiatorOf (sha env) (\<lambda>_. m) (SigVerify.publicKeyHash (je_sig env)) txn sig))"

definition historyEvent :: "judge_env \<Rightarrow> string \<times> string \<Rightarrow> wire_node \<times> bytes \<Rightarrow> int \<Rightarrow> refusal + replay_event" where
  "historyEvent env e th block =
     bindE (if (case bodyOf (fst th) of Some b \<Rightarrow> cls b = ''UpdateKey'' | None \<Rightarrow> False)
            then bindE (bindE (decodeSigHex env (snd e)) requireSig) (\<lambda>sig. bindE (initiatorOfSig env (fst th) sig) (\<lambda>i. Inr (Some i)))
            else Inr None) (\<lambda>ini.
       Inr \<lparr>ev_hash = toHex (snd th), ev_block = block, ev_txn = fst th, ev_initiator = ini\<rparr>)"

fun historyEvents :: "judge_env \<Rightarrow> (string \<times> string) list \<Rightarrow> (wire_node \<times> bytes) list \<Rightarrow> int list \<Rightarrow> refusal + replay_event list" where
  "historyEvents env (e # es) (t # ts) (b # bs) =
     bindE (historyEvent env e t b) (\<lambda>ev. bindE (historyEvents env es ts bs) (\<lambda>evs. Inr (ev # evs)))"
| "historyEvents env _ _ _ = Inr []"

definition foldedHistory :: "judge_env \<Rightarrow> proven_acct \<Rightarrow> page_doc \<Rightarrow> page_history \<Rightarrow> refusal + (wire_node \<times> bytes) list \<times> int list" where
  "foldedHistory env pa p h =
     (let bad = Named ''g1_history_fold_mismatch'' (xa_id (pn_anchor pa)) (xa_block (pn_anchor pa)) in
      case (boundChain p ''main'', boundChain p ''main-index'') of
        (Some main, Some mainIdx) \<Rightarrow>
          guardE (hi_entries h = []) bad (
          bindE (mapE (historyEntry env) (hi_entries h)) (\<lambda>txns.
          guardE (\<not> foldMatches (sha env) (map snd txns) main) bad (
          bindE (mapE (decodeIndexEntry env) (hi_index h)) (\<lambda>ents.
          guardE (\<not> foldMatches (sha env) (map snd ents) mainIdx) bad (
            let idx = map fst ents in
            case blocksFrom idx 0 (length txns) of
              None \<Rightarrow> Inl bad
            | Some blocks \<Rightarrow>
                guardE (\<not> increasing idx) bad (
                guardE (idx = [] \<or> ie_source (last idx) \<noteq> int (length txns) - 1) bad (
                guardE (last blocks > xa_block (pn_anchor pa))
                  (Named ''g1_block_before_signature'' (xa_id (pn_anchor pa)) (xa_block (pn_anchor pa)))
                  (Inr (txns, blocks)))))))))
      | _ \<Rightarrow> Inl bad)"

definition replayHistory :: "judge_env \<Rightarrow> proven_acct \<Rightarrow> page_doc \<Rightarrow> page_history \<Rightarrow> refusal + page_state list" where
  "replayHistory env pa p h =
     (let named = (\<lambda>c. Named c (xa_id (pn_anchor pa)) (xa_block (pn_anchor pa))) in
      guardE (\<not> pc_bound (pn_chain pa)) (unboundRefusal pa) (
      guardE (cls (pn_acct pa) \<noteq> ''KeyPage'') (Refused ''a history of an account that is not a key page'') (
      case keyPageFrom (pn_acct pa) of
        None \<Rightarrow> Inl (Refused ''an account has no URL'')
      | Some kp \<Rightarrow>
          bindE (foldedHistory env pa p h) (\<lambda>(txns, blocks).
          bindE (mapErr (\<lambda>_. named ''g1_history_unreplayable'') (genesisPage (pg_url p) (fst (hd txns)))) (\<lambda>genesis.
          bindE (mapErr (\<lambda>_. named ''g1_history_unreplayable'') (historyEvents env (tl (hi_entries h)) (tl txns) (tl blocks))) (\<lambda>events.
          bindE (mapErr (\<lambda>_. named ''g1_history_unreplayable'') (replay (je_types env) genesis (hd blocks) events)) (\<lambda>(states, head).
            if authorityDiff head kp \<noteq> [] then Inl (named ''g1_history_head_mismatch'') else Inr states)))))))"

section \<open>Arrivals\<close>

definition rootOf :: "chain_root \<Rightarrow> refusal + bytes" where
  "rootOf c =
     (case goHex (cr_anchor c) of
        None \<Rightarrow> Inl (Refused ''a chain has no 32-byte root'')
      | Some b \<Rightarrow> if length b \<noteq> 32 then Inl (Refused ''a chain has no 32-byte root'') else Inr b)"

definition chainCount :: "chain_root \<Rightarrow> nat" where
  "chainCount c = nat (toNumber (cr_count c))"

definition sidesOf :: "receipt \<Rightarrow> bool list" where
  "sidesOf r = map re_right (rc_entries r)"

definition checkIndexProof :: "judge_env \<Rightarrow> index_proof \<Rightarrow> chain_root \<Rightarrow> refusal + index_entry" where
  "checkIndexProof env ip ir =
     bindE (decodeIndexEntry env (ix_entry ip)) (\<lambda>(e, raw).
     bindE (rootOf ir) (\<lambda>root.
       case decodeReceiptBin (ix_receipt ip) of
         None \<Rightarrow> Inl (Refused ''receipt: fields are out of order'')
       | Some r \<Rightarrow>
           if rc_start r \<noteq> raw \<or> rc_anchor r \<noteq> root \<or> \<not> receiptValid (sha env) r
           then Inl (Refused ''the index entry is not a member of the chain'')
           else if receiptPositions (sidesOf r) (chainCount ir) \<noteq> [ix_position ip]
           then Inl (Refused ''the receipt of the index entry allows other positions'')
           else Inr e))"

definition inChain :: "judge_env \<Rightarrow> bytes \<Rightarrow> string \<Rightarrow> bytes \<Rightarrow> bool" where
  "inChain env bin messageHex root =
     (case goHex messageHex of
        None \<Rightarrow> False
      | Some msg \<Rightarrow>
          if length msg \<noteq> 32 then False
          else (case decodeReceiptBin bin of
                  None \<Rightarrow> False
                | Some d \<Rightarrow> rc_start d = msg \<and> rc_anchor d = root \<and> receiptValid (sha env) d))"

definition deriveArrival :: "judge_env \<Rightarrow> proven_acct \<Rightarrow> page_doc \<Rightarrow> string \<Rightarrow> string \<Rightarrow> bytes \<Rightarrow> arrival \<Rightarrow> refusal + int" where
  "deriveArrival env pa p chain msgHex rcpt a =
     (let part = xa_id (pn_anchor pa); blk = xa_block (pn_anchor pa); bad = Named ''g1_arrival_unproven'' part blk in
      guardE (\<not> pc_bound (pn_chain pa)) (unboundRefusal pa) (
      case (boundChain p chain, boundChain p (chain @ ''-index'')) of
        (Some cr, Some ir) \<Rightarrow>
          bindE (rootOf cr) (\<lambda>root.
          guardE (\<not> inChain env rcpt msgHex root) (Named ''g1_block_before_signature'' part blk) (
          case decodeReceiptBin rcpt of
            None \<Rightarrow> Inl (Refused ''TypeError'')
          | Some r \<Rightarrow>
              (case receiptPositions (sidesOf r) (chainCount cr) of
                 [pos] \<Rightarrow>
                   bindE (mapErr (\<lambda>_. bad) (checkIndexProof env (av_at a) ir)) (\<lambda>at.
                   guardE (ie_source at < pos \<or> ie_source at \<ge> toNumber (cr_count cr)) bad (
                   bindE (case av_before a of
                            None \<Rightarrow> guardE (ix_position (av_at a) \<noteq> 0) bad (Inr ())
                          | Some b \<Rightarrow>
                              bindE (mapErr (\<lambda>_. bad) (checkIndexProof env b ir)) (\<lambda>before.
                              guardE (ix_position b + 1 \<noteq> ix_position (av_at a)) bad (
                              guardE (ie_source before \<ge> pos) bad (
                              guardE (ie_block before \<ge> ie_block at \<or> ie_source before \<ge> ie_source at) bad (Inr ()))))) (\<lambda>_.
                   guardE (ie_block at > blk) (Named ''g1_block_before_signature'' part blk) (
                   Inr (ie_block at)))))
               | _ \<Rightarrow> Inl bad)))
      | _ \<Rightarrow> Inl bad))"

end
