(* ===== verification/Demo.thy ===== *)
theory Demo
  imports Timeline
begin

text \<open>
  A small network the examples evaluate: a codec that knows six classes, toy curves and a toy hash with 32 bytes of output, and the identity
  \<open>acc://bob.acme\<close> with one key page, created in block 1.
\<close>

section \<open>The tables\<close>

definition bobHash :: "bytes \<Rightarrow> bytes" where
  "bobHash b = of_nat (length b) # sum_list b # replicate 30 0"

definition bobCodec :: codec_env where
  "bobCodec = \<lparr>ce_class = (\<lambda>c.
        if c = ''Transaction'' then Some (Some [
          SdkField 1 ''header'' KReference False False None [], SdkField 2 ''body'' KUnion False False None []])
        else if c = ''TransactionHeader'' then Some (Some [
          SdkField 1 ''principal'' KString False False None [], SdkField 2 ''initiator'' KHash False False None []])
        else if c = ''CreateIdentity'' then Some (Some [
          SdkField 1 ''type'' KUint False True None [], SdkField 2 ''url'' KString False False None [],
          SdkField 3 ''keyHash'' KBytes False False None [], SdkField 4 ''keyBookUrl'' KString False False None []])
        else if c = ''SendTokens'' then Some (Some [SdkField 1 ''type'' KUint False True None []])
        else if c = ''IndexEntry'' then Some (Some [
          SdkField 1 ''source'' KUint False False None [], SdkField 3 ''blockIndex'' KUint False False None []])
        else if c = ''ED25519Signature'' then Some (Some [
          SdkField 1 ''type'' KUint False True None [], SdkField 2 ''publicKey'' KBytes False False None [],
          SdkField 3 ''signature'' KBytes False False None [], SdkField 4 ''signer'' KString False False None [],
          SdkField 5 ''signerVersion'' KUint False False None []])
        else None),
     ce_union = (\<lambda>u.
        if u = ''Signature'' then Some (\<lambda>t. if t = 2 then Some ''ED25519Signature'' else None)
        else if u = ''TransactionBody'' then Some (\<lambda>t. if t = 1 then Some ''CreateIdentity'' else if t = 3 then Some ''SendTokens'' else None)
        else None),
     ce_hashAlgorithm = (\<lambda>_. True), ce_executorVersion = (\<lambda>_. True), ce_voteType = (\<lambda>_. True), ce_dataEntryType = (\<lambda>_. True),
     ct_schema = (\<lambda>c. if c = ''Transaction'' then Some [(''header'', ''TransactionHeader''), (''body'', ''TransactionBody'')] else None),
     ct_valueStructs = (\<lambda>_. []), ct_valueBigints = (\<lambda>_. []), ct_transactionBodies = [], ct_transactionTypes = (\<lambda>_. None)\<rparr>"

definition bobCurves :: curve_lib where
  "bobCurves = \<lparr>cl_sha512 = (\<lambda>b. bobHash b @ bobHash b), cl_edOrder = 2 ^ 252, cl_edPoint = Some, cl_edEquation = (\<lambda>s r a k. s = 0 \<and> r = a),
     cl_secpP = 2 ^ 255, cl_secpN = 2 ^ 255, cl_secpPoint = (\<lambda>_. None), cl_secpVerify = (\<lambda>_ _ _. False), cl_ecOrder = (\<lambda>_. 2),
     cl_ecVerify = (\<lambda>_ _ _ _. False)\<rparr>"

definition bobEnv :: judge_env where
  "bobEnv = \<lparr>je_sig = \<lparr>se_codec = bobCodec, se_sha = bobHash, se_keccak = bobHash, se_ripemd = bobHash, se_curves = bobCurves,
       se_eip712 = (\<lambda>_ _. None), se_typeName = (\<lambda>c. if c = ''ED25519Signature'' then ''ed25519'' else c)\<rparr>,
     je_types = \<lparr>UpdateKeyPage = 15, UpdateAccountAuth = 21\<rparr>\<rparr>"

lemma bob_sha [simp]: "sha bobEnv = bobHash"
  by (simp add: sha_def bobEnv_def)

lemma length_bobHash [simp]: "length (bobHash b) = 32"
  by (simp add: bobHash_def)

section \<open>The page and its history\<close>

definition bobKeyHash :: bytes where
  "bobKeyHash = bobHash (replicate 32 0)"

definition bobGenesis :: wire_node where
  "bobGenesis = Node ''Transaction'' [
     (''header'', WNode (Node ''TransactionHeader'' [(''principal'', WText ''acc://bob.acme''), (''initiator'', WBytes (replicate 32 1))] [] False)),
     (''body'', WNode (Node ''CreateIdentity'' [(''type'', WBig 1), (''url'', WText ''acc://bob.acme''), (''keyHash'', WBytes bobKeyHash),
        (''keyBookUrl'', WText ''acc://bob.acme/book'')] [] False))] [] False"

definition encoded :: "wire_node \<Rightarrow> bytes" where
  "encoded n = (case encodeNode bobCodec {} n of Inl _ \<Rightarrow> [] | Inr b \<Rightarrow> b)"

lemma bob_genesis_tx: "decodeTransaction (je_sig bobEnv) (encoded bobGenesis) = Inr bobGenesis" "encoded bobGenesis \<noteq> []"
  "bodyOf bobGenesis \<noteq> None" "Model.principalOf bobGenesis \<noteq> None"
  by code_simp+

lemma decodeTxnHex_toHex: "raw \<noteq> [] \<Longrightarrow> decodeTransaction (je_sig env) raw = Inr txn \<Longrightarrow> bodyOf txn \<noteq> None \<Longrightarrow> Model.principalOf txn \<noteq> None \<Longrightarrow>
   decodeTxnHex env (toHex raw) = Inr txn"
  by (simp add: decodeTxnHex_def)

definition bobEntry :: bytes where
  "bobEntry = 64 # 19 # replicate 30 0"

lemma bob_entry: "historyEntry bobEnv (toHex (encoded bobGenesis), []) = Inr (bobGenesis, bobEntry)"
proof -
  have "txnHash bobEnv bobGenesis = Inr bobEntry" by code_simp
  then show ?thesis using decodeTxnHex_toHex [OF bob_genesis_tx(2,1,3,4)] by (simp add: historyEntry_def)
qed

text \<open>An index entry: the source and the block it ends, in 32 bytes.\<close>

definition bobIndex :: "byte \<Rightarrow> byte \<Rightarrow> bytes" where
  "bobIndex source block = (if source = 0 then [] else [1, source]) @ [3, block] @ replicate (if source = 0 then 30 else 28) 0"

lemma bob_index: "decodeObject bobCodec ''IndexEntry'' (bobIndex 0 1) = Inr (Node ''IndexEntry'' [(''blockIndex'', WBig 1)] (replicate 30 0) False)"
  "decodeObject bobCodec ''IndexEntry'' (bobIndex 0 3) = Inr (Node ''IndexEntry'' [(''blockIndex'', WBig 3)] (replicate 30 0) False)"
  "decodeObject bobCodec ''IndexEntry'' (bobIndex 1 5) = Inr (Node ''IndexEntry'' [(''source'', WBig 1), (''blockIndex'', WBig 5)] (replicate 28 0) False)"
  by code_simp+

lemma length_bobIndex [simp]: "length (bobIndex s b) = 32"
  by (simp add: bobIndex_def)

lemma bob_codec: "se_codec (je_sig bobEnv) = bobCodec"
  by (simp add: bobEnv_def)

lemma bob_indexEntry:
  "decodeIndexEntry bobEnv (toHex (bobIndex 0 1)) = Inr (\<lparr>ie_source = 0, ie_block = 1\<rparr>, bobIndex 0 1)"
  "decodeIndexEntry bobEnv (toHex (bobIndex 0 3)) = Inr (\<lparr>ie_source = 0, ie_block = 3\<rparr>, bobIndex 0 3)"
  "decodeIndexEntry bobEnv (toHex (bobIndex 1 5)) = Inr (\<lparr>ie_source = 1, ie_block = 5\<rparr>, bobIndex 1 5)"
  by (simp_all add: decodeIndexEntry_def bob_codec bob_index Model.bigOf_def fieldOf_def toNumber_small)

text \<open>A chain told by its root alone: one entry, or two.\<close>

definition single :: "string \<Rightarrow> bytes \<Rightarrow> chain_root" where
  "single name a = \<lparr>cr_name = name, cr_pending = Some [Some (toHex a)], cr_count = 1, cr_anchor = toHex a\<rparr>"

definition double :: "string \<Rightarrow> bytes \<Rightarrow> chain_root" where
  "double name a = \<lparr>cr_name = name, cr_pending = Some [None, Some (toHex a)], cr_count = 2, cr_anchor = toHex a\<rparr>"

definition bobOther :: bytes where
  "bobOther = replicate 32 7"

definition bobMessage :: bytes where
  "bobMessage = replicate 32 9"

definition bobHistory :: page_history where
  "bobHistory = \<lparr>hi_entries = [(toHex (encoded bobGenesis), [])], hi_index = [toHex (bobIndex 0 1)]\<rparr>"

definition bobChains :: "chain_root list" where
  "bobChains = [single ''main'' bobEntry, single ''main-index'' (bobIndex 0 1), double ''signature'' (bobHash (bobOther @ bobMessage)),
     double ''signature-index'' (bobHash (bobIndex 0 3 @ bobIndex 1 5))]"

definition bobPage :: page_doc where
  "bobPage = \<lparr>pg_url = ''acc://bob.acme/book/1'', pg_state = [], pg_receipt = [], pg_chains = bobChains, pg_pendingHash = [], pg_chainError = [],
     pg_partition = ''acc://bvn-BVN1.acme'', pg_roles = [], pg_history = Some bobHistory\<rparr>"

definition bobAccount :: wire_node where
  "bobAccount = Node ''KeyPage'' [(''url'', WText ''acc://bob.acme/book/1''), (''version'', WBig 1), (''acceptThreshold'', WBig 1),
     (''keys'', WList [WNode (Node ''KeySpec'' [(''publicKeyHash'', WBytes bobKeyHash)] [] False)])] [] False"

definition bobProven :: proven_acct where
  "bobProven = \<lparr>pn_acct = bobAccount, pn_url = mkUrl ''bob.acme'' ''/book/1'' [], pn_anchor = \<lparr>xa_source = ''acc://bvn-BVN1.acme'', xa_id = ''BVN1'', xa_block = 9, xa_stateRoot = []\<rparr>,
     pn_chain = \<lparr>pc_url = ''acc://bob.acme/book/1'', pc_bound = True, pc_mainHeight = 1, pc_note = None\<rparr>, pn_page = bobPage\<rparr>"

definition bobPageState :: key_page where
  "bobPageState = (newKeyPage (mkUrl ''bob.acme'' ''/book/1'' []) 1 1)\<lparr>kp_keys := [\<lparr>ks_hash = bobKeyHash, ks_lastUsed = 0, ks_delegate = None\<rparr>]\<rparr>"

lemma bob_pageFrom: "keyPageFrom bobAccount = Some bobPageState"
  by code_simp

lemma bob_genesisPage: "genesisPage ''acc://bob.acme/book/1'' bobGenesis = Inr bobPageState"
  by code_simp

end
