(* ===== verification/TimelineSound.thy ===== *)
theory TimelineSound
  imports Timeline Position Demo
begin

text \<open>
  What the certified timeline establishes: the entries of a folded chain are the chain's own, an accepted history is the page's own history with the
  block of every entry, and a derived arrival is the block of the first index entry that reaches the entry's position.
\<close>

section \<open>Folding\<close>

definition filledSlots :: "bytes option list \<Rightarrow> bool" where
  "filledSlots ps \<longleftrightarrow> (\<forall>x. Some x \<in> set ps \<longrightarrow> length x = 32)"

lemma filledSlots_simps [simp]:
  "filledSlots []" "filledSlots (None # ps) \<longleftrightarrow> filledSlots ps" "filledSlots (Some v # ps) \<longleftrightarrow> length v = 32 \<and> filledSlots ps"
  "filledSlots (ps @ qs) \<longleftrightarrow> filledSlots ps \<and> filledSlots qs"
  by (auto simp: filledSlots_def)

lemma carry_filled:
  assumes "\<And>x. length (H x) = 32"
  shows "filledSlots ps \<Longrightarrow> length h = 32 \<Longrightarrow> filledSlots (carry H ps h)"
  using assms by (induction H ps h rule: carry.induct) simp_all

lemma addEntry_filled:
  assumes "\<And>x. length (H x) = 32"
  shows "filledSlots (pending s) \<Longrightarrow> length h = 32 \<Longrightarrow> filledSlots (pending (addEntry H s h))"
  by (simp add: addEntry_def Let_def carry_filled [OF assms])

lemma folded_filled:
  assumes "\<And>x. length (H x) = 32"
  shows "filledSlots (pending s) \<Longrightarrow> \<forall>x \<in> set xs. length x = 32 \<Longrightarrow> filledSlots (pending (foldl (addEntry H) s xs))"
  by (induction xs arbitrary: s) (simp_all add: addEntry_filled [OF assms])

lemma nthOpt_out [simp]: "length ps \<le> i \<Longrightarrow> nthOpt ps i = None"
  by (simp add: nthOpt_def)

lemma slotMatches_None [simp]: "slotMatches None None"
  by (simp add: slotMatches_def)

lemma nthOpt_filled: "filledSlots ps \<Longrightarrow> nthOpt ps i = Some x \<Longrightarrow> length x = 32"
  by (auto simp: nthOpt_def filledSlots_def in_set_conv_nth split: if_splits)

lemma slotMatches_filled:
  assumes "slotMatches a c" and "slotMatches b c" and "\<forall>x. a = Some x \<or> b = Some x \<longrightarrow> x \<noteq> []"
  shows "a = b"
  using assms by (cases a; cases b) (auto simp: slotMatches_def split: option.splits if_splits)

lemma anchorStep_skip: "(\<forall>i. nthOpt ps i = None) \<Longrightarrow> foldl (anchorStep H) a ps = a"
proof (induction ps)
  case (Cons p ps)
  have "nthOpt ps i = None" for i using Cons.prems [rule_format, of "Suc i"] by (auto simp: nthOpt_def split: if_splits)
  moreover have "p = None" using Cons.prems [rule_format, of 0] by (simp add: nthOpt_def)
  ultimately show ?case using Cons.IH by (cases a) simp_all
qed simp

lemma anchorStep_slots: "(\<forall>i. nthOpt ps i = nthOpt qs i) \<Longrightarrow> foldl (anchorStep H) a ps = foldl (anchorStep H) a qs"
proof (induction ps arbitrary: a qs)
  case Nil
  then show ?case using anchorStep_skip [of qs H a] by (simp add: nthOpt_def)
next
  case (Cons p ps)
  show ?case
  proof (cases qs)
    case Nil
    then show ?thesis using Cons.prems anchorStep_skip [of "p # ps" H a] by (simp add: nthOpt_def)
  next
    case (Cons q qs')
    have "nthOpt ps i = nthOpt qs' i" for i
      using Cons.prems [rule_format, of "Suc i"] unfolding Cons by (simp add: nthOpt_def split: if_splits)
    moreover have "p = q" using Cons.prems [rule_format, of 0] unfolding Cons by (simp add: nthOpt_def)
    ultimately show ?thesis using Cons.IH Cons by simp
  qed
qed

definition slotsOf :: "chain_root \<Rightarrow> string option list" where
  "slotsOf c = (case cr_pending c of None \<Rightarrow> [] | Some ps \<Rightarrow> ps)"

definition foldedSlots :: "(bytes \<Rightarrow> bytes) \<Rightarrow> bytes list \<Rightarrow> bytes option list" where
  "foldedSlots H xs = pending (foldl (addEntry H) newMerkleState xs)"

lemma fold_root:
  assumes "xs \<noteq> []"
  shows "foldl (anchorStep H) None (foldedSlots H xs) = Some (mth H xs)"
proof -
  have "represents H (foldl (addEntry H) newMerkleState xs) xs"
    using accumulate_represents [OF new_represents, of H xs] by simp
  then show ?thesis using anchor_foldl_None [of H 0 _ xs] assms by (simp add: represents_def foldedSlots_def)
qed

lemma foldMatches_iff:
  "foldMatches H xs c \<longleftrightarrow> int (length xs) = toNumber (cr_count c) \<and> (\<forall>i. slotMatches (nthOpt (foldedSlots H xs) i) (nthOpt (slotsOf c) i))"
proof -
  have "slotMatches (nthOpt ps i) (nthOpt cs i)" if "\<not> i < max (length ps) (length cs)" for ps and cs :: "string option list" and i
    using that by simp
  then have "(\<forall>i. slotMatches (nthOpt ps i) (nthOpt cs i)) \<longleftrightarrow> list_all (\<lambda>i. slotMatches (nthOpt ps i) (nthOpt cs i)) [0..<max (length ps) (length cs)]"
    for ps and cs :: "string option list"
    by (force simp: list_all_iff)
  then show ?thesis by (simp add: foldMatches_def Let_def foldedSlots_def slotsOf_def)
qed

text \<open>The entries that fold to a chain are the entries of the chain: the root \<open>compute\<close> derives for the binding is the root of the folded entries.\<close>

lemma anchorStep_compute:
  "computeFrom H name i n a ps = Inr (m, x) \<Longrightarrow>
     x = (case foldl (anchorStep H) a (map (\<lambda>p. case p of None \<Rightarrow> None | Some v \<Rightarrow> okOpt (hexBytesLoose v ''chain pending entry'')) ps) of
            None \<Rightarrow> replicate 32 0 | Some y \<Rightarrow> y)"
proof (induction ps arbitrary: i n a)
  case (Cons p ps)
  show ?case
  proof (cases p)
    case None
    with Cons show ?thesis by (cases a) auto
  next
    case (Some v)
    then obtain h where h: "hexBytesLoose v ''chain pending entry'' = Inr h"
      "computeFrom H name (i + 1) (or n (bitAt i)) (Some (case a of None \<Rightarrow> h | Some x \<Rightarrow> H (h @ x))) ps = Inr (m, x)"
      using Cons.prems by (auto split: sum.splits if_splits)
    show ?thesis using Cons.IH [OF h(2)] h(1) Some by (cases a) simp_all
  qed
qed auto

lemma hexVal_inked: "hexVal (lowerChar c) \<noteq> None \<Longrightarrow> inked c"
  by (simp add: hexVal_def lowerChar_def inked_def Let_def split: if_splits)

lemma fromHex_digits: "fromHex t = Some b \<Longrightarrow> c \<in> set t \<Longrightarrow> hexVal c \<noteq> None"
  by (induction t arbitrary: b rule: fromHex.induct) (auto split: option.splits)

lemma hexBytesLoose_goHex:
  assumes "goHex v = Some b"
  shows "hexBytesLoose v l = Inr b"
proof -
  have "inked c" if "c \<in> set v" for c
    using fromHex_digits [of "goLower v" b "lowerChar c"] assms that by (intro hexVal_inked) (auto simp: goHex_def goLower_def)
  then have "goTrimSpace v = v"
    using goTrimSpace_inked [of v] by (cases "v = []") (simp_all add: goTrimSpace_def trimStartOf.simps [of _ "[]"] trimEndOf.simps [of _ "[]"])
  moreover have "goHex (strip0x (goLower v)) = Some b" using assms by (simp add: goHex_def fromHex_strip)
  ultimately show ?thesis by (simp add: hexBytesLoose_def)
qed

lemma computeFrom_filled:
  "computeFrom H name i n a ps = Inr r \<Longrightarrow> Some v \<in> set ps \<Longrightarrow> hexBytesLoose v ''chain pending entry'' = Inr h \<Longrightarrow> length h = 32"
  by (induction H name i n a ps rule: computeFrom.induct) (auto split: sum.splits if_splits)

lemma foldMatches_root:
  assumes "foldMatches H xs c" and "compute H c = Inr (n, a)" and "xs \<noteq> []" and "\<forall>x \<in> set xs. length x = 32" and "\<And>x. length (H x) = 32"
  shows "a = mth H xs"
proof -
  define read where "read = map (\<lambda>p. case p of None \<Rightarrow> None | Some v \<Rightarrow> okOpt (hexBytesLoose v ''chain pending entry'')) (slotsOf c)"
  have filled: "filledSlots (foldedSlots H xs)"
    unfolding foldedSlots_def using assms(4) by (intro folded_filled assms(5)) (simp_all add: filledSlots_def newMerkleState_def)
  have "nthOpt (foldedSlots H xs) i = nthOpt read i" for i
  proof -
    have m: "slotMatches (nthOpt (foldedSlots H xs) i) (nthOpt (slotsOf c) i)" using assms(1) by (simp add: foldMatches_iff)
    have r: "nthOpt read i = (case nthOpt (slotsOf c) i of None \<Rightarrow> None | Some v \<Rightarrow> okOpt (hexBytesLoose v ''chain pending entry''))"
      by (simp add: read_def nthOpt_def)
    show ?thesis
    proof (cases "nthOpt (slotsOf c) i")
      case None
      with m r nthOpt_filled [OF filled, of i] show ?thesis by (auto simp: slotMatches_def split: option.splits)
    next
      case (Some v)
      then obtain b where b: "goHex v = Some b" using m by (auto simp: slotMatches_def split: option.splits)
      have "nthOpt (slotsOf c) i = Some v \<Longrightarrow> Some v \<in> set (slotsOf c)" by (metis nthOpt_def nth_mem option.distinct(1))
      with Some computeFrom_filled assms(2) hexBytesLoose_goHex [OF b] have "length b = 32"
        by (fastforce simp: compute_def slotsOf_def)
      then have "b \<noteq> []" by auto
      with m r b Some hexBytesLoose_goHex [OF b] show ?thesis by (auto simp: slotMatches_def split: if_splits)
    qed
  qed
  then have "foldl (anchorStep H) None read = Some (mth H xs)"
    using anchorStep_slots [of "foldedSlots H xs" read H None] fold_root [OF assms(3)] by simp
  moreover have "computeFrom H (cr_name c) 0 0 None (slotsOf c) = Inr (n, a)" using assms(2) by (simp add: compute_def slotsOf_def)
  from anchorStep_compute [OF this]
  have "a = (case foldl (anchorStep H) None read of None \<Rightarrow> replicate 32 0 | Some y \<Rightarrow> y)" by (simp add: read_def)
  ultimately show ?thesis by simp
qed

section \<open>The history of a page\<close>

text \<open>The block of a chain's entry: that of the first index entry whose source reaches its position.\<close>

definition blockAt :: "index_entry list \<Rightarrow> nat \<Rightarrow> int" where
  "blockAt idx j = (case find (\<lambda>e. int j \<le> ie_source e) idx of None \<Rightarrow> 0 | Some e \<Rightarrow> ie_block e)"

lemma find_dropWhile: "(\<And>x. P x \<Longrightarrow> \<not> Q x) \<Longrightarrow> find P (dropWhile Q xs) = find P xs"
  by (induction xs) auto

lemma blockAt_drop: "i \<le> j \<Longrightarrow> blockAt (dropWhile (\<lambda>e. ie_source e < int i) idx) j = blockAt idx j"
proof -
  assume "i \<le> j"
  then have "find (\<lambda>e. int j \<le> ie_source e) (dropWhile (\<lambda>e. ie_source e < int i) idx) = find (\<lambda>e. int j \<le> ie_source e) idx"
    by (intro find_dropWhile) simp
  then show ?thesis by (simp add: blockAt_def)
qed

lemma blocksFrom_at: "blocksFrom idx j n = Some bs \<Longrightarrow> bs = map (blockAt idx) [j..<j + n]"
proof (induction idx j n arbitrary: bs rule: blocksFrom.induct)
  case (2 idx j n)
  then obtain e es cs where e: "dropWhile (\<lambda>e. ie_source e < int j) idx = e # es" "blocksFrom (e # es) (j + 1) n = Some cs" "bs = ie_block e # cs"
    by (auto split: list.splits)
  have "cs = map (blockAt (e # es)) [j + 1..<j + 1 + n]" using "2.IH" e by simp
  moreover have "map (blockAt (e # es)) [j + 1..<j + 1 + n] = map (blockAt idx) [j + 1..<j + 1 + n]"
    using blockAt_drop [of j _ idx] e(1) by (intro map_cong) auto
  moreover have "blockAt idx j = ie_block e"
    using blockAt_drop [of j j idx] e(1) by (auto simp: blockAt_def dropWhile_eq_Cons_conv)
  moreover have "[j..<j + Suc n] = j # [j + 1..<j + 1 + n]" by (simp add: upt_conv_Cons)
  ultimately show ?case using e(3) by simp
qed simp

lemma historyEvents_Inr:
  "historyEvents env es ts bs = Inr evs \<Longrightarrow> length es = length ts \<Longrightarrow> length bs = length ts \<Longrightarrow>
     map ev_hash evs = map (toHex \<circ> snd) ts \<and> map ev_block evs = bs \<and> map ev_txn evs = map fst ts"
  by (induction env es ts bs arbitrary: evs rule: historyEvents.induct) (auto simp: results historyEvent_def)

lemma map_upt_ends:
  assumes "0 < n"
  shows "hd (map f [0..<n]) = f 0" "last (map f [0..<n]) = f (n - 1)" "tl (map f [0..<n]) = map f [1..<n]"
  using assms by (simp_all add: hd_map last_map last_upt map_tl [symmetric])

text \<open>\<open>c\<close> is the chain of the entries \<open>xs\<close>: its root, as the binding derives it, is theirs, and its count is their number.\<close>

definition chainOf :: "judge_env \<Rightarrow> chain_root \<Rightarrow> bytes list \<Rightarrow> bool" where
  "chainOf env c xs \<longleftrightarrow> (\<exists>n. deriveChain (sha env) c = Inr (n, mth (sha env) xs)) \<and> cr_count c = int (length xs) \<and>
     xs \<noteq> [] \<and> length xs < 2 ^ 53 \<and> (\<forall>x \<in> set xs. length x = 32)"

lemma folded_is_chain:
  assumes "foldMatches (sha env) xs c" and "chainOf env c ys" and "\<And>x. length (sha env x) = 32" and "\<forall>x \<in> set xs. length x = 32"
    and "inj_on (sha env) (mthInputs (sha env) xs \<union> mthInputs (sha env) ys)"
  shows "xs = ys"
proof -
  obtain n where n: "compute (sha env) c = Inr (n, mth (sha env) ys)"
    using assms(2) by (auto simp: chainOf_def deriveChain_Inr)
  have len: "length xs = length ys" "ys \<noteq> []"
    using assms(1,2) by (auto simp: foldMatches_iff chainOf_def toNumber_small)
  then have "xs \<noteq> []" by auto
  from foldMatches_root [OF assms(1) n this assms(4,3)] have "mth (sha env) xs = mth (sha env) ys" by simp
  with len assms(2,4) show ?thesis by (intro mth_inj [OF assms(3,5)]) (auto simp: chainOf_def)
qed

lemma txnHash_length:
  assumes "\<And>x. length (sha env x) = 32" and "txnHash env txn = Inr h"
  shows "length h = 32"
  using assms by (auto simp: txnHash_def transactionHash_def sha_def results split: option.splits if_splits)

lemma mapE_all: "mapE f xs = Inr ys \<Longrightarrow> (\<And>x y. f x = Inr y \<Longrightarrow> P y) \<Longrightarrow> \<forall>y \<in> set ys. P y"
  by (induction xs arbitrary: ys) (auto simp: results)

lemma historyEntry_hash: "(\<And>x. length (sha env x) = 32) \<Longrightarrow> historyEntry env e = Inr th \<Longrightarrow> length (snd th) = 32"
  using txnHash_length [of env] by (auto simp: historyEntry_def results)

lemma decodeIndexEntry_raw:
  assumes "decodeIndexEntry env h = Inr er"
  shows "goHex h = Some (snd er)" "length (snd er) = 32" "decodeIndexEntry env (toHex (snd er)) = Inr er"
  using assms by (auto simp: decodeIndexEntry_def results split: option.splits if_splits)

lemma goHex_strip: "goHex s = Some b \<Longrightarrow> strip0x s = s"
proof (rule ccontr)
  assume s: "goHex s = Some b" "strip0x s \<noteq> s"
  then have "take 2 s = ''0x''" by (auto simp: strip0x_def split: if_splits)
  then obtain r where "s = ''0x'' @ r" by (metis append_take_drop_id)
  then show False using s(1) by (simp add: goHex_def goLower_def hexVal_def lowerChar_def)
qed

definition historyHashes :: "judge_env \<Rightarrow> page_history \<Rightarrow> bytes list" where
  "historyHashes env h = (case mapE (historyEntry env) (hi_entries h) of Inl _ \<Rightarrow> [] | Inr ts \<Rightarrow> map snd ts)"

definition indexEntries :: "judge_env \<Rightarrow> page_history \<Rightarrow> bytes list" where
  "indexEntries env h = (case mapE (decodeIndexEntry env) (hi_index h) of Inl _ \<Rightarrow> [] | Inr es \<Rightarrow> map snd es)"

definition historyInputs :: "judge_env \<Rightarrow> page_history \<Rightarrow> bytes list \<Rightarrow> bytes list \<Rightarrow> bytes set" where
  "historyInputs env h xs ys = mthInputs (sha env) (historyHashes env h) \<union> mthInputs (sha env) xs \<union>
     (mthInputs (sha env) (indexEntries env h) \<union> mthInputs (sha env) ys)"

text \<open>What an accepted history is: the transactions of the chain's own entries, the index's own entries, and their replay.\<close>

definition historyIs :: "judge_env \<Rightarrow> proven_acct \<Rightarrow> page_doc \<Rightarrow> page_history \<Rightarrow> bytes list \<Rightarrow> bytes list \<Rightarrow> page_state list \<Rightarrow> bool" where
  "historyIs env pa p h xs ys states \<longleftrightarrow>
     (\<exists>txns ents genesis events head kp.
        mapE (historyEntry env) (hi_entries h) = Inr txns \<and> map snd txns = xs \<and>
        mapE (decodeIndexEntry env) (hi_index h) = Inr ents \<and> map snd ents = ys \<and> increasing (map fst ents) \<and>
        ie_source (last (map fst ents)) = int (length xs) - 1 \<and>
        genesisPage (pg_url p) (fst (hd txns)) = Inr genesis \<and>
        map ev_hash events = map toHex (tl xs) \<and> map ev_txn events = map fst (tl txns) \<and>
        map ev_block events = map (blockAt (map fst ents)) [1..<length xs] \<and>
        blockAt (map fst ents) (length xs - 1) \<le> xa_block (pn_anchor pa) \<and>
        replay (je_types env) genesis (blockAt (map fst ents) 0) events = Inr (states, head) \<and>
        keyPageFrom (pn_acct pa) = Some kp \<and> sameAuthority head kp)"

text \<open>
  C10. A history that is accepted is the page's own, whole and in order: its transactions hash to exactly the entries of the page's main chain and its index
  to exactly those of the main-index chain; every entry has the block of the first index entry that reaches it, none after the page's block; the returned
  states are those of the replay of these transactions from the page they created, and it ends in the authority the proven page has - unless the hash
  collides on what the two chains and the presented entries hash.
\<close>

theorem replayHistory_sound:
  assumes "replayHistory env pa p h = Inr states"
    and "boundChain p ''main'' = Some mc" and "boundChain p ''main-index'' = Some ic" and "chainOf env mc xs" and "chainOf env ic ys"
    and "\<And>x. length (sha env x) = 32" and "inj_on (sha env) (historyInputs env h xs ys)"
  shows "historyIs env pa p h xs ys states"
proof -
  from assms(1,2,3) obtain kp txns ents blocks genesis events head where r:
    "keyPageFrom (pn_acct pa) = Some kp" "mapE (historyEntry env) (hi_entries h) = Inr txns" "foldMatches (sha env) (map snd txns) mc"
    "mapE (decodeIndexEntry env) (hi_index h) = Inr ents" "foldMatches (sha env) (map snd ents) ic"
    "blocksFrom (map fst ents) 0 (length txns) = Some blocks" "increasing (map fst ents)" "ents \<noteq> []"
    "ie_source (last (map fst ents)) = int (length txns) - 1" "last blocks \<le> xa_block (pn_anchor pa)"
    "genesisPage (pg_url p) (fst (hd txns)) = Inr genesis"
    "historyEvents env (tl (hi_entries h)) (tl txns) (tl blocks) = Inr events"
    "replay (je_types env) genesis (hd blocks) events = Inr (states, head)" "authorityDiff head kp = []" "hi_entries h \<noteq> []"
    unfolding replayHistory_def foldedHistory_def Let_def
    by (auto simp: results not_less split: option.splits if_splits)
  have len: "length txns = length (hi_entries h)" by (rule mapE_Inr_length [OF r(2)])
  have "\<forall>x \<in> set (map snd txns). length x = 32"
    using mapE_all [OF r(2), of "\<lambda>th. length (snd th) = 32"] historyEntry_hash [OF assms(6)] by fastforce
  then have xs: "map snd txns = xs"
    using r(2) by (intro folded_is_chain [OF r(3) assms(4,6)] inj_on_subset [OF assms(7)]) (auto simp: historyInputs_def historyHashes_def)
  have "\<forall>x \<in> set (map snd ents). length x = 32"
    using mapE_all [OF r(4), of "\<lambda>er. length (snd er) = 32"] decodeIndexEntry_raw by auto
  then have ys: "map snd ents = ys"
    using r(4) by (intro folded_is_chain [OF r(5) assms(5,6)] inj_on_subset [OF assms(7)]) (auto simp: historyInputs_def indexEntries_def)
  have n: "length txns = length xs" "0 < length xs" using xs assms(4) by (auto simp: chainOf_def)
  have blocks: "blocks = map (blockAt (map fst ents)) [0..<length xs]" using blocksFrom_at [OF r(6)] n by simp
  then have "hd blocks = blockAt (map fst ents) 0" "last blocks = blockAt (map fst ents) (length xs - 1)"
    "tl blocks = map (blockAt (map fst ents)) [1..<length xs]"
    using map_upt_ends [OF n(2)] by simp_all
  moreover have "map ev_hash events = map (toHex \<circ> snd) (tl txns) \<and> map ev_block events = tl blocks \<and> map ev_txn events = map fst (tl txns)"
    by (rule historyEvents_Inr [OF r(12)]) (use len blocks n in simp_all)
  moreover have "map (toHex \<circ> snd) (tl txns) = map toHex (tl xs)" by (simp add: xs [symmetric] map_tl)
  ultimately show ?thesis
    unfolding historyIs_def using r xs ys n authorityDiff_exact [of head kp]
    by (intro exI [of _ txns] exI [of _ ents] exI [of _ genesis] exI [of _ events] exI [of _ head] exI [of _ kp]) simp
qed

text \<open>The history of the example's page: one entry, its creation.\<close>

lemma single_chain: "(\<And>x. length (sha env x) = 32) \<Longrightarrow> length a = 32 \<Longrightarrow> chainOf env (single name a) [a]"
  by (auto simp: chainOf_def deriveChain_Inr single_def compute_def restatedAnchor_def hexBytesLoose_toHex bitAt_def toNumber_small goLower_toHex strip0x_toHex)

lemma single_folds: "length a = 32 \<Longrightarrow> foldMatches H [a] (single name a)"
  by (auto simp: foldMatches_iff single_def toNumber_small foldedSlots_def slotsOf_def addEntry_def newMerkleState_def slotMatches_def nthOpt_def
      split: option.splits)

lemma bob_history: "replayHistory bobEnv bobProven bobPage bobHistory = Inr [\<lparr>st_block = 1, st_page = bobPageState, st_event = - 1\<rparr>]"
proof -
  have c: "boundChain bobPage ''main'' = Some (single ''main'' bobEntry)" "boundChain bobPage ''main-index'' = Some (single ''main-index'' (bobIndex 0 1))"
    by (simp_all add: boundChain_def bobPage_def bobChains_def single_def)
  have f: "foldMatches bobHash [bobEntry] (single ''main'' bobEntry)" "foldMatches bobHash [bobIndex 0 1] (single ''main-index'' (bobIndex 0 1))"
    by (simp_all add: single_folds bobEntry_def)
  have "foldedHistory bobEnv bobProven bobPage bobHistory = Inr ([(bobGenesis, bobEntry)], [1])"
    by (simp add: foldedHistory_def Let_def c bobHistory_def bob_entry bob_indexEntry f increasing_def bobProven_def)
  moreover have "authorityDiff bobPageState bobPageState = []" by (simp add: authorityDiff_exact sameAuthority_def list_all2_refl)
  ultimately show ?thesis
    by (simp add: replayHistory_def bobProven_def bob_pageFrom bobPage_def bob_genesisPage bobHistory_def replay_def Let_def)
      (simp add: bobAccount_def)
qed

theorem replayHistory_sound_witness:
  "historyIs bobEnv bobProven bobPage bobHistory [bobEntry] [bobIndex 0 1] [\<lparr>st_block = 1, st_page = bobPageState, st_event = - 1\<rparr>]"
proof (rule replayHistory_sound [OF bob_history])
  show "boundChain bobPage ''main'' = Some (single ''main'' bobEntry)" "boundChain bobPage ''main-index'' = Some (single ''main-index'' (bobIndex 0 1))"
    by (simp_all add: boundChain_def bobPage_def bobChains_def single_def)
  show "chainOf bobEnv (single ''main'' bobEntry) [bobEntry]" "chainOf bobEnv (single ''main-index'' (bobIndex 0 1)) [bobIndex 0 1]"
    by (simp_all add: single_chain bobEntry_def)
  show "inj_on (sha bobEnv) (historyInputs bobEnv bobHistory [bobEntry] [bobIndex 0 1])"
    by (simp add: historyInputs_def historyHashes_def indexEntries_def bobHistory_def bob_entry bob_indexEntry mthInputs.simps)
qed simp

section \<open>Arrivals\<close>

lemma audit_inputs: "p < length xs \<Longrightarrow> set (hashed H (xs ! p) (auditEntries H xs p)) \<subseteq> mthInputs H xs"
proof (induction H xs p rule: auditEntries.induct)
  case (1 H xs p)
  show ?case
  proof (cases "length xs < 2")
    case True
    then show ?thesis by (simp add: auditEntries.simps)
  next
    case False
    define k where "k = pow2_below (length xs)"
    have k: "0 < k" "k < length xs" using False pow2_below_less [of "length xs"] by (auto simp: k_def)
    have m: "mthInputs H xs = insert (mth H (take k xs) @ mth H (drop k xs)) (mthInputs H (take k xs) \<union> mthInputs H (drop k xs))"
      using False by (subst mthInputs.simps) (simp add: k_def Let_def)
    show ?thesis
    proof (cases "p < k")
      case True
      then have "set (hashed H (take k xs ! p) (auditEntries H (take k xs) p)) \<subseteq> mthInputs H (take k xs)"
        using 1 False k by (intro "1.IH"(1)) (simp_all add: k_def)
      moreover have "foldReceipt H (take k xs ! p) (auditEntries H (take k xs) p) = mth H (take k xs)"
        using True k by (intro auditEntries_root) simp
      ultimately show ?thesis using True False
        by (subst auditEntries.simps) (auto simp: k_def [symmetric] hashed_append stepInput_def m)
    next
      case right: False
      then have "set (hashed H (drop k xs ! (p - k)) (auditEntries H (drop k xs) (p - k))) \<subseteq> mthInputs H (drop k xs)"
        using 1 False k by (intro "1.IH"(2)) (simp_all add: k_def)
      moreover have "foldReceipt H (drop k xs ! (p - k)) (auditEntries H (drop k xs) (p - k)) = mth H (drop k xs)"
        using right k 1 by (intro auditEntries_root) simp
      ultimately show ?thesis using right False k
        by (subst auditEntries.simps) (auto simp: k_def [symmetric] hashed_append stepInput_def m)
    qed
  qed
qed

definition receiptHashes :: "(bytes \<Rightarrow> bytes) \<Rightarrow> bytes \<Rightarrow> bytes set" where
  "receiptHashes H bin = (case decodeReceiptBin bin of None \<Rightarrow> {} | Some r \<Rightarrow> set (hashed H (rc_start r) (rc_entries r)))"

lemma rootOf_chainOf:
  assumes "rootOf c = Inr b" and "chainOf env c xs"
  shows "b = mth (sha env) xs"
proof -
  from assms(1) have b: "goHex (cr_anchor c) = Some b" "b \<noteq> []" by (auto simp: rootOf_def split: option.splits if_splits)
  have "strip0x (cr_anchor c) = cr_anchor c" by (rule goHex_strip [OF b(1)])
  then have "restatedAnchor c = goLower (cr_anchor c)" by (simp add: restatedAnchor_def)
  moreover have "goLower (cr_anchor c) \<noteq> []" using b by (auto simp: goHex_def)
  ultimately have "toHex (mth (sha env) xs) = goLower (cr_anchor c)"
    using assms(2) by (auto simp: chainOf_def deriveChain_Inr)
  then have "goHex (toHex (mth (sha env) xs)) = goHex (cr_anchor c)" by (simp add: goHex_def)
  then show ?thesis using b(1) by simp
qed

lemma member_at:
  assumes "decodeReceiptBin bin = Some r" and "length (rc_start r) = 32" and "rc_anchor r = mth (sha env) xs" and "receiptValid (sha env) r"
    and "receiptPositions (sidesOf r) (chainCount c) = [i]" and "chainOf env c xs" and "\<And>x. length (sha env x) = 32"
    and "inj_on (sha env) (mthInputs (sha env) xs \<union> receiptHashes (sha env) bin)"
  shows "\<exists>q < length xs. i = int q \<and> rc_start r = xs ! q"
proof -
  have n: "chainCount c = length xs" "length xs < 2 ^ 53" using assms(6) by (auto simp: chainOf_def chainCount_def toNumber_small)
  then obtain q where q: "i = int q" "q < length xs" using assms(5) receiptPositions_single by metis
  show ?thesis
  proof (rule start_at_position [of "sha env" xs r i])
    show "inj_on (sha env) (chainInputs (sha env) xs (nat i) r)"
      by (rule inj_on_subset [OF assms(8)]) (use q audit_inputs [OF q(2), of "sha env"] assms(1) in \<open>auto simp: chainInputs_def receiptHashes_def\<close>)
    show "receiptPositions (map re_right (rc_entries r)) (length xs) = [i]" using assms(5) by (simp add: sidesOf_def n(1))
  qed (use assms n in \<open>auto simp: chainOf_def\<close>)
qed

lemma checkIndexProof_at:
  assumes "checkIndexProof env ip ir = Inr e" and "chainOf env ir ys" and "\<And>x. length (sha env x) = 32"
    and "inj_on (sha env) (mthInputs (sha env) ys \<union> receiptHashes (sha env) (ix_receipt ip))"
  shows "\<exists>k < length ys. ix_position ip = int k \<and> decodeIndexEntry env (toHex (ys ! k)) = Inr (e, ys ! k)"
proof -
  from assms(1) obtain raw root r where d: "decodeIndexEntry env (ix_entry ip) = Inr (e, raw)" "rootOf ir = Inr root"
    "decodeReceiptBin (ix_receipt ip) = Some r" "rc_start r = raw" "rc_anchor r = root" "receiptValid (sha env) r"
    "receiptPositions (sidesOf r) (chainCount ir) = [ix_position ip]"
    unfolding checkIndexProof_def by (auto simp: results split: option.splits if_splits)
  note raw = decodeIndexEntry_raw [OF d(1), simplified]
  obtain k where "k < length ys" "ix_position ip = int k" "rc_start r = ys ! k"
    using member_at [OF d(3) _ _ d(6,7) assms(2,3,4)] raw(2) d(4,5) rootOf_chainOf [OF d(2) assms(2)] by auto
  then show ?thesis using raw(3) d(4) by auto
qed

lemma increasing_sorted: "increasing idx \<Longrightarrow> j < length idx \<Longrightarrow> i < j \<Longrightarrow> ie_source (idx ! i) < ie_source (idx ! j)"
proof (induction j)
  case (Suc j)
  have "ie_source (idx ! j) < ie_source (idx ! Suc j)"
    using Suc.prems by (auto simp: increasing_def list_all_iff not_le dest!: bspec [of _ _ "Suc j"])
  moreover have "i = j \<or> ie_source (idx ! i) < ie_source (idx ! j)" using Suc by (cases "i = j") auto
  ultimately show ?case by auto
qed simp

lemma blockAt_first: "k < length idx \<Longrightarrow> int j \<le> ie_source (idx ! k) \<Longrightarrow> (\<forall>i < k. ie_source (idx ! i) < int j) \<Longrightarrow> blockAt idx j = ie_block (idx ! k)"
proof -
  assume "k < length idx" "int j \<le> ie_source (idx ! k)" "\<forall>i < k. ie_source (idx ! i) < int j"
  then have "find (\<lambda>e. int j \<le> ie_source e) idx = Some (idx ! k)" unfolding find_Some_iff by (intro exI [of _ k]) (auto simp: not_le)
  then show ?thesis by (simp add: blockAt_def)
qed

definition arrivalInputs :: "judge_env \<Rightarrow> bytes \<Rightarrow> arrival \<Rightarrow> bytes list \<Rightarrow> bytes list \<Rightarrow> bytes set" where
  "arrivalInputs env rcpt a xs ys =
     mthInputs (sha env) xs \<union> receiptHashes (sha env) rcpt \<union> (mthInputs (sha env) ys \<union> receiptHashes (sha env) (ix_receipt (av_at a)) \<union>
     (case av_before a of None \<Rightarrow> {} | Some b \<Rightarrow> receiptHashes (sha env) (ix_receipt b)))"

lemma inChain_Some:
  "inChain env bin m root \<Longrightarrow> decodeReceiptBin bin = Some r \<Longrightarrow>
     goHex m = Some (rc_start r) \<and> length (rc_start r) = 32 \<and> rc_anchor r = root \<and> receiptValid (sha env) r"
  by (auto simp: inChain_def split: option.splits if_splits)


text \<open>The signature chain of the example's page holds two messages, in blocks 3 and 5; the second arrives in block 5.\<close>

definition receiptBin :: "receipt \<Rightarrow> bytes" where
  "receiptBin r = encodeReceipt r 0 [] 0 []"

definition rightOf :: "bytes \<Rightarrow> bytes \<Rightarrow> bytes \<Rightarrow> receipt" where
  "rightOf root left x = \<lparr>rc_start = x, rc_anchor = root, rc_entries = [\<lparr>re_hash = left, re_right = False\<rparr>]\<rparr>"

definition leftOf :: "bytes \<Rightarrow> bytes \<Rightarrow> bytes \<Rightarrow> receipt" where
  "leftOf root right x = \<lparr>rc_start = x, rc_anchor = root, rc_entries = [\<lparr>re_hash = right, re_right = True\<rparr>]\<rparr>"

definition bobIndexRoot :: bytes where
  "bobIndexRoot = bobHash (bobIndex 0 3 @ bobIndex 1 5)"

definition bobBefore :: index_proof where
  "bobBefore = \<lparr>ix_position = 0, ix_entry = toHex (bobIndex 0 3), ix_receipt = receiptBin (leftOf bobIndexRoot (bobIndex 1 5) (bobIndex 0 3))\<rparr>"

definition bobAt :: index_proof where
  "bobAt = \<lparr>ix_position = 1, ix_entry = toHex (bobIndex 1 5), ix_receipt = receiptBin (rightOf bobIndexRoot (bobIndex 0 3) (bobIndex 1 5))\<rparr>"

definition bobArrival :: arrival where
  "bobArrival = \<lparr>av_before = Some bobBefore, av_at = bobAt\<rparr>"

definition bobReceipt :: bytes where
  "bobReceipt = receiptBin (rightOf (bobHash (bobOther @ bobMessage)) bobOther bobMessage)"

lemma receiptBin_decodes:
  assumes "length a = 32" and "length root = 32" and "length x = 32"
  shows "decodeReceiptBin (receiptBin (rightOf root a x)) = Some (rightOf root a x)" "decodeReceiptBin (receiptBin (leftOf root a x)) = Some (leftOf root a x)"
proof -
  have x: "x \<noteq> []" using assms by auto
  have short: "shortEntry \<lparr>re_hash = a, re_right = r\<rparr>" for r
    using assms by (auto simp: shortEntry_def object_def entryFields_def optField_def pBytes_def pUint_def uvarint.simps stream_def)
  show "decodeReceiptBin (receiptBin (rightOf root a x)) = Some (rightOf root a x)" "decodeReceiptBin (receiptBin (leftOf root a x)) = Some (leftOf root a x)"
    unfolding receiptBin_def
    by (rule decodeReceiptBin_fields; use assms x short in \<open>simp add: rightOf_def leftOf_def receiptFields_def optField_def above_def\<close>)+
qed

lemma bob_positions: "receiptPositions [False] 2 = [1]" "receiptPositions [True] 2 = [0]"
  by code_simp+

lemma pair_sides: "sidesOf (rightOf root a x) = [False]" "sidesOf (leftOf root a x) = [True]"
  by (simp_all add: sidesOf_def rightOf_def leftOf_def)

lemma double_chain:
  "(\<And>x. length (sha env x) = 32) \<Longrightarrow> length a = 32 \<Longrightarrow> length b = 32 \<Longrightarrow> chainOf env (double name (sha env (a @ b))) [a, b]"
  by (auto simp: chainOf_def deriveChain_Inr double_def compute_def restatedAnchor_def hexBytesLoose_toHex bitAt_def toNumber_small goLower_toHex
      strip0x_toHex mth.simps pow2_below_eq [of 0])

lemma double_count: "chainCount (double name a) = 2" "length a = 32 \<Longrightarrow> rootOf (double name a) = Inr a" "cr_count (double name a) = 2"
  by (auto simp: chainCount_def double_def toNumber_small rootOf_def)

lemma bob_found: "boundChain bobPage ''signature'' = Some (double ''signature'' (bobHash (bobOther @ bobMessage)))"
  "boundChain bobPage ''signature-index'' = Some (double ''signature-index'' bobIndexRoot)"
  by (simp_all add: boundChain_def bobPage_def bobChains_def single_def double_def bobIndexRoot_def)

lemma pair_valid: "root = H (a @ x) \<Longrightarrow> receiptValid H (rightOf root a x)" "root = H (x @ a) \<Longrightarrow> receiptValid H (leftOf root a x)"
  by (simp_all add: receiptValid_def rightOf_def leftOf_def applyEntry_def)

lemma pair_fields [simp]: "rc_start (rightOf root a x) = x" "rc_start (leftOf root a x) = x" "rc_anchor (rightOf root a x) = root" "rc_anchor (leftOf root a x) = root"
  by (simp_all add: rightOf_def leftOf_def)

lemma bob_proofs:
  "checkIndexProof bobEnv bobAt (double ''signature-index'' bobIndexRoot) = Inr \<lparr>ie_source = 1, ie_block = 5\<rparr>"
  "checkIndexProof bobEnv bobBefore (double ''signature-index'' bobIndexRoot) = Inr \<lparr>ie_source = 0, ie_block = 3\<rparr>"
  "ix_position bobAt = 1" "ix_position bobBefore = 0"
  by (simp_all add: checkIndexProof_def bobAt_def bobBefore_def bob_indexEntry double_count bobIndexRoot_def receiptBin_decodes pair_valid pair_sides
      bob_positions)

lemma bob_receipt: "decodeReceiptBin bobReceipt = Some (rightOf (bobHash (bobOther @ bobMessage)) bobOther bobMessage)"
  by (simp add: bobReceipt_def receiptBin_decodes bobOther_def bobMessage_def)

lemma bob_arrival: "deriveArrival bobEnv bobProven bobPage ''signature'' (toHex bobMessage) bobReceipt bobArrival = Inr 5"
proof -
  have "inChain bobEnv bobReceipt (toHex bobMessage) (bobHash (bobOther @ bobMessage))"
    using bob_receipt by (simp add: inChain_def pair_valid) (simp add: bobMessage_def)
  then show ?thesis
    unfolding deriveArrival_def Let_def
    by (simp add: bob_found double_count bob_proofs bob_receipt pair_sides bob_positions toNumber_small bobArrival_def) (simp add: bobProven_def)
qed

lemma bob_receiptHashes:
  "receiptHashes bobHash bobReceipt = {bobOther @ bobMessage}" "receiptHashes bobHash (ix_receipt bobAt) = {bobIndex 0 3 @ bobIndex 1 5}"
  "receiptHashes bobHash (ix_receipt bobBefore) = {bobIndex 0 3 @ bobIndex 1 5}"
  unfolding receiptHashes_def bob_receipt
  by (simp_all add: bobAt_def bobBefore_def receiptBin_decodes bobIndexRoot_def) (simp_all add: rightOf_def leftOf_def stepInput_def)

lemma mthInputs_pair: "mthInputs H [a, b] = {a @ b}"
proof -
  have "pow2_below (Suc (Suc 0)) = Suc 0" using pow2_below_eq [of 0 2] by (simp add: numeral_2_eq_2)
  then show ?thesis by (simp add: mthInputs.simps [of H "[a, b]"] mthInputs.simps [of H "[a]"] mthInputs.simps [of H "[b]"])
qed


text \<open>
  A count is not bound by the receipt of the account (\<open>height_not_bound\<close> of the theory \<open>Chains\<close>), and the position of an entry follows from it. The chain
  below has three entries, the last in block 9; told as a chain of two - its root as the one pending hash - it derives the same root, and the last entry
  arrives in block 5.
\<close>

definition bobThird :: bytes where
  "bobThird = replicate 32 11"

definition bobPair :: bytes where
  "bobPair = bobHash (bobOther @ bobMessage)"

definition bobThree :: bytes where
  "bobThree = bobHash (bobPair @ bobThird)"

definition triple :: chain_root where
  "triple = \<lparr>cr_name = ''signature'', cr_pending = Some [Some (toHex bobThird), Some (toHex bobPair)], cr_count = 3, cr_anchor = toHex bobThree\<rparr>"

definition lateRoot :: bytes where
  "lateRoot = bobHash (bobIndex 1 5 @ bobIndex 2 9)"

definition lateIndex :: chain_root where
  "lateIndex = double ''signature-index'' lateRoot"

definition told :: "chain_root \<Rightarrow> page_doc" where
  "told c = bobPage\<lparr>pg_chains := [c, lateIndex]\<rparr>"

definition lateReceipt :: bytes where
  "lateReceipt = receiptBin (rightOf bobThree bobPair bobThird)"

definition earlyProof :: index_proof where
  "earlyProof = \<lparr>ix_position = 0, ix_entry = toHex (bobIndex 1 5), ix_receipt = receiptBin (leftOf lateRoot (bobIndex 2 9) (bobIndex 1 5))\<rparr>"

definition lateProof :: index_proof where
  "lateProof = \<lparr>ix_position = 1, ix_entry = toHex (bobIndex 2 9), ix_receipt = receiptBin (rightOf lateRoot (bobIndex 1 5) (bobIndex 2 9))\<rparr>"

lemma late_index: "decodeIndexEntry bobEnv (toHex (bobIndex 2 9)) = Inr (\<lparr>ie_source = 2, ie_block = 9\<rparr>, bobIndex 2 9)"
proof -
  have "decodeObject bobCodec ''IndexEntry'' (bobIndex 2 9) = Inr (Node ''IndexEntry'' [(''source'', WBig 2), (''blockIndex'', WBig 9)] (replicate 28 0) False)"
    by code_simp
  then show ?thesis by (simp add: decodeIndexEntry_def bob_codec Model.bigOf_def fieldOf_def toNumber_small)
qed

lemma late_proofs:
  "checkIndexProof bobEnv earlyProof lateIndex = Inr \<lparr>ie_source = 1, ie_block = 5\<rparr>"
  "checkIndexProof bobEnv lateProof lateIndex = Inr \<lparr>ie_source = 2, ie_block = 9\<rparr>"
  "ix_position earlyProof = 0" "ix_position lateProof = 1"
  by (simp_all add: checkIndexProof_def earlyProof_def lateProof_def lateIndex_def bob_indexEntry late_index double_count lateRoot_def receiptBin_decodes
      pair_valid pair_sides bob_positions)

lemma late_member: "inChain bobEnv lateReceipt (toHex bobThird) bobThree" "decodeReceiptBin lateReceipt = Some (rightOf bobThree bobPair bobThird)"
proof -
  show r: "decodeReceiptBin lateReceipt = Some (rightOf bobThree bobPair bobThird)"
    by (simp add: lateReceipt_def receiptBin_decodes bobThree_def bobPair_def bobThird_def)
  show "inChain bobEnv lateReceipt (toHex bobThird) bobThree"
    using r by (simp add: inChain_def pair_valid bobThree_def) (simp add: bobThird_def)
qed

lemma late_found: "boundChain (told c) ''signature'' = (if cr_name c = ''signature'' then Some c else None)"
  "cr_name c = ''signature'' \<Longrightarrow> boundChain (told c) ''signature-index'' = Some lateIndex"
  by (simp_all add: boundChain_def told_def lateIndex_def double_def)

lemma three_count: "chainCount triple = 3" "rootOf triple = Inr bobThree" "cr_count triple = 3" "cr_name triple = ''signature''"
  "cr_name (double n a) = n" "length bobThree = 32" "receiptPositions [False] 3 = [2]"
proof -
  show "receiptPositions [False] 3 = [2]" by code_simp
qed (simp_all add: chainCount_def triple_def toNumber_small rootOf_def bobThree_def double_def)

lemma restated_parts:
  "deriveChain bobHash triple = Inr (3, bobThree)" "deriveChain bobHash (double ''signature'' bobThree) = Inr (2, bobThree)"
  "deriveArrival bobEnv bobProven (told triple) ''signature'' (toHex bobThird) lateReceipt \<lparr>av_before = Some earlyProof, av_at = lateProof\<rparr> = Inr 9"
  "deriveArrival bobEnv bobProven (told (double ''signature'' bobThree)) ''signature'' (toHex bobThird) lateReceipt
     \<lparr>av_before = None, av_at = earlyProof\<rparr> = Inr 5"
proof -
  have b: "xa_block (pn_anchor bobProven) = 9" "pc_bound (pn_chain bobProven)" by (simp_all add: bobProven_def)
  show "deriveChain bobHash triple = Inr (3, bobThree)"
    by (simp add: deriveChain_Inr triple_def compute_def restatedAnchor_def hexBytesLoose_toHex bitAt_def toNumber_small goLower_toHex strip0x_toHex
        bobThree_def bobPair_def bobThird_def)
  show "deriveChain bobHash (double ''signature'' bobThree) = Inr (2, bobThree)"
    by (simp add: deriveChain_Inr double_def compute_def restatedAnchor_def hexBytesLoose_toHex bitAt_def toNumber_small goLower_toHex strip0x_toHex
        three_count)
  show "deriveArrival bobEnv bobProven (told triple) ''signature'' (toHex bobThird) lateReceipt \<lparr>av_before = Some earlyProof, av_at = lateProof\<rparr> = Inr 9"
    unfolding deriveArrival_def Let_def
    by (simp add: late_found three_count late_proofs late_member pair_sides toNumber_small b)
  show "deriveArrival bobEnv bobProven (told (double ''signature'' bobThree)) ''signature'' (toHex bobThird) lateReceipt
     \<lparr>av_before = None, av_at = earlyProof\<rparr> = Inr 5"
    unfolding deriveArrival_def Let_def
    by (simp add: late_found three_count double_count late_proofs late_member pair_sides bob_positions toNumber_small b)
qed

text \<open>
  A derived arrival rests on a count that nothing binds: one signature chain told with three entries and told with two has the same root, which is
  what the proof of the page commits, and the very receipt of one of its entries and the very index chain then place the entry in block 9 or in block 5,
  earlier than the chain recorded it.
\<close>

theorem restated_count_moves_arrival:
  "deriveChain bobHash triple = Inr (3, bobThree) \<and> deriveChain bobHash (double ''signature'' bobThree) = Inr (2, bobThree) \<and>
   deriveArrival bobEnv bobProven (told triple) ''signature'' (toHex bobThird) lateReceipt \<lparr>av_before = Some earlyProof, av_at = lateProof\<rparr> = Inr 9 \<and>
   deriveArrival bobEnv bobProven (told (double ''signature'' bobThree)) ''signature'' (toHex bobThird) lateReceipt
     \<lparr>av_before = None, av_at = earlyProof\<rparr> = Inr 5"
  by (intro conjI restated_parts)

end
