(* ===== verification/Roles.thy ===== *)
theory Roles
  imports TimelineSound
begin

text \<open>
  The roles that depend on the governed transaction: \<open>packages/verify/src/s3/roles.ts\<close>. The transaction the evidence carries, the authorities it
  names, and the pages its initiating signature makes initiator-signers. What the transaction's hash binds, and what it does not, is proved at the end.
\<close>

section \<open>The carried transaction\<close>

text \<open>\<open>Buffer.from(s, 'hex')\<close>: the pairs of hex digits up to the first that is none.\<close>

fun hexBuffer :: "string \<Rightarrow> bytes" where
  "hexBuffer (c # d # s) =
     (case (hexVal (lowerChar c), hexVal (lowerChar d)) of
        (Some x, Some y) \<Rightarrow> of_nat (x * 16 + y) # hexBuffer s
      | _ \<Rightarrow> [])"
| "hexBuffer s = []"

definition isPrincipal :: "evidence \<Rightarrow> wire_node \<Rightarrow> bool" where
  "isPrincipal ev txn = (case Model.principalOf txn of None \<Rightarrow> False | Some u \<Rightarrow> goEqualFold (urlString u) (ed_account ev))"

definition carriedTransaction :: "judge_env \<Rightarrow> evidence \<Rightarrow> xanchor \<Rightarrow> refusal + wire_node option" where
  "carriedTransaction env ev x =
     (if ed_transaction ev = [] then Inr None
      else
        let bad = Named ''g1_transaction_mismatch'' (xa_id x) (xa_block x) in
        bindE (mapErr (\<lambda>_. bad) (decodeTxnHex env (ed_transaction ev))) (\<lambda>txn.
        bindE (txnHash env txn) (\<lambda>h.
        guardE (h \<noteq> hexBuffer (ed_txHash ev)) bad (
        guardE (\<not> isPrincipal ev txn) bad (Inr (Some txn))))))"

fun freshUrls :: "string list \<Rightarrow> acc_url list \<Rightarrow> acc_url list" where
  "freshUrls seen [] = []"
| "freshUrls seen (u # us) = (if urlKey u \<in> set seen then freshUrls seen us else u # freshUrls (urlKey u # seen) us)"

definition headerAuthorityURLs :: "wire_node \<Rightarrow> acc_url list" where
  "headerAuthorityURLs txn = freshUrls [] (headerAuthorities txn @ additionalAuthorities txn)"

section \<open>The initiator\<close>

text \<open>\<open>signatureDidInitiate\<close>, where a part of the signature may fail to encode.\<close>

fun initiates :: "judge_env \<Rightarrow> bytes \<Rightarrow> wire_node list \<Rightarrow> refusal + bool" where
  "initiates env ini [] = Inr False"
| "initiates env ini (s # ss) =
     bindE (mapErr (\<lambda>_. Refused ''the signature cannot be encoded'') (SigVerify.metadataHash (je_sig env) s)) (\<lambda>m.
       if ini = m then Inr True
       else if cls s \<notin> set userSignatures then initiates env ini ss
       else (case SigVerify.initiatorHash (je_sig env) s of
               None \<Rightarrow> Inr False
             | Some h \<Rightarrow> if ini = h then Inr True else initiates env ini ss))"

definition didInitiate :: "judge_env \<Rightarrow> wire_node \<Rightarrow> bytes \<Rightarrow> refusal + bool" where
  "didInitiate env sig ini = initiates env ini (unpackSignature sig)"

definition provenAt :: "by_url \<Rightarrow> string \<Rightarrow> proven_acct option" where
  "provenAt byURL page =
     (case (case fromBinary page of None \<Rightarrow> None | Some u \<Rightarrow> map_of byURL (urlKey u)) of
        Some pa \<Rightarrow> Some pa
      | None \<Rightarrow> map_of byURL (goLower page))"

text \<open>The hop whose signature initiated the transaction: it is the message its entry holds, and a key signature of it signs the transaction.\<close>

definition initiatorHop :: "judge_env \<Rightarrow> wire_node \<Rightarrow> string \<Rightarrow> by_url \<Rightarrow> hop \<Rightarrow> wire_node \<Rightarrow> refusal + acc_url list" where
  "initiatorHop env txn network byURL h s =
     (let bad = (case provenAt byURL (ho_page h) of
                   None \<Rightarrow> Named ''g1_signature_invalid'' [] 0
                 | Some pa \<Rightarrow> Named ''g1_signature_invalid'' (xa_id (pn_anchor pa)) (xa_block (pn_anchor pa))) in
      bindE (signatureHash env s) (\<lambda>sh.
      guardE (toHex sh \<noteq> goLower (ho_message h)) bad (
      case provenAt byURL (ho_page h) of
        None \<Rightarrow> Inl bad
      | Some pa \<Rightarrow>
          bindE (judgeKeySignature env s txn network (pn_anchor pa) (ho_block h)) (\<lambda>vs.
            Inr ((case Model.signerOf (vd_inner vs) of None \<Rightarrow> [] | Some u \<Rightarrow> [payerOf (sha env) u]) @ delegatorPages s)))))"

fun initiatorFrom :: "judge_env \<Rightarrow> wire_node \<Rightarrow> string \<Rightarrow> by_url \<Rightarrow> string list \<Rightarrow> hop list \<Rightarrow> refusal + acc_url list option" where
  "initiatorFrom env txn network byURL seen [] = Inr None"
| "initiatorFrom env txn network byURL seen (h # hs) =
     (if ho_message h \<in> set seen then initiatorFrom env txn network byURL seen hs
      else
        case decodeSigHex env (ho_signature h) of
          Inl _ \<Rightarrow> initiatorFrom env txn network byURL (ho_message h # seen) hs
        | Inr sig \<Rightarrow>
            bindE (requireSig sig) (\<lambda>s.
              if cls s = ''AuthoritySignature'' then initiatorFrom env txn network byURL (ho_message h # seen) hs
              else
                bindE (didInitiate env s (headerInitiator txn)) (\<lambda>yes.
                  if yes then bindE (initiatorHop env txn network byURL h s) (\<lambda>pages. Inr (Some pages))
                  else initiatorFrom env txn network byURL (ho_message h # seen) hs)))"

text \<open>The pages, or \<open>None\<close> when no carried signature initiated the transaction.\<close>

definition initiatorPages :: "judge_env \<Rightarrow> evidence \<Rightarrow> wire_node \<Rightarrow> by_url \<Rightarrow> string \<Rightarrow> refusal + acc_url list option" where
  "initiatorPages env ev txn byURL network =
     (if list_all (\<lambda>b. b = 0) (headerInitiator txn) then Inr None
      else initiatorFrom env txn network byURL [] (concat (map allHops (ed_votes ev))))"

section \<open>What the hash of a transaction binds\<close>

lemma hexBuffer_toHex [simp]: "hexBuffer (toHex b) = b"
proof (induction b)
  case (Cons x b)
  have "unat x < 256" using unsigned_less [of x, where 'a = nat] by simp
  then have d: "unat x div 16 < 16" "unat x mod 16 < 16" by (simp_all add: less_mult_imp_div_less)
  then have "lowerChar (hexDigit (unat x div 16)) = hexDigit (unat x div 16)" "lowerChar (hexDigit (unat x mod 16)) = hexDigit (unat x mod 16)"
    using map_lower_toHex [of "[x]"] by (simp_all add: toHex_def)
  with Cons d show ?case by (simp add: toHex_def)
qed (simp add: toHex_def)

text \<open>
  A transaction whose body is a \<open>RemoteTransaction\<close> hashes to whatever that body says: nothing of its header is in the hash. The evidence may carry one in
  place of the transaction it names: it has the hash, acts on whatever account its header names, names whatever authorities, and is of no type that is
  refused.
\<close>

theorem remote_stands_in:
  assumes "decodeTxnHex env (ed_transaction ev) = Inr txn" and "bodyOf txn = Some body" and "cls body = ''RemoteTransaction''"
    and "length (bytesOf body ''hash'') = 32" and "ed_txHash ev = toHex (bytesOf body ''hash'')" and "isPrincipal ev txn" and "ed_transaction ev \<noteq> []"
  shows "carriedTransaction env ev x = Inr (Some txn) \<and> refuseExecutorOverride txn x = Inr () \<and> additionalAuthorities txn = []"
proof (intro conjI)
  have "txnHash env txn = Inr (bytesOf body ''hash'')"
    using assms(2-4) by (simp add: txnHash_def transactionHash_def bodyOf_def)
  then show "carriedTransaction env ev x = Inr (Some txn)" using assms by (simp add: carriedTransaction_def)
  show "refuseExecutorOverride txn x = Inr ()" using assms(2,3) by (simp add: refuseExecutorOverride_def EXECUTOR_OVERRIDES_def)
  show "additionalAuthorities txn = []" using assms(2,3) by (simp add: additionalAuthorities_def)
qed

text \<open>Any other transaction, whose body is not one of data, is bound by its hash.\<close>

definition encodings :: "sig_env \<Rightarrow> wire_node \<Rightarrow> bytes set" where
  "encodings env n = (case encodeNode (se_codec env) {} n of Inl _ \<Rightarrow> {} | Inr b \<Rightarrow> {b})"

definition transactionInputs :: "sig_env \<Rightarrow> wire_node \<Rightarrow> wire_node \<Rightarrow> bytes set" where
  "transactionInputs env header body =
     encodings env header \<union> encodings env body \<union> {se_sha env a @ se_sha env b | a b. a \<in> encodings env header \<and> b \<in> encodings env body}"

definition wholeTransaction :: "sig_env \<Rightarrow> wire_node \<Rightarrow> wire_node \<Rightarrow> wire_node \<Rightarrow> bool" where
  "wholeTransaction env txn header body \<longleftrightarrow>
     nodeOf txn ''header'' = Some header \<and> nodeOf txn ''body'' = Some body \<and> cls header = ''TransactionHeader'' \<and>
     okNode (se_codec env) header \<and> okNode (se_codec env) body \<and> memberOf (se_codec env) ''TransactionBody'' body \<and>
     cls body \<noteq> ''RemoteTransaction'' \<and> cls body \<notin> set WRITE_DATA_BODIES"

lemma whole_hash:
  assumes "wholeTransaction env txn header body"
  obtains a b where "encodeNode (se_codec env) {} header = Inr a" "encodeNode (se_codec env) {} body = Inr b"
    "transactionHash env txn = Inr (se_sha env (se_sha env a @ se_sha env b))"
    "decodeObject (se_codec env) ''TransactionHeader'' a = Inr header"
    "decodeUnionWith (se_codec env) (decodeObject (se_codec env)) ''TransactionBody'' b = Inr (Some body)"
proof -
  obtain a where a: "encodeNode (se_codec env) {} header = Inr a" "decodeObject (se_codec env) (cls header) a = Inr header"
    using okNode_reads [of "se_codec env" header] assms by (auto simp: wholeTransaction_def reads_def)
  obtain b where b: "encodeNode (se_codec env) {} body = Inr b" "decodeObject (se_codec env) (cls body) b = Inr body"
    using okNode_reads [of "se_codec env" body] assms by (auto simp: wholeTransaction_def reads_def)
  show thesis
  proof (rule that [OF a(1) b(1)])
    show "transactionHash env txn = Inr (se_sha env (se_sha env a @ se_sha env b))"
      using assms a b by (simp add: wholeTransaction_def transactionHash_def bodyHash_def hashOfNode_def)
    show "decodeObject (se_codec env) ''TransactionHeader'' a = Inr header" using assms a by (simp add: wholeTransaction_def)
    show "decodeUnionWith (se_codec env) (decodeObject (se_codec env)) ''TransactionBody'' b = Inr (Some body)"
      using assms memberOf_decodes [OF _ b] by (simp add: wholeTransaction_def)
  qed
qed

text \<open>
  C14. The hash of a transaction binds the whole of it: two transactions with one hash have the same header - the principal, the authorities, the initiator -
  and the same body, unless the hash function collides on what is hashed for them. The transactions are those whose body is neither a
  \<open>RemoteTransaction\<close>, which states its hash, nor one of the four that write data.
\<close>

theorem transaction_binding:
  assumes "wholeTransaction env t1 h1 b1" and "wholeTransaction env t2 h2 b2" and "transactionHash env t1 = transactionHash env t2"
    and "\<And>x. length (se_sha env x) = 32" and "inj_on (se_sha env) (transactionInputs env h1 b1 \<union> transactionInputs env h2 b2)"
  shows "h1 = h2 \<and> b1 = b2"
proof -
  obtain a1 c1 where 1: "encodeNode (se_codec env) {} h1 = Inr a1" "encodeNode (se_codec env) {} b1 = Inr c1"
    "transactionHash env t1 = Inr (se_sha env (se_sha env a1 @ se_sha env c1))"
    "decodeObject (se_codec env) ''TransactionHeader'' a1 = Inr h1"
    "decodeUnionWith (se_codec env) (decodeObject (se_codec env)) ''TransactionBody'' c1 = Inr (Some b1)"
    by (rule whole_hash [OF assms(1)])
  obtain a2 c2 where 2: "encodeNode (se_codec env) {} h2 = Inr a2" "encodeNode (se_codec env) {} b2 = Inr c2"
    "transactionHash env t2 = Inr (se_sha env (se_sha env a2 @ se_sha env c2))"
    "decodeObject (se_codec env) ''TransactionHeader'' a2 = Inr h2"
    "decodeUnionWith (se_codec env) (decodeObject (se_codec env)) ''TransactionBody'' c2 = Inr (Some b2)"
    by (rule whole_hash [OF assms(2)])
  let ?I = "transactionInputs env h1 b1 \<union> transactionInputs env h2 b2"
  have m: "a1 \<in> ?I" "c1 \<in> ?I" "se_sha env a1 @ se_sha env c1 \<in> ?I" "a2 \<in> ?I" "c2 \<in> ?I" "se_sha env a2 @ se_sha env c2 \<in> ?I"
    using 1(1,2) 2(1,2) by (simp_all add: transactionInputs_def encodings_def)
  note same = inj_onD [OF assms(5)]
  have "se_sha env a1 @ se_sha env c1 = se_sha env a2 @ se_sha env c2"
    by (rule same [OF _ m(3) m(6)]) (use 1(3) 2(3) assms(3) in simp)
  then have e: "se_sha env a1 = se_sha env a2" "se_sha env c1 = se_sha env c2" using assms(4) by (simp_all add: append_eq_append_conv)
  have "a1 = a2" "c1 = c2" by (rule same [OF e(1) m(1) m(4)], rule same [OF e(2) m(2) m(5)])
  with 1(4,5) 2(4,5) show ?thesis by simp
qed

text \<open>The transaction that creates bob's identity, beside a copy of it that carries a field no tables know.\<close>

definition bobCopy :: wire_node where
  "bobCopy = Node ''Transaction'' (nodeFields bobGenesis) [24, 1] False"

definition bobPart :: "wire_node \<Rightarrow> string \<Rightarrow> wire_node" where
  "bobPart n name = (case nodeOf n name of Some m \<Rightarrow> m | None \<Rightarrow> n)"

lemma bob_whole: "wholeTransaction (je_sig bobEnv) bobGenesis (bobPart bobGenesis ''header'') (bobPart bobGenesis ''body'')" "wholeTransaction (je_sig bobEnv) bobCopy (bobPart bobCopy ''header'') (bobPart bobCopy ''body'')"
  by code_simp+

lemma bob_parts: "bobPart bobCopy ''header'' = bobPart bobGenesis ''header''" "bobPart bobCopy ''body'' = bobPart bobGenesis ''body''"
  by code_simp+

lemma bob_encodes: "case encodeNode bobCodec {} (bobPart bobGenesis ''header'') of Inr a \<Rightarrow> length a = 49 | Inl _ \<Rightarrow> False"
  "case encodeNode bobCodec {} (bobPart bobGenesis ''body'') of Inr c \<Rightarrow> length c = 73 | Inl _ \<Rightarrow> False"
  by code_simp+

lemma bob_inputs: "\<exists>a c. transactionInputs (je_sig bobEnv) (bobPart bobGenesis ''header'') (bobPart bobGenesis ''body'') = {a, c, bobHash a @ bobHash c} \<and> length a = 49 \<and> length c = 73"
proof -
  obtain a c where e: "encodeNode bobCodec {} (bobPart bobGenesis ''header'') = Inr a" "encodeNode bobCodec {} (bobPart bobGenesis ''body'') = Inr c" and l: "length a = 49 \<and> length c = 73"
    using bob_encodes by (auto split: sum.splits)
  have "se_codec (je_sig bobEnv) = bobCodec" "se_sha (je_sig bobEnv) = bobHash" by (simp_all add: bobEnv_def)
  with e have "transactionInputs (je_sig bobEnv) (bobPart bobGenesis ''header'') (bobPart bobGenesis ''body'') = {a, c, bobHash a @ bobHash c}"
    by (auto simp: transactionInputs_def encodings_def)
  with l show ?thesis by blast
qed


theorem transaction_binding_witness: "bobGenesis \<noteq> bobCopy \<and> transactionHash (je_sig bobEnv) bobGenesis = transactionHash (je_sig bobEnv) bobCopy \<and>
   bobPart bobGenesis ''header'' = bobPart bobCopy ''header'' \<and> bobPart bobGenesis ''body'' = bobPart bobCopy ''body''"
proof -
  have same: "transactionHash (je_sig bobEnv) bobGenesis = transactionHash (je_sig bobEnv) bobCopy" "bobGenesis \<noteq> bobCopy" by code_simp+
  obtain a c where i: "transactionInputs (je_sig bobEnv) (bobPart bobGenesis ''header'') (bobPart bobGenesis ''body'') = {a, c, bobHash a @ bobHash c}" and l: "length a = 49" "length c = 73"
    using bob_inputs by blast
  have "inj_on (se_sha (je_sig bobEnv)) (transactionInputs (je_sig bobEnv) (bobPart bobGenesis ''header'') (bobPart bobGenesis ''body''))"
  proof -
    have "se_sha (je_sig bobEnv) = bobHash" by (simp add: bobEnv_def)
    moreover have "inj_on bobHash {a, c, bobHash a @ bobHash c}"
      by (rule inj_onI) (auto simp: bobHash_def l)
    ultimately show ?thesis unfolding i by simp
  qed
  then have "bobPart bobGenesis ''header'' = bobPart bobCopy ''header'' \<and> bobPart bobGenesis ''body'' = bobPart bobCopy ''body''"
    by (intro transaction_binding [OF bob_whole same(1)]) (simp_all only: bob_parts Un_absorb, simp_all add: bobEnv_def)
  with same show ?thesis by blast
qed

end
