(* ===== verification/Ballot.thy ===== *)
theory Ballot
  imports Roles
begin

text \<open>
  The vote on the certified timeline: the second half of \<open>packages/verify/src/s3/timeline.ts\<close>. The counted signatures become facts, each placed in the
  block its page's index chain gives it and verified over the carried transaction; the vote model is run on them; every recorded vote has to be
  reproduced and every required authority has to accept. The report the code fills in is passed along and returned. A value the code takes for present and
  is not (a \<open>TypeError\<close>) is \<open>Refused\<close>; \<open>evaluateTimeline\<close> is run only where \<open>timelineEngaged\<close> has found the arrivals.
\<close>

section \<open>The report\<close>

record arrival_report =
  rr_kind :: string
  rr_account :: string
  rr_partition :: string
  rr_message :: string
  rr_block :: int

record proven_page =
  pp_url :: string
  pp_partition :: string
  pp_block :: int
  pp_roles :: "string list"
  pp_declared :: "string list"

record vote_report =
  vr_version :: string
  vr_tag :: string
  vr_pages :: "(wire_node \<times> bytes) list"
  vr_pageChains :: "page_chain list"
  vr_proven :: "proven_page list"
  vr_unproven :: "state_entry list"
  vr_routingHeight :: int
  vr_mode :: string
  vr_disclosures :: "state_entry list"
  vr_arrivals :: "arrival_report list"

definition unproven :: "state_entry \<Rightarrow> vote_report \<Rightarrow> vote_report" where
  "unproven e rep = rep\<lparr>vr_unproven := vr_unproven rep @ [e]\<rparr>"

definition disclosed :: "state_entry \<Rightarrow> vote_report \<Rightarrow> vote_report" where
  "disclosed e rep = rep\<lparr>vr_disclosures := vr_disclosures rep @ [e]\<rparr>"

definition arrived :: "arrival_report \<Rightarrow> vote_report \<Rightarrow> vote_report" where
  "arrived r rep = rep\<lparr>vr_arrivals := vr_arrivals rep @ [r]\<rparr>"

section \<open>Timelines\<close>

type_synonym timelines = "(string \<times> page_state list) list"

definition normURL :: "acc_url option \<Rightarrow> string" where
  "normURL u = (case u of None \<Rightarrow> [] | Some v \<Rightarrow> canonicalAccSpelling (urlString v))"

definition parseVote :: "string \<Rightarrow> int option" where
  "parseVote s =
     (if s = ''accept'' then Some 0 else if s = ''reject'' then Some 1 else if s = ''abstain'' then Some 2 else if s = ''suggest'' then Some 3 else None)"

fun foldPages :: "judge_env \<Rightarrow> by_url \<Rightarrow> timelines \<Rightarrow> page_doc list \<Rightarrow> refusal + timelines" where
  "foldPages env byURL out [] = Inr out"
| "foldPages env byURL out (p # ps) =
     (case pg_history p of
        None \<Rightarrow> foldPages env byURL out ps
      | Some h \<Rightarrow>
          (case fromBinary (pg_url p) of
             None \<Rightarrow> Inl (Refused ''a page is not a URL'')
           | Some u \<Rightarrow>
               (case map_of byURL (urlKey u) of
                  None \<Rightarrow> Inl (Refused ''TypeError'')
                | Some pa \<Rightarrow>
                    bindE (replayHistory env pa p h) (\<lambda>sts. foldPages env byURL (upsert (canonicalAccSpelling (pg_url p)) sts out) ps))))"

definition foldTimelines :: "judge_env \<Rightarrow> evidence \<Rightarrow> by_url \<Rightarrow> refusal + timelines" where
  "foldTimelines env ev byURL = foldPages env byURL [] (ed_pages ev)"

text \<open>What the evidence lacks for the votes to be evaluated again, if anything.\<close>

fun hopLacks :: "timelines \<Rightarrow> hop list \<Rightarrow> string option" where
  "hopLacks tm [] = None"
| "hopLacks tm (h # hs) =
     (if ho_arrival h = None then Some (''the signature on '' @ ho_page h @ '' carries no arrival proof'')
      else if map_of tm (canonicalAccSpelling (ho_page h)) = None then Some (ho_page h @ '' carries no history'')
      else hopLacks tm hs)"

fun voteLacks :: "timelines \<Rightarrow> Judge.vote list \<Rightarrow> string option" where
  "voteLacks tm [] = None"
| "voteLacks tm (v # vs) =
     (if vt_hops v = [] then Some (''the vote of '' @ vt_authority v @ '' carries no cause chain'')
      else case hopLacks tm (allHops v) of Some why \<Rightarrow> Some why | None \<Rightarrow> voteLacks tm vs)"

definition timelineEngaged :: "evidence \<Rightarrow> timelines \<Rightarrow> bool \<times> string" where
  "timelineEngaged ev tm =
     (if ed_transaction ev = [] then
        (False, ''the evidence carries no transaction, so the page blacklist and the required authorities are unknown'')
      else if ed_votes ev = [] then (False, ''the evidence carries no vote'')
      else case voteLacks tm (ed_votes ev) of None \<Rightarrow> (True, []) | Some why \<Rightarrow> (False, why))"

record timeline_in =
  ti_ev :: evidence
  ti_x :: xanchor
  ti_network :: string
  ti_byURL :: by_url
  ti_auths :: "(acc_url \<times> bool) list"
  ti_anchors :: "(string \<times> xanchor) list"

text \<open>\<open>StatesSource\<close>\<close>

definition statesOf :: "timelines \<Rightarrow> string \<Rightarrow> unit + page_state list" where
  "statesOf tm page = (case map_of tm (canonicalAccSpelling page) of None \<Rightarrow> Inl () | Some sts \<Rightarrow> Inr sts)"

definition releasedAt :: "judge_env \<Rightarrow> timeline_in \<Rightarrow> wire_node \<Rightarrow> Judge.vote \<Rightarrow> int" where
  "releasedAt env ti txn v =
     (case vt_produced v of
        None \<Rightarrow> 0
      | Some pr \<Rightarrow>
          if holdUntilOf txn = 0 then 0
          else (case fromBinary (pr_account pr) of
                  None \<Rightarrow> 0
                | Some au \<Rightarrow>
                    (case map_of (ti_byURL ti) (urlKey au) of
                       None \<Rightarrow> 0
                     | Some pa \<Rightarrow>
                         (case deriveArrival env pa (pn_page pa) (pr_chain pr) (pr_message pr) (pr_receipt pr) (pr_arrival pr) of
                            Inl _ \<Rightarrow> 0 | Inr b \<Rightarrow> b))))"

section \<open>Facts\<close>

definition namedAt :: "proven_acct \<Rightarrow> string \<Rightarrow> refusal" where
  "namedAt pa c = Named c (xa_id (pn_anchor pa)) (xa_block (pn_anchor pa))"

text \<open>A counted signature: where it arrived, and what was signed.\<close>

definition countedHop :: "judge_env \<Rightarrow> timeline_in \<Rightarrow> hop \<Rightarrow> refusal + proven_acct \<times> int \<times> wire_node" where
  "countedHop env ti h =
     (case fromBinary (ho_page h) of
        None \<Rightarrow> Inl (Refused ''a hop page is not a URL'')
      | Some hp \<Rightarrow>
          (case (map_of (ti_byURL ti) (urlKey hp), ho_arrival h) of
             (Some pa, Some a) \<Rightarrow>
               bindE (deriveArrival env pa (pn_page pa) ''signature'' (ho_message h) (ho_receipt h) a) (\<lambda>block.
               guardE (block \<noteq> ho_block h) (namedAt pa ''g1_arrival_unproven'') (
               bindE (mapErr (\<lambda>_. namedAt pa ''g1_signature_invalid'') (bindE (decodeSigHex env (ho_signature h)) requireSig)) (\<lambda>sig.
               bindE (signatureHash env sig) (\<lambda>sh.
               guardE (toHex sh \<noteq> goLower (ho_message h)) (namedAt pa ''g1_signature_invalid'') (Inr (pa, block, sig))))))
           | _ \<Rightarrow> Inl (Refused ''TypeError'')))"

text \<open>A delegated vote, or a signature of a key of the page over the transaction.\<close>

definition hopFact :: "judge_env \<Rightarrow> timeline_in \<Rightarrow> wire_node \<Rightarrow> hop \<Rightarrow> proven_acct \<Rightarrow> int \<Rightarrow> wire_node \<Rightarrow> refusal + (sig_fact + arrival_fact)" where
  "hopFact env ti txn h pa block sig =
     (let bad = namedAt pa ''g1_signature_invalid''; page = canonicalAccSpelling (ho_page h) in
      if cls sig = ''AuthoritySignature'' then
        (case urlsOf sig ''delegator'' of
           [] \<Rightarrow> Inl bad
         | d # beyond \<Rightarrow>
             guardE (normURL (Some d) \<noteq> page) bad (
               Inr (Inr \<lparr>ar_id = ho_message h, ar_page = page, ar_authority = normURL (urlOf sig ''authority''),
                 ar_path = rev (map (\<lambda>u. normURL (Some u)) beyond), ar_block = block, ar_origin = normURL (urlOf sig ''origin''),
                 ar_vote = Model.bigOf sig ''vote''\<rparr>)))
      else
        bindE (judgeKeySignature env sig txn (ti_network ti) (pn_anchor pa) block) (\<lambda>vs.
        guardE (normURL (urlOf (vd_inner vs) ''signer'') \<noteq> page) bad (
          Inr (Inl \<lparr>sg_id = ho_message h, sg_signer = page,
            sg_path = snd (unwrapSignature (\<lambda>u. canonicalAccSpelling (urlString u)) sig), sg_version = signerVersionOf (vd_inner vs),
            sg_keyHash = toHex (vd_keyHash vs), sg_vote = voteOf sig, sg_block = block, sg_partition = Some (goLower (xa_id (pn_anchor pa)))\<rparr>))))"

record gathered =
  ga_seen :: "string list"
  ga_sigs :: "sig_fact list"
  ga_arrivals :: "arrival_fact list"
  ga_votes :: "recorded_vote list"
  ga_report :: vote_report

definition addFact :: "string \<Rightarrow> sig_fact + arrival_fact \<Rightarrow> gathered \<Rightarrow> gathered" where
  "addFact m f g =
     (case f of
        Inl s \<Rightarrow> g\<lparr>ga_seen := m # ga_seen g, ga_sigs := ga_sigs g @ [s]\<rparr>
      | Inr a \<Rightarrow> g\<lparr>ga_seen := m # ga_seen g, ga_arrivals := ga_arrivals g @ [a]\<rparr>)"

fun countHops :: "judge_env \<Rightarrow> timeline_in \<Rightarrow> wire_node \<Rightarrow> hop list \<Rightarrow> gathered \<Rightarrow> refusal + gathered" where
  "countHops env ti txn [] g = Inr g"
| "countHops env ti txn (h # hs) g =
     bindE (countedHop env ti h) (\<lambda>(pa, block, sig).
       let g1 = g\<lparr>ga_report := arrived \<lparr>rr_kind = ''signature'', rr_account = ho_page h, rr_partition = xa_source (pn_anchor pa),
                    rr_message = ho_message h, rr_block = block\<rparr> (ga_report g)\<rparr> in
       if ho_message h \<in> set (ga_seen g) then countHops env ti txn hs g1
       else bindE (hopFact env ti txn h pa block sig) (\<lambda>f. countHops env ti txn hs (addFact (ho_message h) f g1)))"

fun gatherVotes :: "judge_env \<Rightarrow> timeline_in \<Rightarrow> wire_node \<Rightarrow> Judge.vote list \<Rightarrow> gathered \<Rightarrow> refusal + gathered" where
  "gatherVotes env ti txn [] g = Inr g"
| "gatherVotes env ti txn (v # vs) g =
     (case parseVote (vt_vote v) of
        None \<Rightarrow> Inl (Refused ''not a vote'')
      | Some k \<Rightarrow>
          bindE (countHops env ti txn (allHops v) g) (\<lambda>g1.
            gatherVotes env ti txn vs (g1\<lparr>ga_votes := ga_votes g1 @
              [\<lparr>rv_id = vt_message v, rv_authority = canonicalAccSpelling (vt_authority v), rv_origin = canonicalAccSpelling (vt_origin v),
                rv_vote = k, rv_block = None, rv_releasedAt = releasedAt env ti txn v\<rparr>]\<rparr>)))"

definition factsOf :: "wire_node \<Rightarrow> gathered \<Rightarrow> facts" where
  "factsOf txn g =
     \<lparr>fa_txType = bodyType txn, fa_sigs = ga_sigs g, fa_arrivals = ga_arrivals g, fa_votes = ga_votes g, fa_holdUntil = holdUntilOf txn\<rparr>"

section \<open>The authorities\<close>

text \<open>The enabled authorities of the principal, or all of them where the type requires authorization.\<close>

definition requiredOf :: "judge_env \<Rightarrow> wire_node \<Rightarrow> (acc_url \<times> bool) list \<Rightarrow> acc_url list" where
  "requiredOf env txn auths = map fst (filter (\<lambda>a. \<not> snd a \<or> requireAuthorization (je_types env) (bodyType txn)) auths)"

definition allDisabled :: "judge_env \<Rightarrow> wire_node \<Rightarrow> (acc_url \<times> bool) list \<Rightarrow> bool" where
  "allDisabled env txn auths \<longleftrightarrow> requiredOf env txn auths = [] \<and> \<not> requireAuthorization (je_types env) (bodyType txn)"

definition accountAuthority :: "string \<Rightarrow> account_authority" where
  "accountAuthority u = \<lparr>aa_url = u, aa_disabled = False\<rparr>"

text \<open>The voters that are not among the authorities already: their votes are evaluated as well.\<close>

fun furtherVoters :: "string list \<Rightarrow> recorded_vote list \<Rightarrow> account_authority list" where
  "furtherVoters have [] = []"
| "furtherVoters have (v # vs) =
     (if rv_authority v \<in> set have then furtherVoters have vs
      else accountAuthority (rv_authority v) # furtherVoters (rv_authority v # have) vs)"

definition unevaluable :: "vote_error \<Rightarrow> bool" where
  "unevaluable e = (case e of NoAuthoritySet _ \<Rightarrow> False | AllAuthoritiesDisabled _ \<Rightarrow> False | _ \<Rightarrow> True)"

definition byAuthority :: "account_vote \<Rightarrow> string \<Rightarrow> book_vote option" where
  "byAuthority res u = map_of (rev (map (\<lambda>a. (Vote.av_authority a, Vote.av_vote a)) (ac_authorities res))) u"

definition cutSlash :: "string \<Rightarrow> string" where
  "cutSlash s = (if s \<noteq> [] \<and> last s = CHR ''/'' then butlast s else s)"

text \<open>A recorded vote against the evaluation of its authority.\<close>

definition reproduced :: "account_vote \<Rightarrow> recorded_vote \<Rightarrow> bool" where
  "reproduced res v =
     (case byAuthority res (rv_authority v) of
        None \<Rightarrow> False
      | Some bv \<Rightarrow> bv_voted bv \<and> bv_by bv = rv_origin v \<and> goLower (bv_vote bv) = goLower (voteName (rv_vote v)))"

fun checkRecorded :: "xanchor \<Rightarrow> account_vote \<Rightarrow> string list \<Rightarrow> string list \<Rightarrow> bool \<Rightarrow> recorded_vote list \<Rightarrow> vote_report \<Rightarrow> refusal + vote_report" where
  "checkRecorded x res listed named disabled [] rep = Inr rep"
| "checkRecorded x res listed named disabled (v # vs) rep =
     (let bad = Named ''g1_vote_not_reproduced'' (xa_id x) (xa_block x) in
      guardE (\<not> reproduced res v) bad (
        if goLower (cutSlash (rv_authority v)) \<notin> set listed \<and> goLower (rv_authority v) \<notin> set named then
          guardE (\<not> disabled) bad (
            checkRecorded x res listed named disabled vs (disclosed (stateEntry ''g1_authority_voter_outside_list'' (xa_id x) (xa_block x)) rep))
        else checkRecorded x res listed named disabled vs rep))"

definition accepts :: "account_vote \<Rightarrow> string \<Rightarrow> bool" where
  "accepts res u = (case byAuthority res u of None \<Rightarrow> False | Some bv \<Rightarrow> bv_voted bv \<and> bv_vote bv = ''accept'')"

text \<open>The carried transaction, which has to be the one the evidence names.\<close>

definition timelineTransaction :: "judge_env \<Rightarrow> timeline_in \<Rightarrow> refusal + wire_node" where
  "timelineTransaction env ti =
     (let bad = Named ''g1_transaction_mismatch'' (xa_id (ti_x ti)) (xa_block (ti_x ti)) in
      bindE (mapErr (\<lambda>_. bad) (decodeTxnHex env (ed_transaction (ti_ev ti)))) (\<lambda>txn.
      bindE (txnHash env txn) (\<lambda>h.
      guardE (h \<noteq> hexBuffer (ed_txHash (ti_ev ti))) bad (guardE (\<not> isPrincipal (ti_ev ti) txn) bad (Inr txn)))))"

text \<open>The evaluation: the facts, the authorities, the votes of all of them.\<close>

definition evaluateVotes :: "judge_env \<Rightarrow> timeline_in \<Rightarrow> timelines \<Rightarrow> wire_node \<Rightarrow> facts \<Rightarrow> refusal + account_vote" where
  "evaluateVotes env ti tm txn F =
     (let x = ti_x ti;
          auths = map (\<lambda>u. normURL (Some u)) (requiredOf env txn (ti_auths ti));
          extras = map (\<lambda>u. normURL (Some u)) (headerAuthorityURLs txn)
      in guardE (list_ex (\<lambda>u. map_of (ti_byURL ti) (urlKey u) = None) (headerAuthorityURLs txn))
           (Named ''g1_header_authority_missing'' (xa_id x) (xa_block x)) (
         mapErr (\<lambda>e. if unevaluable e then Named ''g1_vote_not_reproduced'' (xa_id x) (xa_block x) else Refused ''the vote model'')
           (evaluate (je_types env) F (statesOf tm) (ed_account (ti_ev ti))
             (map accountAuthority auths @ furtherVoters (auths @ extras) (fa_votes F)) extras False)))"

definition evaluateTimeline :: "judge_env \<Rightarrow> timeline_in \<Rightarrow> timelines \<Rightarrow> vote_report \<Rightarrow> refusal + vote_report" where
  "evaluateTimeline env ti tm rep =
     (let x = ti_x ti; notReady = Named ''g1_authority_not_ready'' (xa_id x) (xa_block x) in
      bindE (timelineTransaction env ti) (\<lambda>txn.
      bindE (gatherVotes env ti txn (ed_votes (ti_ev ti)) \<lparr>ga_seen = [], ga_sigs = [], ga_arrivals = [], ga_votes = [], ga_report = rep\<rparr>) (\<lambda>g.
      let F = factsOf txn g;
          auths = map (\<lambda>u. normURL (Some u)) (requiredOf env txn (ti_auths ti));
          extras = map (\<lambda>u. normURL (Some u)) (headerAuthorityURLs txn);
          disabled = allDisabled env txn (ti_auths ti);
          rep1 = (ga_report g)\<lparr>vr_mode := if disabled then ''all_authorities_disabled'' else ''authorities_required''\<rparr>
      in
      bindE (evaluateVotes env ti tm txn F) (\<lambda>res.
      bindE (checkRecorded x res (map (urlKey \<circ> fst) (ti_auths ti)) (map urlKey (headerAuthorityURLs txn)) disabled (fa_votes F) rep1) (\<lambda>rep2.
      guardE (\<not> list_all (accepts res) auths) notReady (
      guardE (\<not> list_all (accepts res) extras) notReady (
      guardE (disabled \<and> fa_votes F = []) notReady (Inr rep2))))))))"

section \<open>Productions\<close>

definition bindSequenced :: "production \<Rightarrow> sequenced \<Rightarrow> Judge.vote \<Rightarrow> xanchor \<Rightarrow> refusal + unit" where
  "bindSequenced pr sm v src =
     (let bad = Named ''g1_arrival_unproven'' (xa_id src) (xa_block src); tp = vt_transport v in
      guardE (toHex (sq_hash sm) \<noteq> goLower (pr_message pr)) bad (
      guardE (sq_kind sm \<noteq> ''signature'') bad (
      guardE (case sq_sigHash sm of None \<Rightarrow> True | Some h \<Rightarrow> toHex h \<noteq> goLower (vt_message v)) bad (
      guardE (case (sq_source sm, sq_destination sm) of
                (Some s, Some d) \<Rightarrow> \<not> goEqualFold (urlString s) (tp_source tp) \<or> \<not> goEqualFold (urlString d) (tp_destination tp) \<or>
                   sq_number sm \<noteq> tp_number tp
              | _ \<Rightarrow> True) bad (Inr ())))))"

definition votePlace :: "timeline_in \<Rightarrow> Judge.vote \<Rightarrow> string \<times> int" where
  "votePlace ti v =
     (case (if tp_kind (vt_transport v) = ''sequenced'' then map_of (ti_anchors ti) (goLower (tp_source (vt_transport v))) else None) of
        Some a \<Rightarrow> (xa_id a, xa_block a)
      | None \<Rightarrow> (xa_id (ti_x ti), xa_block (ti_x ti)))"

text \<open>Where the production of a vote has to be recorded, by its transport.\<close>

definition productionPlace :: "timeline_in \<Rightarrow> Judge.vote \<Rightarrow> production \<Rightarrow> proven_acct \<Rightarrow> vote_report \<Rightarrow> refusal + vote_report" where
  "productionPlace ti v pr pa rep =
     (let tp = vt_transport v in
      if tp_kind tp = ''inline'' then
        guardE (\<not> goEqualFold (pr_account pr) (ed_account (ti_ev ti)) \<or> pr_chain pr \<noteq> ''signature'' \<or> \<not> goEqualFold (pr_message pr) (vt_message v))
          (Named ''g1_arrival_unproven'' (fst (votePlace ti v)) (snd (votePlace ti v))) (Inr rep)
      else if tp_kind tp = ''sequenced'' then
        (case map_of (ti_anchors ti) (goLower (tp_source tp)) of
           None \<Rightarrow> Inl (Named ''g1_partition_anchor_unavailable'' (tp_source tp) 0)
         | Some src \<Rightarrow>
             let bad = Named ''g1_arrival_unproven'' (xa_id src) (xa_block src) in
             guardE (\<not> goEqualFold (pr_account pr) (urlString (joinPath (partitionUrl (xa_id src)) [SYNTHETIC])) \<or> pr_chain pr \<noteq> ''main'') bad (
             guardE (cls (pn_acct pa) \<noteq> ''SyntheticLedger'') bad (
             case pr_sequenced pr of
               None \<Rightarrow> Inr (disclosed (stateEntry ''g1_vote_production_unbound'' (xa_id src) (xa_block src)) rep)
             | Some sm \<Rightarrow> bindE (bindSequenced pr sm v src) (\<lambda>_. Inr rep))))
      else Inr rep)"

text \<open>A vote is produced no earlier than the signature that caused it arrived.\<close>

definition afterCause :: "timeline_in \<Rightarrow> Judge.vote \<Rightarrow> proven_acct \<Rightarrow> int \<Rightarrow> refusal + unit" where
  "afterCause ti v pa block =
     (case vt_hops v of
        [] \<Rightarrow> Inr ()
      | h # _ \<Rightarrow>
          (case Option.bind (fromBinary (ho_page h)) (\<lambda>hp. map_of (ti_byURL ti) (urlKey hp)) of
             None \<Rightarrow> Inl (Refused ''TypeError'')
           | Some hpa \<Rightarrow>
               guardE (xa_id (pn_anchor hpa) = xa_id (pn_anchor pa) \<and> block < ho_block h) (namedAt pa ''g1_block_before_signature'') (Inr ())))"

definition verifyProduction :: "judge_env \<Rightarrow> timeline_in \<Rightarrow> bool \<Rightarrow> Judge.vote \<Rightarrow> vote_report \<Rightarrow> refusal + vote_report" where
  "verifyProduction env ti held v rep =
     (case vt_produced v of
        None \<Rightarrow>
          Inr (if held \<or> tp_kind (vt_transport v) = ''sequenced''
               then unproven (stateEntry ''g1_vote_held'' (fst (votePlace ti v)) (snd (votePlace ti v))) rep else rep)
      | Some pr \<Rightarrow>
          (case fromBinary (pr_account pr) of
             None \<Rightarrow> Inl (Refused ''a production account is not a URL'')
           | Some au \<Rightarrow>
               (case map_of (ti_byURL ti) (urlKey au) of
                  None \<Rightarrow> Inl (Named ''g1_completeness_unproven'' (fst (votePlace ti v)) (snd (votePlace ti v)))
                | Some pa \<Rightarrow>
                    bindE (productionPlace ti v pr pa rep) (\<lambda>rep1.
                    bindE (deriveArrival env pa (pn_page pa) (pr_chain pr) (pr_message pr) (pr_receipt pr) (pr_arrival pr)) (\<lambda>block.
                    bindE (afterCause ti v pa block) (\<lambda>_.
                      Inr (arrived \<lparr>rr_kind = ''produced'', rr_account = pr_account pr, rr_partition = xa_source (pn_anchor pa),
                             rr_message = pr_message pr, rr_block = block\<rparr> rep1)))))))"

fun verifyEach :: "judge_env \<Rightarrow> timeline_in \<Rightarrow> bool \<Rightarrow> Judge.vote list \<Rightarrow> vote_report \<Rightarrow> refusal + vote_report" where
  "verifyEach env ti held [] rep = Inr rep"
| "verifyEach env ti held (v # vs) rep = bindE (verifyProduction env ti held v rep) (verifyEach env ti held vs)"

definition verifyProductions :: "judge_env \<Rightarrow> timeline_in \<Rightarrow> vote_report \<Rightarrow> refusal + vote_report" where
  "verifyProductions env ti rep =
     bindE (carriedTransaction env (ti_ev ti) (ti_x ti)) (\<lambda>txn.
       verifyEach env ti (case txn of None \<Rightarrow> False | Some t \<Rightarrow> holdUntilOf t \<noteq> 0) (ed_votes (ti_ev ti)) rep)"

end
