(* ===== verification/BallotSound.thy ===== *)
theory BallotSound
  imports Ballot VoteSound
begin

text \<open>
  What an accepted vote of the evidence rests on. The vote the model names is the vote it decided (a property of the memos), the facts it was given
  are signatures that sign the carried transaction and are placed by the chains, and every required authority accepts on them.
\<close>

section \<open>What an evaluation answers\<close>

lemma byAuthority_mem: "byAuthority res u = Some bv \<Longrightarrow> \<exists>av \<in> set (ac_authorities res). Vote.av_authority av = u \<and> Vote.av_vote av = bv"
  by (auto simp: byAuthority_def dest!: map_of_SomeD)

lemma voteName_accept: "voteName v = ''accept'' \<longleftrightarrow> v = Accept"
  by (auto simp: voteName_def Accept_def)

lemma voteName_lower:
  assumes "parseVote s = Some k" and "goLower (voteName v) = goLower (voteName k)"
  shows "v = k"
proof (cases "v \<in> {0, 1, 2, 3}")
  case True
  have "k \<in> {0, 1, 2, 3}" using assms(1) by (auto simp: parseVote_def split: if_splits)
  moreover have "goLower ''accept'' = ''accept''" "goLower ''reject'' = ''reject''" "goLower ''abstain'' = ''abstain''" "goLower ''suggest'' = ''suggest''"
    by code_simp+
  ultimately show ?thesis using True assms(2) by (auto simp: voteName_def)
next
  case False
  have "k \<in> {0, 1, 2, 3}" using assms(1) by (auto simp: parseVote_def split: if_splits)
  moreover have "goLower ''accept'' = ''accept''" "goLower ''reject'' = ''reject''" "goLower ''abstain'' = ''abstain''" "goLower ''suggest'' = ''suggest''"
    "goLower ''VoteType:'' = ''votetype:''"
    by code_simp+
  ultimately show ?thesis
    using False assms(2) goLower_append [of "''VoteType:''" "if v < 0 then ''-'' @ decNat (nat (- v)) else decNat (nat v)"] by (auto simp: voteName_def)
qed

section \<open>The facts of a ballot\<close>

text \<open>A counted key signature: the hop it is on, the block its chain gives it, and the transaction it signs.\<close>

definition signedFact :: "judge_env \<Rightarrow> timeline_in \<Rightarrow> wire_node \<Rightarrow> hop set \<Rightarrow> sig_fact \<Rightarrow> bool" where
  "signedFact env ti txn H s \<longleftrightarrow>
     (\<exists>h \<in> H. \<exists>u pa a sig vs sh.
        fromBinary (ho_page h) = Some u \<and> map_of (ti_byURL ti) (urlKey u) = Some pa \<and> ho_arrival h = Some a \<and>
        deriveArrival env pa (pn_page pa) ''signature'' (ho_message h) (ho_receipt h) a = Inr (sg_block s) \<and>
        decodeSigHex env (ho_signature h) = Inr (Some sig) \<and> signatureHash env sig = Inr sh \<and> toHex sh = goLower (ho_message h) \<and>
        judgeKeySignature env sig txn (ti_network ti) (pn_anchor pa) (sg_block s) = Inr vs \<and>
        sg_id s = ho_message h \<and> sg_signer s = canonicalAccSpelling (ho_page h) \<and> normURL (urlOf (vd_inner vs) ''signer'') = sg_signer s \<and>
        sg_version s = signerVersionOf (vd_inner vs) \<and> sg_keyHash s = toHex (vd_keyHash vs) \<and> sg_vote s = voteOf sig)"

text \<open>A counted delegated vote: the hop it is on and the block its chain gives it.\<close>

definition placedFact :: "judge_env \<Rightarrow> timeline_in \<Rightarrow> hop set \<Rightarrow> arrival_fact \<Rightarrow> bool" where
  "placedFact env ti H f \<longleftrightarrow>
     (\<exists>h \<in> H. \<exists>u pa a sig sh.
        fromBinary (ho_page h) = Some u \<and> map_of (ti_byURL ti) (urlKey u) = Some pa \<and> ho_arrival h = Some a \<and>
        deriveArrival env pa (pn_page pa) ''signature'' (ho_message h) (ho_receipt h) a = Inr (ar_block f) \<and>
        decodeSigHex env (ho_signature h) = Inr (Some sig) \<and> signatureHash env sig = Inr sh \<and> toHex sh = goLower (ho_message h) \<and>
        cls sig = ''AuthoritySignature'' \<and> ar_id f = ho_message h \<and> ar_page f = canonicalAccSpelling (ho_page h) \<and>
        ar_authority f = normURL (urlOf sig ''authority'') \<and> ar_vote f = Model.bigOf sig ''vote'')"

definition justified :: "judge_env \<Rightarrow> timeline_in \<Rightarrow> wire_node \<Rightarrow> hop set \<Rightarrow> gathered \<Rightarrow> bool" where
  "justified env ti txn H g \<longleftrightarrow>
     distinct (map sg_id (ga_sigs g) @ map ar_id (ga_arrivals g)) \<and>
     sg_id ` set (ga_sigs g) \<union> ar_id ` set (ga_arrivals g) \<subseteq> set (ga_seen g) \<and>
     (\<forall>s \<in> set (ga_sigs g). signedFact env ti txn H s) \<and> (\<forall>a \<in> set (ga_arrivals g). placedFact env ti H a)"

lemma justified_report: "justified env ti txn H (g\<lparr>ga_report := r\<rparr>) \<longleftrightarrow> justified env ti txn H g"
  "justified env ti txn H (g\<lparr>ga_votes := vs\<rparr>) \<longleftrightarrow> justified env ti txn H g"
  by (simp_all add: justified_def)

lemma countedHop_Inr:
  assumes "countedHop env ti h = Inr (pa, block, sig)"
  obtains u a sh where "fromBinary (ho_page h) = Some u" "map_of (ti_byURL ti) (urlKey u) = Some pa" "ho_arrival h = Some a"
    "deriveArrival env pa (pn_page pa) ''signature'' (ho_message h) (ho_receipt h) a = Inr block" "block = ho_block h"
    "decodeSigHex env (ho_signature h) = Inr (Some sig)" "signatureHash env sig = Inr sh" "toHex sh = goLower (ho_message h)"
proof -
  obtain u where u: "fromBinary (ho_page h) = Some u" using assms by (cases "fromBinary (ho_page h)") (simp_all add: countedHop_def)
  obtain p where p: "map_of (ti_byURL ti) (urlKey u) = Some p"
    using assms by (cases "map_of (ti_byURL ti) (urlKey u)") (simp_all add: countedHop_def u)
  obtain a where a: "ho_arrival h = Some a" using assms by (cases "ho_arrival h") (simp_all add: countedHop_def u p)
  have "bindE (deriveArrival env p (pn_page p) ''signature'' (ho_message h) (ho_receipt h) a) (\<lambda>block.
      guardE (block \<noteq> ho_block h) (namedAt p ''g1_arrival_unproven'') (
      bindE (mapErr (\<lambda>_. namedAt p ''g1_signature_invalid'') (bindE (decodeSigHex env (ho_signature h)) requireSig)) (\<lambda>sig.
      bindE (signatureHash env sig) (\<lambda>sh.
      guardE (toHex sh \<noteq> goLower (ho_message h)) (namedAt p ''g1_signature_invalid'') (Inr (p, block, sig)))))) = Inr (pa, block, sig)"
    using assms by (simp add: countedHop_def u p a)
  then obtain d s sh where s: "deriveArrival env p (pn_page p) ''signature'' (ho_message h) (ho_receipt h) a = Inr d" "d = ho_block h"
    "bindE (decodeSigHex env (ho_signature h)) requireSig = Inr s" "signatureHash env s = Inr sh" "toHex sh = goLower (ho_message h)"
    "(p, d, s) = (pa, block, sig)"
    apply (simp only: bindE_Inr_iff guardE_Inr_iff mapErr_Inr_iff not_not sum.inject)
    apply (elim exE conjE)
    subgoal premises prems using prems by fast
    done
  have e: "p = pa" "d = block" "s = sig" using s(6) by simp_all
  have "decodeSigHex env (ho_signature h) = Inr (Some sig)"
    using s(3) unfolding e by (auto simp: bindE_Inr_iff requireSig_def split: option.splits)
  then show thesis
    by (rule that [OF u p [unfolded e] a s(1) [unfolded e] s(2) [unfolded e] _ s(4) [unfolded e] s(5)])
qed

lemma hopFact_signed:
  assumes "countedHop env ti h = Inr (pa, block, sig)" and "hopFact env ti txn h pa block sig = Inr (Inl s)" and "h \<in> H"
  shows "signedFact env ti txn H s \<and> sg_id s = ho_message h"
proof -
  obtain u a sh where h: "fromBinary (ho_page h) = Some u" "map_of (ti_byURL ti) (urlKey u) = Some pa" "ho_arrival h = Some a"
    "deriveArrival env pa (pn_page pa) ''signature'' (ho_message h) (ho_receipt h) a = Inr block"
    "decodeSigHex env (ho_signature h) = Inr (Some sig)" "signatureHash env sig = Inr sh" "toHex sh = goLower (ho_message h)"
    by (rule countedHop_Inr [OF assms(1)])
  obtain vs where vs: "judgeKeySignature env sig txn (ti_network ti) (pn_anchor pa) block = Inr vs"
    "normURL (urlOf (vd_inner vs) ''signer'') = canonicalAccSpelling (ho_page h)"
    and s: "s = \<lparr>sg_id = ho_message h, sg_signer = canonicalAccSpelling (ho_page h),
            sg_path = snd (unwrapSignature (\<lambda>u. canonicalAccSpelling (urlString u)) sig), sg_version = signerVersionOf (vd_inner vs),
            sg_keyHash = toHex (vd_keyHash vs), sg_vote = voteOf sig, sg_block = block, sg_partition = Some (goLower (xa_id (pn_anchor pa)))\<rparr>"
    using assms(2) by (auto simp: hopFact_def Let_def bindE_Inr_iff guardE_Inr_iff split: if_splits list.splits)
  have "signedFact env ti txn H s"
    unfolding signedFact_def
    by (intro bexI [OF _ assms(3)] exI [of _ u] exI [of _ pa] exI [of _ a] exI [of _ sig] exI [of _ vs] exI [of _ sh]) (simp add: s h vs)
  then show ?thesis by (simp add: s)
qed

lemma hopFact_placed:
  assumes "countedHop env ti h = Inr (pa, block, sig)" and "hopFact env ti txn h pa block sig = Inr (Inr f)" and "h \<in> H"
  shows "placedFact env ti H f \<and> ar_id f = ho_message h"
proof -
  obtain u a sh where h: "fromBinary (ho_page h) = Some u" "map_of (ti_byURL ti) (urlKey u) = Some pa" "ho_arrival h = Some a"
    "deriveArrival env pa (pn_page pa) ''signature'' (ho_message h) (ho_receipt h) a = Inr block"
    "decodeSigHex env (ho_signature h) = Inr (Some sig)" "signatureHash env sig = Inr sh" "toHex sh = goLower (ho_message h)"
    by (rule countedHop_Inr [OF assms(1)])
  obtain us where c: "cls sig = ''AuthoritySignature''"
    and f: "f = \<lparr>ar_id = ho_message h, ar_page = canonicalAccSpelling (ho_page h), ar_authority = normURL (urlOf sig ''authority''),
                 ar_path = us, ar_block = block, ar_origin = normURL (urlOf sig ''origin''), ar_vote = Model.bigOf sig ''vote''\<rparr>"
    using assms(2) by (auto simp: hopFact_def Let_def bindE_Inr_iff guardE_Inr_iff split: if_splits list.splits)
  have "placedFact env ti H f"
    unfolding placedFact_def
    by (intro bexI [OF _ assms(3)] exI [of _ u] exI [of _ pa] exI [of _ a] exI [of _ sig] exI [of _ sh]) (simp add: f h c)
  then show ?thesis by (simp add: f)
qed

lemma hopFact_justified:
  assumes "countedHop env ti h = Inr (pa, block, sig)" and "hopFact env ti txn h pa block sig = Inr f" and "h \<in> H"
    and "justified env ti txn H g" and "ho_message h \<notin> set (ga_seen g)"
  shows "justified env ti txn H (addFact (ho_message h) f g)"
proof (cases f)
  case (Inl s)
  then show ?thesis using hopFact_signed [OF assms(1) _ assms(3)] assms(2,4,5) by (auto simp: justified_def addFact_def)
next
  case (Inr a)
  then show ?thesis using hopFact_placed [OF assms(1) _ assms(3)] assms(2,4,5) by (auto simp: justified_def addFact_def)
qed

lemma countHops_justified:
  "countHops env ti txn hs g = Inr g' \<Longrightarrow> set hs \<subseteq> H \<Longrightarrow> justified env ti txn H g \<Longrightarrow> justified env ti txn H g' \<and> ga_votes g' = ga_votes g"
proof (induction hs arbitrary: g)
  case (Cons h hs)
  obtain pa block sig where c: "countedHop env ti h = Inr (pa, block, sig)" using Cons.prems(1) by (auto simp: results)
  show ?case
  proof (cases "ho_message h \<in> set (ga_seen g)")
    case True
    then show ?thesis using Cons.IH [of "g\<lparr>ga_report := _\<rparr>"] Cons.prems by (auto simp: c Let_def justified_report)
  next
    case False
    let ?g = "g\<lparr>ga_report := arrived \<lparr>rr_kind = ''signature'', rr_account = ho_page h, rr_partition = xa_source (pn_anchor pa),
                    rr_message = ho_message h, rr_block = block\<rparr> (ga_report g)\<rparr>"
    obtain f where f: "hopFact env ti txn h pa block sig = Inr f" "countHops env ti txn hs (addFact (ho_message h) f ?g) = Inr g'"
      using Cons.prems(1) False by (auto simp: c Let_def results)
    have "justified env ti txn H (addFact (ho_message h) f ?g)"
      using Cons.prems(2,3) False by (intro hopFact_justified [OF c f(1)]) (simp_all add: justified_report)
    moreover have "ga_votes (addFact (ho_message h) f ?g) = ga_votes g" by (simp add: addFact_def split: sum.split)
    ultimately show ?thesis using Cons.IH [OF f(2)] Cons.prems(2) by simp
  qed
qed simp

text \<open>A recorded vote as the evidence has it.\<close>

definition recordedFrom :: "Judge.vote \<Rightarrow> recorded_vote \<Rightarrow> bool" where
  "recordedFrom v r \<longleftrightarrow>
     parseVote (vt_vote v) = Some (rv_vote r) \<and> rv_id r = vt_message v \<and> rv_authority r = canonicalAccSpelling (vt_authority v) \<and>
     rv_origin r = canonicalAccSpelling (vt_origin v)"

lemma recordedFrom_mem: "list_all2 recordedFrom vs rs \<Longrightarrow> r \<in> set rs \<Longrightarrow> \<exists>v \<in> set vs. recordedFrom v r"
  by (induction rule: list_all2_induct) auto

lemma gatherVotes_justified:
  "gatherVotes env ti txn vs g = Inr g' \<Longrightarrow> set (concat (map allHops vs)) \<subseteq> H \<Longrightarrow> justified env ti txn H g \<Longrightarrow>
     justified env ti txn H g' \<and> (\<exists>rs. ga_votes g' = ga_votes g @ rs \<and> list_all2 recordedFrom vs rs)"
proof (induction vs arbitrary: g)
  case (Cons v vs)
  obtain k g1 where k: "parseVote (vt_vote v) = Some k" and g1: "countHops env ti txn (allHops v) g = Inr g1"
    using Cons.prems(1) by (auto simp: results split: option.splits)
  let ?r = "\<lparr>rv_id = vt_message v, rv_authority = canonicalAccSpelling (vt_authority v), rv_origin = canonicalAccSpelling (vt_origin v),
                rv_vote = k, rv_block = None, rv_releasedAt = releasedAt env ti txn v\<rparr>"
  have r: "gatherVotes env ti txn vs (g1\<lparr>ga_votes := ga_votes g1 @ [?r]\<rparr>) = Inr g'" using Cons.prems(1) by (simp add: k g1)
  have j: "justified env ti txn H g1 \<and> ga_votes g1 = ga_votes g" using countHops_justified [OF g1, of H] Cons.prems(2,3) by simp
  obtain rs where "justified env ti txn H g'" "ga_votes g' = ga_votes g @ ?r # rs" "list_all2 recordedFrom vs rs"
    using Cons.IH [OF r] Cons.prems(2) j by (auto simp: justified_report)
  moreover have "recordedFrom v ?r" by (simp add: recordedFrom_def k)
  ultimately show ?case by (intro conjI exI [of _ "?r # rs"]) simp_all
qed simp

lemma checkRecorded_reproduced: "checkRecorded x res listed named disabled vs rep = Inr rep' \<Longrightarrow> list_all (reproduced res) vs"
  by (induction vs arbitrary: rep) (auto simp: results Let_def split: if_splits)

section \<open>An accepted evaluation\<close>

text \<open>The transaction and the facts an evaluation is made of.\<close>

definition ballotOf :: "judge_env \<Rightarrow> timeline_in \<Rightarrow> vote_report \<Rightarrow> refusal + wire_node \<times> facts" where
  "ballotOf env ti rep =
     bindE (timelineTransaction env ti) (\<lambda>txn.
     bindE (gatherVotes env ti txn (ed_votes (ti_ev ti)) \<lparr>ga_seen = [], ga_sigs = [], ga_arrivals = [], ga_votes = [], ga_report = rep\<rparr>) (\<lambda>g.
       Inr (txn, factsOf txn g)))"

text \<open>The authorities that have to accept: those of the principal that count, and those the transaction names.\<close>

definition requiredURLs :: "judge_env \<Rightarrow> timeline_in \<Rightarrow> wire_node \<Rightarrow> string list" where
  "requiredURLs env ti txn = map (\<lambda>u. normURL (Some u)) (requiredOf env txn (ti_auths ti) @ headerAuthorityURLs txn)"

text \<open>The names of a ballot are in the canonical spelling, without the two characters the memo keys are built with.\<close>

definition plainBallot :: "judge_env \<Rightarrow> timeline_in \<Rightarrow> wire_node \<Rightarrow> facts \<Rightarrow> bool" where
  "plainBallot env ti txn F \<longleftrightarrow>
     list_all (\<lambda>s. plainName (sg_signer s)) (fa_sigs F) \<and>
     list_all (\<lambda>a. plainName (ar_page a) \<and> plainName (canonicalAccSpelling (ar_authority a)) \<and>
       (ar_origin a \<noteq> [] \<longrightarrow> plainName (canonicalAccSpelling (ar_origin a)))) (fa_arrivals F) \<and>
     list_all (\<lambda>v. plainName (canonicalAccSpelling (rv_origin v)) \<and> plainName (canonicalAccSpelling (rv_authority v))) (fa_votes F) \<and>
     list_all (\<lambda>u. plainName (canonicalAccSpelling u)) (requiredURLs env ti txn)"

lemma furtherVoters_plain:
  "list_all (\<lambda>v. plainName (canonicalAccSpelling (rv_authority v))) vs \<Longrightarrow>
     list_all (\<lambda>a. plainName (canonicalAccSpelling (aa_url a))) (furtherVoters have vs)"
  by (induction "have" vs rule: furtherVoters.induct) (simp_all add: accountAuthority_def)

lemma ballotOf_facts:
  assumes "ballotOf env ti rep = Inr (txn, F)"
  shows "timelineTransaction env ti = Inr txn"
    and "distinct (map sg_id (fa_sigs F) @ map ar_id (fa_arrivals F))"
    and "\<forall>s \<in> set (fa_sigs F). signedFact env ti txn (set (concat (map allHops (ed_votes (ti_ev ti))))) s"
    and "\<forall>a \<in> set (fa_arrivals F). placedFact env ti (set (concat (map allHops (ed_votes (ti_ev ti))))) a"
    and "list_all2 recordedFrom (ed_votes (ti_ev ti)) (fa_votes F)"
proof -
  let ?H = "set (concat (map allHops (ed_votes (ti_ev ti))))"
  let ?g0 = "\<lparr>ga_seen = [], ga_sigs = [], ga_arrivals = [], ga_votes = [], ga_report = rep\<rparr>"
  obtain g where t: "timelineTransaction env ti = Inr txn" and g: "gatherVotes env ti txn (ed_votes (ti_ev ti)) ?g0 = Inr g"
    and F: "F = factsOf txn g"
    using assms by (auto simp: ballotOf_def bindE_Inr_iff)
  have "justified env ti txn ?H ?g0" by (simp add: justified_def)
  from gatherVotes_justified [OF g subset_refl this] have j: "justified env ti txn ?H g" "list_all2 recordedFrom (ed_votes (ti_ev ti)) (ga_votes g)" by simp_all
  show "timelineTransaction env ti = Inr txn" by (rule t)
  show "distinct (map sg_id (fa_sigs F) @ map ar_id (fa_arrivals F))" "\<forall>s \<in> set (fa_sigs F). signedFact env ti txn ?H s"
    "\<forall>a \<in> set (fa_arrivals F). placedFact env ti ?H a" "list_all2 recordedFrom (ed_votes (ti_ev ti)) (fa_votes F)"
    using j by (simp_all add: justified_def F factsOf_def)
qed

lemma ballot_wf:
  assumes "ballotOf env ti rep = Inr (txn, F)" and "plainBallot env ti txn F"
  shows "wfFacts F"
  using ballotOf_facts(2) [OF assms(1)] assms(2) by (auto simp: wfFacts_def plainBallot_def list_all_iff)

lemma timelineTransaction_Inr:
  "timelineTransaction env ti = Inr txn \<Longrightarrow> txnHash env txn = Inr (hexBuffer (ed_txHash (ti_ev ti))) \<and> isPrincipal (ti_ev ti) txn"
  by (auto simp: timelineTransaction_def Let_def bindE_Inr_iff guardE_Inr_iff)

lemma evaluateTimeline_Inr:
  assumes "evaluateTimeline env ti tm rep = Inr rep'"
  obtains txn F res where "ballotOf env ti rep = Inr (txn, F)" "evaluateVotes env ti tm txn F = Inr res" "list_all (reproduced res) (fa_votes F)"
    "list_all (accepts res) (requiredURLs env ti txn)" "allDisabled env txn (ti_auths ti) \<longrightarrow> fa_votes F \<noteq> []"
proof -
  let ?g0 = "\<lparr>ga_seen = [], ga_sigs = [], ga_arrivals = [], ga_votes = [], ga_report = rep\<rparr>"
  obtain txn g res rep1 rep2 where t: "timelineTransaction env ti = Inr txn" and g: "gatherVotes env ti txn (ed_votes (ti_ev ti)) ?g0 = Inr g"
    and e: "evaluateVotes env ti tm txn (factsOf txn g) = Inr res"
    and c: "checkRecorded (ti_x ti) res (map (urlKey \<circ> fst) (ti_auths ti)) (map urlKey (headerAuthorityURLs txn)) (allDisabled env txn (ti_auths ti))
      (fa_votes (factsOf txn g)) rep1 = Inr rep2"
    and a: "list_all (accepts res) (map (\<lambda>u. normURL (Some u)) (requiredOf env txn (ti_auths ti)))"
      "list_all (accepts res) (map (\<lambda>u. normURL (Some u)) (headerAuthorityURLs txn))"
      "\<not> (allDisabled env txn (ti_auths ti) \<and> fa_votes (factsOf txn g) = [])"
    using assms by (simp only: evaluateTimeline_def Let_def bindE_Inr_iff guardE_Inr_iff not_not) blast
  show thesis
  proof (rule that)
    show "ballotOf env ti rep = Inr (txn, factsOf txn g)" by (simp add: ballotOf_def t g)
    show "list_all (reproduced res) (fa_votes (factsOf txn g))" by (rule checkRecorded_reproduced [OF c])
    show "list_all (accepts res) (requiredURLs env ti txn)" using a(1,2) by (simp add: requiredURLs_def)
  qed (use e a(3) in auto)
qed

lemma evaluateVotes_says:
  assumes "evaluateVotes env ti tm txn F = Inr res" and "wfFacts F" and "plainBallot env ti txn F" and "byAuthority res u = Some bv" and "bv_voted bv"
  shows "bookSays (je_types env) F (statesOf tm) u [] (bv_voteType bv) \<and> bv_vote bv = voteName (bv_voteType bv)"
proof -
  let ?auths = "map (\<lambda>u. normURL (Some u)) (requiredOf env txn (ti_auths ti))" and ?extras = "map (\<lambda>u. normURL (Some u)) (headerAuthorityURLs txn)"
  have e: "evaluate (je_types env) F (statesOf tm) (ed_account (ti_ev ti)) (map accountAuthority ?auths @ furtherVoters (?auths @ ?extras) (fa_votes F)) ?extras
      False = Inr res"
    using assms(1) by (simp add: evaluateVotes_def Let_def guardE_Inr_iff mapErr_Inr_iff)
  have "list_all (\<lambda>v. plainName (canonicalAccSpelling (rv_authority v))) (fa_votes F)" using assms(3) by (simp add: plainBallot_def list_all_iff)
  then have "wfNames (map accountAuthority ?auths @ furtherVoters (?auths @ ?extras) (fa_votes F)) ?extras"
    using assms(3) furtherVoters_plain by (auto simp: wfNames_def plainBallot_def requiredURLs_def list_all_iff accountAuthority_def)
  from evaluate_votes(1) [OF e assms(2) this] byAuthority_mem [OF assms(4)] assms(5) show ?thesis by blast
qed

text \<open>
  C9. What an accepted evaluation of the votes rests on, for a ballot whose names are in the canonical spelling and free of \<open>|\<close> and \<open>,\<close>
  (\<open>plainBallot\<close>). The carried transaction has the evidence's hash and acts on its account. Every key signature among the facts is on a page of the proven
  accounts, in the block the page's index chain gives it, is the message its entry holds, and was verified over that transaction. Every delegated vote among
  them (an \<open>AuthoritySignature\<close>) is only placed: it is the message its entry holds, on a proven page, in the block the index chain gives it, and its
  authority and vote are the message's own; nothing binds it to the transaction. And on these facts and the certified states, the rules \<open>bookSays\<close> derive the
  vote accept for every authority that has to accept - those of the principal that count and those the transaction names - and for every vote the evidence
  records that it is the vote of its authority; where no authority has to accept there is a recorded vote.
\<close>

theorem evaluateTimeline_sound:
  assumes "evaluateTimeline env ti tm rep = Inr rep'" and "ballotOf env ti rep = Inr (txn, F)" and "plainBallot env ti txn F"
  shows "txnHash env txn = Inr (hexBuffer (ed_txHash (ti_ev ti))) \<and> isPrincipal (ti_ev ti) txn \<and>
    (\<forall>s \<in> set (fa_sigs F). signedFact env ti txn (set (concat (map allHops (ed_votes (ti_ev ti))))) s) \<and>
    (\<forall>a \<in> set (fa_arrivals F). placedFact env ti (set (concat (map allHops (ed_votes (ti_ev ti))))) a) \<and>
    (\<forall>u \<in> set (requiredURLs env ti txn). bookSays (je_types env) F (statesOf tm) u [] Accept) \<and>
    list_all2 recordedFrom (ed_votes (ti_ev ti)) (fa_votes F) \<and>
    (\<forall>v \<in> set (fa_votes F). bookSays (je_types env) F (statesOf tm) (rv_authority v) [] (rv_vote v)) \<and>
    (requiredURLs env ti txn = [] \<longrightarrow> fa_votes F \<noteq> [])"
proof -
  obtain res where e: "evaluateVotes env ti tm txn F = Inr res" and r: "list_all (reproduced res) (fa_votes F)"
    and a: "list_all (accepts res) (requiredURLs env ti txn)"
    using evaluateTimeline_Inr [OF assms(1)] assms(2) by (metis Pair_inject sum.inject(2))
  note says = evaluateVotes_says [OF e ballot_wf [OF assms(2,3)] assms(3)] and facts = ballotOf_facts [OF assms(2)]
  have acc: "bookSays (je_types env) F (statesOf tm) u [] Accept" if "u \<in> set (requiredURLs env ti txn)" for u
  proof -
    have "accepts res u" using a that by (simp add: list_all_iff)
    then obtain bv where "byAuthority res u = Some bv" "bv_voted bv" "bv_vote bv = ''accept''" by (auto simp: accepts_def split: option.splits)
    then show ?thesis using says [of u bv] voteName_accept by metis
  qed
  have rec: "bookSays (je_types env) F (statesOf tm) (rv_authority v) [] (rv_vote v)" if v: "v \<in> set (fa_votes F)" for v
  proof -
    obtain bv where bv: "byAuthority res (rv_authority v) = Some bv" "bv_voted bv" "goLower (bv_vote bv) = goLower (voteName (rv_vote v))"
      using r v by (auto simp: reproduced_def list_all_iff split: option.splits)
    obtain w :: Judge.vote where "parseVote (vt_vote w) = Some (rv_vote v)"
      using recordedFrom_mem [OF facts(5) v] by (auto simp: recordedFrom_def)
    with bv says [OF bv(1,2)] voteName_lower show ?thesis by metis
  qed
  have "requiredURLs env ti txn = [] \<Longrightarrow> fa_votes F \<noteq> []"
    using e by (auto simp: evaluateVotes_def requiredURLs_def evaluate_def evaluateWith_def Let_def guardE_Inr_iff mapErr_Inr_iff)
  then show ?thesis using timelineTransaction_Inr [OF facts(1)] facts(3-5) acc rec by blast
qed

section \<open>An example\<close>

text \<open>
  The example of an accepted evaluation: bob's page (theory \<open>Demo\<close>) signs a transaction of \<open>acc://bob.acme/tokens\<close>, its signature is the second entry of the
  page's signature chain, in block 5, and the vote of the page's book is reproduced.
\<close>

definition bobSend :: wire_node where
  "bobSend = Node ''Transaction'' [
     (''header'', WNode (Node ''TransactionHeader'' [(''principal'', WText ''acc://bob.acme/tokens''), (''initiator'', WBytes (replicate 32 1))] [] False)),
     (''body'', WNode (Node ''SendTokens'' [(''type'', WBig 3)] [] False))] [] False"

definition bobSig :: wire_node where
  "bobSig = Node ''ED25519Signature'' [(''type'', WBig 2), (''publicKey'', WBytes (replicate 32 0)), (''signature'', WBytes (replicate 64 0)),
     (''signer'', WText ''acc://bob.acme/book/1''), (''signerVersion'', WBig 1)] [] False"

definition bobSendHash :: bytes where
  "bobSendHash = 64 # 239 # replicate 30 0"

definition bobVoteHash :: bytes where
  "bobVoteHash = 127 # 119 # replicate 30 0"

definition bobVerified :: verified where
  "bobVerified = \<lparr>vd_inner = bobSig, vd_innerType = ''ed25519'', vd_delegators = [], vd_keyHash = bobKeyHash, vd_form = Metadata, vd_ethRule = NoRule\<rparr>"

lemma bob_send: "decodeTransaction (je_sig bobEnv) (encoded bobSend) = Inr bobSend" "encoded bobSend \<noteq> []" "bodyOf bobSend \<noteq> None"
  "Model.principalOf bobSend \<noteq> None" "txnHash bobEnv bobSend = Inr bobSendHash" "headerAuthorityURLs bobSend = []" "holdUntilOf bobSend = 0" "bodyType bobSend = 3"
  by code_simp+

lemma bob_sig: "decodeSignature (je_sig bobEnv) (encoded bobSig) = Inr (Some bobSig)" "encoded bobSig \<noteq> []" "signatureHash bobEnv bobSig = Inr bobVoteHash"
  "normURL (urlOf bobSig ''signer'') = ''acc://bob.acme/book/1''" "signerVersionOf bobSig = 1" "voteOf bobSig = 0"
  by code_simp+

lemma bob_verifies: "judgeKeySignature bobEnv bobSig bobSend ''Kermit'' (pn_anchor bobProven) 5 = Inr bobVerified"
proof -
  have "transactionHash (je_sig bobEnv) bobSend = Inr bobSendHash" using bob_send(5) by (simp add: txnHash_def mapErr_Inr_iff)
  moreover have "goLower (xa_id (pn_anchor bobProven)) = ''bvn1''"
  proof -
    have "goLower ''BVN1'' = ''bvn1''" by code_simp
    then show ?thesis by (simp add: bobProven_def)
  qed
  moreover have "verifyKeySignature (je_sig bobEnv) (Some bobSig) \<lparr>ve_txHash = bobSendHash, ve_transaction = Some bobSend, ve_networkName = ''Kermit'',
      ve_where = Some (''bvn1'', 5)\<rparr> = Inr bobVerified"
    by code_simp
  ultimately show ?thesis by (simp add: judgeKeySignature_def)
qed

subsection \<open>The page with the signature on its chain\<close>

definition bobVoteRoot :: bytes where
  "bobVoteRoot = bobHash (bobOther @ bobVoteHash)"

definition votePage :: page_doc where
  "votePage = bobPage\<lparr>pg_chains := [double ''signature'' bobVoteRoot, double ''signature-index'' bobIndexRoot]\<rparr>"

definition voteProven :: proven_acct where
  "voteProven = bobProven\<lparr>pn_page := votePage\<rparr>"

definition bobVoteReceipt :: bytes where
  "bobVoteReceipt = receiptBin (rightOf bobVoteRoot bobOther bobVoteHash)"

lemma vote_found: "boundChain votePage ''signature'' = Some (double ''signature'' bobVoteRoot)"
  "boundChain votePage ''signature-index'' = Some (double ''signature-index'' bobIndexRoot)"
  by (simp_all add: boundChain_def votePage_def double_def)

lemma vote_receipt: "decodeReceiptBin bobVoteReceipt = Some (rightOf bobVoteRoot bobOther bobVoteHash)"
  by (simp add: bobVoteReceipt_def receiptBin_decodes bobOther_def bobVoteHash_def bobVoteRoot_def)

lemma vote_arrival: "deriveArrival bobEnv voteProven votePage ''signature'' (toHex bobVoteHash) bobVoteReceipt bobArrival = Inr 5"
proof -
  have l: "length bobVoteRoot = 32" by (simp add: bobVoteRoot_def)
  have "inChain bobEnv bobVoteReceipt (toHex bobVoteHash) bobVoteRoot"
    using vote_receipt by (simp add: inChain_def pair_valid bobVoteRoot_def) (simp add: bobVoteHash_def)
  then show ?thesis
    unfolding deriveArrival_def Let_def
    by (simp add: vote_found double_count bob_proofs vote_receipt pair_sides bob_positions toNumber_small bobArrival_def l)
      (simp add: voteProven_def bobProven_def)
qed

subsection \<open>The evidence\<close>



definition bobHop :: hop where
  "bobHop = \<lparr>ho_page = ''acc://bob.acme/book/1'', ho_message = toHex bobVoteHash, ho_signature = toHex (encoded bobSig), ho_block = 5,
     ho_receipt = bobVoteReceipt, ho_arrival = Some bobArrival\<rparr>"

definition bobVote :: Judge.vote where
  "bobVote = \<lparr>vt_authority = ''acc://bob.acme/book'', vt_origin = ''acc://bob.acme/book/1'', vt_vote = ''accept'',
     vt_transport = \<lparr>tp_kind = ''inline'', tp_source = [], tp_destination = [], tp_number = 0\<rparr>, vt_message = [], vt_receipt = [],
     vt_hops = [bobHop], vt_counted = [], vt_produced = None\<rparr>"

definition bobAnchorDoc :: anchor_doc where
  "bobAnchorDoc = \<lparr>an_message = [], an_seq = \<lparr>sm_decodes = True, sm_kind = [], sm_txn = None, sm_txnHash = [], sm_source = None, sm_destination = None\<rparr>,
     an_receipt = []\<rparr>"

definition bobTimelineIn :: timeline_in where
  "bobTimelineIn = \<lparr>ti_ev = \<lparr>ed_version = ''2.1'', ed_account = ''acc://bob.acme/tokens'', ed_txHash = toHex bobSendHash, ed_anchor = bobAnchorDoc, ed_pages = [votePage],
       ed_anchors = [], ed_votes = [bobVote], ed_transaction = toHex (encoded bobSend), ed_routing = None\<rparr>,
     ti_x = pn_anchor bobProven, ti_network = ''Kermit'', ti_byURL = [(''acc://bob.acme/book/1'', voteProven)],
     ti_auths = [(mkUrl ''bob.acme'' ''/book'' [], False)], ti_anchors = []\<rparr>"

definition bobTimeline :: timelines where
  "bobTimeline = [(''acc://bob.acme/book/1'', [\<lparr>st_block = 1, st_page = bobPageState, st_event = - 1\<rparr>])]"

definition bobReport :: vote_report where
  "bobReport = \<lparr>vr_version = ''v'', vr_tag = [], vr_pages = [], vr_pageChains = [], vr_proven = [], vr_unproven = [], vr_routingHeight = 0, vr_mode = [],
     vr_disclosures = [], vr_arrivals = []\<rparr>"

definition bobFacts :: facts where
  "bobFacts = \<lparr>fa_txType = 3, fa_sigs = [\<lparr>sg_id = toHex bobVoteHash, sg_signer = ''acc://bob.acme/book/1'', sg_path = [], sg_version = 1,
       sg_keyHash = toHex bobKeyHash, sg_vote = 0, sg_block = 5, sg_partition = Some ''bvn1''\<rparr>], fa_arrivals = [],
     fa_votes = [\<lparr>rv_id = [], rv_authority = ''acc://bob.acme/book'', rv_origin = ''acc://bob.acme/book/1'', rv_vote = 0, rv_block = None, rv_releasedAt = 0\<rparr>],
     fa_holdUntil = 0\<rparr>"


lemma bob_names: "fromBinary ''acc://bob.acme/book/1'' = Some (mkUrl ''bob.acme'' ''/book/1'' [])" "urlKey (mkUrl ''bob.acme'' ''/book/1'' []) = ''acc://bob.acme/book/1''"
  "canonicalAccSpelling ''acc://bob.acme/book/1'' = ''acc://bob.acme/book/1''" "canonicalAccSpelling ''acc://bob.acme/book'' = ''acc://bob.acme/book''"
  "snd (unwrapSignature (\<lambda>u. canonicalAccSpelling (urlString u)) bobSig) = []" "goLower ''BVN1'' = ''bvn1''" "cls bobSig = ''ED25519Signature''"
  "parseVote ''accept'' = Some 0"
  by code_simp+

lemma decodeSigHex_toHex: "raw \<noteq> [] \<Longrightarrow> decodeSignature (je_sig env) raw = Inr s \<Longrightarrow> decodeSigHex env (toHex raw) = Inr s"
  by (simp add: decodeSigHex_def)

lemma bob_transaction: "timelineTransaction bobEnv bobTimelineIn = Inr bobSend"
proof -
  have "isPrincipal (ti_ev bobTimelineIn) bobSend"
  proof -
    have "(case Model.principalOf bobSend of None \<Rightarrow> False | Some u \<Rightarrow> goEqualFold (urlString u) ''acc://bob.acme/tokens'')" by code_simp
    then show ?thesis unfolding isPrincipal_def bobTimelineIn_def timeline_in.simps evidence.simps .
  qed
  then show ?thesis
    using decodeTxnHex_toHex [OF bob_send(2,1,3,4)] by (simp add: timelineTransaction_def Let_def) (simp add: bobTimelineIn_def bob_send(5))
qed

lemma bob_ballot: "\<exists>rep'. gatherVotes bobEnv bobTimelineIn bobSend [bobVote]
    \<lparr>ga_seen = [], ga_sigs = [], ga_arrivals = [], ga_votes = [], ga_report = bobReport\<rparr> =
  Inr \<lparr>ga_seen = [toHex bobVoteHash], ga_sigs = fa_sigs bobFacts, ga_arrivals = [], ga_votes = fa_votes bobFacts, ga_report = rep'\<rparr>"
proof -
  have c: "countedHop bobEnv bobTimelineIn bobHop = Inr (voteProven, 5, bobSig)"
    using vote_arrival decodeSigHex_toHex [OF bob_sig(2,1)]
    by (simp add: countedHop_def bobHop_def bobTimelineIn_def bob_names bob_sig requireSig_def goLower_toHex) (simp add: voteProven_def)
  have f: "hopFact bobEnv bobTimelineIn bobSend bobHop voteProven 5 bobSig = Inr (Inl (hd (fa_sigs bobFacts)))"
    using bob_verifies
    by (simp add: hopFact_def Let_def bob_names bobTimelineIn_def voteProven_def bobHop_def bobVerified_def bob_sig bobFacts_def) (simp add: bobProven_def bob_names)
  have r: "releasedAt bobEnv bobTimelineIn bobSend bobVote = 0" by (simp add: releasedAt_def bobVote_def)
  show ?thesis
    by (simp add: bobVote_def bob_names allHops_def c f addFact_def) (use r in \<open>simp add: bobFacts_def bobHop_def bobVote_def\<close>)
qed

definition bobResult :: account_vote where
  "bobResult = \<lparr>ac_account = ''acc://bob.acme/tokens'', ac_authorities = [\<lparr>av_authority = ''acc://bob.acme/book'', av_disabled = False, av_extra = False,
     av_vote = BookVote ''acc://bob.acme/book'' True ''accept'' ''acc://bob.acme/book/1''
       [PageVote ''acc://bob.acme/book/1'' [] True ''accept'' 1 1 0 0 5
         [\<lparr>ce_entry = ''key:'' @ toHex bobKeyHash, ce_vote = ''accept'', ce_by = toHex bobVoteHash, ce_block = 5\<rparr>] [] [] 0] 0\<rparr>], ac_satisfied = True\<rparr>"

lemma bob_evaluates: "evaluate (je_types bobEnv) bobFacts (statesOf bobTimeline) ''acc://bob.acme/tokens'' [accountAuthority ''acc://bob.acme/book''] [] False =
   Inr bobResult"
  by code_simp

lemma bob_required: "requiredOf bobEnv bobSend (ti_auths bobTimelineIn) = [mkUrl ''bob.acme'' ''/book'' []]"
  "normURL (Some (mkUrl ''bob.acme'' ''/book'' [])) = ''acc://bob.acme/book''" "requiredURLs bobEnv bobTimelineIn bobSend = [''acc://bob.acme/book'']"
proof -
  have "requiredOf bobEnv bobSend [(mkUrl ''bob.acme'' ''/book'' [], False)] = [mkUrl ''bob.acme'' ''/book'' []]" by (simp add: requiredOf_def)
  then show r: "requiredOf bobEnv bobSend (ti_auths bobTimelineIn) = [mkUrl ''bob.acme'' ''/book'' []]" by (simp add: bobTimelineIn_def)
  show n: "normURL (Some (mkUrl ''bob.acme'' ''/book'' [])) = ''acc://bob.acme/book''" by code_simp
  show "requiredURLs bobEnv bobTimelineIn bobSend = [''acc://bob.acme/book'']" by (simp add: requiredURLs_def r n bob_send)
qed

lemma bob_accepts: "accepts bobResult ''acc://bob.acme/book''" "list_all (reproduced bobResult) (fa_votes bobFacts)"
  by code_simp+

lemma bob_plain: "plainBallot bobEnv bobTimelineIn bobSend bobFacts"
proof -
  have "list_all plainName [''acc://bob.acme/book/1'', ''acc://bob.acme/book'']" by code_simp
  then show ?thesis by (simp add: plainBallot_def bob_required bobFacts_def bob_names)
qed

lemma bob_votes: "evaluateVotes bobEnv bobTimelineIn bobTimeline bobSend bobFacts = Inr bobResult"
  using bob_evaluates
  by (simp add: evaluateVotes_def Let_def bob_required bob_send) (simp add: bobTimelineIn_def bobFacts_def)

lemma bob_accepted: "\<exists>rep'. evaluateTimeline bobEnv bobTimelineIn bobTimeline bobReport = Inr rep'"
  and bob_facts: "ballotOf bobEnv bobTimelineIn bobReport = Inr (bobSend, bobFacts)"
proof -
  obtain rep' where g: "gatherVotes bobEnv bobTimelineIn bobSend [bobVote]
    \<lparr>ga_seen = [], ga_sigs = [], ga_arrivals = [], ga_votes = [], ga_report = bobReport\<rparr> =
    Inr \<lparr>ga_seen = [toHex bobVoteHash], ga_sigs = fa_sigs bobFacts, ga_arrivals = [], ga_votes = fa_votes bobFacts, ga_report = rep'\<rparr>"
    using bob_ballot by blast
  have v: "ed_votes (ti_ev bobTimelineIn) = [bobVote]" by (simp add: bobTimelineIn_def)
  have F: "factsOf bobSend \<lparr>ga_seen = [toHex bobVoteHash], ga_sigs = fa_sigs bobFacts, ga_arrivals = [], ga_votes = fa_votes bobFacts, ga_report = rep'\<rparr> = bobFacts"
    by (simp add: factsOf_def bobFacts_def bob_send)
  show "ballotOf bobEnv bobTimelineIn bobReport = Inr (bobSend, bobFacts)"
    by (simp add: ballotOf_def bob_transaction g [folded v] F)
  have d: "allDisabled bobEnv bobSend (ti_auths bobTimelineIn) = False" by (simp add: allDisabled_def bob_required)
  have c: "\<exists>rep''. checkRecorded x bobResult [''acc://bob.acme/book''] [] False (fa_votes bobFacts) rep = Inr rep''" for x rep
  proof -
    have "list_all (reproduced bobResult) (fa_votes bobFacts)" "goLower (cutSlash ''acc://bob.acme/book'') = ''acc://bob.acme/book''"
      by (rule bob_accepts) code_simp
    then show ?thesis by (simp add: bobFacts_def Let_def)
  qed
  have k: "urlKey (mkUrl ''bob.acme'' ''/book'' []) = ''acc://bob.acme/book''" by code_simp
  have a: "map (urlKey \<circ> fst) (ti_auths bobTimelineIn) = [''acc://bob.acme/book'']" by (simp add: bobTimelineIn_def k)
  obtain rep2 where r: "checkRecorded (ti_x bobTimelineIn) bobResult [''acc://bob.acme/book''] [] False (fa_votes bobFacts)
      (rep'\<lparr>vr_mode := ''authorities_required''\<rparr>) = Inr rep2"
    using c by blast
  show "\<exists>rep'. evaluateTimeline bobEnv bobTimelineIn bobTimeline bobReport = Inr rep'"
    by (simp add: evaluateTimeline_def Let_def bob_transaction g [folded v] F d bob_votes a r bob_required bob_send bob_accepts)
qed

theorem evaluateTimeline_sound_witness:
  "bookSays (je_types bobEnv) bobFacts (statesOf bobTimeline) ''acc://bob.acme/book'' [] Accept \<and>
   signedFact bobEnv bobTimelineIn bobSend {bobHop} (hd (fa_sigs bobFacts))"
proof -
  obtain rep' where "evaluateTimeline bobEnv bobTimelineIn bobTimeline bobReport = Inr rep'" using bob_accepted by blast
  from evaluateTimeline_sound [OF this bob_facts bob_plain]
  have s: "\<forall>s \<in> set (fa_sigs bobFacts). signedFact bobEnv bobTimelineIn bobSend (set (concat (map allHops (ed_votes (ti_ev bobTimelineIn))))) s"
    and b: "\<forall>u \<in> set (requiredURLs bobEnv bobTimelineIn bobSend). bookSays (je_types bobEnv) bobFacts (statesOf bobTimeline) u [] Accept"
    by blast+
  have "set (concat (map allHops (ed_votes (ti_ev bobTimelineIn)))) = {bobHop}" by (simp add: bobTimelineIn_def bobVote_def allHops_def)
  then show ?thesis using s b by (simp add: bob_required) (simp add: bobFacts_def)
qed

end
