(* ===== verification/Spec2Isabelle.thy ===== *)
theory Spec2Isabelle
  imports Rlp Mpt Der Merkle Abi VoteSound Chains EthTx S6Sound RootIndex Spine Wire SetCheck Walk21 CodecRound SigVerify BallotSound
begin

text \<open>
  The decision core of \<open>packages/verify\<close>, the offline verifier of the repository: the code that reads untrusted bytes and documents and decides what they
  prove. One theory per component; this one imports them all. File names are under \<open>packages/verify/src\<close>, function names are those of the sources.

  \<^bold>\<open>How the parts meet.\<close> A portable document of evidence 2.1 is walked from the genesis values (\<open>Walk21\<close>, over the validator-set spine \<open>Spine\<close>):
  each record's anchor is verified against the set in force and the set's own updates are proven into it. The certified state root then proves a
  partition's anchor, accounts into that anchor, and the chains of an account beside its state (\<open>Merkle\<close>, \<open>Wire\<close>, \<open>Chains\<close>, \<open>SetCheck\<close>). A key page's
  history is folded onto its proven chain and replayed to its proven state (\<open>Timeline\<close>, \<open>Replay\<close>), every counted signature is placed in a block by the
  page's index chain (\<open>Position\<close>) and verified over the transaction (\<open>Codec\<close>, \<open>SigVerify\<close>, \<open>Curves\<close>, \<open>Der\<close>, \<open>Gate\<close>), and the vote of each authority is
  decided again from the result (\<open>VoteRules\<close>, \<open>Vote\<close>). Beside it stands the replay guard of external settlements: a settlement's slot is proven into an
  Ethereum state root (\<open>Rlp\<close>, \<open>Mpt\<close>, \<open>EthTx\<close>) and judged as a document of its own (\<open>JsonX\<close>, \<open>S6Evidence\<close>, \<open>S6Verify\<close>).

  \<^bold>\<open>The theories.\<close>
  \<^item> \<open>Prelude\<close>: bytes, results, big-endian numbers, and the interfaces several components share, as locales. \<open>Text\<close>: decimal numerals, white space and case (the
    strings of \<open>proof-v2/bytes.ts\<close> and \<open>s3/acc.ts\<close>). \<open>Doubles\<close>: the roundings of JavaScript numbers the spine computes with.
  \<^item> Formats. \<open>Hex\<close> and \<open>Merkle\<close> (\<open>proof-v2/bytes.ts\<close>: hex, varints, Merkle states, receipts and receipt lists), \<open>Rlp\<close> (\<open>s6/rlp.ts\<close>), \<open>Mpt\<close> (\<open>s6/mpt.ts\<close>), \<open>Der\<close>
    (\<open>sigtypes/der.ts\<close>), \<open>Abi\<close> (\<open>abi.ts\<close>), \<open>AbiDec\<close> (\<open>proof-v2/identity/abidec.ts\<close>), \<open>JsonX\<close> (the parser of \<open>s3/jsonx.ts\<close>), \<open>Wire\<close> (the binary reader of
    \<open>s3/certify.ts\<close>), \<open>Codec\<close> and \<open>CodecRound\<close> (\<open>sigtypes/wire.ts\<close>, the codec of all protocol objects).
  \<^item> Names. \<open>GoUrl\<close> (\<open>sigtypes/gourl.ts\<close>) and \<open>AccUrl\<close> (\<open>s3/acc.ts\<close>).
  \<^item> Signatures. \<open>Curves\<close> (\<open>sigtypes/curves.ts\<close>), \<open>Gate\<close> (\<open>sigtypes/gate.ts\<close>), \<open>SigVerify\<close> (\<open>sigtypes/verify.ts\<close> and \<open>txhash.ts\<close>).
  \<^item> Authority. \<open>Model\<close> (\<open>s3/model.ts\<close>: the record of a key page and the operations that change it), \<open>Replay\<close> (\<open>s3/govvote.ts\<close>, replay),
    \<open>VoteRules\<close> and \<open>Vote\<close> (\<open>s3/govvote.ts\<close>, \<open>decideVote\<close>, \<open>PageEvaluation\<close>, \<open>VoteModel\<close>, \<open>evaluate\<close>), \<open>VoteRef\<close> (the evaluation without
    memos and state, and that \<open>evaluate\<close> computes it), \<open>VoteSound\<close> (the rules of a vote, and what a vote rests on).
  \<^item> The walk. \<open>RootIndex\<close> (\<open>s3/certify.ts\<close>: leaf indices, windows, lags), \<open>Shapes\<close> (\<open>proof-v2/shapes.ts\<close>), \<open>Spine\<close> (\<open>proof-v2/spine.ts\<close>: the state of the spine is
    its record, \<open>advance\<close> its step), \<open>AccSet\<close> (\<open>proof-v2/accset.ts\<close>), \<open>SetCheck\<close> (\<open>s3/setcheck.ts\<close>), \<open>Walk21\<close> (\<open>s3/portable21.ts\<close>, \<open>s3/directory.ts\<close>).
  \<^item> The judgement of votes. \<open>Chains\<close> (\<open>s3/chains.ts\<close>), \<open>Judge\<close> (\<open>s3/states.ts\<close>, \<open>executor.ts\<close>, \<open>routing.ts\<close>, \<open>sig.ts\<close> and the types of \<open>evidence.ts\<close>), \<open>Position\<close> and
    \<open>Timeline\<close> (\<open>s3/timeline.ts\<close> to \<open>deriveArrival\<close>), \<open>Roles\<close> (\<open>s3/roles.ts\<close>), \<open>Ballot\<close> (the rest of \<open>s3/timeline.ts\<close>:
    \<open>evaluateTimeline\<close>, \<open>verifyProductions\<close>), \<open>Demo\<close> (a small network the examples are evaluated on), \<open>TimelineSound\<close>
    (what a certified timeline establishes), \<open>BallotSound\<close> (what an accepted evaluation of the votes rests on).
  \<^item> The replay guard. \<open>EthTx\<close>, \<open>S6Evidence\<close>, \<open>S6Verify\<close> (\<open>s6/replay.ts\<close>, in its order) and \<open>S6Sound\<close> (what a verdict means).

  \<^bold>\<open>How state and data correspond.\<close> A \<open>Uint8Array\<close> is a list of \<open>8 word\<close>; a string is the list of its UTF-8 bytes; a \<open>bigint\<close> is an \<open>int\<close>, or a \<open>nat\<close>
  where the code never makes it negative; a number that counts is a \<open>nat\<close>, and 64-bit and 32-bit arithmetic is written out. An interface is a \<open>record\<close>
  whose fields have a prefix of their own, a union of classes the node type \<open>wire_node\<close> of the codec. Every \<open>throw\<close> is a constructor of the component's error
  type, or the code, place and block of a named state (the text of a message is not kept); \<open>bindE\<close> is the propagation of a throw and \<open>mapErr\<close> a \<open>catch\<close>
  that throws again. A class with mutable fields passes its state explicitly (\<open>Merkle.state\<close>, the memos of the vote model, the spine).
  A loop over data is recursion on it. Two loops have no bound in the source. The walk through a trie may follow a cycle of nodes a colliding hash allows: its
  definitions are \<open>partial_function (option)\<close>, not returning is \<open>None\<close>, and it is proved to return where the nodes are
  ranked. The vote model recurses along delegations: \<open>Vote.evaluate\<close> has \<open>DELEGATION_DEPTH_LIMIT + 1\<close> levels of fuel, and no evaluation runs out
  of it, which is proved: the code refuses a path that is longer.

  \<^bold>\<open>What the lemmas show.\<close> The formats have round trips or exact characterisations: what a reader accepts is what a writer writes, and nothing else. The
  accumulator and the trie are refinements of the tree they hash, and a receipt binds its start unless the hash collides. The spine's theorems say that a
  step needs a quorum of the set in force and moves the minor block on, keep the invariant of its state, and that an honest record is accepted. The replay's
  theorems keep the order and the versions of a page. The vote model's theorems say that \<open>evaluate\<close>, with its memos, computes a reference without them;
  that a satisfied answer is derived by inductive rules over the recorded facts (what each record up to a block contributes, the latest word of each entry, the first
  block that decides), in this one direction; and that it answers. The timeline's theorems say that an accepted history is the page's own and that a derived
  arrival is what the whole index chain says; the ballot's theorem puts them together: in an accepted evaluation the key signatures are verified over the named
  transaction, each in its block, the delegated votes are placed in their blocks (and bound to no transaction), and the rules derive the vote accept for every
  authority that has to accept. The set check's theorem ties the record it decodes to the account state that is proven. The replay guard's theorems say what a proven slot
  means, that it excludes a refutation, and that no document makes the judgement throw.
  Some theorems exhibit what a check does not bind: the height of a chain beside an account (\<open>Chains\<close>), the count under which an arrival is derived
  (\<open>TimelineSound\<close>), the header of a carried \<open>RemoteTransaction\<close> (\<open>Roles\<close>), and two readings of an ambiguous vote that agree while a third does not (\<open>VoteRules\<close>).

  \<^bold>\<open>Interfaces.\<close> \<open>prefix_reader\<close> (\<open>Prelude\<close>) is a reader that takes one item off a buffer, interpreted by \<open>Rlp\<close> and \<open>Der\<close>; \<open>simulation\<close> a detailed
  operation under an abstract one, interpreted by the accumulator of \<open>Merkle\<close>; \<open>guarded_machine\<close> a step that may refuse and an invariant it keeps, interpreted by
  the replay of a page (\<open>Replay\<close>) and by the spine (\<open>Spine\<close>); \<open>proof_reader\<close> (\<open>Mpt\<close>) a database of hashed nodes, interpreted by the proof database.

  \<^bold>\<open>What is assumed.\<close> The hash functions, the arithmetic of the elliptic curves, the classes and tables of \<open>accumulate-sdk-opendlt\<close> and the generated tables of
  \<open>eip712-schema.ts\<close> are arguments of the definitions (\<open>H\<close>, \<open>K\<close>, \<open>curve_lib\<close>, \<open>codec_env\<close>, \<open>sig_env\<close>, \<open>judge_env\<close>, the environment of the spine): their code is
  outside the repository or generated. Injectivity of a hash is a hypothesis of a theorem that needs it, on the inputs hashed there. Case mapping is that of
  ASCII (with the Kelvin sign where Go folds it); names in the facts of a vote are without \<open>|\<close> and \<open>,\<close>, the two characters the memo keys are built with.

  \<^bold>\<open>Not modelled.\<close> The import of documents into protocol objects through JSON (\<open>s3/jsonwire.ts\<close>, \<open>gojson.ts\<close>, \<open>nodejson.ts\<close>, \<open>portable20.ts\<close>): the models start from the
  imported values. The EIP-712 encoding (\<open>sigtypes/eip712.ts\<close>) and the page stage \<open>s3/verify21.ts\<close> with the binding of the document's parts (\<open>bind-v21.ts\<close>),
  which are parameters or left out; the older evidence 2.0 (\<open>proof-v2/verify.ts\<close>), the identity and finality documents of \<open>proof-v2\<close>, governance roots, and the layered
  report. The client (\<open>packages/sdk\<close>), the command line (\<open>packages/cli\<close>) and the MCP server (\<open>packages/mcp\<close>) are network and terminal input and output around services that are
  not in the repository, and generated schemas.
\<close>

end
